(* ===== verification/Prelude.thy ===== *)
theory Prelude
  imports Main
begin

text \<open>
  What every component of the development shares: memory blocks as lists with the C library's
  copying operations on them (\<open>memcpy\<close>, \<open>memmove\<close>), list surgery at an index, and the
  collections of rewrite rules the component proofs are run with.
\<close>

named_theorems block_simps "rewrite rules for memory blocks"
named_theorems dynarr_simps "rewrite rules for dynamic arrays seen through their contents"

section \<open>Blocks of memory\<close>

text \<open>
  A block of \<open>n\<close> elements is a list of length \<open>n\<close>. \<open>memcpy dst i src\<close> writes \<open>src\<close> over
  the elements of \<open>dst\<close> from index \<open>i\<close> on; \<open>memmove b to from n\<close> copies \<open>n\<close> elements inside
  one block, as if through an intermediate buffer. Both keep the length of the block exactly
  when the write stays inside it.
\<close>

definition memcpy :: "'a list \<Rightarrow> nat \<Rightarrow> 'a list \<Rightarrow> 'a list" where
  "memcpy dst i src = take i dst @ src @ drop (i + length src) dst"

definition memmove :: "'a list \<Rightarrow> nat \<Rightarrow> nat \<Rightarrow> nat \<Rightarrow> 'a list" where
  "memmove b to from n = memcpy b to (take n (drop from b))"

lemma length_memcpy [simp, block_simps]:
  "i + length src \<le> length dst \<Longrightarrow> length (memcpy dst i src) = length dst"
  by (simp add: memcpy_def)

lemma length_memmove [simp, block_simps]:
  "to + n \<le> length b \<Longrightarrow> from + n \<le> length b \<Longrightarrow> length (memmove b to from n) = length b"
  by (simp add: memmove_def)

lemma nth_memcpy [block_simps]:
  assumes "i + length src \<le> length dst" and "j < length dst"
  shows "memcpy dst i src ! j = (if i \<le> j \<and> j < i + length src then src ! (j - i) else dst ! j)"
proof (cases "j < i")
  case True
  with assms show ?thesis by (simp add: memcpy_def nth_append)
next
  case False
  with assms show ?thesis by (auto simp: memcpy_def nth_append)
qed

lemma nth_memmove [block_simps]:
  assumes "to + n \<le> length b" and "from + n \<le> length b" and "j < length b"
  shows "memmove b to from n ! j = (if to \<le> j \<and> j < to + n then b ! (from + (j - to)) else b ! j)"
  using assms by (auto simp: memmove_def nth_memcpy)

lemma memmove_0 [simp, block_simps]: "memmove b to from 0 = b"
  by (simp add: memmove_def memcpy_def)

lemma memcpy_Nil [simp, block_simps]: "memcpy dst i [] = dst"
  by (simp add: memcpy_def)

text \<open>Copying in two adjacent pieces is copying at once.\<close>

lemma memcpy_memcpy_append:
  "i + length xs + length ys \<le> length dst \<Longrightarrow>
   memcpy (memcpy dst i xs) (i + length xs) ys = memcpy dst i (xs @ ys)"
  by (simp add: memcpy_def take_drop drop_drop add.commute add.left_commute)

lemma take_memcpy_below [simp, block_simps]:
  "k \<le> i \<Longrightarrow> i + length src \<le> length dst \<Longrightarrow> take k (memcpy dst i src) = take k dst"
  by (simp add: memcpy_def min_def)

lemma drop_memcpy_above [simp, block_simps]:
  "i + length src \<le> k \<Longrightarrow> i + length src \<le> length dst \<Longrightarrow> drop k (memcpy dst i src) = drop k dst"
  by (simp add: memcpy_def)

section \<open>List surgery at an index\<close>

definition list_insert_at :: "'a list \<Rightarrow> nat \<Rightarrow> 'a list \<Rightarrow> 'a list" where
  "list_insert_at xs i ys = take i xs @ ys @ drop i xs"

definition list_delete_at :: "'a list \<Rightarrow> nat \<Rightarrow> nat \<Rightarrow> 'a list" where
  "list_delete_at xs i n = take i xs @ drop (i + n) xs"

lemma length_list_insert_at [simp]: "length (list_insert_at xs i ys) = length xs + length ys"
  by (simp add: list_insert_at_def)

lemma length_list_delete_at [simp]:
  "i + n \<le> length xs \<Longrightarrow> length (list_delete_at xs i n) = length xs - n"
  by (simp add: list_delete_at_def)

lemma list_delete_insert_at [simp]:
  "i \<le> length xs \<Longrightarrow> list_delete_at (list_insert_at xs i ys) i (length ys) = xs"
  by (simp add: list_insert_at_def list_delete_at_def)

lemma list_insert_at_append [simp]:
  "list_insert_at (xs @ zs) (length xs) ys = xs @ ys @ zs"
  by (simp add: list_insert_at_def)

lemma list_delete_at_append [simp]:
  "list_delete_at (xs @ ys @ zs) (length xs) (length ys) = xs @ zs"
  by (simp add: list_delete_at_def)

lemma list_delete_at_one [simp]:
  "list_delete_at (xs @ y # zs) (length xs) (Suc 0) = xs @ zs"
  by (simp add: list_delete_at_def)

lemma list_eq_iff_nth:
  "xs = ys \<longleftrightarrow> length xs = length ys \<and> (\<forall>i < length xs. xs ! i = ys ! i)"
  by (auto intro: nth_equalityI)

section \<open>C arithmetic on integers\<close>

text \<open>
  C's \<open>/\<close> and \<open>%\<close> truncate towards zero, \<open>clamp_int\<close> is the \<open>if\<close>/\<open>else if\<close> pair with which
  the code brings an argument back into a range.
\<close>

definition c_div :: "int \<Rightarrow> int \<Rightarrow> int" where
  "c_div a b = sgn a * sgn b * (\<bar>a\<bar> div \<bar>b\<bar>)"

definition c_mod :: "int \<Rightarrow> int \<Rightarrow> int" where
  "c_mod a b = a - b * c_div a b"

lemma c_div_nonneg [simp]: "0 \<le> a \<Longrightarrow> 0 < b \<Longrightarrow> c_div a b = a div b"
  by (cases "a = 0") (simp_all add: c_div_def)

lemma c_mod_nonneg [simp]: "0 \<le> a \<Longrightarrow> 0 < b \<Longrightarrow> c_mod a b = a mod b"
  by (simp add: c_mod_def minus_mult_div_eq_mod)

definition clamp_int :: "int \<Rightarrow> int \<Rightarrow> int \<Rightarrow> int" where
  "clamp_int lo hi x = (if x < lo then lo else if x > hi then hi else x)"

lemma clamp_int_bounds: "lo \<le> hi \<Longrightarrow> lo \<le> clamp_int lo hi x \<and> clamp_int lo hi x \<le> hi"
  by (auto simp: clamp_int_def)

lemma clamp_int_id [simp]: "lo \<le> x \<Longrightarrow> x \<le> hi \<Longrightarrow> clamp_int lo hi x = x"
  by (auto simp: clamp_int_def)

end
