(* ===== verification/Dynarr.thy ===== *)
theory Dynarr
  imports Prelude
begin

text \<open>
  Dynamic arrays (\<open>src/src/dynarr.c\<close>, macros in \<open>src/src/lisp.h\<close>): a block of \<open>max\<close>
  elements of which the first \<open>cur\<close> are in use. \<open>Dynarr_contents\<close> is the list the array
  stands for; the contract of the operations over it is the locale \<open>dynamic_array\<close>, which
  the operations of the file are shown to meet.
\<close>

record 'a Dynarr =
  base :: "'a list"
  cur :: nat
  largest :: nat
  dyn_max :: nat

definition Dynarr_min_size :: nat where
  "Dynarr_min_size = 8"

text \<open>
  \<open>realloc\<close> keeps the elements that fit and leaves the new ones unspecified.
\<close>

definition Dynarr_realloc :: "'a Dynarr \<Rightarrow> nat \<Rightarrow> 'a Dynarr" where
  "Dynarr_realloc dy new_size =
     dy\<lparr>base := take new_size (base dy) @ replicate (new_size - length (base dy)) undefined\<rparr>"

definition Dynarr_newf :: "'a Dynarr" where
  "Dynarr_newf = \<lparr>base = [], cur = 0, largest = 0, dyn_max = 0\<rparr>"

text \<open>
  The loop of \<open>Dynarr_resize\<close>. The multiplier is 2 for arrays of at most 8 elements and 1.5
  beyond; the product with 1.5 is exact and truncated by the cast to \<open>int\<close>.
\<close>

function Dynarr_newsize :: "bool \<Rightarrow> nat \<Rightarrow> nat \<Rightarrow> nat" where
  "Dynarr_newsize twice newsize sz =
     (if newsize < sz
      then Dynarr_newsize twice
             (max Dynarr_min_size (if twice then 2 * newsize else 3 * newsize div 2)) sz
      else newsize)"
  by pat_completeness auto
termination
  by (relation "measure (\<lambda>(twice, newsize, sz). sz - newsize)")
    (auto simp: Dynarr_min_size_def)

declare Dynarr_newsize.simps [simp del]

definition Dynarr_resize :: "'a Dynarr \<Rightarrow> nat \<Rightarrow> 'a Dynarr" where
  "Dynarr_resize dy sz =
     (let newsize = Dynarr_newsize (dyn_max dy \<le> 8) (dyn_max dy) sz
      in if newsize > dyn_max dy
         then (Dynarr_realloc dy newsize)\<lparr>dyn_max := newsize\<rparr>
         else dy)"

definition Dynarr_insert_many :: "'a Dynarr \<Rightarrow> 'a list \<Rightarrow> int \<Rightarrow> 'a Dynarr" where
  "Dynarr_insert_many d el start0 =
     (let len = length el;
          dy = Dynarr_resize d (cur d + len);
          start = (if start0 > int (cur dy) then cur dy else if start0 < 0 then 0 else nat start0);
          b1 = (if start \<noteq> cur dy then memmove (base dy) (start + len) start (cur dy - start)
                else base dy);
          b2 = memcpy b1 start el;
          cur' = cur dy + len
      in dy\<lparr>base := b2, cur := cur',
            largest := (if cur' > largest dy then cur' else largest dy)\<rparr>)"

text \<open>A failed \<open>assert\<close> aborts the program: \<open>None\<close>.\<close>

definition Dynarr_delete_many :: "'a Dynarr \<Rightarrow> int \<Rightarrow> int \<Rightarrow> 'a Dynarr option" where
  "Dynarr_delete_many dy start len =
     (if \<not> (start \<ge> 0 \<and> len \<ge> 0 \<and> start + len \<le> int (cur dy)) then None
      else Some (dy\<lparr>base := memmove (base dy) (nat start) (nat (start + len))
                             (cur dy - nat start - nat len),
                    cur := cur dy - nat len\<rparr>))"

definition Dynarr_add :: "'a Dynarr \<Rightarrow> 'a \<Rightarrow> 'a Dynarr" where
  "Dynarr_add d el =
     (let dy = (if cur d \<ge> dyn_max d then Dynarr_resize d (cur d + 1) else d);
          cur' = cur dy + 1
      in dy\<lparr>base := (base dy)[cur dy := el], cur := cur',
            largest := (if cur' > largest dy then cur' else largest dy)\<rparr>)"

abbreviation Dynarr_add_many :: "'a Dynarr \<Rightarrow> 'a list \<Rightarrow> 'a Dynarr" where
  "Dynarr_add_many d el \<equiv> Dynarr_insert_many d el (int (cur d))"

definition Dynarr_length :: "'a Dynarr \<Rightarrow> nat" where
  "Dynarr_length d = cur d"

definition Dynarr_at :: "'a Dynarr \<Rightarrow> nat \<Rightarrow> 'a" where
  "Dynarr_at d i = base d ! i"

text \<open>A store through the pointer that \<open>Dynarr_atp\<close> returns.\<close>

definition Dynarr_put :: "'a Dynarr \<Rightarrow> nat \<Rightarrow> 'a \<Rightarrow> 'a Dynarr" where
  "Dynarr_put d i x = d\<lparr>base := (base d)[i := x]\<rparr>"

definition Dynarr_reset :: "'a Dynarr \<Rightarrow> 'a Dynarr" where
  "Dynarr_reset d = d\<lparr>cur := 0\<rparr>"

section \<open>Invariant and abstraction\<close>

definition Dynarr_ok :: "'a Dynarr \<Rightarrow> bool" where
  "Dynarr_ok d \<longleftrightarrow> length (base d) = dyn_max d \<and> cur d \<le> dyn_max d \<and>
     cur d \<le> largest d \<and> largest d \<le> dyn_max d"

definition Dynarr_contents :: "'a Dynarr \<Rightarrow> 'a list" where
  "Dynarr_contents d = take (cur d) (base d)"

lemma Dynarr_newsize_ge: "newsize \<le> Dynarr_newsize twice newsize sz \<and> sz \<le> Dynarr_newsize twice newsize sz"
proof (induction twice newsize sz rule: Dynarr_newsize.induct)
  case (1 twice newsize sz)
  show ?case
  proof (cases "newsize < sz")
    case True
    let ?n = "max Dynarr_min_size (if twice then 2 * newsize else 3 * newsize div 2)"
    have "newsize \<le> ?n" by (auto simp: Dynarr_min_size_def)
    with "1.IH" [OF True] True show ?thesis
      by (simp add: Dynarr_newsize.simps [of twice newsize sz])
  next
    case False
    then show ?thesis by (simp add: Dynarr_newsize.simps [of twice newsize sz])
  qed
qed

lemma Dynarr_resize_max: "sz \<le> dyn_max (Dynarr_resize d sz)"
  using Dynarr_newsize_ge [of "dyn_max d" "dyn_max d \<le> 8" sz]
  by (auto simp: Dynarr_resize_def Let_def)

lemma Dynarr_resize_frame [simp]:
  "cur (Dynarr_resize d sz) = cur d" "largest (Dynarr_resize d sz) = largest d"
  by (simp_all add: Dynarr_resize_def Dynarr_realloc_def Let_def)

lemma Dynarr_resize_ok: "Dynarr_ok d \<Longrightarrow> Dynarr_ok (Dynarr_resize d sz)"
  by (auto simp: Dynarr_ok_def Dynarr_resize_def Dynarr_realloc_def Let_def)

lemma Dynarr_resize_contents:
  "Dynarr_ok d \<Longrightarrow> take (cur d) (base (Dynarr_resize d sz)) = take (cur d) (base d)"
  by (auto simp: Dynarr_ok_def Dynarr_resize_def Dynarr_realloc_def Let_def)

lemma Dynarr_resize_space:
  assumes "Dynarr_ok d"
  shows "cur d \<le> length (base (Dynarr_resize d sz))" "sz \<le> length (base (Dynarr_resize d sz))"
  using Dynarr_resize_ok [OF assms, of sz] Dynarr_resize_max [of sz d]
  by (auto simp: Dynarr_ok_def)

text \<open>The memory effect of an insertion on the first \<open>c\<close> elements of a block.\<close>

lemma take_insert_block:
  assumes "s \<le> c" and "c + length el \<le> length b"
  shows "take (c + length el) (memcpy (memmove b (s + length el) s (c - s)) s el)
         = take s b @ el @ drop s (take c b)"
  using assms
  by (intro nth_equalityI) (auto simp: nth_memcpy nth_memmove nth_append)

lemma take_delete_block:
  assumes "s + n \<le> c" and "c \<le> length b"
  shows "take (c - n) (memmove b s (s + n) (c - s - n)) = take s b @ drop (s + n) (take c b)"
  using assms
  by (intro nth_equalityI) (auto simp: nth_memmove nth_append)

lemma Dynarr_insert_many_shape:
  assumes "Dynarr_ok d"
  shows "Dynarr_ok (Dynarr_insert_many d el start)"
    and "Dynarr_contents (Dynarr_insert_many d el start) =
         list_insert_at (Dynarr_contents d) (nat (clamp_int 0 (int (cur d)) start)) el"
proof -
  let ?dy = "Dynarr_resize d (cur d + length el)"
  let ?s = "if start > int (cur d) then cur d else if start < 0 then 0 else nat start"
  have s: "nat (clamp_int 0 (int (cur d)) start) = ?s" "?s \<le> cur d"
    by (auto simp: clamp_int_def)
  have sp: "cur d + length el \<le> length (base ?dy)"
    using assms by (rule Dynarr_resize_space)
  have b: "base (Dynarr_insert_many d el start)
           = memcpy (memmove (base ?dy) (?s + length el) ?s (cur d - ?s)) ?s el"
    by (simp add: Dynarr_insert_many_def Let_def)
  have c: "cur (Dynarr_insert_many d el start) = cur d + length el"
    by (simp add: Dynarr_insert_many_def Let_def)
  show "Dynarr_ok (Dynarr_insert_many d el start)"
    using Dynarr_resize_ok [OF assms, of "cur d + length el"] sp s(2)
    by (auto simp: Dynarr_ok_def Dynarr_insert_many_def Let_def)
  have "Dynarr_contents (Dynarr_insert_many d el start)
        = take ?s (base ?dy) @ el @ drop ?s (take (cur d) (base ?dy))"
    unfolding Dynarr_contents_def b c by (rule take_insert_block [OF s(2) sp])
  also have "take ?s (base ?dy) = take ?s (take (cur d) (base ?dy))"
    using s(2) by (simp add: min_def)
  finally show "Dynarr_contents (Dynarr_insert_many d el start) =
         list_insert_at (Dynarr_contents d) (nat (clamp_int 0 (int (cur d)) start)) el"
    unfolding s(1) list_insert_at_def Dynarr_contents_def Dynarr_resize_contents [OF assms] .
qed

lemma Dynarr_delete_many_shape:
  assumes "Dynarr_ok d" and "0 \<le> start" and "0 \<le> len" and "start + len \<le> int (cur d)"
  shows "\<exists>d'. Dynarr_delete_many d start len = Some d' \<and> Dynarr_ok d' \<and>
           Dynarr_contents d' = list_delete_at (Dynarr_contents d) (nat start) (nat len)"
proof -
  have n: "nat (start + len) = nat start + nat len" using assms by simp
  have le: "nat start + nat len \<le> cur d" using assms by simp
  have len: "cur d \<le> length (base d)" using assms by (simp add: Dynarr_ok_def)
  let ?b = "memmove (base d) (nat start) (nat start + nat len) (cur d - nat start - nat len)"
  have eq: "Dynarr_delete_many d start len = Some (d\<lparr>base := ?b, cur := cur d - nat len\<rparr>)"
    using assms by (simp add: Dynarr_delete_many_def n)
  moreover have "Dynarr_ok (d\<lparr>base := ?b, cur := cur d - nat len\<rparr>)"
    using assms le len by (auto simp: Dynarr_ok_def)
  moreover have "Dynarr_contents (d\<lparr>base := ?b, cur := cur d - nat len\<rparr>)
      = list_delete_at (Dynarr_contents d) (nat start) (nat len)"
    using take_delete_block [OF le len] le
    by (simp add: Dynarr_contents_def list_delete_at_def min_def)
  ultimately show ?thesis by blast
qed

section \<open>The contract of dynamic arrays\<close>

locale dynamic_array =
  fixes contents :: "'d \<Rightarrow> 'a list"
    and ok :: "'d \<Rightarrow> bool"
    and newf :: "'d"
    and len :: "'d \<Rightarrow> nat"
    and at :: "'d \<Rightarrow> nat \<Rightarrow> 'a"
    and put :: "'d \<Rightarrow> nat \<Rightarrow> 'a \<Rightarrow> 'd"
    and insert_many :: "'d \<Rightarrow> 'a list \<Rightarrow> int \<Rightarrow> 'd"
    and delete_many :: "'d \<Rightarrow> int \<Rightarrow> int \<Rightarrow> 'd option"
    and reset :: "'d \<Rightarrow> 'd"
  assumes newf: "ok newf" "contents newf = []"
    and len: "ok d \<Longrightarrow> len d = length (contents d)"
    and at: "ok d \<Longrightarrow> i < length (contents d) \<Longrightarrow> at d i = contents d ! i"
    and put_ok: "ok d \<Longrightarrow> i < length (contents d) \<Longrightarrow> ok (put d i x)"
    and put_contents: "ok d \<Longrightarrow> i < length (contents d) \<Longrightarrow> contents (put d i x) = (contents d)[i := x]"
    and insert_ok: "ok d \<Longrightarrow> ok (insert_many d xs s)"
    and insert_contents: "ok d \<Longrightarrow> contents (insert_many d xs s) =
      list_insert_at (contents d) (nat (clamp_int 0 (int (length (contents d))) s)) xs"
    and delete_some: "ok d \<Longrightarrow> 0 \<le> s \<Longrightarrow> 0 \<le> n \<Longrightarrow> s + n \<le> int (length (contents d)) \<Longrightarrow>
      \<exists>d'. delete_many d s n = Some d' \<and> ok d' \<and>
           contents d' = list_delete_at (contents d) (nat s) (nat n)"
    and reset: "ok d \<Longrightarrow> ok (reset d)" "contents (reset d) = []"
begin

lemma insert_contents_nat:
  "ok d \<Longrightarrow> i \<le> length (contents d) \<Longrightarrow>
   contents (insert_many d xs (int i)) = list_insert_at (contents d) i xs"
  by (simp add: insert_contents clamp_int_def)

lemma insert_contents_append:
  "ok d \<Longrightarrow> contents d = ps @ qs \<Longrightarrow> contents (insert_many d xs (int (length ps))) = ps @ xs @ qs"
  by (simp add: insert_contents_nat)

lemma at_append: "ok d \<Longrightarrow> contents d = ps @ x # qs \<Longrightarrow> at d (length ps) = x"
  by (simp add: at nth_append)

lemma put_append:
  assumes "ok d" and "contents d = ps @ x # qs"
  shows "ok (put d (length ps) y)" and "contents (put d (length ps) y) = ps @ y # qs"
  using assms by (simp_all add: put_ok put_contents)

lemma delete_one_append:
  assumes "ok d" and "contents d = ps @ x # qs"
  obtains d' where "delete_many d (int (length ps)) 1 = Some d'" "ok d'" "contents d' = ps @ qs"
proof -
  have b: "0 \<le> int (length ps)" "0 \<le> (1::int)"
      "int (length ps) + 1 \<le> int (length (contents d))"
    using assms(2) by simp_all
  obtain d' where "delete_many d (int (length ps)) 1 = Some d'" "ok d'"
      "contents d' = list_delete_at (contents d) (length ps) (Suc 0)"
    using delete_some [OF assms(1) b] by (auto simp: nat_1)
  then show thesis using assms(2) by (intro that) (auto simp: list_delete_at_def)
qed

lemma fill_contents: "contents (insert_many newf xs 0) = xs" "ok (insert_many newf xs 0)"
  using insert_contents_nat [OF newf(1), of 0 xs] newf
  by (simp_all add: insert_ok list_insert_at_def)

end

interpretation dyn: dynamic_array Dynarr_contents Dynarr_ok Dynarr_newf Dynarr_length
  Dynarr_at Dynarr_put Dynarr_insert_many Dynarr_delete_many Dynarr_reset
proof (unfold_locales, goal_cases)
  case 1 show ?case by (simp add: Dynarr_ok_def Dynarr_newf_def)
next
  case 2 show ?case by (simp add: Dynarr_contents_def Dynarr_newf_def)
next
  case (3 d) then show ?case by (auto simp: Dynarr_ok_def Dynarr_contents_def Dynarr_length_def)
next
  case (4 d i) then show ?case by (auto simp: Dynarr_contents_def Dynarr_at_def)
next
  case (5 d i x) then show ?case by (auto simp: Dynarr_ok_def Dynarr_put_def)
next
  case (6 d i x) then show ?case
    by (auto simp: Dynarr_contents_def Dynarr_put_def take_update_swap)
next
  case (7 d xs s) then show ?case by (rule Dynarr_insert_many_shape)
next
  case (8 d xs s)
  then have "length (Dynarr_contents d) = cur d" by (auto simp: Dynarr_ok_def Dynarr_contents_def)
  with 8 show ?case by (simp add: Dynarr_insert_many_shape)
next
  case (9 d s n)
  then have "length (Dynarr_contents d) = cur d" by (auto simp: Dynarr_ok_def Dynarr_contents_def)
  with 9 show ?case using Dynarr_delete_many_shape by auto
next
  case (10 d) then show ?case by (auto simp: Dynarr_ok_def Dynarr_reset_def)
next
  case (11 d) show ?case by (simp add: Dynarr_contents_def Dynarr_reset_def)
qed

lemma Dynarr_add_contents:
  assumes "Dynarr_ok d"
  shows "Dynarr_ok (Dynarr_add d x)" and "Dynarr_contents (Dynarr_add d x) = Dynarr_contents d @ [x]"
proof -
  let ?dy = "if cur d \<ge> dyn_max d then Dynarr_resize d (cur d + 1) else d"
  have ok: "Dynarr_ok ?dy" using assms by (simp add: Dynarr_resize_ok)
  have len: "cur d < length (base ?dy)"
    using Dynarr_resize_space(2) [OF assms, of "cur d + 1"] assms by (auto simp: Dynarr_ok_def)
  have c: "cur ?dy = cur d" by simp
  have con: "take (cur d) (base ?dy) = take (cur d) (base d)"
    using assms by (simp add: Dynarr_resize_contents)
  show "Dynarr_ok (Dynarr_add d x)"
    using ok len c unfolding Dynarr_add_def Let_def by (auto simp: Dynarr_ok_def)
  have "Dynarr_contents (Dynarr_add d x) = take (Suc (cur d)) ((base ?dy)[cur d := x])"
    by (simp add: Dynarr_contents_def Dynarr_add_def Let_def)
  also have "\<dots> = take (cur d) (base ?dy) @ [x]"
    using len by (simp add: take_Suc_conv_app_nth)
  finally show "Dynarr_contents (Dynarr_add d x) = Dynarr_contents d @ [x]"
    by (simp add: con Dynarr_contents_def)
qed

end
