(* ===== verification/Lisp.thy ===== *)
theory Lisp
  imports Dynarr Complex_Main
begin

text \<open>
  Lisp objects as \<open>lisp.h\<close> has them: a tagged word that is an integer, a character or a
  reference to a cell of one of the heap types. Two objects are \<open>EQ\<close> exactly when they are
  the same tagged word, which is HOL equality on this type. Conditions signalled to the Lisp
  level are values of \<open>lisp_error\<close>.
\<close>

datatype lrecord_type =
    Lrecord_range_table
  | Lrecord_hash_table
  | Lrecord_marker
  | Lrecord_buffer
  | Lrecord_subr
  | Lrecord_compiled_function
  | Lrecord_symbol_value_magic

datatype lisp_object =
    Lisp_Int int
  | Lisp_Char int
  | Lisp_Cons nat
  | Lisp_Symbol nat
  | Lisp_String nat
  | Lisp_Float nat
  | Lisp_Vector nat
  | Lisp_Lrecord lrecord_type nat

abbreviation (input) EQ :: "lisp_object \<Rightarrow> lisp_object \<Rightarrow> bool" where
  "EQ x y \<equiv> x = y"

text \<open>The symbols the modelled code names; interned symbols are numbered, \<open>nil\<close> first.\<close>

abbreviation "Qnil \<equiv> Lisp_Symbol 0"
abbreviation "Qt \<equiv> Lisp_Symbol 1"
abbreviation "Qeq \<equiv> Lisp_Symbol 2"
abbreviation "Qeql \<equiv> Lisp_Symbol 3"
abbreviation "Qequal \<equiv> Lisp_Symbol 4"
abbreviation "Qlambda \<equiv> Lisp_Symbol 5"
abbreviation "Qdata \<equiv> Lisp_Symbol 6"

text \<open>\<open>Qunbound\<close> is not a symbol but a record that no Lisp program can get hold of.\<close>

abbreviation "Qunbound \<equiv> Lisp_Lrecord Lrecord_symbol_value_magic 0"

text \<open>
  The last three are exits that no handler sees: a jump to a catch that is under way, with the number of
  catches outside it and the value; the end of the steps a run may take; and the end of the program.
\<close>

datatype lisp_error =
    Wrong_type_argument string lisp_object
  | Args_out_of_range lisp_object lisp_object
  | Simple_error string "lisp_object list"
  | Malformed_list lisp_object
  | Circular_list lisp_object
  | Malformed_property_list lisp_object
  | Circular_property_list lisp_object
  | Error_string string
  | Longjmp nat lisp_object
  | Out_of_fuel
  | Fatal

type_synonym 'a lresult = "lisp_error + 'a"

text \<open>
  A computation that may signal an error or not return (\<open>None\<close>), followed by another one.
\<close>

definition lbind :: "'a lresult option \<Rightarrow> ('a \<Rightarrow> 'b lresult option) \<Rightarrow> 'b lresult option" where
  "lbind r f = (case r of None \<Rightarrow> None | Some (Inl e) \<Rightarrow> Some (Inl e) | Some (Inr x) \<Rightarrow> f x)"

lemma lbind_simps [simp]:
  "lbind None f = None" "lbind (Some (Inl e)) f = Some (Inl e)" "lbind (Some (Inr x)) f = f x"
  by (simp_all add: lbind_def)

lemma lbind_mono [partial_function_mono]:
  assumes "mono_option B" and "\<And>y. mono_option (\<lambda>f. C y f)"
  shows "mono_option (\<lambda>f. lbind (B f) (\<lambda>y. C y f))"
proof -
  have "lbind (B f) (\<lambda>y. C y f) =
      Option.bind (B f) (\<lambda>r. case r of Inl e \<Rightarrow> Some (Inl e) | Inr x \<Rightarrow> C x f)" for f
    by (simp add: lbind_def Option.bind_def split: option.split)
  moreover have "mono_option (\<lambda>f. Option.bind (B f) (\<lambda>r. case r of Inl e \<Rightarrow> Some (Inl e) | Inr x \<Rightarrow> C x f))"
  proof (intro bind_mono assms(1))
    fix r
    show "mono_option (\<lambda>f. case r of Inl e \<Rightarrow> Some (Inl e) | Inr x \<Rightarrow> C x f)"
      using assms(2) by (cases r) (auto simp: monotone_def flat_ord_def)
  qed
  ultimately show ?thesis by simp
qed

fun CHECK_INT_COERCE_CHAR :: "lisp_object \<Rightarrow> int lresult" where
  "CHECK_INT_COERCE_CHAR (Lisp_Int i) = Inr i"
| "CHECK_INT_COERCE_CHAR (Lisp_Char c) = Inr c"
| "CHECK_INT_COERCE_CHAR x = Inl (Wrong_type_argument ''integer-or-char-p'' x)"

fun INTP :: "lisp_object \<Rightarrow> bool" where
  "INTP (Lisp_Int i) = True"
| "INTP _ = False"

fun CHARP :: "lisp_object \<Rightarrow> bool" where
  "CHARP (Lisp_Char c) = True"
| "CHARP _ = False"

fun CONSP :: "lisp_object \<Rightarrow> bool" where
  "CONSP (Lisp_Cons a) = True"
| "CONSP _ = False"

abbreviation (input) NILP :: "lisp_object \<Rightarrow> bool" where
  "NILP x \<equiv> EQ x Qnil"

abbreviation (input) UNBOUNDP :: "lisp_object \<Rightarrow> bool" where
  "UNBOUNDP x \<equiv> EQ x Qunbound"

fun STRINGP :: "lisp_object \<Rightarrow> bool" where
  "STRINGP (Lisp_String a) = True"
| "STRINGP _ = False"

fun VECTORP :: "lisp_object \<Rightarrow> bool" where
  "VECTORP (Lisp_Vector a) = True"
| "VECTORP _ = False"

fun FLOATP :: "lisp_object \<Rightarrow> bool" where
  "FLOATP (Lisp_Float a) = True"
| "FLOATP _ = False"

fun NATNUMP :: "lisp_object \<Rightarrow> bool" where
  "NATNUMP (Lisp_Int i) = (0 \<le> i)"
| "NATNUMP _ = False"

abbreviation (input) LISTP :: "lisp_object \<Rightarrow> bool" where
  "LISTP x \<equiv> CONSP x \<or> NILP x"

fun XINT :: "lisp_object \<Rightarrow> int" where
  "XINT (Lisp_Int i) = i"
| "XINT _ = undefined"

lemma CONSP_iff: "CONSP x \<longleftrightarrow> (\<exists>a. x = Lisp_Cons a)"
  by (cases x) auto

section \<open>The heap\<close>

text \<open>
  Each type of heap object has its own cells, numbered from 0; the cells below the counter of
  the type are allocated. The cars and the cdrs of the conses are kept apart, so that a change
  of one leaves the other alone. A range table is a record of its own (\<open>rangetab.h\<close>).
\<close>

record range_table_entry =
  rte_first :: int
  rte_last :: int
  rte_val :: lisp_object

record Lisp_Range_Table =
  rt_entries :: "range_table_entry Dynarr"

record lisp_heap =
  hcar :: "nat \<Rightarrow> lisp_object"
  hcdr :: "nat \<Rightarrow> lisp_object"
  hnext :: nat
  hstr :: "nat \<Rightarrow> string"
  hvec :: "nat \<Rightarrow> lisp_object list"
  hflt :: "nat \<Rightarrow> real"
  hrt :: "nat \<Rightarrow> Lisp_Range_Table"
  hrt_next :: nat

text \<open>The heap before anything is allocated.\<close>

definition empty_heap :: lisp_heap where
  "empty_heap = \<lparr>hcar = (\<lambda>_. Qnil), hcdr = (\<lambda>_. Qnil), hnext = 0, hstr = (\<lambda>_. []), hvec = (\<lambda>_. []),
     hflt = (\<lambda>_. 0), hrt = (\<lambda>_. \<lparr>rt_entries = Dynarr_newf\<rparr>), hrt_next = 0\<rparr>"

text \<open>\<open>XCAR\<close> and \<open>XCDR\<close> are only meaningful on conses; on anything else they read stray memory.\<close>

fun XCAR :: "lisp_heap \<Rightarrow> lisp_object \<Rightarrow> lisp_object" where
  "XCAR h (Lisp_Cons a) = hcar h a"
| "XCAR h _ = undefined"

fun XCDR :: "lisp_heap \<Rightarrow> lisp_object \<Rightarrow> lisp_object" where
  "XCDR h (Lisp_Cons a) = hcdr h a"
| "XCDR h _ = undefined"

fun XSETCAR :: "lisp_heap \<Rightarrow> lisp_object \<Rightarrow> lisp_object \<Rightarrow> lisp_heap" where
  "XSETCAR h (Lisp_Cons a) v = h\<lparr>hcar := (hcar h)(a := v)\<rparr>"
| "XSETCAR h _ v = undefined"

fun XSETCDR :: "lisp_heap \<Rightarrow> lisp_object \<Rightarrow> lisp_object \<Rightarrow> lisp_heap" where
  "XSETCDR h (Lisp_Cons a) v = h\<lparr>hcdr := (hcdr h)(a := v)\<rparr>"
| "XSETCDR h _ v = undefined"

definition Fcons :: "lisp_object \<Rightarrow> lisp_object \<Rightarrow> lisp_heap \<Rightarrow> lisp_object \<times> lisp_heap" where
  "Fcons a d h = (Lisp_Cons (hnext h),
     h\<lparr>hcar := (hcar h)(hnext h := a), hcdr := (hcdr h)(hnext h := d), hnext := Suc (hnext h)\<rparr>)"

definition Fcar :: "lisp_heap \<Rightarrow> lisp_object \<Rightarrow> lisp_object lresult" where
  "Fcar h x = (if CONSP x then Inr (XCAR h x) else if NILP x then Inr Qnil
     else Inl (Wrong_type_argument ''listp'' x))"

definition Fcdr :: "lisp_heap \<Rightarrow> lisp_object \<Rightarrow> lisp_object lresult" where
  "Fcdr h x = (if CONSP x then Inr (XCDR h x) else if NILP x then Inr Qnil
     else Inl (Wrong_type_argument ''listp'' x))"

definition Fcar_safe :: "lisp_heap \<Rightarrow> lisp_object \<Rightarrow> lisp_object" where
  "Fcar_safe h x = (if CONSP x then XCAR h x else Qnil)"

definition Fcdr_safe :: "lisp_heap \<Rightarrow> lisp_object \<Rightarrow> lisp_object" where
  "Fcdr_safe h x = (if CONSP x then XCDR h x else Qnil)"

definition Fsetcar :: "lisp_object \<Rightarrow> lisp_object \<Rightarrow> lisp_heap \<Rightarrow> (lisp_object \<times> lisp_heap) lresult" where
  "Fsetcar x v h = (if \<not> CONSP x then Inl (Wrong_type_argument ''consp'' x)
     else Inr (v, XSETCAR h x v))"

definition Fsetcdr :: "lisp_object \<Rightarrow> lisp_object \<Rightarrow> lisp_heap \<Rightarrow> (lisp_object \<times> lisp_heap) lresult" where
  "Fsetcdr x v h = (if \<not> CONSP x then Inl (Wrong_type_argument ''consp'' x)
     else Inr (v, XSETCDR h x v))"

section \<open>Paths of conses\<close>

text \<open>
  \<open>lpath h x as y\<close>: following cdrs from \<open>x\<close> visits the cells \<open>as\<close> in turn and ends in \<open>y\<close>.
  A proper list is a path to \<open>nil\<close>; a dotted one ends in another atom.
\<close>

primrec lpath :: "lisp_heap \<Rightarrow> lisp_object \<Rightarrow> nat list \<Rightarrow> lisp_object \<Rightarrow> bool" where
  "lpath h x [] y \<longleftrightarrow> x = y"
| "lpath h x (a # as) y \<longleftrightarrow> x = Lisp_Cons a \<and> lpath h (hcdr h a) as y"

definition proper_list :: "lisp_heap \<Rightarrow> lisp_object \<Rightarrow> nat list \<Rightarrow> bool" where
  "proper_list h x as \<longleftrightarrow> lpath h x as Qnil"

text \<open>The elements of a list given by its cells.\<close>

definition elements :: "lisp_heap \<Rightarrow> nat list \<Rightarrow> lisp_object list" where
  "elements h as = map (hcar h) as"

text \<open>All conses refer to allocated cells only.\<close>

definition obj_ok :: "lisp_heap \<Rightarrow> lisp_object \<Rightarrow> bool" where
  "obj_ok h x \<longleftrightarrow> (case x of Lisp_Cons a \<Rightarrow> a < hnext h | _ \<Rightarrow> True)"

definition heap_ok :: "lisp_heap \<Rightarrow> bool" where
  "heap_ok h \<longleftrightarrow> (\<forall>a < hnext h. obj_ok h (hcar h a) \<and> obj_ok h (hcdr h a))"

lemma obj_ok_Cons [simp]: "obj_ok h (Lisp_Cons a) \<longleftrightarrow> a < hnext h"
  by (simp add: obj_ok_def)

lemma obj_ok_atom: "\<not> CONSP x \<Longrightarrow> obj_ok h x"
  by (cases x) (auto simp: obj_ok_def)

lemma heap_okD: "heap_ok h \<Longrightarrow> a < hnext h \<Longrightarrow> obj_ok h (hcar h a) \<and> obj_ok h (hcdr h a)"
  by (simp add: heap_ok_def)

lemma lpath_append:
  "lpath h x (as @ bs) y \<longleftrightarrow> (\<exists>z. lpath h x as z \<and> lpath h z bs y)"
  by (induction as arbitrary: x) auto

lemma lpath_unique_end:
  "lpath h x as y \<Longrightarrow> lpath h x as z \<Longrightarrow> y = z"
  by (induction as arbitrary: x) auto

lemma lpath_upd_other [simp]:
  "a \<notin> set as \<Longrightarrow> lpath (h\<lparr>hcdr := (hcdr h)(a := v)\<rparr>) x as y = lpath h x as y"
  by (induction as arbitrary: x) auto

lemma lpath_cong:
  "(\<And>a. a \<in> set as \<Longrightarrow> hcdr h a = hcdr h' a) \<Longrightarrow> lpath h x as y = lpath h' x as y"
  by (induction as arbitrary: x) auto

lemma lpath_hcar [simp]: "lpath (h\<lparr>hcar := f\<rparr>) x as y = lpath h x as y"
  by (rule lpath_cong) simp

text \<open>A path that ends in an atom is determined by its start and visits no cell twice.\<close>

lemma lpath_atom_unique:
  "lpath h x as y \<Longrightarrow> lpath h x bs z \<Longrightarrow> \<not> CONSP y \<Longrightarrow> \<not> CONSP z \<Longrightarrow> as = bs \<and> y = z"
proof (induction as arbitrary: x bs)
  case Nil
  then show ?case by (cases bs) auto
next
  case (Cons a as)
  then show ?case by (cases bs) auto
qed

lemma lpath_atom_distinct:
  assumes "lpath h x as y" and "\<not> CONSP y"
  shows "distinct as"
  using assms
proof (induction as arbitrary: x)
  case (Cons a as)
  have "a \<notin> set as"
  proof
    assume "a \<in> set as"
    then obtain us vs where as: "as = us @ a # vs" by (auto simp: in_set_conv_decomp)
    with Cons.prems have "lpath h (hcdr h a) (us @ a # vs) y" "lpath h (hcdr h a) vs y"
      by (auto simp: lpath_append)
    then have "us @ a # vs = vs" using lpath_atom_unique Cons.prems(2) by blast
    then have "length (us @ a # vs) = length vs" by (rule arg_cong)
    then show False by simp
  qed
  with Cons show ?case by auto
qed simp

lemma proper_list_distinct: "proper_list h x as \<Longrightarrow> distinct as"
  unfolding proper_list_def by (erule lpath_atom_distinct) simp

lemma proper_list_simps [simp]:
  "proper_list h x [] \<longleftrightarrow> x = Qnil"
  "proper_list h x (a # as) \<longleftrightarrow> x = Lisp_Cons a \<and> proper_list h (hcdr h a) as"
  by (simp_all add: proper_list_def)

lemma proper_list_Qnil [simp]: "proper_list h Qnil as \<longleftrightarrow> as = []"
  by (cases as) auto

lemma elements_simps [simp]:
  "elements h [] = []" "elements h (a # as) = hcar h a # elements h as"
  "length (elements h as) = length as"
  "elements h (as @ bs) = elements h as @ elements h bs"
  by (simp_all add: elements_def)

lemma elements_hcdr [simp]: "elements (h\<lparr>hcdr := f\<rparr>) as = elements h as"
  by (simp add: elements_def)

lemma lpath_allocated:
  assumes "heap_ok h" and "obj_ok h x" and "lpath h x as y"
  shows "(\<forall>a \<in> set as. a < hnext h) \<and> obj_ok h y"
  using assms(2,3)
proof (induction as arbitrary: x)
  case (Cons a as)
  from Cons.prems have "a < hnext h" by auto
  with heap_okD [OF assms(1)] Cons.IH [of "hcdr h a"] Cons.prems(2) show ?case by simp
qed simp

end
