(* ===== verification/RangeTable.thy ===== *)
theory RangeTable
  imports Lisp
begin

text \<open>
  Range tables (\<open>src/src/rangetab.c\<close>): a sorted dynamic array of disjoint ranges of integers
  with a Lisp value each. The operations are modelled over the dynamic arrays of \<open>Dynarr\<close>
  and shown to implement a partial function from positions to values: lookup by binary search
  finds its value, \<open>put_range_table\<close> is its update on an interval, and the array stays sorted,
  disjoint and free of ranges that could be merged.
\<close>

section \<open>Operations\<close>

text \<open>The assertions of \<open>verify_range_table\<close>, entry by entry.\<close>

fun verify_range_table_from :: "range_table_entry Dynarr \<Rightarrow> nat \<Rightarrow> bool" where
  "verify_range_table_from d 0 = True"
| "verify_range_table_from d (Suc i) =
     (verify_range_table_from d i \<and>
      rte_last (Dynarr_at d i) \<ge> rte_first (Dynarr_at d i) \<and>
      (if i > 0 then rte_last (Dynarr_at d (i - 1)) < rte_first (Dynarr_at d i) else True))"

definition verify_range_table :: "Lisp_Range_Table \<Rightarrow> bool" where
  "verify_range_table rt = verify_range_table_from (rt_entries rt) (Dynarr_length (rt_entries rt))"

text \<open>The binary search; \<open>None\<close> would be a search that does not return.\<close>

partial_function (option) get_range_table_loop ::
    "int \<Rightarrow> range_table_entry list \<Rightarrow> lisp_object \<Rightarrow> nat \<Rightarrow> nat \<Rightarrow> lisp_object option" where
  "get_range_table_loop pos tab dflt left right =
     (if left = right then Some dflt
      else let newpos = (left + right) div 2;
               entry = tab ! newpos
           in if pos > rte_last entry then get_range_table_loop pos tab dflt (newpos + 1) right
              else if pos < rte_first entry then get_range_table_loop pos tab dflt left newpos
              else Some (rte_val entry))"

declare get_range_table_loop.simps [code]

definition get_range_table :: "int \<Rightarrow> nat \<Rightarrow> range_table_entry list \<Rightarrow> lisp_object \<Rightarrow> lisp_object option" where
  "get_range_table pos nentries tab dflt = get_range_table_loop pos tab dflt 0 nentries"

text \<open>
  The loop of \<open>put_range_table\<close> that removes the new range from the existing ones. The last
  argument is \<open>insert_me_here\<close>, \<open>None\<close> for its initial value \<open>-1\<close>. A result \<open>None\<close> is a
  failed assertion or a loop that does not return.
\<close>

partial_function (option) put_range_table_loop ::
    "int \<Rightarrow> int \<Rightarrow> range_table_entry Dynarr \<Rightarrow> nat \<Rightarrow> nat option
     \<Rightarrow> (range_table_entry Dynarr \<times> nat \<times> nat option) option" where
  "put_range_table_loop lo hi d i insert_me_here =
     (if i < Dynarr_length d
      then let entry = Dynarr_at d i;
               here = (if rte_first entry \<ge> lo \<and> insert_me_here = None then Some i
                       else insert_me_here)
           in if rte_last entry < lo then put_range_table_loop lo hi d (i + 1) here
              else if rte_first entry > hi then Some (d, i, here)
              else if rte_first entry < lo \<and> rte_last entry \<le> hi
              then put_range_table_loop lo hi
                     (Dynarr_put d i (entry\<lparr>rte_last := lo - 1\<rparr>)) (i + 1) here
              else if rte_first entry < lo \<and> rte_last entry > hi
              then let insert_me_too = \<lparr>rte_first = hi + 1, rte_last = rte_last entry,
                                        rte_val = rte_val entry\<rparr>;
                       d1 = Dynarr_put d i (entry\<lparr>rte_last := lo - 1\<rparr>)
                   in put_range_table_loop lo hi
                        (Dynarr_insert_many d1 [insert_me_too] (int i + 1)) (i + 1) here
              else if rte_last entry > hi
              then put_range_table_loop lo hi
                     (Dynarr_put d i (entry\<lparr>rte_first := hi + 1\<rparr>)) (i + 1) here
              else case Dynarr_delete_many d (int i) 1 of
                     None \<Rightarrow> None
                   | Some d1 \<Rightarrow> put_range_table_loop lo hi d1 i here
      else Some (d, i, insert_me_here))"

declare put_range_table_loop.simps [code]

text \<open>Merging the new entry, at index \<open>k\<close>, with the one before it: the array, index and start then.\<close>

definition put_range_table_before ::
    "int \<Rightarrow> int \<Rightarrow> lisp_object \<Rightarrow> range_table_entry Dynarr \<Rightarrow> nat
     \<Rightarrow> (range_table_entry Dynarr \<times> nat \<times> int) option" where
  "put_range_table_before lo hi val d k =
     (if k > 0
      then let entry = Dynarr_at d (k - 1)
           in if EQ val (rte_val entry) \<and> rte_last entry = lo - 1
              then case Dynarr_delete_many (Dynarr_put d (k - 1) (entry\<lparr>rte_last := hi\<rparr>)) (int k) 1 of
                     None \<Rightarrow> None
                   | Some d1 \<Rightarrow> Some (d1, k - 1, rte_first entry)
              else Some (d, k, lo)
      else Some (d, k, lo))"

definition put_range_table_after ::
    "int \<Rightarrow> int \<Rightarrow> lisp_object \<Rightarrow> range_table_entry Dynarr \<Rightarrow> nat
     \<Rightarrow> range_table_entry Dynarr option" where
  "put_range_table_after lo hi val d k =
     (if int k < int (Dynarr_length d) - 1
      then let entry = Dynarr_at d (k + 1)
           in if EQ val (rte_val entry) \<and> rte_first entry = hi + 1
              then Dynarr_delete_many (Dynarr_put d (k + 1) (entry\<lparr>rte_first := lo\<rparr>)) (int k) 1
              else Some d
      else Some d)"

definition put_range_table ::
    "Lisp_Range_Table \<Rightarrow> int \<Rightarrow> int \<Rightarrow> lisp_object \<Rightarrow> Lisp_Range_Table option" where
  "put_range_table rt lo hi val =
     (case put_range_table_loop lo hi (rt_entries rt) 0 None of
        None \<Rightarrow> None
      | Some (d1, i, here) \<Rightarrow>
          if UNBOUNDP val then Some (rt\<lparr>rt_entries := d1\<rparr>)
          else let k = (case here of None \<Rightarrow> i | Some k \<Rightarrow> k);
                   d2 = Dynarr_insert_many d1
                          [\<lparr>rte_first = lo, rte_last = hi, rte_val = val\<rparr>] (int k)
               in case put_range_table_before lo hi val d2 k of
                    None \<Rightarrow> None
                  | Some (d3, k', lo') \<Rightarrow>
                      map_option (\<lambda>d4. rt\<lparr>rt_entries := d4\<rparr>)
                        (put_range_table_after lo' hi val d3 k'))"

section \<open>The partial function a range table stands for\<close>

fun entries_lookup :: "range_table_entry list \<Rightarrow> int \<Rightarrow> lisp_object option" where
  "entries_lookup [] p = None"
| "entries_lookup (e # es) p =
     (if rte_first e \<le> p \<and> p \<le> rte_last e then Some (rte_val e) else entries_lookup es p)"

definition before :: "range_table_entry \<Rightarrow> range_table_entry \<Rightarrow> bool" where
  "before a b \<longleftrightarrow> rte_last a < rte_first b"

definition entries_ok :: "range_table_entry list \<Rightarrow> bool" where
  "entries_ok es \<longleftrightarrow> (\<forall>e \<in> set es. rte_first e \<le> rte_last e) \<and> sorted_wrt before es"

text \<open>No two neighbours could be merged into one range.\<close>

fun entries_merged :: "range_table_entry list \<Rightarrow> bool" where
  "entries_merged (a # b # es) =
     (\<not> (rte_val a = rte_val b \<and> rte_first b = rte_last a + 1) \<and> entries_merged (b # es))"
| "entries_merged _ = True"

abbreviation rt_list :: "Lisp_Range_Table \<Rightarrow> range_table_entry list" where
  "rt_list rt \<equiv> Dynarr_contents (rt_entries rt)"

definition range_table_ok :: "Lisp_Range_Table \<Rightarrow> bool" where
  "range_table_ok rt \<longleftrightarrow> Dynarr_ok (rt_entries rt) \<and> entries_ok (rt_list rt) \<and> entries_merged (rt_list rt)"

definition range_table_fun :: "Lisp_Range_Table \<Rightarrow> int \<Rightarrow> lisp_object option" where
  "range_table_fun rt = entries_lookup (rt_list rt)"

subsection \<open>Lemmas on entry lists\<close>

lemma entries_ok_Nil [simp]: "entries_ok []"
  by (simp add: entries_ok_def)

lemma entries_ok_Cons [simp]:
  "entries_ok (e # es) \<longleftrightarrow> rte_first e \<le> rte_last e \<and> (\<forall>x \<in> set es. before e x) \<and> entries_ok es"
  by (auto simp: entries_ok_def)

lemma entries_ok_append:
  "entries_ok (xs @ ys) \<longleftrightarrow> entries_ok xs \<and> entries_ok ys \<and> (\<forall>x \<in> set xs. \<forall>y \<in> set ys. before x y)"
  by (auto simp: entries_ok_def sorted_wrt_append)

lemma entries_lookup_append:
  "entries_lookup (xs @ ys) p =
     (case entries_lookup xs p of None \<Rightarrow> entries_lookup ys p | Some v \<Rightarrow> Some v)"
  by (induction xs) auto

lemma entries_lookup_None:
  "(\<forall>e \<in> set es. p < rte_first e \<or> rte_last e < p) \<Longrightarrow> entries_lookup es p = None"
  by (induction es) auto

lemma entries_lookup_nth:
  assumes "entries_ok es" and "i < length es" and "rte_first (es ! i) \<le> p" and "p \<le> rte_last (es ! i)"
  shows "entries_lookup es p = Some (rte_val (es ! i))"
  using assms
proof (induction es arbitrary: i)
  case (Cons e es)
  show ?case
  proof (cases i)
    case 0 with Cons.prems show ?thesis by simp
  next
    case (Suc j)
    with Cons.prems have "before e (es ! j)" by simp
    then have "rte_last e < p" using Cons.prems(3) Suc by (simp add: before_def)
    with Suc Cons show ?thesis by simp
  qed
qed simp

section \<open>Lookup\<close>

text \<open>
  The loop invariant of the search: entries left of \<open>left\<close> lie below the position, entries from
  \<open>right\<close> on above it.
\<close>

lemma get_range_table_loop_correct:
  assumes "entries_ok es" and "left \<le> right" and "right \<le> length es"
    and "\<forall>j < left. rte_last (es ! j) < pos"
    and "\<forall>j. right \<le> j \<longrightarrow> j < length es \<longrightarrow> pos < rte_first (es ! j)"
    and "\<forall>j < length es. tab ! j = es ! j"
  shows "get_range_table_loop pos tab dflt left right =
         Some (case entries_lookup es pos of None \<Rightarrow> dflt | Some v \<Rightarrow> v)"
  using assms
proof (induction "right - left" arbitrary: left right rule: less_induct)
  case less
  show ?case
  proof (cases "left = right")
    case True
    have "\<forall>e \<in> set es. pos < rte_first e \<or> rte_last e < pos"
    proof
      fix e assume "e \<in> set es"
      then obtain j where "j < length es" "e = es ! j" by (auto simp: in_set_conv_nth)
      then show "pos < rte_first e \<or> rte_last e < pos"
        using less.prems True by (cases "j < left") auto
    qed
    then have "entries_lookup es pos = None" by (rule entries_lookup_None)
    with True show ?thesis by (simp add: get_range_table_loop.simps)
  next
    case False
    let ?m = "(left + right) div 2"
    have m: "left \<le> ?m" "?m < right" "?m < length es" using False less.prems by auto
    have srt: "\<And>i j. i < j \<Longrightarrow> j < length es \<Longrightarrow> before (es ! i) (es ! j)"
      using less.prems(1) by (auto simp: entries_ok_def sorted_wrt_iff_nth_less)
    have rng: "\<And>j. j < length es \<Longrightarrow> rte_first (es ! j) \<le> rte_last (es ! j)"
      using less.prems(1) by (auto simp: entries_ok_def)
    have tabm: "tab ! ?m = es ! ?m" using less.prems(6) m by simp
    consider (above) "pos > rte_last (es ! ?m)" | (below) "pos < rte_first (es ! ?m)"
      | (here) "rte_first (es ! ?m) \<le> pos" "pos \<le> rte_last (es ! ?m)" by linarith
    then show ?thesis
    proof cases
      case above
      have "\<forall>j < ?m + 1. rte_last (es ! j) < pos"
      proof (intro allI impI)
        fix j assume "j < ?m + 1"
        then consider "j = ?m" | "j < ?m" by linarith
        then show "rte_last (es ! j) < pos"
        proof cases
          case 2
          then show ?thesis using srt [of j ?m] rng [of ?m] m(3) above by (force simp: before_def)
        qed (use above in simp)
      qed
      moreover have "right - (?m + 1) < right - left" "?m + 1 \<le> right" using m by auto
      ultimately have "get_range_table_loop pos tab dflt (?m + 1) right =
          Some (case entries_lookup es pos of None \<Rightarrow> dflt | Some v \<Rightarrow> v)"
        using less.prems by (intro less.hyps) auto
      with above False show ?thesis
        by (simp add: get_range_table_loop.simps [of pos tab dflt left right] Let_def tabm)
    next
      case below
      have "\<forall>j. ?m \<le> j \<longrightarrow> j < length es \<longrightarrow> pos < rte_first (es ! j)"
      proof (intro allI impI)
        fix j assume "?m \<le> j" "j < length es"
        then consider "j = ?m" | "?m < j" by linarith
        then show "pos < rte_first (es ! j)"
        proof cases
          case 2
          then show ?thesis using srt [of ?m j] rng [of ?m] m(3) below \<open>j < length es\<close>
            by (force simp: before_def)
        qed (use below in simp)
      qed
      moreover have "?m - left < right - left" using m by linarith
      ultimately have "get_range_table_loop pos tab dflt left ?m =
          Some (case entries_lookup es pos of None \<Rightarrow> dflt | Some v \<Rightarrow> v)"
        using less.prems m by (intro less.hyps) auto
      with below False rng [OF m(3)] show ?thesis
        by (simp add: get_range_table_loop.simps [of pos tab dflt left right] Let_def tabm)
    next
      case here
      then have "entries_lookup es pos = Some (rte_val (es ! ?m))"
        using entries_lookup_nth [OF less.prems(1) m(3)] by simp
      with here False show ?thesis
        by (simp add: get_range_table_loop.simps [of pos tab dflt left right] Let_def tabm)
    qed
  qed
qed

section \<open>Removing a range\<close>

text \<open>
  The parts of an entry strictly below \<open>lo\<close> and strictly above \<open>hi\<close>: what the loop leaves
  of it on the two sides of the new range.
\<close>

definition clip_below :: "int \<Rightarrow> range_table_entry \<Rightarrow> range_table_entry list" where
  "clip_below lo e =
     (if rte_last e < lo then [e]
      else if rte_first e < lo then [e\<lparr>rte_last := lo - 1\<rparr>] else [])"

definition clip_above :: "int \<Rightarrow> range_table_entry \<Rightarrow> range_table_entry list" where
  "clip_above hi e =
     (if rte_first e > hi then [e]
      else if rte_last e > hi then [e\<lparr>rte_first := hi + 1\<rparr>] else [])"

primrec clips_below :: "int \<Rightarrow> range_table_entry list \<Rightarrow> range_table_entry list" where
  "clips_below lo [] = []"
| "clips_below lo (e # es) = clip_below lo e @ clips_below lo es"

primrec clips_above :: "int \<Rightarrow> range_table_entry list \<Rightarrow> range_table_entry list" where
  "clips_above hi [] = []"
| "clips_above hi (e # es) = clip_above hi e @ clips_above hi es"

lemma clips_beyond:
  assumes "\<forall>e \<in> set es. rte_first e > hi" and "lo \<le> hi"
    and "\<forall>e \<in> set es. rte_first e \<le> rte_last e"
  shows "clips_below lo es = []" and "clips_above hi es = es"
  using assms by (induction es) (auto simp: clip_below_def clip_above_def)

text \<open>Once the rest of the array lies above the new range, the loop stops where it is.\<close>

lemma put_loop_beyond:
  assumes "Dynarr_ok d" and "Dynarr_contents d = ps @ qs" and "lo \<le> hi"
    and "\<forall>e \<in> set qs. rte_first e > hi" and "\<forall>e \<in> set qs. rte_first e \<le> rte_last e"
  shows "put_range_table_loop lo hi d (length ps) here =
    Some (d, length ps, if here = None \<and> qs \<noteq> [] then Some (length ps) else here)"
proof (cases qs)
  case Nil
  with assms show ?thesis by (simp add: put_range_table_loop.simps dyn.len)
next
  case (Cons q qs')
  with assms have "Dynarr_at d (length ps) = q" by (simp add: dyn.at_append)
  with Cons assms show ?thesis
    by (subst put_range_table_loop.simps) (auto simp: dyn.len Let_def)
qed

definition loop_leaves ::
    "range_table_entry list \<Rightarrow> range_table_entry list \<Rightarrow>
     (range_table_entry Dynarr \<times> nat \<times> nat option) option \<Rightarrow> bool" where
  "loop_leaves ls rs r \<longleftrightarrow> (\<exists>d i here. r = Some (d, i, here) \<and> Dynarr_ok d \<and>
     Dynarr_contents d = ls @ rs \<and> (case here of None \<Rightarrow> i | Some k \<Rightarrow> k) = length ls)"

lemma put_loop_leaves:
  assumes "Dynarr_ok d" and "Dynarr_contents d = ps @ es" and "lo \<le> hi"
    and "entries_ok es"
    and "here = None \<or> here = Some (length ps) \<and> (\<forall>e \<in> set es. lo \<le> rte_first e)"
  shows "loop_leaves (ps @ clips_below lo es) (clips_above hi es)
           (put_range_table_loop lo hi d (length ps) here)"
  using assms
proof (induction es arbitrary: d ps here)
  case Nil
  then have "put_range_table_loop lo hi d (length ps) here = Some (d, length ps, here)"
    by (simp add: put_range_table_loop.simps dyn.len)
  with Nil show ?case by (auto simp: loop_leaves_def)
next
  case (Cons e es)
  let ?loop = "put_range_table_loop lo hi"
  have at: "Dynarr_at d (length ps) = e" and lt: "length ps < Dynarr_length d"
    using Cons.prems by (simp_all add: dyn.at_append dyn.len)
  note unf = put_range_table_loop.simps [of lo hi d "length ps" here]
  have le: "rte_first e \<le> rte_last e" and ok: "entries_ok es" and
    aft: "\<forall>x \<in> set es. rte_last e < rte_first x"
    using Cons.prems by (auto simp: before_def)
  have rng: "\<forall>x \<in> set es. rte_first x \<le> rte_last x" using ok by (simp add: entries_ok_def)
  let ?here = "if rte_first e \<ge> lo \<and> here = None then Some (length ps) else here"
  consider (below) "rte_last e < lo" | (above) "lo \<le> rte_last e" "hi < rte_first e"
    | (tail) "lo \<le> rte_last e" "rte_first e < lo" "rte_last e \<le> hi"
    | (split) "rte_first e < lo" "hi < rte_last e"
    | (head) "lo \<le> rte_first e" "rte_first e \<le> hi" "hi < rte_last e"
    | (inside) "lo \<le> rte_first e" "rte_last e \<le> hi"
    using le by linarith
  then show ?case
  proof cases
    case below
    then have st: "?loop d (length ps) here = ?loop d (length (ps @ [e])) here"
      using at lt le by (simp add: unf Let_def)
    have hn: "here = None" using Cons.prems(5) below le by auto
    have "loop_leaves ((ps @ [e]) @ clips_below lo es) (clips_above hi es)
        (?loop d (length (ps @ [e])) here)"
      by (rule Cons.IH) (use Cons.prems ok hn in auto)
    moreover have "clip_below lo e = [e]" "clip_above hi e = []"
      using below le Cons.prems(3) by (auto simp: clip_below_def clip_above_def)
    ultimately show ?thesis unfolding st by simp
  next
    case above
    have all: "\<forall>x \<in> set (e # es). rte_first x > hi" using above aft le by force
    have "?loop d (length ps) here = Some (d, length ps, if here = None then Some (length ps) else here)"
      using put_loop_beyond [OF Cons.prems(1,2,3) all] le rng by simp
    moreover have "clips_below lo (e # es) = []" "clips_above hi (e # es) = e # es"
      using clips_beyond [OF all Cons.prems(3)] le rng by simp_all
    ultimately show ?thesis using Cons.prems by (auto simp: loop_leaves_def)
  next
    case tail
    let ?e = "e\<lparr>rte_last := lo - 1\<rparr>" let ?d = "Dynarr_put d (length ps) ?e"
    have st: "?loop d (length ps) here = ?loop ?d (length (ps @ [?e])) here"
      using tail at lt by (simp add: unf Let_def)
    have hn: "here = None" using Cons.prems(5) tail by auto
    have "loop_leaves ((ps @ [?e]) @ clips_below lo es) (clips_above hi es)
        (?loop ?d (length (ps @ [?e])) here)"
      by (rule Cons.IH) (use Cons.prems ok hn dyn.put_append [OF Cons.prems(1,2)] in auto)
    moreover have "clip_below lo e = [?e]" "clip_above hi e = []"
      using tail le Cons.prems(3) by (auto simp: clip_below_def clip_above_def)
    ultimately show ?thesis unfolding st by simp
  next
    case split
    let ?e = "e\<lparr>rte_last := lo - 1\<rparr>" let ?d = "Dynarr_put d (length ps) ?e"
    let ?n = "\<lparr>rte_first = hi + 1, rte_last = rte_last e, rte_val = rte_val e\<rparr>"
    let ?d2 = "Dynarr_insert_many ?d [?n] (int (length ps) + 1)"
    have st: "?loop d (length ps) here = ?loop ?d2 (length (ps @ [?e])) here"
      using split at lt Cons.prems(3) by (simp add: unf Let_def)
    have okd: "Dynarr_ok ?d" and cd: "Dynarr_contents ?d = (ps @ [?e]) @ es"
      using dyn.put_append [OF Cons.prems(1,2)] by auto
    have c2: "Dynarr_ok ?d2" "Dynarr_contents ?d2 = (ps @ [?e]) @ [?n] @ es"
      using dyn.insert_contents_append [OF okd cd, of "[?n]"] dyn.insert_ok [OF okd]
      by (simp_all add: add.commute)
    have all: "\<forall>x \<in> set ([?n] @ es). rte_first x > hi" "\<forall>x \<in> set ([?n] @ es). rte_first x \<le> rte_last x"
      using split aft rng by force+
    have hn: "here = None" using Cons.prems(5) split by auto
    have "?loop ?d2 (length (ps @ [?e])) here = Some (?d2, length (ps @ [?e]), Some (length (ps @ [?e])))"
      using put_loop_beyond [OF c2 Cons.prems(3) all] hn by simp
    moreover have "clips_below lo (e # es) = [?e]" "clips_above hi (e # es) = ?n # es"
      using clips_beyond [of es hi lo] all split Cons.prems(3)
      by (auto simp: clip_below_def clip_above_def)
    ultimately show ?thesis unfolding st using c2 by (auto simp: loop_leaves_def)
  next
    case head
    let ?e = "e\<lparr>rte_first := hi + 1\<rparr>" let ?d = "Dynarr_put d (length ps) ?e"
    have st: "?loop d (length ps) here = ?loop ?d (length (ps @ [?e])) ?here"
      using head at lt by (auto simp: unf Let_def)
    have cd: "Dynarr_ok ?d" "Dynarr_contents ?d = (ps @ [?e]) @ es"
      using dyn.put_append [OF Cons.prems(1,2)] by auto
    have all: "\<forall>x \<in> set es. rte_first x > hi" using head aft by force
    have "?loop ?d (length (ps @ [?e])) ?here = Some (?d, length (ps @ [?e]), Some (length ps))"
      using put_loop_beyond [OF cd Cons.prems(3) all rng, of ?here] head Cons.prems(5) by auto
    moreover have "clips_below lo (e # es) = []" "clips_above hi (e # es) = ?e # es"
      using clips_beyond [OF all Cons.prems(3) rng] head by (auto simp: clip_below_def clip_above_def)
    ultimately show ?thesis unfolding st using cd by (auto simp: loop_leaves_def)
  next
    case inside
    obtain d1 where d1: "Dynarr_delete_many d (int (length ps)) 1 = Some d1"
        "Dynarr_ok d1" "Dynarr_contents d1 = ps @ es"
      using dyn.delete_one_append [OF Cons.prems(1,2)] by blast
    have st: "?loop d (length ps) here = ?loop d1 (length ps) (Some (length ps))"
      using inside at lt le d1(1) Cons.prems(5) by (auto simp: unf Let_def)
    have "loop_leaves (ps @ clips_below lo es) (clips_above hi es)
        (?loop d1 (length ps) (Some (length ps)))"
      by (rule Cons.IH) (use d1 Cons.prems ok aft inside le in force)+
    moreover have "clip_below lo e = []" "clip_above hi e = []"
      using inside le by (auto simp: clip_below_def clip_above_def)
    ultimately show ?thesis unfolding st by simp
  qed
qed

subsection \<open>What removal leaves\<close>

lemma clips_below_le: "x \<in> set (clips_below lo es) \<Longrightarrow> rte_last x < lo"
  by (induction es) (auto simp: clip_below_def split: if_splits)

lemma clips_above_gt: "x \<in> set (clips_above hi es) \<Longrightarrow> hi < rte_first x"
  by (induction es) (auto simp: clip_above_def split: if_splits)

lemma clips_below_from:
  "x \<in> set (clips_below lo es) \<Longrightarrow>
   \<exists>e \<in> set es. rte_first x = rte_first e \<and> rte_last x \<le> rte_last e \<and> (rte_first e < lo \<or> rte_last e < lo)"
  by (induction es) (auto simp: clip_below_def split: if_splits)

lemma clips_above_from:
  "x \<in> set (clips_above hi es) \<Longrightarrow> \<exists>e \<in> set es. rte_last x = rte_last e \<and> rte_first e \<le> rte_first x"
  by (induction es) (auto simp: clip_above_def split: if_splits)

lemma clips_below_Nil:
  assumes "\<forall>e \<in> set es. lo \<le> rte_first e" and "entries_ok es"
  shows "clips_below lo es = []"
  using assms by (induction es) (auto simp: clip_below_def)

lemma clips_below_ok: "entries_ok es \<Longrightarrow> entries_ok (clips_below lo es)"
proof (induction es)
  case (Cons e es)
  then have "entries_ok (clip_below lo e)" by (auto simp: clip_below_def)
  moreover have "before x y" if "x \<in> set (clip_below lo e)" "y \<in> set (clips_below lo es)" for x y
    using that clips_below_from [OF that(2)] Cons.prems
    by (fastforce simp: clip_below_def before_def split: if_splits)
  ultimately show ?case using Cons by (simp add: entries_ok_append)
qed simp

lemma clips_above_ok: "entries_ok es \<Longrightarrow> entries_ok (clips_above hi es)"
proof (induction es)
  case (Cons e es)
  then have "entries_ok (clip_above hi e)" by (auto simp: clip_above_def)
  moreover have "before x y" if "x \<in> set (clip_above hi e)" "y \<in> set (clips_above hi es)" for x y
    using that clips_above_from [OF that(2)] Cons.prems
    by (fastforce simp: clip_above_def before_def split: if_splits)
  ultimately show ?case using Cons by (simp add: entries_ok_append)
qed simp

lemma clips_ok:
  assumes "entries_ok es" and "lo \<le> hi"
  shows "entries_ok (clips_below lo es @ clips_above hi es)"
  using assms clips_below_le [of _ lo es] clips_above_gt [of _ hi es]
  unfolding entries_ok_append
  by (metis before_def clips_above_ok clips_below_ok less_le_trans less_trans)

lemma lookup_clips_below:
  "entries_ok es \<Longrightarrow> p < lo \<Longrightarrow> entries_lookup (clips_below lo es) p = entries_lookup es p"
  by (induction es) (auto simp: entries_lookup_append clip_below_def)

lemma lookup_clips_above:
  "entries_ok es \<Longrightarrow> hi < p \<Longrightarrow> entries_lookup (clips_above hi es) p = entries_lookup es p"
  by (induction es) (auto simp: entries_lookup_append clip_above_def)

lemma lookup_clips_below_None: "lo \<le> p \<Longrightarrow> entries_lookup (clips_below lo es) p = None"
  by (rule entries_lookup_None) (use clips_below_le in fastforce)

lemma lookup_clips_above_None: "p \<le> hi \<Longrightarrow> entries_lookup (clips_above hi es) p = None"
  by (rule entries_lookup_None) (use clips_above_gt in fastforce)

lemma lookup_clips:
  assumes "entries_ok es" and "lo \<le> hi"
  shows "entries_lookup (clips_below lo es @ clips_above hi es) p =
         (if lo \<le> p \<and> p \<le> hi then None else entries_lookup es p)"
proof -
  consider "p < lo" | "lo \<le> p" "p \<le> hi" | "hi < p" by linarith
  then show ?thesis
    using assms
    by cases (auto simp: entries_lookup_append lookup_clips_below lookup_clips_above
        lookup_clips_below_None lookup_clips_above_None split: option.split)
qed

subsection \<open>Ranges that touch\<close>

definition touch :: "range_table_entry \<Rightarrow> range_table_entry \<Rightarrow> bool" where
  "touch a b \<longleftrightarrow> rte_val a = rte_val b \<and> rte_first b = rte_last a + 1"

lemma entries_merged_Cons:
  "entries_merged (a # es) \<longleftrightarrow> (es \<noteq> [] \<longrightarrow> \<not> touch a (hd es)) \<and> entries_merged es"
  by (cases es) (auto simp: touch_def)

lemma entries_merged_append:
  "entries_merged (xs @ ys) \<longleftrightarrow> entries_merged xs \<and> entries_merged ys \<and>
     (xs \<noteq> [] \<longrightarrow> ys \<noteq> [] \<longrightarrow> \<not> touch (last xs) (hd ys))"
proof (induction xs)
  case (Cons x xs)
  then show ?case by (cases xs) (auto simp: entries_merged_Cons)
qed simp

lemma clips_below_hd:
  assumes "entries_ok es" and "clips_below lo es \<noteq> []"
  shows "es \<noteq> [] \<and> rte_first (hd (clips_below lo es)) = rte_first (hd es) \<and>
         rte_val (hd (clips_below lo es)) = rte_val (hd es)"
proof (cases es)
  case (Cons e es')
  show ?thesis
  proof (cases "rte_first e < lo")
    case True
    with Cons show ?thesis by (auto simp: clip_below_def)
  next
    case False
    have "clips_below lo es = []"
      by (rule clips_below_Nil) (use False assms(1) Cons in \<open>auto simp: before_def\<close>)
    with assms show ?thesis by simp
  qed
qed (use assms in simp)

lemma clips_below_merged:
  "entries_ok es \<Longrightarrow> entries_merged es \<Longrightarrow> entries_merged (clips_below lo es)"
proof (induction es)
  case (Cons e es)
  then have IH: "entries_merged (clips_below lo es)" by (simp add: entries_merged_Cons)
  have nt: "\<not> touch e (hd (clips_below lo es))" if "clips_below lo es \<noteq> []"
    using clips_below_hd [OF _ that] Cons.prems by (auto simp: entries_merged_Cons touch_def)
  have empty: "clips_below lo es = []" if "lo \<le> rte_last e"
    by (rule clips_below_Nil) (use that Cons.prems(1) in \<open>auto simp: before_def\<close>)
  show ?case
  proof (cases "rte_last e < lo")
    case True
    with IH nt show ?thesis by (auto simp: clip_below_def entries_merged_Cons)
  next
    case False
    with empty show ?thesis by (simp add: clip_below_def)
  qed
qed simp

lemma clips_above_merged:
  "entries_ok es \<Longrightarrow> entries_merged es \<Longrightarrow> lo \<le> hi \<Longrightarrow> entries_merged (clips_above hi es)"
proof (induction es)
  case (Cons e es)
  then have IH: "entries_merged (clips_above hi es)" by (simp add: entries_merged_Cons)
  show ?case
  proof (cases "hi < rte_last e")
    case True
    then have "\<forall>x \<in> set es. rte_first x > hi" using Cons.prems(1) by (force simp: before_def)
    then have "clips_above hi es = es"
      using clips_beyond(2) [of es hi lo] Cons.prems by (auto simp: entries_ok_def)
    with True Cons.prems IH show ?thesis
      by (auto simp: clip_above_def entries_merged_Cons touch_def)
  next
    case False
    with IH Cons.prems show ?thesis by (auto simp: clip_above_def)
  qed
qed simp

lemma clips_merged:
  assumes "entries_ok es" and "entries_merged es" and "lo \<le> hi"
  shows "entries_merged (clips_below lo es @ clips_above hi es)"
proof -
  have "\<not> touch (last xs) (hd ys)"
    if "xs = clips_below lo es" "ys = clips_above hi es" "xs \<noteq> []" "ys \<noteq> []" for xs ys
    using clips_below_le [of "last xs" lo es] clips_above_gt [of "hd ys" hi es] that assms(3)
    by (auto simp: touch_def)
  then show ?thesis
    using clips_below_merged [OF assms(1,2)] clips_above_merged [OF assms]
    by (simp add: entries_merged_append)
qed

section \<open>Inserting and merging\<close>

abbreviation rte :: "int \<Rightarrow> int \<Rightarrow> lisp_object \<Rightarrow> range_table_entry" where
  "rte lo hi v \<equiv> \<lparr>rte_first = lo, rte_last = hi, rte_val = v\<rparr>"

lemma put_before_cases:
  assumes "Dynarr_ok d" and "Dynarr_contents d = ls @ rte lo hi v # rs"
  obtains (same) "put_range_table_before lo hi v d (length ls) = Some (d, length ls, lo)"
      "ls \<noteq> [] \<Longrightarrow> \<not> touch (last ls) (rte lo hi v)"
    | (merged) d' m ks where "ls = ks @ [m]" "touch m (rte lo hi v)"
      "put_range_table_before lo hi v d (length ls) = Some (d', length ks, rte_first m)"
      "Dynarr_ok d'" "Dynarr_contents d' = ks @ rte (rte_first m) hi v # rs"
proof (cases ls rule: rev_cases)
  case Nil
  then show thesis by (intro same) (simp_all add: put_range_table_before_def)
next
  case (snoc ks m)
  have c: "Dynarr_contents d = ks @ m # rte lo hi v # rs" using assms(2) snoc by simp
  have at: "Dynarr_at d (length ks) = m" using dyn.at_append [OF assms(1) c] .
  show thesis
  proof (cases "touch m (rte lo hi v)")
    case False
    with snoc at show thesis
      by (intro same) (auto simp: put_range_table_before_def touch_def Let_def)
  next
    case True
    let ?d1 = "Dynarr_put d (length ks) (m\<lparr>rte_last := hi\<rparr>)"
    have d1: "Dynarr_ok ?d1" "Dynarr_contents ?d1 = (ks @ [m\<lparr>rte_last := hi\<rparr>]) @ rte lo hi v # rs"
      using dyn.put_append [OF assms(1) c] by auto
    obtain d' where d': "Dynarr_delete_many ?d1 (int (Suc (length ks))) 1 = Some d'" "Dynarr_ok d'"
        "Dynarr_contents d' = (ks @ [m\<lparr>rte_last := hi\<rparr>]) @ rs"
      using dyn.delete_one_append [OF d1] by auto
    have eq: "m\<lparr>rte_last := hi\<rparr> = rte (rte_first m) hi v"
      using True by (cases m) (simp add: touch_def)
    have "v = rte_val m" "rte_last m = lo - 1" using True by (simp_all add: touch_def)
    then have "put_range_table_before lo hi v d (length ls) = Some (d', length ks, rte_first m)"
      using d'(1) snoc by (simp add: put_range_table_before_def at)
    with d' snoc True eq show thesis by (intro merged [of ks m d']) auto
  qed
qed

lemma put_after_cases:
  assumes "Dynarr_ok d" and "Dynarr_contents d = ls @ rte lo hi v # rs"
  obtains (same) "put_range_table_after lo hi v d (length ls) = Some d"
      "rs \<noteq> [] \<Longrightarrow> \<not> touch (rte lo hi v) (hd rs)"
    | (merged) d' m ks where "rs = m # ks" "touch (rte lo hi v) m"
      "put_range_table_after lo hi v d (length ls) = Some d'"
      "Dynarr_ok d'" "Dynarr_contents d' = ls @ rte lo (rte_last m) v # ks"
proof (cases rs)
  case Nil
  with assms show thesis by (intro same) (simp_all add: put_range_table_after_def dyn.len)
next
  case (Cons m ks)
  have c: "Dynarr_contents d = (ls @ [rte lo hi v]) @ m # ks" using assms(2) Cons by simp
  have at: "Dynarr_at d (Suc (length ls)) = m" using dyn.at_append [OF assms(1) c] by simp
  show thesis
  proof (cases "touch (rte lo hi v) m")
    case False
    with Cons at show thesis
      by (intro same) (auto simp: put_range_table_after_def touch_def Let_def)
  next
    case True
    let ?d1 = "Dynarr_put d (Suc (length ls)) (m\<lparr>rte_first := lo\<rparr>)"
    have d1: "Dynarr_ok ?d1" "Dynarr_contents ?d1 = ls @ rte lo hi v # m\<lparr>rte_first := lo\<rparr> # ks"
      using dyn.put_append [OF assms(1) c] by auto
    obtain d' where d': "Dynarr_delete_many ?d1 (int (length ls)) 1 = Some d'" "Dynarr_ok d'"
        "Dynarr_contents d' = ls @ m\<lparr>rte_first := lo\<rparr> # ks"
      using dyn.delete_one_append [OF d1] by auto
    have eq: "m\<lparr>rte_first := lo\<rparr> = rte lo (rte_last m) v"
      using True by (cases m) (simp add: touch_def)
    have "v = rte_val m" "rte_first m = hi + 1" using True by (simp_all add: touch_def)
    then have "put_range_table_after lo hi v d (length ls) = Some d'"
      using d'(1) Cons assms by (simp add: put_range_table_after_def at dyn.len)
    with d' Cons True eq show thesis by (intro merged [of m ks d']) auto
  qed
qed

text \<open>Merging two touching ranges changes neither the order nor the function.\<close>

lemma merge_left_sound:
  assumes "touch m (rte lo hi v)" and "entries_ok (ks @ m # rte lo hi v # rs)"
  shows "entries_ok (ks @ rte (rte_first m) hi v # rs)"
    and "entries_lookup (ks @ rte (rte_first m) hi v # rs) = entries_lookup (ks @ m # rte lo hi v # rs)"
  using assms
  by (auto simp: entries_ok_append touch_def before_def entries_lookup_append fun_eq_iff split: option.split)

lemma merge_right_sound:
  assumes "touch (rte lo hi v) m" and "entries_ok (ls @ rte lo hi v # m # ks)"
  shows "entries_ok (ls @ rte lo (rte_last m) v # ks)"
    and "entries_lookup (ls @ rte lo (rte_last m) v # ks) = entries_lookup (ls @ rte lo hi v # m # ks)"
  using assms
  by (auto simp: entries_ok_append touch_def before_def entries_lookup_append fun_eq_iff split: option.split)

lemma put_merge_sound:
  assumes d: "Dynarr_ok d" "Dynarr_contents d = ls @ rte lo hi v # rs"
    and ok: "entries_ok (ls @ rte lo hi v # rs)"
    and mg: "entries_merged ls" "entries_merged rs"
  shows "\<exists>d1 k lo' d2. put_range_table_before lo hi v d (length ls) = Some (d1, k, lo') \<and>
           put_range_table_after lo' hi v d1 k = Some d2 \<and> Dynarr_ok d2 \<and>
           entries_ok (Dynarr_contents d2) \<and> entries_merged (Dynarr_contents d2) \<and>
           entries_lookup (Dynarr_contents d2) = entries_lookup (ls @ rte lo hi v # rs)"
proof -
  obtain d1 ks lo' where b: "put_range_table_before lo hi v d (length ls) = Some (d1, length ks, lo')"
      "Dynarr_ok d1" "Dynarr_contents d1 = ks @ rte lo' hi v # rs"
      "ks \<noteq> [] \<Longrightarrow> \<not> touch (last ks) (rte lo' hi v)"
      "entries_ok (ks @ rte lo' hi v # rs)" "entries_merged ks"
      "entries_lookup (ks @ rte lo' hi v # rs) = entries_lookup (ls @ rte lo hi v # rs)"
  proof (rule put_before_cases [OF d], goal_cases)
    case 1
    then show thesis using d ok mg by (intro 1(1) [of d ls lo]) simp_all
  next
    case (2 d' m ks)
    have nt: "\<not> touch (last ks) (rte (rte_first m) hi v)" if "ks \<noteq> []"
      using mg(1) 2(2,3) that by (auto simp: entries_merged_append touch_def)
    show thesis
      using 2 nt ok mg merge_left_sound [of m lo hi v ks rs]
      by (intro 2(1) [of d' ks "rte_first m"]) (simp_all add: entries_merged_append)
  qed
  show ?thesis
  proof (rule put_after_cases [OF b(2,3)], goal_cases)
    case 1
    then show ?thesis using b mg(2)
      by (auto simp: entries_merged_append entries_merged_Cons)
  next
    case (2 d' m js)
    have "rte_first m = hi + 1" "rte_val m = v" using 2(2) by (auto simp: touch_def)
    then have "\<not> touch (last ks) (rte lo' (rte_last m) v)" if "ks \<noteq> []"
      using b(4) [OF that] by (simp add: touch_def)
    moreover have "\<not> touch (rte lo' (rte_last m) v) (hd js)" if "js \<noteq> []"
      using mg(2) 2 that by (auto simp: entries_merged_Cons touch_def)
    ultimately show ?thesis
      using b 2 mg(2) merge_right_sound [OF 2(2), of ks js]
      by (auto simp: entries_merged_append entries_merged_Cons)
  qed
qed

section \<open>The operation as a whole\<close>

lemma put_range_table_sound:
  assumes ok: "range_table_ok rt" and le: "lo \<le> hi"
  shows "\<exists>rt'. put_range_table rt lo hi val = Some rt' \<and> range_table_ok rt' \<and>
           (\<forall>p. range_table_fun rt' p =
              (if lo \<le> p \<and> p \<le> hi then (if UNBOUNDP val then None else Some val)
               else range_table_fun rt p))"
proof -
  let ?L = "clips_below lo (rt_list rt)" let ?R = "clips_above hi (rt_list rt)"
  from ok have inv: "Dynarr_ok (rt_entries rt)" "entries_ok (rt_list rt)" "entries_merged (rt_list rt)"
    by (simp_all add: range_table_ok_def)
  have "loop_leaves ?L ?R (put_range_table_loop lo hi (rt_entries rt) 0 None)"
    using put_loop_leaves [OF inv(1), of "[]" "rt_list rt" lo hi None] le inv(2) by simp
  then obtain d i here where l: "put_range_table_loop lo hi (rt_entries rt) 0 None = Some (d, i, here)"
      "Dynarr_ok d" "Dynarr_contents d = ?L @ ?R" "(case here of None \<Rightarrow> i | Some k \<Rightarrow> k) = length ?L"
    by (auto simp: loop_leaves_def)
  note c = clips_ok [OF inv(2) le] clips_merged [OF inv(2,3) le] lookup_clips [OF inv(2) le]
  show ?thesis
  proof (cases "UNBOUNDP val")
    case True
    with l c show ?thesis
      by (auto simp: put_range_table_def range_table_ok_def range_table_fun_def)
  next
    case False
    let ?d = "Dynarr_insert_many d [rte lo hi val] (int (length ?L))"
    have d2: "Dynarr_ok ?d" "Dynarr_contents ?d = ?L @ rte lo hi val # ?R"
      using dyn.insert_contents_append [OF l(2,3)] dyn.insert_ok [OF l(2)] by auto
    have "entries_ok (?L @ rte lo hi val # ?R)"
      using c(1) le clips_below_le [of _ lo "rt_list rt"] clips_above_gt [of _ hi "rt_list rt"]
      by (auto simp: entries_ok_append before_def)
    from put_merge_sound [OF d2 this clips_below_merged [OF inv(2,3)] clips_above_merged [OF inv(2,3) le]]
    obtain d3 k lo' d4 where m: "put_range_table_before lo hi val ?d (length ?L) = Some (d3, k, lo')"
      "put_range_table_after lo' hi val d3 k = Some d4" "Dynarr_ok d4"
      "entries_ok (Dynarr_contents d4)" "entries_merged (Dynarr_contents d4)"
      "entries_lookup (Dynarr_contents d4) = entries_lookup (?L @ rte lo hi val # ?R)"
      by blast
    have "put_range_table rt lo hi val = Some (rt\<lparr>rt_entries := d4\<rparr>)"
      using False l m(1,2) by (simp add: put_range_table_def Let_def)
    moreover have "entries_lookup (?L @ rte lo hi val # ?R) p =
        (if lo \<le> p \<and> p \<le> hi then Some val else entries_lookup (?L @ ?R) p)" for p
      using lookup_clips_below_None [of lo p "rt_list rt"] by (auto simp: entries_lookup_append split: option.split)
    ultimately show ?thesis
      using m False c(3) by (simp add: range_table_ok_def range_table_fun_def)
  qed
qed

end
