(* ===== verification/RangeTableOps.thy ===== *)
theory RangeTableOps
  imports RangeTable
begin

text \<open>
  The Lisp-level functions of \<open>src/src/rangetab.c\<close> over the heap's range tables: argument
  checks, creation and copying, mapping, the read syntax and the tables' equality. The
  theorems carry the results on \<open>put_range_table\<close> and \<open>get_range_table\<close> to these functions and
  show that a table is determined by the partial function it stands for.
\<close>

section \<open>Operations\<close>

fun RANGE_TABLEP :: "lisp_object \<Rightarrow> bool" where
  "RANGE_TABLEP (Lisp_Lrecord Lrecord_range_table a) = True"
| "RANGE_TABLEP _ = False"

fun XRANGE_TABLE :: "lisp_heap \<Rightarrow> lisp_object \<Rightarrow> Lisp_Range_Table" where
  "XRANGE_TABLE h (Lisp_Lrecord ty a) = hrt h a"
| "XRANGE_TABLE h _ = undefined"

text \<open>The table behind an object is changed in place.\<close>

fun set_range_table :: "lisp_object \<Rightarrow> Lisp_Range_Table \<Rightarrow> lisp_heap \<Rightarrow> lisp_heap" where
  "set_range_table (Lisp_Lrecord ty a) rt h = h\<lparr>hrt := (hrt h)(a := rt)\<rparr>"
| "set_range_table _ rt h = undefined"

abbreviation wrong_range_table :: "lisp_object \<Rightarrow> lisp_error" where
  "wrong_range_table x \<equiv> Wrong_type_argument ''range-table-p'' x"

definition alloc_range_table :: "range_table_entry Dynarr \<Rightarrow> lisp_heap \<Rightarrow> lisp_object \<times> lisp_heap" where
  "alloc_range_table d h =
     (Lisp_Lrecord Lrecord_range_table (hrt_next h),
      h\<lparr>hrt := (hrt h)(hrt_next h := \<lparr>rt_entries = d\<rparr>), hrt_next := Suc (hrt_next h)\<rparr>)"

definition Frange_table_p :: "lisp_object \<Rightarrow> lisp_object" where
  "Frange_table_p object = (if RANGE_TABLEP object then Qt else Qnil)"

definition Fmake_range_table :: "lisp_heap \<Rightarrow> lisp_object \<times> lisp_heap" where
  "Fmake_range_table h = alloc_range_table Dynarr_newf h"

definition Fcopy_range_table :: "lisp_object \<Rightarrow> lisp_heap \<Rightarrow> (lisp_object \<times> lisp_heap) lresult" where
  "Fcopy_range_table range_table h =
     (if \<not> RANGE_TABLEP range_table then Inl (wrong_range_table range_table)
      else let rt = XRANGE_TABLE h range_table
           in Inr (alloc_range_table
                     (Dynarr_add_many Dynarr_newf
                        (take (Dynarr_length (rt_entries rt)) (base (rt_entries rt)))) h))"

text \<open>A result \<open>None\<close> of the functions below is a failed assertion or a loop without end.\<close>

definition Fget_range_table ::
    "lisp_object \<Rightarrow> lisp_object \<Rightarrow> lisp_object \<Rightarrow> lisp_heap \<Rightarrow> lisp_object lresult option" where
  "Fget_range_table pos range_table dflt h =
     (if \<not> RANGE_TABLEP range_table then Some (Inl (wrong_range_table range_table))
      else case CHECK_INT_COERCE_CHAR pos of
             Inl e \<Rightarrow> Some (Inl e)
           | Inr p \<Rightarrow>
               let d = rt_entries (XRANGE_TABLE h range_table)
               in map_option Inr (get_range_table p (Dynarr_length d) (base d) dflt))"

definition Fput_range_table ::
    "lisp_object \<Rightarrow> lisp_object \<Rightarrow> lisp_object \<Rightarrow> lisp_object \<Rightarrow> lisp_heap
     \<Rightarrow> (lisp_object \<times> lisp_heap) lresult option" where
  "Fput_range_table start fin value range_table h =
     (if \<not> RANGE_TABLEP range_table then Some (Inl (wrong_range_table range_table))
      else case CHECK_INT_COERCE_CHAR start of
        Inl e \<Rightarrow> Some (Inl e)
      | Inr lo \<Rightarrow>
          (case CHECK_INT_COERCE_CHAR fin of
             Inl e \<Rightarrow> Some (Inl e)
           | Inr hi \<Rightarrow>
               if lo > hi then Some (Inl (Simple_error ''start must be <= end'' [start, fin]))
               else case put_range_table (XRANGE_TABLE h range_table) lo hi value of
                      None \<Rightarrow> None
                    | Some rt \<Rightarrow>
                        if verify_range_table rt
                        then Some (Inr (Qnil, set_range_table range_table rt h))
                        else None))"

definition Fremove_range_table ::
    "lisp_object \<Rightarrow> lisp_object \<Rightarrow> lisp_object \<Rightarrow> lisp_heap \<Rightarrow> (lisp_object \<times> lisp_heap) lresult option" where
  "Fremove_range_table start fin range_table h = Fput_range_table start fin Qunbound range_table h"

definition Fclear_range_table :: "lisp_object \<Rightarrow> lisp_heap \<Rightarrow> (lisp_object \<times> lisp_heap) lresult" where
  "Fclear_range_table range_table h =
     (if \<not> RANGE_TABLEP range_table then Inl (wrong_range_table range_table)
      else let rt = XRANGE_TABLE h range_table
           in Inr (Qnil, set_range_table range_table
                (rt\<lparr>rt_entries := Dynarr_reset (rt_entries rt)\<rparr>) h))"

text \<open>
  \<open>map-range-table\<close>: \<open>call\<close> stands for \<open>Ffuncall\<close> on the user's function, which may change the
  table; \<open>funp\<close> for the check that the object is a function. The entry is read again from its
  index after the call.
\<close>

partial_function (option) map_range_table_loop ::
    "(lisp_object list \<Rightarrow> lisp_heap \<Rightarrow> (lisp_object \<times> lisp_heap) lresult option) \<Rightarrow>
     lisp_object \<Rightarrow> lisp_object \<Rightarrow> nat \<Rightarrow> lisp_heap \<Rightarrow> (lisp_object \<times> lisp_heap) lresult option" where
  "map_range_table_loop call function range_table i h =
     (let d = rt_entries (XRANGE_TABLE h range_table); entry = Dynarr_at d i
      in if i < Dynarr_length d
         then case call [function, Lisp_Int (rte_first entry), Lisp_Int (rte_last entry), rte_val entry] h of
                None \<Rightarrow> None
              | Some (Inl e) \<Rightarrow> Some (Inl e)
              | Some (Inr (_, h')) \<Rightarrow>
                  let d' = rt_entries (XRANGE_TABLE h' range_table); entry' = Dynarr_at d' i
                  in if Dynarr_length d > Dynarr_length d' \<and> i < Dynarr_length d' \<and>
                        (rte_first entry \<noteq> rte_first entry' \<or> rte_last entry \<noteq> rte_last entry')
                     then map_range_table_loop call function range_table i h'
                     else map_range_table_loop call function range_table (i + 1) h'
         else Some (Inr (Qnil, h)))"

declare map_range_table_loop.simps [code]

definition Fmap_range_table ::
    "(lisp_object list \<Rightarrow> lisp_heap \<Rightarrow> (lisp_object \<times> lisp_heap) lresult option) \<Rightarrow> (lisp_object \<Rightarrow> bool) \<Rightarrow>
     lisp_object \<Rightarrow> lisp_object \<Rightarrow> lisp_heap \<Rightarrow> (lisp_object \<times> lisp_heap) lresult option" where
  "Fmap_range_table call funp function range_table h =
     (if \<not> RANGE_TABLEP range_table then Some (Inl (wrong_range_table range_table))
      else if \<not> funp function then Some (Inl (Wrong_type_argument ''functionp'' function))
      else map_range_table_loop call function range_table 0 h)"

subsection \<open>The read syntax\<close>

definition range_endpoint :: "lisp_object \<Rightarrow> bool" where
  "range_endpoint x \<longleftrightarrow> INTP x \<or> CHARP x"

definition valid_range :: "lisp_heap \<Rightarrow> lisp_object \<Rightarrow> bool" where
  "valid_range h rng \<longleftrightarrow>
     INTP rng \<or> CHARP rng \<or>
     (CONSP rng \<and> CONSP (XCDR h rng) \<and> NILP (XCDR h (XCDR h rng)) \<and>
      range_endpoint (XCAR h rng) \<and> range_endpoint (XCAR h (XCDR h rng)))"

partial_function (option) rangetab_data_validate_loop ::
    "lisp_object \<Rightarrow> lisp_object \<Rightarrow> lisp_heap \<Rightarrow> bool lresult option" where
  "rangetab_data_validate_loop value rest h =
     (if NILP rest then Some (Inr True)
      else if \<not> CONSP rest then Some (Inl (Malformed_list value))
      else let rng = XCAR h rest; rest' = XCDR h rest
           in if \<not> CONSP rest' then Some (Inl (Simple_error ''Invalid list format'' [value]))
              else if \<not> valid_range h rng
              then Some (Inl (Simple_error ''Invalid range format'' [rng]))
              else rangetab_data_validate_loop value (XCDR h rest') h)"

declare rangetab_data_validate_loop.simps [code]

definition rangetab_data_validate :: "lisp_object \<Rightarrow> lisp_heap \<Rightarrow> bool lresult option" where
  "rangetab_data_validate value h = rangetab_data_validate_loop value value h"

text \<open>One assignment of the data list; \<open>Fcar (Fcdr x)\<close> may signal an error.\<close>

definition Fcadr :: "lisp_heap \<Rightarrow> lisp_object \<Rightarrow> lisp_object lresult" where
  "Fcadr h x = (case Fcdr h x of Inl e \<Rightarrow> Inl e | Inr y \<Rightarrow> Fcar h y)"

definition Fcddr :: "lisp_heap \<Rightarrow> lisp_object \<Rightarrow> lisp_object lresult" where
  "Fcddr h x = (case Fcdr h x of Inl e \<Rightarrow> Inl e | Inr y \<Rightarrow> Fcdr h y)"

definition rangetab_put ::
    "lisp_object \<Rightarrow> lisp_object \<Rightarrow> lisp_object \<Rightarrow> lisp_heap \<Rightarrow> (lisp_object \<times> lisp_heap) lresult option" where
  "rangetab_put rng val rangetab h =
     (if CONSP rng
      then case Fcar h rng of
             Inl e \<Rightarrow> Some (Inl e)
           | Inr lo \<Rightarrow> (case Fcadr h rng of
                         Inl e \<Rightarrow> Some (Inl e)
                       | Inr hi \<Rightarrow> Fput_range_table lo hi val rangetab h)
      else Fput_range_table rng rng val rangetab h)"

partial_function (option) rangetab_instantiate_loop ::
    "lisp_object \<Rightarrow> lisp_object \<Rightarrow> lisp_heap \<Rightarrow> (lisp_object \<times> lisp_heap) lresult option" where
  "rangetab_instantiate_loop rangetab data h =
     (if NILP data then Some (Inr (rangetab, h))
      else case Fcar h data of
        Inl e \<Rightarrow> Some (Inl e)
      | Inr rng \<Rightarrow> (case Fcadr h data of
          Inl e \<Rightarrow> Some (Inl e)
        | Inr val \<Rightarrow> (case Fcddr h data of
            Inl e \<Rightarrow> Some (Inl e)
          | Inr data' \<Rightarrow> (case rangetab_put rng val rangetab h of
              None \<Rightarrow> None
            | Some (Inl e) \<Rightarrow> Some (Inl e)
            | Some (Inr (_, h')) \<Rightarrow> rangetab_instantiate_loop rangetab data' h'))))"

declare rangetab_instantiate_loop.simps [code]

definition rangetab_instantiate :: "lisp_object \<Rightarrow> lisp_heap \<Rightarrow> (lisp_object \<times> lisp_heap) lresult option" where
  "rangetab_instantiate data h =
     (let (rangetab, h1) = Fmake_range_table h
      in if NILP data then Some (Inr (rangetab, h1))
         else case Fcadr h1 data of
                Inl e \<Rightarrow> Some (Inl e)
              | Inr d \<Rightarrow> rangetab_instantiate_loop rangetab d h1)"

subsection \<open>Equality\<close>

text \<open>
  \<open>eqv\<close> stands for \<open>internal_equal\<close> at the next depth, which may signal an error or not return.
\<close>

fun range_table_equal_from ::
    "(lisp_object \<Rightarrow> lisp_object \<Rightarrow> bool lresult option) \<Rightarrow> range_table_entry Dynarr \<Rightarrow>
     range_table_entry Dynarr \<Rightarrow> nat \<Rightarrow> nat \<Rightarrow> bool lresult option" where
  "range_table_equal_from eqv d1 d2 i 0 = Some (Inr True)"
| "range_table_equal_from eqv d1 d2 i (Suc n) =
     (let rte1 = Dynarr_at d1 i; rte2 = Dynarr_at d2 i
      in if rte_first rte1 \<noteq> rte_first rte2 \<or> rte_last rte1 \<noteq> rte_last rte2 then Some (Inr False)
         else case eqv (rte_val rte1) (rte_val rte2) of
                Some (Inr True) \<Rightarrow> range_table_equal_from eqv d1 d2 (i + 1) n
              | r \<Rightarrow> r)"

definition range_table_equal ::
    "(lisp_object \<Rightarrow> lisp_object \<Rightarrow> bool lresult option) \<Rightarrow> Lisp_Range_Table \<Rightarrow> Lisp_Range_Table \<Rightarrow>
     bool lresult option" where
  "range_table_equal eqv rt1 rt2 =
     (if Dynarr_length (rt_entries rt1) \<noteq> Dynarr_length (rt_entries rt2) then Some (Inr False)
      else range_table_equal_from eqv (rt_entries rt1) (rt_entries rt2) 0
             (Dynarr_length (rt_entries rt1)))"

section \<open>Correctness of the checked functions\<close>

lemma get_range_table_correct:
  assumes "range_table_ok rt"
  shows "get_range_table p (Dynarr_length (rt_entries rt)) (base (rt_entries rt)) dflt =
         Some (case range_table_fun rt p of None \<Rightarrow> dflt | Some v \<Rightarrow> v)"
proof -
  have c: "Dynarr_contents (rt_entries rt) = take (cur (rt_entries rt)) (base (rt_entries rt))"
    "cur (rt_entries rt) \<le> length (base (rt_entries rt))" "entries_ok (rt_list rt)"
    using assms by (simp_all add: range_table_ok_def Dynarr_ok_def Dynarr_contents_def)
  show ?thesis
    unfolding get_range_table_def Dynarr_length_def range_table_fun_def
    by (rule get_range_table_loop_correct [OF c(3)]) (use c in auto)
qed

lemma verify_from_ok:
  assumes "entries_ok (Dynarr_contents d)" and "n \<le> length (Dynarr_contents d)"
  shows "verify_range_table_from d n"
  using assms(2)
proof (induction n)
  case (Suc n)
  let ?c = "Dynarr_contents d"
  have at: "Dynarr_at d i = ?c ! i" if "i < length ?c" for i
    using that by (simp add: Dynarr_at_def Dynarr_contents_def)
  have "rte_first (?c ! n) \<le> rte_last (?c ! n)"
    using assms(1) Suc.prems by (simp add: entries_ok_def)
  moreover have "0 < n \<Longrightarrow> before (?c ! (n - 1)) (?c ! n)"
    using assms(1) Suc.prems by (simp add: entries_ok_def sorted_wrt_iff_nth_less)
  ultimately show ?case using Suc at [of n] at [of "n - 1"] by (auto simp: before_def)
qed simp

lemma range_table_ok_verified: "range_table_ok rt \<Longrightarrow> verify_range_table rt"
  unfolding verify_range_table_def range_table_ok_def
  by (intro verify_from_ok) (auto simp: Dynarr_length_def Dynarr_contents_def Dynarr_ok_def)


text \<open>A table is determined by the partial function it stands for.\<close>

lemma entries_lookup_first:
  "entries_ok (e # es) \<Longrightarrow> entries_lookup (e # es) (rte_first e) = Some (rte_val e)"
  by simp

lemma entries_lookup_ge:
  assumes "entries_ok (e # es)" and "entries_lookup (e # es) p \<noteq> None"
  shows "rte_first e \<le> p"
proof (rule ccontr)
  assume lt: "\<not> rte_first e \<le> p"
  have "\<forall>x \<in> set (e # es). p < rte_first x \<or> rte_last x < p"
  proof
    fix x assume "x \<in> set (e # es)"
    moreover have "rte_last e < rte_first x" if "x \<in> set es" using assms(1) that by (simp add: before_def)
    moreover have "rte_first e \<le> rte_last e" using assms(1) by simp
    ultimately have "rte_first e \<le> rte_first x" by fastforce
    then show "p < rte_first x \<or> rte_last x < p" using lt by simp
  qed
  from entries_lookup_None [OF this] assms(2) show False by simp
qed

lemma merged_ends:
  assumes "entries_ok (x # xs)" and "entries_merged (x # xs)"
  shows "entries_lookup (x # xs) (rte_last x + 1) \<noteq> Some (rte_val x)"
proof (cases xs)
  case (Cons z zs)
  show ?thesis
  proof
    assume "entries_lookup (x # xs) (rte_last x + 1) = Some (rte_val x)"
    then have l: "entries_lookup (z # zs) (rte_last x + 1) = Some (rte_val x)" using Cons by simp
    then have "rte_first z \<le> rte_last x + 1"
      using entries_lookup_ge [of z zs] assms(1) Cons by auto
    moreover have "rte_last x < rte_first z" "rte_first z \<le> rte_last z"
      using assms(1) Cons by (auto simp: before_def)
    ultimately have "rte_first z = rte_last x + 1" "rte_val z = rte_val x" using l by auto
    then show False using assms(2) Cons by simp
  qed
qed simp

lemma entries_last_le:
  assumes "entries_ok (x # xs)" "entries_merged (x # xs)" "entries_ok (y # ys)"
    and "entries_lookup (x # xs) = entries_lookup (y # ys)"
    and "rte_first x = rte_first y" "rte_val x = rte_val y"
  shows "rte_last y \<le> rte_last x"
proof (rule ccontr)
  assume "\<not> rte_last y \<le> rte_last x"
  then have "entries_lookup (y # ys) (rte_last x + 1) = Some (rte_val y)"
    using assms(1,5) by auto
  then show False using merged_ends [OF assms(1,2)] assms(4,6) by simp
qed

lemma entries_lookup_tail:
  assumes "entries_ok (x # xs)"
  shows "entries_lookup xs p = (if p \<le> rte_last x then None else entries_lookup (x # xs) p)"
proof (cases "p \<le> rte_last x")
  case True
  have "\<forall>e \<in> set xs. p < rte_first e \<or> rte_last e < p"
  proof
    fix e assume "e \<in> set xs"
    then have "rte_last x < rte_first e" using assms by (simp add: before_def)
    then show "p < rte_first e \<or> rte_last e < p" using True by simp
  qed
  with True show ?thesis by (simp add: entries_lookup_None)
qed simp

lemma entries_canonical:
  assumes "entries_ok xs" "entries_merged xs" "entries_ok ys" "entries_merged ys"
    and "entries_lookup xs = entries_lookup ys"
  shows "xs = ys"
  using assms
proof (induction xs arbitrary: ys)
  case Nil
  show ?case
  proof (cases ys)
    case (Cons y ys')
    then show ?thesis using entries_lookup_first [of y ys'] Nil.prems by (metis entries_lookup.simps(1) option.distinct(1))
  qed simp
next
  case (Cons x xs)
  obtain y ys' where ys: "ys = y # ys'"
    using entries_lookup_first [OF Cons.prems(1)] Cons.prems(5)
    by (cases ys) (metis entries_lookup.simps(1) option.distinct(1), blast)
  note eq = Cons.prems(5) [unfolded ys] and okx = Cons.prems(1) and oky = Cons.prems(3) [unfolded ys]
  have fx: "entries_lookup (y # ys') (rte_first x) = Some (rte_val x)"
    using entries_lookup_first [OF okx] by (simp only: eq)
  have fy: "entries_lookup (x # xs) (rte_first y) = Some (rte_val y)"
    using entries_lookup_first [OF oky] by (simp only: eq)
  have first: "rte_first x = rte_first y"
    using entries_lookup_ge [OF okx, of "rte_first y"] entries_lookup_ge [OF oky, of "rte_first x"] fx fy
    by (metis order_antisym option.distinct(1))
  have val: "rte_val x = rte_val y" using fx first entries_lookup_first [OF oky] by (metis option.inject)
  have last: "rte_last x = rte_last y"
    using entries_last_le [OF okx Cons.prems(2) oky eq first val]
      entries_last_le [OF oky Cons.prems(4) [unfolded ys] okx eq [symmetric] first [symmetric] val [symmetric]]
    by simp
  have "entries_lookup xs p = entries_lookup ys' p" for p
    using entries_lookup_tail [OF okx, of p] entries_lookup_tail [OF oky, of p] eq last by metis
  moreover have "entries_merged xs" "entries_merged ys'"
    using Cons.prems(2,4) ys by (auto simp: entries_merged_Cons)
  ultimately have "xs = ys'" using Cons.IH [of ys'] okx oky by (auto simp: fun_eq_iff)
  moreover have "x = y" using first last val by simp
  ultimately show ?case using ys by simp
qed


lemma range_table_equal_from_EQ:
  "range_table_equal_from (\<lambda>x y. Some (Inr (EQ x y))) d1 d2 i n =
     Some (Inr (\<forall>j < n. Dynarr_at d1 (i + j) = Dynarr_at d2 (i + j)))"
proof (induction n arbitrary: i)
  case (Suc n)
  have "(\<forall>j < Suc n. Dynarr_at d1 (i + j) = Dynarr_at d2 (i + j)) \<longleftrightarrow>
      Dynarr_at d1 i = Dynarr_at d2 i \<and> (\<forall>j < n. Dynarr_at d1 (Suc i + j) = Dynarr_at d2 (Suc i + j))"
    by (auto simp: less_Suc_eq_0_disj)
  with Suc show ?case by (auto simp: Let_def split: bool.splits)
qed simp

lemma range_table_equal_EQ:
  assumes "range_table_ok rt1" and "range_table_ok rt2"
  shows "range_table_equal (\<lambda>x y. Some (Inr (EQ x y))) rt1 rt2 = Some (Inr (rt_list rt1 = rt_list rt2))"
proof -
  have len: "Dynarr_length (rt_entries rt) = length (rt_list rt)" if "range_table_ok rt" for rt
    using that by (simp add: range_table_ok_def Dynarr_ok_def Dynarr_length_def Dynarr_contents_def)
  have at: "Dynarr_at (rt_entries rt) j = rt_list rt ! j" if "j < length (rt_list rt)" for rt j
    using that by (simp add: Dynarr_at_def Dynarr_contents_def)
  show ?thesis
    using len [OF assms(1)] len [OF assms(2)] at
    by (auto simp: range_table_equal_def range_table_equal_from_EQ list_eq_iff_nth_eq)
qed

subsection \<open>Reading a table\<close>

text \<open>What a data list of the read syntax denotes.\<close>

definition range_denotes :: "lisp_heap \<Rightarrow> lisp_object \<Rightarrow> int \<Rightarrow> int \<Rightarrow> bool" where
  "range_denotes h r lo hi \<longleftrightarrow>
     (if CONSP r then CONSP (XCDR h r) \<and> CHECK_INT_COERCE_CHAR (XCAR h r) = Inr lo \<and>
                      CHECK_INT_COERCE_CHAR (XCAR h (XCDR h r)) = Inr hi
      else CHECK_INT_COERCE_CHAR r = Inr lo \<and> hi = lo)"

fun data_denotes :: "lisp_heap \<Rightarrow> lisp_object \<Rightarrow> range_table_entry list \<Rightarrow> bool" where
  "data_denotes h x [] \<longleftrightarrow> NILP x"
| "data_denotes h x (e # es) \<longleftrightarrow> CONSP x \<and> CONSP (XCDR h x) \<and>
     range_denotes h (XCAR h x) (rte_first e) (rte_last e) \<and> XCAR h (XCDR h x) = rte_val e \<and>
     data_denotes h (XCDR h (XCDR h x)) es"

text \<open>The assignments of the data list, one after the other.\<close>

fun assign_all :: "range_table_entry list \<Rightarrow> (int \<Rightarrow> lisp_object option) \<Rightarrow> int \<Rightarrow> lisp_object option" where
  "assign_all [] f = f"
| "assign_all (e # es) f =
     assign_all es (\<lambda>p. if rte_first e \<le> p \<and> p \<le> rte_last e then Some (rte_val e) else f p)"

lemma XCAR_hrt [simp]: "XCAR (h\<lparr>hrt := t\<rparr>) = XCAR h" "XCDR (h\<lparr>hrt := t\<rparr>) = XCDR h"
proof -
  show "XCAR (h\<lparr>hrt := t\<rparr>) = XCAR h" by (rule ext, case_tac x) auto
  show "XCDR (h\<lparr>hrt := t\<rparr>) = XCDR h" by (rule ext, case_tac x) auto
qed

lemma data_denotes_hrt [simp]: "data_denotes (h\<lparr>hrt := t\<rparr>) x es = data_denotes h x es"
  by (induction es arbitrary: x) (auto simp: range_denotes_def)

lemma Fput_ok:
  assumes "range_table_ok (hrt h a)" and "CHECK_INT_COERCE_CHAR start = Inr lo"
    and "CHECK_INT_COERCE_CHAR fin = Inr hi" and "lo \<le> hi"
  shows "\<exists>rt'. Fput_range_table start fin value (Lisp_Lrecord Lrecord_range_table a) h =
             Some (Inr (Qnil, h\<lparr>hrt := (hrt h)(a := rt')\<rparr>)) \<and> range_table_ok rt' \<and>
           range_table_fun rt' = (\<lambda>p. if lo \<le> p \<and> p \<le> hi then (if UNBOUNDP value then None else Some value)
                                      else range_table_fun (hrt h a) p)"
proof -
  obtain rt' where "put_range_table (hrt h a) lo hi value = Some rt'" "range_table_ok rt'"
      "\<forall>p. range_table_fun rt' p = (if lo \<le> p \<and> p \<le> hi then (if UNBOUNDP value then None else Some value)
                                      else range_table_fun (hrt h a) p)"
    using put_range_table_sound [OF assms(1,4)] by blast
  then show ?thesis
    using assms range_table_ok_verified [of rt']
    by (intro exI [of _ rt']) (simp add: Fput_range_table_def fun_eq_iff)
qed

lemma rangetab_put_ok:
  assumes "range_table_ok (hrt h a)" and "range_denotes h r lo hi" and "lo \<le> hi"
  shows "\<exists>rt'. rangetab_put r v (Lisp_Lrecord Lrecord_range_table a) h =
             Some (Inr (Qnil, h\<lparr>hrt := (hrt h)(a := rt')\<rparr>)) \<and> range_table_ok rt' \<and>
           range_table_fun rt' = (\<lambda>p. if lo \<le> p \<and> p \<le> hi then (if UNBOUNDP v then None else Some v)
                                      else range_table_fun (hrt h a) p)"
  using assms Fput_ok
  by (auto simp: range_denotes_def rangetab_put_def Fcar_def Fcadr_def Fcdr_def split: if_splits)

lemma rangetab_instantiate_loop_ok:
  assumes "range_table_ok (hrt h a)" and "data_denotes h x es"
    and "\<forall>e \<in> set es. rte_first e \<le> rte_last e \<and> \<not> UNBOUNDP (rte_val e)"
  shows "\<exists>rt'. rangetab_instantiate_loop (Lisp_Lrecord Lrecord_range_table a) x h =
             Some (Inr (Lisp_Lrecord Lrecord_range_table a, h\<lparr>hrt := (hrt h)(a := rt')\<rparr>)) \<and>
           range_table_ok rt' \<and> range_table_fun rt' = assign_all es (range_table_fun (hrt h a))"
  using assms
proof (induction es arbitrary: x h)
  case Nil
  then show ?case by (intro exI [of _ "hrt h a"]) (simp add: rangetab_instantiate_loop.simps)
next
  case (Cons e es)
  let ?t = "Lisp_Lrecord Lrecord_range_table a"
  have "range_denotes h (XCAR h x) (rte_first e) (rte_last e)" "rte_first e \<le> rte_last e"
    using Cons.prems by auto
  from rangetab_put_ok [OF Cons.prems(1) this, of "rte_val e"] Cons.prems(3)
  obtain rt1 where rt1: "rangetab_put (XCAR h x) (rte_val e) ?t h = Some (Inr (Qnil, h\<lparr>hrt := (hrt h)(a := rt1)\<rparr>))"
    "range_table_ok rt1" "range_table_fun rt1 =
       (\<lambda>p. if rte_first e \<le> p \<and> p \<le> rte_last e then Some (rte_val e) else range_table_fun (hrt h a) p)"
    by auto
  let ?h = "h\<lparr>hrt := (hrt h)(a := rt1)\<rparr>"
  have "range_table_ok (hrt ?h a)" "data_denotes ?h (XCDR h (XCDR h x)) es"
    "\<forall>e \<in> set es. rte_first e \<le> rte_last e \<and> \<not> UNBOUNDP (rte_val e)"
    using Cons.prems rt1(2) by simp_all
  from Cons.IH [OF this]
  obtain rt' where "rangetab_instantiate_loop ?t (XCDR h (XCDR h x)) ?h =
        Some (Inr (?t, ?h\<lparr>hrt := (hrt ?h)(a := rt')\<rparr>))"
      "range_table_ok rt'" "range_table_fun rt' = assign_all es (range_table_fun (hrt ?h a))"
    by blast
  moreover have "?h\<lparr>hrt := (hrt ?h)(a := rt')\<rparr> = h\<lparr>hrt := (hrt h)(a := rt')\<rparr>" by simp
  moreover have "Fcar h x = Inr (XCAR h x)" "Fcadr h x = Inr (rte_val e)" "Fcddr h x = Inr (XCDR h (XCDR h x))"
    "\<not> NILP x" using Cons.prems(2) by (auto simp: Fcar_def Fcadr_def Fcddr_def Fcdr_def)
  ultimately have "rangetab_instantiate_loop ?t x h = Some (Inr (?t, h\<lparr>hrt := (hrt h)(a := rt')\<rparr>))"
      "range_table_ok rt'" "range_table_fun rt' = assign_all (e # es) (range_table_fun (hrt h a))"
    using rt1 by (simp_all add: rangetab_instantiate_loop.simps [of ?t x] fun_upd_def)
  then show ?case by blast
qed

lemma assign_all_entries:
  assumes "entries_ok es" and "\<forall>p. f p \<noteq> None \<longrightarrow> (\<forall>e \<in> set es. p < rte_first e)"
  shows "assign_all es f p = (case f p of None \<Rightarrow> entries_lookup es p | Some v \<Rightarrow> Some v)"
  using assms
proof (induction es arbitrary: f)
  case (Cons e es)
  let ?f = "\<lambda>p. if rte_first e \<le> p \<and> p \<le> rte_last e then Some (rte_val e) else f p"
  have "\<forall>p. ?f p \<noteq> None \<longrightarrow> (\<forall>x \<in> set es. p < rte_first x)"
    using Cons.prems by (auto simp: before_def)
  moreover have "f p = None" if "rte_first e \<le> p" using Cons.prems(2) that by fastforce
  ultimately show ?case using Cons by (auto split: option.split)
qed (simp split: option.split)


section \<open>Properties\<close>

text \<open>
  Property C5: \<open>put-range-table\<close> on a well-formed table either signals that the start is after
  the end or returns, keeps the table sorted, disjoint and merged, and changes the partial
  function the table stands for on the interval only: to the value there, or to nothing when
  the value is unbound (\<open>remove-range-table\<close>). The other tables stay as they are.
\<close>

theorem Fput_range_table_spec:
  assumes "range_table_ok (hrt h a)" and "CHECK_INT_COERCE_CHAR start = Inr lo"
    and "CHECK_INT_COERCE_CHAR fin = Inr hi"
  shows "if hi < lo
    then Fput_range_table start fin v (Lisp_Lrecord Lrecord_range_table a) h =
           Some (Inl (Simple_error ''start must be <= end'' [start, fin]))
    else \<exists>rt'. Fput_range_table start fin v (Lisp_Lrecord Lrecord_range_table a) h =
             Some (Inr (Qnil, h\<lparr>hrt := (hrt h)(a := rt')\<rparr>)) \<and> range_table_ok rt' \<and>
           range_table_fun rt' = (\<lambda>p. if lo \<le> p \<and> p \<le> hi then (if UNBOUNDP v then None else Some v)
                                      else range_table_fun (hrt h a) p)"
proof (cases "hi < lo")
  case True
  then show ?thesis using assms by (simp add: Fput_range_table_def)
next
  case False
  then show ?thesis using Fput_ok [OF assms] by simp
qed

lemma empty_table_ok [simp]:
  "range_table_ok (hrt empty_heap a)" "range_table_fun (hrt empty_heap a) = (\<lambda>p. None)"
  by (auto simp: empty_heap_def range_table_ok_def range_table_fun_def Dynarr_newf_def Dynarr_ok_def
      Dynarr_contents_def)

theorem Fput_range_table_spec_witness:
  "\<exists>rt'. Fput_range_table (Lisp_Int 3) (Lisp_Char 5) Qt (Lisp_Lrecord Lrecord_range_table 0) empty_heap =
       Some (Inr (Qnil, empty_heap\<lparr>hrt := (hrt empty_heap)(0 := rt')\<rparr>)) \<and>
     range_table_ok rt' \<and> range_table_fun rt' = (\<lambda>p. if 3 \<le> p \<and> p \<le> 5 then Some Qt else None)"
  using Fput_range_table_spec [of empty_heap 0 "Lisp_Int 3" 3 "Lisp_Char 5" 5 Qt] by (simp cong: if_cong)

text \<open>
  \<open>get-range-table\<close> by binary search returns, and its result is the table's value at
  the position, or the default where there is none.
\<close>

theorem Fget_range_table_spec:
  assumes "range_table_ok (hrt h a)" and "CHECK_INT_COERCE_CHAR pos = Inr p"
  shows "Fget_range_table pos (Lisp_Lrecord Lrecord_range_table a) dflt h =
         Some (Inr (case range_table_fun (hrt h a) p of None \<Rightarrow> dflt | Some v \<Rightarrow> v))"
  using assms get_range_table_correct [OF assms(1), of p dflt]
  by (simp add: Fget_range_table_def)

theorem Fget_range_table_spec_witness:
  "Fget_range_table (Lisp_Char 7) (Lisp_Lrecord Lrecord_range_table 2) Qt empty_heap = Some (Inr Qt)"
  using Fget_range_table_spec [of empty_heap 2 "Lisp_Char 7" 7 Qt] by simp

text \<open>Comparing values with \<open>eq\<close>, well-formed tables are equal when they stand for one partial function.\<close>

lemma range_table_equal_EQ_fun:
  assumes "range_table_ok rt1" and "range_table_ok rt2"
  shows "range_table_equal (\<lambda>x y. Some (Inr (EQ x y))) rt1 rt2 =
         Some (Inr (range_table_fun rt1 = range_table_fun rt2))"
proof -
  have "rt_list rt1 = rt_list rt2 \<longleftrightarrow> range_table_fun rt1 = range_table_fun rt2"
    using entries_canonical [of "rt_list rt1" "rt_list rt2"] assms
    by (auto simp: range_table_ok_def range_table_fun_def)
  then show ?thesis using range_table_equal_EQ [OF assms] by simp
qed

text \<open>
  Reading back the data list of a well-formed table (as \<open>print_range_table\<close> lists
  its ranges) builds a new table with the same entries.
\<close>

theorem rangetab_instantiate_roundtrip:
  assumes "entries_ok es" and "entries_merged es" and "\<forall>e \<in> set es. \<not> UNBOUNDP (rte_val e)"
    and "CONSP x" and "CONSP (XCDR h x)" and "data_denotes h (XCAR h (XCDR h x)) es"
  shows "\<exists>h'. rangetab_instantiate x h =
           Some (Inr (Lisp_Lrecord Lrecord_range_table (hrt_next h), h')) \<and>
         rt_list (hrt h' (hrt_next h)) = es"
proof -
  let ?a = "hrt_next h" let ?rt = "\<lparr>rt_entries = Dynarr_newf\<rparr>"
  let ?h = "h\<lparr>hrt := (hrt h)(?a := ?rt), hrt_next := Suc ?a\<rparr>"
  have X: "XCAR ?h = XCAR h" "XCDR ?h = XCDR h"
    by (rule ext, case_tac x, auto)+
  have "data_denotes ?h y es = data_denotes h y es" for y
    by (induction es arbitrary: y) (simp_all add: X range_denotes_def)
  then have "data_denotes ?h (XCAR h (XCDR h x)) es" using assms(6) by simp
  moreover have "range_table_ok ?rt" "range_table_fun ?rt = (\<lambda>p. None)"
    by (auto simp: range_table_ok_def range_table_fun_def Dynarr_newf_def Dynarr_ok_def Dynarr_contents_def)
  moreover have "\<forall>e \<in> set es. rte_first e \<le> rte_last e \<and> \<not> UNBOUNDP (rte_val e)"
    using assms(1,3) by (simp add: entries_ok_def)
  ultimately obtain rt' where r: "rangetab_instantiate_loop (Lisp_Lrecord Lrecord_range_table ?a) (XCAR h (XCDR h x)) ?h =
      Some (Inr (Lisp_Lrecord Lrecord_range_table ?a, ?h\<lparr>hrt := (hrt ?h)(?a := rt')\<rparr>))"
      "range_table_ok rt'" "range_table_fun rt' = assign_all es (\<lambda>p. None)"
    using rangetab_instantiate_loop_ok [of ?h ?a "XCAR h (XCDR h x)" es] by auto
  have "range_table_fun rt' = entries_lookup es"
    using r(3) assign_all_entries [OF assms(1), of "\<lambda>p. None"] by (simp add: fun_eq_iff)
  then have "rt_list rt' = es"
    using entries_canonical [of "rt_list rt'" es] assms(1,2) r(2)
    by (simp add: range_table_ok_def range_table_fun_def)
  moreover have "rangetab_instantiate x h =
      rangetab_instantiate_loop (Lisp_Lrecord Lrecord_range_table ?a) (XCAR h (XCDR h x)) ?h"
    using assms(4,5)
    by (auto simp: rangetab_instantiate_def Fmake_range_table_def alloc_range_table_def Fcadr_def Fcdr_def Fcar_def X)
  ultimately show ?thesis using r(1) by (intro exI [of _ "?h\<lparr>hrt := (hrt ?h)(?a := rt')\<rparr>"]) simp
qed


text \<open>A heap with the list \<open>(data ((3 5) t))\<close> at cons 0.\<close>

definition data_heap :: lisp_heap where
  "data_heap = empty_heap\<lparr>
     hcar := (\<lambda>a. [Qdata, Lisp_Cons 2, Lisp_Cons 4, Qt, Lisp_Int 3, Lisp_Int 5] ! a),
     hcdr := (\<lambda>a. [Lisp_Cons 1, Qnil, Lisp_Cons 3, Qnil, Lisp_Cons 5, Qnil] ! a),
     hnext := 6\<rparr>"

theorem rangetab_instantiate_roundtrip_witness:
  "\<exists>h'. rangetab_instantiate (Lisp_Cons 0) data_heap =
       Some (Inr (Lisp_Lrecord Lrecord_range_table (hrt_next data_heap), h')) \<and>
     rt_list (hrt h' (hrt_next data_heap)) = [\<lparr>rte_first = 3, rte_last = 5, rte_val = Qt\<rparr>]"
  by (rule rangetab_instantiate_roundtrip)
    (simp_all add: data_heap_def range_denotes_def)

section \<open>Changing a table while it is mapped\<close>

lemma Dynarr_at_list: "range_table_ok rt \<Longrightarrow> i < length (rt_list rt) \<Longrightarrow> Dynarr_at (rt_entries rt) i = rt_list rt ! i"
  by (simp add: Dynarr_at_def Dynarr_contents_def)

lemma Dynarr_length_list: "range_table_ok rt \<Longrightarrow> Dynarr_length (rt_entries rt) = length (rt_list rt)"
  by (simp add: range_table_ok_def Dynarr_ok_def Dynarr_length_def Dynarr_contents_def)

text \<open>Giving a range the value of both its neighbours, which it touches, leaves one range of the three.\<close>

lemma put_joins_neighbours:
  assumes ok: "range_table_ok (hrt h a)" and es: "rt_list (hrt h a) = xs @ [e1, e2, e3] @ ys"
    and touch: "rte_last e1 + 1 = rte_first e2" "rte_last e2 + 1 = rte_first e3"
    and val: "rte_val e1 = v" "rte_val e3 = v" "\<not> UNBOUNDP v"
  shows "\<exists>rt'. Fput_range_table (Lisp_Int (rte_first e2)) (Lisp_Int (rte_last e2)) v (Lisp_Lrecord Lrecord_range_table a) h =
      Some (Inr (Qnil, h\<lparr>hrt := (hrt h)(a := rt')\<rparr>)) \<and> range_table_ok rt' \<and>
      rt_list rt' = xs @ \<lparr>rte_first = rte_first e1, rte_last = rte_last e3, rte_val = v\<rparr> # ys"
proof -
  let ?m = "\<lparr>rte_first = rte_first e1, rte_last = rte_last e3, rte_val = v\<rparr>"
  have e: "entries_ok (xs @ [e1, e2, e3] @ ys)" "entries_merged (xs @ [e1, e2, e3] @ ys)"
    using ok es by (simp_all add: range_table_ok_def)
  have "entries_ok (xs @ ?m # ys)" using e(1) by (auto simp: entries_ok_append before_def)
  moreover have "entries_merged (xs @ ?m # ys)"
    using e(2) val by (auto simp: entries_merged_append entries_merged_Cons touch_def)
  moreover obtain rt' where rt': "Fput_range_table (Lisp_Int (rte_first e2)) (Lisp_Int (rte_last e2)) v
      (Lisp_Lrecord Lrecord_range_table a) h = Some (Inr (Qnil, h\<lparr>hrt := (hrt h)(a := rt')\<rparr>))" "range_table_ok rt'"
      "range_table_fun rt' = (\<lambda>p. if rte_first e2 \<le> p \<and> p \<le> rte_last e2 then Some v else range_table_fun (hrt h a) p)"
    using Fput_ok [OF ok, of "Lisp_Int (rte_first e2)" "rte_first e2" "Lisp_Int (rte_last e2)" "rte_last e2" v] e(1) val(3)
    by (auto simp: entries_ok_append)
  moreover have "entries_lookup (rt_list rt') p = entries_lookup (xs @ ?m # ys) p" for p
  proof (cases "rte_first e2 \<le> p \<and> p \<le> rte_last e2")
    case True
    then have "\<forall>x \<in> set xs. p < rte_first x \<or> rte_last x < p" using e(1) touch by (fastforce simp: entries_ok_append before_def)
    then have "entries_lookup xs p = None" by (rule entries_lookup_None)
    moreover have "rte_first e1 \<le> p" "p \<le> rte_last e3" using True e(1) touch by (auto simp: entries_ok_append)
    ultimately show ?thesis using fun_cong [OF rt'(3), of p] True by (simp add: range_table_fun_def entries_lookup_append)
  next
    case False
    then show ?thesis using fun_cong [OF rt'(3), of p] e(1) touch val
      by (auto simp: range_table_fun_def es entries_lookup_append entries_ok_append split: option.split)
  qed
  ultimately have "rt_list rt' = xs @ ?m # ys"
    by (intro entries_canonical) (auto simp: range_table_ok_def)
  then show ?thesis using rt' by blast
qed

text \<open>
  Property C34: the documentation of \<open>map-range-table\<close> promises that each entry is processed exactly
  once when the function only changes the current entry. If it gives the current entry the value of
  both its neighbours, which it touches, the three become one, and the loop goes on with the entry
  behind them: the next entry is never processed.
\<close>

theorem map_range_table_skips_entry:
  assumes "range_table_ok (hrt h a)" and "rt_list (hrt h a) = xs @ [e1, e2, e3] @ ys"
    and "rte_last e1 + 1 = rte_first e2" and "rte_last e2 + 1 = rte_first e3"
    and "rte_val e1 = v" and "rte_val e3 = v" and "\<not> UNBOUNDP v"
    and "call [fn, Lisp_Int (rte_first e2), Lisp_Int (rte_last e2), rte_val e2] h =
      Fput_range_table (Lisp_Int (rte_first e2)) (Lisp_Int (rte_last e2)) v (Lisp_Lrecord Lrecord_range_table a) h"
  shows "\<exists>h'. rt_list (hrt h' a) = xs @ [\<lparr>rte_first = rte_first e1, rte_last = rte_last e3, rte_val = v\<rparr>] @ ys \<and>
    map_range_table_loop call fn (Lisp_Lrecord Lrecord_range_table a) (length xs + 1) h =
    map_range_table_loop call fn (Lisp_Lrecord Lrecord_range_table a) (length xs + 1) h'"
proof -
  let ?t = "Lisp_Lrecord Lrecord_range_table a" and ?i = "length xs + 1"
  obtain rt' where rt': "Fput_range_table (Lisp_Int (rte_first e2)) (Lisp_Int (rte_last e2)) v ?t h =
      Some (Inr (Qnil, h\<lparr>hrt := (hrt h)(a := rt')\<rparr>))" "range_table_ok rt'"
      "rt_list rt' = xs @ \<lparr>rte_first = rte_first e1, rte_last = rte_last e3, rte_val = v\<rparr> # ys"
    using put_joins_neighbours [OF assms(1-7)] by blast
  let ?h = "h\<lparr>hrt := (hrt h)(a := rt')\<rparr>"
  have old: "Dynarr_at (rt_entries (hrt h a)) ?i = e2" "Dynarr_length (rt_entries (hrt h a)) = length xs + 3 + length ys"
    using assms(1,2) by (simp_all add: Dynarr_at_list Dynarr_length_list nth_append)
  have new: "Dynarr_length (rt_entries rt') = length xs + 1 + length ys"
    "ys \<noteq> [] \<Longrightarrow> Dynarr_at (rt_entries rt') ?i = hd ys"
    using rt'(2,3) by (simp_all add: Dynarr_at_list Dynarr_length_list nth_append hd_conv_nth)
  have behind: "rte_first e2 \<noteq> rte_first (hd ys)" if "ys \<noteq> []"
    using assms(1,2) that by (cases ys) (auto simp: range_table_ok_def entries_ok_append before_def)
  have run: "map_range_table_loop call fn ?t ?i h =
      (if ys \<noteq> [] then map_range_table_loop call fn ?t ?i ?h else map_range_table_loop call fn ?t (?i + 1) ?h)"
    using old new behind rt'(1) assms(8) by (subst map_range_table_loop.simps) (auto simp: Let_def)
  have "map_range_table_loop call fn ?t (?i + 1) ?h = map_range_table_loop call fn ?t ?i ?h" if "ys = []"
    using that new(1) by (subst (1 2) map_range_table_loop.simps) (simp add: Let_def)
  then show ?thesis using run rt'(3) by (intro exI [of _ ?h]) auto
qed

text \<open>A function that gives a range with value 2 the value 1, on the ranges 0-1, 2-3, 4-5 with values 1, 2, 1.\<close>

definition recolour :: "lisp_object list \<Rightarrow> lisp_heap \<Rightarrow> (lisp_object \<times> lisp_heap) lresult option" where
  "recolour args h =
     (if args ! 3 = Lisp_Int 2
      then Fput_range_table (args ! 1) (args ! 2) (Lisp_Int 1) (Lisp_Lrecord Lrecord_range_table 0) h
      else Some (Inr (Qnil, h)))"

definition coloured_heap :: lisp_heap where
  "coloured_heap = empty_heap\<lparr>hrt := (\<lambda>_. \<lparr>rt_entries = \<lparr>
     base = [\<lparr>rte_first = 0, rte_last = 1, rte_val = Lisp_Int 1\<rparr>,
             \<lparr>rte_first = 2, rte_last = 3, rte_val = Lisp_Int 2\<rparr>,
             \<lparr>rte_first = 4, rte_last = 5, rte_val = Lisp_Int 1\<rparr>], cur = 3, largest = 3, dyn_max = 3\<rparr>\<rparr>)\<rparr>"

theorem map_range_table_skips_entry_witness:
  "\<exists>h'. rt_list (hrt h' 0) = [\<lparr>rte_first = 0, rte_last = 5, rte_val = Lisp_Int 1\<rparr>] \<and>
    map_range_table_loop recolour Qt (Lisp_Lrecord Lrecord_range_table 0) 1 coloured_heap =
    map_range_table_loop recolour Qt (Lisp_Lrecord Lrecord_range_table 0) 1 h'"
proof -
  have "range_table_ok (hrt coloured_heap 0)"
    by (simp add: coloured_heap_def range_table_ok_def Dynarr_ok_def Dynarr_contents_def before_def)
  from map_range_table_skips_entry [OF this, of "[]" "\<lparr>rte_first = 0, rte_last = 1, rte_val = Lisp_Int 1\<rparr>"
      "\<lparr>rte_first = 2, rte_last = 3, rte_val = Lisp_Int 2\<rparr>" "\<lparr>rte_first = 4, rte_last = 5, rte_val = Lisp_Int 1\<rparr>" "[]" "Lisp_Int 1" recolour Qt]
  show ?thesis by (simp add: coloured_heap_def Dynarr_contents_def recolour_def)
qed

end
