(* ===== verification/ListLoop.thy ===== *)
theory ListLoop
  imports Lisp
begin

text \<open>
  The list traversal macros of \<open>src/src/lisp.h\<close>. \<open>PRIVATE_EXTERNAL_LIST_LOOP_6\<close> walks a list
  that may be dotted or circular: the hare visits every cons, and once it has made more than
  \<open>CIRCULAR_LIST_SUSPICION_LENGTH\<close> steps a tortoise follows at half its speed; when the two
  meet the list is circular. The macro's body is a parameter here: it maps the loop's state to
  a new state (\<open>Inl\<close>) or leaves the loop with a result (\<open>Inr\<close>). The theorems say what the loop
  does on each of the three kinds of list; in particular it always ends.
\<close>

definition CIRCULAR_LIST_SUSPICION_LENGTH :: nat where
  "CIRCULAR_LIST_SUSPICION_LENGTH = 1024"

text \<open>
  The arguments: how to find the heap in the state, the body (given the state, the element and
  the cons), the list (for error messages), and the loop variables \<open>len\<close>, \<open>hare\<close>, \<open>tortoise\<close>.
  \<open>None\<close> is a loop that does not end.
\<close>

partial_function (option) external_list_loop ::
    "('s \<Rightarrow> lisp_heap) \<Rightarrow> ('s \<Rightarrow> lisp_object \<Rightarrow> lisp_object \<Rightarrow> 's + 'r) \<Rightarrow> lisp_object \<Rightarrow>
     nat \<Rightarrow> lisp_object \<Rightarrow> lisp_object \<Rightarrow> 's \<Rightarrow> ('s + 'r) lresult option" where
  "external_list_loop hp body lst len hare tortoise s =
     (if CONSP hare
      then case body s (XCAR (hp s) hare) hare of
             Inr r \<Rightarrow> Some (Inr (Inr r))
           | Inl s' \<Rightarrow>
               let hare' = XCDR (hp s') hare; len' = len + 1
               in if len' > CIRCULAR_LIST_SUSPICION_LENGTH
                  then let tortoise' = (if odd len' then XCDR (hp s') tortoise else tortoise)
                       in if EQ hare' tortoise' then Some (Inl (Circular_list lst))
                          else external_list_loop hp body lst len' hare' tortoise' s'
                  else external_list_loop hp body lst len' hare' tortoise s'
      else if NILP hare then Some (Inr (Inl s))
      else Some (Inl (Malformed_list lst)))"

declare external_list_loop.simps [code]

definition EXTERNAL_LIST_LOOP_4 ::
    "('s \<Rightarrow> lisp_heap) \<Rightarrow> ('s \<Rightarrow> lisp_object \<Rightarrow> lisp_object \<Rightarrow> 's + 'r) \<Rightarrow> lisp_object \<Rightarrow>
     's \<Rightarrow> ('s + 'r) lresult option" where
  "EXTERNAL_LIST_LOOP_4 hp body lst s = external_list_loop hp body lst 0 lst lst s"

section \<open>Following cdrs\<close>

primrec cdrn :: "lisp_heap \<Rightarrow> lisp_object \<Rightarrow> nat \<Rightarrow> lisp_object" where
  "cdrn h x 0 = x"
| "cdrn h x (Suc n) = XCDR h (cdrn h x n)"

lemma cdrn_add: "cdrn h x (m + n) = cdrn h (cdrn h x m) n"
  by (induction n) auto

lemma cdrn_Suc_start: "cdrn h x (Suc n) = cdrn h (XCDR h x) n"
  by (induction n) auto

lemma lpath_cdrn:
  "lpath h x as y \<Longrightarrow> cdrn h x (length as) = y"
  by (induction as arbitrary: x) (auto simp: cdrn_Suc_start simp del: cdrn.simps(2))

lemma lpath_cdrn_nth:
  assumes "lpath h x as y" and "i < length as"
  shows "cdrn h x i = Lisp_Cons (as ! i)"
proof -
  from assms have "lpath h x (take i as @ as ! i # drop (Suc i) as) y"
    by (simp add: id_take_nth_drop [symmetric])
  then have "lpath h x (take i as) (Lisp_Cons (as ! i))" by (auto simp: lpath_append)
  from lpath_cdrn [OF this] assms(2) show ?thesis by simp
qed

text \<open>Two positions that agree stay in step for ever after.\<close>

lemma cdrn_period:
  assumes "cdrn h x (i + c) = cdrn h x i" and "i \<le> j"
  shows "cdrn h x (j + c) = cdrn h x j"
proof -
  have "j + c = (i + c) + (j - i)" using assms(2) by simp
  then have "cdrn h x (j + c) = cdrn h (cdrn h x (i + c)) (j - i)"
    by (simp only: cdrn_add)
  also have "\<dots> = cdrn h x j" using assms by (simp add: cdrn_add [symmetric])
  finally show ?thesis .
qed

lemma cdrn_period_mult:
  assumes "cdrn h x (i + c) = cdrn h x i" and "i \<le> j"
  shows "cdrn h x (j + k * c) = cdrn h x j"
proof (induction k)
  case (Suc k)
  have "cdrn h x (j + k * c + c) = cdrn h x (j + k * c)"
    by (rule cdrn_period [OF assms(1)]) (use assms(2) in simp)
  moreover have "j + Suc k * c = j + k * c + c" by simp
  ultimately show ?case using Suc by (simp only:)
qed simp

text \<open>The three kinds of list.\<close>

definition circular :: "lisp_heap \<Rightarrow> lisp_object \<Rightarrow> bool" where
  "circular h x \<longleftrightarrow> (\<forall>n. CONSP (cdrn h x n))"

lemma path_or_circular: "circular h x \<or> (\<exists>as y. lpath h x as y \<and> \<not> CONSP y)"
proof (cases "circular h x")
  case False
  then obtain n where "\<not> CONSP (cdrn h x n)" by (auto simp: circular_def)
  then show ?thesis
  proof (induction n arbitrary: x)
    case 0
    then have "lpath h x [] x" "\<not> CONSP x" by simp_all
    then show ?case by blast
  next
    case (Suc n)
    show ?case
    proof (cases "CONSP x")
      case True
      then obtain a where a: "x = Lisp_Cons a" by (auto simp: CONSP_iff)
      then have "\<not> CONSP (cdrn h (hcdr h a) n)"
        using Suc.prems cdrn_add [of h x "Suc 0" n] by simp
      from Suc.IH [OF this] show ?thesis
      proof
        assume "circular h (hcdr h a)"
        then have "CONSP (cdrn h (hcdr h a) n)" by (simp add: circular_def)
        with \<open>\<not> CONSP (cdrn h (hcdr h a) n)\<close> show ?thesis by simp
      next
        assume "\<exists>as y. lpath h (hcdr h a) as y \<and> \<not> CONSP y"
        then obtain as y where "lpath h x (a # as) y" "\<not> CONSP y" using a by auto
        then show ?thesis by blast
      qed
    next
      case False
      then have "lpath h x [] x" "\<not> CONSP x" by simp_all
      then show ?thesis by blast
    qed
  qed
qed simp

lemma circular_not_path: "circular h x \<Longrightarrow> lpath h x as y \<Longrightarrow> CONSP y"
  using lpath_cdrn [of h x as y] by (auto simp: circular_def)

text \<open>On a finite heap a circular list comes back to a cell it has visited.\<close>

lemma cdrn_allocated:
  "heap_ok h \<Longrightarrow> obj_ok h x \<Longrightarrow> circular h x \<Longrightarrow> obj_ok h (cdrn h x n)"
proof (induction n)
  case (Suc n)
  then have "CONSP (cdrn h x n)" by (simp add: circular_def)
  then obtain a where "cdrn h x n = Lisp_Cons a" by (auto simp: CONSP_iff)
  with Suc heap_okD [of h a] show ?case by simp
qed simp

lemma circular_repeats:
  assumes "heap_ok h" and "obj_ok h x" and "circular h x"
  obtains i c where "0 < c" and "cdrn h x (i + c) = cdrn h x i"
proof -
  let ?N = "hnext h"
  have "cdrn h x ` {..?N} \<subseteq> Lisp_Cons ` {..< ?N}"
  proof
    fix y assume "y \<in> cdrn h x ` {..?N}"
    then obtain n where y: "y = cdrn h x n" by auto
    with assms(3) obtain a where "y = Lisp_Cons a" by (auto simp: circular_def CONSP_iff)
    moreover have "obj_ok h y" unfolding y by (rule cdrn_allocated [OF assms])
    ultimately show "y \<in> Lisp_Cons ` {..< ?N}" by simp
  qed
  then have "card (cdrn h x ` {..?N}) \<le> card (Lisp_Cons ` {..< ?N})" by (rule card_mono [rotated]) simp
  also have "\<dots> = ?N" by (simp add: card_image inj_on_def)
  finally have "\<not> inj_on (cdrn h x) {..?N}" by (auto dest: card_image)
  then obtain i j where "i < j" "cdrn h x i = cdrn h x j"
    unfolding inj_on_def by (metis linorder_neqE_nat)
  then show thesis by (intro that [of "j - i" i]) simp_all
qed

text \<open>The tortoise's position when the hare has made \<open>len\<close> steps, and the place where they meet.\<close>

definition tortoise_at :: "nat \<Rightarrow> nat" where
  "tortoise_at len = (len - 1023) div 2"

lemma tortoise_at_Suc:
  "tortoise_at (Suc len) =
     (if Suc len > CIRCULAR_LIST_SUSPICION_LENGTH \<and> odd (Suc len) then Suc (tortoise_at len) else tortoise_at len)"
  unfolding tortoise_at_def CIRCULAR_LIST_SUSPICION_LENGTH_def by presburger

lemma tortoise_behind: "len > 0 \<Longrightarrow> tortoise_at len < len"
  by (auto simp: tortoise_at_def)

lemma tortoise_at_0 [simp]: "tortoise_at 0 = 0"
  by (simp add: tortoise_at_def)

lemma meet_offset:
  assumes "0 < c" and "cdrn h x (i + c) = cdrn h x i"
  shows "\<exists>m > 0. cdrn h x (2 * m + d) = cdrn h x m"
proof -
  define m where "m = c * (i + d + 1) - d"
  have cm: "c * (i + d + 1) \<ge> i + d + 1" using assms(1) by (cases c) auto
  then have m: "m + d = c * (i + d + 1)" "m \<ge> Suc i" unfolding m_def by linarith+
  have "cdrn h x (m + (i + d + 1) * c) = cdrn h x m"
    using assms m by (intro cdrn_period_mult) auto
  moreover have "2 * m + d = m + (i + d + 1) * c" using m(1) by (simp add: mult.commute)
  ultimately have "cdrn h x (2 * m + d) = cdrn h x m" by metis
  with m(2) show ?thesis by (intro exI [of _ m]) simp
qed

lemma tortoise_meets:
  assumes "0 < c" and "cdrn h x (i + c) = cdrn h x i"
  shows "\<exists>len > CIRCULAR_LIST_SUSPICION_LENGTH. cdrn h x len = cdrn h x (tortoise_at len)"
proof -
  obtain m where m: "0 < m" "cdrn h x (2 * m + 1024) = cdrn h x m"
    using meet_offset [OF assms, of 1024] by blast
  have "tortoise_at (2 * m + 1024) = m" by (simp add: tortoise_at_def)
  then have "cdrn h x (2 * m + 1024) = cdrn h x (tortoise_at (2 * m + 1024))" using m(2) by (simp only:)
  with m(1) show ?thesis by (intro exI [of _ "2 * m + 1024"]) (simp add: CIRCULAR_LIST_SUSPICION_LENGTH_def)
qed

section \<open>What the loop does\<close>

text \<open>
  The conses of a list, and \<open>loop_keeps\<close>: every state that satisfies the invariant \<open>I\<close> has the same conses, as far as the
  list is concerned, as the heap \<open>h\<close>, and the body keeps the invariant.
\<close>

definition list_cells :: "lisp_heap \<Rightarrow> lisp_object \<Rightarrow> nat set" where
  "list_cells h x = {a. \<exists>n. cdrn h x n = Lisp_Cons a \<and> (\<forall>i \<le> n. CONSP (cdrn h x i))}"

lemma list_cellsI: "cdrn h x n = Lisp_Cons a \<Longrightarrow> \<forall>i \<le> n. CONSP (cdrn h x i) \<Longrightarrow> a \<in> list_cells h x"
  by (auto simp: list_cells_def)

definition loop_keeps ::
    "('s \<Rightarrow> lisp_heap) \<Rightarrow> ('s \<Rightarrow> lisp_object \<Rightarrow> lisp_object \<Rightarrow> 's + 'r) \<Rightarrow> lisp_heap \<Rightarrow> lisp_object \<Rightarrow>
     ('s \<Rightarrow> bool) \<Rightarrow> bool" where
  "loop_keeps hp body h x I \<longleftrightarrow>
     (\<forall>s a. I s \<longrightarrow> a \<in> list_cells h x \<longrightarrow> hcdr (hp s) a = hcdr h a \<and> hcar (hp s) a = hcar h a) \<and>
     (\<forall>s a s'. I s \<longrightarrow> a \<in> list_cells h x \<longrightarrow> body s (hcar h a) (Lisp_Cons a) = Inl s' \<longrightarrow> I s')"

text \<open>The body run on the cells from position \<open>i\<close> on, \<open>n\<close> times.\<close>

fun run_body ::
    "('s \<Rightarrow> lisp_object \<Rightarrow> lisp_object \<Rightarrow> 's + 'r) \<Rightarrow> lisp_heap \<Rightarrow> lisp_object \<Rightarrow> nat \<Rightarrow> nat \<Rightarrow> 's \<Rightarrow> 's + 'r" where
  "run_body body h x i 0 s = Inl s"
| "run_body body h x i (Suc n) s =
     (case body s (XCAR h (cdrn h x i)) (cdrn h x i) of
        Inr r \<Rightarrow> Inr r
      | Inl s' \<Rightarrow> run_body body h x (Suc i) n s')"

text \<open>One step of the loop, in terms of positions on the list.\<close>

lemma loop_step:
  assumes keeps: "loop_keeps hp body h x I" and "I s" and conses: "\<forall>j \<le> i. CONSP (cdrn h x j)"
  shows "external_list_loop hp body lst i (cdrn h x i) (cdrn h x (tortoise_at i)) s =
    (case body s (XCAR h (cdrn h x i)) (cdrn h x i) of
       Inr r \<Rightarrow> Some (Inr (Inr r))
     | Inl s' \<Rightarrow>
         if Suc i > CIRCULAR_LIST_SUSPICION_LENGTH \<and> cdrn h x (Suc i) = cdrn h x (tortoise_at (Suc i))
         then Some (Inl (Circular_list lst))
         else external_list_loop hp body lst (Suc i) (cdrn h x (Suc i)) (cdrn h x (tortoise_at (Suc i))) s')"
    and "body s (XCAR h (cdrn h x i)) (cdrn h x i) = Inl s' \<Longrightarrow> I s'"
proof -
  from conses obtain a where a: "cdrn h x i = Lisp_Cons a" by (auto simp: CONSP_iff)
  have ti: "tortoise_at i \<le> i" by (simp add: tortoise_at_def)
  with conses obtain b where b: "cdrn h x (tortoise_at i) = Lisp_Cons b" by (auto simp: CONSP_iff)
  have mem: "a \<in> list_cells h x" "b \<in> list_cells h x"
    using list_cellsI [OF a] list_cellsI [OF b] conses ti by simp_all
  have car: "hcar (hp s) a = hcar h a" using keeps assms(2) mem by (auto simp: loop_keeps_def)
  have next_I: "I s'" if "body s (hcar h a) (Lisp_Cons a) = Inl s'" for s'
    using keeps assms(2) mem that unfolding loop_keeps_def by blast
  show "external_list_loop hp body lst i (cdrn h x i) (cdrn h x (tortoise_at i)) s =
    (case body s (XCAR h (cdrn h x i)) (cdrn h x i) of
       Inr r \<Rightarrow> Some (Inr (Inr r))
     | Inl s' \<Rightarrow>
         if Suc i > CIRCULAR_LIST_SUSPICION_LENGTH \<and> cdrn h x (Suc i) = cdrn h x (tortoise_at (Suc i))
         then Some (Inl (Circular_list lst))
         else external_list_loop hp body lst (Suc i) (cdrn h x (Suc i)) (cdrn h x (tortoise_at (Suc i))) s')"
  proof (cases "body s (hcar h a) (Lisp_Cons a)")
    case (Inr r)
    then show ?thesis using a car by (subst external_list_loop.simps) simp
  next
    case (Inl s')
    then have "hcdr (hp s') a = hcdr h a" "hcdr (hp s') b = hcdr h b"
      using keeps next_I mem unfolding loop_keeps_def by blast+
    then show ?thesis using a b car Inl
      by (subst external_list_loop.simps) (simp add: tortoise_at_Suc Let_def)
  qed
  show "body s (XCAR h (cdrn h x i)) (cdrn h x i) = Inl s' \<Longrightarrow> I s'" using next_I a by simp
qed

text \<open>A list that ends in an atom: no two positions agree, so every element is visited.\<close>

lemma path_positions_distinct:
  assumes "lpath h x as y" and "\<not> CONSP y" and "i < j" and "j \<le> length as"
  shows "cdrn h x j \<noteq> cdrn h x i"
proof (cases "j = length as")
  case True
  then show ?thesis using assms lpath_cdrn [OF assms(1)] lpath_cdrn_nth [OF assms(1), of i] by auto
next
  case False
  then show ?thesis
    using assms lpath_cdrn_nth [OF assms(1), of i] lpath_cdrn_nth [OF assms(1), of j]
      lpath_atom_distinct [OF assms(1,2)] by (auto simp: nth_eq_iff_index_eq)
qed

lemma loop_on_path:
  assumes keeps: "loop_keeps hp body h x I" and path: "lpath h x as y" "\<not> CONSP y"
    and "I s" and "i \<le> length as"
  shows "external_list_loop hp body lst i (cdrn h x i) (cdrn h x (tortoise_at i)) s =
    (case run_body body h x i (length as - i) s of
       Inr r \<Rightarrow> Some (Inr (Inr r))
     | Inl s' \<Rightarrow> if NILP y then Some (Inr (Inl s')) else Some (Inl (Malformed_list lst)))"
  using assms(4,5)
proof (induction "length as - i" arbitrary: i s)
  case 0
  then have "cdrn h x i = y" using lpath_cdrn [OF path(1)] by simp
  with path(2) 0 show ?case by (subst external_list_loop.simps) simp
next
  case (Suc n)
  have ci: "\<forall>j \<le> i. CONSP (cdrn h x j)" using lpath_cdrn_nth [OF path(1)] Suc.hyps(2) by simp
  have ne: "cdrn h x (Suc i) \<noteq> cdrn h x (tortoise_at (Suc i))"
    using path_positions_distinct [OF path, of "tortoise_at (Suc i)" "Suc i"] tortoise_behind [of "Suc i"]
      Suc.hyps(2) by simp
  have len: "length as - i = Suc (length as - Suc i)" using Suc.hyps(2) by simp
  show ?case
  proof (cases "body s (XCAR h (cdrn h x i)) (cdrn h x i)")
    case (Inr r)
    then show ?thesis using loop_step(1) [OF keeps Suc.prems(1) ci] len by simp
  next
    case (Inl s')
    then have "I s'" by (rule loop_step(2) [OF keeps Suc.prems(1) ci])
    moreover have "n = length as - Suc i" "Suc i \<le> length as" using Suc.hyps(2) by simp_all
    ultimately show ?thesis
      using loop_step(1) [OF keeps Suc.prems(1) ci, of lst] Inl ne len Suc.hyps(1) [of "Suc i" s'] by simp
  qed
qed

text \<open>A circular list whose elements the body never stops at: the two animals meet.\<close>

lemma loop_on_circular:
  assumes keeps: "loop_keeps hp body h x I" and circ: "circular h x"
    and never: "\<And>s n r. I s \<Longrightarrow> body s (XCAR h (cdrn h x n)) (cdrn h x n) \<noteq> Inr r"
    and meet: "CIRCULAR_LIST_SUSPICION_LENGTH < m" "cdrn h x m = cdrn h x (tortoise_at m)"
    and "I s" and "i < m"
  shows "external_list_loop hp body lst i (cdrn h x i) (cdrn h x (tortoise_at i)) s =
         Some (Inl (Circular_list lst))"
  using assms(6,7)
proof (induction "m - i" arbitrary: i s)
  case (Suc n)
  have c: "\<forall>j \<le> i. CONSP (cdrn h x j)" using circ by (simp add: circular_def)
  obtain s' where s': "body s (XCAR h (cdrn h x i)) (cdrn h x i) = Inl s'"
    using never [OF Suc.prems(1), of i] by (metis sum.exhaust)
  then have I': "I s'" by (rule loop_step(2) [OF keeps Suc.prems(1) c])
  note st = loop_step(1) [OF keeps Suc.prems(1) c, of lst]
  show ?case
  proof (cases "Suc i = m")
    case True
    then show ?thesis using st s' meet by simp
  next
    case False
    then have "n = m - Suc i" "Suc i < m" using Suc.hyps(2) Suc.prems(2) by simp_all
    then have "external_list_loop hp body lst (Suc i) (cdrn h x (Suc i)) (cdrn h x (tortoise_at (Suc i))) s'
        = Some (Inl (Circular_list lst))"
      using Suc.hyps(1) [of "Suc i" s'] I' by simp
    with st s' show ?thesis by simp
  qed
qed simp

text \<open>The two cases, for the loop as a whole.\<close>

lemma EXTERNAL_LIST_LOOP_4_path:
  assumes "loop_keeps hp body h x I" and "I s" and "lpath h x as y" and "\<not> CONSP y"
  shows "EXTERNAL_LIST_LOOP_4 hp body x s =
    (case run_body body h x 0 (length as) s of
       Inr r \<Rightarrow> Some (Inr (Inr r))
     | Inl s' \<Rightarrow> if NILP y then Some (Inr (Inl s')) else Some (Inl (Malformed_list x)))"
  using loop_on_path [OF assms(1,3,4,2), of 0 x] by (simp add: EXTERNAL_LIST_LOOP_4_def)

lemma EXTERNAL_LIST_LOOP_4_circular:
  assumes "loop_keeps hp body h x I" and "I s" and "circular h x" and "heap_ok h" and "obj_ok h x"
    and "\<And>s n r. I s \<Longrightarrow> body s (XCAR h (cdrn h x n)) (cdrn h x n) \<noteq> Inr r"
  shows "EXTERNAL_LIST_LOOP_4 hp body x s = Some (Inl (Circular_list x))"
proof -
  obtain c i where "0 < c" "cdrn h x (i + c) = cdrn h x i"
    using circular_repeats [OF assms(4,5,3)] by metis
  then obtain m where m: "CIRCULAR_LIST_SUSPICION_LENGTH < m" "cdrn h x m = cdrn h x (tortoise_at m)"
    using tortoise_meets by blast
  then have "0 < m" by simp
  from loop_on_circular [OF assms(1,3,6) m assms(2) this] show ?thesis
    by (simp add: EXTERNAL_LIST_LOOP_4_def)
qed

section \<open>Loops that search\<close>

text \<open>
  A body without a state of its own that leaves the loop at the first cons whose element
  satisfies a predicate.
\<close>

definition search_body ::
    "(lisp_object \<Rightarrow> bool) \<Rightarrow> lisp_heap \<Rightarrow> lisp_object \<Rightarrow> lisp_object \<Rightarrow> lisp_heap + lisp_object \<times> lisp_object" where
  "search_body P s elt tail = (if P elt then Inr (elt, tail) else Inl s)"

abbreviation search_list ::
    "(lisp_object \<Rightarrow> bool) \<Rightarrow> lisp_object \<Rightarrow> lisp_heap \<Rightarrow> (lisp_heap + lisp_object \<times> lisp_object) lresult option" where
  "search_list P x h \<equiv> EXTERNAL_LIST_LOOP_4 (\<lambda>h. h) (search_body P) x h"

lemma search_body_simps [simp]:
  "P e \<Longrightarrow> search_body P s e t = Inr (e, t)" "\<not> P e \<Longrightarrow> search_body P s e t = Inl s"
  by (simp_all add: search_body_def)

lemma search_keeps: "loop_keeps (\<lambda>h. h) (search_body P) h x (\<lambda>s. s = h)"
  by (auto simp: loop_keeps_def search_body_def split: if_splits)

text \<open>The position of a match, if there is one before the list ends.\<close>

definition first_match :: "lisp_heap \<Rightarrow> lisp_object \<Rightarrow> (lisp_object \<Rightarrow> bool) \<Rightarrow> nat \<Rightarrow> bool" where
  "first_match h x P k \<longleftrightarrow> (\<forall>i \<le> k. CONSP (cdrn h x i)) \<and> P (XCAR h (cdrn h x k)) \<and>
     (\<forall>i < k. \<not> P (XCAR h (cdrn h x i)))"

text \<open>The animals do not meet before the hare has seen the first match.\<close>

lemma no_meeting_before_match:
  assumes "first_match h x P k" and "0 < i" and "i \<le> k"
  shows "cdrn h x i \<noteq> cdrn h x (tortoise_at i)"
proof
  assume eq: "cdrn h x i = cdrn h x (tortoise_at i)"
  define t c where "t = tortoise_at i" and "c = i - t"
  have i: "i = t + c" "0 < c" using tortoise_behind [OF assms(2)] by (simp_all add: t_def c_def)
  have "cdrn h x ((k - c) + c) = cdrn h x (k - c)"
  proof (rule cdrn_period)
    have "cdrn h x i = cdrn h x t" using eq by (simp only: t_def)
    then show "cdrn h x (t + c) = cdrn h x t" by (simp only: i(1) [symmetric])
    show "t \<le> k - c" using i assms(3) by simp
  qed
  then have "cdrn h x k = cdrn h x (k - c)" "k - c < k" using i assms(3) by simp_all
  then show False using assms(1) unfolding first_match_def by metis
qed

lemma search_finds:
  assumes "first_match h x P k"
  shows "search_list P x h = Some (Inr (Inr (XCAR h (cdrn h x k), cdrn h x k)))"
proof -
  have "external_list_loop (\<lambda>h. h) (search_body P) x i (cdrn h x i) (cdrn h x (tortoise_at i)) h =
      Some (Inr (Inr (XCAR h (cdrn h x k), cdrn h x k)))" if "i \<le> k" for i
    using that
  proof (induction "k - i" arbitrary: i)
    case 0
    then have "i = k" by simp
    moreover have c: "\<forall>j \<le> k. CONSP (cdrn h x j)" using assms by (simp add: first_match_def)
    ultimately show ?case
      using loop_step(1) [OF search_keeps [of P h x] refl c, of x] assms
      by (simp add: first_match_def)
  next
    case (Suc n)
    have c: "\<forall>j \<le> i. CONSP (cdrn h x j)" using assms Suc.prems by (simp add: first_match_def)
    have "cdrn h x (Suc i) \<noteq> cdrn h x (tortoise_at (Suc i))"
      using no_meeting_before_match [OF assms, of "Suc i"] Suc.hyps(2) by auto
    moreover have "\<not> P (XCAR h (cdrn h x i))"
      using assms Suc.hyps(2) by (simp add: first_match_def)
    ultimately show ?case
      using loop_step(1) [OF search_keeps [of P h x] refl c, of x] Suc.hyps(1) [of "Suc i"] Suc.hyps(2)
      by simp
  qed
  from this [of 0] show ?thesis by (simp add: EXTERNAL_LIST_LOOP_4_def)
qed

lemma search_run_none:
  "(\<And>j. i \<le> j \<Longrightarrow> j < i + n \<Longrightarrow> \<not> P (XCAR h (cdrn h x j))) \<Longrightarrow> run_body (search_body P) h x i n h = Inl h"
  by (induction n arbitrary: i) (auto simp: search_body_def)

lemma search_misses:
  assumes "\<And>k. \<not> first_match h x P k" and "heap_ok h" and "obj_ok h x"
  shows "search_list P x h =
    Some (if circular h x then Inl (Circular_list x)
          else if \<exists>as. proper_list h x as then Inr (Inl h) else Inl (Malformed_list x))"
proof -
  have no: "\<not> P (XCAR h (cdrn h x n))" if "\<forall>i \<le> n. CONSP (cdrn h x i)" for n
    using that
  proof (induction n rule: less_induct)
    case (less n)
    then have "\<forall>i < n. \<not> P (XCAR h (cdrn h x i))" by simp
    with less.prems assms(1) [of n] show ?case by (auto simp: first_match_def)
  qed
  show ?thesis
  proof (cases "circular h x")
    case True
    have "search_list P x h = Some (Inl (Circular_list x))"
      by (rule EXTERNAL_LIST_LOOP_4_circular [OF search_keeps [of P h x] refl True assms(2,3)])
        (use no True in \<open>auto simp: search_body_def circular_def\<close>)
    with True show ?thesis by simp
  next
    case False
    then obtain as y where p: "lpath h x as y" "\<not> CONSP y" using path_or_circular by blast
    have "run_body (search_body P) h x 0 (length as) h = Inl h"
    proof (rule search_run_none)
      fix j assume "j < 0 + length as"
      then have "\<forall>i \<le> j. CONSP (cdrn h x i)" using lpath_cdrn_nth [OF p(1)] by simp
      then show "\<not> P (XCAR h (cdrn h x j))" by (rule no)
    qed
    then have "search_list P x h =
        Some (if NILP y then Inr (Inl h) else Inl (Malformed_list x))"
      using loop_on_path [OF search_keeps [of P h x] p refl, of 0 x] by (simp add: EXTERNAL_LIST_LOOP_4_def)
    moreover have "(\<exists>as. proper_list h x as) \<longleftrightarrow> NILP y"
    proof
      assume "\<exists>as. proper_list h x as"
      then obtain bs where "lpath h x bs Qnil" by (auto simp: proper_list_def)
      from lpath_atom_unique [OF p(1) this p(2)] show "NILP y" by simp
    qed (use p in \<open>auto simp: proper_list_def\<close>)
    ultimately show ?thesis using False by simp
  qed
qed

end
