(* ===== verification/ListProps.thy ===== *)
theory ListProps
  imports ListFns
begin

text \<open>
  The properties of the list functions of \<open>ListFns\<close>, on every kind of list: proper, dotted and
  circular. New conses never change the old part of the heap (\<open>heap_extends\<close>).
\<close>

section \<open>Heaps for the examples\<close>

text \<open>The list \<open>(1 2 3)\<close> at cons 0, the dotted list \<open>(4 . 5)\<close> at cons 3, the circular list
  \<open>#1=(t . #1#)\<close> at cons 4.\<close>

definition sample_heap :: lisp_heap where
  "sample_heap = empty_heap\<lparr>
     hcar := (\<lambda>a. [Lisp_Int 1, Lisp_Int 2, Lisp_Int 3, Lisp_Int 4, Qt] ! a),
     hcdr := (\<lambda>a. [Lisp_Cons 1, Lisp_Cons 2, Qnil, Lisp_Int 5, Lisp_Cons 4] ! a),
     hnext := 5\<rparr>"

lemma sample_heap_simps [simp]:
  "hcar sample_heap = (\<lambda>a. [Lisp_Int 1, Lisp_Int 2, Lisp_Int 3, Lisp_Int 4, Qt] ! a)"
  "hcdr sample_heap = (\<lambda>a. [Lisp_Cons 1, Lisp_Cons 2, Qnil, Lisp_Int 5, Lisp_Cons 4] ! a)"
  "hnext sample_heap = 5"
  by (simp_all add: sample_heap_def)

lemma sample_heap_ok [simp]: "heap_ok sample_heap"
proof -
  have "a < 5 \<Longrightarrow> a = 0 \<or> a = 1 \<or> a = 2 \<or> a = 3 \<or> a = (4::nat)" for a by auto
  then show ?thesis by (fastforce simp: heap_ok_def obj_ok_def)
qed

lemma sample_lists:
  "proper_list sample_heap (Lisp_Cons 0) [0, 1, 2]" "lpath sample_heap (Lisp_Cons 3) [3] (Lisp_Int 5)"
  by simp_all

lemma sample_circular: "circular sample_heap (Lisp_Cons 4)"
proof -
  have "cdrn sample_heap (Lisp_Cons 4) n = Lisp_Cons 4" for n by (induction n) auto
  then show ?thesis by (simp add: circular_def)
qed

text \<open>The kinds of list exclude each other.\<close>

lemma proper_not_circular: "proper_list h x as \<Longrightarrow> \<not> circular h x"
  unfolding proper_list_def by (auto dest: circular_not_path)

lemma proper_not_dotted:
  assumes "proper_list h x as" and "lpath h x bs y" and "\<not> CONSP y"
  shows "y = Qnil"
  using lpath_atom_unique [OF assms(2) assms(1) [unfolded proper_list_def] assms(3)] by simp

section \<open>Length\<close>

text \<open>
  Property C29: \<open>length\<close> returns on every list: the number of conses of a proper list, an error on
  a dotted list, an error on a circular one; and every list is of one of these kinds.
\<close>

theorem Flength_list:
  assumes "heap_ok h" and "x = Lisp_Cons a" and "a < hnext h"
  shows "(\<exists>as. proper_list h x as \<and> Flength x h = Some (Inr (Lisp_Int (int (length as))))) \<or>
    (\<exists>as y. lpath h x as y \<and> \<not> CONSP y \<and> \<not> NILP y \<and> Flength x h = Some (Inl (Malformed_list x))) \<or>
    circular h x \<and> Flength x h = Some (Inl (Circular_list x))"
proof (cases "circular h x")
  case True
  then show ?thesis using list_length_circular [of h x] assms by (simp add: Flength_def)
next
  case False
  then obtain as y where p: "lpath h x as y" "\<not> CONSP y" using path_or_circular by blast
  then show ?thesis using list_length_path [OF p] assms
    by (cases "NILP y") (auto simp: Flength_def proper_list_def)
qed

theorem Flength_list_witness:
  "circular sample_heap (Lisp_Cons 4) \<and> Flength (Lisp_Cons 4) sample_heap = Some (Inl (Circular_list (Lisp_Cons 4)))"
  using Flength_list [of sample_heap "Lisp_Cons 4" 4] sample_circular circular_not_path
  by (auto simp: proper_list_def dest!: circular_not_path [OF sample_circular])

text \<open>
  \<open>safe-length\<close> always returns; on a list that ends it is the number of conses, on
  a circular one it is at least the number of distinct conses.
\<close>

theorem Fsafe_length_total:
  assumes "heap_ok h" and "obj_ok h x"
  shows "\<exists>n. Fsafe_length x h = Some (Lisp_Int (int n)) \<and>
    (if circular h x then card (range (cdrn h x)) \<le> n
     else \<exists>as y. lpath h x as y \<and> \<not> CONSP y \<and> n = length as)"
proof (cases "circular h x")
  case True
  then obtain n where n: "safe_length_loop h x x 0 = Some n" "halfway_meet h x n"
    using safe_length_circular assms by blast
  have "card (range (cdrn h x)) \<le> n"
    unfolding halfway_meet_covers [OF n(2)] using card_image_le [of "{..<n}" "cdrn h x"] by simp
  with n(1) True show ?thesis by (simp add: Fsafe_length_def)
next
  case False
  then obtain as y where p: "lpath h x as y" "\<not> CONSP y" using path_or_circular by blast
  with safe_length_path [OF p] False show ?thesis
    by (intro exI [of _ "length as"]) (auto simp: Fsafe_length_def)
qed

theorem Fsafe_length_total_witness:
  "\<exists>n. Fsafe_length (Lisp_Cons 4) sample_heap = Some (Lisp_Int (int n)) \<and>
     card (range (cdrn sample_heap (Lisp_Cons 4))) \<le> n"
  using Fsafe_length_total [of sample_heap "Lisp_Cons 4"] sample_circular by simp

text \<open>
  \<open>memq\<close> returns on every list: the tail that starts at the first element that is
  \<open>eq\<close> to the object; without one, \<open>nil\<close> on a proper list and an error on the others. A
  circular list with the element is searched without error.
\<close>

theorem Fmemq_total:
  assumes "heap_ok h" and "obj_ok h x"
  shows "(\<exists>k. first_match h x (\<lambda>e. EQ elt e) k \<and> Fmemq elt x h = Some (Inr (cdrn h x k))) \<or>
    (\<forall>k. \<not> first_match h x (\<lambda>e. EQ elt e) k) \<and>
      Fmemq elt x h = Some (if circular h x then Inl (Circular_list x)
                            else if \<exists>as. proper_list h x as then Inr Qnil else Inl (Malformed_list x))"
  using search_total [OF assms, of "\<lambda>e. EQ elt e" snd] by (simp add: Fmemq_def)

theorem Fmemq_total_witness:
  "\<exists>k. first_match sample_heap (Lisp_Cons 4) (\<lambda>e. EQ Qt e) k \<and>
     Fmemq Qt (Lisp_Cons 4) sample_heap = Some (Inr (cdrn sample_heap (Lisp_Cons 4) k))"
proof -
  have "first_match sample_heap (Lisp_Cons 4) (\<lambda>e. EQ Qt e) 0" by (simp add: first_match_def)
  then show ?thesis using Fmemq_total [of sample_heap "Lisp_Cons 4" Qt] by auto
qed


section \<open>Heaps that grow\<close>

definition heap_extends :: "lisp_heap \<Rightarrow> lisp_heap \<Rightarrow> bool" where
  "heap_extends h g \<longleftrightarrow> hnext h \<le> hnext g \<and> (\<forall>c < hnext h. hcar g c = hcar h c \<and> hcdr g c = hcdr h c)"

lemma heap_extends_refl [simp]: "heap_extends h h"
  by (simp add: heap_extends_def)

lemma heap_extends_trans: "heap_extends h g \<Longrightarrow> heap_extends g k \<Longrightarrow> heap_extends h k"
  by (auto simp: heap_extends_def)

lemma Fcons_extends: "Fcons a d g = (c, g') \<Longrightarrow> heap_extends h g \<Longrightarrow> heap_extends h g'"
  by (auto simp: Fcons_def heap_extends_def)

lemma list_cells_allocated:
  assumes "heap_ok h" and "obj_ok h x" and "a \<in> list_cells h x"
  shows "a < hnext h"
proof -
  obtain n where n: "cdrn h x n = Lisp_Cons a" "\<forall>i \<le> n. CONSP (cdrn h x i)"
    using assms(3) by (auto simp: list_cells_def)
  have "obj_ok h (cdrn h x i)" if "i \<le> n" for i
    using that
  proof (induction i)
    case (Suc i)
    obtain b where "cdrn h x i = Lisp_Cons b" using n(2) Suc.prems by (metis CONSP_iff Suc_leD)
    then show ?case using Suc heap_okD [OF assms(1), of b] by simp
  qed (simp add: assms(2))
  from this [of n] n(1) show ?thesis by simp
qed

text \<open>A body that only allocates.\<close>

lemma extending_keeps:
  assumes "heap_ok h" and "obj_ok h x"
    and "\<And>s e t s'. heap_extends h (hp s) \<Longrightarrow> body s e t = Inl s' \<Longrightarrow> heap_extends h (hp s')"
  shows "loop_keeps hp body h x (\<lambda>s. heap_extends h (hp s))"
  using list_cells_allocated [OF assms(1,2)] assms(3)
  unfolding loop_keeps_def heap_extends_def by blast

section \<open>Reversal\<close>

text \<open>A list made of conses allocated after \<open>h\<close>, with the given elements.\<close>

definition fresh_list :: "lisp_heap \<Rightarrow> lisp_heap \<Rightarrow> lisp_object \<Rightarrow> lisp_object list \<Rightarrow> bool" where
  "fresh_list h g x es \<longleftrightarrow>
     (\<exists>bs. proper_list g x bs \<and> elements g bs = es \<and> (\<forall>b \<in> set bs. hnext h \<le> b \<and> b < hnext g))"

lemma fresh_list_Nil [simp]: "fresh_list h g Qnil es \<longleftrightarrow> es = []"
  by (auto simp: fresh_list_def)

lemma fresh_list_cons:
  assumes "heap_extends h g" and "fresh_list h g x es" and "Fcons e x g = (c, g')"
  shows "heap_extends h g' \<and> fresh_list h g' c (e # es)"
proof -
  from assms(2) obtain bs where bs: "proper_list g x bs" "elements g bs = es"
    "\<forall>b \<in> set bs. hnext h \<le> b \<and> b < hnext g" by (auto simp: fresh_list_def)
  have g': "c = Lisp_Cons (hnext g)" "hcar g' = (hcar g)(hnext g := e)" "hcdr g' = (hcdr g)(hnext g := x)"
    "hnext g' = Suc (hnext g)" using assms(3) by (auto simp: Fcons_def)
  have "lpath g' x bs Qnil = lpath g x bs Qnil"
    using bs(3) by (intro lpath_cong) (auto simp: g')
  moreover have "elements g' bs = elements g bs" using bs(3) by (auto simp: elements_def g')
  ultimately have "proper_list g' c (hnext g # bs)" "elements g' (hnext g # bs) = e # es"
    using bs g' by (auto simp: proper_list_def)
  moreover have "\<forall>b \<in> set (hnext g # bs). hnext h \<le> b \<and> b < hnext g'"
    using bs(3) assms(1) by (auto simp: g' heap_extends_def)
  ultimately have "fresh_list h g' c (e # es)" unfolding fresh_list_def by blast
  then show ?thesis using Fcons_extends [OF assms(3,1)] by simp
qed

lemma nth_element: "lpath h x as y \<Longrightarrow> i < length as \<Longrightarrow> XCAR h (cdrn h x i) = elements h as ! i"
  by (simp add: lpath_cdrn_nth elements_def)

lemma reverse_run:
  assumes "lpath h x as y" and "heap_extends h g" and "fresh_list h g acc es" and "i + k \<le> length as"
  shows "\<exists>g' acc'. run_body reverse_body h x i k (g, acc) = Inl (g', acc') \<and> heap_extends h g' \<and>
    fresh_list h g' acc' (rev (take k (drop i (elements h as))) @ es)"
  using assms(2-4)
proof (induction k arbitrary: i g acc es)
  case (Suc k)
  obtain c g1 where c: "Fcons (XCAR h (cdrn h x i)) acc g = (c, g1)" by fastforce
  have "heap_extends h g1" "fresh_list h g1 c (XCAR h (cdrn h x i) # es)"
    using fresh_list_cons [OF Suc.prems(1,2) c] by simp_all
  moreover have "Suc i + k \<le> length as" using Suc.prems(3) by simp
  ultimately obtain g' acc' where "run_body reverse_body h x (Suc i) k (g1, c) = Inl (g', acc')" "heap_extends h g'"
    "fresh_list h g' acc' (rev (take k (drop (Suc i) (elements h as))) @ XCAR h (cdrn h x i) # es)"
    using Suc.IH by blast
  moreover have "take (Suc k) (drop i (elements h as)) =
      XCAR h (cdrn h x i) # take k (drop (Suc i) (elements h as))"
    using Suc.prems(3) by (simp add: nth_element [OF assms(1)] Cons_nth_drop_Suc [symmetric])
  moreover have "reverse_body (g, acc) (XCAR h (cdrn h x i)) (cdrn h x i) = Inl (g1, c)"
    using c by (simp add: reverse_body_def)
  ultimately show ?case by simp
qed simp

lemma reverse_keeps: "heap_ok h \<Longrightarrow> obj_ok h x \<Longrightarrow> loop_keeps fst reverse_body h x (\<lambda>s. heap_extends h (fst s))"
  by (rule extending_keeps) (auto simp: reverse_body_def dest: Fcons_extends split: prod.splits)


text \<open>
  \<open>reverse\<close> returns a list of new conses with the elements in reverse order and
  leaves every existing cons alone; it signals an error on dotted and on circular lists.
\<close>

theorem Freverse_spec:
  assumes "heap_ok h" and "obj_ok h x"
  shows "(\<exists>as y h'. proper_list h x as \<and> Freverse x h = Some (Inr (y, h')) \<and> heap_extends h h' \<and>
            fresh_list h h' y (rev (elements h as))) \<or>
    (\<exists>as y. lpath h x as y \<and> \<not> CONSP y \<and> \<not> NILP y \<and> Freverse x h = Some (Inl (Malformed_list x))) \<or>
    circular h x \<and> Freverse x h = Some (Inl (Circular_list x))"
proof (cases "circular h x")
  case True
  have "EXTERNAL_LIST_LOOP_4 fst reverse_body x (h, Qnil) = Some (Inl (Circular_list x))"
    by (rule EXTERNAL_LIST_LOOP_4_circular [OF reverse_keeps [OF assms] _ True assms])
      (auto simp: reverse_body_def split: prod.split)
  with True show ?thesis by (simp add: Freverse_def)
next
  case False
  then obtain as y where p: "lpath h x as y" "\<not> CONSP y" using path_or_circular by blast
  obtain h' r where r: "run_body reverse_body h x 0 (length as) (h, Qnil) = Inl (h', r)" "heap_extends h h'"
    "fresh_list h h' r (rev (elements h as))"
    using reverse_run [OF p(1), of h Qnil "[]" 0 "length as"] by auto
  have "EXTERNAL_LIST_LOOP_4 fst reverse_body x (h, Qnil) =
      (if NILP y then Some (Inr (Inl (h', r))) else Some (Inl (Malformed_list x)))"
    using EXTERNAL_LIST_LOOP_4_path [OF reverse_keeps [OF assms] _ p, of "(h, Qnil)"] r(1) by simp
  with p r(2,3) show ?thesis by (cases "NILP y") (auto simp: Freverse_def proper_list_def)
qed

theorem Freverse_spec_witness:
  "\<exists>as y h'. proper_list sample_heap (Lisp_Cons 0) as \<and>
     Freverse (Lisp_Cons 0) sample_heap = Some (Inr (y, h')) \<and> heap_extends sample_heap h' \<and>
     fresh_list sample_heap h' y (rev (elements sample_heap as))"
  using Freverse_spec [of sample_heap "Lisp_Cons 0"] proper_not_circular [OF sample_lists(1)]
    proper_not_dotted [OF sample_lists(1)] by auto

text \<open>
  \<open>nreverse\<close> on a proper list turns the cdrs of its own conses around: the result is
  the list of the same conses in reverse order, no car and no other cons changes.
\<close>

theorem Fnreverse_spec:
  assumes "proper_list h x as"
  shows "\<exists>y h'. Fnreverse x h = Some (Inr (y, h')) \<and> proper_list h' y (rev as) \<and>
    elements h' (rev as) = rev (elements h as) \<and> hcar h' = hcar h \<and> hnext h' = hnext h \<and>
    (\<forall>c. c \<notin> set as \<longrightarrow> hcdr h' c = hcdr h c)"
proof -
  obtain y h' where "nreverse_loop Qnil x h = Some (Inr (y, h'))" "proper_list h' y (rev as)"
    "hcar h' = hcar h" "\<forall>c. c \<notin> set as \<longrightarrow> hcdr h' c = hcdr h c" "hnext h' = hnext h"
    using nreverse_loop_path [OF assms, of Qnil "[]"] by auto
  then show ?thesis by (simp add: Fnreverse_def elements_def rev_map)
qed

theorem Fnreverse_spec_witness:
  "\<exists>y h'. Fnreverse (Lisp_Cons 0) sample_heap = Some (Inr (y, h')) \<and> proper_list h' y [2, 1, 0] \<and>
     elements h' [2, 1, 0] = [Lisp_Int 3, Lisp_Int 2, Lisp_Int 1]"
  using Fnreverse_spec [OF sample_lists(1)] by auto


section \<open>Tails\<close>

text \<open>One step of \<open>last\<close>, in terms of positions.\<close>

abbreviation last_at :: "lisp_heap \<Rightarrow> lisp_object \<Rightarrow> nat \<Rightarrow> nat \<Rightarrow> lisp_object lresult option" where
  "last_at h x n i \<equiv> last_loop h x (cdrn h x (i - n)) (cdrn h x (tortoise_at (i - 1))) (cdrn h x i) (int n - int i) i"

lemma last_loop_step:
  assumes "CONSP (cdrn h x i)"
  shows "last_at h x n i =
    (if CIRCULAR_LIST_SUSPICION_LENGTH \<le> i \<and> cdrn h x i = cdrn h x (tortoise_at i)
     then Some (Inl (Circular_list x)) else last_at h x n (Suc i))"
proof -
  have ret: "(if int n - int i \<le> 0 then XCDR h (cdrn h x (i - n)) else cdrn h x (i - n)) = cdrn h x (Suc i - n)"
    by (cases "n \<le> i") (auto simp: Suc_diff_le)
  have int: "int n - int i - 1 = int n - int (Suc i)" by simp
  have hare: "XCDR h (cdrn h x i) = cdrn h x (Suc i)" by simp
  show ?thesis
  proof (cases "i < CIRCULAR_LIST_SUSPICION_LENGTH")
    case True
    then have "tortoise_at (i - 1) = tortoise_at i"
      by (simp add: CIRCULAR_LIST_SUSPICION_LENGTH_def tortoise_at_def)
    moreover from True have "\<not> CIRCULAR_LIST_SUSPICION_LENGTH \<le> i" by simp
    ultimately show ?thesis using True assms
      by (subst last_loop.simps) (simp only: ret int hare diff_Suc_1 if_True simp_thms if_False)
  next
    case False
    then have tort: "(if odd i then XCDR h (cdrn h x (tortoise_at (i - 1))) else cdrn h x (tortoise_at (i - 1)))
        = cdrn h x (tortoise_at i)"
      using tortoise_at_Suc [of "i - 1"] by (auto simp: CIRCULAR_LIST_SUSPICION_LENGTH_def tortoise_at_def)
    from False have "CIRCULAR_LIST_SUSPICION_LENGTH \<le> i" by simp
    with False assms show ?thesis
      by (subst last_loop.simps) (simp only: ret int hare tort diff_Suc_1 if_True simp_thms if_False Let_def)
  qed
qed

lemma last_loop_path:
  assumes p: "lpath h x as y" "\<not> CONSP y" and "i \<le> length as"
  shows "last_at h x n i = Some (Inr (cdrn h x (length as - n)))"
  using assms(3)
proof (induction "length as - i" arbitrary: i)
  case 0
  then have "cdrn h x i = y" using lpath_cdrn [OF p(1)] by simp
  with p(2) 0 show ?case by (subst last_loop.simps) simp
next
  case (Suc k)
  then have c: "CONSP (cdrn h x i)" using lpath_cdrn_nth [OF p(1), of i] by simp
  have "CIRCULAR_LIST_SUSPICION_LENGTH \<le> i \<Longrightarrow> cdrn h x i \<noteq> cdrn h x (tortoise_at i)"
    using path_positions_distinct [OF p, of "tortoise_at i" i] tortoise_behind [of i] Suc.prems
    by (simp add: CIRCULAR_LIST_SUSPICION_LENGTH_def)
  then have "last_at h x n i = last_at h x n (Suc i)" unfolding last_loop_step [OF c] by auto
  also have "\<dots> = Some (Inr (cdrn h x (length as - n)))"
    by (rule Suc.hyps(1)) (use Suc.hyps(2) in auto)
  finally show ?case .
qed

lemma last_loop_circular:
  assumes "circular h x" and "CIRCULAR_LIST_SUSPICION_LENGTH < m" "cdrn h x m = cdrn h x (tortoise_at m)"
    and "i \<le> m"
  shows "last_at h x n i = Some (Inl (Circular_list x))"
  using assms(4)
proof (induction "m - i" arbitrary: i)
  case 0
  then show ?case using last_loop_step [of h x i n] assms by (simp add: circular_def)
next
  case (Suc k)
  have "last_at h x n (Suc i) = Some (Inl (Circular_list x))"
    by (rule Suc.hyps(1)) (use Suc.hyps(2) in auto)
  moreover have "CONSP (cdrn h x i)" using assms(1) by (simp add: circular_def)
  ultimately show ?case using last_loop_step [of h x i n] by presburger
qed

text \<open>
  \<open>last\<close> with a count N returns the tail made of the last N conses of a proper or
  dotted list, the whole list when it is shorter, and signals an error on a circular list.
\<close>

theorem Flast_spec:
  assumes "heap_ok h" and "obj_ok h x" and "LISTP x"
  shows "(\<exists>as y. lpath h x as y \<and> \<not> CONSP y \<and>
      (\<exists>z. Flast x (Lisp_Int (int n)) h = Some (Inr z) \<and> lpath h z (drop (length as - n) as) y)) \<or>
    circular h x \<and> Flast x (Lisp_Int (int n)) h = Some (Inl (Circular_list x))"
proof (cases "circular h x")
  case True
  obtain c i where "0 < c" "cdrn h x (i + c) = cdrn h x i"
    using circular_repeats [OF assms(1,2) True] by metis
  then obtain m where "CIRCULAR_LIST_SUSPICION_LENGTH < m" "cdrn h x m = cdrn h x (tortoise_at m)"
    using tortoise_meets by blast
  from last_loop_circular [OF True this, of 0 n] True assms(3) show ?thesis by (simp add: Flast_def)
next
  case False
  then obtain as y where p: "lpath h x as y" "\<not> CONSP y" using path_or_circular by blast
  have "Flast x (Lisp_Int (int n)) h = Some (Inr (cdrn h x (length as - n)))"
    using last_loop_path [OF p, of 0 n] assms(3) by (simp add: Flast_def)
  moreover have "lpath h (cdrn h x (length as - n)) (drop (length as - n) as) y"
  proof -
    have "lpath h x (take (length as - n) as @ drop (length as - n) as) y" using p(1) by simp
    then obtain z where z: "lpath h x (take (length as - n) as) z" "lpath h z (drop (length as - n) as) y"
      unfolding lpath_append by blast
    from lpath_cdrn [OF z(1)] z(2) show ?thesis by simp
  qed
  ultimately show ?thesis using p by blast
qed

theorem Flast_spec_witness:
  "circular sample_heap (Lisp_Cons 4) \<and>
   Flast (Lisp_Cons 4) (Lisp_Int 2) sample_heap = Some (Inl (Circular_list (Lisp_Cons 4)))"
  using Flast_spec [of sample_heap "Lisp_Cons 4" 2] sample_circular
  by (auto dest!: circular_not_path [OF sample_circular])

section \<open>Removing the last elements\<close>

lemma nbutlast_run:
  "run_body nbutlast_body h x i k (h, int n - int i, cdrn h x (i - Suc n)) =
     Inl (h, int n - int (i + k), cdrn h x (i + k - Suc n))"
proof (induction k arbitrary: i)
  case (Suc k)
  have pos: "(if int n - int i < 0 then XCDR h (cdrn h x (i - Suc n)) else cdrn h x (i - Suc n)) = cdrn h x (Suc i - Suc n)"
    by (cases "n < i") (auto simp: Suc_diff_Suc [symmetric])
  have "nbutlast_body (h, int n - int i, cdrn h x (i - Suc n)) e t =
      Inl (h, int n - int (Suc i), cdrn h x (Suc i - Suc n))" for e t
    unfolding nbutlast_body_def using pos by simp
  with Suc [of "Suc i"] show ?case by simp
qed simp


lemma nbutlast_keeps: "loop_keeps fst nbutlast_body h x (\<lambda>s. fst s = h)"
  by (auto simp: loop_keeps_def nbutlast_body_def)

lemma proper_list_cut:
  assumes "proper_list h x as" and "k < length as"
  shows "proper_list (h\<lparr>hcdr := (hcdr h)(as ! k := Qnil)\<rparr>) x (take (Suc k) as)"
proof -
  have "as = take k as @ as ! k # drop (Suc k) as" using assms(2) by (rule id_take_nth_drop)
  then have "lpath h x (take k as @ as ! k # drop (Suc k) as) Qnil" using assms(1) by (simp add: proper_list_def)
  then have "lpath h x (take k as) (Lisp_Cons (as ! k))" by (auto simp: lpath_append)
  moreover have "as ! k \<notin> set (take k as)"
    using proper_list_distinct [OF assms(1)] assms(2) by (auto simp: in_set_conv_nth nth_eq_iff_index_eq)
  ultimately show ?thesis using assms(2)
    by (simp add: proper_list_def take_Suc_conv_app_nth lpath_append)
qed

text \<open>
  \<open>nbutlast\<close> of a proper list with N or fewer elements is \<open>nil\<close> and changes nothing;
  of a longer one it is the list of its conses but the last N, cut off by one change of a cdr.
\<close>

theorem Fnbutlast_spec:
  assumes "proper_list h x as"
  shows "if length as \<le> n then Fnbutlast x (Lisp_Int (int n)) h = Some (Inr (Qnil, h))
    else \<exists>h'. Fnbutlast x (Lisp_Int (int n)) h = Some (Inr (x, h')) \<and>
           proper_list h' x (take (length as - n) as) \<and>
           h' = h\<lparr>hcdr := (hcdr h)(as ! (length as - Suc n) := Qnil)\<rparr>"
proof -
  have p: "lpath h x as Qnil" "\<not> CONSP Qnil" using assms by (simp_all add: proper_list_def)
  have lst: "LISTP x" using p(1) by (cases as) auto
  have "run_body nbutlast_body h x 0 (length as) (h, int n, x) =
      Inl (h, int n - int (length as), cdrn h x (length as - Suc n))"
    using nbutlast_run [of h x 0 "length as" n] by simp
  then have loop: "EXTERNAL_LIST_LOOP_4 fst nbutlast_body x (h, int n, x) =
      Some (Inr (Inl (h, int n - int (length as), cdrn h x (length as - Suc n))))"
    using EXTERNAL_LIST_LOOP_4_path [OF nbutlast_keeps _ p, of "(h, int n, x)"] by simp
  show ?thesis
  proof (cases "length as \<le> n")
    case True
    then show ?thesis using lst loop by (auto simp: Fnbutlast_def)
  next
    case False
    have "cdrn h x (length as - Suc n) = Lisp_Cons (as ! (length as - Suc n))"
      by (rule lpath_cdrn_nth [OF p(1)]) (use False in simp)
    moreover have "Suc (length as - Suc n) = length as - n" using False by simp
    ultimately show ?thesis
      using False lst loop proper_list_cut [OF assms, of "length as - Suc n"] by (auto simp: Fnbutlast_def)
  qed
qed

theorem Fnbutlast_spec_witness:
  "\<exists>h'. Fnbutlast (Lisp_Cons 0) (Lisp_Int 2) sample_heap = Some (Inr (Lisp_Cons 0, h')) \<and>
     proper_list h' (Lisp_Cons 0) [0]"
  using Fnbutlast_spec [OF sample_lists(1), of 2] by auto

lemma butlast_run:
  assumes "lpath h x as y" and "heap_ok h" and "obj_ok h x" and "heap_extends h g"
    and "fresh_list h g acc (rev (take (i - n) (elements h as)))" and "i + k \<le> length as"
  shows "\<exists>g' acc'. run_body butlast_body h x i k (g, int n - int i, acc, cdrn h x (i - n)) =
      Inl (g', int n - int (i + k), acc', cdrn h x (i + k - n)) \<and> heap_extends h g' \<and>
    fresh_list h g' acc' (rev (take (i + k - n) (elements h as)))"
  using assms(4-6)
proof (induction k arbitrary: i g acc)
  case (Suc k)
  show ?case
  proof (cases "i < n")
    case True
    have "butlast_body (g, int n - int i, acc, cdrn h x (i - n)) e t =
        Inl (g, int n - int (Suc i), acc, cdrn h x (Suc i - n))" for e t
      using True by (simp add: butlast_body_def)
    moreover have "fresh_list h g acc (rev (take (Suc i - n) (elements h as)))"
      using Suc.prems(2) True by simp
    ultimately show ?thesis using Suc.IH [of g acc "Suc i"] Suc.prems by auto
  next
    case False
    let ?e = "XCAR h (cdrn h x (i - n))"
    have "i - n < length as" using Suc.prems(3) by simp
    then have c: "cdrn h x (i - n) = Lisp_Cons (as ! (i - n))" and e: "?e = elements h as ! (i - n)"
      by (simp_all add: lpath_cdrn_nth [OF assms(1)] elements_def)
    have old: "as ! (i - n) < hnext h"
      using lpath_allocated [OF assms(2,3,1)] \<open>i - n < length as\<close> by simp
    obtain d g1 where d: "Fcons ?e acc g = (d, g1)" by fastforce
    note g1 = fresh_list_cons [OF Suc.prems(1,2) d]
    have ext: "heap_extends h g1" using g1 by simp
    have "butlast_body (g, int n - int i, acc, cdrn h x (i - n)) a t =
        Inl (g1, int n - int (Suc i), d, cdrn h x (Suc i - n))" for a t
      using False d Suc.prems(1) ext old c by (simp add: butlast_body_def heap_extends_def Suc_diff_le)
    moreover have "rev (take (Suc i - n) (elements h as)) = ?e # rev (take (i - n) (elements h as))"
      using False \<open>i - n < length as\<close> e by (simp add: Suc_diff_le take_Suc_conv_app_nth)
    ultimately show ?thesis using Suc.IH [of g1 d "Suc i"] Suc.prems g1 by auto
  qed
qed simp


lemma butlast_keeps:
  "heap_ok h \<Longrightarrow> obj_ok h x \<Longrightarrow> loop_keeps fst butlast_body h x (\<lambda>s. heap_extends h (fst s))"
  by (rule extending_keeps) (auto simp: butlast_body_def Let_def dest: Fcons_extends split: prod.splits if_splits)

lemma fresh_nreverse:
  assumes "heap_extends h g" and "fresh_list h g x es"
  shows "\<exists>y g'. Fnreverse x g = Some (Inr (y, g')) \<and> heap_extends h g' \<and> fresh_list h g' y (rev es)"
proof -
  from assms(2) obtain bs where bs: "proper_list g x bs" "elements g bs = es"
    "\<forall>b \<in> set bs. hnext h \<le> b \<and> b < hnext g" by (auto simp: fresh_list_def)
  obtain y g' where r: "nreverse_loop Qnil x g = Some (Inr (y, g'))" "proper_list g' y (rev bs)"
    "hcar g' = hcar g" "\<forall>c. c \<notin> set bs \<longrightarrow> hcdr g' c = hcdr g c" "hnext g' = hnext g"
    using nreverse_loop_path [OF bs(1), of Qnil "[]"] by auto
  have "elements g' (rev bs) = rev es" using bs(2) r(3) by (simp add: elements_def rev_map [symmetric])
  moreover have "\<forall>b \<in> set (rev bs). hnext h \<le> b \<and> b < hnext g'" using bs(3) r(5) by simp
  ultimately have "fresh_list h g' y (rev es)" using r(2) unfolding fresh_list_def by blast
  moreover have "c \<notin> set bs" if "c < hnext h" for c using bs(3) that by force
  then have "heap_extends h g'" using assms(1) r by (simp add: heap_extends_def)
  ultimately show ?thesis using r(1) by (simp add: Fnreverse_def)
qed

text \<open>
  \<open>butlast\<close> returns a list of new conses with all but the last N elements, and
  leaves the list it is given alone.
\<close>

theorem Fbutlast_spec:
  assumes "heap_ok h" and "obj_ok h x" and "proper_list h x as"
  shows "\<exists>y h'. Fbutlast x (Lisp_Int (int n)) h = Some (Inr (y, h')) \<and> heap_extends h h' \<and>
    fresh_list h h' y (take (length as - n) (elements h as))"
proof -
  have p: "lpath h x as Qnil" "\<not> CONSP Qnil" using assms by (simp_all add: proper_list_def)
  have lst: "LISTP x" using p(1) by (cases as) auto
  obtain g acc where run: "run_body butlast_body h x 0 (length as) (h, int n, Qnil, x) =
      Inl (g, int n - int (length as), acc, cdrn h x (length as - n))"
      "heap_extends h g" "fresh_list h g acc (rev (take (length as - n) (elements h as)))"
    using butlast_run [OF p(1) assms(1,2), of h Qnil 0 n "length as"] by auto
  have "EXTERNAL_LIST_LOOP_4 fst butlast_body x (h, int n, Qnil, x) =
      Some (Inr (Inl (g, int n - int (length as), acc, cdrn h x (length as - n))))"
    using EXTERNAL_LIST_LOOP_4_path [OF butlast_keeps [OF assms(1,2)] _ p, of "(h, int n, Qnil, x)"] run(1) by simp
  then have "Fbutlast x (Lisp_Int (int n)) h = Fnreverse acc g" using lst by (auto simp: Fbutlast_def)
  with fresh_nreverse [OF run(2,3)] show ?thesis by simp
qed

theorem Fbutlast_spec_witness:
  "\<exists>y h'. Fbutlast (Lisp_Cons 0) (Lisp_Int 1) sample_heap = Some (Inr (y, h')) \<and> heap_extends sample_heap h' \<and>
     fresh_list sample_heap h' y [Lisp_Int 1, Lisp_Int 2]"
  using Fbutlast_spec [OF sample_heap_ok _ sample_lists(1), of 1] by (simp add: numeral_2_eq_2)

section \<open>Copying\<close>

text \<open>
  The heap after one step of \<open>copy_list\<close>: the cons \<open>b\<close>, the last of the copy so far, is made to
  point to a copy of the cons \<open>a\<close>.
\<close>

definition copied :: "lisp_heap \<Rightarrow> nat \<Rightarrow> nat \<Rightarrow> lisp_heap" where
  "copied g b a = g\<lparr>hcar := (hcar g)(hnext g := hcar g a),
     hcdr := (hcdr g)(hnext g := hcdr g a, b := Lisp_Cons (hnext g)), hnext := Suc (hnext g)\<rparr>"

definition copy_tortoise :: "nat \<Rightarrow> nat" where
  "copy_tortoise i = 1 + (i - 1024) div 2"

abbreviation copy_at :: "lisp_heap \<Rightarrow> lisp_object \<Rightarrow> lisp_object \<Rightarrow> nat \<Rightarrow> nat \<Rightarrow> lisp_heap \<Rightarrow> (lisp_object \<times> lisp_heap) lresult option" where
  "copy_at h x cp b i g \<equiv> copy_list_loop x cp (Lisp_Cons b) (cdrn h x (copy_tortoise i)) (cdrn h x i) i g"

lemma copied_extends: "heap_extends h g \<Longrightarrow> hnext h \<le> b \<Longrightarrow> heap_extends h (copied g b a)"
  by (auto simp: heap_extends_def copied_def)

lemma copy_loop_step:
  assumes "heap_extends h g" and b: "hnext h \<le> b" "b < hnext g" and "1 \<le> i"
    and conses: "\<forall>j \<le> i. \<exists>a < hnext h. cdrn h x j = Lisp_Cons a" and a: "cdrn h x i = Lisp_Cons a"
  shows "copy_at h x cp b i g =
    (if CIRCULAR_LIST_SUSPICION_LENGTH \<le> i \<and> cdrn h x (copy_tortoise (Suc i)) = cdrn h x i
     then Some (Inl (Circular_list x)) else copy_at h x cp (hnext g) (Suc i) (copied g b a))"
proof -
  have al: "a < hnext h" using conses a by fastforce
  have "copy_tortoise i \<le> i" using assms(4) by (simp add: copy_tortoise_def)
  then obtain t where t: "cdrn h x (copy_tortoise i) = Lisp_Cons t" "t < hnext h" using conses by blast
  have same: "hcar g a = hcar h a" "hcdr g a = hcdr h a" "hcdr g t = hcdr h t"
    using assms(1) al t(2) by (simp_all add: heap_extends_def)
  have ne: "a \<noteq> b" "a \<noteq> hnext g" "t \<noteq> b" "t \<noteq> hnext g" using al t(2) b by simp_all
  have new: "XSETCDR (snd (Fcons (hcar g a) (hcdr g a) g)) (Lisp_Cons b) (Lisp_Cons (hnext g)) = copied g b a"
    using b by (simp add: Fcons_def copied_def)
  have cdrs: "hcdr (copied g b a) a = hcdr h a" "hcdr (copied g b a) t = hcdr h t"
    "hcdr (copied g b a) b = Lisp_Cons (hnext g)"
    using al t(2) b assms(1) same by (auto simp: copied_def heap_extends_def)
  show ?thesis
  proof (cases "i < CIRCULAR_LIST_SUSPICION_LENGTH")
    case True
    then have "copy_tortoise (Suc i) = copy_tortoise i"
      by (simp add: CIRCULAR_LIST_SUSPICION_LENGTH_def copy_tortoise_def)
    with True a new cdrs ne same show ?thesis
      by (subst copy_list_loop.simps) (simp add: Fcons_def)
  next
    case False
    then have "copy_tortoise (Suc i) = (if odd i then Suc (copy_tortoise i) else copy_tortoise i)"
      unfolding CIRCULAR_LIST_SUSPICION_LENGTH_def copy_tortoise_def by presburger
    with False a new cdrs t ne same show ?thesis
      by (subst copy_list_loop.simps) (simp add: Fcons_def Let_def)
  qed
qed


text \<open>On a list that ends, the copy grows to the whole list.\<close>

definition copy_so_far :: "lisp_heap \<Rightarrow> lisp_heap \<Rightarrow> lisp_object \<Rightarrow> nat list \<Rightarrow> lisp_object list \<Rightarrow> lisp_object \<Rightarrow> bool" where
  "copy_so_far h g cp bs es y \<longleftrightarrow> heap_extends h g \<and> lpath g cp bs y \<and> elements g bs = es \<and> distinct bs \<and>
     (\<forall>b \<in> set bs. hnext h \<le> b \<and> b < hnext g)"

lemma copy_so_far_step:
  assumes "copy_so_far h g cp (bs @ [b]) es y" and "a < hnext h"
  shows "copy_so_far h (copied g b a) cp (bs @ [b, hnext g]) (es @ [hcar h a]) (hcdr h a)"
proof -
  let ?g = "copied g b a"
  from assms(1) have p: "lpath g cp bs (Lisp_Cons b)" and ext: "heap_extends h g"
    and fresh: "\<forall>c \<in> set (bs @ [b]). hnext h \<le> c \<and> c < hnext g" and dist: "distinct (bs @ [b])"
    and es: "elements g (bs @ [b]) = es"
    by (auto simp: copy_so_far_def lpath_append)
  have "lpath ?g cp bs (Lisp_Cons b) = lpath g cp bs (Lisp_Cons b)"
    using fresh dist by (intro lpath_cong) (auto simp: copied_def)
  moreover have "hcdr ?g b = Lisp_Cons (hnext g)" "hcdr ?g (hnext g) = hcdr h a"
    "hcar ?g (hnext g) = hcar h a"
    using fresh ext assms(2) by (auto simp: copied_def heap_extends_def)
  moreover have "elements ?g (bs @ [b]) = elements g (bs @ [b])"
    using fresh by (auto simp: elements_def copied_def)
  ultimately show ?thesis
    using p es dist fresh ext assms(2) copied_extends [OF ext, of b a]
    by (auto simp: copy_so_far_def lpath_append copied_def heap_extends_def)
qed

lemma copy_loop_path:
  assumes "heap_ok h" and "obj_ok h x" and p: "lpath h x as y" "\<not> CONSP y"
    and "copy_so_far h g cp (bs @ [b]) (take i (elements h as)) (cdrn h x i)" and "1 \<le> i" and "i \<le> length as"
  shows "\<exists>g' cs. copy_at h x cp b i g = Some (Inr (cp, g')) \<and> copy_so_far h g' cp cs (elements h as) y"
  using assms(5-7)
proof (induction "length as - i" arbitrary: i g bs b)
  case 0
  then have "cdrn h x i = y" "take i (elements h as) = elements h as" using lpath_cdrn [OF p(1)] by simp_all
  with p(2) 0 show ?case by (subst copy_list_loop.simps) auto
next
  case (Suc k)
  have nth: "\<exists>c < hnext h. cdrn h x j = Lisp_Cons c" if "j < length as" for j
    using lpath_cdrn_nth [OF p(1) that] lpath_allocated [OF assms(1,2) p(1)] that by simp
  have "i < length as" using Suc.hyps(2) by linarith
  from nth [OF this] obtain a where a: "cdrn h x i = Lisp_Cons a" "a < hnext h" by auto
  have conses: "\<forall>j \<le> i. \<exists>a < hnext h. cdrn h x j = Lisp_Cons a" using nth Suc.hyps(2) by simp
  have ne: "CIRCULAR_LIST_SUSPICION_LENGTH \<le> i \<Longrightarrow> cdrn h x (copy_tortoise (Suc i)) \<noteq> cdrn h x i"
    using path_positions_distinct [OF p, of "copy_tortoise (Suc i)" i] Suc.prems(3)
    by (force simp: copy_tortoise_def CIRCULAR_LIST_SUSPICION_LENGTH_def)
  have b: "hnext h \<le> b" "b < hnext g" "heap_extends h g" using Suc.prems(1) by (auto simp: copy_so_far_def)
  have "hcar h a = elements h as ! i"
    using nth_element [OF p(1), of i] Suc.hyps(2) a(1) by simp
  then have "take (Suc i) (elements h as) = take i (elements h as) @ [hcar h a]"
    using Suc.hyps(2) by (simp add: take_Suc_conv_app_nth)
  then have "copy_so_far h (copied g b a) cp ((bs @ [b]) @ [hnext g]) (take (Suc i) (elements h as)) (cdrn h x (Suc i))"
    using copy_so_far_step [OF Suc.prems(1) a(2)] a(1) by simp
  moreover have "k = length as - Suc i" "1 \<le> Suc i" "Suc i \<le> length as" using Suc.hyps(2) by simp_all
  moreover have "copy_at h x cp b i g = copy_at h x cp (hnext g) (Suc i) (copied g b a)"
    using copy_loop_step [OF b(3,1,2) Suc.prems(2) conses a(1), of cp] ne by presburger
  ultimately show ?case using Suc.hyps(1) [of "Suc i" "copied g b a" "bs @ [b]" "hnext g"] by presburger
qed

lemma copy_loop_circular:
  assumes "heap_ok h" and "obj_ok h x" and "circular h x"
    and m: "CIRCULAR_LIST_SUSPICION_LENGTH \<le> m" "cdrn h x (copy_tortoise (Suc m)) = cdrn h x m"
    and "heap_extends h g" and "hnext h \<le> b" and "b < hnext g" and "1 \<le> i" and "i \<le> m"
  shows "copy_at h x cp b i g = Some (Inl (Circular_list x))"
  using assms(6-10)
proof (induction "m - i" arbitrary: i g b)
  case (0 i g b)
  have conses: "\<exists>a < hnext h. cdrn h x j = Lisp_Cons a" for j
    using cdrn_allocated [OF assms(1-3), of j] assms(3) unfolding circular_def by (metis CONSP_iff obj_ok_Cons)
  then obtain a where "cdrn h x i = Lisp_Cons a" by blast
  from copy_loop_step [OF 0(2,3,4,5) _ this, of cp] conses 0 m show ?case by simp
next
  case (Suc k i g b)
  have conses: "\<exists>a < hnext h. cdrn h x j = Lisp_Cons a" for j
    using cdrn_allocated [OF assms(1-3), of j] assms(3) unfolding circular_def by (metis CONSP_iff obj_ok_Cons)
  then obtain a where a: "cdrn h x i = Lisp_Cons a" by blast
  have "heap_extends h (copied g b a)" "hnext h \<le> hnext g" "hnext g < hnext (copied g b a)"
    using Suc.prems copied_extends by (auto simp: heap_extends_def copied_def)
  then have "copy_at h x cp (hnext g) (Suc i) (copied g b a) = Some (Inl (Circular_list x))"
    using Suc.hyps Suc.prems by (intro Suc.hyps(1)) auto
  then show ?case using copy_loop_step [OF Suc.prems(1-4) _ a, of cp] conses by presburger
qed

text \<open>
  \<open>copy-list\<close> returns a copy made of new conses with the same elements and the same
  end, whether the list is proper or dotted, leaves the list alone, and signals an error on a
  circular list.
\<close>

theorem Fcopy_list_spec:
  assumes "heap_ok h" and "x = Lisp_Cons a" and "a < hnext h"
  shows "(\<exists>as y cp h' cs. lpath h x as y \<and> \<not> CONSP y \<and> Fcopy_list x h = Some (Inr (cp, h')) \<and>
      heap_extends h h' \<and> lpath h' cp cs y \<and> elements h' cs = elements h as \<and> distinct cs \<and>
      (\<forall>c \<in> set cs. hnext h \<le> c)) \<or>
    circular h x \<and> Fcopy_list x h = Some (Inl (Circular_list x))"
proof -
  let ?g = "snd (Fcons (hcar h a) (hcdr h a) h)" let ?b = "hnext h"
  have ok: "obj_ok h x" using assms by simp
  have start: "Fcopy_list x h = copy_at h x (Lisp_Cons ?b) ?b 1 ?g"
    using assms by (simp add: Fcopy_list_def copy_list_def Fcons_def copy_tortoise_def)
  have first: "copy_so_far h ?g (Lisp_Cons ?b) ([] @ [?b]) [hcar h a] (hcdr h a)"
    by (auto simp: copy_so_far_def Fcons_def heap_extends_def)
  show ?thesis
  proof (cases "circular h x")
    case True
    obtain c i where "0 < c" "cdrn h x (i + c) = cdrn h x i"
      using circular_repeats [OF assms(1) ok True] by metis
    then obtain k where k: "0 < k" "cdrn h x (2 * k + 1022) = cdrn h x k"
      using meet_offset [of c h x i 1022] by blast
    let ?m = "2 * k + 1022"
    have ct: "copy_tortoise (Suc ?m) = k" using k(1) by (simp add: copy_tortoise_def)
    have "copy_at h x (Lisp_Cons ?b) ?b 1 ?g = Some (Inl (Circular_list x))"
    proof (rule copy_loop_circular [OF assms(1) ok True])
      show "cdrn h x (copy_tortoise (Suc ?m)) = cdrn h x ?m" unfolding ct by (rule k(2) [symmetric])
    qed (use k(1) in \<open>auto simp: CIRCULAR_LIST_SUSPICION_LENGTH_def Fcons_def heap_extends_def\<close>)
    with start True show ?thesis by simp
  next
    case False
    then obtain as y where p: "lpath h x as y" "\<not> CONSP y" using path_or_circular by blast
    then obtain as' where as: "as = a # as'" using assms(2) by (cases as) auto
    have "take 1 (elements h as) = [hcar h a]" "cdrn h x 1 = hcdr h a" "1 \<le> length as"
      using as assms(2) by simp_all
    then obtain g' cs where "copy_at h x (Lisp_Cons ?b) ?b 1 ?g = Some (Inr (Lisp_Cons ?b, g'))"
      "copy_so_far h g' (Lisp_Cons ?b) cs (elements h as) y"
      using copy_loop_path [OF assms(1) ok p, of ?g "Lisp_Cons ?b" "[]" ?b 1] first by auto
    then have "Fcopy_list x h = Some (Inr (Lisp_Cons ?b, g')) \<and> heap_extends h g' \<and> lpath g' (Lisp_Cons ?b) cs y \<and>
        elements g' cs = elements h as \<and> distinct cs \<and> (\<forall>c \<in> set cs. hnext h \<le> c)"
      using start by (auto simp: copy_so_far_def)
    with p show ?thesis by metis
  qed
qed


theorem Fcopy_list_spec_witness:
  "circular sample_heap (Lisp_Cons 4) \<and>
   Fcopy_list (Lisp_Cons 4) sample_heap = Some (Inl (Circular_list (Lisp_Cons 4)))"
  using Fcopy_list_spec [of sample_heap "Lisp_Cons 4" 4] sample_circular
  by (auto dest!: circular_not_path [OF sample_circular])

end
