(* ===== verification/Equal.thy ===== *)
theory Equal
  imports RangeTableOps "HOL-Library.Word"
begin

text \<open>
  \<open>equal\<close> and its hash function: \<open>internal_equal\<close> (\<open>src/src/fns.c\<close>) with the equality methods
  of conses, vectors, strings, floats and range tables, and \<open>internal_hash\<close>
  (\<open>src/src/elhash.c\<close>) with their hash methods. Record types whose contents the heap does not
  hold (markers, compiled functions and others) take part through the parameters
  \<open>other_equal\<close> and \<open>other_hash\<close>. The main theorem is the promise of \<open>sxhash\<close>: objects that
  are \<open>equal\<close> have the same hash code. It is shown for plain objects, whose parts of such types are equal only
  to themselves, and without that under the assumption that the other methods agree; those of compiled functions do not.
\<close>

unbundle bit_operations_syntax

section \<open>Equality\<close>

type_synonym equality = "lisp_object \<Rightarrow> lisp_object \<Rightarrow> bool lresult option"

text \<open>The loop of \<open>cons_equal\<close>: two circular lists may be compared for ever (\<open>None\<close>).\<close>

partial_function (option) cons_equal :: "equality \<Rightarrow> lisp_heap \<Rightarrow> equality" where
  "cons_equal eqv h ob1 ob2 =
     (let r = eqv (XCAR h ob1) (XCAR h ob2)
      in if r = Some (Inr True)
         then let ob1' = XCDR h ob1; ob2' = XCDR h ob2
              in if \<not> CONSP ob1' \<or> \<not> CONSP ob2' then eqv ob1' ob2'
                 else cons_equal eqv h ob1' ob2'
         else r)"

declare cons_equal.simps [code]

fun vector_equal_from :: "equality \<Rightarrow> lisp_object list \<Rightarrow> lisp_object list \<Rightarrow> bool lresult option" where
  "vector_equal_from eqv (x # xs) (y # ys) =
     (let r = eqv x y in if r = Some (Inr True) then vector_equal_from eqv xs ys else r)"
| "vector_equal_from eqv _ _ = Some (Inr True)"

definition vector_equal :: "equality \<Rightarrow> lisp_object list \<Rightarrow> lisp_object list \<Rightarrow> bool lresult option" where
  "vector_equal eqv v1 v2 =
     (if length v1 \<noteq> length v2 then Some (Inr False) else vector_equal_from eqv v1 v2)"

definition string_equal :: "lisp_heap \<Rightarrow> nat \<Rightarrow> nat \<Rightarrow> bool" where
  "string_equal h s1 s2 \<longleftrightarrow> length (hstr h s1) = length (hstr h s2) \<and> hstr h s1 = hstr h s2"

definition float_equal :: "lisp_heap \<Rightarrow> nat \<Rightarrow> nat \<Rightarrow> bool" where
  "float_equal h f1 f2 \<longleftrightarrow> hflt h f1 = hflt h f2"

text \<open>The dispatch on the record implementation, both objects of one type.\<close>

fun equal_method :: "(nat \<Rightarrow> equality) \<Rightarrow> equality \<Rightarrow> lisp_heap \<Rightarrow> nat \<Rightarrow> equality" where
  "equal_method other eqv h depth (Lisp_Cons a) (Lisp_Cons b) = cons_equal eqv h (Lisp_Cons a) (Lisp_Cons b)"
| "equal_method other eqv h depth (Lisp_String a) (Lisp_String b) = Some (Inr (string_equal h a b))"
| "equal_method other eqv h depth (Lisp_Float a) (Lisp_Float b) = Some (Inr (float_equal h a b))"
| "equal_method other eqv h depth (Lisp_Vector a) (Lisp_Vector b) = vector_equal eqv (hvec h a) (hvec h b)"
| "equal_method other eqv h depth (Lisp_Lrecord ty a) (Lisp_Lrecord ty' b) =
     (if ty \<noteq> ty' then Some (Inr False)
      else if ty = Lrecord_range_table then range_table_equal eqv (hrt h a) (hrt h b)
      else other depth (Lisp_Lrecord ty a) (Lisp_Lrecord ty b))"
| "equal_method other eqv h depth x y = Some (Inr False)"

function internal_equal :: "(nat \<Rightarrow> equality) \<Rightarrow> lisp_heap \<Rightarrow> nat \<Rightarrow> equality" where
  "internal_equal other h depth obj1 obj2 =
     (if depth > 200 then Some (Inl (Error_string ''Stack overflow in equal''))
      else if EQ obj1 obj2 then Some (Inr True)
      else equal_method other (\<lambda>x y. internal_equal other h (depth + 1) x y) h depth obj1 obj2)"
  by pat_completeness auto
termination
  by (relation "measure (\<lambda>(other, h, depth, x, y). 201 - depth)") auto

declare internal_equal.simps [simp del]

definition Fequal :: "(nat \<Rightarrow> equality) \<Rightarrow> lisp_heap \<Rightarrow> lisp_object \<Rightarrow> lisp_object \<Rightarrow> lisp_object lresult option" where
  "Fequal other h object1 object2 =
     map_option (map_sum id (\<lambda>b. if b then Qt else Qnil)) (internal_equal other h 0 object1 object2)"

section \<open>Hashing\<close>

text \<open>\<open>hashcode_t\<close> is \<open>unsigned long\<close>, 64 bits wide.\<close>

type_synonym hashcode = "64 word"

definition HASH2 :: "hashcode \<Rightarrow> hashcode \<Rightarrow> hashcode" where
  "HASH2 a b = 65599 * a + b"

definition HASH3 :: "hashcode \<Rightarrow> hashcode \<Rightarrow> hashcode \<Rightarrow> hashcode" where
  "HASH3 a b c = 65599 * HASH2 a b + c"

text \<open>\<open>hash_string\<close> works in \<open>int\<close>, 32 bits; the shift of \<open>g\<close> to the right keeps its sign.\<close>

fun hash_string_loop :: "32 word \<Rightarrow> string \<Rightarrow> 32 word" where
  "hash_string_loop hash [] = hash"
| "hash_string_loop hash (c # cs) =
     (let hash1 = push_bit 4 hash + of_nat (of_char c);
          g = hash1 AND 0xf0000000
      in hash_string_loop
           (if g \<noteq> 0 then (hash1 XOR signed_drop_bit 24 g) XOR g else hash1) cs)"

definition hash_string :: "string \<Rightarrow> 32 word" where
  "hash_string s = hash_string_loop 0 s AND 0x3fffffff"

text \<open>Five elements at most, spread over the array.\<close>

definition hash_indices :: "nat \<Rightarrow> nat list" where
  "hash_indices sz = (if sz \<le> 5 then [0..<sz] else map (\<lambda>i. i * sz div 5) [0..<5])"

definition internal_array_hash :: "(lisp_object \<Rightarrow> hashcode) \<Rightarrow> lisp_object list \<Rightarrow> hashcode" where
  "internal_array_hash hsh arr =
     foldl (\<lambda>hash i. HASH2 hash (hsh (arr ! i))) 0 (hash_indices (length arr))"

definition vector_hash :: "(lisp_object \<Rightarrow> hashcode) \<Rightarrow> lisp_object list \<Rightarrow> hashcode" where
  "vector_hash hsh v = HASH2 (of_nat (length v)) (internal_array_hash hsh v)"

definition range_table_entry_hash :: "(lisp_object \<Rightarrow> hashcode) \<Rightarrow> range_table_entry \<Rightarrow> hashcode" where
  "range_table_entry_hash hsh e =
     HASH3 (word_of_int (rte_first e)) (word_of_int (rte_last e)) (hsh (rte_val e))"

definition range_table_hash :: "(lisp_object \<Rightarrow> hashcode) \<Rightarrow> Lisp_Range_Table \<Rightarrow> hashcode" where
  "range_table_hash hsh rt =
     (let sz = Dynarr_length (rt_entries rt)
      in foldl (\<lambda>hash i. HASH2 hash (range_table_entry_hash hsh (Dynarr_at (rt_entries rt) i)))
           (of_nat sz) (hash_indices sz))"

text \<open>\<open>fmod\<close> on doubles, taken as real numbers; the cast truncates.\<close>

definition trunc :: "real \<Rightarrow> int" where
  "trunc x = (if 0 \<le> x then \<lfloor>x\<rfloor> else \<lceil>x\<rceil>)"

definition float_hash :: "lisp_heap \<Rightarrow> nat \<Rightarrow> hashcode" where
  "float_hash h a =
     (let x = hflt h a in word_of_int (trunc (x - 4000000000 * of_int (trunc (x / 4000000000)))))"

text \<open>
  \<open>addr\<close> is \<open>LISP_HASH\<close>, the object's word itself. The depth a vector's elements are hashed at
  is two more than the vector's: \<open>vector_hash\<close> and \<open>internal_array_hash\<close> both add one, and
  the elements of a range table are one deeper.
\<close>

function internal_hash ::
    "(nat \<Rightarrow> lisp_object \<Rightarrow> hashcode) \<Rightarrow> (lisp_object \<Rightarrow> hashcode) \<Rightarrow> lisp_heap \<Rightarrow> nat \<Rightarrow> lisp_object \<Rightarrow> hashcode" where
  "internal_hash other addr h depth obj =
     (if depth > 5 then 0
      else case obj of
        Lisp_Cons a \<Rightarrow> HASH2 (internal_hash other addr h (depth + 1) (XCAR h obj))
                             (internal_hash other addr h (depth + 1) (XCDR h obj))
      | Lisp_String a \<Rightarrow> ucast (hash_string (hstr h a))
      | Lisp_Float a \<Rightarrow> float_hash h a
      | Lisp_Vector a \<Rightarrow> vector_hash (\<lambda>x. internal_hash other addr h (depth + 2) x) (hvec h a)
      | Lisp_Lrecord ty a \<Rightarrow>
          if ty = Lrecord_range_table
          then range_table_hash (\<lambda>x. internal_hash other addr h (depth + 1) x) (hrt h a)
          else other depth obj
      | _ \<Rightarrow> addr obj)"
  by pat_completeness auto
termination
  by (relation "measure (\<lambda>(other, addr, h, depth, x). 6 - depth)") auto

declare internal_hash.simps [simp del]

text \<open>\<open>make_int\<close> keeps 63 bits.\<close>

definition Fsxhash ::
    "(nat \<Rightarrow> lisp_object \<Rightarrow> hashcode) \<Rightarrow> (lisp_object \<Rightarrow> hashcode) \<Rightarrow> lisp_heap \<Rightarrow> lisp_object \<Rightarrow> lisp_object" where
  "Fsxhash other addr h object = Lisp_Int (sint (ucast (internal_hash other addr h 0 object) :: 63 word))"


section \<open>Objects that are equal have the same hash code\<close>

text \<open>
  An equality is sound for a hash function when what it finds equal hashes alike at every depth.
\<close>

definition sound_for :: "(nat \<Rightarrow> lisp_object \<Rightarrow> hashcode) \<Rightarrow> equality \<Rightarrow> bool" where
  "sound_for hsh eqv \<longleftrightarrow> (\<forall>x y k. eqv x y = Some (Inr True) \<longrightarrow> hsh k x = hsh k y)"

lemma sound_forD: "sound_for hsh eqv \<Longrightarrow> eqv x y = Some (Inr True) \<Longrightarrow> hsh k x = hsh k y"
  by (simp add: sound_for_def)

lemma vector_equal_from_True:
  "vector_equal_from eqv xs ys = Some (Inr True) \<Longrightarrow> length xs = length ys \<Longrightarrow>
   i < length xs \<Longrightarrow> eqv (xs ! i) (ys ! i) = Some (Inr True)"
proof (induction eqv xs ys arbitrary: i rule: vector_equal_from.induct)
  case (1 eqv x xs y ys)
  then show ?case by (cases i) (auto simp: Let_def split: if_splits)
qed auto

lemma hash_indices_less: "i \<in> set (hash_indices n) \<Longrightarrow> i < n"
  by (auto simp: hash_indices_def less_mult_imp_div_less split: if_splits)

lemma foldl_HASH2_cong:
  "(\<And>i. i \<in> set is \<Longrightarrow> f i = g i) \<Longrightarrow>
   foldl (\<lambda>hash i. HASH2 hash (f i)) a is = foldl (\<lambda>hash i. HASH2 hash (g i)) a is"
  by (induction "is" arbitrary: a) auto

lemma vector_hash_cong:
  assumes "length v = length w" and "\<And>i. i < length v \<Longrightarrow> hsh (v ! i) = hsh (w ! i)"
  shows "vector_hash hsh v = vector_hash hsh w"
  using assms hash_indices_less unfolding vector_hash_def internal_array_hash_def
  by (auto intro!: foldl_HASH2_cong arg_cong [where f = "HASH2 _"])

lemma range_table_equal_from_True:
  "range_table_equal_from eqv d1 d2 i n = Some (Inr True) \<Longrightarrow> j < n \<Longrightarrow>
   rte_first (Dynarr_at d1 (i + j)) = rte_first (Dynarr_at d2 (i + j)) \<and>
   rte_last (Dynarr_at d1 (i + j)) = rte_last (Dynarr_at d2 (i + j)) \<and>
   eqv (rte_val (Dynarr_at d1 (i + j))) (rte_val (Dynarr_at d2 (i + j))) = Some (Inr True)"
proof (induction n arbitrary: i j)
  case (Suc n)
  then show ?case
    by (cases j) (fastforce simp: Let_def split: if_splits option.splits sum.splits bool.splits)+
qed simp

lemma range_table_hash_cong:
  assumes "range_table_equal eqv rt1 rt2 = Some (Inr True)"
    and "\<And>x y. eqv x y = Some (Inr True) \<Longrightarrow> hsh x = hsh y"
  shows "range_table_hash hsh rt1 = range_table_hash hsh rt2"
proof -
  let ?d1 = "rt_entries rt1" let ?d2 = "rt_entries rt2"
  have n: "Dynarr_length ?d1 = Dynarr_length ?d2"
    and eq: "range_table_equal_from eqv ?d1 ?d2 0 (Dynarr_length ?d1) = Some (Inr True)"
    using assms(1) by (auto simp: range_table_equal_def split: if_splits)
  have "range_table_entry_hash hsh (Dynarr_at ?d1 i) = range_table_entry_hash hsh (Dynarr_at ?d2 i)"
    if "i < Dynarr_length ?d1" for i
    using range_table_equal_from_True [OF eq that] assms(2) by (auto simp: range_table_entry_hash_def)
  then show ?thesis using n hash_indices_less unfolding range_table_hash_def Let_def
    by (auto intro!: foldl_HASH2_cong)
qed


lemma cons_equal_hash:
  assumes "cons_equal eqv h ob1 ob2 = Some r"
  shows "\<forall>k. sound_for (internal_hash oh addr h) eqv \<longrightarrow> r = Inr True \<longrightarrow> CONSP ob1 \<longrightarrow> CONSP ob2 \<longrightarrow>
    internal_hash oh addr h k ob1 = internal_hash oh addr h k ob2"
proof (rule cons_equal.raw_induct [where P = "\<lambda>eqv h ob1 ob2 r. \<forall>k. sound_for (internal_hash oh addr h) eqv \<longrightarrow>
    r = Inr True \<longrightarrow> CONSP ob1 \<longrightarrow> CONSP ob2 \<longrightarrow> internal_hash oh addr h k ob1 = internal_hash oh addr h k ob2"])
  show "cons_equal eqv h ob1 ob2 = Some r" by (rule assms)
next
  fix ce eqv h ob1 ob2 r
  assume IH: "\<And>eqv h ob1 ob2 y. ce eqv h ob1 ob2 = Some y \<Longrightarrow>
      \<forall>k. sound_for (internal_hash oh addr h) eqv \<longrightarrow> y = Inr True \<longrightarrow> CONSP ob1 \<longrightarrow> CONSP ob2 \<longrightarrow>
        internal_hash oh addr h k ob1 = internal_hash oh addr h k ob2"
    and run: "(let r = eqv (XCAR h ob1) (XCAR h ob2)
      in if r = Some (Inr True)
         then let ob1' = XCDR h ob1; ob2' = XCDR h ob2
              in if \<not> CONSP ob1' \<or> \<not> CONSP ob2' then eqv ob1' ob2' else ce eqv h ob1' ob2'
         else r) = Some r"
  show "\<forall>k. sound_for (internal_hash oh addr h) eqv \<longrightarrow> r = Inr True \<longrightarrow> CONSP ob1 \<longrightarrow> CONSP ob2 \<longrightarrow>
      internal_hash oh addr h k ob1 = internal_hash oh addr h k ob2"
  proof (intro allI impI)
    fix k
    assume snd: "sound_for (internal_hash oh addr h) eqv" and r: "r = Inr True" and c: "CONSP ob1" "CONSP ob2"
    have car: "eqv (XCAR h ob1) (XCAR h ob2) = Some (Inr True)"
      using run r by (auto simp: Let_def split: if_splits)
    have "internal_hash oh addr h (k + 1) (XCDR h ob1) = internal_hash oh addr h (k + 1) (XCDR h ob2)"
    proof (cases "CONSP (XCDR h ob1) \<and> CONSP (XCDR h ob2)")
      case True
      then have "ce eqv h (XCDR h ob1) (XCDR h ob2) = Some r" using run car by (simp add: Let_def)
      from IH [OF this] True snd r show ?thesis by blast
    next
      case False
      then have "eqv (XCDR h ob1) (XCDR h ob2) = Some (Inr True)" using run car r by (auto simp: Let_def)
      then show ?thesis by (rule sound_forD [OF snd])
    qed
    moreover obtain a b where "ob1 = Lisp_Cons a" "ob2 = Lisp_Cons b" using c by (auto simp: CONSP_iff)
    ultimately show "internal_hash oh addr h k ob1 = internal_hash oh addr h k ob2"
      using sound_forD [OF snd car, of "k + 1"] by (simp add: internal_hash.simps [of oh addr h k])
  qed
qed

lemma equal_method_hash:
  assumes snd: "sound_for (internal_hash oh addr h) eqv"
    and other: "\<And>d. sound_for oh (other d)"
  shows "sound_for (internal_hash oh addr h) (equal_method other eqv h d)"
  unfolding sound_for_def
proof (intro allI impI)
  fix x y k
  assume eq: "equal_method other eqv h d x y = Some (Inr True)"
  note unfold_hash = internal_hash.simps [of oh addr h k]
  consider (cons) a b where "x = Lisp_Cons a" "y = Lisp_Cons b"
    | (string) a b where "x = Lisp_String a" "y = Lisp_String b"
    | (float) a b where "x = Lisp_Float a" "y = Lisp_Float b"
    | (vector) a b where "x = Lisp_Vector a" "y = Lisp_Vector b"
    | (lrec) ty a b where "x = Lisp_Lrecord ty a" "y = Lisp_Lrecord ty b"
    using eq by (cases x; cases y) (auto split: if_splits)
  then show "internal_hash oh addr h k x = internal_hash oh addr h k y"
  proof cases
    case cons
    then show ?thesis using eq cons_equal_hash [of eqv h x y "Inr True" oh addr] snd by simp
  next
    case string
    then show ?thesis using eq by (simp add: unfold_hash string_equal_def)
  next
    case float
    then show ?thesis using eq by (simp add: unfold_hash float_equal_def float_hash_def)
  next
    case vector
    with eq have v: "length (hvec h a) = length (hvec h b)" "vector_equal_from eqv (hvec h a) (hvec h b) = Some (Inr True)"
      by (auto simp: vector_equal_def split: if_splits)
    have "vector_hash hsh (hvec h a) = vector_hash hsh (hvec h b)" if "hsh = internal_hash oh addr h (k + 2)" for hsh
      using v(1)
    proof (rule vector_hash_cong)
      fix i assume "i < length (hvec h a)"
      from vector_equal_from_True [OF v(2,1) this] show "hsh (hvec h a ! i) = hsh (hvec h b ! i)"
        using sound_forD [OF snd] that by simp
    qed
    with vector show ?thesis by (simp add: unfold_hash)
  next
    case lrec
    show ?thesis
    proof (cases "ty = Lrecord_range_table")
      case True
      have "range_table_hash hsh (hrt h a) = range_table_hash hsh (hrt h b)" if "hsh = internal_hash oh addr h (k + 1)" for hsh
        by (rule range_table_hash_cong [of eqv]) (use eq lrec True that sound_forD [OF snd] in auto)
      with lrec True show ?thesis by (simp add: unfold_hash)
    next
      case False
      then show ?thesis using eq lrec sound_forD [OF other, of d x y k] by (simp add: unfold_hash)
    qed
  qed
qed

lemma internal_equal_hash:
  assumes "\<And>d. sound_for oh (other d)"
  shows "sound_for (internal_hash oh addr h) (internal_equal other h d)"
proof (induction "201 - d" arbitrary: d)
  case 0
  then show ?case by (simp add: sound_for_def internal_equal.simps [of other h d])
next
  case (Suc n)
  then have "sound_for (internal_hash oh addr h) (internal_equal other h (d + 1))" by simp
  note same_hash = sound_forD [OF equal_method_hash [OF this assms]]
  have "\<not> 200 < d" using Suc.hyps(2) by linarith
  then have "internal_equal other h d x y =
      (if EQ x y then Some (Inr True) else equal_method other (internal_equal other h (d + 1)) h d x y)" for x y
    by (subst internal_equal.simps) simp
  then show ?case unfolding sound_for_def by (auto intro: same_hash split: if_splits)
qed

section \<open>Objects without other records\<close>

text \<open>
  A set of objects that contains the parts of its conses, vectors and range tables, and in which the
  records of other types are compared by identity only, as buffers, subrs and all other types without
  an equality method are. On such a set \<open>equal\<close> does not depend on the methods of other types.
\<close>

fun parts :: "lisp_heap \<Rightarrow> lisp_object \<Rightarrow> lisp_object set" where
  "parts h (Lisp_Cons a) = {XCAR h (Lisp_Cons a), XCDR h (Lisp_Cons a)}"
| "parts h (Lisp_Vector a) = set (hvec h a)"
| "parts h (Lisp_Lrecord ty a) =
     (if ty = Lrecord_range_table
      then (\<lambda>i. rte_val (Dynarr_at (rt_entries (hrt h a)) i)) ` {..< Dynarr_length (rt_entries (hrt h a))}
      else {})"
| "parts h _ = {}"

fun by_identity :: "(nat \<Rightarrow> equality) \<Rightarrow> lisp_object \<Rightarrow> bool" where
  "by_identity other (Lisp_Lrecord ty a) \<longleftrightarrow>
     ty = Lrecord_range_table \<or> (\<forall>d y. other d (Lisp_Lrecord ty a) y = Some (Inr False))"
| "by_identity other _ \<longleftrightarrow> True"

definition plain_objects :: "(nat \<Rightarrow> equality) \<Rightarrow> lisp_heap \<Rightarrow> lisp_object set \<Rightarrow> bool" where
  "plain_objects other h S \<longleftrightarrow> (\<forall>x \<in> S. parts h x \<subseteq> S \<and> by_identity other x)"

abbreviation no_method :: "nat \<Rightarrow> equality" where
  "no_method \<equiv> \<lambda>_ _ _. Some (Inr False)"

lemma plain_objectsD:
  assumes "plain_objects other h S" and "x \<in> S"
  shows "x = Lisp_Cons a \<Longrightarrow> XCAR h x \<in> S \<and> XCDR h x \<in> S" "x = Lisp_Vector a \<Longrightarrow> set (hvec h a) \<subseteq> S"
    "x = Lisp_Lrecord Lrecord_range_table a \<Longrightarrow> i < Dynarr_length (rt_entries (hrt h a)) \<Longrightarrow>
       rte_val (Dynarr_at (rt_entries (hrt h a)) i) \<in> S"
    "x = Lisp_Lrecord ty a \<Longrightarrow> ty \<noteq> Lrecord_range_table \<Longrightarrow> other d x y = Some (Inr False)"
proof -
  have p: "parts h x \<subseteq> S" "by_identity other x" using assms by (auto simp: plain_objects_def)
  show "x = Lisp_Cons a \<Longrightarrow> XCAR h x \<in> S \<and> XCDR h x \<in> S" "x = Lisp_Vector a \<Longrightarrow> set (hvec h a) \<subseteq> S"
    "x = Lisp_Lrecord Lrecord_range_table a \<Longrightarrow> i < Dynarr_length (rt_entries (hrt h a)) \<Longrightarrow>
       rte_val (Dynarr_at (rt_entries (hrt h a)) i) \<in> S" using p(1) by auto
  show "x = Lisp_Lrecord ty a \<Longrightarrow> ty \<noteq> Lrecord_range_table \<Longrightarrow> other d x y = Some (Inr False)" using p(2) by auto
qed

definition agree_on :: "lisp_object set \<Rightarrow> equality \<Rightarrow> equality \<Rightarrow> bool" where
  "agree_on S e1 e2 \<longleftrightarrow> (\<forall>x \<in> S. \<forall>y \<in> S. e1 x y = e2 x y)"

lemma agree_onD: "agree_on S e1 e2 \<Longrightarrow> x \<in> S \<Longrightarrow> y \<in> S \<Longrightarrow> e1 x y = e2 x y"
  by (simp add: agree_on_def)

lemma cons_equal_agree_some:
  assumes "cons_equal e1 h x y = Some r"
  shows "\<forall>e2. agree_on S e1 e2 \<longrightarrow> plain_objects other h S \<longrightarrow> x \<in> S \<longrightarrow> y \<in> S \<longrightarrow> CONSP x \<longrightarrow> CONSP y \<longrightarrow>
    cons_equal e2 h x y = Some r"
proof (rule cons_equal.raw_induct [OF _ assms, where P = "\<lambda>e1 h x y r. \<forall>e2. agree_on S e1 e2 \<longrightarrow> plain_objects other h S \<longrightarrow>
    x \<in> S \<longrightarrow> y \<in> S \<longrightarrow> CONSP x \<longrightarrow> CONSP y \<longrightarrow> cons_equal e2 h x y = Some r"], intro allI impI)
  fix ce :: "equality \<Rightarrow> lisp_heap \<Rightarrow> equality" and e1 h x y r e2
  assume IH: "\<And>e1 h x y r. ce e1 h x y = Some r \<Longrightarrow> \<forall>e2. agree_on S e1 e2 \<longrightarrow> plain_objects other h S \<longrightarrow>
      x \<in> S \<longrightarrow> y \<in> S \<longrightarrow> CONSP x \<longrightarrow> CONSP y \<longrightarrow> cons_equal e2 h x y = Some r"
    and run: "(let r = e1 (XCAR h x) (XCAR h y)
      in if r = Some (Inr True)
         then let ob1' = XCDR h x; ob2' = XCDR h y
              in if \<not> CONSP ob1' \<or> \<not> CONSP ob2' then e1 ob1' ob2' else ce e1 h ob1' ob2'
         else r) = Some r"
    and S: "agree_on S e1 e2" "plain_objects other h S" "x \<in> S" "y \<in> S" "CONSP x" "CONSP y"
  have in_S: "XCAR h x \<in> S" "XCDR h x \<in> S" "XCAR h y \<in> S" "XCDR h y \<in> S"
    using plain_objectsD(1) [OF S(2,3)] plain_objectsD(1) [OF S(2,4)] S(5,6) by (auto simp: CONSP_iff)
  note same = agree_onD [OF S(1) in_S(1,3)] agree_onD [OF S(1) in_S(2,4)]
  show "cons_equal e2 h x y = Some r"
    using run IH S(1,2) in_S by (subst cons_equal.simps) (auto simp: Let_def same split: if_splits)
qed

lemma cons_equal_agree:
  assumes "agree_on S e1 e2" and "plain_objects other h S" and "x \<in> S" and "y \<in> S" and "CONSP x" and "CONSP y"
  shows "cons_equal e1 h x y = cons_equal e2 h x y"
proof -
  have "agree_on S e2 e1" using assms(1) by (simp add: agree_on_def)
  then have "cons_equal e1 h x y = Some r \<longleftrightarrow> cons_equal e2 h x y = Some r" for r
    using cons_equal_agree_some [of e1 h x y r S other] cons_equal_agree_some [of e2 h x y r S other] assms by blast
  then show ?thesis by (metis not_None_eq)
qed

lemma vector_equal_from_agree:
  "agree_on S e1 e2 \<Longrightarrow> set v \<subseteq> S \<Longrightarrow> set w \<subseteq> S \<Longrightarrow> vector_equal_from e1 v w = vector_equal_from e2 v w"
  by (induction e1 v w rule: vector_equal_from.induct) (auto simp: agree_on_def Let_def)

lemma range_table_equal_from_agree:
  "agree_on S e1 e2 \<Longrightarrow> (\<And>j. j < i + n \<Longrightarrow> rte_val (Dynarr_at d1 j) \<in> S \<and> rte_val (Dynarr_at d2 j) \<in> S) \<Longrightarrow>
   range_table_equal_from e1 d1 d2 i n = range_table_equal_from e2 d1 d2 i n"
proof (induction n arbitrary: i)
  case (Suc n)
  have "range_table_equal_from e1 d1 d2 (i + 1) n = range_table_equal_from e2 d1 d2 (i + 1) n"
    using Suc.prems by (intro Suc.IH) simp_all
  moreover have "e1 (rte_val (Dynarr_at d1 i)) (rte_val (Dynarr_at d2 i)) = e2 (rte_val (Dynarr_at d1 i)) (rte_val (Dynarr_at d2 i))"
    using Suc.prems(2) [of i] by (intro agree_onD [OF Suc.prems(1)]) simp_all
  ultimately show ?case by (auto simp: Let_def split: option.splits sum.splits bool.splits)
qed simp

lemma equal_method_agree:
  assumes agree: "agree_on S e1 e2" and plain: "plain_objects other h S" and S: "x \<in> S" "y \<in> S"
  shows "equal_method other e1 h d x y = equal_method no_method e2 h d x y"
proof -
  note D = plain_objectsD [OF plain S(1)] plain_objectsD [OF plain S(2)]
  consider (cons) a b where "x = Lisp_Cons a" "y = Lisp_Cons b"
    | (vector) a b where "x = Lisp_Vector a" "y = Lisp_Vector b"
    | (rt) a b where "x = Lisp_Lrecord Lrecord_range_table a" "y = Lisp_Lrecord Lrecord_range_table b"
    | (lrec) ty a ty' b where "x = Lisp_Lrecord ty a" "y = Lisp_Lrecord ty' b" "ty \<noteq> Lrecord_range_table \<or> ty' \<noteq> ty"
    | (flat) "equal_method other e1 h d x y = equal_method no_method e2 h d x y"
    by (cases x; cases y) (simp_all, blast)
  then show ?thesis
  proof cases
    case cons
    then show ?thesis using cons_equal_agree [OF agree plain S] by simp
  next
    case vector
    then show ?thesis using D vector_equal_from_agree [OF agree] by (simp add: vector_equal_def)
  next
    case rt
    then show ?thesis
      using D range_table_equal_from_agree [OF agree, of 0 "Dynarr_length (rt_entries (hrt h a))" "rt_entries (hrt h a)" "rt_entries (hrt h b)"]
      by (auto simp: range_table_equal_def)
  next
    case lrec
    then show ?thesis using D(4) by auto
  qed
qed

lemma internal_equal_agree:
  assumes "plain_objects other h S"
  shows "agree_on S (internal_equal other h d) (internal_equal no_method h d)"
proof (induction "201 - d" arbitrary: d)
  case 0
  then show ?case by (simp add: agree_on_def internal_equal.simps [of other h d] internal_equal.simps [of no_method h d])
next
  case (Suc n)
  then have "agree_on S (internal_equal other h (d + 1)) (internal_equal no_method h (d + 1))" by simp
  note same = equal_method_agree [OF this assms]
  show ?case unfolding agree_on_def
    using same by (simp add: internal_equal.simps [of other h d] internal_equal.simps [of no_method h d])
qed

lemma internal_equal_hash_plain:
  assumes "plain_objects other h S" and "x \<in> S" and "y \<in> S" and "internal_equal other h d x y = Some (Inr True)"
  shows "internal_hash oh addr h k x = internal_hash oh addr h k y"
proof -
  have "internal_equal no_method h d x y = Some (Inr True)"
    using agree_onD [OF internal_equal_agree [OF assms(1)] assms(2,3)] assms(4) by simp
  then show ?thesis by (rule sound_forD [OF internal_equal_hash, rotated]) (simp add: sound_for_def)
qed

text \<open>
  Property C22: objects that \<open>equal\<close> finds equal have the same \<open>sxhash\<close>, as the documentation of
  \<open>sxhash\<close> promises, for objects whose parts of other record types are compared by identity. It is
  not true of compiled functions.
\<close>

theorem Fequal_sxhash:
  assumes "plain_objects other h S" and "x \<in> S" and "y \<in> S" and "Fequal other h x y = Some (Inr Qt)"
  shows "Fsxhash oh addr h x = Fsxhash oh addr h y"
proof -
  obtain r where r: "internal_equal other h 0 x y = Some r"
      "map_sum id (\<lambda>b. if b then Qt else Qnil) r = Inr Qt"
    using assms(4) by (auto simp: Fequal_def)
  then have "internal_equal other h 0 x y = Some (Inr True)" by (cases r) (auto split: if_splits)
  with internal_equal_hash_plain [OF assms(1-3)] show ?thesis by (simp add: Fsxhash_def)
qed

text \<open>Two lists \<open>("ab" #<buffer>)\<close> made of different conses and strings.\<close>

definition two_lists :: lisp_heap where
  "two_lists = empty_heap\<lparr>hcar := (\<lambda>a. if a < 2 then Lisp_String a else Lisp_Lrecord Lrecord_buffer 0),
     hcdr := (\<lambda>a. if a < 2 then Lisp_Cons (a + 2) else Qnil), hstr := (\<lambda>_. ''ab'')\<rparr>"

theorem Fequal_sxhash_witness:
  "Fsxhash (\<lambda>_ _. 0) (\<lambda>_. 7) two_lists (Lisp_Cons 0) = Fsxhash (\<lambda>_ _. 0) (\<lambda>_. 7) two_lists (Lisp_Cons 1)"
proof (rule Fequal_sxhash [where other = no_method and S = UNIV])
  have "by_identity no_method x" for x by (cases x) auto
  then show "plain_objects no_method two_lists UNIV" by (simp add: plain_objects_def)
  show "Fequal no_method two_lists (Lisp_Cons 0) (Lisp_Cons 1) = Some (Inr Qt)"
    by (simp add: Fequal_def internal_equal.simps cons_equal.simps string_equal_def two_lists_def empty_heap_def)
qed simp_all

end
