(* ===== verification/ListDelete.thy ===== *)
theory ListDelete
  imports ListProps Equal
begin

text \<open>
  Searching with \<open>equal\<close> and deleting from lists (\<open>src/src/fns.c\<close>, macros in
  \<open>src/src/lisp.h\<close>). A test that calls \<open>internal_equal\<close> may signal an error or not return; its
  result is the test's value. The deleting loop changes the list it walks over, with a
  tortoise behind it that may stand on a cons already deleted; the theorems show that on a
  proper list exactly the matching conses are unlinked, and that on a circular list whose
  elements all match it never ends.
\<close>

type_synonym test = "lisp_heap \<Rightarrow> lisp_object \<Rightarrow> bool lresult option"

section \<open>Searching with equal\<close>

definition test_body ::
    "test \<Rightarrow> lisp_heap \<Rightarrow> lisp_object \<Rightarrow> lisp_object \<Rightarrow> lisp_heap + (lisp_object \<times> lisp_object) lresult option" where
  "test_body tst h elt tail =
     (case tst h elt of
        None \<Rightarrow> Inr None
      | Some (Inl e) \<Rightarrow> Inr (Some (Inl e))
      | Some (Inr b) \<Rightarrow> if b then Inr (Some (Inr (elt, tail))) else Inl h)"

definition test_list ::
    "(lisp_object \<times> lisp_object \<Rightarrow> lisp_object) \<Rightarrow> test \<Rightarrow> lisp_object \<Rightarrow> lisp_heap \<Rightarrow> lisp_object lresult option" where
  "test_list f tst lst h =
     (case EXTERNAL_LIST_LOOP_4 (\<lambda>h. h) (test_body tst) lst h of
        None \<Rightarrow> None
      | Some (Inl e) \<Rightarrow> Some (Inl e)
      | Some (Inr (Inl _)) \<Rightarrow> Some (Inr Qnil)
      | Some (Inr (Inr r)) \<Rightarrow> map_option (map_sum id f) r)"

text \<open>The macro for alists skips elements that are not conses.\<close>

definition alist_test :: "test \<Rightarrow> test" where
  "alist_test tst h elt = (if CONSP elt then tst h elt else Some (Inr False))"

definition Fmember :: "(nat \<Rightarrow> equality) \<Rightarrow> lisp_object \<Rightarrow> lisp_object \<Rightarrow> lisp_heap \<Rightarrow> lisp_object lresult option" where
  "Fmember other elt lst h = test_list snd (\<lambda>h e. internal_equal other h 0 elt e) lst h"

definition Fassoc :: "(nat \<Rightarrow> equality) \<Rightarrow> lisp_object \<Rightarrow> lisp_object \<Rightarrow> lisp_heap \<Rightarrow> lisp_object lresult option" where
  "Fassoc other key alist h =
     test_list fst (alist_test (\<lambda>h e. internal_equal other h 0 key (XCAR h e))) alist h"

definition Frassoc :: "(nat \<Rightarrow> equality) \<Rightarrow> lisp_object \<Rightarrow> lisp_object \<Rightarrow> lisp_heap \<Rightarrow> lisp_object lresult option" where
  "Frassoc other val alist h =
     test_list fst (alist_test (\<lambda>h e. internal_equal other h 0 val (XCDR h e))) alist h"

section \<open>The deleting loops\<close>

text \<open>One deletion: the first cons of the list is dropped, any other is unlinked.\<close>

definition unlink ::
    "lisp_object \<Rightarrow> lisp_object \<Rightarrow> lisp_object \<Rightarrow> lisp_heap \<Rightarrow> lisp_object \<times> lisp_heap" where
  "unlink lst prev_tail tail h =
     (if NILP prev_tail then (XCDR h tail, h) else (lst, XSETCDR h prev_tail (XCDR h tail)))"

partial_function (option) external_delete_loop ::
    "test \<Rightarrow> lisp_object \<Rightarrow> lisp_object \<Rightarrow> nat \<Rightarrow> lisp_object \<Rightarrow> lisp_object \<Rightarrow> lisp_heap
     \<Rightarrow> (lisp_object \<times> lisp_heap) lresult option" where
  "external_delete_loop tst lst prev_tail len hare tortoise h =
     (if CONSP hare
      then case tst h (XCAR h hare) of
             None \<Rightarrow> None
           | Some (Inl e) \<Rightarrow> Some (Inl e)
           | Some (Inr b) \<Rightarrow>
               let lst' = (if b then fst (unlink lst prev_tail hare h) else lst);
                   h' = (if b then snd (unlink lst prev_tail hare h) else h);
                   prev' = (if b then prev_tail else hare);
                   len' = (if b then 0 else len) + 1;
                   hare' = XCDR h' hare
               in if len' > CIRCULAR_LIST_SUSPICION_LENGTH
                  then let tortoise' = (if odd len' then XCDR h' tortoise else tortoise)
                       in if EQ hare' tortoise' then Some (Inl (Circular_list lst'))
                          else external_delete_loop tst lst' prev' len' hare' tortoise' h'
                  else external_delete_loop tst lst' prev' len' hare' tortoise h'
      else if NILP hare then Some (Inr (lst, h))
      else Some (Inl (Malformed_list lst)))"

declare external_delete_loop.simps [code]

definition EXTERNAL_LIST_LOOP_DELETE_IF ::
    "test \<Rightarrow> lisp_object \<Rightarrow> lisp_heap \<Rightarrow> (lisp_object \<times> lisp_heap) lresult option" where
  "EXTERNAL_LIST_LOOP_DELETE_IF tst lst h = external_delete_loop tst lst Qnil 0 lst lst h"

text \<open>The loop for lists known to be proper, with tests that always succeed.\<close>

partial_function (option) list_delete_loop ::
    "(lisp_heap \<Rightarrow> lisp_object \<Rightarrow> bool) \<Rightarrow> lisp_object \<Rightarrow> lisp_object \<Rightarrow> lisp_object \<Rightarrow> lisp_heap
     \<Rightarrow> (lisp_object \<times> lisp_heap) option" where
  "list_delete_loop P lst prev_tail tail h =
     (if NILP tail then Some (lst, h)
      else if P h (XCAR h tail)
      then let lst' = fst (unlink lst prev_tail tail h); h' = snd (unlink lst prev_tail tail h)
           in list_delete_loop P lst' prev_tail (XCDR h' tail) h'
      else list_delete_loop P lst tail (XCDR h tail) h)"

declare list_delete_loop.simps [code]

definition LIST_LOOP_DELETE_IF ::
    "(lisp_heap \<Rightarrow> lisp_object \<Rightarrow> bool) \<Rightarrow> lisp_object \<Rightarrow> lisp_heap \<Rightarrow> (lisp_object \<times> lisp_heap) option" where
  "LIST_LOOP_DELETE_IF P lst h = list_delete_loop P lst Qnil lst h"

section \<open>The deleting functions\<close>

definition Fdelete ::
    "(nat \<Rightarrow> equality) \<Rightarrow> lisp_object \<Rightarrow> lisp_object \<Rightarrow> lisp_heap \<Rightarrow> (lisp_object \<times> lisp_heap) lresult option" where
  "Fdelete other elt lst h =
     EXTERNAL_LIST_LOOP_DELETE_IF (\<lambda>h e. internal_equal other h 0 elt e) lst h"

definition Fdelq :: "lisp_object \<Rightarrow> lisp_object \<Rightarrow> lisp_heap \<Rightarrow> (lisp_object \<times> lisp_heap) lresult option" where
  "Fdelq elt lst h = EXTERNAL_LIST_LOOP_DELETE_IF (\<lambda>h e. Some (Inr (EQ elt e))) lst h"

definition delq_no_quit :: "lisp_object \<Rightarrow> lisp_object \<Rightarrow> lisp_heap \<Rightarrow> (lisp_object \<times> lisp_heap) option" where
  "delq_no_quit elt lst h = LIST_LOOP_DELETE_IF (\<lambda>h e. EQ elt e) lst h"

text \<open>
  The variant that frees the conses it removes; \<open>free_cons\<close> appends to a list of freed cells
  here, since the heap does not reuse them.
\<close>

partial_function (option) delq_no_quit_and_free_cons_loop ::
    "lisp_object \<Rightarrow> lisp_object \<Rightarrow> lisp_object \<Rightarrow> lisp_object \<Rightarrow> lisp_heap \<Rightarrow> lisp_object list
     \<Rightarrow> (lisp_object \<times> lisp_heap \<times> lisp_object list) option" where
  "delq_no_quit_and_free_cons_loop elt lst prev tail h freed =
     (if NILP tail then Some (lst, h, freed)
      else if EQ elt (XCAR h tail)
      then let lst' = (if NILP prev then XCDR h tail else lst);
               h' = (if NILP prev then h else XSETCDR h prev (XCDR h tail))
           in delq_no_quit_and_free_cons_loop elt lst' prev (XCDR h' tail) h' (freed @ [tail])
      else delq_no_quit_and_free_cons_loop elt lst tail (XCDR h tail) h freed)"

declare delq_no_quit_and_free_cons_loop.simps [code]

definition delq_no_quit_and_free_cons ::
    "lisp_object \<Rightarrow> lisp_object \<Rightarrow> lisp_heap \<Rightarrow> (lisp_object \<times> lisp_heap \<times> lisp_object list) option" where
  "delq_no_quit_and_free_cons elt lst h = delq_no_quit_and_free_cons_loop elt lst Qnil lst h []"

definition Fremassoc ::
    "(nat \<Rightarrow> equality) \<Rightarrow> lisp_object \<Rightarrow> lisp_object \<Rightarrow> lisp_heap \<Rightarrow> (lisp_object \<times> lisp_heap) lresult option" where
  "Fremassoc other key alist h =
     EXTERNAL_LIST_LOOP_DELETE_IF (alist_test (\<lambda>h e. internal_equal other h 0 key (XCAR h e))) alist h"

definition Fremassq :: "lisp_object \<Rightarrow> lisp_object \<Rightarrow> lisp_heap \<Rightarrow> (lisp_object \<times> lisp_heap) lresult option" where
  "Fremassq key alist h =
     EXTERNAL_LIST_LOOP_DELETE_IF (alist_test (\<lambda>h e. Some (Inr (EQ key (XCAR h e))))) alist h"

definition remassq_no_quit :: "lisp_object \<Rightarrow> lisp_object \<Rightarrow> lisp_heap \<Rightarrow> (lisp_object \<times> lisp_heap) option" where
  "remassq_no_quit key alist h = LIST_LOOP_DELETE_IF (\<lambda>h e. CONSP e \<and> EQ key (XCAR h e)) alist h"

definition Fremrassoc ::
    "(nat \<Rightarrow> equality) \<Rightarrow> lisp_object \<Rightarrow> lisp_object \<Rightarrow> lisp_heap \<Rightarrow> (lisp_object \<times> lisp_heap) lresult option" where
  "Fremrassoc other val alist h =
     EXTERNAL_LIST_LOOP_DELETE_IF (alist_test (\<lambda>h e. internal_equal other h 0 val (XCDR h e))) alist h"

definition Fremrassq :: "lisp_object \<Rightarrow> lisp_object \<Rightarrow> lisp_heap \<Rightarrow> (lisp_object \<times> lisp_heap) lresult option" where
  "Fremrassq val alist h =
     EXTERNAL_LIST_LOOP_DELETE_IF (alist_test (\<lambda>h e. Some (Inr (EQ val (XCDR h e))))) alist h"

definition remrassq_no_quit :: "lisp_object \<Rightarrow> lisp_object \<Rightarrow> lisp_heap \<Rightarrow> (lisp_object \<times> lisp_heap) option" where
  "remrassq_no_quit val alist h = LIST_LOOP_DELETE_IF (\<lambda>h e. CONSP e \<and> EQ val (XCDR h e)) alist h"


section \<open>Deletion on proper lists\<close>

text \<open>
  The state of the loop: the conses \<open>ks\<close> kept so far are linked to the hare, which the conses
  \<open>rest\<close> follow; \<open>prev_tail\<close> is the last one kept.
\<close>

definition deleting ::
    "lisp_heap \<Rightarrow> lisp_object \<Rightarrow> lisp_object \<Rightarrow> lisp_object \<Rightarrow> nat list \<Rightarrow> nat list \<Rightarrow> bool" where
  "deleting g lst prev hare ks rest \<longleftrightarrow> lpath g lst ks hare \<and> proper_list g hare rest \<and> distinct (ks @ rest) \<and>
     prev = (if ks = [] then Qnil else Lisp_Cons (last ks))"

lemma deleting_start: "proper_list g x as \<Longrightarrow> deleting g x Qnil x [] as"
  using proper_list_distinct [of g x as] by (simp add: deleting_def)

lemma deleting_keep:
  "deleting g lst prev (Lisp_Cons a) ks (a # rest) \<Longrightarrow> deleting g lst (Lisp_Cons a) (hcdr g a) (ks @ [a]) rest"
  by (auto simp: deleting_def lpath_append)

lemma deleting_end: "deleting g lst prev hare ks [] \<Longrightarrow> NILP hare \<and> proper_list g lst ks"
  by (auto simp: deleting_def proper_list_def)

lemma deleting_unlink:
  assumes "deleting g lst prev (Lisp_Cons a) ks (a # rest)" and "unlink lst prev (Lisp_Cons a) g = (lst', g')"
  shows "deleting g' lst' prev (hcdr g a) ks rest"
    and "hcdr g' a = hcdr g a" and "hcar g' = hcar g" and "hnext g' = hnext g"
    and "\<forall>c. c \<notin> set ks \<longrightarrow> hcdr g' c = hcdr g c"
proof -
  show "deleting g' lst' prev (hcdr g a) ks rest"
  proof (cases ks rule: rev_cases)
    case Nil
    then show ?thesis using assms by (auto simp: deleting_def unlink_def)
  next
    case (snoc us p)
    then have g': "g' = g\<lparr>hcdr := (hcdr g)(p := hcdr g a)\<rparr>" "lst' = lst"
      using assms by (auto simp: deleting_def unlink_def)
    have "p \<notin> set us" "p \<noteq> a" "p \<notin> set rest" using assms(1) snoc by (auto simp: deleting_def)
    then show ?thesis using assms(1) snoc g'
      by (auto simp: deleting_def lpath_append proper_list_def)
  qed
  have prev: "prev = Qnil \<or> prev = Lisp_Cons (last ks) \<and> ks \<noteq> [] \<and> last ks \<noteq> a"
    using assms(1) by (auto simp: deleting_def)
  then show "hcdr g' a = hcdr g a" "hcar g' = hcar g" "hnext g' = hnext g"
    "\<forall>c. c \<notin> set ks \<longrightarrow> hcdr g' c = hcdr g c"
    using assms(2) by (auto simp: unlink_def)
qed

text \<open>The tortoise is on a path to the hare, and deletion keeps it there.\<close>

lemma path_to_hare_unlink:
  assumes del: "deleting g lst prev (Lisp_Cons a) ks (a # rest)" and "unlink lst prev (Lisp_Cons a) g = (lst', g')"
    and t: "lpath g t ts (Lisp_Cons a)"
  shows "\<exists>ts'. lpath g' t ts' (hcdr g a) \<and> 1 \<le> length ts'"
proof (cases ks rule: rev_cases)
  case Nil
  then have "g' = g" using assms by (auto simp: deleting_def unlink_def)
  then have "lpath g' t (ts @ [a]) (hcdr g a)" using t by (simp add: lpath_append)
  then show ?thesis by (intro exI [of _ "ts @ [a]"]) simp
next
  case (snoc us p)
  then have g': "g' = g\<lparr>hcdr := (hcdr g)(p := hcdr g a)\<rparr>" using assms by (auto simp: deleting_def unlink_def)
  have pa: "p \<noteq> a" "hcdr g p = Lisp_Cons a" using del snoc by (auto simp: deleting_def lpath_append)
  have end_nil: "lpath g (Lisp_Cons a) (a # rest) Qnil" using del by (simp add: deleting_def proper_list_def)
  show ?thesis
  proof (cases "p \<in> set ts")
    case False
    then have "lpath g' t (ts @ [a]) (hcdr g a)" using t pa by (simp add: g' lpath_append)
    then show ?thesis by (intro exI [of _ "ts @ [a]"]) simp
  next
    case True
    then obtain vs ws where ts: "ts = vs @ p # ws" by (auto simp: in_set_conv_decomp)
    then have "lpath g (Lisp_Cons a) (ws @ a # rest) Qnil"
      using t end_nil pa by (auto simp: lpath_append)
    from lpath_atom_unique [OF this end_nil] have "ws = []" by simp
    have "lpath g t (ts @ a # rest) Qnil" using t end_nil unfolding lpath_append by blast
    then have "distinct (ts @ a # rest)" by (rule lpath_atom_distinct) simp
    then have "p \<notin> set vs" using ts by auto
    then have "lpath g' t ts (hcdr g a)" using t ts \<open>ws = []\<close> by (auto simp: g' lpath_append)
    with ts show ?thesis by (intro exI [of _ ts]) simp
  qed
qed

lemma tortoise_step:
  assumes t: "lpath g t ts hare" and rest: "proper_list g hare rest"
    and len: "Suc len - tortoise_at len \<le> length ts"
    and t': "t' = (if Suc len > CIRCULAR_LIST_SUSPICION_LENGTH \<and> odd (Suc len) then XCDR g t else t)"
  shows "\<exists>ts'. lpath g t' ts' hare \<and> Suc len - tortoise_at (Suc len) \<le> length ts'" and "hare \<noteq> t'"
proof -
  have pos: "0 < Suc len - tortoise_at (Suc len)" using tortoise_behind [of "Suc len"] by simp
  have ex: "\<exists>ts'. lpath g t' ts' hare \<and> Suc len - tortoise_at (Suc len) \<le> length ts'"
  proof (cases "Suc len > CIRCULAR_LIST_SUSPICION_LENGTH \<and> odd (Suc len)")
    case True
    then have s: "tortoise_at (Suc len) = Suc (tortoise_at len)" using tortoise_at_Suc by simp
    then obtain b bs where ts: "ts = b # bs" using len pos by (cases ts) auto
    then have "lpath g t' bs hare" using t t' True by auto
    then show ?thesis using len ts s by (intro exI [of _ bs]) auto
  next
    case False
    then show ?thesis using t t' len tortoise_at_Suc by (intro exI [of _ ts]) auto
  qed
  then show "\<exists>ts'. lpath g t' ts' hare \<and> Suc len - tortoise_at (Suc len) \<le> length ts'" .
  from ex pos obtain ts' where "lpath g t' ts' hare" "0 < length ts'" by fastforce
  then obtain b bs where "lpath g t' (b # bs) hare" by (cases ts') auto
  then have "lpath g t' ((b # bs) @ rest) Qnil"
    using rest unfolding lpath_append proper_list_def by blast
  then show "hare \<noteq> t'" using rest lpath_atom_unique [of g t' "(b # bs) @ rest" Qnil rest Qnil]
    by (auto simp: proper_list_def)
qed


text \<open>Tests that always succeed and depend on the cars of the heap only.\<close>

definition test_is :: "test \<Rightarrow> lisp_heap \<Rightarrow> (lisp_object \<Rightarrow> bool) \<Rightarrow> bool" where
  "test_is tst h P \<longleftrightarrow> (\<forall>g e. hcar g = hcar h \<longrightarrow> tst g e = Some (Inr (P e)))"

lemma test_isD: "test_is tst h P \<Longrightarrow> hcar g = hcar h \<Longrightarrow> tst g e = Some (Inr (P e))"
  by (simp add: test_is_def)

definition deleted :: "lisp_heap \<Rightarrow> lisp_heap \<Rightarrow> lisp_object \<Rightarrow> nat list \<Rightarrow> nat set \<Rightarrow> bool" where
  "deleted h h' y ks S \<longleftrightarrow> proper_list h' y ks \<and> hcar h' = hcar h \<and> hnext h' = hnext h \<and>
     (\<forall>c. c \<notin> S \<longrightarrow> hcdr h' c = hcdr h c)"

lemma external_delete_step:
  assumes "test_is tst h P" and "hcar g = hcar h"
    and g': "(lst', g') = (if P (hcar g a) then unlink lst prev (Lisp_Cons a) g else (lst, g))"
    and len': "len' = (if P (hcar g a) then 0 else len)"
    and t': "t' = (if Suc len' > CIRCULAR_LIST_SUSPICION_LENGTH \<and> odd (Suc len') then XCDR g' t else t)"
    and ne: "hcdr g' a \<noteq> t'"
  shows "external_delete_loop tst lst prev len (Lisp_Cons a) t g =
    external_delete_loop tst lst' (if P (hcar g a) then prev else Lisp_Cons a) (Suc len') (hcdr g' a) t' g'"
proof -
  note tst = test_isD [OF assms(1,2), of "hcar g a"]
  show ?thesis
  proof (cases "P (hcar g a)")
    case True
    then have "unlink lst prev (Lisp_Cons a) g = (lst', g')" using g' by simp
    with True tst len' ne t' show ?thesis
      by (subst external_delete_loop.simps) (simp add: Let_def CIRCULAR_LIST_SUSPICION_LENGTH_def)
  next
    case False
    then have eqs: "lst' = lst" "g' = g" "len' = len" using g' len' by simp_all
    show ?thesis
    proof (cases "Suc len > CIRCULAR_LIST_SUSPICION_LENGTH")
      case True
      then have "t' = (if odd (Suc len) then XCDR g t else t)" using t' eqs by simp
      then have tt: "(if odd (len + 1) then XCDR g t else t) = t'" by simp
      from True have gt: "len + 1 > CIRCULAR_LIST_SUSPICION_LENGTH" by simp
      from ne eqs have ne': "(hcdr g a = t') = False" by simp
      show ?thesis unfolding eqs
        by (subst external_delete_loop.simps)
          (simp only: Let_def tst tt gt ne' False if_False if_True CONSP.simps XCAR.simps XCDR.simps
            option.case sum.case Suc_eq_plus1)
    next
      case f: False
      with False tst t' show ?thesis unfolding eqs
        by (subst external_delete_loop.simps) (simp add: Let_def)
    qed
  qed
qed

lemma external_delete_loop_ok:
  assumes "test_is tst h P" and Q: "\<And>g e. hcar g = hcar h \<Longrightarrow> Q g e = P e"
    and "hcar g = hcar h" and "deleting g lst prev hare ks rest"
    and "lpath g t ts hare" and "len - tortoise_at len \<le> length ts"
  shows "\<exists>y g'. external_delete_loop tst lst prev len hare t g = Some (Inr (y, g')) \<and>
    list_delete_loop Q lst prev hare g = Some (y, g') \<and>
    deleted g g' y (ks @ filter (\<lambda>a. \<not> P (hcar h a)) rest) (set ks \<union> set rest)"
  using assms(3-)
proof (induction rest arbitrary: g lst prev hare ks t ts len)
  case Nil
  with deleting_end [OF Nil(2)] show ?case
    by (subst external_delete_loop.simps, subst list_delete_loop.simps) (auto simp: deleted_def)
next
  case (Cons a rest)
  have hare: "hare = Lisp_Cons a" using Cons.prems(2) by (simp add: deleting_def)
  note del = Cons.prems(2) [unfolded hare] and path = Cons.prems(3) [unfolded hare]
  obtain lst' g' where g': "(lst', g') = (if P (hcar g a) then unlink lst prev (Lisp_Cons a) g else (lst, g))"
    by (metis surj_pair)
  define len' prev' ks' where defs: "len' = (if P (hcar g a) then 0 else len)"
    "prev' = (if P (hcar g a) then prev else Lisp_Cons a)" "ks' = (if P (hcar g a) then ks else ks @ [a])"
  have next': "deleting g' lst' prev' (hcdr g a) ks' rest" "hcdr g' a = hcdr g a" "hcar g' = hcar g" "hnext g' = hnext g"
    "\<forall>c. c \<notin> set ks \<longrightarrow> hcdr g' c = hcdr g c"
  proof -
    have "deleting g' lst' prev' (hcdr g a) ks' rest \<and> hcdr g' a = hcdr g a \<and> hcar g' = hcar g \<and> hnext g' = hnext g \<and>
        (\<forall>c. c \<notin> set ks \<longrightarrow> hcdr g' c = hcdr g c)"
    proof (cases "P (hcar g a)")
      case True
      then have "unlink lst prev (Lisp_Cons a) g = (lst', g')" using g' by simp
      from deleting_unlink [OF del this] True show ?thesis by (simp add: defs)
    next
      case False
      then show ?thesis using g' deleting_keep [OF del] by (simp add: defs)
    qed
    then show "deleting g' lst' prev' (hcdr g a) ks' rest" "hcdr g' a = hcdr g a" "hcar g' = hcar g" "hnext g' = hnext g"
      "\<forall>c. c \<notin> set ks \<longrightarrow> hcdr g' c = hcdr g c" by blast+
  qed
  have "\<exists>ts'. lpath g' t ts' (hcdr g a) \<and> Suc len' - tortoise_at len' \<le> length ts'"
  proof (cases "P (hcar g a)")
    case True
    then have "unlink lst prev (Lisp_Cons a) g = (lst', g')" using g' by simp
    from path_to_hare_unlink [OF del this path] True show ?thesis by (simp add: defs)
  next
    case False
    then have "lpath g' t (ts @ [a]) (hcdr g a)" using path g' by (simp add: lpath_append)
    then show ?thesis using False Cons.prems(4) by (intro exI [of _ "ts @ [a]"]) (simp add: defs)
  qed
  then obtain ts1 where ts1: "lpath g' t ts1 (hcdr g a)" "Suc len' - tortoise_at len' \<le> length ts1" by blast
  define t' where t': "t' = (if Suc len' > CIRCULAR_LIST_SUSPICION_LENGTH \<and> odd (Suc len') then XCDR g' t else t)"
  have "proper_list g' (hcdr g a) rest" using next'(1) by (simp add: deleting_def)
  note ts2 = tortoise_step [OF ts1(1) this ts1(2) t']
  then obtain ts2 where ts2': "lpath g' t' ts2 (hcdr g a)" "Suc len' - tortoise_at (Suc len') \<le> length ts2" by blast
  have "hcar g' = hcar h" using next'(3) Cons.prems(1) by simp
  from Cons.IH [OF this next'(1) ts2']
  obtain y g'' where IH: "external_delete_loop tst lst' prev' (Suc len') (hcdr g a) t' g' = Some (Inr (y, g''))"
    "list_delete_loop Q lst' prev' (hcdr g a) g' = Some (y, g'')"
    "deleted g' g'' y (ks' @ filter (\<lambda>a. \<not> P (hcar h a)) rest) (set ks' \<union> set rest)" by blast
  have "external_delete_loop tst lst prev len hare t g = Some (Inr (y, g''))"
    using external_delete_step [OF assms(1) Cons.prems(1) g' defs(1) t'] ts2(2) next'(2) IH(1) hare
    by (simp add: defs(2))
  moreover have "deleted g g'' y (ks @ filter (\<lambda>a. \<not> P (hcar h a)) (a # rest)) (set ks \<union> set (a # rest))"
    using IH(3) next' Cons.prems(1) by (auto simp: deleted_def defs(3) split: if_splits)
  moreover have "list_delete_loop Q lst prev hare g = Some (y, g'')"
  proof (cases "P (hcar g a)")
    case True
    then have "unlink lst prev (Lisp_Cons a) g = (lst', g')" "prev' = prev" using g' defs(2) by simp_all
    then show ?thesis using IH(2) True Q [OF Cons.prems(1)] hare next'(2)
      by (subst list_delete_loop.simps) simp
  next
    case False
    then have "lst' = lst" "g' = g" "prev' = Lisp_Cons a" using g' defs(2) by simp_all
    then show ?thesis using IH(2) False Q [OF Cons.prems(1)] hare by (subst list_delete_loop.simps) simp
  qed
  ultimately show ?case by blast
qed

lemma DELETE_IF_ok:
  assumes "proper_list h x as" and "test_is tst h P" and "\<And>g e. hcar g = hcar h \<Longrightarrow> Q g e = P e"
  shows "\<exists>y h'. EXTERNAL_LIST_LOOP_DELETE_IF tst x h = Some (Inr (y, h')) \<and>
    LIST_LOOP_DELETE_IF Q x h = Some (y, h') \<and>
    deleted h h' y (filter (\<lambda>a. \<not> P (hcar h a)) as) (set as)"
proof -
  have "lpath h x [] x" "0 - tortoise_at 0 \<le> length []" by simp_all
  from external_delete_loop_ok [OF assms(2,3) refl deleting_start [OF assms(1)] this]
  show ?thesis by (simp add: EXTERNAL_LIST_LOOP_DELETE_IF_def LIST_LOOP_DELETE_IF_def)
qed

text \<open>
  Property C26: \<open>delq\<close> on a proper list returns, and unlinks exactly the conses whose element is
  \<open>eq\<close> to the object; the remaining conses keep their order, no car and no cons of another
  list changes.
\<close>

theorem Fdelq_spec:
  assumes "proper_list h x as"
  shows "\<exists>y h'. Fdelq elt x h = Some (Inr (y, h')) \<and>
    proper_list h' y (filter (\<lambda>a. hcar h a \<noteq> elt) as) \<and> hcar h' = hcar h \<and> hnext h' = hnext h \<and>
    (\<forall>c. c \<notin> set as \<longrightarrow> hcdr h' c = hcdr h c)"
proof -
  have "test_is (\<lambda>h e. Some (Inr (EQ elt e))) h (\<lambda>e. e = elt)" by (auto simp: test_is_def)
  from DELETE_IF_ok [OF assms this, of "\<lambda>_ e. e = elt"]
  show ?thesis by (auto simp: Fdelq_def deleted_def)
qed

theorem Fdelq_spec_witness:
  "\<exists>y h'. Fdelq (Lisp_Int 2) (Lisp_Cons 0) sample_heap = Some (Inr (y, h')) \<and> proper_list h' y [0, 2]"
  using Fdelq_spec [OF sample_lists(1), of "Lisp_Int 2"] by auto


text \<open>
  On a proper list the fast internal loop \<open>remassq_no_quit\<close> does to the list exactly
  what the checked \<open>remassq\<close> does: the same result in the same heap, with the elements whose
  car is \<open>eq\<close> to the key unlinked.
\<close>

theorem remassq_no_quit_eq:
  assumes "proper_list h x as"
  shows "\<exists>y h'. Fremassq key x h = Some (Inr (y, h')) \<and> remassq_no_quit key x h = Some (y, h') \<and>
    proper_list h' y (filter (\<lambda>a. \<not> (CONSP (hcar h a) \<and> XCAR h (hcar h a) = key)) as)"
proof -
  have car: "CONSP e \<Longrightarrow> hcar g = hcar h \<Longrightarrow> XCAR g e = XCAR h e" for g e by (cases e) auto
  let ?P = "\<lambda>e. CONSP e \<and> XCAR h e = key"
  have "test_is (alist_test (\<lambda>h e. Some (Inr (EQ key (XCAR h e))))) h ?P"
    unfolding test_is_def
  proof (intro allI impI)
    fix g :: lisp_heap and e assume eq: "hcar g = hcar h"
    show "alist_test (\<lambda>h e. Some (Inr (EQ key (XCAR h e)))) g e = Some (Inr (?P e))"
      using car [OF _ eq, of e] by (cases "CONSP e") (auto simp: alist_test_def)
  qed
  moreover have "(CONSP e \<and> EQ key (XCAR g e)) = ?P e" if "hcar g = hcar h" for g :: lisp_heap and e
    using car [OF _ that, of e] by auto
  ultimately show ?thesis
    using DELETE_IF_ok [where Q = "\<lambda>h e. CONSP e \<and> EQ key (XCAR h e)" and P = ?P, OF assms]
    by (fastforce simp: Fremassq_def remassq_no_quit_def deleted_def)
qed

theorem remassq_no_quit_eq_witness:
  "\<exists>y h'. Fremassq Qt (Lisp_Cons 0) sample_heap = Some (Inr (y, h')) \<and>
     remassq_no_quit Qt (Lisp_Cons 0) sample_heap = Some (y, h') \<and> proper_list h' y [0, 1, 2]"
  using remassq_no_quit_eq [OF sample_lists(1), of Qt] by auto

section \<open>A deletion that does not end\<close>

text \<open>
  Deleting the element of the circular list \<open>#1=(t . #1#)\<close> never returns: every
  deletion sets the counter of the circularity check back to 0.
\<close>

theorem Fdelq_circular_diverges: "Fdelq Qt (Lisp_Cons 4) sample_heap = None"
proof -
  let ?t = "(\<lambda>h e. Some (Inr (EQ Qt e))) :: test" let ?x = "Lisp_Cons 4"
  have "\<not> (tst = ?t \<and> prev = Qnil \<and> hare = ?x \<and> tort = ?x \<and> g = sample_heap)"
    if "external_delete_loop tst lst prev len hare tort g = Some r" for tst lst prev len hare tort g r
  proof (rule external_delete_loop.raw_induct [OF _ that, where
        P = "\<lambda>tst lst prev len hare tort g r. \<not> (tst = ?t \<and> prev = Qnil \<and> hare = ?x \<and> tort = ?x \<and> g = sample_heap)"])
    fix loop :: "test \<Rightarrow> lisp_object \<Rightarrow> lisp_object \<Rightarrow> nat \<Rightarrow> lisp_object \<Rightarrow> lisp_object \<Rightarrow> lisp_heap
        \<Rightarrow> (lisp_object \<times> lisp_heap) lresult option"
    fix tst lst prev len hare tort g r
    assume IH: "\<And>tst lst prev len hare tort g y. loop tst lst prev len hare tort g = Some y \<Longrightarrow>
        \<not> (tst = ?t \<and> prev = Qnil \<and> hare = ?x \<and> tort = ?x \<and> g = sample_heap)"
    assume run: "(if CONSP hare
      then case tst g (XCAR g hare) of
             None \<Rightarrow> None
           | Some (Inl e) \<Rightarrow> Some (Inl e)
           | Some (Inr b) \<Rightarrow>
               let lst' = (if b then fst (unlink lst prev hare g) else lst);
                   h' = (if b then snd (unlink lst prev hare g) else g);
                   prev' = (if b then prev else hare);
                   len' = (if b then 0 else len) + 1;
                   hare' = XCDR h' hare
               in if len' > CIRCULAR_LIST_SUSPICION_LENGTH
                  then let tortoise' = (if odd len' then XCDR h' tort else tort)
                       in if EQ hare' tortoise' then Some (Inl (Circular_list lst'))
                          else loop tst lst' prev' len' hare' tortoise' h'
                  else loop tst lst' prev' len' hare' tort h'
      else if NILP hare then Some (Inr (lst, g)) else Some (Inl (Malformed_list lst))) = Some r"
    show "\<not> (tst = ?t \<and> prev = Qnil \<and> hare = ?x \<and> tort = ?x \<and> g = sample_heap)"
    proof
      assume st: "tst = ?t \<and> prev = Qnil \<and> hare = ?x \<and> tort = ?x \<and> g = sample_heap"
      then have "loop ?t ?x Qnil 1 ?x ?x sample_heap = Some r"
        using run by (simp add: Let_def unlink_def CIRCULAR_LIST_SUSPICION_LENGTH_def)
      from IH [OF this] show False by simp
    qed
  qed
  then show ?thesis unfolding Fdelq_def EXTERNAL_LIST_LOOP_DELETE_IF_def
    by (metis option.exhaust)
qed

end
