(* ===== verification/Sort.thy ===== *)
theory Sort
  imports ListProps "HOL-Library.Sorting_Algorithms"
begin

text \<open>
  The merge sort of \<open>src/src/fns.c\<close>: \<open>list_sort\<close> cuts the list in half, sorts the halves and
  relinks their conses in \<open>list_merge\<close>. The predicate is a Lisp function and may do anything to
  the heap. For a predicate that only compares, the result is shown to be the stable sort of the
  library, on the conses themselves.
\<close>

type_synonym lisp_pred = "lisp_object \<Rightarrow> lisp_object \<Rightarrow> lisp_heap \<Rightarrow> (lisp_object \<times> lisp_heap) lresult option"

section \<open>Operations\<close>

text \<open>
  \<open>call2\<close> stands for the call of the Lisp predicate. The result is \<open>-1\<close> when it returns \<open>nil\<close>,
  else 1; that garbage collection is inhibited meanwhile has no counterpart in the heap.
\<close>

definition merge_pred_function :: "lisp_pred \<Rightarrow> lisp_object \<Rightarrow> lisp_object \<Rightarrow> lisp_heap \<Rightarrow> (int \<times> lisp_heap) lresult option" where
  "merge_pred_function call2 obj1 obj2 h =
     lbind (call2 obj1 obj2 h) (\<lambda>(tmp, h'). Some (Inr (if NILP tmp then - 1 else 1, h')))"

text \<open>The end of the merge: what is left of one list is appended to the result.\<close>

definition merge_finish :: "lisp_object \<Rightarrow> lisp_object \<Rightarrow> lisp_object \<Rightarrow> lisp_heap \<Rightarrow> (lisp_object \<times> lisp_heap) lresult option" where
  "merge_finish val tail l h =
     (if NILP tail then Some (Inr (l, h))
      else lbind (Some (Fsetcdr tail l h)) (\<lambda>(_, h'). Some (Inr (val, h'))))"

text \<open>The cons \<open>tem\<close> becomes the first of the result or is linked to its last one.\<close>

definition merge_link :: "lisp_object \<Rightarrow> lisp_object \<Rightarrow> lisp_object \<Rightarrow> lisp_heap \<Rightarrow> (lisp_object \<times> lisp_heap) lresult option" where
  "merge_link val tail tem h =
     (if NILP tail then Some (Inr (tem, h))
      else lbind (Some (Fsetcdr tail tem h)) (\<lambda>(_, h'). Some (Inr (val, h'))))"

partial_function (option) list_merge_loop ::
    "lisp_pred \<Rightarrow> lisp_object \<Rightarrow> lisp_object \<Rightarrow> lisp_object \<Rightarrow> lisp_object \<Rightarrow> lisp_heap
     \<Rightarrow> (lisp_object \<times> lisp_heap) lresult option" where
  "list_merge_loop call2 val tail l1 l2 h =
     (if NILP l1 then merge_finish val tail l2 h
      else if NILP l2 then merge_finish val tail l1 h
      else lbind (Some (Fcar h l2)) (\<lambda>e2.
           lbind (Some (Fcar h l1)) (\<lambda>e1.
           lbind (merge_pred_function call2 e2 e1 h) (\<lambda>(c, h1).
             if c < 0
             then lbind (Some (Fcdr h1 l1)) (\<lambda>l1'.
                  lbind (merge_link val tail l1 h1) (\<lambda>(val', h2).
                    list_merge_loop call2 val' l1 l1' l2 h2))
             else lbind (Some (Fcdr h1 l2)) (\<lambda>l2'.
                  lbind (merge_link val tail l2 h1) (\<lambda>(val', h2).
                    list_merge_loop call2 val' l2 l1 l2' h2))))))"

declare list_merge_loop.simps [code]

definition list_merge ::
    "lisp_pred \<Rightarrow> lisp_object \<Rightarrow> lisp_object \<Rightarrow> lisp_heap \<Rightarrow> (lisp_object \<times> lisp_heap) lresult option" where
  "list_merge call2 org_l1 org_l2 h = list_merge_loop call2 Qnil Qnil org_l1 org_l2 h"

partial_function (option) list_sort ::
    "lisp_pred \<Rightarrow> lisp_object \<Rightarrow> lisp_heap \<Rightarrow> (lisp_object \<times> lisp_heap) lresult option" where
  "list_sort call2 lst h =
     lbind (Flength lst h) (\<lambda>len.
       if XINT len < 2 then Some (Inr (lst, h))
       else lbind (Some (Fnthcdr (Lisp_Int (XINT len div 2 - 1)) lst h)) (\<lambda>tem.
            lbind (Some (Fcdr h tem)) (\<lambda>back.
            lbind (Some (Fsetcdr tem Qnil h)) (\<lambda>(_, h1).
            lbind (list_sort call2 lst h1) (\<lambda>(front', h2).
            lbind (list_sort call2 back h2) (\<lambda>(back', h3).
              list_merge call2 front' back' h3))))))"

declare list_sort.simps [code]

definition Fsort :: "lisp_pred \<Rightarrow> lisp_object \<Rightarrow> lisp_heap \<Rightarrow> (lisp_object \<times> lisp_heap) lresult option" where
  "Fsort call2 lst h = list_sort call2 lst h"

section \<open>Merging\<close>

text \<open>A predicate that compares by a comparator and leaves the heap alone.\<close>

definition compares :: "lisp_pred \<Rightarrow> lisp_object comparator \<Rightarrow> bool" where
  "compares call2 cmp \<longleftrightarrow>
     (\<forall>a b h. \<exists>v. call2 a b h = Some (Inr (v, h)) \<and> (NILP v \<longleftrightarrow> compare cmp a b \<noteq> Less))"

lemma merge_pred_compares:
  assumes "compares call2 cmp"
  shows "merge_pred_function call2 a b h = Some (Inr (if compare cmp a b = Less then 1 else - 1, h))"
proof -
  obtain v where "call2 a b h = Some (Inr (v, h))" "NILP v \<longleftrightarrow> compare cmp a b \<noteq> Less"
    using assms unfolding compares_def by blast
  then show ?thesis by (simp add: merge_pred_function_def)
qed

text \<open>
  The state of the merge: the conses \<open>ms\<close> merged so far are a path from the result to the last
  one, \<open>as\<close> and \<open>bs\<close> are what is left of the two lists.
\<close>

definition merging :: "lisp_heap \<Rightarrow> lisp_object \<Rightarrow> lisp_object \<Rightarrow> nat list \<Rightarrow> bool" where
  "merging g val tail ms \<longleftrightarrow>
     (if ms = [] then tail = Qnil else tail = Lisp_Cons (last ms) \<and> lpath g val (butlast ms) tail)"

text \<open>Linking the list \<open>x\<close> to the conses merged so far.\<close>

definition linked :: "lisp_heap \<Rightarrow> nat list \<Rightarrow> lisp_object \<Rightarrow> lisp_heap" where
  "linked g ms x = (if ms = [] then g else g\<lparr>hcdr := (hcdr g)(last ms := x)\<rparr>)"

lemma linked_simps [simp]:
  "hcar (linked g ms x) = hcar g" "hnext (linked g ms x) = hnext g"
  "c \<notin> set ms \<Longrightarrow> hcdr (linked g ms x) c = hcdr g c"
  by (auto simp: linked_def)

lemma linked_lpath:
  assumes "merging g val tail ms" and "distinct ms"
  shows "lpath (linked g ms x) (if ms = [] then x else val) ms x"
proof (cases ms rule: rev_cases)
  case (snoc us m)
  then have "lpath g val us (Lisp_Cons m)" "m \<notin> set us" using assms by (auto simp: merging_def)
  with snoc show ?thesis by (simp add: linked_def lpath_append)
qed simp

lemma linked_other: "set as \<inter> set ms = {} \<Longrightarrow> proper_list (linked g ms x) y as = proper_list g y as"
  unfolding proper_list_def by (intro lpath_cong) (auto simp: linked_def)

lemma merge_finish_link:
  assumes "merging g val tail ms"
  shows "merge_finish val tail x g = Some (Inr (if ms = [] then x else val, linked g ms x))"
    and "merge_link val tail x g = Some (Inr (if ms = [] then x else val, linked g ms x))"
  using assms by (auto simp: merging_def merge_finish_def merge_link_def linked_def Fsetcdr_def)

lemma merging_step:
  assumes "merging g val tail ms" and "distinct ms"
  shows "merging (linked g ms (Lisp_Cons a)) (if ms = [] then Lisp_Cons a else val) (Lisp_Cons a) (ms @ [a])"
  using linked_lpath [OF assms, of "Lisp_Cons a"] by (simp add: merging_def butlast_append)


abbreviation cell_cmp :: "lisp_heap \<Rightarrow> lisp_object comparator \<Rightarrow> nat comparator" where
  "cell_cmp h cmp \<equiv> key (hcar h) cmp"

text \<open>A heap in which only the cdrs of the given conses have changed, with the list they form.\<close>

definition relinked :: "lisp_heap \<Rightarrow> lisp_heap \<Rightarrow> lisp_object \<Rightarrow> nat list \<Rightarrow> nat set \<Rightarrow> bool" where
  "relinked h h' y cs S \<longleftrightarrow> proper_list h' y cs \<and> hcar h' = hcar h \<and> hnext h' = hnext h \<and>
     (\<forall>c. c \<notin> S \<longrightarrow> hcdr h' c = hcdr h c)"

lemma merge_ends:
  assumes "merging g val tail ms" and "proper_list g x cs" and "distinct (ms @ cs)"
  shows "relinked g (linked g ms x) (if ms = [] then x else val) (ms @ cs) (set ms)"
proof -
  have "set cs \<inter> set ms = {}" "distinct ms" using assms(3) by auto
  then have "proper_list (linked g ms x) x cs" using assms(2) linked_other by simp
  with linked_lpath [OF assms(1) \<open>distinct ms\<close>, of x] show ?thesis
    unfolding relinked_def by (auto simp: proper_list_def lpath_append)
qed

lemma relinked_mono: "relinked h h' y cs S \<Longrightarrow> S \<subseteq> T \<Longrightarrow> relinked h h' y cs T"
  unfolding relinked_def by blast

lemma relinked_trans:
  "relinked h g x bs S \<Longrightarrow> relinked g k y cs S \<Longrightarrow> relinked h k y cs S"
  unfolding relinked_def by simp

lemma list_merge_step1:
  assumes "compares call2 cmp" and "merging g val tail ms"
  shows "list_merge_loop call2 val tail (Lisp_Cons a) (Lisp_Cons b) g =
    (if compare cmp (hcar g b) (hcar g a) = Less
     then list_merge_loop call2 (if ms = [] then Lisp_Cons b else val) (Lisp_Cons b) (Lisp_Cons a) (hcdr g b)
            (linked g ms (Lisp_Cons b))
     else list_merge_loop call2 (if ms = [] then Lisp_Cons a else val) (Lisp_Cons a) (hcdr g a) (Lisp_Cons b)
            (linked g ms (Lisp_Cons a)))"
  using merge_finish_link(2) [OF assms(2)] merge_pred_compares [OF assms(1)]
  by (subst list_merge_loop.simps) (simp add: Fcar_def Fcdr_def)

lemma list_merge_loop_ok:
  assumes "compares call2 cmp" and "merging g val tail ms" and "proper_list g l1 as" and "proper_list g l2 bs"
    and "distinct (ms @ as @ bs)"
  shows "\<exists>y g'. list_merge_loop call2 val tail l1 l2 g = Some (Inr (y, g')) \<and>
    relinked g g' y (ms @ Sorting_Algorithms.merge (cell_cmp g cmp) as bs) (set ms \<union> set as \<union> set bs)"
  using assms(2-)
proof (induction "length as + length bs" arbitrary: g val tail ms as bs l1 l2)
  case 0
  then show ?case using merge_ends [of g val tail ms Qnil "[]"] merge_finish_link(1) [OF 0(2), of Qnil]
    by (auto simp: list_merge_loop.simps [of call2])
next
  case (Suc n)
  note IH = Suc.hyps(1) and prems = Suc.prems
  show ?case
  proof (cases as)
    case Nil
    then have "list_merge_loop call2 val tail l1 l2 g = merge_finish val tail l2 g"
      using prems(2) by (simp add: list_merge_loop.simps [of call2])
    moreover have "distinct (ms @ bs)" using prems(4) by auto
    from merge_ends [OF prems(1,3) this]
    have "relinked g (linked g ms l2) (if ms = [] then l2 else val) (ms @ bs) (set ms \<union> set as \<union> set bs)"
      by (rule relinked_mono) auto
    ultimately show ?thesis using Nil merge_finish_link(1) [OF prems(1), of l2] by simp
  next
    case as: (Cons a as')
    show ?thesis
    proof (cases bs)
      case Nil
      then have "list_merge_loop call2 val tail l1 l2 g = merge_finish val tail l1 g"
        using prems(2,3) as by (simp add: list_merge_loop.simps [of call2])
      moreover have "distinct (ms @ as)" using prems(4) by auto
      from merge_ends [OF prems(1,2) this]
      have "relinked g (linked g ms l1) (if ms = [] then l1 else val) (ms @ as) (set ms \<union> set as \<union> set bs)"
        by (rule relinked_mono) auto
      ultimately show ?thesis using Nil as merge_finish_link(1) [OF prems(1), of l1] by simp
    next
      case bs: (Cons b bs')
      have l: "l1 = Lisp_Cons a" "l2 = Lisp_Cons b" "proper_list g (hcdr g a) as'" "proper_list g (hcdr g b) bs'"
        using prems(2,3) as bs by auto
      have dist: "distinct ms" "distinct (ms @ [b] @ as @ bs')" "distinct (ms @ [a] @ as' @ bs)"
        using prems(4) as bs by auto
      note step = list_merge_step1 [OF assms(1) prems(1), of a b]
      show ?thesis
      proof (cases "compare cmp (hcar g b) (hcar g a) = Less")
        case True
        let ?g = "linked g ms (Lisp_Cons b)"
        have "proper_list ?g l1 as" "proper_list ?g (hcdr g b) bs'"
          using prems(2,4) l(4) bs linked_other [of as ms g "Lisp_Cons b" l1] linked_other [of bs' ms g "Lisp_Cons b" "hcdr g b"]
          by (auto simp: inf_commute inf_sup_distrib1)
        moreover have "n = length as + length bs'" "distinct ((ms @ [b]) @ as @ bs')"
          using Suc.hyps(2) bs dist by simp_all
        ultimately obtain y g' where r: "list_merge_loop call2 (if ms = [] then Lisp_Cons b else val) (Lisp_Cons b) l1 (hcdr g b) ?g
              = Some (Inr (y, g'))"
            "relinked ?g g' y ((ms @ [b]) @ Sorting_Algorithms.merge (cell_cmp ?g cmp) as bs')
              (set (ms @ [b]) \<union> set as \<union> set bs')"
          using IH [OF _ merging_step [OF prems(1) dist(1), of b]] by blast
        have "compare (cell_cmp g cmp) a b = Greater" using True by (simp add: compare.greater_iff_sym_less)
        with r(2) have "relinked g g' y (ms @ Sorting_Algorithms.merge (cell_cmp g cmp) as bs) (set ms \<union> set as \<union> set bs)"
          unfolding relinked_def using as bs by auto
        then show ?thesis using step True r(1) l by auto
      next
        case False
        let ?g = "linked g ms (Lisp_Cons a)"
        have "proper_list ?g (hcdr g a) as'" "proper_list ?g l2 bs"
          using prems(3,4) l(3) as linked_other [of as' ms g "Lisp_Cons a" "hcdr g a"] linked_other [of bs ms g "Lisp_Cons a" l2]
          by (auto simp: inf_commute inf_sup_distrib1)
        moreover have "n = length as' + length bs" "distinct ((ms @ [a]) @ as' @ bs)"
          using Suc.hyps(2) as dist by simp_all
        ultimately obtain y g' where r: "list_merge_loop call2 (if ms = [] then Lisp_Cons a else val) (Lisp_Cons a) (hcdr g a) l2 ?g
              = Some (Inr (y, g'))"
            "relinked ?g g' y ((ms @ [a]) @ Sorting_Algorithms.merge (cell_cmp ?g cmp) as' bs)
              (set (ms @ [a]) \<union> set as' \<union> set bs)"
          using IH [OF _ merging_step [OF prems(1) dist(1), of a]] by blast
        have "compare (cell_cmp g cmp) a b \<noteq> Greater" using False by (simp add: compare.greater_iff_sym_less)
        with r(2) have "relinked g g' y (ms @ Sorting_Algorithms.merge (cell_cmp g cmp) as bs) (set ms \<union> set as \<union> set bs)"
          unfolding relinked_def using as bs by auto
        then show ?thesis using step False r(1) l by auto
      qed
    qed
  qed
qed


section \<open>Sorting\<close>

lemma nthcdr_loop_path:
  "lpath h x as y \<Longrightarrow> n \<le> length as \<Longrightarrow> nthcdr_loop h n x = Inr (cdrn h x n)"
proof (induction n arbitrary: x as)
  case (Suc n)
  then obtain a as' where "as = a # as'" "x = Lisp_Cons a" "lpath h (hcdr h a) as' y" by (cases as) auto
  with Suc show ?case using cdrn_add [of h x "Suc 0" n] by simp
qed simp

lemma Flength_proper: "proper_list h x as \<Longrightarrow> Flength x h = Some (Inr (Lisp_Int (int (length as))))"
  using list_length_path [of h x as Qnil] by (cases as) (auto simp: Flength_def proper_list_def)

text \<open>Cutting a list after its first \<open>n\<close> conses.\<close>

lemma list_cut:
  assumes "proper_list h x as" and "0 < n" and "n < length as"
  shows "\<exists>bk h1. Fnthcdr (Lisp_Int (int n - 1)) x h = Inr (Lisp_Cons (as ! (n - 1))) \<and>
    Fcdr h (Lisp_Cons (as ! (n - 1))) = Inr bk \<and> Fsetcdr (Lisp_Cons (as ! (n - 1))) Qnil h = Inr (Qnil, h1) \<and>
    relinked h h1 x (take n as) (set as) \<and> proper_list h1 bk (drop n as)"
proof -
  let ?c = "as ! (n - 1)" let ?h = "h\<lparr>hcdr := (hcdr h)(?c := Qnil)\<rparr>"
  have p: "lpath h x as Qnil" using assms(1) by (simp add: proper_list_def)
  have nth: "cdrn h x (n - 1) = Lisp_Cons ?c" by (rule lpath_cdrn_nth [OF p]) (use assms in simp)
  have "nat (int n - 1) = n - 1" "0 \<le> int n - 1" using assms(2) by auto
  then have "Fnthcdr (Lisp_Int (int n - 1)) x h = Inr (Lisp_Cons ?c)"
    using nthcdr_loop_path [OF p, of "n - 1"] nth assms by (simp add: Fnthcdr_def)
  moreover have front: "proper_list ?h x (take n as)"
    using proper_list_cut [OF assms(1), of "n - 1"] assms(2,3) by simp
  moreover have "proper_list ?h (hcdr h ?c) (drop n as)"
  proof -
    have "as = take (n - 1) as @ ?c # drop n as" using id_take_nth_drop [of "n - 1" as] assms by simp
    then have "lpath h x (take (n - 1) as @ ?c # drop n as) Qnil" "distinct (take (n - 1) as @ ?c # drop n as)"
      using p proper_list_distinct [OF assms(1)] by simp_all
    then show ?thesis by (auto simp: lpath_append proper_list_def)
  qed
  moreover have "?c \<in> set as" using assms by simp
  ultimately show ?thesis
    by (intro exI [of _ "hcdr h ?c"] exI [of _ ?h]) (auto simp: Fcdr_def Fsetcdr_def relinked_def)
qed

lemma relinked_keeps:
  assumes "relinked h h' y cs S" and "proper_list h x as" and "set as \<inter> S = {}"
  shows "proper_list h' x as"
  using assms lpath_cong [of as h h' x Qnil] unfolding relinked_def proper_list_def by fastforce

lemma list_sort_ok:
  assumes "compares call2 cmp" and "proper_list h x as"
  shows "\<exists>y h'. list_sort call2 x h = Some (Inr (y, h')) \<and>
    relinked h h' y (Sorting_Algorithms.sort (cell_cmp h cmp) as) (set as)"
  using assms(2)
proof (induction "length as" arbitrary: x as h rule: less_induct)
  case less
  note len = Flength_proper [OF less.prems] and dist = proper_list_distinct [OF less.prems]
  show ?case
  proof (cases "length as < 2")
    case True
    then have "as = [] \<or> (\<exists>a. as = [a])" by (cases as) (auto simp: Suc_less_eq2 less_Suc_eq)
    then have "Sorting_Algorithms.sort (cell_cmp h cmp) as = as" by auto
    with True len less.prems show ?thesis by (subst list_sort.simps) (simp add: relinked_def)
  next
    case False
    define n where "n = length as div 2"
    have n: "0 < n" "n < length as" "int (length as) div 2 = int n" using False by (auto simp: n_def zdiv_int)
    obtain bk h1 where cut: "Fnthcdr (Lisp_Int (int n - 1)) x h = Inr (Lisp_Cons (as ! (n - 1)))"
      "Fcdr h (Lisp_Cons (as ! (n - 1))) = Inr bk" "Fsetcdr (Lisp_Cons (as ! (n - 1))) Qnil h = Inr (Qnil, h1)"
      "relinked h h1 x (take n as) (set as)" "proper_list h1 bk (drop n as)"
      using list_cut [OF less.prems n(1,2)] by blast
    have disj: "set (drop n as) \<inter> set (take n as) = {}"
      using dist set_take_disj_set_drop_if_distinct [of as n n] by auto
    obtain f h2 where f: "list_sort call2 x h1 = Some (Inr (f, h2))"
      "relinked h1 h2 f (Sorting_Algorithms.sort (cell_cmp h1 cmp) (take n as)) (set (take n as))"
      using less.hyps [of "take n as" h1 x] cut(4) n by (auto simp: relinked_def)
    have "proper_list h2 bk (drop n as)" by (rule relinked_keeps [OF f(2) cut(5) disj])
    moreover have "length (drop n as) < length as" using n by simp
    ultimately obtain b h3 where b: "list_sort call2 bk h2 = Some (Inr (b, h3))"
      "relinked h2 h3 b (Sorting_Algorithms.sort (cell_cmp h2 cmp) (drop n as)) (set (drop n as))"
      using less.hyps [of "drop n as" h2 bk] by blast
    have cars: "hcar h1 = hcar h" "hcar h2 = hcar h" "hcar h3 = hcar h"
      using cut(4) f(2) b(2) by (simp_all add: relinked_def)
    let ?F = "Sorting_Algorithms.sort (cell_cmp h cmp) (take n as)" and ?B = "Sorting_Algorithms.sort (cell_cmp h cmp) (drop n as)"
    have "proper_list h3 f ?F"
      by (rule relinked_keeps [OF b(2)]) (use f(2) cars disj in \<open>auto simp: relinked_def\<close>)
    moreover have "proper_list h3 b ?B" using b(2) cars by (simp add: relinked_def)
    moreover have "mset (?F @ ?B) = mset as" by (metis append_take_drop_id mset_append mset_sort)
    then have "distinct ([] @ ?F @ ?B)" using dist by (metis append_Nil mset_eq_imp_distinct_iff)
    ultimately obtain y h' where y: "list_merge_loop call2 Qnil Qnil f b h3 = Some (Inr (y, h'))"
      "relinked h3 h' y (Sorting_Algorithms.merge (cell_cmp h3 cmp) ?F ?B) (set ?F \<union> set ?B)"
      using list_merge_loop_ok [OF assms(1), of h3 Qnil Qnil "[]" f ?F b ?B] by (auto simp: merging_def)
    have parts: "set (take n as) \<subseteq> set as" "set (drop n as) \<subseteq> set as" by (auto dest: in_set_takeD in_set_dropD)
    then have "set ?F \<union> set ?B \<subseteq> set as" by simp
    note all = cut(4) relinked_mono [OF f(2) parts(1)] relinked_mono [OF b(2) parts(2)] relinked_mono [OF y(2) this]
    have "relinked h h' y (Sorting_Algorithms.merge (cell_cmp h cmp) ?F ?B) (set as)"
      using relinked_trans [OF relinked_trans [OF relinked_trans [OF all(1,2)] all(3)] all(4)] cars by simp
    then have "relinked h h' y (Sorting_Algorithms.sort (cell_cmp h cmp) as) (set as)"
      using sort_by_mergesort_rec [of "cell_cmp h cmp" as] by (simp add: n_def)
    moreover have "list_sort call2 x h = Some (Inr (y, h'))"
      using False len n(3) cut(1-3) f(1) b(1) y(1) by (subst list_sort.simps) (simp add: list_merge_def)
    ultimately show ?thesis by blast
  qed
qed

text \<open>
  Property C6: \<open>sort\<close> on a proper list, with a predicate that compares by some comparator, returns
  the conses of the list in the order of the stable sort: sorted, a permutation, and equivalent
  elements in their old order. Only the cdrs of the list's own conses change.
\<close>

theorem Fsort_stable:
  assumes "compares call2 cmp" and "proper_list h x as"
  shows "\<exists>y h'. Fsort call2 x h = Some (Inr (y, h')) \<and>
    proper_list h' y (Sorting_Algorithms.sort (key (hcar h) cmp) as) \<and> hcar h' = hcar h \<and>
    (\<forall>c. c \<notin> set as \<longrightarrow> hcdr h' c = hcdr h c)"
  using list_sort_ok [OF assms] by (auto simp: Fsort_def relinked_def)

text \<open>Sorting the list \<open>(1 2 3)\<close> by \<open>>\<close>.\<close>

fun int_value :: "lisp_object \<Rightarrow> int" where
  "int_value (Lisp_Int i) = i"
| "int_value _ = 0"

definition greater_pred :: lisp_pred where
  "greater_pred a b h = Some (Inr (if int_value a > int_value b then Qt else Qnil, h))"

theorem Fsort_stable_witness:
  "\<exists>y h'. Fsort greater_pred (Lisp_Cons 0) sample_heap = Some (Inr (y, h')) \<and> proper_list h' y [2, 1, 0]"
proof -
  let ?cmp = "reversed (key int_value default)"
  have "compares greater_pred ?cmp" by (simp add: compares_def greater_pred_def)
  moreover have "Sorting_Algorithms.sort (key (hcar sample_heap) ?cmp) [0, 1, 2] = [2, 1, 0]" by simp
  ultimately show ?thesis using Fsort_stable [OF _ sample_lists(1), of greater_pred ?cmp] by auto
qed

end
