(* ===== verification/Plist.thy ===== *)
theory Plist
  imports ListDelete
begin

text \<open>
  Property lists (\<open>src/src/fns.c\<close>). The internal functions trust their argument; the external
  ones walk the list with a tortoise and a hare that are pointers to the places where the list
  continues, so that a malformed list can be cut off there. Such a place is the variable that
  holds the plist or the cdr of a cons.
\<close>

section \<open>Places\<close>

datatype place = Plist_var | Cdr_of nat

type_synonym pstate = "lisp_object \<times> lisp_heap"

fun deref :: "pstate \<Rightarrow> place \<Rightarrow> lisp_object" where
  "deref (plist, h) Plist_var = plist"
| "deref (plist, h) (Cdr_of a) = hcdr h a"

fun store :: "pstate \<Rightarrow> place \<Rightarrow> lisp_object \<Rightarrow> pstate" where
  "store (plist, h) Plist_var v = (v, h)"
| "store (plist, h) (Cdr_of a) v = (plist, h\<lparr>hcdr := (hcdr h)(a := v)\<rparr>)"

text \<open>\<open>&XCDR (*p)\<close>; only meaningful where the place holds a cons.\<close>

definition cdr_place :: "pstate \<Rightarrow> place \<Rightarrow> place" where
  "cdr_place s p = (case deref s p of Lisp_Cons a \<Rightarrow> Cdr_of a | _ \<Rightarrow> undefined)"

section \<open>Internal property lists\<close>

partial_function (option) internal_plist_get :: "lisp_object \<Rightarrow> lisp_object \<Rightarrow> lisp_heap \<Rightarrow> lisp_object option" where
  "internal_plist_get tail property h =
     (if NILP tail then Some Qunbound
      else if EQ (XCAR h tail) property then Some (XCAR h (XCDR h tail))
      else internal_plist_get (XCDR h (XCDR h tail)) property h)"

declare internal_plist_get.simps [code]

partial_function (option) internal_plist_put_loop ::
    "lisp_object \<Rightarrow> lisp_object \<Rightarrow> lisp_object \<Rightarrow> lisp_object \<Rightarrow> lisp_heap \<Rightarrow> pstate option" where
  "internal_plist_put_loop plist tail property val h =
     (if NILP tail
      then let (c, h1) = Fcons val plist h; (d, h2) = Fcons property c h1 in Some (d, h2)
      else if EQ (XCAR h tail) property then Some (plist, XSETCAR h (XCDR h tail) val)
      else internal_plist_put_loop plist (XCDR h (XCDR h tail)) property val h)"

declare internal_plist_put_loop.simps [code]

definition internal_plist_put :: "lisp_object \<Rightarrow> lisp_object \<Rightarrow> lisp_object \<Rightarrow> lisp_heap \<Rightarrow> pstate option" where
  "internal_plist_put plist property val h = internal_plist_put_loop plist plist property val h"

partial_function (option) internal_remprop_loop ::
    "lisp_object \<Rightarrow> lisp_object \<Rightarrow> lisp_object \<Rightarrow> lisp_object \<Rightarrow> lisp_heap \<Rightarrow> (bool \<times> pstate) option" where
  "internal_remprop_loop plist prev tail property h =
     (if NILP tail then Some (False, plist, h)
      else if EQ (XCAR h tail) property
      then if NILP prev then Some (True, XCDR h (XCDR h tail), h)
           else Some (True, plist, XSETCDR h (XCDR h prev) (XCDR h (XCDR h tail)))
      else internal_remprop_loop plist tail (XCDR h (XCDR h tail)) property h)"

declare internal_remprop_loop.simps [code]

definition internal_remprop :: "lisp_object \<Rightarrow> lisp_object \<Rightarrow> lisp_heap \<Rightarrow> (bool \<times> pstate) option" where
  "internal_remprop plist property h = internal_remprop_loop plist Qnil plist property h"

section \<open>Checked property lists\<close>

datatype error_behavior = ERROR_ME | ERROR_ME_WARN | ERROR_ME_NOT

text \<open>Warnings have no effect on the state.\<close>

definition bad_bad_bunny :: "error_behavior \<Rightarrow> pstate \<Rightarrow> place \<Rightarrow> place \<Rightarrow> (lisp_object \<times> pstate) lresult" where
  "bad_bad_bunny errb s plist badplace =
     (case errb of
        ERROR_ME \<Rightarrow> Inl (Malformed_property_list (deref s plist))
      | ERROR_ME_WARN \<Rightarrow> Inr (Qunbound, store s badplace Qnil)
      | ERROR_ME_NOT \<Rightarrow> Inr (Qunbound, s))"

definition bad_bad_turtle :: "error_behavior \<Rightarrow> pstate \<Rightarrow> place \<Rightarrow> place \<Rightarrow> (lisp_object \<times> pstate) lresult" where
  "bad_bad_turtle errb s plist badplace =
     (case errb of
        ERROR_ME \<Rightarrow> Inl (Circular_property_list (deref s plist))
      | ERROR_ME_WARN \<Rightarrow> Inr (Qunbound, store s badplace Qnil)
      | ERROR_ME_NOT \<Rightarrow> Inr (Qunbound, s))"

text \<open>
  The hare's two steps in one round of the loop of \<open>advance_plist_pointers\<close>: \<open>None\<close> when the
  list turns out malformed.
\<close>

definition advance_hare :: "pstate \<Rightarrow> place \<Rightarrow> place option" where
  "advance_hare s hare =
     (if NILP (deref s hare) then Some hare
      else if \<not> CONSP (deref s hare) then None
      else let hare1 = cdr_place s hare
           in if \<not> CONSP (deref s hare1) then None else Some (cdr_place s hare1))"

text \<open>A round; the result is the value to return (with the state) or the new tortoise and hare.\<close>

definition advance_round ::
    "error_behavior \<Rightarrow> pstate \<Rightarrow> place \<Rightarrow> place \<Rightarrow> place \<Rightarrow> place \<Rightarrow> ((lisp_object \<times> pstate) + (place \<times> place)) lresult" where
  "advance_round errb s plist tortsave tortoise hare =
     (case advance_hare s hare of
        None \<Rightarrow> map_sum id Inl (bad_bad_bunny errb s plist hare)
      | Some hare' \<Rightarrow>
          let tortoise' = cdr_place s tortoise
          in if \<not> NILP (deref s hare') \<and> EQ (deref s tortoise') (deref s hare')
             then map_sum id Inl (bad_bad_turtle errb s plist tortsave)
             else Inr (Inr (tortoise', hare')))"

definition advance_plist_pointers ::
    "error_behavior \<Rightarrow> pstate \<Rightarrow> place \<Rightarrow> place \<Rightarrow> place \<Rightarrow> ((lisp_object \<times> pstate) + (place \<times> place)) lresult" where
  "advance_plist_pointers errb s plist tortoise hare =
     (case advance_round errb s plist tortoise tortoise hare of
        Inr (Inr (tortoise1, hare1)) \<Rightarrow> advance_round errb s plist tortoise tortoise1 hare1
      | r \<Rightarrow> r)"

text \<open>
  The loop that \<open>external_plist_get\<close>, \<open>external_plist_put\<close>, \<open>external_remprop\<close>,
  \<open>Fcheck_valid_plist\<close> and \<open>Fvalid_plist_p\<close> share: it ends at the end of the list, at a
  property that satisfies the test (the place that holds its cons), or where the list is bad.
\<close>

datatype march = March_end | March_found place | March_bad lisp_object pstate

partial_function (option) plist_march ::
    "error_behavior \<Rightarrow> test \<Rightarrow> pstate \<Rightarrow> place \<Rightarrow> place \<Rightarrow> place \<Rightarrow> march lresult option" where
  "plist_march errb tst s plist tortoise hare =
     (if NILP (deref s tortoise) then Some (Inr March_end)
      else case advance_plist_pointers errb s plist tortoise hare of
             Inl e \<Rightarrow> Some (Inl e)
           | Inr (Inl (retval, s')) \<Rightarrow> Some (Inr (March_bad retval s'))
           | Inr (Inr (tortoise', hare')) \<Rightarrow>
               lbind (tst (snd s) (XCAR (snd s) (deref s tortoise))) (\<lambda>b.
                 if b then Some (Inr (March_found tortoise))
                 else plist_march errb tst s plist tortoise' hare'))"

declare plist_march.simps [code]

definition property_test :: "(nat \<Rightarrow> equality) \<Rightarrow> bool \<Rightarrow> lisp_object \<Rightarrow> test" where
  "property_test other laxp property h x =
     (if laxp then internal_equal other h 0 x property else Some (Inr (EQ x property)))"

definition external_plist_get ::
    "(nat \<Rightarrow> equality) \<Rightarrow> lisp_object \<Rightarrow> bool \<Rightarrow> error_behavior \<Rightarrow> pstate \<Rightarrow> (lisp_object \<times> pstate) lresult option" where
  "external_plist_get other property laxp errb s =
     lbind (plist_march errb (property_test other laxp property) s Plist_var Plist_var Plist_var) (\<lambda>m.
       case m of
         March_end \<Rightarrow> Some (Inr (Qunbound, s))
       | March_bad retval s' \<Rightarrow> Some (Inr (retval, s'))
       | March_found p \<Rightarrow> Some (Inr (XCAR (snd s) (XCDR (snd s) (deref s p)), s)))"

definition external_plist_put ::
    "(nat \<Rightarrow> equality) \<Rightarrow> lisp_object \<Rightarrow> lisp_object \<Rightarrow> bool \<Rightarrow> error_behavior \<Rightarrow> pstate \<Rightarrow> pstate lresult option" where
  "external_plist_put other property val laxp errb s =
     lbind (plist_march errb (property_test other laxp property) s Plist_var Plist_var Plist_var) (\<lambda>m.
       case m of
         March_end \<Rightarrow>
           (let (c, h1) = Fcons val (fst s) (snd s); (d, h2) = Fcons property c h1
            in Some (Inr (d, h2)))
       | March_bad retval s' \<Rightarrow> Some (Inr s')
       | March_found p \<Rightarrow> Some (Inr (fst s, XSETCAR (snd s) (XCDR (snd s) (deref s p)) val)))"

text \<open>\<open>start\<close> is the place passed in, the plist variable or the cdr of a cons.\<close>

definition external_remprop ::
    "(nat \<Rightarrow> equality) \<Rightarrow> place \<Rightarrow> lisp_object \<Rightarrow> bool \<Rightarrow> error_behavior \<Rightarrow> pstate \<Rightarrow> (bool \<times> pstate) lresult option" where
  "external_remprop other start property laxp errb s =
     lbind (plist_march errb (property_test other laxp property) s start start start) (\<lambda>m.
       case m of
         March_end \<Rightarrow> Some (Inr (False, s))
       | March_bad retval s' \<Rightarrow> Some (Inr (False, s'))
       | March_found p \<Rightarrow> Some (Inr (True, store s p (XCDR (snd s) (XCDR (snd s) (deref s p))))))"


text \<open>The functions of the Lisp level; they signal an error on a bad list.\<close>

definition Fplist_get ::
    "(nat \<Rightarrow> equality) \<Rightarrow> lisp_object \<Rightarrow> lisp_object \<Rightarrow> lisp_object \<Rightarrow> lisp_heap \<Rightarrow> lisp_object lresult option" where
  "Fplist_get other plist property dflt h =
     lbind (external_plist_get other property False ERROR_ME (plist, h)) (\<lambda>(val, _).
       Some (Inr (if UNBOUNDP val then dflt else val)))"

definition Fplist_put ::
    "(nat \<Rightarrow> equality) \<Rightarrow> lisp_object \<Rightarrow> lisp_object \<Rightarrow> lisp_object \<Rightarrow> lisp_heap \<Rightarrow> pstate lresult option" where
  "Fplist_put other plist property val h = external_plist_put other property val False ERROR_ME (plist, h)"

definition Fplist_remprop ::
    "(nat \<Rightarrow> equality) \<Rightarrow> lisp_object \<Rightarrow> lisp_object \<Rightarrow> lisp_heap \<Rightarrow> pstate lresult option" where
  "Fplist_remprop other plist property h =
     lbind (external_remprop other Plist_var property False ERROR_ME (plist, h)) (\<lambda>(_, s). Some (Inr s))"

definition Fplist_member ::
    "(nat \<Rightarrow> equality) \<Rightarrow> lisp_object \<Rightarrow> lisp_object \<Rightarrow> lisp_heap \<Rightarrow> lisp_object lresult option" where
  "Fplist_member other plist property h =
     lbind (Fplist_get other plist property Qunbound h) (\<lambda>val.
       Some (Inr (if UNBOUNDP val then Qnil else Qt)))"

definition Flax_plist_get ::
    "(nat \<Rightarrow> equality) \<Rightarrow> lisp_object \<Rightarrow> lisp_object \<Rightarrow> lisp_object \<Rightarrow> lisp_heap \<Rightarrow> lisp_object lresult option" where
  "Flax_plist_get other lax_plist property dflt h =
     lbind (external_plist_get other property True ERROR_ME (lax_plist, h)) (\<lambda>(val, _).
       Some (Inr (if UNBOUNDP val then dflt else val)))"

definition Flax_plist_put ::
    "(nat \<Rightarrow> equality) \<Rightarrow> lisp_object \<Rightarrow> lisp_object \<Rightarrow> lisp_object \<Rightarrow> lisp_heap \<Rightarrow> pstate lresult option" where
  "Flax_plist_put other lax_plist property val h =
     external_plist_put other property val True ERROR_ME (lax_plist, h)"

definition Flax_plist_remprop ::
    "(nat \<Rightarrow> equality) \<Rightarrow> lisp_object \<Rightarrow> lisp_object \<Rightarrow> lisp_heap \<Rightarrow> pstate lresult option" where
  "Flax_plist_remprop other lax_plist property h =
     lbind (external_remprop other Plist_var property True ERROR_ME (lax_plist, h)) (\<lambda>(_, s). Some (Inr s))"

definition Flax_plist_member ::
    "(nat \<Rightarrow> equality) \<Rightarrow> lisp_object \<Rightarrow> lisp_object \<Rightarrow> lisp_heap \<Rightarrow> lisp_object lresult option" where
  "Flax_plist_member other lax_plist property h =
     lbind (Flax_plist_get other lax_plist property Qunbound h) (\<lambda>val.
       Some (Inr (if UNBOUNDP val then Qnil else Qt)))"

abbreviation no_test :: test where
  "no_test \<equiv> (\<lambda>h x. Some (Inr False))"

text \<open>
  \<open>check-valid-plist\<close> starts over when the pointers cannot be advanced, but with \<open>ERROR_ME\<close> an
  error is signalled instead.
\<close>

definition Fcheck_valid_plist :: "lisp_object \<Rightarrow> lisp_heap \<Rightarrow> lisp_object lresult option" where
  "Fcheck_valid_plist plist h =
     lbind (plist_march ERROR_ME no_test (plist, h) Plist_var Plist_var Plist_var) (\<lambda>_. Some (Inr Qnil))"

definition Fvalid_plist_p :: "lisp_object \<Rightarrow> lisp_heap \<Rightarrow> lisp_object lresult option" where
  "Fvalid_plist_p plist h =
     lbind (plist_march ERROR_ME_NOT no_test (plist, h) Plist_var Plist_var Plist_var) (\<lambda>m.
       Some (Inr (case m of March_bad _ _ \<Rightarrow> Qnil | _ \<Rightarrow> Qt)))"

text \<open>The inner loop of \<open>canonicalize-plist\<close> removes every later entry of a property.\<close>

partial_function (option) remprop_all ::
    "(nat \<Rightarrow> equality) \<Rightarrow> place \<Rightarrow> lisp_object \<Rightarrow> bool \<Rightarrow> pstate \<Rightarrow> pstate lresult option" where
  "remprop_all other start property laxp s =
     lbind (external_remprop other start property laxp ERROR_ME s) (\<lambda>(b, s').
       if b then remprop_all other start property laxp s' else Some (Inr s'))"

declare remprop_all.simps [code]

partial_function (option) canonicalize_loop ::
    "(nat \<Rightarrow> equality) \<Rightarrow> bool \<Rightarrow> lisp_object \<Rightarrow> lisp_object \<Rightarrow> lisp_object \<Rightarrow> lisp_heap \<Rightarrow> pstate lresult option" where
  "canonicalize_loop other laxp nil_means_not_present head plist h =
     (if NILP plist then Some (Inr (head, h))
      else lbind (Some (Fcar h plist)) (\<lambda>prop.
           lbind (Some (Fcdr h plist)) (\<lambda>nxt.
             if \<not> CONSP nxt then Some (Inl (Wrong_type_argument ''consp'' nxt))
             else if \<not> NILP nil_means_not_present \<and> NILP (XCAR h nxt)
             then let plist' = XCDR h nxt
                  in canonicalize_loop other laxp nil_means_not_present
                       (if EQ head plist then plist' else head) plist' h
             else lbind (remprop_all other (cdr_place (nxt, h) Plist_var) prop laxp (nxt, h)) (\<lambda>(_, h').
                    canonicalize_loop other laxp nil_means_not_present head (XCDR h' nxt) h'))))"

declare canonicalize_loop.simps [code]

definition Fcanonicalize_plist ::
    "(nat \<Rightarrow> equality) \<Rightarrow> lisp_object \<Rightarrow> lisp_object \<Rightarrow> lisp_heap \<Rightarrow> pstate lresult option" where
  "Fcanonicalize_plist other plist nil_means_not_present h =
     lbind (Fcheck_valid_plist plist h) (\<lambda>_. canonicalize_loop other False nil_means_not_present plist plist h)"

definition Fcanonicalize_lax_plist ::
    "(nat \<Rightarrow> equality) \<Rightarrow> lisp_object \<Rightarrow> lisp_object \<Rightarrow> lisp_heap \<Rightarrow> pstate lresult option" where
  "Fcanonicalize_lax_plist other lax_plist nil_means_not_present h =
     lbind (Fcheck_valid_plist lax_plist h) (\<lambda>_. canonicalize_loop other True nil_means_not_present lax_plist lax_plist h)"

partial_function (option) destructive_alist_to_plist_loop ::
    "lisp_object \<Rightarrow> lisp_object \<Rightarrow> lisp_heap \<Rightarrow> pstate lresult option" where
  "destructive_alist_to_plist_loop head alist h =
     (if NILP alist then Some (Inr (head, h))
      else lbind (Some (Fcar h alist)) (\<lambda>el.
           lbind (Some (Fcar h el)) (\<lambda>prop.
           lbind (Some (Fsetcar alist prop h)) (\<lambda>(_, h1).
           lbind (Some (Fcdr h1 el)) (\<lambda>val.
           lbind (Some (Fsetcar el val h1)) (\<lambda>(_, h2).
           lbind (Some (Fcdr h2 alist)) (\<lambda>rest.
           lbind (Some (Fsetcdr el rest h2)) (\<lambda>(_, h3).
           lbind (Some (Fsetcdr alist el h3)) (\<lambda>(_, h4).
           lbind (Some (Fcddr h4 alist)) (\<lambda>alist'.
             destructive_alist_to_plist_loop head alist' h4))))))))))"

declare destructive_alist_to_plist_loop.simps [code]

definition Fdestructive_alist_to_plist :: "lisp_object \<Rightarrow> lisp_heap \<Rightarrow> pstate lresult option" where
  "Fdestructive_alist_to_plist alist h = destructive_alist_to_plist_loop alist alist h"


section \<open>Positions of the pointers\<close>

definition place_at :: "lisp_heap \<Rightarrow> lisp_object \<Rightarrow> nat \<Rightarrow> place" where
  "place_at h x j = (if j = 0 then Plist_var
     else case cdrn h x (j - 1) of Lisp_Cons a \<Rightarrow> Cdr_of a | _ \<Rightarrow> undefined)"

lemma place_at_0 [simp]: "place_at h x 0 = Plist_var"
  by (simp add: place_at_def)

lemma deref_place_at: "\<forall>i < j. CONSP (cdrn h x i) \<Longrightarrow> deref (x, h) (place_at h x j) = cdrn h x j"
  by (cases j) (force simp: place_at_def CONSP_iff)+

lemma cdr_place_at: "\<forall>i \<le> j. CONSP (cdrn h x i) \<Longrightarrow> cdr_place (x, h) (place_at h x j) = place_at h x (Suc j)"
  using deref_place_at [of j h x] by (force simp: cdr_place_def place_at_def CONSP_iff)

lemma advance_hare_at:
  assumes "\<forall>i < k. CONSP (cdrn h x i)"
  shows "advance_hare (x, h) (place_at h x k) =
    (if NILP (cdrn h x k) then Some (place_at h x k)
     else if CONSP (cdrn h x k) \<and> CONSP (cdrn h x (Suc k)) then Some (place_at h x (Suc (Suc k))) else None)"
proof (cases "CONSP (cdrn h x k)")
  case True
  then have c: "\<forall>i \<le> k. CONSP (cdrn h x i)" using assms by (metis le_neq_implies_less)
  then have d: "deref (x, h) (place_at h x (Suc k)) = cdrn h x (Suc k)" by (intro deref_place_at) (auto simp: less_Suc_eq_le)
  show ?thesis
  proof (cases "CONSP (cdrn h x (Suc k))")
    case True
    then have "\<forall>i \<le> Suc k. CONSP (cdrn h x i)" using c by (auto simp: le_Suc_eq)
    from cdr_place_at [OF this] show ?thesis
      using True \<open>CONSP (cdrn h x k)\<close> deref_place_at [OF assms] cdr_place_at [OF c] d
      by (auto simp: advance_hare_def)
  next
    case False
    then show ?thesis using \<open>CONSP (cdrn h x k)\<close> deref_place_at [OF assms] cdr_place_at [OF c] d
      by (auto simp: advance_hare_def)
  qed
next
  case False
  then show ?thesis using deref_place_at [OF assms] by (auto simp: advance_hare_def)
qed

text \<open>A round with the hare at an arbitrary place beyond the tortoise.\<close>

lemma advance_round_ok:
  assumes "\<forall>i \<le> j. CONSP (cdrn h x i)" and "\<forall>i < k. CONSP (cdrn h x i)" and "j < k \<or> k = 0"
    and "k' = (if NILP (cdrn h x k) then k else Suc (Suc k))"
    and "\<forall>i < k'. CONSP (cdrn h x i)" and "NILP (cdrn h x k') \<or> cdrn h x (Suc j) \<noteq> cdrn h x k'"
  shows "advance_round errb (x, h) pl ts (place_at h x j) (place_at h x k) =
    Inr (Inr (place_at h x (Suc j), place_at h x k'))"
proof -
  have "advance_hare (x, h) (place_at h x k) = Some (place_at h x k')"
    using advance_hare_at [OF assms(2)] assms(4,5) by (auto split: if_splits)
  moreover have "deref (x, h) (place_at h x k') = cdrn h x k'" by (rule deref_place_at [OF assms(5)])
  moreover have "deref (x, h) (place_at h x (Suc j)) = cdrn h x (Suc j)"
    using assms(1) by (intro deref_place_at) (auto simp: less_Suc_eq_le)
  ultimately show ?thesis using cdr_place_at [OF assms(1)] assms(6)
    by (auto simp: advance_round_def)
qed

section \<open>Valid property lists\<close>

text \<open>The place of the first property that satisfies a predicate, from position \<open>j\<close> on.\<close>

fun plist_pos :: "(lisp_object \<Rightarrow> bool) \<Rightarrow> nat \<Rightarrow> lisp_object list \<Rightarrow> nat option" where
  "plist_pos P j (k # v # es) = (if P k then Some j else plist_pos P (j + 2) es)"
| "plist_pos P j _ = None"

definition hare_at :: "nat \<Rightarrow> nat \<Rightarrow> nat" where
  "hare_at len j = min (2 * j) len"

lemma round_valid:
  assumes p: "proper_list h x as" and "even (length as)" and "j < length as"
  shows "advance_round errb (x, h) pl ts (place_at h x j) (place_at h x (hare_at (length as) j)) =
    Inr (Inr (place_at h x (Suc j), place_at h x (hare_at (length as) (Suc j))))"
proof -
  let ?L = "length as"
  have path: "lpath h x as Qnil" "\<not> CONSP Qnil" using p by (simp_all add: proper_list_def)
  have c: "CONSP (cdrn h x i)" if "i < ?L" for i using lpath_cdrn_nth [OF path(1) that] by simp
  have e: "cdrn h x ?L = Qnil" using lpath_cdrn [OF path(1)] .
  have nil: "NILP (cdrn h x i) \<longleftrightarrow> i = ?L" if "i \<le> ?L" for i
    using e lpath_cdrn_nth [OF path(1), of i] that by (cases "i = ?L") auto
  have le: "hare_at ?L j \<le> ?L" "hare_at ?L (Suc j) \<le> ?L" by (simp_all add: hare_at_def)
  show ?thesis
  proof (rule advance_round_ok)
    show "hare_at ?L (Suc j) = (if NILP (cdrn h x (hare_at ?L j)) then hare_at ?L j else Suc (Suc (hare_at ?L j)))"
      using nil [OF le(1)] assms(2) unfolding hare_at_def by (auto simp: min_def)
    show "NILP (cdrn h x (hare_at ?L (Suc j))) \<or> cdrn h x (Suc j) \<noteq> cdrn h x (hare_at ?L (Suc j))"
    proof (cases "hare_at ?L (Suc j) = ?L")
      case True
      then show ?thesis using e by simp
    next
      case False
      then have "Suc j < hare_at ?L (Suc j)" by (auto simp: hare_at_def min_def split: if_splits)
      then show ?thesis using path_positions_distinct [OF path _ le(2)] by metis
    qed
  qed (use c assms(3) in \<open>auto simp: hare_at_def\<close>)
qed

lemma march_valid:
  assumes p: "proper_list h x as" and "even (length as)" and tst: "\<And>e. tst h e = Some (Inr (P e))"
    and "even j" and "j \<le> length as"
  shows "plist_march errb tst (x, h) pl (place_at h x j) (place_at h x (hare_at (length as) j)) =
    Some (Inr (case plist_pos P j (drop j (elements h as)) of
                 None \<Rightarrow> March_end | Some i \<Rightarrow> March_found (place_at h x i)))"
  using assms(4,5)
proof (induction "length as - j" arbitrary: j rule: less_induct)
  case less
  let ?L = "length as"
  have path: "lpath h x as Qnil" using p by (simp add: proper_list_def)
  have d: "deref (x, h) (place_at h x j) = cdrn h x j"
    using lpath_cdrn_nth [OF path] less.prems(2) by (intro deref_place_at) simp
  show ?case
  proof (cases "j = ?L")
    case True
    then show ?thesis using d lpath_cdrn [OF path] by (simp add: plist_march.simps [of errb tst])
  next
    case False
    then have j: "j < ?L" "Suc j < ?L" using less.prems assms(2) by (simp, presburger)
    then have "cdrn h x j = Lisp_Cons (as ! j)" using lpath_cdrn_nth [OF path] by simp
    moreover have "advance_plist_pointers errb (x, h) pl (place_at h x j) (place_at h x (hare_at ?L j)) =
        Inr (Inr (place_at h x (Suc (Suc j)), place_at h x (hare_at ?L (Suc (Suc j)))))"
      using round_valid [OF p assms(2) j(1)] round_valid [OF p assms(2) j(2)]
      by (simp add: advance_plist_pointers_def)
    moreover have "drop j (elements h as) = hcar h (as ! j) # hcar h (as ! Suc j) # drop (Suc (Suc j)) (elements h as)"
      using j by (simp add: Cons_nth_drop_Suc [symmetric] elements_def)
    moreover have "plist_march errb tst (x, h) pl (place_at h x (Suc (Suc j))) (place_at h x (hare_at ?L (Suc (Suc j)))) =
        Some (Inr (case plist_pos P (Suc (Suc j)) (drop (Suc (Suc j)) (elements h as)) of
                 None \<Rightarrow> March_end | Some i \<Rightarrow> March_found (place_at h x i)))"
      using j less.prems by (intro less.hyps) auto
    ultimately show ?thesis using d tst by (subst plist_march.simps) simp
  qed
qed


section \<open>Bad property lists\<close>

text \<open>What the functions do with a bad list: signal an error or return the unbound marker.\<close>

definition bad_outcome :: "error_behavior \<Rightarrow> march lresult option \<Rightarrow> bool" where
  "bad_outcome errb r \<longleftrightarrow>
     (case errb of ERROR_ME \<Rightarrow> \<exists>e. r = Some (Inl e) | _ \<Rightarrow> \<exists>s. r = Some (Inr (March_bad Qunbound s)))"

lemma bad_advance_outcome:
  assumes "advance_plist_pointers errb s pl t hr = map_sum id Inl (bad_bad_bunny errb s pl p) \<or>
           advance_plist_pointers errb s pl t hr = map_sum id Inl (bad_bad_turtle errb s pl p)"
    and "\<not> NILP (deref s t)"
  shows "bad_outcome errb (plist_march errb tst s pl t hr)"
  using assms
  by (subst plist_march.simps) (cases errb; auto simp: bad_bad_bunny_def bad_bad_turtle_def bad_outcome_def)

text \<open>
  A list that is not a proper list of even length: as long as the hare, at twice the tortoise's
  position, has only seen conses, it has not reached the end.
\<close>

definition bad_plist :: "lisp_heap \<Rightarrow> lisp_object \<Rightarrow> bool" where
  "bad_plist h x \<longleftrightarrow> \<not> (\<exists>as. proper_list h x as \<and> even (length as))"

lemma conses_path:
  assumes "\<forall>i < n. CONSP (cdrn h x i)"
  shows "\<exists>as. lpath h x as (cdrn h x n) \<and> length as = n"
  using assms
proof (induction n)
  case (Suc n)
  then obtain as where as: "lpath h x as (cdrn h x n)" "length as = n" by auto
  obtain a where "cdrn h x n = Lisp_Cons a" using Suc.prems by (auto simp: CONSP_iff)
  with as have "lpath h x (as @ [a]) (cdrn h x (Suc n))" by (simp add: lpath_append)
  with as(2) show ?case by (intro exI [of _ "as @ [a]"]) simp
qed simp

lemma bad_plist_no_end:
  assumes "bad_plist h x" and "\<forall>i < 2 * j. CONSP (cdrn h x i)"
  shows "\<not> NILP (cdrn h x (2 * j))"
  using conses_path [OF assms(2)] assms(1) by (auto simp: bad_plist_def proper_list_def)

lemma round_bad:
  assumes bad: "bad_plist h x" and c: "\<forall>i < 2 * j. CONSP (cdrn h x i)"
  shows "(\<forall>i < 2 * Suc j. CONSP (cdrn h x i)) \<and> cdrn h x (Suc j) \<noteq> cdrn h x (2 * Suc j) \<and>
      advance_round errb (x, h) pl ts (place_at h x j) (place_at h x (2 * j)) =
        Inr (Inr (place_at h x (Suc j), place_at h x (2 * Suc j))) \<or>
    advance_round errb (x, h) pl ts (place_at h x j) (place_at h x (2 * j)) =
      map_sum id Inl (bad_bad_bunny errb (x, h) pl (place_at h x (2 * j))) \<or>
    advance_round errb (x, h) pl ts (place_at h x j) (place_at h x (2 * j)) =
      map_sum id Inl (bad_bad_turtle errb (x, h) pl ts)"
proof (cases "CONSP (cdrn h x (2 * j)) \<and> CONSP (cdrn h x (Suc (2 * j)))")
  case False
  then show ?thesis using advance_hare_at [OF c] bad_plist_no_end [OF bad c]
    by (auto simp: advance_round_def)
next
  case True
  then have c': "\<forall>i < 2 * Suc j. CONSP (cdrn h x i)" using c by (auto simp: less_Suc_eq)
  have tj: "\<forall>i \<le> j. CONSP (cdrn h x i)" using c' by simp
  show ?thesis
  proof (cases "cdrn h x (Suc j) = cdrn h x (2 * Suc j)")
    case False
    then show ?thesis
      using advance_round_ok [of j h x "2 * j" "2 * Suc j" errb pl ts] c c' tj bad_plist_no_end [OF bad c] by auto
  next
    case True
    have "advance_hare (x, h) (place_at h x (2 * j)) = Some (place_at h x (2 * Suc j))"
      using advance_hare_at [OF c] bad_plist_no_end [OF bad c] \<open>CONSP (cdrn h x (2 * j)) \<and> _\<close> by simp
    moreover have "deref (x, h) (place_at h x (2 * Suc j)) = cdrn h x (2 * Suc j)" by (rule deref_place_at [OF c'])
    moreover have "deref (x, h) (place_at h x (Suc j)) = cdrn h x (Suc j)"
      using tj by (intro deref_place_at) (auto simp: less_Suc_eq_le)
    ultimately show ?thesis
      using True cdr_place_at [OF tj] bad_plist_no_end [OF bad c'] by (simp add: advance_round_def)
  qed
qed


definition good_so_far :: "lisp_heap \<Rightarrow> lisp_object \<Rightarrow> nat \<Rightarrow> bool" where
  "good_so_far h x j \<longleftrightarrow> (\<forall>i < 2 * j. CONSP (cdrn h x i)) \<and> (\<forall>k \<le> j. 0 < k \<longrightarrow> cdrn h x k \<noteq> cdrn h x (2 * k))"

lemma good_so_far_ends:
  assumes "heap_ok h" and "obj_ok h x"
  shows "\<exists>n. \<forall>j \<ge> n. \<not> good_so_far h x j"
proof (cases "circular h x")
  case True
  obtain c i where "0 < c" "cdrn h x (i + c) = cdrn h x i"
    using circular_repeats [OF assms True] by metis
  then obtain m where "0 < m" "cdrn h x (2 * m) = cdrn h x m"
    using meet_offset [of c h x i 0] by auto
  then have "\<forall>j \<ge> m. \<not> good_so_far h x j" by (auto simp: good_so_far_def)
  then show ?thesis ..
next
  case False
  then obtain as y where p: "lpath h x as y" "\<not> CONSP y" using path_or_circular by blast
  have "\<forall>j \<ge> Suc (length as). \<not> good_so_far h x j"
    using lpath_cdrn [OF p(1)] p(2) by (force simp: good_so_far_def)
  then show ?thesis ..
qed

lemma march_bad:
  assumes "bad_plist h x" and ends: "\<forall>j \<ge> n. \<not> good_so_far h x j" and "good_so_far h x j"
  shows "bad_outcome errb (plist_march errb no_test (x, h) pl (place_at h x j) (place_at h x (2 * j)))"
  using assms(3)
proof (induction "n - j" arbitrary: j rule: less_induct)
  case less
  have c: "\<forall>i < 2 * j. CONSP (cdrn h x i)" using less.prems by (simp add: good_so_far_def)
  have d: "deref (x, h) (place_at h x j) = cdrn h x j" using c by (intro deref_place_at) simp
  have nn: "\<not> NILP (deref (x, h) (place_at h x j))"
  proof (cases j)
    case 0
    then show ?thesis using assms(1) by (auto simp: bad_plist_def)
  next
    case (Suc k)
    then have "j < 2 * j" by simp
    then have "CONSP (cdrn h x j)" using c by blast
    then show ?thesis using d by auto
  qed
  show ?case
  proof (cases "\<exists>p. advance_plist_pointers errb (x, h) pl (place_at h x j) (place_at h x (2 * j)) =
          map_sum id Inl (bad_bad_bunny errb (x, h) pl p) \<or>
        advance_plist_pointers errb (x, h) pl (place_at h x j) (place_at h x (2 * j)) =
          map_sum id Inl (bad_bad_turtle errb (x, h) pl p)")
    case True
    then show ?thesis using bad_advance_outcome nn by blast
  next
    case False
    have not_bad: "map_sum id Inl (bad_bad_bunny errb s q p) \<noteq> Inr (Inr z)"
      "map_sum id Inl (bad_bad_turtle errb s q p) \<noteq> Inr (Inr z)" for s q p and z :: "place \<times> place"
      by (cases errb; simp add: bad_bad_bunny_def bad_bad_turtle_def)+
    from round_bad [OF assms(1) c, of errb pl "place_at h x j"] False
    have r1: "\<forall>i < 2 * Suc j. CONSP (cdrn h x i)" "cdrn h x (Suc j) \<noteq> cdrn h x (2 * Suc j)"
      "advance_round errb (x, h) pl (place_at h x j) (place_at h x j) (place_at h x (2 * j)) =
         Inr (Inr (place_at h x (Suc j), place_at h x (2 * Suc j)))"
      by (cases errb; force simp: advance_plist_pointers_def bad_bad_bunny_def bad_bad_turtle_def)+
    from round_bad [OF assms(1) r1(1), of errb pl "place_at h x j"] False r1(3)
    have r2: "\<forall>i < 2 * Suc (Suc j). CONSP (cdrn h x i)" "cdrn h x (Suc (Suc j)) \<noteq> cdrn h x (2 * Suc (Suc j))"
      "advance_plist_pointers errb (x, h) pl (place_at h x j) (place_at h x (2 * j)) =
         Inr (Inr (place_at h x (Suc (Suc j)), place_at h x (2 * Suc (Suc j))))"
      by (auto simp: advance_plist_pointers_def)
    have good: "good_so_far h x (Suc (Suc j))"
      using less.prems r1(2) r2(1,2) by (auto simp: good_so_far_def le_Suc_eq)
    moreover have "n - Suc (Suc j) < n - j" using ends less.prems by (metis diff_less_mono2 lessI less_SucI not_le)
    ultimately have "bad_outcome errb (plist_march errb no_test (x, h) pl (place_at h x (Suc (Suc j))) (place_at h x (2 * Suc (Suc j))))"
      by (intro less.hyps)
    then show ?thesis using nn r2(3) by (subst plist_march.simps) simp
  qed
qed

text \<open>
  \<open>valid-plist-p\<close> returns on every object, also on circular lists, and is true
  exactly of the proper lists of even length; \<open>check-valid-plist\<close> signals an error on all others.
\<close>

theorem Fvalid_plist_p_total:
  assumes "heap_ok h" and "obj_ok h x"
  shows "if \<exists>as. proper_list h x as \<and> even (length as)
    then Fvalid_plist_p x h = Some (Inr Qt) \<and> Fcheck_valid_plist x h = Some (Inr Qnil)
    else Fvalid_plist_p x h = Some (Inr Qnil) \<and> (\<exists>e. Fcheck_valid_plist x h = Some (Inl e))"
proof (cases "bad_plist h x")
  case True
  obtain n where n: "\<forall>j \<ge> n. \<not> good_so_far h x j" using good_so_far_ends [OF assms] by blast
  have "good_so_far h x 0" by (simp add: good_so_far_def)
  from march_bad [OF True n this, of _ Plist_var]
  have "bad_outcome errb (plist_march errb no_test (x, h) Plist_var Plist_var Plist_var)" for errb by simp
  from this [of ERROR_ME] this [of ERROR_ME_NOT] show ?thesis using True
    by (auto simp: bad_outcome_def Fvalid_plist_p_def Fcheck_valid_plist_def bad_plist_def)
next
  case False
  then obtain as where as: "proper_list h x as" "even (length as)" by (auto simp: bad_plist_def)
  have "plist_pos (\<lambda>_. False) j es = None" for j es by (induction "\<lambda>_::lisp_object. False" j es rule: plist_pos.induct) auto
  then have "plist_march errb no_test (x, h) Plist_var Plist_var Plist_var = Some (Inr March_end)" for errb
    using march_valid [OF as, of no_test "\<lambda>_. False" 0 errb Plist_var] by (simp add: hare_at_def)
  then show ?thesis using as by (auto simp: Fvalid_plist_p_def Fcheck_valid_plist_def)
qed

theorem Fvalid_plist_p_total_witness:
  "Fvalid_plist_p (Lisp_Cons 4) sample_heap = Some (Inr Qnil) \<and> (\<exists>e. Fcheck_valid_plist (Lisp_Cons 4) sample_heap = Some (Inl e))"
proof -
  have "\<not> (\<exists>as. proper_list sample_heap (Lisp_Cons 4) as \<and> even (length as))"
    using sample_circular proper_not_circular by blast
  with Fvalid_plist_p_total [of sample_heap "Lisp_Cons 4"] show ?thesis by simp
qed


section \<open>Property lists as maps\<close>

fun plist_alist :: "'a list \<Rightarrow> ('a \<times> 'a) list" where
  "plist_alist (k # v # es) = (k, v) # plist_alist es"
| "plist_alist _ = []"

definition plist_map :: "lisp_heap \<Rightarrow> nat list \<Rightarrow> lisp_object \<Rightarrow> lisp_object option" where
  "plist_map h as = map_of (plist_alist (elements h as))"

abbreviation valid_plist :: "lisp_heap \<Rightarrow> lisp_object \<Rightarrow> nat list \<Rightarrow> bool" where
  "valid_plist h x as \<equiv> proper_list h x as \<and> even (length as)"

lemma plist_pos_Some:
  assumes "plist_pos (\<lambda>k. k = prop) j es = Some i"
  shows "\<exists>d. i = j + d \<and> Suc d < length es \<and> even d \<and> map_of (plist_alist es) prop = Some (es ! Suc d) \<and>
    map_of (plist_alist (es[Suc d := v])) = (map_of (plist_alist es))(prop \<mapsto> v)"
  using assms
proof (induction "\<lambda>k. k = prop" j es rule: plist_pos.induct)
  case (1 j k w es)
  show ?case
  proof (cases "k = prop")
    case True
    then show ?thesis using 1(2) by (intro exI [of _ 0]) auto
  next
    case False
    with 1 obtain d where d: "i = j + 2 + d" "Suc d < length es" "even d"
      "map_of (plist_alist es) prop = Some (es ! Suc d)"
      "map_of (plist_alist (es[Suc d := v])) = (map_of (plist_alist es))(prop \<mapsto> v)" by auto
    then show ?thesis using False by (intro exI [of _ "Suc (Suc d)"]) (auto simp: fun_upd_twist)
  qed
qed auto

lemma plist_pos_None:
  "plist_pos (\<lambda>k. k = prop) j es = None \<Longrightarrow> map_of (plist_alist es) prop = None"
  by (induction "\<lambda>k. k = prop" j es rule: plist_pos.induct) (auto split: if_splits)

lemma march_property:
  assumes "valid_plist h x as"
  shows "plist_march errb (property_test other False prop) (x, h) Plist_var Plist_var Plist_var =
    Some (Inr (case plist_pos (\<lambda>k. k = prop) 0 (elements h as) of
                 None \<Rightarrow> March_end | Some i \<Rightarrow> March_found (place_at h x i)))"
  using march_valid [of h x as "property_test other False prop" "\<lambda>k. k = prop" 0 errb Plist_var] assms
  by (simp add: property_test_def hare_at_def)

lemma deref_found:
  assumes "valid_plist h x as" and "Suc d < length as"
  shows "deref (x, h) (place_at h x d) = Lisp_Cons (as ! d)" and "XCDR h (Lisp_Cons (as ! d)) = Lisp_Cons (as ! Suc d)"
proof -
  have path: "lpath h x as Qnil" using assms(1) by (simp add: proper_list_def)
  have c: "cdrn h x i = Lisp_Cons (as ! i)" if "i < length as" for i by (rule lpath_cdrn_nth [OF path that])
  show "deref (x, h) (place_at h x d) = Lisp_Cons (as ! d)"
    using deref_place_at [of d h x] c assms(2) by simp
  show "XCDR h (Lisp_Cons (as ! d)) = Lisp_Cons (as ! Suc d)"
    using c [of d] c [of "Suc d"] assms(2) by simp
qed

text \<open>
  \<open>plist-get\<close> on a valid property list returns the value of the first entry of the
  property, or the default.
\<close>

theorem Fplist_get_map:
  assumes "proper_list h x as" and "even (length as)"
  shows "Fplist_get other x prop dflt h =
    Some (Inr (case plist_map h as prop of None \<Rightarrow> dflt | Some v \<Rightarrow> if UNBOUNDP v then dflt else v))"
proof -
  have valid: "valid_plist h x as" using assms by simp
  show ?thesis
  proof (cases "plist_pos (\<lambda>k. k = prop) 0 (elements h as)")
    case None
    then show ?thesis using march_property [OF valid] plist_pos_None [OF None]
      by (simp add: Fplist_get_def external_plist_get_def plist_map_def)
  next
    case (Some i)
    from plist_pos_Some [OF Some] have i: "Suc i < length as"
      "map_of (plist_alist (elements h as)) prop = Some (elements h as ! Suc i)" by auto
    then show ?thesis using march_property [OF valid] deref_found [OF valid i(1)] Some
      by (simp add: Fplist_get_def external_plist_get_def plist_map_def elements_def)
  qed
qed

theorem Fplist_get_map_witness:
  "Fplist_get (\<lambda>_ _ _. None) (Lisp_Cons 1) (Lisp_Int 2) Qt sample_heap = Some (Inr (Lisp_Int 3))"
  using Fplist_get_map [of sample_heap "Lisp_Cons 1" "[1, 2]" "\<lambda>_ _ _. None" "Lisp_Int 2" Qt]
  by (simp add: plist_map_def)

text \<open>
  Property C30: \<open>plist-put\<close> on a valid property list returns a valid property list that maps the
  property to the value and every other property as before.
\<close>

theorem Fplist_put_map:
  assumes "proper_list h x as" and "even (length as)" and "\<forall>a \<in> set as. a < hnext h"
  shows "\<exists>y h' bs. Fplist_put other x prop v h = Some (Inr (y, h')) \<and> proper_list h' y bs \<and> even (length bs) \<and>
    plist_map h' bs = (plist_map h as)(prop \<mapsto> v)"
proof -
  have valid: "valid_plist h x as" using assms by simp
  show ?thesis
  proof (cases "plist_pos (\<lambda>k. k = prop) 0 (elements h as)")
    case (Some i)
    from plist_pos_Some [OF Some, of v] have i: "Suc i < length as"
      "map_of (plist_alist ((elements h as)[Suc i := v])) = (map_of (plist_alist (elements h as)))(prop \<mapsto> v)" by auto
    let ?h = "h\<lparr>hcar := (hcar h)(as ! Suc i := v)\<rparr>"
    have "Fplist_put other x prop v h = Some (Inr (x, ?h))"
      using march_property [OF valid] deref_found [OF valid i(1)] Some
      by (simp add: Fplist_put_def external_plist_put_def)
    moreover have "elements ?h as = (elements h as)[Suc i := v]"
      using i(1) proper_list_distinct [OF assms(1)]
      by (auto simp: elements_def list_eq_iff_nth_eq nth_list_update nth_eq_iff_index_eq)
    moreover have "proper_list ?h x as" using assms(1) by (simp add: proper_list_def)
    ultimately show ?thesis using i(2) assms(2) by (intro exI [of _ x] exI [of _ ?h] exI [of _ as]) (simp add: plist_map_def)
  next
    case None
    let ?n = "hnext h"
    obtain c h1 where c: "Fcons v x h = (c, h1)" by fastforce
    obtain d h2 where d: "Fcons prop c h1 = (d, h2)" by fastforce
    have put: "Fplist_put other x prop v h = Some (Inr (d, h2))"
      using march_property [OF valid] None c d by (simp add: Fplist_put_def external_plist_put_def)
    have h2: "d = Lisp_Cons (Suc ?n)" "hcar h2 = (hcar h)(?n := v, Suc ?n := prop)"
      "hcdr h2 = (hcdr h)(?n := x, Suc ?n := Lisp_Cons ?n)"
      using c d by (auto simp: Fcons_def)
    have ne: "\<forall>a \<in> set as. a \<noteq> ?n \<and> a \<noteq> Suc ?n" using assms(3) by fastforce
    then have "lpath h2 x as Qnil = lpath h x as Qnil" by (intro lpath_cong) (auto simp: h2)
    moreover have "elements h2 as = elements h as" using ne by (auto simp: elements_def h2)
    ultimately have "proper_list h2 d (Suc ?n # ?n # as)" "plist_map h2 (Suc ?n # ?n # as) = (plist_map h as)(prop \<mapsto> v)"
      using assms(1) h2 by (auto simp: proper_list_def plist_map_def)
    with put assms(2) show ?thesis by (intro exI [of _ d] exI [of _ h2] exI [of _ "Suc ?n # ?n # as"]) simp
  qed
qed

theorem Fplist_put_map_witness:
  "\<exists>y h' bs. Fplist_put (\<lambda>_ _ _. None) (Lisp_Cons 1) Qt (Lisp_Int 7) sample_heap = Some (Inr (y, h')) \<and>
     proper_list h' y bs \<and> even (length bs) \<and> plist_map h' bs = [Lisp_Int 2 \<mapsto> Lisp_Int 3, Qt \<mapsto> Lisp_Int 7]"
  using Fplist_put_map [of sample_heap "Lisp_Cons 1" "[1, 2]" "\<lambda>_ _ _. None" Qt "Lisp_Int 7"]
  by (simp add: plist_map_def)

section \<open>A value that is not removed\<close>

text \<open>The property list \<open>(1 2 t nil)\<close>.\<close>

definition nil_valued_heap :: lisp_heap where
  "nil_valued_heap = empty_heap\<lparr>
     hcar := (\<lambda>a. [Lisp_Int 1, Lisp_Int 2, Qt, Qnil] ! a),
     hcdr := (\<lambda>a. [Lisp_Cons 1, Lisp_Cons 2, Lisp_Cons 3, Qnil] ! a),
     hnext := 4\<rparr>"

text \<open>
  \<open>canonicalize-plist\<close> asked to remove properties with a nil value returns the list
  \<open>(1 2 t nil)\<close> as it is: an entry that is not the first is stepped over but not unlinked.
\<close>

theorem Fcanonicalize_plist_keeps_nil:
  "case Fcanonicalize_plist (\<lambda>_ _ _. None) (Lisp_Cons 0) Qt nil_valued_heap of
     Some (Inr (y, h')) \<Rightarrow> y = Lisp_Cons 0 \<and> proper_list h' y [0, 1, 2, 3] \<and> elements h' [0, 1, 2, 3] = [Lisp_Int 1, Lisp_Int 2, Qt, Qnil]
   | _ \<Rightarrow> False"
  by code_simp

end
