(* ===== verification/HashTable.thy ===== *)
theory HashTable
  imports Equal
begin

text \<open>
  Lisp hash tables (\<open>src/src/elhash.c\<close>): open addressing with linear probing in an array of
  \<open>size + 1\<close> slots, the last of which is a sentinel that is never occupied. A slot is clear
  (\<open>None\<close>) or holds a key and a value. The functions a table calls through its pointers,
  \<open>hash_function\<close> and \<open>test_function\<close>, are the arguments \<open>hsh\<close> and \<open>tst\<close> of the operations. A test
  may signal an error or not return, and then so does the operation that called it.
  Doubles are taken as real numbers.
\<close>

section \<open>Data\<close>

datatype hash_table_weakness =
    HASH_TABLE_NON_WEAK
  | HASH_TABLE_KEY_WEAK
  | HASH_TABLE_VALUE_WEAK
  | HASH_TABLE_KEY_VALUE_WEAK
  | HASH_TABLE_KEY_CAR_WEAK
  | HASH_TABLE_VALUE_CAR_WEAK
  | HASH_TABLE_KEY_CAR_VALUE_WEAK
  | HASH_TABLE_WEAK

datatype hash_table_test = HASH_TABLE_EQ | HASH_TABLE_EQL | HASH_TABLE_EQUAL

type_synonym hentry = "lisp_object \<times> lisp_object"

record Lisp_Hash_Table =
  ht_size :: nat
  ht_count :: nat
  rehash_count :: nat
  rehash_size :: real
  rehash_threshold :: real
  golden_ratio :: nat
  ht_test :: hash_table_test
  hentries :: "hentry option list"
  weakness :: hash_table_weakness
  next_weak :: lisp_object

abbreviation HENTRY_CLEAR_P :: "hentry option \<Rightarrow> bool" where
  "HENTRY_CLEAR_P e \<equiv> e = None"

section \<open>Operations\<close>

definition primes :: "nat list" where
  "primes =
    [19, 29, 41, 59, 79, 107, 149, 197, 263, 347, 457, 599, 787, 1031,
     1361, 1777, 2333, 3037, 3967, 5167, 6719, 8737, 11369, 14783,
     19219, 24989, 32491, 42257, 54941, 71429, 92861, 120721, 156941,
     204047, 265271, 344857, 448321, 582821, 757693, 985003, 1280519,
     1664681, 2164111, 2813353, 3657361, 4754591, 6180989, 8035301,
     10445899, 13579681, 17653589, 22949669, 29834603, 38784989,
     50420551, 65546729, 85210757, 110774011, 144006217, 187208107,
     243370577, 316381771, 411296309, 534685237, 695090819, 903618083,
     1174703521, 1527114613, 1985248999, 2580823717, 3355070839]"

text \<open>The binary search for a size.\<close>

function prime_search :: "nat \<Rightarrow> nat \<Rightarrow> nat \<Rightarrow> nat" where
  "prime_search requested_size low high =
     (if high - low > 1
      then let mid = (low + high) div 2
           in if primes ! mid < requested_size
              then prime_search requested_size mid high
              else prime_search requested_size low mid
      else primes ! high)"
  by pat_completeness auto
termination
  by (relation "measure (\<lambda>(r, low, high). high - low)") auto

declare prime_search.simps [simp del]

definition hash_table_size :: "nat \<Rightarrow> nat" where
  "hash_table_size requested_size = prime_search requested_size 0 (length primes - 1)"

text \<open>The cast of a double to \<open>size_t\<close> truncates.\<close>

definition to_size :: "real \<Rightarrow> nat" where
  "to_size x = nat \<lfloor>x\<rfloor>"

definition compute_hash_table_derived_values :: "Lisp_Hash_Table \<Rightarrow> Lisp_Hash_Table" where
  "compute_hash_table_derived_values ht =
     ht\<lparr>rehash_count := to_size (real (ht_size ht) * rehash_threshold ht),
        golden_ratio := to_size (real (ht_size ht) * (0.6180339887 / 8))\<rparr>"

text \<open>
  A table without a test function is an \<open>eq\<close> table. The chain of weak tables is kept apart, see
  \<open>HashTableOps\<close>.
\<close>

definition make_general_lisp_hash_table ::
    "hash_table_test \<Rightarrow> nat \<Rightarrow> real \<Rightarrow> real \<Rightarrow> hash_table_weakness \<Rightarrow> Lisp_Hash_Table" where
  "make_general_lisp_hash_table test sz0 rsize rthreshold weak =
     (let rs = (if rsize > 1 then rsize else 1.3);
          rt = (if rthreshold > 0 then rthreshold
                else if sz0 > 4096 \<and> test = HASH_TABLE_EQ then 0.7 else 0.6);
          sz = (if sz0 < 10 then 10 else sz0);
          tsize = hash_table_size (to_size (real sz / rt + 1));
          ht = \<lparr>ht_size = tsize, ht_count = 0, rehash_count = 0, rehash_size = rs, rehash_threshold = rt,
                golden_ratio = 0, ht_test = test, hentries = replicate (tsize + 1) None,
                weakness = weak, next_weak = Qunbound\<rparr>
      in compute_hash_table_derived_values ht)"

definition HASH_CODE :: "(lisp_object \<Rightarrow> hashcode) \<Rightarrow> Lisp_Hash_Table \<Rightarrow> lisp_object \<Rightarrow> nat" where
  "HASH_CODE hsh ht key = unat (hsh key * of_nat (golden_ratio ht)) mod ht_size ht"

text \<open>
  \<open>LINEAR_PROBING_LOOP\<close> with a body that may leave the loop: the index where it stops. \<open>None\<close>
  is a loop that never meets a clear slot.
\<close>

partial_function (option) probing_loop ::
    "(hentry \<Rightarrow> bool) \<Rightarrow> hentry option list \<Rightarrow> nat \<Rightarrow> nat \<Rightarrow> nat option" where
  "probing_loop stop entries sz probe =
     (case entries ! probe of
        Some e \<Rightarrow> if stop e then Some probe else probing_loop stop entries sz (probe + 1)
      | None \<Rightarrow>
          if probe = sz
          then (case entries ! 0 of
                  Some e \<Rightarrow> if stop e then Some 0 else probing_loop stop entries sz 1
                | None \<Rightarrow> Some 0)
          else Some probe)"

declare probing_loop.simps [code]

definition KEYS_EQUAL_P :: "equality \<Rightarrow> equality" where
  "KEYS_EQUAL_P tst key1 key2 = (if EQ key1 key2 then Some (Inr True) else tst key1 key2)"

text \<open>The same loop with a test that may signal an error or not return.\<close>

partial_function (option) key_probing_loop ::
    "(hentry \<Rightarrow> bool lresult option) \<Rightarrow> hentry option list \<Rightarrow> nat \<Rightarrow> nat \<Rightarrow> nat lresult option" where
  "key_probing_loop stop entries sz probe =
     (case entries ! probe of
        Some e \<Rightarrow> lbind (stop e) (\<lambda>b. if b then Some (Inr probe) else key_probing_loop stop entries sz (probe + 1))
      | None \<Rightarrow>
          if probe = sz
          then (case entries ! 0 of
                  Some e \<Rightarrow> lbind (stop e) (\<lambda>b. if b then Some (Inr 0) else key_probing_loop stop entries sz 1)
                | None \<Rightarrow> Some (Inr 0))
          else Some (Inr probe))"

declare key_probing_loop.simps [code]

definition find_hentry ::
    "(lisp_object \<Rightarrow> hashcode) \<Rightarrow> equality \<Rightarrow> lisp_object \<Rightarrow> Lisp_Hash_Table \<Rightarrow> nat lresult option" where
  "find_hentry hsh tst key ht =
     key_probing_loop (\<lambda>e. KEYS_EQUAL_P tst (fst e) key) (hentries ht) (ht_size ht) (HASH_CODE hsh ht key)"

text \<open>Moving one entry to a new array, and all entries of the old array in turn.\<close>

definition rehash_entry ::
    "(lisp_object \<Rightarrow> hashcode) \<Rightarrow> Lisp_Hash_Table \<Rightarrow> hentry option list \<Rightarrow> hentry \<Rightarrow> hentry option list option" where
  "rehash_entry hsh ht new_entries e =
     map_option (\<lambda>probe. new_entries[probe := Some e])
       (probing_loop (\<lambda>_. False) new_entries (ht_size ht) (HASH_CODE hsh ht (fst e)))"

fun rehash_entries ::
    "(lisp_object \<Rightarrow> hashcode) \<Rightarrow> Lisp_Hash_Table \<Rightarrow> hentry option list \<Rightarrow> hentry option list \<Rightarrow> hentry option list option" where
  "rehash_entries hsh ht new_entries [] = Some new_entries"
| "rehash_entries hsh ht new_entries (None # es) = rehash_entries hsh ht new_entries es"
| "rehash_entries hsh ht new_entries (Some e # es) =
     Option.bind (rehash_entry hsh ht new_entries e) (\<lambda>new'. rehash_entries hsh ht new' es)"

definition resize_hash_table :: "(lisp_object \<Rightarrow> hashcode) \<Rightarrow> Lisp_Hash_Table \<Rightarrow> nat \<Rightarrow> Lisp_Hash_Table option" where
  "resize_hash_table hsh ht new_size =
     (let old_entries = take (ht_size ht) (hentries ht);
          ht1 = compute_hash_table_derived_values (ht\<lparr>ht_size := new_size\<rparr>)
      in map_option (\<lambda>es. ht1\<lparr>hentries := es\<rparr>)
           (rehash_entries hsh ht1 (replicate (new_size + 1) None) old_entries))"

definition pdump_reorganize_hash_table :: "(lisp_object \<Rightarrow> hashcode) \<Rightarrow> Lisp_Hash_Table \<Rightarrow> Lisp_Hash_Table option" where
  "pdump_reorganize_hash_table hsh ht =
     map_option (\<lambda>new_entries. ht\<lparr>hentries := take (ht_size ht) new_entries @ drop (ht_size ht) (hentries ht)\<rparr>)
       (rehash_entries hsh ht (replicate (ht_size ht + 1) None) (take (ht_size ht) (hentries ht)))"

definition enlarge_hash_table :: "(lisp_object \<Rightarrow> hashcode) \<Rightarrow> Lisp_Hash_Table \<Rightarrow> Lisp_Hash_Table option" where
  "enlarge_hash_table hsh ht =
     resize_hash_table hsh ht (hash_table_size (to_size (real (ht_size ht) * rehash_size ht)))"

definition gethash ::
    "(lisp_object \<Rightarrow> hashcode) \<Rightarrow> equality \<Rightarrow> lisp_object \<Rightarrow> Lisp_Hash_Table \<Rightarrow>
     lisp_object \<Rightarrow> lisp_object lresult option" where
  "gethash hsh tst key ht dflt =
     lbind (find_hentry hsh tst key ht) (\<lambda>e.
       Some (Inr (case hentries ht ! e of None \<Rightarrow> dflt | Some (k, v) \<Rightarrow> v)))"

definition puthash ::
    "(lisp_object \<Rightarrow> hashcode) \<Rightarrow> equality \<Rightarrow> lisp_object \<Rightarrow> lisp_object \<Rightarrow>
     Lisp_Hash_Table \<Rightarrow> Lisp_Hash_Table lresult option" where
  "puthash hsh tst key val ht =
     lbind (find_hentry hsh tst key ht) (\<lambda>e.
       case hentries ht ! e of
         Some (k, v) \<Rightarrow> Some (Inr (ht\<lparr>hentries := (hentries ht)[e := Some (k, val)]\<rparr>))
       | None \<Rightarrow>
           let ht1 = ht\<lparr>hentries := (hentries ht)[e := Some (key, val)], ht_count := ht_count ht + 1\<rparr>
           in if ht_count ht1 \<ge> rehash_count ht1 then map_option Inr (enlarge_hash_table hsh ht1)
              else Some (Inr ht1))"

text \<open>
  The outer loop of \<open>remhash_1\<close>: each entry of the rest of the cluster is moved to the first clear
  slot from its hash code on, unless it is found before.
\<close>

definition remhash_move ::
    "(lisp_object \<Rightarrow> hashcode) \<Rightarrow> Lisp_Hash_Table \<Rightarrow> hentry option list \<Rightarrow> nat \<Rightarrow> hentry \<Rightarrow> hentry option list option" where
  "remhash_move hsh ht entries probe e =
     map_option (\<lambda>probe2. case entries ! probe2 of
                   Some _ \<Rightarrow> entries
                 | None \<Rightarrow> entries[probe2 := Some e, probe := None])
       (probing_loop (\<lambda>e2. EQ (fst e2) (fst e)) entries (ht_size ht) (HASH_CODE hsh ht (fst e)))"

partial_function (option) remhash_loop ::
    "(lisp_object \<Rightarrow> hashcode) \<Rightarrow> Lisp_Hash_Table \<Rightarrow> hentry option list \<Rightarrow> nat \<Rightarrow> hentry option list option" where
  "remhash_loop hsh ht entries probe =
     (case entries ! probe of
        Some e \<Rightarrow> Option.bind (remhash_move hsh ht entries probe e) (\<lambda>entries'.
                    remhash_loop hsh ht entries' (probe + 1))
      | None \<Rightarrow>
          if probe = ht_size ht
          then (case entries ! 0 of
                  Some e \<Rightarrow> Option.bind (remhash_move hsh ht entries 0 e) (\<lambda>entries'.
                              remhash_loop hsh ht entries' 1)
                | None \<Rightarrow> Some entries)
          else Some entries)"

declare remhash_loop.simps [code]

definition remhash_1 :: "(lisp_object \<Rightarrow> hashcode) \<Rightarrow> Lisp_Hash_Table \<Rightarrow> nat \<Rightarrow> Lisp_Hash_Table option" where
  "remhash_1 hsh ht probe =
     map_option (\<lambda>es. ht\<lparr>hentries := es, ht_count := ht_count ht - 1\<rparr>)
       (remhash_loop hsh ht ((hentries ht)[probe := None]) (probe + 1))"

definition remhash ::
    "(lisp_object \<Rightarrow> hashcode) \<Rightarrow> equality \<Rightarrow> lisp_object \<Rightarrow> Lisp_Hash_Table \<Rightarrow>
     (lisp_object \<times> Lisp_Hash_Table) lresult option" where
  "remhash hsh tst key ht =
     lbind (find_hentry hsh tst key ht) (\<lambda>e.
       if HENTRY_CLEAR_P (hentries ht ! e) then Some (Inr (Qnil, ht))
       else map_option (\<lambda>ht'. Inr (Qt, ht')) (remhash_1 hsh ht e))"

definition clrhash :: "Lisp_Hash_Table \<Rightarrow> Lisp_Hash_Table" where
  "clrhash ht = ht\<lparr>hentries := map (\<lambda>_. None) (take (ht_size ht) (hentries ht)) @ drop (ht_size ht) (hentries ht),
                   ht_count := 0\<rparr>"

text \<open>The assertions of \<open>check_hash_table_invariants\<close>.\<close>

definition check_hash_table_invariants :: "Lisp_Hash_Table \<Rightarrow> bool" where
  "check_hash_table_invariants ht \<longleftrightarrow>
     ht_count ht < ht_size ht \<and> ht_count ht \<le> rehash_count ht \<and> rehash_count ht < ht_size ht \<and>
     real (ht_count ht) * rehash_threshold ht - 1 \<le> real (rehash_count ht) \<and>
     HENTRY_CLEAR_P (hentries ht ! ht_size ht)"

text \<open>
  \<open>elisp_map_remhash\<close>: the scan with its \<open>again\<close>, from slot \<open>e\<close> on.
\<close>

partial_function (option) map_remhash_loop ::
    "(lisp_object \<Rightarrow> hashcode) \<Rightarrow> (hentry \<Rightarrow> bool) \<Rightarrow> nat \<Rightarrow> Lisp_Hash_Table \<Rightarrow> Lisp_Hash_Table option" where
  "map_remhash_loop hsh predicate e ht =
     (if e < ht_size ht
      then case hentries ht ! e of
             None \<Rightarrow> map_remhash_loop hsh predicate (e + 1) ht
           | Some kv \<Rightarrow>
               if predicate kv
               then Option.bind (remhash_1 hsh ht e) (\<lambda>ht'.
                      if \<not> HENTRY_CLEAR_P (hentries ht' ! e) then map_remhash_loop hsh predicate e ht'
                      else map_remhash_loop hsh predicate (e + 1) ht')
               else map_remhash_loop hsh predicate (e + 1) ht
      else Some ht)"

declare map_remhash_loop.simps [code]

definition elisp_map_remhash ::
    "(lisp_object \<Rightarrow> hashcode) \<Rightarrow> (hentry \<Rightarrow> bool) \<Rightarrow> Lisp_Hash_Table \<Rightarrow> Lisp_Hash_Table option" where
  "elisp_map_remhash hsh predicate ht = map_remhash_loop hsh predicate 0 ht"

end
