(* ===== verification/HashProbe.thy ===== *)
theory HashProbe
  imports HashTable "HOL-Library.Multiset"
begin

text \<open>
  Linear probing, cut open at a clear slot. When slot \<open>e\<close> of the \<open>n\<close> slots is clear, no probe
  goes past it; numbering the slots from the one after \<open>e\<close> turns the circular array into a line
  that ends in \<open>e\<close>. The lemmas say where a probe stops, that an entry put there can be found, and
  that the moves after a removal leave every entry where it can be found.
\<close>

section \<open>Numbering the slots\<close>

definition phys :: "nat \<Rightarrow> nat \<Rightarrow> nat \<Rightarrow> nat" where
  "phys e n b = (Suc e + b) mod n"

definition lin :: "nat \<Rightarrow> nat \<Rightarrow> nat \<Rightarrow> nat" where
  "lin e n p = (p + n - Suc e) mod n"

lemma phys_less [simp]: "0 < n \<Longrightarrow> phys e n b < n"
  by (simp add: phys_def)

lemma lin_less [simp]: "0 < n \<Longrightarrow> lin e n p < n"
  by (simp add: lin_def)

lemma phys_lin: "e < n \<Longrightarrow> p < n \<Longrightarrow> phys e n (lin e n p) = p"
proof -
  assume "e < n" "p < n"
  have "phys e n (lin e n p) = (Suc e + (p + n - Suc e)) mod n"
    unfolding phys_def lin_def by (rule mod_add_right_eq)
  also have "Suc e + (p + n - Suc e) = p + n" using \<open>e < n\<close> by simp
  finally show ?thesis using \<open>p < n\<close> by simp
qed

lemma lin_phys: "e < n \<Longrightarrow> b < n \<Longrightarrow> lin e n (phys e n b) = b"
proof -
  assume "e < n" "b < n"
  then have "(Suc e + b) mod n + n - Suc e = (Suc e + b) mod n + (n - Suc e)" by simp
  then have "lin e n (phys e n b) = (Suc e + b + (n - Suc e)) mod n"
    by (simp add: lin_def phys_def mod_add_left_eq)
  also have "Suc e + b + (n - Suc e) = b + n" using \<open>e < n\<close> by simp
  finally show ?thesis using \<open>b < n\<close> by simp
qed

lemma phys_inj: "e < n \<Longrightarrow> b < n \<Longrightarrow> c < n \<Longrightarrow> phys e n b = phys e n c \<longleftrightarrow> b = c"
  using lin_phys by metis

lemma phys_end: "e < n \<Longrightarrow> phys e n (n - 1) = e"
  by (simp add: phys_def)

lemma phys_Suc: "phys e n (Suc b) = (phys e n b + 1) mod n"
  by (simp add: phys_def mod_Suc_eq)

text \<open>How far a slot is from another, going round.\<close>

lemma phys_dist:
  assumes "0 < n" and "c < n" and "b < n"
  shows "(phys e n b + n - phys e n c) mod n = (b + n - c) mod n"
proof -
  have "int ((phys e n b + n - phys e n c) mod n) = (int (phys e n b) + int n - int (phys e n c)) mod int n"
    using phys_less [OF assms(1), of e c] by (simp add: zmod_int of_nat_diff)
  also have "\<dots> = (int (phys e n b) - int (phys e n c)) mod int n"
    using mod_add_self1 [of "int n" "int (phys e n b) - int (phys e n c)"] by (simp add: algebra_simps)
  also have "\<dots> = ((int (Suc e + b)) mod int n - (int (Suc e + c)) mod int n) mod int n"
    by (simp add: phys_def zmod_int)
  also have "\<dots> = (int b - int c) mod int n" by (simp add: mod_diff_eq)
  also have "\<dots> = (int b + int n - int c) mod int n"
    using mod_add_self1 [of "int n" "int b - int c"] by (simp add: algebra_simps)
  also have "\<dots> = int ((b + n - c) mod n)" using assms by (simp add: zmod_int of_nat_diff)
  finally show ?thesis by simp
qed

lemma phys_walk: "(phys e n c + t) mod n = phys e n (c + t)"
  by (simp add: phys_def mod_add_left_eq add.assoc)

section \<open>Where a probe stops\<close>

text \<open>An array of \<open>n\<close> slots and the sentinel, with a clear slot \<open>e\<close>.\<close>

definition cut :: "hentry option list \<Rightarrow> nat \<Rightarrow> nat \<Rightarrow> bool" where
  "cut es n e \<longleftrightarrow> length es = Suc n \<and> es ! n = None \<and> e < n \<and> es ! e = None"

abbreviation slot :: "hentry option list \<Rightarrow> nat \<Rightarrow> nat \<Rightarrow> nat \<Rightarrow> hentry option" where
  "slot es n e b \<equiv> es ! phys e n b"

lemma cut_pos: "cut es n e \<Longrightarrow> 0 < n"
  by (auto simp: cut_def)

lemma cut_end: "cut es n e \<Longrightarrow> slot es n e (n - 1) = None"
  using phys_end [of e n] by (auto simp: cut_def)

lemma probing_loop_wrap:
  assumes "length es = Suc n" and "es ! n = None" and "0 < n"
  shows "probing_loop stop es n n = probing_loop stop es n 0"
  using assms by (simp add: probing_loop.simps [of stop es n n] probing_loop.simps [of stop es n 0] split: option.split)

lemma probing_loop_phys:
  assumes "cut es n e" and "b < n"
  shows "probing_loop stop es n (phys e n b) =
    (case slot es n e b of
       None \<Rightarrow> Some (phys e n b)
     | Some x \<Rightarrow> if stop x then Some (phys e n b) else probing_loop stop es n (phys e n (Suc b)))"
proof -
  have n: "0 < n" "phys e n b < n" "phys e n b \<noteq> n" using cut_pos [OF assms(1)] phys_less [of n e b] by (simp_all add: less_imp_neq)
  have "probing_loop stop es n (phys e n b + 1) = probing_loop stop es n (phys e n (Suc b))"
  proof (cases "phys e n b + 1 = n")
    case True
    then show ?thesis using probing_loop_wrap [of es n stop] assms(1) n by (simp add: cut_def phys_Suc)
  next
    case False
    then show ?thesis using n by (simp add: phys_Suc)
  qed
  with n show ?thesis by (subst probing_loop.simps) (simp split: option.split)
qed

lemma probing_loop_stops:
  assumes cut: "cut es n e" and "b < n"
  shows "\<exists>c. b \<le> c \<and> c < n \<and> probing_loop stop es n (phys e n b) = Some (phys e n c) \<and>
    (\<forall>d. b \<le> d \<and> d < c \<longrightarrow> (\<exists>x. slot es n e d = Some x \<and> \<not> stop x)) \<and>
    (\<forall>x. slot es n e c = Some x \<longrightarrow> stop x)"
  using assms(2)
proof (induction "n - b" arbitrary: b rule: less_induct)
  case less
  show ?case
  proof (cases "slot es n e b")
    case None
    then show ?thesis using probing_loop_phys [OF cut less.prems, of stop] less.prems
      by (intro exI [of _ b]) auto
  next
    case (Some x)
    then have b: "b \<noteq> n - 1" using cut_end [OF cut] by auto
    show ?thesis
    proof (cases "stop x")
      case True
      then show ?thesis using probing_loop_phys [OF cut less.prems, of stop] less.prems Some
        by (intro exI [of _ b]) auto
    next
      case False
      have "Suc b < n" "n - Suc b < n - b" using b less.prems by simp_all
      from less.hyps [OF this(2,1)] obtain c where c: "Suc b \<le> c" "c < n"
        "probing_loop stop es n (phys e n (Suc b)) = Some (phys e n c)"
        "\<forall>d. Suc b \<le> d \<and> d < c \<longrightarrow> (\<exists>x. slot es n e d = Some x \<and> \<not> stop x)"
        "\<forall>x. slot es n e c = Some x \<longrightarrow> stop x" by blast
      have "\<forall>d. b \<le> d \<and> d < c \<longrightarrow> (\<exists>x. slot es n e d = Some x \<and> \<not> stop x)"
        using c(4) Some False by (metis le_antisym not_less_eq_eq)
      with c show ?thesis using probing_loop_phys [OF cut less.prems, of stop] Some False
        by (intro exI [of _ c]) simp
    qed
  qed
qed

section \<open>Entries that can be found\<close>

text \<open>
  The entry in slot \<open>q\<close> with hash code \<open>c\<close> can be found: every slot on the way from \<open>c\<close> to \<open>q\<close> is
  occupied.
\<close>

definition reach :: "hentry option list \<Rightarrow> nat \<Rightarrow> nat \<Rightarrow> nat \<Rightarrow> bool" where
  "reach es n c q \<longleftrightarrow> (\<forall>t \<le> (q + n - c) mod n. es ! ((c + t) mod n) \<noteq> None)"

lemma reach_lin:
  assumes "e < n" and "c < n" and "b < n"
  shows "c \<le> b \<and> (\<forall>d. c \<le> d \<and> d \<le> b \<longrightarrow> slot es n e d \<noteq> None) \<Longrightarrow> reach es n (phys e n c) (phys e n b)"
    and "es ! e = None \<Longrightarrow> reach es n (phys e n c) (phys e n b) \<Longrightarrow>
         c \<le> b \<and> (\<forall>d. c \<le> d \<and> d \<le> b \<longrightarrow> slot es n e d \<noteq> None)"
proof -
  have n: "0 < n" using assms(1) by simp
  note dist = phys_dist [OF n assms(2,3), of e]
  have dist_le: "(b + n - c) mod n = b - c" if "c \<le> b"
  proof -
    have "b + n - c = (b - c) + n" using that by simp
    then have "(b + n - c) mod n = (b - c) mod n" by (simp only: mod_add_self2)
    also have "\<dots> = b - c" using assms(3) by (intro mod_less) simp
    finally show ?thesis .
  qed
  {
    assume h: "c \<le> b \<and> (\<forall>d. c \<le> d \<and> d \<le> b \<longrightarrow> slot es n e d \<noteq> None)"
    then have "(b + n - c) mod n = b - c" using dist_le by simp
    moreover have "slot es n e (c + t) \<noteq> None" if "t \<le> b - c" for t
    proof -
      have "c \<le> c + t" "c + t \<le> b" using h that by linarith+
      then show ?thesis using h by blast
    qed
    ultimately show "reach es n (phys e n c) (phys e n b)" unfolding reach_def dist phys_walk by simp
  }
  assume e: "es ! e = None" and r: "reach es n (phys e n c) (phys e n b)"
  have cb: "c \<le> b"
  proof (rule ccontr)
    assume "\<not> c \<le> b"
    then have "(b + n - c) mod n = b + n - c" using assms(2) by simp
    then have "\<forall>t \<le> b + n - c. slot es n e (c + t) \<noteq> None"
      using r unfolding reach_def dist phys_walk by (simp only:)
    then have "slot es n e (c + (n - 1 - c)) \<noteq> None" by simp
    moreover have "c + (n - 1 - c) = n - 1" using assms(2) by simp
    ultimately show False using e phys_end [OF assms(1)] by simp
  qed
  then have "(b + n - c) mod n = b - c" by (rule dist_le)
  then have all: "slot es n e (c + t) \<noteq> None" if "t \<le> b - c" for t
    using r that unfolding reach_def dist phys_walk by simp
  have "slot es n e d \<noteq> None" if "c \<le> d" "d \<le> b" for d
    using all [of "d - c"] that by simp
  with cb show "c \<le> b \<and> (\<forall>d. c \<le> d \<and> d \<le> b \<longrightarrow> slot es n e d \<noteq> None)" by blast
qed


text \<open>The array of a table: every entry can be found from its key's hash code.\<close>

definition probe_ok :: "(lisp_object \<Rightarrow> nat) \<Rightarrow> hentry option list \<Rightarrow> nat \<Rightarrow> bool" where
  "probe_ok code es n \<longleftrightarrow> length es = Suc n \<and> es ! n = None \<and>
     (\<forall>q < n. \<forall>x. es ! q = Some x \<longrightarrow> reach es n (code (fst x)) q)"

text \<open>Seen from a clear slot.\<close>

lemma probe_ok_lin:
  assumes "probe_ok code es n" and "cut es n e" and "b < n" and "slot es n e b = Some x" and "code (fst x) < n"
  shows "lin e n (code (fst x)) \<le> b \<and> (\<forall>d. lin e n (code (fst x)) \<le> d \<and> d \<le> b \<longrightarrow> slot es n e d \<noteq> None)"
proof -
  have e: "e < n" "es ! e = None" "0 < n" using assms(2) by (auto simp: cut_def)
  have "reach es n (code (fst x)) (phys e n b)" using assms(1,4) phys_less [OF e(3)] unfolding probe_ok_def by blast
  then have "reach es n (phys e n (lin e n (code (fst x)))) (phys e n b)" using phys_lin [OF e(1) assms(5)] by simp
  from reach_lin(2) [OF e(1) lin_less [OF e(3)] assms(3) e(2) this] show ?thesis .
qed

lemma probe_ok_from_lin:
  assumes "e < n" and "length es = Suc n" and "es ! n = None" and "\<And>k. code k < n"
    and "\<And>b x. b < n \<Longrightarrow> slot es n e b = Some x \<Longrightarrow>
      lin e n (code (fst x)) \<le> b \<and> (\<forall>d. lin e n (code (fst x)) \<le> d \<and> d \<le> b \<longrightarrow> slot es n e d \<noteq> None)"
  shows "probe_ok code es n"
  unfolding probe_ok_def
proof (intro conjI allI impI assms(2,3))
  fix q x assume q: "q < n" "es ! q = Some x"
  have n: "0 < n" using assms(1) by simp
  have "slot es n e (lin e n q) = Some x" using phys_lin [OF assms(1) q(1)] q(2) by simp
  from assms(5) [OF lin_less [OF n] this]
  have "reach es n (phys e n (lin e n (code (fst x)))) (phys e n (lin e n q))"
    by (intro reach_lin(1)) (use assms(1) n in auto)
  then show "reach es n (code (fst x)) q"
    by (simp only: phys_lin [OF assms(1) assms(4)] phys_lin [OF assms(1) q(1)])
qed

section \<open>Looking up\<close>

lemma find_probe:
  assumes ok: "probe_ok code es n" and cut: "cut es n e" and code: "\<And>k. code k < n"
    and same: "\<And>a. eqk a k \<Longrightarrow> code a = code k"
  shows "\<exists>q < n. probing_loop (\<lambda>x. eqk (fst x) k) es n (code k) = Some q \<and>
    (case es ! q of Some x \<Rightarrow> eqk (fst x) k
     | None \<Rightarrow> (\<forall>x. Some x \<in> set es \<longrightarrow> \<not> eqk (fst x) k) \<and>
         (\<forall>x. fst x = k \<longrightarrow> probe_ok code (es[q := Some x]) n))"
proof -
  let ?b = "lin e n (code k)"
  have e: "e < n" "0 < n" using cut by (auto simp: cut_def)
  have start: "phys e n ?b = code k" by (rule phys_lin [OF e(1) code])
  obtain c where c: "?b \<le> c" "c < n" "probing_loop (\<lambda>x. eqk (fst x) k) es n (code k) = Some (phys e n c)"
    "\<forall>d. ?b \<le> d \<and> d < c \<longrightarrow> (\<exists>x. slot es n e d = Some x \<and> \<not> eqk (fst x) k)"
    "\<forall>x. slot es n e c = Some x \<longrightarrow> eqk (fst x) k"
    using probing_loop_stops [OF cut lin_less [OF e(2)], of e "code k" "\<lambda>x. eqk (fst x) k"] start by auto
  have none: "\<not> eqk (fst x) k" if clear: "slot es n e c = None" and x: "Some x \<in> set es" for x
  proof
    assume eq: "eqk (fst x) k"
    from x obtain q where "q < Suc n" "es ! q = Some x" using ok by (auto simp: probe_ok_def in_set_conv_nth)
    moreover from this have "q < n" using ok by (cases "q = n") (auto simp: probe_ok_def)
    ultimately have q: "lin e n q < n" "slot es n e (lin e n q) = Some x" using e phys_lin [of e n q] by auto
    have hx: "?b \<le> lin e n q" "\<forall>d. ?b \<le> d \<and> d \<le> lin e n q \<longrightarrow> slot es n e d \<noteq> None"
      using probe_ok_lin [OF ok cut q code] same [OF eq] by simp_all
    show False
    proof (cases "c \<le> lin e n q")
      case True
      then show ?thesis using hx c(1) clear by blast
    next
      case False
      then show ?thesis using c(4) hx(1) q(2) eq by fastforce
    qed
  qed
  have ins: "probe_ok code (es[phys e n c := Some x]) n" if clear: "slot es n e c = None" and x: "fst x = k" for x
  proof (rule probe_ok_from_lin [OF e(1) _ _ code])
    let ?es = "es[phys e n c := Some x]"
    have len: "phys e n c < n" "length es = Suc n" using e cut by (auto simp: cut_def)
    then show "length ?es = Suc n" "?es ! n = None" using ok by (auto simp: probe_ok_def nth_list_update)
    have "phys e n c < length es" using len by linarith
    then have slots: "slot ?es n e d = (if d = c then Some x else slot es n e d)" if "d < n" for d
      using that c(2) phys_inj [OF e(1) that c(2)] by (auto simp: nth_list_update)
    fix b y assume b: "b < n" "slot ?es n e b = Some y"
    show "lin e n (code (fst y)) \<le> b \<and> (\<forall>d. lin e n (code (fst y)) \<le> d \<and> d \<le> b \<longrightarrow> slot ?es n e d \<noteq> None)"
    proof (cases "b = c")
      case True
      then have "y = x" using b slots [OF b(1)] by simp
      moreover have "slot ?es n e d \<noteq> None" if "?b \<le> d" "d \<le> c" for d
        using that c(2,4) slots [of d] by (cases "d = c") fastforce+
      ultimately show ?thesis using x c(1) True by simp
    next
      case False
      then have "slot es n e b = Some y" using b slots [OF b(1)] by simp
      from probe_ok_lin [OF ok cut b(1) this code]
      show ?thesis using slots b(1) by (metis le_less_trans option.distinct(1))
    qed
  qed
  show ?thesis
    using c(2,3,5) none ins e by (intro exI [of _ "phys e n c"]) (auto split: option.split)
qed


section \<open>Removing\<close>

text \<open>No two entries have equal keys.\<close>

definition keys_distinct :: "(lisp_object \<Rightarrow> lisp_object \<Rightarrow> bool) \<Rightarrow> hentry option list \<Rightarrow> bool" where
  "keys_distinct eqk es \<longleftrightarrow> (\<forall>i j x y. i < length es \<longrightarrow> j < length es \<longrightarrow> es ! i = Some x \<longrightarrow> es ! j = Some y \<longrightarrow>
     eqk (fst x) (fst y) \<longrightarrow> i = j)"

lemma keys_distinctD:
  "keys_distinct eqk es \<Longrightarrow> es ! i = Some x \<Longrightarrow> es ! j = Some y \<Longrightarrow> i < length es \<Longrightarrow> j < length es \<Longrightarrow>
   eqk (fst x) (fst y) \<Longrightarrow> i = j"
  unfolding keys_distinct_def by blast

lemma keys_distinct_cong:
  assumes "\<And>x y. Some x \<in> set es \<Longrightarrow> Some y \<in> set es \<Longrightarrow> e1 (fst x) (fst y) = e2 (fst x) (fst y)"
  shows "keys_distinct e1 es = keys_distinct e2 es"
proof -
  have "e1 (fst x) (fst y) = e2 (fst x) (fst y)" if "i < length es" "j < length es" "es ! i = Some x" "es ! j = Some y" for i j x y
    using that assms nth_mem by metis
  then show ?thesis unfolding keys_distinct_def by blast
qed

lemma keys_distinct_move:
  assumes "keys_distinct eqk es" and "es ! i = None" and "es ! j = Some x" and "i < length es" and "j < length es"
  shows "keys_distinct eqk (es[i := Some x, j := None])"
  unfolding keys_distinct_def
proof (intro allI impI)
  let ?es = "es[i := Some x, j := None]"
  fix a b y z
  assume a: "a < length ?es" "b < length ?es" "?es ! a = Some y" "?es ! b = Some z" "eqk (fst y) (fst z)"
  let ?old = "\<lambda>a. if a = i then j else a"
  have old: "es ! ?old a = Some y" if "?es ! a = Some y" "a < length es" for a y
    using that assms by (auto simp: nth_list_update split: if_splits)
  have ne: "a \<noteq> j" if "?es ! a = Some y" "a < length es" for a y
    using that assms by (auto simp: nth_list_update split: if_splits)
  have "?old a = ?old b"
    using a assms(4,5) by (intro keys_distinctD [OF assms(1) old old]) auto
  then show "a = b" using ne [OF a(3)] ne [OF a(4)] a(1,2) by (auto split: if_splits)
qed

text \<open>
  The state of the loop of \<open>remhash_1\<close>: slot \<open>h\<close> is the hole, the loop is at slot \<open>b\<close> beyond it,
  and only entries from \<open>b\<close> on may be cut off from their hash code by the hole.
\<close>

definition hole_ok :: "(lisp_object \<Rightarrow> nat) \<Rightarrow> hentry option list \<Rightarrow> nat \<Rightarrow> nat \<Rightarrow> nat \<Rightarrow> nat \<Rightarrow> bool" where
  "hole_ok code es n e h b \<longleftrightarrow> cut es n e \<and> h < b \<and> b < n \<and> slot es n e h = None \<and>
     (\<forall>c < n. \<forall>x. slot es n e c = Some x \<longrightarrow>
        lin e n (code (fst x)) \<le> c \<and>
        (\<forall>d. lin e n (code (fst x)) \<le> d \<and> d \<le> c \<and> d \<noteq> h \<longrightarrow> slot es n e d \<noteq> None) \<and>
        (lin e n (code (fst x)) \<le> h \<and> h \<le> c \<longrightarrow> b \<le> c))"

lemma hole_okD:
  assumes "hole_ok code es n e h b" and "c < n" and "slot es n e c = Some x"
  shows "lin e n (code (fst x)) \<le> c"
    and "lin e n (code (fst x)) \<le> d \<Longrightarrow> d \<le> c \<Longrightarrow> d \<noteq> h \<Longrightarrow> slot es n e d \<noteq> None"
    and "lin e n (code (fst x)) \<le> h \<Longrightarrow> h \<le> c \<Longrightarrow> b \<le> c"
  using assms unfolding hole_ok_def by blast+

lemma hole_ok_end:
  assumes ok: "hole_ok code es n e h b" and "\<And>k. code k < n" and "slot es n e b = None"
  shows "probe_ok code es n"
proof (rule probe_ok_from_lin)
  have h: "cut es n e" "h < b" "b < n" using ok by (auto simp: hole_ok_def)
  then show "e < n" "length es = Suc n" "es ! n = None" by (auto simp: cut_def)
  fix c x assume c: "c < n" "slot es n e c = Some x"
  note D = hole_okD [OF ok c]
  have "\<not> (lin e n (code (fst x)) \<le> h \<and> h \<le> c)"
  proof
    assume hh: "lin e n (code (fst x)) \<le> h \<and> h \<le> c"
    then have "b \<le> c" using D(3) by blast
    then have "slot es n e b \<noteq> None" using D(2) [of b] hh h(2) by simp
    with assms(3) show False by simp
  qed
  then show "lin e n (code (fst x)) \<le> c \<and> (\<forall>d. lin e n (code (fst x)) \<le> d \<and> d \<le> c \<longrightarrow> slot es n e d \<noteq> None)"
    using D(1,2) by blast
qed (rule assms(2))

text \<open>Where the entry at the loop's slot goes.\<close>

lemma remhash_move_at:
  assumes ok: "hole_ok code es n e h b" and code: "code = HASH_CODE hsh ht" "\<And>k. code k < n" and n: "n = ht_size ht"
    and x: "slot es n e b = Some x" and dist: "keys_distinct (=) es"
  shows "remhash_move hsh ht es (phys e n b) x =
    Some (if lin e n (code (fst x)) \<le> h then es[phys e n h := Some x, phys e n b := None] else es)"
proof -
  have h: "cut es n e" "h < b" "b < n" "slot es n e h = None" using ok by (auto simp: hole_ok_def)
  have e: "e < n" "0 < n" "length es = Suc n" using h(1) by (auto simp: cut_def)
  let ?c = "lin e n (code (fst x))" let ?stop = "\<lambda>y::hentry. fst y = fst x"
  note D = hole_okD [OF ok h(3) x]
  obtain q where q: "?c \<le> q" "q < n" "probing_loop ?stop es n (phys e n ?c) = Some (phys e n q)"
    "\<forall>d. ?c \<le> d \<and> d < q \<longrightarrow> (\<exists>y. slot es n e d = Some y \<and> fst y \<noteq> fst x)"
    "\<forall>y. slot es n e q = Some y \<longrightarrow> fst y = fst x"
    using probing_loop_stops [OF h(1) lin_less [OF e(2)], of e "code (fst x)" ?stop] by blast
  have stop: "q = b" if "slot es n e q = Some y" for y
  proof -
    have "fst y = fst x" using q(5) that by blast
    moreover have "phys e n q < length es" "phys e n b < length es" using e phys_less [OF e(2)] less_SucI by metis+
    ultimately have "phys e n q = phys e n b" using keys_distinctD [OF dist that x] by blast
    then show ?thesis using phys_inj [OF e(1) q(2) h(3)] by simp
  qed
  have "q \<le> b" using q(4) x D(1) by (metis not_le option.inject)
  have "q = (if ?c \<le> h then h else b)"
  proof (cases "?c \<le> h")
    case True
    then have "q \<le> h" using q(4) h(4) by (metis not_le option.distinct(1))
    then have "q \<noteq> b" using h(2) by simp
    then have "slot es n e q = None" using stop by (cases "slot es n e q") auto
    then have "q = h" using D(2) [of q] q(1) \<open>q \<le> b\<close> by blast
    with True show ?thesis by simp
  next
    case False
    then have "q \<noteq> h" using q(1) by auto
    then have "slot es n e q \<noteq> None" using D(2) [of q] q(1) \<open>q \<le> b\<close> by blast
    then show ?thesis using stop False by auto
  qed
  moreover have "phys e n ?c = HASH_CODE hsh ht (fst x)" using phys_lin [OF e(1)] code by simp
  ultimately show ?thesis using q(3) h(4) x n by (auto simp: remhash_move_def)
qed

text \<open>One step of the loop: the entry stays, or it fills the hole and leaves a new one.\<close>

lemma hole_ok_next:
  assumes "hole_ok code es n e h b" and "slot es n e b \<noteq> None"
  shows "Suc b < n"
proof -
  have "cut es n e" "b < n" using assms(1) by (auto simp: hole_ok_def)
  then show ?thesis using cut_end [of es n e] assms(2) by (cases "b = n - 1") auto
qed

lemma hole_ok_stay:
  assumes ok: "hole_ok code es n e h b" and x: "slot es n e b = Some x" and "\<not> lin e n (code (fst x)) \<le> h"
  shows "hole_ok code es n e h (Suc b)"
proof -
  have "Suc b < n" using hole_ok_next [OF ok] x by simp
  moreover have "Suc b \<le> c" if "slot es n e c = Some y" "lin e n (code (fst y)) \<le> h" "b \<le> c" for c y
    using that x assms(3) by (cases "c = b") auto
  ultimately show ?thesis using ok unfolding hole_ok_def by (meson less_SucI)
qed

lemma hole_ok_move:
  assumes ok: "hole_ok code es n e h b" and x: "slot es n e b = Some x" and le: "lin e n (code (fst x)) \<le> h"
  shows "hole_ok code (es[phys e n h := Some x, phys e n b := None]) n e b (Suc b)"
proof -
  let ?es = "es[phys e n h := Some x, phys e n b := None]"
  have h: "cut es n e" "h < b" "b < n" "h < n" using ok by (auto simp: hole_ok_def)
  have e: "e < n" "0 < n" "length es = Suc n" "es ! n = None" "es ! e = None" using h(1) by (auto simp: cut_def)
  have b: "Suc b < n" using hole_ok_next [OF ok] x by simp
  have len: "phys e n d < length es" for d using phys_less [OF e(2), of e d] e(3) by simp
  have slots: "slot ?es n e d = (if d = b then None else if d = h then Some x else slot es n e d)" if "d < n" for d
  proof -
    have "phys e n h = phys e n d \<longleftrightarrow> h = d" "phys e n b = phys e n d \<longleftrightarrow> b = d"
      using h that phys_inj [OF e(1)] by blast+
    then show ?thesis using h len by (auto simp: nth_list_update)
  qed
  have "slot ?es n e (n - 1) = None" using slots [of "n - 1"] b h(2) e(2) cut_end [OF h(1)] by auto
  then have "?es ! e = None" by (simp only: phys_end [OF e(1)])
  moreover have "phys e n h \<noteq> n" "phys e n b \<noteq> n" using phys_less [OF e(2), of e h] phys_less [OF e(2), of e b] by linarith+
  ultimately have cut: "cut ?es n e" using e by (simp add: cut_def)
  note D = hole_okD [OF ok]
  show ?thesis unfolding hole_ok_def
  proof (intro conjI allI impI cut lessI b)
    show "slot ?es n e b = None" using slots [OF h(3)] by simp
    fix c y assume c: "c < n" "slot ?es n e c = Some y"
    then have cb: "c \<noteq> b" using slots [OF c(1)] by auto
    show "lin e n (code (fst y)) \<le> c"
      using slots [OF c(1)] c(2) D(1) [OF c(1), of y] cb le by (auto split: if_splits)
    show "Suc b \<le> c" if "lin e n (code (fst y)) \<le> b \<and> b \<le> c" using that cb by simp
    fix d assume d: "lin e n (code (fst y)) \<le> d \<and> d \<le> c \<and> d \<noteq> b"
    have "slot es n e d \<noteq> None" if "d \<noteq> h"
    proof (cases "c = h")
      case True
      then have "y = x" using slots [OF c(1)] c(2) cb by simp
      then show ?thesis using D(2) [OF h(3) x, of d] d True h(2) that by simp
    next
      case False
      then have "slot es n e c = Some y" using slots [OF c(1)] c(2) cb by simp
      from D(2) [OF c(1) this, of d] show ?thesis using d that by simp
    qed
    then show "slot ?es n e d \<noteq> None" using slots [of d] d c(1) by auto
  qed
qed

lemma phys_cases: "e < n \<Longrightarrow> b < n \<Longrightarrow> phys e n b = (if Suc e + b < n then Suc e + b else Suc e + b - n)"
  by (simp add: phys_def mod_if)

lemma phys_wrapped:
  "e < n \<Longrightarrow> h0 \<le> h \<Longrightarrow> h < b \<Longrightarrow> b < n \<Longrightarrow> phys e n h < phys e n h0 \<Longrightarrow> phys e n b < phys e n h0"
  by (auto simp: phys_cases split: if_splits)

text \<open>Entries before slot \<open>q\<close> were there before.\<close>

definition early :: "nat \<Rightarrow> hentry option list \<Rightarrow> hentry option list \<Rightarrow> bool" where
  "early q es0 es \<longleftrightarrow> (\<forall>i < q. \<forall>x. es ! i = Some x \<longrightarrow> (\<exists>j < q. es0 ! j = Some x))"

lemma early_refl [simp]: "early q es es"
  by (auto simp: early_def)

lemma early_trans: "early q es0 es1 \<Longrightarrow> early q es1 es2 \<Longrightarrow> early q es0 es2"
  unfolding early_def by blast

lemma early_move:
  assumes "e < n" and "h0 \<le> h" and "h < b" and "b < n" and "length es = Suc n" and "slot es n e b = Some x"
  shows "early (phys e n h0) es (es[phys e n h := Some x, phys e n b := None])"
  unfolding early_def
proof (intro allI impI)
  fix i y
  assume i: "i < phys e n h0" "es[phys e n h := Some x, phys e n b := None] ! i = Some y"
  have len: "phys e n d < length es" for d using phys_less [of n e d] assms(1,5) by linarith
  show "\<exists>j < phys e n h0. es ! j = Some y"
  proof (cases "i = phys e n h")
    case True
    then have "y = x" using i(2) len by (auto simp: nth_list_update split: if_splits)
    then show ?thesis using phys_wrapped [OF assms(1-4)] i(1) True assms(6) by blast
  next
    case False
    then show ?thesis using i len by (auto simp: nth_list_update split: if_splits)
  qed
qed

lemma mset_move:
  assumes "i < length es" and "j < length es" and "es ! i = None" and "es ! j = Some x"
  shows "mset (es[i := Some x, j := None]) = mset es"
proof -
  have "mset (es[j := es ! i, i := es ! j]) = mset es" using mset_swap [OF assms(1,2)] .
  moreover have "i \<noteq> j" using assms(3,4) by auto
  ultimately show ?thesis using assms by (simp add: list_update_swap)
qed

text \<open>The loop as a walk over the line, and what it leaves.\<close>

lemma remhash_loop_wrap:
  assumes "length es = Suc n" and "es ! n = None" and "0 < n" and "n = ht_size ht"
  shows "remhash_loop hsh ht es n = remhash_loop hsh ht es 0"
  unfolding assms(4) using assms(1-3) unfolding assms(4)
  by (simp add: remhash_loop.simps [of hsh ht es "ht_size ht"] remhash_loop.simps [of hsh ht es 0] split: option.split)

lemma remhash_loop_next:
  assumes "cut es n e" and "n = ht_size ht"
  shows "remhash_loop hsh ht es (phys e n b + 1) = remhash_loop hsh ht es (phys e n (Suc b))"
proof (cases "phys e n b + 1 = n")
  case True
  then have "phys e n (Suc b) = 0" by (simp add: phys_Suc)
  then show ?thesis using remhash_loop_wrap [of es n ht hsh] True assms cut_pos [OF assms(1)] by (simp add: cut_def)
next
  case False
  then have "phys e n b + 1 < n" using phys_less [OF cut_pos [OF assms(1)], of e b] by simp
  then show ?thesis by (simp add: phys_Suc)
qed

lemma remhash_loop_phys:
  assumes "cut es n e" and "n = ht_size ht"
  shows "remhash_loop hsh ht es (phys e n b) =
    (case slot es n e b of
       None \<Rightarrow> Some es
     | Some x \<Rightarrow> Option.bind (remhash_move hsh ht es (phys e n b) x) (\<lambda>es'. remhash_loop hsh ht es' (phys e n b + 1)))"
  using phys_less [OF cut_pos [OF assms(1)], of e b] assms(2)
  by (subst remhash_loop.simps) (auto split: option.split)

lemma remhash_loop_ok:
  assumes "hole_ok code es n e h b" and code: "code = HASH_CODE hsh ht" "\<And>k. code k < n" and n: "n = ht_size ht"
    and "keys_distinct eqk es" and refl: "\<And>k. eqk k k" and "h0 \<le> h"
  shows "\<exists>es'. remhash_loop hsh ht es (phys e n b) = Some es' \<and> probe_ok code es' n \<and> mset es' = mset es \<and>
    keys_distinct eqk es' \<and> early (phys e n h0) es es'"
  using assms(1,5,7)
proof (induction "n - b" arbitrary: es h b rule: less_induct)
  case less
  note ok = less.prems(1)
  have h: "cut es n e" "h < b" "b < n" "slot es n e h = None" using ok by (auto simp: hole_ok_def)
  have e: "e < n" "0 < n" "length es = Suc n" using h(1) by (auto simp: cut_def)
  have len: "phys e n d < length es" for d using phys_less [OF e(2), of e d] e(3) by linarith
  show ?case
  proof (cases "slot es n e b")
    case None
    then show ?thesis using remhash_loop_phys [OF h(1) n] hole_ok_end [OF ok code(2) None] less.prems(2) by simp
  next
    case (Some x)
    have "keys_distinct (=) es" using less.prems(2) refl unfolding keys_distinct_def by metis
    note move = remhash_move_at [OF ok code n Some this]
    have meas: "n - Suc b < n - b" using h(3) by simp
    show ?thesis
    proof (cases "lin e n (code (fst x)) \<le> h")
      case True
      let ?es = "es[phys e n h := Some x, phys e n b := None]"
      note ok' = hole_ok_move [OF ok Some True]
      have kd: "keys_distinct eqk ?es" using keys_distinct_move [OF less.prems(2) h(4) Some len len] .
      from less.hyps [OF meas ok' kd] less.prems(3) h(2)
      obtain es' where es': "remhash_loop hsh ht ?es (phys e n (Suc b)) = Some es'" "probe_ok code es' n"
        "mset es' = mset ?es" "keys_distinct eqk es'" "early (phys e n h0) ?es es'" by auto
      have "cut ?es n e" using ok' by (simp add: hole_ok_def)
      from remhash_loop_next [OF this n, of hsh b] es'(1)
      have "remhash_loop hsh ht es (phys e n b) = Some es'"
        using remhash_loop_phys [OF h(1) n, of hsh b] Some move True by simp
      moreover have "mset ?es = mset es" using mset_move [OF len len h(4) Some] .
      moreover have "early (phys e n h0) es ?es" using early_move [OF e(1) less.prems(3) h(2,3) e(3) Some] .
      ultimately show ?thesis using es' early_trans by auto
    next
      case False
      from less.hyps [OF meas hole_ok_stay [OF ok Some False] less.prems(2,3)]
      obtain es' where es': "remhash_loop hsh ht es (phys e n (Suc b)) = Some es'" "probe_ok code es' n"
        "mset es' = mset es" "keys_distinct eqk es'" "early (phys e n h0) es es'" by blast
      have "remhash_loop hsh ht es (phys e n b) = Some es'"
        using remhash_loop_phys [OF h(1) n, of hsh b] Some move False remhash_loop_next [OF h(1) n, of hsh b] es'(1) by simp
      with es' show ?thesis by blast
    qed
  qed
qed

text \<open>The state in which the loop is entered.\<close>

lemma hole_ok_start:
  assumes ok: "probe_ok code es n" and cut: "cut es n e" and "b < n" and x: "slot es n e b = Some x" and "\<And>k. code k < n"
  shows "hole_ok code (es[phys e n b := None]) n e b (Suc b)"
proof -
  let ?es = "es[phys e n b := None]"
  have e: "e < n" "0 < n" "length es = Suc n" "es ! n = None" using cut by (auto simp: cut_def)
  have len: "phys e n d < length es" for d using phys_less [OF e(2), of e d] e(3) by linarith
  have b: "Suc b < n" using assms(3) x cut_end [OF cut] by (cases "b = n - 1") auto
  have slots: "slot ?es n e d = (if d = b then None else slot es n e d)" if "d < n" for d
    using phys_inj [OF e(1) that assms(3)] len by (auto simp: nth_list_update)
  have "phys e n b \<noteq> n" using phys_less [OF e(2), of e b] by simp
  then have "cut ?es n e" using cut len by (auto simp: cut_def nth_list_update)
  moreover have "slot ?es n e b = None" using slots assms(3) by simp
  moreover have "lin e n (code (fst y)) \<le> c \<and>
      (\<forall>d. lin e n (code (fst y)) \<le> d \<and> d \<le> c \<and> d \<noteq> b \<longrightarrow> slot ?es n e d \<noteq> None) \<and>
      (lin e n (code (fst y)) \<le> b \<and> b \<le> c \<longrightarrow> Suc b \<le> c)" if c: "c < n" "slot ?es n e c = Some y" for c y
  proof -
    have y: "c \<noteq> b" "slot es n e c = Some y" using slots [OF c(1)] c(2) by (auto split: if_splits)
    have "slot ?es n e d \<noteq> None" if "lin e n (code (fst y)) \<le> d \<and> d \<le> c \<and> d \<noteq> b" for d
      using probe_ok_lin [OF ok cut c(1) y(2) assms(5)] that slots [of d] c(1) by auto
    then show ?thesis using probe_ok_lin [OF ok cut c(1) y(2) assms(5)] y(1) by auto
  qed
  ultimately show ?thesis using b unfolding hole_ok_def by blast
qed

end
