(* ===== verification/HashTableProps.thy ===== *)
theory HashTableProps
  imports HashProbe
begin

text \<open>
  Hash tables as maps. \<open>ht_map\<close> reads a table as a partial function on keys; the operations are
  shown to be lookup, update and removal on it, to return, and to keep the invariant \<open>ht_ok\<close>.
  The laws a table needs of its hash and test functions form the locale \<open>hash_test\<close>, which is
  interpreted on the functions of the three tests in \<open>HashTableSpec\<close>.
\<close>

section \<open>Occupied slots\<close>

definition occupied :: "hentry option list \<Rightarrow> nat" where
  "occupied es = length (filter (\<lambda>e. e \<noteq> None) es)"

lemma occupied_simps [simp]:
  "occupied [] = 0" "occupied (None # es) = occupied es" "occupied (Some x # es) = Suc (occupied es)"
  "occupied (es @ fs) = occupied es + occupied fs" "occupied (replicate n None) = 0"
  by (simp_all add: occupied_def)

lemma occupied_mset: "mset es = mset fs \<Longrightarrow> occupied es = occupied fs"
  unfolding occupied_def by (metis mset_filter size_mset)

lemma occupied_upd:
  assumes "i < length es"
  shows "occupied (es[i := v]) + (if es ! i = None then 0 else 1) = occupied es + (if v = None then 0 else 1)"
proof -
  have "es = take i es @ es ! i # drop (Suc i) es" using assms by (rule id_take_nth_drop)
  then have "occupied es = occupied (take i es) + occupied [es ! i] + occupied (drop (Suc i) es)"
    by (metis append_Cons append_Nil occupied_simps(4) add.assoc)
  moreover have "occupied (es[i := v]) = occupied (take i es) + occupied [v] + occupied (drop (Suc i) es)"
    using upd_conv_take_nth_drop [OF assms, of v] by (metis append_Cons append_Nil occupied_simps(4) add.assoc)
  moreover have "occupied [e] = (if e = None then 0 else 1)" for e by (cases e) auto
  ultimately show ?thesis by simp
qed

lemma occupied_full: "(\<And>i. i < length es \<Longrightarrow> es ! i \<noteq> None) \<Longrightarrow> occupied es = length es"
  unfolding occupied_def by (metis (mono_tags, lifting) filter_True in_set_conv_nth)

lemma occupied_take:
  assumes "length es = Suc n" and "es ! n = None"
  shows "es = take n es @ [None]" and "occupied (take n es) = occupied es"
proof -
  show es: "es = take n es @ [None]" using assms by (metis lessI take_Suc_conv_app_nth take_all_iff order_refl)
  have "occupied es = occupied (take n es @ [None])" using es by simp
  then show "occupied (take n es) = occupied es" by simp
qed

lemma clear_slot:
  assumes "length es = Suc n" and "es ! n = None" and "occupied es < n"
  shows "\<exists>e. cut es n e"
proof (rule ccontr)
  assume "\<not> ?thesis"
  then have "es ! i \<noteq> None" if "i < n" for i using assms that by (auto simp: cut_def)
  then have "occupied (take n es) = n" using occupied_full [of "take n es"] assms(1) by simp
  then show False using occupied_take [OF assms(1,2)] assms(3) by simp
qed

section \<open>Distinct keys\<close>

lemma nth_upd: "c < length es \<Longrightarrow> es[i := v] ! c = (if i = c then v else es ! c)"
  by auto

lemma keys_distinct_None [simp]: "keys_distinct eqk (replicate n None)"
  by (simp add: keys_distinct_def)

lemma keys_distinct_clear: "keys_distinct eqk es \<Longrightarrow> keys_distinct eqk (es[i := None])"
  unfolding keys_distinct_def by (simp add: nth_upd)

lemma keys_distinct_insert:
  assumes "keys_distinct eqk es" and "\<And>y. Some y \<in> set es \<Longrightarrow> \<not> eqk (fst x) (fst y) \<and> \<not> eqk (fst y) (fst x)"
  shows "keys_distinct eqk (es[i := Some x])"
  unfolding keys_distinct_def
proof (intro allI impI)
  fix a b y z
  assume a: "a < length (es[i := Some x])" "b < length (es[i := Some x])" "es[i := Some x] ! a = Some y"
    "es[i := Some x] ! b = Some z" "eqk (fst y) (fst z)"
  have "Some w \<in> set es" if "c < length es" "es ! c = Some w" for c w using that by (metis nth_mem)
  then show "a = b" using a assms(2) keys_distinctD [OF assms(1), of a y b z]
    by (metis length_list_update nth_upd option.inject)
qed

lemma keys_distinct_value:
  assumes "keys_distinct eqk es" and "es ! i = Some (k, v)"
  shows "keys_distinct eqk (es[i := Some (k, w)])"
  unfolding keys_distinct_def
proof (intro allI impI)
  fix a b y z
  assume a: "a < length (es[i := Some (k, w)])" "b < length (es[i := Some (k, w)])" "es[i := Some (k, w)] ! a = Some y"
    "es[i := Some (k, w)] ! b = Some z" "eqk (fst y) (fst z)"
  have "\<exists>u. es ! c = Some (fst y, u)" if "c < length es" "es[i := Some (k, w)] ! c = Some y" for c y
    using that assms(2) by (cases y) (auto simp: nth_upd split: if_splits)
  then obtain u u' where "es ! a = Some (fst y, u)" "es ! b = Some (fst z, u')" using a by (metis length_list_update)
  from keys_distinctD [OF assms(1) this] show "a = b" using a by simp
qed

lemma keys_distinct_Cons:
  assumes "keys_distinct eqk (e # es)"
  shows "keys_distinct eqk es" and "e = Some x \<Longrightarrow> Some y \<in> set es \<Longrightarrow> \<not> eqk (fst x) (fst y) \<and> \<not> eqk (fst y) (fst x)"
proof -
  show "keys_distinct eqk es" unfolding keys_distinct_def
  proof (intro allI impI)
    fix i j x y
    assume "i < length es" "j < length es" "es ! i = Some x" "es ! j = Some y" "eqk (fst x) (fst y)"
    then show "i = j" using keys_distinctD [OF assms, of "Suc i" x "Suc j" y] by simp
  qed
  assume x: "e = Some x" "Some y \<in> set es"
  then obtain i where "i < length es" "es ! i = Some y" by (auto simp: in_set_conv_nth)
  with x show "\<not> eqk (fst x) (fst y) \<and> \<not> eqk (fst y) (fst x)"
    using keys_distinctD [OF assms, of 0 x "Suc i" y] keys_distinctD [OF assms, of "Suc i" y 0 x] by auto
qed

lemma keys_distinct_take: "keys_distinct eqk es \<Longrightarrow> keys_distinct eqk (take n es)"
  unfolding keys_distinct_def by auto

lemma keys_distinct_set:
  "keys_distinct eqk es \<Longrightarrow> Some x \<in> set es \<Longrightarrow> Some y \<in> set es \<Longrightarrow> eqk (fst x) (fst y) \<Longrightarrow> x = y"
  unfolding keys_distinct_def by (metis in_set_conv_nth option.inject)

lemma set_upd_Some:
  "i < length es \<Longrightarrow> es ! i = None \<Longrightarrow> Some y \<in> set (es[i := Some x]) \<longleftrightarrow> y = x \<or> Some y \<in> set es"
  by (metis in_set_conv_nth length_list_update nth_upd option.distinct(1) option.inject)

lemma set_upd_value:
  assumes "keys_distinct eqk es" and "es ! i = Some (k, v)" and "i < length es" and "eqk k k"
  shows "Some y \<in> set (es[i := Some (k, w)]) \<longleftrightarrow> y = (k, w) \<or> Some y \<in> set es \<and> y \<noteq> (k, v)"
proof -
  have "j = i" if "j < length es" "es ! j = Some (k, v)" for j
    using keys_distinctD [OF assms(1) that(2) assms(2) that(1) assms(3)] assms(4) by simp
  note only = this
  show ?thesis
  proof
    assume "Some y \<in> set (es[i := Some (k, w)])"
    then obtain j where j: "j < length es" "es[i := Some (k, w)] ! j = Some y" unfolding in_set_conv_nth by auto
    then show "y = (k, w) \<or> Some y \<in> set es \<and> y \<noteq> (k, v)"
      using only [OF j(1)] nth_mem [OF j(1)] assms(3) by (cases "i = j") (simp, metis nth_list_update_neq)
  next
    assume "y = (k, w) \<or> Some y \<in> set es \<and> y \<noteq> (k, v)"
    then show "Some y \<in> set (es[i := Some (k, w)])"
    proof
      assume "Some y \<in> set es \<and> y \<noteq> (k, v)"
      then obtain j where "j < length es" "es ! j = Some y" "j \<noteq> i"
        using assms(2) unfolding in_set_conv_nth by (metis option.inject)
      then have "es[i := Some (k, w)] ! j = Some y" by simp
      then show ?thesis using \<open>j < length es\<close> by (metis length_list_update nth_mem)
    qed (use assms(3) in \<open>simp add: set_update_memI\<close>)
  qed
qed

lemma set_upd_clear:
  assumes "keys_distinct eqk es" and "es ! i = Some x" and "i < length es" and "eqk (fst x) (fst x)"
  shows "Some y \<in> set (es[i := None]) \<longleftrightarrow> Some y \<in> set es \<and> y \<noteq> x"
proof
  assume "Some y \<in> set (es[i := None])"
  then obtain j where j: "j < length es" "es[i := None] ! j = Some y" unfolding in_set_conv_nth by auto
  then have "j \<noteq> i" "es ! j = Some y" by (auto simp: nth_upd split: if_splits)
  then show "Some y \<in> set es \<and> y \<noteq> x"
    using keys_distinctD [OF assms(1) _ assms(2) j(1) assms(3)] assms(4) nth_mem [OF j(1)] by metis
next
  assume "Some y \<in> set es \<and> y \<noteq> x"
  then obtain j where "j < length es" "es ! j = Some y" "j \<noteq> i"
    using assms(2) unfolding in_set_conv_nth by (metis option.inject)
  then have "es[i := None] ! j = Some y" by simp
  then show "Some y \<in> set (es[i := None])" using \<open>j < length es\<close> by (metis length_list_update nth_mem)
qed

lemma probe_ok_value:
  assumes "probe_ok code es n" and "es ! q = Some (k, v)" and "q < n"
  shows "probe_ok code (es[q := Some (k, w)]) n"
proof -
  have len: "length es = Suc n" "es ! n = None" using assms(1) by (auto simp: probe_ok_def)
  have clear: "es[q := Some (k, w)] ! j = None \<longleftrightarrow> es ! j = None" for j
    using assms(2,3) len by (auto simp: nth_list_update)
  have "reach (es[q := Some (k, w)]) n c p = reach es n c p" for c p unfolding reach_def clear ..
  moreover have "\<exists>x'. es ! p = Some x' \<and> fst x' = fst x" if "p < n" "es[q := Some (k, w)] ! p = Some x" for p x
    using that len assms(2) by (cases "q = p") (auto simp: nth_upd)
  ultimately show ?thesis using assms(1) clear [of n] unfolding probe_ok_def by (metis length_list_update)
qed

section \<open>The table as a map\<close>

text \<open>\<open>eqk\<close> tells which keys the test of the table finds equal.\<close>

definition ht_map :: "(lisp_object \<Rightarrow> lisp_object \<Rightarrow> bool) \<Rightarrow> Lisp_Hash_Table \<Rightarrow> lisp_object \<Rightarrow> lisp_object option" where
  "ht_map eqk ht k =
     map_option snd (find (\<lambda>x. eqk (fst x) k) (List.map_filter id (hentries ht)))"

text \<open>The invariant of a table that is in use.\<close>

definition ht_ok :: "(lisp_object \<Rightarrow> hashcode) \<Rightarrow> (lisp_object \<Rightarrow> lisp_object \<Rightarrow> bool) \<Rightarrow> Lisp_Hash_Table \<Rightarrow> bool" where
  "ht_ok hsh eqk ht \<longleftrightarrow>
     probe_ok (HASH_CODE hsh ht) (hentries ht) (ht_size ht) \<and>
     keys_distinct eqk (hentries ht) \<and>
     ht_count ht = occupied (hentries ht) \<and> ht_count ht < ht_size ht"

text \<open>The next insertion of a new key leaves a clear slot.\<close>

definition ht_room :: "Lisp_Hash_Table \<Rightarrow> bool" where
  "ht_room ht \<longleftrightarrow> ht_count ht + 1 <
     (if ht_count ht + 1 \<ge> rehash_count ht then hash_table_size (to_size (real (ht_size ht) * rehash_size ht))
      else ht_size ht)"

lemma HASH_CODE_less: "0 < ht_size ht \<Longrightarrow> HASH_CODE hsh ht k < ht_size ht"
  by (simp add: HASH_CODE_def)

lemma HASH_CODE_upd [simp]:
  "HASH_CODE hsh (ht\<lparr>hentries := es\<rparr>) = HASH_CODE hsh ht" "HASH_CODE hsh (ht\<lparr>ht_count := c\<rparr>) = HASH_CODE hsh ht"
  by (simp_all add: HASH_CODE_def fun_eq_iff)

text \<open>
  The result of an operation that looks a key up: \<open>x\<close>, unless the comparison of the key with one
  that is stored signals an error or does not return.
\<close>

definition ht_keys :: "Lisp_Hash_Table \<Rightarrow> lisp_object set" where
  "ht_keys ht = {k. \<exists>v. Some (k, v) \<in> set (hentries ht)}"

lemma ht_keysI: "Some x \<in> set (hentries ht) \<Longrightarrow> fst x \<in> ht_keys ht"
  by (cases x) (auto simp: ht_keys_def)

lemma ht_keysI': "Some (k, v) \<in> set (hentries ht) \<Longrightarrow> k \<in> ht_keys ht"
  by (auto simp: ht_keys_def)

definition lookup_result ::
    "equality \<Rightarrow> Lisp_Hash_Table \<Rightarrow> lisp_object \<Rightarrow> 'a lresult option \<Rightarrow> 'a \<Rightarrow> bool" where
  "lookup_result tst ht k r x \<longleftrightarrow>
     (case r of
        Some (Inr y) \<Rightarrow> y = x
      | Some (Inl e) \<Rightarrow> (\<exists>k' \<in> ht_keys ht. KEYS_EQUAL_P tst k' k = Some (Inl e))
      | None \<Rightarrow> (\<exists>k' \<in> ht_keys ht. KEYS_EQUAL_P tst k' k = None))"

lemma lookup_result_Some [simp]: "lookup_result tst ht k (Some (Inr y)) x \<longleftrightarrow> y = x"
  by (simp add: lookup_result_def)

lemma lookup_result_lbind:
  "lookup_result tst ht k r x \<Longrightarrow> f x = Some (Inr y) \<Longrightarrow> lookup_result tst ht k (lbind r f) y"
  by (auto simp: lookup_result_def lbind_def split: option.splits sum.splits)

definition decides :: "equality \<Rightarrow> (lisp_object \<Rightarrow> lisp_object \<Rightarrow> bool) \<Rightarrow> Lisp_Hash_Table \<Rightarrow> lisp_object \<Rightarrow> bool" where
  "decides tst eqk ht k \<longleftrightarrow> (\<forall>k' \<in> ht_keys ht. KEYS_EQUAL_P tst k' k = Some (Inr True) \<longleftrightarrow> eqk k' k)"

text \<open>What operations on a table keep: its test and parameters; it may take a size of the list.\<close>

definition table_kept :: "Lisp_Hash_Table \<Rightarrow> Lisp_Hash_Table \<Rightarrow> bool" where
  "table_kept ht ht' \<longleftrightarrow> ht_test ht' = ht_test ht \<and> rehash_size ht' = rehash_size ht \<and>
     rehash_threshold ht' = rehash_threshold ht \<and>
     (ht_size ht' = ht_size ht \<and> rehash_count ht' = rehash_count ht \<or>
      (\<exists>n. ht_size ht' = hash_table_size n) \<and> rehash_count ht' = to_size (real (ht_size ht') * rehash_threshold ht))"

lemma resize_params:
  assumes "resize_hash_table hsh ht n = Some ht'"
  shows "ht_size ht' = n" "rehash_size ht' = rehash_size ht" "rehash_threshold ht' = rehash_threshold ht"
    "rehash_count ht' = to_size (real n * rehash_threshold ht)" "ht_test ht' = ht_test ht"
  using assms by (auto simp: resize_hash_table_def Let_def compute_hash_table_derived_values_def)

lemma table_kept_enlarge: "enlarge_hash_table hsh ht = Some ht' \<Longrightarrow> table_kept ht ht'"
  unfolding enlarge_hash_table_def table_kept_def by (auto simp: resize_params)

lemma table_kept_upd:
  "table_kept ht (ht\<lparr>hentries := es\<rparr>)" "table_kept (ht\<lparr>hentries := es, ht_count := c\<rparr>) ht' \<longleftrightarrow> table_kept ht ht'"
  by (simp_all add: table_kept_def)

lemma table_kept_remhash_1: "remhash_1 hsh ht q = Some ht' \<Longrightarrow> table_kept ht ht'"
  by (auto simp: remhash_1_def table_kept_def)

lemma key_probing_loop_result:
  assumes "probing_loop stopb es n p = Some q" and "length es = Suc n" and "es ! n = None" and "0 < n" and "p \<le> n"
    and "\<And>x. Some x \<in> set es \<Longrightarrow> stop x = Some (Inr True) \<longleftrightarrow> stopb x"
  shows "case key_probing_loop stop es n p of
      Some (Inr q') \<Rightarrow> q' = q
    | Some (Inl e) \<Rightarrow> (\<exists>x. Some x \<in> set es \<and> stop x = Some (Inl e))
    | None \<Rightarrow> (\<exists>x. Some x \<in> set es \<and> stop x = None)"
proof -
  let ?P = "\<lambda>p q. case key_probing_loop stop es n p of Some (Inr q') \<Rightarrow> q' = q
    | Some (Inl e) \<Rightarrow> (\<exists>x. Some x \<in> set es \<and> stop x = Some (Inl e)) | None \<Rightarrow> (\<exists>x. Some x \<in> set es \<and> stop x = None)"
  have "sb = stopb \<longrightarrow> es' = es \<longrightarrow> n' = n \<longrightarrow> p \<le> n \<longrightarrow> ?P p q" if "probing_loop sb es' n' p = Some q" for sb es' n' p q
  proof (rule probing_loop.raw_induct [OF _ that, where P = "\<lambda>sb es' n' p q. sb = stopb \<longrightarrow> es' = es \<longrightarrow> n' = n \<longrightarrow> p \<le> n \<longrightarrow> ?P p q"],
      intro impI)
    fix pl :: "(hentry \<Rightarrow> bool) \<Rightarrow> hentry option list \<Rightarrow> nat \<Rightarrow> nat \<Rightarrow> nat option" and sb es' n' p q
    assume IH: "\<And>sb es' n' p q. pl sb es' n' p = Some q \<Longrightarrow> sb = stopb \<longrightarrow> es' = es \<longrightarrow> n' = n \<longrightarrow> p \<le> n \<longrightarrow> ?P p q"
      and run: "(case es' ! p of
         None \<Rightarrow> if p = n' then case es' ! 0 of None \<Rightarrow> Some 0 | Some e \<Rightarrow> if sb e then Some 0 else pl sb es' n' 1 else Some p
       | Some e \<Rightarrow> if sb e then Some p else pl sb es' n' (p + 1)) = Some q"
      and eqs: "sb = stopb" "es' = es" "n' = n" "p \<le> n"
    define i where "i = (if p = n then 0 else p)"
    have i: "i < n" "es ! i \<in> set es" using eqs(4) assms(2,4) by (auto simp: i_def)
    have loop: "key_probing_loop stop es n p =
        (case es ! i of None \<Rightarrow> Some (Inr i) | Some x \<Rightarrow> lbind (stop x) (\<lambda>b. if b then Some (Inr i) else key_probing_loop stop es n (i + 1)))"
    proof (cases "p = n")
      case True
      then have "i = 0" by (simp add: i_def)
      show ?thesis unfolding True \<open>i = 0\<close> add_0 using assms(3) by (subst key_probing_loop.simps) simp
    next
      case False
      then have "i = p" by (simp add: i_def)
      show ?thesis unfolding \<open>i = p\<close> using False by (subst key_probing_loop.simps) simp
    qed
    have run': "(case es ! i of None \<Rightarrow> Some i | Some x \<Rightarrow> if stopb x then Some i else pl stopb es n (i + 1)) = Some q"
      using run eqs assms(3) by (auto simp: i_def split: option.splits if_splits)
    show "?P p q"
    proof (cases "es ! i")
      case None
      then show ?thesis using run' loop by simp
    next
      case (Some x)
      have mem: "Some x \<in> set es" using i(2) Some by simp
      note dec = assms(6) [OF mem]
      show ?thesis
      proof (cases "stop x")
        case None
        then have "\<exists>x. Some x \<in> set es \<and> stop x = None" using mem by (intro exI [of _ x]) simp
        with None show ?thesis using loop Some by simp
      next
        case st: (Some r)
        show ?thesis
        proof (cases r)
          case (Inl e)
          then have "\<exists>x. Some x \<in> set es \<and> stop x = Some (Inl e)" using mem st by (intro exI [of _ x]) simp
          with Inl show ?thesis using loop Some st by simp
        next
          case (Inr b)
          show ?thesis
          proof (cases b)
            case True
            then show ?thesis using loop Some st Inr dec run' by simp
          next
            case False
            then have "pl stopb es n (i + 1) = Some q" using dec st Inr run' Some by simp
            from IH [OF this] i(1) have "?P (i + 1) q" by simp
            then show ?thesis using loop Some st Inr False by simp
          qed
        qed
      qed
    qed
  qed
  then show ?thesis using assms(1,5) by blast
qed

lemma map_filter_id_set: "x \<in> set (List.map_filter id es) \<longleftrightarrow> Some x \<in> set es"
  by (force simp: List.map_filter_def)

lemma option_eq_by: "(\<And>v. a = Some v \<longleftrightarrow> b = Some v) \<Longrightarrow> a = b"
  by (metis not_None_eq)

lemma ht_okD:
  assumes "ht_ok hsh eqk ht"
  shows "probe_ok (HASH_CODE hsh ht) (hentries ht) (ht_size ht)" "keys_distinct eqk (hentries ht)"
    "length (hentries ht) = Suc (ht_size ht)" "hentries ht ! ht_size ht = None" "0 < ht_size ht"
    "ht_count ht = occupied (hentries ht)" "ht_count ht < ht_size ht" "\<exists>e. cut (hentries ht) (ht_size ht) e"
    "HASH_CODE hsh ht k < ht_size ht"
  using assms HASH_CODE_less [of ht hsh k] clear_slot [of "hentries ht" "ht_size ht"]
  by (auto simp: ht_ok_def probe_ok_def)

section \<open>Rehashing\<close>

lemma probe_ok_empty: "probe_ok code (replicate (n + 1) None) n"
  unfolding probe_ok_def using nth_replicate [of _ "n + 1" "None::hentry option"] by (auto simp del: replicate_Suc)

lemma rehash_entry_ok:
  assumes "probe_ok code new n" and "code = HASH_CODE hsh ht" and "\<And>k. code k < n" and "n = ht_size ht"
    and "occupied new < n"
  shows "\<exists>q < n. new ! q = None \<and> rehash_entry hsh ht new x = Some (new[q := Some x]) \<and> probe_ok code (new[q := Some x]) n"
proof -
  obtain e where "cut new n e" using clear_slot [of new n] assms(1,5) by (auto simp: probe_ok_def)
  then have "\<exists>q < n. probing_loop (\<lambda>_. False) new n (code (fst x)) = Some q \<and>
    (case new ! q of Some x \<Rightarrow> False | None \<Rightarrow> (\<forall>y. Some y \<in> set new \<longrightarrow> \<not> False) \<and>
      (\<forall>y. fst y = fst x \<longrightarrow> probe_ok code (new[q := Some y]) n))"
    using find_probe [OF assms(1) _ assms(3), of _ "\<lambda>_ _. False" "fst x"] by simp
  then obtain q where q: "q < n" "probing_loop (\<lambda>_. False) new n (code (fst x)) = Some q"
    "case new ! q of Some x \<Rightarrow> False | None \<Rightarrow> (\<forall>y. Some y \<in> set new \<longrightarrow> \<not> False) \<and>
      (\<forall>y. fst y = fst x \<longrightarrow> probe_ok code (new[q := Some y]) n)" by (elim exE conjE) (rule that)
  then have clear: "new ! q = None" by (cases "new ! q") (simp_all only: option.case)
  with q(3) have "probe_ok code (new[q := Some x]) n" by (simp only: option.case)
  then show ?thesis using q(1,2) clear assms(2,4) by (auto simp: rehash_entry_def)
qed

lemma rehash_entries_ok:
  assumes "probe_ok code new n" and code: "code = HASH_CODE hsh ht" "\<And>k. code k < n" "n = ht_size ht"
    and "keys_distinct eqk new" and "keys_distinct eqk olds"
    and "\<And>x y. Some x \<in> set new \<Longrightarrow> Some y \<in> set olds \<Longrightarrow> \<not> eqk (fst x) (fst y) \<and> \<not> eqk (fst y) (fst x)"
    and "occupied new + occupied olds \<le> n"
  shows "\<exists>es. rehash_entries hsh ht new olds = Some es \<and> probe_ok code es n \<and> keys_distinct eqk es \<and>
    occupied es = occupied new + occupied olds \<and> (\<forall>x. Some x \<in> set es \<longleftrightarrow> Some x \<in> set new \<or> Some x \<in> set olds)"
  using assms(1,5-8)
proof (induction olds arbitrary: new)
  case (Cons o' olds)
  note kd = keys_distinct_Cons [OF Cons.prems(3)]
  show ?case
  proof (cases o')
    case None
    then show ?thesis using Cons.IH [OF Cons.prems(1,2) kd(1)] Cons.prems(4,5) by simp
  next
    case (Some x)
    then have "occupied new < n" using Cons.prems(5) by simp
    from rehash_entry_ok [OF Cons.prems(1) code this, of x] obtain q where q: "q < n" "new ! q = None"
      "rehash_entry hsh ht new x = Some (new[q := Some x])" "probe_ok code (new[q := Some x]) n" by blast
    have len: "q < length new" using q(1) Cons.prems(1) by (simp add: probe_ok_def)
    have kd': "keys_distinct eqk (new[q := Some x])"
      using keys_distinct_insert [OF Cons.prems(2)] Cons.prems(4) Some by simp
    have occ: "occupied (new[q := Some x]) = Suc (occupied new)" using occupied_upd [OF len, of "Some x"] q(2) by simp
    have sep: "\<not> eqk (fst y) (fst z) \<and> \<not> eqk (fst z) (fst y)" if "Some y \<in> set (new[q := Some x])" "Some z \<in> set olds" for y z
      using that Cons.prems(4) [of y z] kd(2) [OF Some, of z] set_upd_Some [OF len q(2), of y x] by auto
    have "occupied (new[q := Some x]) + occupied olds \<le> n" using occ Cons.prems(5) Some by simp
    from Cons.IH [OF q(4) kd' kd(1) sep this] show ?thesis
      using q(3) Some occ set_upd_Some [OF len q(2)] by auto
  qed
qed simp

text \<open>Resizing; the new array may end up full.\<close>

lemma resize_hash_table_entries:
  assumes "probe_ok code (hentries ht) (ht_size ht)" and "keys_distinct eqk (hentries ht)"
    and "ht_count ht = occupied (hentries ht)" and "ht_count ht \<le> n" and "0 < n"
  shows "\<exists>ht'. resize_hash_table hsh ht n = Some ht' \<and> probe_ok (HASH_CODE hsh ht') (hentries ht') n \<and>
    keys_distinct eqk (hentries ht') \<and> occupied (hentries ht') = ht_count ht \<and>
    ht_size ht' = n \<and> ht_count ht' = ht_count ht \<and>
    (\<forall>x. Some x \<in> set (hentries ht') \<longleftrightarrow> Some x \<in> set (hentries ht))"
proof -
  let ?old = "take (ht_size ht) (hentries ht)"
  let ?ht = "compute_hash_table_derived_values (ht\<lparr>ht_size := n\<rparr>)"
  have old: "hentries ht = ?old @ [None]" "occupied ?old = ht_count ht"
    using occupied_take assms(1,3) by (simp_all add: probe_ok_def)
  have n: "ht_size ?ht = n" "0 < n" using assms(5) by (simp_all add: compute_hash_table_derived_values_def)
  have "\<exists>es. rehash_entries hsh ?ht (replicate (n + 1) None) ?old = Some es \<and> probe_ok (HASH_CODE hsh ?ht) es n \<and>
      keys_distinct eqk es \<and> occupied es = occupied (replicate (n + 1) None) + occupied ?old \<and>
      (\<forall>x. Some x \<in> set es \<longleftrightarrow> Some x \<in> set (replicate (n + 1) None) \<or> Some x \<in> set ?old)"
    using probe_ok_empty HASH_CODE_less [of ?ht hsh] n keys_distinct_take [OF assms(2)] old(2) assms(4)
      keys_distinct_None [of _ "n + 1"]
    by (intro rehash_entries_ok) (auto simp del: replicate_Suc)
  then obtain es where es: "rehash_entries hsh ?ht (replicate (n + 1) None) ?old = Some es"
    "probe_ok (HASH_CODE hsh ?ht) es n" "keys_distinct eqk es" "occupied es = ht_count ht"
    "\<And>x. Some x \<in> set es \<longleftrightarrow> Some x \<in> set ?old" using old(2) by auto
  have "Some x \<in> set (hentries ht) \<longleftrightarrow> Some x \<in> set ?old" for x by (subst old(1)) auto
  then show ?thesis using es n
    by (simp add: resize_hash_table_def Let_def) (simp add: compute_hash_table_derived_values_def)
qed

lemma resize_hash_table_ok:
  assumes "probe_ok code (hentries ht) (ht_size ht)" and "keys_distinct eqk (hentries ht)"
    and "ht_count ht = occupied (hentries ht)" and "ht_count ht < n"
  shows "\<exists>ht'. resize_hash_table hsh ht n = Some ht' \<and> ht_ok hsh eqk ht' \<and> ht_size ht' = n \<and> ht_count ht' = ht_count ht \<and>
    (\<forall>x. Some x \<in> set (hentries ht') \<longleftrightarrow> Some x \<in> set (hentries ht))"
proof -
  have "ht_count ht \<le> n" "0 < n" using assms(4) by simp_all
  from resize_hash_table_entries [OF assms(1-3) this, of hsh] show ?thesis using assms(4) by (auto simp: ht_ok_def)
qed

lemma pdump_reorganize_hash_table_ok:
  assumes "probe_ok code (hentries ht) (ht_size ht)" and "keys_distinct eqk (hentries ht)"
    and "ht_count ht = occupied (hentries ht)" and "ht_count ht < ht_size ht"
  shows "\<exists>ht'. pdump_reorganize_hash_table hsh ht = Some ht' \<and> ht_ok hsh eqk ht' \<and> ht_count ht' = ht_count ht \<and>
    (\<forall>x. Some x \<in> set (hentries ht') \<longleftrightarrow> Some x \<in> set (hentries ht))"
proof -
  let ?n = "ht_size ht" let ?old = "take ?n (hentries ht)"
  have len: "length (hentries ht) = Suc ?n" "hentries ht ! ?n = None" using assms(1) by (simp_all add: probe_ok_def)
  have old: "hentries ht = ?old @ [None]" "occupied ?old = ht_count ht"
    using occupied_take [OF len] assms(3) by simp_all
  have "\<exists>es. rehash_entries hsh ht (replicate (?n + 1) None) ?old = Some es \<and> probe_ok (HASH_CODE hsh ht) es ?n \<and>
      keys_distinct eqk es \<and> occupied es = occupied (replicate (?n + 1) None) + occupied ?old \<and>
      (\<forall>x. Some x \<in> set es \<longleftrightarrow> Some x \<in> set (replicate (?n + 1) None) \<or> Some x \<in> set ?old)"
    using probe_ok_empty HASH_CODE_less [of ht hsh] keys_distinct_take [OF assms(2)] old(2) assms(4)
      keys_distinct_None [of _ "?n + 1"]
    by (intro rehash_entries_ok) (auto simp del: replicate_Suc)
  then obtain es where es: "rehash_entries hsh ht (replicate (?n + 1) None) ?old = Some es"
    "probe_ok (HASH_CODE hsh ht) es ?n" "keys_distinct eqk es" "occupied es = ht_count ht"
    "\<And>x. Some x \<in> set es \<longleftrightarrow> Some x \<in> set ?old" using old(2) by auto
  have same: "take ?n es @ drop ?n (hentries ht) = es"
  proof -
    have "drop ?n (hentries ht) = [None]" using len by (metis Cons_nth_drop_Suc drop_all lessI order_refl)
    then show ?thesis using occupied_take(1) [of es ?n] es(2) by (simp add: probe_ok_def)
  qed
  have "Some x \<in> set (hentries ht) \<longleftrightarrow> Some x \<in> set ?old" for x by (subst old(1)) auto
  then show ?thesis using es same assms(4)
    by (simp add: pdump_reorganize_hash_table_def ht_ok_def)
qed

section \<open>The operations on a table\<close>

text \<open>What a table relies on: the test is an equivalence, and equal keys have the same hash code.\<close>

locale hash_test =
  fixes hsh :: "lisp_object \<Rightarrow> hashcode" and eqk :: "lisp_object \<Rightarrow> lisp_object \<Rightarrow> bool"
  assumes reflk [simp]: "eqk a a"
    and sym: "eqk a b \<Longrightarrow> eqk b a"
    and trans: "eqk a b \<Longrightarrow> eqk b c \<Longrightarrow> eqk a c"
    and same_hash: "eqk a b \<Longrightarrow> hsh a = hsh b"
begin

lemma ht_map_iff:
  assumes "keys_distinct eqk (hentries ht)"
  shows "ht_map eqk ht k = Some v \<longleftrightarrow> (\<exists>k'. Some (k', v) \<in> set (hentries ht) \<and> eqk k' k)"
proof
  assume "ht_map eqk ht k = Some v"
  then obtain x where "find (\<lambda>x. eqk (fst x) k) (List.map_filter id (hentries ht)) = Some x" "snd x = v"
    by (auto simp: ht_map_def)
  then have "x \<in> set (List.map_filter id (hentries ht))" "eqk (fst x) k" "x = (fst x, v)"
    by (auto simp: find_Some_iff in_set_conv_nth)
  then show "\<exists>k'. Some (k', v) \<in> set (hentries ht) \<and> eqk k' k" using map_filter_id_set by metis
next
  assume "\<exists>k'. Some (k', v) \<in> set (hentries ht) \<and> eqk k' k"
  then obtain k' where k': "Some (k', v) \<in> set (hentries ht)" "eqk k' k" by blast
  then have "find (\<lambda>x. eqk (fst x) k) (List.map_filter id (hentries ht)) \<noteq> None"
    unfolding find_None_iff using map_filter_id_set by fastforce
  then obtain x where x: "find (\<lambda>x. eqk (fst x) k) (List.map_filter id (hentries ht)) = Some x" by blast
  then have "x \<in> set (List.map_filter id (hentries ht))" "eqk (fst x) k"
    by (auto simp: find_Some_iff in_set_conv_nth)
  then have "Some x \<in> set (hentries ht)" "eqk (fst x) k" using map_filter_id_set by metis+
  then have "x = (k', v)" using keys_distinct_set [OF assms _ k'(1)] trans [OF _ sym [OF k'(2)]] by simp
  with x show "ht_map eqk ht k = Some v" by (simp add: ht_map_def)
qed

text \<open>Where a lookup ends.\<close>

lemma find_hentry_ok:
  assumes ok: "ht_ok hsh eqk ht" and dec: "decides tst eqk ht k"
  shows "\<exists>q < ht_size ht. lookup_result tst ht k (find_hentry hsh tst k ht) q \<and>
    (case hentries ht ! q of
       Some x \<Rightarrow> eqk (fst x) k \<and> ht_map eqk ht k = Some (snd x)
     | None \<Rightarrow> (\<forall>x. Some x \<in> set (hentries ht) \<longrightarrow> \<not> eqk (fst x) k) \<and> ht_map eqk ht k = None \<and>
         (\<forall>x. fst x = k \<longrightarrow> probe_ok (HASH_CODE hsh ht) ((hentries ht)[q := Some x]) (ht_size ht)))"
proof -
  obtain e where cut: "cut (hentries ht) (ht_size ht) e" using ht_okD(8) [OF ok] by blast
  have code: "HASH_CODE hsh ht a = HASH_CODE hsh ht k" if "eqk a k" for a
    using same_hash [OF that] by (simp add: HASH_CODE_def)
  from find_probe [OF ht_okD(1) [OF ok] cut ht_okD(9) [OF ok] code]
  obtain q where q: "q < ht_size ht"
    "probing_loop (\<lambda>x. eqk (fst x) k) (hentries ht) (ht_size ht) (HASH_CODE hsh ht k) = Some q"
    "case hentries ht ! q of Some x \<Rightarrow> eqk (fst x) k
     | None \<Rightarrow> (\<forall>x. Some x \<in> set (hentries ht) \<longrightarrow> \<not> eqk (fst x) k) \<and>
         (\<forall>x. fst x = k \<longrightarrow> probe_ok (HASH_CODE hsh ht) ((hentries ht)[q := Some x]) (ht_size ht))"
    by blast
  have "KEYS_EQUAL_P tst (fst x) k = Some (Inr True) \<longleftrightarrow> eqk (fst x) k" if "Some x \<in> set (hentries ht)" for x
    using dec ht_keysI [OF that] by (simp add: decides_def)
  from key_probing_loop_result [OF q(2) ht_okD(3) [OF ok] ht_okD(4) [OF ok] ht_okD(5) [OF ok]
      less_imp_le [OF ht_okD(9) [OF ok]] this]
  have find: "lookup_result tst ht k (find_hentry hsh tst k ht) q"
    unfolding lookup_result_def find_hentry_def by (auto split: option.splits sum.splits dest: ht_keysI')
  have "ht_map eqk ht k = Some (snd x)" if "hentries ht ! q = Some x" "eqk (fst x) k" for x
    using that q(1) ht_okD(3) [OF ok] ht_map_iff [OF ht_okD(2) [OF ok], of k "snd x"]
    by (metis less_SucI nth_mem prod.collapse)
  moreover have "ht_map eqk ht k = None" if "\<forall>x. Some x \<in> set (hentries ht) \<longrightarrow> \<not> eqk (fst x) k"
    using that ht_map_iff [OF ht_okD(2) [OF ok], of k] by (metis fst_conv not_None_eq)
  ultimately have "case hentries ht ! q of
       Some x \<Rightarrow> eqk (fst x) k \<and> ht_map eqk ht k = Some (snd x)
     | None \<Rightarrow> (\<forall>x. Some x \<in> set (hentries ht) \<longrightarrow> \<not> eqk (fst x) k) \<and> ht_map eqk ht k = None \<and>
         (\<forall>x. fst x = k \<longrightarrow> probe_ok (HASH_CODE hsh ht) ((hentries ht)[q := Some x]) (ht_size ht))"
    using q(3) by (cases "hentries ht ! q") (simp_all only: option.case, blast+)
  then show ?thesis using q(1) find by blast
qed

lemma gethash_map:
  assumes "ht_ok hsh eqk ht" and "decides tst eqk ht k"
  shows "lookup_result tst ht k (gethash hsh tst k ht d) (case ht_map eqk ht k of None \<Rightarrow> d | Some v \<Rightarrow> v)"
proof -
  from find_hentry_ok [OF assms] obtain q where q: "lookup_result tst ht k (find_hentry hsh tst k ht) q"
    "case hentries ht ! q of
       Some x \<Rightarrow> eqk (fst x) k \<and> ht_map eqk ht k = Some (snd x)
     | None \<Rightarrow> (\<forall>x. Some x \<in> set (hentries ht) \<longrightarrow> \<not> eqk (fst x) k) \<and> ht_map eqk ht k = None \<and>
         (\<forall>x. fst x = k \<longrightarrow> probe_ok (HASH_CODE hsh ht) ((hentries ht)[q := Some x]) (ht_size ht))"
    by (elim exE conjE) (rule that)
  show ?thesis unfolding gethash_def
    by (rule lookup_result_lbind [OF q(1)]) (use q(2) in \<open>auto split: option.splits\<close>)
qed

lemma same_entries_map:
  assumes "keys_distinct eqk (hentries ht)" and "keys_distinct eqk (hentries ht')"
    and "\<And>x. Some x \<in> set (hentries ht') \<longleftrightarrow> Some x \<in> set (hentries ht)"
  shows "ht_map eqk ht' k = ht_map eqk ht k"
  using assms by (intro option_eq_by) (simp add: ht_map_iff)

text \<open>Storing a value.\<close>

lemma puthash_new:
  assumes ok: "ht_ok hsh eqk ht" and room: "ht_room ht" and q: "q < ht_size ht" "hentries ht ! q = None"
    and new: "\<forall>x. Some x \<in> set (hentries ht) \<longrightarrow> \<not> eqk (fst x) k"
    and probe: "probe_ok (HASH_CODE hsh ht) ((hentries ht)[q := Some (k, v)]) (ht_size ht)"
    and ht1: "ht1 = ht\<lparr>hentries := (hentries ht)[q := Some (k, v)], ht_count := ht_count ht + 1\<rparr>"
  shows "\<exists>ht'. (if ht_count ht1 \<ge> rehash_count ht1 then enlarge_hash_table hsh ht1 else Some ht1) = Some ht' \<and>
    ht_ok hsh eqk ht' \<and> ht_count ht' = ht_count ht + 1 \<and>
    (\<forall>x. Some x \<in> set (hentries ht') \<longleftrightarrow> x = (k, v) \<or> Some x \<in> set (hentries ht))"
proof -
  let ?es = "(hentries ht)[q := Some (k, v)]"
  have len: "q < length (hentries ht)" using q(1) ht_okD(3) [OF ok] by simp
  have kd: "keys_distinct eqk ?es"
    using keys_distinct_insert [OF ht_okD(2) [OF ok], of "(k, v)"] new sym by (metis fst_conv)
  have occ: "occupied ?es = ht_count ht1" using occupied_upd [OF len, of "Some (k, v)"] q(2) ht_okD(6) [OF ok] ht1 by simp
  have ents: "Some x \<in> set ?es \<longleftrightarrow> x = (k, v) \<or> Some x \<in> set (hentries ht)" for x
    using set_upd_Some [OF len q(2)] .
  have code: "HASH_CODE hsh ht1 = HASH_CODE hsh ht" using ht1 by simp
  show ?thesis
  proof (cases "ht_count ht1 \<ge> rehash_count ht1")
    case True
    have "ht_count ht1 < hash_table_size (to_size (real (ht_size ht1) * rehash_size ht1))"
      using room True ht1 by (simp add: ht_room_def)
    from resize_hash_table_ok [of "HASH_CODE hsh ht" ht1 eqk, OF _ _ _ this, of hsh]
    obtain ht' where "enlarge_hash_table hsh ht1 = Some ht'" "ht_ok hsh eqk ht'" "ht_count ht' = ht_count ht1"
      "\<forall>x. Some x \<in> set (hentries ht') \<longleftrightarrow> Some x \<in> set ?es"
      using probe kd occ ht1 by (auto simp: enlarge_hash_table_def)
    then show ?thesis using True ht1 ents by simp
  next
    case False
    then have "ht_count ht1 < ht_size ht1" using room ht1 by (simp add: ht_room_def)
    then have "ht_ok hsh eqk ht1" using probe kd occ code ht1 by (simp add: ht_ok_def)
    then show ?thesis using False ht1 ents by simp
  qed
qed

lemma puthash_ok:
  assumes ok: "ht_ok hsh eqk ht" and room: "ht_room ht" and dec: "decides tst eqk ht k"
  shows "\<exists>ht'. lookup_result tst ht k (puthash hsh tst k v ht) ht' \<and> ht_ok hsh eqk ht' \<and>
    ht_map eqk ht' = (\<lambda>k'. if eqk k k' then Some v else ht_map eqk ht k') \<and>
    ht_count ht' = (if ht_map eqk ht k = None then ht_count ht + 1 else ht_count ht) \<and>
    table_kept ht ht' \<and> ht_keys ht' \<subseteq> insert k (ht_keys ht)"
proof -
  note kd = ht_okD(2) [OF ok]
  from find_hentry_ok [OF ok dec] obtain q where q: "q < ht_size ht" "lookup_result tst ht k (find_hentry hsh tst k ht) q"
    "case hentries ht ! q of
       Some x \<Rightarrow> eqk (fst x) k \<and> ht_map eqk ht k = Some (snd x)
     | None \<Rightarrow> (\<forall>x. Some x \<in> set (hentries ht) \<longrightarrow> \<not> eqk (fst x) k) \<and> ht_map eqk ht k = None \<and>
         (\<forall>x. fst x = k \<longrightarrow> probe_ok (HASH_CODE hsh ht) ((hentries ht)[q := Some x]) (ht_size ht))"
    by (elim exE conjE) (rule that)
  have len: "q < length (hentries ht)" using q(1) ht_okD(3) [OF ok] by simp
  show ?thesis
  proof (cases "hentries ht ! q")
    case None
    let ?ht1 = "ht\<lparr>hentries := (hentries ht)[q := Some (k, v)], ht_count := ht_count ht + 1\<rparr>"
    have new: "\<forall>x. Some x \<in> set (hentries ht) \<longrightarrow> \<not> eqk (fst x) k" "ht_map eqk ht k = None"
      "probe_ok (HASH_CODE hsh ht) ((hentries ht)[q := Some (k, v)]) (ht_size ht)"
      using q(3) unfolding None option.case by simp_all
    from puthash_new [OF ok room q(1) None new(1,3) refl]
    obtain ht' where ht': "(if ht_count ?ht1 \<ge> rehash_count ?ht1 then enlarge_hash_table hsh ?ht1 else Some ?ht1) = Some ht'" "ht_ok hsh eqk ht'" "ht_count ht' = ht_count ht + 1"
      "\<forall>x. Some x \<in> set (hentries ht') \<longleftrightarrow> x = (k, v) \<or> Some x \<in> set (hentries ht)"
      by (elim exE conjE) (rule that)
    have put: "lookup_result tst ht k (puthash hsh tst k v ht) ht'" unfolding puthash_def
      by (rule lookup_result_lbind [OF q(2)]) (use None ht'(1) in \<open>auto simp: Let_def split: if_splits\<close>)
    have "ht_map eqk ht' k' = (if eqk k k' then Some v else ht_map eqk ht k')" for k'
    proof (rule option_eq_by)
      fix w
      have "\<not> eqk a k'" if "Some (a, w) \<in> set (hentries ht)" "eqk k k'" for a
        using new(1) that trans [OF _ sym [OF that(2)], of a] by (metis fst_conv)
      then show "ht_map eqk ht' k' = Some w \<longleftrightarrow> (if eqk k k' then Some v else ht_map eqk ht k') = Some w"
        using ht'(4) ht_map_iff [OF ht_okD(2) [OF ht'(2)]] ht_map_iff [OF kd] by auto
    qed
    moreover have "table_kept ht ht'"
      using ht'(1) table_kept_enlarge [of hsh ?ht1 ht'] by (auto simp: table_kept_upd split: if_splits) (auto simp: table_kept_def)
    moreover have "ht_keys ht' \<subseteq> insert k (ht_keys ht)" using ht'(4) by (auto simp: ht_keys_def)
    ultimately show ?thesis using put ht'(2,3) new(2) by (intro exI [of _ ht']) (simp add: fun_eq_iff)
  next
    case (Some x)
    then obtain k0 v0 where x: "hentries ht ! q = Some (k0, v0)" by (cases x) auto
    let ?ht = "ht\<lparr>hentries := (hentries ht)[q := Some (k0, v)]\<rparr>"
    have found: "eqk k0 k" "ht_map eqk ht k = Some v0" using q(3) unfolding x option.case by simp_all
    have "probe_ok (HASH_CODE hsh ?ht) (hentries ?ht) (ht_size ht)"
      using probe_ok_value [OF ht_okD(1) [OF ok] x q(1), of v] by simp
    moreover have "occupied (hentries ?ht) = ht_count ht" using occupied_upd [OF len, of "Some (k0, v)"] x ht_okD(6) [OF ok] by simp
    moreover have kd': "keys_distinct eqk (hentries ?ht)" using keys_distinct_value [OF kd x] by simp
    ultimately have "ht_ok hsh eqk ?ht" using ht_okD(7) [OF ok] by (simp add: ht_ok_def)
    moreover have "ht_map eqk ?ht k' = (if eqk k k' then Some v else ht_map eqk ht k')" for k'
    proof (rule option_eq_by)
      fix w
      have at_q: "Some (k0, v0) \<in> set (hentries ht)" using x len by (metis nth_mem)
      have mem: "Some y \<in> set (hentries ?ht) \<longleftrightarrow> y = (k0, v) \<or> Some y \<in> set (hentries ht) \<and> y \<noteq> (k0, v0)" for y
        using set_upd_value [OF kd x len reflk, of y v] by simp
      have same: "eqk k0 k' \<longleftrightarrow> eqk k k'" using found(1) sym trans by blast
      have old: "y = (k0, v0)" if "Some y \<in> set (hentries ht)" "eqk (fst y) k'" "eqk k0 k'" for y
        using keys_distinct_set [OF kd that(1) at_q] trans [OF that(2) sym [OF that(3)]] by simp
      show "ht_map eqk ?ht k' = Some w \<longleftrightarrow> (if eqk k k' then Some v else ht_map eqk ht k') = Some w"
      proof (cases "eqk k k'")
        case True
        then have "(\<exists>a. Some (a, w) \<in> set (hentries ?ht) \<and> eqk a k') \<longleftrightarrow> w = v"
          unfolding mem using old same by fastforce
        then show ?thesis unfolding ht_map_iff [OF kd'] using True by auto
      next
        case False
        then have "Some (a, w) \<in> set (hentries ?ht) \<and> eqk a k' \<longleftrightarrow>
            Some (a, w) \<in> set (hentries ht) \<and> eqk a k'" for a
          unfolding mem using same by auto
        then show ?thesis unfolding ht_map_iff [OF kd'] using False ht_map_iff [OF kd, of k' w] by simp
      qed
    qed
    moreover have "lookup_result tst ht k (puthash hsh tst k v ht) ?ht" unfolding puthash_def
      by (rule lookup_result_lbind [OF q(2)]) (simp add: x)
    moreover have "ht_keys ?ht \<subseteq> insert k (ht_keys ht)"
      using x len set_upd_value [OF kd x len reflk, of _ v] nth_mem [OF len] by (auto simp: ht_keys_def)
    ultimately show ?thesis using found(2) by (intro exI [of _ ?ht]) (simp add: fun_eq_iff table_kept_upd)
  qed
qed

text \<open>Removing an entry.\<close>

lemma remhash_1_ok:
  assumes ok: "ht_ok hsh eqk ht" and q: "q < ht_size ht" "hentries ht ! q = Some x"
  shows "\<exists>ht'. remhash_1 hsh ht q = Some ht' \<and> ht_ok hsh eqk ht' \<and> ht_size ht' = ht_size ht \<and>
    ht_count ht = Suc (ht_count ht') \<and>
    (\<forall>y. Some y \<in> set (hentries ht') \<longleftrightarrow> Some y \<in> set (hentries ht) \<and> y \<noteq> x) \<and>
    early q (hentries ht) (hentries ht')"
proof -
  let ?n = "ht_size ht" let ?es = "(hentries ht)[q := None]" let ?eqk = "eqk"
  obtain e where cut: "cut (hentries ht) ?n e" using ht_okD(8) [OF ok] by blast
  then have e: "e < ?n" "0 < ?n" by (auto simp: cut_def)
  let ?b = "lin e ?n q"
  have b: "phys e ?n ?b = q" "?b < ?n" using phys_lin [OF e(1) q(1)] e(2) by simp_all
  have len: "q < length (hentries ht)" using q(1) ht_okD(3) [OF ok] by simp
  have hole: "hole_ok (HASH_CODE hsh ht) ?es ?n e ?b (Suc ?b)"
    using hole_ok_start [OF ht_okD(1) [OF ok] cut b(2) _ ht_okD(9) [OF ok]] b(1) q(2) by simp
  have kd: "keys_distinct ?eqk ?es" using keys_distinct_clear [OF ht_okD(2) [OF ok]] .
  from remhash_loop_ok [OF hole refl ht_okD(9) [OF ok] refl kd reflk order_refl] b(1)
  obtain es' where es': "remhash_loop hsh ht ?es (phys e ?n (Suc ?b)) = Some es'"
    "probe_ok (HASH_CODE hsh ht) es' ?n" "mset es' = mset ?es" "keys_distinct ?eqk es'" "early q ?es es'" by auto
  have "cut ?es ?n e" using hole by (simp add: hole_ok_def)
  from remhash_loop_next [OF this refl, of hsh ?b] have rem: "remhash_1 hsh ht q =
      Some (ht\<lparr>hentries := es', ht_count := ht_count ht - 1\<rparr>)" using es'(1) b(1) by (simp add: remhash_1_def)
  have occ: "Suc (occupied es') = ht_count ht"
    using occupied_mset [OF es'(3)] occupied_upd [OF len, of None] q(2) ht_okD(6) [OF ok] by simp
  have "Some y \<in> set es' \<longleftrightarrow> Some y \<in> set (hentries ht) \<and> y \<noteq> x" for y
    using set_upd_clear [OF ht_okD(2) [OF ok] q(2) len reflk, of y] es'(3) mset_eq_setD by blast
  moreover have "early q (hentries ht) es'"
    using early_trans [OF _ es'(5), of "hentries ht"] by (auto simp: early_def)
  moreover have "occupied es' = ht_count ht - 1" "ht_count ht = Suc (ht_count ht - 1)" "ht_count ht - 1 < ?n"
    using occ ht_okD(7) [OF ok] by simp_all
  ultimately show ?thesis using rem es'(2,4)
    by (intro exI [of _ "ht\<lparr>hentries := es', ht_count := ht_count ht - 1\<rparr>"]) (simp add: ht_ok_def)
qed

lemma removed_map:
  assumes "keys_distinct eqk (hentries ht)" and "keys_distinct eqk (hentries ht')"
    and "\<And>y. Some y \<in> set (hentries ht') \<longleftrightarrow> Some y \<in> set (hentries ht) \<and> \<not> eqk (fst y) k"
  shows "ht_map eqk ht' k' = (if eqk k k' then None else ht_map eqk ht k')"
proof (rule option_eq_by)
  fix v
  show "ht_map eqk ht' k' = Some v \<longleftrightarrow> (if eqk k k' then None else ht_map eqk ht k') = Some v"
    using ht_map_iff [OF assms(1), of k' v] ht_map_iff [OF assms(2), of k' v] assms(3) sym trans
    by (metis fst_conv option.distinct(1))
qed

lemma remhash_ok:
  assumes ok: "ht_ok hsh eqk ht" and dec: "decides tst eqk ht k"
  shows "\<exists>ht'. lookup_result tst ht k (remhash hsh tst k ht) (if ht_map eqk ht k = None then Qnil else Qt, ht') \<and> ht_ok hsh eqk ht' \<and>
    ht_map eqk ht' = (\<lambda>k'. if eqk k k' then None else ht_map eqk ht k') \<and>
    ht_count ht' = (if ht_map eqk ht k = None then ht_count ht else ht_count ht - 1) \<and>
    table_kept ht ht' \<and> ht_keys ht' \<subseteq> ht_keys ht"
proof -
  note kd = ht_okD(2) [OF ok]
  from find_hentry_ok [OF ok dec] obtain q where q: "q < ht_size ht" "lookup_result tst ht k (find_hentry hsh tst k ht) q"
    "case hentries ht ! q of
       Some x \<Rightarrow> eqk (fst x) k \<and> ht_map eqk ht k = Some (snd x)
     | None \<Rightarrow> (\<forall>x. Some x \<in> set (hentries ht) \<longrightarrow> \<not> eqk (fst x) k) \<and> ht_map eqk ht k = None \<and>
         (\<forall>x. fst x = k \<longrightarrow> probe_ok (HASH_CODE hsh ht) ((hentries ht)[q := Some x]) (ht_size ht))"
    by (elim exE conjE) (rule that)
  show ?thesis
  proof (cases "hentries ht ! q")
    case None
    have "\<forall>x. Some x \<in> set (hentries ht) \<longrightarrow> \<not> eqk (fst x) k" "ht_map eqk ht k = None"
      using q(3) unfolding None option.case by simp_all
    moreover from this have "ht_map eqk ht k' = (if eqk k k' then None else ht_map eqk ht k')" for k'
      by (intro removed_map [OF kd kd]) blast
    then have "ht_map eqk ht = (\<lambda>k'. if eqk k k' then None else ht_map eqk ht k')" by (rule ext)
    moreover have "lookup_result tst ht k (remhash hsh tst k ht) (Qnil, ht)" unfolding remhash_def
      by (rule lookup_result_lbind [OF q(2)]) (simp add: None)
    moreover have "table_kept ht ht" by (simp add: table_kept_def)
    ultimately show ?thesis using ok by (intro exI [of _ ht]) simp
  next
    case (Some x)
    have found: "eqk (fst x) k" "ht_map eqk ht k = Some (snd x)" using q(3) unfolding Some option.case by simp_all
    from remhash_1_ok [OF ok q(1) Some] obtain ht' where ht': "remhash_1 hsh ht q = Some ht'" "ht_ok hsh eqk ht'"
      "ht_count ht = Suc (ht_count ht')"
      "\<forall>y. Some y \<in> set (hentries ht') \<longleftrightarrow> Some y \<in> set (hentries ht) \<and> y \<noteq> x" by blast
    have mem: "Some x \<in> set (hentries ht)" using Some q(1) ht_okD(3) [OF ok] by (metis less_SucI nth_mem)
    have "ht_map eqk ht' k' = (if eqk k k' then None else ht_map eqk ht k')" for k'
    proof (rule removed_map [OF kd ht_okD(2) [OF ht'(2)]])
      fix y
      have "y = x" if "Some y \<in> set (hentries ht)" "eqk (fst y) k"
        using keys_distinct_set [OF kd that(1) mem] trans [OF that(2) sym [OF found(1)]] .
      then show "Some y \<in> set (hentries ht') \<longleftrightarrow> Some y \<in> set (hentries ht) \<and> \<not> eqk (fst y) k"
        using ht'(4) found(1) by blast
    qed
    moreover have "lookup_result tst ht k (remhash hsh tst k ht) (Qt, ht')" unfolding remhash_def
      by (rule lookup_result_lbind [OF q(2)]) (use Some ht'(1) in auto)
    moreover have "ht_keys ht' \<subseteq> ht_keys ht" using ht'(4) by (auto simp: ht_keys_def)
    ultimately show ?thesis using ht' table_kept_remhash_1 [OF ht'(1)] found(2) by (intro exI [of _ ht']) (simp add: fun_eq_iff)
  qed
qed

lemma clrhash_ok:
  assumes ok: "ht_ok hsh eqk ht"
  shows "ht_ok hsh eqk (clrhash ht) \<and> ht_map eqk (clrhash ht) = (\<lambda>_. None) \<and> ht_count (clrhash ht) = 0"
proof -
  let ?n = "ht_size ht"
  have "drop ?n (hentries ht) = [None]" using ht_okD(3,4) [OF ok] by (metis Cons_nth_drop_Suc drop_all lessI order_refl)
  then have es: "hentries (clrhash ht) = replicate (?n + 1) None"
    using ht_okD(3) [OF ok] by (simp add: clrhash_def map_replicate_const replicate_append_same)
  have "HASH_CODE hsh (clrhash ht) = HASH_CODE hsh ht" "ht_size (clrhash ht) = ?n" "ht_count (clrhash ht) = 0"
    by (simp_all add: clrhash_def)
  then have "ht_ok hsh eqk (clrhash ht)"
    unfolding ht_ok_def es using probe_ok_empty keys_distinct_None ht_okD(5) [OF ok] occupied_simps(5) by presburger
  moreover have "List.map_filter id (hentries (clrhash ht)) = []"
    using map_filter_id_set [of _ "hentries (clrhash ht)"] unfolding es
    by (metis in_set_replicate list.set_intros(1) neq_Nil_conv option.distinct(1))
  ultimately show ?thesis by (simp add: ht_map_def fun_eq_iff clrhash_def)
qed

text \<open>
  Removing all entries that satisfy a predicate. Removing the entry in slot \<open>e\<close> moves only entries
  that were already examined to the slots before \<open>e\<close>.
\<close>

lemma map_remhash_loop_ok:
  assumes "ht_ok hsh eqk ht" and "\<And>i x. i < e \<Longrightarrow> hentries ht ! i = Some x \<Longrightarrow> \<not> predicate x" and "e \<le> ht_size ht"
  shows "\<exists>ht'. map_remhash_loop hsh predicate e ht = Some ht' \<and> ht_ok hsh eqk ht' \<and>
    (\<forall>y. Some y \<in> set (hentries ht') \<longleftrightarrow> Some y \<in> set (hentries ht) \<and> \<not> predicate y)"
  using assms
proof (induction "ht_count ht + (ht_size ht - e)" arbitrary: ht e rule: less_induct)
  case less
  note ok = less.prems(1)
  show ?case
  proof (cases "e < ht_size ht")
    case False
    then have "\<not> predicate y" if "Some y \<in> set (hentries ht)" for y
      using that less.prems(2,3) ht_okD(3,4) [OF ok] unfolding in_set_conv_nth
      by (metis less_antisym linorder_neqE_nat nat_less_le option.distinct(1))
    then show ?thesis using False ok by (subst map_remhash_loop.simps) auto
  next
    case True
    have skip: ?thesis if "\<And>x. hentries ht ! e = Some x \<Longrightarrow> \<not> predicate x"
    proof -
      have "map_remhash_loop hsh predicate e ht = map_remhash_loop hsh predicate (e + 1) ht"
        using True that by (subst map_remhash_loop.simps) (auto split: option.split)
      moreover have "\<not> predicate x" if "i < e + 1" "hentries ht ! i = Some x" for i x
        using that less.prems(2) \<open>\<And>x. hentries ht ! e = Some x \<Longrightarrow> \<not> predicate x\<close> by (cases "i < e") (blast, simp add: less_Suc_eq)
      ultimately show ?thesis using less.hyps [of ht "e + 1", OF _ ok] True by simp
    qed
    show ?thesis
    proof (cases "\<exists>x. hentries ht ! e = Some x \<and> predicate x")
      case False
      then show ?thesis using skip by blast
    next
      case True': True
      then obtain x where x: "hentries ht ! e = Some x" "predicate x" by blast
      from remhash_1_ok [OF ok True x(1)] obtain ht' where ht': "remhash_1 hsh ht e = Some ht'" "ht_ok hsh eqk ht'"
        "ht_size ht' = ht_size ht" "ht_count ht = Suc (ht_count ht')"
        "\<forall>y. Some y \<in> set (hentries ht') \<longleftrightarrow> Some y \<in> set (hentries ht) \<and> y \<noteq> x"
        "early e (hentries ht) (hentries ht')" by blast
      let ?e = "if hentries ht' ! e = None then e + 1 else e"
      have step: "map_remhash_loop hsh predicate e ht = map_remhash_loop hsh predicate ?e ht'"
        using True x ht'(1) by (subst map_remhash_loop.simps) auto
      have seen: "\<not> predicate y" if "i < ?e" "hentries ht' ! i = Some y" for i y
      proof (cases "i = e")
        case False
        then have "i < e" using that(1) by (auto split: if_splits)
        then show ?thesis using ht'(6) that(2) less.prems(2) unfolding early_def by blast
      qed (use that in \<open>auto split: if_splits\<close>)
      have "ht_count ht' + (ht_size ht' - ?e) < ht_count ht + (ht_size ht - e)" "?e \<le> ht_size ht'"
        using ht'(3,4) True by auto
      note less.hyps [OF this(1) ht'(2) _ this(2)]
      then obtain ht'' where "map_remhash_loop hsh predicate ?e ht' = Some ht''" "ht_ok hsh eqk ht''"
        "\<forall>y. Some y \<in> set (hentries ht'') \<longleftrightarrow> Some y \<in> set (hentries ht') \<and> \<not> predicate y" using seen by blast
      then show ?thesis using step ht'(5) x(2) by (intro exI [of _ ht'']) auto
    qed
  qed
qed

lemma elisp_map_remhash_ok:
  assumes ok: "ht_ok hsh eqk ht"
  shows "\<exists>ht'. elisp_map_remhash hsh predicate ht = Some ht' \<and> ht_ok hsh eqk ht' \<and>
    (\<forall>y. Some y \<in> set (hentries ht') \<longleftrightarrow> Some y \<in> set (hentries ht) \<and> \<not> predicate y)"
  using map_remhash_loop_ok [OF ok, of 0 predicate] by (simp add: elisp_map_remhash_def)

end

end
