(* ===== verification/HashTableOps.thy ===== *)
theory HashTableOps
  imports HashTable ListFns
begin

text \<open>
  Hash tables as Lisp objects (\<open>src/src/elhash.c\<close>): the test and hash functions of a table, the
  keyword arguments of \<open>make-hash-table\<close> and of the \<open>#s(hash-table ...)\<close> syntax, the primitives on
  tables, the chain of weak tables and what the garbage collector does to them. The heap of
  tables extends the Lisp heap. \<open>mark_object\<close> is a parameter: it turns a set of marked objects into a
  larger one. The tests of \<open>eql\<close> and \<open>equal\<close> tables signal an error or do not return where
  \<open>internal_equal\<close> does.
\<close>

section \<open>Test and hash functions\<close>

definition lisp_object_eql_equal :: "(nat \<Rightarrow> equality) \<Rightarrow> lisp_heap \<Rightarrow> equality" where
  "lisp_object_eql_equal other h obj1 obj2 =
     (if EQ obj1 obj2 then Some (Inr True)
      else if FLOATP obj1 then internal_equal other h 0 obj1 obj2 else Some (Inr False))"

definition lisp_object_eql_hash ::
    "(nat \<Rightarrow> lisp_object \<Rightarrow> hashcode) \<Rightarrow> (lisp_object \<Rightarrow> hashcode) \<Rightarrow> lisp_heap \<Rightarrow> lisp_object \<Rightarrow> hashcode" where
  "lisp_object_eql_hash oh addr h obj = (if FLOATP obj then internal_hash oh addr h 0 obj else addr obj)"

definition lisp_object_equal_equal :: "(nat \<Rightarrow> equality) \<Rightarrow> lisp_heap \<Rightarrow> equality" where
  "lisp_object_equal_equal other h obj1 obj2 = internal_equal other h 0 obj1 obj2"

definition lisp_object_equal_hash ::
    "(nat \<Rightarrow> lisp_object \<Rightarrow> hashcode) \<Rightarrow> (lisp_object \<Rightarrow> hashcode) \<Rightarrow> lisp_heap \<Rightarrow> lisp_object \<Rightarrow> hashcode" where
  "lisp_object_equal_hash oh addr h obj = internal_hash oh addr h 0 obj"

text \<open>
  The functions \<open>make_standard_lisp_hash_table\<close> puts into a table; a null test function never
  answers true, and without a hash function the object's word is used.
\<close>

fun test_function :: "(nat \<Rightarrow> equality) \<Rightarrow> lisp_heap \<Rightarrow> hash_table_test \<Rightarrow> equality" where
  "test_function other h HASH_TABLE_EQ = (\<lambda>_ _. Some (Inr False))"
| "test_function other h HASH_TABLE_EQL = lisp_object_eql_equal other h"
| "test_function other h HASH_TABLE_EQUAL = lisp_object_equal_equal other h"

fun hash_function ::
    "(nat \<Rightarrow> lisp_object \<Rightarrow> hashcode) \<Rightarrow> (lisp_object \<Rightarrow> hashcode) \<Rightarrow> lisp_heap \<Rightarrow> hash_table_test \<Rightarrow> lisp_object \<Rightarrow> hashcode" where
  "hash_function oh addr h HASH_TABLE_EQ = addr"
| "hash_function oh addr h HASH_TABLE_EQL = lisp_object_eql_hash oh addr h"
| "hash_function oh addr h HASH_TABLE_EQUAL = lisp_object_equal_hash oh addr h"

section \<open>The heap of hash tables\<close>

record hash_heap = lisp_heap +
  hht :: "nat \<Rightarrow> Lisp_Hash_Table"
  hht_next :: nat
  Vall_weak_hash_tables :: lisp_object

abbreviation lheap :: "hash_heap \<Rightarrow> lisp_heap" where
  "lheap \<equiv> lisp_heap.truncate"

text \<open>The equality and hash methods of other record types, and the words of objects.\<close>

record hash_env =
  other_equal :: "nat \<Rightarrow> equality"
  other_hash :: "nat \<Rightarrow> lisp_object \<Rightarrow> hashcode"
  LISP_HASH :: "lisp_object \<Rightarrow> hashcode"

abbreviation ht_tst :: "hash_env \<Rightarrow> hash_heap \<Rightarrow> Lisp_Hash_Table \<Rightarrow> equality" where
  "ht_tst E w ht \<equiv> test_function (other_equal E) (lheap w) (ht_test ht)"

abbreviation ht_hsh :: "hash_env \<Rightarrow> hash_heap \<Rightarrow> Lisp_Hash_Table \<Rightarrow> lisp_object \<Rightarrow> hashcode" where
  "ht_hsh E w ht \<equiv> hash_function (other_hash E) (LISP_HASH E) (lheap w) (ht_test ht)"

fun HASH_TABLEP :: "lisp_object \<Rightarrow> bool" where
  "HASH_TABLEP (Lisp_Lrecord Lrecord_hash_table a) = True"
| "HASH_TABLEP _ = False"

fun XHASH_TABLE :: "lisp_object \<Rightarrow> nat" where
  "XHASH_TABLE (Lisp_Lrecord Lrecord_hash_table a) = a"
| "XHASH_TABLE _ = undefined"

definition xhash_table :: "hash_heap \<Rightarrow> lisp_object \<Rightarrow> Lisp_Hash_Table lresult" where
  "xhash_table w hash_table =
     (if HASH_TABLEP hash_table then Inr (hht w (XHASH_TABLE hash_table))
      else Inl (Wrong_type_argument ''hash-table-p'' hash_table))"

definition set_hash_table :: "lisp_object \<Rightarrow> Lisp_Hash_Table \<Rightarrow> hash_heap \<Rightarrow> hash_heap" where
  "set_hash_table hash_table ht w = w\<lparr>hht := (hht w)(XHASH_TABLE hash_table := ht)\<rparr>"

definition alloc_hash_table :: "Lisp_Hash_Table \<Rightarrow> hash_heap \<Rightarrow> lisp_object \<times> hash_heap" where
  "alloc_hash_table ht w =
     (Lisp_Lrecord Lrecord_hash_table (hht_next w),
      w\<lparr>hht := (hht w)(hht_next w := ht), hht_next := Suc (hht_next w)\<rparr>)"

text \<open>A new weak table is put at the head of the chain.\<close>

definition make_standard_lisp_hash_table ::
    "hash_table_test \<Rightarrow> nat \<Rightarrow> real \<Rightarrow> real \<Rightarrow> hash_table_weakness \<Rightarrow> hash_heap \<Rightarrow> lisp_object \<times> hash_heap" where
  "make_standard_lisp_hash_table test sz rsize rthreshold weak w =
     (let ht = make_general_lisp_hash_table test sz rsize rthreshold weak
      in if weak = HASH_TABLE_NON_WEAK then alloc_hash_table ht w
         else let (hash_table, w1) = alloc_hash_table (ht\<lparr>next_weak := Vall_weak_hash_tables w\<rparr>) w
              in (hash_table, w1\<lparr>Vall_weak_hash_tables := hash_table\<rparr>))"

definition make_lisp_hash_table ::
    "nat \<Rightarrow> hash_table_weakness \<Rightarrow> hash_table_test \<Rightarrow> hash_heap \<Rightarrow> lisp_object \<times> hash_heap" where
  "make_lisp_hash_table sz weak test = make_standard_lisp_hash_table test sz (- 1) (- 1) weak"

section \<open>Keyword arguments\<close>

abbreviation "Qkey \<equiv> Lisp_Symbol 10"
abbreviation "Qvalue \<equiv> Lisp_Symbol 11"
abbreviation "Qkey_or_value \<equiv> Lisp_Symbol 12"
abbreviation "Qkey_and_value \<equiv> Lisp_Symbol 13"
abbreviation "Qnon_weak \<equiv> Lisp_Symbol 14"
abbreviation "Qweak \<equiv> Lisp_Symbol 15"
abbreviation "Qkey_weak \<equiv> Lisp_Symbol 16"
abbreviation "Qkey_or_value_weak \<equiv> Lisp_Symbol 17"
abbreviation "Qvalue_weak \<equiv> Lisp_Symbol 18"
abbreviation "Qtest \<equiv> Lisp_Symbol 19"
abbreviation "Qsize \<equiv> Lisp_Symbol 20"
abbreviation "Qrehash_size \<equiv> Lisp_Symbol 21"
abbreviation "Qrehash_threshold \<equiv> Lisp_Symbol 22"
abbreviation "Qweakness \<equiv> Lisp_Symbol 23"
abbreviation "Qtype \<equiv> Lisp_Symbol 24"
abbreviation "Q_test \<equiv> Lisp_Symbol 25"
abbreviation "Q_size \<equiv> Lisp_Symbol 26"
abbreviation "Q_rehash_size \<equiv> Lisp_Symbol 27"
abbreviation "Q_rehash_threshold \<equiv> Lisp_Symbol 28"
abbreviation "Q_weakness \<equiv> Lisp_Symbol 29"
abbreviation "Q_type \<equiv> Lisp_Symbol 30"

text \<open>The validation functions with \<open>ERROR_ME\<close>: what they signal.\<close>

definition hash_table_size_validate :: "lisp_object \<Rightarrow> unit lresult" where
  "hash_table_size_validate val =
     (if NATNUMP val then Inr () else Inl (Wrong_type_argument ''natnump'' val))"

definition decode_hash_table_size :: "lisp_object \<Rightarrow> nat" where
  "decode_hash_table_size obj = (if NILP obj then 16 else nat (XINT obj))"

definition hash_table_weakness_validate :: "lisp_object \<Rightarrow> unit lresult" where
  "hash_table_weakness_validate val =
     (if val \<in> {Qnil, Qt, Qkey, Qkey_and_value, Qkey_or_value, Qvalue,
                Qnon_weak, Qweak, Qkey_weak, Qkey_or_value_weak, Qvalue_weak}
      then Inr () else Inl (Simple_error ''Invalid hash table weakness'' [val]))"

definition decode_hash_table_weakness :: "lisp_object \<Rightarrow> hash_table_weakness lresult" where
  "decode_hash_table_weakness obj =
     (if EQ obj Qnil then Inr HASH_TABLE_NON_WEAK
      else if EQ obj Qt then Inr HASH_TABLE_WEAK
      else if EQ obj Qkey_and_value then Inr HASH_TABLE_WEAK
      else if EQ obj Qkey then Inr HASH_TABLE_KEY_WEAK
      else if EQ obj Qkey_or_value then Inr HASH_TABLE_KEY_VALUE_WEAK
      else if EQ obj Qvalue then Inr HASH_TABLE_VALUE_WEAK
      else if EQ obj Qnon_weak then Inr HASH_TABLE_NON_WEAK
      else if EQ obj Qweak then Inr HASH_TABLE_WEAK
      else if EQ obj Qkey_weak then Inr HASH_TABLE_KEY_WEAK
      else if EQ obj Qkey_or_value_weak then Inr HASH_TABLE_KEY_VALUE_WEAK
      else if EQ obj Qvalue_weak then Inr HASH_TABLE_VALUE_WEAK
      else Inl (Simple_error ''Invalid hash table weakness'' [obj]))"

definition hash_table_test_validate :: "lisp_object \<Rightarrow> unit lresult" where
  "hash_table_test_validate val =
     (if val \<in> {Qnil, Qeq, Qequal, Qeql}
      then Inr () else Inl (Simple_error ''Invalid hash table test'' [val]))"

definition decode_hash_table_test :: "lisp_object \<Rightarrow> hash_table_test lresult" where
  "decode_hash_table_test obj =
     (if EQ obj Qnil then Inr HASH_TABLE_EQL
      else if EQ obj Qeq then Inr HASH_TABLE_EQ
      else if EQ obj Qequal then Inr HASH_TABLE_EQUAL
      else if EQ obj Qeql then Inr HASH_TABLE_EQL
      else Inl (Simple_error ''Invalid hash table test'' [obj]))"

fun XFLOAT_DATA :: "hash_heap \<Rightarrow> lisp_object \<Rightarrow> real" where
  "XFLOAT_DATA w (Lisp_Float a) = hflt w a"
| "XFLOAT_DATA w _ = undefined"

definition hash_table_rehash_size_validate :: "hash_heap \<Rightarrow> lisp_object \<Rightarrow> unit lresult" where
  "hash_table_rehash_size_validate w val =
     (if \<not> FLOATP val then Inl (Wrong_type_argument ''floatp'' val)
      else if XFLOAT_DATA w val \<le> 1
      then Inl (Simple_error ''Hash table rehash size must be greater than 1.0'' [val])
      else Inr ())"

definition decode_hash_table_rehash_size :: "hash_heap \<Rightarrow> lisp_object \<Rightarrow> real" where
  "decode_hash_table_rehash_size w obj = (if NILP obj then - 1 else XFLOAT_DATA w obj)"

definition hash_table_rehash_threshold_validate :: "hash_heap \<Rightarrow> lisp_object \<Rightarrow> unit lresult" where
  "hash_table_rehash_threshold_validate w val =
     (if \<not> FLOATP val then Inl (Wrong_type_argument ''floatp'' val)
      else if XFLOAT_DATA w val \<le> 0 \<or> XFLOAT_DATA w val \<ge> 1
      then Inl (Simple_error ''Hash table rehash threshold must be between 0.0 and 1.0'' [val])
      else Inr ())"

definition decode_hash_table_rehash_threshold :: "hash_heap \<Rightarrow> lisp_object \<Rightarrow> real" where
  "decode_hash_table_rehash_threshold w obj = (if NILP obj then - 1 else XFLOAT_DATA w obj)"

definition hash_table_data_validate :: "hash_heap \<Rightarrow> lisp_object \<Rightarrow> unit lresult option" where
  "hash_table_data_validate w val =
     lbind (GET_EXTERNAL_LIST_LENGTH val (lheap w)) (\<lambda>len.
       if odd len
       then Some (Inl (Simple_error ''Hash table data must have alternating key/value pairs'' [val]))
       else Some (Inr ()))"

record hash_table_props =
  p_test :: lisp_object
  p_size :: lisp_object
  p_rehash_size :: lisp_object
  p_rehash_threshold :: lisp_object
  p_weakness :: lisp_object
  p_data :: lisp_object

abbreviation no_props :: hash_table_props where
  "no_props \<equiv> \<lparr>p_test = Qnil, p_size = Qnil, p_rehash_size = Qnil, p_rehash_threshold = Qnil,
     p_weakness = Qnil, p_data = Qnil\<rparr>"

fun make_hash_table_args :: "lisp_object list \<Rightarrow> hash_table_props \<Rightarrow> hash_table_props lresult" where
  "make_hash_table_args (keyword # val # args) p =
     (if EQ keyword Q_test then make_hash_table_args args (p\<lparr>p_test := val\<rparr>)
      else if EQ keyword Q_size then make_hash_table_args args (p\<lparr>p_size := val\<rparr>)
      else if EQ keyword Q_rehash_size then make_hash_table_args args (p\<lparr>p_rehash_size := val\<rparr>)
      else if EQ keyword Q_rehash_threshold then make_hash_table_args args (p\<lparr>p_rehash_threshold := val\<rparr>)
      else if EQ keyword Q_weakness then make_hash_table_args args (p\<lparr>p_weakness := val\<rparr>)
      else if EQ keyword Q_type then make_hash_table_args args (p\<lparr>p_weakness := val\<rparr>)
      else Inl (Simple_error ''Invalid hash table property keyword'' [keyword]))"
| "make_hash_table_args [arg] p = Inl (Simple_error ''Hash table property requires a value'' [arg])"
| "make_hash_table_args [] p = Inr p"

text \<open>\<open>VALIDATE_VAR\<close>, and the calls that decode the values and make the table.\<close>

definition VALIDATE_VAR :: "lisp_object \<Rightarrow> unit lresult \<Rightarrow> unit lresult" where
  "VALIDATE_VAR var r = (if \<not> NILP var then r else Inr ())"

definition decode_and_make :: "hash_table_props \<Rightarrow> hash_heap \<Rightarrow> (lisp_object \<times> hash_heap) lresult" where
  "decode_and_make p w =
     (case decode_hash_table_test (p_test p) of
        Inl e \<Rightarrow> Inl e
      | Inr test \<Rightarrow>
          (case decode_hash_table_weakness (p_weakness p) of
             Inl e \<Rightarrow> Inl e
           | Inr weak \<Rightarrow>
               Inr (make_standard_lisp_hash_table test (decode_hash_table_size (p_size p))
                      (decode_hash_table_rehash_size w (p_rehash_size p))
                      (decode_hash_table_rehash_threshold w (p_rehash_threshold p)) weak w)))"

definition Fmake_hash_table :: "lisp_object list \<Rightarrow> hash_heap \<Rightarrow> (lisp_object \<times> hash_heap) lresult" where
  "Fmake_hash_table args w =
     (case make_hash_table_args args no_props of
        Inl e \<Rightarrow> Inl e
      | Inr p \<Rightarrow>
        (case VALIDATE_VAR (p_test p) (hash_table_test_validate (p_test p)) of Inl e \<Rightarrow> Inl e | Inr _ \<Rightarrow>
        (case VALIDATE_VAR (p_size p) (hash_table_size_validate (p_size p)) of Inl e \<Rightarrow> Inl e | Inr _ \<Rightarrow>
        (case VALIDATE_VAR (p_rehash_size p) (hash_table_rehash_size_validate w (p_rehash_size p)) of Inl e \<Rightarrow> Inl e | Inr _ \<Rightarrow>
        (case VALIDATE_VAR (p_rehash_threshold p) (hash_table_rehash_threshold_validate w (p_rehash_threshold p)) of Inl e \<Rightarrow> Inl e | Inr _ \<Rightarrow>
        (case VALIDATE_VAR (p_weakness p) (hash_table_weakness_validate (p_weakness p)) of Inl e \<Rightarrow> Inl e | Inr _ \<Rightarrow>
         decode_and_make p w))))))"

section \<open>Primitives\<close>

definition Fhash_table_p :: "lisp_object \<Rightarrow> lisp_object" where
  "Fhash_table_p obj = (if HASH_TABLEP obj then Qt else Qnil)"

definition Fcopy_hash_table :: "lisp_object \<Rightarrow> hash_heap \<Rightarrow> (lisp_object \<times> hash_heap) lresult" where
  "Fcopy_hash_table hash_table w =
     (case xhash_table w hash_table of
        Inl e \<Rightarrow> Inl e
      | Inr ht_old \<Rightarrow>
          Inr (if \<not> EQ (next_weak ht_old) Qunbound
               then let (copy, w1) = alloc_hash_table (ht_old\<lparr>next_weak := Vall_weak_hash_tables w\<rparr>) w
                    in (copy, w1\<lparr>Vall_weak_hash_tables := copy\<rparr>)
               else alloc_hash_table ht_old w))"

definition Fgethash :: "hash_env \<Rightarrow> lisp_object \<Rightarrow> lisp_object \<Rightarrow> lisp_object \<Rightarrow> hash_heap \<Rightarrow> lisp_object lresult option" where
  "Fgethash E key hash_table dflt w =
     (case xhash_table w hash_table of
        Inl e \<Rightarrow> Some (Inl e)
      | Inr ht \<Rightarrow> gethash (ht_hsh E w ht) (ht_tst E w ht) key ht dflt)"

definition Fputhash ::
    "hash_env \<Rightarrow> lisp_object \<Rightarrow> lisp_object \<Rightarrow> lisp_object \<Rightarrow> hash_heap \<Rightarrow> (lisp_object \<times> hash_heap) lresult option" where
  "Fputhash E key val hash_table w =
     (case xhash_table w hash_table of
        Inl e \<Rightarrow> Some (Inl e)
      | Inr ht \<Rightarrow> lbind (puthash (ht_hsh E w ht) (ht_tst E w ht) key val ht)
                   (\<lambda>ht'. Some (Inr (val, set_hash_table hash_table ht' w))))"

definition Fremhash :: "hash_env \<Rightarrow> lisp_object \<Rightarrow> lisp_object \<Rightarrow> hash_heap \<Rightarrow> (lisp_object \<times> hash_heap) lresult option" where
  "Fremhash E key hash_table w =
     (case xhash_table w hash_table of
        Inl e \<Rightarrow> Some (Inl e)
      | Inr ht \<Rightarrow> lbind (remhash (ht_hsh E w ht) (ht_tst E w ht) key ht)
                   (\<lambda>r. Some (Inr (fst r, set_hash_table hash_table (snd r) w))))"

definition Fclrhash :: "lisp_object \<Rightarrow> hash_heap \<Rightarrow> (lisp_object \<times> hash_heap) lresult" where
  "Fclrhash hash_table w =
     map_sum id (\<lambda>ht. (hash_table, set_hash_table hash_table (clrhash ht) w)) (xhash_table w hash_table)"

definition Fhash_table_count :: "lisp_object \<Rightarrow> hash_heap \<Rightarrow> lisp_object lresult" where
  "Fhash_table_count hash_table w = map_sum id (\<lambda>ht. Lisp_Int (int (ht_count ht))) (xhash_table w hash_table)"

definition Fhash_table_test :: "lisp_object \<Rightarrow> hash_heap \<Rightarrow> lisp_object lresult" where
  "Fhash_table_test hash_table w =
     map_sum id (\<lambda>ht. case ht_test ht of HASH_TABLE_EQL \<Rightarrow> Qeql | HASH_TABLE_EQUAL \<Rightarrow> Qequal | HASH_TABLE_EQ \<Rightarrow> Qeq)
       (xhash_table w hash_table)"

definition Fhash_table_size :: "lisp_object \<Rightarrow> hash_heap \<Rightarrow> lisp_object lresult" where
  "Fhash_table_size hash_table w = map_sum id (\<lambda>ht. Lisp_Int (int (ht_size ht))) (xhash_table w hash_table)"

text \<open>The floats these two return are new objects; the model gives their values.\<close>

definition Fhash_table_rehash_size :: "lisp_object \<Rightarrow> hash_heap \<Rightarrow> real lresult" where
  "Fhash_table_rehash_size hash_table w = map_sum id rehash_size (xhash_table w hash_table)"

definition Fhash_table_rehash_threshold :: "lisp_object \<Rightarrow> hash_heap \<Rightarrow> real lresult" where
  "Fhash_table_rehash_threshold hash_table w = map_sum id rehash_threshold (xhash_table w hash_table)"

definition Fhash_table_weakness :: "lisp_object \<Rightarrow> hash_heap \<Rightarrow> lisp_object lresult" where
  "Fhash_table_weakness hash_table w =
     map_sum id (\<lambda>ht. case weakness ht of
        HASH_TABLE_WEAK \<Rightarrow> Qkey_and_value | HASH_TABLE_KEY_WEAK \<Rightarrow> Qkey
      | HASH_TABLE_KEY_VALUE_WEAK \<Rightarrow> Qkey_or_value | HASH_TABLE_VALUE_WEAK \<Rightarrow> Qvalue | _ \<Rightarrow> Qnil)
       (xhash_table w hash_table)"

definition Fhash_table_type :: "lisp_object \<Rightarrow> hash_heap \<Rightarrow> lisp_object lresult" where
  "Fhash_table_type hash_table w =
     map_sum id (\<lambda>ht. case weakness ht of
        HASH_TABLE_WEAK \<Rightarrow> Qweak | HASH_TABLE_KEY_WEAK \<Rightarrow> Qkey_weak
      | HASH_TABLE_KEY_VALUE_WEAK \<Rightarrow> Qkey_or_value_weak | HASH_TABLE_VALUE_WEAK \<Rightarrow> Qvalue_weak | _ \<Rightarrow> Qnon_weak)
       (xhash_table w hash_table)"

section \<open>Reading a table\<close>

text \<open>
  The keywords of \<open>#s(hash-table ...)\<close> were validated by the reader; an unknown one aborts, which
  does not return (\<open>None\<close>).
\<close>

partial_function (option) hash_table_plist_loop ::
    "hash_heap \<Rightarrow> lisp_object \<Rightarrow> hash_table_props \<Rightarrow> hash_table_props lresult option" where
  "hash_table_plist_loop w plist p =
     (if NILP plist then Some (Inr p)
      else let key = XCAR (lheap w) plist; rest = XCDR (lheap w) plist;
               val = XCAR (lheap w) rest; plist' = XCDR (lheap w) rest
           in if EQ key Qtest then hash_table_plist_loop w plist' (p\<lparr>p_test := val\<rparr>)
              else if EQ key Qsize then hash_table_plist_loop w plist' (p\<lparr>p_size := val\<rparr>)
              else if EQ key Qrehash_size then hash_table_plist_loop w plist' (p\<lparr>p_rehash_size := val\<rparr>)
              else if EQ key Qrehash_threshold then hash_table_plist_loop w plist' (p\<lparr>p_rehash_threshold := val\<rparr>)
              else if EQ key Qweakness then hash_table_plist_loop w plist' (p\<lparr>p_weakness := val\<rparr>)
              else if EQ key Qdata then hash_table_plist_loop w plist' (p\<lparr>p_data := val\<rparr>)
              else if EQ key Qtype then hash_table_plist_loop w plist' (p\<lparr>p_weakness := val\<rparr>)
              else None)"

declare hash_table_plist_loop.simps [code]

partial_function (option) hash_table_fill ::
    "hash_env \<Rightarrow> lisp_object \<Rightarrow> lisp_object \<Rightarrow> hash_heap \<Rightarrow> hash_heap lresult option" where
  "hash_table_fill E hash_table data w =
     (if NILP data then Some (Inr w)
      else let key = XCAR (lheap w) data; rest = XCDR (lheap w) data;
               val = XCAR (lheap w) rest; data' = XCDR (lheap w) rest
           in lbind (Fputhash E key val hash_table w) (\<lambda>r. hash_table_fill E hash_table data' (snd r)))"

declare hash_table_fill.simps [code]

definition hash_table_instantiate :: "hash_env \<Rightarrow> lisp_object \<Rightarrow> hash_heap \<Rightarrow> (lisp_object \<times> hash_heap) lresult option" where
  "hash_table_instantiate E plist w =
     lbind (hash_table_plist_loop w plist no_props) (\<lambda>p.
     lbind (Some (decode_and_make p w)) (\<lambda>r.
     lbind (hash_table_fill E (fst r) (p_data p) (snd r)) (\<lambda>w'. Some (Inr (fst r, w')))))"

section \<open>Equality and hashing of tables\<close>

fun hash_table_equal_from ::
    "hash_env \<Rightarrow> equality \<Rightarrow> hash_heap \<Rightarrow> Lisp_Hash_Table \<Rightarrow> hentry option list \<Rightarrow> bool lresult option" where
  "hash_table_equal_from E eqv w ht2 [] = Some (Inr True)"
| "hash_table_equal_from E eqv w ht2 (None # es) = hash_table_equal_from E eqv w ht2 es"
| "hash_table_equal_from E eqv w ht2 (Some (k, v) # es) =
     lbind (gethash (ht_hsh E w ht2) (ht_tst E w ht2) k ht2 Qunbound) (\<lambda>value_in_other.
       if UNBOUNDP value_in_other then Some (Inr False)
       else lbind (eqv v value_in_other) (\<lambda>b.
              if b then hash_table_equal_from E eqv w ht2 es else Some (Inr False)))"

definition hash_table_equal :: "hash_env \<Rightarrow> equality \<Rightarrow> hash_heap \<Rightarrow> Lisp_Hash_Table \<Rightarrow> Lisp_Hash_Table \<Rightarrow> bool lresult option" where
  "hash_table_equal E eqv w ht1 ht2 =
     (if ht_test ht1 \<noteq> ht_test ht2 \<or> weakness ht1 \<noteq> weakness ht2 \<or> ht_count ht1 \<noteq> ht_count ht2
      then Some (Inr False)
      else hash_table_equal_from E eqv w ht2 (take (ht_size ht1) (hentries ht1)))"

definition hash_table_hash :: "Lisp_Hash_Table \<Rightarrow> hashcode" where
  "hash_table_hash ht = of_nat (ht_count ht)"

section \<open>Mapping\<close>

text \<open>
  The C function mapped may change the heap, but not resize the table (the loop holds pointers
  into its array); it stops the loop by answering true.
\<close>

partial_function (option) maphash_loop ::
    "(lisp_object \<Rightarrow> lisp_object \<Rightarrow> hash_heap \<Rightarrow> (bool \<times> hash_heap) lresult option) \<Rightarrow> lisp_object \<Rightarrow> nat \<Rightarrow> nat \<Rightarrow>
     hash_heap \<Rightarrow> hash_heap lresult option" where
  "maphash_loop f hash_table sentinel e w =
     (if e < sentinel
      then case hentries (hht w (XHASH_TABLE hash_table)) ! e of
             None \<Rightarrow> maphash_loop f hash_table sentinel (e + 1) w
           | Some kv \<Rightarrow>
               lbind (f (fst kv) (snd kv) w) (\<lambda>r.
                 if fst r then Some (Inr (snd r))
                 else case hentries (hht (snd r) (XHASH_TABLE hash_table)) ! e of
                        Some kv' \<Rightarrow> if \<not> EQ (fst kv) (fst kv') then maphash_loop f hash_table sentinel e (snd r)
                                    else maphash_loop f hash_table sentinel (e + 1) (snd r)
                      | None \<Rightarrow> maphash_loop f hash_table sentinel (e + 1) (snd r))
      else Some (Inr w))"

declare maphash_loop.simps [code]

definition elisp_maphash ::
    "(lisp_object \<Rightarrow> lisp_object \<Rightarrow> hash_heap \<Rightarrow> (bool \<times> hash_heap) lresult option) \<Rightarrow> lisp_object \<Rightarrow>
     hash_heap \<Rightarrow> hash_heap lresult option" where
  "elisp_maphash f hash_table w =
     maphash_loop f hash_table (ht_size (hht w (XHASH_TABLE hash_table))) 0 w"

text \<open>\<open>maphash\<close> calls a Lisp function, whose value it ignores.\<close>

definition Fmaphash ::
    "(lisp_object \<Rightarrow> lisp_object \<Rightarrow> hash_heap \<Rightarrow> hash_heap lresult option) \<Rightarrow> lisp_object \<Rightarrow>
     hash_heap \<Rightarrow> (lisp_object \<times> hash_heap) lresult option" where
  "Fmaphash f hash_table w =
     lbind (Some (xhash_table w hash_table)) (\<lambda>ht.
     lbind (maphash_loop (\<lambda>k v w. lbind (f k v w) (\<lambda>w'. Some (Inr (False, w')))) hash_table (ht_size ht) 0 w)
       (\<lambda>w'. Some (Inr (Qnil, w'))))"

section \<open>Weak tables and the garbage collector\<close>

type_synonym marks = "lisp_object \<Rightarrow> bool"

text \<open>\<open>MARK_OBJ\<close>: the new marks and \<open>did_mark\<close>.\<close>

definition MARK_OBJ :: "(lisp_object \<Rightarrow> marks \<Rightarrow> marks) \<Rightarrow> lisp_object \<Rightarrow> marks \<times> bool \<Rightarrow> marks \<times> bool" where
  "MARK_OBJ mark_object obj s = (if \<not> fst s obj then (mark_object obj (fst s), True) else s)"

definition mark_hash_table :: "(lisp_object \<Rightarrow> marks \<Rightarrow> marks) \<Rightarrow> Lisp_Hash_Table \<Rightarrow> marks \<Rightarrow> marks" where
  "mark_hash_table mark_object ht m =
     (if weakness ht = HASH_TABLE_NON_WEAK
      then fold (\<lambda>e m. case e of None \<Rightarrow> m | Some (k, v) \<Rightarrow> mark_object v (mark_object k m))
             (take (ht_size ht) (hentries ht)) m
      else m)"

text \<open>What is done with one pair, by the weakness of its table.\<close>

fun finish_marking_pair ::
    "(lisp_object \<Rightarrow> marks \<Rightarrow> marks) \<Rightarrow> lisp_heap \<Rightarrow> hash_table_weakness \<Rightarrow> hentry \<Rightarrow> marks \<times> bool \<Rightarrow> marks \<times> bool" where
  "finish_marking_pair mark h HASH_TABLE_KEY_WEAK (k, v) s = (if fst s k then MARK_OBJ mark v s else s)"
| "finish_marking_pair mark h HASH_TABLE_VALUE_WEAK (k, v) s = (if fst s v then MARK_OBJ mark k s else s)"
| "finish_marking_pair mark h HASH_TABLE_KEY_VALUE_WEAK (k, v) s =
     (if fst s v then MARK_OBJ mark k s else if fst s k then MARK_OBJ mark v s else s)"
| "finish_marking_pair mark h HASH_TABLE_KEY_CAR_WEAK (k, v) s =
     (if \<not> CONSP k \<or> fst s (XCAR h k) then MARK_OBJ mark v (MARK_OBJ mark k s) else s)"
| "finish_marking_pair mark h HASH_TABLE_KEY_CAR_VALUE_WEAK (k, v) s =
     (if \<not> CONSP k \<or> fst s (XCAR h k) then MARK_OBJ mark v (MARK_OBJ mark k s)
      else if fst s v then MARK_OBJ mark k s else s)"
| "finish_marking_pair mark h HASH_TABLE_VALUE_CAR_WEAK (k, v) s =
     (if \<not> CONSP v \<or> fst s (XCAR h v) then MARK_OBJ mark v (MARK_OBJ mark k s) else s)"
| "finish_marking_pair mark h _ (k, v) s = s"

partial_function (option) finish_marking_loop ::
    "(lisp_object \<Rightarrow> marks \<Rightarrow> marks) \<Rightarrow> hash_heap \<Rightarrow> lisp_object \<Rightarrow> marks \<times> bool \<Rightarrow> (marks \<times> bool) option" where
  "finish_marking_loop mark w hash_table s =
     (if NILP hash_table then Some s
      else let ht = hht w (XHASH_TABLE hash_table)
           in if \<not> fst s hash_table then finish_marking_loop mark w (next_weak ht) s
              else finish_marking_loop mark w (next_weak ht)
                     (fold (\<lambda>e s. case e of None \<Rightarrow> s | Some kv \<Rightarrow> finish_marking_pair mark (lheap w) (weakness ht) kv s)
                        (take (ht_size ht) (hentries ht)) s))"

declare finish_marking_loop.simps [code]

definition finish_marking_weak_hash_tables ::
    "(lisp_object \<Rightarrow> marks \<Rightarrow> marks) \<Rightarrow> hash_heap \<Rightarrow> marks \<Rightarrow> (marks \<times> bool) option" where
  "finish_marking_weak_hash_tables mark w m = finish_marking_loop mark w (Vall_weak_hash_tables w) (m, False)"

text \<open>
  The scan of a table that stays is the one of \<open>elisp_map_remhash\<close>, written out once more in
  the source.
\<close>

partial_function (option) prune_loop ::
    "hash_env \<Rightarrow> marks \<Rightarrow> lisp_object \<Rightarrow> lisp_object \<Rightarrow> hash_heap \<Rightarrow> hash_heap option" where
  "prune_loop E m hash_table prev w =
     (if NILP hash_table then Some w
      else let ht = hht w (XHASH_TABLE hash_table)
           in if \<not> m hash_table
              then prune_loop E m (next_weak ht) prev
                     (if NILP prev then w\<lparr>Vall_weak_hash_tables := next_weak ht\<rparr>
                      else set_hash_table prev ((hht w (XHASH_TABLE prev))\<lparr>next_weak := next_weak ht\<rparr>) w)
              else Option.bind (map_remhash_loop (ht_hsh E w ht) (\<lambda>kv. \<not> m (fst kv) \<or> \<not> m (snd kv)) 0 ht) (\<lambda>ht'.
                     prune_loop E m (next_weak ht) hash_table (set_hash_table hash_table ht' w)))"

declare prune_loop.simps [code]

definition prune_weak_hash_tables :: "hash_env \<Rightarrow> marks \<Rightarrow> hash_heap \<Rightarrow> hash_heap option" where
  "prune_weak_hash_tables E m w = prune_loop E m (Vall_weak_hash_tables w) Qnil w"

end
