(* ===== verification/EqualEquiv.thy ===== *)
theory EqualEquiv
  imports Equal
begin

text \<open>
  \<open>equal\<close> is an equivalence where it answers: a comparison that comes out true does so in both
  directions, and two of them chain. The depth at which a comparison gives up does not stand in
  the way, because the composed comparison never goes deeper than the two it is composed of. At the end,
  what \<open>equal\<close> says of two range tables.
\<close>

definition equal_laws :: "equality \<Rightarrow> bool" where
  "equal_laws eqv \<longleftrightarrow>
     (\<forall>x y. eqv x y = Some (Inr True) \<longrightarrow> eqv y x = Some (Inr True)) \<and>
     (\<forall>x y z. eqv x y = Some (Inr True) \<longrightarrow> eqv y z = Some (Inr True) \<longrightarrow> eqv x z = Some (Inr True)) \<and>
     (\<forall>x y. eqv x y = Some (Inr True) \<longrightarrow> CONSP x = CONSP y)"

lemma equal_lawsD:
  assumes "equal_laws eqv"
  shows "eqv x y = Some (Inr True) \<Longrightarrow> eqv y x = Some (Inr True)"
    and "eqv x y = Some (Inr True) \<Longrightarrow> eqv y z = Some (Inr True) \<Longrightarrow> eqv x z = Some (Inr True)"
    and "eqv x y = Some (Inr True) \<Longrightarrow> CONSP x = CONSP y"
  using assms unfolding equal_laws_def by blast+

lemma cons_equal_True:
  "cons_equal eqv h x y = Some (Inr True) \<longleftrightarrow>
     eqv (XCAR h x) (XCAR h y) = Some (Inr True) \<and>
     (if \<not> CONSP (XCDR h x) \<or> \<not> CONSP (XCDR h y) then eqv (XCDR h x) (XCDR h y) = Some (Inr True)
      else cons_equal eqv h (XCDR h x) (XCDR h y) = Some (Inr True))"
  by (subst cons_equal.simps) (auto simp: Let_def)

text \<open>What a comparison of lists that comes out true implies, by induction on its steps.\<close>

lemma cons_equal_induct [consumes 1, case_names base step]:
  assumes "cons_equal eqv h x y = Some (Inr True)"
    and base: "\<And>x y. eqv (XCAR h x) (XCAR h y) = Some (Inr True) \<Longrightarrow> \<not> CONSP (XCDR h x) \<or> \<not> CONSP (XCDR h y) \<Longrightarrow>
      eqv (XCDR h x) (XCDR h y) = Some (Inr True) \<Longrightarrow> P x y"
    and step: "\<And>x y. eqv (XCAR h x) (XCAR h y) = Some (Inr True) \<Longrightarrow> CONSP (XCDR h x) \<Longrightarrow> CONSP (XCDR h y) \<Longrightarrow>
      P (XCDR h x) (XCDR h y) \<Longrightarrow> P x y"
  shows "P x y"
proof -
  have "eqv' = eqv \<longrightarrow> h' = h \<longrightarrow> r = Inr True \<longrightarrow> P x y" if "cons_equal eqv' h' x y = Some r" for eqv' h' x y r
  proof (rule cons_equal.raw_induct [OF _ that, where P = "\<lambda>eqv' h' x y r. eqv' = eqv \<longrightarrow> h' = h \<longrightarrow> r = Inr True \<longrightarrow> P x y"])
    fix ce :: "equality \<Rightarrow> lisp_heap \<Rightarrow> equality" and eqv' h' x y r
    assume IH: "\<And>eqv' h' x y r. ce eqv' h' x y = Some r \<Longrightarrow> eqv' = eqv \<longrightarrow> h' = h \<longrightarrow> r = Inr True \<longrightarrow> P x y"
      and run: "(let r = eqv' (XCAR h' x) (XCAR h' y)
        in if r = Some (Inr True)
           then let ob1' = XCDR h' x; ob2' = XCDR h' y
                in if \<not> CONSP ob1' \<or> \<not> CONSP ob2' then eqv' ob1' ob2' else ce eqv' h' ob1' ob2'
           else r) = Some r"
    show "eqv' = eqv \<longrightarrow> h' = h \<longrightarrow> r = Inr True \<longrightarrow> P x y"
    proof (intro impI)
      assume eq: "eqv' = eqv" "h' = h" "r = Inr True"
      then have car: "eqv (XCAR h x) (XCAR h y) = Some (Inr True)" using run by (auto simp: Let_def split: if_splits)
      show "P x y"
      proof (cases "\<not> CONSP (XCDR h x) \<or> \<not> CONSP (XCDR h y)")
        case True
        then show ?thesis using base [OF car True] run car eq by (simp add: Let_def)
      next
        case False
        then have "ce eqv h (XCDR h x) (XCDR h y) = Some (Inr True)" using run car eq by (simp add: Let_def)
        then show ?thesis using step [OF car] IH False by blast
      qed
    qed
  qed
  then show ?thesis using assms(1) by blast
qed

lemma cons_equal_sym:
  assumes laws: "equal_laws eqv" and "cons_equal eqv h x y = Some (Inr True)"
  shows "cons_equal eqv h y x = Some (Inr True)"
  using assms(2)
proof (induction rule: cons_equal_induct)
  case (base x y)
  then show ?case using equal_lawsD(1) [OF laws base(1)] equal_lawsD(1) [OF laws base(3)]
    by (subst cons_equal_True) auto
next
  case (step x y)
  then show ?case using equal_lawsD(1) [OF laws step(1)] by (subst cons_equal_True) simp
qed

lemma cons_equal_trans:
  assumes laws: "equal_laws eqv" and "cons_equal eqv h x y = Some (Inr True)"
  shows "\<forall>z. cons_equal eqv h y z = Some (Inr True) \<longrightarrow> cons_equal eqv h x z = Some (Inr True)"
  using assms(2)
proof (induction rule: cons_equal_induct)
  case (base x y)
  show ?case
  proof (intro allI impI)
    fix z assume yz: "cons_equal eqv h y z = Some (Inr True)"
    have "CONSP (XCDR h x) = CONSP (XCDR h y)" using equal_lawsD(3) [OF laws base(3)] .
    then have "eqv (XCDR h y) (XCDR h z) = Some (Inr True)" "\<not> CONSP (XCDR h x)" "eqv (XCAR h y) (XCAR h z) = Some (Inr True)"
      using base(2) yz by (auto simp: cons_equal_True [of eqv h y z])
    then show "cons_equal eqv h x z = Some (Inr True)"
      using equal_lawsD(2) [OF laws base(3)] equal_lawsD(2) [OF laws base(1)] by (subst cons_equal_True) simp
  qed
next
  case (step x y)
  show ?case
  proof (intro allI impI)
    fix z assume "cons_equal eqv h y z = Some (Inr True)"
    then have yz: "eqv (XCAR h y) (XCAR h z) = Some (Inr True)"
      "if \<not> CONSP (XCDR h y) \<or> \<not> CONSP (XCDR h z) then eqv (XCDR h y) (XCDR h z) = Some (Inr True)
       else cons_equal eqv h (XCDR h y) (XCDR h z) = Some (Inr True)" by (simp_all add: cons_equal_True [of eqv h y z])
    have "CONSP (XCDR h z)" using yz(2) equal_lawsD(3) [OF laws] step(3) by (auto split: if_splits)
    then show "cons_equal eqv h x z = Some (Inr True)"
      using yz step equal_lawsD(2) [OF laws step(1)] by (subst cons_equal_True) simp
  qed
qed

text \<open>Vectors and range tables are compared element by element.\<close>

lemma vector_equal_True:
  "vector_equal eqv v w = Some (Inr True) \<longleftrightarrow>
     length v = length w \<and> (\<forall>i < length v. eqv (v ! i) (w ! i) = Some (Inr True))"
proof -
  have "vector_equal_from eqv v w = Some (Inr True)"
    if "length v = length w" "\<forall>i < length v. eqv (v ! i) (w ! i) = Some (Inr True)"
    using that
  proof (induction eqv v w rule: vector_equal_from.induct)
    case (1 eqv x xs y ys)
    have "eqv x y = Some (Inr True)" using 1(3) by auto
    moreover have "\<forall>i < length xs. eqv (xs ! i) (ys ! i) = Some (Inr True)"
    proof (intro allI impI)
      fix i assume "i < length xs"
      then show "eqv (xs ! i) (ys ! i) = Some (Inr True)" using 1(3) [THEN spec, of "Suc i"] by simp
    qed
    then have "vector_equal_from eqv xs ys = Some (Inr True)" using 1(1) 1(2) calculation by simp
    ultimately show ?case by simp
  qed auto
  then show ?thesis using vector_equal_from_True [of eqv v w] by (auto simp: vector_equal_def)
qed

lemma range_table_equal_True:
  "range_table_equal eqv r s = Some (Inr True) \<longleftrightarrow>
     Dynarr_length (rt_entries r) = Dynarr_length (rt_entries s) \<and>
     (\<forall>i < Dynarr_length (rt_entries r).
        let a = Dynarr_at (rt_entries r) i; b = Dynarr_at (rt_entries s) i
        in rte_first a = rte_first b \<and> rte_last a = rte_last b \<and> eqv (rte_val a) (rte_val b) = Some (Inr True))"
proof -
  have "range_table_equal_from eqv d1 d2 i n = Some (Inr True)"
    if "\<And>j. j < n \<Longrightarrow> rte_first (Dynarr_at d1 (i + j)) = rte_first (Dynarr_at d2 (i + j)) \<and>
      rte_last (Dynarr_at d1 (i + j)) = rte_last (Dynarr_at d2 (i + j)) \<and>
      eqv (rte_val (Dynarr_at d1 (i + j))) (rte_val (Dynarr_at d2 (i + j))) = Some (Inr True)" for d1 d2 i n
    using that
  proof (induction n arbitrary: i)
    case (Suc n)
    have "range_table_equal_from eqv d1 d2 (i + 1) n = Some (Inr True)" using Suc.prems [of "Suc _"] by (intro Suc.IH) simp
    then show ?case using Suc.prems [of 0] by (simp add: Let_def)
  qed simp
  from this [of "Dynarr_length (rt_entries r)" "rt_entries r" 0 "rt_entries s"]
  show ?thesis using range_table_equal_from_True [of eqv "rt_entries r" "rt_entries s" 0]
    by (auto simp: range_table_equal_def Let_def)
qed

text \<open>The dispatch on types, and all of \<open>internal_equal\<close>.\<close>

definition others_ok :: "(nat \<Rightarrow> equality) \<Rightarrow> bool" where
  "others_ok other \<longleftrightarrow> (\<forall>d. equal_laws (other d))"

lemma equal_method_types:
  assumes "equal_method other eqv h d x y = Some (Inr True)"
  shows "(\<exists>a b. x = Lisp_Cons a \<and> y = Lisp_Cons b) \<or> (\<exists>a b. x = Lisp_String a \<and> y = Lisp_String b) \<or>
    (\<exists>a b. x = Lisp_Float a \<and> y = Lisp_Float b) \<or> (\<exists>a b. x = Lisp_Vector a \<and> y = Lisp_Vector b) \<or>
    (\<exists>ty a b. x = Lisp_Lrecord ty a \<and> y = Lisp_Lrecord ty b)"
  using assms by (cases x; cases y) (auto split: if_splits)

lemma equal_method_sym:
  assumes laws: "equal_laws eqv" and "others_ok other" and eq: "equal_method other eqv h d x y = Some (Inr True)"
  shows "equal_method other eqv h d y x = Some (Inr True)"
proof -
  have o: "equal_laws (other d)" using assms(2) by (simp add: others_ok_def)
  note sym = equal_lawsD(1) [OF laws]
  consider (cons) a b where "x = Lisp_Cons a" "y = Lisp_Cons b" | (vec) a b where "x = Lisp_Vector a" "y = Lisp_Vector b"
    | (rt) a b where "x = Lisp_Lrecord Lrecord_range_table a" "y = Lisp_Lrecord Lrecord_range_table b"
    | (lrec) ty a b where "x = Lisp_Lrecord ty a" "y = Lisp_Lrecord ty b" "ty \<noteq> Lrecord_range_table"
    | (flat) a b where "x = Lisp_String a \<and> y = Lisp_String b \<or> x = Lisp_Float a \<and> y = Lisp_Float b"
    using equal_method_types [OF eq] by metis
  then show ?thesis
  proof cases
    case cons
    then show ?thesis using eq cons_equal_sym [OF laws, of h x y] by simp
  next
    case vec
    then show ?thesis using eq sym by (simp add: vector_equal_True)
  next
    case rt
    then show ?thesis using eq sym by (simp add: range_table_equal_True Let_def)
  next
    case lrec
    then show ?thesis using eq equal_lawsD(1) [OF o, of x y] by simp
  next
    case flat
    then show ?thesis using eq by (auto simp: string_equal_def float_equal_def)
  qed
qed

lemma equal_method_trans:
  assumes laws: "equal_laws eqv" and "others_ok other" and eq: "equal_method other eqv h d x y = Some (Inr True)"
    and eq': "equal_method other eqv h d y z = Some (Inr True)"
  shows "equal_method other eqv h d x z = Some (Inr True)"
proof -
  have o: "equal_laws (other d)" using assms(2) by (simp add: others_ok_def)
  note trans = equal_lawsD(2) [OF laws]
  consider (cons) a b c where "x = Lisp_Cons a" "y = Lisp_Cons b" "z = Lisp_Cons c"
    | (vec) a b c where "x = Lisp_Vector a" "y = Lisp_Vector b" "z = Lisp_Vector c"
    | (rt) a b c where "x = Lisp_Lrecord Lrecord_range_table a" "y = Lisp_Lrecord Lrecord_range_table b"
        "z = Lisp_Lrecord Lrecord_range_table c"
    | (lrec) ty a b c where "x = Lisp_Lrecord ty a" "y = Lisp_Lrecord ty b" "z = Lisp_Lrecord ty c" "ty \<noteq> Lrecord_range_table"
    | (flat) a b c where "x = Lisp_String a \<and> y = Lisp_String b \<and> z = Lisp_String c \<or>
        x = Lisp_Float a \<and> y = Lisp_Float b \<and> z = Lisp_Float c"
    using equal_method_types [OF eq] equal_method_types [OF eq'] by (elim disjE exE conjE) auto
  then show ?thesis
  proof cases
    case cons
    then show ?thesis using eq eq' cons_equal_trans [OF laws, of h x y] by simp
  next
    case vec
    then show ?thesis using eq eq' trans by (auto simp: vector_equal_True)
  next
    case rt
    then show ?thesis using eq eq' trans by (auto simp: range_table_equal_True Let_def)
  next
    case lrec
    then show ?thesis using eq eq' equal_lawsD(2) [OF o, of x y z] by simp
  next
    case flat
    then show ?thesis using eq eq' by (auto simp: string_equal_def float_equal_def)
  qed
qed

lemma internal_equal_laws:
  assumes "others_ok other"
  shows "equal_laws (internal_equal other h d)"
proof (induction "201 - d" arbitrary: d)
  case 0
  then show ?case by (simp add: equal_laws_def internal_equal.simps [of other h d])
next
  case (Suc n)
  then have laws: "equal_laws (internal_equal other h (d + 1))" by simp
  have "\<not> 200 < d" using Suc.hyps(2) by linarith
  then have eq: "internal_equal other h d x y =
      (if EQ x y then Some (Inr True) else equal_method other (internal_equal other h (d + 1)) h d x y)" for x y
    by (subst internal_equal.simps) simp
  show ?case unfolding equal_laws_def
  proof (intro conjI allI impI)
    fix x y assume xy: "internal_equal other h d x y = Some (Inr True)"
    then show "internal_equal other h d y x = Some (Inr True)"
      unfolding eq using equal_method_sym [OF laws assms, of h d x y] by (auto split: if_splits)
    show "CONSP x = CONSP y"
      using xy equal_method_types [of other "internal_equal other h (d + 1)" h d x y] unfolding eq
      by (cases "x = y") auto
    fix z assume "internal_equal other h d y z = Some (Inr True)"
    with xy show "internal_equal other h d x z = Some (Inr True)"
      unfolding eq using equal_method_trans [OF laws assms, of h d x y z]
      by (cases "x = y"; cases "y = z"; cases "x = z") simp_all
  qed
qed

section \<open>Range tables\<close>

lemma range_table_fun_first:
  assumes "range_table_ok rt" and "i < length (rt_list rt)"
  shows "range_table_fun rt (rte_first (rt_list rt ! i)) = Some (rte_val (rt_list rt ! i))"
proof -
  have ok: "entries_ok (rt_list rt)" using assms(1) by (simp add: range_table_ok_def)
  then have "rte_first (rt_list rt ! i) \<le> rte_last (rt_list rt ! i)" using assms(2) by (simp add: entries_ok_def)
  then show ?thesis unfolding range_table_fun_def using entries_lookup_nth [OF ok assms(2)] by simp
qed

lemma entries_lookup_rel:
  assumes "map (\<lambda>e. (rte_first e, rte_last e)) xs = map (\<lambda>e. (rte_first e, rte_last e)) ys"
    and "\<forall>i < length xs. P (rte_val (xs ! i)) (rte_val (ys ! i))"
  shows "rel_option P (entries_lookup xs p) (entries_lookup ys p)"
  using assms
proof (induction xs arbitrary: ys)
  case (Cons x xs)
  then obtain y ys' where ys: "ys = y # ys'" by (cases ys) auto
  have "\<forall>i < length xs. P (rte_val (xs ! i)) (rte_val (ys' ! i))" "P (rte_val x) (rte_val y)"
    using Cons.prems(2) unfolding ys by fastforce+
  then show ?case using Cons.IH [of ys'] Cons.prems(1) ys by auto
qed auto

text \<open>
  Property C25: \<open>equal\<close> finds two different well-formed range tables equal exactly when they have the
  same ranges and their values at each position are \<open>equal\<close>, compared one level deeper. Tables in
  which neighbouring ranges have values that are \<open>equal\<close> but not \<open>eq\<close> may stand for functions with
  \<open>equal\<close> values and differ, because ranges are merged by \<open>eq\<close>.
\<close>

theorem range_table_equal_spec:
  assumes "range_table_ok (hrt h a)" and "range_table_ok (hrt h b)" and "a \<noteq> b" and "depth \<le> 200"
  shows "internal_equal other h depth (Lisp_Lrecord Lrecord_range_table a) (Lisp_Lrecord Lrecord_range_table b) = Some (Inr True) \<longleftrightarrow>
    map (\<lambda>e. (rte_first e, rte_last e)) (rt_list (hrt h a)) = map (\<lambda>e. (rte_first e, rte_last e)) (rt_list (hrt h b)) \<and>
    (\<forall>p. rel_option (\<lambda>v w. internal_equal other h (depth + 1) v w = Some (Inr True))
           (range_table_fun (hrt h a) p) (range_table_fun (hrt h b) p))"
  (is "?L \<longleftrightarrow> ?ranges \<and> ?vals")
proof -
  let ?e = "internal_equal other h (depth + 1)" and ?as = "rt_list (hrt h a)" and ?bs = "rt_list (hrt h b)"
  have "?L \<longleftrightarrow> range_table_equal ?e (hrt h a) (hrt h b) = Some (Inr True)"
    using assms(3,4) by (simp add: internal_equal.simps [of other h depth])
  also have "\<dots> \<longleftrightarrow> length ?as = length ?bs \<and> (\<forall>i < length ?as. rte_first (?as ! i) = rte_first (?bs ! i) \<and>
      rte_last (?as ! i) = rte_last (?bs ! i) \<and> ?e (rte_val (?as ! i)) (rte_val (?bs ! i)) = Some (Inr True))"
    using Dynarr_at_list [OF assms(1)] Dynarr_at_list [OF assms(2)]
    by (auto simp: range_table_equal_True Dynarr_length_list assms(1,2) Let_def)
  also have "\<dots> \<longleftrightarrow> ?ranges \<and> (\<forall>i < length ?as. ?e (rte_val (?as ! i)) (rte_val (?bs ! i)) = Some (Inr True))"
    by (auto simp: list_eq_iff_nth_eq)
  also have "\<dots> \<longleftrightarrow> ?ranges \<and> ?vals"
  proof (intro conj_cong refl iffI)
    assume "?ranges" "\<forall>i < length ?as. ?e (rte_val (?as ! i)) (rte_val (?bs ! i)) = Some (Inr True)"
    then show ?vals unfolding range_table_fun_def by (intro allI entries_lookup_rel) simp_all
  next
    assume r: "?ranges" and v: "?vals"
    then have len: "length ?bs = length ?as" by (metis length_map)
    show "\<forall>i < length ?as. ?e (rte_val (?as ! i)) (rte_val (?bs ! i)) = Some (Inr True)"
    proof (intro allI impI)
      fix i assume i: "i < length ?as"
      have "rte_first (?as ! i) = rte_first (?bs ! i)" using arg_cong [OF r, of "\<lambda>l. fst (l ! i)"] i len by simp
      then show "?e (rte_val (?as ! i)) (rte_val (?bs ! i)) = Some (Inr True)"
        using spec [OF v, of "rte_first (?as ! i)"] range_table_fun_first [OF assms(1) i] range_table_fun_first [OF assms(2), of i] i len
        by simp
    qed
  qed
  finally show ?thesis .
qed

text \<open>Two tables with the range 3-5, whose values are different strings with the same characters.\<close>

definition string_tables :: lisp_heap where
  "string_tables = empty_heap\<lparr>hstr := (\<lambda>_. ''ab''), hrt := (\<lambda>a. \<lparr>rt_entries = \<lparr>
     base = [\<lparr>rte_first = 3, rte_last = 5, rte_val = Lisp_String a\<rparr>], cur = 1, largest = 1, dyn_max = 1\<rparr>\<rparr>)\<rparr>"

theorem range_table_equal_spec_witness:
  "internal_equal no_method string_tables 0 (Lisp_Lrecord Lrecord_range_table 0) (Lisp_Lrecord Lrecord_range_table 1) = Some (Inr True)"
proof -
  have ok: "range_table_ok (hrt string_tables a)" for a
    by (simp add: string_tables_def range_table_ok_def Dynarr_ok_def Dynarr_contents_def)
  have eq: "internal_equal no_method string_tables 1 (Lisp_String 0) (Lisp_String 1) = Some (Inr True)"
    by (subst internal_equal.simps) (simp add: string_equal_def string_tables_def)
  have "map (\<lambda>e. (rte_first e, rte_last e)) (rt_list (hrt string_tables 0)) =
      map (\<lambda>e. (rte_first e, rte_last e)) (rt_list (hrt string_tables 1))" by (simp add: string_tables_def Dynarr_contents_def)
  moreover have "rel_option (\<lambda>v w. internal_equal no_method string_tables (0 + 1) v w = Some (Inr True))
      (range_table_fun (hrt string_tables 0) p) (range_table_fun (hrt string_tables 1) p)" for p
    using eq by (simp add: range_table_fun_def string_tables_def Dynarr_contents_def)
  ultimately show ?thesis using range_table_equal_spec [OF ok ok, of 0 1 0 no_method] by simp
qed

end
