(* ===== verification/HashTableSpec.thy ===== *)
theory HashTableSpec
  imports HashTableProps HashTableOps EqualEquiv
begin

text \<open>
  The contract of hash tables as Lisp objects: for each of the three tests the test and hash
  functions satisfy the laws of the locale \<open>hash_test\<close>, so the primitives are operations on a map;
  the sizes a table takes; what pruning does to weak tables. The test of an \<open>equal\<close> table may signal an error, for keys that are too deep,
  or not return, for circular ones; the operations do so only when it does.
\<close>

section \<open>Sizes\<close>

lemma prime_search_ge:
  "low < high \<Longrightarrow> high < length primes \<Longrightarrow> requested \<le> primes ! high \<Longrightarrow> requested \<le> prime_search requested low high"
  by (induction requested low high rule: prime_search.induct) (subst prime_search.simps, auto simp: Let_def)

lemma prime_search_index:
  "low < high \<Longrightarrow> high < length primes \<Longrightarrow> \<exists>i. 0 < i \<and> i < length primes \<and> prime_search requested low high = primes ! i"
proof (induction requested low high rule: prime_search.induct)
  case (1 r low high)
  show ?case
  proof (cases "high - low > 1")
    case True
    then show ?thesis using 1 by (subst prime_search.simps) (auto simp: Let_def)
  next
    case False
    then show ?thesis using 1 by (subst prime_search.simps) (auto intro: exI [of _ high])
  qed
qed

lemma length_primes [simp]: "length primes = 71"
  by (simp add: primes_def)

lemma primes_last: "primes ! 70 = 3355070839"
  by (simp add: primes_def)

lemma primes_ge: "0 < i \<Longrightarrow> i < length primes \<Longrightarrow> 29 \<le> primes ! i"
proof -
  have all: "list_all (\<lambda>p. 29 \<le> p) (tl primes)" by (simp add: primes_def)
  assume "0 < i" "i < length primes"
  then have "primes ! i = tl primes ! (i - 1)" "i - 1 < length (tl primes)" by (simp_all add: nth_tl)
  then show ?thesis using all by (simp add: list_all_length)
qed

lemma hash_table_size_ge: "requested \<le> 3355070839 \<Longrightarrow> requested \<le> hash_table_size requested"
  using prime_search_ge [of 0 70 requested] primes_last by (simp add: hash_table_size_def)

lemma hash_table_size_min: "29 \<le> hash_table_size requested"
  using prime_search_index [of 0 70 requested] primes_ge by (auto simp: hash_table_size_def)

text \<open>Parameters with which a table that fills up can always grow.\<close>

definition ht_params :: "Lisp_Hash_Table \<Rightarrow> bool" where
  "ht_params ht \<longleftrightarrow> 29 \<le> ht_size ht \<and> rehash_count ht = to_size (real (ht_size ht) * rehash_threshold ht) \<and>
     0 < rehash_threshold ht \<and> rehash_threshold ht < 1 \<and> 1.04 \<le> rehash_size ht"

definition ht_fits :: "Lisp_Hash_Table \<Rightarrow> bool" where
  "ht_fits ht \<longleftrightarrow> real (ht_size ht) * rehash_size ht \<le> 3355070839"

lemma to_size_le: "0 \<le> x \<Longrightarrow> x \<le> real n \<Longrightarrow> to_size x \<le> n"
  unfolding to_size_def by linarith

lemma le_to_size: "real n \<le> x \<Longrightarrow> n \<le> to_size x"
  unfolding to_size_def by (simp add: le_nat_iff le_floor_iff)

lemma ht_params_room:
  assumes "ht_params ht" and "ht_fits ht" and "ht_count ht < ht_size ht"
  shows "ht_room ht"
proof -
  let ?x = "real (ht_size ht) * rehash_size ht"
  have rs: "1.04 \<le> rehash_size ht" "29 \<le> ht_size ht" and rt: "0 < rehash_threshold ht" "rehash_threshold ht < 1"
    using assms(1) by (simp_all add: ht_params_def)
  have "real (ht_size ht) * 1.04 \<le> ?x" using rs by (intro mult_left_mono) simp_all
  moreover have "real (ht_size ht) + 1 \<le> real (ht_size ht) * 1.04" using rs(2) by simp
  ultimately have "real (ht_size ht + 1) \<le> ?x" by linarith
  then have "ht_size ht + 1 \<le> to_size ?x" by (rule le_to_size)
  also have "to_size ?x \<le> hash_table_size (to_size ?x)"
    using assms(2) rs to_size_le [of ?x 3355070839] by (intro hash_table_size_ge) (simp add: ht_fits_def)
  finally have big: "ht_count ht + 1 < hash_table_size (to_size ?x)" using assms(3) by simp
  have "real (ht_size ht) * rehash_threshold ht \<le> real (ht_size ht)" using rt mult_left_le [of "rehash_threshold ht"] by simp
  then have "rehash_count ht \<le> ht_size ht" using assms(1) rt to_size_le by (simp add: ht_params_def)
  then show ?thesis using big by (auto simp: ht_room_def)
qed

lemma table_kept_params: "table_kept ht ht' \<Longrightarrow> ht_params ht \<Longrightarrow> ht_params ht'"
  using hash_table_size_min by (auto simp: table_kept_def ht_params_def)

section \<open>The laws of the three tests\<close>

text \<open>
  Which keys a test finds equal. The laws of a test are those of the test with other record types
  compared by identity; on plain objects the two are the same.
\<close>

definition finds_equal :: "equality \<Rightarrow> lisp_object \<Rightarrow> lisp_object \<Rightarrow> bool" where
  "finds_equal tst a b \<longleftrightarrow> KEYS_EQUAL_P tst a b = Some (Inr True)"

lemma finds_equal_iff: "finds_equal tst a b \<longleftrightarrow> a = b \<or> tst a b = Some (Inr True)"
  by (simp add: finds_equal_def KEYS_EQUAL_P_def)

abbreviation eq_of :: "lisp_heap \<Rightarrow> hash_table_test \<Rightarrow> lisp_object \<Rightarrow> lisp_object \<Rightarrow> bool" where
  "eq_of h test \<equiv> finds_equal (test_function no_method h test)"

lemma FLOATP_equal:
  "FLOATP a \<Longrightarrow> internal_equal other h 0 a b =
     Some (Inr (a = b \<or> (FLOATP b \<and> hflt h (case a of Lisp_Float x \<Rightarrow> x) = hflt h (case b of Lisp_Float y \<Rightarrow> y))))"
  by (cases a; cases b) (auto simp: internal_equal.simps [of other h 0] float_equal_def)

interpretation eq_table: hash_test addr "eq_of h HASH_TABLE_EQ" for addr h
  by unfold_locales (auto simp: finds_equal_iff)

interpretation eql_table: hash_test "hash_function oh addr h HASH_TABLE_EQL" "eq_of h HASH_TABLE_EQL" for oh addr h
  by unfold_locales
    (auto simp: finds_equal_iff lisp_object_eql_equal_def lisp_object_eql_hash_def FLOATP_equal
      internal_hash.simps [of oh addr h 0] float_hash_def Let_def split: lisp_object.splits if_splits)

lemma no_method_ok: "others_ok no_method" "sound_for oh (no_method d)"
  by (simp_all add: others_ok_def equal_laws_def sound_for_def)

interpretation equal_table: hash_test "hash_function oh addr h HASH_TABLE_EQUAL" "eq_of h HASH_TABLE_EQUAL" for oh addr h
proof unfold_locales
  note laws = equal_lawsD [OF internal_equal_laws [OF no_method_ok(1), of h 0]]
  fix a b c
  show "eq_of h HASH_TABLE_EQUAL a a" by (simp add: finds_equal_iff)
  show "eq_of h HASH_TABLE_EQUAL b a" if "eq_of h HASH_TABLE_EQUAL a b"
    using that laws(1) by (auto simp: finds_equal_iff lisp_object_equal_equal_def)
  show "eq_of h HASH_TABLE_EQUAL a c" if "eq_of h HASH_TABLE_EQUAL a b" "eq_of h HASH_TABLE_EQUAL b c"
    using that laws(2) [of a b c] by (auto simp: finds_equal_iff lisp_object_equal_equal_def)
  show "hash_function oh addr h HASH_TABLE_EQUAL a = hash_function oh addr h HASH_TABLE_EQUAL b"
    if "eq_of h HASH_TABLE_EQUAL a b"
    using that sound_forD [OF internal_equal_hash [OF no_method_ok(2)], where k = 0]
    by (auto simp: finds_equal_iff lisp_object_equal_equal_def lisp_object_equal_hash_def)
qed

lemma table_laws: "hash_test (hash_function oh addr h test) (eq_of h test)"
  using eq_table.hash_test_axioms eql_table.hash_test_axioms equal_table.hash_test_axioms by (cases test) auto

section \<open>Table objects\<close>

abbreviation table_of :: "hash_heap \<Rightarrow> lisp_object \<Rightarrow> Lisp_Hash_Table" where
  "table_of w t \<equiv> hht w (XHASH_TABLE t)"

definition same_key :: "hash_env \<Rightarrow> hash_heap \<Rightarrow> lisp_object \<Rightarrow> lisp_object \<Rightarrow> lisp_object \<Rightarrow> bool" where
  "same_key E w t = finds_equal (ht_tst E w (table_of w t))"

definition table_map :: "hash_env \<Rightarrow> hash_heap \<Rightarrow> lisp_object \<Rightarrow> lisp_object \<Rightarrow> lisp_object option" where
  "table_map E w t = ht_map (same_key E w t) (table_of w t)"

text \<open>
  Possible keys of a table: all objects if it is an \<open>eq\<close> or \<open>eql\<close> table, a set of plain objects if it
  is an \<open>equal\<close> table. A table is in order when its array and count are and its keys are in the set.
\<close>

definition keys_ok :: "hash_env \<Rightarrow> hash_heap \<Rightarrow> lisp_object \<Rightarrow> lisp_object set \<Rightarrow> bool" where
  "keys_ok E w t S \<longleftrightarrow> (ht_test (table_of w t) = HASH_TABLE_EQUAL \<longrightarrow> plain_objects (other_equal E) (lheap w) S)"

definition table_ok :: "hash_env \<Rightarrow> hash_heap \<Rightarrow> lisp_object set \<Rightarrow> lisp_object \<Rightarrow> bool" where
  "table_ok E w S t \<longleftrightarrow> HASH_TABLEP t \<and> keys_ok E w t S \<and> ht_keys (table_of w t) \<subseteq> S \<and>
     ht_ok (ht_hsh E w (table_of w t)) (same_key E w t) (table_of w t) \<and> ht_params (table_of w t)"

text \<open>
  What an operation that looks up a key returns: the given result, unless the comparison of the key
  with one of the table, where it is made, signals an error or does not return.
\<close>

definition table_result ::
    "hash_env \<Rightarrow> hash_heap \<Rightarrow> lisp_object \<Rightarrow> lisp_object \<Rightarrow> 'a lresult option \<Rightarrow> 'a \<Rightarrow> bool" where
  "table_result E w t k r x \<longleftrightarrow>
     (case r of
        Some (Inr y) \<Rightarrow> y = x
      | Some (Inl e) \<Rightarrow> (\<exists>k' \<in> ht_keys (table_of w t). KEYS_EQUAL_P (ht_tst E w (table_of w t)) k' k = Some (Inl e))
      | None \<Rightarrow> (\<exists>k' \<in> ht_keys (table_of w t). KEYS_EQUAL_P (ht_tst E w (table_of w t)) k' k = None))"

lemma table_result_lookup: "table_result E w t k r x = lookup_result (ht_tst E w (table_of w t)) (table_of w t) k r x"
  by (simp add: table_result_def lookup_result_def)

lemma keys_agree:
  assumes "keys_ok E w t S"
  shows "agree_on S (ht_tst E w (table_of w t)) (test_function no_method (lheap w) (ht_test (table_of w t)))"
  using assms internal_equal_agree [of "other_equal E" "lheap w" S 0]
  by (cases "ht_test (table_of w t)")
    (auto simp: keys_ok_def agree_on_def lisp_object_eql_equal_def lisp_object_equal_equal_def FLOATP_equal)

lemma same_key_eq_of:
  "keys_ok E w t S \<Longrightarrow> a \<in> S \<Longrightarrow> b \<in> S \<Longrightarrow> same_key E w t a b = eq_of (lheap w) (ht_test (table_of w t)) a b"
  using agree_onD [OF keys_agree] by (simp add: same_key_def finds_equal_iff)

lemma ht_map_cong:
  assumes "\<And>k'. k' \<in> ht_keys ht \<Longrightarrow> e1 k' k = e2 k' k"
  shows "ht_map e1 ht k = ht_map e2 ht k"
proof -
  have "find (\<lambda>x. e1 (fst x) k) xs = find (\<lambda>x. e2 (fst x) k) xs" if "set xs \<subseteq> {x. Some x \<in> set (hentries ht)}" for xs
    using that assms [OF ht_keysI] by (induction xs) auto
  then show ?thesis by (simp add: ht_map_def map_filter_id_set subset_iff)
qed

lemma ht_ok_cong:
  assumes "\<And>a b. a \<in> ht_keys ht \<Longrightarrow> b \<in> ht_keys ht \<Longrightarrow> e1 a b = e2 a b"
  shows "ht_ok hsh e1 ht = ht_ok hsh e2 ht"
proof -
  have "keys_distinct e1 (hentries ht) = keys_distinct e2 (hentries ht)"
    by (intro keys_distinct_cong assms ht_keysI)
  then show ?thesis by (simp add: ht_ok_def)
qed

lemma table_okD:
  assumes "table_ok E w S t"
  shows "HASH_TABLEP t" "ht_params (table_of w t)" "ht_keys (table_of w t) \<subseteq> S" "keys_ok E w t S"
    "ht_ok (ht_hsh E w (table_of w t)) (eq_of (lheap w) (ht_test (table_of w t))) (table_of w t)"
    "k \<in> S \<Longrightarrow> table_map E w t k = ht_map (eq_of (lheap w) (ht_test (table_of w t))) (table_of w t) k"
    "k \<in> S \<Longrightarrow> decides (ht_tst E w (table_of w t)) (eq_of (lheap w) (ht_test (table_of w t))) (table_of w t) k"
    "a \<in> S \<Longrightarrow> k \<in> S \<Longrightarrow> same_key E w t a k = eq_of (lheap w) (ht_test (table_of w t)) a k"
    "ht_count (table_of w t) < ht_size (table_of w t)"
proof -
  let ?ht = "table_of w t"
  show S: "HASH_TABLEP t" "ht_params ?ht" "ht_keys ?ht \<subseteq> S" "keys_ok E w t S" "ht_count ?ht < ht_size ?ht"
    using assms by (auto simp: table_ok_def ht_ok_def)
  note same = same_key_eq_of [OF S(4)]
  show "ht_ok (ht_hsh E w ?ht) (eq_of (lheap w) (ht_test ?ht)) ?ht"
    using assms ht_ok_cong [of ?ht "same_key E w t" "eq_of (lheap w) (ht_test ?ht)"] same S(3) by (auto simp: table_ok_def)
  show "a \<in> S \<Longrightarrow> k \<in> S \<Longrightarrow> same_key E w t a k = eq_of (lheap w) (ht_test ?ht) a k" by (rule same)
  assume "k \<in> S"
  with same S(3) have eq: "same_key E w t k' k = eq_of (lheap w) (ht_test ?ht) k' k" if "k' \<in> ht_keys ?ht" for k' using that by auto
  then show "table_map E w t k = ht_map (eq_of (lheap w) (ht_test ?ht)) ?ht k" unfolding table_map_def by (rule ht_map_cong)
  show "decides (ht_tst E w ?ht) (eq_of (lheap w) (ht_test ?ht)) ?ht k"
    unfolding decides_def using eq by (simp add: same_key_def) (simp add: finds_equal_def)
qed

lemma lheap_set [simp]: "lheap (set_hash_table t ht w) = lheap w"
  by (simp add: set_hash_table_def lisp_heap.defs)

lemma table_of_set [simp]: "table_of (set_hash_table t ht w) t = ht"
  by (simp add: set_hash_table_def)

text \<open>A table object after an operation that leaves its test as it is.\<close>

lemma table_ok_set:
  assumes "table_ok E w S t" and "ht_ok (ht_hsh E w (table_of w t)) (eq_of (lheap w) (ht_test (table_of w t))) ht'"
    and "table_kept (table_of w t) ht'" and "ht_keys ht' \<subseteq> S"
  shows "table_ok E (set_hash_table t ht' w) S t"
    and "k \<in> S \<Longrightarrow> table_map E (set_hash_table t ht' w) t k = ht_map (eq_of (lheap w) (ht_test (table_of w t))) ht' k"
proof -
  note D = table_okD [OF assms(1)]
  have test: "ht_test ht' = ht_test (table_of w t)" and par: "ht_params ht'" using table_kept_params [OF assms(3) D(2)] assms(3) by (simp_all add: table_kept_def)
  have same: "same_key E (set_hash_table t ht' w) t = same_key E w t" by (simp add: same_key_def test)
  have "ht_ok (ht_hsh E w (table_of w t)) (same_key E w t) ht'"
    using assms(2,4) D(8) ht_ok_cong [of ht' "same_key E w t" "eq_of (lheap w) (ht_test (table_of w t))"] by blast
  then show "table_ok E (set_hash_table t ht' w) S t"
    using D(1,4) assms(4) par by (simp add: table_ok_def same keys_ok_def test)
  show "k \<in> S \<Longrightarrow> table_map E (set_hash_table t ht' w) t k = ht_map (eq_of (lheap w) (ht_test (table_of w t))) ht' k"
    unfolding table_map_def same table_of_set using assms(4) D(8) by (intro ht_map_cong) auto
qed

text \<open>
  Property C3: \<open>puthash\<close> on a table that is in order and can grow within the list of sizes returns
  the value, leaves the table in order and maps the key, and every key equal to it under the test of
  the table, to the value; all other keys keep what they had. It signals an error, or does not return,
  only where the comparison of the key with a key of the table does, and then changes nothing.
\<close>

theorem Fputhash_spec:
  assumes "table_ok E w S t" and "k \<in> S" and "ht_fits (table_of w t)"
  shows "\<exists>w'. table_result E w t k (Fputhash E k v t w) (v, w') \<and> table_ok E w' S t \<and>
    (\<forall>k' \<in> S. table_map E w' t k' = (if same_key E w t k k' then Some v else table_map E w t k')) \<and>
    ht_count (table_of w' t) = ht_count (table_of w t) + (if table_map E w t k = None then 1 else 0)"
proof -
  note D = table_okD [OF assms(1)]
  let ?ht = "table_of w t" let ?e = "eq_of (lheap w) (ht_test ?ht)"
  have room: "ht_room ?ht" using ht_params_room [OF D(2) assms(3) D(9)] .
  from hash_test.puthash_ok [OF table_laws D(5) room D(7) [OF assms(2)], of v]
  obtain ht' where ht': "lookup_result (ht_tst E w ?ht) ?ht k (puthash (ht_hsh E w ?ht) (ht_tst E w ?ht) k v ?ht) ht'"
    "ht_ok (ht_hsh E w ?ht) ?e ht'" "ht_map ?e ht' = (\<lambda>k'. if ?e k k' then Some v else ht_map ?e ?ht k')"
    "ht_count ht' = (if ht_map ?e ?ht k = None then ht_count ?ht + 1 else ht_count ?ht)"
    "table_kept ?ht ht'" "ht_keys ht' \<subseteq> insert k (ht_keys ?ht)" by blast
  have keys: "ht_keys ht' \<subseteq> S" using ht'(6) D(3) assms(2) by auto
  note set = table_ok_set [OF assms(1) ht'(2,5) keys]
  have "table_result E w t k (Fputhash E k v t w) (v, set_hash_table t ht' w)"
    unfolding table_result_lookup Fputhash_def xhash_table_def using D(1) by (auto intro!: lookup_result_lbind [OF ht'(1)])
  then show ?thesis using set ht'(3,4) D(6,8) assms(2) by (intro exI [of _ "set_hash_table t ht' w"]) simp
qed

text \<open>
  Property C23: \<open>gethash\<close> returns the value of the key in the map of the table, or the default; it
  signals an error, or does not return, only where the comparison of the key with a key of the table does.
\<close>

theorem Fgethash_spec:
  assumes "table_ok E w S t" and "k \<in> S"
  shows "table_result E w t k (Fgethash E k t d w) (case table_map E w t k of None \<Rightarrow> d | Some v \<Rightarrow> v)"
  using hash_test.gethash_map [OF table_laws table_okD(5,7) [OF assms(1)], of k d] table_okD(1,6) [OF assms(1)] assms(2)
  by (simp add: table_result_lookup Fgethash_def xhash_table_def)

text \<open>
  Property C4: \<open>remhash\<close> removes the key from the map, moves the entries behind it so that the table
  stays in order, and tells whether there was one; it signals an error, or does not return, only where
  the comparison of the key with a key of the table does, and then changes nothing.
\<close>

theorem Fremhash_spec:
  assumes "table_ok E w S t" and "k \<in> S"
  shows "\<exists>w'. table_result E w t k (Fremhash E k t w) (if table_map E w t k = None then Qnil else Qt, w') \<and>
    table_ok E w' S t \<and> (\<forall>k' \<in> S. table_map E w' t k' = (if same_key E w t k k' then None else table_map E w t k'))"
proof -
  note D = table_okD [OF assms(1)]
  let ?ht = "table_of w t" let ?e = "eq_of (lheap w) (ht_test ?ht)"
  from hash_test.remhash_ok [OF table_laws D(5) D(7) [OF assms(2)]]
  obtain ht' where ht': "lookup_result (ht_tst E w ?ht) ?ht k (remhash (ht_hsh E w ?ht) (ht_tst E w ?ht) k ?ht)
      (if ht_map ?e ?ht k = None then Qnil else Qt, ht')"
    "ht_ok (ht_hsh E w ?ht) ?e ht'" "ht_map ?e ht' = (\<lambda>k'. if ?e k k' then None else ht_map ?e ?ht k')"
    "table_kept ?ht ht'" "ht_keys ht' \<subseteq> ht_keys ?ht" by blast
  have keys: "ht_keys ht' \<subseteq> S" using ht'(5) D(3) by auto
  note set = table_ok_set [OF assms(1) ht'(2,4) keys]
  have "table_result E w t k (Fremhash E k t w) (if table_map E w t k = None then Qnil else Qt, set_hash_table t ht' w)"
    unfolding table_result_lookup Fremhash_def xhash_table_def D(6) [OF assms(2)] using D(1)
    by (auto intro!: lookup_result_lbind [OF ht'(1)] split del: if_split)
  then show ?thesis using set ht'(3) D(6,8) assms(2) by (intro exI [of _ "set_hash_table t ht' w"]) simp
qed

section \<open>New tables\<close>

lemma make_general_ok:
  assumes "rt \<le> 0 \<or> rt < 1" and "rs \<le> 1 \<or> 1.04 \<le> rs"
  shows "ht_ok hsh eqk (make_general_lisp_hash_table test sz rs rt weak) \<and>
    ht_params (make_general_lisp_hash_table test sz rs rt weak) \<and> ht_keys (make_general_lisp_hash_table test sz rs rt weak) = {} \<and>
    ht_map eqk (make_general_lisp_hash_table test sz rs rt weak) = (\<lambda>_. None)"
proof -
  let ?ht = "make_general_lisp_hash_table test sz rs rt weak" let ?n = "ht_size ?ht"
  have es: "hentries ?ht = replicate (?n + 1) None" "ht_count ?ht = 0"
    by (simp_all add: make_general_lisp_hash_table_def compute_hash_table_derived_values_def Let_def)
  have n: "29 \<le> ?n" using hash_table_size_min
    by (simp add: make_general_lisp_hash_table_def compute_hash_table_derived_values_def Let_def)
  have "ht_params ?ht" using assms n
    by (auto simp: ht_params_def) (auto simp: make_general_lisp_hash_table_def compute_hash_table_derived_values_def Let_def)
  moreover have "ht_ok hsh eqk ?ht"
    unfolding ht_ok_def es using probe_ok_empty keys_distinct_None n occupied_simps(5) by presburger
  moreover have "List.map_filter id (hentries ?ht) = []"
    using map_filter_id_set [of _ "hentries ?ht"] unfolding es
    by (metis in_set_replicate list.set_intros(1) neq_Nil_conv option.distinct(1))
  moreover have "ht_keys ?ht = {}" by (simp add: ht_keys_def es)
  ultimately show ?thesis by (simp add: ht_map_def fun_eq_iff)
qed

lemma next_weak_upd [simp]:
  "ht_ok hsh eqk (ht\<lparr>next_weak := nw\<rparr>) = ht_ok hsh eqk ht" "ht_params (ht\<lparr>next_weak := nw\<rparr>) = ht_params ht"
  "ht_map eqk (ht\<lparr>next_weak := nw\<rparr>) = ht_map eqk ht" "ht_keys (ht\<lparr>next_weak := nw\<rparr>) = ht_keys ht"
proof -
  have "HASH_CODE hsh (ht\<lparr>next_weak := nw\<rparr>) = HASH_CODE hsh ht" by (simp add: HASH_CODE_def fun_eq_iff)
  then show "ht_ok hsh eqk (ht\<lparr>next_weak := nw\<rparr>) = ht_ok hsh eqk ht" by (simp add: ht_ok_def)
qed (simp_all add: ht_params_def ht_map_def ht_keys_def fun_eq_iff)

lemma decode_and_make_table:
  assumes "decode_and_make p w = Inr (t, w')"
  shows "\<exists>test weak nw. t = Lisp_Lrecord Lrecord_hash_table (hht_next w) \<and>
    table_of w' t = (make_general_lisp_hash_table test (decode_hash_table_size (p_size p))
      (decode_hash_table_rehash_size w (p_rehash_size p)) (decode_hash_table_rehash_threshold w (p_rehash_threshold p)) weak)
      \<lparr>next_weak := nw\<rparr> \<and> lheap w' = lheap w \<and>
    (\<forall>a < hht_next w. hht w' a = hht w a)"
proof -
  have same: "ht = ht\<lparr>next_weak := next_weak ht\<rparr>" for ht :: Lisp_Hash_Table by simp
  obtain test weak where "make_standard_lisp_hash_table test (decode_hash_table_size (p_size p))
      (decode_hash_table_rehash_size w (p_rehash_size p)) (decode_hash_table_rehash_threshold w (p_rehash_threshold p))
      weak w = (t, w')"
    using assms by (auto simp: decode_and_make_def split: sum.splits)
  then show ?thesis
    by (intro exI [of _ test] exI [of _ weak] exI [of _ "next_weak (table_of w' t)"])
      (auto simp: make_standard_lisp_hash_table_def alloc_hash_table_def lisp_heap.defs Let_def split: if_splits)
qed

text \<open>
  A table that \<open>make-hash-table\<close> returns is a new object in order, with the empty map,
  if the rehash size is not below 1.04; no other table changes. The keys of an \<open>equal\<close> table are to
  be plain objects.
\<close>

theorem Fmake_hash_table_spec:
  assumes "Fmake_hash_table args w = Inr (t, w')" and "1.04 \<le> rehash_size (table_of w' t)"
    and "plain_objects (other_equal E) (lheap w) S"
  shows "t = Lisp_Lrecord Lrecord_hash_table (hht_next w) \<and> table_ok E w' S t \<and> table_map E w' t = (\<lambda>_. None) \<and>
    (\<forall>a < hht_next w. hht w' a = hht w a)"
proof -
  obtain p where p: "decode_and_make p w = Inr (t, w')"
    "VALIDATE_VAR (p_rehash_threshold p) (hash_table_rehash_threshold_validate w (p_rehash_threshold p)) = Inr ()"
    using assms(1) by (auto simp: Fmake_hash_table_def split: sum.splits)
  let ?rt = "decode_hash_table_rehash_threshold w (p_rehash_threshold p)"
  have rt: "?rt \<le> 0 \<or> ?rt < 1" using p(2)
    by (auto simp: VALIDATE_VAR_def hash_table_rehash_threshold_validate_def decode_hash_table_rehash_threshold_def split: if_splits)
  from decode_and_make_table [OF p(1)] obtain test weak nw where new: "t = Lisp_Lrecord Lrecord_hash_table (hht_next w)"
    "table_of w' t = (make_general_lisp_hash_table test (decode_hash_table_size (p_size p))
      (decode_hash_table_rehash_size w (p_rehash_size p)) ?rt weak)\<lparr>next_weak := nw\<rparr>"
    "\<forall>a < hht_next w. hht w' a = hht w a" and heap: "lheap w' = lheap w" by blast
  let ?rs = "decode_hash_table_rehash_size w (p_rehash_size p)"
  have "?rs \<le> 1 \<or> 1.04 \<le> ?rs" using assms(2) unfolding new(2)
    by (simp add: make_general_lisp_hash_table_def compute_hash_table_derived_values_def Let_def split: if_splits)
  from make_general_ok [OF rt this] show ?thesis using new(1,3) assms(3)
    unfolding table_ok_def table_map_def keys_ok_def heap new(2) by simp
qed

text \<open>
  A heap with one \<open>equal\<close> table, and an environment without equality methods for other records. The
  integers are plain objects.
\<close>

definition plain_env :: hash_env where
  "plain_env = \<lparr>other_equal = no_method, other_hash = \<lambda>_ _. 0, LISP_HASH = \<lambda>_. 5\<rparr>"

definition no_tables :: hash_heap where
  "no_tables = lisp_heap.extend empty_heap \<lparr>hht = \<lambda>_. undefined, hht_next = 0, Vall_weak_hash_tables = Qnil\<rparr>"

definition one_table :: hash_heap where
  "one_table = snd (make_lisp_hash_table 16 HASH_TABLE_NON_WEAK HASH_TABLE_EQUAL no_tables)"

abbreviation "table0 \<equiv> Lisp_Lrecord Lrecord_hash_table 0"

lemma all_plain: "plain_objects no_method h UNIV"
proof -
  have "by_identity no_method x" for x by (cases x) auto
  then show ?thesis by (simp add: plain_objects_def)
qed

lemma one_table_of: "table_of one_table table0 = make_general_lisp_hash_table HASH_TABLE_EQUAL 16 (- 1) (- 1) HASH_TABLE_NON_WEAK"
  by (simp add: one_table_def make_lisp_hash_table_def make_standard_lisp_hash_table_def alloc_hash_table_def
      no_tables_def lisp_heap.defs Let_def)

lemma one_table_ok: "table_ok plain_env one_table UNIV table0"
  using make_general_ok [of "- 1" "- 1"] unfolding table_ok_def keys_ok_def one_table_of
  by (simp add: plain_env_def all_plain)

lemma one_table_map: "table_map plain_env one_table table0 = (\<lambda>_. None)"
  using make_general_ok [of "- 1" "- 1"] unfolding table_map_def one_table_of by simp

lemma one_table_keys: "ht_keys (table_of one_table table0) = {}"
  using make_general_ok [of "- 1" "- 1"] unfolding one_table_of by simp

lemma one_table_fits: "ht_fits (table_of one_table table0)"
proof -
  have "\<lfloor>83 / (3 :: real)\<rfloor> = 27" by (simp add: floor_unique)
  then have "to_size (16 / 0.6 + 1) = 27" by (simp add: to_size_def)
  moreover have "hash_table_size 27 = 29"
    by (simp add: hash_table_size_def prime_search.simps primes_def)
  ultimately show ?thesis unfolding one_table_of ht_fits_def
    by (simp add: make_general_lisp_hash_table_def compute_hash_table_derived_values_def Let_def)
qed

lemma one_table_result: "table_result E one_table table0 k r x \<longleftrightarrow> r = Some (Inr x)"
  unfolding table_result_def one_table_keys by (auto split: option.splits sum.splits)

theorem Fputhash_spec_witness:
  "\<exists>w'. Fputhash plain_env (Lisp_Int 1) Qt table0 one_table = Some (Inr (Qt, w')) \<and> table_ok plain_env w' UNIV table0 \<and>
    table_map plain_env w' table0 (Lisp_Int 1) = Some Qt"
  using Fputhash_spec [OF one_table_ok UNIV_I one_table_fits, of "Lisp_Int 1" Qt]
  by (auto simp: same_key_def finds_equal_iff one_table_result)

theorem Fgethash_spec_witness:
  "Fgethash plain_env (Lisp_Int 1) table0 Qt one_table = Some (Inr Qt)"
  using Fgethash_spec [OF one_table_ok UNIV_I, of "Lisp_Int 1" Qt] by (simp add: one_table_map one_table_result)

theorem Fremhash_spec_witness:
  "\<exists>w'. Fremhash plain_env (Lisp_Int 1) table0 one_table = Some (Inr (Qnil, w')) \<and> table_ok plain_env w' UNIV table0"
  using Fremhash_spec [OF one_table_ok UNIV_I, of "Lisp_Int 1"] by (auto simp: one_table_map one_table_result)

theorem Fmake_hash_table_spec_witness:
  "\<exists>w'. Fmake_hash_table [Q_test, Qeq] no_tables = Inr (table0, w') \<and> table_ok plain_env w' UNIV table0"
proof -
  have "\<exists>t w'. Fmake_hash_table [Q_test, Qeq] no_tables = Inr (t, w') \<and> 1.04 \<le> rehash_size (table_of w' t)"
    by (auto simp: Fmake_hash_table_def VALIDATE_VAR_def hash_table_test_validate_def decode_and_make_def
      decode_hash_table_test_def decode_hash_table_weakness_def make_standard_lisp_hash_table_def alloc_hash_table_def
      decode_hash_table_rehash_size_def make_general_lisp_hash_table_def compute_hash_table_derived_values_def Let_def)
  then obtain t w' where "Fmake_hash_table [Q_test, Qeq] no_tables = Inr (t, w')" "1.04 \<le> rehash_size (table_of w' t)" by blast
  with Fmake_hash_table_spec [OF this, of plain_env UNIV] show ?thesis
    by (auto simp: plain_env_def all_plain) (auto simp: no_tables_def lisp_heap.defs)
qed

end
