(* ===== verification/HashTableLimits.thy ===== *)
theory HashTableLimits
  imports HashTableSpec
begin

text \<open>
  Two limits of hash tables: what happens when the rehash size is so close to one that a table
  cannot grow, and how many entries the size given to \<open>make-hash-table\<close> leaves room for.
\<close>

section \<open>A full table\<close>

text \<open>Without a clear slot and without a matching key a probe never ends.\<close>

lemma key_probing_loop_full:
  assumes "\<And>i. i < n \<Longrightarrow> \<exists>x. es ! i = Some x \<and> stop x = Some (Inr False)" and "es ! n = None" and "p \<le> n" and "0 < n"
  shows "key_probing_loop stop es n p = None"
proof (rule ccontr)
  assume "key_probing_loop stop es n p \<noteq> None"
  then obtain r where r: "key_probing_loop stop es n p = Some r" by blast
  have "(st = stop \<and> fs = es \<and> m = n \<and> q \<le> n \<longrightarrow> False)" if "key_probing_loop st fs m q = Some r" for st fs m q r
  proof (rule key_probing_loop.raw_induct [OF _ that, where P = "\<lambda>st fs m q r. st = stop \<and> fs = es \<and> m = n \<and> q \<le> n \<longrightarrow> False"])
    fix pl :: "(hentry \<Rightarrow> bool lresult option) \<Rightarrow> hentry option list \<Rightarrow> nat \<Rightarrow> nat \<Rightarrow> nat lresult option" and st fs m q r
    assume IH: "\<And>st fs m q r. pl st fs m q = Some r \<Longrightarrow> st = stop \<and> fs = es \<and> m = n \<and> q \<le> n \<longrightarrow> False"
      and run: "(case fs ! q of
         None \<Rightarrow> if q = m then case fs ! 0 of None \<Rightarrow> Some (Inr 0)
                                | Some e \<Rightarrow> lbind (st e) (\<lambda>b. if b then Some (Inr 0) else pl st fs m 1)
                 else Some (Inr q)
       | Some e \<Rightarrow> lbind (st e) (\<lambda>b. if b then Some (Inr q) else pl st fs m (q + 1))) = Some r"
    show "st = stop \<and> fs = es \<and> m = n \<and> q \<le> n \<longrightarrow> False"
    proof
      assume eq: "st = stop \<and> fs = es \<and> m = n \<and> q \<le> n"
      obtain x0 where x0: "es ! 0 = Some x0" "stop x0 = Some (Inr False)" using assms(1) [OF assms(4)] by blast
      show False
      proof (cases "q = n")
        case True
        then have "pl stop es n 1 = Some r" using run eq assms(2) x0 by simp
        then show ?thesis using IH [of stop es n 1 r] assms(4) by simp
      next
        case False
        then have "q < n" using eq by simp
        then obtain x where "es ! q = Some x" "stop x = Some (Inr False)" using assms(1) by blast
        then have "pl stop es n (q + 1) = Some r" using run eq by simp
        then show ?thesis using IH [of stop es n "q + 1" r] \<open>q < n\<close> by simp
      qed
    qed
  qed
  then show False using r assms(3) by blast
qed

text \<open>The test of an \<open>eq\<close> table never decides; with it the keys found equal are the same objects.\<close>

abbreviation never_equal :: equality where
  "never_equal \<equiv> \<lambda>_ _. Some (Inr False)"

lemma never_equal [simp]:
  "KEYS_EQUAL_P never_equal a b = Some (Inr (a = b))" "finds_equal never_equal = (=)" "decides never_equal (=) ht k"
  "lookup_result never_equal ht k r x \<longleftrightarrow> r = Some (Inr x)"
  by (auto simp: KEYS_EQUAL_P_def finds_equal_iff fun_eq_iff decides_def lookup_result_def split: option.splits sum.splits)

lemmas eq_facts = eq_table.puthash_ok [unfolded test_function.simps never_equal(2)]
  eq_table.ht_map_iff [unfolded test_function.simps never_equal(2)]
  eq_table.find_hentry_ok [unfolded test_function.simps never_equal(2)]

text \<open>Storing the integers from 0 on under themselves.\<close>

primrec puthash_ints :: "(lisp_object \<Rightarrow> hashcode) \<Rightarrow> nat \<Rightarrow> Lisp_Hash_Table \<Rightarrow> Lisp_Hash_Table lresult option" where
  "puthash_ints hsh 0 ht = Some (Inr ht)"
| "puthash_ints hsh (Suc n) ht =
     lbind (puthash_ints hsh n ht) (\<lambda>ht'. puthash hsh never_equal (Lisp_Int (int n)) (Lisp_Int (int n)) ht')"

definition ints_stored :: "(lisp_object \<Rightarrow> hashcode) \<Rightarrow> nat \<Rightarrow> Lisp_Hash_Table \<Rightarrow> bool" where
  "ints_stored hsh n ht \<longleftrightarrow> ht_ok hsh (=) ht \<and> ht_count ht = n \<and>
     (\<forall>k. ht_map (=) ht k \<noteq> None \<longrightarrow> (\<exists>i < n. k = Lisp_Int (int i)))"

lemma ints_stored_put:
  assumes "ints_stored hsh n ht" and "ht_room ht"
  shows "\<exists>ht'. puthash hsh never_equal (Lisp_Int (int n)) (Lisp_Int (int n)) ht = Some (Inr ht') \<and> ints_stored hsh (Suc n) ht'"
proof -
  let ?k = "Lisp_Int (int n)"
  have "ht_map (=) ht ?k = None" using assms(1) unfolding ints_stored_def by fastforce
  moreover obtain ht' where ht': "puthash hsh never_equal ?k ?k ht = Some (Inr ht')" "ht_ok hsh (=) ht'"
    "ht_map (=) ht' = (\<lambda>k'. if ?k = k' then Some ?k else ht_map (=) ht k')"
    "ht_count ht' = (if ht_map (=) ht ?k = None then ht_count ht + 1 else ht_count ht)"
    using eq_facts(1) [OF _ assms(2) never_equal(3), of hsh ?k ?k] assms(1) unfolding ints_stored_def never_equal by blast
  moreover have "\<exists>i < Suc n. k = Lisp_Int (int i)" if "ht_map (=) ht' k \<noteq> None" for k
    using that assms(1) unfolding ht'(3) ints_stored_def
    by (auto split: if_splits)
  ultimately show ?thesis using assms(1) by (auto simp: ints_stored_def)
qed

text \<open>Parameters of a table: its size and whether its next insertion enlarges it.\<close>

definition ht_static :: "nat \<Rightarrow> nat \<Rightarrow> real \<Rightarrow> real \<Rightarrow> Lisp_Hash_Table \<Rightarrow> bool" where
  "ht_static sz rc rs rt ht \<longleftrightarrow> ht_size ht = sz \<and> rehash_count ht = rc \<and> rehash_size ht = rs \<and> rehash_threshold ht = rt"

lemma puthash_static:
  assumes "puthash hsh tst k v ht = Some (Inr ht')" and "ht_static sz (to_size (real sz * rt)) rs rt ht"
    and "hash_table_size (to_size (real sz * rs)) = sz \<or> ht_count ht + 1 < to_size (real sz * rt)"
  shows "ht_static sz (to_size (real sz * rt)) rs rt ht'"
  using assms resize_params [of hsh _ _ ht']
  by (auto simp: puthash_def lbind_def Let_def enlarge_hash_table_def ht_static_def split: option.splits sum.splits if_splits)

lemma puthash_ints_static:
  assumes "ints_stored hsh 0 ht" and "ht_static sz (to_size (real sz * rt)) rs rt ht"
    and grow: "\<And>m. m < n \<Longrightarrow> hash_table_size (to_size (real sz * rs)) = sz \<or> m + 1 < to_size (real sz * rt)"
    and "n < sz"
  shows "\<exists>ht'. puthash_ints hsh n ht = Some (Inr ht') \<and> ints_stored hsh n ht' \<and> ht_static sz (to_size (real sz * rt)) rs rt ht'"
  using assms(3,4)
proof (induction n)
  case 0
  then show ?case using assms(1,2) by simp
next
  case (Suc n)
  then obtain ht' where ht': "puthash_ints hsh n ht = Some (Inr ht')" "ints_stored hsh n ht'"
    "ht_static sz (to_size (real sz * rt)) rs rt ht'" using less_SucI by (metis Suc_lessD)
  have room: "ht_room ht'" using ht'(2,3) Suc.prems(1) [of n] Suc.prems(2) by (auto simp: ht_room_def ints_stored_def ht_static_def)
  from ints_stored_put [OF ht'(2) this] obtain ht'' where
    ht'': "puthash hsh never_equal (Lisp_Int (int n)) (Lisp_Int (int n)) ht' = Some (Inr ht'')" "ints_stored hsh (Suc n) ht''" by blast
  have "ht_count ht' = n" using ht'(2) by (simp add: ints_stored_def)
  then have "ht_static sz (to_size (real sz * rt)) rs rt ht''" using puthash_static [OF ht''(1) ht'(3)] Suc.prems(1) [of n] by simp
  then show ?case using ht' ht'' by simp
qed

lemma occupied_all:
  assumes "length es = Suc n" and "es ! n = None" and "occupied es = n" and "i < n"
  shows "\<exists>x. es ! i = Some x"
proof (rule ccontr)
  assume none: "\<nexists>x. es ! i = Some x"
  have "occupied (take n es) = n" using occupied_take [OF assms(1,2)] assms(3) by simp
  then have "filter (\<lambda>e. e \<noteq> None) (take n es) = take n es"
    unfolding occupied_def using assms(1) by (metis filter_id_conv length_filter_less length_take lessI less_not_refl min.absorb4)
  then have "\<forall>e \<in> set (take n es). e \<noteq> None" by (simp only: filter_id_conv)
  moreover have "es ! i \<in> set (take n es)" using assms(1,4) by (auto simp: in_set_conv_nth)
  ultimately show False using none by (cases "es ! i") auto
qed

text \<open>The insertion that fills the last clear slot of a table that does not grow.\<close>

lemma puthash_fills:
  assumes st: "ints_stored hsh n ht" and "n + 1 = ht_size ht" and "rehash_count ht \<le> n + 1"
    and same: "hash_table_size (to_size (real (ht_size ht) * rehash_size ht)) = ht_size ht"
  shows "\<exists>ht'. puthash hsh never_equal (Lisp_Int (int n)) (Lisp_Int (int n)) ht = Some (Inr ht') \<and>
    (\<forall>i < ht_size ht'. \<exists>j \<le> n. \<exists>v. hentries ht' ! i = Some (Lisp_Int (int j), v)) \<and> hentries ht' ! ht_size ht' = None \<and>
    0 < ht_size ht'"
proof -
  let ?k = "Lisp_Int (int n)"
  have ok: "ht_ok hsh (=) ht" "ht_count ht = n" using st by (simp_all add: ints_stored_def)
  note kd = ht_okD(2) [OF ok(1)]
  have stored: "\<exists>i < n. fst x = Lisp_Int (int i)" if "Some x \<in> set (hentries ht)" for x
    using that st eq_facts(2) [OF kd, of "fst x" "snd x"]
    unfolding ints_stored_def by (metis option.distinct(1) prod.collapse)
  from eq_facts(3) [OF ok(1) never_equal(3), of ?k]
  obtain q where q: "q < ht_size ht" "find_hentry hsh never_equal ?k ht = Some (Inr q)"
    "case hentries ht ! q of
       Some x \<Rightarrow> fst x = ?k \<and> ht_map (=) ht ?k = Some (snd x)
     | None \<Rightarrow> (\<forall>x. Some x \<in> set (hentries ht) \<longrightarrow> fst x \<noteq> ?k) \<and> ht_map (=) ht ?k = None \<and>
         (\<forall>x. fst x = ?k \<longrightarrow> probe_ok (HASH_CODE hsh ht) ((hentries ht)[q := Some x]) (ht_size ht))"
    unfolding never_equal by (elim exE conjE) (rule that)
  have len: "q < length (hentries ht)" using q(1) ht_okD(3) [OF ok(1)] by simp
  have clear: "hentries ht ! q = None"
  proof (cases "hentries ht ! q")
    case (Some x)
    then have "Some x \<in> set (hentries ht)" using len nth_mem by metis
    then show ?thesis using stored [of x] q(3) unfolding Some option.case by auto
  qed
  let ?ht1 = "ht\<lparr>hentries := (hentries ht)[q := Some (?k, ?k)], ht_count := ht_count ht + 1\<rparr>"
  have probe: "probe_ok (HASH_CODE hsh ht) (hentries ?ht1) (ht_size ?ht1)" using q(3) unfolding clear option.case by simp
  have kd1: "keys_distinct (=) (hentries ?ht1)"
    using keys_distinct_insert [OF kd, of "(?k, ?k)" q] stored by fastforce
  have occ: "ht_count ?ht1 = occupied (hentries ?ht1)"
    using occupied_upd [OF len, of "Some (?k, ?k)"] clear ht_okD(6) [OF ok(1)] by simp
  from resize_hash_table_entries [OF probe kd1 occ, of "ht_size ht" hsh]
  obtain ht' where ht': "resize_hash_table hsh ?ht1 (ht_size ht) = Some ht'" "probe_ok (HASH_CODE hsh ht') (hentries ht') (ht_size ht)"
    "occupied (hentries ht') = ht_count ?ht1" "ht_size ht' = ht_size ht"
    "\<And>x. Some x \<in> set (hentries ht') \<longleftrightarrow> Some x \<in> set (hentries ?ht1)" using ok(2) assms(2) by auto
  have "puthash hsh never_equal ?k ?k ht = Some (Inr ht')"
    using q(2) clear ok(2) assms(3) same ht'(1) by (simp add: puthash_def Let_def enlarge_hash_table_def)
  moreover have es: "length (hentries ht') = Suc (ht_size ht')" "hentries ht' ! ht_size ht' = None"
    using ht'(2,4) by (simp_all add: probe_ok_def)
  moreover have "\<exists>j \<le> n. \<exists>v. hentries ht' ! i = Some (Lisp_Int (int j), v)" if i: "i < ht_size ht'" for i
  proof -
    obtain x where x: "hentries ht' ! i = Some x" using occupied_all [OF es _ i] ht'(3,4) ok(2) assms(2) by auto
    then have "Some x \<in> set (hentries ht')" using es(1) i by (metis less_SucI nth_mem)
    then have "x = (?k, ?k) \<or> Some x \<in> set (hentries ht)" using ht'(5) set_upd_Some [OF len clear, of x] by simp
    then have "\<exists>j \<le> n. fst x = Lisp_Int (int j)" using stored [of x] by auto
    then show ?thesis using x by (cases x) auto
  qed
  ultimately show ?thesis using assms(2) ht'(4) by auto
qed

section \<open>The two limits\<close>

lemma hash_table_size_29: "hash_table_size 29 = 29" "hash_table_size 17 = 29" "hash_table_size 37 = 41"
  by (simp_all add: hash_table_size_def prime_search.simps primes_def)

lemma to_size_values:
  "to_size (29 * 1.01) = 29" "to_size (53 / 3) = 17" "to_size (29 * 0.6) = 17" "to_size (88 / 3) = 29" "to_size (29 * 1.3) = 37"
  by (simp_all add: to_size_def floor_eq_iff)

definition tight_table :: Lisp_Hash_Table where
  "tight_table = make_general_lisp_hash_table HASH_TABLE_EQ 10 1.01 (- 1) HASH_TABLE_NON_WEAK"

lemma empty_29_stored:
  assumes "hentries ht = None # replicate 29 None" and "ht_count ht = 0" and "ht_size ht = 29"
  shows "ints_stored hsh 0 ht"
proof -
  have es: "hentries ht = replicate (29 + 1) None" using assms(1) by (simp only: replicate_Suc Suc_eq_plus1 [symmetric])
  have "List.map_filter id (hentries ht) = []"
    using map_filter_id_set [of _ "hentries ht"] unfolding es
    by (metis in_set_replicate list.set_intros(1) neq_Nil_conv option.distinct(1))
  moreover have "ht_ok hsh (=) ht"
    unfolding ht_ok_def es assms(2,3)
    using probe_ok_empty [of _ 29] keys_distinct_None [of _ "29 + 1"] occupied_simps(5) [of "29 + 1"] by simp
  ultimately show ?thesis using assms(2) by (simp add: ints_stored_def ht_map_def)
qed

lemma tight_table_stored: "ints_stored hsh 0 tight_table" "ht_static 29 (to_size (real 29 * 0.6)) 1.01 0.6 tight_table"
proof -
  show "ints_stored hsh 0 tight_table"
    using to_size_values hash_table_size_29 by (intro empty_29_stored)
      (simp_all add: tight_table_def make_general_lisp_hash_table_def compute_hash_table_derived_values_def Let_def)
  show "ht_static 29 (to_size (real 29 * 0.6)) 1.01 0.6 tight_table"
    by (simp add: ht_static_def tight_table_def make_general_lisp_hash_table_def
      compute_hash_table_derived_values_def Let_def to_size_values hash_table_size_29)
qed

text \<open>
  Property C33: a table made with a rehash size of 1.01, which \<open>make-hash-table\<close> accepts, never
  grows beyond 29 slots. After 29 keys have been stored it is full, and looking up a key that is
  not in it never returns.
\<close>

theorem tight_table_diverges:
  "\<exists>ht. puthash_ints hsh 29 tight_table = Some (Inr ht) \<and>
     (\<forall>dflt. gethash hsh never_equal (Lisp_Int 100) ht dflt = None)"
proof -
  have grow: "hash_table_size (to_size (real 29 * 1.01)) = 29" using to_size_values(1) hash_table_size_29(1) by simp
  from puthash_ints_static [OF tight_table_stored, of 28] grow
  obtain ht where ht: "puthash_ints hsh 28 tight_table = Some (Inr ht)" "ints_stored hsh 28 ht"
    "ht_static 29 (to_size (real 29 * 0.6)) 1.01 0.6 ht" by auto
  have eqs: "ht_size ht = 29" "rehash_size ht = 1.01" "rehash_count ht = to_size (real 29 * 0.6)"
    using ht(3) unfolding ht_static_def by blast+
  have "28 + 1 = ht_size ht" "rehash_count ht \<le> 28 + 1"
    "hash_table_size (to_size (real (ht_size ht) * rehash_size ht)) = ht_size ht"
    unfolding eqs using grow to_size_values(3) by simp_all
  from puthash_fills [OF ht(2) this] obtain ht' where
    ht': "puthash hsh never_equal (Lisp_Int (int 28)) (Lisp_Int (int 28)) ht = Some (Inr ht')"
    "\<forall>i < ht_size ht'. \<exists>j \<le> 28. \<exists>v. hentries ht' ! i = Some (Lisp_Int (int j), v)" "hentries ht' ! ht_size ht' = None"
    "0 < ht_size ht'" by blast
  have "puthash_ints hsh (Suc 28) tight_table = Some (Inr ht')" unfolding puthash_ints.simps using ht(1) ht'(1) by simp
  moreover have "find_hentry hsh never_equal (Lisp_Int 100) ht' = None" unfolding find_hentry_def
  proof (rule key_probing_loop_full [OF _ ht'(3) _ ht'(4)])
    fix i assume "i < ht_size ht'"
    with ht'(2) obtain j v where "j \<le> 28" "hentries ht' ! i = Some (Lisp_Int (int j), v)" by blast
    then show "\<exists>x. hentries ht' ! i = Some x \<and> KEYS_EQUAL_P never_equal (fst x) (Lisp_Int 100) = Some (Inr False)"
      by auto
  qed (use HASH_CODE_less [OF ht'(4), of hsh "Lisp_Int 100"] in simp)
  ultimately show ?thesis by (simp add: gethash_def numeral_eq_Suc)
qed

text \<open>A table made with \<open>:size 17\<close>.\<close>

definition sized_table :: Lisp_Hash_Table where
  "sized_table = make_general_lisp_hash_table HASH_TABLE_EQ 17 (- 1) (- 1) HASH_TABLE_NON_WEAK"

lemma sized_table_stored: "ints_stored hsh 0 sized_table" "ht_static 29 (to_size (real 29 * 0.6)) 1.3 0.6 sized_table"
proof -
  show "ints_stored hsh 0 sized_table"
    using to_size_values hash_table_size_29 by (intro empty_29_stored)
      (simp_all add: sized_table_def make_general_lisp_hash_table_def compute_hash_table_derived_values_def Let_def)
  show "ht_static 29 (to_size (real 29 * 0.6)) 1.3 0.6 sized_table"
    by (simp add: ht_static_def sized_table_def make_general_lisp_hash_table_def
      compute_hash_table_derived_values_def Let_def to_size_values hash_table_size_29)
qed

text \<open>
  The documentation of \<open>make-hash-table\<close> says that the number of entries given as
  \<open>:size\<close> can be inserted without enlarging the table; a table made with \<open>:size 17\<close> has 29 slots
  and is enlarged to 41 by the 17th insertion.
\<close>

theorem sized_table_enlarged:
  "\<exists>ht. puthash_ints hsh 17 sized_table = Some (Inr ht) \<and> ht_count ht = 17 \<and> ht_size sized_table = 29 \<and> ht_size ht = 41"
proof -
  have n: "to_size (real 29 * 0.6) = 17" using to_size_values(3) by simp
  from puthash_ints_static [OF sized_table_stored, of 16]
  obtain ht where ht: "puthash_ints hsh 16 sized_table = Some (Inr ht)" "ints_stored hsh 16 ht"
    "ht_static 29 (to_size (real 29 * 0.6)) 1.3 0.6 ht" unfolding n by auto
  have eqs: "ht_size ht = 29" "rehash_size ht = 1.3" "rehash_count ht = 17" "ht_count ht = 16"
    using ht(2,3) unfolding ht_static_def n ints_stored_def by blast+
  have grown: "hash_table_size (to_size (real (ht_size ht) * rehash_size ht)) = 41"
    unfolding eqs using to_size_values(5) hash_table_size_29(3) by simp
  then have "ht_room ht" unfolding ht_room_def grown eqs by simp
  from ints_stored_put [OF ht(2) this] obtain ht' where
    ht': "puthash hsh never_equal (Lisp_Int (int 16)) (Lisp_Int (int 16)) ht = Some (Inr ht')" "ints_stored hsh (Suc 16) ht'" by blast
  have "ht_count ht' = 17" using ht'(2) by (simp add: ints_stored_def)
  moreover have "ht_size ht' = 41"
    using ht'(1) calculation eqs(3,4) grown resize_params(1) [of hsh _ 41 ht']
    by (auto simp: puthash_def lbind_def Let_def enlarge_hash_table_def split: option.splits sum.splits)
  moreover have "puthash_ints hsh (Suc 16) sized_table = Some (Inr ht')" unfolding puthash_ints.simps using ht(1) ht'(1) by simp
  moreover have "ht_size sized_table = 29" using sized_table_stored(2) by (simp add: ht_static_def)
  ultimately show ?thesis by (simp add: numeral_eq_Suc)
qed

end
