(* ===== verification/BufferText.thy ===== *)
theory BufferText
  imports Lisp
begin

text \<open>
  The text of a buffer (\<open>src/src/buffer.h\<close>, \<open>src/src/insdel.c\<close>): a block of memory with a gap inside
  the text and a second gap at the end of the block, shared by a base buffer and its indirect
  buffers. Each of these has its own accessible region, point, markers and undo list and is a
  view of the text. The model is that of a build without Mule, where a character is a byte and
  buffer positions, byte positions and the positions of characters coincide; extents and redisplay
  are left out. Addresses are relative to \<open>BUF_BEG_ADDR\<close>, positions start at 1.
\<close>

section \<open>Data\<close>

record Lisp_Marker =
  memind :: int
  insertion_type :: bool

datatype undo_entry =
    Undo_boundary
  | Undo_point int
  | Undo_insert int int
  | Undo_delete string int
  | Undo_modtime int int

text \<open>
  \<open>buffer-undo-list\<close> is \<open>t\<close> (\<open>None\<close>) when undo is turned off. Of the hook variables only whether
  they are non-nil in the buffer is kept.
\<close>

record buffer_view =
  begv :: int
  zv :: int
  pt :: int
  markers :: "Lisp_Marker list"
  point_marker :: nat
  undo_list :: "undo_entry list option"
  buf_read_only :: bool
  begin_unchanged :: int
  end_unchanged :: int
  newline_was_deleted :: bool
  first_change_hook :: bool
  before_change_functions :: bool
  after_change_functions :: bool

text \<open>The runs of change hooks, in the order they are made, with the buffer that is current then.\<close>

datatype hook_call =
    First_change nat
  | Before_change nat int int
  | After_change nat int int int

record buffer_text =
  mem :: "int \<Rightarrow> char"
  gpt :: int
  bufz :: int
  gap_size :: int
  end_gap_size :: int
  modiff :: int
  save_modiff :: int
  modtime :: int
  in_multiple_change :: int
  mc_begin :: int
  mc_orig_end :: int
  mc_new_end :: int
  mc_begin_signaled :: bool
  inhibit_read_only :: bool
  undo_here :: bool
  last_point :: "(nat \<times> int) option"
  views :: "buffer_view list"
  hook_log :: "hook_call list"

text \<open>
  \<open>undo_here\<close>: the last undo record of the session was made for this text. \<open>last_point\<close> is
  \<open>last_point_position\<close> with the view it belongs to. An editing operation returns, signals
  an error, or is left by a quit.
\<close>

datatype 'a outcome = Return 'a | Signal lisp_error | Quit

definition bytind_to_memind :: "buffer_text \<Rightarrow> int \<Rightarrow> int" where
  "bytind_to_memind b x = (if x > gpt b then x + gap_size b else x)"

definition memind_to_bytind :: "buffer_text \<Rightarrow> int \<Rightarrow> int" where
  "memind_to_bytind b x = (if x > gpt b then x - gap_size b else x)"

text \<open>The address of the character at a position.\<close>

definition BI_BUF_BYTE_ADDRESS :: "buffer_text \<Rightarrow> int \<Rightarrow> int" where
  "BI_BUF_BYTE_ADDRESS b x = (if x \<ge> gpt b then x + gap_size b else x) - 1"

definition BUF_FETCH_CHAR :: "buffer_text \<Rightarrow> int \<Rightarrow> char" where
  "BUF_FETCH_CHAR b x = mem b (BI_BUF_BYTE_ADDRESS b x)"

definition BUF_GPT_ADDR :: "buffer_text \<Rightarrow> int" where
  "BUF_GPT_ADDR b = gpt b - 1"

abbreviation MAP_INDIRECT_BUFFERS :: "(buffer_view \<Rightarrow> buffer_view) \<Rightarrow> buffer_text \<Rightarrow> buffer_text" where
  "MAP_INDIRECT_BUFFERS f b \<equiv> b\<lparr>views := map f (views b)\<rparr>"

section \<open>Markers\<close>

definition do_marker_adjustment :: "int \<Rightarrow> int \<Rightarrow> int \<Rightarrow> int \<Rightarrow> int" where
  "do_marker_adjustment mpos from to amount =
     (let mpos1 = (if amount > 0
                   then if mpos > to \<and> mpos < to + amount then to + amount else mpos
                   else if mpos > from + amount \<and> mpos \<le> from then from + amount else mpos)
      in if mpos1 > from \<and> mpos1 \<le> to then mpos1 + amount else mpos1)"

definition adjust_markers :: "int \<Rightarrow> int \<Rightarrow> int \<Rightarrow> buffer_view \<Rightarrow> buffer_view" where
  "adjust_markers from to amount v =
     v\<lparr>markers := map (\<lambda>m. m\<lparr>memind := do_marker_adjustment (memind m) from to amount\<rparr>) (markers v)\<rparr>"

definition adjust_markers_for_insert :: "int \<Rightarrow> int \<Rightarrow> buffer_view \<Rightarrow> buffer_view" where
  "adjust_markers_for_insert ind amount v =
     v\<lparr>markers := map (\<lambda>m. if insertion_type m \<and> memind m = ind then m\<lparr>memind := memind m + amount\<rparr> else m) (markers v)\<rparr>"

text \<open>\<open>assert\<close> aside, setting point; the marker that is point moves with it.\<close>

definition set_buffer_point :: "nat \<Rightarrow> int \<Rightarrow> buffer_text \<Rightarrow> buffer_text" where
  "set_buffer_point i bufpos b =
     (let v = views b ! i
      in if bufpos = pt v then b
         else b\<lparr>views := (views b)[i := v\<lparr>pt := bufpos,
                markers := (markers v)[point_marker v := (markers v ! point_marker v)\<lparr>memind := bytind_to_memind b bufpos\<rparr>]\<rparr>]\<rparr>)"

section \<open>Moving the gap\<close>

definition buf_memmove :: "(int \<Rightarrow> char) \<Rightarrow> int \<Rightarrow> int \<Rightarrow> int \<Rightarrow> int \<Rightarrow> char" where
  "buf_memmove m to from n = (\<lambda>a. if to \<le> a \<and> a < to + n then m (from + (a - to)) else m a)"

text \<open>The loops for short moves, a byte at a time, downwards and upwards.\<close>

fun copy_down :: "(int \<Rightarrow> char) \<Rightarrow> int \<Rightarrow> int \<Rightarrow> nat \<Rightarrow> int \<Rightarrow> char" where
  "copy_down m to from 0 = m"
| "copy_down m to from (Suc i) = copy_down (m(to - 1 := m (from - 1))) (to - 1) (from - 1) i"

fun copy_up :: "(int \<Rightarrow> char) \<Rightarrow> int \<Rightarrow> int \<Rightarrow> nat \<Rightarrow> int \<Rightarrow> char" where
  "copy_up m to from 0 = m"
| "copy_up m to from (Suc i) = copy_up (m(to := m from)) (to + 1) (from + 1) i"

abbreviation GAP_MOVE_CHUNK :: int where
  "GAP_MOVE_CHUNK \<equiv> 300000"

text \<open>
  The loop of \<open>gap_left\<close>: at most \<open>GAP_MOVE_CHUNK\<close> bytes are moved before the next look at the quit
  flag, which is \<open>quit k\<close> at the \<open>k\<close>th look. The result is the memory, where the gap got to, and
  how often the flag was looked at.
\<close>

function gap_left_loop ::
    "(nat \<Rightarrow> bool) \<Rightarrow> nat \<Rightarrow> (int \<Rightarrow> char) \<Rightarrow> int \<Rightarrow> int \<Rightarrow> int \<Rightarrow> int \<Rightarrow> (int \<Rightarrow> char) \<times> int \<times> nat" where
  "gap_left_loop quit k m from to new_s1 pos =
     (let i0 = new_s1 - pos
      in if i0 = 0 then (m, pos, k)
         else if quit k then (m, new_s1, k)
         else let i = (if i0 > GAP_MOVE_CHUNK then GAP_MOVE_CHUNK else i0)
              in if i \<ge> 128
                 then gap_left_loop quit (k + 1) (buf_memmove m (to - i) (from - i) i) (from - i) (to - i) (new_s1 - i) pos
                 else gap_left_loop quit (k + 1) (copy_down m to from (nat i)) (from - int (nat i)) (to - int (nat i)) (new_s1 - i) pos)"
  by pat_completeness auto
termination
  by (relation "measure (\<lambda>(quit, k, m, from, to, new_s1, pos). nat \<bar>new_s1 - pos\<bar>)") (auto split: if_splits)

declare gap_left_loop.simps [simp del]

definition gap_left :: "(nat \<Rightarrow> bool) \<Rightarrow> int \<Rightarrow> buffer_text \<Rightarrow> buffer_text \<times> bool" where
  "gap_left quit pos0 b =
     (let (m, pos, k) = gap_left_loop quit 0 (mem b) (BUF_GPT_ADDR b) (BUF_GPT_ADDR b + gap_size b) (gpt b) pos0
      in ((MAP_INDIRECT_BUFFERS (adjust_markers pos (gpt b) (gap_size b)) b)\<lparr>mem := m, gpt := pos\<rparr>, quit k))"

function gap_right_loop ::
    "(nat \<Rightarrow> bool) \<Rightarrow> nat \<Rightarrow> (int \<Rightarrow> char) \<Rightarrow> int \<Rightarrow> int \<Rightarrow> int \<Rightarrow> int \<Rightarrow> (int \<Rightarrow> char) \<times> int \<times> nat" where
  "gap_right_loop quit k m from to new_s1 pos =
     (let i0 = pos - new_s1
      in if i0 = 0 then (m, pos, k)
         else if quit k then (m, new_s1, k)
         else let i = (if i0 > GAP_MOVE_CHUNK then GAP_MOVE_CHUNK else i0)
              in if i \<ge> 128
                 then gap_right_loop quit (k + 1) (buf_memmove m to from i) (from + i) (to + i) (new_s1 + i) pos
                 else gap_right_loop quit (k + 1) (copy_up m to from (nat i)) (from + int (nat i)) (to + int (nat i)) (new_s1 + i) pos)"
  by pat_completeness auto
termination
  by (relation "measure (\<lambda>(quit, k, m, from, to, new_s1, pos). nat \<bar>pos - new_s1\<bar>)") (auto split: if_splits)

declare gap_right_loop.simps [simp del]

definition gap_right :: "(nat \<Rightarrow> bool) \<Rightarrow> int \<Rightarrow> buffer_text \<Rightarrow> buffer_text \<times> bool" where
  "gap_right quit pos0 b =
     (let (m, pos, k) = gap_right_loop quit 0 (mem b) (BUF_GPT_ADDR b + gap_size b) (BUF_GPT_ADDR b) (gpt b) pos0;
          gsize = gap_size b;
          b1 = (MAP_INDIRECT_BUFFERS (adjust_markers (gpt b + gsize) (pos + gsize) (- gsize)) b)\<lparr>mem := m, gpt := pos\<rparr>;
          b2 = (if pos = bufz b then b1\<lparr>gap_size := gap_size b1 + end_gap_size b1, end_gap_size := 0\<rparr> else b1)
      in (b2, quit k))"

definition move_gap :: "(nat \<Rightarrow> bool) \<Rightarrow> int \<Rightarrow> buffer_text \<Rightarrow> buffer_text \<times> bool" where
  "move_gap quit pos b =
     (if pos < gpt b then gap_left quit pos b
      else if pos > gpt b then gap_right quit pos b
      else (b, False))"

text \<open>
  Space after the text is made part of the gap: it is called the gap, moved down to the old gap
  with quitting inhibited, and joined with it.
\<close>

definition join_end_gap :: "int \<Rightarrow> buffer_text \<Rightarrow> buffer_text" where
  "join_end_gap increment b =
     (let real_gap_loc = gpt b; old_gap_size = gap_size b;
          b1 = b\<lparr>gpt := bufz b + gap_size b, gap_size := increment, end_gap_size := 0\<rparr>;
          b2 = fst (gap_left (\<lambda>_. False) (real_gap_loc + old_gap_size) b1)
      in b2\<lparr>gap_size := gap_size b2 + old_gap_size, gpt := real_gap_loc\<rparr>)"

definition merge_gap_with_end_gap :: "buffer_text \<Rightarrow> buffer_text" where
  "merge_gap_with_end_gap b =
     (let increment = end_gap_size b
      in if increment > 0 then join_end_gap increment (b\<lparr>end_gap_size := 0\<rparr>) else b\<lparr>end_gap_size := 0\<rparr>)"

definition EMACS_INT_MAX :: int where
  "EMACS_INT_MAX = 2 ^ 62 - 1"

text \<open>\<open>BUFFER_REALLOC\<close> keeps the contents of the block; it is taken to succeed.\<close>

definition make_gap :: "int \<Rightarrow> buffer_text \<Rightarrow> buffer_text lresult" where
  "make_gap increment0 b =
     (let increment = increment0 + 2000 + (bufz b - 1) div 8
      in if increment > end_gap_size b
         then if bufz b - 1 + gap_size b + increment > EMACS_INT_MAX
              then Inl (Error_string ''Maximum buffer size exceeded'')
              else Inr (join_end_gap increment b)
         else Inr (join_end_gap (end_gap_size b) b))"

end
