(* ===== verification/BufferGap.thy ===== *)
theory BufferGap
  imports BufferText
begin

text \<open>
  Moving the gap: the byte loops are \<open>memmove\<close>, the chunked loops move one block, and neither the
  text nor the position of a marker changes, also when a quit stops the motion half way.
\<close>

section \<open>Copying\<close>

lemma buf_memmove_0 [simp]: "buf_memmove m to from 0 = m"
  by (auto simp: buf_memmove_def fun_eq_iff)

lemma copy_down_memmove:
  "from \<le> to \<Longrightarrow> copy_down m to from n = buf_memmove m (to - int n) (from - int n) (int n)"
proof (induction n arbitrary: m to "from")
  case 0
  show ?case by simp
next
  case (Suc n)
  have "from - 1 \<le> to - 1" using Suc.prems by simp
  from Suc.IH [OF this] show ?case using Suc.prems
    by (auto simp: buf_memmove_def fun_eq_iff fun_upd_def algebra_simps)
qed

lemma copy_up_memmove:
  "to \<le> from \<Longrightarrow> copy_up m to from n = buf_memmove m to from (int n)"
proof (induction n arbitrary: m to "from")
  case 0
  show ?case by simp
next
  case (Suc n)
  have "to + 1 \<le> from + 1" using Suc.prems by simp
  from Suc.IH [OF this] show ?case using Suc.prems
    by (auto simp: buf_memmove_def fun_eq_iff fun_upd_def algebra_simps)
qed

lemma memmove_down_twice:
  "0 \<le> i \<Longrightarrow> 0 \<le> j \<Longrightarrow> from \<le> to \<Longrightarrow>
   buf_memmove (buf_memmove m (to - i) (from - i) i) (to - i - j) (from - i - j) j = buf_memmove m (to - i - j) (from - i - j) (i + j)"
  by (auto simp: buf_memmove_def fun_eq_iff)

lemma memmove_up_twice:
  "0 \<le> i \<Longrightarrow> 0 \<le> j \<Longrightarrow> to \<le> from \<Longrightarrow>
   buf_memmove (buf_memmove m to from i) (to + i) (from + i) j = buf_memmove m to from (i + j)"
  by (auto simp: buf_memmove_def fun_eq_iff)

lemma gap_left_loop_ok:
  assumes "pos \<le> s" and "from \<le> to"
  shows "\<exists>p k'. gap_left_loop quit k m from to s pos = (buf_memmove m (to - (s - p)) (from - (s - p)) (s - p), p, k') \<and>
    pos \<le> p \<and> p \<le> s \<and> (p = pos \<or> quit k') \<and> ((\<forall>j. \<not> quit j) \<longrightarrow> p = pos)"
  using assms
proof (induction "nat (s - pos)" arbitrary: k m "from" to s rule: less_induct)
  case less
  consider "s = pos" | "s \<noteq> pos" "quit k" | "pos < s" "\<not> quit k" using less.prems by fastforce
  then show ?case
  proof cases
    case 1
    then show ?thesis by (subst gap_left_loop.simps) simp
  next
    case 2
    then show ?thesis using less.prems by (subst gap_left_loop.simps) auto
  next
    case 3
    define i where "i = (if s - pos > GAP_MOVE_CHUNK then GAP_MOVE_CHUNK else s - pos)"
    have i: "0 < i" "i \<le> s - pos" using 3(1) by (auto simp: i_def)
    have step: "gap_left_loop quit k m from to s pos =
        gap_left_loop quit (k + 1) (buf_memmove m (to - i) (from - i) i) (from - i) (to - i) (s - i) pos"
      using 3 i copy_down_memmove [OF less.prems(2), of m "nat i"] i_def by (subst gap_left_loop.simps) (simp add: Let_def)
    have "nat (s - i - pos) < nat (s - pos)" "pos \<le> s - i" "from - i \<le> to - i" using i less.prems by auto
    from less.hyps [OF this] obtain p k' where p: "gap_left_loop quit (k + 1) (buf_memmove m (to - i) (from - i) i) (from - i) (to - i) (s - i) pos =
        (buf_memmove (buf_memmove m (to - i) (from - i) i) (to - i - (s - i - p)) (from - i - (s - i - p)) (s - i - p), p, k')"
      "pos \<le> p" "p \<le> s - i" "p = pos \<or> quit k'" "(\<forall>j. \<not> quit j) \<longrightarrow> p = pos" by blast
    have "buf_memmove (buf_memmove m (to - i) (from - i) i) (to - i - (s - i - p)) (from - i - (s - i - p)) (s - i - p) =
        buf_memmove m (to - (s - p)) (from - (s - p)) (s - p)"
    proof -
      have e: "to - i - (s - i - p) = to - (s - p)" "from - i - (s - i - p) = from - (s - p)" "i + (s - i - p) = s - p"
        by simp_all
      show ?thesis using memmove_down_twice [of i "s - i - p" "from" to m] p(3) i(1) less.prems(2) unfolding e by simp
    qed
    with p step i show ?thesis by (intro exI [of _ p] exI [of _ k']) auto
  qed
qed

lemma gap_right_loop_ok:
  assumes "s \<le> pos" and "to \<le> from"
  shows "\<exists>p k'. gap_right_loop quit k m from to s pos = (buf_memmove m to from (p - s), p, k') \<and>
    s \<le> p \<and> p \<le> pos \<and> (p = pos \<or> quit k') \<and> ((\<forall>j. \<not> quit j) \<longrightarrow> p = pos)"
  using assms
proof (induction "nat (pos - s)" arbitrary: k m "from" to s rule: less_induct)
  case less
  consider "s = pos" | "s \<noteq> pos" "quit k" | "s < pos" "\<not> quit k" using less.prems by fastforce
  then show ?case
  proof cases
    case 1
    then show ?thesis by (subst gap_right_loop.simps) simp
  next
    case 2
    then show ?thesis using less.prems by (subst gap_right_loop.simps) auto
  next
    case 3
    define i where "i = (if pos - s > GAP_MOVE_CHUNK then GAP_MOVE_CHUNK else pos - s)"
    have i: "0 < i" "i \<le> pos - s" using 3(1) by (auto simp: i_def)
    have step: "gap_right_loop quit k m from to s pos =
        gap_right_loop quit (k + 1) (buf_memmove m to from i) (from + i) (to + i) (s + i) pos"
      using 3 i copy_up_memmove [OF less.prems(2), of m "nat i"] i_def by (subst gap_right_loop.simps) (simp add: Let_def)
    have "nat (pos - (s + i)) < nat (pos - s)" "s + i \<le> pos" "to + i \<le> from + i" using i less.prems by auto
    from less.hyps [OF this] obtain p k' where p: "gap_right_loop quit (k + 1) (buf_memmove m to from i) (from + i) (to + i) (s + i) pos =
        (buf_memmove (buf_memmove m to from i) (to + i) (from + i) (p - (s + i)), p, k')"
      "s + i \<le> p" "p \<le> pos" "p = pos \<or> quit k'" "(\<forall>j. \<not> quit j) \<longrightarrow> p = pos" by blast
    have "buf_memmove (buf_memmove m to from i) (to + i) (from + i) (p - (s + i)) = buf_memmove m to from (p - s)"
      using memmove_up_twice [of i "p - (s + i)" to "from" m] p i less.prems by simp
    with p step i show ?thesis by (intro exI [of _ p] exI [of _ k']) auto
  qed
qed

section \<open>The text and its markers\<close>

text \<open>The text as a list of characters.\<close>

definition buffer_string :: "buffer_text \<Rightarrow> string" where
  "buffer_string b = map (BUF_FETCH_CHAR b) [1..bufz b - 1]"

text \<open>The gap lies inside the text.\<close>

definition gap_ok :: "buffer_text \<Rightarrow> bool" where
  "gap_ok b \<longleftrightarrow> 1 \<le> gpt b \<and> gpt b \<le> bufz b \<and> 0 \<le> gap_size b \<and> 0 \<le> end_gap_size b"

text \<open>
  A marker points into the text and not into the gap; at the gap it sits before it. The marker that
  is point agrees with point, and does not advance at insertions.
\<close>

definition memind_ok :: "buffer_text \<Rightarrow> int \<Rightarrow> bool" where
  "memind_ok b x \<longleftrightarrow> 1 \<le> x \<and> x \<le> bufz b + gap_size b \<and> (x \<le> gpt b \<or> gpt b + gap_size b < x)"

definition view_ok :: "buffer_text \<Rightarrow> buffer_view \<Rightarrow> bool" where
  "view_ok b v \<longleftrightarrow> 1 \<le> begv v \<and> begv v \<le> pt v \<and> pt v \<le> zv v \<and> zv v \<le> bufz b \<and>
     (\<forall>m \<in> set (markers v). memind_ok b (memind m)) \<and> point_marker v < length (markers v) \<and>
     memind_to_bytind b (memind (markers v ! point_marker v)) = pt v \<and> \<not> insertion_type (markers v ! point_marker v)"

definition buffer_ok :: "buffer_text \<Rightarrow> bool" where
  "buffer_ok b \<longleftrightarrow> gap_ok b \<and> (\<forall>v \<in> set (views b). view_ok b v)"

text \<open>What the markers of a view stand for.\<close>

definition marker_positions :: "buffer_text \<Rightarrow> buffer_view \<Rightarrow> (int \<times> bool) list" where
  "marker_positions b v = map (\<lambda>m. (memind_to_bytind b (memind m), insertion_type m)) (markers v)"

lemma memind_bytind:
  assumes "gap_ok b" and "memind_ok b x"
  shows "1 \<le> memind_to_bytind b x" "memind_to_bytind b x \<le> bufz b" "bytind_to_memind b (memind_to_bytind b x) = x"
  using assms by (auto simp: memind_ok_def memind_to_bytind_def bytind_to_memind_def gap_ok_def)

lemma bytind_memind:
  assumes "gap_ok b" and "1 \<le> x" and "x \<le> bufz b"
  shows "memind_ok b (bytind_to_memind b x)" "memind_to_bytind b (bytind_to_memind b x) = x"
  using assms by (auto simp: memind_ok_def memind_to_bytind_def bytind_to_memind_def gap_ok_def)

text \<open>
  The same text with the gap elsewhere or of another size: only the memory, the gap and the memory
  indices of markers differ.
\<close>

definition view_moved :: "buffer_text \<Rightarrow> buffer_text \<Rightarrow> buffer_view \<Rightarrow> buffer_view \<Rightarrow> bool" where
  "view_moved b b' v v' \<longleftrightarrow> v' = v\<lparr>markers := markers v'\<rparr> \<and> marker_positions b' v' = marker_positions b v \<and>
     (\<forall>m \<in> set (markers v'). memind_ok b' (memind m))"

definition gap_moved :: "buffer_text \<Rightarrow> buffer_text \<Rightarrow> bool" where
  "gap_moved b b' \<longleftrightarrow> gap_ok b' \<and>
     b' = b\<lparr>mem := mem b', gpt := gpt b', gap_size := gap_size b', end_gap_size := end_gap_size b', views := views b'\<rparr> \<and>
     (\<forall>x. 1 \<le> x \<and> x < bufz b \<longrightarrow> BUF_FETCH_CHAR b' x = BUF_FETCH_CHAR b x) \<and>
     list_all2 (view_moved b b') (views b) (views b')"

lemma gap_moved_bufz:
  assumes "gap_moved b b'"
  shows "bufz b' = bufz b"
proof -
  have "b' = b\<lparr>mem := mem b', gpt := gpt b', gap_size := gap_size b', end_gap_size := end_gap_size b', views := views b'\<rparr>"
    using assms unfolding gap_moved_def by blast
  then have "bufz b' = bufz (b\<lparr>mem := mem b', gpt := gpt b', gap_size := gap_size b', end_gap_size := end_gap_size b', views := views b'\<rparr>)"
    by (rule arg_cong)
  then show ?thesis by simp
qed

lemma gap_moved_string:
  assumes "gap_moved b b'"
  shows "buffer_string b' = buffer_string b"
  using assms gap_moved_bufz [OF assms] by (auto simp: buffer_string_def gap_moved_def)

lemma view_moved_ok:
  assumes "view_moved b b' v v'" and "view_ok b v" and "bufz b' = bufz b"
  shows "view_ok b' v'"
proof -
  have v': "v' = v\<lparr>markers := markers v'\<rparr>" and mp: "marker_positions b' v' = marker_positions b v"
    using assms(1) by (auto simp: view_moved_def)
  have eqs: "begv v' = begv v" "zv v' = zv v" "pt v' = pt v" "point_marker v' = point_marker v" by (subst v', simp)+
  have len: "length (markers v') = length (markers v)" using arg_cong [OF mp, of length] by (simp add: marker_positions_def)
  have k: "point_marker v < length (markers v)" using assms(2) by (simp add: view_ok_def)
  have "fst (marker_positions b' v' ! point_marker v) = fst (marker_positions b v ! point_marker v)" using mp by simp
  then have "memind_to_bytind b' (memind (markers v' ! point_marker v)) = memind_to_bytind b (memind (markers v ! point_marker v))"
    using k len by (simp add: marker_positions_def)
  moreover have "snd (marker_positions b' v' ! point_marker v) = snd (marker_positions b v ! point_marker v)" using mp by simp
  then have "insertion_type (markers v' ! point_marker v) = insertion_type (markers v ! point_marker v)"
    using k len by (simp add: marker_positions_def)
  ultimately show ?thesis using assms eqs len by (simp add: view_ok_def view_moved_def)
qed

lemma gap_moved_ok:
  assumes "gap_moved b b'" and "buffer_ok b"
  shows "buffer_ok b'"
proof -
  have "list_all2 (view_moved b b') (views b) (views b')" using assms(1) by (simp add: gap_moved_def)
  then have "view_ok b' v'" if "v' \<in> set (views b')" for v'
    using that assms(2) view_moved_ok gap_moved_bufz [OF assms(1)] unfolding list_all2_conv_all_nth buffer_ok_def
    by (metis in_set_conv_nth)
  then show ?thesis using assms(1) by (simp add: buffer_ok_def gap_moved_def)
qed

lemma gap_moved_trans:
  assumes "gap_moved a b" and "gap_moved b c"
  shows "gap_moved a c"
proof -
  have z: "bufz b = bufz a" using gap_moved_bufz [OF assms(1)] .
  have "list_all2 (view_moved a c) (views a) (views c)"
  proof (rule list_all2_trans)
    show "list_all2 (view_moved a b) (views a) (views b)" "list_all2 (view_moved b c) (views b) (views c)"
      using assms by (simp_all add: gap_moved_def)
    fix u v w assume "view_moved a b u v" "view_moved b c v w"
    then show "view_moved a c u w" unfolding view_moved_def
      by (metis buffer_view.select_convs(4) buffer_view.surjective buffer_view.update_convs(4))
  qed
  moreover have "c = a\<lparr>mem := mem c, gpt := gpt c, gap_size := gap_size c, end_gap_size := end_gap_size c, views := views c\<rparr>"
  proof -
    have "b = a\<lparr>mem := mem b, gpt := gpt b, gap_size := gap_size b, end_gap_size := end_gap_size b, views := views b\<rparr>"
      "c = b\<lparr>mem := mem c, gpt := gpt c, gap_size := gap_size c, end_gap_size := end_gap_size c, views := views c\<rparr>"
      using assms by (simp_all add: gap_moved_def)
    then show ?thesis by (cases a; cases b; cases c) simp
  qed
  ultimately show ?thesis using assms z unfolding gap_moved_def by metis
qed

lemma gap_moved_refl: "buffer_ok b \<Longrightarrow> gap_moved b b"
  by (auto simp: gap_moved_def buffer_ok_def view_moved_def view_ok_def list_all2_conv_all_nth)

section \<open>Gap motion keeps the text\<close>

lemma views_moved:
  assumes "buffer_ok b" and "views b' = map (adjust_markers f t a) (views b)"
    and "\<And>x. memind_ok b x \<Longrightarrow> memind_ok b' (do_marker_adjustment x f t a) \<and>
      memind_to_bytind b' (do_marker_adjustment x f t a) = memind_to_bytind b x"
  shows "list_all2 (view_moved b b') (views b) (views b')"
proof -
  have "view_moved b b' v (adjust_markers f t a v)" if "v \<in> set (views b)" for v
  proof -
    have "\<forall>m \<in> set (markers v). memind_ok b (memind m)" using that assms(1) by (simp add: buffer_ok_def view_ok_def)
    then show ?thesis using assms(3) by (auto simp: view_moved_def adjust_markers_def marker_positions_def)
  qed
  then show ?thesis unfolding assms(2) by (auto simp: list_all2_conv_all_nth)
qed

lemma gap_left_moved:
  assumes ok: "buffer_ok b" and "1 \<le> pos" and "pos \<le> gpt b"
  shows "gap_moved b (fst (gap_left quit pos b)) \<and>
    (\<not> snd (gap_left quit pos b) \<longrightarrow> gpt (fst (gap_left quit pos b)) = pos) \<and> ((\<forall>j. \<not> quit j) \<longrightarrow> \<not> snd (gap_left quit pos b))"
proof -
  let ?g = "gap_size b"
  have g: "0 \<le> ?g" "gpt b \<le> bufz b" "0 \<le> end_gap_size b" using ok by (auto simp: buffer_ok_def gap_ok_def)
  obtain p k where p: "gap_left_loop quit 0 (mem b) (BUF_GPT_ADDR b) (BUF_GPT_ADDR b + ?g) (gpt b) pos =
      (buf_memmove (mem b) (BUF_GPT_ADDR b + ?g - (gpt b - p)) (BUF_GPT_ADDR b - (gpt b - p)) (gpt b - p), p, k)"
    "pos \<le> p" "p \<le> gpt b" "p = pos \<or> quit k" "(\<forall>j. \<not> quit j) \<longrightarrow> p = pos"
    using gap_left_loop_ok [OF assms(3), of "BUF_GPT_ADDR b" "BUF_GPT_ADDR b + ?g" quit 0 "mem b"] g(1) by auto
  define b' where "b' = fst (gap_left quit pos b)"
  have b': "b' = b\<lparr>views := map (adjust_markers p (gpt b) ?g) (views b),
      mem := buf_memmove (mem b) (p - 1 + ?g) (p - 1) (gpt b - p), gpt := p\<rparr>" "snd (gap_left quit pos b) = quit k"
    unfolding b'_def gap_left_def p(1) by (simp_all add: BUF_GPT_ADDR_def algebra_simps)
  have "BUF_FETCH_CHAR b' x = BUF_FETCH_CHAR b x" for x
    unfolding b'(1) using p(2,3) g(1) by (auto simp: BUF_FETCH_CHAR_def BI_BUF_BYTE_ADDRESS_def buf_memmove_def)
  moreover have "gap_ok b'" unfolding b'(1) using p(2,3) g assms(2) by (simp add: gap_ok_def)
  moreover have "list_all2 (view_moved b b') (views b) (views b')"
  proof (rule views_moved [OF ok])
    show "views b' = map (adjust_markers p (gpt b) ?g) (views b)" unfolding b'(1) by simp
    fix x assume "memind_ok b x"
    then show "memind_ok b' (do_marker_adjustment x p (gpt b) ?g) \<and>
        memind_to_bytind b' (do_marker_adjustment x p (gpt b) ?g) = memind_to_bytind b x"
      unfolding b'(1) using p(2,3) g assms(2)
      by (auto simp: memind_ok_def do_marker_adjustment_def memind_to_bytind_def Let_def)
  qed
  moreover have "b' = b\<lparr>mem := mem b', gpt := gpt b', gap_size := gap_size b', end_gap_size := end_gap_size b', views := views b'\<rparr>"
    unfolding b'(1) by simp
  ultimately have "gap_moved b b'" unfolding gap_moved_def by blast
  moreover have "gpt b' = pos" if "\<not> quit k" using that p(4) unfolding b'(1) by simp
  ultimately show ?thesis unfolding b'_def [symmetric] b'(2) by blast
qed

lemma gap_right_moved:
  assumes ok: "buffer_ok b" and "gpt b \<le> pos" and "pos \<le> bufz b"
  shows "gap_moved b (fst (gap_right quit pos b)) \<and>
    (\<not> snd (gap_right quit pos b) \<longrightarrow> gpt (fst (gap_right quit pos b)) = pos) \<and> ((\<forall>j. \<not> quit j) \<longrightarrow> \<not> snd (gap_right quit pos b))"
proof -
  let ?g = "gap_size b"
  have g: "0 \<le> ?g" "gpt b \<le> bufz b" "0 \<le> end_gap_size b" "1 \<le> gpt b" using ok by (auto simp: buffer_ok_def gap_ok_def)
  obtain p k where p: "gap_right_loop quit 0 (mem b) (BUF_GPT_ADDR b + ?g) (BUF_GPT_ADDR b) (gpt b) pos =
      (buf_memmove (mem b) (BUF_GPT_ADDR b) (BUF_GPT_ADDR b + ?g) (p - gpt b), p, k)"
    "gpt b \<le> p" "p \<le> pos" "p = pos \<or> quit k" "(\<forall>j. \<not> quit j) \<longrightarrow> p = pos"
    using gap_right_loop_ok [OF assms(2), of "BUF_GPT_ADDR b" "BUF_GPT_ADDR b + ?g" quit 0 "mem b"] g(1) by auto
  define b' where "b' = fst (gap_right quit pos b)"
  define g' where "g' = (if p = bufz b then ?g + end_gap_size b else ?g)"
  have b': "b' = b\<lparr>views := map (adjust_markers (gpt b + ?g) (p + ?g) (- ?g)) (views b),
      mem := buf_memmove (mem b) (gpt b - 1) (gpt b - 1 + ?g) (p - gpt b), gpt := p, gap_size := g',
      end_gap_size := (if p = bufz b then 0 else end_gap_size b)\<rparr>" "snd (gap_right quit pos b) = quit k"
    unfolding b'_def gap_right_def p(1) by (simp_all add: BUF_GPT_ADDR_def g'_def Let_def)
  have "BUF_FETCH_CHAR b' x = BUF_FETCH_CHAR b x" if "x < bufz b" for x
    unfolding b'(1) using p(2,3) g(1) that
    by (auto simp: BUF_FETCH_CHAR_def BI_BUF_BYTE_ADDRESS_def buf_memmove_def g'_def algebra_simps)
  moreover have "gap_ok b'" unfolding b'(1) using p(2,3) g assms(3) by (auto simp: gap_ok_def g'_def)
  moreover have "list_all2 (view_moved b b') (views b) (views b')"
  proof (rule views_moved [OF ok])
    show "views b' = map (adjust_markers (gpt b + ?g) (p + ?g) (- ?g)) (views b)" unfolding b'(1) by simp
    fix x assume "memind_ok b x"
    then show "memind_ok b' (do_marker_adjustment x (gpt b + ?g) (p + ?g) (- ?g)) \<and>
        memind_to_bytind b' (do_marker_adjustment x (gpt b + ?g) (p + ?g) (- ?g)) = memind_to_bytind b x"
      unfolding b'(1) using p(2,3) g assms(3)
      by (auto simp: memind_ok_def do_marker_adjustment_def memind_to_bytind_def Let_def g'_def)
  qed
  moreover have "b' = b\<lparr>mem := mem b', gpt := gpt b', gap_size := gap_size b', end_gap_size := end_gap_size b', views := views b'\<rparr>"
    unfolding b'(1) by simp
  ultimately have "gap_moved b b'" unfolding gap_moved_def by blast
  moreover have "gpt b' = pos" if "\<not> quit k" using that p(4) unfolding b'(1) by simp
  ultimately show ?thesis unfolding b'_def [symmetric] b'(2) by blast
qed

lemma move_gap_moved:
  assumes "buffer_ok b" and "1 \<le> pos" and "pos \<le> bufz b"
  shows "gap_moved b (fst (move_gap quit pos b)) \<and>
    (\<not> snd (move_gap quit pos b) \<longrightarrow> gpt (fst (move_gap quit pos b)) = pos) \<and> ((\<forall>j. \<not> quit j) \<longrightarrow> \<not> snd (move_gap quit pos b))"
  using gap_left_moved [OF assms(1,2), of quit] gap_right_moved [OF assms(1) _ assms(3), of quit] gap_moved_refl [OF assms(1)]
  by (auto simp: move_gap_def)

lemma join_end_gap_moved:
  assumes ok: "buffer_ok b" and inc: "0 \<le> inc"
  shows "gap_moved b (join_end_gap inc b) \<and> gpt (join_end_gap inc b) = gpt b \<and>
    gap_size (join_end_gap inc b) = gap_size b + inc \<and> end_gap_size (join_end_gap inc b) = 0"
proof -
  let ?g = "gap_size b" let ?s = "bufz b + ?g" and ?p = "gpt b + ?g"
  have g: "0 \<le> ?g" "gpt b \<le> bufz b" "1 \<le> gpt b" using ok by (auto simp: buffer_ok_def gap_ok_def)
  obtain k where loop: "gap_left_loop (\<lambda>_. False) 0 (mem b) (?s - 1) (?s - 1 + inc) ?s ?p =
      (buf_memmove (mem b) (?p - 1 + inc) (?p - 1) (?s - ?p), ?p, k)"
    using gap_left_loop_ok [of ?p ?s "?s - 1" "?s - 1 + inc" "\<lambda>_. False" 0 "mem b"] g inc by (auto simp: algebra_simps)
  define b' where "b' = join_end_gap inc b"
  have b': "b' = b\<lparr>views := map (adjust_markers ?p ?s inc) (views b),
      mem := buf_memmove (mem b) (?p - 1 + inc) (?p - 1) (?s - ?p), gap_size := inc + ?g, end_gap_size := 0\<rparr>"
    unfolding b'_def join_end_gap_def Let_def gap_left_def BUF_GPT_ADDR_def using loop by simp
  have "BUF_FETCH_CHAR b' x = BUF_FETCH_CHAR b x" if "x < bufz b" for x
    unfolding b' using g inc that by (auto simp: BUF_FETCH_CHAR_def BI_BUF_BYTE_ADDRESS_def buf_memmove_def algebra_simps)
  moreover have "gap_ok b'" unfolding b' using g inc by (simp add: gap_ok_def)
  moreover have "list_all2 (view_moved b b') (views b) (views b')"
  proof (rule views_moved [OF ok])
    show "views b' = map (adjust_markers ?p ?s inc) (views b)" unfolding b' by simp
    fix x assume "memind_ok b x"
    then show "memind_ok b' (do_marker_adjustment x ?p ?s inc) \<and>
        memind_to_bytind b' (do_marker_adjustment x ?p ?s inc) = memind_to_bytind b x"
      unfolding b' using g inc by (auto simp: memind_ok_def do_marker_adjustment_def memind_to_bytind_def Let_def)
  qed
  moreover have "b' = b\<lparr>mem := mem b', gpt := gpt b', gap_size := gap_size b', end_gap_size := end_gap_size b', views := views b'\<rparr>"
    unfolding b' by simp
  ultimately have "gap_moved b b'" unfolding gap_moved_def by blast
  moreover have "gpt b' = gpt b" "gap_size b' = ?g + inc" "end_gap_size b' = 0" unfolding b' by simp_all
  ultimately show ?thesis unfolding b'_def by blast
qed

lemma end_gap_ok: "buffer_ok b \<Longrightarrow> 0 \<le> n \<Longrightarrow> buffer_ok (b\<lparr>end_gap_size := n\<rparr>) \<and> gap_moved b (b\<lparr>end_gap_size := n\<rparr>)"
  by (auto simp: buffer_ok_def gap_ok_def view_ok_def memind_ok_def memind_to_bytind_def gap_moved_def view_moved_def
      marker_positions_def list_all2_conv_all_nth BUF_FETCH_CHAR_def BI_BUF_BYTE_ADDRESS_def)

lemma merge_gap_moved:
  assumes ok: "buffer_ok b"
  shows "gap_moved b (merge_gap_with_end_gap b) \<and> gpt (merge_gap_with_end_gap b) = gpt b \<and>
    gap_size (merge_gap_with_end_gap b) = gap_size b + end_gap_size b"
proof -
  have e: "0 \<le> end_gap_size b" using ok by (simp add: buffer_ok_def gap_ok_def)
  note start = end_gap_ok [OF ok order_refl]
  show ?thesis using start join_end_gap_moved [OF conjunct1 [OF start] e] e gap_moved_trans
    by (auto simp: merge_gap_with_end_gap_def Let_def)
qed

lemma make_gap_moved:
  assumes ok: "buffer_ok b" and "make_gap inc b = Inr b'" and "0 \<le> inc"
  shows "gap_moved b b' \<and> gpt b' = gpt b \<and> gap_size b + inc \<le> gap_size b'"
proof -
  have e: "0 \<le> end_gap_size b" "1 \<le> bufz b" using ok by (auto simp: buffer_ok_def gap_ok_def)
  have n: "0 \<le> inc + 2000 + (bufz b - 1) div 8" "inc \<le> inc + 2000 + (bufz b - 1) div 8"
    using assms(3) e(2) by (simp_all add: pos_imp_zdiv_nonneg_iff)
  from assms(2) consider "b' = join_end_gap (inc + 2000 + (bufz b - 1) div 8) b"
    | "b' = join_end_gap (end_gap_size b) b" "inc + 2000 + (bufz b - 1) div 8 \<le> end_gap_size b"
    by (auto simp: make_gap_def Let_def split: if_splits)
  then show ?thesis
  proof cases
    case 1
    then show ?thesis using join_end_gap_moved [OF ok n(1)] n(2) by simp
  next
    case 2
    then show ?thesis using join_end_gap_moved [OF ok e(1)] n(2) by simp
  qed
qed

section \<open>A sample buffer\<close>

text \<open>The text \<open>abcd\<close> with the gap, two bytes long, in the middle, and point at its start.\<close>

definition plain_view :: "int \<Rightarrow> int \<Rightarrow> int \<Rightarrow> Lisp_Marker list \<Rightarrow> buffer_view" where
  "plain_view bg z p ms =
     \<lparr>begv = bg, zv = z, pt = p, markers = ms, point_marker = 0, undo_list = Some [], buf_read_only = False,
      begin_unchanged = - 1, end_unchanged = - 1, newline_was_deleted = False,
      first_change_hook = True, before_change_functions = True, after_change_functions = True\<rparr>"

definition sample_text :: buffer_text where
  "sample_text =
     \<lparr>mem = (\<lambda>a. if 0 \<le> a \<and> a < 6 then ''ab..cd'' ! nat a else CHR ''.''), gpt = 3, bufz = 5, gap_size = 2, end_gap_size = 0,
      modiff = 1, save_modiff = 1, modtime = 0, in_multiple_change = 0, mc_begin = 0, mc_orig_end = 0, mc_new_end = 0,
      mc_begin_signaled = False, inhibit_read_only = False, undo_here = True, last_point = None,
      views = [plain_view 1 5 2 [\<lparr>memind = 2, insertion_type = False\<rparr>, \<lparr>memind = 3, insertion_type = True\<rparr>, \<lparr>memind = 6, insertion_type = False\<rparr>]],
      hook_log = []\<rparr>"

lemma sample_text_ok: "buffer_ok sample_text"
  by (simp add: buffer_ok_def gap_ok_def view_ok_def memind_ok_def memind_to_bytind_def sample_text_def plain_view_def)

lemma sample_text_simps:
  "length (views sample_text) = 1" "bufz sample_text = 5" "v \<in> set (views sample_text) \<Longrightarrow> begv v = 1"
  "v \<in> set (views sample_text) \<Longrightarrow> zv v = 5" "v \<in> set (views sample_text) \<Longrightarrow> \<not> buf_read_only v"
  by (simp_all add: sample_text_def plain_view_def)

text \<open>
  Property C10: \<open>move_gap\<close> leaves the text of the buffer and the position of point and of every marker
  in every buffer that shares the text as they were, also when it is stopped by a quit; if it is
  not, the gap is where it was asked for.
\<close>

theorem move_gap_keeps_text:
  assumes "buffer_ok b" and "1 \<le> pos" and "pos \<le> bufz b" and "move_gap quit pos b = (b', stopped)"
  shows "buffer_ok b' \<and> buffer_string b' = buffer_string b \<and>
    map (marker_positions b') (views b') = map (marker_positions b) (views b) \<and>
    map pt (views b') = map pt (views b) \<and> (\<not> stopped \<longrightarrow> gpt b' = pos)"
proof -
  have m: "gap_moved b b'" "\<not> stopped \<longrightarrow> gpt b' = pos" using move_gap_moved [OF assms(1-3), of quit] assms(4) by simp_all
  then have "list_all2 (view_moved b b') (views b) (views b')" by (simp add: gap_moved_def)
  then have "map (marker_positions b') (views b') = map (marker_positions b) (views b)" "map pt (views b') = map pt (views b)"
    by (auto simp: list_all2_conv_all_nth view_moved_def intro!: nth_equalityI)
      (metis buffer_view.select_convs(3) buffer_view.surjective buffer_view.update_convs(4))
  with m gap_moved_ok [OF m(1) assms(1)] gap_moved_string [OF m(1)] show ?thesis by blast
qed

theorem move_gap_keeps_text_witness:
  "buffer_string (fst (move_gap (\<lambda>_. False) 5 sample_text)) = ''abcd'' \<and> gpt (fst (move_gap (\<lambda>_. False) 5 sample_text)) = 5"
proof -
  have "snd (move_gap (\<lambda>_. False) 5 sample_text) = False" "buffer_string sample_text = ''abcd''" by code_simp+
  then show ?thesis
    using move_gap_keeps_text [OF sample_text_ok _ _ surjective_pairing, of 5 "\<lambda>_. False"] by (simp add: sample_text_simps)
qed

end
