(* ===== verification/BufferEdit.thy ===== *)
theory BufferEdit
  imports BufferText
begin

text \<open>
  Inserting, deleting and replacing text (\<open>src/src/insdel.c\<close>) with the records made for undo
  (\<open>src/src/undo.c\<close>) and the calls of change hooks. The functions on the hooks are only logged: they
  do not themselves change the buffer. Views are numbered; an operation is on view \<open>i\<close>.
\<close>

section \<open>Undo records\<close>

definition undo_boundary :: "buffer_view \<Rightarrow> buffer_view" where
  "undo_boundary v =
     (case undo_list v of
        Some (e # es) \<Rightarrow> if e \<noteq> Undo_boundary then v\<lparr>undo_list := Some (Undo_boundary # e # es)\<rparr> else v
      | _ \<Rightarrow> v)"

text \<open>
  The prelude of a record: nothing is recorded when undo is turned off (\<open>None\<close>). The first component is
  whether the last record was for this text, before and after.
\<close>

definition undo_prelude :: "buffer_text \<Rightarrow> bool \<times> buffer_view \<Rightarrow> (bool \<times> buffer_view) option" where
  "undo_prelude b s =
     (case undo_list (snd s) of
        None \<Rightarrow> None
      | Some _ \<Rightarrow>
          let v1 = (if \<not> fst s then undo_boundary (snd s) else snd s);
              v2 = (if modiff b \<le> save_modiff b
                    then v1\<lparr>undo_list := map_option (\<lambda>es. Undo_modtime ((modtime b div 65536) mod 65536) (modtime b mod 65536) # es) (undo_list v1)\<rparr>
                    else v1)
          in Some (True, v2))"

definition record_insert :: "buffer_text \<Rightarrow> int \<Rightarrow> int \<Rightarrow> bool \<times> buffer_view \<Rightarrow> bool \<times> buffer_view" where
  "record_insert b bg len s =
     (case undo_prelude b s of
        None \<Rightarrow> s
      | Some (here, v) \<Rightarrow>
          (here, v\<lparr>undo_list :=
             (case undo_list v of
                Some (Undo_insert x y # es) \<Rightarrow>
                  if y = bg then Some (Undo_insert x (bg + len) # es)
                  else Some (Undo_insert bg (bg + len) # Undo_insert x y # es)
              | Some es \<Rightarrow> Some (Undo_insert bg (bg + len) # es)
              | None \<Rightarrow> None)\<rparr>))"

text \<open>The text of a part of the buffer; it may lie before or after the gap or on both sides.\<close>

definition mem_string :: "buffer_text \<Rightarrow> int \<Rightarrow> int \<Rightarrow> string" where
  "mem_string b a n = map (mem b) [a..a + n - 1]"

definition make_string_from_buffer :: "buffer_text \<Rightarrow> int \<Rightarrow> int \<Rightarrow> string" where
  "make_string_from_buffer b pos len =
     (let len1 = gpt b - pos; start1 = BI_BUF_BYTE_ADDRESS b pos
      in if len1 < 0 then mem_string b start1 len
         else if len \<le> len1 then mem_string b start1 len
         else mem_string b start1 len1 @ mem_string b (BI_BUF_BYTE_ADDRESS b (pos + len1)) (len - len1))"

definition record_delete :: "buffer_text \<Rightarrow> nat \<Rightarrow> int \<Rightarrow> int \<Rightarrow> bool \<times> buffer_view \<Rightarrow> bool \<times> buffer_view" where
  "record_delete b j bg len s =
     (case undo_prelude b s of
        None \<Rightarrow> s
      | Some (here, v) \<Rightarrow>
          let es = the (undo_list v);
              at_boundary = (es \<noteq> [] \<and> hd es = Undo_boundary);
              sbeg = (if pt v = bg + len then - bg else bg);
              es1 = (case last_point b of
                       Some (j', p) \<Rightarrow> if at_boundary \<and> j' = j \<and> p \<noteq> sbeg then Undo_point p # es else es
                     | None \<Rightarrow> es)
          in (here, v\<lparr>undo_list := Some (Undo_delete (make_string_from_buffer b bg len) sbeg # es1)\<rparr>))"

definition record_change :: "buffer_text \<Rightarrow> nat \<Rightarrow> int \<Rightarrow> int \<Rightarrow> bool \<times> buffer_view \<Rightarrow> bool \<times> buffer_view" where
  "record_change b j bg len s = record_insert b bg len (record_delete b j bg len s)"

text \<open>A record made in every view in turn.\<close>

fun record_views :: "(nat \<Rightarrow> bool \<times> buffer_view \<Rightarrow> bool \<times> buffer_view) \<Rightarrow> nat \<Rightarrow> bool \<Rightarrow> buffer_view list \<Rightarrow> bool \<times> buffer_view list" where
  "record_views f j here [] = (here, [])"
| "record_views f j here (v # vs) =
     (let r = f j (here, v); rs = record_views f (j + 1) (fst r) vs in (fst rs, snd r # snd rs))"

definition record_all :: "(nat \<Rightarrow> bool \<times> buffer_view \<Rightarrow> bool \<times> buffer_view) \<Rightarrow> buffer_text \<Rightarrow> buffer_text" where
  "record_all f b = (let r = record_views f 0 (undo_here b) (views b) in b\<lparr>undo_here := fst r, views := snd r\<rparr>)"

section \<open>Change hooks\<close>

definition buffer_signal_changed_region :: "buffer_text \<Rightarrow> int \<Rightarrow> int \<Rightarrow> buffer_view \<Rightarrow> buffer_view" where
  "buffer_signal_changed_region b start fin v =
     (let v1 = (if begin_unchanged v < 0 \<or> begin_unchanged v > start - 1 then v\<lparr>begin_unchanged := start - 1\<rparr> else v)
      in if end_unchanged v1 < 0 \<or> end_unchanged v1 > bufz b - fin then v1\<lparr>end_unchanged := bufz b - fin\<rparr> else v1)"

definition buffer_reset_changes :: "buffer_view \<Rightarrow> buffer_view" where
  "buffer_reset_changes v = v\<lparr>begin_unchanged := - 1, end_unchanged := - 1, newline_was_deleted := False\<rparr>"

text \<open>
  \<open>signal_first_change\<close> for every view: the hook variable is looked up in the current buffer,
  which is taken to be the buffer that is changed (view \<open>i\<close>), and the hook is run in the view.
\<close>

definition signal_first_change :: "nat \<Rightarrow> buffer_text \<Rightarrow> buffer_text" where
  "signal_first_change i b =
     b\<lparr>hook_log := hook_log b @
        (if first_change_hook (views b ! i)
         then map First_change (filter (\<lambda>j. first_change_hook (views b ! j)) [0..<length (views b)]) else [])\<rparr>"

text \<open>
  The loops that run \<open>before-change-functions\<close> and \<open>after-change-functions\<close>: the hook variable is
  looked up in every view, and where it is non-nil the hook is run with buffer \<open>i\<close> current.
\<close>

definition run_change_functions :: "(buffer_view \<Rightarrow> bool) \<Rightarrow> nat \<Rightarrow> hook_call \<Rightarrow> buffer_text \<Rightarrow> buffer_text" where
  "run_change_functions hook i call b =
     b\<lparr>hook_log := hook_log b @ (if hook (views b ! i) then map (\<lambda>_. call) (filter hook (views b)) else [])\<rparr>"

definition signal_after_change :: "nat \<Rightarrow> int \<Rightarrow> int \<Rightarrow> int \<Rightarrow> buffer_text \<Rightarrow> buffer_text" where
  "signal_after_change i start orig_end new_end b =
     (let b1 = MAP_INDIRECT_BUFFERS (buffer_signal_changed_region b start new_end) b
      in if in_multiple_change b1 \<noteq> 0 \<and> mc_begin b1 \<noteq> 0
         then b1\<lparr>mc_new_end := mc_new_end b1 + (new_end - orig_end)\<rparr>
         else run_change_functions after_change_functions i (After_change i start new_end (orig_end - start)) b1)"

definition cancel_multiple_change :: "nat \<Rightarrow> buffer_text \<Rightarrow> buffer_text" where
  "cancel_multiple_change i b =
     (if mc_begin b \<noteq> 0 \<and> mc_begin_signaled b
      then signal_after_change i (mc_begin b) (mc_orig_end b) (mc_new_end b) (b\<lparr>mc_begin := 0\<rparr>)
      else b\<lparr>mc_begin := 0\<rparr>)"

definition begin_multiple_change :: "nat \<Rightarrow> int \<Rightarrow> int \<Rightarrow> buffer_text \<Rightarrow> buffer_text" where
  "begin_multiple_change i start fin b =
     (let b1 = (if in_multiple_change b \<noteq> 0
                then if mc_begin b \<noteq> 0 \<and> (start < mc_begin b \<or> fin > mc_new_end b)
                     then cancel_multiple_change i b else b
                else b\<lparr>mc_begin := start, mc_orig_end := fin, mc_new_end := fin, mc_begin_signaled := False\<rparr>)
      in b1\<lparr>in_multiple_change := in_multiple_change b1 + 1\<rparr>)"

definition multiple_change_finish_up :: "nat \<Rightarrow> buffer_text \<Rightarrow> buffer_text" where
  "multiple_change_finish_up i b = cancel_multiple_change i (b\<lparr>in_multiple_change := 0\<rparr>)"

definition end_multiple_change :: "nat \<Rightarrow> buffer_text \<Rightarrow> buffer_text" where
  "end_multiple_change i b =
     (let b1 = b\<lparr>in_multiple_change := in_multiple_change b - 1\<rparr>
      in if in_multiple_change b1 = 0 then multiple_change_finish_up i b1 else b1)"

definition signal_before_change :: "nat \<Rightarrow> int \<Rightarrow> int \<Rightarrow> buffer_text \<Rightarrow> buffer_text" where
  "signal_before_change i start fin b =
     (let session = (in_multiple_change b \<noteq> 0 \<and> mc_begin b \<noteq> 0);
          outside = (start < mc_begin b \<or> fin > mc_new_end b)
      in if session \<and> \<not> outside \<and> mc_begin_signaled b then b
         else let b1 = (if session \<and> outside then cancel_multiple_change i b else b);
                  (s, e) = (if session \<and> \<not> outside then (mc_begin b, mc_new_end b) else (start, fin));
                  b2 = (if save_modiff b1 \<ge> modiff b1 then signal_first_change i b1 else b1);
                  b3 = run_change_functions before_change_functions i (Before_change i s e) b2
              in b3\<lparr>mc_begin_signaled := True\<rparr>)"

text \<open>\<open>barf_if_buffer_read_only\<close> in every view, and the hooks; file locking is left out.\<close>

definition barf_if_buffer_read_only :: "buffer_text \<Rightarrow> buffer_view \<Rightarrow> bool" where
  "barf_if_buffer_read_only b v \<longleftrightarrow> \<not> inhibit_read_only b \<and> buf_read_only v"

definition prepare_to_modify_buffer :: "nat \<Rightarrow> int \<Rightarrow> int \<Rightarrow> buffer_text \<Rightarrow> buffer_text lresult" where
  "prepare_to_modify_buffer i start fin b =
     (if list_ex (barf_if_buffer_read_only b) (views b) then Inl (Simple_error ''buffer-read-only'' [])
      else Inr (signal_before_change i start fin b))"

section \<open>Insertion\<close>

text \<open>What is done once the gap is at the place of insertion and large enough.\<close>

definition insert_into_gap :: "nat \<Rightarrow> int \<Rightarrow> string \<Rightarrow> bool \<Rightarrow> bool \<Rightarrow> buffer_text \<Rightarrow> buffer_text" where
  "insert_into_gap i ind str move_point before_markers b =
     (let len = int (length str);
          b1 = record_all (\<lambda>j. record_insert b ind len) b;
          b2 = b1\<lparr>modiff := modiff b1 + 1,
                  mem := (\<lambda>a. if BUF_GPT_ADDR b1 \<le> a \<and> a < BUF_GPT_ADDR b1 + len then str ! nat (a - BUF_GPT_ADDR b1) else mem b1 a),
                  gap_size := gap_size b1 - len, gpt := gpt b1 + len\<rparr>;
          b3 = (MAP_INDIRECT_BUFFERS (\<lambda>v. v\<lparr>zv := zv v + len\<rparr>) b2)\<lparr>bufz := bufz b2 + len\<rparr>;
          b4 = MAP_INDIRECT_BUFFERS (adjust_markers_for_insert ind len) b3;
          b5 = MAP_INDIRECT_BUFFERS (\<lambda>v. if pt v > ind then v\<lparr>pt := pt v + len\<rparr> else v) b4;
          b6 = (if move_point then set_buffer_point i (ind + len) b5 else b5);
          b7 = (if before_markers then MAP_INDIRECT_BUFFERS (adjust_markers (ind - 1) ind len) b6 else b6)
      in signal_after_change i ind ind (ind + len) b7)"

definition buffer_insert_string_1 ::
    "(nat \<Rightarrow> bool) \<Rightarrow> nat \<Rightarrow> int \<Rightarrow> string \<Rightarrow> bool \<Rightarrow> buffer_text \<Rightarrow> buffer_text \<times> int outcome" where
  "buffer_insert_string_1 quit i pos0 str before_markers b =
     (let len = int (length str); move_point = (pos0 = - 1);
          pos1 = (if move_point then pt (views b ! i) else pos0)
      in if len + bufz b > EMACS_INT_MAX then (b, Signal (Error_string ''Maximum buffer size exceeded''))
         else case prepare_to_modify_buffer i pos1 pos1 b of
                Inl e \<Rightarrow> (b, Signal e)
              | Inr b1 \<Rightarrow>
                  let v = views b1 ! i;
                      pos2 = (if pos1 < begv v then begv v else pos1);
                      pos = (if pos2 > zv v then zv v else pos2);
                      (b2, q) = (if pos \<noteq> gpt b1 then move_gap quit pos b1 else (b1, False))
                  in if q then (b2, Quit)
                     else case (if gap_size b2 \<ge> len then Inr b2
                                else if end_gap_size b2 \<ge> len then Inr (merge_gap_with_end_gap b2)
                                else make_gap (len - gap_size b2) b2) of
                            Inl e \<Rightarrow> (b2, Signal e)
                          | Inr b3 \<Rightarrow> (insert_into_gap i pos str move_point before_markers b3, Return len))"

section \<open>Deletion\<close>

definition relocate_point :: "int \<Rightarrow> int \<Rightarrow> buffer_view \<Rightarrow> buffer_view" where
  "relocate_point from to v =
     (if from < pt v then if pt v < to then v\<lparr>pt := from\<rparr> else v\<lparr>pt := pt v - (to - from)\<rparr> else v)"

text \<open>Deleting the end of the text while the gap is before it: the end gap grows.\<close>

definition delete_at_end :: "int \<Rightarrow> int \<Rightarrow> buffer_text \<Rightarrow> buffer_text" where
  "delete_at_end from to b =
     (let n = to - from;
          b1 = record_all (\<lambda>j. record_delete b j from n) b;
          b2 = b1\<lparr>modiff := modiff b1 + 1\<rparr>;
          b3 = MAP_INDIRECT_BUFFERS (adjust_markers (to + gap_size b2) (to + gap_size b2) (- n)) b2;
          b4 = MAP_INDIRECT_BUFFERS (relocate_point from to) b3;
          b5 = b4\<lparr>end_gap_size := end_gap_size b4 + n\<rparr>
      in (MAP_INDIRECT_BUFFERS (\<lambda>v. v\<lparr>zv := zv v - n\<rparr>) b5)\<lparr>bufz := bufz b5 - n\<rparr>)"

text \<open>Deleting around the gap: the gap grows.\<close>

definition delete_at_gap :: "int \<Rightarrow> int \<Rightarrow> buffer_text \<Rightarrow> buffer_text" where
  "delete_at_gap from to b =
     (let n = to - from;
          b1 = record_all (\<lambda>j. record_delete b j from n) b;
          b2 = b1\<lparr>modiff := modiff b1 + 1\<rparr>;
          b3 = MAP_INDIRECT_BUFFERS (adjust_markers (to + gap_size b2) (to + gap_size b2) (- n - gap_size b2)) b2;
          b4 = MAP_INDIRECT_BUFFERS (relocate_point from to) b3;
          b5 = b4\<lparr>gap_size := gap_size b4 + n\<rparr>
      in (MAP_INDIRECT_BUFFERS (\<lambda>v. v\<lparr>zv := zv v - n\<rparr>) b5)\<lparr>bufz := bufz b5 - n, gpt := from\<rparr>)"

text \<open>Whether \<open>scan_buffer\<close> finds a newline in the region.\<close>

definition region_has_newline :: "buffer_text \<Rightarrow> int \<Rightarrow> int \<Rightarrow> bool" where
  "region_has_newline b from to \<longleftrightarrow> list_ex (\<lambda>x. BUF_FETCH_CHAR b x = CHR 0x0A) [from..to - 1]"

text \<open>What is done once the region is known; the gap is brought into it or next to it.\<close>

definition delete_region :: "(nat \<Rightarrow> bool) \<Rightarrow> nat \<Rightarrow> int \<Rightarrow> int \<Rightarrow> buffer_text \<Rightarrow> buffer_text \<times> unit outcome" where
  "delete_region quit i from to b1 =
     (let b2 = (if \<not> newline_was_deleted (views b1 ! i) \<and> region_has_newline b1 from to
                then MAP_INDIRECT_BUFFERS (\<lambda>v. v\<lparr>newline_was_deleted := True\<rparr>) b1 else b1)
      in if to = bufz b2 \<and> from > gpt b2
         then (signal_after_change i from to from (delete_at_end from to b2), Return ())
         else let (b3, q) = (if to < gpt b2 then gap_left quit to b2 else (b2, False))
              in if q then (b3, Quit)
                 else let (b4, q') = (if from > gpt b3 then gap_right quit from b3 else (b3, False))
                      in if q' then (b4, Quit)
                         else (signal_after_change i from to from (delete_at_gap from to b4), Return ()))"

definition buffer_delete_range :: "(nat \<Rightarrow> bool) \<Rightarrow> nat \<Rightarrow> int \<Rightarrow> int \<Rightarrow> buffer_text \<Rightarrow> buffer_text \<times> unit outcome" where
  "buffer_delete_range quit i from0 to0 b =
     (let v = views b ! i;
          from1 = (if from0 < begv v then begv v else from0);
          to1 = (if to0 > zv v then zv v else to0)
      in if to1 - from1 \<le> 0 then (b, Return ())
         else case prepare_to_modify_buffer i from1 to1 b of
                Inl e \<Rightarrow> (b, Signal e)
              | Inr b1 \<Rightarrow>
                  let v1 = views b1 ! i;
                      from = (if from1 < begv v1 then begv v1 else from1);
                      to = (if to1 > zv v1 then zv v1 else to1)
                  in if to - from \<le> 0 then (b1, Return ())
                     else delete_region quit i from to b1)"

section \<open>Replacement\<close>

text \<open>Without Mule every character is one byte, so a character is replaced in place.\<close>

definition buffer_replace_char :: "nat \<Rightarrow> int \<Rightarrow> char \<Rightarrow> bool \<Rightarrow> buffer_text \<Rightarrow> buffer_text \<times> unit outcome" where
  "buffer_replace_char i pos0 ch not_real_change b =
     (case prepare_to_modify_buffer i pos0 (pos0 + 1) b of
        Inl e \<Rightarrow> (b, Signal e)
      | Inr b1 \<Rightarrow>
          let v = views b1 ! i;
              pos1 = (if pos0 < begv v then begv v else pos0);
              pos = (if pos1 \<ge> zv v then zv v - 1 else pos1)
          in if pos < begv v then (b1, Return ())
             else let b2 = (if BUF_FETCH_CHAR b1 pos = CHR 0x0A
                            then MAP_INDIRECT_BUFFERS (\<lambda>v. v\<lparr>newline_was_deleted := True\<rparr>) b1 else b1);
                      b3 = (if \<not> not_real_change
                            then (record_all (\<lambda>j. record_change b2 j pos 1) b2)\<lparr>modiff := modiff b2 + 1\<rparr> else b2);
                      b4 = b3\<lparr>mem := (mem b3)(BI_BUF_BYTE_ADDRESS b3 pos := ch)\<rparr>
                  in (signal_after_change i pos (pos + 1) (pos + 1) b4, Return ()))"

end
