(* ===== verification/BufferProps.thy ===== *)
theory BufferProps
  imports BufferGap BufferEdit
begin

text \<open>
  Editing refines operations on strings: insertion and deletion change the text, point and the
  positions of markers in every buffer that shares the text as they should, for every place of the
  gap and every size of it, and are without effect on them when they are left by an error or a quit.
\<close>

section \<open>Strings of characters at positions\<close>

lemma map_upto_eqI:
  assumes "length xs = nat (c - a + 1)" and "\<And>k. k < length xs \<Longrightarrow> f (a + int k) = xs ! k"
  shows "map f [a..c] = xs"
  using assms by (intro nth_equalityI) auto

lemma map_upto_split:
  "a \<le> b \<Longrightarrow> b \<le> c + 1 \<Longrightarrow> map f [a..c] = map f [a..b - 1] @ map f [b..c]" for a :: int
proof (cases "b \<le> c")
  case True
  assume "a \<le> b"
  then show ?thesis using upto_split1 [of a b c] True by simp
next
  case False
  assume "b \<le> c + 1"
  with False have "c = b - 1" by simp
  then show ?thesis by simp
qed

lemma map_upto_shift: "(\<And>x. a \<le> x \<Longrightarrow> x \<le> c \<Longrightarrow> g (x + d) = f x) \<Longrightarrow> map g [a + d..c + d] = map f [a..c]" for a :: int
proof (rule map_upto_eqI)
  assume h: "\<And>x. a \<le> x \<Longrightarrow> x \<le> c \<Longrightarrow> g (x + d) = f x"
  fix k assume "k < length (map f [a..c])"
  then have "k < nat (c - a + 1)" by simp
  then have "a + int k \<le> c" by linarith
  then show "g (a + d + int k) = map f [a..c] ! k" using h [of "a + int k"] by (simp add: algebra_simps)
qed simp

lemma take_map_upto: "1 \<le> p \<Longrightarrow> p \<le> z \<Longrightarrow> take (nat (p - 1)) (map f [1..z - 1]) = map f [1..p - 1]" for p :: int
  using map_upto_split [of 1 p "z - 1" f] by (simp add: take_map)

lemma drop_map_upto: "1 \<le> p \<Longrightarrow> p \<le> z \<Longrightarrow> drop (nat (p - 1)) (map f [1..z - 1]) = map f [p..z - 1]" for p :: int
  using map_upto_split [of 1 p "z - 1" f] by (simp add: drop_map)

text \<open>The text after an insertion and after a deletion, read off the characters.\<close>

lemma inserted_string:
  assumes p: "1 \<le> p" "p \<le> bufz b" and z: "bufz b' = bufz b + int (length str)"
    and "\<And>x. 1 \<le> x \<Longrightarrow> x < p \<Longrightarrow> BUF_FETCH_CHAR b' x = BUF_FETCH_CHAR b x"
    and "\<And>k. k < length str \<Longrightarrow> BUF_FETCH_CHAR b' (p + int k) = str ! k"
    and "\<And>x. p \<le> x \<Longrightarrow> x < bufz b \<Longrightarrow> BUF_FETCH_CHAR b' (x + int (length str)) = BUF_FETCH_CHAR b x"
  shows "buffer_string b' = take (nat (p - 1)) (buffer_string b) @ str @ drop (nat (p - 1)) (buffer_string b)"
proof -
  let ?n = "int (length str)"
  have "buffer_string b' = map (BUF_FETCH_CHAR b') [1..p - 1] @ map (BUF_FETCH_CHAR b') [p..p + ?n - 1] @
      map (BUF_FETCH_CHAR b') [p + ?n..bufz b - 1 + ?n]"
    unfolding buffer_string_def z
    using map_upto_split [of 1 p "bufz b + ?n - 1" "BUF_FETCH_CHAR b'"] map_upto_split [of p "p + ?n" "bufz b + ?n - 1" "BUF_FETCH_CHAR b'"] p
    by (simp add: algebra_simps)
  also have "map (BUF_FETCH_CHAR b') [1..p - 1] = map (BUF_FETCH_CHAR b) [1..p - 1]" using assms(4) by simp
  also have "map (BUF_FETCH_CHAR b') [p..p + ?n - 1] = str" using assms(5) by (intro map_upto_eqI) auto
  also have "map (BUF_FETCH_CHAR b') [p + ?n..bufz b - 1 + ?n] = map (BUF_FETCH_CHAR b) [p..bufz b - 1]"
    using assms(6) by (intro map_upto_shift) auto
  finally show ?thesis unfolding buffer_string_def take_map_upto [OF p] drop_map_upto [OF p] .
qed

lemma deleted_string:
  assumes p: "1 \<le> from" "from \<le> to" "to \<le> bufz b" and z: "bufz b' = bufz b - (to - from)"
    and "\<And>x. 1 \<le> x \<Longrightarrow> x < from \<Longrightarrow> BUF_FETCH_CHAR b' x = BUF_FETCH_CHAR b x"
    and "\<And>x. to \<le> x \<Longrightarrow> x < bufz b \<Longrightarrow> BUF_FETCH_CHAR b' (x - (to - from)) = BUF_FETCH_CHAR b x"
  shows "buffer_string b' = take (nat (from - 1)) (buffer_string b) @ drop (nat (to - 1)) (buffer_string b)"
proof -
  have "buffer_string b' = map (BUF_FETCH_CHAR b') [1..from - 1] @ map (BUF_FETCH_CHAR b') [from..bufz b - (to - from) - 1]"
    unfolding buffer_string_def z using map_upto_split [of 1 "from" "bufz b - (to - from) - 1" "BUF_FETCH_CHAR b'"] p by simp
  also have "map (BUF_FETCH_CHAR b') [1..from - 1] = map (BUF_FETCH_CHAR b) [1..from - 1]" using assms(5) by simp
  also have "map (BUF_FETCH_CHAR b') [from..bufz b - (to - from) - 1] = map (BUF_FETCH_CHAR b) [to..bufz b - 1]"
    using map_upto_shift [of to "bufz b - 1" "BUF_FETCH_CHAR b'" "- (to - from)" "BUF_FETCH_CHAR b"] assms(6) by (simp add: algebra_simps)
  finally show ?thesis unfolding buffer_string_def using p by (simp add: take_map_upto drop_map_upto)
qed

section \<open>What records and hooks leave alone\<close>

text \<open>The parts of a view, and of the text, that editing is about.\<close>

definition core :: "buffer_view \<Rightarrow> int \<times> int \<times> int \<times> Lisp_Marker list \<times> nat" where
  "core v = (begv v, zv v, pt v, markers v, point_marker v)"

definition geom :: "buffer_text \<Rightarrow> (int \<Rightarrow> char) \<times> int \<times> int \<times> int \<times> int \<times> (int \<times> int \<times> int \<times> Lisp_Marker list \<times> nat) list" where
  "geom b = (mem b, gpt b, bufz b, gap_size b, end_gap_size b, map core (views b))"

lemma geomD:
  assumes "geom b = geom b'"
  shows "mem b' = mem b" "gpt b' = gpt b" "bufz b' = bufz b" "gap_size b' = gap_size b" "end_gap_size b' = end_gap_size b"
    "length (views b') = length (views b)"
    "i < length (views b) \<Longrightarrow> core (views b' ! i) = core (views b ! i)"
proof -
  have "map core (views b) = map core (views b')" using assms by (simp add: geom_def)
  then show len: "length (views b') = length (views b)" by (metis length_map)
  show "core (views b' ! i) = core (views b ! i)" if "i < length (views b)"
    using \<open>map core (views b) = map core (views b')\<close> that len by (metis nth_map)
qed (use assms in \<open>simp_all add: geom_def\<close>)

lemma coreD:
  assumes "core v = core v'"
  shows "begv v' = begv v" "zv v' = zv v" "pt v' = pt v" "markers v' = markers v" "point_marker v' = point_marker v"
  using assms by (auto simp: core_def)

lemma geom_fetch: "geom b = geom b' \<Longrightarrow> BUF_FETCH_CHAR b' = BUF_FETCH_CHAR b"
  by (auto simp: geom_def fun_eq_iff BUF_FETCH_CHAR_def BI_BUF_BYTE_ADDRESS_def)

lemma geom_string: "geom b = geom b' \<Longrightarrow> buffer_string b' = buffer_string b"
  using geomD(3) geom_fetch by (metis buffer_string_def)

lemma geom_memind:
  "geom b = geom b' \<Longrightarrow> memind_ok b' = memind_ok b" "geom b = geom b' \<Longrightarrow> memind_to_bytind b' = memind_to_bytind b"
  by (auto simp: geom_def fun_eq_iff memind_ok_def memind_to_bytind_def)

lemma geom_view_ok:
  assumes "geom b = geom b'" and "core v = core v'"
  shows "view_ok b' v' = view_ok b v"
  using coreD [OF assms(2)] geomD(3) [OF assms(1)] geom_memind [OF assms(1)] by (simp add: view_ok_def)

lemma geom_ok:
  assumes "geom b = geom b'"
  shows "buffer_ok b' = buffer_ok b"
proof -
  have "view_ok b' (views b' ! i) = view_ok b (views b ! i)" if "i < length (views b)" for i
    using geom_view_ok [OF assms] geomD(7) [OF assms that] by metis
  then show ?thesis using geomD(1-6) [OF assms] by (auto simp: buffer_ok_def gap_ok_def all_set_conv_all_nth)
qed

lemma geom_positions:
  assumes "geom b = geom b'"
  shows "map (marker_positions b') (views b') = map (marker_positions b) (views b)"
proof (rule nth_equalityI)
  fix i assume "i < length (map (marker_positions b') (views b'))"
  then have "i < length (views b)" "i < length (views b')" using geomD(6) [OF assms] by simp_all
  then show "map (marker_positions b') (views b') ! i = map (marker_positions b) (views b) ! i"
    using coreD(4) [OF geomD(7) [OF assms], of i] geom_memind(2) [OF assms] by (simp add: marker_positions_def)
qed (simp add: geomD(6) [OF assms])

lemma core_record:
  "core (snd (record_insert b bg len s)) = core (snd s)" "core (snd (record_delete b j bg len s)) = core (snd s)"
  by (auto simp: record_insert_def record_delete_def undo_prelude_def undo_boundary_def core_def Let_def
      split: option.splits list.splits undo_entry.splits)

lemma core_record_views:
  "(\<And>j s. core (snd (f j s)) = core (snd s)) \<Longrightarrow> map core (snd (record_views f j here vs)) = map core vs"
  by (induction vs arbitrary: j here) (simp_all add: Let_def)

lemma geom_record_all:
  assumes "\<And>j s. core (snd (f j s)) = core (snd s)"
  shows "geom (record_all f b) = geom b"
  using core_record_views [OF assms] by (simp add: record_all_def Let_def geom_def)

lemma core_changed_region: "core (buffer_signal_changed_region b s e v) = core v"
  by (simp add: buffer_signal_changed_region_def core_def Let_def)

text \<open>
  Running hooks only adds to the log and updates what is known of the session of changes and of the
  changed region. Whatever does not depend on these is left alone by the hooks.
\<close>

locale hook_observer =
  fixes obs :: "buffer_text \<Rightarrow> 'a"
  assumes obs_log: "obs (b\<lparr>hook_log := l\<rparr>) = obs b"
    and obs_begin: "obs (b\<lparr>mc_begin := x\<rparr>) = obs b"
    and obs_new_end: "obs (b\<lparr>mc_new_end := x\<rparr>) = obs b"
    and obs_signaled: "obs (b\<lparr>mc_begin_signaled := t\<rparr>) = obs b"
    and obs_changed: "obs (MAP_INDIRECT_BUFFERS (buffer_signal_changed_region c s e) b) = obs b"
begin

lemma run_hooks: "obs (signal_first_change i b) = obs b" "obs (run_change_functions h i call b) = obs b"
  by (simp_all add: signal_first_change_def run_change_functions_def obs_log)

lemma after_change: "obs (signal_after_change i s e n b) = obs b"
  by (simp add: signal_after_change_def Let_def run_hooks obs_changed obs_new_end)

lemma cancel: "obs (cancel_multiple_change i b) = obs b"
  by (simp add: cancel_multiple_change_def after_change obs_begin)

lemma before_change: "obs (signal_before_change i s e b) = obs b"
  by (simp add: signal_before_change_def Let_def run_hooks cancel obs_signaled split: prod.split)

lemma prepare: "prepare_to_modify_buffer i s e b = Inr b' \<Longrightarrow> obs b' = obs b"
  by (auto simp: prepare_to_modify_buffer_def before_change split: if_splits)

end

interpretation geom_obs: hook_observer geom
  by unfold_locales (simp_all add: geom_def core_changed_region)

text \<open>
  The undo lists of the views, which only records change, with the file time and the read-only
  flags, which editing leaves alone.
\<close>

definition undo_state :: "buffer_text \<Rightarrow> undo_entry list option list \<times> int \<times> bool \<times> bool list" where
  "undo_state b = (map undo_list (views b), modtime b, inhibit_read_only b, map buf_read_only (views b))"

lemma undo_list_changed_region:
  "undo_list (buffer_signal_changed_region b s e v) = undo_list v" "buf_read_only (buffer_signal_changed_region b s e v) = buf_read_only v"
  by (simp_all add: buffer_signal_changed_region_def Let_def)

interpretation undo_obs: hook_observer undo_state
  by unfold_locales (simp_all add: undo_state_def undo_list_changed_region)

lemmas hook_simps [simp] = geom_obs.after_change undo_obs.after_change

lemma undo_state_moved:
  assumes "gap_moved b b'"
  shows "undo_state b' = undo_state b"
proof -
  have v: "list_all2 (view_moved b b') (views b) (views b')" using assms by (simp add: gap_moved_def)
  have "undo_list w = undo_list v \<and> buf_read_only w = buf_read_only v" if "view_moved b b' v w" for v w
  proof -
    have "w = v\<lparr>markers := markers w\<rparr>" using that by (simp add: view_moved_def)
    then have "(undo_list w, buf_read_only w) = (\<lambda>x. (undo_list x, buf_read_only x)) (v\<lparr>markers := markers w\<rparr>)"
      by (rule arg_cong [of _ _ "\<lambda>x. (undo_list x, buf_read_only x)"])
    then show ?thesis by simp
  qed
  then have "map undo_list (views b') = map undo_list (views b)" "map buf_read_only (views b') = map buf_read_only (views b)" using v unfolding list_all2_conv_all_nth by (auto intro!: nth_equalityI)
  moreover have "modtime b' = modtime b \<and> inhibit_read_only b' = inhibit_read_only b"
  proof -
    let ?c = "b\<lparr>mem := mem b', gpt := gpt b', gap_size := gap_size b', end_gap_size := end_gap_size b', views := views b'\<rparr>"
    have "b' = ?c" using assms unfolding gap_moved_def by blast
    then have "modtime b' = modtime ?c \<and> inhibit_read_only b' = inhibit_read_only ?c" by (metis (no_types))
    then show ?thesis by simp
  qed
  ultimately show ?thesis by (simp add: undo_state_def)
qed

section \<open>Insertion\<close>

text \<open>Where a marker at position \<open>p\<close> goes when text is inserted at \<open>ind\<close>.\<close>

definition ins_pos :: "int \<Rightarrow> int \<Rightarrow> bool \<Rightarrow> int \<Rightarrow> bool \<Rightarrow> int" where
  "ins_pos ind len before p t = (if p > ind \<or> (p = ind \<and> (t \<or> before)) then p + len else p)"

definition ins_memind :: "int \<Rightarrow> int \<Rightarrow> bool \<Rightarrow> int \<Rightarrow> bool \<Rightarrow> int" where
  "ins_memind ind len before x t =
     (let x1 = (if t \<and> x = ind then x + len else x)
      in if before then do_marker_adjustment x1 (ind - 1) ind len else x1)"

text \<open>The text after the insertion: its gap starts later and is smaller.\<close>

definition gap_filled :: "buffer_text \<Rightarrow> buffer_text \<Rightarrow> int \<Rightarrow> int \<Rightarrow> bool" where
  "gap_filled b b' ind len \<longleftrightarrow> gap_ok b \<and> gpt b = ind \<and> 0 \<le> len \<and> len \<le> gap_size b \<and>
     gpt b' = ind + len \<and> gap_size b' = gap_size b - len \<and> bufz b' = bufz b + len \<and> end_gap_size b' = end_gap_size b"

lemma ins_memind_ok:
  assumes "gap_filled b b' ind len" and "memind_ok b x"
  shows "memind_ok b' (ins_memind ind len before x t)"
    and "memind_to_bytind b' (ins_memind ind len before x t) = ins_pos ind len before (memind_to_bytind b x) t"
  using assms
  by (auto simp: gap_filled_def gap_ok_def memind_ok_def ins_memind_def ins_pos_def memind_to_bytind_def do_marker_adjustment_def Let_def)

text \<open>The steps on one view, together; \<open>mv\<close> is whether point moves to the end of the insertion.\<close>

definition ins_view :: "int \<Rightarrow> int \<Rightarrow> bool \<Rightarrow> bool \<Rightarrow> buffer_view \<Rightarrow> buffer_view" where
  "ins_view ind len before mv v =
     (let v3 = adjust_markers_for_insert ind len (v\<lparr>zv := zv v + len\<rparr>);
          v4 = (if pt v3 > ind then v3\<lparr>pt := pt v3 + len\<rparr> else v3);
          v5 = (if mv \<and> ind + len \<noteq> pt v4
                then v4\<lparr>pt := ind + len, markers := (markers v4)[point_marker v4 := (markers v4 ! point_marker v4)\<lparr>memind := ind + len\<rparr>]\<rparr>
                else v4)
      in if before then adjust_markers (ind - 1) ind len v5 else v5)"

lemma views_set_point:
  "i < length (views b) \<Longrightarrow> views (set_buffer_point i p b) ! j =
     (if j = i \<and> p \<noteq> pt (views b ! i)
      then (views b ! i)\<lparr>pt := p, markers := (markers (views b ! i))[point_marker (views b ! i) :=
             (markers (views b ! i) ! point_marker (views b ! i))\<lparr>memind := bytind_to_memind b p\<rparr>]\<rparr>
      else views b ! j)"
  "length (views (set_buffer_point i p b)) = length (views b)"
  by (auto simp: set_buffer_point_def Let_def)

lemma insert_into_gap_geom:
  assumes "gpt b = ind" and "i < length (views b)" and len: "len = int (length str)"
    and b'_def: "b' = insert_into_gap i ind str mp before b"
  shows "gpt b' = ind + len" "gap_size b' = gap_size b - len" "bufz b' = bufz b + len" "end_gap_size b' = end_gap_size b"
    "mem b' = (\<lambda>a. if ind - 1 \<le> a \<and> a < ind - 1 + len then str ! nat (a - (ind - 1)) else mem b a)"
    "length (views b') = length (views b)"
    "j < length (views b) \<Longrightarrow> \<exists>v. core v = core (views b ! j) \<and> core (views b' ! j) = core (ins_view ind len before (mp \<and> j = i) v)"
proof -
  define b1 where "b1 = record_all (\<lambda>j. record_insert b ind len) b"
  have g1: "geom b1 = geom b" unfolding b1_def using core_record(1) by (intro geom_record_all) simp
  note D = geomD [OF g1 [symmetric]]
  define b5 where "b5 = b1\<lparr>modiff := modiff b1 + 1,
      mem := (\<lambda>a. if BUF_GPT_ADDR b1 \<le> a \<and> a < BUF_GPT_ADDR b1 + len then str ! nat (a - BUF_GPT_ADDR b1) else mem b1 a),
      gap_size := gap_size b1 - len, gpt := gpt b1 + len, bufz := bufz b1 + len,
      views := map (\<lambda>v. let v3 = adjust_markers_for_insert ind len (v\<lparr>zv := zv v + len\<rparr>)
                        in if pt v3 > ind then v3\<lparr>pt := pt v3 + len\<rparr> else v3) (views b1)\<rparr>"
  define b6 where "b6 = (if mp then set_buffer_point i (ind + len) b5 else b5)"
  define b7 where "b7 = (if before then MAP_INDIRECT_BUFFERS (adjust_markers (ind - 1) ind len) b6 else b6)"
  have b': "b' = signal_after_change i ind ind (ind + len) b7"
    unfolding b'_def insert_into_gap_def b7_def b6_def b5_def b1_def len Let_def by (simp add: comp_def)
  have g: "geom b7 = geom b'" unfolding b' by simp
  note E = geomD [OF g]
  have sp: "mem (set_buffer_point i p c) = mem c" "gpt (set_buffer_point i p c) = gpt c" "bufz (set_buffer_point i p c) = bufz c"
    "gap_size (set_buffer_point i p c) = gap_size c" "end_gap_size (set_buffer_point i p c) = end_gap_size c" for p c
    by (simp_all add: set_buffer_point_def Let_def)
  have b7: "mem b7 = mem b5" "gpt b7 = gpt b5" "bufz b7 = bufz b5" "gap_size b7 = gap_size b5" "end_gap_size b7 = end_gap_size b5"
    unfolding b7_def b6_def by (simp_all add: sp)
  show "gpt b' = ind + len" "gap_size b' = gap_size b - len" "bufz b' = bufz b + len" "end_gap_size b' = end_gap_size b"
    "mem b' = (\<lambda>a. if ind - 1 \<le> a \<and> a < ind - 1 + len then str ! nat (a - (ind - 1)) else mem b a)"
    using E(1-5) D(1-5) assms(1) unfolding b7 b5_def by (simp_all add: BUF_GPT_ADDR_def cong: if_cong)
  have l5: "length (views b5) = length (views b)" unfolding b5_def using D(6) by simp
  have l7: "length (views b7) = length (views b)" unfolding b7_def b6_def using l5 views_set_point(2) by simp
  then show "length (views b') = length (views b)" using E(6) by simp
  assume j: "j < length (views b)"
  have m5: "bytind_to_memind b5 (ind + len) = ind + len" unfolding b5_def using D(2) assms(1) by (simp add: bytind_to_memind_def)
  have v5: "views b5 ! j = (let v3 = adjust_markers_for_insert ind len ((views b1 ! j)\<lparr>zv := zv (views b1 ! j) + len\<rparr>)
      in if pt v3 > ind then v3\<lparr>pt := pt v3 + len\<rparr> else v3)" unfolding b5_def using j D(6) by simp
  have "views b7 ! j = ins_view ind len before (mp \<and> j = i) (views b1 ! j)"
  proof -
    have "views b6 ! j = (if (mp \<and> j = i) \<and> ind + len \<noteq> pt (views b5 ! j)
        then (views b5 ! j)\<lparr>pt := ind + len, markers := (markers (views b5 ! j))[point_marker (views b5 ! j) :=
               (markers (views b5 ! j) ! point_marker (views b5 ! j))\<lparr>memind := ind + len\<rparr>]\<rparr>
        else views b5 ! j)"
      unfolding b6_def using views_set_point(1) [of i b5 "ind + len" j] assms(2) l5 m5 by auto
    moreover have "views b7 ! j = (if before then adjust_markers (ind - 1) ind len (views b6 ! j) else views b6 ! j)"
      unfolding b7_def using j l7 unfolding b7_def by auto
    ultimately show ?thesis unfolding ins_view_def v5 Let_def by simp
  qed
  then have "core (views b' ! j) = core (ins_view ind len before (mp \<and> j = i) (views b1 ! j))" using E(7) [of j] l7 j by simp
  then show "\<exists>v. core v = core (views b ! j) \<and> core (views b' ! j) = core (ins_view ind len before (mp \<and> j = i) v)"
    using D(7) [OF j] by blast
qed

text \<open>The marker positions of a view after an insertion; a moved point takes its marker along.\<close>

definition ins_positions :: "int \<Rightarrow> int \<Rightarrow> bool \<Rightarrow> bool \<Rightarrow> nat \<Rightarrow> (int \<times> bool) list \<Rightarrow> (int \<times> bool) list" where
  "ins_positions ind len before mv k mps =
     (let mps' = map (\<lambda>(p, t). (ins_pos ind len before p t, t)) mps
      in if mv then mps'[k := (ind + len, snd (mps' ! k))] else mps')"

lemma ins_view_cases:
  assumes "mv \<longrightarrow> pt v = ind" and "0 \<le> len"
  shows "ins_view ind len before mv v =
    (let v4 = v\<lparr>zv := zv v + len, pt := (if mv then ind + len else if pt v > ind then pt v + len else pt v),
               markers := map (\<lambda>m. if insertion_type m \<and> memind m = ind then m\<lparr>memind := memind m + len\<rparr> else m) (markers v)\<rparr>;
         v5 = (if mv \<and> len \<noteq> 0
               then v4\<lparr>markers := (markers v4)[point_marker v := (markers v4 ! point_marker v)\<lparr>memind := ind + len\<rparr>]\<rparr> else v4)
     in if before then adjust_markers (ind - 1) ind len v5 else v5)"
  using assms by (cases v; cases mv) (simp_all add: ins_view_def Let_def adjust_markers_for_insert_def)

lemma ins_view_fields:
  assumes "mv \<longrightarrow> pt v = ind" and "0 \<le> len" and "point_marker v < length (markers v)"
  shows "begv (ins_view ind len before mv v) = begv v" "zv (ins_view ind len before mv v) = zv v + len"
    "point_marker (ins_view ind len before mv v) = point_marker v"
    "pt (ins_view ind len before mv v) = (if mv then ind + len else if pt v > ind then pt v + len else pt v)"
    "length (markers (ins_view ind len before mv v)) = length (markers v)"
    "k < length (markers v) \<Longrightarrow> markers (ins_view ind len before mv v) ! k =
       (markers v ! k)\<lparr>memind := (if mv \<and> k = point_marker v \<and> len \<noteq> 0 then ind + len
                              else ins_memind ind len before (memind (markers v ! k)) (insertion_type (markers v ! k)))\<rparr>"
proof -
  note C = ins_view_cases [OF assms(1,2), of before]
  show "begv (ins_view ind len before mv v) = begv v" "zv (ins_view ind len before mv v) = zv v + len"
    "point_marker (ins_view ind len before mv v) = point_marker v"
    "pt (ins_view ind len before mv v) = (if mv then ind + len else if pt v > ind then pt v + len else pt v)"
    "length (markers (ins_view ind len before mv v)) = length (markers v)"
    unfolding C Let_def by (simp_all add: adjust_markers_def)
  assume k: "k < length (markers v)"
  have same: "m\<lparr>memind := x, memind := y\<rparr> = m\<lparr>memind := y\<rparr>" "m\<lparr>memind := memind m\<rparr> = m" for m :: Lisp_Marker and x y by simp_all
  show "markers (ins_view ind len before mv v) ! k =
       (markers v ! k)\<lparr>memind := (if mv \<and> k = point_marker v \<and> len \<noteq> 0 then ind + len
                              else ins_memind ind len before (memind (markers v ! k)) (insertion_type (markers v ! k)))\<rparr>"
  proof (cases "mv \<and> k = point_marker v \<and> len \<noteq> 0")
    case True
    then show ?thesis unfolding C Let_def using k assms(2)
      by (cases before) (simp_all add: adjust_markers_def do_marker_adjustment_def)
  next
    case False
    then show ?thesis unfolding C Let_def using k
      by (cases before; cases "mv \<and> len \<noteq> 0") (auto simp: adjust_markers_def ins_memind_def)
  qed
qed

lemma ins_view_ok:
  assumes f: "gap_filled b b' ind len" and ok: "view_ok b v" and inside: "begv v \<le> ind" "ind \<le> zv v"
    and mv: "mv \<longrightarrow> pt v = ind" and bm: "before \<longrightarrow> pt v = ind \<longrightarrow> mv"
  shows "marker_positions b' (ins_view ind len before mv v) =
      ins_positions ind len before mv (point_marker v) (marker_positions b v)" (is ?pos)
    and "view_ok b' (ins_view ind len before mv v)"
proof -
  let ?v = "ins_view ind len before mv v" and ?k = "point_marker v"
  have k: "?k < length (markers v)" "memind_to_bytind b (memind (markers v ! ?k)) = pt v"
    "\<not> insertion_type (markers v ! ?k)" using ok by (simp_all add: view_ok_def)
  have len: "0 \<le> len" "gap_ok b" "0 \<le> gap_size b'" "gpt b' = ind + len" "1 \<le> ind" "bufz b' = bufz b + len" "ind \<le> bufz b"
    using f by (auto simp: gap_filled_def gap_ok_def)
  note F = ins_view_fields [OF mv len(1) k(1)]
  have mem: "memind_ok b (memind (markers v ! j))" if "j < length (markers v)" for j
    using ok that by (simp add: view_ok_def)
  note I = ins_memind_ok [OF f mem]
  have fin: "memind_ok b' (ind + len)" "memind_to_bytind b' (ind + len) = ind + len"
    using len by (auto simp: memind_ok_def memind_to_bytind_def)
  have at: "memind_to_bytind b' (memind (markers ?v ! j)) =
      (if mv \<and> j = ?k then ind + len else ins_pos ind len before (memind_to_bytind b (memind (markers v ! j))) (insertion_type (markers v ! j)))"
    "memind_ok b' (memind (markers ?v ! j))" "insertion_type (markers ?v ! j) = insertion_type (markers v ! j)"
    if j: "j < length (markers v)" for j
    using F(6) [OF j] I [OF j] fin k(2) mv by (auto simp: ins_pos_def)
  show ?pos
  proof (rule nth_equalityI)
    show "length (marker_positions b' ?v) = length (ins_positions ind len before mv ?k (marker_positions b v))"
      using F(5) by (simp add: marker_positions_def ins_positions_def Let_def)
    fix j assume "j < length (marker_positions b' ?v)"
    then have j: "j < length (markers v)" using F(5) by (simp add: marker_positions_def)
    show "marker_positions b' ?v ! j = ins_positions ind len before mv ?k (marker_positions b v) ! j"
      using at [OF j] j F(5) k(1) by (auto simp: marker_positions_def ins_positions_def Let_def nth_list_update)
  qed
  have "memind_to_bytind b' (memind (markers ?v ! ?k)) = pt ?v"
    using at(1) [OF k(1)] F(4) k(2,3) bm by (auto simp: ins_pos_def)
  moreover have "\<forall>m \<in> set (markers ?v). memind_ok b' (memind m)" using at(2) F(5) by (metis in_set_conv_nth)
  moreover have "begv ?v \<le> pt ?v" "pt ?v \<le> zv ?v" "zv ?v \<le> bufz b'" "1 \<le> begv ?v"
    using F(1-4) ok inside len by (auto simp: view_ok_def)
  ultimately show "view_ok b' ?v" using F(3,5) k(1,3) at(3) [OF k(1)] by (simp add: view_ok_def)
qed

text \<open>What an insertion of \<open>str\<close> at \<open>ind\<close> does, seen from the text and the views.\<close>

definition inserted :: "buffer_text \<Rightarrow> buffer_text \<Rightarrow> nat \<Rightarrow> int \<Rightarrow> string \<Rightarrow> bool \<Rightarrow> bool \<Rightarrow> bool" where
  "inserted b b' i ind str mp before \<longleftrightarrow>
     buffer_ok b' \<and>
     buffer_string b' = take (nat (ind - 1)) (buffer_string b) @ str @ drop (nat (ind - 1)) (buffer_string b) \<and>
     length (views b') = length (views b) \<and>
     (\<forall>j < length (views b).
        let v = views b ! j; v' = views b' ! j; len = int (length str)
        in begv v' = begv v \<and> zv v' = zv v + len \<and>
           pt v' = (if mp \<and> j = i then ind + len else if pt v > ind then pt v + len else pt v) \<and>
           marker_positions b' v' = ins_positions ind len before (mp \<and> j = i) (point_marker v) (marker_positions b v))"

lemma insert_into_gap_ok:
  assumes ok: "buffer_ok b" and "gpt b = ind" and "int (length str) \<le> gap_size b" and i: "i < length (views b)"
    and inside: "\<forall>v \<in> set (views b). begv v \<le> ind \<and> ind \<le> zv v"
    and mv: "mp \<longrightarrow> pt (views b ! i) = ind"
    and bm: "before \<longrightarrow> (\<forall>j < length (views b). pt (views b ! j) = ind \<longrightarrow> mp \<and> j = i)"
  shows "inserted b (insert_into_gap i ind str mp before b) i ind str mp before"
proof -
  let ?len = "int (length str)"
  define b' where "b' = insert_into_gap i ind str mp before b"
  note G = insert_into_gap_geom [OF assms(2) i refl b'_def]
  have g: "gap_ok b" using ok by (simp add: buffer_ok_def)
  have f: "gap_filled b b' ind ?len" using G(1-4) g assms(2,3) by (simp add: gap_filled_def)
  have ind: "1 \<le> ind" "ind \<le> bufz b" using g assms(2) by (auto simp: gap_ok_def)
  have str: "buffer_string b' = take (nat (ind - 1)) (buffer_string b) @ str @ drop (nat (ind - 1)) (buffer_string b)"
    using G(1-5) assms(2,3) by (intro inserted_string [OF ind])
      (auto simp: BUF_FETCH_CHAR_def BI_BUF_BYTE_ADDRESS_def algebra_simps)
  have view: "view_ok b' (views b' ! j) \<and> begv (views b' ! j) = begv (views b ! j) \<and> zv (views b' ! j) = zv (views b ! j) + ?len \<and>
      pt (views b' ! j) = (if mp \<and> j = i then ind + ?len else if pt (views b ! j) > ind then pt (views b ! j) + ?len else pt (views b ! j)) \<and>
      marker_positions b' (views b' ! j) = ins_positions ind ?len before (mp \<and> j = i) (point_marker (views b ! j)) (marker_positions b (views b ! j))"
    if j: "j < length (views b)" for j
  proof -
    from G(7) [OF j] obtain v where v: "core v = core (views b ! j)" "core (views b' ! j) = core (ins_view ind ?len before (mp \<and> j = i) v)"
      by blast
    note V = coreD [OF v(1) [symmetric]] and W = coreD [OF v(2) [symmetric]]
    have okv: "view_ok b v" using geom_view_ok [OF refl v(1), of b] ok j by (simp add: buffer_ok_def)
    have mvj: "(mp \<and> j = i) \<longrightarrow> pt v = ind" "before \<longrightarrow> pt v = ind \<longrightarrow> mp \<and> j = i" using mv bm j V(3) by auto
    have k: "point_marker v < length (markers v)" using okv by (simp add: view_ok_def)
    have mpos: "marker_positions c (views b' ! j) = marker_positions c (ins_view ind ?len before (mp \<and> j = i) v)"
      "marker_positions c v = marker_positions c (views b ! j)" for c
      using W(4) V(4) by (simp_all add: marker_positions_def)
    have ins: "begv v \<le> ind" "ind \<le> zv v" using inside j V(1,2) by simp_all
    note IV = ins_view_ok [OF f okv ins mvj] and F = ins_view_fields [OF mvj(1) _ k]
    show ?thesis
      using IV F(1-4) W V mpos geom_view_ok [OF refl v(2) [symmetric], of b'] by simp
  qed
  then have "\<forall>v \<in> set (views b'). view_ok b' v" using G(6) by (metis in_set_conv_nth)
  moreover have "gap_ok b'" using f ind by (auto simp: gap_filled_def gap_ok_def)
  ultimately show ?thesis unfolding b'_def [symmetric] inserted_def Let_def buffer_ok_def using str view G(6) by blast
qed

text \<open>The same text, regions, points and marker positions.\<close>

definition same_place :: "buffer_text \<Rightarrow> buffer_text \<Rightarrow> bool" where
  "same_place b b' \<longleftrightarrow> buffer_ok b' \<and> bufz b' = bufz b \<and> buffer_string b' = buffer_string b \<and> length (views b') = length (views b) \<and>
     (\<forall>j < length (views b).
        let v = views b ! j; v' = views b' ! j
        in begv v' = begv v \<and> zv v' = zv v \<and> pt v' = pt v \<and> point_marker v' = point_marker v \<and>
           marker_positions b' v' = marker_positions b v)"

lemma same_placeD:
  assumes "same_place b b'"
  shows "buffer_ok b'" "bufz b' = bufz b" "buffer_string b' = buffer_string b" "length (views b') = length (views b)"
    "j < length (views b) \<Longrightarrow> begv (views b' ! j) = begv (views b ! j)" "j < length (views b) \<Longrightarrow> zv (views b' ! j) = zv (views b ! j)"
    "j < length (views b) \<Longrightarrow> pt (views b' ! j) = pt (views b ! j)"
    "j < length (views b) \<Longrightarrow> point_marker (views b' ! j) = point_marker (views b ! j)"
    "j < length (views b) \<Longrightarrow> marker_positions b' (views b' ! j) = marker_positions b (views b ! j)"
  using assms by (simp_all add: same_place_def Let_def)

lemma same_place_trans: "same_place a b \<Longrightarrow> same_place b c \<Longrightarrow> same_place a c"
  by (simp add: same_place_def Let_def)

lemma same_place_geom:
  assumes "buffer_ok b" and "geom b' = geom b"
  shows "same_place b b'"
proof -
  note g = assms(2) [symmetric]
  note D = geomD [OF g]
  have "marker_positions b' (views b' ! j) = marker_positions b (views b ! j)" if "j < length (views b)" for j
    using coreD(4) [OF D(7) [OF that, symmetric]] geom_memind(2) [OF g] by (simp add: marker_positions_def)
  then show ?thesis
    using D(3,6) coreD [OF D(7) [symmetric]] assms(1) geom_ok [OF g] geom_string [OF g]
    unfolding same_place_def Let_def by simp
qed

lemma same_place_moved:
  assumes "buffer_ok b" and "gap_moved b b'"
  shows "same_place b b'"
proof -
  have v: "list_all2 (view_moved b b') (views b) (views b')" using assms(2) by (simp add: gap_moved_def)
  then have len: "length (views b') = length (views b)" by (simp add: list_all2_lengthD)
  have "begv (views b' ! j) = begv (views b ! j) \<and> zv (views b' ! j) = zv (views b ! j) \<and> pt (views b' ! j) = pt (views b ! j) \<and>
      point_marker (views b' ! j) = point_marker (views b ! j) \<and> marker_positions b' (views b' ! j) = marker_positions b (views b ! j)"
    if "j < length (views b)" for j
  proof -
    have m: "view_moved b b' (views b ! j) (views b' ! j)" using v that by (simp add: list_all2_conv_all_nth)
    then obtain ms where "views b' ! j = (views b ! j)\<lparr>markers := ms\<rparr>" unfolding view_moved_def by blast
    then show ?thesis using m by (simp add: view_moved_def)
  qed
  then show ?thesis using gap_moved_ok [OF assms(2,1)] gap_moved_string [OF assms(2)] gap_moved_bufz [OF assms(2)] len
    by (simp add: same_place_def)
qed

lemma inserted_from:
  assumes "same_place b c" and "inserted c b' i ind str mp before"
  shows "inserted b b' i ind str mp before"
  using assms by (simp add: same_place_def inserted_def Let_def)

text \<open>Where an insertion asked for at \<open>pos\<close> takes place.\<close>

definition insert_pos :: "nat \<Rightarrow> int \<Rightarrow> buffer_text \<Rightarrow> int" where
  "insert_pos i pos b = (let v = views b ! i; p = (if pos = - 1 then pt v else pos) in min (zv v) (max (begv v) p))"

text \<open>The gap brought to the place of insertion and made large enough.\<close>

lemma gap_for_insertion:
  assumes "buffer_ok b" and "1 \<le> p" "p \<le> bufz b"
    and run: "(if p \<noteq> gpt b then move_gap quit p b else (b, False)) = (b2, q)"
  shows "same_place b b2" and "\<not> q \<Longrightarrow> gpt b2 = p" and "(\<forall>k. \<not> quit k) \<Longrightarrow> \<not> q" and "undo_state b2 = undo_state b"
proof -
  have "gap_moved b b2 \<and> (\<not> q \<longrightarrow> gpt b2 = p) \<and> ((\<forall>k. \<not> quit k) \<longrightarrow> \<not> q)"
    using move_gap_moved [OF assms(1-3), of quit] gap_moved_refl [OF assms(1)] run by (cases "p = gpt b") auto
  then show "same_place b b2" and "\<not> q \<Longrightarrow> gpt b2 = p" and "(\<forall>k. \<not> quit k) \<Longrightarrow> \<not> q" and "undo_state b2 = undo_state b"
    using same_place_moved [OF assms(1)] undo_state_moved by blast+
qed

lemma gap_enlarged:
  assumes ok: "buffer_ok b" and "(if gap_size b \<ge> len then Inr b
      else if end_gap_size b \<ge> len then Inr (merge_gap_with_end_gap b) else make_gap (len - gap_size b) b) = Inr b'"
    and "0 \<le> len"
  shows "same_place b b'" "gpt b' = gpt b" "len \<le> gap_size b'" "undo_state b' = undo_state b"
proof -
  have g: "0 \<le> gap_size b" using ok by (simp add: buffer_ok_def gap_ok_def)
  from assms(2) consider "gap_size b \<ge> len" "b' = b" | "b' = merge_gap_with_end_gap b" "end_gap_size b \<ge> len"
    | "make_gap (len - gap_size b) b = Inr b'" "0 \<le> len - gap_size b"
    by (cases "gap_size b \<ge> len"; cases "end_gap_size b \<ge> len") auto
  then have "gap_moved b b' \<and> gpt b' = gpt b \<and> len \<le> gap_size b'"
  proof cases
    case 1
    then show ?thesis using gap_moved_refl [OF ok] by simp
  next
    case 2
    then show ?thesis using merge_gap_moved [OF ok] g by simp
  next
    case 3
    then show ?thesis using make_gap_moved [OF ok 3] by simp
  qed
  then show "same_place b b'" "gpt b' = gpt b" "len \<le> gap_size b'" "undo_state b' = undo_state b"
    using same_place_moved [OF ok] undo_state_moved by blast+
qed

text \<open>The bounds of a view that is in order, and the place of insertion.\<close>

lemma insert_pos_bounds:
  assumes "buffer_ok b" and "i < length (views b)"
  shows "1 \<le> insert_pos i pos b" "insert_pos i pos b \<le> bufz b"
    "pos = - 1 \<Longrightarrow> pt (views b ! i) = insert_pos i pos b"
proof -
  have "begv (views b ! i) \<le> pt (views b ! i)" "pt (views b ! i) \<le> zv (views b ! i)" "zv (views b ! i) \<le> bufz b" "1 \<le> begv (views b ! i)"
    using assms by (simp_all add: buffer_ok_def view_ok_def)
  then show "1 \<le> insert_pos i pos b" "insert_pos i pos b \<le> bufz b" "pos = - 1 \<Longrightarrow> pt (views b ! i) = insert_pos i pos b"
    by (auto simp: insert_pos_def Let_def)
qed

text \<open>The steps of an insertion that is not refused, up to filling the gap.\<close>

lemma insert_string_step:
  assumes ok: "buffer_ok b" and i: "i < length (views b)" and small: "\<not> int (length str) + bufz b > EMACS_INT_MAX"
    and prep: "prepare_to_modify_buffer i (if pos = - 1 then pt (views b ! i) else pos) (if pos = - 1 then pt (views b ! i) else pos) b = Inr b1"
    and p: "p = insert_pos i pos b" and b2: "(if p \<noteq> gpt b1 then move_gap quit p b1 else (b1, False)) = (b2, q)"
  shows "same_place b b2" and "\<not> q \<Longrightarrow> gpt b2 = p" and "(\<forall>k. \<not> quit k) \<Longrightarrow> \<not> q" and "undo_state b2 = undo_state b"
    and "buffer_insert_string_1 quit i pos str before b =
      (if q then (b2, Quit)
       else case (if gap_size b2 \<ge> int (length str) then Inr b2
             else if end_gap_size b2 \<ge> int (length str) then Inr (merge_gap_with_end_gap b2)
             else make_gap (int (length str) - gap_size b2) b2) of
           Inl e \<Rightarrow> (b2, Signal e)
         | Inr b3 \<Rightarrow> (insert_into_gap i p str (pos = - 1) before b3, Return (int (length str))))"
proof -
  let ?pos1 = "if pos = - 1 then pt (views b ! i) else pos"
  note s1 = same_place_geom [OF ok geom_obs.prepare [OF prep]]
  have vi: "begv (views b ! i) \<le> zv (views b ! i)" using ok i by (meson buffer_ok_def view_ok_def nth_mem order_trans)
  have clamp: "(let v = views b1 ! i; pos2 = (if ?pos1 < begv v then begv v else ?pos1) in if pos2 > zv v then zv v else pos2) = p"
    using same_placeD(5,6) [OF s1 i] vi unfolding p by (auto simp: insert_pos_def Let_def)
  have pb: "1 \<le> p" "p \<le> bufz b1" using insert_pos_bounds(1,2) [OF ok i, of pos] same_placeD(2) [OF s1] unfolding p by simp_all
  note M = gap_for_insertion [OF same_placeD(1) [OF s1] pb b2]
  show "same_place b b2" using same_place_trans [OF s1 M(1)] .
  show "\<not> q \<Longrightarrow> gpt b2 = p" and "(\<forall>k. \<not> quit k) \<Longrightarrow> \<not> q" using M(2,3) by blast+
  show "undo_state b2 = undo_state b" using M(4) undo_obs.prepare [OF prep] by simp
  show "buffer_insert_string_1 quit i pos str before b =
      (if q then (b2, Quit)
       else case (if gap_size b2 \<ge> int (length str) then Inr b2
             else if end_gap_size b2 \<ge> int (length str) then Inr (merge_gap_with_end_gap b2)
             else make_gap (int (length str) - gap_size b2) b2) of
           Inl e \<Rightarrow> (b2, Signal e)
         | Inr b3 \<Rightarrow> (insert_into_gap i p str (pos = - 1) before b3, Return (int (length str))))"
    unfolding buffer_insert_string_1_def Let_def
    by (simp only: prep sum.case clamp [unfolded Let_def] b2 prod.case if_not_P [OF small])
qed

text \<open>
  How an insertion ends: the gap is filled in a buffer that differs from the given one only in its
  gap and its hook log, or nothing is inserted.
\<close>

lemma insert_string_result:
  assumes ok: "buffer_ok b" and i: "i < length (views b)"
    and run: "buffer_insert_string_1 quit i pos str before b = (b', r)"
  obtains (filled) c where "r = Return (int (length str))" "same_place b c" "undo_state c = undo_state b"
      "gpt c = insert_pos i pos b" "int (length str) \<le> gap_size c" "b' = insert_into_gap i (insert_pos i pos b) str (pos = - 1) before c"
    | (unchanged) "\<And>n. r \<noteq> Return n" "same_place b b'" "undo_state b' = undo_state b"
proof -
  let ?p = "insert_pos i pos b" and ?len = "int (length str)" and ?pos1 = "if pos = - 1 then pt (views b ! i) else pos"
  have self: "same_place b b" using same_place_geom [OF ok refl] .
  consider (refused) "?len + bufz b > EMACS_INT_MAX \<or> (\<exists>e. prepare_to_modify_buffer i ?pos1 ?pos1 b = Inl e)"
    | (go) b1 where "\<not> ?len + bufz b > EMACS_INT_MAX" "prepare_to_modify_buffer i ?pos1 ?pos1 b = Inr b1"
    by (cases "prepare_to_modify_buffer i ?pos1 ?pos1 b") auto
  then show ?thesis
  proof cases
    case refused
    then have "b' = b" "\<And>n. r \<noteq> Return n" using run by (auto simp: buffer_insert_string_1_def Let_def split: if_splits)
    then show ?thesis using unchanged self by simp
  next
    case go
    obtain b2 q where b2: "(if ?p \<noteq> gpt b1 then move_gap quit ?p b1 else (b1, False)) = (b2, q)" by (metis surj_pair)
    note S = insert_string_step [OF ok i go refl b2]
    define room where "room = (if gap_size b2 \<ge> ?len then Inr b2
      else if end_gap_size b2 \<ge> ?len then Inr (merge_gap_with_end_gap b2) else make_gap (?len - gap_size b2) b2)"
    note step = S(5) [of before, folded room_def]
    show ?thesis
    proof (cases "q \<or> (\<exists>e. room = Inl e)")
      case True
      then have "\<And>n. r \<noteq> Return n" "b' = b2" using run step by (auto split: if_splits)
      then show ?thesis using unchanged S(1,4) by simp
    next
      case False
      then obtain c where c: "\<not> q" "room = Inr c" by (cases room) auto
      note R = gap_enlarged [OF same_placeD(1) [OF S(1)] c(2) [unfolded room_def]]
      show ?thesis
        by (rule filled [of c]) (use run step c R S(2,4) same_place_trans [OF S(1) R(1)] in simp_all)
    qed
  qed
qed

lemma insert_string_filled:
  assumes ok: "buffer_ok b" and i: "i < length (views b)"
    and inside: "\<forall>v \<in> set (views b). begv v \<le> insert_pos i pos b \<and> insert_pos i pos b \<le> zv v"
    and bm: "before \<longrightarrow> (\<forall>j < length (views b). pt (views b ! j) = insert_pos i pos b \<longrightarrow> pos = - 1 \<and> j = i)"
    and c: "same_place b c" "gpt c = insert_pos i pos b" "int (length str) \<le> gap_size c"
  shows "inserted b (insert_into_gap i (insert_pos i pos b) str (pos = - 1) before c) i (insert_pos i pos b) str (pos = - 1) before"
proof (rule inserted_from [OF c(1) insert_into_gap_ok])
  let ?p = "insert_pos i pos b"
  note D = same_placeD [OF c(1)]
  show "buffer_ok c" "gpt c = ?p" "int (length str) \<le> gap_size c" using D(1) c by simp_all
  show "i < length (views c)" using i D(4) by simp
  show "\<forall>v \<in> set (views c). begv v \<le> ?p \<and> ?p \<le> zv v" using inside D(4-6) by (metis in_set_conv_nth)
  show "pos = - 1 \<longrightarrow> pt (views c ! i) = ?p" using D(7) [OF i] insert_pos_bounds(3) [OF ok i] by auto
  show "before \<longrightarrow> (\<forall>j < length (views c). pt (views c ! j) = ?p \<longrightarrow> pos = - 1 \<and> j = i)" using bm D(4,7) by metis
qed



lemma insert_string_returns:
  assumes ok: "buffer_ok b" and i: "i < length (views b)" and quit: "\<forall>k. \<not> quit k"
    and writable: "inhibit_read_only b \<or> (\<forall>v \<in> set (views b). \<not> buf_read_only v)"
    and size: "bufz b + bufz b div 8 + int (length str) + 2000 \<le> EMACS_INT_MAX"
  shows "snd (buffer_insert_string_1 quit i pos str before b) = Return (int (length str))"
proof -
  let ?pos1 = "if pos = - 1 then pt (views b ! i) else pos"
  have z: "1 \<le> bufz b" using ok by (auto simp: buffer_ok_def gap_ok_def)
  obtain b1 where prep: "prepare_to_modify_buffer i ?pos1 ?pos1 b = Inr b1"
    using writable by (auto simp: prepare_to_modify_buffer_def barf_if_buffer_read_only_def list_ex_iff)
  obtain b2 q where b2: "(if insert_pos i pos b \<noteq> gpt b1 then move_gap quit (insert_pos i pos b) b1 else (b1, False)) = (b2, q)"
    by (metis surj_pair)
  have small: "\<not> int (length str) + bufz b > EMACS_INT_MAX" using size z by simp
  note S = insert_string_step [OF ok i small prep refl b2]
  have "make_gap (int (length str) - gap_size b2) b2 \<noteq> Inl e" for e
    using size z same_placeD(2) [OF S(1)] by (auto simp: make_gap_def Let_def)
  then show ?thesis using S(3) S(5) [of before] quit by (auto split: sum.split)
qed



end
