(* ===== verification/BufferDelete.thy ===== *)
theory BufferDelete
  imports BufferProps
begin

text \<open>
  Deletion and replacement refine operations on strings, in the way of the insertions: the text
  between two positions goes away, positions behind it move down and positions inside it end up at
  its start, whether the gap or the space at the end takes up the deleted bytes.
\<close>

section \<open>Positions and views\<close>

definition del_pos :: "int \<Rightarrow> int \<Rightarrow> int \<Rightarrow> int" where
  "del_pos from to p = (if p \<le> from then p else if p < to then from else p - (to - from))"

definition deleted :: "buffer_text \<Rightarrow> buffer_text \<Rightarrow> int \<Rightarrow> int \<Rightarrow> bool" where
  "deleted b b' from to \<longleftrightarrow>
     buffer_ok b' \<and>
     buffer_string b' = take (nat (from - 1)) (buffer_string b) @ drop (nat (to - 1)) (buffer_string b) \<and>
     length (views b') = length (views b) \<and>
     (\<forall>j < length (views b).
        let v = views b ! j; v' = views b' ! j
        in begv v' = begv v \<and> zv v' = zv v - (to - from) \<and> pt v' = del_pos from to (pt v) \<and>
           marker_positions b' v' = map (\<lambda>(p, t). (del_pos from to p, t)) (marker_positions b v))"

text \<open>The steps on one view, together.\<close>

definition del_view :: "int \<Rightarrow> int \<Rightarrow> int \<Rightarrow> int \<Rightarrow> buffer_view \<Rightarrow> buffer_view" where
  "del_view d amount from to v =
     (let v2 = relocate_point from to (adjust_markers d d amount v) in v2\<lparr>zv := zv v2 - (to - from)\<rparr>)"

lemma del_view_fields:
  "begv (del_view d a from to v) = begv v" "zv (del_view d a from to v) = zv v - (to - from)"
  "pt (del_view d a from to v) = del_pos from to (pt v)" "point_marker (del_view d a from to v) = point_marker v"
  "markers (del_view d a from to v) = map (\<lambda>m. m\<lparr>memind := do_marker_adjustment (memind m) d d a\<rparr>) (markers v)"
  by (auto simp: del_view_def relocate_point_def adjust_markers_def del_pos_def Let_def)

text \<open>
  The two ways of deleting, as far as text and markers go; \<open>shift\<close> says that the adjustment of memory
  indices has the effect of \<open>del_pos\<close> on positions.
\<close>

definition shift :: "buffer_text \<Rightarrow> buffer_text \<Rightarrow> int \<Rightarrow> int \<Rightarrow> int \<Rightarrow> int \<Rightarrow> bool" where
  "shift b b' d a from to \<longleftrightarrow>
     (\<forall>x. memind_ok b x \<longrightarrow> memind_ok b' (do_marker_adjustment x d d a) \<and>
        memind_to_bytind b' (do_marker_adjustment x d d a) = del_pos from to (memind_to_bytind b x))"

lemma del_view_ok:
  assumes s: "shift b b' d a from to" and z: "bufz b' = bufz b - (to - from)" and ok: "view_ok b v"
    and inside: "begv v \<le> from" "from \<le> to" "to \<le> zv v"
  shows "marker_positions b' (del_view d a from to v) = map (\<lambda>(p, t). (del_pos from to p, t)) (marker_positions b v)"
    and "view_ok b' (del_view d a from to v)"
proof -
  have m: "memind_ok b (memind m)" if "m \<in> set (markers v)" for m using ok that by (simp add: view_ok_def)
  then show "marker_positions b' (del_view d a from to v) = map (\<lambda>(p, t). (del_pos from to p, t)) (marker_positions b v)"
    using s by (simp add: marker_positions_def del_view_fields shift_def)
  have "\<forall>m \<in> set (markers (del_view d a from to v)). memind_ok b' (memind m)"
    using m s by (auto simp: del_view_fields shift_def)
  then show "view_ok b' (del_view d a from to v)"
    using ok inside z m s by (auto simp: view_ok_def del_view_fields shift_def del_pos_def)
qed

text \<open>What the records made first leave: the views as they were, up to the undo list.\<close>

lemma record_delete_views:
  assumes b1: "b1 = record_all (\<lambda>j. record_delete b j from n) b" and v: "views b' = map (del_view d a from to) (views b1)"
  shows "length (views b') = length (views b)"
    and "j < length (views b) \<Longrightarrow> \<exists>v. core v = core (views b ! j) \<and> views b' ! j = del_view d a from to v"
proof -
  have "geom b = geom b1" unfolding b1 using core_record(2) by (intro geom_record_all [symmetric]) simp
  note D = geomD [OF this]
  show "length (views b') = length (views b)" using v D(6) by simp
  show "\<exists>v. core v = core (views b ! j) \<and> views b' ! j = del_view d a from to v" if "j < length (views b)"
    using D(7) [OF that] D(6) that unfolding v by auto
qed

lemma deletedI:
  assumes ok: "buffer_ok b" and b1: "b1 = record_all (\<lambda>j. record_delete b j from n) b"
    and v: "views b' = map (del_view d a from to) (views b1)"
    and s: "shift b b' d a from to" and z: "bufz b' = bufz b - (to - from)" and g: "gap_ok b'"
    and inside: "\<forall>v \<in> set (views b). begv v \<le> from \<and> to \<le> zv v" and ft: "1 \<le> from" "from \<le> to" "to \<le> bufz b"
    and low: "\<And>x. 1 \<le> x \<Longrightarrow> x < from \<Longrightarrow> BUF_FETCH_CHAR b' x = BUF_FETCH_CHAR b x"
    and high: "\<And>x. to \<le> x \<Longrightarrow> x < bufz b \<Longrightarrow> BUF_FETCH_CHAR b' (x - (to - from)) = BUF_FETCH_CHAR b x"
  shows "deleted b b' from to"
proof -
  note R = record_delete_views [OF b1 v]
  have view: "view_ok b' (views b' ! j) \<and> begv (views b' ! j) = begv (views b ! j) \<and> zv (views b' ! j) = zv (views b ! j) - (to - from) \<and>
      pt (views b' ! j) = del_pos from to (pt (views b ! j)) \<and>
      marker_positions b' (views b' ! j) = map (\<lambda>(p, t). (del_pos from to p, t)) (marker_positions b (views b ! j))"
    if j: "j < length (views b)" for j
  proof -
    from R(2) [OF j] obtain w where w: "core w = core (views b ! j)" "views b' ! j = del_view d a from to w" by blast
    note C = coreD [OF w(1) [symmetric]]
    have "view_ok b w" using geom_view_ok [OF refl w(1), of b] ok j by (simp add: buffer_ok_def)
    moreover have "begv w \<le> from" "to \<le> zv w" using inside j C(1,2) by simp_all
    ultimately show ?thesis using del_view_ok [OF s z _ _ ft(2), of w] C unfolding w(2)
      by (simp add: del_view_fields marker_positions_def)
  qed
  then have "\<forall>v \<in> set (views b'). view_ok b' v" using R(1) by (metis in_set_conv_nth)
  then show ?thesis unfolding deleted_def Let_def buffer_ok_def
    using view R(1) g deleted_string [OF ft z low high] by blast
qed

section \<open>Around the gap, and at the end\<close>

lemma delete_at_gap_ok:
  assumes ok: "buffer_ok b" and gap: "from \<le> gpt b" "gpt b \<le> to" and ft: "1 \<le> from" "from < to" "to \<le> bufz b"
    and inside: "\<forall>v \<in> set (views b). begv v \<le> from \<and> to \<le> zv v"
  shows "deleted b (delete_at_gap from to b) from to"
proof -
  define b1 where "b1 = record_all (\<lambda>j. record_delete b j from (to - from)) b"
  have "geom b = geom b1" unfolding b1_def using core_record(2) by (intro geom_record_all [symmetric]) simp
  note D = geomD(1-5) [OF this]
  define b' where "b' = delete_at_gap from to b"
  have b': "b' = b1\<lparr>modiff := modiff b1 + 1, gap_size := gap_size b + (to - from),
      views := map (del_view (to + gap_size b) (- (to - from) - gap_size b) from to) (views b1),
      bufz := bufz b - (to - from), gpt := from\<rparr>"
    unfolding b'_def delete_at_gap_def Let_def b1_def [symmetric] using D(3,4) by (simp add: del_view_def [abs_def] comp_def Let_def)
  have eqs: "mem b' = mem b" "gpt b' = from" "bufz b' = bufz b - (to - from)" "gap_size b' = gap_size b + (to - from)"
    "end_gap_size b' = end_gap_size b" unfolding b' using D by simp_all
  have g: "0 \<le> gap_size b" "0 \<le> end_gap_size b" using ok by (simp_all add: buffer_ok_def gap_ok_def)
  have "deleted b b' from to"
  proof (rule deletedI [OF ok b1_def])
    show "views b' = map (del_view (to + gap_size b) (- (to - from) - gap_size b) from to) (views b1)" unfolding b' by simp
    show "shift b b' (to + gap_size b) (- (to - from) - gap_size b) from to"
      using gap ft g by (auto simp: shift_def memind_ok_def memind_to_bytind_def do_marker_adjustment_def del_pos_def Let_def eqs)
    show "gap_ok b'" using gap ft g by (simp add: gap_ok_def eqs)
  qed (use gap ft g inside in \<open>auto simp: BUF_FETCH_CHAR_def BI_BUF_BYTE_ADDRESS_def eqs\<close>)
  then show ?thesis unfolding b'_def .
qed

lemma delete_at_end_ok:
  assumes ok: "buffer_ok b" and gap: "gpt b < from" and ft: "1 \<le> from" "from < to" "to = bufz b"
    and inside: "\<forall>v \<in> set (views b). begv v \<le> from \<and> to \<le> zv v"
  shows "deleted b (delete_at_end from to b) from to"
proof -
  define b1 where "b1 = record_all (\<lambda>j. record_delete b j from (to - from)) b"
  have "geom b = geom b1" unfolding b1_def using core_record(2) by (intro geom_record_all [symmetric]) simp
  note D = geomD(1-5) [OF this]
  define b' where "b' = delete_at_end from to b"
  have b': "b' = b1\<lparr>modiff := modiff b1 + 1, end_gap_size := end_gap_size b + (to - from),
      views := map (del_view (to + gap_size b) (- (to - from)) from to) (views b1),
      bufz := bufz b - (to - from)\<rparr>"
    unfolding b'_def delete_at_end_def Let_def b1_def [symmetric] using D(3-5) by (simp add: del_view_def [abs_def] comp_def Let_def)
  have eqs: "mem b' = mem b" "gpt b' = gpt b" "bufz b' = bufz b - (to - from)" "gap_size b' = gap_size b"
    "end_gap_size b' = end_gap_size b + (to - from)" unfolding b' using D by simp_all
  have g: "0 \<le> gap_size b" "0 \<le> end_gap_size b" "1 \<le> gpt b" using ok by (simp_all add: buffer_ok_def gap_ok_def)
  have "deleted b b' from to"
  proof (rule deletedI [OF ok b1_def])
    show "views b' = map (del_view (to + gap_size b) (- (to - from)) from to) (views b1)" unfolding b' by simp
    show "shift b b' (to + gap_size b) (- (to - from)) from to"
      using gap ft g by (auto simp: shift_def memind_ok_def memind_to_bytind_def do_marker_adjustment_def del_pos_def Let_def eqs)
    show "gap_ok b'" using gap ft g by (simp add: gap_ok_def eqs)
  qed (use gap ft g inside in \<open>auto simp: BUF_FETCH_CHAR_def BI_BUF_BYTE_ADDRESS_def eqs\<close>)
  then show ?thesis unfolding b'_def .
qed

section \<open>Deleting a range\<close>

lemma deleted_from: "same_place b c \<Longrightarrow> deleted c b' from to \<Longrightarrow> deleted b b' from to"
  by (simp add: same_place_def deleted_def Let_def)

lemma deleted_to: "deleted b c from to \<Longrightarrow> same_place c b' \<Longrightarrow> deleted b b' from to"
  by (simp add: same_place_def deleted_def Let_def)

text \<open>The gap brought into the region.\<close>

lemma gap_for_deletion:
  assumes ok: "buffer_ok b" and ft: "1 \<le> from" "from < to" "to \<le> bufz b"
    and left: "(if to < gpt b then gap_left quit to b else (b, False)) = (b1, q)"
    and right: "(if from > gpt b1 then gap_right quit from b1 else (b1, False)) = (b2, q')"
  shows "same_place b b1" "(\<forall>k. \<not> quit k) \<Longrightarrow> \<not> q"
    "\<not> q \<Longrightarrow> same_place b b2" "\<not> q \<Longrightarrow> (\<forall>k. \<not> quit k) \<Longrightarrow> \<not> q'" "\<not> q \<Longrightarrow> \<not> q' \<Longrightarrow> from \<le> gpt b2 \<and> gpt b2 \<le> to"
    "undo_state b1 = undo_state b" "\<not> q \<Longrightarrow> undo_state b2 = undo_state b"
proof -
  have L: "gap_moved b b1 \<and> (\<not> q \<longrightarrow> gpt b1 \<le> to) \<and> ((\<forall>k. \<not> quit k) \<longrightarrow> \<not> q)"
    using left gap_left_moved [OF ok, of to quit] gap_moved_refl [OF ok] ft by (cases "to < gpt b") auto
  then have s1: "same_place b b1" and q: "(\<forall>k. \<not> quit k) \<Longrightarrow> \<not> q" using same_place_moved [OF ok] by blast+
  show "same_place b b1" by (rule s1)
  show "\<not> q" if "\<forall>k. \<not> quit k" using q that .
  show u1: "undo_state b1 = undo_state b" using L undo_state_moved by blast
  note D = same_placeD [OF s1]
  assume nq: "\<not> q"
  have R: "gap_moved b1 b2 \<and> (\<not> q' \<longrightarrow> from \<le> gpt b2 \<and> gpt b2 \<le> to) \<and> ((\<forall>k. \<not> quit k) \<longrightarrow> \<not> q')"
    using right gap_right_moved [OF D(1), of "from" quit] gap_moved_refl [OF D(1)] L nq ft D(2) by (cases "from > gpt b1") auto
  then show "same_place b b2" using same_place_trans [OF s1 same_place_moved [OF D(1)]] by blast
  show "undo_state b2 = undo_state b" using R undo_state_moved u1 by metis
  show "\<not> q'" if "\<forall>k. \<not> quit k" using R that by blast
  show "from \<le> gpt b2 \<and> gpt b2 \<le> to" if "\<not> q'" using R that by blast
qed

lemma undo_state_delete:
  "undo_state (delete_at_gap from to c) = undo_state (record_all (\<lambda>j. record_delete c j from (to - from)) c)"
  "undo_state (delete_at_end from to c) = undo_state (record_all (\<lambda>j. record_delete c j from (to - from)) c)"
proof -
  have "undo_list (relocate_point from to (adjust_markers x y z v)) = undo_list v"
    "buf_read_only (relocate_point from to (adjust_markers x y z v)) = buf_read_only v" for x y z v
    by (simp_all add: relocate_point_def adjust_markers_def)
  then show "undo_state (delete_at_gap from to c) = undo_state (record_all (\<lambda>j. record_delete c j from (to - from)) c)"
    "undo_state (delete_at_end from to c) = undo_state (record_all (\<lambda>j. record_delete c j from (to - from)) c)"
    by (simp_all add: delete_at_gap_def delete_at_end_def Let_def undo_state_def)
qed

text \<open>
  What a finished deletion is: the range is gone, and the undo lists are what the records made of
  them in a buffer that differs from the given one only in its gap and its hook log.
\<close>

definition removed :: "buffer_text \<Rightarrow> buffer_text \<Rightarrow> int \<Rightarrow> int \<Rightarrow> bool" where
  "removed b b' from to \<longleftrightarrow> deleted b b' from to \<and>
     (\<exists>c. same_place b c \<and> undo_state c = undo_state b \<and> undo_state b' = undo_state (record_all (\<lambda>j. record_delete c j from (to - from)) c))"

definition untouched :: "buffer_text \<Rightarrow> buffer_text \<Rightarrow> bool" where
  "untouched b b' \<longleftrightarrow> same_place b b' \<and> undo_state b' = undo_state b"

lemma removedI:
  assumes "same_place b c" and "undo_state c = undo_state b" and "d = delete_at_gap from to c \<or> d = delete_at_end from to c"
    and "deleted c d from to"
  shows "removed b (signal_after_change i from to from d) from to"
proof -
  have "buffer_ok d" using assms(4) by (simp add: deleted_def)
  from same_place_geom [OF this, of "signal_after_change i from to from d"]
  have "deleted b (signal_after_change i from to from d) from to" using deleted_to [OF deleted_from [OF assms(1,4)]] by simp
  then show ?thesis unfolding removed_def using assms(1-3) undo_state_delete by auto
qed

lemma delete_region_ok:
  assumes ok: "buffer_ok b" and ft: "1 \<le> from" "from < to" "to \<le> bufz b"
    and inside: "\<forall>v \<in> set (views b). begv v \<le> from \<and> to \<le> zv v"
    and run: "delete_region quit i from to b = (b', r)"
  shows "(case r of Return _ \<Rightarrow> removed b b' from to | _ \<Rightarrow> untouched b b') \<and> ((\<forall>k. \<not> quit k) \<longrightarrow> r = Return ())"
proof -
  define c where "c = (if \<not> newline_was_deleted (views b ! i) \<and> region_has_newline b from to
      then MAP_INDIRECT_BUFFERS (\<lambda>v. v\<lparr>newline_was_deleted := True\<rparr>) b else b)"
  have "geom c = geom b" unfolding c_def by (simp add: geom_def core_def)
  then have sc: "same_place b c" by (rule same_place_geom [OF ok])
  have uc: "undo_state c = undo_state b" unfolding c_def by (simp add: undo_state_def)
  note C = same_placeD [OF sc]
  have insc: "\<forall>v \<in> set (views c). begv v \<le> from \<and> to \<le> zv v" using inside C(4-6) by (metis in_set_conv_nth)
  note run' = run [unfolded delete_region_def, folded c_def, unfolded Let_def, folded c_def]
  show ?thesis
  proof (cases "to = bufz c \<and> from > gpt c")
    case True
    then have "deleted c (delete_at_end from to c) from to" using delete_at_end_ok [OF C(1) _ ft(1,2) _ insc] by blast
    from removedI [OF sc uc _ this] show ?thesis using run' True by auto
  next
    case False
    obtain b1 q where b1: "(if to < gpt c then gap_left quit to c else (c, False)) = (b1, q)" by (metis surj_pair)
    obtain b2 q' where b2: "(if from > gpt b1 then gap_right quit from b1 else (b1, False)) = (b2, q')" by (metis surj_pair)
    have tz: "to \<le> bufz c" using ft(3) C(2) by simp
    note G = gap_for_deletion [OF C(1) ft(1,2) tz b1 b2]
    have res: "(b', r) = (if q then (b1, Quit) else if q' then (b2, Quit)
        else (signal_after_change i from to from (delete_at_gap from to b2), Return ()))"
      using run' False by (simp only: if_False b1 b2 prod.case if_P if_not_P split: if_splits)
    show ?thesis
    proof (cases "q \<or> q'")
      case True
      then have "r = Quit" "untouched b b'"
        using res same_place_trans [OF sc G(1)] same_place_trans [OF sc G(3)] G(6,7) uc by (auto simp: untouched_def split: if_splits)
      then show ?thesis using True G(2,4) by auto
    next
      case nq: False
      then have s2: "same_place b b2" "undo_state b2 = undo_state b" using same_place_trans [OF sc G(3)] G(7) uc by simp_all
      note D = same_placeD [OF s2(1)]
      have "from \<le> gpt b2" "gpt b2 \<le> to" using G(5) nq by blast+
      moreover have "\<forall>v \<in> set (views b2). begv v \<le> from \<and> to \<le> zv v" using inside D(4-6) by (metis in_set_conv_nth)
      ultimately have "deleted b2 (delete_at_gap from to b2) from to"
        using delete_at_gap_ok [OF D(1) _ _ ft(1,2)] ft(3) D(2) by simp
      from removedI [OF s2 _ this] show ?thesis using res nq by auto
    qed
  qed
qed

lemma removed_from:
  assumes "untouched b c" and "removed c b' from to"
  shows "removed b b' from to"
proof -
  from assms(2) obtain d where d: "deleted c b' from to" "same_place c d" "undo_state d = undo_state c"
      "undo_state b' = undo_state (record_all (\<lambda>j. record_delete d j from (to - from)) d)" unfolding removed_def by blast
  have s: "same_place b c" "undo_state c = undo_state b" using assms(1) by (simp_all add: untouched_def)
  show ?thesis unfolding removed_def using d s deleted_from same_place_trans by metis
qed

lemma untouched_trans: "untouched a b \<Longrightarrow> untouched b c \<Longrightarrow> untouched a c"
  unfolding untouched_def using same_place_trans by metis

lemma delete_range_ok:
  assumes ok: "buffer_ok b" and i: "i < length (views b)"
    and ft: "from' = max from (begv (views b ! i))" "to' = min to (zv (views b ! i))"
    and inside: "\<forall>v \<in> set (views b). begv v \<le> from' \<and> to' \<le> zv v"
    and run: "buffer_delete_range quit i from to b = (b', r)"
  shows "(case r of Return _ \<Rightarrow> (if from' < to' then removed b b' from' to' else b' = b) | _ \<Rightarrow> untouched b b') \<and>
    ((\<forall>k. \<not> quit k) \<and> (inhibit_read_only b \<or> (\<forall>v \<in> set (views b). \<not> buf_read_only v)) \<longrightarrow> r = Return ())"
proof -
  have f: "(if from < begv (views b ! i) then begv (views b ! i) else from) = from'"
    and t: "(if to > zv (views b ! i) then zv (views b ! i) else to) = to'" unfolding ft by auto
  note run' = run [unfolded buffer_delete_range_def Let_def f t]
  have vi: "1 \<le> begv (views b ! i)" "zv (views b ! i) \<le> bufz b" using ok i by (simp_all add: buffer_ok_def view_ok_def)
  consider "\<not> from' < to'" | e where "from' < to'" "prepare_to_modify_buffer i from' to' b = Inl e"
    | c where "from' < to'" "prepare_to_modify_buffer i from' to' b = Inr c"
    by (cases "prepare_to_modify_buffer i from' to' b") auto
  then show ?thesis
  proof cases
    case 1
    then show ?thesis using run' by auto
  next
    case 2
    then have "\<exists>v \<in> set (views b). \<not> inhibit_read_only b \<and> buf_read_only v"
      by (auto simp: prepare_to_modify_buffer_def barf_if_buffer_read_only_def list_ex_iff split: if_splits)
    then show ?thesis using run' 2 same_place_geom [OF ok refl] by (auto simp: untouched_def)
  next
    case 3
    have u: "untouched b c" using same_place_geom [OF ok geom_obs.prepare [OF 3(2)]] undo_obs.prepare [OF 3(2)] by (simp add: untouched_def)
    then have s: "same_place b c" by (simp add: untouched_def)
    note D = same_placeD [OF s]
    have f': "(if from' < begv (views c ! i) then begv (views c ! i) else from') = from'"
      and t': "(if to' > zv (views c ! i) then zv (views c ! i) else to') = to'"
      using D(5,6) [OF i] unfolding ft by auto
    have "delete_region quit i from' to' c = (b', r)"
      using run' 3 unfolding 3(2) sum.case f' t' by simp
    moreover have "\<forall>v \<in> set (views c). begv v \<le> from' \<and> to' \<le> zv v" using inside D(4-6) by (metis in_set_conv_nth)
    moreover have "1 \<le> from'" "to' \<le> bufz c" using vi D(2) unfolding ft by auto
    ultimately have "(case r of Return _ \<Rightarrow> removed c b' from' to' | _ \<Rightarrow> untouched c b') \<and> ((\<forall>k. \<not> quit k) \<longrightarrow> r = Return ())"
      using delete_region_ok [OF D(1) _ 3(1)] by blast
    then show ?thesis using 3(1) removed_from [OF u] untouched_trans [OF u] by (cases r) auto
  qed
qed



section \<open>Reading a part of the text\<close>

lemma mem_string_fetch:
  assumes "\<And>x. pos \<le> x \<Longrightarrow> x < pos + n \<Longrightarrow> BI_BUF_BYTE_ADDRESS b x = a + (x - pos)"
  shows "mem_string b a n = map (BUF_FETCH_CHAR b) [pos..pos + n - 1]"
  using assms by (auto simp: mem_string_def BUF_FETCH_CHAR_def intro!: nth_equalityI)

lemma make_string_spec:
  assumes gap: "gap_ok b" and "1 \<le> pos" and "0 \<le> len" and "pos + len \<le> bufz b"
  shows "make_string_from_buffer b pos len = take (nat len) (drop (nat (pos - 1)) (buffer_string b))"
proof -
  have drop: "drop (nat (pos - 1)) (buffer_string b) = map (BUF_FETCH_CHAR b) [pos..bufz b - 1]"
    unfolding buffer_string_def using assms by (intro drop_map_upto) auto
  have "map (BUF_FETCH_CHAR b) [pos..bufz b - 1] = map (BUF_FETCH_CHAR b) [pos..pos + len - 1] @ map (BUF_FETCH_CHAR b) [pos + len..bufz b - 1]"
    using assms by (intro map_upto_split) auto
  then have goal: "take (nat len) (drop (nat (pos - 1)) (buffer_string b)) = map (BUF_FETCH_CHAR b) [pos..pos + len - 1]"
    unfolding drop using assms(3) by simp
  consider "gpt b < pos" | "pos + len \<le> gpt b" | "pos \<le> gpt b" "gpt b < pos + len" by linarith
  then show ?thesis
  proof cases
    case 1
    then have "mem_string b (BI_BUF_BYTE_ADDRESS b pos) len = map (BUF_FETCH_CHAR b) [pos..pos + len - 1]"
      by (intro mem_string_fetch) (auto simp: BI_BUF_BYTE_ADDRESS_def)
    then show ?thesis unfolding goal make_string_from_buffer_def Let_def using 1 by simp
  next
    case 2
    show ?thesis
    proof (cases "len = 0")
      case False
      then have "mem_string b (BI_BUF_BYTE_ADDRESS b pos) len = map (BUF_FETCH_CHAR b) [pos..pos + len - 1]"
        using 2 assms(3) by (intro mem_string_fetch) (auto simp: BI_BUF_BYTE_ADDRESS_def)
      then show ?thesis unfolding goal make_string_from_buffer_def Let_def using 2 by simp
    next
      case True
      then show ?thesis unfolding goal make_string_from_buffer_def Let_def using 2 by (simp add: mem_string_def)
    qed
  next
    case 3
    have "mem_string b (BI_BUF_BYTE_ADDRESS b pos) (gpt b - pos) = map (BUF_FETCH_CHAR b) [pos..pos + (gpt b - pos) - 1]"
      "mem_string b (BI_BUF_BYTE_ADDRESS b (gpt b)) (len - (gpt b - pos)) =
        map (BUF_FETCH_CHAR b) [gpt b..gpt b + (len - (gpt b - pos)) - 1]"
    proof -
      show "mem_string b (BI_BUF_BYTE_ADDRESS b pos) (gpt b - pos) = map (BUF_FETCH_CHAR b) [pos..pos + (gpt b - pos) - 1]"
        using 3 by (cases "pos = gpt b", simp add: mem_string_def, intro mem_string_fetch) (auto simp: BI_BUF_BYTE_ADDRESS_def)
    qed (intro mem_string_fetch, auto simp: BI_BUF_BYTE_ADDRESS_def)
    moreover have "map (BUF_FETCH_CHAR b) [pos..pos + len - 1] = map (BUF_FETCH_CHAR b) [pos..gpt b - 1] @ map (BUF_FETCH_CHAR b) [gpt b..pos + len - 1]"
      using 3 by (intro map_upto_split) auto
    ultimately show ?thesis unfolding goal make_string_from_buffer_def Let_def using 3 by (simp add: algebra_simps)
  qed
qed

text \<open>
  \<open>make_string_from_buffer\<close> reads the given part of the text whether it lies before the
  gap, after it or on both sides of it.
\<close>

theorem make_string_from_buffer_spec:
  assumes gap: "gap_ok b" and "1 \<le> pos" and "0 \<le> len" and "pos + len \<le> bufz b"
  shows "make_string_from_buffer b pos len = take (nat len) (drop (nat (pos - 1)) (buffer_string b))"
  using make_string_spec [OF assms] .

theorem make_string_from_buffer_spec_witness: "make_string_from_buffer sample_text 2 2 = ''bc''"
proof -
  have "gap_ok sample_text" using sample_text_ok by (simp add: buffer_ok_def)
  moreover have "take 2 (drop 1 (buffer_string sample_text)) = ''bc''" by code_simp
  ultimately show ?thesis using make_string_from_buffer_spec [of sample_text 2 2] by (simp add: sample_text_simps)
qed

section \<open>Replacing a character\<close>

definition replaced :: "buffer_text \<Rightarrow> buffer_text \<Rightarrow> int \<Rightarrow> char \<Rightarrow> bool" where
  "replaced b b' pos ch \<longleftrightarrow> buffer_ok b' \<and> buffer_string b' = (buffer_string b)[nat (pos - 1) := ch] \<and>
     length (views b') = length (views b) \<and>
     (\<forall>j < length (views b).
        let v = views b ! j; v' = views b' ! j
        in begv v' = begv v \<and> zv v' = zv v \<and> pt v' = pt v \<and> marker_positions b' v' = marker_positions b v)"

lemma replaced_mem:
  assumes ok: "buffer_ok b" and p: "1 \<le> p" "p < bufz b"
  shows "replaced b (b\<lparr>mem := (mem b)(BI_BUF_BYTE_ADDRESS b p := ch)\<rparr>) p ch"
proof -
  define b' where "b' = b\<lparr>mem := (mem b)(BI_BUF_BYTE_ADDRESS b p := ch)\<rparr>"
  have addr: "BI_BUF_BYTE_ADDRESS b' = BI_BUF_BYTE_ADDRESS b" unfolding b'_def by (simp add: fun_eq_iff BI_BUF_BYTE_ADDRESS_def)
  have "0 \<le> gap_size b" using ok by (simp add: buffer_ok_def gap_ok_def)
  then have "BI_BUF_BYTE_ADDRESS b x = BI_BUF_BYTE_ADDRESS b p \<longleftrightarrow> x = p" for x by (auto simp: BI_BUF_BYTE_ADDRESS_def)
  then have "BUF_FETCH_CHAR b' x = (if x = p then ch else BUF_FETCH_CHAR b x)" for x
    unfolding BUF_FETCH_CHAR_def addr by (simp add: b'_def)
  then have str: "buffer_string b' = (buffer_string b)[nat (p - 1) := ch]"
    using p by (intro nth_equalityI) (auto simp: buffer_string_def nth_list_update b'_def)
  have "view_ok b' = view_ok b" "gap_ok b' = gap_ok b" "marker_positions b' = marker_positions b"
    by (simp_all add: fun_eq_iff b'_def view_ok_def memind_ok_def memind_to_bytind_def gap_ok_def marker_positions_def)
  then show ?thesis using ok str unfolding b'_def [symmetric] replaced_def buffer_ok_def by (simp add: b'_def)
qed

lemma replaced_from: "same_place b c \<Longrightarrow> replaced c b' pos ch \<Longrightarrow> replaced b b' pos ch"
  by (simp add: same_place_def replaced_def Let_def)

lemma replaced_to: "replaced b c pos ch \<Longrightarrow> same_place c b' \<Longrightarrow> replaced b b' pos ch"
  by (simp add: same_place_def replaced_def Let_def)

text \<open>
  Replacing a character at a position changes that character of the text and nothing
  else, whether or not the change counts as a real one; a position outside the accessible region is
  brought into it, an empty region and a read-only buffer are left as they are.
\<close>

theorem buffer_replace_char_spec:
  assumes ok: "buffer_ok b" and i: "i < length (views b)"
    and p: "p = min (zv (views b ! i) - 1) (max pos (begv (views b ! i)))"
    and run: "buffer_replace_char i pos ch unreal b = (b', r)"
  shows "case r of
      Return _ \<Rightarrow> (if begv (views b ! i) \<le> p then replaced b b' p ch else same_place b b')
    | _ \<Rightarrow> same_place b b'"
proof (cases "prepare_to_modify_buffer i pos (pos + 1) b")
  case (Inl e)
  then show ?thesis using run same_place_geom [OF ok refl] by (auto simp: buffer_replace_char_def)
next
  case (Inr b1)
  note s1 = same_place_geom [OF ok geom_obs.prepare [OF Inr]]
  note D = same_placeD [OF s1]
  have vi: "1 \<le> begv (views b ! i)" "zv (views b ! i) \<le> bufz b" using ok i by (simp_all add: buffer_ok_def view_ok_def)
  have clamp: "(let v = views b1 ! i; pos1 = (if pos < begv v then begv v else pos) in if pos1 \<ge> zv v then zv v - 1 else pos1) = p"
    unfolding p using D(5,6) [OF i] by (auto simp: Let_def)
  define b2 where "b2 = (if BUF_FETCH_CHAR b1 p = CHR 0x0A then MAP_INDIRECT_BUFFERS (\<lambda>v. v\<lparr>newline_was_deleted := True\<rparr>) b1 else b1)"
  define b3 where "b3 = (if \<not> unreal then (record_all (\<lambda>j. record_change b2 j p 1) b2)\<lparr>modiff := modiff b2 + 1\<rparr> else b2)"
  have g2: "geom b2 = geom b1" unfolding b2_def by (simp add: geom_def core_def)
  have "geom (record_all (\<lambda>j. record_change b2 j p 1) b2) = geom b2"
    using core_record by (intro geom_record_all) (simp add: record_change_def)
  then have "geom b3 = geom b2" unfolding b3_def by (simp add: geom_def)
  then have s3: "same_place b b3" using same_place_trans [OF s1 same_place_geom [OF D(1)]] g2 by simp
  have res: "(b', r) = (if p < begv (views b ! i) then (b1, Return ())
      else (signal_after_change i p (p + 1) (p + 1) (b3\<lparr>mem := (mem b3)(BI_BUF_BYTE_ADDRESS b3 p := ch)\<rparr>), Return ()))"
    unfolding run [symmetric] buffer_replace_char_def Let_def b2_def b3_def
    by (simp only: Inr sum.case clamp [unfolded Let_def D(5,6) [OF i]] D(5,6) [OF i])
  show ?thesis
  proof (cases "p < begv (views b ! i)")
    case True
    then show ?thesis using res s1 by simp
  next
    case False
    have "1 \<le> p" "p < bufz b3" using False vi same_placeD(2) [OF s3] unfolding p by auto
    note R = replaced_mem [OF same_placeD(1) [OF s3] this, of ch]
    then have "buffer_ok (b3\<lparr>mem := (mem b3)(BI_BUF_BYTE_ADDRESS b3 p := ch)\<rparr>)" by (simp add: replaced_def)
    from replaced_to [OF replaced_from [OF s3 R] same_place_geom [OF this]]
    show ?thesis using res False by simp
  qed
qed

theorem buffer_replace_char_spec_witness:
  "replaced sample_text (fst (buffer_replace_char 0 3 CHR ''x'' False sample_text)) 3 CHR ''x''"
proof -
  have eqs: "begv (views sample_text ! 0) = 1" "zv (views sample_text ! 0) = 5" by code_simp+
  have r: "snd (buffer_replace_char 0 3 CHR ''x'' False sample_text) = Return ()" by code_simp
  show ?thesis
    using buffer_replace_char_spec [OF sample_text_ok _ refl surjective_pairing, of 0 3 "CHR ''x''" False] r
    by (simp add: sample_text_simps eqs)
qed

end
