(* ===== verification/Int32.thy ===== *)
theory Int32
  imports Main
begin

text \<open>
  Conversions of C to the 32-bit type \<open>int\<close>: where the code passes or stores a wider value in an
  \<open>int\<close>, the low 32 bits are kept, read as a signed number.
\<close>

definition to_int32 :: "int \<Rightarrow> int" where
  "to_int32 x = signed_take_bit 31 x"

lemma to_int32_id [simp]: "- (2 ^ 31) \<le> x \<Longrightarrow> x < 2 ^ 31 \<Longrightarrow> to_int32 x = x"
  by (simp add: to_int32_def signed_take_bit_int_eq_self)

lemma take_bit_to_int32: "take_bit 32 (to_int32 x) = take_bit 32 x"
  by (simp add: to_int32_def take_bit_signed_take_bit)

end
