(* ===== verification/EditFns.thy ===== *)
theory EditFns
  imports BufferEdit Int32
begin

text \<open>
  The editing commands of \<open>src/src/editfns.c\<close> that rest on insertion and deletion, the decoding of
  positions given by Lisp (\<open>src/src/insdel.c\<close>), narrowing, and \<open>src/src/undo.c\<close>. A command works on
  view \<open>i\<close>, its current buffer. Positions are integers or \<open>nil\<close> (\<open>None\<close>); markers given as positions
  have been looked up.
\<close>

section \<open>Sequences of editing operations\<close>

definition obind :: "buffer_text \<times> 'a outcome \<Rightarrow> ('a \<Rightarrow> buffer_text \<Rightarrow> buffer_text \<times> 'b outcome) \<Rightarrow> buffer_text \<times> 'b outcome" where
  "obind r f = (case r of (b, Return x) \<Rightarrow> f x b | (b, Signal e) \<Rightarrow> (b, Signal e) | (b, Quit) \<Rightarrow> (b, Quit))"

section \<open>Positions given by Lisp\<close>

record gb_flags =
  GB_ALLOW_PAST_ACCESSIBLE :: bool
  GB_ALLOW_NIL :: bool
  GB_CHECK_ORDER :: bool
  GB_NO_ERROR_IF_BAD :: bool
  GB_COERCE_RANGE :: bool

definition no_flags :: gb_flags where
  "no_flags = \<lparr>GB_ALLOW_PAST_ACCESSIBLE = False, GB_ALLOW_NIL = False, GB_CHECK_ORDER = False,
               GB_NO_ERROR_IF_BAD = False, GB_COERCE_RANGE = False\<rparr>"

definition get_buffer_pos_char :: "nat \<Rightarrow> int option \<Rightarrow> gb_flags \<Rightarrow> buffer_text \<Rightarrow> int lresult" where
  "get_buffer_pos_char i pos flags b =
     (case pos of
        None \<Rightarrow> Inl (Wrong_type_argument ''integer-or-marker-p'' Qnil)
      | Some ind \<Rightarrow>
          let min_allowed = (if GB_ALLOW_PAST_ACCESSIBLE flags then 1 else begv (views b ! i));
              max_allowed = (if GB_ALLOW_PAST_ACCESSIBLE flags then bufz b else zv (views b ! i))
          in if ind < min_allowed \<or> ind > max_allowed
             then if GB_COERCE_RANGE flags then Inr (if ind < min_allowed then min_allowed else max_allowed)
                  else if GB_NO_ERROR_IF_BAD flags then Inr (- 1)
                  else Inl (Args_out_of_range (Lisp_Lrecord Lrecord_buffer i) (Lisp_Int ind))
             else Inr ind)"

text \<open>A \<open>nil\<close> position that is not allowed is an error before anything else is looked at.\<close>

definition get_buffer_range_char ::
    "nat \<Rightarrow> int option \<Rightarrow> int option \<Rightarrow> gb_flags \<Rightarrow> buffer_text \<Rightarrow> (int \<times> int) lresult" where
  "get_buffer_range_char i from to flags b =
     (let min_allowed = (if GB_ALLOW_PAST_ACCESSIBLE flags then 1 else begv (views b ! i));
          max_allowed = (if GB_ALLOW_PAST_ACCESSIBLE flags then bufz b else zv (views b ! i));
          noerr = flags\<lparr>GB_NO_ERROR_IF_BAD := True\<rparr>
      in case (if from = None \<and> GB_ALLOW_NIL flags then Inr min_allowed else get_buffer_pos_char i from noerr b) of
           Inl e \<Rightarrow> Inl e
         | Inr from_out \<Rightarrow>
             (case (if to = None \<and> GB_ALLOW_NIL flags then Inr max_allowed else get_buffer_pos_char i to noerr b) of
                Inl e \<Rightarrow> Inl e
              | Inr to_out \<Rightarrow>
                  if (from_out < 0 \<or> to_out < 0) \<and> \<not> GB_NO_ERROR_IF_BAD flags
                  then Inl (Simple_error ''args-out-of-range'' [Lisp_Lrecord Lrecord_buffer i])
                  else if from_out \<ge> 0 \<and> to_out \<ge> 0 \<and> from_out > to_out
                  then if GB_CHECK_ORDER flags then Inl (Simple_error ''start greater than end'' [])
                       else Inr (to_out, from_out)
                  else Inr (from_out, to_out)))"

definition bufpos_clip_to_bounds :: "int \<Rightarrow> int \<Rightarrow> int \<Rightarrow> int" where
  "bufpos_clip_to_bounds lower num upper = (if num < lower then lower else if num > upper then upper else num)"

section \<open>Commands\<close>

text \<open>The argument of these commands is an integer.\<close>

definition Fgoto_char :: "nat \<Rightarrow> int \<Rightarrow> buffer_text \<Rightarrow> buffer_text \<times> int outcome" where
  "Fgoto_char i position b =
     (case get_buffer_pos_char i (Some position) (no_flags\<lparr>GB_COERCE_RANGE := True\<rparr>) b of
        Inl e \<Rightarrow> (b, Signal e)
      | Inr n \<Rightarrow> (set_buffer_point i n b, Return n))"

definition Fdelete_region :: "(nat \<Rightarrow> bool) \<Rightarrow> nat \<Rightarrow> int option \<Rightarrow> int option \<Rightarrow> buffer_text \<Rightarrow> buffer_text \<times> unit outcome" where
  "Fdelete_region quit i start fin b =
     (case get_buffer_range_char i start fin no_flags b of
        Inl e \<Rightarrow> (b, Signal e)
      | Inr (bp_start, bp_end) \<Rightarrow> buffer_delete_range quit i bp_start bp_end b)"

definition buffer_insert_lisp_string :: "(nat \<Rightarrow> bool) \<Rightarrow> nat \<Rightarrow> string \<Rightarrow> buffer_text \<Rightarrow> buffer_text \<times> int outcome" where
  "buffer_insert_lisp_string quit i str b = buffer_insert_string_1 quit i (- 1) str False b"

text \<open>\<open>insert\<close> of strings; every one may be stopped by a quit of its own.\<close>

fun Finsert :: "(nat \<Rightarrow> nat \<Rightarrow> bool) \<Rightarrow> nat \<Rightarrow> string list \<Rightarrow> buffer_text \<Rightarrow> buffer_text \<times> unit outcome" where
  "Finsert quit i [] b = (b, Return ())"
| "Finsert quit i (str # strs) b =
     obind (buffer_insert_lisp_string (quit (length strs)) i str b) (\<lambda>_. Finsert quit i strs)"

text \<open>The copies are inserted in pieces of at most 768 characters.\<close>

function insert_char_loop :: "(nat \<Rightarrow> nat \<Rightarrow> bool) \<Rightarrow> nat \<Rightarrow> char \<Rightarrow> nat \<Rightarrow> nat \<Rightarrow> buffer_text \<Rightarrow> buffer_text \<times> unit outcome" where
  "insert_char_loop quit i c slen n b =
     (if slen \<noteq> 0 \<and> n \<ge> slen
      then obind (buffer_insert_lisp_string (quit n) i (replicate slen c) b) (\<lambda>_. insert_char_loop quit i c slen (n - slen))
      else if n > 0 then obind (buffer_insert_lisp_string (quit n) i (replicate n c) b) (\<lambda>_ b. (b, Return ()))
      else (b, Return ()))"
  by pat_completeness auto
termination
  by (relation "measure (\<lambda>(quit, i, c, slen, n, b). n)") auto

declare insert_char_loop.simps [simp del]

definition Finsert_char :: "(nat \<Rightarrow> nat \<Rightarrow> bool) \<Rightarrow> nat \<Rightarrow> char \<Rightarrow> int \<Rightarrow> buffer_text \<Rightarrow> buffer_text \<times> unit outcome" where
  "Finsert_char quit i c cou b =
     (if cou \<le> 0 then (b, Return ()) else insert_char_loop quit i c (nat (min cou 768)) (nat cou) b)"

definition Fbuffer_substring :: "nat \<Rightarrow> int option \<Rightarrow> int option \<Rightarrow> buffer_text \<Rightarrow> string lresult" where
  "Fbuffer_substring i start fin b =
     (case get_buffer_range_char i start fin (no_flags\<lparr>GB_ALLOW_NIL := True\<rparr>) b of
        Inl e \<Rightarrow> Inl e
      | Inr (begv', zv') \<Rightarrow> Inr (make_string_from_buffer b begv' (zv' - begv')))"

definition Fchar_after :: "nat \<Rightarrow> int option \<Rightarrow> buffer_text \<Rightarrow> char option lresult" where
  "Fchar_after i pos b =
     (case (if pos = None then Inr (pt (views b ! i)) else get_buffer_pos_char i pos (no_flags\<lparr>GB_NO_ERROR_IF_BAD := True\<rparr>) b) of
        Inl e \<Rightarrow> Inl e
      | Inr n \<Rightarrow> Inr (if n < 0 \<or> n = zv (views b ! i) then None else Some (BUF_FETCH_CHAR b n)))"

definition Fchar_before :: "nat \<Rightarrow> int option \<Rightarrow> buffer_text \<Rightarrow> char option lresult" where
  "Fchar_before i pos b =
     (case (if pos = None then Inr (pt (views b ! i)) else get_buffer_pos_char i pos (no_flags\<lparr>GB_NO_ERROR_IF_BAD := True\<rparr>) b) of
        Inl e \<Rightarrow> Inl e
      | Inr n \<Rightarrow> Inr (if n - 1 < begv (views b ! i) then None else Some (BUF_FETCH_CHAR b (n - 1))))"

text \<open>Locking of the visited file is left out.\<close>

definition Fset_buffer_modified_p :: "bool \<Rightarrow> buffer_text \<Rightarrow> buffer_text" where
  "Fset_buffer_modified_p flag b =
     (let m = modiff b + 1 in b\<lparr>modiff := m, save_modiff := (if \<not> flag then m else 0)\<rparr>)"

section \<open>Narrowing\<close>

definition upd_view :: "nat \<Rightarrow> (buffer_view \<Rightarrow> buffer_view) \<Rightarrow> buffer_text \<Rightarrow> buffer_text" where
  "upd_view i f b = b\<lparr>views := (views b)[i := f (views b ! i)]\<rparr>"

definition widen_buffer :: "nat \<Rightarrow> buffer_text \<Rightarrow> buffer_text" where
  "widen_buffer i b = upd_view i (\<lambda>v. v\<lparr>begv := 1, zv := bufz b\<rparr>) b"

definition Fnarrow_to_region :: "nat \<Rightarrow> int option \<Rightarrow> int option \<Rightarrow> buffer_text \<Rightarrow> buffer_text \<times> unit outcome" where
  "Fnarrow_to_region i start fin b =
     (case get_buffer_range_char i start fin (no_flags\<lparr>GB_ALLOW_PAST_ACCESSIBLE := True\<rparr>) b of
        Inl e \<Rightarrow> (b, Signal e)
      | Inr (bp_start, bp_end) \<Rightarrow>
          let b1 = upd_view i (\<lambda>v. v\<lparr>begv := bp_start, zv := bp_end\<rparr>) b;
              b2 = (if pt (views b1 ! i) < bp_start then set_buffer_point i bp_start b1 else b1);
              b3 = (if pt (views b2 ! i) > bp_end then set_buffer_point i bp_end b2 else b2)
          in (b3, Return ()))"

text \<open>The saved restriction: the numbers of characters before and after the accessible region.\<close>

definition save_restriction_save :: "nat \<Rightarrow> buffer_text \<Rightarrow> int \<times> int" where
  "save_restriction_save i b = (begv (views b ! i) - 1, bufz b - zv (views b ! i))"

definition save_restriction_restore :: "nat \<Rightarrow> int \<times> int \<Rightarrow> buffer_text \<Rightarrow> buffer_text" where
  "save_restriction_restore i saved b =
     (let (newhead, newtail) = (if fst saved + snd saved > bufz b - 1 then (0, 0) else saved);
          start = 1 + newhead; fin = bufz b - newtail;
          b1 = upd_view i (\<lambda>v. v\<lparr>begv := start, zv := fin\<rparr>) b;
          v = views b1 ! i
      in set_buffer_point i (bufpos_clip_to_bounds (begv v) (pt v) (zv v)) b1)"

section \<open>Undo\<close>

definition Fundo_boundary :: "nat \<Rightarrow> buffer_text \<Rightarrow> buffer_text" where
  "Fundo_boundary i b = (if undo_list (views b ! i) = None then b else upd_view i undo_boundary b)"

text \<open>The number a recorded file time stands for, in an \<open>int\<close> of 32 bits.\<close>

definition undo_mod_time :: "int \<Rightarrow> int \<Rightarrow> int" where
  "undo_mod_time high low = (high * 65536 + low + 2 ^ 31) mod 2 ^ 32 - 2 ^ 31"

definition outside_error :: lisp_error where
  "outside_error = Error_string ''Changes to be undone are outside visible portion of buffer''"

definition undo_insertion :: "(nat \<Rightarrow> bool) \<Rightarrow> nat \<Rightarrow> int \<Rightarrow> int \<Rightarrow> buffer_text \<Rightarrow> buffer_text \<times> unit outcome" where
  "undo_insertion quit i bg fin b =
     (if bg < begv (views b ! i) \<or> fin > zv (views b ! i) then (b, Signal outside_error)
      else obind (Fgoto_char i bg b) (\<lambda>_. Fdelete_region quit i (Some bg) (Some fin)))"

definition undo_deletion :: "(nat \<Rightarrow> bool) \<Rightarrow> nat \<Rightarrow> string \<Rightarrow> int \<Rightarrow> buffer_text \<Rightarrow> buffer_text \<times> unit outcome" where
  "undo_deletion quit i str pos b =
     (let v = views b ! i; quits = (\<lambda>_. quit)
      in if pos < 0
         then if - pos < begv v \<or> - pos > zv v then (b, Signal outside_error)
              else Finsert quits i [str] (set_buffer_point i (- pos) b)
         else if pos < begv v \<or> pos > zv v then (b, Signal outside_error)
              else obind (Finsert quits i [str] (set_buffer_point i pos b))
                     (\<lambda>_ b'. (set_buffer_point i pos b', Return ())))"

text \<open>
  The inner loop: entries are undone up to a boundary, the end of the list, or the record of a file
  time that is not the buffer's. The result is the rest of the list. An entry \<open>e\<close> in front of the
  rest \<open>es\<close> may be stopped by \<open>quit (length es)\<close>.
\<close>

fun primitive_undo_unit ::
    "(nat \<Rightarrow> nat \<Rightarrow> bool) \<Rightarrow> nat \<Rightarrow> undo_entry list \<Rightarrow> buffer_text \<Rightarrow> buffer_text \<times> undo_entry list outcome" where
  "primitive_undo_unit quit i [] b = (b, Return [])"
| "primitive_undo_unit quit i (Undo_boundary # es) b = (b, Return es)"
| "primitive_undo_unit quit i (Undo_point p # es) b =
     primitive_undo_unit quit i es
       (set_buffer_point i (bufpos_clip_to_bounds (begv (views b ! i)) p (zv (views b ! i))) b)"
| "primitive_undo_unit quit i (Undo_modtime high low # es) b =
     (if undo_mod_time high low \<noteq> modtime b then (b, Return es)
      else primitive_undo_unit quit i es (Fset_buffer_modified_p False b))"
| "primitive_undo_unit quit i (Undo_insert bg fin # es) b =
     obind (undo_insertion (quit (length es)) i bg fin b) (\<lambda>_. primitive_undo_unit quit i es)"
| "primitive_undo_unit quit i (Undo_delete str pos # es) b =
     obind (undo_deletion (quit (length es)) i str pos b) (\<lambda>_. primitive_undo_unit quit i es)"

fun primitive_undo_loop ::
    "(nat \<Rightarrow> nat \<Rightarrow> bool) \<Rightarrow> nat \<Rightarrow> nat \<Rightarrow> undo_entry list \<Rightarrow> buffer_text \<Rightarrow> buffer_text \<times> undo_entry list outcome" where
  "primitive_undo_loop quit i 0 es b = (b, Return es)"
| "primitive_undo_loop quit i (Suc arg) es b = obind (primitive_undo_unit quit i es b) (primitive_undo_loop quit i arg)"

text \<open>
  \<open>inhibit-read-only\<close> is bound while the buffer may be written, however the loop is left. Elements
  that are not undo records and those for extents are not modelled.
\<close>

definition Fprimitive_undo ::
    "(nat \<Rightarrow> nat \<Rightarrow> bool) \<Rightarrow> nat \<Rightarrow> int \<Rightarrow> undo_entry list \<Rightarrow> buffer_text \<Rightarrow> buffer_text \<times> undo_entry list outcome" where
  "Fprimitive_undo quit i count es b =
     (let b1 = (if \<not> buf_read_only (views b ! i) then b\<lparr>inhibit_read_only := True\<rparr> else b);
          (b2, r) = primitive_undo_loop quit i (nat count) es b1
      in (b2\<lparr>inhibit_read_only := inhibit_read_only b\<rparr>, r))"

subsection \<open>Truncating an undo list\<close>

text \<open>The space of an entry with its link; \<open>c\<close> and \<open>s\<close> are \<open>sizeof (Lisp_Cons)\<close> and \<open>sizeof (Lisp_String)\<close>.\<close>

fun undo_entry_size :: "int \<Rightarrow> int \<Rightarrow> undo_entry \<Rightarrow> int" where
  "undo_entry_size c s Undo_boundary = c"
| "undo_entry_size c s (Undo_point p) = c"
| "undo_entry_size c s (Undo_insert x y) = c + c"
| "undo_entry_size c s (Undo_modtime h l) = c + c"
| "undo_entry_size c s (Undo_delete str p) = c + c + (s - 1 + int (length str))"

text \<open>
  The two loops; \<open>n\<close> entries have been passed. The second one ends at the end of the list (\<open>None\<close>)
  or with the number of entries to be kept, which may be undecided. \<open>size_so_far\<close> is an \<open>int\<close>, to
  which 64-bit sizes are added.
\<close>

fun truncate_first :: "(undo_entry \<Rightarrow> int) \<Rightarrow> int \<Rightarrow> nat \<Rightarrow> undo_entry list \<Rightarrow> int \<times> nat \<times> undo_entry list" where
  "truncate_first sz size_so_far n [] = (size_so_far, n, [])"
| "truncate_first sz size_so_far n (e # es) =
     (if e \<noteq> Undo_boundary then truncate_first sz (to_int32 (size_so_far + sz e)) (n + 1) es else (size_so_far, n, e # es))"

fun truncate_rest ::
    "(undo_entry \<Rightarrow> int) \<Rightarrow> int \<Rightarrow> int \<Rightarrow> int \<Rightarrow> nat \<Rightarrow> nat option \<Rightarrow> undo_entry list \<Rightarrow> nat option option" where
  "truncate_rest sz minsize maxsize size_so_far n last_boundary [] = None"
| "truncate_rest sz minsize maxsize size_so_far n last_boundary (e # es) =
     (if e = Undo_boundary \<and> size_so_far > maxsize \<and> maxsize > 0 then Some last_boundary
      else let last' = (if e = Undo_boundary then Some n else last_boundary)
           in if e = Undo_boundary \<and> size_so_far > minsize \<and> minsize > 0 then Some last'
              else truncate_rest sz minsize maxsize (to_int32 (size_so_far + sz e)) (n + 1) last' es)"

definition truncate_undo_list :: "(undo_entry \<Rightarrow> int) \<Rightarrow> undo_entry list \<Rightarrow> int \<Rightarrow> int \<Rightarrow> undo_entry list" where
  "truncate_undo_list sz es minsize maxsize =
     (if \<not> (minsize > 0 \<or> maxsize > 0) \<or> es = [] then es
      else let (size0, n0, next0) = (if hd es = Undo_boundary then (to_int32 (sz Undo_boundary), 1, tl es) else (0, 0, es));
               (size1, n1, next1) = truncate_first sz size0 n0 next0;
               last_boundary = (if next1 \<noteq> [] then Some n1 else None)
           in case truncate_rest sz minsize maxsize size1 n1 last_boundary next1 of
                None \<Rightarrow> es
              | Some (Some n) \<Rightarrow> take n es
              | Some None \<Rightarrow> [])"

end
