(* ===== verification/IndirectBuffers.thy ===== *)
theory IndirectBuffers
  imports BufferDelete EditFns
begin

text \<open>
  Where buffers that share a text get in each other's way. The theorems on editing ask that an edit
  lies in the accessible region of every buffer that shares the text; without that, for insertion before
  markers, and for the hooks, the code does not do what the documentation of indirect buffers promises.
\<close>

section \<open>A base buffer and its indirect buffer\<close>

definition shared_text :: "buffer_view \<Rightarrow> buffer_view \<Rightarrow> buffer_text" where
  "shared_text parent child =
     sample_text\<lparr>mem := (\<lambda>a. if 0 \<le> a \<and> a < 6 then ''abcdef'' ! nat a else CHR ''.''), gpt := 7, bufz := 7, gap_size := 10,
                 modiff := 2, views := [parent, child]\<rparr>"

definition point_at :: "int \<Rightarrow> Lisp_Marker list" where
  "point_at p = [\<lparr>memind = p, insertion_type = False\<rparr>]"

text \<open>The indirect buffer is narrowed to the first character.\<close>

definition narrowed_child :: buffer_text where
  "narrowed_child = shared_text (plain_view 1 7 1 (point_at 1)) (plain_view 1 2 1 (point_at 1))"

text \<open>What a deletion does to the accessible region of every buffer that shares the text.\<close>

definition ends_moved :: "buffer_text \<Rightarrow> buffer_text \<Rightarrow> int \<Rightarrow> bool" where
  "ends_moved b b' n \<longleftrightarrow> (\<forall>j < length (views b). begv (views b' ! j) = begv (views b ! j) \<and> zv (views b' ! j) = zv (views b ! j) - n)"

lemma delete_at_ends:
  "ends_moved c (delete_at_gap from to c) (to - from)" "ends_moved c (delete_at_end from to c) (to - from)"
proof -
  let ?c = "record_all (\<lambda>j. record_delete c j from (to - from)) c"
  have "geom c = geom ?c" using core_record(2) by (intro geom_record_all [symmetric]) simp
  note D = geomD(6,7) [OF this]
  have fields: "begv (relocate_point from to (adjust_markers x y z v)) = begv v" "zv (relocate_point from to (adjust_markers x y z v)) = zv v"
    for x y z v by (simp_all add: relocate_point_def adjust_markers_def)
  show "ends_moved c (delete_at_gap from to c) (to - from)" "ends_moved c (delete_at_end from to c) (to - from)"
    unfolding ends_moved_def using D(1) coreD(1,2) [OF D(2) [symmetric]]
    by (simp_all add: delete_at_gap_def delete_at_end_def Let_def fields)
qed

lemma ends_moved_after: "ends_moved c b n \<Longrightarrow> length (views b) = length (views c) \<Longrightarrow> ends_moved c (signal_after_change i x y z b) n"
  using coreD(1,2) [OF geomD(7) [OF geom_obs.after_change [of i x y z b, symmetric], symmetric]] by (simp add: ends_moved_def)

lemma ends_moved_from: "same_place b c \<Longrightarrow> ends_moved c b' n \<Longrightarrow> ends_moved b b' n"
  using same_placeD(4-6) [of b c] by (auto simp: ends_moved_def)

lemma delete_at_length: "length (views (delete_at_gap from to c)) = length (views c)" "length (views (delete_at_end from to c)) = length (views c)"
proof -
  have "geom c = geom (record_all (\<lambda>j. record_delete c j from (to - from)) c)"
    using core_record(2) by (intro geom_record_all [symmetric]) simp
  from geomD(6) [OF this] show "length (views (delete_at_gap from to c)) = length (views c)" "length (views (delete_at_end from to c)) = length (views c)"
    by (simp_all add: delete_at_gap_def delete_at_end_def Let_def)
qed

lemma delete_region_ends:
  assumes ok: "buffer_ok b" and ft: "1 \<le> from" "from < to" "to \<le> bufz b" and run: "delete_region quit i from to b = (b', Return ())"
  shows "ends_moved b b' (to - from)"
proof -
  define c where "c = (if \<not> newline_was_deleted (views b ! i) \<and> region_has_newline b from to
      then MAP_INDIRECT_BUFFERS (\<lambda>v. v\<lparr>newline_was_deleted := True\<rparr>) b else b)"
  have "geom c = geom b" unfolding c_def by (simp add: geom_def core_def)
  then have sc: "same_place b c" by (rule same_place_geom [OF ok])
  note C = same_placeD [OF sc] and run' = run [unfolded delete_region_def, folded c_def, unfolded Let_def, folded c_def]
  note after = ends_moved_after [OF delete_at_ends(1) delete_at_length(1)] ends_moved_after [OF delete_at_ends(2) delete_at_length(2)]
  show ?thesis
  proof (cases "to = bufz c \<and> from > gpt c")
    case True
    then show ?thesis using run' ends_moved_from [OF sc after(2)] by auto
  next
    case False
    obtain b1 q where b1: "(if to < gpt c then gap_left quit to c else (c, False)) = (b1, q)" by (metis surj_pair)
    obtain b2 q' where b2: "(if from > gpt b1 then gap_right quit from b1 else (b1, False)) = (b2, q')" by (metis surj_pair)
    have tz: "to \<le> bufz c" using ft(3) C(2) by simp
    note G = gap_for_deletion [OF C(1) ft(1,2) tz b1 b2]
    have "(b', Return ()) = (if q then (b1, Quit) else if q' then (b2, Quit)
        else (signal_after_change i from to from (delete_at_gap from to b2), Return ()))"
      using run' False by (simp only: if_False b1 b2 prod.case if_P if_not_P split: if_splits)
    then have "\<not> q" "b' = signal_after_change i from to from (delete_at_gap from to b2)" by (auto split: if_splits)
    then show ?thesis using ends_moved_from [OF same_place_trans [OF sc G(3)] after(1)] by simp
  qed
qed

text \<open>
  Property C35: a deletion in one buffer, inside its own accessible region, takes its length off the end
  of the accessible region of every buffer that shares the text, whether or not the text was deleted
  there. If the region of an indirect buffer is before the deleted text and shorter than it, its end
  gets before its start.
\<close>

theorem deletion_breaks_narrowing:
  assumes "buffer_ok b" and "i < length (views b)" and "j < length (views b)"
    and "from' = max from (begv (views b ! i))" and "to' = min to (zv (views b ! i))" and "from' < to'"
    and "buffer_delete_range quit i from to b = (b', Return ())"
  shows "begv (views b' ! j) = begv (views b ! j) \<and> zv (views b' ! j) = zv (views b ! j) - (to' - from') \<and>
    (zv (views b ! j) - begv (views b ! j) < to' - from' \<longrightarrow> zv (views b' ! j) < begv (views b' ! j))"
proof -
  have f: "(if from < begv (views b ! i) then begv (views b ! i) else from) = from'"
    and t: "(if to > zv (views b ! i) then zv (views b ! i) else to) = to'" unfolding assms(4,5) by auto
  note run' = assms(7) [unfolded buffer_delete_range_def Let_def f t]
  have vi: "1 \<le> begv (views b ! i)" "zv (views b ! i) \<le> bufz b" using assms(1,2) by (simp_all add: buffer_ok_def view_ok_def)
  obtain c where c: "prepare_to_modify_buffer i from' to' b = Inr c"
    using run' assms(6) by (cases "prepare_to_modify_buffer i from' to' b") auto
  have s: "same_place b c" using same_place_geom [OF assms(1) geom_obs.prepare [OF c]] .
  note D = same_placeD [OF s]
  have f': "(if from' < begv (views c ! i) then begv (views c ! i) else from') = from'"
    and t': "(if to' > zv (views c ! i) then zv (views c ! i) else to') = to'"
    using D(5,6) [OF assms(2)] unfolding assms(4,5) by auto
  have "delete_region quit i from' to' c = (b', Return ())" using run' assms(6) unfolding c sum.case f' t' by simp
  moreover have "1 \<le> from'" "to' \<le> bufz c" using vi D(2) unfolding assms(4,5) by auto
  ultimately have "ends_moved b b' (to' - from')" using delete_region_ends [OF D(1) _ assms(6)] ends_moved_from [OF s] by blast
  then show ?thesis using assms(3) by (simp add: ends_moved_def)
qed

theorem deletion_breaks_narrowing_witness:
  "begv (views (fst (buffer_delete_range (\<lambda>_. False) 0 4 7 narrowed_child)) ! 1) = 1 \<and>
   zv (views (fst (buffer_delete_range (\<lambda>_. False) 0 4 7 narrowed_child)) ! 1) = - 1 \<and>
   zv (views (fst (buffer_delete_range (\<lambda>_. False) 0 4 7 narrowed_child)) ! 1) <
   begv (views (fst (buffer_delete_range (\<lambda>_. False) 0 4 7 narrowed_child)) ! 1)"
proof -
  have ok: "buffer_ok narrowed_child"
    by (simp add: buffer_ok_def gap_ok_def view_ok_def memind_ok_def memind_to_bytind_def narrowed_child_def shared_text_def
        sample_text_def plain_view_def point_at_def)
  have v: "length (views narrowed_child) = 2" "begv (views narrowed_child ! 0) = 1" "zv (views narrowed_child ! 0) = 7"
    "begv (views narrowed_child ! 1) = 1" "zv (views narrowed_child ! 1) = 2"
    by (simp_all add: narrowed_child_def shared_text_def plain_view_def)
  have "snd (buffer_delete_range (\<lambda>_. False) 0 4 7 narrowed_child) = Return ()" by code_simp
  then have "buffer_delete_range (\<lambda>_. False) 0 4 7 narrowed_child = (fst (buffer_delete_range (\<lambda>_. False) 0 4 7 narrowed_child), Return ())"
    by (simp add: prod_eq_iff)
  from deletion_breaks_narrowing [OF ok _ _ refl refl _ this, of 1] show ?thesis unfolding v by simp
qed

section \<open>Hooks\<close>

text \<open>Both buffers unrestricted; the base buffer has change hooks or not, the indirect buffer has.\<close>

definition hooked_child :: "bool \<Rightarrow> buffer_text" where
  "hooked_child base_hooks =
     shared_text ((plain_view 1 7 1 (point_at 1))\<lparr>before_change_functions := base_hooks, after_change_functions := base_hooks\<rparr>)
       (plain_view 1 7 1 (point_at 1))"

text \<open>
  An insertion in the base buffer looks at the hook variables of the indirect buffer but
  runs the hooks with the base buffer current: the functions of the indirect buffer are never
  called, and those of the base buffer are called twice.
\<close>

theorem child_hooks_not_run:
  "hook_log (fst (buffer_insert_string_1 (\<lambda>_. False) 0 3 ''x'' False (hooked_child False))) = [] \<and>
   hook_log (fst (buffer_insert_string_1 (\<lambda>_. False) 0 3 ''x'' False (hooked_child True))) =
     [Before_change 0 3 3, Before_change 0 3 3, After_change 0 3 4 0, After_change 0 3 4 0]"
proof
  show "hook_log (fst (buffer_insert_string_1 (\<lambda>_. False) 0 3 ''x'' False (hooked_child False))) = []" by code_simp
  show "hook_log (fst (buffer_insert_string_1 (\<lambda>_. False) 0 3 ''x'' False (hooked_child True))) =
     [Before_change 0 3 3, Before_change 0 3 3, After_change 0 3 4 0, After_change 0 3 4 0]" by code_simp
qed

section \<open>Insertion before markers\<close>

text \<open>
  Point of both buffers is at the place of insertion. The marker that is point of the indirect
  buffer moves behind the insertion, its point does not, and the two disagree from then on.
\<close>

lemma before_markers_splits_point:
  "case buffer_insert_string_1 (\<lambda>_. False) 0 (- 1) ''xy'' True (hooked_child True) of
     (b', Return _) \<Rightarrow> pt (views b' ! 1) = 1 \<and> map fst (marker_positions b' (views b' ! 1)) = [3]
   | _ \<Rightarrow> False"
  by code_simp

section \<open>Undo past an old file time\<close>

text \<open>
  The record of a file time that is not the buffer's any more is to leave the buffer modified; the
  code also stops there, in the middle of the unit: the first insertion is undone, the second one,
  before the boundary, is not.
\<close>

lemma old_time_stops_undo:
  "case Fprimitive_undo (\<lambda>_ _. False) 0 1 [Undo_insert 4 5, Undo_modtime 1 1, Undo_insert 1 2, Undo_boundary] sample_text of
     (b', Return rest) \<Rightarrow> buffer_string b' = ''abc'' \<and> rest = [Undo_insert 1 2, Undo_boundary]
   | _ \<Rightarrow> False"
  by code_simp

end
