(* ===== verification/UndoProps.thy ===== *)
theory UndoProps
  imports BufferDelete EditFns
begin

text \<open>
  Undo: an undo list stands for the earlier texts of the buffer, one for every boundary. Editing
  keeps what the list of every buffer stands for, and \<open>primitive-undo\<close> takes the buffer again to the
  text at the next boundary.
\<close>

section \<open>What an undo list stands for\<close>

fun unapply :: "undo_entry \<Rightarrow> string \<Rightarrow> string" where
  "unapply (Undo_insert x y) s = take (nat (x - 1)) s @ drop (nat (y - 1)) s"
| "unapply (Undo_delete t p) s = take (nat (\<bar>p\<bar> - 1)) s @ t @ drop (nat (\<bar>p\<bar> - 1)) s"
| "unapply _ s = s"

text \<open>The entry makes sense in front of the text, in a buffer whose file has the time \<open>m\<close>.\<close>

fun applies :: "int \<Rightarrow> undo_entry \<Rightarrow> string \<Rightarrow> bool" where
  "applies m (Undo_insert x y) s \<longleftrightarrow> 1 \<le> x \<and> x \<le> y \<and> y \<le> int (length s) + 1"
| "applies m (Undo_modtime h l) s \<longleftrightarrow> undo_mod_time h l = m"
| "applies m (Undo_delete t p) s \<longleftrightarrow> 1 \<le> \<bar>p\<bar> \<and> \<bar>p\<bar> \<le> int (length s) + 1"
| "applies m _ s \<longleftrightarrow> True"

fun history_ok :: "int \<Rightarrow> undo_entry list \<Rightarrow> string \<Rightarrow> bool" where
  "history_ok m [] s = True"
| "history_ok m (e # es) s = (applies m e s \<and> history_ok m es (unapply e s))"

text \<open>The greatest text that can always be put back.\<close>

definition fits :: "string \<Rightarrow> bool" where
  "fits s \<longleftrightarrow> int (length s) + (int (length s) + 1) div 8 + 2001 \<le> EMACS_INT_MAX"

fun history_fits :: "undo_entry list \<Rightarrow> string \<Rightarrow> bool" where
  "history_fits [] s = True"
| "history_fits (e # es) s = (fits (unapply e s) \<and> history_fits es (unapply e s))"

text \<open>The texts at the boundaries, the latest first, down to the oldest one known.\<close>

fun versions :: "undo_entry list \<Rightarrow> string \<Rightarrow> string list" where
  "versions [] s = [s]"
| "versions (e # es) s = (if e = Undo_boundary then s # versions es s else versions es (unapply e s))"

text \<open>Entries for one edit put in front of a list; a boundary may come before them.\<close>

definition recorded :: "int \<Rightarrow> undo_entry list \<Rightarrow> string \<Rightarrow> undo_entry list \<Rightarrow> string \<Rightarrow> bool" where
  "recorded m es s es' s' \<longleftrightarrow> (history_ok m es s \<longrightarrow> history_ok m es' s') \<and>
     (fits s \<and> history_fits es s \<longrightarrow> history_fits es' s') \<and> (versions es' s' = versions es s \<or> versions es' s' = s # versions es s)"

lemma undo_mod_time_recorded:
  assumes "- (2 ^ 31) \<le> m" "m < 2 ^ 31"
  shows "undo_mod_time ((m div 65536) mod 65536) (m mod 65536) = m"
proof -
  have "(m div 65536) mod 65536 * 65536 + m mod 65536 = m mod 2 ^ 32"
    using zmod_zmult2_eq [of 65536 m 65536] by (simp add: mult.commute)
  moreover have "(m mod 2 ^ 32 + 2 ^ 31) mod 2 ^ 32 = (m + 2 ^ 31) mod 2 ^ 32" by (simp add: mod_add_left_eq)
  moreover have "(m + 2 ^ 31) mod 2 ^ 32 = m + 2 ^ 31" using assms by (intro mod_pos_pos_trivial) simp_all
  ultimately show ?thesis by (simp add: undo_mod_time_def)
qed

lemma undo_prelude_cases:
  assumes "undo_list v = Some es" and m: "modtime b = m" "- (2 ^ 31) \<le> m" "m < 2 ^ 31"
  obtains h w es' where "undo_prelude b (here, v) = Some (h, w)" "undo_list w = Some es'" "core w = core v"
    "recorded m es s es' s"
proof -
  define es1 where "es1 = (if \<not> here \<and> es \<noteq> [] \<and> hd es \<noteq> Undo_boundary then Undo_boundary # es else es)"
  define v1 where "v1 = (if \<not> here then undo_boundary v else v)"
  have v1: "undo_list v1 = Some es1" "core v1 = core v"
    unfolding v1_def es1_def using assms by (auto simp: undo_boundary_def core_def split: list.splits)
  have r1: "recorded m es s es1 s" unfolding es1_def by (auto simp: recorded_def)
  show ?thesis
  proof (cases "modiff b \<le> save_modiff b")
    case True
    let ?m = "Undo_modtime ((modtime b div 65536) mod 65536) (modtime b mod 65536)"
    have "undo_prelude b (here, v) = Some (True, v1\<lparr>undo_list := Some (?m # es1)\<rparr>)"
      using True assms v1(1) unfolding undo_prelude_def Let_def fst_conv snd_conv v1_def [symmetric] by simp
    moreover have "recorded m es s (?m # es1) s" using r1 undo_mod_time_recorded [OF m(2,3)] m(1) by (simp add: recorded_def)
    ultimately show ?thesis using that [of True "v1\<lparr>undo_list := Some (?m # es1)\<rparr>" "?m # es1"] v1(2) by (simp add: core_def)
  next
    case False
    then have "undo_prelude b (here, v) = Some (True, v1)" using assms by (simp add: undo_prelude_def v1_def Let_def)
    then show ?thesis using that v1 r1 by simp
  qed
qed

lemma unapply_insert_twice:
  assumes "1 \<le> x" "x \<le> y" "y \<le> int (length s) + 1"
    and s': "s' = take (nat (y - 1)) s @ t @ drop (nat (y - 1)) s"
  shows "unapply (Undo_insert x (y + int (length t))) s' = unapply (Undo_insert x y) s"
proof -
  have "nat (y + int (length t) - 1) = nat (y - 1) + length t" using assms(1,2) by simp
  moreover have "nat (x - 1) \<le> nat (y - 1)" "nat (y - 1) \<le> length s" using assms(1-3) by linarith+
  ultimately show ?thesis unfolding s' by (simp add: min_def)
qed

lemma record_insert_recorded:
  assumes "undo_list v = Some es" and m: "modtime b = m" "- (2 ^ 31) \<le> m" "m < 2 ^ 31" and ok: "history_ok m es s" and bg: "1 \<le> bg" "bg \<le> int (length s) + 1"
    and s': "s' = take (nat (bg - 1)) s @ t @ drop (nat (bg - 1)) s"
  shows "\<exists>es'. undo_list (snd (record_insert b bg (int (length t)) (here, v))) = Some es' \<and> recorded m es s es' s'"
proof -
  obtain h w es1 where w: "undo_prelude b (here, v) = Some (h, w)" "undo_list w = Some es1" "recorded m es s es1 s"
    using undo_prelude_cases [OF assms(1) m] by metis
  have ok1: "history_ok m es1 s" using w(3) ok by (simp add: recorded_def)
  have n: "nat (bg + int (length t) - 1) = nat (bg - 1) + length t" using bg by simp
  have len: "length s' = length s + length t" using bg unfolding s' by simp
  have one: "unapply (Undo_insert bg (bg + int (length t))) s' = s" using bg unfolding s' by (simp add: n min_def)
  have plain: "recorded m es s (Undo_insert bg (bg + int (length t)) # es1) s'"
    using w(3) one bg len by (simp add: recorded_def del: unapply.simps)
  show ?thesis
  proof (cases "\<exists>x es2. es1 = Undo_insert x bg # es2")
    case True
    then obtain x es2 where es1: "es1 = Undo_insert x bg # es2" by blast
    have x: "1 \<le> x" "x \<le> bg" using ok1 unfolding es1 by simp_all
    have "unapply (Undo_insert x (bg + int (length t))) s' = unapply (Undo_insert x bg) s"
      using unapply_insert_twice [OF x bg(2) s'] .
    then have "recorded m es s (Undo_insert x (bg + int (length t)) # es2) s'"
      using w(3) x bg len unfolding es1 by (simp add: recorded_def del: unapply.simps)
    then show ?thesis using w es1 by (simp add: record_insert_def)
  next
    case False
    then have "undo_list (snd (record_insert b bg (int (length t)) (here, v))) = Some (Undo_insert bg (bg + int (length t)) # es1)"
      using w by (auto simp: record_insert_def split: list.splits undo_entry.splits)
    then show ?thesis using plain by blast
  qed
qed

lemma record_delete_recorded:
  assumes "undo_list v = Some es" and m: "modtime b = m" "- (2 ^ 31) \<le> m" "m < 2 ^ 31" and ok: "history_ok m es s" and bg: "1 \<le> bg" "0 \<le> n" "bg + n \<le> int (length s) + 1"
    and str: "make_string_from_buffer b bg n = take (nat n) (drop (nat (bg - 1)) s)"
    and s': "s' = take (nat (bg - 1)) s @ drop (nat (bg + n - 1)) s"
  shows "\<exists>es'. undo_list (snd (record_delete b j bg n (here, v))) = Some es' \<and> recorded m es s es' s'"
proof -
  obtain h w es1 where w: "undo_prelude b (here, v) = Some (h, w)" "undo_list w = Some es1" "recorded m es s es1 s"
    using undo_prelude_cases [OF assms(1) m] by metis
  define t where "t = take (nat n) (drop (nat (bg - 1)) s)"
  have again: "unapply (Undo_delete t p) s' = s" if "\<bar>p\<bar> = bg" for p
  proof -
    have "drop (nat (bg + n - 1)) s = drop (nat n) (drop (nat (bg - 1)) s)" using bg by (simp add: nat_add_distrib [symmetric] algebra_simps)
    then have "t @ drop (nat (bg + n - 1)) s = drop (nat (bg - 1)) s" unfolding t_def by (metis append_take_drop_id)
    then show ?thesis using bg that unfolding s' by (cases "length s \<le> nat (bg - 1)") (simp_all add: min_def)
  qed
  have len: "bg \<le> int (length s') + 1" using bg unfolding s' by simp
  obtain p es2 where es2: "undo_list (snd (record_delete b j bg n (here, v))) = Some (Undo_delete t p # es2)" "\<bar>p\<bar> = bg"
      "es2 = es1 \<or> (\<exists>q. es2 = Undo_point q # es1)"
    using w bg(1) str unfolding t_def [symmetric] by (simp add: record_delete_def Let_def split: option.split)
  have "recorded m es s es2 s" using es2(3) w(3) by (auto simp: recorded_def)
  then have "recorded m es s (Undo_delete t p # es2) s'" using again [OF es2(2)] bg(1) len es2(2) by (simp add: recorded_def del: unapply.simps)
  then show ?thesis using es2(1) by blast
qed

section \<open>Editing keeps the history\<close>

lemma record_views_nth:
  "j < length vs \<Longrightarrow> \<exists>h. snd (record_views f k here vs) ! j = snd (f (k + j) (h, vs ! j))"
  "length (snd (record_views f k here vs)) = length vs"
proof (induction vs arbitrary: j k here)
  case (Cons v vs)
  { case 1
    show ?case
    proof (cases j)
      case (Suc m)
      then show ?thesis using Cons.IH(1) [of m "k + 1" "fst (f k (here, v))"] 1 by (simp add: Let_def)
    qed (auto simp: Let_def)
  next
    case 2
    show ?case using Cons.IH(2) by (simp add: Let_def)
  }
qed simp_all

lemma undo_state_record_all:
  assumes "j < length (views b)"
  shows "\<exists>h. fst (undo_state (record_all f b)) ! j = undo_list (snd (f j (h, views b ! j)))"
  using record_views_nth(1) [of j "views b" f 0 "undo_here b"] record_views_nth(2) [of f 0 "undo_here b" "views b"] assms by (auto simp: record_all_def undo_state_def Let_def)

text \<open>A list that is turned off stays off.\<close>

lemma record_off:
  assumes "undo_list v = None"
  shows "undo_list (snd (record_insert b bg len (here, v))) = None" "undo_list (snd (record_delete b j bg len (here, v))) = None"
  using assms by (simp_all add: record_insert_def record_delete_def undo_prelude_def)

lemma record_read_only:
  "buf_read_only (snd (record_insert b bg len (here, v))) = buf_read_only v"
  "buf_read_only (snd (record_delete b j bg len (here, v))) = buf_read_only v"
  by (auto simp: record_insert_def record_delete_def undo_prelude_def undo_boundary_def Let_def
      split: option.splits list.splits undo_entry.splits)

text \<open>What an edit leaves of the undo lists, for all buffers that share the text.\<close>

definition history_kept :: "buffer_text \<Rightarrow> buffer_text \<Rightarrow> bool" where
  "history_kept b b' \<longleftrightarrow> length (views b') = length (views b) \<and>
     modtime b' = modtime b \<and> inhibit_read_only b' = inhibit_read_only b \<and>
     map buf_read_only (views b') = map buf_read_only (views b) \<and>
     (\<forall>j < length (views b).
        case undo_list (views b ! j) of
          None \<Rightarrow> undo_list (views b' ! j) = None
        | Some es \<Rightarrow> history_ok (modtime b) es (buffer_string b) \<longrightarrow>
            (\<exists>es'. undo_list (views b' ! j) = Some es' \<and> recorded (modtime b) es (buffer_string b) es' (buffer_string b')))"

lemma undo_state_nth: "j < length (views b) \<Longrightarrow> undo_list (views b ! j) = fst (undo_state b) ! j"
  by (simp add: undo_state_def)

lemma undo_state_length: "undo_state b' = undo_state b \<Longrightarrow> length (views b') = length (views b)"
  by (auto simp: undo_state_def dest: arg_cong [of _ _ length])

lemma recorded_frame:
  assumes u: "undo_state c = undo_state b" and u': "undo_state b' = undo_state (record_all f c)"
    and ro: "\<And>j h v. buf_read_only (snd (f j (h, v))) = buf_read_only v"
  shows "modtime b' = modtime b \<and> inhibit_read_only b' = inhibit_read_only b \<and> map buf_read_only (views b') = map buf_read_only (views b)"
proof -
  have "buf_read_only (snd (record_views f 0 (undo_here c) (views c)) ! k) = buf_read_only (views c ! k)" if "k < length (views c)" for k
    using record_views_nth(1) [OF that, of f 0 "undo_here c"] ro by metis
  then have "map buf_read_only (views (record_all f c)) = map buf_read_only (views c)"
    using record_views_nth(2) [of f 0 "undo_here c" "views c"] by (simp add: record_all_def Let_def list_eq_iff_nth_eq)
  then show ?thesis
    using u u' by (simp add: undo_state_def) (simp add: record_all_def Let_def)
qed

lemma history_keptI:
  assumes u: "undo_state c = undo_state b" and u': "undo_state b' = undo_state (record_all f c)"
    and ro: "\<And>j h v. buf_read_only (snd (f j (h, v))) = buf_read_only v"
    and off: "\<And>j h v. undo_list v = None \<Longrightarrow> undo_list (snd (f j (h, v))) = None"
    and on: "\<And>j h v es. undo_list v = Some es \<Longrightarrow> history_ok (modtime b) es (buffer_string b) \<Longrightarrow>
      \<exists>es'. undo_list (snd (f j (h, v))) = Some es' \<and> recorded (modtime b) es (buffer_string b) es' (buffer_string b')"
  shows "history_kept b b'"
proof -
  have len: "length (views c) = length (views b)" using undo_state_length [OF u] .
  have len': "length (views b') = length (views b)"
    using undo_state_length [OF u'] len record_views_nth(2) [of f 0 "undo_here c" "views c"]
    by (simp add: record_all_def Let_def)
  note frame = recorded_frame [OF u u' ro]
  have "case undo_list (views b ! j) of None \<Rightarrow> undo_list (views b' ! j) = None
      | Some es \<Rightarrow> history_ok (modtime b) es (buffer_string b) \<longrightarrow>
          (\<exists>es'. undo_list (views b' ! j) = Some es' \<and> recorded (modtime b) es (buffer_string b) es' (buffer_string b'))"
    if j: "j < length (views b)" for j
  proof -
    have same: "undo_list (views c ! j) = undo_list (views b ! j)" using u j len undo_state_nth by metis
    from undo_state_record_all [of j c f] j len obtain h where "undo_list (views b' ! j) = undo_list (snd (f j (h, views c ! j)))"
      using u' len' undo_state_nth [of j b'] by auto
    then show ?thesis using off [of "views c ! j" j h] on [of "views c ! j" _ j h] same by (simp split: option.split)
  qed
  then show ?thesis unfolding history_kept_def using len' frame by blast
qed

lemma history_keptD:
  assumes "history_kept b b'" and "j < length (views b)" and "undo_list (views b ! j) = Some es"
    and "history_ok (modtime b) es (buffer_string b)"
  obtains es' where "undo_list (views b' ! j) = Some es'" "recorded (modtime b) es (buffer_string b) es' (buffer_string b')"
proof -
  have "case undo_list (views b ! j) of None \<Rightarrow> undo_list (views b' ! j) = None
      | Some es \<Rightarrow> history_ok (modtime b) es (buffer_string b) \<longrightarrow>
          (\<exists>es'. undo_list (views b' ! j) = Some es' \<and> recorded (modtime b) es (buffer_string b) es' (buffer_string b'))"
    using assms(1,2) unfolding history_kept_def by blast
  then show ?thesis using that assms(3,4) by auto
qed

lemma recorded_refl: "recorded m es s es s"
  by (simp add: recorded_def)

lemma history_kept_same: "undo_state b' = undo_state b \<Longrightarrow> buffer_string b' = buffer_string b \<Longrightarrow> history_kept b b'"
  unfolding history_kept_def using recorded_refl undo_state_nth [of _ b] undo_state_nth [of _ b'] undo_state_length [of b' b]
  by (auto split: option.split simp: undo_state_def)

lemma length_buffer_string: "gap_ok b \<Longrightarrow> int (length (buffer_string b)) = bufz b - 1"
  by (auto simp: buffer_string_def gap_ok_def)

lemma undo_state_insert_into_gap: "undo_state (insert_into_gap i p str mp before c) = undo_state (record_all (\<lambda>j. record_insert c p (int (length str))) c)"
proof -
  have 1: "undo_state (set_buffer_point i x d) = undo_state d" for x d
    by (cases "i < length (views d)") (auto simp: set_buffer_point_def undo_state_def Let_def list_eq_iff_nth_eq nth_list_update)
  have 2: "undo_state (MAP_INDIRECT_BUFFERS (adjust_markers x y z) d) = undo_state d" for x y z d by (simp add: undo_state_def adjust_markers_def)
  have 3: "undo_list (adjust_markers_for_insert x y v) = undo_list v" "buf_read_only (adjust_markers_for_insert x y v) = buf_read_only v" for x y v
    by (simp_all add: adjust_markers_for_insert_def)
  show ?thesis unfolding insert_into_gap_def Let_def undo_obs.after_change
    by (simp add: 1 2 if_distrib [of undo_state] cong: if_cong) (simp add: undo_state_def 3 cong: if_cong)
qed

lemma insert_history:
  assumes mt: "- (2 ^ 31) \<le> modtime b" "modtime b < 2 ^ 31" and ok: "buffer_ok b" and i: "i < length (views b)"
    and inside: "\<forall>v \<in> set (views b). begv v \<le> insert_pos i pos b \<and> insert_pos i pos b \<le> zv v"
    and bm: "before \<longrightarrow> (\<forall>j < length (views b). pt (views b ! j) = insert_pos i pos b \<longrightarrow> pos = - 1 \<and> j = i)"
    and run: "buffer_insert_string_1 quit i pos str before b = (b', r)"
  shows "history_kept b b'"
proof (cases rule: insert_string_result [OF ok i run])
  case (1 c)
  let ?p = "insert_pos i pos b"
  have "inserted b b' i ?p str (pos = - 1) before" using insert_string_filled [OF ok i inside bm 1(2,4,5)] 1(6) by simp
  then have s': "buffer_string b' = take (nat (?p - 1)) (buffer_string b) @ str @ drop (nat (?p - 1)) (buffer_string b)"
    by (simp add: inserted_def)
  have c: "modtime c = modtime b" using 1(3) by (simp add: undo_state_def)
  have p: "1 \<le> ?p" "?p \<le> int (length (buffer_string b)) + 1"
    using insert_pos_bounds(1,2) [OF ok i] length_buffer_string [of b] ok by (simp_all add: buffer_ok_def)
  show ?thesis
    using history_keptI [OF 1(3), of b' "\<lambda>j. record_insert c ?p (int (length str))"] undo_state_insert_into_gap 1(6)
      record_off(1) record_read_only(1) record_insert_recorded [OF _ _ mt _ p s'] c by simp
next
  case 2
  then show ?thesis using history_kept_same same_placeD(3) by blast
qed

lemma removed_history:
  assumes mt: "- (2 ^ 31) \<le> modtime b" "modtime b < 2 ^ 31" and ok: "buffer_ok b" and rm: "removed b b' from to" and ft: "1 \<le> from" "from < to" "to \<le> bufz b"
  shows "history_kept b b'"
proof -
  from rm obtain c where c: "same_place b c" "undo_state c = undo_state b"
      "undo_state b' = undo_state (record_all (\<lambda>j. record_delete c j from (to - from)) c)" and d: "deleted b b' from to"
    unfolding removed_def by blast
  note D = same_placeD [OF c(1)]
  have cm: "modtime c = modtime b" using c(2) by (simp add: undo_state_def)
  have g: "gap_ok b" "gap_ok c" using ok D(1) by (simp_all add: buffer_ok_def)
  have str: "make_string_from_buffer c from (to - from) = take (nat (to - from)) (drop (nat (from - 1)) (buffer_string b))"
    using make_string_spec [OF g(2), of "from" "to - from"] ft D(2,3) by simp
  have s': "buffer_string b' = take (nat (from - 1)) (buffer_string b) @ drop (nat (from + (to - from) - 1)) (buffer_string b)"
    using d by (simp add: deleted_def)
  have len: "0 \<le> to - from" "from + (to - from) \<le> int (length (buffer_string b)) + 1" using ft length_buffer_string [OF g(1)] by simp_all
  show ?thesis
    using history_keptI [OF c(2,3)] record_off(2) record_read_only(2) record_delete_recorded [OF _ _ mt _ ft(1) len str s'] cm by simp
qed

lemma length_cut:
  "1 \<le> f \<Longrightarrow> f \<le> t \<Longrightarrow> t \<le> int (length s) + 1 \<Longrightarrow>
   int (length (take (nat (f - 1)) s @ drop (nat (t - 1)) s)) = int (length s) - (t - f)"
  by simp

text \<open>An insertion or a deletion in unrestricted buffers, however it ends.\<close>

lemma edit_insert:
  assumes mt: "- (2 ^ 31) \<le> modtime b" "modtime b < 2 ^ 31" and ok: "buffer_ok b" and i: "i < length (views b)"
    and full: "\<forall>v \<in> set (views b). begv v = 1 \<and> zv v = bufz b"
    and run: "buffer_insert_string_1 quit i pos str False b = (b', r)"
  shows "history_kept b b' \<and> buffer_ok b' \<and> (\<forall>v \<in> set (views b'). begv v = 1 \<and> zv v = bufz b')"
proof -
  let ?p = "insert_pos i pos b"
  have inside: "\<forall>v \<in> set (views b). begv v \<le> ?p \<and> ?p \<le> zv v" using full insert_pos_bounds(1,2) [OF ok i, of pos] by auto
  have h: "history_kept b b'" by (rule insert_history [OF mt ok i inside _ run]) simp
  show ?thesis
  proof (cases rule: insert_string_result [OF ok i run])
    case (1 c)
    have "inserted b b' i ?p str (pos = - 1) False" using insert_string_filled [OF ok i inside _ 1(2,4,5), of False] 1(6) by simp
    then have ok': "buffer_ok b'" and s: "buffer_string b' = take (nat (?p - 1)) (buffer_string b) @ str @ drop (nat (?p - 1)) (buffer_string b)"
      and len: "length (views b') = length (views b)"
      and v: "\<And>j. j < length (views b) \<Longrightarrow> begv (views b' ! j) = begv (views b ! j) \<and> zv (views b' ! j) = zv (views b ! j) + int (length str)"
      by (simp_all add: inserted_def Let_def)
    have "bufz b' = bufz b + int (length str)"
      using s length_buffer_string [of b'] length_buffer_string [of b] ok ok' by (simp add: buffer_ok_def)
    then have "begv (views b' ! j) = 1 \<and> zv (views b' ! j) = bufz b'" if "j < length (views b)" for j using v [OF that] full that by simp
    then show ?thesis using h ok' len by (metis in_set_conv_nth)
  next
    case 2
    note D = same_placeD [OF 2(2)]
    have "begv (views b' ! j) = 1 \<and> zv (views b' ! j) = bufz b'" if "j < length (views b)" for j using D(2,5,6) that full by simp
    then show ?thesis using h D(1,4) by (metis in_set_conv_nth)
  qed
qed

lemma edit_delete:
  assumes mt: "- (2 ^ 31) \<le> modtime b" "modtime b < 2 ^ 31" and ok: "buffer_ok b" and i: "i < length (views b)"
    and full: "\<forall>v \<in> set (views b). begv v = 1 \<and> zv v = bufz b"
    and run: "buffer_delete_range quit i from to b = (b', r)"
  shows "history_kept b b' \<and> buffer_ok b' \<and> (\<forall>v \<in> set (views b'). begv v = 1 \<and> zv v = bufz b')"
proof -
  let ?f = "max from (begv (views b ! i))" and ?t = "min to (zv (views b ! i))"
  have "begv (views b ! i) = 1" "zv (views b ! i) = bufz b" using full i by simp_all
  then have ft: "1 \<le> ?f" "?t \<le> bufz b" by simp_all
  have "\<forall>v \<in> set (views b). begv v \<le> ?f \<and> ?t \<le> zv v" using full ft by auto
  note R = delete_range_ok [OF ok i refl refl this run]
  consider "removed b b' ?f ?t" "?f < ?t" | "b' = b" | "untouched b b'" using R by (cases r) (auto split: if_splits)
  then show ?thesis
  proof cases
    case 1
    then have "deleted b b' ?f ?t" by (simp add: removed_def)
    then have ok': "buffer_ok b'" and s: "buffer_string b' = take (nat (?f - 1)) (buffer_string b) @ drop (nat (?t - 1)) (buffer_string b)"
      and len: "length (views b') = length (views b)"
      and v: "\<And>j. j < length (views b) \<Longrightarrow> begv (views b' ! j) = begv (views b ! j) \<and> zv (views b' ! j) = zv (views b ! j) - (?t - ?f)"
      by (simp_all add: deleted_def Let_def)
    have "int (length (buffer_string b')) = int (length (buffer_string b)) - (?t - ?f)"
      unfolding s using ft 1(2) length_buffer_string [of b] ok by (intro length_cut) (simp_all add: buffer_ok_def)
    then have "bufz b' = bufz b - (?t - ?f)"
      using length_buffer_string [of b'] length_buffer_string [of b] ok ok' unfolding buffer_ok_def by linarith
    then have "begv (views b' ! j) = 1 \<and> zv (views b' ! j) = bufz b'" if "j < length (views b)" for j using v [OF that] full that by simp
    then show ?thesis using removed_history [OF mt ok 1(1) ft(1) 1(2) ft(2)] ok' len by (metis in_set_conv_nth)
  next
    case 2
    then show ?thesis using history_kept_same ok full by simp
  next
    case 3
    then have u: "same_place b b'" "undo_state b' = undo_state b" by (simp_all add: untouched_def)
    note D = same_placeD [OF u(1)]
    have "begv (views b' ! j) = 1 \<and> zv (views b' ! j) = bufz b'" if "j < length (views b)" for j using D(2,5,6) that full by simp
    then show ?thesis using history_kept_same [OF u(2) D(3)] D(1,4) by (metis in_set_conv_nth)
  qed
qed

lemma edit_full:
  assumes "- (2 ^ 31) \<le> modtime b" "modtime b < 2 ^ 31" and "buffer_ok b" and "i < length (views b)"
    and "\<forall>v \<in> set (views b). begv v = 1 \<and> zv v = bufz b"
    and "buffer_insert_string_1 quit i pos str False b = (b', r) \<or> buffer_delete_range quit i from to b = (b', r')"
  shows "history_kept b b'" "buffer_ok b'" "\<forall>v \<in> set (views b'). begv v = 1 \<and> zv v = bufz b'"
  using edit_insert [OF assms(1-5)] edit_delete [OF assms(1-5)] assms(6) by blast+



end
