(* ===== verification/EditReady.thy ===== *)
theory EditReady
  imports UndoProps
begin

text \<open>
  Editing a buffer that is ready for it: nothing is narrowed, no buffer that shares the text is
  read-only, the user does not quit. The primitives then return and leave the buffer ready; what
  they do is stated in terms of strings. Undo and the commands on regions rest on these lemmas.
\<close>

section \<open>Buffers ready for editing\<close>

definition writable :: "buffer_text \<Rightarrow> bool" where
  "writable b \<longleftrightarrow> inhibit_read_only b \<or> (\<forall>v \<in> set (views b). \<not> buf_read_only v)"

lemma writable_kept:
  assumes "inhibit_read_only b' = inhibit_read_only b" and "map buf_read_only (views b') = map buf_read_only (views b)"
  shows "writable b' = writable b"
proof -
  have "buf_read_only ` set (views b') = buf_read_only ` set (views b)" using arg_cong [OF assms(2), of set] by simp
  then have "True \<in> buf_read_only ` set (views b') \<longleftrightarrow> True \<in> buf_read_only ` set (views b)" by simp
  then show ?thesis using assms(1) unfolding writable_def by (auto simp: image_iff)
qed

text \<open>All buffers that share the text are unrestricted and read-only flags are off or overridden.\<close>

definition ready :: "nat \<Rightarrow> buffer_text \<Rightarrow> bool" where
  "ready i b \<longleftrightarrow> buffer_ok b \<and> i < length (views b) \<and> (\<forall>v \<in> set (views b). begv v = 1 \<and> zv v = bufz b) \<and> writable b"

lemma readyD:
  assumes "ready i b"
  shows "buffer_ok b" "i < length (views b)" "\<And>v. v \<in> set (views b) \<Longrightarrow> begv v = 1 \<and> zv v = bufz b" "writable b"
    "begv (views b ! i) = 1" "zv (views b ! i) = bufz b" "bufz b = int (length (buffer_string b)) + 1"
  using assms length_buffer_string [of b] by (auto simp: ready_def buffer_ok_def)

lemma set_point_ready:
  assumes r: "ready i b" and p: "1 \<le> p" "p \<le> bufz b"
  shows "ready i (set_buffer_point i p b)" "buffer_string (set_buffer_point i p b) = buffer_string b"
    "modtime (set_buffer_point i p b) = modtime b" "pt (views (set_buffer_point i p b) ! i) = p"
proof -
  define b' where "b' = set_buffer_point i p b"
  note R = readyD [OF r]
  let ?v = "views b ! i"
  have same: "mem b' = mem b" "gpt b' = gpt b" "bufz b' = bufz b" "gap_size b' = gap_size b" "end_gap_size b' = end_gap_size b"
    "modtime b' = modtime b" "inhibit_read_only b' = inhibit_read_only b" "length (views b') = length (views b)"
    unfolding b'_def by (simp_all add: set_buffer_point_def Let_def)
  have fetch: "BUF_FETCH_CHAR b' = BUF_FETCH_CHAR b" "view_ok b' = view_ok b" "gap_ok b' = gap_ok b"
    using same by (auto simp: fun_eq_iff BUF_FETCH_CHAR_def BI_BUF_BYTE_ADDRESS_def view_ok_def memind_ok_def memind_to_bytind_def gap_ok_def)
  have g: "gap_ok b" and oki: "view_ok b ?v" using R(1,2) by (simp_all add: buffer_ok_def)
  note B = bytind_memind [OF g p]
  have nth: "views b' ! j = (if j = i \<and> p \<noteq> pt ?v
      then ?v\<lparr>pt := p, markers := (markers ?v)[point_marker ?v := (markers ?v ! point_marker ?v)\<lparr>memind := bytind_to_memind b p\<rparr>]\<rparr>
      else views b ! j)" for j unfolding b'_def using views_set_point(1) [OF R(2)] .
  have "view_ok b (?v\<lparr>pt := p, markers := (markers ?v)[point_marker ?v := (markers ?v ! point_marker ?v)\<lparr>memind := bytind_to_memind b p\<rparr>]\<rparr>)"
    using oki R(5,6) p B by (auto simp: view_ok_def dest!: set_update_subset_insert [THEN subsetD])
  then have v: "view_ok b' (views b' ! j) \<and> begv (views b' ! j) = 1 \<and> zv (views b' ! j) = bufz b" if "j < length (views b)" for j
    unfolding nth fetch using R(1,3) that R(2) by (auto simp: buffer_ok_def)
  have "map buf_read_only (views b') = map buf_read_only (views b)" using same(8) by (auto simp: list_eq_iff_nth_eq nth)
  then have w: "writable b'" using writable_kept same(7) R(4) by blast
  have "\<forall>v \<in> set (views b'). view_ok b' v \<and> begv v = 1 \<and> zv v = bufz b" using v same(8) by (metis in_set_conv_nth)
  then show "ready i (set_buffer_point i p b)" using same fetch R(2) w g unfolding b'_def [symmetric] ready_def buffer_ok_def by simp
  show "buffer_string (set_buffer_point i p b) = buffer_string b" "modtime (set_buffer_point i p b) = modtime b"
    using same fetch unfolding b'_def [symmetric] buffer_string_def by simp_all
  show "pt (views (set_buffer_point i p b) ! i) = p" unfolding b'_def [symmetric] nth by simp
qed

section \<open>Insertion and deletion\<close>

lemma inserted_ready:
  assumes r: "ready i b" and ins: "inserted b b' i p str mp before" and "writable b'"
  shows "ready i b'"
proof -
  note R = readyD [OF r]
  have ok: "buffer_ok b'" and len: "length (views b') = length (views b)" using ins by (simp_all add: inserted_def)
  have z: "bufz b' = bufz b + int (length str)"
    using ins length_buffer_string [of b'] R(1,7) ok by (simp add: inserted_def buffer_ok_def)
  have "begv (views b' ! j) = 1 \<and> zv (views b' ! j) = bufz b'" if "j < length (views b)" for j
    using ins R(3) that z by (simp add: inserted_def Let_def)
  then show ?thesis unfolding ready_def using ok R(2) len assms(3) by (metis in_set_conv_nth)
qed

lemma deleted_ready:
  assumes r: "ready i b" and del: "deleted b b' from to" and ft: "1 \<le> from" "from \<le> to" "to \<le> bufz b" and "writable b'"
  shows "ready i b'"
proof -
  note R = readyD [OF r]
  have ok: "buffer_ok b'" and len: "length (views b') = length (views b)" using del by (simp_all add: deleted_def)
  have z: "bufz b' = bufz b - (to - from)"
    using del length_buffer_string [of b'] R(1,7) ok ft by (simp add: deleted_def buffer_ok_def)
  have "begv (views b' ! j) = 1 \<and> zv (views b' ! j) = bufz b'" if "j < length (views b)" for j
    using del R(3) that z by (simp add: deleted_def Let_def)
  then show ?thesis unfolding ready_def using ok R(2) len assms(6) by (metis in_set_conv_nth)
qed


lemma insert_ready:
  assumes r: "ready i b" and quit: "\<forall>k. \<not> quit k" and size: "bufz b + bufz b div 8 + int (length str) + 2000 \<le> EMACS_INT_MAX"
  shows "\<exists>b'. buffer_insert_string_1 quit i pos str False b = (b', Return (int (length str))) \<and>
    inserted b b' i (insert_pos i pos b) str (pos = - 1) False \<and> ready i b' \<and> modtime b' = modtime b"
proof -
  note R = readyD [OF r]
  let ?p = "insert_pos i pos b"
  define b' where "b' = fst (buffer_insert_string_1 quit i pos str False b)"
  have "snd (buffer_insert_string_1 quit i pos str False b) = Return (int (length str))"
    using insert_string_returns [OF R(1,2) quit _ size] R(4) by (simp add: writable_def)
  then have run: "buffer_insert_string_1 quit i pos str False b = (b', Return (int (length str)))"
    unfolding b'_def by (simp add: prod_eq_iff)
  show ?thesis
  proof (cases rule: insert_string_result [OF R(1,2) run])
    case (1 d)
    have "\<forall>v \<in> set (views b). begv v \<le> ?p \<and> ?p \<le> zv v"
      using R(3,5,6) insert_pos_bounds(1,2) [OF R(1,2), of pos] by auto
    from insert_string_filled [OF R(1,2) this _ 1(2,4,5), of False] have ins: "inserted b b' i ?p str (pos = - 1) False" using 1(6) by simp
    have "undo_state b' = undo_state (record_all (\<lambda>j. record_insert d ?p (int (length str))) d)"
      using undo_state_insert_into_gap 1(6) by simp
    then have s: "modtime b' = modtime b" "inhibit_read_only b' = inhibit_read_only b" "map buf_read_only (views b') = map buf_read_only (views b)"
      using recorded_frame [OF 1(3)] record_read_only(1) by blast+
    have "ready i b'" using inserted_ready [OF r ins] writable_kept [OF s(2,3)] R(4) by blast
    then show ?thesis using run ins s(1) by blast
  next
    case 2
    then show ?thesis using 2(1) [of "int (length str)"] by simp
  qed
qed

lemma delete_ready:
  assumes r: "ready i b" and quit: "\<forall>k. \<not> quit k" and ft: "1 \<le> from" "from \<le> to" "to \<le> bufz b"
  shows "\<exists>b'. buffer_delete_range quit i from to b = (b', Return ()) \<and> deleted b b' from to \<and> ready i b' \<and> modtime b' = modtime b"
proof -
  note R = readyD [OF r]
  define b' where "b' = fst (buffer_delete_range quit i from to b)"
  have ends: "from = max from (begv (views b ! i))" "to = min to (zv (views b ! i))" using ft R(5,6) by simp_all
  have "\<forall>v \<in> set (views b). begv v \<le> from \<and> to \<le> zv v" using R(3) ft by auto
  note D = delete_range_ok [OF R(1,2) ends this surjective_pairing, of quit, folded b'_def]
  have ret: "snd (buffer_delete_range quit i from to b) = Return ()" using D quit R(4) unfolding writable_def by blast
  then have run: "buffer_delete_range quit i from to b = (b', Return ())" unfolding b'_def by (simp add: prod_eq_iff)
  show ?thesis
  proof (cases "from < to")
    case True
    then have rm: "removed b b' from to" using D ret by simp
    then have s: "modtime b' = modtime b" "inhibit_read_only b' = inhibit_read_only b" "map buf_read_only (views b') = map buf_read_only (views b)"
      using recorded_frame record_read_only(2) unfolding removed_def by blast+
    have del: "deleted b b' from to" using rm by (simp add: removed_def)
    have "ready i b'" using deleted_ready [OF r del ft] writable_kept [OF s(2,3)] R(4) by blast
    then show ?thesis using run del s(1) by blast
  next
    case False
    then have "b' = b" "from = to" using D ret ft by simp_all
    moreover have "del_pos from from = (\<lambda>p. p)" by (simp add: del_pos_def fun_eq_iff)
    then have "deleted b b from from" using R(1) by (simp add: deleted_def Let_def)
    ultimately show ?thesis using run r by auto
  qed
qed

end
