(* ===== verification/UndoSpec.thy ===== *)
theory UndoSpec
  imports EditReady
begin

text \<open>
  \<open>primitive-undo\<close> on a buffer whose undo list is in order: it returns, and the text is the one at
  the boundary it stops at. With the results on recording this makes undo the inverse of editing.
\<close>

section \<open>Undoing one entry\<close>

lemma undo_deletion_ok:
  assumes r: "ready i b" and a: "applies m (Undo_delete str p) (buffer_string b)" and f: "fits (unapply (Undo_delete str p) (buffer_string b))"
    and quit: "\<forall>k. \<not> quit k"
  shows "\<exists>b'. undo_deletion quit i str p b = (b', Return ()) \<and> ready i b' \<and> modtime b' = modtime b \<and>
    buffer_string b' = unapply (Undo_delete str p) (buffer_string b)"
proof -
  note R = readyD [OF r]
  let ?p = "\<bar>p\<bar>"
  have p: "1 \<le> ?p" "?p \<le> bufz b" using a R(7) by simp_all
  define c where "c = set_buffer_point i ?p b"
  note S = set_point_ready [OF r p, folded c_def]
  note C = readyD [OF S(1)]
  have ip: "insert_pos i (- 1) c = ?p" using C(5,6,7) R(7) S(2,4) p by (simp add: insert_pos_def Let_def)
  have "bufz c + bufz c div 8 + int (length str) + 2000 \<le> EMACS_INT_MAX"
  proof -
    have "int (length (unapply (Undo_delete str p) (buffer_string b))) = bufz c - 1 + int (length str)"
      using p C(7) R(7) S(2) by simp
    moreover have "bufz c div 8 \<le> (bufz c + int (length str)) div 8" by (intro zdiv_mono1) simp_all
    ultimately show ?thesis using f unfolding fits_def by (simp del: unapply.simps)
  qed
  from insert_ready [OF S(1) quit this, of "- 1"] obtain b' where run: "buffer_insert_string_1 quit i (- 1) str False c = (b', Return (int (length str)))"
      and ins: "inserted c b' i ?p str True False" and rb: "ready i b'" and mt: "modtime b' = modtime c" unfolding ip by auto
  have str: "buffer_string b' = unapply (Undo_delete str p) (buffer_string b)" using ins S(2) by (simp add: inserted_def)
  have f1: "Finsert (\<lambda>_. quit) i [str] c = (b', Return ())"
    using run by (simp add: buffer_insert_lisp_string_def obind_def)
  show ?thesis
  proof (cases "p < 0")
    case True
    then show ?thesis using f1 rb str mt S(3) R(5,6) p unfolding undo_deletion_def Let_def by (simp add: c_def)
  next
    case False
    have "p \<le> bufz b'" using str readyD(7) [OF rb] p R(7) False by simp
    note T = set_point_ready [OF rb _ this]
    show ?thesis using f1 T str mt S(3) R(5,6) p False unfolding undo_deletion_def Let_def by (simp add: c_def obind_def)
  qed
qed

lemma undo_insertion_ok:
  assumes r: "ready i b" and a: "applies m (Undo_insert x y) (buffer_string b)" and quit: "\<forall>k. \<not> quit k"
  shows "\<exists>b'. undo_insertion quit i x y b = (b', Return ()) \<and> ready i b' \<and> modtime b' = modtime b \<and>
    buffer_string b' = unapply (Undo_insert x y) (buffer_string b)"
proof -
  note R = readyD [OF r]
  have p: "1 \<le> x" "x \<le> y" "y \<le> bufz b" using a R(7) by simp_all
  define c where "c = set_buffer_point i x b"
  have xb: "x \<le> bufz b" using p by simp
  note S = set_point_ready [OF r p(1) xb, folded c_def]
  note C = readyD [OF S(1)]
  have z: "bufz c = bufz b" using C(7) R(7) S(2) by simp
  have g: "Fgoto_char i x b = (c, Return x)"
    using p R(5,6) by (simp add: Fgoto_char_def get_buffer_pos_char_def no_flags_def Let_def c_def)
  have d: "Fdelete_region quit i (Some x) (Some y) c = buffer_delete_range quit i x y c"
    using p z C(5,6) by (simp add: Fdelete_region_def get_buffer_range_char_def get_buffer_pos_char_def no_flags_def Let_def)
  from delete_ready [OF S(1) quit p(1,2)] p(3) z obtain b' where run: "buffer_delete_range quit i x y c = (b', Return ())"
      and del: "deleted c b' x y" and rb: "ready i b'" "modtime b' = modtime c" by auto
  have "undo_insertion quit i x y b = (b', Return ())"
    using p R(5,6) g d run unfolding undo_insertion_def by (simp add: obind_def)
  then show ?thesis using rb del S(2,3) by (simp add: deleted_def)
qed

section \<open>Undoing up to a boundary\<close>

fun undo_unit :: "undo_entry list \<Rightarrow> string \<Rightarrow> string \<times> undo_entry list" where
  "undo_unit [] s = (s, [])"
| "undo_unit (e # es) s = (if e = Undo_boundary then (s, es) else undo_unit es (unapply e s))"

lemma versions_unit:
  "versions es s = fst (undo_unit es s) # (if Undo_boundary \<in> set es then versions (snd (undo_unit es s)) (fst (undo_unit es s)) else [])"
  by (induction es arbitrary: s) auto

lemma history_unit:
  "history_ok m es s \<Longrightarrow> history_ok m (snd (undo_unit es s)) (fst (undo_unit es s))"
  "history_fits es s \<Longrightarrow> history_fits (snd (undo_unit es s)) (fst (undo_unit es s))"
  by (induction es arbitrary: s) auto

lemma set_unmodified_ready:
  assumes "ready i b"
  shows "ready i (Fset_buffer_modified_p False b)" "buffer_string (Fset_buffer_modified_p False b) = buffer_string b"
    "modtime (Fset_buffer_modified_p False b) = modtime b"
proof -
  define b' where "b' = Fset_buffer_modified_p False b"
  have "geom b' = geom b" "modtime b' = modtime b" "inhibit_read_only b' = inhibit_read_only b" "views b' = views b" "bufz b' = bufz b"
    unfolding b'_def by (simp_all add: Fset_buffer_modified_p_def geom_def Let_def)
  then show "ready i (Fset_buffer_modified_p False b)" "buffer_string (Fset_buffer_modified_p False b) = buffer_string b"
    "modtime (Fset_buffer_modified_p False b) = modtime b"
    using assms geom_ok [of b b'] geom_string [of b b'] unfolding b'_def [symmetric] ready_def writable_def by simp_all
qed

lemma primitive_undo_unit_ok:
  assumes "ready i b" and "history_ok (modtime b) es (buffer_string b)" and "history_fits es (buffer_string b)" and "\<forall>k k'. \<not> quit k k'"
  shows "\<exists>b'. primitive_undo_unit quit i es b = (b', Return (snd (undo_unit es (buffer_string b)))) \<and> ready i b' \<and>
    modtime b' = modtime b \<and> buffer_string b' = fst (undo_unit es (buffer_string b))"
  using assms
proof (induction es arbitrary: b)
  case Nil
  then show ?case by simp
next
  case (Cons e es)
  note R = readyD [OF Cons.prems(1)]
  have step: "\<exists>b'. primitive_undo_unit quit i es c = (b', Return (snd (undo_unit es (unapply e (buffer_string b))))) \<and> ready i b' \<and>
      modtime b' = modtime b \<and> buffer_string b' = fst (undo_unit es (unapply e (buffer_string b)))"
    if "ready i c" "modtime c = modtime b" "buffer_string c = unapply e (buffer_string b)" for c
  proof -
    have "history_ok (modtime c) es (buffer_string c)" "history_fits es (buffer_string c)" using that(2,3) Cons.prems(2,3) by simp_all
    from Cons.IH [OF that(1) this Cons.prems(4)] show ?thesis unfolding that(2,3) .
  qed
  show ?case
  proof (cases e)
    case Undo_boundary
    then show ?thesis using Cons.prems(1) by simp
  next
    case (Undo_point p)
    have "1 \<le> bufpos_clip_to_bounds 1 p (bufz b)" "bufpos_clip_to_bounds 1 p (bufz b) \<le> bufz b"
      using R(7) by (simp_all add: bufpos_clip_to_bounds_def)
    from step [OF set_point_ready(1,3) [OF Cons.prems(1) this]] set_point_ready(2) [OF Cons.prems(1) this] show ?thesis
      using Undo_point R(5,6) by simp
  next
    case (Undo_modtime h l)
    then have "undo_mod_time h l = modtime b" using Cons.prems(2) by simp
    then show ?thesis using step [OF set_unmodified_ready(1,3) [OF Cons.prems(1)]] set_unmodified_ready(2) [OF Cons.prems(1)] Undo_modtime by simp
  next
    case (Undo_insert x y)
    then have "applies (modtime b) (Undo_insert x y) (buffer_string b)" using Cons.prems(2) by simp
    from undo_insertion_ok [OF Cons.prems(1) this, of "quit (length es)"] Cons.prems(4) obtain c where
      "undo_insertion (quit (length es)) i x y b = (c, Return ())" "ready i c" "modtime c = modtime b"
      "buffer_string c = unapply (Undo_insert x y) (buffer_string b)" by blast
    then show ?thesis using step [of c] Undo_insert by (simp add: obind_def del: unapply.simps)
  next
    case (Undo_delete str p)
    then have "applies (modtime b) (Undo_delete str p) (buffer_string b)" "fits (unapply (Undo_delete str p) (buffer_string b))"
      using Cons.prems(2,3) by simp_all
    from undo_deletion_ok [OF Cons.prems(1) this, of "quit (length es)"] Cons.prems(4) obtain c where
      "undo_deletion (quit (length es)) i str p b = (c, Return ())" "ready i c" "modtime c = modtime b"
      "buffer_string c = unapply (Undo_delete str p) (buffer_string b)" by blast
    then show ?thesis using step [of c] Undo_delete by (simp add: obind_def del: unapply.simps)
  qed
qed

lemma primitive_undo_loop_ok:
  assumes "ready i b" and "history_ok (modtime b) es (buffer_string b)" and "history_fits es (buffer_string b)" and "\<forall>k k'. \<not> quit k k'"
    and "n < length (versions es (buffer_string b))"
  shows "\<exists>b' rest. primitive_undo_loop quit i (Suc n) es b = (b', Return rest) \<and> ready i b' \<and> buffer_string b' = versions es (buffer_string b) ! n"
  using assms
proof (induction n arbitrary: es b)
  case 0
  then show ?case using primitive_undo_unit_ok [OF 0(1-4)] versions_unit [of es "buffer_string b"] by (auto simp: obind_def)
next
  case (Suc n)
  let ?u = "undo_unit es (buffer_string b)"
  from primitive_undo_unit_ok [OF Suc.prems(1-4)] obtain c where
    c: "primitive_undo_unit quit i es b = (c, Return (snd ?u))" "ready i c" "modtime c = modtime b" "buffer_string c = fst ?u" by blast
  have v: "versions es (buffer_string b) = fst ?u # versions (snd ?u) (fst ?u)"
    using versions_unit [of es "buffer_string b"] Suc.prems(5) by (simp split: if_splits)
  have "history_ok (modtime c) (snd ?u) (buffer_string c)" "history_fits (snd ?u) (buffer_string c)"
    using history_unit(1) [of "modtime b" es "buffer_string b"] history_unit(2) [of es "buffer_string b"] Suc.prems(2,3) c(3,4) by simp_all
  from Suc.IH [OF c(2) this Suc.prems(4)] Suc.prems(5) v c(4) show ?case using c(1) by (simp add: obind_def)
qed

lemma primitive_undo_ok:
  assumes ok: "buffer_ok b" and i: "i < length (views b)" and full: "\<forall>v \<in> set (views b). begv v = 1 \<and> zv v = bufz b"
    and writable: "\<not> buf_read_only (views b ! i)" and quit: "\<forall>k k'. \<not> quit k k'"
    and hist: "history_ok (modtime b) es (buffer_string b)" "history_fits es (buffer_string b)"
    and count: "1 \<le> count" "nat count \<le> length (versions es (buffer_string b))"
  shows "\<exists>b' rest. Fprimitive_undo quit i count es b = (b', Return rest) \<and> buffer_ok b' \<and>
    inhibit_read_only b' = inhibit_read_only b \<and> buffer_string b' = versions es (buffer_string b) ! (nat count - 1)"
proof -
  define c where "c = b\<lparr>inhibit_read_only := True\<rparr>"
  have g: "geom c = geom b" "modtime c = modtime b" "views c = views b" "bufz c = bufz b" "writable c"
    unfolding c_def by (simp_all add: geom_def writable_def)
  have s: "buffer_string c = buffer_string b" using geom_string g(1) by metis
  have "ready i c" unfolding ready_def using geom_ok [of b c] g ok i full by simp
  moreover have "nat count - 1 < length (versions es (buffer_string c))" using count s by auto
  ultimately obtain d rest where d: "primitive_undo_loop quit i (Suc (nat count - 1)) es c = (d, Return rest)" "ready i d"
      "buffer_string d = versions es (buffer_string c) ! (nat count - 1)"
    using primitive_undo_loop_ok [of i c es quit "nat count - 1"] hist quit g(2) s by auto
  have n: "Suc (nat count - 1) = nat count" using count(1) by simp
  have f: "Fprimitive_undo quit i count es b = (d\<lparr>inhibit_read_only := inhibit_read_only b\<rparr>, Return rest)"
    using d(1) writable unfolding n Fprimitive_undo_def c_def by simp
  have gd: "geom (d\<lparr>inhibit_read_only := inhibit_read_only b\<rparr>) = geom d" by (simp add: geom_def)
  show ?thesis using f geom_ok [OF gd [symmetric]] geom_string [OF gd [symmetric]] readyD(1) [OF d(2)] d(3) s by simp
qed





end
