(* ===== verification/EditProps.thy ===== *)
theory EditProps
  imports UndoSpec
begin

text \<open>
  Truncating an undo list keeps its latest part; narrowing, and saving and restoring a restriction,
  keep the buffer in order and change no text.
\<close>

section \<open>Truncating an undo list\<close>

text \<open>The length of the latest unit, which is always kept, and the space of a list.\<close>

definition first_unit :: "undo_entry list \<Rightarrow> nat" where
  "first_unit es =
     (if es \<noteq> [] \<and> hd es = Undo_boundary then 1 + length (takeWhile (\<lambda>e. e \<noteq> Undo_boundary) (tl es))
      else length (takeWhile (\<lambda>e. e \<noteq> Undo_boundary) es))"

definition undo_size :: "(undo_entry \<Rightarrow> int) \<Rightarrow> undo_entry list \<Rightarrow> int" where
  "undo_size sz es = sum_list (map sz es)"

lemma undo_size_simps [simp]:
  "undo_size sz [] = 0" "undo_size sz (e # es) = sz e + undo_size sz es" "undo_size sz (xs @ ys) = undo_size sz xs + undo_size sz ys"
  by (simp_all add: undo_size_def)

lemma undo_size_nonneg: "(\<And>e. 0 \<le> sz e) \<Longrightarrow> 0 \<le> undo_size sz es"
  by (induction es) simp_all

text \<open>As long as the sizes stay below two gigabytes, they are added up exactly.\<close>

lemma truncate_first_eq:
  assumes "\<And>e. 0 \<le> sz e" and "0 \<le> x" and "x + undo_size sz es < 2 ^ 31"
  shows "truncate_first sz x n es =
     (x + undo_size sz (takeWhile (\<lambda>e. e \<noteq> Undo_boundary) es), n + length (takeWhile (\<lambda>e. e \<noteq> Undo_boundary) es),
      dropWhile (\<lambda>e. e \<noteq> Undo_boundary) es)"
  using assms(2,3)
proof (induction es arbitrary: x n)
  case (Cons e es)
  have "0 \<le> x + sz e" "x + sz e < 2 ^ 31" using Cons.prems assms(1) [of e] undo_size_nonneg [of sz es] assms(1) by simp_all
  then show ?case using Cons.IH [of "x + sz e"] Cons.prems by simp
qed simp

text \<open>
  The second loop stops at the first boundary at which a threshold is exceeded, and keeps what is
  before it, or before the boundary before it when the greater threshold is exceeded.
\<close>

definition in_limits :: "int \<Rightarrow> int \<Rightarrow> int \<Rightarrow> bool" where
  "in_limits minsize maxsize n \<longleftrightarrow> (0 < minsize \<longrightarrow> n \<le> minsize) \<and> (0 < maxsize \<longrightarrow> n \<le> maxsize)"

definition kept_at :: "undo_entry list \<Rightarrow> nat \<Rightarrow> nat option \<Rightarrow> nat \<Rightarrow> nat option \<Rightarrow> bool" where
  "kept_at es n l k r \<longleftrightarrow> (r = l \<and> (\<forall>j < k. es ! j \<noteq> Undo_boundary)) \<or>
     (\<exists>j < k. r = Some (n + j) \<and> es ! j = Undo_boundary \<and> (\<forall>i. j < i \<and> i < k \<longrightarrow> es ! i \<noteq> Undo_boundary))"

lemma kept_at_Cons:
  "kept_at es (n + 1) (if e = Undo_boundary then Some n else l) k r \<Longrightarrow> kept_at (e # es) n l (Suc k) r"
  unfolding kept_at_def
proof (elim disjE exE conjE)
  assume r: "r = (if e = Undo_boundary then Some n else l)" and none: "\<forall>j < k. es ! j \<noteq> Undo_boundary"
  then have later: "(e # es) ! i \<noteq> Undo_boundary" if "0 < i" "i < Suc k" for i using that by (cases i) auto
  show "(r = l \<and> (\<forall>j < Suc k. (e # es) ! j \<noteq> Undo_boundary)) \<or>
     (\<exists>j < Suc k. r = Some (n + j) \<and> (e # es) ! j = Undo_boundary \<and> (\<forall>i. j < i \<and> i < Suc k \<longrightarrow> (e # es) ! i \<noteq> Undo_boundary))"
  proof (cases "e = Undo_boundary")
    case True
    then show ?thesis using r later by (intro disjI2 exI [of _ 0]) simp
  next
    case False
    then have "(e # es) ! j \<noteq> Undo_boundary" if "j < Suc k" for j using that later [of j] by (cases j) auto
    then show ?thesis using r False by simp
  qed
next
  fix j assume j: "j < k" "r = Some (n + 1 + j)" "es ! j = Undo_boundary" "\<forall>i. j < i \<and> i < k \<longrightarrow> es ! i \<noteq> Undo_boundary"
  then have "(e # es) ! i \<noteq> Undo_boundary" if "Suc j < i" "i < Suc k" for i using that by (cases i) auto
  then show "(r = l \<and> (\<forall>j < Suc k. (e # es) ! j \<noteq> Undo_boundary)) \<or>
     (\<exists>j < Suc k. r = Some (n + j) \<and> (e # es) ! j = Undo_boundary \<and> (\<forall>i. j < i \<and> i < Suc k \<longrightarrow> (e # es) ! i \<noteq> Undo_boundary))"
    using j by (intro disjI2 exI [of _ "Suc j"]) simp
qed

lemma truncate_rest_result:
  assumes "\<And>e. 0 \<le> sz e" and "0 \<le> x" and "x + undo_size sz es < 2 ^ 31"
  shows "case truncate_rest sz mn mx x n l es of
      None \<Rightarrow> \<forall>k < length es. es ! k = Undo_boundary \<longrightarrow> in_limits mn mx (x + undo_size sz (take k es))
    | Some r \<Rightarrow> \<exists>k < length es. es ! k = Undo_boundary \<and> \<not> in_limits mn mx (x + undo_size sz (take k es)) \<and>
        (\<forall>j < k. es ! j = Undo_boundary \<longrightarrow> in_limits mn mx (x + undo_size sz (take j es))) \<and>
        (if 0 < mx \<and> mx < x + undo_size sz (take k es) then kept_at es n l k r else r = Some (n + k))"
  using assms(2,3)
proof (induction es arbitrary: x n l)
  case (Cons e es)
  let ?l = "if e = Undo_boundary then Some n else l"
  show ?case
  proof (cases "e = Undo_boundary \<and> \<not> in_limits mn mx x")
    case True
    then show ?thesis by (auto simp: in_limits_def kept_at_def intro!: exI [of _ 0])
  next
    case False
    have x: "0 \<le> x + sz e" "x + sz e < 2 ^ 31" "x + sz e + undo_size sz es < 2 ^ 31"
      using Cons.prems assms(1) [of e] undo_size_nonneg [of sz es] assms(1) by simp_all
    have step: "truncate_rest sz mn mx x n l (e # es) = truncate_rest sz mn mx (x + sz e) (n + 1) ?l es"
      using False x by (auto simp: in_limits_def Let_def)
    have here: "(e # es) ! 0 = Undo_boundary \<longrightarrow> in_limits mn mx x" using False by simp
    note IH = Cons.IH [OF x(1,3), of "n + 1" ?l]
    show ?thesis
    proof (cases "truncate_rest sz mn mx (x + sz e) (n + 1) ?l es")
      case None
      then have ok: "\<forall>k < length es. es ! k = Undo_boundary \<longrightarrow> in_limits mn mx (x + sz e + undo_size sz (take k es))"
        using IH by simp
      have "in_limits mn mx (x + undo_size sz (take k (e # es)))" if "k < length (e # es)" "(e # es) ! k = Undo_boundary" for k
        using that here ok by (cases k) (auto simp: add.assoc)
      then show ?thesis unfolding step None by simp
    next
      case (Some r)
      then obtain k where k: "k < length es" "es ! k = Undo_boundary" "\<not> in_limits mn mx (x + sz e + undo_size sz (take k es))"
        "\<forall>j < k. es ! j = Undo_boundary \<longrightarrow> in_limits mn mx (x + sz e + undo_size sz (take j es))"
        "if 0 < mx \<and> mx < x + sz e + undo_size sz (take k es) then kept_at es (n + 1) ?l k r else r = Some (n + 1 + k)"
        using IH by auto
      have "in_limits mn mx (x + undo_size sz (take j (e # es)))" if "j < Suc k" "(e # es) ! j = Undo_boundary" for j
        using that here k(4) by (cases j) (auto simp: add.assoc)
      moreover have "if 0 < mx \<and> mx < x + undo_size sz (take (Suc k) (e # es)) then kept_at (e # es) n l (Suc k) r else r = Some (n + Suc k)"
        using k(5) kept_at_Cons [of es n e l k r] by (auto simp: add.assoc split: if_splits)
      ultimately show ?thesis unfolding step Some using k(1-3)
        by (simp only: option.case) (intro exI [of _ "Suc k"], simp add: add.assoc)
    qed
  qed
qed simp

lemma versions_cut: "es ! n = Undo_boundary \<Longrightarrow> n < length es \<Longrightarrow> \<exists>ws. versions es s = versions (take n es) s @ ws"
proof (induction es arbitrary: n s)
  case (Cons e es)
  show ?case
  proof (cases n)
    case 0
    then show ?thesis using Cons.prems by simp
  next
    case (Suc m)
    then show ?thesis using Cons.IH [of m "if e = Undo_boundary then s else unapply e s"] Cons.prems by (auto split: if_splits)
  qed
qed simp

lemma nth_first_unit: "first_unit es < length es \<Longrightarrow> es ! first_unit es = Undo_boundary"
proof (cases es)
  case (Cons e es')
  assume "first_unit es < length es"
  then show ?thesis using Cons nth_length_takeWhile [of "\<lambda>e. e \<noteq> Undo_boundary" es'] nth_length_takeWhile [of "\<lambda>e. e \<noteq> Undo_boundary" es]
    by (auto simp: first_unit_def split: if_splits)
qed (simp add: first_unit_def)

text \<open>
  Property C31: truncating an undo list of less than two gigabytes keeps all of it when no threshold is
  exceeded at a boundary behind the latest unit. Otherwise it is cut at the first such boundary, or,
  if the greater threshold is exceeded there, at the boundary before it, but never inside the latest
  unit. The texts that the rest stands for are the latest ones.
\<close>

theorem truncate_undo_list_spec:
  assumes "\<And>e. 0 \<le> sz e" and "undo_size sz es < 2 ^ 31" and "0 < minsize \<or> 0 < maxsize"
  shows "\<exists>n. truncate_undo_list sz es minsize maxsize = take n es \<and> (\<exists>ws. versions es s = versions (take n es) s @ ws) \<and>
    (let bs = {k. first_unit es \<le> k \<and> k < length es \<and> es ! k = Undo_boundary};
         over = {k \<in> bs. \<not> in_limits minsize maxsize (undo_size sz (take k es))}
     in if over = {} then n = length es
        else n \<in> bs \<and> (if 0 < maxsize \<and> maxsize < undo_size sz (take (Min over) es)
                       then n = Max {k \<in> bs. k = first_unit es \<or> k < Min over} else n = Min over))"
proof (cases "es = []")
  case True
  then show ?thesis by (simp add: truncate_undo_list_def first_unit_def)
next
  case False
  define start where "start = (if hd es = Undo_boundary then [Undo_boundary] else [])"
  define unit where "unit = takeWhile (\<lambda>e. e \<noteq> Undo_boundary) (drop (length start) es)"
  define rest where "rest = dropWhile (\<lambda>e. e \<noteq> Undo_boundary) (drop (length start) es)"
  define f where "f = first_unit es"
  have es: "es = start @ unit @ rest" using False unfolding start_def unit_def rest_def by (cases es) auto
  have f: "f = length (start @ unit)"
    using False unfolding f_def start_def unit_def first_unit_def by (simp add: drop_Suc)
  have split: "undo_size sz es = undo_size sz (start @ unit) + undo_size sz rest" using arg_cong [OF es, of "undo_size sz"] by simp
  have nn: "0 \<le> undo_size sz xs" for xs using undo_size_nonneg assms(1) .
  define res where "res = truncate_rest sz minsize maxsize (undo_size sz (start @ unit)) f (if rest \<noteq> [] then Some f else None) rest"
  have "undo_size sz start + undo_size sz (drop (length start) es) < 2 ^ 31" "undo_size sz start < 2 ^ 31"
    using assms(2) split nn [of "unit @ rest"] arg_cong [OF es, of "drop (length start)"] by (simp_all)
  note first = truncate_first_eq [of sz, OF assms(1) nn this(1), of "length start"] and small = this(2)
  have run: "truncate_undo_list sz es minsize maxsize = (case res of None \<Rightarrow> es | Some (Some n) \<Rightarrow> take n es | Some None \<Rightarrow> [])"
  proof -
    have "(if hd es = Undo_boundary then (to_int32 (sz Undo_boundary), 1, tl es) else (0, 0, es)) =
        (undo_size sz start, length start, drop (length start) es)"
      using small nn [of start] by (cases "hd es = Undo_boundary") (simp_all add: start_def drop_Suc)
    then show ?thesis using False assms(3) first unfolding truncate_undo_list_def res_def f
      by (simp add: unit_def [symmetric] rest_def [symmetric] Let_def)
  qed
  note result = truncate_rest_result [of sz, OF assms(1) nn, of "start @ unit" rest minsize maxsize f
      "if rest \<noteq> [] then Some f else None", folded split, OF assms(2), folded res_def]
  let ?bs = "{k. f \<le> k \<and> k < length es \<and> es ! k = Undo_boundary}"
  let ?over = "{k \<in> ?bs. \<not> in_limits minsize maxsize (undo_size sz (take k es))}"
  have at: "es ! (f + k) = rest ! k" "take (f + k) es = start @ unit @ take k rest" for k
    using arg_cong [OF es, of "\<lambda>l. l ! (length (start @ unit) + k)"] arg_cong [OF es, of "take (length (start @ unit) + k)"]
    unfolding f by (simp_all add: nth_append)
  have len: "length es = f + length rest" using arg_cong [OF es, of length] unfolding f by simp
  have mem: "f + k \<in> ?bs \<longleftrightarrow> k < length rest \<and> rest ! k = Undo_boundary" for k using at len by simp
  have size: "undo_size sz (take (f + k) es) = undo_size sz (start @ unit) + undo_size sz (take k rest)" for k
    unfolding at by simp
  have "\<exists>n. truncate_undo_list sz es minsize maxsize = take n es \<and>
    (if ?over = {} then n = length es
     else n \<in> ?bs \<and> (if 0 < maxsize \<and> maxsize < undo_size sz (take (Min ?over) es)
                    then n = Max {k \<in> ?bs. k = f \<or> k < Min ?over} else n = Min ?over))"
  proof (cases res)
    case None
    then have "\<forall>k < length rest. rest ! k = Undo_boundary \<longrightarrow> in_limits minsize maxsize (undo_size sz (take (f + k) es))"
      using result unfolding size by simp
    then have "in_limits minsize maxsize (undo_size sz (take k es))" if "k \<in> ?bs" for k
      using that mem [of "k - f"] by auto
    then have "?over = {}" by blast
    then show ?thesis using run None by (intro exI [of _ "length es"]) simp
  next
    case (Some r)
    have "rest \<noteq> []" using Some unfolding res_def by auto
    then obtain k where k: "k < length rest" "rest ! k = Undo_boundary" "\<not> in_limits minsize maxsize (undo_size sz (take (f + k) es))"
      "\<forall>j < k. rest ! j = Undo_boundary \<longrightarrow> in_limits minsize maxsize (undo_size sz (take (f + j) es))"
      "if 0 < maxsize \<and> maxsize < undo_size sz (take (f + k) es) then kept_at rest f (Some f) k r else r = Some (f + k)"
      using result unfolding size Some by (auto simp only: option.case if_True not_False_eq_True)
    have "f + k \<in> ?over" using k(3) mem [of k] k(1,2) by simp
    moreover have "f + k \<le> m" if "m \<in> ?over" for m
      using that k(4) mem [of "m - f"] by (metis (mono_tags, lifting) le_add_diff_inverse mem_Collect_eq nat_add_left_cancel_le not_le)
    ultimately have Min: "Min ?over = f + k" by (intro Min_eqI) auto
    have ne: "?over \<noteq> {}" using \<open>f + k \<in> ?over\<close> by blast
    show ?thesis
    proof (cases "0 < maxsize \<and> maxsize < undo_size sz (take (f + k) es)")
      case False
      then have "r = Some (f + k)" using k(5) by simp
      then show ?thesis unfolding Min if_not_P [OF ne] if_not_P [OF False] using run Some mem [of k] k(1,2)
        by (intro exI [of _ "f + k"]) simp
    next
      case True
      have hd: "rest ! 0 = Undo_boundary" using k(1) hd_dropWhile [of "\<lambda>e. e \<noteq> Undo_boundary" "drop (length start) es"]
        unfolding rest_def [symmetric] by (cases rest) auto
      have "kept_at rest f (Some f) k r" using True k(5) by simp
      then obtain j where j: "r = Some (f + j)" "rest ! j = Undo_boundary" "j = 0 \<or> j < k"
        "\<forall>i. j < i \<and> i < k \<longrightarrow> rest ! i \<noteq> Undo_boundary"
        unfolding kept_at_def using hd by (elim disjE exE conjE) (force, force)
      have jl: "j < length rest" using j(3) k(1) by auto
      have "Max {i \<in> ?bs. i = f \<or> i < f + k} = f + j"
      proof (rule Max_eqI)
        show "f + j \<in> {i \<in> ?bs. i = f \<or> i < f + k}" using mem [of j] jl j(2,3) by auto
        fix i assume i: "i \<in> {i \<in> ?bs. i = f \<or> i < f + k}"
        then have "rest ! (i - f) = Undo_boundary" "i = f \<or> i - f < k" "f \<le> i" using mem [of "i - f"] by auto
        then have "\<not> j < i - f" using j(4) by auto
        then show "i \<le> f + j" by simp
      qed simp
      then show ?thesis unfolding Min if_not_P [OF ne] if_P [OF True] using run Some j(1,2) jl mem [of j]
        by (intro exI [of _ "f + j"]) simp
    qed
  qed
  then obtain n where n: "truncate_undo_list sz es minsize maxsize = take n es"
    "if ?over = {} then n = length es
     else n \<in> ?bs \<and> (if 0 < maxsize \<and> maxsize < undo_size sz (take (Min ?over) es)
                    then n = Max {k \<in> ?bs. k = f \<or> k < Min ?over} else n = Min ?over)" by blast
  have "n = length es \<or> n \<in> ?bs" using n(2) by (auto split: if_splits)
  then have "\<exists>ws. versions es s = versions (take n es) s @ ws" using versions_cut [of es n s] by auto
  with n show ?thesis unfolding f_def Let_def by blast
qed

text \<open>
  Three units; the third boundary is reached with 112 bytes, more than the smaller threshold and not
  more than the greater one, so that all three units are kept and the rest goes.
\<close>

theorem truncate_undo_list_spec_witness:
  "truncate_undo_list (undo_entry_size 16 24)
     [Undo_insert 1 2, Undo_boundary, Undo_insert 3 4, Undo_boundary, Undo_insert 5 6, Undo_boundary, Undo_insert 7 8] 100 200 =
   [Undo_insert 1 2, Undo_boundary, Undo_insert 3 4, Undo_boundary, Undo_insert 5 6]"
proof -
  let ?es = "[Undo_insert 1 2, Undo_boundary, Undo_insert 3 4, Undo_boundary, Undo_insert 5 6, Undo_boundary, Undo_insert 7 8]"
  let ?sz = "undo_entry_size 16 24"
  have nn: "0 \<le> ?sz e" for e by (cases e) auto
  have bs: "{k. first_unit ?es \<le> k \<and> k < length ?es \<and> ?es ! k = Undo_boundary} = {1, 3, 5}"
    by (auto simp: first_unit_def less_Suc_eq numeral_eq_Suc)
  have over: "{k \<in> {1, 3, 5}. \<not> in_limits 100 200 (undo_size ?sz (take k ?es))} = {5}"
    by (auto simp: in_limits_def)
  from truncate_undo_list_spec [of ?sz ?es 100 200, OF nn] obtain n where
    "truncate_undo_list ?sz ?es 100 200 = take n ?es" "n = 5" unfolding bs over Let_def by auto
  then show ?thesis by simp
qed

text \<open>
  The documentation of \<open>undo-high-threshold\<close> says that a command which pushes past that size is
  itself forgotten. The oldest command of a list is not, whatever its size, since the thresholds are
  only looked at when its boundary is met and there is none behind the oldest command.
\<close>

lemma oldest_unit_kept:
  "int (length str) < 2 ^ 30 \<Longrightarrow>
   truncate_undo_list (undo_entry_size 16 24) [Undo_insert 1 2, Undo_boundary, Undo_delete str 1] 20000 30000 =
     [Undo_insert 1 2, Undo_boundary, Undo_delete str 1]"
  by (simp add: truncate_undo_list_def)

section \<open>Narrowing\<close>

text \<open>
  A view with a new accessible region whose point is brought into it, as narrowing and restoring a
  restriction leave it.
\<close>

definition region_set :: "nat \<Rightarrow> int \<Rightarrow> int \<Rightarrow> buffer_text \<Rightarrow> buffer_text \<Rightarrow> bool" where
  "region_set i s e b b' \<longleftrightarrow> buffer_ok b' \<and> buffer_string b' = buffer_string b \<and> length (views b') = length (views b) \<and>
     begv (views b' ! i) = s \<and> zv (views b' ! i) = e \<and> pt (views b' ! i) = bufpos_clip_to_bounds s (pt (views b ! i)) e \<and>
     (\<forall>k < length (markers (views b ! i)). k \<noteq> point_marker (views b ! i) \<longrightarrow>
        marker_positions b' (views b' ! i) ! k = marker_positions b (views b ! i) ! k) \<and>
     (\<forall>j. j \<noteq> i \<longrightarrow> views b' ! j = views b ! j)"

lemma region_setI:
  assumes ok: "buffer_ok b" and i: "i < length (views b)" and se: "1 \<le> s" "s \<le> e" "e \<le> bufz b"
    and v: "v = views b ! i" and p: "p = bufpos_clip_to_bounds s (pt v) e"
    and v': "v' = v\<lparr>begv := s, zv := e, pt := p, markers := (if p = pt v then markers v
        else (markers v)[point_marker v := (markers v ! point_marker v)\<lparr>memind := bytind_to_memind b p\<rparr>])\<rparr>"
  shows "region_set i s e b (b\<lparr>views := (views b)[i := v']\<rparr>)"
proof -
  define b' where "b' = b\<lparr>views := (views b)[i := v']\<rparr>"
  have vok: "view_ok b v" and g: "gap_ok b" using ok i v by (simp_all add: buffer_ok_def)
  have pb: "s \<le> p" "p \<le> e" unfolding p using se by (auto simp: bufpos_clip_to_bounds_def)
  have "1 \<le> p" "p \<le> bufz b" using pb se by simp_all
  note B = bytind_memind [OF g this]
  have same: "view_ok b' = view_ok b" "gap_ok b' = gap_ok b" "BUF_FETCH_CHAR b' = BUF_FETCH_CHAR b" "memind_to_bytind b' = memind_to_bytind b"
    by (simp_all add: fun_eq_iff b'_def view_ok_def memind_ok_def memind_to_bytind_def gap_ok_def BUF_FETCH_CHAR_def BI_BUF_BYTE_ADDRESS_def)
  have "view_ok b v'" unfolding v' using vok pb se B
    by (auto simp: view_ok_def dest!: set_update_subset_insert [THEN subsetD])
  then have "buffer_ok b'" using ok unfolding buffer_ok_def same
    by (auto simp: b'_def dest!: set_update_subset_insert [THEN subsetD])
  moreover have "buffer_string b' = buffer_string b" unfolding buffer_string_def same by (simp add: b'_def)
  moreover have "views b' ! i = v'" "\<forall>j. j \<noteq> i \<longrightarrow> views b' ! j = views b ! j" "length (views b') = length (views b)"
    using i by (simp_all add: b'_def)
  ultimately show ?thesis unfolding b'_def [symmetric] region_set_def
    using v p same(4) by (simp add: v' marker_positions_def)
qed

lemma range_char_past:
  "get_buffer_range_char i (Some x) (Some y) (no_flags\<lparr>GB_ALLOW_PAST_ACCESSIBLE := True\<rparr>) b =
     (if 1 \<le> x \<and> x \<le> bufz b \<and> 1 \<le> y \<and> y \<le> bufz b then Inr (min x y, max x y)
      else Inl (Simple_error ''args-out-of-range'' [Lisp_Lrecord Lrecord_buffer i]))"
  by (auto simp: get_buffer_range_char_def get_buffer_pos_char_def no_flags_def Let_def)

text \<open>
  Property C32: \<open>narrow-to-region\<close> with two positions in the buffer, in any order, makes the text
  between them the accessible region, brings point into it and changes nothing else; with a position
  outside the buffer it signals an error and changes nothing.
\<close>

theorem Fnarrow_to_region_spec:
  assumes ok: "buffer_ok b" and i: "i < length (views b)" and run: "Fnarrow_to_region i (Some x) (Some y) b = (b', r)"
  shows "if 1 \<le> x \<and> x \<le> bufz b \<and> 1 \<le> y \<and> y \<le> bufz b then r = Return () \<and> region_set i (min x y) (max x y) b b'
    else b' = b \<and> (\<exists>e. r = Signal e)"
proof (cases "1 \<le> x \<and> x \<le> bufz b \<and> 1 \<le> y \<and> y \<le> bufz b")
  case True
  define s where "s = min x y"
  define e where "e = max x y"
  define v where "v = views b ! i"
  define p where "p = bufpos_clip_to_bounds s (pt v) e"
  define v' where "v' = v\<lparr>begv := s, zv := e, pt := p, markers := (if p = pt v then markers v
        else (markers v)[point_marker v := (markers v ! point_marker v)\<lparr>memind := bytind_to_memind b p\<rparr>])\<rparr>"
  have se: "1 \<le> s" "s \<le> e" "e \<le> bufz b" using True by (auto simp: s_def e_def)
  have mem: "bytind_to_memind (upd_view i f b) q = bytind_to_memind b q" for f q by (simp add: upd_view_def bytind_to_memind_def)
  have "(b', r) = (let b1 = upd_view i (\<lambda>v. v\<lparr>begv := s, zv := e\<rparr>) b;
      b2 = (if pt (views b1 ! i) < s then set_buffer_point i s b1 else b1);
      b3 = (if pt (views b2 ! i) > e then set_buffer_point i e b2 else b2) in (b3, Return ()))"
    using run [symmetric] True unfolding Fnarrow_to_region_def range_char_past s_def e_def by simp
  also have "\<dots> = (b\<lparr>views := (views b)[i := v']\<rparr>, Return ())"
    using i se(2) mem unfolding v'_def p_def v_def
    by (auto simp: Let_def upd_view_def set_buffer_point_def bufpos_clip_to_bounds_def bytind_to_memind_def)
  finally have res: "b' = b\<lparr>views := (views b)[i := v']\<rparr>" "r = Return ()" by simp_all
  have "region_set i s e b b'" unfolding res(1) by (rule region_setI [OF ok i se v_def p_def v'_def])
  then show ?thesis using True res(2) unfolding s_def e_def by simp
next
  case False
  then show ?thesis using run unfolding Fnarrow_to_region_def range_char_past by auto
qed

theorem Fnarrow_to_region_spec_witness:
  "region_set 0 3 4 sample_text (fst (Fnarrow_to_region 0 (Some 4) (Some 3) sample_text))"
  using Fnarrow_to_region_spec [OF sample_text_ok _ surjective_pairing, of 0 4 3] by (simp add: sample_text_simps)

text \<open>
  Restoring a restriction saved earlier, after the text has grown or shrunk, gives the
  region the same distance from both ends of the text as before, the whole text when it has become
  too short for that, and brings point into it; the text is not changed and the buffer is in order.
\<close>

theorem save_restriction_restore_spec:
  assumes ok0: "buffer_ok b0" and ok: "buffer_ok b" and i: "i < length (views b0)" "i < length (views b)"
    and hd: "head = begv (views b0 ! i) - 1" and tl: "tail = bufz b0 - zv (views b0 ! i)"
  shows "if head + tail \<le> bufz b - 1
    then region_set i (1 + head) (bufz b - tail) b (save_restriction_restore i (save_restriction_save i b0) b)
    else region_set i 1 (bufz b) b (save_restriction_restore i (save_restriction_save i b0) b)"
proof -
  define ht where "ht = (if head + tail > bufz b - 1 then (0, 0) else (head, tail))"
  define s where "s = 1 + fst ht"
  define e where "e = bufz b - snd ht"
  define v where "v = views b ! i"
  define p where "p = bufpos_clip_to_bounds s (pt v) e"
  define v' where "v' = v\<lparr>begv := s, zv := e, pt := p, markers := (if p = pt v then markers v
        else (markers v)[point_marker v := (markers v ! point_marker v)\<lparr>memind := bytind_to_memind b p\<rparr>])\<rparr>"
  have "1 \<le> begv (views b0 ! i)" "zv (views b0 ! i) \<le> bufz b0" "1 \<le> bufz b"
    using ok0 ok i by (auto simp: buffer_ok_def view_ok_def gap_ok_def)
  then have se: "1 \<le> s" "s \<le> e" "e \<le> bufz b" unfolding s_def e_def ht_def hd tl by auto
  have "save_restriction_restore i (save_restriction_save i b0) b = b\<lparr>views := (views b)[i := v']\<rparr>"
    using i(2) unfolding save_restriction_restore_def save_restriction_save_def v'_def p_def v_def s_def e_def ht_def hd tl
    by (auto simp: Let_def upd_view_def set_buffer_point_def bytind_to_memind_def split: prod.split)
  then have "region_set i s e b (save_restriction_restore i (save_restriction_save i b0) b)"
    using region_setI [OF ok i(2) se v_def p_def v'_def] by simp
  then show ?thesis unfolding s_def e_def ht_def by (auto split: if_splits)
qed

theorem save_restriction_restore_spec_witness:
  "region_set 0 1 7 (fst (buffer_insert_string_1 (\<lambda>_. False) 0 (- 1) ''xy'' False sample_text))
     (save_restriction_restore 0 (save_restriction_save 0 sample_text)
        (fst (buffer_insert_string_1 (\<lambda>_. False) 0 (- 1) ''xy'' False sample_text)))"
proof -
  let ?b = "fst (buffer_insert_string_1 (\<lambda>_. False) 0 (- 1) ''xy'' False sample_text)"
  have m: "modtime sample_text = 0" "begv (views sample_text ! 0) = 1" "zv (views sample_text ! 0) = 5" by code_simp+
  have b: "length (views ?b) = 1" "bufz ?b = 7" by code_simp+
  have "buffer_ok ?b" using edit_insert [OF _ _ sample_text_ok _ _ surjective_pairing, of 0] m by (simp add: sample_text_simps)
  then show ?thesis
    using save_restriction_restore_spec [OF sample_text_ok _ _ _ refl refl, of ?b 0] m b by (simp add: sample_text_simps)
qed

end
