(* ===== verification/Base64.thy ===== *)
theory Base64
  imports EditFns
begin

text \<open>
  The base64 functions of \<open>src/src/fns.c\<close>. Input is read from a stream of characters, which are bytes
  in a build without Mule; bit operations are those of the code, on natural numbers. The encoder
  writes into a block whose size is computed beforehand.
\<close>

unbundle bit_operations_syntax

section \<open>Tables\<close>

definition MIME_LINE_LENGTH :: nat where
  "MIME_LINE_LENGTH = 72"

definition base64_values :: string where
  "base64_values = ''ABCDEFGHIJKLMNOPQRSTUVWXYZabcdefghijklmnopqrstuvwxyz0123456789+/''"

definition base64_value_to_char :: "nat \<Rightarrow> char" where
  "base64_value_to_char v = base64_values ! v"

definition base64_char_values :: "int list" where
  "base64_char_values =
     [-1, -1, -1, -1, -1, -1, -1, -1, -1, -1,
      -1, -1, -1, -1, -1, -1, -1, -1, -1, -1,
      -1, -1, -1, -1, -1, -1, -1, -1, -1, -1,
      -1, -1, -1, -1, -1, -1, -1, -1, -1, -1,
      -1, -1, -1, 62, -1, -1, -1, 63, 52, 53,
      54, 55, 56, 57, 58, 59, 60, 61, -1, -1,
      -1, -1, -1, -1, -1, 0, 1, 2, 3, 4,
      5, 6, 7, 8, 9, 10, 11, 12, 13, 14,
      15, 16, 17, 18, 19, 20, 21, 22, 23, 24,
      25, -1, -1, -1, -1, -1, -1, 26, 27, 28,
      29, 30, 31, 32, 33, 34, 35, 36, 37, 38,
      39, 40, 41, 42, 43, 44, 45, 46, 47, 48,
      49, 50, 51, -1, -1, -1, -1, -1]"

definition base64_char_to_value :: "char \<Rightarrow> int" where
  "base64_char_to_value c = base64_char_values ! of_char c"

definition IS_BASE64 :: "char \<Rightarrow> bool" where
  "IS_BASE64 c \<longleftrightarrow> (of_char c :: nat) < 128 \<and> base64_char_to_value c \<ge> 0"

section \<open>Encoding\<close>

text \<open>Before a triplet: a line is broken when it is full.\<close>

definition line_wrap :: "bool \<Rightarrow> nat \<Rightarrow> string \<times> nat" where
  "line_wrap line_break counter =
     (if line_break
      then if counter < MIME_LINE_LENGTH div 4 then ([], counter + 1) else ([CHR 0x0A], 1)
      else ([], counter))"

text \<open>The loop; the result is what is written from \<open>e\<close> on.\<close>

fun base64_encode_loop :: "bool \<Rightarrow> nat \<Rightarrow> string \<Rightarrow> string" where
  "base64_encode_loop line_break counter [] = []"
| "base64_encode_loop line_break counter [c1] =
     (let (nl, counter') = line_wrap line_break counter; x = of_char c1
      in nl @ [base64_value_to_char (0x3f AND drop_bit 2 x),
               base64_value_to_char (push_bit 4 (0x03 AND x)), CHR ''='', CHR ''=''])"
| "base64_encode_loop line_break counter [c1, c2] =
     (let (nl, counter') = line_wrap line_break counter; x = of_char c1; y = of_char c2
      in nl @ [base64_value_to_char (0x3f AND drop_bit 2 x),
               base64_value_to_char (push_bit 4 (0x03 AND x) OR (0x0f AND drop_bit 4 y)),
               base64_value_to_char (push_bit 2 (0x0f AND y)), CHR ''=''])"
| "base64_encode_loop line_break counter (c1 # c2 # c3 # cs) =
     (let (nl, counter') = line_wrap line_break counter; x = of_char c1; y = of_char c2; z = of_char c3
      in nl @ [base64_value_to_char (0x3f AND drop_bit 2 x),
               base64_value_to_char (push_bit 4 (0x03 AND x) OR (0x0f AND drop_bit 4 y)),
               base64_value_to_char (push_bit 2 (0x0f AND y) OR (0x03 AND drop_bit 6 z)),
               base64_value_to_char (0x3f AND z)] @ base64_encode_loop line_break counter' cs)"

definition base64_encode_1 :: "string \<Rightarrow> bool \<Rightarrow> string" where
  "base64_encode_1 input line_break = base64_encode_loop line_break 0 input"

text \<open>The size of the block for encoding \<open>length\<close> characters.\<close>

definition base64_allength :: "nat \<Rightarrow> nat" where
  "base64_allength len = (let al = len + len div 3 + 1 in al + (al div MIME_LINE_LENGTH + 1 + 6))"

text \<open>\<open>None\<close> when the program aborts because the block was too small.\<close>

definition Fbase64_encode_string :: "string \<Rightarrow> bool \<Rightarrow> string option" where
  "Fbase64_encode_string str no_line_break =
     (let encoded = base64_encode_1 str (\<not> no_line_break)
      in if length encoded > base64_allength (length str) then None else Some encoded)"

section \<open>Decoding\<close>

text \<open>The next character of the alphabet or \<open>=\<close>, the rest and the position in the stream.\<close>

fun ADVANCE_INPUT_IGNORE_NONBASE64 :: "string \<Rightarrow> int \<Rightarrow> char option \<times> string \<times> int" where
  "ADVANCE_INPUT_IGNORE_NONBASE64 [] streampos = (None, [], streampos + 1)"
| "ADVANCE_INPUT_IGNORE_NONBASE64 (ec # cs) streampos =
     (if IS_BASE64 ec \<or> ec = CHR ''='' then (Some ec, cs, streampos + 1)
      else ADVANCE_INPUT_IGNORE_NONBASE64 cs (streampos + 1))"

lemma advance_shorter: "ADVANCE_INPUT_IGNORE_NONBASE64 cs p = (Some ec, cs', p') \<Longrightarrow> length cs' < length cs"
  by (induction cs p rule: ADVANCE_INPUT_IGNORE_NONBASE64.induct) (auto split: if_splits)

definition STORE_BYTE :: "nat \<Rightarrow> char" where
  "STORE_BYTE val = char_of (val mod 256)"

abbreviation premature_eof :: lisp_error where
  "premature_eof \<equiv> Error_string ''Premature EOF while decoding base64''"

abbreviation illegal_pad :: "int \<Rightarrow> lisp_error" where
  "illegal_pad p \<equiv> Simple_error ''Illegal `=' character while decoding base64'' [Lisp_Int p]"

abbreviation missing_pad :: "int \<Rightarrow> lisp_error" where
  "missing_pad p \<equiv> Simple_error ''Padding `=' expected but not found while decoding base64'' [Lisp_Int p]"

abbreviation char_bits :: "char \<Rightarrow> nat" where
  "char_bits c \<equiv> nat (base64_char_to_value c)"

text \<open>The loop; \<open>acc\<close> has the bytes stored so far, the last one first.\<close>

function base64_decode_loop :: "string \<Rightarrow> int \<Rightarrow> string \<Rightarrow> string lresult" where
  "base64_decode_loop input p0 acc =
     (case ADVANCE_INPUT_IGNORE_NONBASE64 input p0 of
        (None, cs, p) \<Rightarrow> Inr (rev acc)
      | (Some e1, cs1, p1) \<Rightarrow>
          if e1 = CHR ''='' then Inl (illegal_pad p1)
          else case ADVANCE_INPUT_IGNORE_NONBASE64 cs1 p1 of
                 (None, cs, p) \<Rightarrow> Inl premature_eof
               | (Some e2, cs2, p2) \<Rightarrow>
                   if e2 = CHR ''='' then Inl (illegal_pad p2)
                   else let value = push_bit 18 (char_bits e1) OR push_bit 12 (char_bits e2);
                            acc1 = STORE_BYTE (drop_bit 16 value) # acc
                        in case ADVANCE_INPUT_IGNORE_NONBASE64 cs2 p2 of
                             (None, cs, p) \<Rightarrow> Inl premature_eof
                           | (Some e3, cs3, p3) \<Rightarrow>
                               if e3 = CHR ''=''
                               then case ADVANCE_INPUT_IGNORE_NONBASE64 cs3 p3 of
                                      (None, cs, p) \<Rightarrow> Inl premature_eof
                                    | (Some e4, cs4, p4) \<Rightarrow>
                                        if e4 \<noteq> CHR ''='' then Inl (missing_pad p4)
                                        else base64_decode_loop cs4 p4 acc1
                               else let value' = value OR push_bit 6 (char_bits e3);
                                        acc2 = STORE_BYTE (0xff AND drop_bit 8 value') # acc1
                                    in case ADVANCE_INPUT_IGNORE_NONBASE64 cs3 p3 of
                                         (None, cs, p) \<Rightarrow> Inl premature_eof
                                       | (Some e4, cs4, p4) \<Rightarrow>
                                           if e4 = CHR ''='' then base64_decode_loop cs4 p4 acc2
                                           else base64_decode_loop cs4 p4 (STORE_BYTE (0xff AND (value' OR char_bits e4)) # acc2))"
  by pat_completeness auto
termination
  by (relation "measure (\<lambda>(input, p, acc). length input)") (auto dest!: advance_shorter [OF sym])

declare base64_decode_loop.simps [simp del]

definition base64_decode_1 :: "string \<Rightarrow> string lresult" where
  "base64_decode_1 input = base64_decode_loop input 0 []"

definition Fbase64_decode_string :: "string \<Rightarrow> string lresult option" where
  "Fbase64_decode_string str =
     (case base64_decode_1 str of
        Inl e \<Rightarrow> Some (Inl e)
      | Inr decoded \<Rightarrow> if length decoded > length str then None else Some (Inr decoded))"

section \<open>Regions\<close>

text \<open>
  The new text is put in before the old one is deleted. A region of a read-only buffer is
  refused at once; the abort for a block that is too small, which cannot happen, is left out here (the
  functions on strings have it). The two edits may be
  stopped by the quits \<open>quit 0\<close> and \<open>quit 1\<close>.
\<close>

definition replace_region :: "(nat \<Rightarrow> nat \<Rightarrow> bool) \<Rightarrow> nat \<Rightarrow> int \<Rightarrow> int \<Rightarrow> int \<Rightarrow> string \<Rightarrow> buffer_text \<Rightarrow> buffer_text \<times> int outcome" where
  "replace_region quit i begv' zv' old_pt str b =
     (let n = int (length str)
      in obind (buffer_insert_string_1 (quit 0) i begv' str False b) (\<lambda>_ b1.
           obind (buffer_delete_range (quit 1) i (begv' + n) (zv' + n) b1) (\<lambda>_ b2.
             (if old_pt \<ge> begv' \<and> old_pt < zv' then set_buffer_point i begv' b2 else b2, Return n))))"

definition Fbase64_encode_region ::
    "(nat \<Rightarrow> nat \<Rightarrow> bool) \<Rightarrow> nat \<Rightarrow> int option \<Rightarrow> int option \<Rightarrow> bool \<Rightarrow> buffer_text \<Rightarrow> buffer_text \<times> int outcome" where
  "Fbase64_encode_region quit i start fin no_line_break b =
     (case get_buffer_range_char i start fin no_flags b of
        Inl e \<Rightarrow> (b, Signal e)
      | Inr (begv', zv') \<Rightarrow>
          if barf_if_buffer_read_only b (views b ! i) then (b, Signal (Simple_error ''buffer-read-only'' []))
          else let encoded = base64_encode_1 (make_string_from_buffer b begv' (zv' - begv')) (\<not> no_line_break)
               in replace_region quit i begv' zv' (pt (views b ! i)) encoded b)"

definition Fbase64_decode_region ::
    "(nat \<Rightarrow> nat \<Rightarrow> bool) \<Rightarrow> nat \<Rightarrow> int option \<Rightarrow> int option \<Rightarrow> buffer_text \<Rightarrow> buffer_text \<times> int outcome" where
  "Fbase64_decode_region quit i start fin b =
     (case get_buffer_range_char i start fin no_flags b of
        Inl e \<Rightarrow> (b, Signal e)
      | Inr (begv', zv') \<Rightarrow>
          if barf_if_buffer_read_only b (views b ! i) then (b, Signal (Simple_error ''buffer-read-only'' []))
          else case base64_decode_1 (make_string_from_buffer b begv' (zv' - begv')) of
                 Inl e \<Rightarrow> (b, Signal e)
               | Inr decoded \<Rightarrow> replace_region quit i begv' zv' (pt (views b ! i)) decoded (set_buffer_point i begv' b))"

end
