(* ===== verification/Base64Region.thy ===== *)
theory Base64Region
  imports Base64Props UndoSpec
begin

text \<open>
  The base64 functions on regions: the text between two positions is replaced by its encoding or by
  what it encodes, on buffers that are ready for editing.
\<close>

section \<open>Replacement of a region\<close>

text \<open>
  Where the two edits leave point when \<open>n\<close> characters are put in front of the region from \<open>p\<close> to \<open>q\<close>
  and the region is deleted.
\<close>

definition replaced_point :: "int \<Rightarrow> int \<Rightarrow> int \<Rightarrow> int \<Rightarrow> int" where
  "replaced_point p q n x = (if x \<le> p then x else if x < q then p + n else x + n - (q - p))"

lemma replace_region_ok:
  assumes r: "ready i b" and pq: "1 \<le> p" "p \<le> q" "q \<le> bufz b" and quit: "\<forall>k k'. \<not> quit k k'"
    and size: "bufz b + bufz b div 8 + int (length str) + 2000 \<le> EMACS_INT_MAX"
  shows "\<exists>b'. replace_region quit i p q old str b = (b', Return (int (length str))) \<and> ready i b' \<and>
    buffer_string b' = take (nat (p - 1)) (buffer_string b) @ str @ drop (nat (q - 1)) (buffer_string b) \<and>
    pt (views b' ! i) = (if p \<le> old \<and> old < q then p else replaced_point p q (int (length str)) (pt (views b ! i)))"
proof -
  let ?n = "int (length str)" and ?s = "buffer_string b"
  note R = readyD [OF r]
  have ip: "insert_pos i p b = p" using R(5,6) pq by (simp add: insert_pos_def Let_def)
  from insert_ready [OF r _ size, of "quit 0" p] quit ip pq obtain b1 where
    b1: "buffer_insert_string_1 (quit 0) i p str False b = (b1, Return ?n)" "inserted b b1 i p str False False" "ready i b1" by auto
  have s1: "buffer_string b1 = take (nat (p - 1)) ?s @ str @ drop (nat (p - 1)) ?s"
    and pt1: "pt (views b1 ! i) = (if pt (views b ! i) > p then pt (views b ! i) + ?n else pt (views b ! i))"
    using b1(2) R(2) by (simp_all add: inserted_def Let_def)
  have "bufz b1 = bufz b + ?n" using readyD(7) [OF b1(3)] R(7) s1 pq by simp
  then obtain b2 where b2: "buffer_delete_range (quit 1) i (p + ?n) (q + ?n) b1 = (b2, Return ())"
      "deleted b1 b2 (p + ?n) (q + ?n)" "ready i b2"
    using delete_ready [OF b1(3), of "quit 1" "p + ?n" "q + ?n"] quit pq by auto
  have i1: "i < length (views b1)" using readyD(2) [OF b1(3)] .
  have "buffer_string b2 = take (nat (p + ?n - 1)) (buffer_string b1) @ drop (nat (q + ?n - 1)) (buffer_string b1)"
    and "pt (views b2 ! i) = del_pos (p + ?n) (q + ?n) (pt (views b1 ! i))"
    using b2(2) i1 by (simp_all add: deleted_def Let_def)
  moreover have "nat (p + ?n - 1) = nat (p - 1) + length str" "nat (q + ?n - 1) = nat (p - 1) + length str + nat (q - p)"
    using pq by simp_all
  moreover have "nat (p - 1) \<le> length ?s" "nat (q - p) + nat (p - 1) = nat (q - 1)" using pq R(7) by simp_all
  ultimately have s2: "buffer_string b2 = take (nat (p - 1)) ?s @ str @ drop (nat (q - 1)) ?s"
    and pt2: "pt (views b2 ! i) = replaced_point p q ?n (pt (views b ! i))"
    unfolding s1 pt1 using pq by (auto simp: del_pos_def replaced_point_def)
  have step: "replace_region quit i p q old str b = ((if p \<le> old \<and> old < q then set_buffer_point i p b2 else b2), Return ?n)"
    using b1(1) b2(1) by (simp add: replace_region_def obind_def)
  show ?thesis
  proof (cases "p \<le> old \<and> old < q")
    case True
    have z2: "p \<le> bufz b2" using readyD(7) [OF b2(3)] s2 pq R(7) by simp
    show ?thesis using step set_point_ready [OF b2(3) pq(1) z2] s2 True by simp
  next
    case False
    then show ?thesis using step b2(3) s2 pt2 by (simp only: if_False) blast
  qed
qed

section \<open>Encoding and decoding a region\<close>

text \<open>The part of the text between two positions.\<close>

definition region_text :: "int \<Rightarrow> int \<Rightarrow> string \<Rightarrow> string" where
  "region_text p q s = take (nat (q - p)) (drop (nat (p - 1)) s)"

lemma make_string_region:
  assumes "buffer_ok b" and "1 \<le> p" "p \<le> q" "q \<le> bufz b"
  shows "make_string_from_buffer b p (q - p) = region_text p q (buffer_string b)"
  using make_string_spec [of b p "q - p"] assms unfolding region_text_def buffer_ok_def by simp

lemma region_range:
  assumes "ready i b" and "1 \<le> p" "p \<le> q" "q \<le> bufz b"
  shows "get_buffer_range_char i (Some p) (Some q) no_flags b = Inr (p, q)" "\<not> barf_if_buffer_read_only b (views b ! i)"
  using readyD [OF assms(1)] assms(2-)
  by (auto simp: get_buffer_range_char_def get_buffer_pos_char_def no_flags_def barf_if_buffer_read_only_def writable_def Let_def)

lemma encode_region_ok:
  assumes r: "ready i b" and pq: "1 \<le> p" "p \<le> q" "q \<le> bufz b" and quit: "\<forall>k k'. \<not> quit k k'"
    and enc: "enc = base64_encode_1 (region_text p q (buffer_string b)) (\<not> no_line_break)"
    and size: "bufz b + bufz b div 8 + int (length enc) + 2000 \<le> EMACS_INT_MAX"
  shows "\<exists>b'. Fbase64_encode_region quit i (Some p) (Some q) no_line_break b = (b', Return (int (length enc))) \<and> ready i b' \<and>
    buffer_string b' = take (nat (p - 1)) (buffer_string b) @ enc @ drop (nat (q - 1)) (buffer_string b) \<and>
    pt (views b' ! i) = (let x = pt (views b ! i) in if p \<le> x \<and> x < q then p else replaced_point p q (int (length enc)) x)"
  using replace_region_ok [OF r pq quit size] region_range [OF r pq] make_string_region [OF readyD(1) [OF r] pq] enc
  unfolding Fbase64_encode_region_def Let_def by auto

lemma decode_region_ok:
  assumes r: "ready i b" and pq: "1 \<le> p" "p \<le> q" "q \<le> bufz b" and quit: "\<forall>k k'. \<not> quit k k'"
    and dec: "base64_decode_1 (region_text p q (buffer_string b)) = Inr d"
    and size: "bufz b + bufz b div 8 + int (length d) + 2000 \<le> EMACS_INT_MAX"
  shows "\<exists>b'. Fbase64_decode_region quit i (Some p) (Some q) b = (b', Return (int (length d))) \<and> ready i b' \<and>
    buffer_string b' = take (nat (p - 1)) (buffer_string b) @ d @ drop (nat (q - 1)) (buffer_string b) \<and> pt (views b' ! i) = p"
proof -
  have pz: "p \<le> bufz b" using pq by simp
  note S = set_point_ready [OF r pq(1) pz]
  have z: "bufz (set_buffer_point i p b) = bufz b" using readyD(7) [OF r] readyD(7) [OF S(1)] S(2) by simp
  from replace_region_ok [OF S(1), of p q quit d "pt (views b ! i)"] pq quit size z S(2,4)
  have "\<exists>b'. replace_region quit i p q (pt (views b ! i)) d (set_buffer_point i p b) = (b', Return (int (length d))) \<and> ready i b' \<and>
    buffer_string b' = take (nat (p - 1)) (buffer_string b) @ d @ drop (nat (q - 1)) (buffer_string b) \<and> pt (views b' ! i) = p"
    by (auto simp: replaced_point_def)
  then show ?thesis using region_range [OF r pq] make_string_region [OF readyD(1) [OF r] pq] dec
    unfolding Fbase64_decode_region_def Let_def by simp
qed



end
