(* ===== verification/GapArray.thy ===== *)
theory GapArray
  imports BufferText
begin

text \<open>
  Gap arrays (\<open>src/src/extents.c\<close>): an array of elements with a gap, and markers that move as elements
  are inserted and deleted. An array stands for the list of its elements; positions in it do not
  depend on where the gap is. Allocation is taken to succeed and leaves new memory unspecified.
\<close>

section \<open>Data and operations\<close>

text \<open>A marker is its address and its memory position; a null array is the empty one.\<close>

record 'a gap_array =
  array :: "'a list"
  gap :: nat
  gapsize :: nat
  numels :: nat
  ga_markers :: "(nat \<times> int) list"

definition GAP_ARRAY_ARRAY_TO_MEMORY_POS :: "'a gap_array \<Rightarrow> int \<Rightarrow> int" where
  "GAP_ARRAY_ARRAY_TO_MEMORY_POS ga pos = (if pos \<le> int (gap ga) then pos else pos + int (gapsize ga))"

definition GAP_ARRAY_MEMORY_TO_ARRAY_POS :: "'a gap_array \<Rightarrow> int \<Rightarrow> int" where
  "GAP_ARRAY_MEMORY_TO_ARRAY_POS ga pos = (if pos \<le> int (gap ga) then pos else pos - int (gapsize ga))"

definition GAP_ARRAY_EL :: "'a gap_array \<Rightarrow> nat \<Rightarrow> 'a" where
  "GAP_ARRAY_EL ga pos = (if pos < gap ga then array ga ! pos else array ga ! (pos + gapsize ga))"

definition gap_array_adjust_markers :: "int \<Rightarrow> int \<Rightarrow> int \<Rightarrow> 'a gap_array \<Rightarrow> 'a gap_array" where
  "gap_array_adjust_markers from to amount ga =
     ga\<lparr>ga_markers := map (\<lambda>(m, pos). (m, do_marker_adjustment pos from to amount)) (ga_markers ga)\<rparr>"

definition gap_array_move_gap :: "nat \<Rightarrow> 'a gap_array \<Rightarrow> 'a gap_array" where
  "gap_array_move_gap pos ga =
     (let g = gap ga; gs = gapsize ga;
          ga1 = (if pos < g
                 then gap_array_adjust_markers (int pos) (int g) (int gs)
                        (ga\<lparr>array := memmove (array ga) (pos + gs) pos (g - pos)\<rparr>)
                 else if pos > g
                 then gap_array_adjust_markers (int (g + gs)) (int (pos + gs)) (- int gs)
                        (ga\<lparr>array := memmove (array ga) g (g + gs) (pos - g)\<rparr>)
                 else ga)
      in ga1\<lparr>gap := pos\<rparr>)"

definition gap_array_make_gap :: "nat \<Rightarrow> 'a gap_array \<Rightarrow> 'a gap_array" where
  "gap_array_make_gap increment0 ga =
     (let increment = increment0 + 100 + numels ga div 8;
          real_gap_loc = gap ga; old_gap_size = gapsize ga;
          ga1 = ga\<lparr>array := array ga @ replicate increment undefined,
                   gap := numels ga + gapsize ga, gapsize := increment\<rparr>;
          ga2 = gap_array_move_gap (real_gap_loc + old_gap_size) ga1
      in ga2\<lparr>gapsize := gapsize ga2 + old_gap_size, gap := real_gap_loc\<rparr>)"

definition gap_array_insert_els :: "nat \<Rightarrow> 'a list \<Rightarrow> 'a gap_array \<Rightarrow> 'a gap_array" where
  "gap_array_insert_els pos els ga =
     (let n = length els;
          ga1 = (if gapsize ga < n then gap_array_make_gap (n - gapsize ga) ga else ga);
          ga2 = (if pos \<noteq> gap ga1 then gap_array_move_gap pos ga1 else ga1)
      in gap_array_adjust_markers (int pos - 1) (int pos) (int n)
           (ga2\<lparr>array := memcpy (array ga2) (gap ga2) els, gapsize := gapsize ga2 - n, gap := gap ga2 + n,
                numels := numels ga2 + n\<rparr>))"

definition gap_array_delete_els :: "nat \<Rightarrow> nat \<Rightarrow> 'a gap_array \<Rightarrow> 'a gap_array" where
  "gap_array_delete_els from numdel ga =
     (let to = from + numdel; gs = gapsize ga;
          ga1 = (if to < gap ga then gap_array_move_gap to ga else ga);
          ga2 = (if from > gap ga1 then gap_array_move_gap from ga1 else ga1);
          ga3 = gap_array_adjust_markers (int (to + gs)) (int (to + gs)) (- int numdel - int gs) ga2
      in ga3\<lparr>gapsize := gapsize ga3 + numdel, numels := numels ga3 - numdel, gap := from\<rparr>)"

text \<open>The address of a new marker is given.\<close>

definition gap_array_make_marker :: "nat \<Rightarrow> int \<Rightarrow> 'a gap_array \<Rightarrow> 'a gap_array" where
  "gap_array_make_marker m pos ga = ga\<lparr>ga_markers := (m, GAP_ARRAY_ARRAY_TO_MEMORY_POS ga pos) # ga_markers ga\<rparr>"

definition gap_array_delete_marker :: "nat \<Rightarrow> 'a gap_array \<Rightarrow> 'a gap_array" where
  "gap_array_delete_marker m ga =
     ga\<lparr>ga_markers := takeWhile (\<lambda>p. fst p \<noteq> m) (ga_markers ga) @ drop 1 (dropWhile (\<lambda>p. fst p \<noteq> m) (ga_markers ga))\<rparr>"

definition gap_array_move_marker :: "nat \<Rightarrow> int \<Rightarrow> 'a gap_array \<Rightarrow> 'a gap_array" where
  "gap_array_move_marker m pos ga =
     ga\<lparr>ga_markers := map (\<lambda>(m', p). (m', if m' = m then GAP_ARRAY_ARRAY_TO_MEMORY_POS ga pos else p)) (ga_markers ga)\<rparr>"

definition make_gap_array :: "'a gap_array" where
  "make_gap_array = \<lparr>array = [], gap = 0, gapsize = 0, numels = 0, ga_markers = []\<rparr>"

section \<open>Gap arrays as lists\<close>

definition ga_contents :: "'a gap_array \<Rightarrow> 'a list" where
  "ga_contents ga = take (gap ga) (array ga) @ drop (gap ga + gapsize ga) (array ga)"

definition ga_positions :: "'a gap_array \<Rightarrow> (nat \<times> int) list" where
  "ga_positions ga = map (\<lambda>(m, p). (m, GAP_ARRAY_MEMORY_TO_ARRAY_POS ga p)) (ga_markers ga)"

text \<open>No marker is inside the gap or at its end: one next to the gap is at its start.\<close>

definition ga_pos_ok :: "'a gap_array \<Rightarrow> int \<Rightarrow> bool" where
  "ga_pos_ok ga p \<longleftrightarrow> 0 \<le> p \<and> p \<le> int (numels ga + gapsize ga) \<and> (p \<le> int (gap ga) \<or> int (gap ga + gapsize ga) < p)"

definition ga_ok :: "'a gap_array \<Rightarrow> bool" where
  "ga_ok ga \<longleftrightarrow> length (array ga) = numels ga + gapsize ga \<and> gap ga \<le> numels ga \<and> (\<forall>(m, p) \<in> set (ga_markers ga). ga_pos_ok ga p)"

lemma length_ga_contents: "ga_ok ga \<Longrightarrow> length (ga_contents ga) = numels ga"
  by (simp add: ga_ok_def ga_contents_def)

lemma GAP_ARRAY_EL_nth: "ga_ok ga \<Longrightarrow> pos < numels ga \<Longrightarrow> GAP_ARRAY_EL ga pos = ga_contents ga ! pos"
  by (auto simp: ga_ok_def ga_contents_def GAP_ARRAY_EL_def nth_append add.commute)

text \<open>An array in order in three pieces.\<close>

lemma ga_pieces:
  assumes "ga_ok ga"
  obtains A G B where "array ga = A @ G @ B" "length A = gap ga" "length G = gapsize ga" "length (A @ B) = numels ga"
    "ga_contents ga = A @ B"
proof
  let ?a = "array ga"
  show "?a = take (gap ga) ?a @ take (gapsize ga) (drop (gap ga) ?a) @ drop (gap ga + gapsize ga) ?a"
    by (metis add.commute append_take_drop_id drop_drop)
qed (use assms in \<open>auto simp: ga_ok_def ga_contents_def min_def\<close>)

lemma ga_markersI:
  assumes "map f (ga_markers ga) = ga_markers ga'" and "\<And>m p. ga_pos_ok ga p \<Longrightarrow> (m, p) \<in> set (ga_markers ga) \<Longrightarrow>
    ga_pos_ok ga' (snd (f (m, p))) \<and> fst (f (m, p)) = m \<and>
    GAP_ARRAY_MEMORY_TO_ARRAY_POS ga' (snd (f (m, p))) = g (GAP_ARRAY_MEMORY_TO_ARRAY_POS ga p)"
    and "ga_ok ga"
  shows "\<forall>(m, p) \<in> set (ga_markers ga'). ga_pos_ok ga' p" and "ga_positions ga' = map (\<lambda>(m, p). (m, g p)) (ga_positions ga)"
proof -
  have "ga_pos_ok ga p" if "(m, p) \<in> set (ga_markers ga)" for m p using assms(3) that by (auto simp: ga_ok_def)
  then have *: "ga_pos_ok ga' (snd (f (m, p))) \<and> fst (f (m, p)) = m \<and>
    GAP_ARRAY_MEMORY_TO_ARRAY_POS ga' (snd (f (m, p))) = g (GAP_ARRAY_MEMORY_TO_ARRAY_POS ga p)" if "(m, p) \<in> set (ga_markers ga)" for m p
    using assms(2) that by blast
  then have "\<forall>x \<in> set (ga_markers ga). ga_pos_ok ga' (snd (f x))" by (auto simp: case_prod_beta)
  then have "\<forall>y \<in> set (ga_markers ga'). ga_pos_ok ga' (snd y)" by (simp flip: assms(1))
  then show "\<forall>(m, p) \<in> set (ga_markers ga'). ga_pos_ok ga' p" by (simp add: case_prod_beta)
  show "ga_positions ga' = map (\<lambda>(m, p). (m, g p)) (ga_positions ga)"
    using * by (auto simp: ga_positions_def case_prod_beta simp flip: assms(1))
qed

section \<open>The gap\<close>

lemma move_gap_ok:
  assumes ok: "ga_ok ga" and pos: "pos \<le> numels ga"
  shows "ga_ok (gap_array_move_gap pos ga)" "ga_contents (gap_array_move_gap pos ga) = ga_contents ga"
    "ga_positions (gap_array_move_gap pos ga) = ga_positions ga" "gap (gap_array_move_gap pos ga) = pos"
    "gapsize (gap_array_move_gap pos ga) = gapsize ga" "numels (gap_array_move_gap pos ga) = numels ga"
proof -
  obtain A G B where a: "array ga = A @ G @ B" "length A = gap ga" "length G = gapsize ga" "length (A @ B) = numels ga"
    "ga_contents ga = A @ B" using ga_pieces [OF ok] .
  define ga' where "ga' = gap_array_move_gap pos ga"
  have eqs: "gap ga' = pos" "gapsize ga' = gapsize ga" "numels ga' = numels ga"
    unfolding ga'_def by (simp_all add: gap_array_move_gap_def gap_array_adjust_markers_def Let_def)
  have g: "gap ga \<le> numels ga" using ok by (simp add: ga_ok_def)
  consider "pos = gap ga" | "pos < gap ga" | "gap ga < pos" by linarith
  then have "ga_ok ga' \<and> ga_contents ga' = A @ B \<and> ga_positions ga' = ga_positions ga"
  proof cases
    case 1
    then have "ga' = ga" unfolding ga'_def gap_array_move_gap_def by simp
    then show ?thesis using ok a(5) by simp
  next
    case 2
    define f where "f = (\<lambda>(m :: nat, p). (m, do_marker_adjustment p (int pos) (int (gap ga)) (int (gapsize ga))))"
    have m: "map f (ga_markers ga) = ga_markers ga'"
      using 2 unfolding ga'_def f_def by (simp add: gap_array_move_gap_def gap_array_adjust_markers_def Let_def)
    have "ga_pos_ok ga' (snd (f (m, p))) \<and> fst (f (m, p)) = m \<and>
      GAP_ARRAY_MEMORY_TO_ARRAY_POS ga' (snd (f (m, p))) = GAP_ARRAY_MEMORY_TO_ARRAY_POS ga p" if "ga_pos_ok ga p" for m p
      using that 2 eqs pos g by (auto simp: ga_pos_ok_def f_def GAP_ARRAY_MEMORY_TO_ARRAY_POS_def do_marker_adjustment_def Let_def)
    note M = ga_markersI [where g = "\<lambda>p. p", OF m this ok]
    have "array ga' = memmove (array ga) (pos + gapsize ga) pos (gap ga - pos)"
      using 2 unfolding ga'_def by (simp add: gap_array_move_gap_def gap_array_adjust_markers_def Let_def)
    also have "\<dots> = take pos A @ take (gapsize ga) (drop pos (A @ G)) @ drop pos A @ B"
      using a 2 by (simp add: memmove_def memcpy_def take_add add.commute)
    finally have arr: "array ga' = take pos A @ take (gapsize ga) (drop pos (A @ G)) @ drop pos A @ B" .
    have len: "length (take pos A @ take (gapsize ga) (drop pos (A @ G))) = pos + gapsize ga" using a 2 by simp
    have "drop (pos + gapsize ga) (array ga') = drop pos A @ B" unfolding arr using len by (metis append.assoc append_eq_conv_conj)
    then have "ga_contents ga' = A @ B" unfolding ga_contents_def eqs using arr a 2 by (simp add: min_def)
    moreover have "ga_ok ga'" unfolding ga_ok_def eqs using M(1) arr a 2 pos eqs by simp
    ultimately show ?thesis using M(2) by simp
  next
    case 3
    define f where "f = (\<lambda>(m :: nat, p). (m, do_marker_adjustment p (int (gap ga + gapsize ga)) (int (pos + gapsize ga)) (- int (gapsize ga))))"
    have m: "map f (ga_markers ga) = ga_markers ga'"
      using 3 unfolding ga'_def f_def by (simp add: gap_array_move_gap_def gap_array_adjust_markers_def Let_def)
    have "ga_pos_ok ga' (snd (f (m, p))) \<and> fst (f (m, p)) = m \<and>
      GAP_ARRAY_MEMORY_TO_ARRAY_POS ga' (snd (f (m, p))) = GAP_ARRAY_MEMORY_TO_ARRAY_POS ga p" if "ga_pos_ok ga p" for m p
      using that 3 eqs pos g by (auto simp: ga_pos_ok_def f_def GAP_ARRAY_MEMORY_TO_ARRAY_POS_def do_marker_adjustment_def Let_def)
    note M = ga_markersI [where g = "\<lambda>p. p", OF m this ok]
    let ?k = "pos - gap ga"
    have "array ga' = memmove (array ga) (gap ga) (gap ga + gapsize ga) ?k"
      using 3 unfolding ga'_def by (simp add: gap_array_move_gap_def gap_array_adjust_markers_def Let_def)
    also have "\<dots> = A @ take ?k B @ drop ?k (G @ B)"
      using a 3 pos by (simp add: memmove_def memcpy_def)
    finally have arr: "array ga' = A @ take ?k B @ drop ?k (G @ B)" .
    have "drop (pos + gapsize ga) (array ga') = drop (gapsize ga) (drop ?k (G @ B))"
      unfolding arr using a 3 pos by simp
    also have "\<dots> = drop ?k B" using a(3) by (metis add.commute append_eq_conv_conj drop_drop)
    finally have "ga_contents ga' = A @ B" unfolding ga_contents_def eqs using arr a 3 pos by simp
    moreover have "ga_ok ga'" unfolding ga_ok_def eqs using M(1) arr a 3 pos eqs by simp
    ultimately show ?thesis using M(2) by simp
  qed
  then show "ga_ok (gap_array_move_gap pos ga)" "ga_contents (gap_array_move_gap pos ga) = ga_contents ga"
    "ga_positions (gap_array_move_gap pos ga) = ga_positions ga" using a(5) unfolding ga'_def by simp_all
  show "gap (gap_array_move_gap pos ga) = pos" "gapsize (gap_array_move_gap pos ga) = gapsize ga"
    "numels (gap_array_move_gap pos ga) = numels ga" using eqs unfolding ga'_def by simp_all
qed

lemma make_gap_ok:
  assumes ok: "ga_ok ga"
  shows "ga_ok (gap_array_make_gap n ga)" "ga_contents (gap_array_make_gap n ga) = ga_contents ga"
    "ga_positions (gap_array_make_gap n ga) = ga_positions ga" "numels (gap_array_make_gap n ga) = numels ga"
    "gapsize ga + n \<le> gapsize (gap_array_make_gap n ga)"
proof -
  let ?inc = "n + 100 + numels ga div 8" and ?old = "gapsize ga"
  obtain A G B where a: "array ga = A @ G @ B" "length A = gap ga" "length G = gapsize ga" "length (A @ B) = numels ga"
    "ga_contents ga = A @ B" using ga_pieces [OF ok] .
  have g: "gap ga \<le> numels ga" using ok by (simp add: ga_ok_def)
  define ga1 where "ga1 = \<lparr>array = array ga @ replicate ?inc undefined, gap = numels ga + ?old, gapsize = ?inc,
    numels = numels ga + ?old, ga_markers = ga_markers ga\<rparr>"
  define ga2 where "ga2 = gap_array_move_gap (gap ga + ?old) ga1"
  have ok1: "ga_ok ga1" using ok by (auto simp: ga1_def ga_ok_def ga_pos_ok_def)
  have "gap ga + ?old \<le> numels ga1" using g by (simp add: ga1_def)
  note M = move_gap_ok [OF ok1 this, folded ga2_def]
  have c1: "ga_contents ga1 = A @ G @ B" "ga_positions ga1 = ga_markers ga"
    using ok a by (auto simp: ga1_def ga_contents_def ga_positions_def GAP_ARRAY_MEMORY_TO_ARRAY_POS_def ga_ok_def ga_pos_ok_def
        intro!: map_idI)
  define ga' where "ga' = gap_array_make_gap n ga"
  have ga': "ga' = ga2\<lparr>numels := numels ga, gapsize := gapsize ga2 + ?old, gap := gap ga\<rparr>"
    unfolding ga'_def ga2_def ga1_def gap_array_make_gap_def gap_array_move_gap_def gap_array_adjust_markers_def Let_def by simp
  have eqs: "array ga' = array ga2" "gap ga' = gap ga" "gapsize ga' = ?inc + ?old" "numels ga' = numels ga" "ga_markers ga' = ga_markers ga2"
    unfolding ga' using M(5) by (simp_all add: ga1_def)
  obtain A2 G2 B2 where b: "array ga2 = A2 @ G2 @ B2" "length A2 = gap ga + ?old" "length G2 = ?inc" "A2 @ B2 = A @ G @ B"
    using ga_pieces [OF M(1)] M(2,4,5) c1(1) by (metis ga1_def gap_array.select_convs(3))
  have A2: "A2 = A @ G" "B2 = B" using b(2,4) a(2,3) by (metis append.assoc append_eq_append_conv length_append)+
  have cont: "ga_contents ga' = A @ B" unfolding ga_contents_def eqs b(1) A2 using a(2,3) b(3) by simp
  have "ga_pos_ok ga' p \<and> GAP_ARRAY_MEMORY_TO_ARRAY_POS ga' p = GAP_ARRAY_MEMORY_TO_ARRAY_POS ga (GAP_ARRAY_MEMORY_TO_ARRAY_POS ga2 p)"
    if mp: "(m, p) \<in> set (ga_markers ga2)" for m p
  proof -
    have "ga_pos_ok ga2 p" using M(1) mp by (auto simp: ga_ok_def)
    moreover have "(m, GAP_ARRAY_MEMORY_TO_ARRAY_POS ga2 p) \<in> set (ga_markers ga)"
      using M(3) c1(2) mp unfolding ga_positions_def by (metis (mono_tags, lifting) case_prod_conv image_eqI list.set_map)
    then have "ga_pos_ok ga (GAP_ARRAY_MEMORY_TO_ARRAY_POS ga2 p)" using ok by (auto simp: ga_ok_def)
    ultimately show ?thesis using M(4-6) g
      by (auto simp: ga_pos_ok_def GAP_ARRAY_MEMORY_TO_ARRAY_POS_def eqs ga1_def split: if_splits)
  qed
  note P = this
  have "ga_positions ga' = map (\<lambda>(m, p). (m, GAP_ARRAY_MEMORY_TO_ARRAY_POS ga p)) (ga_positions ga2)"
    using P by (auto simp: ga_positions_def eqs)
  then have pos: "ga_positions ga' = ga_positions ga" unfolding M(3) c1(2) ga_positions_def [of ga] .
  have "length (array ga') = numels ga + (?inc + ?old)" unfolding eqs b(1) A2 using a b(3) by simp
  then have "ga_ok ga'" unfolding ga_ok_def using P eqs g by auto
  then show "ga_ok (gap_array_make_gap n ga)" "ga_contents (gap_array_make_gap n ga) = ga_contents ga"
    "ga_positions (gap_array_make_gap n ga) = ga_positions ga" "numels (gap_array_make_gap n ga) = numels ga"
    "gapsize ga + n \<le> gapsize (gap_array_make_gap n ga)"
    using cont pos a(5) eqs unfolding ga'_def by simp_all
qed

section \<open>Insertion and deletion\<close>

definition ga_ins_pos :: "nat \<Rightarrow> nat \<Rightarrow> int \<Rightarrow> int" where
  "ga_ins_pos pos n p = (if p \<ge> int pos then p + int n else p)"

definition ga_del_pos :: "nat \<Rightarrow> nat \<Rightarrow> int \<Rightarrow> int" where
  "ga_del_pos from n p = (if p \<le> int from then p else if p < int (from + n) then int from else p - int n)"

lemma insert_els_ok:
  assumes ok: "ga_ok ga" and pos: "pos \<le> numels ga"
  shows "ga_ok (gap_array_insert_els pos els ga)"
    "ga_contents (gap_array_insert_els pos els ga) = list_insert_at (ga_contents ga) pos els"
    "ga_positions (gap_array_insert_els pos els ga) = map (\<lambda>(m, p). (m, ga_ins_pos pos (length els) p)) (ga_positions ga)"
    "numels (gap_array_insert_els pos els ga) = numels ga + length els"
proof -
  let ?n = "length els"
  define ga1 where "ga1 = (if gapsize ga < ?n then gap_array_make_gap (?n - gapsize ga) ga else ga)"
  have 1: "ga_ok ga1" "ga_contents ga1 = ga_contents ga" "ga_positions ga1 = ga_positions ga" "numels ga1 = numels ga" "?n \<le> gapsize ga1"
    using make_gap_ok [OF ok, of "?n - gapsize ga"] ok by (auto simp: ga1_def)
  define ga2 where "ga2 = (if pos \<noteq> gap ga1 then gap_array_move_gap pos ga1 else ga1)"
  have 2: "ga_ok ga2" "ga_contents ga2 = ga_contents ga" "ga_positions ga2 = ga_positions ga" "numels ga2 = numels ga" "?n \<le> gapsize ga2"
    "gap ga2 = pos" using move_gap_ok [OF 1(1), of pos] 1 pos by (auto simp: ga2_def)
  define ga' where "ga' = gap_array_insert_els pos els ga"
  define f where "f = (\<lambda>(m :: nat, p). (m, do_marker_adjustment p (int pos - 1) (int pos) (int ?n)))"
  have eqs: "array ga' = memcpy (array ga2) pos els" "gap ga' = pos + ?n" "gapsize ga' = gapsize ga2 - ?n" "numels ga' = numels ga + ?n"
    "map f (ga_markers ga2) = ga_markers ga'"
    unfolding ga'_def gap_array_insert_els_def Let_def ga1_def [symmetric] ga2_def [symmetric] gap_array_adjust_markers_def f_def
    using 2 by simp_all
  obtain A G B where a: "array ga2 = A @ G @ B" "length A = pos" "length G = gapsize ga2" "length (A @ B) = numels ga" "ga_contents ga = A @ B"
    using ga_pieces [OF 2(1)] 2 by metis
  have arr: "array ga' = A @ els @ drop ?n G @ B" unfolding eqs memcpy_def a(1) using a 2(5) by simp
  have "ga_pos_ok ga' (snd (f (m, p))) \<and> fst (f (m, p)) = m \<and>
      GAP_ARRAY_MEMORY_TO_ARRAY_POS ga' (snd (f (m, p))) = ga_ins_pos pos ?n (GAP_ARRAY_MEMORY_TO_ARRAY_POS ga2 p)" if "ga_pos_ok ga2 p" for m p
    using that 2 eqs(2-4) pos by (auto simp: ga_pos_ok_def f_def GAP_ARRAY_MEMORY_TO_ARRAY_POS_def do_marker_adjustment_def ga_ins_pos_def Let_def)
  note M = ga_markersI [where g = "ga_ins_pos pos ?n", OF eqs(5) this 2(1)]
  show "ga_contents (gap_array_insert_els pos els ga) = list_insert_at (ga_contents ga) pos els"
    using a 2(5) arr eqs unfolding ga'_def [symmetric] ga_contents_def [of ga'] list_insert_at_def a(5) by simp
  show "ga_positions (gap_array_insert_els pos els ga) = map (\<lambda>(m, p). (m, ga_ins_pos pos ?n p)) (ga_positions ga)"
    using M(2) 2(3) unfolding ga'_def by simp
  show "ga_ok (gap_array_insert_els pos els ga)" unfolding ga'_def [symmetric] ga_ok_def using M(1) arr a eqs pos 2(5) by simp
  show "numels (gap_array_insert_els pos els ga) = numels ga + ?n" using eqs(4) unfolding ga'_def .
qed

lemma delete_els_ok:
  assumes ok: "ga_ok ga" and n: "from + n \<le> numels ga"
  shows "ga_ok (gap_array_delete_els from n ga)"
    "ga_contents (gap_array_delete_els from n ga) = list_delete_at (ga_contents ga) from n"
    "ga_positions (gap_array_delete_els from n ga) = map (\<lambda>(m, p). (m, ga_del_pos from n p)) (ga_positions ga)"
    "numels (gap_array_delete_els from n ga) = numels ga - n"
proof -
  let ?to = "from + n"
  define ga1 where "ga1 = (if ?to < gap ga then gap_array_move_gap ?to ga else ga)"
  have 1: "ga_ok ga1" "ga_contents ga1 = ga_contents ga" "ga_positions ga1 = ga_positions ga" "numels ga1 = numels ga"
    "gapsize ga1 = gapsize ga" "gap ga1 \<le> ?to"
    using move_gap_ok [OF ok n] ok by (auto simp: ga1_def)
  define ga2 where "ga2 = (if from > gap ga1 then gap_array_move_gap from ga1 else ga1)"
  have 2: "ga_ok ga2" "ga_contents ga2 = ga_contents ga" "ga_positions ga2 = ga_positions ga" "numels ga2 = numels ga"
    "gapsize ga2 = gapsize ga" "gap ga2 \<le> ?to" "from \<le> gap ga2" using move_gap_ok [OF 1(1), of "from"] 1 n by (auto simp: ga2_def)
  define ga' where "ga' = gap_array_delete_els from n ga"
  define f where "f = (\<lambda>(m :: nat, p). (m, do_marker_adjustment p (int (?to + gapsize ga)) (int (?to + gapsize ga)) (- int n - int (gapsize ga))))"
  have eqs: "array ga' = array ga2" "gap ga' = from" "gapsize ga' = gapsize ga + n" "numels ga' = numels ga - n"
    "map f (ga_markers ga2) = ga_markers ga'"
    unfolding ga'_def gap_array_delete_els_def Let_def ga1_def [symmetric] ga2_def [symmetric] gap_array_adjust_markers_def f_def
    using 2 by simp_all
  obtain A G B where a: "array ga2 = A @ G @ B" "length A = gap ga2" "length G = gapsize ga" "length (A @ B) = numels ga" "ga_contents ga = A @ B"
    using ga_pieces [OF 2(1)] 2 by metis
  have "ga_pos_ok ga' (snd (f (m, p))) \<and> fst (f (m, p)) = m \<and>
      GAP_ARRAY_MEMORY_TO_ARRAY_POS ga' (snd (f (m, p))) = ga_del_pos from n (GAP_ARRAY_MEMORY_TO_ARRAY_POS ga2 p)" if "ga_pos_ok ga2 p" for m p
    using that 2(4-7) eqs(2-4) n by (auto simp: ga_pos_ok_def f_def GAP_ARRAY_MEMORY_TO_ARRAY_POS_def do_marker_adjustment_def ga_del_pos_def Let_def)
  note M = ga_markersI [where g = "ga_del_pos from n", OF eqs(5) this 2(1)]
  have "take from (array ga2) = take from A" "drop (from + (gapsize ga + n)) (array ga2) = drop (?to - gap ga2) B"
    using a 2(6,7) by simp_all
  then have "ga_contents ga' = take from A @ drop (?to - gap ga2) B" unfolding ga_contents_def eqs by simp
  then show "ga_contents (gap_array_delete_els from n ga) = list_delete_at (ga_contents ga) from n"
    using a 2(6,7) unfolding ga'_def [symmetric] list_delete_at_def a(5) by simp
  show "ga_positions (gap_array_delete_els from n ga) = map (\<lambda>(m, p). (m, ga_del_pos from n p)) (ga_positions ga)"
    using M(2) 2(3) unfolding ga'_def by simp
  show "ga_ok (gap_array_delete_els from n ga)" unfolding ga'_def [symmetric] ga_ok_def using M(1) a eqs n by simp
  show "numels (gap_array_delete_els from n ga) = numels ga - n" using eqs(4) unfolding ga'_def .
qed

text \<open>
  Property C21: inserting elements into a gap array and deleting elements from it are the insertion and the
  deletion on the list it stands for, wherever the gap is and whether or not the array has to grow; a
  marker behind the place moves along, and a marker inside what is deleted ends up at its start.
\<close>

theorem gap_array_els_spec:
  assumes "ga_ok ga" and "pos \<le> numels ga" and "bg + n \<le> numels ga"
  shows "ga_ok (gap_array_insert_els pos els ga) \<and>
      ga_contents (gap_array_insert_els pos els ga) = list_insert_at (ga_contents ga) pos els \<and>
      ga_positions (gap_array_insert_els pos els ga) = map (\<lambda>(m, p). (m, ga_ins_pos pos (length els) p)) (ga_positions ga) \<and>
      ga_ok (gap_array_delete_els bg n ga) \<and>
      ga_contents (gap_array_delete_els bg n ga) = list_delete_at (ga_contents ga) bg n \<and>
      ga_positions (gap_array_delete_els bg n ga) = map (\<lambda>(m, p). (m, ga_del_pos bg n p)) (ga_positions ga)"
  using insert_els_ok [OF assms(1,2)] delete_els_ok [OF assms(1,3)] by blast

definition sample_gap_array :: "nat gap_array" where
  "sample_gap_array = \<lparr>array = [1, 2, 0, 0, 3], gap = 2, gapsize = 2, numels = 3, ga_markers = [(7, 5), (8, 2)]\<rparr>"

lemma sample_gap_array_ok: "ga_ok sample_gap_array"
  by (simp add: sample_gap_array_def ga_ok_def ga_pos_ok_def)

theorem gap_array_els_spec_witness:
  "ga_contents (gap_array_insert_els 1 [10, 11, 12] sample_gap_array) = [1, 10, 11, 12, 2, 3] \<and>
   ga_contents (gap_array_delete_els 0 2 sample_gap_array) = [3]"
proof -
  have c: "ga_contents sample_gap_array = [1, 2, 3]" "numels sample_gap_array = 3"
    by (simp_all add: sample_gap_array_def ga_contents_def)
  show ?thesis
    using gap_array_els_spec [OF sample_gap_array_ok, of 1 0 2 "[10, 11, 12]"] c
    by (simp add: list_insert_at_def list_delete_at_def)
qed

section \<open>Markers\<close>

lemma ga_new_pos:
  "ga_ok ga \<Longrightarrow> 0 \<le> pos \<Longrightarrow> pos \<le> int (numels ga) \<Longrightarrow>
   ga_pos_ok ga (GAP_ARRAY_ARRAY_TO_MEMORY_POS ga pos) \<and>
   GAP_ARRAY_MEMORY_TO_ARRAY_POS ga (GAP_ARRAY_ARRAY_TO_MEMORY_POS ga pos) = pos"
  by (auto simp: ga_ok_def ga_pos_ok_def GAP_ARRAY_ARRAY_TO_MEMORY_POS_def GAP_ARRAY_MEMORY_TO_ARRAY_POS_def)

lemma ga_positions_upd:
  "ga_positions (ga\<lparr>ga_markers := ms\<rparr>) = map (\<lambda>(m, p). (m, GAP_ARRAY_MEMORY_TO_ARRAY_POS ga p)) ms"
  "ga_ok (ga\<lparr>ga_markers := ms\<rparr>) \<longleftrightarrow> length (array ga) = numels ga + gapsize ga \<and> gap ga \<le> numels ga \<and> (\<forall>(m, p) \<in> set ms. ga_pos_ok ga p)"
  "ga_contents (ga\<lparr>ga_markers := ms\<rparr>) = ga_contents ga"
  by (auto simp: ga_positions_def GAP_ARRAY_MEMORY_TO_ARRAY_POS_def ga_ok_def ga_pos_ok_def ga_contents_def)

lemma markers_ok:
  assumes ok: "ga_ok ga" and pos: "0 \<le> pos" "pos \<le> int (numels ga)"
  shows "ga_ok (gap_array_make_marker m pos ga)" "ga_positions (gap_array_make_marker m pos ga) = (m, pos) # ga_positions ga"
    "ga_ok (gap_array_move_marker m pos ga)"
    "ga_positions (gap_array_move_marker m pos ga) = map (\<lambda>(m', p). (m', if m' = m then pos else p)) (ga_positions ga)"
  using ga_new_pos [OF ok pos] ok unfolding gap_array_make_marker_def gap_array_move_marker_def ga_positions_upd
  by (auto simp: ga_ok_def ga_positions_def)

lemma delete_marker_ok:
  assumes ok: "ga_ok ga"
  shows "ga_ok (gap_array_delete_marker m ga)"
    "ga_positions (gap_array_delete_marker m ga) = takeWhile (\<lambda>p. fst p \<noteq> m) (ga_positions ga) @ drop 1 (dropWhile (\<lambda>p. fst p \<noteq> m) (ga_positions ga))"
  using ok unfolding gap_array_delete_marker_def ga_positions_upd
  by (auto simp: ga_ok_def ga_positions_def takeWhile_map dropWhile_map drop_map comp_def case_prod_beta
      dest!: set_takeWhileD in_set_dropD set_dropWhileD)

section \<open>Ordered arrays\<close>

text \<open>
  What the users of an array of elements rely on: single elements put in and taken out behave as on
  lists. The lemmas on arrays kept in an order follow from this.
\<close>

locale element_array =
  fixes ok :: "'arr \<Rightarrow> bool" and els :: "'arr \<Rightarrow> 'e list" and ins :: "nat \<Rightarrow> 'e \<Rightarrow> 'arr \<Rightarrow> 'arr" and del :: "nat \<Rightarrow> 'arr \<Rightarrow> 'arr"
  assumes ins_ok: "ok a \<Longrightarrow> k \<le> length (els a) \<Longrightarrow> ok (ins k x a)"
    and ins_els: "ok a \<Longrightarrow> k \<le> length (els a) \<Longrightarrow> els (ins k x a) = list_insert_at (els a) k [x]"
    and del_ok: "ok a \<Longrightarrow> k < length (els a) \<Longrightarrow> ok (del k a)"
    and del_els: "ok a \<Longrightarrow> k < length (els a) \<Longrightarrow> els (del k a) = list_delete_at (els a) k 1"
begin

definition ordered :: "('e \<Rightarrow> 'e \<Rightarrow> bool) \<Rightarrow> 'arr \<Rightarrow> bool" where
  "ordered le a \<longleftrightarrow> ok a \<and> sorted_wrt le (els a) \<and> distinct (els a)"

lemma insert_ordered:
  assumes o: "ordered le a" and k: "k \<le> length (els a)" and x: "x \<notin> set (els a)"
    and below: "\<forall>i < k. le (els a ! i) x" and above: "\<forall>i. k \<le> i \<longrightarrow> i < length (els a) \<longrightarrow> le x (els a ! i)"
  shows "ordered le (ins k x a)" "set (els (ins k x a)) = insert x (set (els a))"
proof -
  let ?t = "take k (els a)" and ?d = "drop k (els a)"
  have e: "els (ins k x a) = ?t @ x # ?d" using ins_els k o by (simp add: ordered_def list_insert_at_def)
  have "set (els a) = set ?t \<union> set ?d" by (metis append_take_drop_id set_append)
  then show "set (els (ins k x a)) = insert x (set (els a))" unfolding e by auto
  have "\<forall>y \<in> set ?t. le y x" using below by (auto simp: in_set_conv_nth)
  moreover have "\<forall>y \<in> set ?d. le x y" using above by (auto simp: in_set_conv_nth)
  moreover have "sorted_wrt le (?t @ ?d)" "distinct (?t @ ?d)" using o unfolding ordered_def by simp_all
  moreover have "x \<notin> set ?t" "x \<notin> set ?d" using x by (auto dest: in_set_takeD in_set_dropD)
  ultimately have "sorted_wrt le (?t @ x # ?d)" "distinct (?t @ x # ?d)" unfolding sorted_wrt_append distinct_append by auto
  then show "ordered le (ins k x a)" using ins_ok k o unfolding ordered_def e by blast
qed

lemma delete_ordered:
  assumes o: "ordered le a" and k: "k < length (els a)"
  shows "ordered le (del k a)" "set (els (del k a)) = set (els a) - {els a ! k}" "length (els (del k a)) = length (els a) - 1"
proof -
  let ?t = "take k (els a)" and ?d = "drop (Suc k) (els a)"
  have e: "els (del k a) = ?t @ ?d" using del_els k o by (simp add: ordered_def list_delete_at_def)
  have split: "els a = ?t @ els a ! k # ?d" using id_take_nth_drop [OF k] .
  have "sorted_wrt le (?t @ els a ! k # ?d)" "distinct (?t @ els a ! k # ?d)" using o split unfolding ordered_def by metis+
  then have s: "sorted_wrt le (?t @ ?d)" "distinct (?t @ ?d)" "els a ! k \<notin> set (?t @ ?d)" unfolding sorted_wrt_append by auto
  then show "ordered le (del k a)" using del_ok k o unfolding ordered_def e by blast
  show "set (els (del k a)) = set (els a) - {els a ! k}" unfolding e using s(3) arg_cong [OF split, of set] by auto
  show "length (els (del k a)) = length (els a) - 1" unfolding e using k by simp
qed

end

interpretation gaps: element_array ga_ok ga_contents "\<lambda>k x. gap_array_insert_els k [x]" "\<lambda>k. gap_array_delete_els k 1"
  by unfold_locales (simp_all add: length_ga_contents insert_els_ok delete_els_ok)

end
