(* ===== verification/ExtentList.thy ===== *)
theory ExtentList
  imports GapArray
begin

text \<open>
  Extent lists (\<open>src/src/extents.c\<close>): the extents of a buffer in two gap arrays, one in the display order
  (by start) and one in the e-order (by end). Extents are objects with changeable ends; a list holds
  their addresses and the store \<open>st\<close> maps these to the objects. Assertions are left out: the lemmas
  show when they hold.
\<close>

section \<open>Extents and the two orders\<close>

record extent =
  extent_start :: int
  extent_end :: int
  extent_start_open :: bool
  extent_end_open :: bool
  extent_internal :: bool
  extent_detachable :: bool

type_synonym extent_store = "nat \<Rightarrow> extent"

definition extent_endpoint :: "extent \<Rightarrow> bool \<Rightarrow> int" where
  "extent_endpoint e endp = (if endp then extent_end e else extent_start e)"

definition extent_detached_p :: "extent \<Rightarrow> bool" where
  "extent_detached_p e \<longleftrightarrow> extent_start e < 0"

definition EXTENT_LESS :: "extent \<Rightarrow> extent \<Rightarrow> bool" where
  "EXTENT_LESS e1 e2 \<longleftrightarrow> extent_start e1 < extent_start e2 \<or> extent_start e1 = extent_start e2 \<and> extent_end e1 > extent_end e2"

definition EXTENT_LESS_EQUAL :: "extent \<Rightarrow> extent \<Rightarrow> bool" where
  "EXTENT_LESS_EQUAL e1 e2 \<longleftrightarrow> extent_start e1 < extent_start e2 \<or> extent_start e1 = extent_start e2 \<and> extent_end e1 \<ge> extent_end e2"

definition EXTENT_EQUAL :: "extent \<Rightarrow> extent \<Rightarrow> bool" where
  "EXTENT_EQUAL e1 e2 \<longleftrightarrow> extent_start e1 = extent_start e2 \<and> extent_end e1 = extent_end e2"

definition EXTENT_E_LESS :: "extent \<Rightarrow> extent \<Rightarrow> bool" where
  "EXTENT_E_LESS e1 e2 \<longleftrightarrow> extent_end e1 < extent_end e2 \<or> extent_end e1 = extent_end e2 \<and> extent_start e1 > extent_start e2"

definition EXTENT_E_LESS_EQUAL :: "extent \<Rightarrow> extent \<Rightarrow> bool" where
  "EXTENT_E_LESS_EQUAL e1 e2 \<longleftrightarrow> extent_end e1 < extent_end e2 \<or> extent_end e1 = extent_end e2 \<and> extent_start e1 \<ge> extent_start e2"

definition extent_less :: "bool \<Rightarrow> extent \<Rightarrow> extent \<Rightarrow> bool" where
  "extent_less endp e1 e2 = (if endp then EXTENT_E_LESS e1 e2 else EXTENT_LESS e1 e2)"

definition extent_less_equal :: "bool \<Rightarrow> extent \<Rightarrow> extent \<Rightarrow> bool" where
  "extent_less_equal endp e1 e2 = (if endp then EXTENT_E_LESS_EQUAL e1 e2 else EXTENT_LESS_EQUAL e1 e2)"

lemmas extent_orders = extent_less_def extent_less_equal_def EXTENT_LESS_def EXTENT_LESS_EQUAL_def EXTENT_EQUAL_def
  EXTENT_E_LESS_def EXTENT_E_LESS_EQUAL_def

section \<open>Operations\<close>

text \<open>Of the markers of a list only which array they are in is kept here; their positions are there.\<close>

record extent_list =
  el_start :: "nat gap_array"
  el_end :: "nat gap_array"
  el_markers :: "(nat \<times> bool) list"

definition el_array :: "bool \<Rightarrow> extent_list \<Rightarrow> nat gap_array" where
  "el_array endp el = (if endp then el_end el else el_start el)"

definition extent_list_num_els :: "extent_list \<Rightarrow> nat" where
  "extent_list_num_els el = numels (el_start el)"

text \<open>
  The binary search of \<open>extent_list_locate\<close>. The loop runs while \<open>left != right\<close>; \<open>left\<close> never gets
  past \<open>right\<close>.
\<close>

function extent_bisect :: "(nat \<Rightarrow> bool) \<Rightarrow> nat \<Rightarrow> nat \<Rightarrow> nat" where
  "extent_bisect lt left right =
     (if left < right
      then let newpos = (left + right) div 2
           in if lt newpos then extent_bisect lt (newpos + 1) right else extent_bisect lt left newpos
      else left)"
  by pat_completeness auto
termination
  by (relation "measure (\<lambda>(lt, left, right). right - left)") auto

declare extent_bisect.simps [simp del]

text \<open>The loop over all equal extents that looks for the extent itself.\<close>

function extent_scan :: "extent_store \<Rightarrow> nat gap_array \<Rightarrow> nat option \<Rightarrow> extent \<Rightarrow> nat \<Rightarrow> nat \<times> bool" where
  "extent_scan st ga self e foundpos =
     (if foundpos < numels ga
      then let e' = GAP_ARRAY_EL ga foundpos
           in if Some e' = self then (foundpos, True)
              else if \<not> EXTENT_EQUAL (st e') e then (foundpos, False)
              else extent_scan st ga self e (foundpos + 1)
      else (foundpos, False))"
  by pat_completeness auto
termination
  by (relation "measure (\<lambda>(st, ga, self, e, foundpos). numels ga - foundpos)") auto

declare extent_scan.simps [simp del]

text \<open>
  The extent is given by its address and its value; the fake extent of \<open>extent_list_locate_from_pos\<close>
  has no address.
\<close>

definition extent_list_locate :: "extent_store \<Rightarrow> extent_list \<Rightarrow> nat option \<Rightarrow> extent \<Rightarrow> bool \<Rightarrow> nat \<times> bool" where
  "extent_list_locate st el self e endp =
     (let ga = el_array endp el;
          left = extent_bisect (\<lambda>k. extent_less endp (st (GAP_ARRAY_EL ga k)) e) 0 (numels ga);
          (foundpos, found) = extent_scan st ga self e left
      in if found \<or> \<not> endp then (foundpos, found) else (left, found))"

definition fake_extent :: "int \<Rightarrow> extent" where
  "fake_extent pos = \<lparr>extent_start = pos, extent_end = pos, extent_start_open = False, extent_end_open = False,
     extent_internal = False, extent_detachable = False\<rparr>"

definition extent_list_locate_from_pos :: "extent_store \<Rightarrow> extent_list \<Rightarrow> int \<Rightarrow> bool \<Rightarrow> nat" where
  "extent_list_locate_from_pos st el pos endp =
     fst (extent_list_locate st el None (fake_extent (if endp then pos else pos - 1)) endp)"

definition extent_list_at :: "extent_list \<Rightarrow> nat \<Rightarrow> bool \<Rightarrow> nat" where
  "extent_list_at el pos endp = GAP_ARRAY_EL (el_array endp el) pos"

definition extent_list_insert :: "extent_store \<Rightarrow> nat \<Rightarrow> extent_list \<Rightarrow> extent_list" where
  "extent_list_insert st e el =
     (let pos = fst (extent_list_locate st el (Some e) (st e) False);
          el1 = el\<lparr>el_start := gap_array_insert_els pos [e] (el_start el)\<rparr>;
          pos1 = fst (extent_list_locate st el1 (Some e) (st e) True)
      in el1\<lparr>el_end := gap_array_insert_els pos1 [e] (el_end el1)\<rparr>)"

definition extent_list_delete :: "extent_store \<Rightarrow> nat \<Rightarrow> extent_list \<Rightarrow> extent_list" where
  "extent_list_delete st e el =
     (let pos = fst (extent_list_locate st el (Some e) (st e) False);
          el1 = el\<lparr>el_start := gap_array_delete_els pos 1 (el_start el)\<rparr>;
          pos1 = fst (extent_list_locate st el1 (Some e) (st e) True)
      in el1\<lparr>el_end := gap_array_delete_els pos1 1 (el_end el1)\<rparr>)"

definition extent_list_delete_all :: "extent_list \<Rightarrow> extent_list" where
  "extent_list_delete_all el =
     (let el1 = el\<lparr>el_start := gap_array_delete_els 0 (numels (el_start el)) (el_start el)\<rparr>
      in el1\<lparr>el_end := gap_array_delete_els 0 (numels (el_end el1)) (el_end el1)\<rparr>)"

definition allocate_extent_list :: extent_list where
  "allocate_extent_list = \<lparr>el_start = make_gap_array, el_end = make_gap_array, el_markers = []\<rparr>"

section \<open>Searching\<close>

lemma extent_bisect_correct:
  assumes "left \<le> right" and "right \<le> n" and "\<forall>i < left. lt i" and "\<forall>i. right \<le> i \<longrightarrow> i < n \<longrightarrow> \<not> lt i"
    and mono: "\<forall>j < n. lt j \<longrightarrow> (\<forall>i < j. lt i)"
  shows "extent_bisect lt left right \<le> n \<and> (\<forall>i < extent_bisect lt left right. lt i) \<and>
    (\<forall>i. extent_bisect lt left right \<le> i \<longrightarrow> i < n \<longrightarrow> \<not> lt i)"
  using assms(1-4)
proof (induction "right - left" arbitrary: left right rule: less_induct)
  case less
  show ?case
  proof (cases "left < right")
    case True
    define m where "m = (left + right) div 2"
    have m: "left \<le> m" "m < right" using True by (simp_all add: m_def)
    have step: "extent_bisect lt left right = (if lt m then extent_bisect lt (m + 1) right else extent_bisect lt left m)"
      using True by (simp add: extent_bisect.simps [of lt left right] m_def Let_def)
    show ?thesis
    proof (cases "lt m")
      case T: True
      have "m < n" using m less.prems(2) by simp
      then have "lt i" if "i < m + 1" for i using mono T that by (cases "i = m") auto
      then have a: "\<forall>i < m + 1. lt i" by blast
      have b: "right - (m + 1) < right - left" "m + 1 \<le> right" using m by simp_all
      show ?thesis unfolding step if_P [OF T] using less.hyps [OF b less.prems(2) a less.prems(4)] .
    next
      case F: False
      have "\<not> lt i" if "m \<le> i" "i < n" for i using mono F that by (cases "m = i") auto
      then have a: "\<forall>i. m \<le> i \<longrightarrow> i < n \<longrightarrow> \<not> lt i" by blast
      have b: "m - left < right - left" "m \<le> n" using m less.prems(2) by simp_all
      show ?thesis unfolding step if_not_P [OF F] using less.hyps [OF b(1) m(1) b(2) less.prems(3) a] .
    qed
  next
    case False
    then show ?thesis using less.prems by (simp add: extent_bisect.simps)
  qed
qed

lemma extent_scan_correct:
  assumes "ga_ok ga"
  shows "case extent_scan st ga self e k of (p, found) \<Rightarrow>
    (if found then k \<le> p \<and> p < numels ga \<and> Some (ga_contents ga ! p) = self
     else k \<le> p \<and> (k \<le> numels ga \<longrightarrow> p \<le> numels ga) \<and>
       (\<forall>i. k \<le> i \<longrightarrow> i < p \<longrightarrow> Some (ga_contents ga ! i) \<noteq> self \<and> EXTENT_EQUAL (st (ga_contents ga ! i)) e) \<and>
       (p < numels ga \<longrightarrow> Some (ga_contents ga ! p) \<noteq> self \<and> \<not> EXTENT_EQUAL (st (ga_contents ga ! p)) e))"
proof (induction "numels ga - k" arbitrary: k rule: less_induct)
  case less
  show ?case
  proof (cases "k < numels ga \<and> Some (GAP_ARRAY_EL ga k) \<noteq> self \<and> EXTENT_EQUAL (st (GAP_ARRAY_EL ga k)) e")
    case True
    obtain p found where r: "extent_scan st ga self e (Suc k) = (p, found)" by (metis surj_pair)
    have step: "extent_scan st ga self e k = (p, found)" using True r by (subst extent_scan.simps) (simp add: Let_def)
    have "Some (ga_contents ga ! k) \<noteq> self \<and> EXTENT_EQUAL (st (ga_contents ga ! k)) e" using True GAP_ARRAY_EL_nth [OF assms, of k] by auto
    moreover have "numels ga - Suc k < numels ga - k" using True by linarith
    note IH = less [OF this, unfolded r prod.case]
    moreover have "k \<le> i \<longleftrightarrow> i = k \<or> Suc k \<le> i" for i by auto
    ultimately show ?thesis using True unfolding step by (auto split: if_splits)
  next
    case False
    then have "extent_scan st ga self e k = (k, k < numels ga \<and> Some (GAP_ARRAY_EL ga k) = self)"
      by (subst extent_scan.simps) (auto simp: Let_def)
    then show ?thesis using False GAP_ARRAY_EL_nth [OF assms, of k] by auto
  qed
qed

section \<open>Lists in order\<close>

definition el_set :: "extent_list \<Rightarrow> nat set" where
  "el_set el = set (ga_contents (el_start el))"

definition el_ordered :: "extent_store \<Rightarrow> bool \<Rightarrow> nat gap_array \<Rightarrow> bool" where
  "el_ordered st endp = gaps.ordered (\<lambda>x y. extent_less_equal endp (st x) (st y))"

text \<open>Both arrays hold the same extents, each in its order, and all of them have a place in the text.\<close>

definition el_ok :: "extent_store \<Rightarrow> extent_list \<Rightarrow> bool" where
  "el_ok st el \<longleftrightarrow> el_ordered st False (el_start el) \<and> el_ordered st True (el_end el) \<and>
     set (ga_contents (el_end el)) = el_set el \<and> (\<forall>e \<in> el_set el. 0 \<le> extent_start (st e) \<and> extent_start (st e) \<le> extent_end (st e))"

lemma el_orderedD:
  assumes "el_ordered st endp ga"
  shows "ga_ok ga" "distinct (ga_contents ga)"
    "i < j \<Longrightarrow> j < numels ga \<Longrightarrow> extent_less_equal endp (st (ga_contents ga ! i)) (st (ga_contents ga ! j))"
  using assms by (auto simp: el_ordered_def gaps.ordered_def sorted_wrt_iff_nth_less length_ga_contents)

lemma extent_order_facts:
  "extent_less_equal endp a a"
  "extent_less_equal endp a b \<Longrightarrow> extent_less_equal endp b c \<Longrightarrow> extent_less_equal endp a c"
  "extent_less endp a b \<longleftrightarrow> \<not> extent_less_equal endp b a"
  "extent_less_equal endp a b \<Longrightarrow> extent_less_equal endp b a \<longleftrightarrow> EXTENT_EQUAL a b"
  by (auto simp: extent_orders)

text \<open>
  What \<open>extent_list_locate\<close> returns: the index of the extent when it is in the list, and otherwise
  the place where it belongs, behind all equal extents in the display order and before them in
  the e-order.
\<close>

lemma locate_correct:
  assumes o: "el_ordered st endp (el_array endp el)" and r: "extent_list_locate st el self e endp = (p, found)"
    and self: "case self of None \<Rightarrow> True | Some x \<Rightarrow> st x = e"
  defines "xs \<equiv> ga_contents (el_array endp el)"
  shows "found \<longleftrightarrow> self \<in> Some ` set xs" and "found \<Longrightarrow> p < length xs \<and> self = Some (xs ! p)"
    and "\<not> found \<Longrightarrow> p \<le> length xs \<and> (\<forall>i < p. extent_less_equal endp (st (xs ! i)) e) \<and>
      (\<forall>i. p \<le> i \<longrightarrow> i < length xs \<longrightarrow> extent_less_equal endp e (st (xs ! i))) \<and>
      (if endp then \<forall>i < p. extent_less endp (st (xs ! i)) e
       else \<forall>i. p \<le> i \<longrightarrow> i < length xs \<longrightarrow> extent_less endp e (st (xs ! i)))"
proof -
  let ?ga = "el_array endp el"
  note O = el_orderedD [OF o]
  have n: "numels ?ga = length xs" using length_ga_contents [OF O(1)] by (simp add: xs_def)
  define lt where "lt = (\<lambda>k. extent_less endp (st (GAP_ARRAY_EL ?ga k)) e)"
  have lt: "lt k = extent_less endp (st (xs ! k)) e" if "k < length xs" for k
    using GAP_ARRAY_EL_nth [OF O(1)] that n by (simp add: lt_def xs_def)
  define left where "left = extent_bisect lt 0 (numels ?ga)"
  have "lt i" if "i < j" "j < numels ?ga" "lt j" for i j
    using that O(3) [OF that(1,2)] lt [of i] lt [of j] n extent_order_facts(2,3) unfolding xs_def by (metis order.strict_trans)
  then have mono: "\<forall>j < numels ?ga. lt j \<longrightarrow> (\<forall>i < j. lt i)" by blast
  have L: "left \<le> length xs" "\<And>i. i < left \<Longrightarrow> extent_less endp (st (xs ! i)) e"
    "\<And>i. left \<le> i \<Longrightarrow> i < length xs \<Longrightarrow> extent_less_equal endp e (st (xs ! i))"
    using extent_bisect_correct [of 0 "numels ?ga" "numels ?ga" lt, OF _ _ _ _ mono] lt n extent_order_facts(3) unfolding left_def by auto
  obtain q f where s: "extent_scan st ?ga self e left = (q, f)" by (metis surj_pair)
  have res: "found = f" "p = (if f \<or> \<not> endp then q else left)"
    using r s unfolding extent_list_locate_def Let_def left_def lt_def by (auto split: if_splits)
  have S: "if f then left \<le> q \<and> q < length xs \<and> Some (xs ! q) = self
     else left \<le> q \<and> q \<le> length xs \<and> (\<forall>i. left \<le> i \<longrightarrow> i < q \<longrightarrow> Some (xs ! i) \<noteq> self \<and> EXTENT_EQUAL (st (xs ! i)) e) \<and>
       (q < length xs \<longrightarrow> Some (xs ! q) \<noteq> self \<and> \<not> EXTENT_EQUAL (st (xs ! q)) e)"
    using extent_scan_correct [OF O(1), where st = st and self = self and e = e and k = left] L(1) unfolding s n xs_def [symmetric] by (auto split: if_splits)
  have above: "extent_less endp e (st (xs ! i))" if "\<not> f" "q \<le> i" "i < length xs" for i
  proof -
    have q: "q < length xs" "left \<le> q" using that S by auto
    have "extent_less endp e (st (xs ! q))" using S that(1) q L(3) [of q] extent_order_facts(3,4) by (metis (no_types, lifting))
    moreover have "extent_less_equal endp (st (xs ! q)) (st (xs ! i))"
      using O(3) [of q i] that n extent_order_facts(1) unfolding xs_def by (cases "q = i") auto
    ultimately show ?thesis using extent_order_facts(2,3) by metis
  qed
  show fnd: "found \<longleftrightarrow> self \<in> Some ` set xs"
  proof
    assume "found"
    then show "self \<in> Some ` set xs" using S res(1) by (metis image_eqI nth_mem)
  next
    assume "self \<in> Some ` set xs"
    then obtain i where i: "i < length xs" "self = Some (xs ! i)" by (auto simp: in_set_conv_nth)
    show "found"
    proof (rule ccontr)
      assume nf: "\<not> found"
      have "st (xs ! i) = e" using self i(2) by simp
      then have "left \<le> i" "i < q" using L(2) [of i] above [of i] i(1) nf res(1) extent_order_facts(1,3) by (metis not_le)+
      then show False using S nf res(1) i(2) by auto
    qed
  qed
  show "p < length xs \<and> self = Some (xs ! p)" if "found" using that S res by auto
  show "p \<le> length xs \<and> (\<forall>i < p. extent_less_equal endp (st (xs ! i)) e) \<and>
      (\<forall>i. p \<le> i \<longrightarrow> i < length xs \<longrightarrow> extent_less_equal endp e (st (xs ! i))) \<and>
      (if endp then \<forall>i < p. extent_less endp (st (xs ! i)) e
       else \<forall>i. p \<le> i \<longrightarrow> i < length xs \<longrightarrow> extent_less endp e (st (xs ! i)))" if nf: "\<not> found"
  proof -
    have eq: "extent_less_equal e' a b" if "EXTENT_EQUAL a b" for e' a b using that by (auto simp: extent_orders)
    have lt_le: "extent_less_equal endp a b" if "extent_less endp a b" for a b using that by (auto simp: extent_orders split: if_splits)
    show ?thesis
    proof (cases endp)
      case True
      then have "p = left" using res nf by simp
      then show ?thesis using L lt_le True by auto
    next
      case False
      then have p: "p = q" using res nf by simp
      have S': "left \<le> q" "q \<le> length xs" "\<And>i. left \<le> i \<Longrightarrow> i < q \<Longrightarrow> EXTENT_EQUAL (st (xs ! i)) e" using S nf res(1) by auto
      have "extent_less_equal endp (st (xs ! i)) e" if "i < q" for i
        using L(2) [of i] S'(3) [of i] that lt_le eq by (cases "i < left") auto
      then show ?thesis using p S'(2) above lt_le False nf res(1) by auto
    qed
  qed
qed

section \<open>Insertion and deletion\<close>

lemma el_array_upd:
  "el_array False (el\<lparr>el_start := ga\<rparr>) = ga" "el_array True (el\<lparr>el_start := ga\<rparr>) = el_end el"
  "el_array True (el\<lparr>el_end := ga\<rparr>) = ga" "el_array False (el\<lparr>el_end := ga\<rparr>) = el_start el"
  by (simp_all add: el_array_def)

lemma ordered_insert:
  assumes o: "el_ordered st endp (el_array endp el)" and e: "e \<notin> set (ga_contents (el_array endp el))"
    and r: "extent_list_locate st el (Some e) (st e) endp = (p, found)"
  shows "\<not> found" "el_ordered st endp (gap_array_insert_els p [e] (el_array endp el))"
    "set (ga_contents (gap_array_insert_els p [e] (el_array endp el))) = insert e (set (ga_contents (el_array endp el)))"
proof -
  have self: "case Some e of None \<Rightarrow> True | Some x \<Rightarrow> st x = st e" by simp
  note L = locate_correct [OF o r self]
  show nf: "\<not> found" using L(1) e by auto
  show "el_ordered st endp (gap_array_insert_els p [e] (el_array endp el))"
    "set (ga_contents (gap_array_insert_els p [e] (el_array endp el))) = insert e (set (ga_contents (el_array endp el)))"
    using gaps.insert_ordered [OF o [unfolded el_ordered_def] _ e, of p] L(3) [OF nf] unfolding el_ordered_def by auto
qed

lemma ordered_delete:
  assumes o: "el_ordered st endp (el_array endp el)" and e: "e \<in> set (ga_contents (el_array endp el))"
    and r: "extent_list_locate st el (Some e) (st e) endp = (p, found)"
  shows "found" "p < numels (el_array endp el)" "el_ordered st endp (gap_array_delete_els p 1 (el_array endp el))"
    "set (ga_contents (gap_array_delete_els p 1 (el_array endp el))) = set (ga_contents (el_array endp el)) - {e}"
proof -
  have self: "case Some e of None \<Rightarrow> True | Some x \<Rightarrow> st x = st e" by simp
  note L = locate_correct [OF o r self]
  show f: "found" using L(1) e by auto
  then have p: "p < length (ga_contents (el_array endp el))" "ga_contents (el_array endp el) ! p = e" using L(2) by auto
  show "p < numels (el_array endp el)" using p(1) length_ga_contents [OF el_orderedD(1) [OF o]] by simp
  show "el_ordered st endp (gap_array_delete_els p 1 (el_array endp el))"
    "set (ga_contents (gap_array_delete_els p 1 (el_array endp el))) = set (ga_contents (el_array endp el)) - {e}"
    using gaps.delete_ordered [OF o [unfolded el_ordered_def] p(1)] unfolding el_ordered_def p(2) by auto
qed

lemma el_okD:
  assumes "el_ok st el"
  shows "el_ordered st endp (el_array endp el)" "set (ga_contents (el_array endp el)) = el_set el"
    "numels (el_array endp el) = card (el_set el)" "e \<in> el_set el \<Longrightarrow> 0 \<le> extent_start (st e) \<and> extent_start (st e) \<le> extent_end (st e)"
    "extent_list_num_els el = card (el_set el)"
proof -
  show o: "el_ordered st endp (el_array endp el)" for endp using assms by (cases endp) (simp_all add: el_ok_def el_array_def)
  show s: "set (ga_contents (el_array endp el)) = el_set el" for endp using assms by (cases endp) (simp_all add: el_ok_def el_array_def el_set_def)
  show n: "numels (el_array endp el) = card (el_set el)" for endp
    using el_orderedD [OF o [of endp]] s [of endp] length_ga_contents distinct_card by metis
  show "extent_list_num_els el = card (el_set el)" using n [of False] by (simp add: extent_list_num_els_def el_array_def)
  show "e \<in> el_set el \<Longrightarrow> 0 \<le> extent_start (st e) \<and> extent_start (st e) \<le> extent_end (st e)" using assms by (simp add: el_ok_def)
qed

lemma insert_extent_ok:
  assumes ok: "el_ok st el" and e: "e \<notin> el_set el" "0 \<le> extent_start (st e)" "extent_start (st e) \<le> extent_end (st e)"
  shows "el_ok st (extent_list_insert st e el)" "el_set (extent_list_insert st e el) = insert e (el_set el)"
proof -
  note D = el_okD [OF ok]
  obtain p f where r: "extent_list_locate st el (Some e) (st e) False = (p, f)" by (metis surj_pair)
  define el1 where "el1 = el\<lparr>el_start := gap_array_insert_els p [e] (el_start el)\<rparr>"
  obtain p1 f1 where r1: "extent_list_locate st el1 (Some e) (st e) True = (p1, f1)" by (metis surj_pair)
  define el2 where "el2 = el1\<lparr>el_end := gap_array_insert_els p1 [e] (el_end el)\<rparr>"
  have ins: "extent_list_insert st e el = el2" unfolding extent_list_insert_def Let_def r fst_conv el1_def [symmetric] r1 el2_def
    by (simp add: el1_def)
  have s: "el_array False el = el_start el" "el_array True el = el_end el" "el_array True el1 = el_end el"
    by (simp_all add: el_array_def el1_def)
  have "e \<notin> set (ga_contents (el_array endp el))" for endp using e(1) D(2) by simp
  note A = ordered_insert [OF D(1) this r, unfolded s] ordered_insert [of st True el1 e, unfolded s, OF _ _ r1]
  have "el_ordered st True (el_end el)" "e \<notin> set (ga_contents (el_end el))" using D(1,2) [of True] e(1) unfolding s by simp_all
  note B = A(1-3) A(4-6) [OF this]
  show set: "el_set (extent_list_insert st e el) = insert e (el_set el)" using B(3) unfolding ins by (simp add: el_set_def el2_def el1_def)
  have "set (ga_contents (el_end el)) = el_set el" using D(2) [of True] unfolding s .
  then have "set (ga_contents (el_end el2)) = insert e (el_set el)" using B(6) by (simp add: el2_def)
  moreover have "el_ordered st False (el_start el2)" "el_ordered st True (el_end el2)" using B(2,5) by (simp_all add: el2_def el1_def)
  ultimately show "el_ok st (extent_list_insert st e el)" using set e(2,3) D(4) unfolding ins el_ok_def by auto
qed

lemma delete_extent_ok:
  assumes ok: "el_ok st el" and e: "e \<in> el_set el"
  shows "el_ok st (extent_list_delete st e el)" "el_set (extent_list_delete st e el) = el_set el - {e}"
proof -
  note D = el_okD [OF ok]
  obtain p f where r: "extent_list_locate st el (Some e) (st e) False = (p, f)" by (metis surj_pair)
  define el1 where "el1 = el\<lparr>el_start := gap_array_delete_els p 1 (el_start el)\<rparr>"
  obtain p1 f1 where r1: "extent_list_locate st el1 (Some e) (st e) True = (p1, f1)" by (metis surj_pair)
  define el2 where "el2 = el1\<lparr>el_end := gap_array_delete_els p1 1 (el_end el)\<rparr>"
  have ins: "extent_list_delete st e el = el2" unfolding extent_list_delete_def Let_def r fst_conv el1_def [symmetric] r1 el2_def
    by (simp add: el1_def)
  have s: "el_array False el = el_start el" "el_array True el = el_end el" "el_array True el1 = el_end el"
    by (simp_all add: el_array_def el1_def)
  have "e \<in> set (ga_contents (el_array endp el))" for endp using e D(2) by simp
  note A = ordered_delete [OF D(1) this r, unfolded s] ordered_delete [of st True el1 e, unfolded s, OF _ _ r1]
  have "el_ordered st True (el_end el)" "e \<in> set (ga_contents (el_end el))" using D(1,2) [of True] e unfolding s by simp_all
  note B = A(3,4) A(7,8) [OF this]
  show set: "el_set (extent_list_delete st e el) = el_set el - {e}" using B(2) unfolding ins by (simp add: el_set_def el2_def el1_def)
  have "set (ga_contents (el_end el)) = el_set el" using D(2) [of True] unfolding s .
  then have "set (ga_contents (el_end el2)) = el_set el - {e}" using B(4) by (simp add: el2_def)
  moreover have "el_ordered st False (el_start el2)" "el_ordered st True (el_end el2)" using B(1,3) by (simp_all add: el2_def el1_def)
  ultimately show "el_ok st (extent_list_delete st e el)" using set D(4) unfolding ins el_ok_def by auto
qed

end
