(* ===== verification/ExtentSoe.thy ===== *)
theory ExtentSoe
  imports ExtentList
begin

text \<open>
  The stack of extents (\<open>src/src/extents.c\<close>), a cache that holds the extents over one position of the text
  and is moved from position to position, and attaching and detaching extents.
\<close>

section \<open>Operations\<close>

record stack_of_extents =
  soe_extents :: extent_list
  soe_pos :: int

text \<open>The extents of one buffer or string with its stack of extents, and the store of all extents.\<close>

record extent_info =
  ei_store :: extent_store
  ei_extents :: extent_list
  ei_soe :: "stack_of_extents option"

definition allocate_soe :: stack_of_extents where
  "allocate_soe = \<lparr>soe_extents = allocate_extent_list, soe_pos = - 1\<rparr>"

definition soe_insert :: "nat \<Rightarrow> extent_info \<Rightarrow> extent_info" where
  "soe_insert e s =
     (case ei_soe s of
        None \<Rightarrow> s
      | Some soe \<Rightarrow>
          if soe_pos soe < extent_start (ei_store s e) \<or> soe_pos soe > extent_end (ei_store s e) then s
          else s\<lparr>ei_soe := Some (soe\<lparr>soe_extents := extent_list_insert (ei_store s) e (soe_extents soe)\<rparr>)\<rparr>)"

definition soe_delete :: "nat \<Rightarrow> extent_info \<Rightarrow> extent_info" where
  "soe_delete e s =
     (case ei_soe s of
        None \<Rightarrow> s
      | Some soe \<Rightarrow>
          if soe_pos soe < extent_start (ei_store s e) \<or> soe_pos soe > extent_end (ei_store s e) then s
          else s\<lparr>ei_soe := Some (soe\<lparr>soe_extents := extent_list_delete (ei_store s) e (soe_extents soe)\<rparr>)\<rparr>)"

text \<open>Stage 1 of \<open>soe_move\<close>: \<open>n\<close> extents are deleted, always the one at index \<open>start\<close>.\<close>

fun soe_delete_loop :: "extent_store \<Rightarrow> bool \<Rightarrow> nat \<Rightarrow> nat \<Rightarrow> extent_list \<Rightarrow> extent_list" where
  "soe_delete_loop st endp start 0 sel = sel"
| "soe_delete_loop st endp start (Suc n) sel =
     soe_delete_loop st endp start n (extent_list_delete st (extent_list_at sel start endp) sel)"

text \<open>Stage 2: extents of the buffer are looked at from \<open>start_pos\<close> on, forwards or backwards.\<close>

function soe_insert_loop :: "extent_store \<Rightarrow> extent_list \<Rightarrow> bool \<Rightarrow> int \<Rightarrow> int \<Rightarrow> extent_list \<Rightarrow> extent_list" where
  "soe_insert_loop st bel fwd pos start_pos sel =
     (if 0 \<le> start_pos \<and> start_pos < int (extent_list_num_els bel)
      then let e = extent_list_at bel (nat start_pos) (\<not> fwd)
           in if (if fwd then extent_start (st e) > pos else extent_end (st e) < pos) then sel
              else soe_insert_loop st bel fwd pos (if fwd then start_pos + 1 else start_pos - 1)
                     (if (if fwd then extent_end (st e) \<ge> pos else extent_start (st e) \<le> pos)
                      then extent_list_insert st e sel else sel)
      else sel)"
  by pat_completeness auto
termination
  by (relation "measure (\<lambda>(st, bel, fwd, pos, start_pos, sel).
    nat (if fwd then int (extent_list_num_els bel) - start_pos else start_pos + 1))") (auto split: if_splits)

declare soe_insert_loop.simps [simp del]

definition soe_move :: "int \<Rightarrow> extent_info \<Rightarrow> extent_info" where
  "soe_move pos s =
     (let st = ei_store s;
          soe = (case ei_soe s of None \<Rightarrow> allocate_soe | Some soe \<Rightarrow> soe);
          sel = soe_extents soe; numsoe = extent_list_num_els sel; bel = ei_extents s
      in if soe_pos soe = pos then s\<lparr>ei_soe := Some soe\<rparr>
         else let fwd = soe_pos soe < pos;
                  (start, fin) = (if fwd then (0, extent_list_locate_from_pos st sel pos True)
                                  else (extent_list_locate_from_pos st sel (pos + 1) False, numsoe));
                  sel1 = (if numsoe > 0 then soe_delete_loop st fwd start (fin - start) sel else sel);
                  start_pos = (if fwd then int (extent_list_locate_from_pos st bel (soe_pos soe + 1) False)
                               else int (extent_list_locate_from_pos st bel (soe_pos soe) True) - 1);
                  sel2 = soe_insert_loop st bel fwd pos start_pos sel1
              in s\<lparr>ei_soe := Some \<lparr>soe_extents = sel2, soe_pos = pos\<rparr>\<rparr>)"

definition soe_invalidate :: "extent_info \<Rightarrow> extent_info" where
  "soe_invalidate s =
     (case ei_soe s of
        None \<Rightarrow> s
      | Some soe \<Rightarrow> s\<lparr>ei_soe := Some \<lparr>soe_extents = extent_list_delete_all (soe_extents soe), soe_pos = - 1\<rparr>\<rparr>)"

text \<open>Redisplay is not told of the changes here.\<close>

definition extent_attach :: "nat \<Rightarrow> extent_info \<Rightarrow> extent_info" where
  "extent_attach e s = soe_insert e (s\<lparr>ei_extents := extent_list_insert (ei_store s) e (ei_extents s)\<rparr>)"

definition set_ends :: "nat \<Rightarrow> int \<Rightarrow> int \<Rightarrow> extent_info \<Rightarrow> extent_info" where
  "set_ends e x y s = s\<lparr>ei_store := (ei_store s)(e := (ei_store s e)\<lparr>extent_start := x, extent_end := y\<rparr>)\<rparr>"

definition extent_detach :: "nat \<Rightarrow> extent_info \<Rightarrow> extent_info" where
  "extent_detach e s =
     (if extent_detached_p (ei_store s e) then s
      else set_ends e (- 1) (- 1) (soe_delete e (s\<lparr>ei_extents := extent_list_delete (ei_store s) e (ei_extents s)\<rparr>)))"

text \<open>Without the record for undo of a duplicable extent.\<close>

definition set_extent_endpoints_1 :: "nat \<Rightarrow> int \<Rightarrow> int \<Rightarrow> extent_info \<Rightarrow> extent_info" where
  "set_extent_endpoints_1 e x y s =
     (if \<not> extent_detached_p (ei_store s e) \<and> extent_start (ei_store s e) = x \<and> extent_end (ei_store s e) = y then s
      else extent_attach e (set_ends e x y (if extent_detached_p (ei_store s e) then s else extent_detach e s)))"

section \<open>Positions in extent lists\<close>

text \<open>The first extent that starts (or ends) at a position or after it.\<close>

lemma locate_from_pos_correct:
  assumes ok: "el_ok st el" and k: "extent_list_locate_from_pos st el pos endp = k"
  defines "xs \<equiv> ga_contents (el_array endp el)"
  shows "k \<le> length xs" "i < k \<Longrightarrow> extent_endpoint (st (xs ! i)) endp < pos"
    "k \<le> i \<Longrightarrow> i < length xs \<Longrightarrow> pos \<le> extent_endpoint (st (xs ! i)) endp"
proof -
  let ?e = "fake_extent (if endp then pos else pos - 1)"
  obtain p f where r: "extent_list_locate st el None ?e endp = (p, f)" by (metis surj_pair)
  have pk: "p = k" using k r by (simp add: extent_list_locate_from_pos_def)
  have none: "case None of None \<Rightarrow> True | Some x \<Rightarrow> st x = ?e" by simp
  note L = locate_correct [OF el_okD(1) [OF ok] r none, folded xs_def, unfolded pk]
  have nf: "\<not> f" using L(1) by auto
  have v: "extent_start (st (xs ! i)) \<le> extent_end (st (xs ! i))" if "i < length xs" for i
    using el_okD(2,4) [OF ok] that unfolding xs_def by (metis nth_mem)
  show le: "k \<le> length xs" using L(3) [OF nf] by simp
  show "extent_endpoint (st (xs ! i)) endp < pos" if "i < k"
    using L(3) [OF nf] that v [of i] le by (cases endp) (auto simp: fake_extent_def extent_orders extent_endpoint_def)
  show "pos \<le> extent_endpoint (st (xs ! i)) endp" if "k \<le> i" "i < length xs"
    using L(3) [OF nf] that v [of i] by (cases endp) (force simp: fake_extent_def extent_orders extent_endpoint_def)+
qed

lemma locate_cuts:
  assumes ok: "el_ok st el" and k: "extent_list_locate_from_pos st el pos endp = k"
  defines "xs \<equiv> ga_contents (el_array endp el)"
  shows "k \<le> length xs" "set (take k xs) = {e \<in> el_set el. extent_endpoint (st e) endp < pos}"
    "set (drop k xs) = {e \<in> el_set el. pos \<le> extent_endpoint (st e) endp}"
proof -
  note K = locate_from_pos_correct [OF ok k, folded xs_def]
  show le: "k \<le> length xs" using K(1) .
  have s: "el_set el = set (take k xs) \<union> set (drop k xs)" using el_okD(2) [OF ok, of endp] unfolding xs_def by (metis append_take_drop_id set_append)
  have "extent_endpoint (st e) endp < pos" if "e \<in> set (take k xs)" for e
    using that K(2) le by (auto simp: in_set_conv_nth)
  moreover have "pos \<le> extent_endpoint (st e) endp" if "e \<in> set (drop k xs)" for e
    using that K(3) le by (auto simp: in_set_conv_nth)
  ultimately show "set (take k xs) = {e \<in> el_set el. extent_endpoint (st e) endp < pos}"
    "set (drop k xs) = {e \<in> el_set el. pos \<le> extent_endpoint (st e) endp}" unfolding s by (auto simp: not_le [symmetric])
qed

lemma list_delete_at_remove1: "distinct xs \<Longrightarrow> k < length xs \<Longrightarrow> list_delete_at xs k 1 = remove1 (xs ! k) xs"
proof -
  assume d: "distinct xs" and k: "k < length xs"
  have s: "xs = take k xs @ xs ! k # drop (Suc k) xs" using id_take_nth_drop [OF k] .
  have "xs ! k \<notin> set (take k xs)" using d s by (metis disjoint_insert(1) distinct_append list.simps(15))
  then have "remove1 (xs ! k) (take k xs @ xs ! k # drop (Suc k) xs) = take k xs @ drop (Suc k) xs" by (simp add: remove1_append)
  then show ?thesis using s unfolding list_delete_at_def by simp
qed

lemma delete_contents:
  assumes ok: "el_ok st el" and e: "e \<in> el_set el"
  shows "ga_contents (el_array endp (extent_list_delete st e el)) = remove1 e (ga_contents (el_array endp el))"
proof -
  have *: "ga_contents (gap_array_delete_els (fst (extent_list_locate st el' (Some e) (st e) endp')) 1 (el_array endp' el'))
      = remove1 e (ga_contents (el_array endp' el'))" if o: "el_ordered st endp' (el_array endp' el')" and "e \<in> set (ga_contents (el_array endp' el'))" for endp' el'
  proof -
    obtain p f where r: "extent_list_locate st el' (Some e) (st e) endp' = (p, f)" by (metis surj_pair)
    have self: "case Some e of None \<Rightarrow> True | Some x \<Rightarrow> st x = st e" by simp
    have "p < length (ga_contents (el_array endp' el'))" "ga_contents (el_array endp' el') ! p = e"
      using locate_correct(1,2) [OF o r self] that(2) by auto
    then show ?thesis using r list_delete_at_remove1 [OF el_orderedD(2) [OF o]] gaps.del_els [OF el_orderedD(1) [OF o]] by simp
  qed
  let ?el1 = "el\<lparr>el_start := gap_array_delete_els (fst (extent_list_locate st el (Some e) (st e) False)) 1 (el_start el)\<rparr>"
  have s: "el_array False el = el_start el" "el_array True el = el_end el" "el_array True ?el1 = el_end el" by (simp_all add: el_array_def)
  show ?thesis
    using *[of False el] *[of True ?el1] el_okD(1,2) [OF ok, of False] el_okD(1,2) [OF ok, of True] e unfolding s
    by (cases endp) (simp_all add: extent_list_delete_def Let_def el_array_def)
qed

lemma soe_delete_loop_ok:
  assumes "el_ok st sel" and "start + n \<le> length (ga_contents (el_array endp sel))"
  shows "el_ok st (soe_delete_loop st endp start n sel) \<and>
    el_set (soe_delete_loop st endp start n sel) = el_set sel - set (take n (drop start (ga_contents (el_array endp sel))))"
  using assms
proof (induction n arbitrary: sel)
  case 0
  then show ?case by simp
next
  case (Suc n)
  let ?xs = "ga_contents (el_array endp sel)"
  have k: "start < length ?xs" using Suc.prems(2) by simp
  note D = el_okD(1,2) [OF Suc.prems(1), of endp]
  note O = el_orderedD(1,2) [OF D(1)]
  define e where "e = ?xs ! start"
  have at: "extent_list_at sel start endp = e"
    using GAP_ARRAY_EL_nth [OF O(1)] k length_ga_contents [OF O(1)] by (simp add: extent_list_at_def e_def)
  have e: "e \<in> el_set sel" using k D(2) unfolding e_def by (metis nth_mem)
  note del = delete_extent_ok [OF Suc.prems(1) e]
  have ys: "ga_contents (el_array endp (extent_list_delete st e sel)) = take start ?xs @ drop (Suc start) ?xs"
    using delete_contents [OF Suc.prems(1) e] list_delete_at_remove1 [OF O(2) k] by (simp add: e_def list_delete_at_def)
  have "drop start ?xs = e # drop (Suc start) ?xs" using k unfolding e_def by (simp add: Cons_nth_drop_Suc)
  then have "set (take (Suc n) (drop start ?xs)) = insert e (set (take n (drop (Suc start) ?xs)))" by simp
  moreover have "take n (drop start (take start ?xs @ drop (Suc start) ?xs)) = take n (drop (Suc start) ?xs)" using k by simp
  ultimately show ?case using Suc.IH [OF del(1)] Suc.prems(2) k unfolding ys del(2) soe_delete_loop.simps at by auto
qed

text \<open>Stage 2 as a recursion over the list of extents that are looked at.\<close>

fun insert_until :: "extent_store \<Rightarrow> bool \<Rightarrow> int \<Rightarrow> nat list \<Rightarrow> extent_list \<Rightarrow> extent_list" where
  "insert_until st fwd pos [] sel = sel"
| "insert_until st fwd pos (e # es) sel =
     (if (if fwd then extent_start (st e) > pos else extent_end (st e) < pos) then sel
      else insert_until st fwd pos es
             (if (if fwd then extent_end (st e) \<ge> pos else extent_start (st e) \<le> pos) then extent_list_insert st e sel else sel))"

lemma soe_insert_loop_eq:
  fixes fwd :: bool
  assumes "el_ok st bel"
  defines "xs \<equiv> ga_contents (el_array (\<not> fwd) bel)"
  shows "(if fwd then start_pos = int k else start_pos = int k - 1) \<Longrightarrow> k \<le> length xs \<Longrightarrow>
    soe_insert_loop st bel fwd pos start_pos sel = insert_until st fwd pos (if fwd then drop k xs else rev (take k xs)) sel"
proof (induction "if fwd then length xs - k else k" arbitrary: k start_pos sel)
  case 0
  have n: "extent_list_num_els bel = length xs" using el_okD(3,5) [OF assms(1)] length_ga_contents el_orderedD(1) [OF el_okD(1) [OF assms(1)]]
    unfolding xs_def by metis
  show ?case using 0 n by (subst soe_insert_loop.simps) (auto split: if_splits)
next
  case (Suc m)
  have O: "ga_ok (el_array (\<not> fwd) bel)" using el_orderedD(1) [OF el_okD(1) [OF assms(1)]] .
  have n: "extent_list_num_els bel = length xs" "numels (el_array (\<not> fwd) bel) = length xs"
    using el_okD(3,5) [OF assms(1)] length_ga_contents [OF O] unfolding xs_def by simp_all
  have at: "extent_list_at bel i (\<not> fwd) = xs ! i" if "i < length xs" for i
    using GAP_ARRAY_EL_nth [OF O] that n(2) by (simp add: extent_list_at_def xs_def)
  show ?case
  proof (cases fwd)
    case True
    then have k: "k < length xs" "m = length xs - Suc k" "start_pos = int k" using Suc.hyps(2) Suc.prems by simp_all
    have d: "drop k xs = xs ! k # drop (Suc k) xs" using Cons_nth_drop_Suc [OF k(1)] by simp
    have IH: "soe_insert_loop st bel fwd pos (int k + 1) sel' = insert_until st fwd pos (drop (Suc k) xs) sel'" for sel'
      using Suc.hyps(1) [of "Suc k" "int k + 1" sel'] k True by simp
    show ?thesis using True k(1) at [OF k(1)] n(1) IH unfolding k(3)
      by (subst soe_insert_loop.simps) (simp add: d Let_def)
  next
    case False
    then have k: "k - 1 < length xs" "0 < k" "m = k - 1" "start_pos = int (k - 1)" using Suc.hyps(2) Suc.prems by simp_all
    have d: "rev (take k xs) = xs ! (k - 1) # rev (take (k - 1) xs)"
      using k(1,2) by (metis Suc_diff_1 rev.simps(2) rev_rev_ident rev_swap take_Suc_conv_app_nth)
    have IH: "soe_insert_loop st bel fwd pos (int (k - 1) - 1) sel' = insert_until st fwd pos (rev (take (k - 1) xs)) sel'" for sel'
      using Suc.hyps(1) [of "k - 1" "int (k - 1) - 1" sel'] k Suc.prems(2) False by simp
    show ?thesis using False k(1) at [OF k(1)] n(1) IH unfolding k(4)
      by (subst soe_insert_loop.simps) (simp add: d Let_def)
  qed
qed

section \<open>The extents over a position\<close>

definition over :: "extent_store \<Rightarrow> int \<Rightarrow> nat \<Rightarrow> bool" where
  "over st pos e \<longleftrightarrow> extent_start (st e) \<le> pos \<and> pos \<le> extent_end (st e)"

lemma insert_until_ok:
  assumes "el_ok st sel" and "distinct es" and "set es \<inter> el_set sel = {}"
    and "\<forall>e \<in> set es. 0 \<le> extent_start (st e) \<and> extent_start (st e) \<le> extent_end (st e)"
    and "sorted_wrt (\<lambda>x y. if fwd then extent_start (st x) \<le> extent_start (st y) else extent_end (st y) \<le> extent_end (st x)) es"
  shows "el_ok st (insert_until st fwd pos es sel) \<and>
    el_set (insert_until st fwd pos es sel) = el_set sel \<union> {e \<in> set es. over st pos e}"
  using assms
proof (induction es arbitrary: sel)
  case Nil
  then show ?case by simp
next
  case (Cons e es)
  let ?far = "if fwd then extent_start (st e) > pos else extent_end (st e) < pos"
  show ?case
  proof (cases ?far)
    case True
    then have "\<not> over st pos x" if "x \<in> set (e # es)" for x
      using Cons.prems(5) that by (cases fwd) (auto simp: over_def)
    then have none: "{x \<in> set (e # es). over st pos x} = {}" by blast
    show ?thesis unfolding insert_until.simps if_P [OF True] none using Cons.prems(1) by simp
  next
    case False
    define sel' where "sel' = (if over st pos e then extent_list_insert st e sel else sel)"
    have step: "insert_until st fwd pos (e # es) sel = insert_until st fwd pos es sel'"
      using False by (cases fwd) (simp_all add: sel'_def over_def)
    have e: "e \<notin> el_set sel" "0 \<le> extent_start (st e)" "extent_start (st e) \<le> extent_end (st e)" using Cons.prems(3,4) by auto
    have s: "el_ok st sel'" "el_set sel' = el_set sel \<union> {x. x = e \<and> over st pos e}"
      using insert_extent_ok [OF Cons.prems(1) e] Cons.prems(1) by (auto simp: sel'_def)
    have "el_ok st (insert_until st fwd pos es sel') \<and> el_set (insert_until st fwd pos es sel') = el_set sel' \<union> {x \<in> set es. over st pos x}"
      using Cons.IH [OF s(1)] Cons.prems s(2) by auto
    then show ?thesis unfolding step s(2) by auto
  qed
qed

text \<open>The cache is right: it holds the extents over its position and no others.\<close>

definition soe_ok :: "extent_store \<Rightarrow> nat set \<Rightarrow> stack_of_extents \<Rightarrow> bool" where
  "soe_ok st E soe \<longleftrightarrow> el_ok st (soe_extents soe) \<and> el_set (soe_extents soe) = {e \<in> E. over st (soe_pos soe) e}"

definition extents_ok :: "extent_info \<Rightarrow> bool" where
  "extents_ok s \<longleftrightarrow> el_ok (ei_store s) (ei_extents s) \<and>
     (case ei_soe s of None \<Rightarrow> True | Some soe \<Rightarrow> soe_ok (ei_store s) (el_set (ei_extents s)) soe)"

lemma empty_list_ok: "el_ok st allocate_extent_list" "el_set allocate_extent_list = {}"
  by (simp_all add: el_ok_def el_ordered_def gaps.ordered_def el_set_def allocate_extent_list_def make_gap_array_def ga_ok_def ga_contents_def)

lemma allocate_soe_ok: "el_ok st bel \<Longrightarrow> soe_ok st (el_set bel) allocate_soe"
  using el_okD(4) [of st bel] by (fastforce simp: soe_ok_def allocate_soe_def empty_list_ok over_def)

lemma soe_stage_1:
  fixes fwd :: bool and pos :: int
  assumes "el_ok st sel"
  defines "n \<equiv> extent_list_num_els sel"
  defines "r \<equiv> (if fwd then (0, extent_list_locate_from_pos st sel pos True) else (extent_list_locate_from_pos st sel (pos + 1) False, n))"
  defines "sel1 \<equiv> (if n > 0 then soe_delete_loop st fwd (fst r) (snd r - fst r) sel else sel)"
  shows "el_ok st sel1" "el_set sel1 = {e \<in> el_set sel. if fwd then pos \<le> extent_end (st e) else extent_start (st e) \<le> pos}"
proof -
  let ?xs = "ga_contents (el_array fwd sel)"
  note D = el_okD [OF assms(1)]
  have n: "n = length ?xs" using D(3,5) length_ga_contents [OF el_orderedD(1) [OF D(1)]] unfolding n_def by metis
  define k where "k = extent_list_locate_from_pos st sel (if fwd then pos else pos + 1) fwd"
  note K = locate_cuts [OF assms(1) k_def [symmetric]]
  have bounds: "fst r + (snd r - fst r) \<le> length ?xs" using K(1) n by (cases fwd) (simp_all add: r_def k_def)
  have cut: "set (take (snd r - fst r) (drop (fst r) ?xs)) = {e \<in> el_set sel. \<not> (if fwd then pos \<le> extent_end (st e) else extent_start (st e) \<le> pos)}"
  proof (cases fwd)
    case True
    then have "set (take (snd r - fst r) (drop (fst r) ?xs)) = set (take k ?xs)" by (simp add: r_def k_def)
    also have "\<dots> = {e \<in> el_set sel. \<not> pos \<le> extent_end (st e)}" unfolding K(2) using True by (simp add: extent_endpoint_def not_le)
    finally show ?thesis using True by simp
  next
    case False
    then have "set (take (snd r - fst r) (drop (fst r) ?xs)) = set (drop k ?xs)" using n by (simp add: r_def k_def)
    also have "\<dots> = {e \<in> el_set sel. \<not> extent_start (st e) \<le> pos}" unfolding K(3) using False by (simp add: extent_endpoint_def add1_zle_eq not_le)
    finally show ?thesis using False by simp
  qed
  have "el_ok st sel1 \<and> el_set sel1 = el_set sel - set (take (snd r - fst r) (drop (fst r) ?xs))"
  proof (cases "n > 0")
    case True
    then show ?thesis using soe_delete_loop_ok [OF assms(1) bounds] by (simp add: sel1_def)
  next
    case False
    then have "?xs = []" "el_set sel = {}" using n D(2) [of fwd] by auto
    then show ?thesis using False assms(1) by (simp add: sel1_def)
  qed
  then show "el_ok st sel1" "el_set sel1 = {e \<in> el_set sel. if fwd then pos \<le> extent_end (st e) else extent_start (st e) \<le> pos}"
    unfolding cut by auto
qed

lemma soe_stage_2:
  fixes fwd :: bool and pos old :: int
  assumes ok: "el_ok st bel" and sel: "el_ok st sel"
    and disj: "\<forall>e \<in> el_set sel. if fwd then extent_start (st e) \<le> old else old \<le> extent_end (st e)"
  defines "start_pos \<equiv> (if fwd then int (extent_list_locate_from_pos st bel (old + 1) False) else int (extent_list_locate_from_pos st bel old True) - 1)"
  shows "el_ok st (soe_insert_loop st bel fwd pos start_pos sel)"
    "el_set (soe_insert_loop st bel fwd pos start_pos sel) = el_set sel \<union>
      {e \<in> el_set bel. over st pos e \<and> (if fwd then old < extent_start (st e) else extent_end (st e) < old)}"
proof -
  let ?xs = "ga_contents (el_array (\<not> fwd) bel)"
  note D = el_okD [OF ok]
  note O = el_orderedD [OF D(1) [of "\<not> fwd"]]
  have len: "numels (el_array (\<not> fwd) bel) = length ?xs" using length_ga_contents [OF O(1)] by simp
  define k where "k = extent_list_locate_from_pos st bel (if fwd then old + 1 else old) (\<not> fwd)"
  note K = locate_cuts [OF ok k_def [symmetric]]
  define ys where "ys = (if fwd then drop k ?xs else rev (take k ?xs))"
  have eq: "soe_insert_loop st bel fwd pos start_pos sel = insert_until st fwd pos ys sel"
    using soe_insert_loop_eq [OF ok, of fwd start_pos k] K(1) by (simp add: ys_def start_pos_def k_def)
  have ys: "set ys = {e \<in> el_set bel. if fwd then old < extent_start (st e) else extent_end (st e) < old}"
  proof (cases fwd)
    case True
    then have "set ys = set (drop k ?xs)" by (simp add: ys_def)
    also have "\<dots> = {e \<in> el_set bel. old < extent_start (st e)}" unfolding K(3) using True by (simp add: extent_endpoint_def add1_zle_eq)
    finally show ?thesis using True by simp
  next
    case False
    then have "set ys = set (take k ?xs)" by (simp add: ys_def)
    also have "\<dots> = {e \<in> el_set bel. extent_end (st e) < old}" unfolding K(2) using False by (simp add: extent_endpoint_def)
    finally show ?thesis using False by simp
  qed
  have dist: "distinct ys" using O(2) by (cases fwd) (simp_all add: ys_def)
  have mono: "extent_endpoint (st (?xs ! i)) (\<not> fwd) \<le> extent_endpoint (st (?xs ! j)) (\<not> fwd)" if "i < j" "j < length ?xs" for i j
    using O(3) [of i j] that len by (cases fwd) (auto simp: extent_orders extent_endpoint_def)
  have sorted: "sorted_wrt (\<lambda>x y. if fwd then extent_start (st x) \<le> extent_start (st y) else extent_end (st y) \<le> extent_end (st x)) ys"
  proof -
    have "sorted_wrt (\<lambda>x y. extent_endpoint (st x) (\<not> fwd) \<le> extent_endpoint (st y) (\<not> fwd)) ?xs"
      using mono by (simp add: sorted_wrt_iff_nth_less)
    then show ?thesis by (cases fwd) (simp_all add: ys_def extent_endpoint_def sorted_wrt_rev sorted_wrt_take sorted_wrt_drop)
  qed
  have "set ys \<inter> el_set sel = {}" using disj unfolding ys by (force split: if_splits)
  moreover have "\<forall>e \<in> set ys. 0 \<le> extent_start (st e) \<and> extent_start (st e) \<le> extent_end (st e)" using D(4) unfolding ys by auto
  ultimately have "el_ok st (insert_until st fwd pos ys sel) \<and> el_set (insert_until st fwd pos ys sel) = el_set sel \<union> {e \<in> set ys. over st pos e}"
    using insert_until_ok [OF sel dist] sorted by blast
  then show "el_ok st (soe_insert_loop st bel fwd pos start_pos sel)"
    "el_set (soe_insert_loop st bel fwd pos start_pos sel) = el_set sel \<union>
      {e \<in> el_set bel. over st pos e \<and> (if fwd then old < extent_start (st e) else extent_end (st e) < old)}"
    unfolding eq using ys by auto
qed

lemma soe_move_ok:
  assumes ok: "extents_ok s"
  shows "extents_ok (soe_move pos s)" "ei_extents (soe_move pos s) = ei_extents s" "ei_store (soe_move pos s) = ei_store s"
    "\<exists>soe. ei_soe (soe_move pos s) = Some soe \<and> soe_pos soe = pos \<and> el_ok (ei_store s) (soe_extents soe) \<and>
      el_set (soe_extents soe) = {e \<in> el_set (ei_extents s). over (ei_store s) pos e}"
proof -
  let ?st = "ei_store s" and ?bel = "ei_extents s"
  define soe where "soe = (case ei_soe s of None \<Rightarrow> allocate_soe | Some soe \<Rightarrow> soe)"
  let ?old = "soe_pos soe" and ?sel = "soe_extents soe"
  have bel: "el_ok ?st ?bel" and soe: "soe_ok ?st (el_set ?bel) soe"
    using ok allocate_soe_ok by (auto simp: extents_ok_def soe_def split: option.splits)
  have sel: "el_ok ?st ?sel" "el_set ?sel = {e \<in> el_set ?bel. over ?st ?old e}" using soe by (simp_all add: soe_ok_def)
  have ends: "extent_start (?st e) \<le> extent_end (?st e)" if "e \<in> el_set ?bel" for e using el_okD(4) [OF bel that] by simp
  show "\<exists>soe. ei_soe (soe_move pos s) = Some soe \<and> soe_pos soe = pos \<and> el_ok ?st (soe_extents soe) \<and>
      el_set (soe_extents soe) = {e \<in> el_set ?bel. over ?st pos e}"
  proof (cases "?old = pos")
    case True
    then have "ei_soe (soe_move pos s) = Some soe" by (simp add: soe_move_def soe_def [symmetric] Let_def)
    then show ?thesis using sel True by simp
  next
    case False
    define fwd where "fwd = (?old < pos)"
    define r where "r = (if fwd then (0, extent_list_locate_from_pos ?st ?sel pos True)
      else (extent_list_locate_from_pos ?st ?sel (pos + 1) False, extent_list_num_els ?sel))"
    define sel1 where "sel1 = (if extent_list_num_els ?sel > 0 then soe_delete_loop ?st fwd (fst r) (snd r - fst r) ?sel else ?sel)"
    define start_pos where "start_pos = (if fwd then int (extent_list_locate_from_pos ?st ?bel (?old + 1) False)
      else int (extent_list_locate_from_pos ?st ?bel ?old True) - 1)"
    define sel2 where "sel2 = soe_insert_loop ?st ?bel fwd pos start_pos sel1"
    have res: "ei_soe (soe_move pos s) = Some \<lparr>soe_extents = sel2, soe_pos = pos\<rparr>"
      using False unfolding soe_move_def soe_def [symmetric] Let_def fwd_def [symmetric] r_def [symmetric] sel2_def start_pos_def sel1_def
      by (simp add: case_prod_beta)
    note S1 = soe_stage_1 [OF sel(1), of fwd pos, folded r_def, folded sel1_def]
    have "\<forall>e \<in> el_set sel1. if fwd then extent_start (?st e) \<le> ?old else ?old \<le> extent_end (?st e)"
      unfolding S1(2) sel(2) by (auto simp: over_def)
    note S2 = soe_stage_2 [where fwd = fwd and old = "soe_pos soe" and pos = pos, OF bel S1(1) this, folded start_pos_def, folded sel2_def]
    have "el_set sel2 = {e \<in> el_set ?bel. over ?st pos e}"
    proof (intro set_eqI)
      fix e
      show "e \<in> el_set sel2 \<longleftrightarrow> e \<in> {e \<in> el_set ?bel. over ?st pos e}"
        using ends [of e] False unfolding S2(2) S1(2) sel(2) by (cases fwd) (auto simp: over_def fwd_def)
    qed
    then show ?thesis using res S2(1) by simp
  qed
  then obtain soe' where soe': "ei_soe (soe_move pos s) = Some soe'" "soe_ok ?st (el_set ?bel) soe'" by (auto simp: soe_ok_def)
  show same: "ei_extents (soe_move pos s) = ?bel" "ei_store (soe_move pos s) = ?st"
    unfolding soe_move_def Let_def by (simp_all add: case_prod_beta)
  show "extents_ok (soe_move pos s)" using bel soe' unfolding extents_ok_def same by simp
qed

section \<open>Attaching and detaching\<close>

text \<open>Only the ends of the extents that are in a list matter to it.\<close>

lemma el_ok_cong:
  assumes "\<forall>e \<in> el_set el. extent_start (st' e) = extent_start (st e) \<and> extent_end (st' e) = extent_end (st e)" and "el_ok st el"
  shows "el_ok st' el"
proof -
  have s: "set (ga_contents (el_array endp el)) = el_set el" for endp using el_okD(2) [OF assms(2)] .
  have le: "extent_less_equal endp (st' x) (st' y) \<longleftrightarrow> extent_less_equal endp (st x) (st y)" if "x \<in> el_set el" "y \<in> el_set el" for endp x y
    using assms(1) that by (auto simp: extent_orders)
  have "sorted_wrt (\<lambda>x y. extent_less_equal endp (st' x) (st' y)) (ga_contents (el_array endp el))" for endp
    using el_okD(1) [OF assms(2), of endp] s [of endp] le unfolding el_ordered_def gaps.ordered_def by (metis (no_types, lifting) sorted_wrt_mono_rel)
  then have "el_ordered st' endp (el_array endp el)" for endp
    using el_okD(1) [OF assms(2), of endp] by (simp add: el_ordered_def gaps.ordered_def)
  from this [of False] this [of True] show ?thesis using assms unfolding el_ok_def by (auto simp: el_array_def)
qed

lemma attach_ok:
  assumes ok: "extents_ok s" and e: "e \<notin> el_set (ei_extents s)" "0 \<le> extent_start (ei_store s e)" "extent_start (ei_store s e) \<le> extent_end (ei_store s e)"
  shows "extents_ok (extent_attach e s) \<and> el_set (ei_extents (extent_attach e s)) = insert e (el_set (ei_extents s)) \<and>
    ei_store (extent_attach e s) = ei_store s"
proof -
  have el: "el_ok (ei_store s) (ei_extents s)" using ok by (simp add: extents_ok_def)
  note I = insert_extent_ok [OF el e]
  show ?thesis
  proof (cases "ei_soe s")
    case None
    then show ?thesis using I by (simp add: extent_attach_def soe_insert_def extents_ok_def)
  next
    case (Some soe)
    then have soe: "el_ok (ei_store s) (soe_extents soe)" "el_set (soe_extents soe) = {x \<in> el_set (ei_extents s). over (ei_store s) (soe_pos soe) x}"
      using ok by (simp_all add: extents_ok_def soe_ok_def)
    have "e \<notin> el_set (soe_extents soe)" using e(1) soe(2) by simp
    note J = insert_extent_ok [OF soe(1) this e(2,3)]
    let ?s' = "extent_attach e s"
    have same: "ei_store ?s' = ei_store s" "ei_extents ?s' = extent_list_insert (ei_store s) e (ei_extents s)"
      using Some by (simp_all add: extent_attach_def soe_insert_def)
    have "case ei_soe ?s' of None \<Rightarrow> False | Some soe' \<Rightarrow> soe_ok (ei_store s) (insert e (el_set (ei_extents s))) soe'"
    proof (cases "over (ei_store s) (soe_pos soe) e")
      case True
      then have "ei_soe ?s' = Some (soe\<lparr>soe_extents := extent_list_insert (ei_store s) e (soe_extents soe)\<rparr>)"
        using Some by (simp add: extent_attach_def soe_insert_def over_def)
      moreover have "insert e (el_set (soe_extents soe)) = {x \<in> insert e (el_set (ei_extents s)). over (ei_store s) (soe_pos soe) x}"
        unfolding soe(2) using True by blast
      ultimately show ?thesis using J by (simp add: soe_ok_def)
    next
      case False
      then have "ei_soe ?s' = Some soe" using Some by (auto simp: extent_attach_def soe_insert_def over_def)
      moreover have "el_set (soe_extents soe) = {x \<in> insert e (el_set (ei_extents s)). over (ei_store s) (soe_pos soe) x}"
        unfolding soe(2) using False by blast
      ultimately show ?thesis using soe(1) by (simp add: soe_ok_def)
    qed
    then show ?thesis using I unfolding extents_ok_def same by (simp split: option.splits)
  qed
qed

lemma set_ends_ok:
  assumes "extents_ok s" and "e \<notin> el_set (ei_extents s)"
  shows "extents_ok (set_ends e x y s)"
proof -
  let ?st = "ei_store s" and ?st' = "(ei_store s)(e := (ei_store s e)\<lparr>extent_start := x, extent_end := y\<rparr>)"
  have el: "el_ok ?st (ei_extents s)" using assms(1) by (simp add: extents_ok_def)
  have 1: "el_ok ?st' (ei_extents s)" using el_ok_cong [OF _ el] assms(2) by auto
  have 2: "soe_ok ?st' (el_set (ei_extents s)) soe" if "soe_ok ?st (el_set (ei_extents s)) soe" for soe
  proof -
    have "el_ok ?st' (soe_extents soe)" using el_ok_cong [of "soe_extents soe" ?st' ?st] that assms(2) by (auto simp: soe_ok_def)
    then show ?thesis using that assms(2) by (auto simp: soe_ok_def over_def)
  qed
  show ?thesis using assms(1) 1 2 by (auto simp: extents_ok_def set_ends_def split: option.splits)
qed

lemma detach_ok:
  assumes ok: "extents_ok s" and e: "e \<in> el_set (ei_extents s)"
  shows "extents_ok (extent_detach e s) \<and> el_set (ei_extents (extent_detach e s)) = el_set (ei_extents s) - {e} \<and>
    ei_store (extent_detach e s) = (ei_store s)(e := (ei_store s e)\<lparr>extent_start := - 1, extent_end := - 1\<rparr>)"
proof -
  let ?st = "ei_store s"
  have el: "el_ok ?st (ei_extents s)" using ok by (simp add: extents_ok_def)
  note D = delete_extent_ok [OF el e]
  define s1 where "s1 = soe_delete e (s\<lparr>ei_extents := extent_list_delete ?st e (ei_extents s)\<rparr>)"
  have s1: "ei_store s1 = ?st" "ei_extents s1 = extent_list_delete ?st e (ei_extents s)"
    by (auto simp: s1_def soe_delete_def split: option.splits)
  have "extents_ok s1"
  proof (cases "ei_soe s")
    case None
    then show ?thesis using D by (simp add: s1_def soe_delete_def extents_ok_def)
  next
    case (Some soe)
    then have soe: "el_ok ?st (soe_extents soe)" "el_set (soe_extents soe) = {x \<in> el_set (ei_extents s). over ?st (soe_pos soe) x}"
      using ok by (simp_all add: extents_ok_def soe_ok_def)
    show ?thesis
    proof (cases "over ?st (soe_pos soe) e")
      case True
      then have "e \<in> el_set (soe_extents soe)" using e soe(2) by simp
      note X = delete_extent_ok [OF soe(1) this]
      have "ei_soe s1 = Some (soe\<lparr>soe_extents := extent_list_delete ?st e (soe_extents soe)\<rparr>)"
        using Some True by (simp add: s1_def soe_delete_def over_def)
      moreover have "el_set (soe_extents soe) - {e} = {x \<in> el_set (ei_extents s) - {e}. over ?st (soe_pos soe) x}" unfolding soe(2) by blast
      ultimately show ?thesis using D X by (simp add: extents_ok_def soe_ok_def s1)
    next
      case False
      then have "ei_soe s1 = Some soe" using Some by (auto simp: s1_def soe_delete_def over_def)
      moreover have "el_set (soe_extents soe) = {x \<in> el_set (ei_extents s) - {e}. over ?st (soe_pos soe) x}" unfolding soe(2) using False by blast
      ultimately show ?thesis using D soe(1) by (simp add: extents_ok_def soe_ok_def s1)
    qed
  qed
  moreover have "e \<notin> el_set (ei_extents s1)" using D(2) s1(2) by simp
  ultimately have "extents_ok (set_ends e (- 1) (- 1) s1)" by (rule set_ends_ok)
  moreover have "\<not> extent_detached_p (?st e)" using el_okD(4) [OF el e] by (simp add: extent_detached_p_def)
  then have "extent_detach e s = set_ends e (- 1) (- 1) s1" by (simp add: extent_detach_def s1_def)
  ultimately show ?thesis using D(2) s1 by (simp add: set_ends_def)
qed

text \<open>Attaching and detaching do not move the stack.\<close>

lemma soe_pos_kept:
  "map_option soe_pos (ei_soe (extent_attach e s)) = map_option soe_pos (ei_soe s)"
  "map_option soe_pos (ei_soe (set_ends e x y s)) = map_option soe_pos (ei_soe s)"
  "map_option soe_pos (ei_soe (extent_detach e s)) = map_option soe_pos (ei_soe s)"
  by (cases "ei_soe s"; simp add: extent_attach_def soe_insert_def extent_detach_def soe_delete_def set_ends_def)+

lemma endpoints_soe_pos: "map_option soe_pos (ei_soe (set_extent_endpoints_1 e x y s)) = map_option soe_pos (ei_soe s)"
  by (simp add: set_extent_endpoints_1_def soe_pos_kept)

lemma endpoints_ok:
  assumes ok: "extents_ok s" and e: "e \<in> el_set (ei_extents s) \<longleftrightarrow> \<not> extent_detached_p (ei_store s e)" and xy: "0 \<le> x" "x \<le> y"
  shows "extents_ok (set_extent_endpoints_1 e x y s) \<and>
    el_set (ei_extents (set_extent_endpoints_1 e x y s)) = insert e (el_set (ei_extents s)) \<and>
    ei_store (set_extent_endpoints_1 e x y s) = (ei_store s)(e := (ei_store s e)\<lparr>extent_start := x, extent_end := y\<rparr>)"
proof (cases "\<not> extent_detached_p (ei_store s e) \<and> extent_start (ei_store s e) = x \<and> extent_end (ei_store s e) = y")
  case True
  then have "(ei_store s e)\<lparr>extent_start := x, extent_end := y\<rparr> = ei_store s e" by (cases "ei_store s e") simp
  then have "(ei_store s)(e := (ei_store s e)\<lparr>extent_start := x, extent_end := y\<rparr>) = ei_store s" by simp
  moreover have "set_extent_endpoints_1 e x y s = s" using True by (simp add: set_extent_endpoints_1_def)
  ultimately show ?thesis using ok True e by (simp add: insert_absorb)
next
  case False
  define s1 where "s1 = (if extent_detached_p (ei_store s e) then s else extent_detach e s)"
  have s1: "extents_ok s1" "el_set (ei_extents s1) = el_set (ei_extents s) - {e}"
    "(ei_store s1)(e := (ei_store s1 e)\<lparr>extent_start := x, extent_end := y\<rparr>) = (ei_store s)(e := (ei_store s e)\<lparr>extent_start := x, extent_end := y\<rparr>)"
    using ok e detach_ok [OF ok, of e] by (auto simp: s1_def)
  have s2: "extents_ok (set_ends e x y s1)" using set_ends_ok [OF s1(1)] s1(2) by blast
  have "set_extent_endpoints_1 e x y s = extent_attach e (set_ends e x y s1)"
    using False unfolding set_extent_endpoints_1_def s1_def by (simp only: if_False)
  then show ?thesis using attach_ok [OF s2, of e] xy s1(2,3) by (simp add: set_ends_def)
qed

text \<open>
  Moving the stack of extents to a position, from wherever it is, makes it hold exactly the
  extents of the buffer that start at or before the position and end at or after it, and leaves the
  extents as they are.
\<close>

theorem soe_move_spec:
  assumes ok: "extents_ok s"
  shows "extents_ok (soe_move pos s) \<and> ei_extents (soe_move pos s) = ei_extents s \<and> ei_store (soe_move pos s) = ei_store s \<and>
    (\<exists>soe. ei_soe (soe_move pos s) = Some soe \<and> soe_pos soe = pos \<and>
      el_set (soe_extents soe) = {e \<in> el_set (ei_extents s). extent_start (ei_store s e) \<le> pos \<and> pos \<le> extent_end (ei_store s e)})"
  using soe_move_ok [OF ok, of pos] unfolding over_def by blast

text \<open>
  Property C19: giving an extent new ends, whether it was attached or not, puts it into the list of extents
  with these ends; the list stays sorted in both orders, and the stack of extents keeps holding the
  extents over its position.
\<close>

theorem set_extent_endpoints_spec:
  assumes "extents_ok s" and "e \<in> el_set (ei_extents s) \<longleftrightarrow> \<not> extent_detached_p (ei_store s e)" and "0 \<le> x" and "x \<le> y"
  shows "extents_ok (set_extent_endpoints_1 e x y s) \<and>
    el_set (ei_extents (set_extent_endpoints_1 e x y s)) = insert e (el_set (ei_extents s)) \<and>
    ei_store (set_extent_endpoints_1 e x y s) = (ei_store s)(e := (ei_store s e)\<lparr>extent_start := x, extent_end := y\<rparr>)"
  using endpoints_ok [OF assms] .

text \<open>A buffer with three extents, made by the operations.\<close>

definition no_extents :: extent_info where
  "no_extents = \<lparr>ei_store = (\<lambda>_. (fake_extent (- 1))\<lparr>extent_end := - 1\<rparr>), ei_extents = allocate_extent_list, ei_soe = Some allocate_soe\<rparr>"

definition sample_extents :: extent_info where
  "sample_extents = set_extent_endpoints_1 2 4 9 (set_extent_endpoints_1 1 2 6 (set_extent_endpoints_1 0 5 5 no_extents))"

lemma sample_extents_ok: "extents_ok sample_extents" "el_set (ei_extents sample_extents) = {0, 1, 2}"
  "extent_start (ei_store sample_extents 0) = 5" "extent_end (ei_store sample_extents 0) = 5"
  "extent_start (ei_store sample_extents 1) = 2" "extent_end (ei_store sample_extents 1) = 6"
  "extent_start (ei_store sample_extents 2) = 4" "extent_end (ei_store sample_extents 2) = 9"
proof -
  have n: "extents_ok no_extents" using empty_list_ok allocate_soe_ok [of _ allocate_extent_list] by (simp add: no_extents_def extents_ok_def)
  have d: "extent_detached_p (ei_store no_extents e)" "e \<notin> el_set (ei_extents no_extents)" for e
    by (simp_all add: no_extents_def extent_detached_p_def empty_list_ok fake_extent_def)
  define s1 where "s1 = set_extent_endpoints_1 0 5 5 no_extents"
  have 1: "extents_ok s1" "el_set (ei_extents s1) = {0}" "ei_store s1 = (ei_store no_extents)(0 := (ei_store no_extents 0)\<lparr>extent_start := 5, extent_end := 5\<rparr>)"
    using endpoints_ok [OF n, of 0 5 5] d empty_list_ok unfolding s1_def by (auto simp: no_extents_def)
  define s2 where "s2 = set_extent_endpoints_1 1 2 6 s1"
  have 2: "extents_ok s2" "el_set (ei_extents s2) = {0, 1}" "ei_store s2 = (ei_store s1)(1 := (ei_store s1 1)\<lparr>extent_start := 2, extent_end := 6\<rparr>)"
    using endpoints_ok [OF 1(1), of 1 2 6] 1(2,3) d unfolding s2_def by auto
  have "sample_extents = set_extent_endpoints_1 2 4 9 s2" by (simp add: sample_extents_def s1_def s2_def)
  then have 3: "extents_ok sample_extents" "el_set (ei_extents sample_extents) = {0, 1, 2}"
    "ei_store sample_extents = (ei_store s2)(2 := (ei_store s2 2)\<lparr>extent_start := 4, extent_end := 9\<rparr>)"
    using endpoints_ok [OF 2(1), of 2 4 9] 2(2,3) 1(3) d by auto
  then show "extents_ok sample_extents" "el_set (ei_extents sample_extents) = {0, 1, 2}"
    "extent_start (ei_store sample_extents 0) = 5" "extent_end (ei_store sample_extents 0) = 5"
    "extent_start (ei_store sample_extents 1) = 2" "extent_end (ei_store sample_extents 1) = 6"
    "extent_start (ei_store sample_extents 2) = 4" "extent_end (ei_store sample_extents 2) = 9" by (simp_all add: 1(3) 2(3))
qed

theorem soe_move_spec_witness:
  "\<exists>soe. ei_soe (soe_move 7 (soe_move 5 sample_extents)) = Some soe \<and> soe_pos soe = 7 \<and> el_set (soe_extents soe) = {2}"
proof -
  note M = soe_move_spec [OF sample_extents_ok(1), of 5]
  then have same: "extents_ok (soe_move 5 sample_extents)" "ei_extents (soe_move 5 sample_extents) = ei_extents sample_extents"
    "ei_store (soe_move 5 sample_extents) = ei_store sample_extents" by simp_all
  have "{e \<in> {0, 1, 2}. extent_start (ei_store sample_extents e) \<le> 7 \<and> 7 \<le> extent_end (ei_store sample_extents e)} = {2}"
    using sample_extents_ok(3-8) by auto
  then show ?thesis using soe_move_spec [OF same(1), of 7] unfolding same(2,3) sample_extents_ok(2) by metis
qed

theorem set_extent_endpoints_spec_witness:
  "extents_ok (set_extent_endpoints_1 1 3 8 sample_extents) \<and>
   extent_end (ei_store (set_extent_endpoints_1 1 3 8 sample_extents) 1) = 8"
  using set_extent_endpoints_spec [OF sample_extents_ok(1), of 1 3 8] sample_extents_ok(2,5) by (simp add: extent_detached_p_def)

end
