(* ===== verification/ExtentMap.thy ===== *)
theory ExtentMap
  imports ExtentSoe BufferGap Int32
begin

text \<open>
  Mapping over extents (\<open>src/src/extents.c\<close>) and what insertion, deletion and motion of the gap do to them.
  Extents belong to a buffer, whose gap is given by \<open>b\<close> (in a string, memory and byte indices
  are the same). The mapped function may change extents, which is followed with a marker in the list;
  it does not change the text, so there is no extent for the range. Endpoint indices, and the distances ends are moved by, are 32 bits wide.
\<close>

section \<open>Regions\<close>

datatype all_extents = As_they_are | ALL_EXTENTS_CLOSED | ALL_EXTENTS_OPEN | ALL_EXTENTS_CLOSED_OPEN | ALL_EXTENTS_OPEN_CLOSED

datatype in_region = Overlap | START_IN_REGION | END_IN_REGION | START_AND_END_IN_REGION | START_OR_END_IN_REGION

record me_flags =
  ME_END_CLOSED :: bool
  ME_START_OPEN :: bool
  ME_ALL_EXTENTS :: all_extents
  ME_IN_REGION :: in_region
  ME_NEGATE_IN_REGION :: bool
  ME_INCLUDE_INTERNAL :: bool
  ME_MIGHT_MODIFY_EXTENTS :: bool
  ME_MIGHT_MOVE_SOE :: bool

text \<open>\<open>Endpoint_Index\<close> is an \<open>int\<close>, 32 bits, though the memory index is wider.\<close>

definition memind_to_startind :: "int \<Rightarrow> bool \<Rightarrow> int" where
  "memind_to_startind x start_open = to_int32 (push_bit 1 x + of_bool start_open)"

definition memind_to_endind :: "int \<Rightarrow> bool \<Rightarrow> int" where
  "memind_to_endind x end_open = to_int32 (push_bit 1 x - of_bool end_open)"

definition extent_in_region_p :: "buffer_text \<Rightarrow> extent \<Rightarrow> int \<Rightarrow> int \<Rightarrow> me_flags \<Rightarrow> bool" where
  "extent_in_region_p b e from to flags =
     (let (end_closed, region_start_open) = (if from = to then (True, False) else (ME_END_CLOSED flags, ME_START_OPEN flags));
          (start_open, end_open) =
            (if extent_start e = extent_end e then (False, False)
             else case ME_ALL_EXTENTS flags of
                    As_they_are \<Rightarrow> (extent_start_open e, extent_end_open e)
                  | ALL_EXTENTS_CLOSED \<Rightarrow> (False, False)
                  | ALL_EXTENTS_OPEN \<Rightarrow> (True, True)
                  | ALL_EXTENTS_CLOSED_OPEN \<Rightarrow> (False, True)
                  | ALL_EXTENTS_OPEN_CLOSED \<Rightarrow> (True, False));
          start = memind_to_startind (bytind_to_memind b from) region_start_open;
          fin = memind_to_endind (bytind_to_memind b to) (\<not> end_closed);
          exs = memind_to_startind (extent_start e) start_open;
          exe = memind_to_endind (extent_end e) end_open
      in if exs > fin \<or> exe < start then False
         else let retval = (case ME_IN_REGION flags of
                              Overlap \<Rightarrow> True
                            | START_IN_REGION \<Rightarrow> start \<le> exs \<and> exs \<le> fin
                            | END_IN_REGION \<Rightarrow> start \<le> exe \<and> exe \<le> fin
                            | START_AND_END_IN_REGION \<Rightarrow> start \<le> exs \<and> exe \<le> fin
                            | START_OR_END_IN_REGION \<Rightarrow> start \<le> exs \<and> exs \<le> fin \<or> start \<le> exe \<and> exe \<le> fin)
              in if ME_NEGATE_IN_REGION flags then \<not> retval else retval)"

section \<open>Markers in extent lists\<close>

definition set_el_array :: "bool \<Rightarrow> nat gap_array \<Rightarrow> extent_list \<Rightarrow> extent_list" where
  "set_el_array endp ga el = (if endp then el\<lparr>el_end := ga\<rparr> else el\<lparr>el_start := ga\<rparr>)"

definition extent_list_make_marker :: "nat \<Rightarrow> nat \<Rightarrow> bool \<Rightarrow> extent_list \<Rightarrow> extent_list" where
  "extent_list_make_marker m pos endp el =
     (set_el_array endp (gap_array_make_marker m (int pos) (el_array endp el)) el)\<lparr>el_markers := (m, endp) # el_markers el\<rparr>"

definition extent_list_move_marker :: "nat \<Rightarrow> nat \<Rightarrow> bool \<Rightarrow> extent_list \<Rightarrow> extent_list" where
  "extent_list_move_marker m pos endp el = set_el_array endp (gap_array_move_marker m (int pos) (el_array endp el)) el"

definition extent_list_marker_pos :: "nat \<Rightarrow> bool \<Rightarrow> extent_list \<Rightarrow> int" where
  "extent_list_marker_pos m endp el =
     (case map_of (ga_markers (el_array endp el)) m of None \<Rightarrow> 0 | Some p \<Rightarrow> GAP_ARRAY_MEMORY_TO_ARRAY_POS (el_array endp el) p)"

definition extent_list_delete_marker :: "nat \<Rightarrow> bool \<Rightarrow> extent_list \<Rightarrow> extent_list" where
  "extent_list_delete_marker m endp el =
     (set_el_array endp (gap_array_delete_marker m (el_array endp el)) el)\<lparr>el_markers := remove1 (m, endp) (el_markers el)\<rparr>"

section \<open>Mapping\<close>

text \<open>The list of a stage: that of the stack of extents, then that of the buffer.\<close>

definition stage_list :: "bool \<Rightarrow> extent_info \<Rightarrow> extent_list" where
  "stage_list range_stage s =
     (if range_stage then ei_extents s else case ei_soe s of None \<Rightarrow> allocate_extent_list | Some soe \<Rightarrow> soe_extents soe)"

definition set_stage_list :: "bool \<Rightarrow> extent_list \<Rightarrow> extent_info \<Rightarrow> extent_info" where
  "set_stage_list range_stage el s =
     (if range_stage then s\<lparr>ei_extents := el\<rparr> else s\<lparr>ei_soe := map_option (\<lambda>soe. soe\<lparr>soe_extents := el\<rparr>) (ei_soe s)\<rparr>)"

text \<open>
  The loop of a stage. With \<open>posm = Some m\<close> the position is that of the marker \<open>m\<close>. The function returns
  whether to stop. The result has the state, \<open>after\<close> as it is then, and whether mapping was stopped.
\<close>

partial_function (option) map_extents_loop ::
    "buffer_text \<Rightarrow> me_flags \<Rightarrow> (nat \<Rightarrow> extent_info \<Rightarrow> 'c \<Rightarrow> bool \<times> extent_info \<times> 'c) \<Rightarrow> int \<Rightarrow> int \<Rightarrow> bool \<Rightarrow> bool \<Rightarrow> nat option \<Rightarrow>
     nat \<Rightarrow> nat option \<Rightarrow> extent_info \<Rightarrow> 'c \<Rightarrow> (bool \<times> nat option \<times> extent_info \<times> 'c) option" where
  "map_extents_loop b flags fn st en range_stage endp posm pos0 after s arg =
     (let el = stage_list range_stage s;
          pos = (case posm of None \<Rightarrow> pos0 | Some m \<Rightarrow> nat (extent_list_marker_pos m endp el))
      in if pos \<ge> extent_list_num_els el then Some (False, after, s, arg)
         else let e = extent_list_at el pos endp;
                  s1 = (case posm of None \<Rightarrow> s | Some m \<Rightarrow> set_stage_list range_stage (extent_list_move_marker m (pos + 1) endp el) s);
                  x = ei_store s e
              in if extent_internal x \<and> \<not> ME_INCLUDE_INTERNAL flags \<or> (case after of None \<Rightarrow> False | Some a \<Rightarrow> \<not> EXTENT_LESS (ei_store s a) x)
                 then map_extents_loop b flags fn st en range_stage endp posm (pos + 1) after s1 arg
                 else if extent_endpoint x endp > en then Some (False, None, s1, arg)
                 else if extent_in_region_p b x (memind_to_bytind b st) (memind_to_bytind b en) flags
                 then let r = fn e s1 arg
                      in if fst r then Some (True, None, snd r)
                         else map_extents_loop b flags fn st en range_stage endp posm (pos + 1) None (fst (snd r)) (snd (snd r))
                 else map_extents_loop b flags fn st en range_stage endp posm (pos + 1) None s1 arg)"

text \<open>One stage, with the marker \<open>m\<close> made at its start and deleted at its end.\<close>

definition map_extents_stage ::
    "buffer_text \<Rightarrow> me_flags \<Rightarrow> (nat \<Rightarrow> extent_info \<Rightarrow> 'c \<Rightarrow> bool \<times> extent_info \<times> 'c) \<Rightarrow> nat \<Rightarrow> int \<Rightarrow> int \<Rightarrow> bool \<Rightarrow> bool \<Rightarrow>
     nat \<Rightarrow> nat option \<Rightarrow> extent_info \<Rightarrow> 'c \<Rightarrow> (bool \<times> nat option \<times> extent_info \<times> 'c) option" where
  "map_extents_stage b flags fn m st en range_stage endp pos after s arg =
     (if ME_MIGHT_MODIFY_EXTENTS flags
      then let s1 = set_stage_list range_stage (extent_list_make_marker m pos endp (stage_list range_stage s)) s
           in map_option (\<lambda>(stop, after', s2, arg'). (stop, after', set_stage_list range_stage (extent_list_delete_marker m endp (stage_list range_stage s2)) s2, arg'))
                (map_extents_loop b flags fn st en range_stage endp (Some m) pos after s1 arg)
      else map_extents_loop b flags fn st en range_stage endp None pos after s arg)"

text \<open>Where to start: whether the stack of extents is mapped over, and the index in the list of the buffer.\<close>

datatype range_start = Include_start | Exclude_start | Start_at nat

definition map_extents_start :: "me_flags \<Rightarrow> int \<Rightarrow> extent_info \<Rightarrow> extent_info \<times> bool \<times> bool \<times> range_start" where
  "map_extents_start flags st s =
     (if (ME_IN_REGION flags = START_IN_REGION \<or> ME_IN_REGION flags = START_AND_END_IN_REGION) \<and> \<not> ME_NEGATE_IN_REGION flags
      then (s, False, False, Include_start)
      else if ME_IN_REGION flags = END_IN_REGION \<and> \<not> ME_NEGATE_IN_REGION flags
      then (s, False, True, Include_start)
      else let s1 = soe_move st s; sel = stage_list False s1
           in if extent_list_num_els sel \<noteq> 0
              then if ME_MIGHT_MOVE_SOE flags
                   then let e = extent_list_at sel 0 False
                        in (s1, False, False, Start_at (fst (extent_list_locate (ei_store s1) (ei_extents s1) (Some e) (ei_store s1 e) False)))
                   else (s1, True, False, Exclude_start)
              else (s1, False, False, Include_start))"

definition map_extents_bytind ::
    "buffer_text \<Rightarrow> int \<Rightarrow> int \<Rightarrow> (nat \<Rightarrow> extent_info \<Rightarrow> 'c \<Rightarrow> bool \<times> extent_info \<times> 'c) \<Rightarrow> nat \<Rightarrow> nat option \<Rightarrow> me_flags \<Rightarrow>
     extent_info \<Rightarrow> 'c \<Rightarrow> (extent_info \<times> 'c) option" where
  "map_extents_bytind b from to fn m after flags s arg =
     (if extent_list_num_els (ei_extents s) = 0 then Some (s, arg)
      else let st = bytind_to_memind b from; en = bytind_to_memind b to;
               (s1, do_soe, endp, start) = map_extents_start flags st s;
               r1 = (if do_soe then map_extents_stage b flags fn m st en False endp 0 after s1 arg else Some (False, after, s1, arg))
           in case r1 of
                None \<Rightarrow> None
              | Some (stop, after', s2, arg') \<Rightarrow>
                  if stop then Some (s2, arg')
                  else let pos = (case start of
                                    Include_start \<Rightarrow> extent_list_locate_from_pos (ei_store s2) (ei_extents s2) st endp
                                  | Exclude_start \<Rightarrow> extent_list_locate_from_pos (ei_store s2) (ei_extents s2) (st + 1) endp
                                  | Start_at k \<Rightarrow> k)
                       in map_option (\<lambda>(stop, after'', s3, arg''). (s3, arg'')) (map_extents_stage b flags fn m st en True endp pos after' s2 arg'))"

section \<open>What editing does to extents\<close>

definition process_extents_for_insertion_mapper :: "int \<Rightarrow> int \<Rightarrow> nat \<Rightarrow> extent_info \<Rightarrow> unit \<Rightarrow> bool \<times> extent_info \<times> unit" where
  "process_extents_for_insertion_mapper indice len e s arg =
     (let x = ei_store s e; new_start = extent_start x; new_end = extent_end x;
          new_start' = (if indice = extent_start x \<and> extent_start_open x \<and> \<not> (new_start = new_end \<and> extent_end_open x)
                        then new_start + len else new_start);
          new_end' = (if indice = extent_end x \<and> \<not> extent_end_open x then new_end + len else new_end)
      in (False, set_extent_endpoints_1 e new_start' new_end' s, ()))"

definition no_me_flags :: me_flags where
  "no_me_flags = \<lparr>ME_END_CLOSED = False, ME_START_OPEN = False, ME_ALL_EXTENTS = As_they_are, ME_IN_REGION = Overlap,
     ME_NEGATE_IN_REGION = False, ME_INCLUDE_INTERNAL = False, ME_MIGHT_MODIFY_EXTENTS = False, ME_MIGHT_MOVE_SOE = False\<rparr>"

definition process_extents_for_insertion :: "buffer_text \<Rightarrow> int \<Rightarrow> int \<Rightarrow> nat \<Rightarrow> extent_info \<Rightarrow> extent_info option" where
  "process_extents_for_insertion b opoint len m s =
     map_option fst (map_extents_bytind b opoint (opoint + len) (process_extents_for_insertion_mapper (bytind_to_memind b opoint) len) m None
       (no_me_flags\<lparr>ME_END_CLOSED := True, ME_MIGHT_MODIFY_EXTENTS := True, ME_INCLUDE_INTERNAL := True\<rparr>) s ())"

definition process_extents_for_deletion_mapper :: "int \<Rightarrow> int \<Rightarrow> nat \<Rightarrow> extent_info \<Rightarrow> unit \<Rightarrow> bool \<times> extent_info \<times> unit" where
  "process_extents_for_deletion_mapper start fin e s arg =
     (if start \<le> extent_start (ei_store s e) \<and> extent_end (ei_store s e) \<le> fin \<and> extent_detachable (ei_store s e)
      then (False, extent_detach e s, ()) else (False, s, ()))"

definition process_extents_for_deletion :: "buffer_text \<Rightarrow> int \<Rightarrow> int \<Rightarrow> nat \<Rightarrow> extent_info \<Rightarrow> extent_info option" where
  "process_extents_for_deletion b from to m s =
     map_option fst (map_extents_bytind b from to
       (process_extents_for_deletion_mapper (bytind_to_memind b from) (bytind_to_memind b to)) m None
       (no_me_flags\<lparr>ME_END_CLOSED := True, ME_MIGHT_MODIFY_EXTENTS := True\<rparr>) s ())"

text \<open>
  \<open>adjust_extents\<close>, for the motion of the gap: the extents are changed in place. The amount is passed
  as an \<open>int\<close>.
\<close>

function adjust_endpoints :: "int \<Rightarrow> int \<Rightarrow> int \<Rightarrow> bool \<Rightarrow> extent_list \<Rightarrow> nat \<Rightarrow> extent_store \<Rightarrow> extent_store" where
  "adjust_endpoints from to amount endp el pos st =
     (if pos < extent_list_num_els el
      then let e = extent_list_at el pos endp
           in if extent_endpoint (st e) endp > to then st
              else adjust_endpoints from to amount endp el (pos + 1)
                     (st(e := (if endp then (st e)\<lparr>extent_end := do_marker_adjustment (extent_end (st e)) from to amount\<rparr>
                               else (st e)\<lparr>extent_start := do_marker_adjustment (extent_start (st e)) from to amount\<rparr>)))
      else st)"
  by pat_completeness auto
termination
  by (relation "measure (\<lambda>(from, to, amount, endp, el, pos, st). extent_list_num_els el - pos)") auto

declare adjust_endpoints.simps [simp del]

definition adjust_extents :: "int \<Rightarrow> int \<Rightarrow> int \<Rightarrow> extent_info \<Rightarrow> extent_info" where
  "adjust_extents from to amount0 s =
     (let amount = to_int32 amount0; el = ei_extents s; st = ei_store s
      in if extent_list_num_els el = 0 then s
         else let startpos0 = extent_list_locate_from_pos st el (from + 1) False;
                  startpos1 = extent_list_locate_from_pos st el (from + 1) True;
                  st1 = adjust_endpoints from to amount False el startpos0 st;
                  st2 = adjust_endpoints from to amount True el startpos1 st1
              in s\<lparr>ei_store := st2,
                   ei_soe := map_option (\<lambda>soe. if soe_pos soe \<ge> 0 then soe\<lparr>soe_pos := do_marker_adjustment (soe_pos soe) from to amount\<rparr> else soe) (ei_soe s)\<rparr>)"

text \<open>
  \<open>adjust_extents_for_deletion\<close>: the extents are collected first, then taken out and put in one by one,
  with the stack of extents at its old position for taking out and at its new one for putting in. A
  stack of extents that is made only by the collection is not moved. The sizes are passed as \<open>int\<close>.
\<close>

definition set_soe_pos :: "int \<Rightarrow> extent_info \<Rightarrow> extent_info" where
  "set_soe_pos p s = s\<lparr>ei_soe := map_option (\<lambda>soe. soe\<lparr>soe_pos := p\<rparr>) (ei_soe s)\<rparr>"

fun adjust_deletion_loop :: "int \<Rightarrow> int \<Rightarrow> (int \<times> int) option \<Rightarrow> nat list \<Rightarrow> extent_info \<Rightarrow> extent_info" where
  "adjust_deletion_loop adjust_to amount soe [] s = s"
| "adjust_deletion_loop adjust_to amount soe (e # es) s =
     (let x = ei_store s e;
          new_start = do_marker_adjustment (extent_start x) adjust_to adjust_to amount;
          new_end = do_marker_adjustment (extent_end x) adjust_to adjust_to amount;
          place = (\<lambda>new s. case soe of None \<Rightarrow> s | Some (oldsoe, newsoe) \<Rightarrow> set_soe_pos (if new then newsoe else oldsoe) s)
      in adjust_deletion_loop adjust_to amount soe es
           (if new_start \<noteq> extent_start x \<or> new_end \<noteq> extent_end x
            then place False (extent_attach e (place True (set_ends e new_start new_end (extent_detach e s))))
            else s))"

definition adjust_extents_for_deletion :: "buffer_text \<Rightarrow> int \<Rightarrow> int \<Rightarrow> int \<Rightarrow> int \<Rightarrow> int \<Rightarrow> extent_info \<Rightarrow> extent_info option" where
  "adjust_extents_for_deletion b from to gs0 numdel0 movegapsize0 s =
     (let gs = to_int32 gs0; numdel = to_int32 numdel0; movegapsize = to_int32 movegapsize0;
          adjust_to = to + gs; amount = to_int32 (- numdel - movegapsize);
          flags = no_me_flags\<lparr>ME_ALL_EXTENTS := ALL_EXTENTS_CLOSED, ME_END_CLOSED := True, ME_IN_REGION := START_OR_END_IN_REGION, ME_INCLUDE_INTERNAL := True\<rparr>
      in case map_extents_bytind b from to (\<lambda>e s es. (False, s, es @ [e])) 0 None flags s [] of
           None \<Rightarrow> None
         | Some (s1, es) \<Rightarrow>
             (case (if ei_soe s = None then None else ei_soe s1) of
                None \<Rightarrow> Some (adjust_deletion_loop adjust_to amount None es s1)
              | Some soe \<Rightarrow>
                  let newsoe = (if soe_pos soe \<ge> 0 then do_marker_adjustment (soe_pos soe) adjust_to adjust_to amount else soe_pos soe)
                  in Some (set_soe_pos newsoe (adjust_deletion_loop adjust_to amount (Some (soe_pos soe, newsoe)) es s1))))"

end
