(* ===== verification/ExtentMapProps.thy ===== *)
theory ExtentMapProps
  imports ExtentMap
begin

text \<open>
  Mapping without changes visits exactly the extents in the region, once each; the motion of the gap
  changes no extent as seen from the text.
\<close>

section \<open>Mapping over a list\<close>

fun run_until :: "('a \<Rightarrow> 'c \<Rightarrow> bool \<times> 'c) \<Rightarrow> 'a list \<Rightarrow> 'c \<Rightarrow> bool \<times> 'c" where
  "run_until g [] c = (False, c)"
| "run_until g (e # es) c = (let (stop, c') = g e c in if stop then (True, c') else run_until g es c')"

lemma run_until_append: "run_until g (xs @ ys) c = (let (stop, c') = run_until g xs c in if stop then (True, c') else run_until g ys c')"
  by (induction xs arbitrary: c) (auto simp: Let_def case_prod_beta)

text \<open>The extents visited in a stage that looks at the extents of \<open>ys\<close>.\<close>

definition skipped :: "me_flags \<Rightarrow> extent \<Rightarrow> bool" where
  "skipped flags x \<longleftrightarrow> extent_internal x \<and> \<not> ME_INCLUDE_INTERNAL flags"

definition in_region_at :: "buffer_text \<Rightarrow> me_flags \<Rightarrow> int \<Rightarrow> int \<Rightarrow> extent \<Rightarrow> bool" where
  "in_region_at b flags st en x = extent_in_region_p b x (memind_to_bytind b st) (memind_to_bytind b en) flags"

definition visited :: "buffer_text \<Rightarrow> me_flags \<Rightarrow> int \<Rightarrow> int \<Rightarrow> bool \<Rightarrow> extent_store \<Rightarrow> nat list \<Rightarrow> nat list" where
  "visited b flags st en endp store ys =
     filter (\<lambda>e. \<not> skipped flags (store e) \<and> in_region_at b flags st en (store e))
       (takeWhile (\<lambda>e. skipped flags (store e) \<or> extent_endpoint (store e) endp \<le> en) ys)"

definition pure_mapper :: "(nat \<Rightarrow> 'c \<Rightarrow> bool \<times> 'c) \<Rightarrow> nat \<Rightarrow> extent_info \<Rightarrow> 'c \<Rightarrow> bool \<times> extent_info \<times> 'c" where
  "pure_mapper g e s c = (let (stop, c') = g e c in (stop, s, c'))"

lemma map_extents_loop_pure:
  fixes endp :: bool
  assumes ok: "el_ok (ei_store s) (stage_list rs s)"
  defines "xs \<equiv> ga_contents (el_array endp (stage_list rs s))"
  shows "map_extents_loop b flags (pure_mapper g) st en rs endp None pos None s c =
    Some (let (stop, c') = run_until g (visited b flags st en endp (ei_store s) (drop pos xs)) c in (stop, None, s, c'))"
proof (induction "length xs - pos" arbitrary: pos c)
  case 0
  have n: "extent_list_num_els (stage_list rs s) = length xs"
    using el_okD(3,5) [OF ok] length_ga_contents [OF el_orderedD(1) [OF el_okD(1) [OF ok]]] unfolding xs_def by metis
  then show ?case using 0 by (subst map_extents_loop.simps) (simp add: visited_def)
next
  case (Suc k)
  note O = el_orderedD(1) [OF el_okD(1) [OF ok, of endp]]
  have n: "extent_list_num_els (stage_list rs s) = length xs" "numels (el_array endp (stage_list rs s)) = length xs"
    using el_okD(3,5) [OF ok] length_ga_contents [OF O] unfolding xs_def by simp_all
  have p: "pos < length xs" using Suc.hyps(2) by simp
  have at: "extent_list_at (stage_list rs s) pos endp = xs ! pos" using GAP_ARRAY_EL_nth [OF O] p n(2) by (simp add: extent_list_at_def xs_def)
  have d: "drop pos xs = xs ! pos # drop (Suc pos) xs" using Cons_nth_drop_Suc [OF p] by simp
  have IH: "map_extents_loop b flags (pure_mapper g) st en rs endp None (Suc pos) None s c' =
    Some (let (stop, c'') = run_until g (visited b flags st en endp (ei_store s) (drop (Suc pos) xs)) c' in (stop, None, s, c''))" for c'
    using Suc.hyps(1) [of "Suc pos"] Suc.hyps(2) by simp
  show ?case using p n(1) unfolding d
    by (subst map_extents_loop.simps)
      (auto simp: at Let_def IH visited_def skipped_def in_region_at_def pure_mapper_def case_prod_beta split: prod.splits)
qed

text \<open>Below one gigabyte, endpoint indices are memory indices doubled.\<close>

definition fits :: "int \<Rightarrow> bool" where
  "fits x \<longleftrightarrow> 0 \<le> x \<and> x < 2 ^ 30"

definition ends_fit :: "extent \<Rightarrow> bool" where
  "ends_fit x \<longleftrightarrow> fits (extent_start x) \<and> fits (extent_end x)"

lemma fits_index: "fits x \<Longrightarrow> memind_to_startind x p = 2 * x + of_bool p \<and> memind_to_endind x p = 2 * x - of_bool p"
  by (cases p) (simp_all add: fits_def memind_to_startind_def memind_to_endind_def push_bit_eq_mult)

lemma fits_pos: "gap_ok b \<Longrightarrow> bufz b + gap_size b < 2 ^ 30 \<Longrightarrow> 1 \<le> p \<Longrightarrow> p \<le> bufz b \<Longrightarrow> fits (bytind_to_memind b p)"
  by (auto simp: fits_def bytind_to_memind_def gap_ok_def)

text \<open>Extents in the region touch it, and lie in it as the flags ask for.\<close>

lemma in_region_touches:
  assumes g: "gap_ok b" and ft: "1 \<le> from" "from \<le> bufz b" "1 \<le> to" "to \<le> bufz b" and r: "extent_in_region_p b x from to flags"
    and big: "bufz b + gap_size b < 2 ^ 30" and x: "ends_fit x"
  shows "extent_start x \<le> bytind_to_memind b to" "bytind_to_memind b from \<le> extent_end x"
    "ME_IN_REGION flags = START_IN_REGION \<or> ME_IN_REGION flags = START_AND_END_IN_REGION \<Longrightarrow> \<not> ME_NEGATE_IN_REGION flags \<Longrightarrow> bytind_to_memind b from \<le> extent_start x"
    "ME_IN_REGION flags = END_IN_REGION \<Longrightarrow> \<not> ME_NEGATE_IN_REGION flags \<Longrightarrow> extent_end x \<le> bytind_to_memind b to"
proof -
  obtain end_closed rso where 1: "(if from = to then (True, False) else (ME_END_CLOSED flags, ME_START_OPEN flags)) = (end_closed, rso)"
    by (metis surj_pair)
  obtain so eo where 2: "(if extent_start x = extent_end x then (False, False)
             else case ME_ALL_EXTENTS flags of
                    As_they_are \<Rightarrow> (extent_start_open x, extent_end_open x)
                  | ALL_EXTENTS_CLOSED \<Rightarrow> (False, False)
                  | ALL_EXTENTS_OPEN \<Rightarrow> (True, True)
                  | ALL_EXTENTS_CLOSED_OPEN \<Rightarrow> (False, True)
                  | ALL_EXTENTS_OPEN_CLOSED \<Rightarrow> (True, False)) = (so, eo)" by (metis surj_pair)
  have ob: "0 \<le> (of_bool p :: int)" "(of_bool p :: int) \<le> 1" for p by simp_all
  note ind = fits_index [OF fits_pos [OF g big ft(1,2)]] fits_index [OF fits_pos [OF g big ft(3,4)]]
    fits_index [OF conjunct1 [OF x [unfolded ends_fit_def]]] fits_index [OF conjunct2 [OF x [unfolded ends_fit_def]]]
  note ind = ind [THEN conjunct1] ind [THEN conjunct2]
  note r' = r [unfolded extent_in_region_p_def Let_def 1 2 prod.case ind]
  note r1 = conjunct1 [OF r' [unfolded if_bool_eq_conj]]
  have t: "2 * extent_start x + of_bool so \<le> 2 * bytind_to_memind b to - of_bool (\<not> end_closed)"
    "2 * bytind_to_memind b from + of_bool rso \<le> 2 * extent_end x - of_bool eo" using r1 by (meson not_le)+
  show "extent_start x \<le> bytind_to_memind b to" "bytind_to_memind b from \<le> extent_end x"
    using t ob [of so] ob [of "\<not> end_closed"] ob [of rso] ob [of eo] by linarith+
  show "bytind_to_memind b from \<le> extent_start x"
    if "ME_IN_REGION flags = START_IN_REGION \<or> ME_IN_REGION flags = START_AND_END_IN_REGION" "\<not> ME_NEGATE_IN_REGION flags"
  proof -
    have "2 * bytind_to_memind b from + of_bool rso \<le> 2 * extent_start x + of_bool so" using r1 conjunct2 [OF r' [unfolded if_bool_eq_conj]] that by (elim disjE) (simp_all only: in_region.case not_False_eq_True simp_thms)
    then show ?thesis using ob [of so] ob [of rso] by linarith
  qed
  show "extent_end x \<le> bytind_to_memind b to" if "ME_IN_REGION flags = END_IN_REGION" "\<not> ME_NEGATE_IN_REGION flags"
  proof -
    have "2 * extent_end x - of_bool eo \<le> 2 * bytind_to_memind b to - of_bool (\<not> end_closed)" using r1 conjunct2 [OF r' [unfolded if_bool_eq_conj]] that by (simp only: in_region.case not_False_eq_True simp_thms)
    then show ?thesis using ob [of eo] ob [of "\<not> end_closed"] by linarith
  qed
qed

lemma region_roundtrip:
  assumes "gap_ok b" and "1 \<le> from" "from \<le> bufz b" "1 \<le> to" "to \<le> bufz b"
  shows "in_region_at b flags (bytind_to_memind b from) (bytind_to_memind b to) x = extent_in_region_p b x from to flags"
  using bytind_memind(2) [OF assms(1)] assms by (simp add: in_region_at_def)

lemma endpoints_sorted:
  assumes "el_ok st el"
  shows "sorted_wrt (\<lambda>x y. extent_endpoint (st x) endp \<le> extent_endpoint (st y) endp) (ga_contents (el_array endp el))"
proof -
  note O = el_orderedD [OF el_okD(1) [OF assms]]
  have "extent_endpoint x endp \<le> extent_endpoint y endp" if "extent_less_equal endp x y" for x y
    using that by (cases endp) (auto simp: extent_orders extent_endpoint_def)
  then show ?thesis using O(3) length_ga_contents [OF O(1)] by (simp add: sorted_wrt_iff_nth_less)
qed

lemma takeWhile_sorted:
  assumes "sorted_wrt (\<lambda>x y. f x \<le> f y) ys" and "e \<in> set ys" and "f e \<le> (k :: int)"
  shows "e \<in> set (takeWhile (\<lambda>e. P e \<or> f e \<le> k) ys)"
  using assms by (induction ys) auto

lemma set_visited:
  assumes "sorted_wrt (\<lambda>x y. extent_endpoint (st x) endp \<le> extent_endpoint (st y) endp) ys"
    and "\<And>e. e \<in> set ys \<Longrightarrow> in_region_at b flags s0 en (st e) \<Longrightarrow> extent_endpoint (st e) endp \<le> en"
  shows "set (visited b flags s0 en endp st ys) = {e \<in> set ys. \<not> skipped flags (st e) \<and> in_region_at b flags s0 en (st e)}"
  using assms takeWhile_sorted [OF assms(1)] by (auto simp: visited_def dest: set_takeWhileD)

lemma visited_drop:
  assumes "el_ok st el" and "\<forall>x. ends_fit x \<longrightarrow> in_region_at b flags s0 en x \<longrightarrow> extent_endpoint x endp \<le> en"
    and "\<forall>e \<in> el_set el. ends_fit (st e)"
  defines "xs \<equiv> ga_contents (el_array endp el)"
  shows "set (visited b flags s0 en endp st (drop k xs)) = {e \<in> set (drop k xs). \<not> skipped flags (st e) \<and> in_region_at b flags s0 en (st e)}"
    "distinct (visited b flags s0 en endp st (drop k xs))"
proof -
  have "set (drop k xs) \<subseteq> el_set el" using set_drop_subset [of k xs] el_okD(2) [OF assms(1), of endp] by (auto simp: xs_def)
  then have "extent_endpoint (st e) endp \<le> en" if "e \<in> set (drop k xs)" "in_region_at b flags s0 en (st e)" for e
    using that assms(2,3) by blast
  from set_visited [OF sorted_wrt_drop [OF endpoints_sorted [OF assms(1), of endp, folded xs_def]] this]
  show "set (visited b flags s0 en endp st (drop k xs)) = {e \<in> set (drop k xs). \<not> skipped flags (st e) \<and> in_region_at b flags s0 en (st e)}" .
  show "distinct (visited b flags s0 en endp st (drop k xs))"
    using el_orderedD(2) [OF el_okD(1) [OF assms(1), of endp]] by (simp add: xs_def visited_def)
qed

text \<open>The stages together.\<close>

definition no_soe :: "me_flags \<Rightarrow> bool" where
  "no_soe flags \<longleftrightarrow> ME_IN_REGION flags \<in> {START_IN_REGION, START_AND_END_IN_REGION, END_IN_REGION} \<and> \<not> ME_NEGATE_IN_REGION flags"

lemma map_extents_pure:
  assumes ok: "extents_ok s" and g: "gap_ok b" and ft: "1 \<le> from" "from \<le> to" "to \<le> bufz b"
    and flags: "\<not> ME_MIGHT_MODIFY_EXTENTS flags" "\<not> ME_MIGHT_MOVE_SOE flags"
    and big: "bufz b + gap_size b < 2 ^ 30" and small: "\<forall>e \<in> el_set (ei_extents s). ends_fit (ei_store s e)"
  defines "st \<equiv> bytind_to_memind b from" and "en \<equiv> bytind_to_memind b to"
  shows "\<exists>es. distinct es \<and> set es = {e \<in> el_set (ei_extents s). \<not> skipped flags (ei_store s e) \<and> extent_in_region_p b (ei_store s e) from to flags} \<and>
    (\<forall>gf c. map_extents_bytind b from to (pure_mapper gf) m None flags s c =
      Some (if el_set (ei_extents s) = {} \<or> no_soe flags then s else soe_move st s, snd (run_until gf es c)))"
proof (cases "el_set (ei_extents s) = {}")
  case True
  have "el_ok (ei_store s) (ei_extents s)" using ok by (simp add: extents_ok_def)
  then have "extent_list_num_els (ei_extents s) = 0" using el_okD(5) True by force
  then show ?thesis using True by (intro exI [of _ "[]"]) (simp add: map_extents_bytind_def)
next
  case False
  let ?E = "el_set (ei_extents s)" and ?store = "ei_store s"
  have el: "el_ok ?store (ei_extents s)" using ok by (simp add: extents_ok_def)
  have n: "extent_list_num_els (ei_extents s) \<noteq> 0" using el_okD(5) [OF el] False by (simp add: el_set_def)
  have ft': "from \<le> bufz b" "1 \<le> to" using ft by simp_all
  note touch = in_region_touches [OF g ft(1) ft'(1) ft'(2) ft(3) _ big, folded st_def en_def]
  have at: "in_region_at b flags st en x = extent_in_region_p b x from to flags" for x
    unfolding st_def en_def using region_roundtrip [OF g ft(1) ft'(1) ft'(2) ft(3)] .
  let ?V = "\<lambda>ys. {e \<in> ys. \<not> skipped flags (?store e) \<and> in_region_at b flags st en (?store e)}"
  have range: "map_extents_stage b flags (pure_mapper gf) m st en True endp k None s1 c =
      Some (let (stop, c') = run_until gf (visited b flags st en endp ?store (drop k (ga_contents (el_array endp (ei_extents s))))) c in (stop, None, s1, c'))"
    if "ei_store s1 = ?store" "ei_extents s1 = ei_extents s" for endp k s1 gf c
    using map_extents_loop_pure [where s = s1 and rs = True and endp = endp and g = gf and pos = k] el that flags(1) by (simp add: map_extents_stage_def stage_list_def)
  have whole: "?V (set (drop (extent_list_locate_from_pos ?store (ei_extents s) p endp) (ga_contents (el_array endp (ei_extents s))))) = ?V ?E"
    if "\<forall>x. ends_fit x \<longrightarrow> in_region_at b flags st en x \<longrightarrow> p \<le> extent_endpoint x endp" for p endp
    using locate_cuts(3) [where endp = endp and pos = p, OF el refl] that small by auto
  show ?thesis
  proof (cases "no_soe flags")
    case True
    define endp where "endp = (ME_IN_REGION flags = END_IN_REGION)"
    define k where "k = extent_list_locate_from_pos ?store (ei_extents s) st endp"
    define es where "es = visited b flags st en endp ?store (drop k (ga_contents (el_array endp (ei_extents s))))"
    have "map_extents_start flags st s = (s, False, endp, Include_start)"
      using True by (auto simp: map_extents_start_def no_soe_def endp_def)
    then have "map_extents_bytind b from to (pure_mapper gf) m None flags s c = Some (s, snd (run_until gf es c))" for gf c
      using n unfolding map_extents_bytind_def Let_def st_def [symmetric] en_def [symmetric]
      by (simp add: range k_def [symmetric] es_def [symmetric] case_prod_beta Let_def)
    moreover have le: "\<forall>x. ends_fit x \<longrightarrow> in_region_at b flags st en x \<longrightarrow> extent_endpoint x endp \<le> en" "\<forall>x. ends_fit x \<longrightarrow> in_region_at b flags st en x \<longrightarrow> st \<le> extent_endpoint x endp"
      using touch True unfolding at by (auto simp: no_soe_def endp_def extent_endpoint_def)
    note V = visited_drop [where k = k, OF el le(1) small, folded es_def]
    ultimately show ?thesis using True V whole [OF le(2)] unfolding at k_def by auto
  next
    case soe: False
    define s1 where "s1 = soe_move st s"
    have s1: "extents_ok s1" "ei_extents s1 = ei_extents s" "ei_store s1 = ?store" using soe_move_ok [OF ok] by (simp_all add: s1_def)
    obtain soe where soe': "ei_soe s1 = Some soe" "el_ok ?store (soe_extents soe)" "el_set (soe_extents soe) = {e \<in> ?E. over ?store st e}"
      using soe_move_ok(4) [OF ok, of st] s1_def by blast
    have sl: "stage_list False s1 = soe_extents soe" using soe'(1) by (simp add: stage_list_def)
    have le: "\<forall>x. ends_fit x \<longrightarrow> in_region_at b flags st en x \<longrightarrow> extent_endpoint x False \<le> en" "\<forall>x. ends_fit x \<longrightarrow> in_region_at b flags st en x \<longrightarrow> st \<le> extent_end x"
      using touch unfolding at by (auto simp: extent_endpoint_def)
    define do_soe where "do_soe = (extent_list_num_els (soe_extents soe) \<noteq> 0)"
    have start: "map_extents_start flags st s = (s1, do_soe, False, if do_soe then Exclude_start else Include_start)"
      using soe flags(2) unfolding map_extents_start_def s1_def [symmetric] Let_def sl do_soe_def by (auto simp: no_soe_def)
    define k where "k = extent_list_locate_from_pos ?store (ei_extents s) (if do_soe then st + 1 else st) False"
    define es1 where "es1 = (if do_soe then visited b flags st en False ?store (ga_contents (el_array False (soe_extents soe))) else [])"
    define es2 where "es2 = visited b flags st en False ?store (drop k (ga_contents (el_array False (ei_extents s))))"
    have r1: "(if do_soe then map_extents_stage b flags (pure_mapper gf) m st en False False 0 None s1 c else Some (False, None, s1, c)) =
        Some (let (stop, c') = run_until gf es1 c in (stop, None, s1, c'))" for gf c
      using map_extents_loop_pure [where s = s1 and rs = False and endp = False and g = gf and pos = 0] soe'(2) s1(3) flags(1)
      by (simp add: map_extents_stage_def sl es1_def)
    have "map_extents_bytind b from to (pure_mapper gf) m None flags s c = Some (s1, snd (run_until gf (es1 @ es2) c))" for gf c
      using n unfolding map_extents_bytind_def Let_def st_def [symmetric] en_def [symmetric] start prod.case r1
      by (auto simp: range [OF s1(3,2)] k_def es2_def case_prod_beta Let_def run_until_append s1(2,3))
    moreover have V1: "set es1 = ?V {e \<in> ?E. over ?store st e} \<and> distinct es1"
    proof (cases do_soe)
      case True
      then show ?thesis using visited_drop [where k = 0, OF soe'(2) le(1)] small el_okD(2) [OF soe'(2), of False] soe'(3) by (simp add: es1_def)
    next
      case False
      then have "{e \<in> ?E. over ?store st e} = {}" using el_okD(5) [OF soe'(2)] soe'(3) by (simp add: do_soe_def el_set_def)
      then show ?thesis using False by (auto simp: es1_def)
    qed
    moreover have "set es2 = ?V {e \<in> ?E. \<not> over ?store st e} \<and> distinct es2"
    proof -
      have "set es2 = ?V (set (drop k (ga_contents (el_array False (ei_extents s)))))" "distinct es2"
        using visited_drop [where k = k, OF el le(1) small] by (simp_all add: es2_def)
      moreover have "set (drop k (ga_contents (el_array False (ei_extents s)))) = {e \<in> ?E. (if do_soe then st + 1 else st) \<le> extent_start (?store e)}"
        using locate_cuts(3) [OF el k_def [symmetric]] by (simp add: extent_endpoint_def)
      moreover have "\<not> do_soe \<Longrightarrow> {e \<in> ?E. over ?store st e} = {}" using el_okD(5) [OF soe'(2)] soe'(3) by (simp add: do_soe_def el_set_def)
      ultimately show ?thesis using le(2) small by (auto simp: over_def)
    qed
    ultimately show ?thesis using soe False by (intro exI [of _ "es1 @ es2"]) (auto simp: at s1_def)
  qed
qed

section \<open>Motion of the gap\<close>

lemma el_contents_at:
  fixes endp :: bool
  assumes ok: "el_ok st el"
  defines "xs \<equiv> ga_contents (el_array endp el)"
  shows "extent_list_num_els el = length xs" "k < length xs \<Longrightarrow> extent_list_at el k endp = xs ! k" "distinct xs" "set xs = el_set el"
proof -
  note O = el_orderedD(1,2) [OF el_okD(1) [OF ok, of endp]]
  show n: "extent_list_num_els el = length xs" using el_okD(3,5) [OF ok] length_ga_contents [OF O(1)] by (simp add: xs_def)
  have "numels (el_array endp el) = length xs" using length_ga_contents [OF O(1)] by (simp add: xs_def)
  then show "k < length xs \<Longrightarrow> extent_list_at el k endp = xs ! k" using GAP_ARRAY_EL_nth [OF O(1)] by (simp add: extent_list_at_def xs_def)
  show "distinct xs" "set xs = el_set el" using O(2) el_okD(2) [OF ok] by (simp_all add: xs_def)
qed

definition upd_end :: "bool \<Rightarrow> (int \<Rightarrow> int) \<Rightarrow> extent \<Rightarrow> extent" where
  "upd_end endp f x = (if endp then x\<lparr>extent_end := f (extent_end x)\<rparr> else x\<lparr>extent_start := f (extent_start x)\<rparr>)"

lemma adjust_endpoints_eq:
  fixes endp :: bool and lo to amount :: int
  assumes ok: "el_ok st0 el"
  defines "xs \<equiv> ga_contents (el_array endp el)" and "f \<equiv> (\<lambda>x. do_marker_adjustment x lo to amount)"
  shows "sorted_wrt (\<lambda>x y. extent_endpoint (st x) endp \<le> extent_endpoint (st y) endp) (drop pos xs) \<Longrightarrow>
    adjust_endpoints lo to amount endp el pos st =
      (\<lambda>e. if e \<in> set (drop pos xs) \<and> extent_endpoint (st e) endp \<le> to then upd_end endp f (st e) else st e)"
proof (induction "length xs - pos" arbitrary: pos st)
  case 0
  then show ?case using el_contents_at(1) [OF ok] unfolding xs_def by (subst adjust_endpoints.simps) auto
next
  case (Suc n)
  have p: "pos < length xs" using Suc.hyps(2) by simp
  note C = el_contents_at [where endp = endp, OF ok, folded xs_def]
  define e where "e = xs ! pos"
  have d: "drop pos xs = e # drop (Suc pos) xs" using Cons_nth_drop_Suc [OF p] by (simp add: e_def)
  have fresh: "e \<notin> set (drop (Suc pos) xs)" using C(3) d by (metis distinct.simps(2) distinct_drop)
  have le: "\<forall>y \<in> set (drop (Suc pos) xs). extent_endpoint (st e) endp \<le> extent_endpoint (st y) endp"
    and sorted: "sorted_wrt (\<lambda>x y. extent_endpoint (st x) endp \<le> extent_endpoint (st y) endp) (drop (Suc pos) xs)"
    using Suc.prems unfolding d by simp_all
  show ?case
  proof (cases "extent_endpoint (st e) endp > to")
    case True
    then have "adjust_endpoints lo to amount endp el pos st = st"
      using p C(1,2) by (subst adjust_endpoints.simps) (simp add: e_def Let_def)
    then show ?thesis using True le unfolding d by fastforce
  next
    case False
    define st' where "st' = st(e := upd_end endp f (st e))"
    have step: "adjust_endpoints lo to amount endp el pos st = adjust_endpoints lo to amount endp el (Suc pos) st'"
      using p C(1,2) False by (subst adjust_endpoints.simps) (simp add: e_def Let_def st'_def upd_end_def f_def)
    have same: "st' y = st y" if "y \<in> set (drop (Suc pos) xs)" for y using fresh that by (auto simp: st'_def)
    have "sorted_wrt (\<lambda>x y. extent_endpoint (st' x) endp \<le> extent_endpoint (st' y) endp) (drop (Suc pos) xs)"
      using sorted same by (rule_tac sorted_wrt_mono_rel [OF _ sorted]) simp
    then have "adjust_endpoints lo to amount endp el (Suc pos) st' =
      (\<lambda>e. if e \<in> set (drop (Suc pos) xs) \<and> extent_endpoint (st' e) endp \<le> to then upd_end endp f (st' e) else st' e)"
      using Suc.hyps(1) [of "Suc pos" st'] Suc.hyps(2) by simp
    then show ?thesis unfolding step d using False fresh by (auto simp: fun_eq_iff st'_def)
  qed
qed

text \<open>All extents of a list with their ends moved by a function.\<close>

definition move_ends :: "nat set \<Rightarrow> (int \<Rightarrow> int) \<Rightarrow> extent_store \<Rightarrow> extent_store" where
  "move_ends E f st = (\<lambda>e. if e \<in> E then (st e)\<lparr>extent_start := f (extent_start (st e)), extent_end := f (extent_end (st e))\<rparr> else st e)"

definition range_adjustment :: "int \<Rightarrow> int \<Rightarrow> int \<Rightarrow> int \<Rightarrow> int" where
  "range_adjustment lo to amount x = (if lo < x \<and> x \<le> to then do_marker_adjustment x lo to amount else x)"

lemma adjust_extents_eq:
  assumes ok: "extents_ok s" and amount: "to_int32 amount = amount"
  shows "adjust_extents lo to amount s =
    s\<lparr>ei_store := move_ends (el_set (ei_extents s)) (range_adjustment lo to amount) (ei_store s),
      ei_soe := (if el_set (ei_extents s) = {} then ei_soe s
        else map_option (\<lambda>soe. if soe_pos soe \<ge> 0 then soe\<lparr>soe_pos := do_marker_adjustment (soe_pos soe) lo to amount\<rparr> else soe) (ei_soe s))\<rparr>"
proof -
  let ?el = "ei_extents s" and ?st = "ei_store s" and ?f = "\<lambda>x. do_marker_adjustment x lo to amount"
  have el: "el_ok ?st ?el" using ok by (simp add: extents_ok_def)
  have fin: "finite (el_set ?el)" by (simp add: el_set_def)
  have n: "extent_list_num_els ?el = 0 \<longleftrightarrow> el_set ?el = {}" using el_okD(5) [OF el] fin by simp
  define k0 where "k0 = extent_list_locate_from_pos ?st ?el (lo + 1) False"
  define k1 where "k1 = extent_list_locate_from_pos ?st ?el (lo + 1) True"
  note cut0 = locate_cuts(3) [OF el k0_def [symmetric]]
  note cut1 = locate_cuts(3) [OF el k1_def [symmetric]]
  define st1 where "st1 = adjust_endpoints lo to amount False ?el k0 ?st"
  have st1: "st1 = (\<lambda>e. if e \<in> el_set ?el \<and> lo < extent_start (?st e) \<and> extent_start (?st e) \<le> to then upd_end False ?f (?st e) else ?st e)"
    unfolding st1_def using adjust_endpoints_eq [OF el sorted_wrt_drop [OF endpoints_sorted [OF el]]]
    by (auto simp: fun_eq_iff cut0 extent_endpoint_def)
  have ends: "extent_end (st1 e) = extent_end (?st e)" for e by (simp add: st1 upd_end_def)
  have "sorted_wrt (\<lambda>x y. extent_endpoint (st1 x) True \<le> extent_endpoint (st1 y) True) (drop k1 (ga_contents (el_array True ?el)))"
    using sorted_wrt_drop [OF endpoints_sorted [OF el, of True], of k1] by (simp add: extent_endpoint_def ends)
  then have "adjust_endpoints lo to amount True ?el k1 st1 =
      (\<lambda>e. if e \<in> el_set ?el \<and> lo < extent_end (?st e) \<and> extent_end (?st e) \<le> to then upd_end True ?f (st1 e) else st1 e)"
    using adjust_endpoints_eq [where endp = True and pos = k1 and st = st1 and lo = lo and to = to and amount = amount, OF el] by (auto simp: fun_eq_iff cut1 extent_endpoint_def ends)
  also have "\<dots> = move_ends (el_set ?el) (range_adjustment lo to amount) ?st"
    by (auto simp: fun_eq_iff move_ends_def st1 upd_end_def range_adjustment_def)
  finally have "adjust_endpoints lo to amount True ?el k1 st1 = move_ends (el_set ?el) (range_adjustment lo to amount) ?st" .
  moreover have "move_ends {} g ?st = ?st" for g by (simp add: move_ends_def)
  ultimately show ?thesis unfolding adjust_extents_def Let_def amount n k0_def [symmetric] k1_def [symmetric] st1_def [symmetric] by simp
qed

end
