(* ===== verification/ExtentAdjust.thy ===== *)
theory ExtentAdjust
  imports ExtentMapProps BufferDelete
begin

text \<open>
  Extents under the motion of the gap and under deletion: seen from the text, the gap moves without
  changing an extent, and a deletion moves the ends of extents as it moves markers. The lists stay
  sorted and the stack of extents stays right, also while extents are taken out one by one.
\<close>

section \<open>Motion of the gap\<close>

text \<open>The ends of the extents, and the position of the stack if it has one, are positions of the text.\<close>

definition extents_in :: "buffer_text \<Rightarrow> extent_info \<Rightarrow> bool" where
  "extents_in b s \<longleftrightarrow> extents_ok s \<and>
     (\<forall>e \<in> el_set (ei_extents s). memind_ok b (extent_start (ei_store s e)) \<and> memind_ok b (extent_end (ei_store s e))) \<and>
     (case ei_soe s of None \<Rightarrow> True | Some soe \<Rightarrow> soe_pos soe < 0 \<or> memind_ok b (soe_pos soe))"

definition extent_bytes :: "buffer_text \<Rightarrow> extent_info \<Rightarrow> nat \<Rightarrow> int \<times> int" where
  "extent_bytes b s e = (memind_to_bytind b (extent_start (ei_store s e)), memind_to_bytind b (extent_end (ei_store s e)))"

lemma memind_le:
  "memind_ok b x \<Longrightarrow> memind_ok b y \<Longrightarrow> 0 \<le> gap_size b \<Longrightarrow> memind_to_bytind b x \<le> memind_to_bytind b y \<longleftrightarrow> x \<le> y"
  by (auto simp: memind_ok_def memind_to_bytind_def)

text \<open>Moving memory indices so that bytes stay the same keeps all orders.\<close>

definition moves :: "buffer_text \<Rightarrow> buffer_text \<Rightarrow> (int \<Rightarrow> int) \<Rightarrow> bool" where
  "moves b b' f \<longleftrightarrow> 0 \<le> gap_size b \<and> 0 \<le> gap_size b' \<and>
     (\<forall>x. memind_ok b x \<longrightarrow> memind_ok b' (f x) \<and> memind_to_bytind b' (f x) = memind_to_bytind b x)"

lemma moves_le: "moves b b' f \<Longrightarrow> memind_ok b x \<Longrightarrow> memind_ok b y \<Longrightarrow> f x \<le> f y \<longleftrightarrow> x \<le> y"
  using memind_le [of b x y] memind_le [of b' "f x" "f y"] by (auto simp: moves_def)

lemma el_ok_moved:
  assumes ok: "el_ok st el" and sub: "el_set el \<subseteq> E" and m: "moves b b' f"
    and V: "\<forall>e \<in> E. memind_ok b (extent_start (st e)) \<and> memind_ok b (extent_end (st e))"
  shows "el_ok (move_ends E f st) el"
proof -
  let ?st' = "move_ends E f st"
  have le: "extent_less_equal endp (?st' x) (?st' y) \<longleftrightarrow> extent_less_equal endp (st x) (st y)" if "x \<in> E" "y \<in> E" for endp x y
  proof -
    let ?S = "{extent_start (st x), extent_end (st x), extent_start (st y), extent_end (st y)}"
    have l: "f p \<le> f q \<longleftrightarrow> p \<le> q" if "p \<in> ?S" "q \<in> ?S" for p q
      using moves_le [OF m, of p q] V \<open>x \<in> E\<close> \<open>y \<in> E\<close> that by auto
    have l2: "f p < f q \<longleftrightarrow> p < q" "f p = f q \<longleftrightarrow> p = q" if "p \<in> ?S" "q \<in> ?S" for p q
      using l [OF that] l [OF that(2,1)] by linarith+
    have "extent_less_equal endp (?st' x) (?st' y) \<longleftrightarrow> (if endp then f (extent_end (st x)) < f (extent_end (st y)) \<or> f (extent_end (st x)) = f (extent_end (st y)) \<and> f (extent_start (st x)) \<ge> f (extent_start (st y))
        else f (extent_start (st x)) < f (extent_start (st y)) \<or> f (extent_start (st x)) = f (extent_start (st y)) \<and> f (extent_end (st x)) \<ge> f (extent_end (st y)))"
      using that by (simp add: move_ends_def extent_orders)
    also have "\<dots> \<longleftrightarrow> extent_less_equal endp (st x) (st y)" unfolding extent_orders using l l2 by simp
    finally show ?thesis .
  qed
  have s: "set (ga_contents (el_array endp el)) \<subseteq> E" for endp using el_okD(2) [OF ok] sub by simp
  have "sorted_wrt (\<lambda>x y. extent_less_equal endp (?st' x) (?st' y)) (ga_contents (el_array endp el))" for endp
    using el_okD(1) [OF ok, of endp] s [of endp] le unfolding el_ordered_def gaps.ordered_def
    by (metis (no_types, lifting) sorted_wrt_mono_rel subsetD)
  then have o: "el_ordered ?st' endp (el_array endp el)" for endp
    using el_okD(1) [OF ok, of endp] by (simp add: el_ordered_def gaps.ordered_def)
  have "0 \<le> extent_start (?st' e) \<and> extent_start (?st' e) \<le> extent_end (?st' e)" if "e \<in> el_set el" for e
  proof -
    have v: "memind_ok b (extent_start (st e))" "memind_ok b (extent_end (st e))" using V sub that by auto
    then have "memind_ok b' (f (extent_start (st e)))" using m by (simp add: moves_def)
    then show ?thesis using el_okD(4) [OF ok that] moves_le [OF m v] sub that by (auto simp: move_ends_def memind_ok_def)
  qed
  then show ?thesis using o [of False] o [of True] ok unfolding el_ok_def by (simp add: el_array_def)
qed

lemma relocated_ok:
  assumes ok: "extents_in b s" and m: "moves b b' f"
    and s': "ei_store s' = move_ends (el_set (ei_extents s)) f (ei_store s)" "ei_extents s' = ei_extents s"
      "ei_soe s' = map_option (\<lambda>soe. if soe_pos soe \<ge> 0 then soe\<lparr>soe_pos := f (soe_pos soe)\<rparr> else soe) (ei_soe s)"
  shows "extents_in b' s'" "e \<in> el_set (ei_extents s) \<Longrightarrow> extent_bytes b' s' e = extent_bytes b s e"
proof -
  let ?E = "el_set (ei_extents s)" and ?st = "ei_store s" and ?st' = "ei_store s'"
  have V: "\<forall>e \<in> ?E. memind_ok b (extent_start (?st e)) \<and> memind_ok b (extent_end (?st e))" using ok by (simp add: extents_in_def)
  have el: "el_ok ?st (ei_extents s)" using ok by (simp add: extents_in_def extents_ok_def)
  have el': "el_ok ?st' (ei_extents s')" unfolding s' using el_ok_moved [OF el subset_refl m V] .
  have soe': "soe_ok ?st' ?E (if soe_pos soe \<ge> 0 then soe\<lparr>soe_pos := f (soe_pos soe)\<rparr> else soe)"
    if soe: "ei_soe s = Some soe" for soe
  proof -
    have so: "el_ok ?st (soe_extents soe)" "el_set (soe_extents soe) = {e \<in> ?E. over ?st (soe_pos soe) e}"
      using ok soe by (simp_all add: extents_in_def extents_ok_def soe_ok_def)
    have el2: "el_ok ?st' (soe_extents soe)" unfolding s' using el_ok_moved [OF so(1) _ m V] so(2) by blast
    show ?thesis
    proof (cases "soe_pos soe \<ge> 0")
      case True
      then have p: "memind_ok b (soe_pos soe)" using ok soe by (auto simp: extents_in_def)
      have "over ?st' (f (soe_pos soe)) e \<longleftrightarrow> over ?st (soe_pos soe) e" if "e \<in> ?E" for e
        using V that moves_le [OF m _ p] moves_le [OF m p] by (simp add: over_def s' move_ends_def)
      then show ?thesis using True so(2) el2 by (auto simp: soe_ok_def)
    next
      case False
      have "\<not> over ?st (soe_pos soe) e" "\<not> over ?st' (soe_pos soe) e" if "e \<in> ?E" for e
        using el_okD(4) [OF el that] el_okD(4) [OF el', of e] that False by (auto simp: over_def s'(2))
      then show ?thesis using False so(2) el2 by (auto simp: soe_ok_def)
    qed
  qed
  have "memind_ok b' (extent_start (?st' e)) \<and> memind_ok b' (extent_end (?st' e))" if "e \<in> ?E" for e
    using V that m by (simp add: s' move_ends_def moves_def)
  moreover have "case ei_soe s' of None \<Rightarrow> True | Some soe \<Rightarrow> soe_pos soe < 0 \<or> memind_ok b' (soe_pos soe)"
    using ok m by (auto simp: s' extents_in_def moves_def split: option.splits)
  moreover have "extents_ok s'" using el' soe' by (auto simp: extents_ok_def s' split: option.splits)
  ultimately show "extents_in b' s'" by (simp add: extents_in_def s'(2))
  show "extent_bytes b' s' e = extent_bytes b s e" if "e \<in> ?E"
    using V that m by (simp add: extent_bytes_def s' move_ends_def moves_def)
qed

lemma move_ends_cong: "(\<And>e. e \<in> E \<Longrightarrow> f (extent_start (st e)) = g (extent_start (st e)) \<and> f (extent_end (st e)) = g (extent_end (st e))) \<Longrightarrow>
    move_ends E f st = move_ends E g st"
  by (auto simp: move_ends_def fun_eq_iff)

text \<open>
  Property C20: when the gap moves left or right, \<open>adjust_extents\<close>, called as \<open>gap_left\<close> and \<open>gap_right\<close>
  call it for a buffer with extents and a gap of less than two gigabytes, leaves every extent at the same
  place of the text, the list of extents sorted in both orders, and the stack of extents right.
\<close>

theorem adjust_extents_gap_motion:
  assumes ok: "extents_in b s" and ne: "el_set (ei_extents s) \<noteq> {}" and g: "gap_ok b" and pos: "1 \<le> pos" "pos \<le> bufz b" and b': "b' = b\<lparr>gpt := pos\<rparr>"
    and int: "gap_size b < 2 ^ 31"
    and s': "s' = (if pos \<le> gpt b then adjust_extents pos (gpt b) (gap_size b) s
      else adjust_extents (gpt b + gap_size b) (pos + gap_size b) (- gap_size b) s)"
  shows "extents_in b' s' \<and> ei_extents s' = ei_extents s \<and> (\<forall>e \<in> el_set (ei_extents s). extent_bytes b' s' e = extent_bytes b s e)"
proof -
  let ?E = "el_set (ei_extents s)"
  define lo hi amount where "lo = (if pos \<le> gpt b then pos else gpt b + gap_size b)"
    and "hi = (if pos \<le> gpt b then gpt b else pos + gap_size b)" and "amount = (if pos \<le> gpt b then gap_size b else - gap_size b)"
  have s'': "s' = adjust_extents lo hi amount s" using s' by (simp add: lo_def hi_def amount_def)
  have xs: "extents_ok s" using ok by (simp add: extents_in_def)
  have am: "to_int32 amount = amount" using int g by (simp add: amount_def gap_ok_def)
  let ?f = "\<lambda>x. do_marker_adjustment x lo hi amount"
  have m: "moves b b' ?f" using g pos unfolding moves_def b' lo_def hi_def amount_def
    by (auto simp: gap_ok_def memind_ok_def memind_to_bytind_def do_marker_adjustment_def Let_def)
  have "range_adjustment lo hi amount x = ?f x" if "memind_ok b x" for x
    using that g pos by (auto simp: range_adjustment_def lo_def hi_def amount_def gap_ok_def memind_ok_def do_marker_adjustment_def Let_def)
  then have eq: "move_ends ?E (range_adjustment lo hi amount) (ei_store s) = move_ends ?E ?f (ei_store s)"
    using ok by (intro move_ends_cong) (simp add: extents_in_def)
  show ?thesis
    using relocated_ok [OF ok m, of s'] unfolding s'' adjust_extents_eq [OF xs am] eq using ne by simp
qed

definition extents_text :: buffer_text where
  "extents_text = sample_text\<lparr>gpt := 10, bufz := 12, gap_size := 2000\<rparr>"

lemma extents_text_simps:
  "gpt extents_text = 10" "bufz extents_text = 12" "gap_size extents_text = 2000" "gap_ok extents_text"
  "gap_ok (extents_text\<lparr>gpt := 3\<rparr>)" "gap_ok (extents_text\<lparr>gpt := 2\<rparr>)"
  by (simp_all add: extents_text_def gap_ok_def sample_text_def)

lemma sample_extents_in: "extents_in extents_text sample_extents"
proof -
  have "map_option soe_pos (ei_soe sample_extents) = Some (- 1)"
    by (simp add: sample_extents_def endpoints_soe_pos no_extents_def allocate_soe_def)
  then have "case ei_soe sample_extents of None \<Rightarrow> True | Some soe \<Rightarrow> soe_pos soe < 0 \<or> memind_ok extents_text (soe_pos soe)"
    by (cases "ei_soe sample_extents") auto
  then show ?thesis using sample_extents_ok by (auto simp: extents_in_def memind_ok_def extents_text_simps)
qed

theorem adjust_extents_gap_motion_witness:
  "extent_bytes (extents_text\<lparr>gpt := 5\<rparr>) (adjust_extents 5 10 2000 sample_extents) 2 = (4, 9)"
proof -
  have "extent_bytes extents_text sample_extents 2 = (4, 9)"
    using sample_extents_ok by (simp add: extent_bytes_def memind_to_bytind_def extents_text_simps)
  then show ?thesis
    using adjust_extents_gap_motion [OF sample_extents_in _ extents_text_simps(4), of 5, OF _ _ _ refl _ refl] sample_extents_ok(2)
    by (simp add: extents_text_simps)
qed

section \<open>A stack of extents that is not moved\<close>

text \<open>
  \<open>adjust_extents\<close> returns at once when there are no extents, so the position of the stack of extents is
  not adjusted and can get into the gap. The extents here: none, with the stack at position 5; the gap moves
  from 10 to 3; an extent from 1 to 3 is made; the gap moves from 3 to 2.
\<close>

definition stale_0 :: extent_info where
  "stale_0 = no_extents\<lparr>ei_soe := Some (allocate_soe\<lparr>soe_pos := 5\<rparr>)\<rparr>"

definition stale_1 :: extent_info where
  "stale_1 = set_extent_endpoints_1 0 1 3 (adjust_extents 3 10 2000 stale_0)"

definition stale_2 :: extent_info where
  "stale_2 = adjust_extents 2 3 2000 stale_1"

lemma to_int32_2000: "to_int32 2000 = 2000"
  by simp

lemma stale_facts:
  "extents_in extents_text stale_0" "extents_ok stale_1" "el_set (ei_extents stale_1) = {0}"
  "ei_extents stale_2 = ei_extents stale_1" "extent_start (ei_store stale_2 0) = 1" "extent_end (ei_store stale_2 0) = 2003"
  "extent_internal (ei_store stale_2 0) = False" "extent_start_open (ei_store stale_2 0) = False" "extent_end_open (ei_store stale_2 0) = False"
  "ei_soe stale_2 = Some \<lparr>soe_extents = allocate_extent_list, soe_pos = 2003\<rparr>"
  "extent_start (ei_store stale_1 0) = 1" "extent_end (ei_store stale_1 0) = 3"
proof -
  have E: "el_set (ei_extents stale_0) = {}" by (simp add: stale_0_def no_extents_def empty_list_ok)
  have ok0: "extents_ok stale_0"
    by (simp add: stale_0_def no_extents_def extents_ok_def soe_ok_def allocate_soe_def empty_list_ok)
  then show "extents_in extents_text stale_0" using E by (simp add: extents_in_def stale_0_def memind_ok_def extents_text_simps)
  have a0: "adjust_extents 3 10 2000 stale_0 = stale_0"
    using E by (simp add: adjust_extents_eq [OF ok0 to_int32_id] move_ends_def)
  have d: "extent_detached_p (ei_store stale_0 0)" by (simp add: stale_0_def no_extents_def extent_detached_p_def fake_extent_def)
  note S = endpoints_ok [OF ok0, of 0 1 3]
  then show ok1: "extents_ok stale_1" and E1: "el_set (ei_extents stale_1) = {0}"
    unfolding stale_1_def a0 using E d by simp_all
  have store1: "ei_store stale_1 = (ei_store stale_0)(0 := (ei_store stale_0 0)\<lparr>extent_start := 1, extent_end := 3\<rparr>)"
    unfolding stale_1_def a0 using S E d by simp
  have soe1: "ei_soe stale_1 = Some \<lparr>soe_extents = allocate_extent_list, soe_pos = 5\<rparr>"
    unfolding stale_1_def a0 using d
    by (simp add: set_extent_endpoints_1_def extent_attach_def soe_insert_def set_ends_def stale_0_def no_extents_def allocate_soe_def)
  show "extent_start (ei_store stale_1 0) = 1" "extent_end (ei_store stale_1 0) = 3" by (simp_all add: store1)
  note A = adjust_extents_eq [OF ok1 to_int32_2000, of 2 3, folded stale_2_def, unfolded E1]
  show "ei_extents stale_2 = ei_extents stale_1" unfolding A by simp
  show "ei_soe stale_2 = Some \<lparr>soe_extents = allocate_extent_list, soe_pos = 2003\<rparr>"
    unfolding A by (simp add: soe1 do_marker_adjustment_def)
  show "extent_start (ei_store stale_2 0) = 1" "extent_end (ei_store stale_2 0) = 2003" "extent_internal (ei_store stale_2 0) = False"
    "extent_start_open (ei_store stale_2 0) = False" "extent_end_open (ei_store stale_2 0) = False"
    unfolding A by (simp_all add: store1 move_ends_def range_adjustment_def do_marker_adjustment_def stale_0_def no_extents_def fake_extent_def)
qed

lemma stale_store: "ei_store stale_2 = move_ends {0} (\<lambda>x. do_marker_adjustment x 2 3 2000) (ei_store stale_1)"
proof -
  have "ei_store stale_2 = move_ends {0} (range_adjustment 2 3 2000) (ei_store stale_1)"
    using arg_cong [OF adjust_extents_eq [OF stale_facts(2) to_int32_2000, of 2 3, folded stale_2_def, unfolded stale_facts(3)], of ei_store] by simp
  also have "\<dots> = move_ends {0} (\<lambda>x. do_marker_adjustment x 2 3 2000) (ei_store stale_1)"
    by (rule move_ends_cong) (simp add: range_adjustment_def do_marker_adjustment_def stale_facts)
  finally show ?thesis .
qed

text \<open>
  Property C36: the stack of extents is then wrong, and mapping over the extents at position 3 does not find
  the extent, although it ends there and is in the region.
\<close>

theorem stale_soe_misses_extent:
  "extents_in extents_text stale_0 \<and> \<not> extents_ok stale_2 \<and>
   (let b = extents_text\<lparr>gpt := 2\<rparr>; flags = no_me_flags\<lparr>ME_END_CLOSED := True\<rparr>
    in extent_in_region_p b (ei_store stale_2 0) 3 3 flags \<and>
       map_option snd (map_extents_bytind b 3 3 (\<lambda>e s es. (False, s, es @ [e])) 0 None flags stale_2 []) = Some [])"
proof -
  let ?b = "extents_text\<lparr>gpt := 2\<rparr>" and ?flags = "no_me_flags\<lparr>ME_END_CLOSED := True\<rparr>"
  let ?st = "ei_store stale_2" and ?el = "ei_extents stale_1"
  note F = stale_facts
  have m: "moves (extents_text\<lparr>gpt := 3\<rparr>) ?b (\<lambda>x. do_marker_adjustment x 2 3 2000)"
    by (auto simp: moves_def memind_ok_def memind_to_bytind_def do_marker_adjustment_def Let_def extents_text_def)
  have "el_ok (ei_store stale_1) ?el" using F(2) by (simp add: extents_ok_def)
  then have el: "el_ok ?st ?el" unfolding stale_store
    by (rule el_ok_moved [OF _ _ m]) (simp_all add: F memind_ok_def extents_text_def)
  have n: "extent_list_num_els ?el = 1" using el_okD(5) [OF el] F(3) by simp
  have over: "over ?st 2003 0" using F(5,6) by (simp add: over_def)
  then have "\<not> extents_ok stale_2" using F(3,4,10) by (auto simp: extents_ok_def soe_ok_def empty_list_ok)
  moreover have "extent_in_region_p ?b (?st 0) 3 3 ?flags"
    using F(5-9) by (simp add: extent_in_region_p_def no_me_flags_def memind_to_startind_def memind_to_endind_def push_bit_eq_mult bytind_to_memind_def extents_text_simps)
  moreover have "map_extents_bytind ?b 3 3 (\<lambda>e s es. (False, s, es @ [e])) 0 None ?flags stale_2 [] = Some (stale_2, [])"
  proof -
    have move: "soe_move 2003 stale_2 = stale_2" using F(10) by (cases stale_2) (simp add: soe_move_def Let_def)
    have sel: "extent_list_num_els (stage_list False stale_2) = 0"
      by (simp add: stage_list_def F(10) extent_list_num_els_def allocate_extent_list_def make_gap_array_def)
    have start: "map_extents_start ?flags 2003 stale_2 = (stale_2, False, False, Include_start)"
      unfolding map_extents_start_def Let_def move using sel by (simp add: no_me_flags_def)
    have "set (drop (extent_list_locate_from_pos ?st ?el 2003 False) (ga_contents (el_array False ?el))) = {}"
      unfolding locate_cuts(3) [OF el refl] F(3) using F(5) by (auto simp: extent_endpoint_def)
    then have "1 \<le> extent_list_locate_from_pos ?st ?el 2003 False" using el_contents_at(1) [OF el, of False] n by simp
    then have "map_extents_stage ?b ?flags (\<lambda>e s es. (False, s, es @ [e])) 0 2003 2003 True False
        (extent_list_locate_from_pos ?st ?el 2003 False) None stale_2 [] = Some (False, None, stale_2, [])"
      using n F(4) unfolding map_extents_stage_def by (simp add: no_me_flags_def) (subst map_extents_loop.simps, simp add: stage_list_def)
    then show ?thesis using n F(4) start by (simp add: map_extents_bytind_def bytind_to_memind_def extents_text_simps)
  qed
  ultimately show ?thesis using F(1) by simp
qed

section \<open>Deletion\<close>

text \<open>Both ways of deleting, as the code calls \<open>adjust_extents_for_deletion\<close> and as the text is then.\<close>

definition deletion_geometry :: "buffer_text \<Rightarrow> buffer_text \<Rightarrow> int \<Rightarrow> int \<Rightarrow> int \<Rightarrow> bool" where
  "deletion_geometry b b' from to movegapsize \<longleftrightarrow> 1 \<le> from \<and> from < to \<and> to \<le> bufz b \<and>
     (from \<le> gpt b \<and> gpt b \<le> to \<and> movegapsize = gap_size b \<and> gpt b' = from \<and> gap_size b' = gap_size b + (to - from) \<or>
      gpt b < from \<and> to = bufz b \<and> movegapsize = 0 \<and> gpt b' = gpt b \<and> gap_size b' = gap_size b) \<and>
     bufz b' = bufz b - (to - from)"

text \<open>What the code computes for one end, on the addresses of the text before the deletion.\<close>

lemma deletion_move:
  assumes "gap_ok b" and "deletion_geometry b b' from to mgs"
  shows "do_marker_adjustment x (to + gap_size b) (to + gap_size b) (- (to - from) - mgs) =
    (if bytind_to_memind b from < x \<and> x \<le> to + gap_size b then bytind_to_memind b from else x)"
proof -
  have "from + gap_size b - mgs = bytind_to_memind b from" "from < to" "0 \<le> mgs"
    using assms by (auto simp: deletion_geometry_def bytind_to_memind_def gap_ok_def)
  then show ?thesis by (auto simp: do_marker_adjustment_def)
qed

lemma deletion_target:
  assumes "gap_ok b" and "deletion_geometry b b' from to mgs"
  shows "memind_ok b' (bytind_to_memind b from)" "memind_to_bytind b' (bytind_to_memind b from) = from"
    "1 \<le> bytind_to_memind b from" "bytind_to_memind b from \<le> to + gap_size b"
  using assms unfolding deletion_geometry_def
  by (elim conjE disjE; simp add: gap_ok_def memind_ok_def memind_to_bytind_def bytind_to_memind_def)+

lemma deletion_outside:
  assumes "gap_ok b" and "deletion_geometry b b' from to mgs" and "memind_ok b x" and "\<not> (bytind_to_memind b from < x \<and> x \<le> to + gap_size b)"
  shows "memind_ok b' x" "memind_to_bytind b' x = del_pos from to (memind_to_bytind b x)"
  using assms unfolding deletion_geometry_def
  by (elim conjE disjE; force simp: gap_ok_def memind_ok_def memind_to_bytind_def bytind_to_memind_def del_pos_def)+

lemma deletion_inside:
  assumes "gap_ok b" and "deletion_geometry b b' from to mgs" and "memind_ok b x" and "bytind_to_memind b from < x" and "x \<le> to + gap_size b"
  shows "del_pos from to (memind_to_bytind b x) = from" "x \<le> bytind_to_memind b to"
  using assms unfolding deletion_geometry_def
  by (elim conjE disjE; force simp: gap_ok_def memind_ok_def memind_to_bytind_def bytind_to_memind_def del_pos_def)+

lemma deletion_shift:
  assumes g: "gap_ok b" and d: "deletion_geometry b b' from to mgs"
  defines "f \<equiv> (\<lambda>x. do_marker_adjustment x (to + gap_size b) (to + gap_size b) (- (to - from) - mgs))"
  shows "memind_ok b x \<Longrightarrow> memind_ok b' (f x) \<and> memind_to_bytind b' (f x) = del_pos from to (memind_to_bytind b x)"
    "memind_ok b x \<Longrightarrow> x < bytind_to_memind b from \<or> bytind_to_memind b to < x \<Longrightarrow> f x = x"
    "f (bytind_to_memind b from) = bytind_to_memind b from" "x \<le> y \<Longrightarrow> f x \<le> f y" "1 \<le> x \<Longrightarrow> 1 \<le> f x"
  using deletion_target [OF g d] deletion_outside [OF g d, of x] deletion_inside [OF g d, of x]
  unfolding f_def deletion_move [OF g d] by auto

lemma set_soe_pos_same: "map_option soe_pos (ei_soe s) = Some p \<Longrightarrow> set_soe_pos p s = s"
  by (cases "ei_soe s") (auto simp: set_soe_pos_def)

lemma adjust_deletion_loop_ok:
  assumes "extents_ok s" and "map_option soe_pos (ei_soe s) = Some p" and "set es \<subseteq> el_set (ei_extents s)" and "distinct es"
    and "f = (\<lambda>x. do_marker_adjustment x d d amount)"
    and "\<forall>e \<in> set es. 0 \<le> f (extent_start (ei_store s e)) \<and> f (extent_start (ei_store s e)) \<le> f (extent_end (ei_store s e))"
  shows "extents_ok (adjust_deletion_loop d amount (Some (p, p)) es s) \<and>
    el_set (ei_extents (adjust_deletion_loop d amount (Some (p, p)) es s)) = el_set (ei_extents s) \<and>
    map_option soe_pos (ei_soe (adjust_deletion_loop d amount (Some (p, p)) es s)) = Some p \<and>
    ei_store (adjust_deletion_loop d amount (Some (p, p)) es s) = move_ends (set es) f (ei_store s)"
  using assms(1-4,6)
proof (induction es arbitrary: s)
  case Nil
  then show ?case by (simp add: move_ends_def)
next
  case (Cons e es)
  let ?x = "ei_store s e"
  define ns ne where "ns = f (extent_start ?x)" and "ne = f (extent_end ?x)"
  define s1 where "s1 = set_extent_endpoints_1 e ns ne s"
  have el: "el_ok (ei_store s) (ei_extents s)" using Cons.prems(1) by (simp add: extents_ok_def)
  have e: "e \<in> el_set (ei_extents s)" using Cons.prems(3) by simp
  have att: "\<not> extent_detached_p ?x" using el_okD(4) [OF el e] by (simp add: extent_detached_p_def)
  have S: "extents_ok s1" "el_set (ei_extents s1) = el_set (ei_extents s)" "ei_store s1 = (ei_store s)(e := ?x\<lparr>extent_start := ns, extent_end := ne\<rparr>)"
    using endpoints_ok [OF Cons.prems(1), of e ns ne] e att Cons.prems(5) by (auto simp: s1_def ns_def ne_def)
  have p1: "map_option soe_pos (ei_soe s1) = Some p" using Cons.prems(2) by (simp add: s1_def endpoints_soe_pos)
  have "(if ns \<noteq> extent_start ?x \<or> ne \<noteq> extent_end ?x
      then set_soe_pos p (extent_attach e (set_soe_pos p (set_ends e ns ne (extent_detach e s)))) else s) = s1"
    using att Cons.prems(2) by (auto simp: s1_def set_extent_endpoints_1_def set_soe_pos_same soe_pos_kept)
  then have step: "adjust_deletion_loop d amount (Some (p, p)) (e # es) s = adjust_deletion_loop d amount (Some (p, p)) es s1"
    unfolding adjust_deletion_loop.simps Let_def option.case prod.case if_cancel ns_def ne_def assms(5) by (rule arg_cong)
  have "e \<notin> set es" using Cons.prems(4) by simp
  then have "\<forall>e \<in> set es. 0 \<le> f (extent_start (ei_store s1 e)) \<and> f (extent_start (ei_store s1 e)) \<le> f (extent_end (ei_store s1 e))"
    and store: "move_ends (set es) f (ei_store s1) = move_ends (set (e # es)) f (ei_store s)"
    using Cons.prems(5) unfolding S(3) by (auto simp: move_ends_def fun_eq_iff ns_def ne_def)
  from Cons.IH [OF S(1) p1 _ _ this(1)] Cons.prems(3,4) show ?case unfolding step S(2) store by simp
qed

lemma run_until_collect: "run_until (\<lambda>e es. (False, es @ [e])) xs ys = (False, ys @ xs)"
  by (induction xs arbitrary: ys) auto

text \<open>
  From one gigabyte on the 32-bit endpoint indices are wrong: the index of the end of an extent at memory
  index \<open>2 ^ 30\<close> is negative, and the extent is not found in a region before it.
\<close>

lemma endpoint_index_wraps:
  "memind_to_endind (2 ^ 30) False = - (2 ^ 31)"
  "gap_ok b \<Longrightarrow> gpt b = bufz b \<Longrightarrow> bufz b = 2 ^ 30 \<Longrightarrow>
   \<not> extent_in_region_p b \<lparr>extent_start = 1, extent_end = 2 ^ 30, extent_start_open = False, extent_end_open = False,
        extent_internal = False, extent_detachable = False\<rparr> 5 10 no_me_flags"
  by (simp_all add: memind_to_endind_def memind_to_startind_def to_int32_def push_bit_eq_mult extent_in_region_p_def
      no_me_flags_def bytind_to_memind_def gap_ok_def signed_take_bit_int_eq_self)

text \<open>
  Property C18: \<open>adjust_extents_for_deletion\<close>, called as \<open>buffer_delete_range\<close> calls it before it takes the
  deleted text into the gap or into the free space at the end, moves the ends of all extents as markers are
  moved: those in the deleted text to its start and those behind it down. No extent is lost, the list stays
  sorted in both orders and the stack of extents right. Text and gap take less than one gigabyte: endpoint
  indices are 32 bits wide.
\<close>

theorem adjust_extents_for_deletion_spec:
  assumes ok: "extents_in b s" and soe: "ei_soe s \<noteq> None" and g: "gap_ok b" and d: "deletion_geometry b b' from to mgs"
    and big: "bufz b + gap_size b < 2 ^ 30"
  shows "\<exists>s'. adjust_extents_for_deletion b from to (gap_size b) (to - from) mgs s = Some s' \<and> extents_in b' s' \<and>
    el_set (ei_extents s') = el_set (ei_extents s) \<and>
    (\<forall>e \<in> el_set (ei_extents s). extent_bytes b' s' e = map_prod (del_pos from to) (del_pos from to) (extent_bytes b s e))"
proof -
  let ?E = "el_set (ei_extents s)" and ?st = "ei_store s" and ?P = "bytind_to_memind b from" and ?Q = "bytind_to_memind b to"
  let ?adj = "to + gap_size b" and ?amount = "- (to - from) - mgs"
  define f where "f = (\<lambda>x. do_marker_adjustment x ?adj ?adj ?amount)"
  have f: "do_marker_adjustment x ?adj ?adj ?amount = f x" for x by (simp add: f_def)
  note F = deletion_shift [OF g d, unfolded f]
  have xs: "extents_ok s" and V: "\<And>e. e \<in> ?E \<Longrightarrow> memind_ok b (extent_start (?st e)) \<and> memind_ok b (extent_end (?st e))"
    using ok by (simp_all add: extents_in_def)
  have el: "el_ok ?st (ei_extents s)" using xs by (simp add: extents_ok_def)
  have "fits x" if "memind_ok b x" for x using that big by (auto simp: fits_def memind_ok_def)
  then have fit: "\<forall>e \<in> ?E. ends_fit (?st e)" using V by (simp add: ends_fit_def)
  have ft: "1 \<le> from" "from \<le> to" "to \<le> bufz b" "from \<le> bufz b" "1 \<le> to" using d by (auto simp: deletion_geometry_def)
  define flags where "flags = no_me_flags\<lparr>ME_ALL_EXTENTS := ALL_EXTENTS_CLOSED, ME_END_CLOSED := True, ME_IN_REGION := START_OR_END_IN_REGION, ME_INCLUDE_INTERNAL := True\<rparr>"
  have fl: "\<not> ME_MIGHT_MODIFY_EXTENTS flags" "\<not> ME_MIGHT_MOVE_SOE flags" "\<not> no_soe flags" "\<not> skipped flags x" for x
    by (simp_all add: flags_def no_me_flags_def no_soe_def skipped_def)
  define s1 where "s1 = (if ?E = {} then s else soe_move ?P s)"
  obtain es where es: "distinct es" "set es = {e \<in> ?E. extent_in_region_p b (?st e) from to flags}"
    "\<And>gf (c :: nat list). map_extents_bytind b from to (pure_mapper gf) 0 None flags s c = Some (s1, snd (run_until gf es c))"
    using map_extents_pure [OF xs g ft(1-3) fl(1,2) big fit, of 0] fl(3,4) unfolding s1_def by auto
  have pm: "(\<lambda>e s es. (False, s, es @ [e])) = pure_mapper (\<lambda>e es. (False, es @ [e]))" by (simp add: pure_mapper_def fun_eq_iff)
  have collect: "map_extents_bytind b from to (\<lambda>e s es. (False, s, es @ [e])) 0 None flags s [] = Some (s1, es)"
    unfolding pm es(3) run_until_collect by simp
  have s1: "extents_ok s1" "ei_extents s1 = ei_extents s" "ei_store s1 = ?st"
    using soe_move_ok(1-3) [OF xs] xs by (auto simp: s1_def)
  obtain so where so: "ei_soe s1 = Some so" "?E \<noteq> {} \<longrightarrow> soe_pos so = ?P"
    using soe soe_move_ok(4) [OF xs, of ?P] unfolding s1_def by (cases "?E = {}") auto
  define new where "new = (if soe_pos so \<ge> 0 then f (soe_pos so) else soe_pos so)"
  define s2 where "s2 = adjust_deletion_loop ?adj ?amount (Some (soe_pos so, new)) es s1"
  have run: "adjust_extents_for_deletion b from to (gap_size b) (to - from) mgs s = Some (set_soe_pos new s2)"
  proof -
    have i: "to_int32 (gap_size b) = gap_size b" "to_int32 (to - from) = to - from" "to_int32 mgs = mgs" "to_int32 ?amount = ?amount"
      using big g d by (auto simp: gap_ok_def deletion_geometry_def)
    show ?thesis using soe collect so(1)
      unfolding adjust_extents_for_deletion_def Let_def i flags_def [symmetric] s2_def new_def f_def by (simp only: option.case prod.case if_False)
  qed
  show ?thesis
  proof (cases "?E = {}")
    case True
    then have "es = []" using es(2) by auto
    then have s2: "s2 = s" using True by (simp add: s2_def s1_def)
    have sos: "ei_soe s = Some so" using so(1) True by (simp add: s1_def)
    have "soe_pos so < 0 \<or> memind_ok b (soe_pos so)" using ok sos by (simp add: extents_in_def)
    then have "new < 0 \<or> memind_ok b' new" using F(1) by (auto simp: new_def)
    moreover have "extents_ok (set_soe_pos new s)" using xs True sos by (simp add: extents_ok_def soe_ok_def set_soe_pos_def)
    ultimately have "extents_in b' (set_soe_pos new s)" using True sos by (simp add: extents_in_def set_soe_pos_def)
    then show ?thesis using run s2 True by (simp add: set_soe_pos_def)
  next
    case False
    have new: "new = ?P" "soe_pos so = ?P" using so(2) False F(3) deletion_target(3) [OF g d] by (simp_all add: new_def)
    have ends: "0 \<le> f (extent_start (?st e)) \<and> f (extent_start (?st e)) \<le> f (extent_end (?st e))" if "e \<in> ?E" for e
      using F(4) F(5) [of "extent_start (?st e)"] V [OF that] el_okD(4) [OF el that] by (simp add: memind_ok_def)
    have sub: "set es \<subseteq> el_set (ei_extents s1)" using es(2) s1(2) by auto
    have p: "map_option soe_pos (ei_soe s1) = Some ?P" using so(1) new(2) by simp
    have "\<forall>e \<in> set es. 0 \<le> f (extent_start (ei_store s1 e)) \<and> f (extent_start (ei_store s1 e)) \<le> f (extent_end (ei_store s1 e))"
      using ends es(2) unfolding s1(3) by blast
    from adjust_deletion_loop_ok [OF s1(1) p sub es(1) f_def this]
    have L: "extents_ok s2" "el_set (ei_extents s2) = ?E" "map_option soe_pos (ei_soe s2) = Some ?P" "ei_store s2 = move_ends (set es) f ?st"
      unfolding s2_def new s1(2,3) by simp_all
    have rest: "f (extent_start (?st e)) = extent_start (?st e) \<and> f (extent_end (?st e)) = extent_end (?st e)" if e: "e \<in> ?E" "e \<notin> set es" for e
    proof -
      have "extent_start (?st e) \<le> extent_end (?st e)" using el_okD(4) [OF el e(1)] by simp
      moreover have "\<not> extent_in_region_p b (?st e) from to flags" using e es(2) by simp
      ultimately have "(extent_start (?st e) < ?P \<or> ?Q < extent_start (?st e)) \<and> (extent_end (?st e) < ?P \<or> ?Q < extent_end (?st e))"
        using fits_index [OF fits_pos [OF g big ft(1,4)]] fits_index [OF fits_pos [OF g big ft(5,3)]]
          fits_index [of "extent_start (?st e)"] fits_index [of "extent_end (?st e)"] bspec [OF fit e(1)]
        by (auto simp: extent_in_region_p_def flags_def no_me_flags_def ends_fit_def Let_def split: if_splits)
      then show ?thesis using F(2) V [OF e(1)] by blast
    qed
    have store: "ei_store s2 = move_ends ?E f ?st"
      unfolding L(4) using rest es(2) by (auto simp: move_ends_def fun_eq_iff)
    have same: "set_soe_pos new s2 = s2" using set_soe_pos_same [OF L(3)] new by simp
    have "memind_ok b' (extent_start (ei_store s2 e)) \<and> memind_ok b' (extent_end (ei_store s2 e))" if "e \<in> ?E" for e
      using F(1) V [OF that] that by (simp add: store move_ends_def)
    then have "extents_in b' s2" using L(1-3) deletion_target(1) [OF g d] by (auto simp: extents_in_def split: option.splits)
    moreover have "extent_bytes b' s2 e = map_prod (del_pos from to) (del_pos from to) (extent_bytes b s e)" if "e \<in> ?E" for e
      using F(1) V [OF that] that by (simp add: store move_ends_def extent_bytes_def)
    ultimately show ?thesis using run same L(2) by auto
  qed
qed

theorem adjust_extents_for_deletion_spec_witness:
  "\<exists>s'. adjust_extents_for_deletion extents_text 3 11 2000 8 2000 sample_extents = Some s' \<and>
     extent_bytes (extents_text\<lparr>gpt := 3, gap_size := 2008, bufz := 4\<rparr>) s' 2 = (3, 3)"
proof -
  have d: "deletion_geometry extents_text (extents_text\<lparr>gpt := 3, gap_size := 2008, bufz := 4\<rparr>) 3 11 2000"
    by (simp add: deletion_geometry_def extents_text_simps)
  have "map_option soe_pos (ei_soe sample_extents) = Some (- 1)"
    by (simp add: sample_extents_def endpoints_soe_pos no_extents_def allocate_soe_def)
  then have soe: "ei_soe sample_extents \<noteq> None" by auto
  have "extent_bytes extents_text sample_extents 2 = (4, 9)"
    using sample_extents_ok by (simp add: extent_bytes_def memind_to_bytind_def extents_text_simps)
  then show ?thesis using adjust_extents_for_deletion_spec [OF sample_extents_in soe extents_text_simps(4) d] sample_extents_ok(2)
    by (auto simp: extents_text_simps del_pos_def)
qed

end
