(* ===== verification/ByteOpt.thy ===== *)
theory ByteOpt
  imports Lisp
begin

text \<open>
  \<open>optimize_byte_code\<close> of \<open>bytecode.c\<close>: the byte code in the instructions string of a compiled function
  is checked and translated into the format the interpreter runs, in which operands are as short as
  they can be and all jumps are relative to the program counter. Bytes are integers from 0 to 255.
\<close>

section \<open>Opcodes\<close>

type_synonym Opcode = int

abbreviation (input) "Bvarref \<equiv> 8 :: Opcode"
abbreviation (input) "Bvarset \<equiv> 16 :: Opcode"
abbreviation (input) "Bvarbind \<equiv> 24 :: Opcode"
abbreviation (input) "Bcall \<equiv> 32 :: Opcode"
abbreviation (input) "Bunbind \<equiv> 40 :: Opcode"
abbreviation (input) "Bconstant2 \<equiv> 129 :: Opcode"
abbreviation (input) "Bgoto \<equiv> 130 :: Opcode"
abbreviation (input) "Bgotoifnonnilelsepop \<equiv> 134 :: Opcode"
abbreviation (input) "Bdiscard \<equiv> 136 :: Opcode"
abbreviation (input) "BRgoto \<equiv> 170 :: Opcode"
abbreviation (input) "BRgotoifnonnilelsepop \<equiv> 174 :: Opcode"
abbreviation (input) "BlistN \<equiv> 175 :: Opcode"
abbreviation (input) "BinsertN \<equiv> 177 :: Opcode"
abbreviation (input) "Bassq \<equiv> 183 :: Opcode"
abbreviation (input) "Bconstant \<equiv> 192 :: Opcode"

text \<open>
  What can go wrong: an error is signalled, or memory outside an array is used, an array element that was
  never written is read, an assertion fails or \<open>ABORT\<close> is reached (\<open>Fault\<close>).
\<close>

datatype byte_code_error = Invalid_byte_code string | Fault

definition sbind :: "'e + 'a \<Rightarrow> ('a \<Rightarrow> 'e + 'b) \<Rightarrow> 'e + 'b" where
  "sbind r f = (case r of Inl e \<Rightarrow> Inl e | Inr x \<Rightarrow> f x)"

lemma sbind_simps [simp]: "sbind (Inl e) f = Inl e" "sbind (Inr x) f = f x"
  by (simp_all add: sbind_def)

lemma sbind_Inr: "sbind r f = Inr y \<longleftrightarrow> (\<exists>x. r = Inr x \<and> f x = Inr y)"
  by (cases r) auto

definition valid_opcode :: "Opcode \<Rightarrow> bool" where
  "valid_opcode opcode \<longleftrightarrow> \<not> (opcode < Bvarref \<or> opcode = 169 \<or> opcode > Bassq \<and> opcode < Bconstant)"

definition check_opcode :: "Opcode \<Rightarrow> byte_code_error + unit" where
  "check_opcode opcode = (if valid_opcode opcode then Inr () else Inl (Invalid_byte_code ''invalid opcode %d in instruction stream''))"

definition check_constants_index :: "int \<Rightarrow> lisp_object list \<Rightarrow> byte_code_error + unit" where
  "check_constants_index idx constants =
     (if idx < 0 \<or> idx \<ge> int (length constants)
      then Inl (Invalid_byte_code ''reference %d to constants array out of range 0, %d'') else Inr ())"

section \<open>Reading and writing\<close>

text \<open>
  The local variables of \<open>optimize_byte_code\<close>. \<open>ptr\<close> is the part of the instructions string that is
  still to be read, with the zero byte that ends every string; \<open>program\<close> is the part of the program
  that has been written, up to \<open>program_ptr\<close>; \<open>icounts\<close> and \<open>jumps\<close> are likewise filled up to their
  pointers.
\<close>

record optimizer =
  ptr :: "int list"
  program :: "int list"
  icounts :: "nat list"
  jumps :: "(int \<times> int) list"
  varbind_count :: nat

definition READ_INSTRUCTION_CHAR :: "optimizer \<Rightarrow> byte_code_error + int \<times> optimizer" where
  "READ_INSTRUCTION_CHAR s =
     (case ptr s of [] \<Rightarrow> Inl Fault
      | c # cs \<Rightarrow> if c > 255 then Inl (Invalid_byte_code ''Invalid character %c in byte code string'')
                  else Inr (c, s\<lparr>ptr := cs, icounts := icounts s @ [length (program s)]\<rparr>))"

definition READ_OPERAND_2 :: "optimizer \<Rightarrow> byte_code_error + int \<times> optimizer" where
  "READ_OPERAND_2 s =
     sbind (READ_INSTRUCTION_CHAR s) (\<lambda>(arg1, s1). sbind (READ_INSTRUCTION_CHAR s1) (\<lambda>(arg2, s2). Inr (arg1 + arg2 * 256, s2)))"

definition WRITE_INT8 :: "int \<Rightarrow> optimizer \<Rightarrow> optimizer" where
  "WRITE_INT8 v s = s\<lparr>program := program s @ [v mod 256]\<rparr>"

definition WRITE_INT16 :: "int \<Rightarrow> optimizer \<Rightarrow> optimizer" where
  "WRITE_INT16 v s = WRITE_INT8 ((v mod 2 ^ 32) div 256) (WRITE_INT8 (v mod 256) s)"

definition REWRITE_OPCODE :: "Opcode \<Rightarrow> optimizer \<Rightarrow> optimizer" where
  "REWRITE_OPCODE new_opcode s = s\<lparr>program := (program s)[length (program s) - 1 := new_opcode mod 256]\<rparr>"

definition WRITE_NARGS :: "Opcode \<Rightarrow> int \<Rightarrow> optimizer \<Rightarrow> optimizer" where
  "WRITE_NARGS base_opcode arg s =
     (if arg \<le> 5 then REWRITE_OPCODE (base_opcode + arg) s
      else if arg \<le> 255 then WRITE_INT8 arg (REWRITE_OPCODE (base_opcode + 6) s)
      else WRITE_INT16 arg (REWRITE_OPCODE (base_opcode + 7) s))"

definition WRITE_CONSTANT :: "lisp_object list \<Rightarrow> int \<Rightarrow> optimizer \<Rightarrow> byte_code_error + optimizer" where
  "WRITE_CONSTANT constants arg s =
     sbind (check_constants_index arg constants) (\<lambda>_.
       Inr (if arg \<le> 255 - Bconstant then REWRITE_OPCODE (Bconstant + arg) s
            else WRITE_INT16 arg (REWRITE_OPCODE Bconstant2 s)))"

section \<open>Translation of one instruction\<close>

text \<open>The operand of an opcode that may have it in itself, in a byte or in two bytes.\<close>

definition read_nargs :: "Opcode \<Rightarrow> Opcode \<Rightarrow> optimizer \<Rightarrow> byte_code_error + int \<times> optimizer" where
  "read_nargs base_opcode opcode s =
     (if opcode = base_opcode + 7 then READ_OPERAND_2 s
      else if opcode = base_opcode + 6 then READ_INSTRUCTION_CHAR s
      else Inr (opcode - base_opcode, s))"

text \<open>The checks of an operand that names a variable.\<close>

definition SYMBOLP :: "lisp_object \<Rightarrow> bool" where
  "SYMBOLP x = (case x of Lisp_Symbol n \<Rightarrow> True | _ \<Rightarrow> False)"

definition check_variable :: "lisp_object list \<Rightarrow> string \<Rightarrow> (lisp_object \<Rightarrow> bool) \<Rightarrow> int \<Rightarrow> byte_code_error + lisp_object" where
  "check_variable constants what constant_symbol arg =
     sbind (check_constants_index arg constants) (\<lambda>_.
       let val = constants ! nat arg
       in if \<not> SYMBOLP val then Inl (Invalid_byte_code (what @ '' non-symbol %S''))
          else if constant_symbol val then Inl (Invalid_byte_code (what @ '' constant symbol %s''))
          else Inr val)"

definition do_jump :: "Opcode \<Rightarrow> int \<Rightarrow> int \<Rightarrow> optimizer \<Rightarrow> byte_code_error + optimizer" where
  "do_jump opcode arg argsize s =
     (let from = int (length (icounts s)) - argsize;
          s1 = s\<lparr>jumps := jumps s @ [(from, from + arg)]\<rparr>
      in if arg \<ge> - 1 \<and> arg \<le> argsize then Inl (Invalid_byte_code ''goto instruction is its own target'')
         else if arg \<le> - 128 \<or> arg > 127
         then Inr (WRITE_INT16 arg (if argsize = 1 then REWRITE_OPCODE (opcode + Bgoto - BRgoto) s1 else s1))
         else Inr (WRITE_INT8 arg (if argsize = 2 then REWRITE_OPCODE (opcode + BRgoto - Bgoto) s1 else s1)))"

definition optimize_step :: "(lisp_object \<Rightarrow> bool) \<Rightarrow> lisp_object list \<Rightarrow> optimizer \<Rightarrow> byte_code_error + optimizer" where
  "optimize_step keyword constants s0 =
     sbind (READ_INSTRUCTION_CHAR s0) (\<lambda>(opcode, s1).
     let s = WRITE_INT8 opcode s1
     in if Bvarref \<le> opcode \<and> opcode \<le> Bvarref + 7
        then sbind (read_nargs Bvarref opcode s) (\<lambda>(arg, s).
             sbind (check_variable constants ''variable reference to'' (\<lambda>val. val = Qnil \<or> val = Qt \<or> keyword val) arg) (\<lambda>_.
               Inr (WRITE_NARGS Bvarref arg s)))
        else if Bvarset \<le> opcode \<and> opcode \<le> Bvarset + 7
        then sbind (read_nargs Bvarset opcode s) (\<lambda>(arg, s).
             sbind (check_variable constants ''attempt to set'' (\<lambda>val. val = Qnil \<or> val = Qt) arg) (\<lambda>val.
               Inr (if keyword val then REWRITE_OPCODE Bdiscard s else WRITE_NARGS Bvarset arg s)))
        else if Bvarbind \<le> opcode \<and> opcode \<le> Bvarbind + 7
        then sbind (read_nargs Bvarbind opcode s) (\<lambda>(arg, s).
             let s = s\<lparr>varbind_count := varbind_count s + 1\<rparr>
             in sbind (check_variable constants ''attempt to let-bind'' (\<lambda>val. val = Qnil \<or> val = Qt \<or> keyword val) arg) (\<lambda>_.
                  Inr (WRITE_NARGS Bvarbind arg s)))
        else if Bcall \<le> opcode \<and> opcode \<le> Bcall + 7
        then sbind (read_nargs Bcall opcode s) (\<lambda>(arg, s). Inr (WRITE_NARGS Bcall arg s))
        else if Bunbind \<le> opcode \<and> opcode \<le> Bunbind + 7
        then sbind (read_nargs Bunbind opcode s) (\<lambda>(arg, s). Inr (WRITE_NARGS Bunbind arg s))
        else if Bgoto \<le> opcode \<and> opcode \<le> Bgotoifnonnilelsepop
        then sbind (READ_OPERAND_2 s) (\<lambda>(arg, s). do_jump opcode (arg - (int (length (icounts s)) - 2)) 2 s)
        else if BRgoto \<le> opcode \<and> opcode \<le> BRgotoifnonnilelsepop
        then sbind (READ_INSTRUCTION_CHAR s) (\<lambda>(arg, s). do_jump opcode (arg - 127) 1 s)
        else if opcode = Bconstant2
        then sbind (READ_OPERAND_2 s) (\<lambda>(arg, s). WRITE_CONSTANT constants arg s)
        else if BlistN \<le> opcode \<and> opcode \<le> BinsertN
        then sbind (READ_INSTRUCTION_CHAR s) (\<lambda>(arg, s). Inr (WRITE_INT8 arg s))
        else if opcode < Bconstant then sbind (check_opcode opcode) (\<lambda>_. Inr s)
        else WRITE_CONSTANT constants (opcode - Bconstant) s)"

text \<open>Every step reads at least one character.\<close>

lemma read_char_Inr:
  "READ_INSTRUCTION_CHAR s = Inr (c, s') \<longleftrightarrow>
     (\<exists>cs. ptr s = c # cs \<and> c \<le> 255 \<and> s' = s\<lparr>ptr := cs, icounts := icounts s @ [length (program s)]\<rparr>)"
  by (auto simp: READ_INSTRUCTION_CHAR_def split: list.splits)

lemma write_fields [simp]:
  "ptr (WRITE_INT8 v s) = ptr s" "ptr (WRITE_INT16 v s) = ptr s" "ptr (REWRITE_OPCODE op s) = ptr s" "ptr (WRITE_NARGS op v s) = ptr s"
  "icounts (WRITE_INT8 v s) = icounts s" "icounts (WRITE_INT16 v s) = icounts s" "icounts (REWRITE_OPCODE op s) = icounts s" "icounts (WRITE_NARGS op v s) = icounts s"
  "jumps (WRITE_INT8 v s) = jumps s" "jumps (WRITE_INT16 v s) = jumps s" "jumps (REWRITE_OPCODE op s) = jumps s" "jumps (WRITE_NARGS op v s) = jumps s"
  "varbind_count (WRITE_INT8 v s) = varbind_count s" "varbind_count (WRITE_INT16 v s) = varbind_count s" "varbind_count (REWRITE_OPCODE op s) = varbind_count s"
  "varbind_count (WRITE_NARGS op v s) = varbind_count s"
  by (simp_all add: WRITE_INT8_def WRITE_INT16_def REWRITE_OPCODE_def WRITE_NARGS_def)

lemma read_ptr:
  "READ_INSTRUCTION_CHAR s = Inr (c, s') \<Longrightarrow> length (ptr s') < length (ptr s)"
  "READ_OPERAND_2 s = Inr (v, s') \<Longrightarrow> length (ptr s') < length (ptr s)"
  "read_nargs base_opcode opcode s = Inr (v, s') \<Longrightarrow> length (ptr s') \<le> length (ptr s)"
  by (auto simp: READ_OPERAND_2_def read_nargs_def read_char_Inr sbind_Inr split: if_splits)

lemma write_constant_ptr: "WRITE_CONSTANT constants arg s = Inr s' \<Longrightarrow> ptr s' = ptr s"
  by (auto simp: WRITE_CONSTANT_def sbind_Inr)

lemma do_jump_ptr: "do_jump opcode arg argsize s = Inr s' \<Longrightarrow> ptr s' = ptr s"
  by (auto simp: do_jump_def Let_def split: if_splits)

lemma optimize_step_ptr:
  assumes "optimize_step keyword constants s = Inr s'"
  shows "length (ptr s') < length (ptr s)"
proof -
  obtain opcode s1 where s1: "READ_INSTRUCTION_CHAR s = Inr (opcode, s1)" using assms by (auto simp: optimize_step_def sbind_Inr)
  have "length (ptr s') \<le> length (ptr (WRITE_INT8 opcode s1))"
    using assms s1 unfolding optimize_step_def Let_def
    by (simp split: if_splits) (auto simp: sbind_Inr dest!: read_ptr write_constant_ptr do_jump_ptr)
  then show ?thesis using read_ptr(1) [OF s1] by simp
qed

function optimize_loop :: "(lisp_object \<Rightarrow> bool) \<Rightarrow> lisp_object list \<Rightarrow> optimizer \<Rightarrow> byte_code_error + optimizer" where
  "optimize_loop keyword constants s =
     (if length (ptr s) > 1
      then case optimize_step keyword constants s of Inl e \<Rightarrow> Inl e | Inr s' \<Rightarrow> optimize_loop keyword constants s'
      else Inr s)"
  by pat_completeness auto
termination
  by (relation "measure (\<lambda>(k, c, s). length (ptr s))") (auto dest: optimize_step_ptr)

declare optimize_loop.simps [simp del]

section \<open>Jumps\<close>

text \<open>The jumps table is made to refer to the program, for which \<open>icounts\<close> has the places.\<close>

definition icount_at :: "nat list \<Rightarrow> int \<Rightarrow> byte_code_error + int" where
  "icount_at ics j = (if 0 \<le> j \<and> j < int (length ics) then Inr (int (ics ! nat j)) else Inl Fault)"

definition byte_at :: "int list \<Rightarrow> int \<Rightarrow> byte_code_error + int" where
  "byte_at p j = (if 0 \<le> j \<and> j < int (length p) then Inr (p ! nat j) else Inl Fault)"

fun retarget :: "int list \<Rightarrow> nat list \<Rightarrow> (int \<times> int) list \<Rightarrow> byte_code_error + (int \<times> int) list" where
  "retarget p ics [] = Inr []"
| "retarget p ics ((frm, to) # js) =
     sbind (icount_at ics frm) (\<lambda>frm'. sbind (icount_at ics to) (\<lambda>to'.
     sbind (byte_at p to') (\<lambda>b. sbind (check_opcode b) (\<lambda>_.
     sbind (retarget p ics js) (\<lambda>js'. Inr ((frm', to') # js'))))))"

text \<open>
  One jump: its operand is written, in place. A short jump that has to go too far is made a long one;
  what follows it moves up by a byte, and so do the jumps that are, or whose targets are, behind it.
\<close>

definition put_int16 :: "int list \<Rightarrow> nat \<Rightarrow> int \<Rightarrow> int list" where
  "put_int16 p pos v = p[pos := v mod 256, pos + 1 := ((v mod 2 ^ 32) div 256) mod 256]"

definition fixup_jump :: "nat \<Rightarrow> int list \<times> (int \<times> int) list \<times> bool \<Rightarrow> byte_code_error + int list \<times> (int \<times> int) list \<times> bool" where
  "fixup_jump t = (\<lambda>(p, js, more_fixups).
     let (frm, to) = js ! t; jump = to - frm
     in sbind (byte_at p (frm - 1)) (\<lambda>opcode. sbind (byte_at p to) (\<lambda>target.
        sbind (if more_fixups then Inr () else check_opcode target) (\<lambda>_.
        if Bgoto \<le> opcode \<and> opcode \<le> Bgotoifnonnilelsepop
        then if frm + 1 < int (length p) then Inr (put_int16 p (nat frm) jump, js, more_fixups) else Inl Fault
        else if BRgoto \<le> opcode \<and> opcode \<le> BRgotoifnonnilelsepop
        then if \<not> frm < int (length p) then Inl Fault
             else if jump > - 128 \<and> jump \<le> 127
             then Inr (p[nat frm := jump mod 256], js, more_fixups)
             else let js' = map (\<lambda>(f, t). (if f > frm then f + 1 else f, if t > frm then t + 1 else t)) js;
                      p1 = p[nat frm - 1 := (opcode + Bgoto - BRgoto) mod 256];
                      p2 = memmove (p1 @ [0]) (nat frm + 1) (nat frm) (length p - nat frm)
                  in Inr (put_int16 p2 (nat frm) jump, js', True)
        else Inl Fault))))"

function fixup_pass :: "nat \<Rightarrow> nat \<Rightarrow> int list \<times> (int \<times> int) list \<times> bool \<Rightarrow> byte_code_error + int list \<times> (int \<times> int) list \<times> bool" where
  "fixup_pass n t st = (if t < n then sbind (fixup_jump t st) (fixup_pass n (t + 1)) else Inr st)"
  by pat_completeness auto
termination
  by (relation "measure (\<lambda>(n, t, st). n - t)") auto

declare fixup_pass.simps [simp del]

partial_function (option) fixup_loop :: "int list \<Rightarrow> (int \<times> int) list \<Rightarrow> (byte_code_error + int list) option" where
  "fixup_loop p js =
     (case fixup_pass (length js) 0 (p, js, False) of
        Inl e \<Rightarrow> Some (Inl e)
      | Inr (p', js', more_fixups) \<Rightarrow> if more_fixups then fixup_loop p' js' else Some (Inr p'))"

definition optimize_byte_code :: "(lisp_object \<Rightarrow> bool) \<Rightarrow> int list \<Rightarrow> lisp_object list \<Rightarrow> (byte_code_error + int list \<times> nat) option" where
  "optimize_byte_code keyword instructions constants =
     (case optimize_loop keyword constants \<lparr>ptr = instructions @ [0], program = [], icounts = [], jumps = [], varbind_count = 0\<rparr> of
        Inl e \<Rightarrow> Some (Inl e)
      | Inr s \<Rightarrow>
          (case retarget (program s) (icounts s) (jumps s) of
             Inl e \<Rightarrow> Some (Inl e)
           | Inr js \<Rightarrow> map_option (map_sum id (\<lambda>p. (p, varbind_count s))) (fixup_loop (program s) js)))"

end
