(* ===== verification/ByteInsn.thy ===== *)
theory ByteInsn
  imports ByteOpt
begin

text \<open>
  Byte code as a sequence of instructions. The two formats, that of the instructions string and that
  of the optimized program, differ in what the operand of a jump means. \<open>decode\<close> reads one instruction
  of either; jumps have their target as an absolute place.
\<close>

datatype insn =
    Varref nat
  | Varset nat
  | Varbind nat
  | Call nat
  | Unbind nat
  | Jump nat int
  | Constant nat
  | Counted Opcode nat
  | Plain Opcode

definition int8 :: "int \<Rightarrow> int" where
  "int8 a = (if a \<ge> 128 then a - 256 else a)"

definition uint16 :: "int \<Rightarrow> int \<Rightarrow> int" where
  "uint16 a b = a + b * 256"

definition int16 :: "int \<Rightarrow> int \<Rightarrow> int" where
  "int16 a b = int8 b * 256 + a"

text \<open>The operand that follows an opcode and may be in the opcode itself.\<close>

fun nargs_operand :: "int list \<Rightarrow> (nat \<times> nat) option" where
  "nargs_operand [] = None"
| "nargs_operand (opcode # xs) =
     (if opcode mod 8 = 7 then (case xs of a # b # _ \<Rightarrow> Some (nat (uint16 a b), 3) | _ \<Rightarrow> None)
      else if opcode mod 8 = 6 then (case xs of a # _ \<Rightarrow> Some (nat a, 2) | _ \<Rightarrow> None)
      else Some (nat (opcode mod 8), 1))"

definition nargs_insn :: "Opcode \<Rightarrow> nat \<Rightarrow> insn" where
  "nargs_insn opcode =
     (if opcode < Bvarset then Varref else if opcode < Bvarbind then Varset else if opcode < Bcall then Varbind
      else if opcode < Bunbind then Call else Unbind)"

text \<open>The instruction at place \<open>i\<close>, whose bytes are the front of the list, and its length.\<close>

definition decode1 :: "bool \<Rightarrow> nat \<Rightarrow> int list \<Rightarrow> (insn \<times> nat) option" where
  "decode1 optimized i xs =
     (case xs of [] \<Rightarrow> None
      | opcode # ys \<Rightarrow>
          if Bvarref \<le> opcode \<and> opcode \<le> Bunbind + 7 then map_option (\<lambda>(n, l). (nargs_insn opcode n, l)) (nargs_operand xs)
          else if Bgoto \<le> opcode \<and> opcode \<le> Bgotoifnonnilelsepop
          then (case ys of a # b # _ \<Rightarrow> Some (Jump (nat (opcode - Bgoto)) (if optimized then int i + 1 + int16 a b else uint16 a b), 3) | _ \<Rightarrow> None)
          else if BRgoto \<le> opcode \<and> opcode \<le> BRgotoifnonnilelsepop
          then (case ys of a # _ \<Rightarrow> Some (Jump (nat (opcode - BRgoto)) (if optimized then int i + 1 + int8 a else int i + 1 + (a - 127)), 2) | _ \<Rightarrow> None)
          else if opcode = Bconstant2 then (case ys of a # b # _ \<Rightarrow> Some (Constant (nat (uint16 a b)), 3) | _ \<Rightarrow> None)
          else if BlistN \<le> opcode \<and> opcode \<le> BinsertN then (case ys of a # _ \<Rightarrow> Some (Counted opcode (nat a), 2) | _ \<Rightarrow> None)
          else if opcode < Bconstant then Some (Plain opcode, 1)
          else Some (Constant (nat (opcode - Bconstant)), 1))"

definition decode :: "bool \<Rightarrow> int list \<Rightarrow> nat \<Rightarrow> (insn \<times> nat) option" where
  "decode optimized p i = map_option (\<lambda>(x, l). (x, i + l)) (decode1 optimized i (drop i p))"

lemma decode1_length: "decode1 opt i xs = Some (x, l) \<Longrightarrow> 0 < l \<and> l \<le> length xs"
  by (auto simp: decode1_def split: list.splits if_splits)

lemma decode_next: "decode opt p i = Some (x, j) \<Longrightarrow> i < j \<and> j \<le> length p"
  using decode1_length by (fastforce simp: decode_def)

text \<open>An instructions string as the sequence of its instructions, each with its place and the next one.\<close>

function parse :: "int list \<Rightarrow> nat \<Rightarrow> (nat \<times> insn \<times> nat) list option" where
  "parse p i =
     (if i < length p
      then case decode False p i of None \<Rightarrow> None | Some (x, j) \<Rightarrow> map_option ((#) (i, x, j)) (parse p j)
      else Some [])"
  by pat_completeness auto
termination
  by (relation "measure (\<lambda>(p, i). length p - i)") (auto dest: decode_next)

declare parse.simps [simp del]

text \<open>What the optimizer checks, and that jumps go to instructions.\<close>

definition insn_ok :: "(lisp_object \<Rightarrow> bool) \<Rightarrow> lisp_object list \<Rightarrow> nat list \<Rightarrow> nat \<times> insn \<times> nat \<Rightarrow> bool" where
  "insn_ok keyword constants starts = (\<lambda>(i, x, j).
     case x of
       Varref n \<Rightarrow> n < length constants \<and> SYMBOLP (constants ! n) \<and> constants ! n \<noteq> Qnil \<and> constants ! n \<noteq> Qt \<and> \<not> keyword (constants ! n)
     | Varset n \<Rightarrow> n < length constants \<and> SYMBOLP (constants ! n) \<and> constants ! n \<noteq> Qnil \<and> constants ! n \<noteq> Qt
     | Varbind n \<Rightarrow> n < length constants \<and> SYMBOLP (constants ! n) \<and> constants ! n \<noteq> Qnil \<and> constants ! n \<noteq> Qt \<and> \<not> keyword (constants ! n)
     | Constant n \<Rightarrow> n < length constants
     | Jump k t \<Rightarrow> 0 \<le> t \<and> nat t \<in> set starts \<and> (t < int i \<or> int j < t)
     | Plain opcode \<Rightarrow> valid_opcode opcode
     | _ \<Rightarrow> True)"

definition well_formed_code :: "(lisp_object \<Rightarrow> bool) \<Rightarrow> lisp_object list \<Rightarrow> int list \<Rightarrow> bool" where
  "well_formed_code keyword constants xs \<longleftrightarrow>
     (\<forall>x \<in> set xs. 0 \<le> x \<and> x \<le> 255) \<and>
     (case parse xs 0 of None \<Rightarrow> False | Some L \<Rightarrow> list_all (insn_ok keyword constants (map fst L)) L)"

text \<open>An assignment to a keyword becomes a discard.\<close>

definition checked :: "(lisp_object \<Rightarrow> bool) \<Rightarrow> lisp_object list \<Rightarrow> insn \<Rightarrow> insn" where
  "checked keyword constants x = (case x of Varset n \<Rightarrow> if keyword (constants ! n) then Plain Bdiscard else x | _ \<Rightarrow> x)"

definition relocate :: "(nat \<Rightarrow> nat) \<Rightarrow> insn \<Rightarrow> insn" where
  "relocate off x = (case x of Jump k t \<Rightarrow> Jump k (int (off (nat t))) | _ \<Rightarrow> x)"

section \<open>What the first pass writes\<close>

definition nargs_bytes :: "Opcode \<Rightarrow> nat \<Rightarrow> int list" where
  "nargs_bytes base_opcode n =
     (if n \<le> 5 then [base_opcode + int n] else if n \<le> 255 then [base_opcode + 6, int n] else [base_opcode + 7, int n mod 256, int n div 256])"

text \<open>The bytes of an instruction in the program; those of jumps up to their operands.\<close>

definition encoded :: "insn \<Rightarrow> int list \<Rightarrow> bool" where
  "encoded x u =
     (case x of
        Varref n \<Rightarrow> u = nargs_bytes Bvarref n
      | Varset n \<Rightarrow> u = nargs_bytes Bvarset n
      | Varbind n \<Rightarrow> u = nargs_bytes Bvarbind n
      | Call n \<Rightarrow> u = nargs_bytes Bcall n
      | Unbind n \<Rightarrow> u = nargs_bytes Bunbind n
      | Constant n \<Rightarrow> u = (if n \<le> 63 then [Bconstant + int n] else [Bconstant2, int n mod 256, int n div 256])
      | Jump k t \<Rightarrow> k \<le> 4 \<and> (\<exists>a b. u = [Bgoto + int k, a, b] \<or> u = [BRgoto + int k, a])
      | Counted opcode n \<Rightarrow> BlistN \<le> opcode \<and> opcode \<le> BinsertN \<and> u = [opcode, int n]
      | Plain opcode \<Rightarrow> valid_opcode opcode \<and> opcode > Bunbind + 7 \<and> opcode < Bconstant \<and> opcode \<noteq> Bconstant2 \<and>
          \<not> (Bgoto \<le> opcode \<and> opcode \<le> Bgotoifnonnilelsepop) \<and> \<not> (BRgoto \<le> opcode \<and> opcode \<le> BRgotoifnonnilelsepop) \<and>
          \<not> (BlistN \<le> opcode \<and> opcode \<le> BinsertN) \<and> u = [opcode])"

definition jump_entry :: "nat \<times> insn \<times> nat \<Rightarrow> (int \<times> int) list" where
  "jump_entry = (\<lambda>(i, x, j). case x of Jump k t \<Rightarrow> [(int i + 1, t)] | _ \<Rightarrow> [])"

definition is_varbind :: "insn \<Rightarrow> bool" where
  "is_varbind x = (case x of Varbind n \<Rightarrow> True | _ \<Rightarrow> False)"

definition opt_step_ok :: "(lisp_object \<Rightarrow> bool) \<Rightarrow> lisp_object list \<Rightarrow> optimizer \<Rightarrow> nat \<times> insn \<times> nat \<Rightarrow> int list \<Rightarrow> optimizer \<Rightarrow> bool" where
  "opt_step_ok keyword constants s = (\<lambda>(i, x, j) u s'.
     ptr s' = drop (j - i) (ptr s) \<and> program s' = program s @ u \<and> encoded (checked keyword constants x) u \<and> 0 < length u \<and>
     2 * length u \<le> 3 * (j - i) \<and> jumps s' = jumps s @ jump_entry (i, x, j) \<and>
     (\<exists>ics. icounts s' = icounts s @ length (program s) # ics \<and> Suc (length ics) = j - i \<and> (ics \<noteq> [] \<longrightarrow> hd ics = length (program s) + 1)) \<and>
     varbind_count s' = varbind_count s + (if is_varbind x then 1 else 0))"

end
