(* ===== verification/Specpdl.thy ===== *)
theory Specpdl
  imports ByteOpt
begin

text \<open>
  The special binding stack of \<open>eval.c\<close> and \<open>backtrace.h\<close>: dynamic binding of variables and unwind
  protection. Binding a variable saves its old value on the stack; \<open>unbind_to\<close> takes entries off again,
  restores the values and runs the cleanup functions.
\<close>

section \<open>State\<close>

text \<open>
  The function of an entry of the stack: none for a variable, one of the two functions for variables that
  are or were about to be local to a buffer, or another C function.
\<close>

datatype unwind_function = No_func | Specbind_unwind_local | Specbind_unwind_wasnt_local | Unwind nat

record specbinding =
  symbol :: nat
  old_value :: lisp_object
  func :: unwind_function

text \<open>
  The state of the Lisp system. \<open>specpdl\<close> is the used part of the stack, the entry below \<open>specpdl_ptr\<close>
  first, so that its length is \<open>specpdl_depth\<close>; \<open>ext\<close> is everything else.
\<close>

record 'w lisp_state =
  heap :: lisp_heap
  sym_value :: "nat \<Rightarrow> lisp_object"
  specpdl :: "specbinding list"
  specpdl_size :: int
  max_specpdl_size :: int
  debug_on_error :: bool
  quit_flag :: lisp_object
  ext :: 'w

definition specpdl_depth :: "'w lisp_state \<Rightarrow> nat" where
  "specpdl_depth s = length (specpdl s)"

text \<open>An operation that may exit with an error, or a throw, and leaves a state in any case.\<close>

type_synonym 'w effect = "'w lisp_state \<Rightarrow> lisp_error option \<times> 'w lisp_state"

definition and_then :: "'w effect \<Rightarrow> 'w effect \<Rightarrow> 'w effect" where
  "and_then f g s = (case f s of (Some e, s') \<Rightarrow> (Some e, s') | (None, s') \<Rightarrow> g s')"

text \<open>
  What the code calls: variables whose value is a magic object, which forward to C variables or have
  values local to buffers, buffers, the C functions that were registered as cleanup, and the quit flag as it is
  after a look for a pending quit.
\<close>

record 'w variable_ops =
  Fset_magic :: "nat \<Rightarrow> lisp_object \<Rightarrow> 'w effect"
  find_symbol_value :: "nat \<Rightarrow> 'w lisp_state \<Rightarrow> lisp_object"
  symbol_value_buffer_local_info :: "nat \<Rightarrow> lisp_object \<Rightarrow> 'w lisp_state \<Rightarrow> int"
  Fkill_local_variable :: "nat \<Rightarrow> 'w effect"
  Fcurrent_buffer :: "'w lisp_state \<Rightarrow> lisp_object"
  Fset_buffer :: "lisp_object \<Rightarrow> 'w effect"
  get_buffer :: "lisp_object \<Rightarrow> 'w lisp_state \<Rightarrow> lisp_object"
  call_unwind :: "nat \<Rightarrow> lisp_object \<Rightarrow> 'w effect"
  keyword :: "lisp_object \<Rightarrow> bool"
  check_quit :: "'w lisp_state \<Rightarrow> lisp_object"

definition SYMBOL_VALUE_MAGIC_P :: "lisp_object \<Rightarrow> bool" where
  "SYMBOL_VALUE_MAGIC_P x = (case x of Lisp_Lrecord Lrecord_symbol_value_magic n \<Rightarrow> True | _ \<Rightarrow> False)"

definition set_value :: "nat \<Rightarrow> lisp_object \<Rightarrow> 'w lisp_state \<Rightarrow> 'w lisp_state" where
  "set_value sy v s = s\<lparr>sym_value := (sym_value s)(sy := v)\<rparr>"

text \<open>\<open>Fset\<close> for a symbol that is not constant; a magic value that is not \<open>Qunbound\<close> is set by its own code.\<close>

definition Fset :: "'w variable_ops \<Rightarrow> nat \<Rightarrow> lisp_object \<Rightarrow> 'w effect" where
  "Fset ops sy v s =
     (if \<not> SYMBOL_VALUE_MAGIC_P (sym_value s sy) \<or> UNBOUNDP (sym_value s sy) then (None, set_value sy v s)
      else Fset_magic ops sy v s)"

section \<open>Growth of the stack\<close>

abbreviation (input) "min_max_specpdl_size \<equiv> 400 :: int"

text \<open>
  The size is doubled until it is enough, within the maximum. The size starts positive and the loop is
  only reached when the maximum exceeds what is needed; otherwise the loop in the code would not end.
\<close>

function grow_size :: "int \<Rightarrow> int \<Rightarrow> int \<Rightarrow> int" where
  "grow_size size_needed maximum siz =
     (if siz < size_needed \<and> 0 < siz \<and> siz < maximum then grow_size size_needed maximum (min (siz * 2) maximum) else siz)"
  by pat_completeness auto
termination
  by (relation "measure (\<lambda>(n, m, s). nat (m - s))") auto

declare grow_size.simps [simp del]

definition grow_specpdl :: "int \<Rightarrow> 'w effect" where
  "grow_specpdl reserved s =
     (let size_needed = int (specpdl_depth s) + reserved;
          s1 = (if size_needed \<ge> max_specpdl_size s \<and> max_specpdl_size s < min_max_specpdl_size then s\<lparr>max_specpdl_size := min_max_specpdl_size\<rparr> else s)
      in if size_needed \<ge> max_specpdl_size s1
         then (Some (Error_string ''Variable binding depth exceeds max-specpdl-size''),
               if debug_on_error s1 then s1\<lparr>max_specpdl_size := size_needed + 100\<rparr> else s1)
         else (None, s1\<lparr>specpdl_size := grow_size size_needed (max_specpdl_size s1) (specpdl_size s1)\<rparr>))"

definition SPECPDL_RESERVE :: "int \<Rightarrow> 'w effect" where
  "SPECPDL_RESERVE siz s = (if int (specpdl_depth s) + siz \<ge> specpdl_size s then grow_specpdl siz s else (None, s))"

section \<open>Binding\<close>

definition push_binding :: "specbinding \<Rightarrow> 'w lisp_state \<Rightarrow> 'w lisp_state" where
  "push_binding b s = s\<lparr>specpdl := b # specpdl s\<rparr>"

definition specbind_magic :: "'w variable_ops \<Rightarrow> nat \<Rightarrow> lisp_object \<Rightarrow> 'w effect" where
  "specbind_magic ops sy v s =
     (let buffer_local = symbol_value_buffer_local_info ops sy (Fcurrent_buffer ops s) s;
          s1 = (if buffer_local = 0 then push_binding \<lparr>symbol = sy, old_value = find_symbol_value ops sy s, func = No_func\<rparr> s
                else if buffer_local > 0
                then let (c, h) = Fcons (Fcurrent_buffer ops s) (find_symbol_value ops sy s) (heap s)
                     in push_binding \<lparr>symbol = sy, old_value = c, func = Specbind_unwind_local\<rparr> (s\<lparr>heap := h\<rparr>)
                else push_binding \<lparr>symbol = sy, old_value = Fcurrent_buffer ops s, func = Specbind_unwind_wasnt_local\<rparr> s)
      in Fset ops sy v s1)"

text \<open>The macro for callers that know that the symbol is not constant and that there is room.\<close>

definition SPECBIND_FAST_UNSAFE :: "'w variable_ops \<Rightarrow> nat \<Rightarrow> lisp_object \<Rightarrow> 'w effect" where
  "SPECBIND_FAST_UNSAFE ops sy newval s =
     (let oldval = sym_value s sy
      in if \<not> SYMBOL_VALUE_MAGIC_P oldval \<or> UNBOUNDP oldval
         then (None, set_value sy newval (push_binding \<lparr>symbol = sy, old_value = oldval, func = No_func\<rparr> s))
         else specbind_magic ops sy newval s)"

definition reject_constant_symbols :: "'w variable_ops \<Rightarrow> nat \<Rightarrow> lisp_object \<Rightarrow> 'w effect" where
  "reject_constant_symbols ops sy newval s =
     (if Lisp_Symbol sy = Qnil \<or> Lisp_Symbol sy = Qt \<or> keyword ops (Lisp_Symbol sy) \<and> newval \<noteq> Lisp_Symbol sy
      then (Some (Simple_error ''setting-constant'' (if UNBOUNDP newval then [Lisp_Symbol sy] else [Lisp_Symbol sy, newval])), s)
      else (None, s))"

definition specbind :: "'w variable_ops \<Rightarrow> lisp_object \<Rightarrow> lisp_object \<Rightarrow> 'w effect" where
  "specbind ops x newval =
     and_then (SPECPDL_RESERVE 1) (\<lambda>s.
       case x of
         Lisp_Symbol sy \<Rightarrow>
           if \<not> SYMBOL_VALUE_MAGIC_P (sym_value s sy) \<or> UNBOUNDP (sym_value s sy)
           then and_then (reject_constant_symbols ops sy newval) (SPECBIND_FAST_UNSAFE ops sy newval) s
           else specbind_magic ops sy newval s
       | _ \<Rightarrow> (Some (Wrong_type_argument ''symbolp'' x), s))"

definition record_unwind_protect :: "unwind_function \<Rightarrow> lisp_object \<Rightarrow> 'w effect" where
  "record_unwind_protect f arg =
     and_then (SPECPDL_RESERVE 1) (\<lambda>s. (None, push_binding \<lparr>symbol = 0, old_value = arg, func = f\<rparr> s))"

section \<open>Unwinding\<close>

text \<open>\<open>specpdl_ptr\<close> points to the entry that was taken off when the two functions look at its symbol.\<close>

definition in_buffer :: "'w variable_ops \<Rightarrow> lisp_object \<Rightarrow> 'w effect \<Rightarrow> 'w effect" where
  "in_buffer ops buf f s =
     (let current = Fcurrent_buffer ops s
      in if buf = current then f s else and_then (Fset_buffer ops buf) (and_then f (Fset_buffer ops current)) s)"

definition specbind_unwind_local :: "'w variable_ops \<Rightarrow> nat \<Rightarrow> lisp_object \<Rightarrow> 'w effect" where
  "specbind_unwind_local ops sy ovalue s =
     (let buf = get_buffer ops (XCAR (heap s) ovalue) s; v = XCDR (heap s) ovalue
      in if buf = Qnil then (None, s)
         else if symbol_value_buffer_local_info ops sy buf s = 0 then (None, s)
         else in_buffer ops buf (Fset ops sy v) s)"

definition specbind_unwind_wasnt_local :: "'w variable_ops \<Rightarrow> nat \<Rightarrow> lisp_object \<Rightarrow> 'w effect" where
  "specbind_unwind_wasnt_local ops sy buffer s =
     (let buf = get_buffer ops buffer s
      in if buf = Qnil then (None, s)
         else if symbol_value_buffer_local_info ops sy buf s = 0 then (None, s)
         else in_buffer ops buf (Fkill_local_variable ops sy) s)"

definition run_unwind :: "'w variable_ops \<Rightarrow> specbinding \<Rightarrow> 'w effect" where
  "run_unwind ops b =
     (case func b of
        No_func \<Rightarrow> (\<lambda>s. if \<not> SYMBOL_VALUE_MAGIC_P (sym_value s (symbol b)) then (None, set_value (symbol b) (old_value b) s)
                       else Fset ops (symbol b) (old_value b) s)
      | Specbind_unwind_local \<Rightarrow> specbind_unwind_local ops (symbol b) (old_value b)
      | Specbind_unwind_wasnt_local \<Rightarrow> specbind_unwind_wasnt_local ops (symbol b) (old_value b)
      | Unwind f \<Rightarrow> call_unwind ops f (old_value b))"

text \<open>
  The loop of \<open>unbind_to_hairy\<close>. It runs until the depth is \<open>count\<close>; a cleanup function may itself
  bind and unbind, so the loop is over states. One that goes below \<open>count\<close>, or an empty stack, is a
  loop off the start of the array, which is \<open>None\<close> here.
\<close>

partial_function (option) unbind_loop :: "'w variable_ops \<Rightarrow> nat \<Rightarrow> 'w lisp_state \<Rightarrow> (lisp_error option \<times> 'w lisp_state) option" where
  "unbind_loop ops count s =
     (if specpdl_depth s = count then Some (None, s)
      else case specpdl s of
             [] \<Rightarrow> None
           | b # bs \<Rightarrow>
               let r = run_unwind ops b (s\<lparr>specpdl := bs\<rparr>)
               in if fst r = None then unbind_loop ops count (snd r) else Some r)"

declare unbind_loop.simps [code]

definition unbind_to_hairy :: "'w variable_ops \<Rightarrow> nat \<Rightarrow> 'w lisp_state \<Rightarrow> (lisp_error option \<times> 'w lisp_state) option" where
  "unbind_to_hairy ops count s =
     (let quitf = (check_quit ops s \<noteq> Qnil)
      in map_option (\<lambda>(e, s2). (e, if e = None \<and> quitf then s2\<lparr>quit_flag := Qt\<rparr> else s2)) (unbind_loop ops count (s\<lparr>quit_flag := Qnil\<rparr>)))"

text \<open>The macro, which takes plain variables off itself and leaves the rest to \<open>unbind_to_hairy\<close>.\<close>

fun UNBIND_TO :: "'w variable_ops \<Rightarrow> nat \<Rightarrow> specbinding list \<Rightarrow> 'w lisp_state \<Rightarrow> (lisp_error option \<times> 'w lisp_state) option" where
  "UNBIND_TO ops count [] s = (if count = 0 then Some (None, s) else None)"
| "UNBIND_TO ops count (b # bs) s =
     (if length (b # bs) = count then Some (None, s)
      else if func b \<noteq> No_func \<or> SYMBOL_VALUE_MAGIC_P (sym_value s (symbol b)) then unbind_to_hairy ops count s
      else UNBIND_TO ops count bs (set_value (symbol b) (old_value b) (s\<lparr>specpdl := bs\<rparr>)))"

definition unbind_to :: "'w variable_ops \<Rightarrow> nat \<Rightarrow> 'w lisp_state \<Rightarrow> (lisp_error option \<times> 'w lisp_state) option" where
  "unbind_to ops count s = UNBIND_TO ops count (specpdl s) s"

text \<open>The value of the binding outside all dynamic ones: the entry nearest to the bottom counts.\<close>

definition top_level_value :: "nat \<Rightarrow> 'w lisp_state \<Rightarrow> lisp_object" where
  "top_level_value sy s =
     (case List.find (\<lambda>b. symbol b = sy) (rev (specpdl s)) of Some b \<Rightarrow> old_value b | None \<Rightarrow> sym_value s sy)"

end
