(* ===== verification/ByteExec.thy ===== *)
theory ByteExec
  imports ByteInsn Specpdl
begin

text \<open>
  The interpreter of byte code: \<open>execute_optimized_program\<close> and \<open>execute_rare_opcode\<close> of \<open>bytecode.c\<close>. The
  program is read instruction by instruction; the values on the stack are a list, the top first, in an
  array of \<open>stack_depth\<close> elements. Popping from an empty stack, pushing on a full one, reading outside
  the program or the constants, writing past the end of the binding stack and \<open>ABORT\<close> are \<open>Crash\<close>.
\<close>

section \<open>Arithmetic\<close>

text \<open>Integers have 63 bits in a 64-bit build; \<open>make_int\<close> drops the others.\<close>

definition make_int :: "int \<Rightarrow> lisp_object" where
  "make_int x = Lisp_Int ((x + 2 ^ 62) mod 2 ^ 63 - 2 ^ 62)"

abbreviation (input) INT_PLUS :: "lisp_object \<Rightarrow> lisp_object \<Rightarrow> lisp_object" where
  "INT_PLUS x y \<equiv> make_int (XINT x + XINT y)"

abbreviation (input) INT_MINUS :: "lisp_object \<Rightarrow> lisp_object \<Rightarrow> lisp_object" where
  "INT_MINUS x y \<equiv> make_int (XINT x - XINT y)"

text \<open>An operation that gives a value or exits with an error, and leaves a state.\<close>

type_synonym 'w value_effect = "'w lisp_state \<Rightarrow> (lisp_error + lisp_object) \<times> 'w lisp_state"

text \<open>
  What the interpreter calls. \<open>prim\<close> is the Lisp function an opcode stands for, applied to its operands in
  the order they were pushed; \<open>save_state\<close> gives the function and the argument that an opcode such as
  \<open>Bsave_excursion\<close> registers as cleanup; arithmetic on floats and markers is left to \<open>float_arith\<close> and
  \<open>float_compare\<close>; \<open>QUIT\<close> exits when the user has asked for it.
\<close>

record 'w bc_ops =
  vops :: "'w variable_ops"
  Fsymbol_value :: "nat \<Rightarrow> 'w value_effect"
  Ffuncall :: "lisp_object list \<Rightarrow> 'w value_effect"
  prim :: "Opcode \<Rightarrow> lisp_object list \<Rightarrow> 'w value_effect"
  save_state :: "Opcode \<Rightarrow> 'w lisp_state \<Rightarrow> (nat \<times> lisp_object) \<times> 'w lisp_state"
  float_arith :: "Opcode \<Rightarrow> lisp_object \<Rightarrow> lisp_object \<Rightarrow> 'w value_effect"
  float_compare :: "lisp_object \<Rightarrow> lisp_object \<Rightarrow> 'w lisp_state \<Rightarrow> lisp_error + int"
  Fprogn_function :: nat
  QUIT :: "'w effect"

definition arith_value :: "lisp_object \<Rightarrow> int option" where
  "arith_value x = (case x of Lisp_Int i \<Rightarrow> Some i | Lisp_Char c \<Rightarrow> Some c | _ \<Rightarrow> None)"

definition bytecode_arithop :: "'w bc_ops \<Rightarrow> lisp_object \<Rightarrow> lisp_object \<Rightarrow> Opcode \<Rightarrow> 'w value_effect" where
  "bytecode_arithop ops obj1 obj2 opcode s =
     (case (arith_value obj1, arith_value obj2) of
        (Some a, Some b) \<Rightarrow>
          (if opcode = 92 then Inr (make_int (a + b))
           else if opcode = 90 then Inr (make_int (a - b))
           else if opcode = 95 then Inr (make_int (a * b))
           else if opcode = 165 then (if b = 0 then Inl (Simple_error ''arith-error'' []) else Inr (make_int (c_div a b)))
           else if opcode = 93 then Inr (make_int (max a b))
           else Inr (make_int (min a b)), s)
      | _ \<Rightarrow> float_arith ops opcode obj1 obj2 s)"

definition bytecode_arithcompare :: "'w bc_ops \<Rightarrow> lisp_object \<Rightarrow> lisp_object \<Rightarrow> 'w lisp_state \<Rightarrow> lisp_error + int" where
  "bytecode_arithcompare ops obj1 obj2 s =
     (case (arith_value obj1, arith_value obj2) of
        (Some a, Some b) \<Rightarrow> Inr (if a < b then - 1 else if a > b then 1 else 0)
      | _ \<Rightarrow> float_compare ops obj1 obj2 s)"

definition bytecode_negate :: "'w bc_ops \<Rightarrow> lisp_object \<Rightarrow> 'w value_effect" where
  "bytecode_negate ops obj s =
     (case arith_value obj of Some a \<Rightarrow> (Inr (make_int (- a)), s) | None \<Rightarrow> float_arith ops 91 obj obj s)"

section \<open>Opcodes without operands in the code\<close>

definition bool_object :: "bool \<Rightarrow> lisp_object" where
  "bool_object b = (if b then Qt else Qnil)"

text \<open>
  The number of values an opcode takes from the stack before it pushes its result, for the opcodes that
  do just that; opcodes that do not exist have none.
\<close>

definition operands :: "Opcode \<Rightarrow> nat option" where
  "operands opcode =
     (if opcode \<in> {96, 100, 101, 103, 104, 105, 108, 109, 110, 111, 112, 116, 126} then Some 0
      else if opcode \<in> {57, 58, 59, 60, 63, 64, 65, 67, 71, 74, 75, 83, 84, 91, 98, 99, 102, 106, 113, 117, 118, 121, 122, 127,
        148, 149, 150, 151, 159, 162, 163, 167, 168} then Some 1
      else if opcode \<in> {56, 61, 62, 66, 68, 72, 76, 77, 78, 80, 85, 86, 87, 88, 89, 90, 92, 93, 94, 95, 97, 107, 115, 119, 120, 123, 124, 125,
        141, 152, 153, 154, 155, 156, 157, 158, 160, 161, 164, 165, 166, 182, 183} then Some 2
      else if opcode \<in> {69, 73, 79, 81, 143, 147} then Some 3
      else if opcode \<in> {70, 82} then Some 4
      else None)"

fun list_objects :: "lisp_object list \<Rightarrow> lisp_heap \<Rightarrow> lisp_object \<times> lisp_heap" where
  "list_objects [] h = (Qnil, h)"
| "list_objects (x # xs) h = (let (tail, h1) = list_objects xs h in Fcons x tail h1)"

text \<open>The value of such an opcode. The operands are in the order in which they were pushed.\<close>

definition opcode_value :: "'w bc_ops \<Rightarrow> Opcode \<Rightarrow> lisp_object list \<Rightarrow> 'w value_effect" where
  "opcode_value ops opcode args s =
     (let a = args ! 0; b = args ! 1; pure = (\<lambda>v. (Inr v, s)); on_heap = (\<lambda>(v, h). (Inr v, s\<lparr>heap := h\<rparr>));
          compare_with = (\<lambda>P. (map_sum id (\<lambda>c. bool_object (P c)) (bytecode_arithcompare ops a b s), s))
      in if opcode = 57 then pure (bool_object (SYMBOLP a))
         else if opcode = 58 then pure (bool_object (CONSP a))
         else if opcode = 59 then pure (bool_object (STRINGP a))
         else if opcode = 60 then pure (bool_object (LISTP a))
         else if opcode = 63 then pure (bool_object (NILP a))
         else if opcode = 64 then (Fcar (heap s) a, s)
         else if opcode = 65 then (Fcdr (heap s) a, s)
         else if opcode = 66 then on_heap (Fcons a b (heap s))
         else if opcode \<in> {67, 68, 69, 70} then on_heap (list_objects args (heap s))
         else if opcode = 83 \<and> INTP a then pure (INT_MINUS a (Lisp_Int 1))
         else if opcode = 84 \<and> INTP a then pure (INT_PLUS a (Lisp_Int 1))
         else if opcode = 85 then compare_with (\<lambda>c. c = 0)
         else if opcode = 86 then compare_with (\<lambda>c. c > 0)
         else if opcode = 87 then compare_with (\<lambda>c. c < 0)
         else if opcode = 88 then compare_with (\<lambda>c. c \<le> 0)
         else if opcode = 89 then compare_with (\<lambda>c. c \<ge> 0)
         else if opcode = 91 then bytecode_negate ops a s
         else if opcode = 92 \<and> INTP a \<and> INTP b then pure (INT_PLUS a b)
         else if opcode = 90 \<and> INTP a \<and> INTP b then pure (INT_MINUS a b)
         else if opcode \<in> {90, 92, 93, 94, 95, 165} then bytecode_arithop ops a b opcode s
         else if opcode = 97 then pure (bool_object (EQ a b))
         else if opcode = 160 then (map_sum id fst (Fsetcar a b (heap s)), case Fsetcar a b (heap s) of Inl e \<Rightarrow> s | Inr (v, h) \<Rightarrow> s\<lparr>heap := h\<rparr>)
         else if opcode = 161 then (map_sum id fst (Fsetcdr a b (heap s)), case Fsetcdr a b (heap s) of Inl e \<Rightarrow> s | Inr (v, h) \<Rightarrow> s\<lparr>heap := h\<rparr>)
         else if opcode = 162 then pure (Fcar_safe (heap s) a)
         else if opcode = 163 then pure (Fcdr_safe (heap s) a)
         else if opcode = 167 then pure (bool_object (INTP a \<or> FLOATP a))
         else if opcode = 168 then pure (bool_object (INTP a))
         else prim ops opcode args s)"

section \<open>One instruction\<close>

datatype 'w outcome =
    Continue int "lisp_object list" "'w lisp_state"
  | Return lisp_object "'w lisp_state"
  | Exit lisp_error "'w lisp_state"
  | Crash
  | Diverge

text \<open>Taking \<open>n\<close> values from the stack and pushing the result.\<close>

definition push_result :: "nat \<Rightarrow> int \<Rightarrow> lisp_object list \<Rightarrow> (lisp_error + lisp_object) \<times> 'w lisp_state \<Rightarrow> 'w outcome" where
  "push_result depth pc stk r =
     (case fst r of Inl e \<Rightarrow> Exit e (snd r)
      | Inr v \<Rightarrow> if length stk < depth then Continue pc (v # stk) (snd r) else Crash)"

definition apply_values :: "nat \<Rightarrow> int \<Rightarrow> nat \<Rightarrow> (lisp_object list \<Rightarrow> 'w value_effect) \<Rightarrow> lisp_object list \<Rightarrow> 'w lisp_state \<Rightarrow> 'w outcome" where
  "apply_values depth pc n f stk s = (if length stk < n then Crash else push_result depth pc (drop n stk) (f (rev (take n stk)) s))"

definition after_effect :: "int \<Rightarrow> lisp_object list \<Rightarrow> lisp_error option \<times> 'w lisp_state \<Rightarrow> 'w outcome" where
  "after_effect pc stk r = (case fst r of Some e \<Rightarrow> Exit e (snd r) | None \<Rightarrow> Continue pc stk (snd r))"

definition exec_unbind :: "'w bc_ops \<Rightarrow> int \<Rightarrow> int \<Rightarrow> lisp_object list \<Rightarrow> 'w lisp_state \<Rightarrow> 'w outcome" where
  "exec_unbind ops pc count stk s =
     (if count < 0 \<or> count > int (specpdl_depth s) then Crash
      else case unbind_to (vops ops) (nat count) s of None \<Rightarrow> Diverge | Some r \<Rightarrow> after_effect pc stk r)"

text \<open>A jump checks for a quit when it goes backwards.\<close>

definition JUMP_RELATIVE :: "'w bc_ops \<Rightarrow> int \<Rightarrow> int \<Rightarrow> lisp_object list \<Rightarrow> 'w lisp_state \<Rightarrow> 'w outcome" where
  "JUMP_RELATIVE ops pc target stk s = (if target \<le> pc then after_effect target stk (QUIT ops s) else Continue target stk s)"

definition exec_jump :: "'w bc_ops \<Rightarrow> nat \<Rightarrow> int \<Rightarrow> int \<Rightarrow> int \<Rightarrow> lisp_object list \<Rightarrow> 'w lisp_state \<Rightarrow> 'w outcome" where
  "exec_jump ops kind pc target next_pc stk s =
     (if kind = 0 then JUMP_RELATIVE ops pc target stk s
      else case stk of [] \<Rightarrow> Crash
           | v # rest \<Rightarrow>
               let jump = (if kind = 1 \<or> kind = 3 then NILP v else \<not> NILP v)
               in if jump then JUMP_RELATIVE ops pc target (if kind \<ge> 3 then stk else rest) s else Continue next_pc rest s)"

text \<open>
  The opcodes that do not simply push a result. \<open>count\<close> is the depth of the binding stack at the start.
  \<open>Bsave_window_excursion\<close>, 139, runs a whole body with \<open>Fprogn\<close>, its \<open>prim\<close>.
\<close>

definition exec_plain :: "'w bc_ops \<Rightarrow> nat \<Rightarrow> nat \<Rightarrow> Opcode \<Rightarrow> int \<Rightarrow> lisp_object list \<Rightarrow> 'w lisp_state \<Rightarrow> 'w outcome" where
  "exec_plain ops depth count opcode next_pc stk s =
     (case operands opcode of
        Some n \<Rightarrow> apply_values depth next_pc n (opcode_value ops opcode) stk s
      | None \<Rightarrow>
          if opcode \<in> {114, 138, 140}
          then let ((f, arg), s1) = save_state ops opcode s in after_effect next_pc stk (record_unwind_protect (Unwind f) arg s1)
          else if opcode = 146 then exec_unbind ops next_pc (int count) stk s
          else case stk of [] \<Rightarrow> Crash
             | v # rest \<Rightarrow>
                 if opcode = 135 then Return v s
                 else if opcode = 136 then Continue next_pc rest s
                 else if opcode = 137 then push_result depth next_pc stk (Inr v, s)
                 else if opcode = 139
                 then (case save_state ops opcode s of ((f, arg), s1) \<Rightarrow>
                        (case record_unwind_protect (Unwind f) arg s1 of
                           (Some e, s2) \<Rightarrow> Exit e s2
                         | (None, s2) \<Rightarrow>
                             (case prim ops 139 [v] s2 of
                                (Inl e, s3) \<Rightarrow> Exit e s3
                              | (Inr w, s3) \<Rightarrow> exec_unbind ops next_pc (int (specpdl_depth s)) (w # rest) s3)))
                 else if opcode = 142 then after_effect next_pc rest (record_unwind_protect (Unwind (Fprogn_function ops)) v s)
                 else if opcode = 144 then apply_values depth next_pc 1 (prim ops 144) stk s
                 else if opcode = 145
                 then case rest of [] \<Rightarrow> Crash
                    | buf # rest' \<Rightarrow>
                        (case prim ops 145 [buf] s of
                           (Inl e, s1) \<Rightarrow> Exit e s1
                         | (Inr _, s1) \<Rightarrow> exec_unbind ops next_pc (int (specpdl_depth s1) - 1) (v # rest') s1)
                 else Crash)"

definition exec_insn :: "'w bc_ops \<Rightarrow> nat \<Rightarrow> lisp_object list \<Rightarrow> nat \<Rightarrow> int \<Rightarrow> insn \<Rightarrow> int \<Rightarrow> lisp_object list \<Rightarrow> 'w lisp_state \<Rightarrow> 'w outcome" where
  "exec_insn ops depth constants count pc x next_pc stk s =
     (let symbol_at = (\<lambda>n. if n < length constants then (case constants ! n of Lisp_Symbol y \<Rightarrow> Some y | _ \<Rightarrow> None) else None)
      in case x of
        Varref n \<Rightarrow>
          (case symbol_at n of None \<Rightarrow> Crash
           | Some y \<Rightarrow> push_result depth next_pc stk
               (if SYMBOL_VALUE_MAGIC_P (sym_value s y) then Fsymbol_value ops y s else (Inr (sym_value s y), s)))
      | Varset n \<Rightarrow>
          (case (symbol_at n, stk) of
             (Some y, v # rest) \<Rightarrow> after_effect next_pc rest (Fset (vops ops) y v s)
           | _ \<Rightarrow> Crash)
      | Varbind n \<Rightarrow>
          (case (symbol_at n, stk) of
             (Some y, v # rest) \<Rightarrow>
               if int (specpdl_depth s) < specpdl_size s then after_effect next_pc rest (SPECBIND_FAST_UNSAFE (vops ops) y v s) else Crash
           | _ \<Rightarrow> Crash)
      | Call n \<Rightarrow> apply_values depth next_pc (n + 1) (Ffuncall ops) stk s
      | Unbind n \<Rightarrow> exec_unbind ops next_pc (int (specpdl_depth s) - int n) stk s
      | Jump kind target \<Rightarrow> exec_jump ops kind pc target next_pc stk s
      | Constant n \<Rightarrow> if n < length constants then push_result depth next_pc stk (Inr (constants ! n), s) else Crash
      | Counted opcode n \<Rightarrow>
          if opcode = BlistN
          then if n = 0 then Crash
               else apply_values depth next_pc n (\<lambda>args s. let (v, h) = list_objects args (heap s) in (Inr v, s\<lparr>heap := h\<rparr>)) stk s
          else apply_values depth next_pc n (prim ops opcode) stk s
      | Plain opcode \<Rightarrow> exec_plain ops depth count opcode next_pc stk s)"

section \<open>The loop\<close>

partial_function (option) bc_run ::
    "(nat \<Rightarrow> (insn \<times> nat) option) \<Rightarrow> 'w bc_ops \<Rightarrow> nat \<Rightarrow> lisp_object list \<Rightarrow> nat \<Rightarrow> int \<Rightarrow> lisp_object list \<Rightarrow> 'w lisp_state \<Rightarrow> 'w outcome option" where
  "bc_run fetch ops depth constants count pc stk s =
     (if pc < 0 then Some Crash
      else case fetch (nat pc) of None \<Rightarrow> Some Crash
           | Some (x, j) \<Rightarrow>
               (case exec_insn ops depth constants count pc x (int j) stk s of
                  Continue pc' stk' s' \<Rightarrow> bc_run fetch ops depth constants count pc' stk' s'
                | Diverge \<Rightarrow> None
                | r \<Rightarrow> Some r))"

declare bc_run.simps [code]

definition execute_optimized_program :: "'w bc_ops \<Rightarrow> int list \<Rightarrow> nat \<Rightarrow> lisp_object list \<Rightarrow> 'w lisp_state \<Rightarrow> 'w outcome option" where
  "execute_optimized_program ops code stack_depth constants s =
     bc_run (decode True code) ops stack_depth constants (specpdl_depth s) 0 [] s"

text \<open>
  \<open>byte-code\<close>: the instructions are translated, room for the variables they bind is reserved, and the
  program is run. The optimizer's errors are errors of the call; a fault in it is a crash. The arguments are those
  that have passed the checks of their types at the start of the function; \<open>stack_depth\<close> is the number that is left when \<open>XINT (stack_depth)\<close> is
  passed on as an \<open>int\<close>, which is the argument itself for every natural number below \<open>2 ^ 31\<close>. A greater one
  asks for a value stack of more than 16 GB, or a negative size, and is not in the model.
\<close>

definition Fbyte_code :: "'w bc_ops \<Rightarrow> int list \<Rightarrow> lisp_object list \<Rightarrow> nat \<Rightarrow> 'w lisp_state \<Rightarrow> 'w outcome option" where
  "Fbyte_code ops instructions constants stack_depth s =
     (case optimize_byte_code (keyword (vops ops)) instructions constants of
        None \<Rightarrow> None
      | Some (Inl Fault) \<Rightarrow> Some Crash
      | Some (Inl (Invalid_byte_code msg)) \<Rightarrow> Some (Exit (Error_string msg) s)
      | Some (Inr (code, nvars)) \<Rightarrow>
          (case SPECPDL_RESERVE (int nvars) s of
             (Some e, s1) \<Rightarrow> Some (Exit e s1)
           | (None, s1) \<Rightarrow> execute_optimized_program ops code stack_depth constants s1))"

end
