(* ===== verification/ByteOptProps.thy ===== *)
theory ByteOptProps
  imports ByteInsn
begin

text \<open>
  Correctness of \<open>optimize_byte_code\<close>: the program it makes has the same instructions at new places,
  with every jump going to the new place of the instruction it went to.
\<close>

section \<open>The first pass\<close>

lemma nargs_operand_bounds:
  assumes "nargs_operand (opcode # ys) = Some (n, l)" and "\<forall>y \<in> set ys. 0 \<le> y \<and> y \<le> 255"
  shows "n \<le> 65535" "l = 1 \<or> l = 2 \<or> l = 3" "l = 1 \<Longrightarrow> n \<le> 5" "l = 2 \<Longrightarrow> n \<le> 255" "l \<le> Suc (length ys)"
  using assms by (auto simp: uint16_def split: if_splits list.splits)

lemma read_nargs_ok:
  assumes "nargs_operand (opcode # ys) = Some (n, l)" and "ptr s = ys @ zs" and "\<forall>y \<in> set ys. 0 \<le> y \<and> y \<le> 255"
    and "base_opcode \<le> opcode" and "opcode \<le> base_opcode + 7" and "base_opcode mod 8 = 0"
  shows "read_nargs base_opcode opcode s =
    Inr (int n, s\<lparr>ptr := drop (l - 1) (ptr s), icounts := icounts s @ replicate (l - 1) (length (program s))\<rparr>)"
proof -
  have m: "opcode mod 8 = opcode - base_opcode" using assms(4-6) by presburger
  show ?thesis
    using assms(1-4) unfolding read_nargs_def nargs_operand.simps m
    by (auto simp: READ_OPERAND_2_def READ_INSTRUCTION_CHAR_def uint16_def numeral_2_eq_2 split: if_splits list.splits)
qed

lemma write_nargs_program:
  assumes "program s = q @ [opcode]" and "n \<le> 65535" and "0 \<le> base_opcode" and "base_opcode \<le> 200"
  shows "program (WRITE_NARGS base_opcode (int n) s) = q @ nargs_bytes base_opcode n"
  using assms by (auto simp: WRITE_NARGS_def nargs_bytes_def REWRITE_OPCODE_def WRITE_INT8_def WRITE_INT16_def)

lemma nargs_bytes_length: "nargs_operand (opcode # ys) = Some (n, l) \<Longrightarrow> \<forall>y \<in> set ys. 0 \<le> y \<and> y \<le> 255 \<Longrightarrow>
    0 < length (nargs_bytes base_opcode n) \<and> 2 * length (nargs_bytes base_opcode n) \<le> 3 * l"
  using nargs_operand_bounds [of opcode ys n l] by (auto simp: nargs_bytes_def)

lemma check_variable_Inr:
  "n < length constants \<Longrightarrow> SYMBOLP (constants ! n) \<Longrightarrow> \<not> bad (constants ! n) \<Longrightarrow> check_variable constants what bad (int n) = Inr (constants ! n)"
  by (simp add: check_variable_def check_constants_index_def)

lemma write_constant_ok:
  assumes "program s = q @ [opcode]" and "n < length constants" and "n \<le> 65535"
  shows "\<exists>s'. WRITE_CONSTANT constants (int n) s = Inr s' \<and> ptr s' = ptr s \<and> icounts s' = icounts s \<and> jumps s' = jumps s \<and> varbind_count s' = varbind_count s \<and>
    program s' = q @ (if n \<le> 63 then [Bconstant + int n] else [Bconstant2, int n mod 256, int n div 256])"
  using assms by (auto simp: WRITE_CONSTANT_def check_constants_index_def REWRITE_OPCODE_def WRITE_INT8_def WRITE_INT16_def)

lemma do_jump_ok:
  assumes "program s = q @ [opcode]" and "argsize = 2 \<and> opcode = Bgoto + int k \<or> argsize = 1 \<and> opcode = BRgoto + int k" and "k \<le> 4"
    and "\<not> (- 1 \<le> arg \<and> arg \<le> argsize)"
  shows "\<exists>s' a b. do_jump opcode arg argsize s = Inr s' \<and> ptr s' = ptr s \<and> icounts s' = icounts s \<and> varbind_count s' = varbind_count s \<and>
    jumps s' = jumps s @ [(int (length (icounts s)) - argsize, int (length (icounts s)) - argsize + arg)] \<and>
    (program s' = q @ [Bgoto + int k, a, b] \<or> program s' = q @ [BRgoto + int k, a])"
proof -
  have k: "(130 + int k) mod 256 = 130 + int k" "(170 + int k) mod 256 = 170 + int k" using assms(3) by simp_all
  show ?thesis
    using assms(1,2,4) k by (auto simp: do_jump_def Let_def WRITE_INT8_def WRITE_INT16_def REWRITE_OPCODE_def)
qed

text \<open>The cases of an instruction that can be decoded.\<close>

lemma decode1_cases:
  assumes "decode1 False i ys = Some (x, l)" and "\<forall>y \<in> set ys. 0 \<le> y \<and> y \<le> 255"
  obtains
    (Nargs) opcode zs n where "ys = opcode # zs" "Bvarref \<le> opcode" "opcode \<le> Bunbind + 7" "nargs_operand (opcode # zs) = Some (n, l)" "x = nargs_insn opcode n"
  | (Goto) k a b zs where "ys = (Bgoto + int k) # a # b # zs" "k \<le> 4" "l = 3" "x = Jump k (uint16 a b)"
  | (RGoto) k a zs where "ys = (BRgoto + int k) # a # zs" "k \<le> 4" "l = 2" "x = Jump k (int i + 1 + (a - 127))"
  | (Const2) a b zs where "ys = Bconstant2 # a # b # zs" "l = 3" "x = Constant (nat (uint16 a b))"
  | (Counted) opcode a zs where "ys = opcode # a # zs" "BlistN \<le> opcode" "opcode \<le> BinsertN" "l = 2" "x = Counted opcode (nat a)"
  | (Const) opcode zs where "ys = opcode # zs" "Bconstant \<le> opcode" "l = 1" "x = Constant (nat (opcode - Bconstant))"
  | (Plain) opcode zs where "ys = opcode # zs" "l = 1" "x = Plain opcode" "opcode < Bconstant" "\<not> (Bvarref \<le> opcode \<and> opcode \<le> Bunbind + 7)"
      "\<not> (Bgoto \<le> opcode \<and> opcode \<le> Bgotoifnonnilelsepop)" "\<not> (BRgoto \<le> opcode \<and> opcode \<le> BRgotoifnonnilelsepop)" "opcode \<noteq> Bconstant2"
      "\<not> (BlistN \<le> opcode \<and> opcode \<le> BinsertN)"
proof (cases ys)
  case Nil
  then show ?thesis using assms(1) by (simp add: decode1_def)
next
  case (Cons opcode zs)
  note D = assms(1) [unfolded Cons decode1_def list.case]
  show ?thesis
  proof (cases "Bvarref \<le> opcode \<and> opcode \<le> Bunbind + 7")
    case True
    then show ?thesis using D Nargs [OF Cons] by (auto simp del: nargs_operand.simps)
  next
    case n: False
    show ?thesis
    proof (cases "Bgoto \<le> opcode \<and> opcode \<le> Bgotoifnonnilelsepop")
      case True
      then have "opcode = Bgoto + int (nat (opcode - Bgoto))" "nat (opcode - Bgoto) \<le> 4" by linarith+
      then show ?thesis using D True Cons Goto [of "nat (opcode - Bgoto)"] by (auto split: list.splits)
    next
      case g: False
      show ?thesis
      proof (cases "BRgoto \<le> opcode \<and> opcode \<le> BRgotoifnonnilelsepop")
        case True
        then have "opcode = BRgoto + int (nat (opcode - BRgoto))" "nat (opcode - BRgoto) \<le> 4" by linarith+
        then show ?thesis using D True Cons RGoto [of "nat (opcode - BRgoto)"] by (auto split: list.splits)
      next
        case r: False
        show ?thesis
          using D n g r Cons Const2 Counted [of opcode] Const [of opcode zs] Plain [of opcode zs] by (auto split: list.splits if_splits)
      qed
    qed
  qed
qed


lemma read_char_ok: "ptr s = c # cs \<Longrightarrow> c \<le> 255 \<Longrightarrow> READ_INSTRUCTION_CHAR s = Inr (c, s\<lparr>ptr := cs, icounts := icounts s @ [length (program s)]\<rparr>)"
  by (simp add: READ_INSTRUCTION_CHAR_def)

lemma read_operand_2_ok:
  "ptr s = a # b # cs \<Longrightarrow> a \<le> 255 \<Longrightarrow> b \<le> 255 \<Longrightarrow>
    READ_OPERAND_2 s = Inr (uint16 a b, s\<lparr>ptr := cs, icounts := icounts s @ [length (program s), length (program s)]\<rparr>)"
  by (simp add: READ_OPERAND_2_def READ_INSTRUCTION_CHAR_def uint16_def)

lemma optimize_step_ok:
  assumes ptr: "ptr s = ys @ zs" and dec: "decode1 False (length (icounts s)) ys = Some (x, l)" and bytes: "\<forall>y \<in> set ys. 0 \<le> y \<and> y \<le> 255"
    and ok: "insn_ok keyword constants starts (length (icounts s), x, length (icounts s) + l)"
  shows "\<exists>s' u. optimize_step keyword constants s = Inr s' \<and> opt_step_ok keyword constants s (length (icounts s), x, length (icounts s) + l) u s'"
  using dec bytes
proof (cases rule: decode1_cases)
  case (Nargs opcode ws n)
  define s1 where "s1 = WRITE_INT8 opcode (s\<lparr>ptr := ws @ zs, icounts := icounts s @ [length (program s)]\<rparr>)"
  have ws: "\<forall>y \<in> set ws. 0 \<le> y \<and> y \<le> 255" and op: "0 \<le> opcode" "opcode \<le> 255" using bytes Nargs(1) by auto
  note B = nargs_operand_bounds [OF Nargs(4) ws]
  define s2 where "s2 = s1\<lparr>ptr := drop (l - 1) (ptr s1), icounts := icounts s1 @ replicate (l - 1) (length (program s1))\<rparr>"
  have p: "program s2 = program s @ [opcode]" "ptr s2 = drop l (ptr s)" "varbind_count s2 = varbind_count s" "jumps s2 = jumps s"
    "icounts s2 = icounts s @ length (program s) # replicate (l - 1) (length (program s) + 1)"
    using op B(2) ptr Nargs(1) by (auto simp: s2_def s1_def WRITE_INT8_def)
  have read: "read_nargs base_opcode opcode s1 = Inr (int n, s2)"
    if "base_opcode \<le> opcode" "opcode \<le> base_opcode + 7" "base_opcode mod 8 = 0" for base_opcode
    unfolding s2_def using read_nargs_ok [OF Nargs(4) _ ws that, of s1 zs] by (simp add: s1_def)
  have first: "READ_INSTRUCTION_CHAR s = Inr (opcode, s\<lparr>ptr := ws @ zs, icounts := icounts s @ [length (program s)]\<rparr>)"
    using ptr Nargs(1) op by (simp add: read_char_ok)
  have w: "program (WRITE_NARGS base_opcode (int n) s2) = program s @ nargs_bytes base_opcode n" if "0 \<le> base_opcode" "base_opcode \<le> 200" for base_opcode
    using write_nargs_program [OF p(1) B(1) that] .
  note len = nargs_bytes_length [OF Nargs(4) ws]
  have rep: "Suc (length (replicate (l - 1) (length (program s) + 1))) = l" "replicate (l - 1) (length (program s) + 1) \<noteq> [] \<longrightarrow> hd (replicate (l - 1) (length (program s) + 1)) = length (program s) + 1"
    using B(2) by auto
  consider "opcode < Bvarset" | "Bvarset \<le> opcode" "opcode < Bvarbind" | "Bvarbind \<le> opcode" "opcode < Bcall" | "Bcall \<le> opcode" "opcode < Bunbind" | "Bunbind \<le> opcode"
    by linarith
  then show ?thesis
  proof cases
    case 1
    then have "optimize_step keyword constants s = Inr (WRITE_NARGS Bvarref (int n) s2)"
      using ok Nargs(2,5) first read [of Bvarref]
      by (simp add: optimize_step_def Let_def s1_def [symmetric] insn_ok_def nargs_insn_def check_variable_Inr)
    then show ?thesis using 1 Nargs(5) p(2-) w [of Bvarref] len [of Bvarref] rep
      by (auto simp: opt_step_ok_def nargs_insn_def checked_def encoded_def jump_entry_def is_varbind_def)
  next
    case 2
    show ?thesis
    proof (cases "keyword (constants ! n)")
      case True
      then have "optimize_step keyword constants s = Inr (REWRITE_OPCODE Bdiscard s2)"
        using 2 ok Nargs(2,5) first read [of Bvarset]
        by (simp add: optimize_step_def Let_def s1_def [symmetric] insn_ok_def nargs_insn_def check_variable_Inr)
      then show ?thesis using 2 True Nargs(5) p rep B(2)
        by (auto simp: opt_step_ok_def nargs_insn_def checked_def encoded_def jump_entry_def is_varbind_def REWRITE_OPCODE_def valid_opcode_def)
    next
      case False
      then have "optimize_step keyword constants s = Inr (WRITE_NARGS Bvarset (int n) s2)"
        using 2 ok Nargs(2,5) first read [of Bvarset]
        by (simp add: optimize_step_def Let_def s1_def [symmetric] insn_ok_def nargs_insn_def check_variable_Inr)
      then show ?thesis using 2 False Nargs(5) p(2-) w [of Bvarset] len [of Bvarset] rep
        by (auto simp: opt_step_ok_def nargs_insn_def checked_def encoded_def jump_entry_def is_varbind_def)
    qed
  next
    case 3
    define s3 where "s3 = s2\<lparr>varbind_count := varbind_count s2 + 1\<rparr>"
    have "optimize_step keyword constants s = Inr (WRITE_NARGS Bvarbind (int n) s3)"
      using 3 ok Nargs(2,5) first read [of Bvarbind]
      by (simp add: optimize_step_def Let_def s1_def [symmetric] insn_ok_def nargs_insn_def check_variable_Inr s3_def)
    moreover have "program (WRITE_NARGS Bvarbind (int n) s3) = program s @ nargs_bytes Bvarbind n"
      using write_nargs_program [of s3 "program s" opcode n Bvarbind] p(1) B(1) by (simp add: s3_def)
    ultimately show ?thesis using 3 Nargs(5) p(2-) len [of Bvarbind] rep
      by (auto simp: opt_step_ok_def nargs_insn_def checked_def encoded_def jump_entry_def is_varbind_def s3_def)
  next
    case 4
    then have "optimize_step keyword constants s = Inr (WRITE_NARGS Bcall (int n) s2)"
      using first read [of Bcall] by (simp add: optimize_step_def Let_def s1_def [symmetric])
    then show ?thesis using 4 Nargs(5) p(2-) w [of Bcall] len [of Bcall] rep
      by (auto simp: opt_step_ok_def nargs_insn_def checked_def encoded_def jump_entry_def is_varbind_def)
  next
    case 5
    then have "optimize_step keyword constants s = Inr (WRITE_NARGS Bunbind (int n) s2)"
      using Nargs(3) first read [of Bunbind] by (simp add: optimize_step_def Let_def s1_def [symmetric])
    then show ?thesis using 5 Nargs(5) p(2-) w [of Bunbind] len [of Bunbind] rep
      by (auto simp: opt_step_ok_def nargs_insn_def checked_def encoded_def jump_entry_def is_varbind_def)
  qed
next
  case (Goto k a b ws)
  define s1 where "s1 = WRITE_INT8 (Bgoto + int k) (s\<lparr>ptr := a # b # ws @ zs, icounts := icounts s @ [length (program s)]\<rparr>)"
  define s2 where "s2 = s1\<lparr>ptr := ws @ zs, icounts := icounts s1 @ [length (program s1), length (program s1)]\<rparr>"
  have bs: "0 \<le> a" "a \<le> 255" "0 \<le> b" "b \<le> 255" using bytes Goto(1) by auto
  have p: "program s2 = program s @ [Bgoto + int k]" "ptr s2 = drop 3 (ptr s)" "varbind_count s2 = varbind_count s" "jumps s2 = jumps s"
    "icounts s2 = icounts s @ [length (program s), length (program s) + 1, length (program s) + 1]"
    using Goto(2) ptr Goto(1) by (auto simp: s2_def s1_def WRITE_INT8_def)
  have first: "READ_INSTRUCTION_CHAR s = Inr (Bgoto + int k, s\<lparr>ptr := a # b # ws @ zs, icounts := icounts s @ [length (program s)]\<rparr>)"
    using ptr Goto(1,2) by (simp add: read_char_ok)
  have second: "READ_OPERAND_2 s1 = Inr (uint16 a b, s2)" using bs by (simp add: s2_def s1_def read_operand_2_ok)
  have arg: "\<not> (- 1 \<le> uint16 a b - (int (length (icounts s)) + 1) \<and> uint16 a b - (int (length (icounts s)) + 1) \<le> 2)"
    using ok Goto(3,4) by (auto simp: insn_ok_def)
  from do_jump_ok [OF p(1) _ Goto(2) arg] obtain s' a' b' where s': "do_jump (Bgoto + int k) (uint16 a b - (int (length (icounts s)) + 1)) 2 s2 = Inr s'"
    "ptr s' = ptr s2" "icounts s' = icounts s2" "varbind_count s' = varbind_count s2" "jumps s' = jumps s @ [(int (length (icounts s)) + 1, uint16 a b)]"
    "program s' = program s @ [Bgoto + int k, a', b'] \<or> program s' = program s @ [BRgoto + int k, a']"
    by (auto simp: p(4,5))
  have l: "int (length (icounts s2)) - 2 = int (length (icounts s)) + 1" using p(5) by simp
  have "optimize_step keyword constants s = Inr s'"
    unfolding optimize_step_def first sbind_simps prod.case Let_def s1_def [symmetric] second l s'(1) using Goto(2) by simp
  then show ?thesis using s'(2-) p Goto(2-4)
    by (auto simp: opt_step_ok_def checked_def encoded_def jump_entry_def is_varbind_def)
next
  case (RGoto k a ws)
  define s1 where "s1 = WRITE_INT8 (BRgoto + int k) (s\<lparr>ptr := a # ws @ zs, icounts := icounts s @ [length (program s)]\<rparr>)"
  define s2 where "s2 = s1\<lparr>ptr := ws @ zs, icounts := icounts s1 @ [length (program s1)]\<rparr>"
  have bs: "0 \<le> a" "a \<le> 255" using bytes RGoto(1) by auto
  have p: "program s2 = program s @ [BRgoto + int k]" "ptr s2 = drop 2 (ptr s)" "varbind_count s2 = varbind_count s" "jumps s2 = jumps s"
    "icounts s2 = icounts s @ [length (program s), length (program s) + 1]"
    using RGoto(2) ptr RGoto(1) by (auto simp: s2_def s1_def WRITE_INT8_def)
  have first: "READ_INSTRUCTION_CHAR s = Inr (BRgoto + int k, s\<lparr>ptr := a # ws @ zs, icounts := icounts s @ [length (program s)]\<rparr>)"
    using ptr RGoto(1,2) by (simp add: read_char_ok)
  have second: "READ_INSTRUCTION_CHAR s1 = Inr (a, s2)" using bs by (simp add: s2_def s1_def read_char_ok)
  have arg: "\<not> (- 1 \<le> a - 127 \<and> a - 127 \<le> 1)" using ok RGoto(3,4) by (auto simp: insn_ok_def)
  from do_jump_ok [OF p(1) _ RGoto(2) arg] obtain s' a' b' where s': "do_jump (BRgoto + int k) (a - 127) 1 s2 = Inr s'"
    "ptr s' = ptr s2" "icounts s' = icounts s2" "varbind_count s' = varbind_count s2" "jumps s' = jumps s @ [(int (length (icounts s)) + 1, int (length (icounts s)) + 1 + (a - 127))]"
    "program s' = program s @ [Bgoto + int k, a', b'] \<or> program s' = program s @ [BRgoto + int k, a']"
    by (auto simp: p(4,5) algebra_simps)
  have "optimize_step keyword constants s = Inr s'"
    unfolding optimize_step_def first sbind_simps prod.case Let_def s1_def [symmetric] second s'(1) using RGoto(2) by simp
  then show ?thesis using s'(2-) p RGoto(2-4)
    by (auto simp: opt_step_ok_def checked_def encoded_def jump_entry_def is_varbind_def)
next
  case (Const2 a b ws)
  define s1 where "s1 = WRITE_INT8 Bconstant2 (s\<lparr>ptr := a # b # ws @ zs, icounts := icounts s @ [length (program s)]\<rparr>)"
  define s2 where "s2 = s1\<lparr>ptr := ws @ zs, icounts := icounts s1 @ [length (program s1), length (program s1)]\<rparr>"
  have bs: "0 \<le> a" "a \<le> 255" "0 \<le> b" "b \<le> 255" using bytes Const2(1) by auto
  have p: "program s2 = program s @ [Bconstant2]" "ptr s2 = drop 3 (ptr s)" "varbind_count s2 = varbind_count s" "jumps s2 = jumps s"
    "icounts s2 = icounts s @ [length (program s), length (program s) + 1, length (program s) + 1]"
    using ptr Const2(1) by (auto simp: s2_def s1_def WRITE_INT8_def)
  have first: "READ_INSTRUCTION_CHAR s = Inr (Bconstant2, s\<lparr>ptr := a # b # ws @ zs, icounts := icounts s @ [length (program s)]\<rparr>)"
    using ptr Const2(1) by (simp add: read_char_ok)
  define n where "n = nat (uint16 a b)"
  have second: "READ_OPERAND_2 s1 = Inr (int n, s2)" using bs by (simp add: s2_def s1_def read_operand_2_ok n_def uint16_def)
  have n: "n < length constants" "n \<le> 65535" using ok Const2(3) bs by (auto simp: insn_ok_def n_def uint16_def)
  from write_constant_ok [OF p(1) n] obtain s' where s': "WRITE_CONSTANT constants (int n) s2 = Inr s'" "ptr s' = ptr s2" "icounts s' = icounts s2" "jumps s' = jumps s2" "varbind_count s' = varbind_count s2"
    "program s' = program s @ (if n \<le> 63 then [Bconstant + int n] else [Bconstant2, int n mod 256, int n div 256])"
    by blast
  have "optimize_step keyword constants s = Inr s'" using first second s'(1) by (simp add: optimize_step_def Let_def s1_def [symmetric])
  then show ?thesis using s'(2-) p Const2(2,3)
    by (auto simp: opt_step_ok_def checked_def encoded_def jump_entry_def is_varbind_def n_def)
next
  case (Counted opcode a ws)
  define s1 where "s1 = WRITE_INT8 opcode (s\<lparr>ptr := a # ws @ zs, icounts := icounts s @ [length (program s)]\<rparr>)"
  define s2 where "s2 = s1\<lparr>ptr := ws @ zs, icounts := icounts s1 @ [length (program s1)]\<rparr>"
  have bs: "0 \<le> a" "a \<le> 255" using bytes Counted(1) by auto
  have p: "program (WRITE_INT8 a s2) = program s @ [opcode, a]" "ptr s2 = drop 2 (ptr s)" "varbind_count s2 = varbind_count s" "jumps s2 = jumps s"
    "icounts s2 = icounts s @ [length (program s), length (program s) + 1]"
    using Counted(2,3) ptr Counted(1) bs by (auto simp: s2_def s1_def WRITE_INT8_def)
  have "READ_INSTRUCTION_CHAR s = Inr (opcode, s\<lparr>ptr := a # ws @ zs, icounts := icounts s @ [length (program s)]\<rparr>)"
    using ptr Counted(1,2,3) by (simp add: read_char_ok)
  moreover have "READ_INSTRUCTION_CHAR s1 = Inr (a, s2)" using bs by (simp add: s2_def s1_def read_char_ok)
  ultimately have "optimize_step keyword constants s = Inr (WRITE_INT8 a s2)" using Counted(2,3) by (simp add: optimize_step_def Let_def s1_def [symmetric])
  then show ?thesis using p Counted(2-5) bs
    by (auto simp: opt_step_ok_def checked_def encoded_def jump_entry_def is_varbind_def)
next
  case (Const opcode ws)
  define s1 where "s1 = WRITE_INT8 opcode (s\<lparr>ptr := ws @ zs, icounts := icounts s @ [length (program s)]\<rparr>)"
  have bs: "opcode \<le> 255" using bytes Const(1) by auto
  have p: "program s1 = program s @ [opcode]" "ptr s1 = drop 1 (ptr s)" "varbind_count s1 = varbind_count s" "jumps s1 = jumps s"
    "icounts s1 = icounts s @ [length (program s)]"
    using Const(2) bs ptr Const(1) by (auto simp: s1_def WRITE_INT8_def)
  have first: "READ_INSTRUCTION_CHAR s = Inr (opcode, s\<lparr>ptr := ws @ zs, icounts := icounts s @ [length (program s)]\<rparr>)"
    using ptr Const(1) bs by (simp add: read_char_ok)
  define n where "n = nat (opcode - Bconstant)"
  have n: "n < length constants" "n \<le> 65535" "n \<le> 63" "opcode - Bconstant = int n" using ok Const(2,4) bs by (auto simp: insn_ok_def n_def)
  from write_constant_ok [OF p(1) n(1,2)] obtain s' where s': "WRITE_CONSTANT constants (int n) s1 = Inr s'" "ptr s' = ptr s1" "icounts s' = icounts s1" "jumps s' = jumps s1" "varbind_count s' = varbind_count s1"
    "program s' = program s @ [Bconstant + int n]" using n(3)
    by auto
  have "optimize_step keyword constants s = Inr s'" using first s'(1) Const(2) n(4) by (simp add: optimize_step_def Let_def s1_def [symmetric])
  then show ?thesis using s'(2-) p Const(3,4) n(3)
    by (auto simp: opt_step_ok_def checked_def encoded_def jump_entry_def is_varbind_def n_def [symmetric])
next
  case (Plain opcode ws)
  define s1 where "s1 = WRITE_INT8 opcode (s\<lparr>ptr := ws @ zs, icounts := icounts s @ [length (program s)]\<rparr>)"
  have bs: "0 \<le> opcode" "opcode \<le> 255" using bytes Plain(1) by auto
  have v: "valid_opcode opcode" using ok Plain(3) by (simp add: insn_ok_def)
  then have op: "Bunbind + 7 < opcode" using Plain(5) by (auto simp: valid_opcode_def)
  have p: "program s1 = program s @ [opcode]" "ptr s1 = drop 1 (ptr s)" "varbind_count s1 = varbind_count s" "jumps s1 = jumps s"
    "icounts s1 = icounts s @ [length (program s)]"
    using bs ptr Plain(1) by (auto simp: s1_def WRITE_INT8_def)
  have first: "READ_INSTRUCTION_CHAR s = Inr (opcode, s\<lparr>ptr := ws @ zs, icounts := icounts s @ [length (program s)]\<rparr>)"
    using ptr Plain(1) bs by (simp add: read_char_ok)
  have "optimize_step keyword constants s = Inr s1"
    unfolding optimize_step_def first sbind_simps prod.case Let_def s1_def [symmetric]
    using op v Plain(4-9) by (auto simp: check_opcode_def)
  then show ?thesis using p Plain(2-9) v op
    by (auto simp: opt_step_ok_def checked_def encoded_def jump_entry_def is_varbind_def)
qed

text \<open>Where the bytes of the unit with index \<open>k\<close> begin.\<close>

definition offset :: "int list list \<Rightarrow> nat \<Rightarrow> nat" where
  "offset us k = length (concat (take k us))"

lemma offset_simps [simp]:
  "offset us 0 = 0" "offset (u # us) (Suc k) = length u + offset us k"
  by (simp_all add: offset_def)

definition unit_ok :: "(lisp_object \<Rightarrow> bool) \<Rightarrow> lisp_object list \<Rightarrow> nat \<times> insn \<times> nat \<Rightarrow> int list \<Rightarrow> bool" where
  "unit_ok keyword constants e u \<longleftrightarrow> encoded (checked keyword constants (fst (snd e))) u \<and> u \<noteq> [] \<and> 2 * length u \<le> 3 * (snd (snd e) - fst e)"

definition units_ok :: "(lisp_object \<Rightarrow> bool) \<Rightarrow> lisp_object list \<Rightarrow> (nat \<times> insn \<times> nat) list \<Rightarrow> int list list \<Rightarrow> bool" where
  "units_ok keyword constants L us \<longleftrightarrow> list_all2 (unit_ok keyword constants) L us"

definition is_jump :: "insn \<Rightarrow> bool" where
  "is_jump x = (case x of Jump k t \<Rightarrow> True | _ \<Rightarrow> False)"

definition first_pass_ok :: "(lisp_object \<Rightarrow> bool) \<Rightarrow> lisp_object list \<Rightarrow> int list \<Rightarrow> (nat \<times> insn \<times> nat) list \<Rightarrow> optimizer \<Rightarrow> int list list \<Rightarrow> optimizer \<Rightarrow> bool" where
  "first_pass_ok keyword constants xs L s us s' \<longleftrightarrow>
     program s' = program s @ concat us \<and> units_ok keyword constants L us \<and>
     jumps s' = jumps s @ concat (map jump_entry L) \<and>
     varbind_count s' = varbind_count s + length (filter (is_varbind \<circ> fst \<circ> snd) L) \<and>
     length (icounts s') = length xs \<and> (\<exists>ics. icounts s' = icounts s @ ics) \<and>
     (\<forall>k < length L. icounts s' ! fst (L ! k) = length (program s) + offset us k \<and>
        (is_jump (fst (snd (L ! k))) \<longrightarrow> icounts s' ! (fst (L ! k) + 1) = length (program s) + offset us k + 1))"

lemma parse_Cons:
  assumes "parse xs i = Some L" and "i < length xs"
  obtains x j L' where "decode False xs i = Some (x, j)" "parse xs j = Some L'" "L = (i, x, j) # L'"
  using assms by (subst (asm) parse.simps) (auto split: option.splits)

lemma jump_long: "decode1 False i ys = Some (x, l) \<Longrightarrow> is_jump x \<Longrightarrow> 2 \<le> l"
  by (auto simp: decode1_def nargs_insn_def is_jump_def split: list.splits if_splits)

lemma optimize_loop_ok:
  assumes "parse xs (length (icounts s)) = Some L" and "ptr s = drop (length (icounts s)) xs @ [0]" and "length (icounts s) \<le> length xs"
    and "\<forall>y \<in> set xs. 0 \<le> y \<and> y \<le> 255" and "list_all (insn_ok keyword constants starts) L"
  shows "\<exists>s' us. optimize_loop keyword constants s = Inr s' \<and> first_pass_ok keyword constants xs L s us s'"
  using assms
proof (induction "length xs - length (icounts s)" arbitrary: s L rule: less_induct)
  case less
  let ?i = "length (icounts s)"
  show ?case
  proof (cases "?i < length xs")
    case False
    then have "L = []" using less.prems(1) by (simp add: parse.simps)
    moreover have "optimize_loop keyword constants s = Inr s" using False less.prems(2) by (simp add: optimize_loop.simps)
    ultimately show ?thesis using False less.prems(3) by (intro exI [of _ s] exI [of _ "[]"]) (simp add: first_pass_ok_def units_ok_def)
  next
    case True
    from parse_Cons [OF less.prems(1) this] obtain x j L' where
      L: "decode False xs ?i = Some (x, j)" "parse xs j = Some L'" "L = (?i, x, j) # L'" .
    then obtain l where dec: "decode1 False ?i (drop ?i xs) = Some (x, l)" and j: "j = ?i + l" by (auto simp: decode_def)
    have l: "0 < l" "j \<le> length xs" using decode_next [OF L(1)] j by simp_all
    have bytes: "\<forall>y \<in> set (drop ?i xs). 0 \<le> y \<and> y \<le> 255" using less.prems(4) by (auto dest: in_set_dropD)
    have "insn_ok keyword constants starts (?i, x, ?i + l)" using less.prems(5) L(3) j by simp
    from optimize_step_ok [OF less.prems(2) dec bytes this] obtain s1 u where
      step: "optimize_step keyword constants s = Inr s1" and ok: "opt_step_ok keyword constants s (?i, x, j) u s1" using j by auto
    from ok obtain ics where S: "ptr s1 = drop (j - ?i) (ptr s)" "program s1 = program s @ u" "encoded (checked keyword constants x) u" "0 < length u"
      "2 * length u \<le> 3 * (j - ?i)" "jumps s1 = jumps s @ jump_entry (?i, x, j)"
      "icounts s1 = icounts s @ length (program s) # ics" "Suc (length ics) = j - ?i" "ics \<noteq> [] \<longrightarrow> hd ics = length (program s) + 1"
      "varbind_count s1 = varbind_count s + (if is_varbind x then 1 else 0)"
      by (auto simp: opt_step_ok_def)
    have i1: "length (icounts s1) = j" using S(7,8) l j by simp
    have "ptr s1 = drop (length (icounts s1)) xs @ [0]" unfolding S(1) less.prems(2) i1 using l j by (simp add: add.commute)
    moreover have "list_all (insn_ok keyword constants starts) L'" using less.prems(5) L(3) by simp
    moreover have "length xs - length (icounts s1) < length xs - ?i" using i1 l j True by simp
    ultimately obtain s' us where IH: "optimize_loop keyword constants s1 = Inr s'" "first_pass_ok keyword constants xs L' s1 us s'"
      using less.hyps [of s1 L'] L(2) i1 l(2) less.prems(4) by auto
    have run: "optimize_loop keyword constants s = Inr s'" using True less.prems(2) step IH(1) by (subst optimize_loop.simps) simp
    obtain ics' where ics': "icounts s' = icounts s1 @ ics'" using IH(2) by (auto simp: first_pass_ok_def)
    have at: "icounts s' ! ?i = length (program s)" "is_jump x \<longrightarrow> icounts s' ! (?i + 1) = length (program s) + 1"
      using jump_long [OF dec] S(8,9) j ics' S(7) by (auto simp: nth_append hd_conv_nth split: list.splits)
    have "icounts s' ! fst (L ! k) = length (program s) + offset (u # us) k \<and>
        (is_jump (fst (snd (L ! k))) \<longrightarrow> icounts s' ! (fst (L ! k) + 1) = length (program s) + offset (u # us) k + 1)" if "k < length L" for k
    proof (cases k)
      case 0
      then show ?thesis using at L(3) by simp
    next
      case (Suc k')
      then show ?thesis using IH(2) that L(3) S(2) by (simp add: first_pass_ok_def)
    qed
    then have "first_pass_ok keyword constants xs L s (u # us) s'"
      using IH(2) S(2-6,7,10) L(3) i1 l j by (auto simp: first_pass_ok_def units_ok_def unit_ok_def)
    then show ?thesis using run by blast
  qed
qed

end
