(* ===== verification/ByteOptFix.thy ===== *)
theory ByteOptFix
  imports ByteOptProps
begin

text \<open>
  The second pass of \<open>optimize_byte_code\<close>: jumps that have to go too far are lengthened until all jumps
  reach their targets. The program is seen as the list of the units of bytes that encode its
  instructions; lengthening a jump replaces one unit.
\<close>

section \<open>Units\<close>

lemma offset_update:
  assumes "k < length us"
  shows "offset (us[k := u]) m = (if m \<le> k then offset us m else offset us m + length u - length (us ! k))"
proof (cases "m \<le> k")
  case False
  then show ?thesis using assms
    by (simp add: offset_def take_update_swap length_concat map_update sum_list_update)
qed (simp add: offset_def)

lemma offset_Suc: "k < length us \<Longrightarrow> offset us (Suc k) = offset us k + length (us ! k)"
  by (simp add: offset_def take_Suc_conv_app_nth)

lemma offset_mono:
  assumes "m \<le> k"
  shows "offset us m \<le> offset us k"
proof -
  obtain d where "k = m + d" using assms le_Suc_ex by blast
  then show ?thesis by (simp add: offset_def take_add)
qed

lemma offset_less:
  assumes "\<forall>u \<in> set us. u \<noteq> []" and "m < k" and "m < length us"
  shows "offset us m < offset us k"
proof -
  have "us ! m \<noteq> []" using assms(1,3) by simp
  then have "offset us m < offset us (Suc m)" using offset_Suc [OF assms(3)] by simp
  also have "\<dots> \<le> offset us k" using assms(2) by (intro offset_mono) simp
  finally show ?thesis .
qed

lemma concat_unit:
  assumes "k < length us"
  shows "concat us = take (offset us k) (concat us) @ us ! k @ drop (offset us (Suc k)) (concat us)"
    "concat (us[k := u]) = take (offset us k) (concat us) @ u @ drop (offset us (Suc k)) (concat us)"
    "offset us (Suc k) = offset us k + length (us ! k)" "offset us (Suc k) \<le> length (concat us)"
proof -
  have us: "us = take k us @ us ! k # drop (Suc k) us" using assms by (simp add: id_take_nth_drop)
  have o: "offset us (Suc k) = offset us k + length (us ! k)" using assms by (simp add: offset_def take_Suc_conv_app_nth)
  have c: "concat us = concat (take k us) @ us ! k @ concat (drop (Suc k) us)" by (subst us) simp
  have t: "take (offset us k) (concat us) = concat (take k us)" by (subst c) (simp add: offset_def)
  have d: "drop (offset us (Suc k)) (concat us) = concat (drop (Suc k) us)" unfolding o by (subst c) (simp add: offset_def)
  show "concat us = take (offset us k) (concat us) @ us ! k @ drop (offset us (Suc k)) (concat us)" unfolding t d by (rule c)
  show "concat (us[k := u]) = take (offset us k) (concat us) @ u @ drop (offset us (Suc k)) (concat us)"
    unfolding t d using assms by (simp add: upd_conv_take_nth_drop)
  show "offset us (Suc k) = offset us k + length (us ! k)" by (rule o)
  show "offset us (Suc k) \<le> length (concat us)" unfolding o by (subst c) (simp add: offset_def)
qed

lemma encoded_valid: "encoded x u \<Longrightarrow> u \<noteq> [] \<and> valid_opcode (hd u)"
  by (auto simp: encoded_def valid_opcode_def nargs_bytes_def split: insn.splits if_splits)

lemma parse_lengths:
  "parse xs i = Some L \<Longrightarrow> i \<le> length xs \<Longrightarrow> sum_list (map (\<lambda>(i, x, j). j - i) L) = length xs - i \<and> (\<forall>(i, x, j) \<in> set L. i < j)"
proof (induction xs i arbitrary: L rule: parse.induct)
  case (1 p i)
  show ?case
  proof (cases "i < length p")
    case True
    from parse_Cons [OF "1.prems"(1) this] obtain x j L' where L: "decode False p i = Some (x, j)" "parse p j = Some L'" "L = (i, x, j) # L'" .
    show ?thesis using "1.IH" [OF True L(1) refl L(2)] decode_next [OF L(1)] L(3) by auto
  next
    case False
    then show ?thesis using "1.prems" by (simp add: parse.simps)
  qed
qed

lemma units_length:
  assumes "units_ok keyword constants L us"
  shows "2 * length (concat us) \<le> 3 * sum_list (map (\<lambda>(i, x, j). j - i) L)" "length us = length L"
  using assms unfolding units_ok_def
  by (induction L us rule: list_all2_induct) (auto simp: unit_ok_def)

section \<open>One jump\<close>

text \<open>
  The fixed part: the instructions \<open>L\<close> of the source, the indices \<open>J\<close> of the jumps among them and the
  index \<open>tgt k\<close> of the instruction the jump with index \<open>k\<close> goes to.
\<close>

definition jump_table :: "nat list \<Rightarrow> (nat \<Rightarrow> nat) \<Rightarrow> int list list \<Rightarrow> (int \<times> int) list" where
  "jump_table J tgt us = map (\<lambda>k. (int (offset us k) + 1, int (offset us (tgt k)))) J"

definition jump_units :: "(nat \<times> insn \<times> nat) list \<Rightarrow> nat list \<Rightarrow> (nat \<Rightarrow> nat) \<Rightarrow> bool" where
  "jump_units L J tgt \<longleftrightarrow> (\<forall>k \<in> set J. k < length L \<and> tgt k < length L \<and> is_jump (fst (snd (L ! k))))"

definition jump_value :: "(nat \<Rightarrow> nat) \<Rightarrow> int list list \<Rightarrow> nat \<Rightarrow> int" where
  "jump_value tgt us k = int (offset us (tgt k)) - (int (offset us k) + 1)"

definition jump_kind :: "insn \<Rightarrow> nat" where
  "jump_kind x = (case x of Jump k t \<Rightarrow> k | _ \<Rightarrow> 0)"

text \<open>The two forms of a jump with an operand.\<close>

definition long_jump :: "nat \<Rightarrow> int \<Rightarrow> int list" where
  "long_jump kind v = [Bgoto + int kind, v mod 256, ((v mod 2 ^ 32) div 256) mod 256]"

definition short_jump :: "nat \<Rightarrow> int \<Rightarrow> int list" where
  "short_jump kind v = [BRgoto + int kind, v mod 256]"

definition written :: "(nat \<times> insn \<times> nat) list \<Rightarrow> (nat \<Rightarrow> nat) \<Rightarrow> int list list \<Rightarrow> nat \<Rightarrow> bool" where
  "written L tgt us k \<longleftrightarrow>
     (let kind = jump_kind (fst (snd (L ! k))); v = jump_value tgt us k
      in us ! k = long_jump kind v \<or> us ! k = short_jump kind v \<and> - 128 < v \<and> v \<le> 127)"

lemma unit_at:
  assumes "units_ok keyword constants L us" and "k < length L"
  shows "encoded (checked keyword constants (fst (snd (L ! k)))) (us ! k)" "us ! k \<noteq> []" "k < length us"
    "byte_at (concat us) (int (offset us k)) = Inr (hd (us ! k))" "valid_opcode (hd (us ! k))"
    "2 * length (us ! k) \<le> 3 * (snd (snd (L ! k)) - fst (L ! k))"
proof -
  show k: "k < length us" using assms by (simp add: units_ok_def list_all2_lengthD)
  have "unit_ok keyword constants (L ! k) (us ! k)" using list_all2_nthD [OF assms(1) [unfolded units_ok_def] assms(2)] .
  then show e: "encoded (checked keyword constants (fst (snd (L ! k)))) (us ! k)" and n: "us ! k \<noteq> []"
    and "2 * length (us ! k) \<le> 3 * (snd (snd (L ! k)) - fst (L ! k))" by (simp_all add: unit_ok_def)
  show "valid_opcode (hd (us ! k))" using encoded_valid [OF e] by simp
  have o: "offset us k < length (concat us)" using concat_unit(3,4) [OF k] n by (cases "us ! k") simp_all
  moreover have "concat us ! offset us k = hd (us ! k)"
    by (subst concat_unit(1) [OF k]) (use n o in \<open>simp add: nth_append hd_conv_nth min_def\<close>)
  ultimately show "byte_at (concat us) (int (offset us k)) = Inr (hd (us ! k))" by (simp add: byte_at_def)
qed

lemma units_update:
  assumes "units_ok keyword constants L us" and "k < length L" and "is_jump (fst (snd (L ! k)))" and "kind = jump_kind (fst (snd (L ! k)))"
    and "u = long_jump kind v \<or> u = short_jump kind v" and "length u = length (us ! k) \<or> fst (L ! k) + 2 \<le> snd (snd (L ! k))"
  shows "units_ok keyword constants L (us[k := u])"
proof -
  obtain kk t where x: "fst (snd (L ! k)) = Jump kk t" using assms(3) by (auto simp: is_jump_def split: insn.splits)
  have "kk \<le> 4" and len: "2 * length (us ! k) \<le> 3 * (snd (snd (L ! k)) - fst (L ! k))"
    using unit_at(1,6) [OF assms(1,2)] x by (simp_all add: encoded_def checked_def)
  moreover have "u = [Bgoto + int kk, v mod 256, ((v mod 2 ^ 32) div 256) mod 256] \<or> u = [BRgoto + int kk, v mod 256]"
    using assms(4,5) x by (simp add: jump_kind_def long_jump_def short_jump_def)
  moreover from this have "length u \<le> 3" "u \<noteq> []" by auto
  ultimately have "unit_ok keyword constants (L ! k) u"
    using assms(6) x unfolding unit_ok_def by (auto simp: encoded_def checked_def)
  then have "list_all2 (unit_ok keyword constants) (L[k := L ! k]) (us[k := u])"
    using assms(1) unfolding units_ok_def by (rule list_all2_update_cong [rotated])
  then show ?thesis by (simp add: units_ok_def)
qed

lemma put_in_unit:
  assumes "k < length us" and "us ! k = [opc, a, b]"
  shows "put_int16 (concat us) (offset us k + 1) v = concat (us[k := [opc, v mod 256, ((v mod 2 ^ 32) div 256) mod 256]])"
    "offset us k + 2 < length (concat us)"
proof -
  note C = concat_unit [OF assms(1)]
  have l: "length (take (offset us k) (concat us)) = offset us k" using C(3,4) by simp
  show "offset us k + 2 < length (concat us)" using C(3,4) assms(2) by simp
  show "put_int16 (concat us) (offset us k + 1) v = concat (us[k := [opc, v mod 256, ((v mod 2 ^ 32) div 256) mod 256]])"
    unfolding C(2) by (subst C(1)) (use l assms(2) in \<open>simp add: put_int16_def list_update_append\<close>)
qed

lemma put_in_short_unit:
  assumes "k < length us" and "us ! k = [opc, a]"
  shows "(concat us)[offset us k + 1 := v] = concat (us[k := [opc, v]])" "offset us k + 1 < length (concat us)"
    "put_int16 (memmove ((concat us)[offset us k := opc'] @ [0]) (offset us k + 2) (offset us k + 1) (length (concat us) - (offset us k + 1))) (offset us k + 1) w =
      concat (us[k := [opc', w mod 256, ((w mod 2 ^ 32) div 256) mod 256]])"
proof -
  note C = concat_unit [OF assms(1)]
  define pre post where "pre = take (offset us k) (concat us)" and "post = drop (offset us (Suc k)) (concat us)"
  have l: "offset us k = length pre" using C(3,4) by (simp add: pre_def)
  have c: "concat us = pre @ opc # a # post" using C(1) assms(2) by (simp add: pre_def post_def)
  have u: "concat (us[k := u]) = pre @ u @ post" for u using C(2) by (simp add: pre_def post_def)
  show "offset us k + 1 < length (concat us)" unfolding l c by simp
  show "(concat us)[offset us k + 1 := v] = concat (us[k := [opc, v]])" unfolding l c u by (simp add: list_update_append)
  show "put_int16 (memmove ((concat us)[offset us k := opc'] @ [0]) (offset us k + 2) (offset us k + 1) (length (concat us) - (offset us k + 1))) (offset us k + 1) w =
      concat (us[k := [opc', w mod 256, ((w mod 2 ^ 32) div 256) mod 256]])"
    unfolding l c u by (simp add: list_update_append put_int16_def memmove_def memcpy_def)
qed

lemma offset_behind:
  assumes "k < length us" and "length (us ! k) = 2"
  shows "offset us k + 1 < offset us m \<longleftrightarrow> k < m" "offset us k < offset us m \<longleftrightarrow> k < m"
proof -
  have "offset us (Suc k) = offset us k + 2" using offset_Suc [OF assms(1)] assms(2) by simp
  moreover have "m \<le> k \<Longrightarrow> offset us m \<le> offset us k" "Suc k \<le> m \<Longrightarrow> offset us (Suc k) \<le> offset us m" by (auto intro: offset_mono)
  ultimately show "offset us k + 1 < offset us m \<longleftrightarrow> k < m" "offset us k < offset us m \<longleftrightarrow> k < m" by (cases "k < m"; force)+
qed

lemma jump_table_update:
  assumes "k < length us"
  shows "length u = length (us ! k) \<Longrightarrow> offset (us[k := u]) = offset us"
    "length (us ! k) = 2 \<Longrightarrow> length u = 3 \<Longrightarrow> jump_table J tgt (us[k := u]) =
      map (\<lambda>(f, t). (if f > int (offset us k) + 1 then f + 1 else f, if t > int (offset us k) + 1 then t + 1 else t)) (jump_table J tgt us)"
proof -
  show "length u = length (us ! k) \<Longrightarrow> offset (us[k := u]) = offset us" using offset_update [OF assms] by fastforce
  assume l: "length (us ! k) = 2" "length u = 3"
  note B = offset_behind [OF assms l(1)]
  have "offset (us[k := u]) m = offset us m + (if k < m then 1 else 0)" for m using offset_update [OF assms, of u m] l by auto
  moreover have "int (offset us m) > int (offset us k) + 1 \<longleftrightarrow> k < m" for m using B(1) [of m] by linarith
  moreover have "int (offset us m) + 1 > int (offset us k) + 1 \<longleftrightarrow> k < m" for m using B(2) [of m] by linarith
  ultimately show "jump_table J tgt (us[k := u]) =
      map (\<lambda>(f, t). (if f > int (offset us k) + 1 then f + 1 else f, if t > int (offset us k) + 1 then t + 1 else t)) (jump_table J tgt us)"
    by (auto simp: jump_table_def)
qed

definition fixed_ok :: "(lisp_object \<Rightarrow> bool) \<Rightarrow> lisp_object list \<Rightarrow> (nat \<times> insn \<times> nat) list \<Rightarrow> (nat \<Rightarrow> nat) \<Rightarrow> nat \<Rightarrow> int list list \<Rightarrow> bool \<Rightarrow> int list list \<Rightarrow> bool \<Rightarrow> bool" where
  "fixed_ok keyword constants L tgt k us redo us' redo' \<longleftrightarrow>
     units_ok keyword constants L us' \<and> length us' = length us \<and> (\<forall>m. m \<noteq> k \<longrightarrow> us' ! m = us ! m) \<and>
     (redo' = redo \<and> length (us' ! k) = length (us ! k) \<and> written L tgt us' k \<or> redo' \<and> length (concat us') = Suc (length (concat us)))"

lemma fixup_jump_ok:
  assumes us: "units_ok keyword constants L us" and J: "jump_units L J tgt" and t: "t < length J" and two: "fst (L ! (J ! t)) + 2 \<le> snd (snd (L ! (J ! t)))"
  shows "\<exists>us' redo'. fixup_jump t (concat us, jump_table J tgt us, redo) = Inr (concat us', jump_table J tgt us', redo') \<and>
    fixed_ok keyword constants L tgt (J ! t) us redo us' redo'"
proof -
  define k v where "k = J ! t" and "v = jump_value tgt us k"
  have k: "k < length L" "tgt k < length L" "is_jump (fst (snd (L ! k)))" using J t by (simp_all add: jump_units_def k_def)
  obtain kind target where x: "fst (snd (L ! k)) = Jump kind target" using k(3) by (auto simp: is_jump_def split: insn.splits)
  note U = unit_at [OF us k(1)] and T = unit_at [OF us k(2)]
  have js: "jump_table J tgt us ! t = (int (offset us k) + 1, int (offset us (tgt k)))" using t by (simp add: jump_table_def k_def)
  have kind: "kind \<le> 4" "jump_kind (fst (snd (L ! k))) = kind" using U(1) x by (simp_all add: encoded_def checked_def jump_kind_def)
  have v: "int (offset us (tgt k)) - (int (offset us k) + 1) = v" by (simp add: v_def jump_value_def)
  have m256: "(170 + int kind + 130 - 170) mod 256 = 130 + int kind" using kind(1) by simp
  note run = fixup_jump_def prod.case js Let_def v add_diff_cancel_right' U(4) T(4) sbind_simps check_opcode_def if_True if_cancel
  note upd = units_update [OF us k(1,3) kind(2) [symmetric]]
  consider (long) a b where "us ! k = [Bgoto + int kind, a, b]" | (short) a where "us ! k = [BRgoto + int kind, a]"
    using U(1) x by (auto simp: encoded_def checked_def)
  then show ?thesis
  proof cases
    case long
    let ?us = "us[k := long_jump kind v]"
    note P = put_in_unit(1) [OF U(3) long, of v, folded long_jump_def] put_in_unit(2) [OF U(3) long]
    have l: "length (long_jump kind v) = length (us ! k)" using long by (simp add: long_jump_def)
    have O: "offset ?us = offset us" using jump_table_update(1) [OF U(3) l] .
    have "nat (int (offset us k) + 1) = offset us k + 1" by simp
    then have "fixup_jump t (concat us, jump_table J tgt us, redo) = Inr (concat ?us, jump_table J tgt ?us, redo)"
      using T(5) kind(1) P long unfolding run by (simp add: jump_table_def O)
    moreover have "written L tgt ?us k" using U(3) v kind(2) by (simp add: written_def Let_def jump_value_def O)
    ultimately show ?thesis using upd [of "long_jump kind v" v] l U(3) unfolding fixed_ok_def k_def [symmetric]
      by (intro exI [of _ ?us] exI [of _ redo]) simp
  next
    case short
    have n: "nat (int (offset us k) + 1) = offset us k + 1" by simp
    show ?thesis
    proof (cases "v > - 128 \<and> v \<le> 127")
      case True
      let ?us = "us[k := short_jump kind v]"
      note P = put_in_short_unit(1) [OF U(3) short, of "v mod 256", folded short_jump_def] put_in_short_unit(2) [OF U(3) short]
      have l: "length (short_jump kind v) = length (us ! k)" using short by (simp add: short_jump_def)
      have O: "offset ?us = offset us" using jump_table_update(1) [OF U(3) l] .
      have "fixup_jump t (concat us, jump_table J tgt us, redo) = Inr (concat ?us, jump_table J tgt ?us, redo)"
        using T(5) kind(1) P True short n unfolding run by (simp add: jump_table_def O)
      moreover have "written L tgt ?us k" using U(3) v kind(2) True by (simp add: written_def Let_def jump_value_def O)
      ultimately show ?thesis using upd [of "short_jump kind v" v] l U(3) unfolding fixed_ok_def k_def [symmetric]
        by (intro exI [of _ ?us] exI [of _ redo]) simp
    next
      case False
      let ?us = "us[k := long_jump kind v]"
      note P = put_in_short_unit(3) [OF U(3) short, of "130 + int kind" v, folded long_jump_def] put_in_short_unit(2) [OF U(3) short]
      have l: "length (us ! k) = 2" "length (long_jump kind v) = 3" using short by (simp_all add: long_jump_def)
      note O = jump_table_update(2) [OF U(3) l, of J tgt]
      have "fixup_jump t (concat us, jump_table J tgt us, redo) = Inr (concat ?us, jump_table J tgt ?us, True)"
        using T(5) kind(1) P False short n m256 unfolding run O by (cases "- 128 < v") (simp_all add: numeral_2_eq_2)
      moreover have "length (concat ?us) = Suc (length (concat us))"
        using U(3) l concat_unit(3,4) [OF U(3)] unfolding concat_unit(2) [OF U(3)] by simp
      moreover have "units_ok keyword constants L ?us" using upd [of "long_jump kind v" v] two by (simp add: k_def)
      ultimately show ?thesis unfolding fixed_ok_def k_def [symmetric]
        by (intro exI [of _ ?us] exI [of _ True]) simp
    qed
  qed
qed

end
