(* ===== verification/ByteOptSpec.thy ===== *)
theory ByteOptSpec
  imports ByteOptFix
begin

text \<open>
  The passes over the jumps until nothing changes, and the theorem about \<open>optimize_byte_code\<close> as a whole.
\<close>

section \<open>The passes\<close>

lemma offset_lengths: "map length us = map length us' \<Longrightarrow> offset us = offset us'"
  by (simp add: offset_def fun_eq_iff length_concat take_map [symmetric])

lemma written_cong: "map length us = map length us' \<Longrightarrow> us ! k = us' ! k \<Longrightarrow> written L tgt us k = written L tgt us' k"
  using offset_lengths [of us us'] by (simp add: written_def jump_value_def)

definition pass_ok :: "(lisp_object \<Rightarrow> bool) \<Rightarrow> lisp_object list \<Rightarrow> (nat \<times> insn \<times> nat) list \<Rightarrow> (nat \<Rightarrow> nat) \<Rightarrow> nat list \<Rightarrow> int list list \<Rightarrow> bool \<Rightarrow> int list list \<Rightarrow> bool \<Rightarrow> bool" where
  "pass_ok keyword constants L tgt ks us redo us' redo' \<longleftrightarrow>
     units_ok keyword constants L us' \<and> length us' = length us \<and> length (concat us) \<le> length (concat us') \<and>
     (redo' \<and> (redo \<or> length (concat us) < length (concat us')) \<or>
      \<not> redo' \<and> \<not> redo \<and> map length us' = map length us \<and> (\<forall>m. m \<notin> set ks \<longrightarrow> us' ! m = us ! m) \<and> (\<forall>k \<in> set ks. written L tgt us' k))"

lemma fixup_pass_ok:
  assumes J: "jump_units L J tgt" "distinct J" "\<forall>k \<in> set J. fst (L ! k) + 2 \<le> snd (snd (L ! k))"
    and "units_ok keyword constants L us"
  shows "\<exists>us' redo'. fixup_pass (length J) t (concat us, jump_table J tgt us, redo) = Inr (concat us', jump_table J tgt us', redo') \<and>
    pass_ok keyword constants L tgt (drop t J) us redo us' redo'"
  using assms(4)
proof (induction "length J - t" arbitrary: t us redo)
  case 0
  then show ?case by (subst fixup_pass.simps) (auto simp: pass_ok_def)
next
  case (Suc n)
  then have t: "t < length J" by simp
  then have "fst (L ! (J ! t)) + 2 \<le> snd (snd (L ! (J ! t)))" using J(3) by simp
  from fixup_jump_ok [OF Suc.prems J(1) t this, of redo] obtain us1 redo1 where
    step: "fixup_jump t (concat us, jump_table J tgt us, redo) = Inr (concat us1, jump_table J tgt us1, redo1)"
    and ok1: "fixed_ok keyword constants L tgt (J ! t) us redo us1 redo1" by blast
  have us1: "units_ok keyword constants L us1" "length us1 = length us" "\<And>m. m \<noteq> J ! t \<Longrightarrow> us1 ! m = us ! m"
    "redo1 = redo \<and> length (us1 ! (J ! t)) = length (us ! (J ! t)) \<and> written L tgt us1 (J ! t) \<or> redo1 \<and> length (concat us1) = Suc (length (concat us))"
    using ok1 by (simp_all add: fixed_ok_def)
  have n: "n = length J - (t + 1)" using Suc.hyps(2) by simp
  obtain us' redo' where rest: "fixup_pass (length J) (t + 1) (concat us1, jump_table J tgt us1, redo1) = Inr (concat us', jump_table J tgt us', redo')"
    and ok2: "pass_ok keyword constants L tgt (drop (t + 1) J) us1 redo1 us' redo'"
    using Suc.hyps(1) [OF n us1(1), of redo1] by blast
  have run: "fixup_pass (length J) t (concat us, jump_table J tgt us, redo) = Inr (concat us', jump_table J tgt us', redo')"
    using t step rest by (subst fixup_pass.simps) simp
  have d: "drop t J = J ! t # drop (t + 1) J" using t by (simp add: Cons_nth_drop_Suc)
  have "pass_ok keyword constants L tgt (drop t J) us redo us' redo'"
    using us1(4)
  proof
    assume a: "redo1 = redo \<and> length (us1 ! (J ! t)) = length (us ! (J ! t)) \<and> written L tgt us1 (J ! t)"
    have same: "map length us1 = map length us" using a us1(2,3) by (intro nth_equalityI) (simp, metis nth_map length_map)
    then have len: "length (concat us1) = length (concat us)" by (simp add: length_concat)
    have "J ! t \<notin> set (drop (t + 1) J)" using J(2) t d by (metis distinct.simps(2) distinct_drop)
    then show ?thesis using ok2 a same len us1 written_cong [of us' us1 "J ! t" L tgt] unfolding pass_ok_def d by auto
  next
    assume "redo1 \<and> length (concat us1) = Suc (length (concat us))"
    then show ?thesis using ok2 us1(2) unfolding pass_ok_def by auto
  qed
  then show ?case using run by blast
qed

lemma fixup_loop_ok:
  assumes J: "jump_units L J tgt" "distinct J" "\<forall>k \<in> set J. fst (L ! k) + 2 \<le> snd (snd (L ! k))"
    and "units_ok keyword constants L us"
  shows "\<exists>us'. fixup_loop (concat us) (jump_table J tgt us) = Some (Inr (concat us')) \<and> units_ok keyword constants L us' \<and> (\<forall>k \<in> set J. written L tgt us' k)"
  using assms(4)
proof (induction "3 * sum_list (map (\<lambda>(i, x, j). j - i) L) - length (concat us)" arbitrary: us rule: less_induct)
  case less
  from fixup_pass_ok [OF J less.prems, of 0 False] obtain us' redo' where
    pass: "fixup_pass (length J) 0 (concat us, jump_table J tgt us, False) = Inr (concat us', jump_table J tgt us', redo')"
    and ok: "pass_ok keyword constants L tgt J us False us' redo'" by auto
  have n: "length (jump_table J tgt us) = length J" by (simp add: jump_table_def)
  have us': "units_ok keyword constants L us'" using ok by (simp add: pass_ok_def)
  show ?case
  proof (cases redo')
    case True
    then have "length (concat us) < length (concat us')" using ok by (simp add: pass_ok_def)
    then have "3 * sum_list (map (\<lambda>(i, x, j). j - i) L) - length (concat us') < 3 * sum_list (map (\<lambda>(i, x, j). j - i) L) - length (concat us)"
      using units_length(1) [OF us'] by linarith
    from less.hyps [OF this us'] show ?thesis using pass True n by (subst fixup_loop.simps) simp
  next
    case False
    then show ?thesis using pass n ok us' by (subst fixup_loop.simps) (auto simp: pass_ok_def)
  qed
qed

section \<open>The instructions of the program\<close>

lemma nargs_roundtrip:
  assumes "base_opcode \<in> {Bvarref, Bvarset, Bvarbind, Bcall, Bunbind}"
  shows "decode1 opt i (nargs_bytes base_opcode n @ ys) = Some (nargs_insn base_opcode n, length (nargs_bytes base_opcode n))"
proof -
  have n: "nat (int n mod 256 + int n div 256 * 256) = n" by simp
  have m: "base_opcode mod 8 = 0" "Bvarref \<le> base_opcode" "base_opcode \<le> Bunbind" using assms by auto
  have i: "nargs_insn (base_opcode + d) n = nargs_insn base_opcode n" if "0 \<le> d" "d \<le> 7" for d using assms that by (auto simp: nargs_insn_def)
  consider "n \<le> 5" | "5 < n" "n \<le> 255" | "255 < n" by linarith
  then show ?thesis
  proof cases
    case 1
    then have "(base_opcode + int n) mod 8 = int n" using m(1) by presburger
    then show ?thesis using 1 m i [of "int n"] by (simp add: decode1_def nargs_bytes_def)
  next
    case 2
    have "(base_opcode + 6) mod 8 = 6" using m(1) by presburger
    then show ?thesis using 2 m i [of 6] by (simp add: decode1_def nargs_bytes_def)
  next
    case 3
    have "(base_opcode + 7) mod 8 = 7" using m(1) by presburger
    then show ?thesis using 3 m i [of 7] n by (simp add: decode1_def nargs_bytes_def uint16_def)
  qed
qed

lemma decode_encoded:
  assumes "encoded x u" and "\<not> is_jump x"
  shows "decode1 opt i (u @ ys) = Some (x, length u)"
proof -
  have n: "nat (int n mod 256 + int n div 256 * 256) = n" for n by simp
  show ?thesis
    using assms nargs_roundtrip
    by (cases x) (auto simp: encoded_def is_jump_def nargs_insn_def decode1_def uint16_def n)
qed

lemma int16_roundtrip:
  assumes "- 32768 \<le> v" and "v < 32768"
  shows "int16 (v mod 256) (((v mod 2 ^ 32) div 256) mod 256) = v"
proof -
  have "(v mod 2 ^ 32) div 256 mod 256 = v div 256 mod 256"
  proof (cases "0 \<le> v")
    case True
    then show ?thesis using assms(2) by simp
  next
    case False
    have "v mod 2 ^ 32 = (v + 2 ^ 32) mod 2 ^ 32" by simp
    also have "\<dots> = v + 2 ^ 32" using False assms(1) by (intro mod_pos_pos_trivial) simp_all
    finally have "v mod 2 ^ 32 div 256 = v div 256 + 65536 * 256" by simp
    then show ?thesis by (simp only: mod_mult_self1)
  qed
  moreover have q: "- 128 \<le> v div 256" "v div 256 < 128" using assms by (auto intro: zdiv_mono1 [of "- 32768" v 256, simplified])
  have "int8 (v div 256 mod 256) = v div 256"
  proof (cases "0 \<le> v div 256")
    case True
    then show ?thesis using q by (simp add: int8_def)
  next
    case False
    have "v div 256 mod 256 = (v div 256 + 256) mod 256" by simp
    also have "\<dots> = v div 256 + 256" using False q(1) by (intro mod_pos_pos_trivial) simp_all
    finally show ?thesis using False q by (simp add: int8_def)
  qed
  ultimately show ?thesis by (simp add: int16_def)
qed

lemma decode_jump:
  assumes "k \<le> 4" and "- 32768 \<le> v" and "v < 32768"
  shows "decode1 True i (long_jump k v @ ys) = Some (Jump k (int i + 1 + v), 3)"
    "- 128 < v \<Longrightarrow> v \<le> 127 \<Longrightarrow> decode1 True i (short_jump k v @ ys) = Some (Jump k (int i + 1 + v), 2)"
proof -
  show "decode1 True i (long_jump k v @ ys) = Some (Jump k (int i + 1 + v), 3)"
    using assms(1) int16_roundtrip [OF assms(2,3)] by (simp add: decode1_def long_jump_def)
  assume v: "- 128 < v" "v \<le> 127"
  then have "int8 (v mod 256) = v" unfolding int8_def by presburger
  then show "decode1 True i (short_jump k v @ ys) = Some (Jump k (int i + 1 + v), 2)"
    using assms(1) by (simp add: decode1_def short_jump_def)
qed

section \<open>Places\<close>

text \<open>The index of the instruction at a place of the source.\<close>

definition insn_index :: "(nat \<times> insn \<times> nat) list \<Rightarrow> nat \<Rightarrow> nat" where
  "insn_index L i = length (takeWhile (\<lambda>e. fst e < i) L)"

lemma parse_index:
  assumes "parse xs i = Some L" and "i \<le> length xs"
  shows "(\<forall>k < length L. insn_index L (fst (L ! k)) = k \<and> insn_index L (snd (snd (L ! k))) = Suc k \<and> i \<le> fst (L ! k)) \<and>
    (L = [] \<longrightarrow> i = length xs) \<and> (L \<noteq> [] \<longrightarrow> fst (hd L) = i) \<and> insn_index L (length xs) = length L"
  using assms
proof (induction xs i arbitrary: L rule: parse.induct)
  case (1 p i)
  show ?case
  proof (cases "i < length p")
    case False
    then show ?thesis using "1.prems" by (simp add: parse.simps insn_index_def)
  next
    case True
    from parse_Cons [OF "1.prems"(1) this] obtain x j L' where L: "decode False p i = Some (x, j)" "parse p j = Some L'" "L = (i, x, j) # L'" .
    have j: "i < j" "j \<le> length p" using decode_next [OF L(1)] by simp_all
    note IH = "1.IH" [OF True L(1) refl L(2) j(2)]
    have I: "insn_index L m = (if i < m then Suc (insn_index L' m) else 0)" for m by (simp add: L(3) insn_index_def)
    have j0: "insn_index L' j = 0" using IH by (cases L') (auto simp: insn_index_def)
    have "insn_index L (fst (L ! k)) = k \<and> insn_index L (snd (snd (L ! k))) = Suc k \<and> i \<le> fst (L ! k)" if k: "k < length L" for k
    proof (cases k)
      case 0
      then show ?thesis using L(3) j j0 I [of i] I [of j] by simp
    next
      case (Suc k')
      then have k': "k' < length L'" "L ! k = L' ! k'" using k L(3) by simp_all
      have "fst (L' ! k') < snd (snd (L' ! k'))" "j \<le> fst (L' ! k')"
        using IH k'(1) parse_lengths [OF L(2) j(2)] nth_mem [OF k'(1)] by (auto simp: case_prod_beta)
      then have "i < fst (L' ! k')" "i < snd (snd (L' ! k'))" using j(1) by linarith+
      then show ?thesis using IH k' I [of "fst (L' ! k')"] I [of "snd (snd (L' ! k'))"] Suc by simp
    qed
    then show ?thesis using IH L(3) True I [of "length p"] by simp
  qed
qed

section \<open>The optimizer as a whole\<close>

text \<open>The jumps of the instructions and the instructions they go to.\<close>

definition jump_target :: "insn \<Rightarrow> int" where
  "jump_target x = (case x of Jump k t \<Rightarrow> t | _ \<Rightarrow> 0)"

definition jump_indices :: "(nat \<times> insn \<times> nat) list \<Rightarrow> nat list" where
  "jump_indices L = filter (\<lambda>k. is_jump (fst (snd (L ! k)))) [0..<length L]"

definition target_index :: "(nat \<times> insn \<times> nat) list \<Rightarrow> nat \<Rightarrow> nat" where
  "target_index L k = insn_index L (nat (jump_target (fst (snd (L ! k)))))"

lemma jump_entries: "concat (map jump_entry L) = map (\<lambda>k. (int (fst (L ! k)) + 1, jump_target (fst (snd (L ! k))))) (jump_indices L)"
proof -
  have "concat (map jump_entry L) = map (\<lambda>e. (int (fst e) + 1, jump_target (fst (snd e)))) (filter (\<lambda>e. is_jump (fst (snd e))) L)"
    by (induction L) (auto simp: jump_entry_def is_jump_def jump_target_def split: insn.splits)
  also have "filter (\<lambda>e. is_jump (fst (snd e))) L = map (nth L) (jump_indices L)"
    unfolding jump_indices_def by (subst map_nth [of L, symmetric]) (simp only: filter_map comp_def)
  finally show ?thesis by (simp add: comp_def)
qed

lemma retarget_ok:
  assumes "units_ok keyword constants L us" and "\<forall>k \<in> set ks. k < length L \<and> tgt k < length L \<and>
      icount_at ics (frm k) = Inr (int (offset us k) + 1) \<and> icount_at ics (to k) = Inr (int (offset us (tgt k)))"
  shows "retarget (concat us) ics (map (\<lambda>k. (frm k, to k)) ks) = Inr (jump_table ks tgt us)"
  using assms(2)
proof (induction ks)
  case (Cons k ks)
  then show ?case using unit_at(4,5) [OF assms(1), of "tgt k"] by (simp add: check_opcode_def jump_table_def)
qed (simp add: jump_table_def)

text \<open>The facts about a well-formed code, from the parse of it.\<close>

lemma well_formed_parse:
  assumes "well_formed_code keyword constants xs"
  obtains L where "parse xs 0 = Some L" "\<forall>y \<in> set xs. 0 \<le> y \<and> y \<le> 255" "list_all (insn_ok keyword constants (map fst L)) L"
  using assms by (auto simp: well_formed_code_def split: option.splits)

lemma jump_indices_ok:
  assumes p: "parse xs 0 = Some L" and ok: "list_all (insn_ok keyword constants (map fst L)) L" and k: "k \<in> set (jump_indices L)"
  shows "k < length L \<and> target_index L k < length L \<and> is_jump (fst (snd (L ! k)))"
    "fst (L ! target_index L k) = nat (jump_target (fst (snd (L ! k))))" "0 \<le> jump_target (fst (snd (L ! k)))"
proof -
  have k': "k < length L" "is_jump (fst (snd (L ! k)))" using k by (auto simp: jump_indices_def)
  then obtain kind t where x: "fst (snd (L ! k)) = Jump kind t" by (auto simp: is_jump_def split: insn.splits)
  have "insn_ok keyword constants (map fst L) (L ! k)" using ok k'(1) by (simp add: list_all_length)
  then have t: "0 \<le> t" "nat t \<in> set (map fst L)" using x by (auto simp: insn_ok_def case_prod_beta)
  then obtain m where m: "m < length L" "fst (L ! m) = nat t" by (auto simp: in_set_conv_nth)
  then have "target_index L k = m" using parse_index [OF p] x by (auto simp: target_index_def jump_target_def)
  then show "k < length L \<and> target_index L k < length L \<and> is_jump (fst (snd (L ! k)))"
    "fst (L ! target_index L k) = nat (jump_target (fst (snd (L ! k))))" "0 \<le> jump_target (fst (snd (L ! k)))"
    using k' m t x by (auto simp: jump_target_def)
qed

lemma parse_jump_length:
  assumes "parse xs i = Some L" and "k < length L" and "is_jump (fst (snd (L ! k)))"
  shows "fst (L ! k) + 2 \<le> snd (snd (L ! k)) \<and> snd (snd (L ! k)) \<le> length xs"
  using assms
proof (induction xs i arbitrary: L k rule: parse.induct)
  case (1 p i)
  have "i < length p" using "1.prems" by (subst (asm) (1) parse.simps) (auto split: if_splits)
  from parse_Cons [OF "1.prems"(1) this] obtain x j L' where L: "decode False p i = Some (x, j)" "parse p j = Some L'" "L = (i, x, j) # L'" .
  show ?case
  proof (cases k)
    case 0
    then show ?thesis using L "1.prems"(3) decode_next [OF L(1)] jump_long [of i "drop i p" x] by (auto simp: decode_def)
  next
    case (Suc k')
    then show ?thesis using "1.IH" [OF \<open>i < length p\<close> L(1) refl L(2)] L(3) "1.prems"(2,3) by simp
  qed
qed

text \<open>What the optimizer makes: units whose jumps are all written.\<close>

lemma optimized_units:
  assumes p: "parse xs 0 = Some L" and bytes: "\<forall>y \<in> set xs. 0 \<le> y \<and> y \<le> 255" and ok: "list_all (insn_ok keyword constants (map fst L)) L"
  shows "\<exists>us. optimize_byte_code keyword xs constants = Some (Inr (concat us, length (filter (is_varbind \<circ> fst \<circ> snd) L))) \<and>
    units_ok keyword constants L us \<and> (\<forall>k \<in> set (jump_indices L). written L (target_index L) us k)"
proof -
  define s where "s = \<lparr>ptr = xs @ [0], program = [], icounts = [], jumps = [], varbind_count = 0\<rparr>"
  obtain s' us where first: "optimize_loop keyword constants s = Inr s'" "first_pass_ok keyword constants xs L s us s'"
    using optimize_loop_ok [of xs s L keyword constants "map fst L"] p bytes ok by (auto simp: s_def)
  have F: "program s' = concat us" "units_ok keyword constants L us" "varbind_count s' = length (filter (is_varbind \<circ> fst \<circ> snd) L)"
    "jumps s' = map (\<lambda>k. (int (fst (L ! k)) + 1, jump_target (fst (snd (L ! k))))) (jump_indices L)" "length (icounts s') = length xs"
    "\<And>k. k < length L \<Longrightarrow> icounts s' ! fst (L ! k) = offset us k" "\<And>k. k < length L \<Longrightarrow> is_jump (fst (snd (L ! k))) \<Longrightarrow> icounts s' ! (fst (L ! k) + 1) = offset us k + 1"
    using first(2) unfolding first_pass_ok_def jump_entries by (simp_all add: s_def)
  have lt: "fst (L ! k) < length xs" if "k < length L" for k
  proof -
    have "length (takeWhile (\<lambda>e. fst e < length xs) L) = length L" using parse_index [OF p] by (simp add: insn_index_def)
    then have "takeWhile (\<lambda>e. fst e < length xs) L = L" by (metis takeWhile_eq_take take_all order_refl)
    then show ?thesis using nth_mem [OF that] set_takeWhileD by metis
  qed
  have "icount_at (icounts s') (int (fst (L ! k)) + 1) = Inr (int (offset us k) + 1) \<and>
      icount_at (icounts s') (jump_target (fst (snd (L ! k)))) = Inr (int (offset us (target_index L k)))" if k: "k \<in> set (jump_indices L)" for k
  proof -
    note K = jump_indices_ok [OF p ok k]
    have "fst (L ! k) + 1 < length xs" using parse_jump_length [OF p, of k] K(1) by simp
    moreover have "nat (int (fst (L ! k)) + 1) = fst (L ! k) + 1" by simp
    moreover have "nat (jump_target (fst (snd (L ! k)))) < length xs" using lt [of "target_index L k"] K by simp
    moreover have "icounts s' ! nat (jump_target (fst (snd (L ! k)))) = offset us (target_index L k)" using F(6) [of "target_index L k"] K by simp
    ultimately show ?thesis using F(5) F(7) [of k] K(1,3) by (simp add: icount_at_def)
  qed
  then have re: "retarget (concat us) (icounts s') (jumps s') = Inr (jump_table (jump_indices L) (target_index L) us)"
    unfolding F(4) using jump_indices_ok(1) [OF p ok] by (intro retarget_ok [OF F(2)]) simp
  have J: "jump_units L (jump_indices L) (target_index L)" "distinct (jump_indices L)" "\<forall>k \<in> set (jump_indices L). fst (L ! k) + 2 \<le> snd (snd (L ! k))"
    using jump_indices_ok(1) [OF p ok] parse_jump_length [OF p] by (auto simp: jump_units_def jump_indices_def)
  obtain us' where loop: "fixup_loop (concat us) (jump_table (jump_indices L) (target_index L) us) = Some (Inr (concat us'))"
    "units_ok keyword constants L us'" "\<forall>k \<in> set (jump_indices L). written L (target_index L) us' k"
    using fixup_loop_ok [OF J F(2)] by blast
  then have "optimize_byte_code keyword xs constants = Some (Inr (concat us', length (filter (is_varbind \<circ> fst \<circ> snd) L)))"
    unfolding optimize_byte_code_def s_def [symmetric] first(1) using re F(1,3) by simp
  then show ?thesis using loop(2,3) by blast
qed

lemma takeWhile_longer: "(\<And>x. P x \<Longrightarrow> Q x) \<Longrightarrow> length (takeWhile P xs) \<le> length (takeWhile Q xs)"
  by (induction xs) auto

text \<open>The theorem below, with the order of the places.\<close>

definition placed :: "(lisp_object \<Rightarrow> bool) \<Rightarrow> lisp_object list \<Rightarrow> int list \<Rightarrow> int list \<Rightarrow> (nat \<Rightarrow> nat) \<Rightarrow> bool" where
  "placed keyword constants xs p off \<longleftrightarrow> off 0 = 0 \<and> off (length xs) = length p \<and>
    (\<forall>(i, x, j) \<in> set (the (parse xs 0)). off i < off j \<and> decode True p (off i) = Some (relocate off (checked keyword constants x), off j)) \<and>
    (\<forall>(i, x, j) \<in> set (the (parse xs 0)). \<forall>(i', x', j') \<in> set (the (parse xs 0)). i < i' \<longrightarrow> off i < off i')"

lemma optimized_placed:
  assumes "well_formed_code keyword constants xs" and "length xs \<le> 21845"
  shows "\<exists>p off. optimize_byte_code keyword xs constants = Some (Inr (p, length (filter (is_varbind \<circ> fst \<circ> snd) (the (parse xs 0))))) \<and>
    2 * length p \<le> 3 * length xs \<and> placed keyword constants xs p off"
proof -
  obtain L where p: "parse xs 0 = Some L" and bytes: "\<forall>y \<in> set xs. 0 \<le> y \<and> y \<le> 255" and ok: "list_all (insn_ok keyword constants (map fst L)) L"
    using well_formed_parse [OF assms(1)] .
  obtain us where run: "optimize_byte_code keyword xs constants = Some (Inr (concat us, length (filter (is_varbind \<circ> fst \<circ> snd) L)))"
    and us: "units_ok keyword constants L us" and w: "\<forall>k \<in> set (jump_indices L). written L (target_index L) us k"
    using optimized_units [OF p bytes ok] by blast
  define off where "off = (\<lambda>i. offset us (insn_index L i))"
  have n: "length us = length L" "2 * length (concat us) \<le> 3 * length xs" using units_length [OF us] parse_lengths [OF p] by simp_all
  note I = parse_index [OF p le0]
  have bound: "offset us k \<le> 32767" for k
  proof -
    have "offset us k \<le> length (concat us)" by (metis append_take_drop_id concat_append le_add1 length_append offset_def)
    then show ?thesis using n(2) assms(2) by linarith
  qed
  have "off i < off j \<and> decode True (concat us) (off i) = Some (relocate off (checked keyword constants x), off j)" if e: "(i, x, j) \<in> set L" for i x j
  proof -
    obtain k where k: "k < length L" "L ! k = (i, x, j)" using e by (auto simp: in_set_conv_nth)
    have o: "off i = offset us k" "off j = offset us (Suc k)" using I k by (auto simp: off_def)
    note U = unit_at [OF us k(1)] and C = concat_unit [OF unit_at(3) [OF us k(1)]]
    have lt: "off i < off j" using o C(3) U(2) by simp
    define post where "post = drop (offset us (Suc k)) (concat us)"
    have d: "drop (offset us k) (concat us) = us ! k @ post" by (subst C(1)) (use C(3,4) in \<open>simp add: post_def\<close>)
    have "decode1 True (offset us k) (us ! k @ post) = Some (relocate off (checked keyword constants x), length (us ! k))"
    proof (cases "is_jump x")
      case False
      then have "\<not> is_jump (checked keyword constants x)" by (auto simp: checked_def is_jump_def split: insn.splits)
      moreover from this have "relocate off (checked keyword constants x) = checked keyword constants x" by (auto simp: relocate_def is_jump_def split: insn.splits)
      ultimately show ?thesis using decode_encoded [of "checked keyword constants x" "us ! k"] U(1) k(2) by simp
    next
      case True
      then obtain kind t where x: "x = Jump kind t" by (auto simp: is_jump_def split: insn.splits)
      have J: "k \<in> set (jump_indices L)" using True k by (simp add: jump_indices_def)
      define v where "v = jump_value (target_index L) us k"
      have v: "int (offset us k) + 1 + v = int (off (nat t))" using k(2) x by (simp add: v_def jump_value_def off_def target_index_def jump_target_def)
      have vb: "- 32768 \<le> v" "v < 32768" using bound [of k] bound [of "target_index L k"] by (simp_all add: v_def jump_value_def)
      have kind: "kind \<le> 4" using U(1) k(2) x by (simp add: encoded_def checked_def)
      have "us ! k = long_jump kind v \<or> us ! k = short_jump kind v \<and> - 128 < v \<and> v \<le> 127"
        using w J k(2) x by (auto simp: written_def Let_def v_def jump_kind_def)
      then show ?thesis using decode_jump [OF kind vb, of "offset us k" post] v x
        by (auto simp: relocate_def checked_def long_jump_def short_jump_def)
    qed
    then show ?thesis using lt o C(3) d by (simp add: decode_def)
  qed
  moreover have "off 0 = 0" by (simp add: off_def insn_index_def) (cases L; simp)
  moreover have "off (length xs) = length (concat us)" using I n(1) by (simp add: off_def offset_def)
  moreover have "off i < off i'" if e: "(i, x, j) \<in> set L" "(i', x', j') \<in> set L" "i < i'" for i x j i' x' j'
  proof -
    obtain k k' where k: "k < length L" "L ! k = (i, x, j)" "k' < length L" "L ! k' = (i', x', j')" using e(1,2) by (auto simp: in_set_conv_nth)
    have idx: "insn_index L i = k" "insn_index L i' = k'" using I k by force+
    have "k \<noteq> k'" using k e(3) by auto
    moreover have "insn_index L i \<le> insn_index L i'" unfolding insn_index_def using e(3) by (intro takeWhile_longer) simp
    ultimately have "k < k'" using idx by simp
    then show ?thesis unfolding off_def idx using k(1) n(1) us unit_at(2) [OF us] by (intro offset_less) (auto simp: in_set_conv_nth)
  qed
  ultimately show ?thesis using run n(2) p unfolding placed_def by (intro exI [of _ "concat us"] exI [of _ off]) auto
qed

text \<open>
  Property C12: for every well-formed instructions string, of at most 21845 bytes, so that no jump can be longer than
  two signed bytes say, \<open>optimize_byte_code\<close> returns a program and the number of variables it binds, without
  an error or a fault, and within the space the callers allocate. The program has the same instructions in
  the same order, at the places \<open>off\<close>; each jump goes to the place of the instruction it went to, and
  assignments to keywords are discards. Jumps that have to be lengthened because others were are covered.
\<close>

theorem optimize_byte_code_refines:
  assumes "well_formed_code keyword constants xs" and "length xs \<le> 21845"
  shows "\<exists>p off. optimize_byte_code keyword xs constants = Some (Inr (p, length (filter (is_varbind \<circ> fst \<circ> snd) (the (parse xs 0))))) \<and>
    2 * length p \<le> 3 * length xs \<and> off 0 = 0 \<and> off (length xs) = length p \<and>
    (\<forall>(i, x, j) \<in> set (the (parse xs 0)). off i < off j \<and> decode True p (off i) = Some (relocate off (checked keyword constants x), off j))"
  using optimized_placed [OF assms] unfolding placed_def by blast

text \<open>A conditional jump over two instructions.\<close>

definition sample_code :: "int list" where
  "sample_code = [8, 131, 6, 0, 192, 135, 193, 135]"

definition sample_constants :: "lisp_object list" where
  "sample_constants = [Lisp_Symbol 9, Qt]"

lemma sample_code_parse: "parse sample_code 0 =
    Some [(0, Varref 0, 1), (1, Jump 1 6, 4), (4, Constant 0, 5), (5, Plain 135, 6), (6, Constant 1, 7), (7, Plain 135, 8)]"
  by (simp add: sample_code_def parse.simps decode_def decode1_def nargs_insn_def uint16_def)

lemma sample_code_ok: "well_formed_code (\<lambda>_. False) sample_constants sample_code"
  unfolding well_formed_code_def sample_code_parse
  by (simp add: sample_code_def sample_constants_def insn_ok_def SYMBOLP_def valid_opcode_def)

theorem optimize_byte_code_refines_witness:
  "\<exists>p (off :: nat \<Rightarrow> nat). optimize_byte_code (\<lambda>_. False) sample_code sample_constants = Some (Inr (p, 0)) \<and> length p \<le> 12 \<and>
     decode True p (off 1) = Some (Jump 1 (int (off 6)), off 4)"
proof -
  have "length sample_code \<le> 21845" by (simp add: sample_code_def)
  from optimize_byte_code_refines [OF sample_code_ok this] obtain p off where
    r: "optimize_byte_code (\<lambda>_. False) sample_code sample_constants = Some (Inr (p, 0))" "2 * length p \<le> 3 * length sample_code"
    "decode True p (off 1) = Some (relocate off (checked (\<lambda>_. False) sample_constants (Jump 1 6)), off 4)"
    unfolding sample_code_parse by (auto simp: is_varbind_def)
  then have "length p \<le> 12" by (simp add: sample_code_def)
  with r show ?thesis by (intro exI [of _ p] exI [of _ off]) (simp add: relocate_def checked_def)
qed

section \<open>Jumps over more than 32767 bytes\<close>

text \<open>A jump over \<open>n\<close> instructions of one byte to a return.\<close>

definition far_code :: "nat \<Rightarrow> int list" where
  "far_code n = [Bgoto, int (n + 3) mod 256, int (n + 3) div 256] @ replicate n 137 @ [135]"

definition far_insns :: "nat \<Rightarrow> (nat \<times> insn \<times> nat) list" where
  "far_insns n = (0, Jump 0 (int n + 3), 3) # map (\<lambda>i. (i, Plain 137, i + 1)) [3..<n + 3] @ [(n + 3, Plain 135, n + 4)]"

lemma parse_replicate:
  assumes "length pre = i"
  shows "parse (pre @ replicate n 137 @ [135]) i = Some (map (\<lambda>i. (i, Plain 137, i + 1)) [i..<i + n] @ [(i + n, Plain 135, i + n + 1)])"
  using assms
proof (induction n arbitrary: pre i)
  case 0
  then show ?case by (simp add: parse.simps decode_def decode1_def)
next
  case (Suc n)
  have "parse ((pre @ [137]) @ replicate n 137 @ [135]) (i + 1) =
      Some (map (\<lambda>i. (i, Plain 137, i + 1)) [i + 1..<i + 1 + n] @ [(i + 1 + n, Plain 135, i + 1 + n + 1)])"
    using Suc.prems by (intro Suc.IH) simp
  moreover have "[i..<i + Suc n] = i # [i + 1..<i + 1 + n]" by (simp add: upt_conv_Cons del: upt_Suc)
  ultimately show ?case using Suc.prems
    by (subst parse.simps) (simp add: decode_def decode1_def del: upt_Suc)
qed

lemma far_code_parse: "parse (far_code n) 0 = Some (far_insns n)"
proof -
  have "int (n + 3) mod 256 + int (n + 3) div 256 * 256 = int n + 3" by simp
  then show ?thesis using parse_replicate [of "take 3 (far_code n)" 3 n]
    by (subst parse.simps) (simp add: far_code_def far_insns_def decode_def decode1_def uint16_def add.commute add.left_commute)
qed

lemma far_code_ok: "n \<le> 65532 \<Longrightarrow> 0 < n \<Longrightarrow> \<forall>y \<in> set (far_code n). 0 \<le> y \<and> y \<le> 255"
  "0 < n \<Longrightarrow> list_all (insn_ok keyword constants (map fst (far_insns n))) (far_insns n)"
proof -
  assume "n \<le> 65532"
  then have "int (n + 3) div 256 \<le> 255" by (simp add: zdiv_int [symmetric])
  then show "\<forall>y \<in> set (far_code n). 0 \<le> y \<and> y \<le> 255" by (auto simp: far_code_def)
next
  assume "0 < n"
  moreover have "nat (int n + 3) = n + 3" by simp
  ultimately show "list_all (insn_ok keyword constants (map fst (far_insns n))) (far_insns n)"
    by (auto simp: far_insns_def insn_ok_def list_all_iff valid_opcode_def)
qed

lemma long_jump_wrap:
  assumes "0 \<le> v" and "v < 65536"
  shows "long_jump k (v - 65536) = long_jump k v"
proof -
  have "(v - 65536) mod 2 ^ 32 = (v - 65536 + 2 ^ 32) mod 2 ^ 32" by (rule mod_add_self2 [symmetric])
  also have "\<dots> = v + 16776960 * 256" using assms by (subst mod_pos_pos_trivial) simp_all
  finally have "(v - 65536) mod 2 ^ 32 div 256 = v div 256 + 65535 * 256" by simp
  then have "(v - 65536) mod 2 ^ 32 div 256 mod 256 = v div 256 mod 256" by (simp only: mod_mult_self1)
  moreover have "(v - 65536) mod 256 = v mod 256" using mod_mult_self1 [of "v - 65536" 256 256] by simp
  moreover have "v mod 2 ^ 32 = v" using assms by simp
  ultimately show ?thesis unfolding long_jump_def by (simp only:)
qed

lemma far_goto:
  assumes "32766 \<le> n" and "n \<le> 65532"
  shows "\<exists>p. optimize_byte_code keyword (far_code n) constants = Some (Inr (p, 0)) \<and> decode True p 0 = Some (Jump 0 (int n + 3 - 65536), 3)"
proof -
  let ?L = "far_insns n"
  have n: "0 < n" using assms by simp
  have "filter (is_varbind \<circ> fst \<circ> snd) ?L = []" by (simp add: far_insns_def is_varbind_def filter_empty_conv)
  then obtain us where run: "optimize_byte_code keyword (far_code n) constants = Some (Inr (concat us, 0))"
    and us: "units_ok keyword constants ?L us" and w: "\<forall>k \<in> set (jump_indices ?L). written ?L (target_index ?L) us k"
    using optimized_units [OF far_code_parse far_code_ok(1) [OF assms(2) n] far_code_ok(2) [OF n], of keyword constants] by auto
  have len: "length ?L = n + 2" by (simp add: far_insns_def)
  have lus: "length us = n + 2" using units_length(2) [OF us] len by simp
  have L0: "?L ! 0 = (0, Jump 0 (int n + 3), 3)" by (simp add: far_insns_def)
  have J: "0 \<in> set (jump_indices ?L)" using len L0 by (simp add: jump_indices_def is_jump_def del: upt_Suc)
  have Lk: "?L ! Suc k = (k + 3, Plain 137, k + 4)" if "k < n" for k using that by (simp add: far_insns_def nth_append)
  have uk: "us ! Suc k = [137]" if "k < n" for k
    using unit_at(1) [OF us, of "Suc k"] that len Lk [OF that] by (simp add: encoded_def checked_def)
  have off: "offset us (Suc k) = length (us ! 0) + k" if "k \<le> n" for k
    using that
  proof (induction k)
    case 0
    then show ?case using offset_Suc [of 0 us] lus by simp
  next
    case (Suc k)
    then show ?case using offset_Suc [of "Suc k" us] uk [of k] lus by simp
  qed
  have "?L ! (n + 1) = (n + 3, Plain 135, n + 4)" by (simp add: far_insns_def nth_append)
  then have "insn_index ?L (n + 3) = n + 1" using parse_index [OF far_code_parse [of n]] len by fastforce
  moreover have "nat (int n + 3) = n + 3" by simp
  ultimately have t: "target_index ?L 0 = n + 1" using L0 by (simp add: target_index_def jump_target_def)
  define v where "v = jump_value (target_index ?L) us 0"
  have v: "v = int (length (us ! 0)) + int n - 1" using off [of n] t by (simp add: v_def jump_value_def)
  have "us ! 0 = long_jump 0 v \<or> us ! 0 = short_jump 0 v \<and> v \<le> 127"
    using w J L0 by (auto simp: written_def Let_def v_def jump_kind_def)
  then have u0: "us ! 0 = long_jump 0 v" using v assms(1) by auto
  then have "length (us ! 0) = 3" by (simp add: long_jump_def)
  then have v': "v = int n + 2" using v by simp
  have "us ! 0 = long_jump 0 (v - 65536)" unfolding u0 using assms v' by (intro long_jump_wrap [symmetric]) simp_all
  then have "concat us = long_jump 0 (v - 65536) @ concat (tl us)" using lus by (cases us) auto
  moreover have "- 32768 \<le> v - 65536" "v - 65536 < 32768" using v' assms by simp_all
  ultimately have "decode True (concat us) 0 = Some (Jump 0 (1 + (v - 65536)), 3)"
    using decode_jump(1) [of 0 "v - 65536" 0 "concat (tl us)"] by (simp add: decode_def)
  then show ?thesis using run v' by (intro exI [of _ "concat us"]) simp
qed

text \<open>
  Property C37: a jump over 40000 bytes, which the two unsigned bytes of the instructions string can express and
  which the optimizer accepts, goes to a place before the program, since the interpreter reads the relative
  jump that is written for it as a signed number.
\<close>

theorem far_goto_leaves_program:
  "well_formed_code (\<lambda>_. False) [] (far_code 40000) \<and>
   (\<exists>p. optimize_byte_code (\<lambda>_. False) (far_code 40000) [] = Some (Inr (p, 0)) \<and> decode True p 0 = Some (Jump 0 (- 25533), 3))"
proof -
  have "well_formed_code (\<lambda>_. False) [] (far_code 40000)"
    using far_code_ok(1) [of 40000] far_code_ok(2) [of 40000 "\<lambda>_. False" "[]"] by (simp add: well_formed_code_def far_code_parse)
  moreover have "int (40000 :: nat) + 3 - 65536 = - 25533" by simp
  ultimately show ?thesis using far_goto [of 40000 "\<lambda>_. False" "[]"] by simp
qed

end
