(* ===== verification/SpecpdlProps.thy ===== *)
theory SpecpdlProps
  imports Specpdl
begin

text \<open>
  Correctness of dynamic binding: there is always room for an entry, the macro and the loop for unwinding
  agree, and a variable gets its value back whatever was done to it in between, by functions that leave
  the stack as they found it.
\<close>

section \<open>Room on the stack\<close>

definition specpdl_ok :: "'w lisp_state \<Rightarrow> bool" where
  "specpdl_ok s \<longleftrightarrow> int (specpdl_depth s) \<le> specpdl_size s \<and> 0 < specpdl_size s"

lemma grow_size_enough: "size_needed < maximum \<Longrightarrow> 0 < siz \<Longrightarrow> size_needed \<le> grow_size size_needed maximum siz \<and> siz \<le> grow_size size_needed maximum siz"
proof (induction size_needed maximum siz rule: grow_size.induct)
  case (1 size_needed maximum siz)
  show ?case
  proof (cases "siz < size_needed")
    case True
    then have "siz < maximum" "0 < min (siz * 2) maximum" "siz \<le> min (siz * 2) maximum" using "1.prems" by auto
    then show ?thesis using "1.IH" True "1.prems" by (subst (1 2) grow_size.simps) auto
  next
    case False
    then show ?thesis by (subst (1 2) grow_size.simps) simp
  qed
qed

text \<open>
  When \<open>SPECPDL_RESERVE\<close> returns, that many entries can be pushed without writing past the end of
  the binding stack, and the stack itself has not changed; when the depth would exceed
  \<open>max-specpdl-size\<close> it signals an error and leaves stack and size alone.
\<close>

lemma reserve_spec:
  assumes "specpdl_ok s" and "0 \<le> n" and "SPECPDL_RESERVE n s = (r, s')"
  shows "specpdl s' = specpdl s \<and> specpdl_ok s' \<and>
    (case r of None \<Rightarrow> int (specpdl_depth s') + n \<le> specpdl_size s'
     | Some e \<Rightarrow> specpdl_size s' = specpdl_size s \<and> max (max_specpdl_size s) 400 \<le> int (specpdl_depth s) + n \<and> int (specpdl_depth s) + n \<ge> specpdl_size s)"
proof (cases "int (specpdl_depth s) + n \<ge> specpdl_size s")
  case False
  then show ?thesis using assms by (auto simp: SPECPDL_RESERVE_def)
next
  case True
  let ?n = "int (specpdl_depth s) + n"
  show ?thesis
  proof (cases "?n \<ge> max_specpdl_size s \<and> ?n \<ge> 400")
    case True
    then have "r \<noteq> None \<and> specpdl s' = specpdl s \<and> specpdl_size s' = specpdl_size s"
      using \<open>?n \<ge> specpdl_size s\<close> assms(3) by (auto simp: SPECPDL_RESERVE_def grow_specpdl_def Let_def specpdl_depth_def split: if_splits)
    then show ?thesis using True \<open>?n \<ge> specpdl_size s\<close> assms(1) by (auto simp: specpdl_ok_def specpdl_depth_def)
  next
    case False
    define m where "m = (if ?n \<ge> max_specpdl_size s \<and> max_specpdl_size s < 400 then 400 else max_specpdl_size s)"
    have m: "?n < m" using False by (auto simp: m_def)
    have "r = None \<and> specpdl s' = specpdl s \<and> specpdl_size s' = grow_size ?n m (specpdl_size s)"
      using True m assms(3) by (auto simp: SPECPDL_RESERVE_def grow_specpdl_def Let_def specpdl_depth_def m_def split: if_splits)
    then show ?thesis using grow_size_enough [OF m, of "specpdl_size s"] assms(1,2) by (auto simp: specpdl_ok_def specpdl_depth_def)
  qed
qed

lemma reserve_room:
  assumes "specpdl_ok s" and "0 \<le> n" and "SPECPDL_RESERVE n s = (None, s')"
  shows "specpdl s' = specpdl s \<and> int (specpdl_depth s) + n \<le> specpdl_size s'"
  using reserve_spec [OF assms] by (auto simp: specpdl_depth_def)

section \<open>The macro and the loop\<close>

lemma update_same [simp]: "quit_flag s = q \<Longrightarrow> s\<lparr>quit_flag := q\<rparr> = s"
  by (cases s) simp

text \<open>
  Unwinding by the macro, which takes off plain variables itself, is the same as unwinding by the
  loop that looks at every entry, as long as there is no quit: the same values, the same cleanup functions
  called in the same states and the same exits.
\<close>

theorem unbind_to_is_loop:
  assumes "\<forall>s. check_quit ops s = Qnil" and "quit_flag s = Qnil" and "count \<le> specpdl_depth s"
  shows "unbind_to ops count s = unbind_loop ops count s"
proof -
  have hairy: "unbind_to_hairy ops count t = unbind_loop ops count t" if "quit_flag t = Qnil" for t
    using that assms(1) by (simp add: unbind_to_hairy_def Let_def case_prod_beta option.map_id [unfolded id_def] id_def)
  have "UNBIND_TO ops count bs t = unbind_loop ops count t" if "specpdl t = bs" "quit_flag t = Qnil" "count \<le> length bs" for bs t
    using that
  proof (induction bs arbitrary: t)
    case Nil
    then show ?case by (subst unbind_loop.simps) (simp add: specpdl_depth_def)
  next
    case (Cons b bs)
    show ?case
    proof (cases "length (b # bs) = count \<or> func b \<noteq> No_func \<or> SYMBOL_VALUE_MAGIC_P (sym_value t (symbol b))")
      case True
      then show ?thesis using Cons.prems hairy by (subst unbind_loop.simps) (auto simp: specpdl_depth_def unbind_loop.simps [of ops count t])
    next
      case False
      let ?t = "set_value (symbol b) (old_value b) (t\<lparr>specpdl := bs\<rparr>)"
      have "UNBIND_TO ops count bs ?t = unbind_loop ops count ?t" using Cons.prems False by (intro Cons.IH) (auto simp: set_value_def)
      then show ?thesis using False Cons.prems(1) by (subst unbind_loop.simps) (auto simp: specpdl_depth_def run_unwind_def)
    qed
  qed
  then show ?thesis using assms by (simp add: unbind_to_def specpdl_depth_def)
qed

section \<open>Values come back\<close>

text \<open>A value a Lisp program can have: no magic object, except for the mark of an unbound variable.\<close>

definition plain_value :: "lisp_object \<Rightarrow> bool" where
  "plain_value v \<longleftrightarrow> \<not> SYMBOL_VALUE_MAGIC_P v \<or> UNBOUNDP v"

abbreviation plain_values :: "'w lisp_state \<Rightarrow> bool" where
  "plain_values s \<equiv> \<forall>y. plain_value (sym_value s y)"

abbreviation plain_at :: "nat \<Rightarrow> 'w lisp_state \<Rightarrow> bool" where
  "plain_at x s \<equiv> plain_value (sym_value s x)"

text \<open>
  What the functions that are called from here may do: they leave the binding stack as it was, also when they exit,
  and do not make the variable \<open>x\<close>, if it is an ordinary one, a magic one. They may set it.
\<close>

definition keeps_var :: "nat \<Rightarrow> 'w effect \<Rightarrow> bool" where
  "keeps_var x f \<longleftrightarrow> (\<forall>s. specpdl (snd (f s)) = specpdl s \<and> (plain_at x s \<longrightarrow> plain_at x (snd (f s))))"

definition world_keeps :: "'w variable_ops \<Rightarrow> nat \<Rightarrow> bool" where
  "world_keeps ops x \<longleftrightarrow> (\<forall>y v. keeps_var x (Fset_magic ops y v)) \<and> (\<forall>y. keeps_var x (Fkill_local_variable ops y)) \<and>
     (\<forall>b. keeps_var x (Fset_buffer ops b)) \<and> (\<forall>f a. keeps_var x (call_unwind ops f a))"

lemma keeps_varD: "keeps_var x f \<Longrightarrow> f s = (r, s') \<Longrightarrow> specpdl s' = specpdl s \<and> (plain_at x s \<longrightarrow> plain_at x s')"
  unfolding keeps_var_def by (metis snd_conv)

lemma keeps_and_then: "keeps_var x f \<Longrightarrow> keeps_var x g \<Longrightarrow> keeps_var x (and_then f g)"
  by (auto simp: keeps_var_def and_then_def split: prod.split option.split) (metis snd_conv)+

lemma keeps_Fset: "world_keeps ops x \<Longrightarrow> y \<noteq> x \<or> plain_value v \<Longrightarrow> keeps_var x (Fset ops y v)"
  by (auto simp: keeps_var_def Fset_def world_keeps_def set_value_def)

lemma keeps_in_buffer: "world_keeps ops x \<Longrightarrow> keeps_var x f \<Longrightarrow> keeps_var x (in_buffer ops buf f)"
  using keeps_and_then [OF _ keeps_and_then, of x "Fset_buffer ops buf" f "Fset_buffer ops c" for c]
  by (auto simp: keeps_var_def in_buffer_def Let_def world_keeps_def)

text \<open>
  The entries for \<open>x\<close>: those made for it as a variable, which hold ordinary values. Entries of other variables,
  and of cleanup functions, are arbitrary.
\<close>

definition entry_ok :: "nat \<Rightarrow> specbinding \<Rightarrow> bool" where
  "entry_ok x b \<longleftrightarrow> (symbol b = x \<longrightarrow> (case func b of No_func \<Rightarrow> plain_value (old_value b) | Unwind f \<Rightarrow> True | _ \<Rightarrow> False))"

lemma keeps_run_unwind:
  assumes "world_keeps ops x" and "entry_ok x b" and "run_unwind ops b s = (r, s')" and "plain_at x s"
  shows "specpdl s' = specpdl s \<and> plain_at x s' \<and> (func b = No_func \<and> symbol b = x \<longrightarrow> r = None \<and> sym_value s' x = old_value b)"
proof (cases "func b")
  case No_func
  show ?thesis
  proof (cases "symbol b = x")
    case True
    then show ?thesis using assms No_func by (auto simp: run_unwind_def entry_ok_def Fset_def plain_value_def set_value_def split: if_splits)
  next
    case False
    then have k: "keeps_var x (Fset ops (symbol b) (old_value b))" using keeps_Fset assms(1) by blast
    show ?thesis using assms(3,4) No_func False keeps_varD [OF k] by (auto simp: run_unwind_def set_value_def split: if_splits)
  qed
next
  case Specbind_unwind_local
  then have "symbol b \<noteq> x" using assms(2) by (auto simp: entry_ok_def)
  then have "keeps_var x (in_buffer ops buf (Fset ops (symbol b) v))" for buf v using keeps_in_buffer keeps_Fset assms(1) by blast
  then show ?thesis using assms(3,4) Specbind_unwind_local
    by (auto simp: run_unwind_def specbind_unwind_local_def Let_def dest: keeps_varD split: if_splits)
next
  case Specbind_unwind_wasnt_local
  then have "keeps_var x (in_buffer ops buf (Fkill_local_variable ops (symbol b)))" for buf
    by (intro keeps_in_buffer [OF assms(1)]) (use assms(1) in \<open>simp add: world_keeps_def\<close>)
  then show ?thesis using assms(3,4) Specbind_unwind_wasnt_local
    by (auto simp: run_unwind_def specbind_unwind_wasnt_local_def Let_def dest: keeps_varD split: if_splits)
next
  case (Unwind f)
  have k: "keeps_var x (call_unwind ops f (old_value b))" using assms(1) by (simp add: world_keeps_def)
  show ?thesis using assms(3,4) Unwind keeps_varD [OF k] by (auto simp: run_unwind_def)
qed

text \<open>
  What unwinding has done: either all of the entries \<open>bs\<close> are off, and if the last of them was one of \<open>x\<close>, then \<open>x\<close> has
  the value in it; or one of the cleanup functions has made an exit, with those below it, and that of \<open>x\<close>, still there.
\<close>

definition own_entry :: "nat \<Rightarrow> specbinding list \<Rightarrow> bool" where
  "own_entry x bs \<longleftrightarrow> bs \<noteq> [] \<and> func (last bs) = No_func \<and> symbol (last bs) = x"

definition unwound :: "nat \<Rightarrow> specbinding list \<Rightarrow> specbinding list \<Rightarrow> lisp_error option \<Rightarrow> 'w lisp_state \<Rightarrow> bool" where
  "unwound x bs bottom r s \<longleftrightarrow> plain_at x s \<and>
     (if r = None then specpdl s = bottom \<and> (own_entry x bs \<longrightarrow> sym_value s x = old_value (last bs))
      else \<exists>bs1 bs2. bs = bs1 @ bs2 \<and> specpdl s = bs2 @ bottom \<and> (own_entry x bs \<longrightarrow> bs2 \<noteq> []))"

lemma unwound_Cons:
  assumes "unwound x bs bottom r s" and "bs \<noteq> []"
  shows "unwound x (b # bs) bottom r s"
proof -
  have "own_entry x (b # bs) = own_entry x bs" using assms(2) by (simp add: own_entry_def)
  then show ?thesis using assms by (auto simp: unwound_def)
qed

lemma unwound_quit_flag [simp]: "unwound x bs bottom r (s\<lparr>quit_flag := q\<rparr>) = unwound x bs bottom r s"
  by (simp add: unwound_def)

lemma unbind_loop_unwound:
  assumes "world_keeps ops x"
  shows "specpdl s = bs @ bottom \<Longrightarrow> \<forall>b \<in> set bs. entry_ok x b \<Longrightarrow> plain_at x s \<Longrightarrow>
    \<exists>r s'. unbind_loop ops (length bottom) s = Some (r, s') \<and> unwound x bs bottom r s'"
proof (induction bs arbitrary: s)
  case Nil
  then show ?case by (subst unbind_loop.simps) (simp add: specpdl_depth_def unwound_def own_entry_def)
next
  case (Cons b bs)
  obtain r s1 where run: "run_unwind ops b (s\<lparr>specpdl := bs @ bottom\<rparr>) = (r, s1)" by fastforce
  have K: "specpdl s1 = bs @ bottom" "plain_at x s1" "func b = No_func \<and> symbol b = x \<longrightarrow> r = None \<and> sym_value s1 x = old_value b"
    using keeps_run_unwind [OF assms _ run] Cons.prems by auto
  show ?case
  proof (cases r)
    case None
    have loop: "unbind_loop ops (length bottom) s = unbind_loop ops (length bottom) s1"
      using Cons.prems(1) run None by (subst unbind_loop.simps) (simp add: specpdl_depth_def)
    obtain r' s' where rest: "unbind_loop ops (length bottom) s1 = Some (r', s')" "unwound x bs bottom r' s'"
      using Cons.IH [OF K(1) _ K(2)] Cons.prems(2) by auto
    show ?thesis
    proof (cases "bs = []")
      case True
      then have "unbind_loop ops (length bottom) s1 = Some (None, s1)" using K(1) by (subst unbind_loop.simps) (simp add: specpdl_depth_def)
      then show ?thesis using loop True K by (auto simp: unwound_def own_entry_def)
    qed (use loop rest unwound_Cons in auto)
  next
    case (Some e)
    have "unbind_loop ops (length bottom) s = Some (r, s1)" using Cons.prems(1) run Some by (subst unbind_loop.simps) (simp add: specpdl_depth_def)
    moreover have "own_entry x (b # bs) \<longrightarrow> bs \<noteq> []" using K(3) Some by (auto simp: own_entry_def)
    ultimately show ?thesis using K Some by (auto simp: unwound_def intro: exI [of _ "[b]"])
  qed
qed

lemma unbind_to_unwound:
  assumes "world_keeps ops x" and "specpdl s = bs @ bottom" and "\<forall>b \<in> set bs. entry_ok x b" and "plain_at x s"
  shows "\<exists>r s'. unbind_to ops (length bottom) s = Some (r, s') \<and> unwound x bs bottom r s'"
  using assms(2-4)
proof (induction bs arbitrary: s)
  case Nil
  then show ?case by (cases bottom) (auto simp: unbind_to_def unwound_def own_entry_def)
next
  case (Cons b bs)
  show ?case
  proof (cases "func b \<noteq> No_func \<or> SYMBOL_VALUE_MAGIC_P (sym_value s (symbol b))")
    case True
    then have "unbind_to ops (length bottom) s = unbind_to_hairy ops (length bottom) s" using Cons.prems(1) by (simp add: unbind_to_def)
    moreover obtain r s' where "unbind_loop ops (length bottom) (s\<lparr>quit_flag := Qnil\<rparr>) = Some (r, s')" "unwound x (b # bs) bottom r s'"
      using unbind_loop_unwound [OF assms(1), of "s\<lparr>quit_flag := Qnil\<rparr>" "b # bs" bottom] Cons.prems by auto
    ultimately show ?thesis by (cases r) (auto simp: unbind_to_hairy_def Let_def)
  next
    case False
    let ?s = "set_value (symbol b) (old_value b) (s\<lparr>specpdl := bs @ bottom\<rparr>)"
    have s: "unbind_to ops (length bottom) s = unbind_to ops (length bottom) ?s"
      using False Cons.prems(1) by (simp add: unbind_to_def set_value_def)
    have p: "plain_at x ?s" using Cons.prems(2,3) False by (auto simp: set_value_def entry_ok_def)
    obtain r s' where rest: "unbind_to ops (length bottom) ?s = Some (r, s')" "unwound x bs bottom r s'"
      using Cons.IH [of ?s] p Cons.prems(2) by (auto simp: set_value_def)
    show ?thesis
    proof (cases "bs = []")
      case True
      then have "unbind_to ops (length bottom) ?s = Some (None, ?s)" by (cases bottom) (auto simp: unbind_to_def set_value_def)
      then show ?thesis using s True p by (auto simp: unwound_def own_entry_def set_value_def)
    qed (use s rest unwound_Cons in auto)
  qed
qed

text \<open>
  What the body of a \<open>let\<close> of \<open>x\<close> can do: bind and set any variable, ordinary or magic, \<open>x\<close> included; put cleanup
  functions on the stack; unwind as far as its own entries go, with errors and throws that are
  caught inside it; and everything else that leaves the binding stack as it was.
\<close>

inductive let_step :: "'w variable_ops \<Rightarrow> nat \<Rightarrow> nat \<Rightarrow> 'w lisp_state \<Rightarrow> 'w lisp_state \<Rightarrow> bool" for ops x d where
  Bind: "y = x \<longrightarrow> plain_value v \<Longrightarrow> specbind ops (Lisp_Symbol y) v s = (r, s') \<Longrightarrow> let_step ops x d s s'"
| Assign: "y = x \<longrightarrow> plain_value v \<Longrightarrow> Fset ops y v s = (r, s') \<Longrightarrow> let_step ops x d s s'"
| Protect: "record_unwind_protect (Unwind f) arg s = (r, s') \<Longrightarrow> let_step ops x d s s'"
| Unbind: "d \<le> e \<Longrightarrow> e \<le> specpdl_depth s \<Longrightarrow> unbind_to ops e s = Some (r, s') \<Longrightarrow> let_step ops x d s s'"
| Other: "specpdl s' = specpdl s \<Longrightarrow> plain_at x s \<longrightarrow> plain_at x s' \<Longrightarrow> let_step ops x d s s'"

text \<open>The entries of the body above the one for \<open>x\<close>.\<close>

definition let_body :: "nat \<Rightarrow> 'w lisp_state \<Rightarrow> 'w lisp_state \<Rightarrow> specbinding list \<Rightarrow> bool" where
  "let_body x s t bs \<longleftrightarrow> plain_at x t \<and> (\<forall>b \<in> set bs. entry_ok x b) \<and>
     specpdl t = bs @ \<lparr>symbol = x, old_value = sym_value s x, func = No_func\<rparr> # specpdl s"

lemma reserve_frame: "SPECPDL_RESERVE n s = (r, s') \<Longrightarrow> specpdl s' = specpdl s \<and> sym_value s' = sym_value s"
  by (auto simp: SPECPDL_RESERVE_def grow_specpdl_def Let_def split: if_splits)

lemma specbind_plain:
  assumes "plain_at y s" and "specbind ops (Lisp_Symbol y) v s = (None, s')"
  shows "specpdl s' = \<lparr>symbol = y, old_value = sym_value s y, func = No_func\<rparr> # specpdl s \<and> sym_value s' = (sym_value s)(y := v)"
proof -
  obtain s1 where s1: "SPECPDL_RESERVE 1 s = (None, s1)" using assms(2) by (auto simp: specbind_def and_then_def split: prod.splits option.splits)
  note F = reserve_frame [OF s1]
  have "s' = set_value y v (push_binding \<lparr>symbol = y, old_value = sym_value s y, func = No_func\<rparr> s1)"
    using assms s1 F by (auto simp: specbind_def and_then_def plain_value_def reject_constant_symbols_def SPECBIND_FAST_UNSAFE_def Let_def split: if_splits)
  then show ?thesis using F by (simp add: set_value_def push_binding_def)
qed

lemma push_entry: "let_body x s t bs \<Longrightarrow> entry_ok x b \<Longrightarrow> specpdl t' = b # specpdl t \<Longrightarrow> plain_at x t' \<Longrightarrow> let_body x s t' (b # bs)"
  by (simp add: let_body_def)

lemma keeps_body: "keeps_var x f \<Longrightarrow> f t = (r, t') \<Longrightarrow> let_body x s t bs \<Longrightarrow> let_body x s t' bs"
  using keeps_varD [of x f t r t'] by (auto simp: let_body_def)

lemma reserve_body: "SPECPDL_RESERVE n t = (r, t') \<Longrightarrow> let_body x s t bs \<Longrightarrow> let_body x s t' bs"
  using reserve_frame [of n t r t'] by (auto simp: let_body_def)

lemma specbind_magic_body:
  assumes "world_keeps ops x" and "let_body x s t bs" and "y \<noteq> x" and "specbind_magic ops y v t = (r, t')"
  shows "\<exists>bs'. let_body x s t' bs'"
proof -
  obtain t1 where t1: "specbind_magic ops y v t = Fset ops y v t1" "specpdl t1 \<noteq> []" "tl (specpdl t1) = specpdl t"
      "symbol (hd (specpdl t1)) = y" "sym_value t1 = sym_value t"
    unfolding specbind_magic_def Let_def by (simp add: push_binding_def split: prod.split if_split)
  obtain b where "specpdl t1 = b # specpdl t" "symbol b = y" "plain_at x t1" and set: "Fset ops y v t1 = (r, t')"
    using assms(2,4) t1 by (cases "specpdl t1") (auto simp: let_body_def)
  then have "let_body x s t1 (b # bs)" using assms(2,3) by (intro push_entry) (auto simp: entry_ok_def)
  then show ?thesis using keeps_body [OF keeps_Fset [OF assms(1)] set] assms(3) by blast
qed

lemma specbind_body:
  assumes "world_keeps ops x" and "let_body x s t bs" and "y = x \<longrightarrow> plain_value v" and "specbind ops (Lisp_Symbol y) v t = (r, t')"
  shows "\<exists>bs'. let_body x s t' bs'"
proof -
  obtain e t1 where res: "SPECPDL_RESERVE 1 t = (e, t1)" by fastforce
  have t1: "let_body x s t1 bs" using reserve_body [OF res assms(2)] .
  consider "t' = t1" | "e = None" "\<not> plain_at y t1" "specbind_magic ops y v t1 = (r, t')"
    | "plain_at y t1" "t' = set_value y v (push_binding \<lparr>symbol = y, old_value = sym_value t1 y, func = No_func\<rparr> t1)"
    using assms(4) res
    by (auto simp: specbind_def and_then_def plain_value_def reject_constant_symbols_def SPECBIND_FAST_UNSAFE_def Let_def split: if_splits option.splits)
  then show ?thesis
  proof cases
    case 2
    then have "y \<noteq> x" using t1 by (auto simp: let_body_def)
    then show ?thesis using specbind_magic_body [OF assms(1) t1 _ 2(3)] by blast
  next
    case 3
    let ?b = "\<lparr>symbol = y, old_value = sym_value t1 y, func = No_func\<rparr>"
    have "let_body x s t' (?b # bs)"
      by (rule push_entry [OF t1]) (use 3 t1 assms(3) in \<open>auto simp: entry_ok_def push_binding_def set_value_def let_body_def\<close>)
    then show ?thesis by blast
  qed (use t1 in blast)
qed

lemma let_step_body:
  assumes "world_keeps ops x" and "let_body x s t bs" and "let_step ops x (Suc (specpdl_depth s)) t t'"
  shows "\<exists>bs'. let_body x s t' bs'"
  using assms(3)
proof cases
  case (Bind y v r)
  then show ?thesis using specbind_body [OF assms(1,2)] by blast
next
  case (Assign y v r)
  then show ?thesis using keeps_body [OF keeps_Fset [OF assms(1)] Assign(2) assms(2)] by blast
next
  case (Protect f arg r)
  obtain e t1 where res: "SPECPDL_RESERVE 1 t = (e, t1)" by fastforce
  have t1: "let_body x s t1 bs" using reserve_body [OF res assms(2)] .
  have "let_body x s (push_binding \<lparr>symbol = 0, old_value = arg, func = Unwind f\<rparr> t1) (\<lparr>symbol = 0, old_value = arg, func = Unwind f\<rparr> # bs)"
    by (rule push_entry [OF t1]) (use t1 in \<open>auto simp: entry_ok_def push_binding_def let_body_def\<close>)
  moreover have "t' = t1 \<or> t' = push_binding \<lparr>symbol = 0, old_value = arg, func = Unwind f\<rparr> t1"
    using Protect res by (auto simp: record_unwind_protect_def and_then_def split: option.splits)
  ultimately show ?thesis using t1 by blast
next
  case (Unbind e r)
  let ?x = "\<lparr>symbol = x, old_value = sym_value s x, func = No_func\<rparr>"
  define n where "n = specpdl_depth t - e"
  have n: "n \<le> length bs" using Unbind(1,2) assms(2) by (simp add: n_def specpdl_depth_def let_body_def)
  have split: "specpdl t = take n bs @ (drop n bs @ ?x # specpdl s)" using assms(2) by (simp add: let_body_def)
  have len: "length (drop n bs @ ?x # specpdl s) = e" using Unbind(1,2) assms(2) by (simp add: n_def specpdl_depth_def let_body_def)
  have ok: "\<forall>b \<in> set (take n bs). entry_ok x b" "\<forall>b \<in> set (drop n bs). entry_ok x b" "plain_at x t"
    using assms(2) by (auto simp: let_body_def dest: in_set_takeD in_set_dropD)
  have u: "unwound x (take n bs) (drop n bs @ ?x # specpdl s) r t'"
    using unbind_to_unwound [OF assms(1) split ok(1,3), unfolded len] Unbind(3) by auto
  then obtain bs1 bs2 where "take n bs = bs1 @ bs2" "specpdl t' = bs2 @ drop n bs @ ?x # specpdl s" "plain_at x t'"
    by (cases "r = None") (auto simp: unwound_def)
  then have "let_body x s t' (bs2 @ drop n bs)" using ok by (auto simp: let_body_def)
  then show ?thesis by blast
next
  case Other
  then show ?thesis using assms(2) by (intro exI [of _ bs]) (simp add: let_body_def)
qed

text \<open>
  Property C17: \<open>let\<close>. A variable without a magic value that is bound with \<open>specbind\<close> has the new value at first. Whatever the body
  does then (bind and set variables, magic ones and this one included, establish cleanup functions, unwind its own
  entries, with errors and throws caught inside it, and anything else that leaves the binding stack as it was),
  unwinding returns and does not run off the stack; when it is not left by a cleanup function, the variable has its old value
  again and the binding stack is as it was; and when a cleanup function makes an exit, the entry of the variable is still on the
  stack, under what is left of those of the body, for the unwinding to the catch of that exit. The functions called from
  here, cleanup functions included, are to leave the stack as it was, and not to make the variable a magic one.
\<close>

theorem let_restores:
  assumes "world_keeps ops x" and "plain_at x s" and "plain_value v" and "specbind ops (Lisp_Symbol x) v s = (None, s1)"
    and "(let_step ops x (Suc (specpdl_depth s)))\<^sup>*\<^sup>* s1 s2"
  shows "sym_value s1 x = v \<and>
    (\<exists>r s3. unbind_to ops (specpdl_depth s) s2 = Some (r, s3) \<and>
       (if r = None then sym_value s3 x = sym_value s x \<and> specpdl s3 = specpdl s
        else \<exists>bs. specpdl s3 = bs @ \<lparr>symbol = x, old_value = sym_value s x, func = No_func\<rparr> # specpdl s))"
proof -
  let ?x = "\<lparr>symbol = x, old_value = sym_value s x, func = No_func\<rparr>"
  note B = specbind_plain [OF assms(2,4)]
  have "let_body x s s1 []" using assms(3) B by (simp add: let_body_def)
  from assms(5) have "\<exists>bs. let_body x s s2 bs"
  proof (induction rule: rtranclp_induct)
    case base
    show ?case using \<open>let_body x s s1 []\<close> by blast
  next
    case (step t t')
    then show ?case using let_step_body [OF assms(1)] by blast
  qed
  then obtain bs where p: "plain_at x s2" and ok: "\<forall>b \<in> set bs. entry_ok x b" and bs: "specpdl s2 = (bs @ [?x]) @ specpdl s"
    by (auto simp: let_body_def)
  have "\<forall>b \<in> set (bs @ [?x]). entry_ok x b" using ok assms(2) by (simp add: entry_ok_def)
  from unbind_to_unwound [OF assms(1) bs this p] obtain r s3 where
    r: "unbind_to ops (specpdl_depth s) s2 = Some (r, s3)" and u: "unwound x (bs @ [?x]) (specpdl s) r s3" by (auto simp: specpdl_depth_def)
  have own: "own_entry x (bs @ [?x])" by (simp add: own_entry_def)
  show ?thesis
  proof (cases "r = None")
    case False
    then obtain bs1 bs2 where "bs @ [?x] = bs1 @ bs2" "specpdl s3 = bs2 @ specpdl s" "bs2 \<noteq> []" using u own by (auto simp: unwound_def)
    then have "specpdl s3 = butlast bs2 @ ?x # specpdl s" by (cases bs2 rule: rev_cases) auto
    then show ?thesis using r False B by auto
  qed (use r u own B in \<open>auto simp: unwound_def\<close>)
qed

section \<open>Examples\<close>

text \<open>No buffers, no magic variables, no cleanup functions; variables are nil.\<close>

definition plain_ops :: "unit variable_ops" where
  "plain_ops = \<lparr>Fset_magic = (\<lambda>y v s. (None, s)), find_symbol_value = (\<lambda>y s. sym_value s y), symbol_value_buffer_local_info = (\<lambda>y b s. 0),
     Fkill_local_variable = (\<lambda>y s. (None, s)), Fcurrent_buffer = (\<lambda>s. Qnil), Fset_buffer = (\<lambda>b s. (None, s)), get_buffer = (\<lambda>b s. Qnil),
     call_unwind = (\<lambda>f x s. (None, s)), keyword = (\<lambda>x. False), check_quit = (\<lambda>s. Qnil)\<rparr>"

definition start_state :: "unit lisp_state" where
  "start_state = \<lparr>heap = empty_heap, sym_value = (\<lambda>y. Qnil), specpdl = [], specpdl_size = 50, max_specpdl_size = 3000, debug_on_error = False,
     quit_flag = Qnil, ext = ()\<rparr>"

lemma start_bind: "specbind plain_ops (Lisp_Symbol 9) (Lisp_Int 5) start_state =
    (None, start_state\<lparr>specpdl := [\<lparr>symbol = 9, old_value = Qnil, func = No_func\<rparr>], sym_value := (\<lambda>y. Qnil)(9 := Lisp_Int 5)\<rparr>)"
  by (simp add: specbind_def and_then_def SPECPDL_RESERVE_def specpdl_depth_def start_state_def SYMBOL_VALUE_MAGIC_P_def reject_constant_symbols_def
      plain_ops_def SPECBIND_FAST_UNSAFE_def push_binding_def set_value_def Let_def)

theorem unbind_to_is_loop_witness:
  "unbind_to plain_ops 0 (snd (record_unwind_protect (Unwind 3) Qt start_state)) = unbind_loop plain_ops 0 (snd (record_unwind_protect (Unwind 3) Qt start_state))"
  by (rule unbind_to_is_loop) (simp_all add: plain_ops_def record_unwind_protect_def and_then_def SPECPDL_RESERVE_def specpdl_depth_def start_state_def push_binding_def)


text \<open>
  A body that sets variable 9, binds variable 10, which has a magic value, and leaves a cleanup function that sets
  variable 9 too.
\<close>

definition cleanup_ops :: "unit variable_ops" where
  "cleanup_ops = plain_ops\<lparr>call_unwind := \<lambda>f a. Fset plain_ops f Qt\<rparr>"

definition magic_state :: "unit lisp_state" where
  "magic_state = start_state\<lparr>sym_value := (\<lambda>y. Qnil)(10 := Lisp_Lrecord Lrecord_symbol_value_magic 0)\<rparr>"

definition bound_state :: "unit lisp_state" where
  "bound_state = magic_state\<lparr>specpdl := [\<lparr>symbol = 9, old_value = Qnil, func = No_func\<rparr>],
     sym_value := (\<lambda>y. Qnil)(10 := Lisp_Lrecord Lrecord_symbol_value_magic 0, 9 := Lisp_Int 5)\<rparr>"

definition body_state :: "unit lisp_state" where
  "body_state = snd (Fset cleanup_ops 9 Qt (snd (specbind cleanup_ops (Lisp_Symbol 10) Qt
     (snd (record_unwind_protect (Unwind 9) Qnil bound_state)))))"

lemma bound_state_eq: "specbind cleanup_ops (Lisp_Symbol 9) (Lisp_Int 5) magic_state = (None, bound_state)"
  by (simp add: specbind_def and_then_def SPECPDL_RESERVE_def specpdl_depth_def start_state_def SYMBOL_VALUE_MAGIC_P_def reject_constant_symbols_def
      plain_ops_def SPECBIND_FAST_UNSAFE_def push_binding_def set_value_def Let_def cleanup_ops_def magic_state_def bound_state_def fun_upd_twist)

lemma body_steps: "(let_step cleanup_ops 9 1)\<^sup>*\<^sup>* bound_state body_state"
proof -
  let ?p = "record_unwind_protect (Unwind 9) Qnil bound_state"
  let ?m = "specbind cleanup_ops (Lisp_Symbol 10) Qt (snd ?p)"
  have "let_step cleanup_ops 9 1 bound_state (snd ?p)" by (rule let_step.Protect [OF prod.collapse [symmetric]])
  moreover have "let_step cleanup_ops 9 1 (snd ?p) (snd ?m)" by (rule let_step.Bind [OF _ prod.collapse [symmetric]]) simp
  moreover have "let_step cleanup_ops 9 1 (snd ?m) body_state"
    unfolding body_state_def by (rule let_step.Assign [OF _ prod.collapse [symmetric]]) (simp add: plain_value_def SYMBOL_VALUE_MAGIC_P_def)
  ultimately show ?thesis by (blast intro: rtranclp.rtrancl_into_rtrancl rtranclp.rtrancl_refl)
qed

theorem let_restores_witness:
  "\<exists>r s3. unbind_to cleanup_ops 0 body_state = Some (r, s3) \<and>
     (if r = None then sym_value s3 9 = Qnil \<and> specpdl s3 = []
      else \<exists>bs. specpdl s3 = bs @ [\<lparr>symbol = 9, old_value = Qnil, func = No_func\<rparr>])"
proof -
  have "world_keeps cleanup_ops 9"
    by (auto simp: world_keeps_def keeps_var_def cleanup_ops_def plain_ops_def Fset_def set_value_def plain_value_def SYMBOL_VALUE_MAGIC_P_def)
  from let_restores [OF this _ _ bound_state_eq] show ?thesis
    using body_steps by (fastforce simp: magic_state_def start_state_def specpdl_depth_def plain_value_def SYMBOL_VALUE_MAGIC_P_def)
qed

end
