(* ===== verification/ByteExecProps.thy ===== *)
theory ByteExecProps
  imports ByteExec ByteOptSpec SpecpdlProps
begin

text \<open>
  Running a program and running its source: the interpreter does on the optimized program what it would
  do on the instructions string, whose instructions are read where they are.
\<close>

section \<open>Execution at other places\<close>

definition relocate_outcome :: "(nat \<Rightarrow> nat) \<Rightarrow> 'w outcome \<Rightarrow> 'w outcome" where
  "relocate_outcome off r = (case r of Continue pc stk s \<Rightarrow> Continue (int (off (nat pc))) stk s | r \<Rightarrow> r)"

lemma relocate_helpers:
  "push_result depth (int (off j)) stk r = relocate_outcome off (push_result depth (int j) stk r)"
  "apply_values depth (int (off j)) n f stk s = relocate_outcome off (apply_values depth (int j) n f stk s)"
  "after_effect (int (off j)) stk e = relocate_outcome off (after_effect (int j) stk e)"
  "exec_unbind ops (int (off j)) c stk s = relocate_outcome off (exec_unbind ops (int j) c stk s)"
  by (simp_all add: push_result_def apply_values_def after_effect_def exec_unbind_def relocate_outcome_def split: sum.splits option.splits)

lemma relocate_plain: "exec_plain ops depth count opcode (int (off j)) stk s = relocate_outcome off (exec_plain ops depth count opcode (int j) stk s)"
  unfolding exec_plain_def relocate_helpers
  by (simp add: relocate_outcome_def Let_def case_prod_beta split: option.splits list.splits sum.splits)

lemma relocate_jump:
  assumes "0 \<le> t" and "off (nat t) \<le> off i \<longleftrightarrow> nat t \<le> i"
  shows "exec_jump ops kind (int (off i)) (int (off (nat t))) (int (off j)) stk s = relocate_outcome off (exec_jump ops kind (int i) t (int j) stk s)"
proof -
  have "int (off (nat t)) \<le> int (off i) \<longleftrightarrow> t \<le> int i" using assms by auto
  then have J: "JUMP_RELATIVE ops (int (off i)) (int (off (nat t))) stk s = relocate_outcome off (JUMP_RELATIVE ops (int i) t stk s)" for stk s
    using assms(1) by (auto simp: JUMP_RELATIVE_def after_effect_def relocate_outcome_def split: option.splits)
  have C: "Continue (int (off j)) stk' s' = relocate_outcome off (Continue (int j) stk' s')" for stk' s' by (simp add: relocate_outcome_def)
  show ?thesis
  proof (cases stk)
    case Nil
    then show ?thesis by (cases "kind = 0") (simp_all add: exec_jump_def J, simp add: relocate_outcome_def)
  next
    case (Cons v rest)
    show ?thesis
      by (cases "kind = 0") (simp_all only: exec_jump_def Let_def Cons list.case J C if_distrib [where f = "relocate_outcome off"] if_True if_False refl simp_thms)
  qed
qed

lemma exec_insn_relocate:
  assumes "\<And>k t. x = Jump k t \<Longrightarrow> 0 \<le> t \<and> (off (nat t) \<le> off i \<longleftrightarrow> nat t \<le> i)"
  shows "exec_insn ops depth constants count (int (off i)) (relocate off x) (int (off j)) stk s =
    relocate_outcome off (exec_insn ops depth constants count (int i) x (int j) stk s)"
proof (cases x)
  case (Jump k t)
  then show ?thesis using assms [OF Jump] relocate_jump [of t off i ops k j stk s] by (simp add: exec_insn_def relocate_def)
qed (simp_all add: exec_insn_def relocate_def relocate_helpers relocate_plain relocate_outcome_def split: option.splits list.splits)

text \<open>Where the next instruction is.\<close>

lemma next_helpers:
  "push_result depth pc stk r = Continue pc' stk' s' \<Longrightarrow> pc' = pc"
  "apply_values depth pc n f stk s = Continue pc' stk' s' \<Longrightarrow> pc' = pc"
  "after_effect pc stk e = Continue pc' stk' s' \<Longrightarrow> pc' = pc"
  "exec_unbind ops pc c stk s = Continue pc' stk' s' \<Longrightarrow> pc' = pc"
  by (auto simp: push_result_def apply_values_def after_effect_def exec_unbind_def split: sum.splits option.splits if_splits)

lemma next_plain: "exec_plain ops depth count opcode pc stk s = Continue pc' stk' s' \<Longrightarrow> pc' = pc"
  by (auto simp: exec_plain_def Let_def case_prod_beta split: option.splits list.splits if_splits prod.splits sum.splits dest: next_helpers)

lemma exec_insn_next:
  assumes "exec_insn ops depth constants count pc x next_pc stk s = Continue pc' stk' s'"
  shows "pc' = next_pc \<or> (\<exists>k. x = Jump k pc')"
proof (cases x)
  case (Jump k t)
  then show ?thesis using assms
    by (auto simp: exec_insn_def exec_jump_def JUMP_RELATIVE_def Let_def split: list.splits if_splits dest: next_helpers)
next
  case (Plain opcode)
  then show ?thesis using assms next_plain by (simp add: exec_insn_def) blast
qed (use assms in \<open>auto simp: exec_insn_def Let_def case_prod_beta split: option.splits list.splits if_splits dest: next_helpers\<close>)

section \<open>The source as a program\<close>

definition fetch_source :: "(lisp_object \<Rightarrow> bool) \<Rightarrow> lisp_object list \<Rightarrow> int list \<Rightarrow> nat \<Rightarrow> (insn \<times> nat) option" where
  "fetch_source kw constants xs i = map_option (\<lambda>(x, j). (checked kw constants x, j)) (decode False xs i)"

definition execute_source :: "'w bc_ops \<Rightarrow> int list \<Rightarrow> nat \<Rightarrow> lisp_object list \<Rightarrow> 'w lisp_state \<Rightarrow> 'w outcome option" where
  "execute_source ops xs stack_depth constants s =
     bc_run (fetch_source (keyword (vops ops)) constants xs) ops stack_depth constants (specpdl_depth s) 0 [] s"

text \<open>Two programs that correspond at the places in \<open>P\<close> run alike from there.\<close>

definition simulates :: "(nat \<Rightarrow> (insn \<times> nat) option) \<Rightarrow> (nat \<Rightarrow> (insn \<times> nat) option) \<Rightarrow> (nat \<Rightarrow> nat) \<Rightarrow> nat set \<Rightarrow> bool" where
  "simulates fetch1 fetch2 off P \<longleftrightarrow>
     (\<forall>i \<in> P. (fetch1 (off i) = None \<and> fetch2 i = None) \<or>
        (\<exists>x j. fetch2 i = Some (x, j) \<and> fetch1 (off i) = Some (relocate off x, off j) \<and> j \<in> P \<and>
           (\<forall>k t. x = Jump k t \<longrightarrow> 0 \<le> t \<and> nat t \<in> P \<and> (off (nat t) \<le> off i \<longleftrightarrow> nat t \<le> i))))"

lemma simulates_step:
  assumes "simulates fetch1 fetch2 off P" and "i \<in> P" and "fetch2 i = Some (x, j)"
  shows "fetch1 (off i) = Some (relocate off x, off j)"
    "exec_insn ops depth constants count (int (off i)) (relocate off x) (int (off j)) stk s =
      relocate_outcome off (exec_insn ops depth constants count (int i) x (int j) stk s)"
    "exec_insn ops depth constants count (int i) x (int j) stk s = Continue pc' stk' s' \<Longrightarrow> 0 \<le> pc' \<and> nat pc' \<in> P"
proof -
  have S: "fetch1 (off i) = Some (relocate off x, off j)" "j \<in> P" "\<And>k t. x = Jump k t \<Longrightarrow> 0 \<le> t \<and> nat t \<in> P \<and> (off (nat t) \<le> off i \<longleftrightarrow> nat t \<le> i)"
    using assms unfolding simulates_def by fastforce+
  show "fetch1 (off i) = Some (relocate off x, off j)" by (rule S(1))
  show "exec_insn ops depth constants count (int (off i)) (relocate off x) (int (off j)) stk s =
      relocate_outcome off (exec_insn ops depth constants count (int i) x (int j) stk s)"
    using S(3) by (intro exec_insn_relocate) blast
  assume "exec_insn ops depth constants count (int i) x (int j) stk s = Continue pc' stk' s'"
  from exec_insn_next [OF this] show "0 \<le> pc' \<and> nat pc' \<in> P" using S(2,3) by auto
qed

text \<open>Induction over a run that ends.\<close>

lemma bc_run_induct [consumes 1, case_names none final step]:
  assumes run: "bc_run fetch ops depth constants count pc stk s = Some r"
    and none: "\<And>pc stk s. pc < 0 \<or> fetch (nat pc) = None \<Longrightarrow> Q pc stk s Crash"
    and final: "\<And>pc x j stk s r. 0 \<le> pc \<Longrightarrow> fetch (nat pc) = Some (x, j) \<Longrightarrow> exec_insn ops depth constants count pc x (int j) stk s = r \<Longrightarrow>
      (\<forall>pc' stk' s'. r \<noteq> Continue pc' stk' s') \<Longrightarrow> r \<noteq> Diverge \<Longrightarrow> Q pc stk s r"
    and step: "\<And>pc x j stk s pc' stk' s' r. 0 \<le> pc \<Longrightarrow> fetch (nat pc) = Some (x, j) \<Longrightarrow>
      exec_insn ops depth constants count pc x (int j) stk s = Continue pc' stk' s' \<Longrightarrow> Q pc' stk' s' r \<Longrightarrow> Q pc stk s r"
  shows "Q pc stk s r"
proof -
  have "f = fetch \<and> o' = ops \<and> d = depth \<and> c = constants \<and> n = count \<longrightarrow> Q pc stk s r" if "bc_run f o' d c n pc stk s = Some r" for f o' d c n pc stk s r
  proof (rule bc_run.raw_induct [OF _ that, where P = "\<lambda>f o' d c n pc stk s r. f = fetch \<and> o' = ops \<and> d = depth \<and> c = constants \<and> n = count \<longrightarrow> Q pc stk s r"])
    fix rec :: "(nat \<Rightarrow> (insn \<times> nat) option) \<Rightarrow> 'a bc_ops \<Rightarrow> nat \<Rightarrow> lisp_object list \<Rightarrow> nat \<Rightarrow> int \<Rightarrow> lisp_object list \<Rightarrow> 'a lisp_state \<Rightarrow> 'a outcome option"
    fix f o' d c n pc stk s r
    assume IH: "\<And>f o' d c n pc stk s r. rec f o' d c n pc stk s = Some r \<Longrightarrow> f = fetch \<and> o' = ops \<and> d = depth \<and> c = constants \<and> n = count \<longrightarrow> Q pc stk s r"
      and body: "(if pc < 0 then Some Crash
        else case f (nat pc) of None \<Rightarrow> Some Crash
             | Some (x, j) \<Rightarrow>
                 (case exec_insn o' d c n pc x (int j) stk s of
                    Continue pc' stk' s' \<Rightarrow> rec f o' d c n pc' stk' s'
                  | Diverge \<Rightarrow> None
                  | r \<Rightarrow> Some r)) = Some r"
    show "f = fetch \<and> o' = ops \<and> d = depth \<and> c = constants \<and> n = count \<longrightarrow> Q pc stk s r"
    proof
      assume eq: "f = fetch \<and> o' = ops \<and> d = depth \<and> c = constants \<and> n = count"
      show "Q pc stk s r"
      proof (cases "pc < 0 \<or> fetch (nat pc) = None")
        case True
        then have "r = Crash" using body eq by (cases "pc < 0") simp_all
        then show ?thesis using none [OF True] by simp
      next
        case False
        then obtain x j where f: "0 \<le> pc" "fetch (nat pc) = Some (x, j)" by auto
        show ?thesis
        proof (cases "exec_insn ops depth constants count pc x (int j) stk s")
          case (Continue pc' stk' s')
          then have "rec fetch ops depth constants count pc' stk' s' = Some r" using body eq f by simp
          then show ?thesis using step [OF f Continue] IH by blast
        next
          case (Return v s1)
          have "Q pc stk s (Return v s1)" by (rule final [OF f Return]) simp_all
          moreover have "r = Return v s1" using body eq f Return by simp
          ultimately show ?thesis by simp
        next
          case (Exit e s1)
          have "Q pc stk s (Exit e s1)" by (rule final [OF f Exit]) simp_all
          moreover have "r = Exit e s1" using body eq f Exit by simp
          ultimately show ?thesis by simp
        next
          case Crash
          have "Q pc stk s (Crash)" by (rule final [OF f Crash]) simp_all
          moreover have "r = Crash" using body eq f Crash by simp
          ultimately show ?thesis by simp
        qed (use body eq f in simp)
      qed
    qed
  qed
  then show ?thesis using run by blast
qed

lemma bc_run_source:
  assumes "bc_run fetch2 ops depth constants count pc stk s = Some r" and sim: "simulates fetch1 fetch2 off P" and "0 \<le> pc" and "nat pc \<in> P"
  shows "bc_run fetch1 ops depth constants count (int (off (nat pc))) stk s = Some r"
proof -
  have "0 \<le> pc \<and> nat pc \<in> P \<longrightarrow> bc_run fetch1 ops depth constants count (int (off (nat pc))) stk s = Some r"
    using assms(1)
  proof (induction rule: bc_run_induct)
    case (none pc stk s)
    show ?case
    proof
      assume pc: "0 \<le> pc \<and> nat pc \<in> P"
      then have "fetch1 (off (nat pc)) = None" using sim none unfolding simulates_def by fastforce
      then show "bc_run fetch1 ops depth constants count (int (off (nat pc))) stk s = Some Crash" by (subst bc_run.simps) simp
    qed
  next
    case (final pc x j stk s r)
    show ?case
    proof
      assume pc: "0 \<le> pc \<and> nat pc \<in> P"
      note S = simulates_step [OF sim conjunct2 [OF pc] final(2)]
      show "bc_run fetch1 ops depth constants count (int (off (nat pc))) stk s = Some r"
        using S(1) S(2) [of ops depth constants count stk s] final pc by (subst bc_run.simps) (cases r; simp add: relocate_outcome_def)
    qed
  next
    case (step pc x j stk s pc' stk' s' r)
    show ?case
    proof
      assume pc: "0 \<le> pc \<and> nat pc \<in> P"
      note S = simulates_step [OF sim conjunct2 [OF pc] step(2)]
      have "0 \<le> pc' \<and> nat pc' \<in> P" using S(3) [of ops depth constants count stk s pc' stk' s'] step(3) pc by simp
      then show "bc_run fetch1 ops depth constants count (int (off (nat pc))) stk s = Some r"
        using S(1) S(2) [of ops depth constants count stk s] step pc by (subst bc_run.simps) (simp add: relocate_outcome_def)
    qed
  qed
  then show ?thesis using assms(3,4) by blast
qed

lemma bc_run_optimized:
  assumes "bc_run fetch1 ops depth constants count pc stk s = Some r" and sim: "simulates fetch1 fetch2 off P" and "pc = int (off i)" and "i \<in> P"
  shows "bc_run fetch2 ops depth constants count (int i) stk s = Some r"
proof -
  have "\<forall>i \<in> P. pc = int (off i) \<longrightarrow> bc_run fetch2 ops depth constants count (int i) stk s = Some r"
    using assms(1)
  proof (induction rule: bc_run_induct)
    case (none pc stk s)
    show ?case
    proof (intro ballI impI)
      fix i assume i: "i \<in> P" "pc = int (off i)"
      then have "fetch2 i = None" using sim none unfolding simulates_def by fastforce
      then show "bc_run fetch2 ops depth constants count (int i) stk s = Some Crash" by (subst bc_run.simps) simp
    qed
  next
    case (final pc x j stk s r)
    show ?case
    proof (intro ballI impI)
      fix i assume i: "i \<in> P" "pc = int (off i)"
      obtain x2 j2 where f: "fetch2 i = Some (x2, j2)" using sim i final(2) unfolding simulates_def by fastforce
      note S = simulates_step [OF sim i(1) f]
      have "x = relocate off x2" "j = off j2" using S(1) final(2) i(2) by simp_all
      then have r: "r = relocate_outcome off (exec_insn ops depth constants count (int i) x2 (int j2) stk s)"
        using S(2) [of ops depth constants count stk s] final(3) i(2) by simp
      then show "bc_run fetch2 ops depth constants count (int i) stk s = Some r"
        using f final(4,5) r by (subst bc_run.simps) (cases "exec_insn ops depth constants count (int i) x2 (int j2) stk s"; simp add: relocate_outcome_def)
    qed
  next
    case (step pc x j stk s pc' stk' s' r)
    show ?case
    proof (intro ballI impI)
      fix i assume i: "i \<in> P" "pc = int (off i)"
      obtain x2 j2 where f: "fetch2 i = Some (x2, j2)" using sim i step(2) unfolding simulates_def by fastforce
      note S = simulates_step [OF sim i(1) f]
      have "x = relocate off x2" "j = off j2" using S(1) step(2) i(2) by simp_all
      then obtain pc2 where c: "exec_insn ops depth constants count (int i) x2 (int j2) stk s = Continue pc2 stk' s'" "pc' = int (off (nat pc2))"
        using S(2) [of ops depth constants count stk s] step(3) i(2)
        by (cases "exec_insn ops depth constants count (int i) x2 (int j2) stk s") (auto simp: relocate_outcome_def)
      note P = S(3) [OF c(1)]
      have "bc_run fetch2 ops depth constants count pc2 stk' s' = Some r" using step(4) c(2) P by force
      then show "bc_run fetch2 ops depth constants count (int i) stk s = Some r" using f c(1) by (subst bc_run.simps) simp
    qed
  qed
  then show ?thesis using assms(3,4) by blast
qed

lemma parse_decode:
  "parse xs i0 = Some L \<Longrightarrow> i0 \<le> length xs \<Longrightarrow> (i, x, j) \<in> set L \<Longrightarrow> decode False xs i = Some (x, j) \<and> (j = length xs \<or> j \<in> fst ` set L)"
proof (induction xs i0 arbitrary: L rule: parse.induct)
  case (1 p i0)
  show ?case
  proof (cases "i0 < length p")
    case False
    then show ?thesis using "1.prems" by (simp add: parse.simps)
  next
    case True
    from parse_Cons [OF "1.prems"(1) this] obtain x0 j0 L' where L: "decode False p i0 = Some (x0, j0)" "parse p j0 = Some L'" "L = (i0, x0, j0) # L'" .
    have j0: "j0 \<le> length p" using decode_next [OF L(1)] by simp
    show ?thesis
    proof (cases "(i, x, j) \<in> set L'")
      case True
      then show ?thesis using "1.IH" [OF \<open>i0 < length p\<close> L(1) refl L(2) j0] L(3) by auto
    next
      case False
      then have "(i, x, j) = (i0, x0, j0)" using "1.prems"(3) L(3) by simp
      moreover have "j0 = length p \<or> j0 \<in> fst ` set L'" using parse_index [OF L(2) j0] by (cases L') auto
      ultimately show ?thesis using L(1,3) by auto
    qed
  qed
qed

lemma placed_simulates:
  assumes wf: "well_formed_code kw constants xs" and pl: "placed kw constants xs p off"
  shows "simulates (decode True p) (fetch_source kw constants xs) off (fst ` set (the (parse xs 0)) \<union> {length xs})"
  unfolding simulates_def
proof
  let ?L = "the (parse xs 0)"
  obtain L where L: "parse xs 0 = Some L" "list_all (insn_ok kw constants (map fst L)) L" using well_formed_parse [OF wf] by metis
  fix i assume i: "i \<in> fst ` set ?L \<union> {length xs}"
  show "(decode True p (off i) = None \<and> fetch_source kw constants xs i = None) \<or>
        (\<exists>x j. fetch_source kw constants xs i = Some (x, j) \<and> decode True p (off i) = Some (relocate off x, off j) \<and> j \<in> fst ` set ?L \<union> {length xs} \<and>
           (\<forall>k t. x = Jump k t \<longrightarrow> 0 \<le> t \<and> nat t \<in> fst ` set ?L \<union> {length xs} \<and> (off (nat t) \<le> off i \<longleftrightarrow> nat t \<le> i)))"
  proof (cases "i \<in> fst ` set ?L")
    case False
    then have "i = length xs" using i by simp
    then show ?thesis using pl by (simp add: placed_def fetch_source_def decode_def decode1_def)
  next
    case True
    then obtain x j where e: "(i, x, j) \<in> set L" using L(1) by auto
    note D = parse_decode [OF L(1) _ e]
    have ok: "insn_ok kw constants (map fst L) (i, x, j)" using L(2) e by (auto simp: list_all_iff)
    have J: "0 \<le> t \<and> nat t \<in> fst ` set L \<and> (off (nat t) \<le> off i \<longleftrightarrow> nat t \<le> i)" if "checked kw constants x = Jump k t" for k t
    proof -
      have "x = Jump k t" using that by (auto simp: checked_def split: insn.splits if_splits)
      then have t: "0 \<le> t" "nat t \<in> fst ` set L" using ok by (auto simp: insn_ok_def)
      then obtain x' j' where "(nat t, x', j') \<in> set L" by auto
      then have "nat t < i \<longrightarrow> off (nat t) < off i" "i < nat t \<longrightarrow> off i < off (nat t)" using pl e L(1) unfolding placed_def by fastforce+
      then show ?thesis using t by (cases "nat t" i rule: linorder_cases) auto
    qed
    have "decode True p (off i) = Some (relocate off (checked kw constants x), off j)" using pl e L(1) unfolding placed_def by fastforce
    then show ?thesis using D J L(1) by (simp add: fetch_source_def)
  qed
qed

lemma execute_optimized_source:
  assumes "well_formed_code (keyword (vops ops)) constants xs" and "placed (keyword (vops ops)) constants xs p off"
  shows "execute_optimized_program ops p depth constants s = execute_source ops xs depth constants s"
proof -
  note sim = placed_simulates [OF assms]
  have o: "off 0 = 0" using assms(2) by (simp add: placed_def)
  obtain L where L: "parse xs 0 = Some L" using well_formed_parse [OF assms(1)] by metis
  have z: "0 \<in> fst ` set (the (parse xs 0)) \<union> {length xs}" using parse_index [OF L] L by (cases L) auto
  show ?thesis
  proof (cases "execute_optimized_program ops p depth constants s")
    case (Some r)
    then have "bc_run (decode True p) ops depth constants (specpdl_depth s) 0 [] s = Some r" by (simp add: execute_optimized_program_def)
    from bc_run_optimized [OF this sim _ z] o show ?thesis using Some by (simp add: execute_source_def)
  next
    case None
    show ?thesis
    proof (cases "execute_source ops xs depth constants s")
      case (Some r)
      then have "bc_run (fetch_source (keyword (vops ops)) constants xs) ops depth constants (specpdl_depth s) 0 [] s = Some r"
        by (simp add: execute_source_def)
      from bc_run_source [OF this sim] z o show ?thesis using None by (simp add: execute_optimized_program_def)
    qed (use None in simp)
  qed
qed

lemma Fbyte_code_source:
  assumes "well_formed_code (keyword (vops ops)) constants xs" and "length xs \<le> 21845"
  shows "Fbyte_code ops xs constants depth s =
    (case SPECPDL_RESERVE (int (length (filter (is_varbind \<circ> fst \<circ> snd) (the (parse xs 0))))) s of
       (Some e, s1) \<Rightarrow> Some (Exit e s1)
     | (None, s1) \<Rightarrow> execute_source ops xs depth constants s1)"
proof -
  obtain p off where run: "optimize_byte_code (keyword (vops ops)) xs constants = Some (Inr (p, length (filter (is_varbind \<circ> fst \<circ> snd) (the (parse xs 0)))))"
    and pl: "placed (keyword (vops ops)) constants xs p off" using optimized_placed [OF assms] by blast
  have "execute_optimized_program ops p depth constants = execute_source ops xs depth constants" by (rule ext, rule execute_optimized_source [OF assms(1) pl])
  then show ?thesis by (simp add: Fbyte_code_def run split: prod.split option.split)
qed

text \<open>
  Property C13: calling \<open>byte-code\<close> on a well-formed instructions string of at most 21845 bytes does what the instructions of the
  string say, executed where they are in it: the same value or error, the same effects, and it returns
  exactly when they do. The optimizer, its way of encoding operands and its jumps make no difference.
\<close>

theorem Fbyte_code_runs_source:
  assumes "well_formed_code (keyword (vops ops)) constants xs" and "length xs \<le> 21845"
  shows "Fbyte_code ops xs constants depth s =
    (case SPECPDL_RESERVE (int (length (filter (is_varbind \<circ> fst \<circ> snd) (the (parse xs 0))))) s of
       (Some e, s1) \<Rightarrow> Some (Exit e s1)
     | (None, s1) \<Rightarrow> execute_source ops xs depth constants s1)"
  by (rule Fbyte_code_source [OF assms])

text \<open>Primitives that do nothing, for an example.\<close>

definition plain_bc_ops :: "unit bc_ops" where
  "plain_bc_ops = \<lparr>vops = plain_ops, Fsymbol_value = (\<lambda>y s. (Inr Qnil, s)), Ffuncall = (\<lambda>args s. (Inr Qnil, s)), prim = (\<lambda>opcode args s. (Inr Qnil, s)),
     save_state = (\<lambda>opcode s. ((0, Qnil), s)), float_arith = (\<lambda>opcode a b s. (Inr Qnil, s)), float_compare = (\<lambda>a b s. Inr 0),
     Fprogn_function = 0, QUIT = (\<lambda>s. (None, s))\<rparr>"

lemma sample_code_ok_ops: "well_formed_code (keyword (vops plain_bc_ops)) sample_constants sample_code"
  using sample_code_ok by (simp add: plain_bc_ops_def plain_ops_def)

theorem Fbyte_code_runs_source_witness:
  "Fbyte_code plain_bc_ops sample_code sample_constants 1 start_state = Some (Return Qt start_state)"
proof -
  have len: "length sample_code \<le> 21845" by (simp add: sample_code_def)
  have "execute_source plain_bc_ops sample_code 1 sample_constants start_state = Some (Return Qt start_state)"
    unfolding execute_source_def
    by (simp add: bc_run.simps fetch_source_def sample_code_def decode_def decode1_def nargs_insn_def uint16_def checked_def exec_insn_def sample_constants_def
        push_result_def exec_jump_def JUMP_RELATIVE_def exec_plain_def operands_def start_state_def SYMBOL_VALUE_MAGIC_P_def)
  moreover have "SPECPDL_RESERVE 0 start_state = (None, start_state)" by (simp add: SPECPDL_RESERVE_def specpdl_depth_def start_state_def)
  ultimately show ?thesis using Fbyte_code_runs_source [OF sample_code_ok_ops len, of 1 start_state]
    by (simp add: sample_code_parse is_varbind_def)
qed

end
