(* ===== verification/ByteTypes.thy ===== *)
theory ByteTypes
  imports ByteExecProps
begin

text \<open>
  Types for byte code. At each instruction the number of values on the stack and the number of entries
  the code has pushed on the binding stack are fixed. Code with such types, called with the stack depth it
  was checked for, does not crash and returns with the binding stack balanced.
\<close>

section \<open>Checking\<close>

text \<open>
  Where an instruction may go, with the number of values \<open>h\<close> and of bindings \<open>b\<close> there. \<open>room\<close> is the number
  of entries of the binding stack that were reserved for the variables the code binds.
\<close>

definition plain_flow :: "nat \<Rightarrow> Opcode \<Rightarrow> nat \<Rightarrow> nat \<Rightarrow> nat \<Rightarrow> (nat \<times> nat \<times> nat) list option" where
  "plain_flow depth opcode j h b =
     (case operands opcode of
        Some n \<Rightarrow> if n \<le> h \<and> h - n < depth then Some [(j, h - n + 1, b)] else None
      | None \<Rightarrow>
          if opcode \<in> {114, 138, 140} then Some [(j, h, b + 1)]
          else if opcode = 146 then Some [(j, h, 0)]
          else if h = 0 then None
          else if opcode = 135 then if b = 0 then Some [] else None
          else if opcode = 136 then Some [(j, h - 1, b)]
          else if opcode = 137 then if h < depth then Some [(j, h + 1, b)] else None
          else if opcode = 139 then Some [(j, h, b)]
          else if opcode = 142 then Some [(j, h - 1, b + 1)]
          else if opcode = 144 then Some [(j, h, b + 1)]
          else if opcode = 145 then if 2 \<le> h \<and> 1 \<le> b then Some [(j, h - 1, b - 1)] else None
          else None)"

definition flow :: "nat \<Rightarrow> nat \<Rightarrow> insn \<Rightarrow> nat \<Rightarrow> nat \<Rightarrow> nat \<Rightarrow> (nat \<times> nat \<times> nat) list option" where
  "flow room depth x j h b =
     (case x of
        Varref n \<Rightarrow> if h < depth then Some [(j, h + 1, b)] else None
      | Varset n \<Rightarrow> if 0 < h then Some [(j, h - 1, b)] else None
      | Varbind n \<Rightarrow> if 0 < h \<and> b < room then Some [(j, h - 1, b + 1)] else None
      | Call n \<Rightarrow> if n < h then Some [(j, h - n, b)] else None
      | Unbind n \<Rightarrow> if n \<le> b then Some [(j, h, b - n)] else None
      | Jump kind target \<Rightarrow>
          if kind = 0 then Some [(nat target, h, b)]
          else if h = 0 then None
          else Some [(nat target, if kind \<ge> 3 then h else h - 1, b), (j, h - 1, b)]
      | Constant n \<Rightarrow> if h < depth then Some [(j, h + 1, b)] else None
      | Counted opcode n \<Rightarrow> if (opcode = BlistN \<longrightarrow> 0 < n) \<and> n \<le> h \<and> h - n < depth then Some [(j, h - n + 1, b)] else None
      | Plain opcode \<Rightarrow> plain_flow depth opcode j h b)"

text \<open>
  \<open>H\<close> gives the types of the instructions that can be reached: the first one starts with nothing, and
  where an instruction goes the types are those it leaves.
\<close>

definition insn_typed :: "(lisp_object \<Rightarrow> bool) \<Rightarrow> lisp_object list \<Rightarrow> nat \<Rightarrow> nat \<Rightarrow> (nat \<times> nat \<times> nat) list \<Rightarrow> (nat \<times> insn \<times> nat) list \<Rightarrow> nat \<times> insn \<times> nat \<Rightarrow> bool" where
  "insn_typed kw constants room depth H L = (\<lambda>(i, x, j).
     case map_of H i of None \<Rightarrow> True
     | Some (h, b) \<Rightarrow>
         h \<le> depth \<and>
         (case flow room depth (checked kw constants x) j h b of None \<Rightarrow> False
          | Some succs \<Rightarrow> list_all (\<lambda>(p, t). p \<in> set (map fst L) \<and> map_of H p = Some t) succs))"

definition code_typed :: "(lisp_object \<Rightarrow> bool) \<Rightarrow> lisp_object list \<Rightarrow> nat \<Rightarrow> (nat \<times> nat \<times> nat) list \<Rightarrow> (nat \<times> insn \<times> nat) list \<Rightarrow> bool" where
  "code_typed kw constants depth H L \<longleftrightarrow>
     L \<noteq> [] \<and> map_of H 0 = Some (0, 0) \<and> list_all (insn_typed kw constants (length (filter (is_varbind \<circ> fst \<circ> snd) L)) depth H L) L"

section \<open>What the interpreter calls\<close>

text \<open>
  A function that returns leaves the binding stack as it was and its array no smaller. The setup
  of a temporary buffer for output, opcode 144, leaves one binding, that of \<open>standard-output\<close>.
\<close>

definition keeps :: "'w lisp_state \<Rightarrow> 'w lisp_state \<Rightarrow> bool" where
  "keeps s s' \<longleftrightarrow> specpdl s' = specpdl s \<and> specpdl_size s \<le> specpdl_size s'"

definition value_balanced :: "'w value_effect \<Rightarrow> bool" where
  "value_balanced f \<longleftrightarrow> (\<forall>s v s'. f s = (Inr v, s') \<longrightarrow> keeps s s')"

definition effect_balanced :: "'w effect \<Rightarrow> bool" where
  "effect_balanced f \<longleftrightarrow> (\<forall>s s'. f s = (None, s') \<longrightarrow> keeps s s')"

definition balanced_ops :: "'w bc_ops \<Rightarrow> bool" where
  "balanced_ops ops \<longleftrightarrow>
     (\<forall>y. value_balanced (Fsymbol_value ops y)) \<and> (\<forall>args. value_balanced (Ffuncall ops args)) \<and>
     (\<forall>opcode args. opcode \<noteq> 144 \<longrightarrow> value_balanced (prim ops opcode args)) \<and>
     (\<forall>args s v s'. prim ops 144 args s = (Inr v, s') \<longrightarrow> (\<exists>b. specpdl s' = b # specpdl s) \<and> specpdl_size s \<le> specpdl_size s') \<and>
     (\<forall>opcode s. keeps s (snd (save_state ops opcode s))) \<and>
     (\<forall>opcode a b. value_balanced (float_arith ops opcode a b)) \<and> effect_balanced (QUIT ops) \<and>
     (\<forall>y v. effect_balanced (Fset_magic (vops ops) y v)) \<and> (\<forall>y. effect_balanced (Fkill_local_variable (vops ops) y)) \<and>
     (\<forall>buf. effect_balanced (Fset_buffer (vops ops) buf)) \<and> (\<forall>f x. effect_balanced (call_unwind (vops ops) f x))"

lemma keeps_refl [simp]: "keeps s s" by (simp add: keeps_def)

lemma keeps_trans [trans]: "keeps s s' \<Longrightarrow> keeps s' s'' \<Longrightarrow> keeps s s''" by (simp add: keeps_def)

lemma keeps_update [simp]:
  "keeps (s\<lparr>heap := h\<rparr>) s' = keeps s s'" "keeps s (s'\<lparr>heap := h\<rparr>) = keeps s s'" "keeps s (set_value y v s') = keeps s s'"
  "keeps (set_value y v s) s' = keeps s s'" "keeps (s\<lparr>quit_flag := q\<rparr>) s' = keeps s s'" "keeps s (s'\<lparr>quit_flag := q\<rparr>) = keeps s s'"
  by (simp_all add: keeps_def set_value_def)

lemma balancedD:
  assumes "balanced_ops ops"
  shows "Fsymbol_value ops y s = (Inr v, s') \<Longrightarrow> keeps s s'" "Ffuncall ops args s = (Inr v, s') \<Longrightarrow> keeps s s'"
    "opcode \<noteq> 144 \<Longrightarrow> prim ops opcode args s = (Inr v, s') \<Longrightarrow> keeps s s'"
    "prim ops 144 args s = (Inr v, s') \<Longrightarrow> (\<exists>b. specpdl s' = b # specpdl s) \<and> specpdl_size s \<le> specpdl_size s'"
    "keeps s (snd (save_state ops opcode s))" "float_arith ops opcode a b s = (Inr v, s') \<Longrightarrow> keeps s s'" "QUIT ops s = (None, s') \<Longrightarrow> keeps s s'"
    "Fset_magic (vops ops) y v s = (None, s') \<Longrightarrow> keeps s s'" "Fkill_local_variable (vops ops) y s = (None, s') \<Longrightarrow> keeps s s'"
    "Fset_buffer (vops ops) buf s = (None, s') \<Longrightarrow> keeps s s'" "call_unwind (vops ops) f v s = (None, s') \<Longrightarrow> keeps s s'"
  using assms unfolding balanced_ops_def value_balanced_def effect_balanced_def by simp_all

lemma Fset_keeps: "balanced_ops ops \<Longrightarrow> Fset (vops ops) y v s = (None, s') \<Longrightarrow> keeps s s'"
  using balancedD(8) by (fastforce simp: Fset_def split: if_splits)

lemma and_then_keeps:
  "and_then f g s = (None, s') \<Longrightarrow> (\<And>s s'. f s = (None, s') \<Longrightarrow> keeps s s') \<Longrightarrow> (\<And>s s'. g s = (None, s') \<Longrightarrow> keeps s s') \<Longrightarrow> keeps s s'"
  by (auto simp: and_then_def split: prod.splits option.splits) (blast intro: keeps_trans)

lemma in_buffer_keeps:
  assumes "balanced_ops ops" and "in_buffer (vops ops) buf f s = (None, s')" and "\<And>s s'. f s = (None, s') \<Longrightarrow> keeps s s'"
  shows "keeps s s'"
proof (cases "buf = Fcurrent_buffer (vops ops) s")
  case True
  then show ?thesis using assms(2,3) by (simp add: in_buffer_def)
next
  case False
  let ?return = "Fset_buffer (vops ops) (Fcurrent_buffer (vops ops) s)"
  have "and_then (Fset_buffer (vops ops) buf) (and_then f ?return) s = (None, s')" using assms(2) False by (simp add: in_buffer_def)
  then show ?thesis
  proof (rule and_then_keeps)
    show "keeps t t'" if "Fset_buffer (vops ops) buf t = (None, t')" for t t' using balancedD(10) [OF assms(1) that] .
    show "keeps t t'" if "and_then f ?return t = (None, t')" for t t'
      using that by (rule and_then_keeps) (use assms(3) balancedD(10) [OF assms(1)] in blast)+
  qed
qed

lemma run_unwind_keeps:
  assumes "balanced_ops ops" and "run_unwind (vops ops) b s = (None, s')"
  shows "keeps s s'"
proof (cases "func b")
  case No_func
  then show ?thesis using assms Fset_keeps [OF assms(1)] by (auto simp: run_unwind_def split: if_splits)
next
  case Specbind_unwind_local
  then show ?thesis using assms in_buffer_keeps [OF assms(1) _ Fset_keeps [OF assms(1)]]
    by (auto simp: run_unwind_def specbind_unwind_local_def Let_def split: if_splits)
next
  case Specbind_unwind_wasnt_local
  then show ?thesis using assms in_buffer_keeps [OF assms(1) _ balancedD(9) [OF assms(1)]]
    by (auto simp: run_unwind_def specbind_unwind_wasnt_local_def Let_def split: if_splits)
next
  case (Unwind f)
  then show ?thesis using assms by (auto simp: run_unwind_def elim!: balancedD(11))
qed

lemma grow_size_grows: "siz \<le> grow_size size_needed maximum siz"
proof (induction size_needed maximum siz rule: grow_size.induct)
  case (1 size_needed maximum siz)
  then show ?case by (subst grow_size.simps) (auto simp: min_def split: if_splits)
qed

lemma reserve_grows: "SPECPDL_RESERVE n s = (r, s') \<Longrightarrow> specpdl s' = specpdl s \<and> specpdl_size s \<le> specpdl_size s'"
  using grow_size_grows by (auto simp: SPECPDL_RESERVE_def grow_specpdl_def Let_def split: if_splits)

text \<open>Unwinding takes the entries off.\<close>

lemma unbind_loop_balanced:
  assumes "balanced_ops ops"
  shows "specpdl s = es @ bottom \<Longrightarrow> unbind_loop (vops ops) (length bottom) s = Some (None, s') \<Longrightarrow> specpdl s' = bottom \<and> specpdl_size s \<le> specpdl_size s'"
proof (induction es arbitrary: s)
  case Nil
  then show ?case by (subst (asm) unbind_loop.simps) (simp add: specpdl_depth_def)
next
  case (Cons e es)
  obtain r t where r: "run_unwind (vops ops) e (s\<lparr>specpdl := es @ bottom\<rparr>) = (r, t)" by fastforce
  have "r = None" "unbind_loop (vops ops) (length bottom) t = Some (None, s')"
    using Cons.prems r unbind_loop.simps [of "vops ops" "length bottom" s] by (cases r; simp add: specpdl_depth_def Let_def)+
  then show ?case using run_unwind_keeps [OF assms] r Cons.IH [of t] by (fastforce simp: keeps_def)
qed

lemma unbind_to_balanced:
  assumes "balanced_ops ops" and "specpdl s = es @ bottom" and "unbind_to (vops ops) (length bottom) s = Some (None, s')"
  shows "specpdl s' = bottom \<and> specpdl_size s \<le> specpdl_size s'"
proof -
  have "UNBIND_TO (vops ops) (length bottom) (es @ bottom) s = Some (None, s')" using assms(2,3) by (simp add: unbind_to_def)
  then show ?thesis using assms(2)
  proof (induction es arbitrary: s)
    case Nil
    then show ?case by (cases bottom) simp_all
  next
    case (Cons e es)
    show ?case
    proof (cases "func e \<noteq> No_func \<or> SYMBOL_VALUE_MAGIC_P (sym_value s (symbol e))")
      case True
      then have "unbind_to_hairy (vops ops) (length bottom) s = Some (None, s')" using Cons.prems by auto
      then show ?thesis using unbind_loop_balanced [OF assms(1), of "s\<lparr>quit_flag := Qnil\<rparr>" "e # es" bottom] Cons.prems(2)
        by (auto simp: unbind_to_hairy_def Let_def split: if_splits)
    next
      case False
      then have "UNBIND_TO (vops ops) (length bottom) (es @ bottom) (set_value (symbol e) (old_value e) (s\<lparr>specpdl := es @ bottom\<rparr>)) = Some (None, s')"
        using Cons.prems by auto
      from Cons.IH [OF this] show ?thesis by (simp add: set_value_def)
    qed
  qed
qed

section \<open>One instruction\<close>

text \<open>A state of the type \<open>(h, b)\<close> above the entries \<open>bottom\<close> of the binding stack, with room for \<open>room\<close> more.\<close>

definition state_typed :: "nat \<Rightarrow> nat \<Rightarrow> specbinding list \<Rightarrow> nat \<times> nat \<Rightarrow> lisp_object list \<Rightarrow> 'w lisp_state \<Rightarrow> bool" where
  "state_typed room depth bottom = (\<lambda>(h, b) stk s.
     length stk = h \<and> h \<le> depth \<and> (\<exists>es. specpdl s = es @ bottom \<and> length es = b) \<and> int (length bottom + room) \<le> specpdl_size s)"

text \<open>What an instruction may result in. Errors are not typed, as whoever catches them unwinds.\<close>

definition outcome_typed :: "nat \<Rightarrow> nat \<Rightarrow> specbinding list \<Rightarrow> (nat \<times> nat \<times> nat) list \<Rightarrow> 'w outcome \<Rightarrow> bool" where
  "outcome_typed room depth bottom succs r =
     (case r of
        Continue pc stk s \<Rightarrow> \<exists>p t. (p, t) \<in> set succs \<and> pc = int p \<and> state_typed room depth bottom t stk s
      | Return v s \<Rightarrow> specpdl s = bottom
      | Exit e s \<Rightarrow> True
      | Crash \<Rightarrow> False
      | Diverge \<Rightarrow> True)"

lemma keeps_typed: "keeps s s' \<Longrightarrow> state_typed room depth bottom t stk s \<Longrightarrow> state_typed room depth bottom t stk s'"
  by (cases t) (simp add: keeps_def state_typed_def)

lemma pushed_typed:
  "state_typed room depth bottom (h, b) stk s \<Longrightarrow> specpdl s' = e # specpdl s \<Longrightarrow> specpdl_size s \<le> specpdl_size s' \<Longrightarrow>
    state_typed room depth bottom (h, Suc b) stk s'"
  by (force simp: state_typed_def)

lemma stack_typed: "state_typed room depth bottom (h, b) stk s \<Longrightarrow> length stk' = h' \<Longrightarrow> h' \<le> depth \<Longrightarrow> state_typed room depth bottom (h', b) stk' s"
  by (simp add: state_typed_def)

lemma push_result_typed:
  assumes "state_typed room depth bottom (h, b) stk s" and "\<And>v. fst r = Inr v \<Longrightarrow> keeps s (snd r)" and "h < depth"
  shows "outcome_typed room depth bottom [(j, h + 1, b)] (push_result depth (int j) stk r)"
proof (cases "fst r")
  case (Inr v)
  then have "state_typed room depth bottom (h, b) stk (snd r)" using keeps_typed assms(1,2) by blast
  then show ?thesis using Inr assms(3) by (auto simp: push_result_def outcome_typed_def state_typed_def)
qed (simp add: push_result_def outcome_typed_def)

lemma apply_values_typed:
  assumes "state_typed room depth bottom (h, b) stk s" and "\<And>args v s'. f args s = (Inr v, s') \<Longrightarrow> keeps s s'" and "n \<le> h" and "h - n < depth"
  shows "outcome_typed room depth bottom [(j, h - n + 1, b)] (apply_values depth (int j) n f stk s)"
proof -
  have "state_typed room depth bottom (h - n, b) (drop n stk) s" using assms(1,4) by (auto simp: state_typed_def)
  moreover have "\<not> length stk < n" using assms(1,3) by (simp add: state_typed_def)
  moreover have "keeps s (snd (f (rev (take n stk)) s))" if "fst (f (rev (take n stk)) s) = Inr v" for v
    using assms(2) that by (metis prod.collapse)
  ultimately have "outcome_typed room depth bottom [(j, h - n + 1, b)] (push_result depth (int j) (drop n stk) (f (rev (take n stk)) s))"
    using assms(4) by (intro push_result_typed)
  then show ?thesis using \<open>\<not> length stk < n\<close> by (simp add: apply_values_def)
qed

lemma after_effect_typed:
  assumes "\<And>s'. r = (None, s') \<Longrightarrow> state_typed room depth bottom t stk s'" and "(j, t) \<in> set succs"
  shows "outcome_typed room depth bottom succs (after_effect (int j) stk r)"
  using assms by (cases t, cases r) (auto simp: after_effect_def outcome_typed_def split: option.splits)

lemma exec_unbind_typed:
  assumes "balanced_ops ops" and "state_typed room depth bottom (h, b) stk s" and "b' \<le> b" and "c = int (length bottom + b')"
  shows "outcome_typed room depth bottom [(j, h, b')] (exec_unbind ops (int j) c stk s)"
proof -
  obtain es where es: "specpdl s = es @ bottom" "length es = b" using assms(2) by (auto simp: state_typed_def)
  define rest where "rest = drop (b - b') es @ bottom"
  have split: "specpdl s = take (b - b') es @ rest" using es by (simp add: rest_def)
  have len: "length rest = length bottom + b'" using es assms(3) by (simp add: rest_def)
  have c: "\<not> c < 0" "\<not> int (specpdl_depth s) < c" "nat c = length rest" using assms(3,4) es len by (simp_all add: specpdl_depth_def)
  have "outcome_typed room depth bottom [(j, h, b')] (after_effect (int j) stk r)" if "unbind_to (vops ops) (nat c) s = Some r" for r
  proof (rule after_effect_typed)
    fix s' assume "r = (None, s')"
    then have "specpdl s' = rest \<and> specpdl_size s \<le> specpdl_size s'" using unbind_to_balanced [OF assms(1) split] that c(3) by simp
    then show "state_typed room depth bottom (h, b') stk s'" using assms(2) es assms(3) by (auto simp: state_typed_def rest_def)
  qed simp
  then show ?thesis using c(1,2) by (auto simp: exec_unbind_def outcome_typed_def split: option.splits)
qed

lemma record_unwind_protect_typed:
  assumes "state_typed room depth bottom (h, b) stk s" and "record_unwind_protect f arg s = (None, s')"
  shows "state_typed room depth bottom (h, Suc b) stk s'"
proof -
  obtain s1 where s1: "SPECPDL_RESERVE 1 s = (None, s1)" "s' = push_binding \<lparr>symbol = 0, old_value = arg, func = f\<rparr> s1"
    using assms(2) by (auto simp: record_unwind_protect_def and_then_def split: prod.splits option.splits)
  then show ?thesis using reserve_grows [OF s1(1)] by (intro pushed_typed [OF assms(1)]) (auto simp: push_binding_def)
qed

section \<open>Progress and preservation\<close>

lemma opcode_value_keeps:
  assumes "balanced_ops ops" and "opcode \<noteq> 144" and "opcode_value ops opcode args s = (Inr v, s')"
  shows "keeps s s'"
proof -
  note B = balancedD [OF assms(1)]
  have A: "keeps t t'" if "bytecode_arithop ops a b c t = (Inr w, t')" for a b c t w t'
    using that B(6) by (auto simp: bytecode_arithop_def split: option.splits if_splits)
  have N: "keeps t t'" if "bytecode_negate ops a t = (Inr w, t')" for a t w t'
    using that B(6) by (auto simp: bytecode_negate_def split: option.splits)
  have "keeps s (snd (opcode_value ops opcode args s)) \<or> opcode_value ops opcode args s = prim ops opcode args s \<or>
      (\<exists>a b. opcode_value ops opcode args s = bytecode_arithop ops a b opcode s) \<or> (\<exists>a. opcode_value ops opcode args s = bytecode_negate ops a s)"
    unfolding opcode_value_def Let_def by (auto simp: case_prod_beta split: sum.split)
  then show ?thesis using assms(2,3) A N B(3) by (metis snd_conv)
qed

lemma next_typed: "state_typed room depth bottom t stk s \<Longrightarrow> (j, t) \<in> set succs \<Longrightarrow> outcome_typed room depth bottom succs (Continue (int j) stk s)"
  by (cases t) (auto simp: outcome_typed_def)

lemma Exit_typed [simp]: "outcome_typed room depth bottom succs (Exit e s)"
  by (simp add: outcome_typed_def)

lemma protect_typed:
  assumes "balanced_ops ops" and "state_typed room depth bottom (h, b) stk s" and "record_unwind_protect (Unwind f) arg (snd (save_state ops c s)) = (None, s')"
  shows "state_typed room depth bottom (h, Suc b) stk s'"
  using record_unwind_protect_typed [OF keeps_typed [OF balancedD(5) [OF assms(1)] assms(2)] assms(3)] .

lemma save_window_excursion_typed:
  assumes "balanced_ops ops" and "state_typed room depth bottom (h, b) (v # rest) s"
  shows "outcome_typed room depth bottom [(j, h, b)]
    (case save_state ops 139 s of ((f, arg), s1) \<Rightarrow>
       (case record_unwind_protect (Unwind f) arg s1 of
          (Some e, s2) \<Rightarrow> Exit e s2
        | (None, s2) \<Rightarrow>
            (case prim ops 139 [v] s2 of
               (Inl e, s3) \<Rightarrow> Exit e s3
             | (Inr w, s3) \<Rightarrow> exec_unbind ops (int j) (int (specpdl_depth s)) (w # rest) s3)))"
proof -
  have "outcome_typed room depth bottom [(j, h, b)] (exec_unbind ops (int j) (int (specpdl_depth s)) (w # rest) s3)"
    if s2: "record_unwind_protect (Unwind f) arg (snd (save_state ops 139 s)) = (None, s2)" and s3: "prim ops 139 [v] s2 = (Inr w, s3)" for f arg s2 w s3
  proof -
    have "state_typed room depth bottom (h, Suc b) (v # rest) s3"
      using keeps_typed [OF balancedD(3) [OF assms(1) _ s3] protect_typed [OF assms s2]] by simp
    then have "state_typed room depth bottom (h, Suc b) (w # rest) s3" by (simp add: state_typed_def)
    then show ?thesis using assms(2) by (intro exec_unbind_typed [OF assms(1), where b = "Suc b"]) (auto simp: state_typed_def specpdl_depth_def)
  qed
  then show ?thesis by (simp add: case_prod_beta split: option.split sum.split) (metis prod.collapse)
qed

lemma temp_output_setup_typed:
  assumes "balanced_ops ops" and "state_typed room depth bottom (h, b) (v # rest) s"
  shows "outcome_typed room depth bottom [(j, h, Suc b)] (apply_values depth (int j) 1 (prim ops 144) (v # rest) s)"
proof (cases "prim ops 144 [v] s")
  case (Pair r s')
  show ?thesis
  proof (cases r)
    case (Inl e)
    then show ?thesis using Pair by (simp add: apply_values_def push_result_def)
  next
    case (Inr w)
    then obtain e where "specpdl s' = e # specpdl s" "specpdl_size s \<le> specpdl_size s'" using balancedD(4) [OF assms(1)] Pair by blast
    then have "state_typed room depth bottom (h, Suc b) (v # rest) s'" by (rule pushed_typed [OF assms(2)])
    then have "state_typed room depth bottom (h, Suc b) (w # rest) s'" "length rest < depth" by (auto simp: state_typed_def)
    moreover from this(1) have "outcome_typed room depth bottom [(j, h, Suc b)] (Continue (int j) (w # rest) s')" by (rule next_typed) simp
    ultimately show ?thesis using Inr Pair by (simp add: apply_values_def push_result_def)
  qed
qed

lemma temp_output_show_typed:
  assumes "balanced_ops ops" and "state_typed room depth bottom (h, b) (v # buf # rest) s" and "1 \<le> b"
  shows "outcome_typed room depth bottom [(j, h - 1, b - 1)]
    (case prim ops 145 [buf] s of
       (Inl e, s1) \<Rightarrow> Exit e s1
     | (Inr _, s1) \<Rightarrow> exec_unbind ops (int j) (int (specpdl_depth s1) - 1) (v # rest) s1)"
proof (cases "prim ops 145 [buf] s")
  case (Pair r s')
  show ?thesis
  proof (cases r)
    case (Inr w)
    then have "state_typed room depth bottom (h, b) (v # buf # rest) s'" using keeps_typed [OF balancedD(3) [OF assms(1), of 145 "[buf]" s w s'] assms(2)] Pair by simp
    then have t: "state_typed room depth bottom (h - 1, b) (v # rest) s'" by (auto simp: state_typed_def)
    then have "int (specpdl_depth s') - 1 = int (length bottom + (b - 1))" using assms(3) by (auto simp: state_typed_def specpdl_depth_def)
    then show ?thesis using exec_unbind_typed [OF assms(1) t] Inr Pair by simp
  qed (use Pair in simp)
qed

lemma exec_plain_typed:
  assumes "balanced_ops ops" and "state_typed room depth bottom (h, b) stk s" and "plain_flow depth opcode j h b = Some succs" and "count = length bottom"
  shows "outcome_typed room depth bottom succs (exec_plain ops depth count opcode (int j) stk s)"
proof (cases "operands opcode")
  case (Some n)
  then have "n \<le> h" "h - n < depth" "succs = [(j, h - n + 1, b)]" using assms(3) by (auto simp: plain_flow_def split: if_splits)
  moreover have "opcode \<noteq> 144" using Some by (auto simp: operands_def)
  ultimately have "outcome_typed room depth bottom succs (apply_values depth (int j) n (opcode_value ops opcode) stk s)"
    by (simp only:, intro apply_values_typed [OF assms(2)]) (blast intro: opcode_value_keeps [OF assms(1)])+
  then show ?thesis using Some by (simp add: exec_plain_def)
next
  case None
  note F = assms(3) [unfolded plain_flow_def None option.case]
  show ?thesis
  proof (cases "opcode \<in> {114, 138, 140} \<or> opcode = 146")
    case True
    then show ?thesis
    proof
      assume op: "opcode \<in> {114, 138, 140}"
      then have "succs = [(j, h, b + 1)]" using F by simp
      then show ?thesis using op None protect_typed [OF assms(1,2)] by (auto simp: exec_plain_def case_prod_beta intro!: after_effect_typed)
    next
      assume op: "opcode = 146"
      then have "succs = [(j, h, 0)]" using F by simp
      then show ?thesis using op None exec_unbind_typed [OF assms(1,2), of 0] assms(4) by (simp add: exec_plain_def)
    qed
  next
    case False
    then have h: "0 < h" and F: "plain_flow depth opcode j h b = Some succs" "opcode \<notin> {114, 138, 140}" "opcode \<noteq> 146" using F assms(3) by (auto split: if_splits)
    note F = F(1) [unfolded plain_flow_def None option.case if_not_P [OF F(2)] if_not_P [OF F(3)]]
    from h obtain v rest where stk: "stk = v # rest" using assms(2) by (cases stk) (simp_all add: state_typed_def)
    have rest: "state_typed room depth bottom (h - 1, b) rest s" using assms(2) stk h by (auto simp: state_typed_def)
    consider "opcode = 135" | "opcode = 136" | "opcode = 137" | "opcode = 139" | "opcode = 142" | "opcode = 144" | "opcode = 145"
      using F by (auto split: if_splits)
    then show ?thesis
    proof cases
      case 1
      then have "b = 0" using F h by (simp split: if_splits)
      then show ?thesis using 1 None stk assms(2) by (simp add: exec_plain_def outcome_typed_def state_typed_def)
    next
      case 2
      then have "(j, h - 1, b) \<in> set succs" using F h by auto
      then show ?thesis using 2 None stk next_typed [OF rest] by (simp add: exec_plain_def)
    next
      case 3
      then have "h < depth" "succs = [(j, h + 1, b)]" using F h by (simp_all split: if_splits)
      then have "outcome_typed room depth bottom succs (push_result depth (int j) stk (Inr v, s))" using push_result_typed [OF assms(2)] by simp
      then show ?thesis using 3 None stk by (simp add: exec_plain_def)
    next
      case 4
      then have "succs = [(j, h, b)]" using F h by simp
      then show ?thesis using 4 None save_window_excursion_typed [OF assms(1) assms(2) [unfolded stk]] stk by (simp add: exec_plain_def)
    next
      case 5
      then have "succs = [(j, h - 1, Suc b)]" using F h by simp
      then show ?thesis using 5 None stk record_unwind_protect_typed [OF rest] by (auto simp: exec_plain_def intro!: after_effect_typed)
    next
      case 6
      then have "succs = [(j, h, Suc b)]" using F h by simp
      then show ?thesis using 6 None stk temp_output_setup_typed [OF assms(1) assms(2) [unfolded stk]] by (simp add: exec_plain_def)
    next
      case 7
      then have hb: "2 \<le> h" "1 \<le> b" "succs = [(j, h - 1, b - 1)]" using F h by (simp_all split: if_splits)
      then obtain buf rest' where rest': "rest = buf # rest'" using stk assms(2) by (cases rest) (simp_all add: state_typed_def)
      then show ?thesis using 7 None stk hb(3) temp_output_show_typed [OF assms(1) assms(2) [unfolded stk rest'] hb(2)] by (simp add: exec_plain_def)
    qed
  qed
qed

lemma JUMP_RELATIVE_typed:
  assumes "balanced_ops ops" and "state_typed room depth bottom t stk s" and "0 \<le> target" and "(nat target, t) \<in> set succs"
  shows "outcome_typed room depth bottom succs (JUMP_RELATIVE ops pc target stk s)"
proof (cases "target \<le> pc")
  case True
  have "outcome_typed room depth bottom succs (after_effect (int (nat target)) stk (QUIT ops s))"
    using keeps_typed [OF balancedD(7) [OF assms(1)] assms(2)] by (intro after_effect_typed [OF _ assms(4)]) blast
  then show ?thesis using True assms(3) by (simp add: JUMP_RELATIVE_def)
next
  case False
  then show ?thesis using next_typed [OF assms(2,4)] assms(3) by (simp add: JUMP_RELATIVE_def)
qed

lemma exec_jump_typed:
  assumes "balanced_ops ops" and t: "state_typed room depth bottom (h, b) stk s" and "0 \<le> target" and "flow room depth (Jump kind target) j h b = Some succs"
  shows "outcome_typed room depth bottom succs (exec_jump ops kind pc target (int j) stk s)"
proof (cases "kind = 0")
  case True
  then have "(nat target, h, b) \<in> set succs" using assms(4) by (auto simp: flow_def)
  then show ?thesis using True JUMP_RELATIVE_typed [OF assms(1) t assms(3)] by (simp add: exec_jump_def)
next
  case False
  then have h: "0 < h" and succs: "succs = [(nat target, if kind \<ge> 3 then h else h - 1, b), (j, h - 1, b)]" using assms(4) by (auto simp: flow_def split: if_splits)
  obtain v rest where stk: "stk = v # rest" using h t by (cases stk) (simp_all add: state_typed_def)
  have rest: "state_typed room depth bottom (h - 1, b) rest s" using t stk h by (auto simp: state_typed_def)
  have "outcome_typed room depth bottom succs (JUMP_RELATIVE ops pc target (if kind \<ge> 3 then stk else rest) s)"
    by (rule JUMP_RELATIVE_typed [OF assms(1) _ assms(3), where t = "(if kind \<ge> 3 then h else h - 1, b)"]) (use t rest succs in auto)
  moreover have "outcome_typed room depth bottom succs (Continue (int j) rest s)" using next_typed [OF rest] succs by simp
  ultimately show ?thesis using False by (simp only: exec_jump_def Let_def stk list.case if_False split: if_split) blast
qed

lemma SPECBIND_pushed:
  assumes "balanced_ops ops" and "SPECBIND_FAST_UNSAFE (vops ops) y v s = (None, s')"
  shows "\<exists>e. specpdl s' = e # specpdl s \<and> specpdl_size s \<le> specpdl_size s'"
proof (cases "SYMBOL_VALUE_MAGIC_P (sym_value s y) \<and> \<not> UNBOUNDP (sym_value s y)")
  case True
  then have "specbind_magic (vops ops) y v s = (None, s')" using assms(2) by (simp add: SPECBIND_FAST_UNSAFE_def)
  then show ?thesis using Fset_keeps [OF assms(1)]
    by (fastforce simp: specbind_magic_def push_binding_def Let_def keeps_def case_prod_beta split: if_splits)
next
  case False
  then show ?thesis using assms(2) by (auto simp: SPECBIND_FAST_UNSAFE_def set_value_def push_binding_def)
qed

lemma SPECBIND_typed:
  assumes "balanced_ops ops" and "state_typed room depth bottom (h, b) stk s" and "SPECBIND_FAST_UNSAFE (vops ops) y v s = (None, s')"
  shows "state_typed room depth bottom (h, Suc b) stk s'"
  using SPECBIND_pushed [OF assms(1,3)] pushed_typed [OF assms(2)] by blast

lemma exec_insn_typed:
  assumes "balanced_ops ops" and t: "state_typed room depth bottom (h, b) stk s" and flow: "flow room depth (checked kw constants x) j h b = Some succs"
    and ok: "insn_ok kw constants starts (i, x, j)" and "count = length bottom" and "\<And>opcode n. x = Counted opcode n \<Longrightarrow> opcode \<noteq> 144"
  shows "outcome_typed room depth bottom succs (exec_insn ops depth constants count pc (checked kw constants x) (int j) stk s)"
proof -
  note B = balancedD [OF assms(1)]
  have plain: "outcome_typed room depth bottom succs (exec_insn ops depth constants count pc (Plain opcode) (int j) stk s)"
    if "flow room depth (Plain opcode) j h b = Some succs" for opcode
    using exec_plain_typed [OF assms(1) t _ assms(5)] that by (simp add: flow_def exec_insn_def)
  show ?thesis
  proof (cases x)
    case (Varref n)
    then obtain y where y: "n < length constants" "constants ! n = Lisp_Symbol y" using ok by (auto simp: insn_ok_def SYMBOLP_def split: lisp_object.splits)
    have f: "h < depth" "succs = [(j, h + 1, b)]" using flow Varref by (auto simp: flow_def checked_def split: if_splits)
    have "outcome_typed room depth bottom succs
        (push_result depth (int j) stk (if SYMBOL_VALUE_MAGIC_P (sym_value s y) then Fsymbol_value ops y s else (Inr (sym_value s y), s)))"
      unfolding f(2) using B(1) [of y s] by (intro push_result_typed [OF t _ f(1)]) (metis keeps_refl prod.collapse snd_conv)
    then show ?thesis using Varref y by (simp add: checked_def exec_insn_def)
  next
    case (Varset n)
    then obtain y where y: "n < length constants" "constants ! n = Lisp_Symbol y" using ok by (auto simp: insn_ok_def SYMBOLP_def split: lisp_object.splits)
    show ?thesis
    proof (cases "kw (constants ! n)")
      case True
      then have x: "checked kw constants x = Plain Bdiscard" using Varset by (simp add: checked_def)
      show ?thesis using plain flow unfolding x by blast
    next
      case False
      then have x: "checked kw constants x = Varset n" using Varset by (simp add: checked_def)
      have f: "0 < h" "succs = [(j, h - 1, b)]" using flow by (auto simp: flow_def x split: if_splits)
      then obtain v rest where stk: "stk = v # rest" using t by (cases stk) (simp_all add: state_typed_def)
      have rest: "state_typed room depth bottom (h - 1, b) rest s" using t stk f(1) by (auto simp: state_typed_def)
      have "outcome_typed room depth bottom succs (after_effect (int j) rest (Fset (vops ops) y v s))"
        using keeps_typed [OF Fset_keeps [OF assms(1)] rest] f(2) by (intro after_effect_typed [where t = "(h - 1, b)"]) auto
      then show ?thesis using x y stk by (simp add: exec_insn_def)
    qed
  next
    case (Varbind n)
    then obtain y where y: "n < length constants" "constants ! n = Lisp_Symbol y" using ok by (auto simp: insn_ok_def SYMBOLP_def split: lisp_object.splits)
    have f: "0 < h" "b < room" "succs = [(j, h - 1, Suc b)]" using flow Varbind by (auto simp: flow_def checked_def split: if_splits)
    then obtain v rest where stk: "stk = v # rest" using t by (cases stk) (simp_all add: state_typed_def)
    have rest: "state_typed room depth bottom (h - 1, b) rest s" using t stk f(1) by (auto simp: state_typed_def)
    have "int (specpdl_depth s) < specpdl_size s" using t f(2) by (auto simp: state_typed_def specpdl_depth_def)
    moreover have "outcome_typed room depth bottom succs (after_effect (int j) rest (SPECBIND_FAST_UNSAFE (vops ops) y v s))"
      using SPECBIND_typed [OF assms(1) rest] f(3) by (intro after_effect_typed [where t = "(h - 1, Suc b)"]) auto
    ultimately show ?thesis using Varbind y stk by (simp add: checked_def exec_insn_def)
  next
    case (Call n)
    then have f: "n + 1 \<le> h" "h - (n + 1) < depth" "succs = [(j, h - (n + 1) + 1, b)]" using flow t
      by (auto simp: flow_def checked_def state_typed_def Suc_diff_Suc split: if_splits)
    have "outcome_typed room depth bottom succs (apply_values depth (int j) (n + 1) (Ffuncall ops) stk s)"
      unfolding f(3) by (rule apply_values_typed [OF t B(2) f(1,2)])
    then show ?thesis using Call by (simp add: checked_def exec_insn_def)
  next
    case (Unbind n)
    then have f: "n \<le> b" "succs = [(j, h, b - n)]" using flow by (auto simp: flow_def checked_def split: if_splits)
    have "int (specpdl_depth s) - int n = int (length bottom + (b - n))" using t f(1) by (auto simp: state_typed_def specpdl_depth_def)
    then have "outcome_typed room depth bottom succs (exec_unbind ops (int j) (int (specpdl_depth s) - int n) stk s)"
      unfolding f(2) by (intro exec_unbind_typed [OF assms(1) t]) simp_all
    then show ?thesis using Unbind by (simp add: checked_def exec_insn_def)
  next
    case (Jump k target)
    then have "0 \<le> target" using ok by (simp add: insn_ok_def)
    then show ?thesis using exec_jump_typed [OF assms(1) t] flow Jump by (simp add: checked_def exec_insn_def)
  next
    case (Constant n)
    then have f: "n < length constants" "h < depth" "succs = [(j, h + 1, b)]" using flow ok by (auto simp: flow_def checked_def insn_ok_def split: if_splits)
    have "outcome_typed room depth bottom succs (push_result depth (int j) stk (Inr (constants ! n), s))"
      unfolding f(3) by (rule push_result_typed [OF t _ f(2)]) simp
    then show ?thesis using Constant f(1) by (simp add: checked_def exec_insn_def)
  next
    case (Counted opcode n)
    then have f: "opcode = BlistN \<longrightarrow> 0 < n" "n \<le> h" "h - n < depth" "succs = [(j, h - n + 1, b)]"
      using flow by (auto simp: flow_def checked_def split: if_splits)
    have list: "outcome_typed room depth bottom succs (apply_values depth (int j) n (\<lambda>args s. let (v, h) = list_objects args (heap s) in (Inr v, s\<lparr>heap := h\<rparr>)) stk s)"
      unfolding f(4) by (rule apply_values_typed [OF t _ f(2,3)]) (auto simp: case_prod_beta)
    have "outcome_typed room depth bottom succs (apply_values depth (int j) n (prim ops opcode) stk s)"
      unfolding f(4) using B(3) assms(6) [OF Counted] by (intro apply_values_typed [OF t _ f(2,3)]) blast
    then show ?thesis using Counted f(1) list by (auto simp: checked_def exec_insn_def)
  next
    case (Plain opcode)
    then show ?thesis using plain flow by (simp add: checked_def)
  qed
qed

section \<open>Runs\<close>

lemma decode_counted: "decode opt xs i = Some (Counted opcode n, j) \<Longrightarrow> opcode \<noteq> 144"
  by (auto simp: decode_def decode1_def nargs_insn_def split: list.splits if_splits)

lemma typed_step:
  assumes "balanced_ops ops" and L: "parse xs 0 = Some L" "list_all (insn_ok kw constants (map fst L)) L" and ty: "list_all (insn_typed kw constants room depth H L) L"
    and fetch: "fetch_source kw constants xs i = Some (x, j)" and i: "i \<in> fst ` set L" and H: "map_of H i = Some t" and t: "state_typed room depth bottom t stk s"
  shows "\<exists>succs. outcome_typed room depth bottom succs (exec_insn ops depth constants (length bottom) pc x (int j) stk s) \<and>
    (\<forall>(p, t') \<in> set succs. p \<in> fst ` set L \<and> map_of H p = Some t')"
proof -
  obtain h b where hb: "t = (h, b)" by (cases t)
  obtain x0 j0 where e: "(i, x0, j0) \<in> set L" using i by auto
  then have d: "decode False xs i = Some (x0, j0)" using parse_decode [OF L(1)] by simp
  then have x: "x = checked kw constants x0" "j = j0" using fetch by (simp_all add: fetch_source_def)
  have "insn_typed kw constants room depth H L (i, x0, j0)" using ty e by (auto simp: list_all_iff)
  then obtain succs where succs: "flow room depth (checked kw constants x0) j h b = Some succs" "\<forall>(p, t') \<in> set succs. p \<in> fst ` set L \<and> map_of H p = Some t'"
    using H x(2) by (auto simp: insn_typed_def hb list_all_iff split: option.splits)
  have "insn_ok kw constants (map fst L) (i, x0, j)" using L(2) e x(2) by (auto simp: list_all_iff)
  moreover have "opcode \<noteq> 144" if "x0 = Counted opcode n" for opcode n using d decode_counted unfolding that by blast
  ultimately have "outcome_typed room depth bottom succs (exec_insn ops depth constants (length bottom) pc x (int j) stk s)"
    unfolding x(1) by (intro exec_insn_typed [OF assms(1) t [unfolded hb] succs(1)]) simp_all
  then show ?thesis using succs(2) by blast
qed

lemma run_typed:
  assumes bal: "balanced_ops ops" and L: "parse xs 0 = Some L" "list_all (insn_ok kw constants (map fst L)) L" and ty: "list_all (insn_typed kw constants room depth H L) L"
    and "bc_run (fetch_source kw constants xs) ops depth constants (length bottom) pc stk s = Some r"
  shows "0 \<le> pc \<Longrightarrow> nat pc \<in> fst ` set L \<Longrightarrow> map_of H (nat pc) = Some t \<Longrightarrow> state_typed room depth bottom t stk s \<Longrightarrow>
    r \<noteq> Crash \<and> (\<forall>v s'. r = Return v s' \<longrightarrow> specpdl s' = bottom)"
  using assms(5)
proof (induction arbitrary: t rule: bc_run_induct)
  case (none pc stk s)
  obtain x j where "(nat pc, x, j) \<in> set L" using none.prems(2) by auto
  then have "decode False xs (nat pc) = Some (x, j)" using parse_decode [OF L(1)] by simp
  then show ?case using none by (simp add: fetch_source_def)
next
  case (final pc x j stk s r)
  from typed_step [OF bal L ty final(2) final.prems(2,3,4), of pc] final(3) obtain succs where "outcome_typed room depth bottom succs r" by blast
  then show ?case by (auto simp: outcome_typed_def)
next
  case (step pc x j stk s pc' stk' s' r)
  from typed_step [OF bal L ty step(2) step.prems(2,3,4), of pc] step(3) obtain p t'
    where "pc' = int p" "p \<in> fst ` set L" "map_of H p = Some t'" "state_typed room depth bottom t' stk' s'"
    by (fastforce simp: outcome_typed_def)
  then show ?case using step.IH [of t'] by simp
qed

lemma execute_typed:
  assumes "well_formed_code (keyword (vops ops)) constants xs" and "code_typed (keyword (vops ops)) constants depth H (the (parse xs 0))" and "balanced_ops ops"
    and room: "int (specpdl_depth s + length (filter (is_varbind \<circ> fst \<circ> snd) (the (parse xs 0)))) \<le> specpdl_size s"
    and run: "execute_source ops xs depth constants s = Some r"
  shows "r \<noteq> Crash \<and> (\<forall>v s'. r = Return v s' \<longrightarrow> specpdl s' = specpdl s)"
proof -
  define n where "n = length (filter (is_varbind \<circ> fst \<circ> snd) (the (parse xs 0)))"
  obtain L where L: "parse xs 0 = Some L" "list_all (insn_ok (keyword (vops ops)) constants (map fst L)) L" using well_formed_parse [OF assms(1)] by metis
  have "bc_run (fetch_source (keyword (vops ops)) constants xs) ops depth constants (length (specpdl s)) 0 [] s = Some r"
    using run by (simp add: execute_source_def specpdl_depth_def)
  moreover have "state_typed n depth (specpdl s) (0, 0) [] s" using room by (simp add: state_typed_def specpdl_depth_def n_def)
  moreover have "0 \<in> fst ` set L" using assms(2) L(1) parse_index [OF L(1)] by (cases L) (auto simp: code_typed_def)
  ultimately show ?thesis using run_typed [OF assms(3) L, of n depth H "specpdl s" 0 "[]" s r "(0, 0)"] assms(2) L(1)
    by (simp add: code_typed_def n_def)
qed

text \<open>
  Property C15: typed byte code is safe. When the instructions are well-formed and have types for the stack
  depth that is passed, and what the interpreter calls leaves the binding stack as it was, then \<open>byte-code\<close>
  does not pop from an empty stack, push on a full one, run off the program, leave the constants or write
  past the end of the binding stack; and when it returns the binding stack is as it was before.
\<close>

theorem Fbyte_code_typed_safe:
  assumes "well_formed_code (keyword (vops ops)) constants xs" and "length xs \<le> 21845"
    and "code_typed (keyword (vops ops)) constants depth H (the (parse xs 0))" and "balanced_ops ops" and "specpdl_ok s"
    and "Fbyte_code ops xs constants depth s = Some r"
  shows "r \<noteq> Crash \<and> (\<forall>v s'. r = Return v s' \<longrightarrow> specpdl s' = specpdl s)"
proof -
  let ?n = "length (filter (is_varbind \<circ> fst \<circ> snd) (the (parse xs 0)))"
  obtain e s1 where s1: "SPECPDL_RESERVE (int ?n) s = (e, s1)" by fastforce
  have run: "Some r = (case e of Some e \<Rightarrow> Some (Exit e s1) | None \<Rightarrow> execute_source ops xs depth constants s1)"
    using Fbyte_code_source [OF assms(1,2), of depth s] assms(6) s1 by (simp split: option.splits)
  show ?thesis
  proof (cases e)
    case None
    note R = reserve_room [OF assms(5) _ s1 [unfolded None]]
    show ?thesis using execute_typed [OF assms(1,3,4), of s1 r] run R None by (simp add: specpdl_depth_def)
  qed (use run in simp)
qed

section \<open>Room that is used up\<close>

text \<open>The body of \<open>(save-excursion (let ((x t)) ...))\<close>.\<close>

definition overrun_code :: "int list" where
  "overrun_code = [138, 193, 24, 42, 193, 135]"

text \<open>
  Property C39: the room that is reserved for variables can be used up by an entry for unwinding. Code that
  saves the excursion and then binds one variable writes past the end of the binding stack when the stack
  has room for just one entry: \<open>SPECPDL_RESERVE\<close> is content with that twice.
\<close>

theorem reserved_room_overrun:
  assumes "int (specpdl_depth s) + 1 = specpdl_size s" and "specpdl_size s < max_specpdl_size s"
    and "\<And>t. snd (save_state ops 138 t) = t" and "\<not> keyword (vops ops) (Lisp_Symbol 9)"
  shows "Fbyte_code ops overrun_code sample_constants 1 s = Some Crash"
proof -
  have parse: "parse overrun_code 0 = Some [(0, Plain 138, 1), (1, Constant 1, 2), (2, Varbind 0, 3), (3, Unbind 2, 4), (4, Constant 1, 5), (5, Plain 135, 6)]"
    by (simp add: overrun_code_def parse.simps decode_def decode1_def nargs_insn_def uint16_def)
  have wf: "well_formed_code (keyword (vops ops)) sample_constants overrun_code"
    unfolding well_formed_code_def parse using assms(4)
    by (simp add: overrun_code_def sample_constants_def insn_ok_def SYMBOLP_def valid_opcode_def)
  have reserve: "SPECPDL_RESERVE 1 s = (None, s)"
    using assms(1,2) by (cases s) (simp add: SPECPDL_RESERVE_def grow_specpdl_def specpdl_depth_def grow_size.simps)
  obtain f arg where save: "save_state ops 138 s = ((f, arg), s)" using assms(3) [of s] by (metis prod.collapse)
  have "execute_source ops overrun_code 1 sample_constants s = Some Crash"
    using reserve save assms(1) unfolding execute_source_def
    by (simp add: bc_run.simps fetch_source_def overrun_code_def decode_def decode1_def nargs_insn_def checked_def exec_insn_def sample_constants_def
        push_result_def exec_plain_def operands_def record_unwind_protect_def and_then_def after_effect_def push_binding_def specpdl_depth_def)
  then show ?thesis using Fbyte_code_source [OF wf, of 1 s] reserve unfolding parse by (simp add: overrun_code_def is_varbind_def)
qed

section \<open>Examples\<close>

definition quiet_ops :: "unit bc_ops" where
  "quiet_ops = plain_bc_ops\<lparr>prim := (\<lambda>opcode args s. if opcode = 144 then (Inl (Error_string []), s) else (Inr Qnil, s))\<rparr>"

lemma quiet_ops_balanced: "balanced_ops quiet_ops"
  by (simp add: quiet_ops_def balanced_ops_def plain_bc_ops_def plain_ops_def value_balanced_def effect_balanced_def)

definition sample_types :: "(nat \<times> nat \<times> nat) list" where
  "sample_types = [(0, 0, 0), (1, 1, 0), (4, 0, 0), (5, 1, 0), (6, 0, 0), (7, 1, 0)]"

lemma sample_code_typed: "code_typed kw sample_constants 1 sample_types (the (parse sample_code 0))"
  by (simp add: sample_types_def sample_code_parse code_typed_def insn_typed_def flow_def plain_flow_def checked_def operands_def is_varbind_def)

lemma sample_code_run:
  assumes "sym_value s 9 = Qnil"
  shows "execute_source quiet_ops sample_code 1 sample_constants s = Some (Return Qt s)"
  using assms unfolding execute_source_def quiet_ops_def
  by (simp add: bc_run.simps fetch_source_def sample_code_def decode_def decode1_def nargs_insn_def uint16_def checked_def exec_insn_def sample_constants_def
      push_result_def exec_jump_def JUMP_RELATIVE_def exec_plain_def operands_def SYMBOL_VALUE_MAGIC_P_def)

theorem Fbyte_code_typed_safe_witness:
  "\<exists>r. Fbyte_code quiet_ops sample_code sample_constants 1 start_state = Some r \<and> r \<noteq> Crash"
proof -
  have wf: "well_formed_code (keyword (vops quiet_ops)) sample_constants sample_code" using sample_code_ok_ops by (simp add: quiet_ops_def)
  have len: "length sample_code \<le> 21845" by (simp add: sample_code_def)
  have ok: "specpdl_ok start_state" by (simp add: specpdl_ok_def specpdl_depth_def start_state_def)
  have "SPECPDL_RESERVE 0 start_state = (None, start_state)" by (simp add: SPECPDL_RESERVE_def specpdl_depth_def start_state_def)
  then have "Fbyte_code quiet_ops sample_code sample_constants 1 start_state = Some (Return Qt start_state)"
    using Fbyte_code_source [OF wf len, of 1 start_state] sample_code_run [of start_state] by (simp add: sample_code_parse is_varbind_def start_state_def)
  from Fbyte_code_typed_safe [OF wf len sample_code_typed quiet_ops_balanced ok this] this show ?thesis by blast
qed

theorem reserved_room_overrun_witness:
  "Fbyte_code plain_bc_ops overrun_code sample_constants 1 (start_state\<lparr>specpdl := replicate 49 \<lparr>symbol = 9, old_value = Qnil, func = No_func\<rparr>\<rparr>) = Some Crash"
  by (rule reserved_room_overrun) (simp_all add: start_state_def specpdl_depth_def plain_bc_ops_def plain_ops_def)

end
