(* ===== verification/ByteFun.thy ===== *)
theory ByteFun
  imports ByteTypes
begin

text \<open>
  Compiled functions: how they are made, optimized when they are called first, and called. A call binds
  the variables of the argument list to the arguments, runs the code and takes the bindings off again.
\<close>

section \<open>Functions\<close>

text \<open>The instructions are a string, or an optimized program in an opaque object.\<close>

datatype instructions = Byte_string "int list" | Opaque "int list"

record compiled_function =
  stack_depth :: nat
  specpdl_depth_of :: nat
  instructions :: instructions
  constants :: "lisp_object list"
  arglist :: "lisp_object list"

abbreviation "Qand_optional \<equiv> Lisp_Symbol 40"
abbreviation "Qand_rest \<equiv> Lisp_Symbol 41"

text \<open>
  \<open>make-byte-code\<close> checks the argument list, which is given by its elements, and keeps sixteen bits of the
  stack depth.
\<close>

fun check_arglist :: "(lisp_object \<Rightarrow> bool) \<Rightarrow> lisp_object list \<Rightarrow> lisp_error option" where
  "check_arglist kw [] = None"
| "check_arglist kw (x # xs) =
     (if \<not> SYMBOLP x then Some (Wrong_type_argument ''symbolp'' x)
      else if x = Qt \<or> x = Qnil \<or> kw x then Some (Simple_error ''Invalid constant symbol in formal parameter list'' [x])
      else check_arglist kw xs)"

definition Fmake_byte_code :: "(lisp_object \<Rightarrow> bool) \<Rightarrow> lisp_object list \<Rightarrow> int list \<Rightarrow> lisp_object list \<Rightarrow> lisp_object \<Rightarrow> lisp_error + compiled_function" where
  "Fmake_byte_code kw args code cs depth =
     (case check_arglist kw args of Some e \<Rightarrow> Inl e
      | None \<Rightarrow>
          (case depth of
             Lisp_Int d \<Rightarrow>
               if d < 0 then Inl (Wrong_type_argument ''natnump'' depth)
               else Inr \<lparr>stack_depth = nat (d mod 65536), specpdl_depth_of = 0, instructions = Byte_string code, constants = cs, arglist = args\<rparr>
           | _ \<Rightarrow> Inl (Wrong_type_argument ''natnump'' depth)))"

text \<open>The room for bindings is stored in sixteen bits, too.\<close>

definition optimize_compiled_function :: "(lisp_object \<Rightarrow> bool) \<Rightarrow> compiled_function \<Rightarrow> (byte_code_error + compiled_function) option" where
  "optimize_compiled_function kw f =
     (case instructions f of
        Opaque p \<Rightarrow> Some (Inr f)
      | Byte_string code \<Rightarrow>
          map_option (map_sum id (\<lambda>(p, nvars). f\<lparr>specpdl_depth_of := (length (arglist f) + nvars) mod 65536, instructions := Opaque p\<rparr>))
            (optimize_byte_code kw code (constants f)))"

section \<open>Arguments\<close>

datatype 'w binding_result = Bound "'w lisp_state" | Wrong_number "'w lisp_state" | Bind_exit lisp_error "'w lisp_state" | Bind_crash

text \<open>The entry is written without a look at the room; what is no symbol is used as one.\<close>

definition bind_arg :: "'w bc_ops \<Rightarrow> lisp_object \<Rightarrow> lisp_object \<Rightarrow> 'w lisp_state \<Rightarrow> 'w binding_result" where
  "bind_arg ops x v s =
     (case x of
        Lisp_Symbol y \<Rightarrow>
          if int (specpdl_depth s) < specpdl_size s
          then (case SPECBIND_FAST_UNSAFE (vops ops) y v s of (None, s') \<Rightarrow> Bound s' | (Some e, s') \<Rightarrow> Bind_exit e s')
          else Bind_crash
      | _ \<Rightarrow> Bind_crash)"

text \<open>The loop over the argument list; \<open>args\<close> are the arguments that are left.\<close>

fun bind_args :: "'w bc_ops \<Rightarrow> lisp_object list \<Rightarrow> bool \<Rightarrow> lisp_object list \<Rightarrow> 'w lisp_state \<Rightarrow> 'w binding_result" where
  "bind_args ops [] opt args s = (if args \<noteq> [] then Wrong_number s else Bound s)"
| "bind_args ops (x # tail) opt args s =
     (if x = Qand_rest
      then case tail of [] \<Rightarrow> Bind_crash
           | y # _ \<Rightarrow> (let (v, h) = list_objects args (heap s) in bind_arg ops y v (s\<lparr>heap := h\<rparr>))
      else if x = Qand_optional then bind_args ops tail True args s
      else if args = [] \<and> \<not> opt then Wrong_number s
      else case bind_arg ops x (case args of [] \<Rightarrow> Qnil | v # _ \<Rightarrow> v) s of
             Bound s' \<Rightarrow> bind_args ops tail opt (tl args) s'
           | r \<Rightarrow> r)"

section \<open>Calls\<close>

text \<open>The function itself is changed when it is optimized; the result comes with it.\<close>

definition funcall_compiled_function ::
    "'w bc_ops \<Rightarrow> compiled_function \<Rightarrow> lisp_object list \<Rightarrow> 'w lisp_state \<Rightarrow> ('w outcome \<times> compiled_function) option" where
  "funcall_compiled_function ops f args s =
     (let speccount = specpdl_depth s
      in case optimize_compiled_function (keyword (vops ops)) f of
           None \<Rightarrow> None
         | Some (Inl Fault) \<Rightarrow> Some (Crash, f)
         | Some (Inl (Invalid_byte_code msg)) \<Rightarrow> Some (Exit (Error_string msg) s, f)
         | Some (Inr f) \<Rightarrow>
             map_option (\<lambda>r. (r, f))
               (case SPECPDL_RESERVE (int (specpdl_depth_of f)) s of
                  (Some e, s1) \<Rightarrow> Some (Exit e s1)
                | (None, s1) \<Rightarrow>
                    (case bind_args ops (arglist f) False args s1 of
                       Bind_crash \<Rightarrow> Some Crash
                     | Bind_exit e s2 \<Rightarrow> Some (Exit e s2)
                     | Wrong_number s2 \<Rightarrow> Some (Exit (Simple_error ''wrong-number-of-arguments'' [Lisp_Int (int (length args))]) s2)
                     | Bound s2 \<Rightarrow>
                         (case instructions f of
                            Byte_string code \<Rightarrow> Some Crash
                          | Opaque p \<Rightarrow>
                              (case execute_optimized_program ops p (stack_depth f) (constants f) s2 of
                                 None \<Rightarrow> None
                               | Some (Return v s3) \<Rightarrow>
                                   map_option (\<lambda>(e, s4). case e of None \<Rightarrow> Return v s4 | Some e \<Rightarrow> Exit e s4) (unbind_to (vops ops) speccount s3)
                               | Some r \<Rightarrow> Some r)))))"

section \<open>Safety\<close>

text \<open>The elements are symbols, and there is one after the first \<open>&rest\<close>.\<close>

definition arglist_ok :: "lisp_object list \<Rightarrow> bool" where
  "arglist_ok xs \<longleftrightarrow> list_all SYMBOLP xs \<and> length (dropWhile (\<lambda>x. x \<noteq> Qand_rest) xs) \<noteq> 1"

text \<open>At most \<open>n\<close> entries pushed.\<close>

definition pushes :: "nat \<Rightarrow> 'w lisp_state \<Rightarrow> 'w lisp_state \<Rightarrow> bool" where
  "pushes n s s' \<longleftrightarrow> (\<exists>es. specpdl s' = es @ specpdl s \<and> length es \<le> n) \<and> specpdl_size s \<le> specpdl_size s'"

lemma SPECBIND_pushes:
  assumes "balanced_ops ops" and "SPECBIND_FAST_UNSAFE (vops ops) y v s = (None, s')"
  shows "pushes 1 s s'"
proof -
  obtain e where "specpdl s' = e # specpdl s" "specpdl_size s \<le> specpdl_size s'" using SPECBIND_pushed [OF assms] by blast
  then show ?thesis by (auto simp: pushes_def intro: exI [of _ "[e]"])
qed

lemma pushes_trans: "pushes m s s' \<Longrightarrow> pushes n s' s'' \<Longrightarrow> pushes (m + n) s s''"
  by (force simp: pushes_def)

lemma bind_arg_typed:
  assumes "balanced_ops ops" and "SYMBOLP x" and "int (specpdl_depth s) < specpdl_size s"
  shows "bind_arg ops x v s \<noteq> Bind_crash \<and> (\<forall>s'. bind_arg ops x v s = Bound s' \<longrightarrow> pushes 1 s s')"
  using assms SPECBIND_pushes [OF assms(1)]
  by (auto simp: bind_arg_def SYMBOLP_def split: lisp_object.splits prod.splits option.splits)

lemma bind_args_typed:
  assumes "balanced_ops ops"
  shows "arglist_ok xs \<Longrightarrow> int (specpdl_depth s + length xs) \<le> specpdl_size s \<Longrightarrow>
    bind_args ops xs opt args s \<noteq> Bind_crash \<and> (\<forall>s'. bind_args ops xs opt args s = Bound s' \<longrightarrow> pushes (length xs) s s')"
proof (induction xs arbitrary: opt args s)
  case Nil
  then show ?case by (simp add: pushes_def)
next
  case (Cons x tail)
  have x: "SYMBOLP x" "int (specpdl_depth s) < specpdl_size s" using Cons.prems by (simp_all add: arglist_ok_def)
  show ?case
  proof (cases "x = Qand_rest")
    case True
    then obtain y ys where tail: "tail = y # ys" "SYMBOLP y" using Cons.prems(1) by (cases tail) (simp_all add: arglist_ok_def)
    let ?h = "snd (list_objects args (heap s))"
    have "int (specpdl_depth (s\<lparr>heap := ?h\<rparr>)) < specpdl_size (s\<lparr>heap := ?h\<rparr>)" using x(2) by (simp add: specpdl_depth_def)
    from bind_arg_typed [OF assms tail(2) this] show ?thesis
      using True tail by (fastforce simp: case_prod_beta pushes_def Let_def)
  next
    case False
    then have ok: "arglist_ok tail" using Cons.prems(1) by (simp add: arglist_ok_def)
    show ?thesis
    proof (cases "x = Qand_optional")
      case True
      have "int (specpdl_depth s + length tail) \<le> specpdl_size s" using Cons.prems(2) by simp
      from Cons.IH [OF ok this, of True args] True show ?thesis by (auto simp: pushes_def)
    next
      case opt: False
      let ?v = "case args of [] \<Rightarrow> Qnil | v # _ \<Rightarrow> v"
      note A = bind_arg_typed [OF assms x, of ?v]
      show ?thesis
      proof (cases "bind_arg ops x ?v s")
        case (Bound s')
        then have p: "pushes 1 s s'" using A by blast
        then have "int (specpdl_depth s' + length tail) \<le> specpdl_size s'" using Cons.prems(2) by (auto simp: pushes_def specpdl_depth_def)
        from Cons.IH [OF ok this, of opt "tl args"] show ?thesis using False \<open>x \<noteq> Qand_optional\<close> Bound pushes_trans [OF p] by simp
      qed (use A False opt in auto)
    qed
  qed
qed

lemma optimize_fresh:
  assumes "instructions f = Byte_string xs" and "well_formed_code kw (constants f) xs" and "length xs \<le> 21845"
  obtains p off where "optimize_compiled_function kw f =
      Some (Inr (f\<lparr>specpdl_depth_of := (length (arglist f) + length (filter (is_varbind \<circ> fst \<circ> snd) (the (parse xs 0)))) mod 65536, instructions := Opaque p\<rparr>))"
    "placed kw (constants f) xs p off"
  using optimized_placed [OF assms(2,3)] assms(1) by (auto simp: optimize_compiled_function_def)

text \<open>
  Property C14: a call of a compiled function is safe. For a function that was made from well-formed, typed
  code and an argument list in which a symbol follows \<open>&rest\<close>, whatever the arguments are, the call does
  not crash, there is room for all arguments and variables, and when it returns the binding stack is as before;
  the function is optimized then.
\<close>

theorem funcall_compiled_function_safe:
  assumes "instructions f = Byte_string xs" and "well_formed_code (keyword (vops ops)) (constants f) xs" and "length xs \<le> 21845"
    and "code_typed (keyword (vops ops)) (constants f) (stack_depth f) H (the (parse xs 0))" and "arglist_ok (arglist f)"
    and "length (arglist f) + length (filter (is_varbind \<circ> fst \<circ> snd) (the (parse xs 0))) < 65536"
    and "balanced_ops ops" and "specpdl_ok s" and "funcall_compiled_function ops f args s = Some (r, f')"
  shows "r \<noteq> Crash \<and> (\<forall>v s'. r = Return v s' \<longrightarrow> specpdl s' = specpdl s) \<and> (\<exists>p. instructions f' = Opaque p)"
proof -
  let ?n = "length (filter (is_varbind \<circ> fst \<circ> snd) (the (parse xs 0)))"
  obtain p off where f: "optimize_compiled_function (keyword (vops ops)) f = Some (Inr (f\<lparr>specpdl_depth_of := length (arglist f) + ?n, instructions := Opaque p\<rparr>))"
    and pl: "placed (keyword (vops ops)) (constants f) xs p off" using optimize_fresh [OF assms(1-3)] assms(6) by auto
  note exec = execute_optimized_source [OF assms(2) pl]
  obtain e s1 where s1: "SPECPDL_RESERVE (int (length (arglist f) + ?n)) s = (e, s1)" by fastforce
  show ?thesis
  proof (cases e)
    case (Some e)
    then show ?thesis using assms(9) f s1 by (auto simp: funcall_compiled_function_def)
  next
    case None
    have R: "specpdl s1 = specpdl s" "int (specpdl_depth s1 + length (arglist f) + ?n) \<le> specpdl_size s1"
      using reserve_room [OF assms(8) _ s1 [unfolded None]] by (simp_all add: specpdl_depth_def)
    then have "int (specpdl_depth s1 + length (arglist f)) \<le> specpdl_size s1" by simp
    note A = bind_args_typed [OF assms(7,5) this, of False args]
    show ?thesis
    proof (cases "bind_args ops (arglist f) False args s1")
      case (Bound s2)
      then have P: "pushes (length (arglist f)) s1 s2" using A by blast
      then obtain es where es: "specpdl s2 = es @ specpdl s" using R(1) by (auto simp: pushes_def)
      have room: "int (specpdl_depth s2 + ?n) \<le> specpdl_size s2" using P R by (auto simp: pushes_def specpdl_depth_def)
      note run = execute_typed [OF assms(2,4,7) room]
      define f2 where "f2 = f\<lparr>specpdl_depth_of := length (arglist f) + ?n, instructions := Opaque p\<rparr>"
      have call: "funcall_compiled_function ops f args s = map_option (\<lambda>r. (r, f2))
          (case execute_source ops xs (stack_depth f) (constants f) s2 of
             None \<Rightarrow> None
           | Some (Return v s3) \<Rightarrow> map_option (\<lambda>(e, s4). case e of None \<Rightarrow> Return v s4 | Some e \<Rightarrow> Exit e s4) (unbind_to (vops ops) (specpdl_depth s) s3)
           | Some r \<Rightarrow> Some r)"
        using f s1 None Bound exec by (simp add: funcall_compiled_function_def f2_def)
      have "r \<noteq> Crash \<and> (\<forall>v s'. r = Return v s' \<longrightarrow> specpdl s' = specpdl s) \<and> f' = f2"
      proof (cases "execute_source ops xs (stack_depth f) (constants f) s2")
        case (Some r')
        show ?thesis
        proof (cases r')
          case (Return v s3)
          then have "specpdl s3 = es @ specpdl s" using run [OF Some] es by simp
          from unbind_to_balanced [OF assms(7) this] show ?thesis using assms(9) call Some Return
            by (auto simp: specpdl_depth_def split: option.splits)
        qed (use run [OF Some] assms(9) call Some in auto)
      qed (use assms(9) call in simp)
      then show ?thesis by (simp add: f2_def)
    qed (use A assms(9) f s1 None in \<open>auto simp: funcall_compiled_function_def\<close>)
  qed
qed

text \<open>
  \<open>make-byte-code\<close> accepts an argument list that ends in \<open>&rest\<close>; calling the function reads the car of what is
  no cons.
\<close>

theorem rest_without_symbol:
  assumes "Fmake_byte_code (keyword (vops ops)) [Qand_rest] xs cs (Lisp_Int 1) = Inr f" and "optimize_byte_code (keyword (vops ops)) xs cs = Some (Inr (p, 0))"
    and "SPECPDL_RESERVE 1 s = (None, s)"
  shows "\<exists>f'. funcall_compiled_function ops f [] s = Some (Crash, f')"
proof -
  have "instructions f = Byte_string xs" "constants f = cs" "arglist f = [Qand_rest]"
    using assms(1) by (auto simp: Fmake_byte_code_def split: option.splits if_splits)
  then show ?thesis using assms(2,3) by (simp add: funcall_compiled_function_def optimize_compiled_function_def)
qed

section \<open>What the arguments are bound to\<close>

text \<open>An argument list in its usual form.\<close>

definition lambda_list :: "nat list \<Rightarrow> nat list \<Rightarrow> nat option \<Rightarrow> lisp_object list" where
  "lambda_list req opts rest = map Lisp_Symbol req @ (if opts = [] then [] else Qand_optional # map Lisp_Symbol opts) @
     (case rest of None \<Rightarrow> [] | Some y \<Rightarrow> [Qand_rest, Lisp_Symbol y])"

definition bind_one :: "nat \<Rightarrow> lisp_object \<Rightarrow> 'w lisp_state \<Rightarrow> 'w lisp_state" where
  "bind_one y v s = set_value y v (push_binding \<lparr>symbol = y, old_value = sym_value s y, func = No_func\<rparr> s)"

text \<open>The variables get the arguments in order, and \<open>nil\<close> when there are no more.\<close>

fun bind_each :: "nat list \<Rightarrow> lisp_object list \<Rightarrow> 'w lisp_state \<Rightarrow> 'w lisp_state" where
  "bind_each [] vs s = s"
| "bind_each (y # ys) vs s = bind_each ys (tl vs) (bind_one y (case vs of [] \<Rightarrow> Qnil | v # _ \<Rightarrow> v) s)"

definition bind_rest :: "nat option \<Rightarrow> lisp_object list \<Rightarrow> 'w lisp_state \<Rightarrow> 'w lisp_state" where
  "bind_rest rest vs s = (case rest of None \<Rightarrow> s | Some y \<Rightarrow> let (v, h) = list_objects vs (heap s) in bind_one y v (s\<lparr>heap := h\<rparr>))"

lemma bind_one_frame [simp]:
  "heap (bind_one y v s) = heap s" "specpdl_size (bind_one y v s) = specpdl_size s" "specpdl_depth (bind_one y v s) = Suc (specpdl_depth s)"
  by (simp_all add: bind_one_def set_value_def push_binding_def specpdl_depth_def)

lemma bind_one_plain: "plain_values s \<Longrightarrow> plain_value v \<Longrightarrow> plain_values (bind_one y v s)"
  by (simp add: bind_one_def set_value_def push_binding_def)

lemma bind_arg_one:
  "plain_values s \<Longrightarrow> int (specpdl_depth s) < specpdl_size s \<Longrightarrow> bind_arg ops (Lisp_Symbol y) v s = Bound (bind_one y v s)"
  by (auto simp: bind_arg_def bind_one_def SPECBIND_FAST_UNSAFE_def plain_value_def Let_def)

lemma plain_nil: "plain_value Qnil"
  by (simp add: plain_value_def SYMBOL_VALUE_MAGIC_P_def)

abbreviation no_marker :: "nat list \<Rightarrow> bool" where
  "no_marker ys \<equiv> 40 \<notin> set ys \<and> 41 \<notin> set ys"

lemma bind_args_required:
  "no_marker ys \<Longrightarrow> plain_values s \<Longrightarrow> list_all plain_value vs \<Longrightarrow> int (specpdl_depth s + length ys) \<le> specpdl_size s \<Longrightarrow> length ys \<le> length vs \<or> opt \<Longrightarrow>
    bind_args ops (map Lisp_Symbol ys @ xs) opt vs s = bind_args ops xs opt (drop (length ys) vs) (bind_each ys vs s)"
proof (induction ys arbitrary: vs s)
  case (Cons y ys)
  let ?v = "case vs of [] \<Rightarrow> Qnil | v # _ \<Rightarrow> v"
  have v: "plain_value ?v" "list_all plain_value (tl vs)" using Cons.prems(3) plain_nil by (cases vs; simp)+
  have "bind_arg ops (Lisp_Symbol y) ?v s = Bound (bind_one y ?v s)" using Cons.prems by (intro bind_arg_one) auto
  moreover have "bind_args ops (map Lisp_Symbol ys @ xs) opt (tl vs) (bind_one y ?v s) =
      bind_args ops xs opt (drop (length ys) (tl vs)) (bind_each ys (tl vs) (bind_one y ?v s))"
    using Cons.prems v by (intro Cons.IH bind_one_plain) (cases vs; auto)+
  moreover have "\<not> (vs = [] \<and> \<not> opt)" using Cons.prems(5) by auto
  ultimately show ?case using Cons.prems(1) by (auto simp: drop_Suc)
qed simp

lemma bind_args_short:
  "no_marker ys \<Longrightarrow> plain_values s \<Longrightarrow> list_all plain_value vs \<Longrightarrow> int (specpdl_depth s + length ys) \<le> specpdl_size s \<Longrightarrow> length vs < length ys \<Longrightarrow>
    \<exists>s'. bind_args ops (map Lisp_Symbol ys @ xs) False vs s = Wrong_number s'"
proof (induction ys arbitrary: vs s)
  case (Cons y ys)
  show ?case
  proof (cases vs)
    case Nil
    then show ?thesis using Cons.prems(1) by auto
  next
    case (Cons v vs')
    have "bind_arg ops (Lisp_Symbol y) v s = Bound (bind_one y v s)" using Cons.prems by (intro bind_arg_one) auto
    moreover have "\<exists>s'. bind_args ops (map Lisp_Symbol ys @ xs) False vs' (bind_one y v s) = Wrong_number s'"
      using Cons.prems Cons by (intro Cons.IH bind_one_plain) auto
    ultimately show ?thesis using Cons.prems(1) Cons by auto
  qed
qed simp

lemma bind_each_frame:
  "specpdl_depth (bind_each ys vs s) = specpdl_depth s + length ys" "specpdl_size (bind_each ys vs s) = specpdl_size s"
  by (induction ys vs s rule: bind_each.induct) simp_all

lemma bind_each_plain: "plain_values s \<Longrightarrow> list_all plain_value vs \<Longrightarrow> plain_values (bind_each ys vs s)"
proof (induction ys vs s rule: bind_each.induct)
  case (2 y ys vs s)
  have "plain_value (case vs of [] \<Rightarrow> Qnil | v # _ \<Rightarrow> v)" "list_all plain_value (tl vs)" using "2.prems"(2) plain_nil by (cases vs; simp)+
  then show ?case using "2.IH" bind_one_plain [OF "2.prems"(1)] by simp
qed simp

lemma bind_each_append: "bind_each (ys @ zs) vs s = bind_each zs (drop (length ys) vs) (bind_each ys vs s)"
  by (induction ys vs s rule: bind_each.induct) (simp_all add: drop_Suc)

lemma bind_args_tail:
  assumes "plain_values s" and "rest \<noteq> None \<longrightarrow> int (specpdl_depth s) < specpdl_size s"
  shows "bind_args ops (case rest of None \<Rightarrow> [] | Some y \<Rightarrow> [Qand_rest, Lisp_Symbol y]) opt vs s =
    (if rest = None \<and> vs \<noteq> [] then Wrong_number s else Bound (bind_rest rest vs s))"
proof (cases rest)
  case (Some y)
  let ?s = "s\<lparr>heap := snd (list_objects vs (heap s))\<rparr>"
  have "plain_values ?s" "int (specpdl_depth ?s) < specpdl_size ?s" using assms Some by (simp_all add: specpdl_depth_def)
  from bind_arg_one [OF this, of ops y] show ?thesis using Some by (simp add: bind_rest_def case_prod_beta)
qed (simp add: bind_rest_def)


section \<open>Examples\<close>

text \<open>\<open>(lambda (x &optional y &rest z) ...)\<close> around the example code.\<close>

definition sample_function :: compiled_function where
  "sample_function = \<lparr>stack_depth = 1, specpdl_depth_of = 0, instructions = Byte_string sample_code, constants = sample_constants,
     arglist = lambda_list [52] [50] (Some 51)\<rparr>"

lemma sample_function_returns: "funcall_compiled_function quiet_ops sample_function [Qt] start_state \<noteq> None"
proof -
  let ?s = "bind_rest (Some 51) [] (bind_each [52, 50] [Qt] start_state)"
  have wf: "well_formed_code (keyword (vops quiet_ops)) (constants sample_function) sample_code"
    using sample_code_ok_ops by (simp add: sample_function_def quiet_ops_def)
  have code: "instructions sample_function = Byte_string sample_code" "length sample_code \<le> 21845" by (simp_all add: sample_function_def sample_code_def)
  obtain p off where f: "optimize_compiled_function (keyword (vops quiet_ops)) sample_function = Some (Inr (sample_function\<lparr>specpdl_depth_of := 5, instructions := Opaque p\<rparr>))"
    and pl: "placed (keyword (vops quiet_ops)) (constants sample_function) sample_code p off"
    using optimize_fresh [OF code(1) wf code(2)] by (auto simp: sample_function_def sample_code_parse is_varbind_def lambda_list_def)
  have reserve: "SPECPDL_RESERVE 5 start_state = (None, start_state)" by (simp add: SPECPDL_RESERVE_def specpdl_depth_def start_state_def)
  have bind: "bind_args quiet_ops (arglist sample_function) False [Qt] start_state = Bound ?s"
    by (simp add: sample_function_def lambda_list_def bind_arg_def start_state_def specpdl_depth_def SPECBIND_FAST_UNSAFE_def SYMBOL_VALUE_MAGIC_P_def
        bind_rest_def bind_one_def set_value_def push_binding_def Let_def)
  have "sym_value ?s 9 = Qnil" by (simp add: bind_rest_def bind_one_def set_value_def push_binding_def start_state_def)
  from sample_code_run [OF this] have run: "execute_optimized_program quiet_ops p 1 sample_constants ?s = Some (Return Qt ?s)"
    using execute_optimized_source [OF wf pl] by (simp add: sample_function_def)
  have "unbind_to (vops quiet_ops) 0 ?s \<noteq> None"
    by (simp add: unbind_to_def bind_rest_def bind_one_def set_value_def push_binding_def start_state_def SYMBOL_VALUE_MAGIC_P_def)
  then show ?thesis using f reserve bind run
    by (auto simp: funcall_compiled_function_def sample_function_def specpdl_depth_def start_state_def)
qed

theorem funcall_compiled_function_safe_witness:
  "\<exists>r f'. funcall_compiled_function quiet_ops sample_function [Qt] start_state = Some (r, f') \<and> r \<noteq> Crash"
proof -
  have wf: "well_formed_code (keyword (vops quiet_ops)) (constants sample_function) sample_code"
    using sample_code_ok_ops by (simp add: sample_function_def quiet_ops_def)
  have len: "length sample_code \<le> 21845" by (simp add: sample_code_def)
  have code: "instructions sample_function = Byte_string sample_code" by (simp add: sample_function_def)
  have ty: "code_typed (keyword (vops quiet_ops)) (constants sample_function) (stack_depth sample_function) sample_types (the (parse sample_code 0))"
    using sample_code_typed by (simp add: sample_function_def)
  have al: "arglist_ok (arglist sample_function)" by (simp add: sample_function_def lambda_list_def arglist_ok_def SYMBOLP_def)
  obtain r f' where r: "funcall_compiled_function quiet_ops sample_function [Qt] start_state = Some (r, f')" using sample_function_returns by auto
  have n: "length (arglist sample_function) + length (filter (is_varbind \<circ> fst \<circ> snd) (the (parse sample_code 0))) < 65536"
    by (simp add: sample_function_def lambda_list_def sample_code_parse is_varbind_def)
  have ok: "specpdl_ok start_state" by (simp add: specpdl_ok_def specpdl_depth_def start_state_def)
  show ?thesis using funcall_compiled_function_safe [OF code wf len ty al n quiet_ops_balanced ok r] r by blast
qed


end
