(* ===== verification/Evaluator.thy ===== *)
theory Evaluator
  imports ByteFun ListFns
begin

text \<open>
  The evaluator: \<open>eval\<close>, \<open>funcall\<close>, \<open>apply\<close>, the special forms, \<open>catch\<close> and \<open>throw\<close>, \<open>condition-case\<close> and
  \<open>signal\<close> of \<open>eval.c\<close>, with the interpreter of byte code for compiled functions. C functions that call
  each other and themselves are cases of one function \<open>interp\<close>, which is given the number of nested calls
  it may make; loops that evaluate are calls of their own. \<open>longjmp\<close> is the exit \<open>Longjmp\<close>, which every
  C function passes on except the one whose \<open>setjmp\<close> is meant; catches are told apart by how many there are
  outside them. A read of something that is no cons, or off an array, is \<open>Fatal\<close>, and so is a loop in C that
  does not end. There is no debugger and no profiling, there are no pending warnings and no suspended errors,
  garbage is not collected, and conses are not freed.
\<close>

section \<open>State\<close>

record catchtag =
  catch_tag :: lisp_object
  pdlcount :: nat
  saved_eval_depth :: int

record 'w globals =
  function_of :: "nat \<Rightarrow> lisp_object"
  catchlist :: "catchtag list"
  condition_handlers :: lisp_object
  lisp_eval_depth :: int
  max_lisp_eval_depth :: int
  compiled_functions :: "nat \<Rightarrow> compiled_function option"
  world :: 'w

type_synonym 'w eval_state = "'w globals lisp_state"
type_synonym 'w action = "'w globals value_effect"

definition set_catchlist :: "catchtag list \<Rightarrow> 'w eval_state \<Rightarrow> 'w eval_state" where
  "set_catchlist L s = s\<lparr>ext := (ext s)\<lparr>catchlist := L\<rparr>\<rparr>"

definition set_handlers :: "lisp_object \<Rightarrow> 'w eval_state \<Rightarrow> 'w eval_state" where
  "set_handlers x s = s\<lparr>ext := (ext s)\<lparr>condition_handlers := x\<rparr>\<rparr>"

definition set_eval_depth :: "int \<Rightarrow> 'w eval_state \<Rightarrow> 'w eval_state" where
  "set_eval_depth d s = s\<lparr>ext := (ext s)\<lparr>lisp_eval_depth := d\<rparr>\<rparr>"

section \<open>Functions\<close>

datatype arity = Max_args nat | MANY | UNEVALLED

datatype special_form =
    S_or | S_and | S_if | S_cond | S_progn | S_prog1 | S_prog2 | S_letX | S_let | S_while | S_setq
  | S_quote | S_function | S_defun | S_defmacro | S_catch | S_unwind_protect | S_condition_case

datatype core_function = C_eval | C_funcall | C_apply | C_throw | C_signal | C_call_with_condition_handler

datatype 'w subr_code = Special special_form | Core core_function | Primitive "lisp_object list \<Rightarrow> 'w action"

record 'w subr =
  min_args :: nat
  max_args :: arity
  subr_code :: "'w subr_code"

text \<open>
  What the evaluator calls: the variables and the primitives of byte code (\<open>bops\<close>), the table of functions
  written in C, the loading of a file for an autoloaded function, the error symbol and data of an error,
  and the condition names of an error symbol.
\<close>

record 'w eval_ops =
  bops :: "'w globals bc_ops"
  subrs :: "nat \<Rightarrow> 'w subr option"
  do_autoload :: "lisp_object \<Rightarrow> lisp_object \<Rightarrow> 'w globals effect"
  error_data :: "lisp_error \<Rightarrow> lisp_heap \<Rightarrow> (lisp_object \<times> lisp_object) \<times> lisp_heap"
  error_conditions :: "lisp_object \<Rightarrow> 'w eval_state \<Rightarrow> lisp_object"
  Ffset :: "lisp_object \<Rightarrow> lisp_object \<Rightarrow> 'w globals effect"

abbreviation "Qautoload \<equiv> Lisp_Symbol 60"
abbreviation "Qmacro \<equiv> Lisp_Symbol 61"
abbreviation "Qerror \<equiv> Lisp_Symbol 62"
abbreviation "Qtop_level \<equiv> Lisp_Symbol 63"
abbreviation "Qno_catch \<equiv> Lisp_Symbol 64"
abbreviation "Qwrong_number_of_arguments \<equiv> Lisp_Symbol 65"
abbreviation "Qvoid_function \<equiv> Lisp_Symbol 66"
abbreviation "Qinvalid_function \<equiv> Lisp_Symbol 67"
abbreviation "Qcyclic_function_indirection \<equiv> Lisp_Symbol 68"
abbreviation "Qsetq \<equiv> Lisp_Symbol 69"

section \<open>Calls\<close>

text \<open>What is done with the values of arguments.\<close>

datatype continuation = To_subr nat | To_compiled lisp_object | To_lambda lisp_object

text \<open>
  The C functions that evaluate, and their loops. Loops over lists have the rest of the list; a loop with
  a check for circular lists has its length so far, hare and tortoise as well. \<open>Eval_retry\<close> and \<open>Funcall_retry\<close> are what
  follows the label \<open>retry\<close>.
\<close>

datatype call =
    Eval lisp_object
  | Eval_retry lisp_object lisp_object nat
  | Args lisp_object "lisp_object list" nat continuation
  | Funcall "lisp_object list"
  | Funcall_retry "lisp_object list"
  | Lambda_args nat lisp_object lisp_object bool bool "lisp_object list" lisp_object nat nat lisp_object lisp_object
  | Progn lisp_object lisp_object
  | Prog1 lisp_object lisp_object
  | Or lisp_object
  | And lisp_object lisp_object
  | Cond lisp_object
  | While lisp_object lisp_object
  | Setq lisp_object lisp_object
  | LetX nat lisp_object lisp_object lisp_object nat lisp_object
  | Let_values lisp_object "lisp_object list" nat lisp_object lisp_object
  | Let_bind lisp_object "lisp_object list" lisp_object nat
  | Signal lisp_object lisp_object
  | Handlers lisp_object lisp_object lisp_object lisp_object
  | Clauses lisp_object lisp_object lisp_object lisp_object lisp_object
  | Throw lisp_object lisp_object

type_synonym 'w calls = "call \<Rightarrow> 'w action"

definition abind :: "'w action \<Rightarrow> (lisp_object \<Rightarrow> 'w action) \<Rightarrow> 'w action" where
  "abind f g s = (case f s of (Inl e, s') \<Rightarrow> (Inl e, s') | (Inr v, s') \<Rightarrow> g v s')"

definition fatal :: "'w action" where
  "fatal s = (Inl Fatal, s)"

text \<open>Errors are signalled where they occur; exits are passed on.\<close>

definition raise :: "'w eval_ops \<Rightarrow> 'w calls \<Rightarrow> lisp_error \<Rightarrow> 'w action" where
  "raise ops rec e s =
     (case e of
        Longjmp k v \<Rightarrow> (Inl e, s)
      | Out_of_fuel \<Rightarrow> (Inl e, s)
      | Fatal \<Rightarrow> (Inl e, s)
      | _ \<Rightarrow> (case error_data ops e (heap s) of ((sig, data), h) \<Rightarrow> rec (Signal sig data) (s\<lparr>heap := h\<rparr>)))"

definition do_effect :: "'w eval_ops \<Rightarrow> 'w calls \<Rightarrow> 'w globals effect \<Rightarrow> 'w action \<Rightarrow> 'w action" where
  "do_effect ops rec f g s = (case f s of (None, s') \<Rightarrow> g s' | (Some e, s') \<Rightarrow> raise ops rec e s')"

definition do_value :: "'w eval_ops \<Rightarrow> 'w calls \<Rightarrow> 'w action \<Rightarrow> 'w action" where
  "do_value ops rec f s = (case f s of (Inr v, s') \<Rightarrow> (Inr v, s') | (Inl e, s') \<Rightarrow> raise ops rec e s')"

definition do_list :: "'w eval_ops \<Rightarrow> 'w calls \<Rightarrow> (lisp_heap \<Rightarrow> 'a lresult option) \<Rightarrow> ('a \<Rightarrow> 'w action) \<Rightarrow> 'w action" where
  "do_list ops rec f g s = (case f (heap s) of None \<Rightarrow> fatal s | Some (Inl e) \<Rightarrow> raise ops rec e s | Some (Inr x) \<Rightarrow> g x s)"

definition with_car :: "lisp_object \<Rightarrow> (lisp_object \<Rightarrow> 'w action) \<Rightarrow> 'w action" where
  "with_car x f s = (if CONSP x then f (XCAR (heap s) x) s else fatal s)"

definition with_cdr :: "lisp_object \<Rightarrow> (lisp_object \<Rightarrow> 'w action) \<Rightarrow> 'w action" where
  "with_cdr x f s = (if CONSP x then f (XCDR (heap s) x) s else fatal s)"

definition with_cons :: "lisp_object \<Rightarrow> lisp_object \<Rightarrow> (lisp_object \<Rightarrow> 'w action) \<Rightarrow> 'w action" where
  "with_cons x y f s = (case Fcons x y (heap s) of (c, h) \<Rightarrow> f c (s\<lparr>heap := h\<rparr>))"

definition with_list :: "lisp_object list \<Rightarrow> (lisp_object \<Rightarrow> 'w action) \<Rightarrow> 'w action" where
  "with_list xs f s = (case list_objects xs (heap s) of (c, h) \<Rightarrow> f c (s\<lparr>heap := h\<rparr>))"

definition signal_list :: "'w calls \<Rightarrow> lisp_object \<Rightarrow> lisp_object list \<Rightarrow> 'w action" where
  "signal_list rec sig xs = with_list xs (\<lambda>data. rec (Signal sig data))"

definition signal_void_function_error :: "'w calls \<Rightarrow> lisp_object \<Rightarrow> 'w action" where
  "signal_void_function_error rec fun = signal_list rec Qvoid_function [fun]"

definition signal_invalid_function_error :: "'w calls \<Rightarrow> lisp_object \<Rightarrow> 'w action" where
  "signal_invalid_function_error rec fun = signal_list rec Qinvalid_function [fun]"

definition signal_wrong_number_of_arguments_error :: "'w calls \<Rightarrow> lisp_object \<Rightarrow> nat \<Rightarrow> 'w action" where
  "signal_wrong_number_of_arguments_error rec fun nargs = signal_list rec Qwrong_number_of_arguments [fun, Lisp_Int (int nargs)]"

text \<open>The macro finds what \<open>GET_EXTERNAL_LIST_LENGTH\<close> finds, and drops the length.\<close>

definition CHECK_TRUE_LIST :: "'w eval_ops \<Rightarrow> 'w calls \<Rightarrow> lisp_object \<Rightarrow> 'w action \<Rightarrow> 'w action" where
  "CHECK_TRUE_LIST ops rec x f = do_list ops rec (GET_EXTERNAL_LIST_LENGTH x) (\<lambda>_. f)"

text \<open>The next round of a loop with a check for circular lists.\<close>

definition next_hare :: "'w eval_ops \<Rightarrow> 'w calls \<Rightarrow> lisp_object \<Rightarrow> nat \<Rightarrow> lisp_object \<Rightarrow> lisp_object \<Rightarrow> (nat \<Rightarrow> lisp_object \<Rightarrow> lisp_object \<Rightarrow> 'w action) \<Rightarrow> 'w action" where
  "next_hare ops rec lst len hare tortoise f s =
     (let hare' = XCDR (heap s) hare; len' = len + 1
      in if len' > CIRCULAR_LIST_SUSPICION_LENGTH
         then let tortoise' = (if odd len' then XCDR (heap s) tortoise else tortoise)
              in if odd len' \<and> \<not> CONSP tortoise then fatal s
                 else if hare' = tortoise' then raise ops rec (Circular_list lst) s else f len' hare' tortoise' s
         else f len' hare' tortoise s)"

section \<open>Unwinding and throwing\<close>

text \<open>
  The entries for unwinding that the evaluator itself makes: \<open>Fprogn\<close> for \<open>unwind-protect\<close>, 0, \<open>condition_case_unwind\<close>, 1,
  and \<open>condition_bind_unwind\<close>, 2. The last two are alike except for the memory they free.
\<close>

definition condition_case_unwind :: "lisp_object \<Rightarrow> 'w globals effect" where
  "condition_case_unwind loser s =
     (if \<not> CONSP loser then (Some Fatal, s)
      else (None, if loser = condition_handlers (ext s) then set_handlers (XCDR (heap s) loser) s else s))"

definition effect_of :: "'w action \<Rightarrow> 'w globals effect" where
  "effect_of f s = (case f s of (Inl e, s') \<Rightarrow> (Some e, s') | (Inr v, s') \<Rightarrow> (None, s'))"

definition eval_vops :: "'w eval_ops \<Rightarrow> 'w calls \<Rightarrow> 'w globals variable_ops" where
  "eval_vops ops rec = (vops (bops ops))\<lparr>call_unwind := \<lambda>f x.
     if f = 0 then effect_of (rec (Progn x Qnil))
     else if f = 1 \<or> f = 2 then condition_case_unwind x
     else call_unwind (vops (bops ops)) f x\<rparr>"

definition unbind :: "'w eval_ops \<Rightarrow> 'w calls \<Rightarrow> nat \<Rightarrow> lisp_object \<Rightarrow> 'w action" where
  "unbind ops rec count v s =
     (case unbind_to (eval_vops ops rec) count s of None \<Rightarrow> fatal s
      | Some (None, s') \<Rightarrow> (Inr v, s')
      | Some (Some e, s') \<Rightarrow> raise ops rec e s')"

text \<open>
  First all entries above the catch are taken off, while the catches inside it are still on the list, then
  the catch and those inside it are taken off the list. The count of nested throws, which ends the editor at 20, is not kept.
\<close>

definition unwind_to_catch :: "'w eval_ops \<Rightarrow> 'w calls \<Rightarrow> catchtag \<Rightarrow> catchtag list \<Rightarrow> lisp_object \<Rightarrow> 'w action" where
  "unwind_to_catch ops rec c outer v s =
     (case unbind ops rec (pdlcount c) v s of
        (Inl e, s') \<Rightarrow> (Inl e, s')
      | (Inr v, s') \<Rightarrow> (Inl (Longjmp (length outer) v), set_eval_depth (saved_eval_depth c) (set_catchlist outer s')))"

fun find_catch :: "lisp_object \<Rightarrow> catchtag list \<Rightarrow> (catchtag \<times> catchtag list) option" where
  "find_catch tag [] = None"
| "find_catch tag (c # cs) = (if catch_tag c = tag then Some (c, cs) else find_catch tag cs)"

definition throw_call :: "'w eval_ops \<Rightarrow> 'w calls \<Rightarrow> lisp_object \<Rightarrow> lisp_object \<Rightarrow> 'w action" where
  "throw_call ops rec tag v s =
     (case find_catch tag (catchlist (ext s)) of
        Some (c, outer) \<Rightarrow> unwind_to_catch ops rec c outer v s
      | None \<Rightarrow> abind (signal_list rec Qno_catch [tag, v]) (\<lambda>tag'. rec (Throw tag' v)) s)"

text \<open>
  A catch is set up, the function is called, and a jump to this catch ends here. When the function
  returns the catch is taken off the list.
\<close>

definition this_catch :: "lisp_object \<Rightarrow> 'w eval_state \<Rightarrow> catchtag" where
  "this_catch tag s = \<lparr>catch_tag = tag, pdlcount = specpdl_depth s, saved_eval_depth = lisp_eval_depth (ext s)\<rparr>"

definition catch_jump :: "catchtag list \<Rightarrow> 'w action \<Rightarrow> (lisp_object \<Rightarrow> 'w action) \<Rightarrow> (lisp_object \<Rightarrow> 'w action) \<Rightarrow> 'w action" where
  "catch_jump outer f on_value on_jump s =
     (case f s of
        (Inr v, s') \<Rightarrow> on_value v (set_catchlist outer s')
      | (Inl e, s') \<Rightarrow> (case e of Longjmp k v \<Rightarrow> if k = length outer then on_jump v s' else (Inl e, s') | _ \<Rightarrow> (Inl e, s')))"

definition internal_catch :: "lisp_object \<Rightarrow> 'w action \<Rightarrow> 'w action" where
  "internal_catch tag f s =
     (let outer = catchlist (ext s)
      in catch_jump outer f (\<lambda>v s. (Inr v, s)) (\<lambda>v s. (Inr v, s)) (set_catchlist (this_catch tag s # outer) s))"

section \<open>Calls of functions\<close>

text \<open>The nesting is counted; the limit is raised to 100 when it is lower.\<close>

definition enter_call :: "'w eval_ops \<Rightarrow> 'w calls \<Rightarrow> 'w action \<Rightarrow> 'w action" where
  "enter_call ops rec f =
     do_effect ops rec (QUIT (bops ops)) (\<lambda>s.
       let d = lisp_eval_depth (ext s) + 1; s1 = set_eval_depth d s
       in if d > max_lisp_eval_depth (ext s)
          then let s2 = (if max_lisp_eval_depth (ext s) < 100 then s1\<lparr>ext := (ext s1)\<lparr>max_lisp_eval_depth := 100\<rparr>\<rparr> else s1)
               in if d > max_lisp_eval_depth (ext s2) then raise ops rec (Error_string ''Lisp nesting exceeds max-lisp-eval-depth'') s2 else f s2
          else f s1)"

definition leave_call :: "'w action \<Rightarrow> 'w action" where
  "leave_call f = abind f (\<lambda>v s. (Inr v, set_eval_depth (lisp_eval_depth (ext s) - 1) s))"

text \<open>A chain of symbols whose functions are symbols, with a check for cycles.\<close>

abbreviation (input) FUNCTION_INDIRECTION_SUSPICION_LENGTH :: nat where
  "FUNCTION_INDIRECTION_SUSPICION_LENGTH \<equiv> 16"

definition symbol_function :: "(nat \<Rightarrow> lisp_object) \<Rightarrow> lisp_object \<Rightarrow> lisp_object" where
  "symbol_function fs x = (case x of Lisp_Symbol y \<Rightarrow> fs y | _ \<Rightarrow> x)"

partial_function (option) indirect_loop :: "(nat \<Rightarrow> lisp_object) \<Rightarrow> nat \<Rightarrow> lisp_object \<Rightarrow> lisp_object \<Rightarrow> (unit + lisp_object) option" where
  "indirect_loop fs count hare tortoise =
     (if \<not> SYMBOLP hare then Some (Inr hare)
      else if count < FUNCTION_INDIRECTION_SUSPICION_LENGTH then indirect_loop fs (count + 1) (symbol_function fs hare) tortoise
      else let tortoise' = (if odd count then symbol_function fs tortoise else tortoise)
           in if hare = tortoise' then Some (Inl ()) else indirect_loop fs (count + 1) (symbol_function fs hare) tortoise')"

declare indirect_loop.simps [code]

definition indirect_function :: "'w calls \<Rightarrow> lisp_object \<Rightarrow> bool \<Rightarrow> (lisp_object \<Rightarrow> 'w action) \<Rightarrow> 'w action" where
  "indirect_function rec object void_function_errorp f s =
     (case indirect_loop (function_of (ext s)) 0 object object of
        None \<Rightarrow> fatal s
      | Some (Inl _) \<Rightarrow> signal_list rec Qcyclic_function_indirection [object] s
      | Some (Inr hare) \<Rightarrow> if void_function_errorp \<and> UNBOUNDP hare then signal_void_function_error rec object s else f hare s)"

text \<open>
  \<open>apply\<close>: the elements of the last argument become arguments. For a C function missing optional arguments are added.
\<close>

definition spread_args :: "'w eval_ops \<Rightarrow> lisp_object list \<Rightarrow> nat \<Rightarrow> lisp_object \<Rightarrow> lisp_object \<Rightarrow> lisp_heap \<Rightarrow> lisp_object list" where
  "spread_args ops args n spread fun h =
     (let all = butlast args @ map (\<lambda>i. XCAR h (cdrn h spread i)) [0..<n]; numargs = length all - 1
      in case fun of
           Lisp_Lrecord Lrecord_subr i \<Rightarrow>
             (case subrs ops i of None \<Rightarrow> all
              | Some sb \<Rightarrow> (case max_args sb of
                  Max_args m \<Rightarrow> if numargs < min_args sb \<or> m < numargs then all else all @ replicate (m - numargs) Qnil
                | _ \<Rightarrow> all))
         | _ \<Rightarrow> all)"

definition Fapply :: "'w eval_ops \<Rightarrow> 'w calls \<Rightarrow> lisp_object list \<Rightarrow> 'w action" where
  "Fapply ops rec args =
     (if length args < 2 then fatal
      else do_list ops rec (GET_EXTERNAL_LIST_LENGTH (last args)) (\<lambda>n s.
        if n = 0 then rec (Funcall (butlast args)) s
        else if n = 1 then rec (Funcall (butlast args @ [XCAR (heap s) (last args)])) s
        else if SYMBOLP (hd args)
        then indirect_function rec (hd args) False (\<lambda>fun. rec (Funcall (spread_args ops args n (last args) fun (heap s)))) s
        else rec (Funcall (spread_args ops args n (last args) (hd args) (heap s))) s))"

definition apply1 :: "'w eval_ops \<Rightarrow> 'w calls \<Rightarrow> lisp_object \<Rightarrow> lisp_object \<Rightarrow> 'w action" where
  "apply1 ops rec fn arg = (if NILP arg then rec (Funcall [fn]) else Fapply ops rec [fn, arg])"

section \<open>Conditions\<close>

definition run_condition_case_handlers :: "'w eval_ops \<Rightarrow> 'w calls \<Rightarrow> lisp_object \<Rightarrow> lisp_object \<Rightarrow> 'w action" where
  "run_condition_case_handlers ops rec v var =
     CHECK_TRUE_LIST ops rec v (\<lambda>s.
       if NILP var then do_list ops rec (\<lambda>h. Some (Fcdr h v)) (\<lambda>body. rec (Progn body Qnil)) s
       else do_list ops rec (\<lambda>h. Some (Fcar h v)) (\<lambda>x.
              do_effect ops rec (specbind (eval_vops ops rec) var x) (do_list ops rec (\<lambda>h. Some (Fcdr h v)) (\<lambda>body.
                abind (rec (Progn body Qnil)) (unbind ops rec (specpdl_depth s))))) s)"

definition condition_case_1 :: "'w eval_ops \<Rightarrow> 'w calls \<Rightarrow> lisp_object \<Rightarrow> 'w action \<Rightarrow> (lisp_object \<Rightarrow> 'w action) \<Rightarrow> 'w action" where
  "condition_case_1 ops rec handlers bfun hfun s0 =
     with_cons Qunbound handlers (\<lambda>mark. with_cons mark (condition_handlers (ext s0)) (\<lambda>tag s.
       (let outer = catchlist (ext s)
        in do_effect ops rec (record_unwind_protect (Unwind 1) tag) (\<lambda>s1.
             catch_jump outer bfun
               (\<lambda>v s2. if CONSP tag then unbind ops rec (specpdl_depth s) v (set_handlers (XCDR (heap s2) tag) s2) else fatal s2)
               hfun (set_handlers tag (set_catchlist (this_catch tag s # outer) s1))) s))) s0"

text \<open>A handler is \<open>nil\<close> or a cons whose car is a symbol or a list of symbols.\<close>

definition handler_body :: "lisp_heap \<Rightarrow> lisp_object \<Rightarrow> lisp_object \<Rightarrow> lisp_heap + lisp_error" where
  "handler_body h handler tail =
     (if NILP handler then Inl h
      else if CONSP handler
      then let conditions = XCAR h handler
           in if SYMBOLP conditions then Inl h
              else (case EXTERNAL_LIST_LOOP_4 id (\<lambda>h condition tail. if SYMBOLP condition then Inl h else Inr ()) conditions h of
                      None \<Rightarrow> Inr Fatal
                    | Some (Inl e) \<Rightarrow> Inr e
                    | Some (Inr (Inl _)) \<Rightarrow> Inl h
                    | Some (Inr (Inr _)) \<Rightarrow> Inr (Simple_error ''Invalid condition handler'' [handler]))
      else Inr (Simple_error ''Invalid condition handler'' [handler]))"

definition condition_case_3 :: "'w eval_ops \<Rightarrow> 'w calls \<Rightarrow> lisp_object \<Rightarrow> lisp_object \<Rightarrow> lisp_object \<Rightarrow> 'w action" where
  "condition_case_3 ops rec bodyform var handlers =
     do_list ops rec (EXTERNAL_LIST_LOOP_4 id handler_body handlers) (\<lambda>r s.
       case r of
         Inr e \<Rightarrow> raise ops rec e s
       | Inl _ \<Rightarrow>
           if \<not> SYMBOLP var then raise ops rec (Wrong_type_argument ''symbolp'' var) s
           else condition_case_1 ops rec handlers (rec (Eval bodyform)) (\<lambda>v. run_condition_case_handlers ops rec v var) s)"

definition Fcall_with_condition_handler :: "'w eval_ops \<Rightarrow> 'w calls \<Rightarrow> lisp_object list \<Rightarrow> 'w action" where
  "Fcall_with_condition_handler ops rec args s0 =
     (case args of
        [] \<Rightarrow> fatal s0
      | handler # call \<Rightarrow>
          with_list [handler] (\<lambda>l. with_cons l (condition_handlers (ext s0)) (\<lambda>tem s.
            do_effect ops rec (record_unwind_protect (Unwind 2) tem) (\<lambda>s1.
              abind (rec (Funcall call)) (unbind ops rec (specpdl_depth s)) (set_handlers tem s1)) s)) s0)"

text \<open>Is one of the names, or the name, in the list of conditions? A list of names may be dotted here.\<close>

partial_function (option) condition_names :: "lisp_heap \<Rightarrow> lisp_object \<Rightarrow> lisp_object \<Rightarrow> bool lresult option" where
  "condition_names h type conditions =
     (if CONSP type
      then lbind (Fmemq (XCAR h type) conditions h) (\<lambda>r. if \<not> NILP r then Some (Inr True) else condition_names h (XCDR h type) conditions)
      else Some (Inr False))"

declare condition_names.simps [code]

definition condition_type_p :: "lisp_object \<Rightarrow> lisp_object \<Rightarrow> lisp_heap \<Rightarrow> bool lresult option" where
  "condition_type_p type conditions h =
     (if type = Qt then Some (Inr True)
      else if SYMBOLP type then lbind (Fmemq type conditions h) (\<lambda>r. Some (Inr (\<not> NILP r)))
      else condition_names h type conditions)"

text \<open>\<open>signal_1\<close>, with no debugger: the handlers from the inside out.\<close>

definition throw_signal :: "'w calls \<Rightarrow> lisp_object \<Rightarrow> lisp_object \<Rightarrow> lisp_object \<Rightarrow> 'w action" where
  "throw_signal rec handlers sig data = with_cons sig data (\<lambda>v. rec (Throw handlers v))"

text \<open>At the end there is nothing but the top level, or, early in the start of the editor, not even that.\<close>

definition last_resort :: "'w eval_ops \<Rightarrow> 'w calls \<Rightarrow> 'w action" where
  "last_resort ops rec s =
     (case find_catch Qtop_level (catchlist (ext s)) of
        Some (c, outer) \<Rightarrow> unwind_to_catch ops rec c outer Qt s
      | None \<Rightarrow> fatal s)"

definition handlers_call :: "'w eval_ops \<Rightarrow> 'w calls \<Rightarrow> lisp_object \<Rightarrow> lisp_object \<Rightarrow> lisp_object \<Rightarrow> lisp_object \<Rightarrow> 'w action" where
  "handlers_call ops rec handlers sig data conditions s0 =
     (if \<not> CONSP handlers then last_resort ops rec s0
      else with_car handlers (\<lambda>handler. with_car handler (\<lambda>handler_fun. with_cdr handler (\<lambda>handler_data. with_cdr handlers (\<lambda>outer_handlers s.
             if \<not> UNBOUNDP handler_fun
             then with_cons sig data (\<lambda>tem.
                    abind (if NILP handler_data then rec (Funcall [handler_fun, tem])
                           else Fapply ops rec [handler_fun, tem, handler_data])
                      (\<lambda>_ s1. with_cdr handlers (\<lambda>hs. rec (Handlers hs sig data conditions)) (set_handlers (condition_handlers (ext s0)) s1)))
                    (set_handlers outer_handlers s)
             else if handler_data = Qt \<or> handler_data = Qerror then throw_signal rec handlers sig data s
             else rec (Clauses handler_data handlers sig data conditions) s)))) s0)"

definition clauses_call :: "'w eval_ops \<Rightarrow> 'w calls \<Rightarrow> lisp_object \<Rightarrow> lisp_object \<Rightarrow> lisp_object \<Rightarrow> lisp_object \<Rightarrow> lisp_object \<Rightarrow> 'w action" where
  "clauses_call ops rec h handlers sig data conditions =
     (if \<not> CONSP h then with_cdr handlers (\<lambda>outer. rec (Handlers outer sig data conditions))
      else with_car h (\<lambda>clause. do_list ops rec (\<lambda>hp. Some (Fcar hp clause)) (\<lambda>type.
             do_list ops rec (condition_type_p type conditions) (\<lambda>b.
               if b then with_cons sig data (\<lambda>x. do_list ops rec (\<lambda>hp. Some (Fcdr hp clause)) (\<lambda>forms. with_cons x forms (\<lambda>v. rec (Throw handlers v))))
               else with_cdr h (\<lambda>h'. rec (Clauses h' handlers sig data conditions))))))"

section \<open>Special forms\<close>

definition progn_call :: "'w calls \<Rightarrow> lisp_object \<Rightarrow> lisp_object \<Rightarrow> 'w action" where
  "progn_call rec tail v =
     (if NILP tail then (\<lambda>s. (Inr v, s))
      else with_car tail (\<lambda>form. abind (rec (Eval form)) (\<lambda>v. with_cdr tail (\<lambda>tail'. rec (Progn tail' v)))))"

definition prog1_call :: "'w calls \<Rightarrow> lisp_object \<Rightarrow> lisp_object \<Rightarrow> 'w action" where
  "prog1_call rec tail v =
     (if NILP tail then (\<lambda>s. (Inr v, s))
      else with_car tail (\<lambda>form. abind (rec (Eval form)) (\<lambda>_. with_cdr tail (\<lambda>tail'. rec (Prog1 tail' v)))))"

definition or_call :: "'w calls \<Rightarrow> lisp_object \<Rightarrow> 'w action" where
  "or_call rec tail =
     (if NILP tail then (\<lambda>s. (Inr Qnil, s))
      else with_car tail (\<lambda>arg. abind (rec (Eval arg)) (\<lambda>v. if \<not> NILP v then (\<lambda>s. (Inr v, s)) else with_cdr tail (\<lambda>tail'. rec (Or tail')))))"

definition and_call :: "'w calls \<Rightarrow> lisp_object \<Rightarrow> lisp_object \<Rightarrow> 'w action" where
  "and_call rec tail v =
     (if NILP tail then (\<lambda>s. (Inr v, s))
      else with_car tail (\<lambda>arg. abind (rec (Eval arg)) (\<lambda>v. if NILP v then (\<lambda>s. (Inr v, s)) else with_cdr tail (\<lambda>tail'. rec (And tail' v)))))"

definition Fif :: "'w calls \<Rightarrow> lisp_object \<Rightarrow> 'w action" where
  "Fif rec args =
     with_car args (\<lambda>condition. with_cdr args (\<lambda>rest. with_car rest (\<lambda>then_form. with_cdr rest (\<lambda>else_forms.
       abind (rec (Eval condition)) (\<lambda>v. if \<not> NILP v then rec (Eval then_form) else rec (Progn else_forms Qnil))))))"

definition cond_call :: "'w eval_ops \<Rightarrow> 'w calls \<Rightarrow> lisp_object \<Rightarrow> 'w action" where
  "cond_call ops rec tail =
     (if NILP tail then (\<lambda>s. (Inr Qnil, s))
      else with_car tail (\<lambda>clause.
        if \<not> CONSP clause then raise ops rec (Wrong_type_argument ''consp'' clause)
        else with_car clause (\<lambda>test. abind (rec (Eval test)) (\<lambda>v.
               if NILP v then with_cdr tail (\<lambda>tail'. rec (Cond tail'))
               else with_cdr clause (\<lambda>forms.
                      if NILP forms then (\<lambda>s. (Inr v, s)) else CHECK_TRUE_LIST ops rec forms (rec (Progn forms Qnil)))))))"

definition Fprog1 :: "'w calls \<Rightarrow> lisp_object \<Rightarrow> 'w action" where
  "Fprog1 rec args = with_car args (\<lambda>first. abind (rec (Eval first)) (\<lambda>v. with_cdr args (\<lambda>rest. rec (Prog1 rest v))))"

definition Fprog2 :: "'w calls \<Rightarrow> lisp_object \<Rightarrow> 'w action" where
  "Fprog2 rec args = with_car args (\<lambda>first. abind (rec (Eval first)) (\<lambda>_. with_cdr args (Fprog1 rec)))"

text \<open>The symbol and the value of an element of a \<open>let\<close>.\<close>

definition let_value :: "'w eval_ops \<Rightarrow> 'w calls \<Rightarrow> lisp_object \<Rightarrow> 'w action" where
  "let_value ops rec var =
     (if SYMBOLP var then (\<lambda>s. (Inr Qnil, s))
      else if \<not> CONSP var then raise ops rec (Wrong_type_argument ''consp'' var)
      else with_cdr var (\<lambda>tem.
        if NILP tem then (\<lambda>s. (Inr Qnil, s))
        else if \<not> CONSP tem then raise ops rec (Wrong_type_argument ''consp'' tem)
        else with_car tem (\<lambda>form. abind (rec (Eval form)) (\<lambda>v. with_cdr tem (\<lambda>rest.
               if \<not> NILP rest then raise ops rec (Simple_error ''`let' bindings can have only one value-form'' [var]) else (\<lambda>s. (Inr v, s)))))))"

definition letX_call :: "'w eval_ops \<Rightarrow> 'w calls \<Rightarrow> nat \<Rightarrow> lisp_object \<Rightarrow> lisp_object \<Rightarrow> lisp_object \<Rightarrow> nat \<Rightarrow> lisp_object \<Rightarrow> 'w action" where
  "letX_call ops rec len hare tortoise body speccount varlist =
     (if CONSP hare
      then with_car hare (\<lambda>var s0. (let var_symbol = (if SYMBOLP var then var else XCAR (heap s0) var)
             in abind (let_value ops rec var) (\<lambda>v.
                  do_effect ops rec (specbind (eval_vops ops rec) var_symbol v)
                    (next_hare ops rec varlist len hare tortoise (\<lambda>len' hare' tortoise'. rec (LetX len' hare' tortoise' body speccount varlist)))) s0))
      else if NILP hare then abind (rec (Progn body Qnil)) (unbind ops rec speccount)
      else raise ops rec (Malformed_list varlist))"

definition let_values_call :: "'w eval_ops \<Rightarrow> 'w calls \<Rightarrow> lisp_object \<Rightarrow> lisp_object list \<Rightarrow> nat \<Rightarrow> lisp_object \<Rightarrow> lisp_object \<Rightarrow> 'w action" where
  "let_values_call ops rec tail temps varcount varlist body =
     (if NILP tail then (\<lambda>s. rec (Let_bind varlist temps body (specpdl_depth s)) s)
      else if length temps \<ge> varcount then fatal
      else with_car tail (\<lambda>var. abind (let_value ops rec var) (\<lambda>v. with_cdr tail (\<lambda>tail'. rec (Let_values tail' (temps @ [v]) varcount varlist body)))))"

definition let_bind_call :: "'w eval_ops \<Rightarrow> 'w calls \<Rightarrow> lisp_object \<Rightarrow> lisp_object list \<Rightarrow> lisp_object \<Rightarrow> nat \<Rightarrow> 'w action" where
  "let_bind_call ops rec tail temps body speccount =
     (if NILP tail then abind (rec (Progn body Qnil)) (unbind ops rec speccount)
      else with_car tail (\<lambda>var.
        case temps of [] \<Rightarrow> fatal
        | v # temps' \<Rightarrow>
            (let bind = (\<lambda>x. do_effect ops rec (specbind (eval_vops ops rec) x v) (with_cdr tail (\<lambda>tail'. rec (Let_bind tail' temps' body speccount))))
             in if SYMBOLP var then bind var else with_car var bind)))"

definition Flet :: "'w eval_ops \<Rightarrow> 'w calls \<Rightarrow> lisp_object \<Rightarrow> 'w action" where
  "Flet ops rec args =
     with_car args (\<lambda>varlist. with_cdr args (\<lambda>body.
       do_list ops rec (GET_EXTERNAL_LIST_LENGTH varlist) (\<lambda>varcount. rec (Let_values varlist [] varcount varlist body))))"

definition FletX :: "'w calls \<Rightarrow> lisp_object \<Rightarrow> 'w action" where
  "FletX rec args = with_car args (\<lambda>varlist. with_cdr args (\<lambda>body s. rec (LetX 0 varlist varlist body (specpdl_depth s) varlist) s))"

definition while_call :: "'w eval_ops \<Rightarrow> 'w calls \<Rightarrow> lisp_object \<Rightarrow> lisp_object \<Rightarrow> 'w action" where
  "while_call ops rec test body =
     abind (rec (Eval test)) (\<lambda>v. if NILP v then (\<lambda>s. (Inr Qnil, s))
       else do_effect ops rec (QUIT (bops ops)) (abind (rec (Progn body Qnil)) (\<lambda>_. rec (While test body))))"

text \<open>\<open>set\<close> with its check for constant symbols.\<close>

definition Fset_symbol :: "'w eval_ops \<Rightarrow> 'w calls \<Rightarrow> lisp_object \<Rightarrow> lisp_object \<Rightarrow> 'w globals effect" where
  "Fset_symbol ops rec x v =
     (case x of
        Lisp_Symbol y \<Rightarrow> and_then (reject_constant_symbols (eval_vops ops rec) y v) (Fset (eval_vops ops rec) y v)
      | _ \<Rightarrow> (\<lambda>s. (Some (Wrong_type_argument ''symbolp'' x), s)))"

definition setq_call :: "'w eval_ops \<Rightarrow> 'w calls \<Rightarrow> lisp_object \<Rightarrow> lisp_object \<Rightarrow> 'w action" where
  "setq_call ops rec tail v =
     (if NILP tail then (\<lambda>s. (Inr v, s))
      else with_car tail (\<lambda>x. with_cdr tail (\<lambda>tail1. with_car tail1 (\<lambda>form. with_cdr tail1 (\<lambda>tail2.
        abind (rec (Eval form)) (\<lambda>v. do_effect ops rec (Fset_symbol ops rec x v) (rec (Setq tail2 v))))))))"

definition Fsetq :: "'w eval_ops \<Rightarrow> 'w calls \<Rightarrow> lisp_object \<Rightarrow> 'w action" where
  "Fsetq ops rec args =
     do_list ops rec (GET_EXTERNAL_LIST_LENGTH args) (\<lambda>nargs.
       if odd nargs then signal_list rec Qwrong_number_of_arguments [Qsetq, Lisp_Int (int nargs)] else rec (Setq args Qnil))"

definition define_function :: "'w eval_ops \<Rightarrow> 'w calls \<Rightarrow> lisp_object \<Rightarrow> lisp_object \<Rightarrow> 'w action" where
  "define_function ops rec name defn = do_effect ops rec (Ffset ops name defn) (\<lambda>s. (Inr name, s))"

definition Fcatch :: "'w calls \<Rightarrow> lisp_object \<Rightarrow> 'w action" where
  "Fcatch rec args =
     with_car args (\<lambda>form. abind (rec (Eval form)) (\<lambda>tag. with_cdr args (\<lambda>body. internal_catch tag (rec (Progn body Qnil)))))"

definition Funwind_protect :: "'w eval_ops \<Rightarrow> 'w calls \<Rightarrow> lisp_object \<Rightarrow> 'w action" where
  "Funwind_protect ops rec args =
     with_cdr args (\<lambda>forms s. do_effect ops rec (record_unwind_protect (Unwind 0) forms)
       (with_car args (\<lambda>form. abind (rec (Eval form)) (unbind ops rec (specpdl_depth s)))) s)"

definition Fcondition_case :: "'w eval_ops \<Rightarrow> 'w calls \<Rightarrow> lisp_object \<Rightarrow> 'w action" where
  "Fcondition_case ops rec args =
     with_car args (\<lambda>var. with_cdr args (\<lambda>rest. with_car rest (\<lambda>bodyform. with_cdr rest (\<lambda>handlers.
       condition_case_3 ops rec bodyform var handlers))))"

fun special_call :: "'w eval_ops \<Rightarrow> 'w calls \<Rightarrow> special_form \<Rightarrow> lisp_object \<Rightarrow> 'w action" where
  "special_call ops rec S_or args = rec (Or args)"
| "special_call ops rec S_and args = rec (And args Qt)"
| "special_call ops rec S_if args = Fif rec args"
| "special_call ops rec S_cond args = rec (Cond args)"
| "special_call ops rec S_progn args = rec (Progn args Qnil)"
| "special_call ops rec S_prog1 args = Fprog1 rec args"
| "special_call ops rec S_prog2 args = Fprog2 rec args"
| "special_call ops rec S_letX args = FletX rec args"
| "special_call ops rec S_let args = Flet ops rec args"
| "special_call ops rec S_while args = with_car args (\<lambda>test. with_cdr args (\<lambda>body. rec (While test body)))"
| "special_call ops rec S_setq args = Fsetq ops rec args"
| "special_call ops rec S_quote args = with_car args (\<lambda>x s. (Inr x, s))"
| "special_call ops rec S_function args = with_car args (\<lambda>x s. (Inr x, s))"
| "special_call ops rec S_defun args =
     with_car args (\<lambda>name. with_cdr args (\<lambda>rest. with_cons Qlambda rest (\<lambda>defn. define_function ops rec name defn)))"
| "special_call ops rec S_defmacro args =
     with_car args (\<lambda>name. with_cdr args (\<lambda>rest. with_cons Qlambda rest (\<lambda>f. with_cons Qmacro f (\<lambda>defn. define_function ops rec name defn))))"
| "special_call ops rec S_catch args = Fcatch rec args"
| "special_call ops rec S_unwind_protect args = Funwind_protect ops rec args"
| "special_call ops rec S_condition_case args = Fcondition_case ops rec args"

section \<open>Lambda expressions and compiled functions\<close>

definition lambda_args_call ::
    "'w eval_ops \<Rightarrow> 'w calls \<Rightarrow> nat \<Rightarrow> lisp_object \<Rightarrow> lisp_object \<Rightarrow> bool \<Rightarrow> bool \<Rightarrow> lisp_object list \<Rightarrow> lisp_object \<Rightarrow> nat \<Rightarrow> nat \<Rightarrow> lisp_object \<Rightarrow> lisp_object \<Rightarrow> 'w action" where
  "lambda_args_call ops rec len hare tortoise opt rest args fun nargs speccount formals body =
     (if CONSP hare
      then with_car hare (\<lambda>x.
           let go = (\<lambda>opt' rest' args'. next_hare ops rec formals len hare tortoise
                 (\<lambda>len' hare' tortoise'. rec (Lambda_args len' hare' tortoise' opt' rest' args' fun nargs speccount formals body)));
               bind = (\<lambda>v. do_effect ops rec (specbind (eval_vops ops rec) x v))
           in if \<not> SYMBOLP x then signal_invalid_function_error rec fun
              else if x = Qand_rest then go opt True args
              else if x = Qand_optional then go True rest args
              else if rest then with_list args (\<lambda>l. bind l (go opt rest []))
              else case args of
                     v # args' \<Rightarrow> bind v (go opt rest args')
                   | [] \<Rightarrow> if \<not> opt then signal_wrong_number_of_arguments_error rec fun nargs else bind Qnil (go opt rest []))
      else if NILP hare
      then if args \<noteq> [] then signal_wrong_number_of_arguments_error rec fun nargs
           else abind (rec (Progn body Qnil)) (unbind ops rec speccount)
      else raise ops rec (Malformed_list formals))"

definition funcall_lambda :: "'w eval_ops \<Rightarrow> 'w calls \<Rightarrow> lisp_object \<Rightarrow> lisp_object list \<Rightarrow> 'w action" where
  "funcall_lambda ops rec fun args =
     with_cdr fun (\<lambda>tail. if \<not> CONSP tail then signal_invalid_function_error rec fun
       else with_car tail (\<lambda>formals. with_cdr tail (\<lambda>body s.
              rec (Lambda_args 0 formals formals False False args fun (length args) (specpdl_depth s) formals body) s)))"

text \<open>
  The interpreter calls back: \<open>Bcall\<close>, the cleanup functions, \<open>Bcatch\<close>, 141, \<open>Bcondition_case\<close>, 143, and the
  body of \<open>Bsave_window_excursion\<close>, 139.
\<close>

definition compiled_ops :: "'w eval_ops \<Rightarrow> 'w calls \<Rightarrow> 'w globals bc_ops" where
  "compiled_ops ops rec = (bops ops)\<lparr>vops := eval_vops ops rec, Ffuncall := \<lambda>args. rec (Funcall args), Fprogn_function := 0,
     prim := \<lambda>opcode args.
       if opcode = 141 then internal_catch (args ! 0) (rec (Eval (args ! 1)))
       else if opcode = 143 then condition_case_3 ops rec (args ! 1) (args ! 0) (args ! 2)
       else if opcode = 139 then rec (Progn (args ! 0) Qnil)
       else prim (bops ops) opcode args\<rparr>"

definition outcome_action :: "'w eval_ops \<Rightarrow> 'w calls \<Rightarrow> 'w globals outcome \<Rightarrow> (lisp_error + lisp_object) \<times> 'w eval_state \<Rightarrow> (lisp_error + lisp_object) \<times> 'w eval_state" where
  "outcome_action ops rec r r0 = (case r of Return v s \<Rightarrow> (Inr v, s) | Exit e s \<Rightarrow> raise ops rec e s | _ \<Rightarrow> r0)"

text \<open>A function is optimized before its first call.\<close>

definition funcall_compiled :: "'w eval_ops \<Rightarrow> 'w calls \<Rightarrow> nat \<Rightarrow> lisp_object list \<Rightarrow> 'w action" where
  "funcall_compiled ops rec i args s =
     (case compiled_functions (ext s) i of None \<Rightarrow> fatal s
      | Some f \<Rightarrow>
          (case optimize_compiled_function (keyword (vops (bops ops))) f of
             None \<Rightarrow> fatal s
           | Some (Inl Fault) \<Rightarrow> fatal s
           | Some (Inl (Invalid_byte_code msg)) \<Rightarrow> raise ops rec (Error_string msg) s
           | Some (Inr f) \<Rightarrow>
               let s1 = s\<lparr>ext := (ext s)\<lparr>compiled_functions := (compiled_functions (ext s))(i \<mapsto> f)\<rparr>\<rparr>
               in case funcall_compiled_function (compiled_ops ops rec) f args s1 of
                    None \<Rightarrow> (Inl Out_of_fuel, s1)
                  | Some (r, _) \<Rightarrow> outcome_action ops rec r (fatal s1)))"

definition Ffuncall_compiled :: "'w eval_ops \<Rightarrow> 'w calls \<Rightarrow> lisp_object \<Rightarrow> lisp_object list \<Rightarrow> 'w action" where
  "Ffuncall_compiled ops rec fun args = (case fun of Lisp_Lrecord Lrecord_compiled_function i \<Rightarrow> funcall_compiled ops rec i args | _ \<Rightarrow> fatal)"

section \<open>Evaluation\<close>

fun core_call :: "'w eval_ops \<Rightarrow> 'w calls \<Rightarrow> core_function \<Rightarrow> lisp_object list \<Rightarrow> 'w action" where
  "core_call ops rec C_eval args = rec (Eval (args ! 0))"
| "core_call ops rec C_funcall args = rec (Funcall args)"
| "core_call ops rec C_apply args = Fapply ops rec args"
| "core_call ops rec C_throw args = rec (Throw (args ! 0) (args ! 1))"
| "core_call ops rec C_signal args = rec (Signal (args ! 0) (args ! 1))"
| "core_call ops rec C_call_with_condition_handler args = Fcall_with_condition_handler ops rec args"

definition call_subr :: "'w eval_ops \<Rightarrow> 'w calls \<Rightarrow> 'w subr \<Rightarrow> lisp_object list \<Rightarrow> 'w action" where
  "call_subr ops rec sb args =
     (let args' = (case max_args sb of Max_args m \<Rightarrow> take m args @ replicate (m - length args) Qnil | _ \<Rightarrow> args)
      in case subr_code sb of
           Primitive f \<Rightarrow> do_value ops rec (f args')
         | Core c \<Rightarrow> core_call ops rec c args'
         | Special form \<Rightarrow> fatal)"

text \<open>
  The values are written to an array: of \<open>SUBR_MAX_ARGS\<close> elements for a C function with that many arguments
  at most, else of the length the list had before. When the list is changed meanwhile, less or more may be written.
\<close>

abbreviation (input) SUBR_MAX_ARGS :: nat where
  "SUBR_MAX_ARGS \<equiv> 8"

definition args_room :: "'w eval_ops \<Rightarrow> nat \<Rightarrow> continuation \<Rightarrow> nat" where
  "args_room ops nargs k =
     (case k of
        To_subr i \<Rightarrow> (case subrs ops i of Some sb \<Rightarrow> (case max_args sb of Max_args m \<Rightarrow> SUBR_MAX_ARGS | _ \<Rightarrow> nargs) | None \<Rightarrow> nargs)
      | _ \<Rightarrow> nargs)"

definition args_call :: "'w eval_ops \<Rightarrow> 'w calls \<Rightarrow> lisp_object \<Rightarrow> lisp_object list \<Rightarrow> nat \<Rightarrow> continuation \<Rightarrow> 'w action" where
  "args_call ops rec tail vals nargs k =
     (if NILP tail
      then (case k of
              To_subr i \<Rightarrow>
                (case subrs ops i of None \<Rightarrow> fatal
                 | Some sb \<Rightarrow> if max_args sb = MANY \<and> length vals \<noteq> nargs then fatal else call_subr ops rec sb vals)
            | To_compiled fun \<Rightarrow> if length vals \<noteq> nargs then fatal else Ffuncall_compiled ops rec fun vals
            | To_lambda fun \<Rightarrow> if length vals \<noteq> nargs then fatal else funcall_lambda ops rec fun vals)
      else if length vals \<ge> args_room ops nargs k then fatal
      else with_car tail (\<lambda>arg. abind (rec (Eval arg)) (\<lambda>v. with_cdr tail (\<lambda>tail'. rec (Args tail' (vals @ [v]) nargs k)))))"

definition eval_retry_call :: "'w eval_ops \<Rightarrow> 'w calls \<Rightarrow> lisp_object \<Rightarrow> lisp_object \<Rightarrow> nat \<Rightarrow> 'w action" where
  "eval_retry_call ops rec original_fun original_args nargs =
     indirect_function rec original_fun True (\<lambda>fun.
       case fun of
         Lisp_Lrecord Lrecord_subr i \<Rightarrow>
           (case subrs ops i of None \<Rightarrow> fatal
            | Some sb \<Rightarrow>
                if nargs < min_args sb then signal_wrong_number_of_arguments_error rec original_fun nargs
                else (case max_args sb of
                        UNEVALLED \<Rightarrow> (case subr_code sb of Special form \<Rightarrow> special_call ops rec form original_args | _ \<Rightarrow> fatal)
                      | MANY \<Rightarrow> rec (Args original_args [] nargs (To_subr i))
                      | Max_args m \<Rightarrow>
                          if nargs \<le> m then rec (Args original_args [] nargs (To_subr i))
                          else signal_wrong_number_of_arguments_error rec original_fun nargs))
       | Lisp_Lrecord Lrecord_compiled_function i \<Rightarrow> rec (Args original_args [] nargs (To_compiled fun))
       | Lisp_Cons a \<Rightarrow>
           with_car fun (\<lambda>funcar.
             if funcar = Qautoload then do_effect ops rec (do_autoload ops fun original_fun) (rec (Eval_retry original_fun original_args nargs))
             else if funcar = Qmacro then with_cdr fun (\<lambda>expander. abind (apply1 ops rec expander original_args) (\<lambda>form. rec (Eval form)))
             else if funcar = Qlambda then rec (Args original_args [] nargs (To_lambda fun))
             else signal_invalid_function_error rec fun)
       | _ \<Rightarrow> signal_invalid_function_error rec fun)"

definition Feval :: "'w eval_ops \<Rightarrow> 'w calls \<Rightarrow> lisp_object \<Rightarrow> 'w action" where
  "Feval ops rec form =
     (if CONSP form
      then leave_call (enter_call ops rec (with_car form (\<lambda>fun. with_cdr form (\<lambda>args.
             do_list ops rec (GET_EXTERNAL_LIST_LENGTH args) (\<lambda>nargs. rec (Eval_retry fun args nargs))))))
      else case form of Lisp_Symbol y \<Rightarrow> do_value ops rec (Fsymbol_value (bops ops) y) | _ \<Rightarrow> (\<lambda>s. (Inr form, s)))"

text \<open>\<open>funcall\<close> follows two symbols itself, without a check for void functions.\<close>

definition funcall_function :: "'w calls \<Rightarrow> lisp_object \<Rightarrow> (lisp_object \<Rightarrow> 'w action) \<Rightarrow> 'w action" where
  "funcall_function rec fun f s =
     (let fs = function_of (ext s); fun1 = symbol_function fs fun; fun2 = symbol_function fs fun1
      in if SYMBOLP fun \<and> SYMBOLP fun1 \<and> SYMBOLP fun2 then indirect_function rec fun2 True f s
         else f fun2 s)"

definition funcall_retry_call :: "'w eval_ops \<Rightarrow> 'w calls \<Rightarrow> lisp_object list \<Rightarrow> 'w action" where
  "funcall_retry_call ops rec args =
     (case args of [] \<Rightarrow> fatal
      | original_fun # fun_args \<Rightarrow>
          funcall_function rec original_fun (\<lambda>fun.
            case fun of
              Lisp_Lrecord Lrecord_subr i \<Rightarrow>
                (case subrs ops i of None \<Rightarrow> fatal
                 | Some sb \<Rightarrow>
                     if max_args sb = Max_args (length fun_args) then call_subr ops rec sb fun_args
                     else if length fun_args < min_args sb then signal_wrong_number_of_arguments_error rec fun (length fun_args)
                     else (case max_args sb of
                             Max_args m \<Rightarrow> if length fun_args < m then call_subr ops rec sb fun_args
                               else signal_wrong_number_of_arguments_error rec fun (length fun_args)
                           | MANY \<Rightarrow> call_subr ops rec sb fun_args
                           | UNEVALLED \<Rightarrow> signal_invalid_function_error rec fun))
            | Lisp_Lrecord Lrecord_compiled_function i \<Rightarrow> Ffuncall_compiled ops rec fun fun_args
            | Lisp_Cons a \<Rightarrow>
                with_car fun (\<lambda>funcar.
                  if funcar = Qlambda then funcall_lambda ops rec fun fun_args
                  else if funcar = Qautoload then do_effect ops rec (do_autoload ops fun original_fun) (rec (Funcall_retry args))
                  else signal_invalid_function_error rec fun)
            | _ \<Rightarrow> if UNBOUNDP fun then signal_void_function_error rec original_fun else signal_invalid_function_error rec fun))"

fun step :: "'w eval_ops \<Rightarrow> 'w calls \<Rightarrow> 'w calls" where
  "step ops rec (Eval form) = Feval ops rec form"
| "step ops rec (Eval_retry fun args nargs) = eval_retry_call ops rec fun args nargs"
| "step ops rec (Args tail vals nargs k) = args_call ops rec tail vals nargs k"
| "step ops rec (Funcall args) = leave_call (enter_call ops rec (rec (Funcall_retry args)))"
| "step ops rec (Funcall_retry args) = funcall_retry_call ops rec args"
| "step ops rec (Lambda_args len hare tortoise opt rest args fun nargs speccount formals body) =
     lambda_args_call ops rec len hare tortoise opt rest args fun nargs speccount formals body"
| "step ops rec (Progn tail v) = progn_call rec tail v"
| "step ops rec (Prog1 tail v) = prog1_call rec tail v"
| "step ops rec (Or tail) = or_call rec tail"
| "step ops rec (And tail v) = and_call rec tail v"
| "step ops rec (Cond tail) = cond_call ops rec tail"
| "step ops rec (While test body) = while_call ops rec test body"
| "step ops rec (Setq tail v) = setq_call ops rec tail v"
| "step ops rec (LetX len hare tortoise body speccount varlist) = letX_call ops rec len hare tortoise body speccount varlist"
| "step ops rec (Let_values tail temps varcount varlist body) = let_values_call ops rec tail temps varcount varlist body"
| "step ops rec (Let_bind tail temps body speccount) = let_bind_call ops rec tail temps body speccount"
| "step ops rec (Signal sig data) = (\<lambda>s. handlers_call ops rec (condition_handlers (ext s)) sig data (error_conditions ops sig s) s)"
| "step ops rec (Handlers handlers sig data conditions) = handlers_call ops rec handlers sig data conditions"
| "step ops rec (Clauses h handlers sig data conditions) = clauses_call ops rec h handlers sig data conditions"
| "step ops rec (Throw tag v) = throw_call ops rec tag v"

text \<open>The number bounds how deeply calls are nested.\<close>

primrec interp :: "'w eval_ops \<Rightarrow> nat \<Rightarrow> 'w calls" where
  "interp ops 0 c s = (Inl Out_of_fuel, s)"
| "interp ops (Suc n) c s = step ops (interp ops n) c s"

end
