(* ===== verification/EvalControl.thy ===== *)
theory EvalControl
  imports Evaluator
begin

text \<open>
  Evaluation leaves the stacks of the Lisp system as they were: a call that returns leaves the binding stack as
  high, and the catches and the nesting as they were before it; an exit ends at a catch that was there before
  the call, with all three as they were when that catch was set up.
\<close>

section \<open>Control state\<close>

abbreviation catches :: "'w eval_state \<Rightarrow> catchtag list" where
  "catches s \<equiv> catchlist (ext s)"

abbreviation nesting :: "'w eval_state \<Rightarrow> int" where
  "nesting s \<equiv> lisp_eval_depth (ext s)"

definition ctl :: "catchtag list \<Rightarrow> int \<Rightarrow> nat \<Rightarrow> 'w eval_state \<Rightarrow> bool" where
  "ctl L e d s \<longleftrightarrow> catches s = L \<and> nesting s = e \<and> specpdl_depth s = d"

text \<open>Where an exit ends. An error that has not been signalled yet is no exit.\<close>

definition lands :: "catchtag list \<Rightarrow> nat \<Rightarrow> 'w eval_state \<Rightarrow> bool" where
  "lands L k s \<longleftrightarrow> (\<exists>pre c post. L = pre @ c # post \<and> length post = k \<and> ctl post (saved_eval_depth c) (pdlcount c) s)"

definition exits :: "catchtag list \<Rightarrow> lisp_error \<Rightarrow> 'w eval_state \<Rightarrow> bool" where
  "exits L x s \<longleftrightarrow> (case x of Longjmp k v \<Rightarrow> lands L k s | Out_of_fuel \<Rightarrow> True | Fatal \<Rightarrow> True | _ \<Rightarrow> False)"

definition plain :: "lisp_error \<Rightarrow> bool" where
  "plain x \<longleftrightarrow> (case x of Longjmp k v \<Rightarrow> False | _ \<Rightarrow> True)"

definition fails :: "catchtag list \<Rightarrow> lisp_error \<Rightarrow> 'w eval_state \<Rightarrow> bool" where
  "fails L x s \<longleftrightarrow> exits L x s \<or> plain x \<and> catches s = L"

lemma plain_simps [simp]:
  "plain (Wrong_type_argument p x)" "plain (Args_out_of_range x y)" "plain (Simple_error m xs)" "plain (Malformed_list x)" "plain (Circular_list x)"
  "plain (Error_string m)" "plain Fatal" "plain Out_of_fuel" "\<not> plain (Longjmp k v)"
  by (simp_all add: plain_def)

lemma exits_simps [simp]: "exits L Fatal s" "exits L Out_of_fuel s" "exits L (Longjmp k v) s \<longleftrightarrow> lands L k s"
  by (simp_all add: exits_def)

lemma fails_simps [simp]: "fails L Fatal s" "fails L Out_of_fuel s" "fails L (Longjmp k v) s \<longleftrightarrow> lands L k s"
  by (simp_all add: fails_def)

lemma fails_plain: "plain x \<Longrightarrow> catches s = L \<Longrightarrow> fails L x s"
  by (simp add: fails_def)

definition leaves :: "catchtag list \<Rightarrow> int \<Rightarrow> nat \<Rightarrow> (lisp_error + lisp_object) \<times> 'w eval_state \<Rightarrow> bool" where
  "leaves L e d r \<longleftrightarrow> (case fst r of Inr v \<Rightarrow> ctl L e d (snd r) | Inl x \<Rightarrow> exits L x (snd r))"

text \<open>Actions and effects that start at depth \<open>d\<close> and end at depth \<open>d'\<close>.\<close>

definition ok :: "nat \<Rightarrow> 'w action \<Rightarrow> nat \<Rightarrow> bool" where
  "ok d f d' \<longleftrightarrow> (\<forall>L e s. ctl L e d s \<longrightarrow> leaves L e d' (f s))"

definition eff :: "nat \<Rightarrow> 'w globals effect \<Rightarrow> nat \<Rightarrow> bool" where
  "eff d f d' \<longleftrightarrow> (\<forall>L e s. ctl L e d s \<longrightarrow> (case fst (f s) of None \<Rightarrow> ctl L e d' (snd (f s)) | Some x \<Rightarrow> fails L x (snd (f s))))"

definition val :: "nat \<Rightarrow> 'w action \<Rightarrow> nat \<Rightarrow> bool" where
  "val d f d' \<longleftrightarrow> (\<forall>L e s. ctl L e d s \<longrightarrow> (case fst (f s) of Inr v \<Rightarrow> ctl L e d' (snd (f s)) | Inl x \<Rightarrow> fails L x (snd (f s))))"

text \<open>C functions of which only the catches and the nesting matter.\<close>

definition same_control :: "'w eval_state \<Rightarrow> 'w eval_state \<Rightarrow> bool" where
  "same_control s s' \<longleftrightarrow> catches s' = catches s \<and> nesting s' = nesting s"

definition value_at :: "'w eval_state \<Rightarrow> (lisp_error + lisp_object) \<times> 'w eval_state \<Rightarrow> bool" where
  "value_at s r \<longleftrightarrow> (case fst r of Inr v \<Rightarrow> same_control s (snd r) | Inl x \<Rightarrow> fails (catches s) x (snd r))"

definition effect_at :: "'w eval_state \<Rightarrow> lisp_error option \<times> 'w eval_state \<Rightarrow> bool" where
  "effect_at s r \<longleftrightarrow> (case fst r of None \<Rightarrow> same_control s (snd r) | Some x \<Rightarrow> fails (catches s) x (snd r))"

definition value_control :: "'w action \<Rightarrow> bool" where
  "value_control f \<longleftrightarrow> (\<forall>s. value_at s (f s))"

definition effect_control :: "'w globals effect \<Rightarrow> bool" where
  "effect_control f \<longleftrightarrow> (\<forall>s. effect_at s (f s))"

lemma value_at_simps [simp]: "value_at s (Inr v, t) = same_control s t" "value_at s (Inl x, t) = fails (catches s) x t"
  by (simp_all add: value_at_def)

lemma effect_at_simps [simp]: "effect_at s (None, t) = same_control s t" "effect_at s (Some x, t) = fails (catches s) x t"
  by (simp_all add: effect_at_def)

lemma ctl_self: "ctl (catches s) (nesting s) (specpdl_depth s) s"
  by (simp add: ctl_def)

lemma eff_control: "(\<And>d. eff d f d) \<Longrightarrow> effect_control f"
  unfolding effect_control_def effect_at_def
proof
  fix s assume "\<And>d. eff d f d"
  then have "case fst (f s) of None \<Rightarrow> ctl (catches s) (nesting s) (specpdl_depth s) (snd (f s)) | Some x \<Rightarrow> fails (catches s) x (snd (f s))"
    using ctl_self unfolding eff_def by blast
  then show "case fst (f s) of None \<Rightarrow> same_control s (snd (f s)) | Some x \<Rightarrow> fails (catches s) x (snd (f s))"
    by (auto simp: same_control_def ctl_def split: option.splits)
qed

lemma val_control: "(\<And>d. val d f d) \<Longrightarrow> value_control f"
  unfolding value_control_def value_at_def
proof
  fix s assume "\<And>d. val d f d"
  then have "case fst (f s) of Inr v \<Rightarrow> ctl (catches s) (nesting s) (specpdl_depth s) (snd (f s)) | Inl x \<Rightarrow> fails (catches s) x (snd (f s))"
    using ctl_self unfolding val_def by blast
  then show "case fst (f s) of Inr v \<Rightarrow> same_control s (snd (f s)) | Inl x \<Rightarrow> fails (catches s) x (snd (f s))"
    by (auto simp: same_control_def ctl_def split: sum.splits)
qed

lemma ok_control: "(\<And>d. ok d f d) \<Longrightarrow> value_control f"
  unfolding value_control_def value_at_def
proof
  fix s assume "\<And>d. ok d f d"
  then have "leaves (catches s) (nesting s) (specpdl_depth s) (f s)" using ctl_self unfolding ok_def by blast
  then show "case fst (f s) of Inr v \<Rightarrow> same_control s (snd (f s)) | Inl x \<Rightarrow> fails (catches s) x (snd (f s))"
    by (auto simp: leaves_def same_control_def ctl_def fails_def split: sum.splits)
qed

section \<open>What the evaluator calls\<close>

definition variables_ok :: "'w globals variable_ops \<Rightarrow> bool" where
  "variables_ok V \<longleftrightarrow>
     (\<forall>d y v. eff d (Fset_magic V y v) d) \<and> (\<forall>d y. eff d (Fkill_local_variable V y) d) \<and> (\<forall>d b. eff d (Fset_buffer V b) d) \<and>
     (\<forall>d f x. eff d (call_unwind V f x) d)"

text \<open>
  Functions written in C and the primitives keep the stacks when they return, and signal their errors with
  the catches as they were. The errors of comparisons of numbers are errors, and so are the symbols of errors.
\<close>

definition world_ok :: "'w eval_ops \<Rightarrow> bool" where
  "world_ok ops \<longleftrightarrow>
     variables_ok (vops (bops ops)) \<and> (\<forall>d. eff d (QUIT (bops ops)) d) \<and> (\<forall>d f x. eff d (do_autoload ops f x) d) \<and> (\<forall>d x v. eff d (Ffset ops x v) d) \<and>
     (\<forall>d y. val d (Fsymbol_value (bops ops) y) d) \<and>
     (\<forall>opcode args. value_control (prim (bops ops) opcode args)) \<and> (\<forall>opcode a b. value_control (float_arith (bops ops) opcode a b)) \<and>
     (\<forall>a b s x. float_compare (bops ops) a b s = Inl x \<longrightarrow> plain x) \<and>
     (\<forall>opcode s. same_control s (snd (save_state (bops ops) opcode s)) \<and> specpdl_depth (snd (save_state (bops ops) opcode s)) = specpdl_depth s) \<and>
     (\<forall>i sb f d args. subrs ops i = Some sb \<longrightarrow> subr_code sb = Primitive f \<longrightarrow> val d (f args) d)"

section \<open>Rules\<close>

lemma leaves_fatal [simp]: "leaves L e d (fatal s)"
  by (simp add: leaves_def fatal_def)

lemma ok_fatal [intro!, simp]: "ok d fatal d'"
  by (simp add: ok_def)

lemma ok_return [intro!]: "ok d (\<lambda>s. (Inr v, s)) d"
  by (simp add: ok_def leaves_def)

lemma ok_abind [intro!]:
  assumes "ok d f d1" and "\<And>v. ok d1 (g v) d2"
  shows "ok d (abind f g) d2"
  unfolding ok_def
proof (intro allI impI)
  fix L e and s :: "'a eval_state" assume s: "ctl L e d s"
  obtain r s' where f: "f s = (r, s')" by fastforce
  have "leaves L e d1 (f s)" using assms(1) s by (auto simp: ok_def)
  then show "leaves L e d2 (abind f g s)" using assms(2) f by (cases r) (auto simp: leaves_def abind_def ok_def)
qed

lemma ok_with_car [intro!]: "(\<And>y. ok d (f y) d') \<Longrightarrow> ok d (with_car x f) d'"
  by (simp add: ok_def with_car_def)

lemma ok_with_cdr [intro!]: "(\<And>y. ok d (f y) d') \<Longrightarrow> ok d (with_cdr x f) d'"
  by (simp add: ok_def with_cdr_def)

lemma ctl_heap [simp]: "ctl L e d (s\<lparr>heap := h\<rparr>) = ctl L e d s"
  by (simp add: ctl_def specpdl_depth_def)

lemma ok_with_cons [intro!]: "(\<And>y. ok d (f y) d') \<Longrightarrow> ok d (with_cons x z f) d'"
  by (simp add: ok_def with_cons_def split: prod.split)

lemma ok_with_list [intro!]: "(\<And>y. ok d (f y) d') \<Longrightarrow> ok d (with_list xs f) d'"
  by (simp add: ok_def with_list_def split: prod.split)

lemma ok_if [intro!]: "(P \<Longrightarrow> ok d f d') \<Longrightarrow> (\<not> P \<Longrightarrow> ok d g d') \<Longrightarrow> ok d (if P then f else g) d'"
  by simp

text \<open>Calls: the depth they end at. Signals and throws do not return.\<close>

fun target :: "call \<Rightarrow> nat \<Rightarrow> nat" where
  "target (LetX len hare tortoise body speccount varlist) d = speccount"
| "target (Let_bind tail temps body speccount) d = speccount"
| "target (Lambda_args len hare tortoise opt rest args fun nargs speccount formals body) d = speccount"
| "target c d = d"

fun never_returns :: "call \<Rightarrow> bool" where
  "never_returns (Signal sig data) = True"
| "never_returns (Handlers hs sig data conditions) = True"
| "never_returns (Clauses h hs sig data conditions) = True"
| "never_returns (Throw tag v) = True"
| "never_returns c = False"

definition rec_ok :: "'w calls \<Rightarrow> bool" where
  "rec_ok rec \<longleftrightarrow> (\<forall>c d. ok d (rec c) (target c d)) \<and> (\<forall>c s v. never_returns c \<longrightarrow> fst (rec c s) \<noteq> Inr v)"

lemma ok_rec: "rec_ok rec \<Longrightarrow> target c d = d' \<Longrightarrow> ok d (rec c) d'"
  by (auto simp: rec_ok_def)

lemma ok_never: "rec_ok rec \<Longrightarrow> never_returns c \<Longrightarrow> ok d (rec c) d'"
proof -
  assume rec: "rec_ok rec" and c: "never_returns c"
  then have "ok d (rec c) d" by (cases c) (auto intro: ok_rec)
  moreover have "\<And>s v. fst (rec c s) \<noteq> Inr v" using rec c by (auto simp: rec_ok_def)
  ultimately show ?thesis by (auto simp: ok_def leaves_def split: sum.splits)
qed

lemma exits_free: "leaves L e d r \<Longrightarrow> (\<And>v. fst r \<noteq> Inr v) \<Longrightarrow> leaves L e' d' r"
  by (auto simp: leaves_def split: sum.splits)

lemma raise_leaves:
  assumes "rec_ok rec" and "fails L x s"
  shows "leaves L e d (raise ops rec x s)"
proof (cases "exits L x s")
  case True
  then show ?thesis by (cases x) (simp_all add: raise_def leaves_def exits_def)
next
  case False
  then have x: "plain x" "catches s = L" using assms(2) by (simp_all add: fails_def)
  have "leaves L e d (rec (Signal sig data) (s\<lparr>heap := h\<rparr>))" for sig data h
  proof -
    have "ctl L (nesting s) (specpdl_depth s) (s\<lparr>heap := h\<rparr>)" using x(2) by (simp add: ctl_def specpdl_depth_def)
    moreover have "ok (specpdl_depth s) (rec (Signal sig data)) (specpdl_depth s)" by (rule ok_never [OF assms(1)]) simp
    ultimately have "leaves L (nesting s) (specpdl_depth s) (rec (Signal sig data) (s\<lparr>heap := h\<rparr>))" by (auto simp: ok_def)
    moreover have "fst (rec (Signal sig data) t) \<noteq> Inr v" for t v using assms(1) by (auto simp: rec_ok_def)
    ultimately show ?thesis by (rule exits_free)
  qed
  then show ?thesis using False x by (cases x) (auto simp: raise_def exits_def split: prod.split)
qed

lemma ok_raise: "rec_ok rec \<Longrightarrow> plain x \<Longrightarrow> ok d (raise ops rec x) d'"
  unfolding ok_def by (auto intro!: raise_leaves fails_plain simp: ctl_def)

lemma ok_signal_list: "rec_ok rec \<Longrightarrow> ok d (signal_list rec sig xs) d'"
  unfolding signal_list_def by (auto intro: ok_never)

lemma ok_signals:
  "rec_ok rec \<Longrightarrow> ok d (signal_void_function_error rec f) d'" "rec_ok rec \<Longrightarrow> ok d (signal_invalid_function_error rec f) d'"
  "rec_ok rec \<Longrightarrow> ok d (signal_wrong_number_of_arguments_error rec f n) d'"
  unfolding signal_void_function_error_def signal_invalid_function_error_def signal_wrong_number_of_arguments_error_def by (simp_all add: ok_signal_list)

lemma ok_do_effect:
  assumes "rec_ok rec" and "eff d f d1" and "ok d1 g d2"
  shows "ok d (do_effect ops rec f g) d2"
  unfolding ok_def
proof (intro allI impI)
  fix L e and s :: "'a eval_state" assume s: "ctl L e d s"
  obtain r s' where f: "f s = (r, s')" by fastforce
  have "case r of None \<Rightarrow> ctl L e d1 s' | Some x \<Rightarrow> fails L x s'" using assms(2) s f unfolding eff_def by (metis fst_conv snd_conv)
  then show "leaves L e d2 (do_effect ops rec f g s)" using assms(3) f raise_leaves [OF assms(1)] by (cases r) (auto simp: do_effect_def ok_def)
qed

lemma ok_do_value:
  assumes "rec_ok rec" and "val d f d'"
  shows "ok d (do_value ops rec f) d'"
  unfolding ok_def
proof (intro allI impI)
  fix L e and s :: "'a eval_state" assume "ctl L e d s"
  then have "case fst (f s) of Inr v \<Rightarrow> ctl L e d' (snd (f s)) | Inl x \<Rightarrow> fails L x (snd (f s))" using assms(2) by (simp add: val_def)
  then show "leaves L e d' (do_value ops rec f s)" using raise_leaves [OF assms(1)]
    by (cases "f s"; cases "fst (f s)") (auto simp: do_value_def leaves_def)
qed

lemma ok_do_list:
  assumes "rec_ok rec" and "\<And>h x. f h = Some (Inl x) \<Longrightarrow> plain x" and "\<And>h x. f h = Some (Inr x) \<Longrightarrow> ok d (g x) d'"
  shows "ok d (do_list ops rec f g) d'"
  unfolding ok_def
proof (intro allI impI)
  fix L e and s :: "'a eval_state" assume s: "ctl L e d s"
  then have "catches s = L" by (simp add: ctl_def)
  then show "leaves L e d' (do_list ops rec f g s)" using assms(2,3) s raise_leaves [OF assms(1)]
    by (auto simp: do_list_def ok_def fails_plain split: option.split sum.split)
qed

section \<open>Effects\<close>

lemma effD: "eff d f d' \<Longrightarrow> ctl L e d s \<Longrightarrow> f s = (None, s') \<Longrightarrow> ctl L e d' s'"
  "eff d f d' \<Longrightarrow> ctl L e d s \<Longrightarrow> f s = (Some x, s') \<Longrightarrow> fails L x s'"
  unfolding eff_def by (metis (no_types) fst_conv snd_conv option.simps(4), metis (no_types) fst_conv snd_conv option.simps(5))

lemma effI:
  assumes "\<And>L e s s'. ctl L e d s \<Longrightarrow> f s = (None, s') \<Longrightarrow> ctl L e d' s'" and "\<And>L e s x s'. ctl L e d s \<Longrightarrow> f s = (Some x, s') \<Longrightarrow> fails L x s'"
  shows "eff d f d'"
  unfolding eff_def
proof (intro allI impI)
  fix L e and s :: "'a eval_state" assume "ctl L e d s"
  then show "case fst (f s) of None \<Rightarrow> ctl L e d' (snd (f s)) | Some x \<Rightarrow> fails L x (snd (f s))"
    using assms by (cases "f s"; cases "fst (f s)") auto
qed

lemma eff_and_then: "eff d f d1 \<Longrightarrow> eff d1 g d2 \<Longrightarrow> eff d (and_then f g) d2"
  by (rule effI) (auto simp: and_then_def dest: effD split: prod.splits option.splits)

lemma reserve_ctl:
  "SPECPDL_RESERVE n s = (r, s') \<Longrightarrow> ctl L e d s' = ctl L e d s \<and> catches s' = catches s \<and> (\<forall>x. r = Some x \<longrightarrow> plain x)"
  by (auto simp: SPECPDL_RESERVE_def grow_specpdl_def Let_def ctl_def specpdl_depth_def split: if_splits)

lemma eff_reserve: "eff d (SPECPDL_RESERVE n) d"
proof (rule effI)
  fix L e and s s' :: "'a eval_state" assume "ctl L e d s" "SPECPDL_RESERVE n s = (None, s')"
  then show "ctl L e d s'" using reserve_ctl by blast
next
  fix L e x and s s' :: "'a eval_state" assume s: "ctl L e d s" "SPECPDL_RESERVE n s = (Some x, s')"
  then have "plain x" "catches s' = L" using reserve_ctl [OF s(2), of L e d] by (auto simp: ctl_def)
  then show "fails L x s'" by (rule fails_plain)
qed

lemma ctl_set [simp]: "ctl L e d (set_value y v s) = ctl L e d s" "ctl L e d (s\<lparr>quit_flag := q\<rparr>) = ctl L e d s"
  by (simp_all add: ctl_def set_value_def specpdl_depth_def)

lemma ctl_push [simp]: "ctl L e (Suc d) (push_binding b s) = ctl L e d s"
  by (simp add: ctl_def push_binding_def specpdl_depth_def)

lemma eff_Fset: "variables_ok V \<Longrightarrow> eff d (Fset V y v) d"
proof -
  assume "variables_ok V"
  then have "eff d (Fset_magic V y v) d" by (simp add: variables_ok_def)
  then show ?thesis by (intro effI) (auto simp: Fset_def dest: effD split: if_splits)
qed

lemma eff_record_unwind_protect: "eff d (record_unwind_protect f x) (Suc d)"
  unfolding record_unwind_protect_def by (rule eff_and_then [OF eff_reserve]) (auto intro!: effI)

lemma eff_specbind_magic:
  assumes "variables_ok V"
  shows "eff d (specbind_magic V y v) (Suc d)"
proof -
  have F: "eff (Suc d) (Fset V y v) (Suc d)" by (rule eff_Fset [OF assms])
  have "\<exists>t. specbind_magic V y v s = Fset V y v t \<and> ctl L e (Suc d) t = ctl L e d s" for s :: "'a eval_state" and L e
    by (cases "symbol_value_buffer_local_info V y (Fcurrent_buffer V s) s = 0") (auto simp: specbind_magic_def Let_def case_prod_beta)
  then show ?thesis using effD [OF F] by (intro effI) metis+
qed

lemma eff_SPECBIND: "variables_ok V \<Longrightarrow> eff d (SPECBIND_FAST_UNSAFE V y v) (Suc d)"
  using effD [OF eff_specbind_magic] by (intro effI) (auto simp: SPECBIND_FAST_UNSAFE_def Let_def split: if_splits)

lemma eff_reject: "eff d (reject_constant_symbols V y v) d"
  by (rule effI) (auto simp: reject_constant_symbols_def ctl_def intro!: fails_plain split: if_splits)

lemma eff_specbind:
  assumes "variables_ok V"
  shows "eff d (specbind V x v) (Suc d)"
  unfolding specbind_def
proof (rule eff_and_then [OF eff_reserve])
  show "eff d (\<lambda>s. case x of
         Lisp_Symbol sy \<Rightarrow>
           if \<not> SYMBOL_VALUE_MAGIC_P (sym_value s sy) \<or> UNBOUNDP (sym_value s sy)
           then and_then (reject_constant_symbols V sy v) (SPECBIND_FAST_UNSAFE V sy v) s
           else specbind_magic V sy v s
       | _ \<Rightarrow> (Some (Wrong_type_argument ''symbolp'' x), s)) (Suc d)"
  proof (cases "\<exists>y. x = Lisp_Symbol y")
    case True
    then obtain y where x: "x = Lisp_Symbol y" by blast
    note A = effD [OF eff_and_then [OF eff_reject eff_SPECBIND [OF assms]]] and B = effD [OF eff_specbind_magic [OF assms]]
    show ?thesis unfolding x by (rule effI) (auto dest: A B split: if_splits)
  next
    case False
    then show ?thesis by (intro effI) (cases x; auto simp: ctl_def intro!: fails_plain)+
  qed
qed

lemma eff_in_buffer:
  assumes "variables_ok V" and "eff d f d"
  shows "eff d (in_buffer V buf f) d"
proof -
  have B: "eff d (Fset_buffer V b) d" for b using assms(1) by (simp add: variables_ok_def)
  note E = effD [OF eff_and_then [OF B eff_and_then [OF assms(2) B]]]
  show ?thesis by (rule effI) (auto simp: in_buffer_def Let_def dest: E effD [OF assms(2)] split: if_splits)
qed

lemma eff_run_unwind:
  assumes "variables_ok V"
  shows "eff d (run_unwind V b) d"
proof -
  note F = eff_Fset [OF assms, of d]
  have K: "eff d (Fkill_local_variable V y) d" for y using assms by (simp add: variables_ok_def)
  show ?thesis
  proof (cases "func b")
    case No_func
    then show ?thesis by (intro effI) (auto simp: run_unwind_def dest: effD [OF F] split: if_splits)
  next
    case Specbind_unwind_local
    then show ?thesis
      by (intro effI) (auto simp: run_unwind_def specbind_unwind_local_def Let_def dest: effD [OF eff_in_buffer [OF assms F]] split: if_splits)
  next
    case Specbind_unwind_wasnt_local
    then show ?thesis
      by (intro effI) (auto simp: run_unwind_def specbind_unwind_wasnt_local_def Let_def dest: effD [OF eff_in_buffer [OF assms K]] split: if_splits)
  next
    case (Unwind f)
    then show ?thesis using assms by (simp add: run_unwind_def variables_ok_def)
  qed
qed

text \<open>Unwinding ends at the depth it is given.\<close>

lemma unbind_loop_ctl:
  assumes V: "variables_ok V" and "unbind_loop V count s = Some r" and "ctl L e (specpdl_depth s) s"
  shows "case fst r of None \<Rightarrow> ctl L e count (snd r) | Some x \<Rightarrow> fails L x (snd r)"
proof -
  have "V' = V \<and> n = count \<and> catches s = L \<and> nesting s = e \<longrightarrow> (case fst r of None \<Rightarrow> ctl L e count (snd r) | Some x \<Rightarrow> fails L x (snd r))"
    if "unbind_loop V' n s = Some r" for V' n s r
  proof (rule unbind_loop.raw_induct [OF _ that, where P = "\<lambda>V' n s r. V' = V \<and> n = count \<and> catches s = L \<and> nesting s = e \<longrightarrow>
        (case fst r of None \<Rightarrow> ctl L e count (snd r) | Some x \<Rightarrow> fails L x (snd r))"])
    fix rec V' n and s :: "'a eval_state" and r
    assume IH: "\<And>V' n s r. rec V' n s = Some r \<Longrightarrow> V' = V \<and> n = count \<and> catches s = L \<and> nesting s = e \<longrightarrow>
        (case fst r of None \<Rightarrow> ctl L e count (snd r) | Some x \<Rightarrow> fails L x (snd r))"
      and body: "(if specpdl_depth s = n then Some (None, s)
        else case specpdl s of [] \<Rightarrow> None
             | b # bs \<Rightarrow> let r = run_unwind V' b (s\<lparr>specpdl := bs\<rparr>) in if fst r = None then rec V' n (snd r) else Some r) = Some r"
    show "V' = V \<and> n = count \<and> catches s = L \<and> nesting s = e \<longrightarrow> (case fst r of None \<Rightarrow> ctl L e count (snd r) | Some x \<Rightarrow> fails L x (snd r))"
    proof
      assume eq: "V' = V \<and> n = count \<and> catches s = L \<and> nesting s = e"
      show "case fst r of None \<Rightarrow> ctl L e count (snd r) | Some x \<Rightarrow> fails L x (snd r)"
      proof (cases "specpdl_depth s = n")
        case True
        then have "r = (None, s)" using body by simp
        then show ?thesis using eq True by (simp add: ctl_def)
      next
        case False
        then obtain b bs where bs: "specpdl s = b # bs" using body by (cases "specpdl s") simp_all
        let ?s = "s\<lparr>specpdl := bs\<rparr>"
        have c: "ctl L e (length bs) ?s" using eq by (simp add: ctl_def specpdl_depth_def)
        obtain x t where run: "run_unwind V b ?s = (x, t)" by fastforce
        show ?thesis
        proof (cases x)
          case None
          then have "rec V n t = Some r" using body False bs run eq by simp
          moreover have "catches t = L \<and> nesting t = e" using effD(1) [OF eff_run_unwind [OF V] c] run None by (simp add: ctl_def)
          ultimately show ?thesis using IH eq by blast
        next
          case (Some y)
          then have "r = (Some y, t)" using body False bs run eq by simp
          then show ?thesis using effD(2) [OF eff_run_unwind [OF V] c] run Some by simp
        qed
      qed
    qed
  qed
  then show ?thesis using assms(2,3) by (auto simp: ctl_def)
qed

lemma unbind_to_ctl:
  assumes V: "variables_ok V" and "unbind_to V count s = Some r" and "ctl L e d s"
  shows "case fst r of None \<Rightarrow> ctl L e count (snd r) | Some x \<Rightarrow> fails L x (snd r)"
proof -
  have "UNBIND_TO V count bs s = Some r \<Longrightarrow> specpdl s = bs \<Longrightarrow> catches s = L \<Longrightarrow> nesting s = e \<Longrightarrow> ?thesis" for bs s
  proof (induction bs arbitrary: s)
    case Nil
    then show ?case by (auto simp: ctl_def specpdl_depth_def split: if_splits)
  next
    case (Cons b bs)
    show ?case
    proof (cases "length (b # bs) = count")
      case True
      then have "r = (None, s)" using Cons.prems(1) by simp
      then show ?thesis using Cons.prems(2-) True by (simp add: ctl_def specpdl_depth_def)
    next
      case False
      show ?thesis
      proof (cases "func b \<noteq> No_func \<or> SYMBOL_VALUE_MAGIC_P (sym_value s (symbol b))")
        case True
        then have "unbind_to_hairy V count s = Some r" using Cons.prems(1) False by auto
        then obtain x t where t: "unbind_loop V count (s\<lparr>quit_flag := Qnil\<rparr>) = Some (x, t)"
          "r = (x, if x = None \<and> check_quit V s \<noteq> Qnil then t\<lparr>quit_flag := Qt\<rparr> else t)"
          by (auto simp: unbind_to_hairy_def Let_def)
        have "ctl L e (specpdl_depth (s\<lparr>quit_flag := Qnil\<rparr>)) (s\<lparr>quit_flag := Qnil\<rparr>)" using Cons.prems by (simp add: ctl_def)
        from unbind_loop_ctl [OF V t(1) this] t(2) show ?thesis by (cases x) auto
      next
        case False
        then have "UNBIND_TO V count bs (set_value (symbol b) (old_value b) (s\<lparr>specpdl := bs\<rparr>)) = Some r"
          using Cons.prems(1) \<open>length (b # bs) \<noteq> count\<close> by auto
        then show ?thesis by (rule Cons.IH) (use Cons.prems in \<open>simp_all add: set_value_def\<close>)
      qed
    qed
  qed
  then show ?thesis using assms(2,3) by (auto simp: unbind_to_def ctl_def)
qed

lemma variables_ok_eval:
  assumes "rec_ok rec" and "world_ok ops"
  shows "variables_ok (eval_vops ops rec)"
proof -
  have V: "variables_ok (vops (bops ops))" using assms(2) by (simp add: world_ok_def)
  have "eff d (effect_of (rec (Progn x Qnil))) d" for d x
  proof (rule effI)
    have P: "ok d (rec (Progn x Qnil)) d" by (rule ok_rec [OF assms(1)]) simp
    fix L e and s :: "'a eval_state"
    assume s: "ctl L e d s"
    then have l: "leaves L e d (rec (Progn x Qnil) s)" using P by (simp add: ok_def)
    show "ctl L e d s'" if "effect_of (rec (Progn x Qnil)) s = (None, s')" for s'
      using that l by (auto simp: effect_of_def leaves_def split: prod.splits sum.splits)
    show "fails L y s'" if "effect_of (rec (Progn x Qnil)) s = (Some y, s')" for y s'
      using that l by (auto simp: effect_of_def leaves_def fails_def split: prod.splits sum.splits)
  qed
  moreover have "eff d (condition_case_unwind x) d" for d x
    by (rule effI) (auto simp: condition_case_unwind_def set_handlers_def ctl_def specpdl_depth_def split: if_splits)
  ultimately show ?thesis using V by (auto simp: variables_ok_def eval_vops_def)
qed

lemma ok_unbind:
  assumes "rec_ok rec" and "world_ok ops"
  shows "ok d (unbind ops rec count v) count"
  unfolding ok_def
proof (intro allI impI)
  fix L e and s :: "'a eval_state" assume s: "ctl L e d s"
  note U = unbind_to_ctl [OF variables_ok_eval [OF assms] _ s]
  show "leaves L e count (unbind ops rec count v s)"
  proof (cases "unbind_to (eval_vops ops rec) count s")
    case (Some r)
    then show ?thesis using U [OF Some] raise_leaves [OF assms(1)]
      by (cases r; cases "fst r") (auto simp: unbind_def leaves_def)
  qed (simp add: unbind_def)
qed

end
