(* ===== verification/EvalProps.thy ===== *)
theory EvalProps
  imports EvalControl
begin

text \<open>
  Every C function of the evaluator keeps the stacks, and so does evaluation as a whole.
\<close>

section \<open>Errors of list functions\<close>

lemma external_list_loop_plain:
  assumes "external_list_loop hp body lst len hare tortoise s = Some (Inl x)"
  shows "plain x"
proof -
  have "\<forall>x. r = Inl x \<longrightarrow> plain x" if "external_list_loop hp body lst len hare tortoise s = Some r" for r
    using that by (rule external_list_loop.raw_induct [rotated]) (auto split: if_splits sum.splits simp: Let_def)
  then show ?thesis using assms by blast
qed

lemma EXTERNAL_LIST_LOOP_4_plain: "EXTERNAL_LIST_LOOP_4 hp body lst s = Some (Inl x) \<Longrightarrow> plain x"
  unfolding EXTERNAL_LIST_LOOP_4_def by (rule external_list_loop_plain)

lemma external_list_loop_result:
  assumes "\<And>s x y r. body s x y = Inr r \<Longrightarrow> P r" and "external_list_loop hp body lst len hare tortoise s = Some (Inr (Inr r))"
  shows "P r"
proof -
  have "body' = body \<longrightarrow> (\<forall>r. v = Inr (Inr r) \<longrightarrow> P r)" if "external_list_loop hp body' lst len hare tortoise s = Some v" for body' v
    using that by (rule external_list_loop.raw_induct [rotated]) (auto split: if_splits sum.splits simp: Let_def dest: assms(1))
  then show ?thesis using assms(2) by blast
qed

lemma list_length_plain: "GET_EXTERNAL_LIST_LENGTH x h = Some (Inl e) \<Longrightarrow> plain e"
  unfolding GET_EXTERNAL_LIST_LENGTH_def using EXTERNAL_LIST_LOOP_4_plain by (force simp: map_sum_def split: sum.splits)

lemma car_cdr_plain: "Fcar h x = Inl e \<Longrightarrow> plain e" "Fcdr h x = Inl e \<Longrightarrow> plain e"
  by (auto simp: Fcar_def Fcdr_def split: if_splits)

lemma Fmemq_plain: "Fmemq x lst h = Some (Inl e) \<Longrightarrow> plain e"
  unfolding Fmemq_def search_result_def using EXTERNAL_LIST_LOOP_4_plain by (force simp: map_sum_def split: sum.splits)

lemma condition_names_plain:
  assumes "condition_names h type conditions = Some (Inl x)"
  shows "plain x"
proof -
  have "\<forall>x. r = Inl x \<longrightarrow> plain x" if "condition_names h type conditions = Some r" for r
    using that by (rule condition_names.raw_induct [rotated])
      (auto split: if_splits sum.splits option.splits simp: lbind_def dest: Fmemq_plain)
  then show ?thesis using assms by blast
qed

lemma condition_type_plain: "condition_type_p type conditions h = Some (Inl x) \<Longrightarrow> plain x"
  unfolding condition_type_p_def lbind_def by (auto split: if_splits option.splits sum.splits dest: Fmemq_plain condition_names_plain)

lemma handler_body_plain: "handler_body h handler tail = Inr x \<Longrightarrow> plain x"
  unfolding handler_body_def by (auto simp: Let_def split: if_splits option.splits sum.splits dest: EXTERNAL_LIST_LOOP_4_plain)

lemma handlers_plain: "EXTERNAL_LIST_LOOP_4 id handler_body handlers h = Some (Inr (Inr x)) \<Longrightarrow> plain x"
  unfolding EXTERNAL_LIST_LOOP_4_def by (rule external_list_loop_result [where P = plain]) (rule handler_body_plain)

lemma ok_do_length: "rec_ok rec \<Longrightarrow> (\<And>x. ok d (g x) d') \<Longrightarrow> ok d (do_list ops rec (GET_EXTERNAL_LIST_LENGTH lst) g) d'"
  by (rule ok_do_list) (auto dest: list_length_plain)

lemma ok_do_car: "rec_ok rec \<Longrightarrow> (\<And>x. ok d (g x) d') \<Longrightarrow> ok d (do_list ops rec (\<lambda>h. Some (Fcar h y)) g) d'"
  "rec_ok rec \<Longrightarrow> (\<And>x. ok d (g x) d') \<Longrightarrow> ok d (do_list ops rec (\<lambda>h. Some (Fcdr h y)) g) d'"
  by (rule ok_do_list; auto intro: car_cdr_plain)+

lemma ok_CHECK_TRUE_LIST: "rec_ok rec \<Longrightarrow> ok d f d' \<Longrightarrow> ok d (CHECK_TRUE_LIST ops rec x f) d'"
  unfolding CHECK_TRUE_LIST_def by (rule ok_do_length)

lemma ok_do_condition: "rec_ok rec \<Longrightarrow> (\<And>x. ok d (g x) d') \<Longrightarrow> ok d (do_list ops rec (condition_type_p type conditions) g) d'"
  by (rule ok_do_list) (auto dest: condition_type_plain)

text \<open>What depends on the state it starts in.\<close>

lemma ok_state: "(\<And>s. specpdl_depth s = d \<Longrightarrow> ok d (f s) d') \<Longrightarrow> ok d (\<lambda>s. f s s) d'"
  unfolding ok_def by (simp add: ctl_def)

lemma ok_next_hare: "rec_ok rec \<Longrightarrow> (\<And>len x y. ok d (f len x y) d') \<Longrightarrow> ok d (next_hare ops rec lst len hare tortoise f) d'"
  unfolding ok_def next_hare_def Let_def by (auto intro!: raise_leaves fails_plain simp: ctl_def)

named_theorems oks \<open>rules for the stacks\<close>

lemmas [oks] = ok_do_length ok_do_car ok_CHECK_TRUE_LIST ok_next_hare ok_signals ok_signal_list

section \<open>Catches\<close>

lemma ctl_sets: "ctl L e d (set_catchlist L' s) \<longleftrightarrow> L' = L \<and> nesting s = e \<and> specpdl_depth s = d"
  "ctl L e d (set_eval_depth e' s) \<longleftrightarrow> catches s = L \<and> e' = e \<and> specpdl_depth s = d"
  "ctl L e d (set_handlers x s) = ctl L e d s"
  by (simp_all add: ctl_def set_catchlist_def set_eval_depth_def set_handlers_def specpdl_depth_def)

lemma set_sels [simp]:
  "catches (set_catchlist L s) = L" "nesting (set_catchlist L s) = nesting s" "specpdl_depth (set_catchlist L s) = specpdl_depth s"
  "catches (set_eval_depth e s) = catches s" "nesting (set_eval_depth e s) = e" "specpdl_depth (set_eval_depth e s) = specpdl_depth s"
  "catches (set_handlers x s) = catches s" "nesting (set_handlers x s) = nesting s" "specpdl_depth (set_handlers x s) = specpdl_depth s"
  "catches (s\<lparr>heap := h\<rparr>) = catches s" "nesting (s\<lparr>heap := h\<rparr>) = nesting s" "specpdl_depth (s\<lparr>heap := h\<rparr>) = specpdl_depth s"
  by (simp_all add: set_catchlist_def set_eval_depth_def set_handlers_def specpdl_depth_def)

lemma lands_inner:
  "lands (c # L) k s \<longleftrightarrow> (k = length L \<and> ctl L (saved_eval_depth c) (pdlcount c) s) \<or> lands L k s"
proof
  assume "lands (c # L) k s"
  then obtain pre c' post where p: "c # L = pre @ c' # post" "length post = k" "ctl post (saved_eval_depth c') (pdlcount c') s"
    by (auto simp: lands_def)
  then show "(k = length L \<and> ctl L (saved_eval_depth c) (pdlcount c) s) \<or> lands L k s"
    by (cases pre) (auto simp: lands_def)
next
  assume "(k = length L \<and> ctl L (saved_eval_depth c) (pdlcount c) s) \<or> lands L k s"
  then show "lands (c # L) k s" unfolding lands_def by (metis append_Cons append_Nil)
qed

lemma lands_outer: "lands L k s \<Longrightarrow> k < length L"
  by (auto simp: lands_def)

lemma exits_inner: "exits (c # L) x s \<Longrightarrow> \<forall>v. x \<noteq> Longjmp (length L) v \<Longrightarrow> exits L x s"
  by (auto simp: exits_def lands_inner split: lisp_error.splits)

lemma exits_here: "exits (c # L) (Longjmp (length L) v) s \<Longrightarrow> ctl L (saved_eval_depth c) (pdlcount c) s"
  by (auto simp: lands_inner dest: lands_outer)

lemma this_catch_simps [simp]: "pdlcount (this_catch tag s) = specpdl_depth s" "saved_eval_depth (this_catch tag s) = nesting s"
  by (simp_all add: this_catch_def)

lemma catch_jump_leaves:
  assumes "leaves (c # L) e d (f s)" and "\<And>v. ok d (on_value v) d'" and "\<And>v. ok (pdlcount c) (on_jump v) d'" and "saved_eval_depth c = e"
  shows "leaves L e d' (catch_jump L f on_value on_jump s)"
proof -
  obtain r s' where f: "f s = (r, s')" by fastforce
  show ?thesis
  proof (cases r)
    case (Inr v)
    then have "ctl L e d (set_catchlist L s')" using assms(1) f by (simp add: leaves_def ctl_def)
    then show ?thesis using assms(2) f Inr by (simp add: catch_jump_def ok_def)
  next
    case (Inl x)
    then have x: "exits (c # L) x s'" using assms(1) f by (simp add: leaves_def)
    show ?thesis
    proof (cases "\<exists>v. x = Longjmp (length L) v")
      case True
      then obtain v where v: "x = Longjmp (length L) v" by blast
      then have "ctl L e (pdlcount c) s'" using exits_here x assms(4) by blast
      then show ?thesis using assms(3) f Inl v by (simp add: catch_jump_def ok_def)
    next
      case False
      then have "catch_jump L f on_value on_jump s = (Inl x, s')" using f Inl by (auto simp: catch_jump_def split: lisp_error.splits)
      then show ?thesis using exits_inner [OF x] False by (simp add: leaves_def)
    qed
  qed
qed

lemma ok_internal_catch:
  assumes "ok d f d"
  shows "ok d (internal_catch tag f) d"
  unfolding ok_def
proof (intro allI impI)
  fix L e and s :: "'a eval_state"
  assume s: "ctl L e d s"
  then have "ctl (this_catch tag s # L) e d (set_catchlist (this_catch tag s # L) s)" by (simp add: ctl_def)
  then have "leaves (this_catch tag s # L) e d (f (set_catchlist (this_catch tag s # L) s))" using assms by (simp add: ok_def)
  from catch_jump_leaves [where f = f, OF this, of "\<lambda>v s. (Inr v, s)" d "\<lambda>v s. (Inr v, s)"]
  show "leaves L e d (internal_catch tag f s)" using s by (simp add: internal_catch_def ctl_def ok_return)
qed

lemma find_catch_split: "find_catch tag L = Some (c, outer) \<Longrightarrow> \<exists>pre. L = pre @ c # outer"
proof (induction L)
  case (Cons a L)
  then show ?case by (cases "catch_tag a = tag") (auto intro: exI [of _ "[]"] exI [of _ "a # _"])
qed simp

lemma ok_unwind_to_catch:
  assumes "rec_ok rec" and "world_ok ops" and "ctl L e d s" and "L = pre @ c # outer"
  shows "leaves L e' d' (unwind_to_catch ops rec c outer v s)" "fst (unwind_to_catch ops rec c outer v s) \<noteq> Inr w"
proof -
  have l: "leaves L e (pdlcount c) (unbind ops rec (pdlcount c) v s)" using ok_unbind [OF assms(1,2)] assms(3) by (simp add: ok_def)
  obtain r s' where u: "unbind ops rec (pdlcount c) v s = (r, s')" by fastforce
  show "leaves L e' d' (unwind_to_catch ops rec c outer v s)"
  proof (cases r)
    case (Inr v')
    have "lands L (length outer) (set_eval_depth (saved_eval_depth c) (set_catchlist outer s'))"
      unfolding lands_def using l u Inr assms(4) by (auto simp: leaves_def ctl_def)
    then show ?thesis using u Inr by (simp add: unwind_to_catch_def leaves_def)
  qed (use l u in \<open>simp add: unwind_to_catch_def leaves_def\<close>)
  show "fst (unwind_to_catch ops rec c outer v s) \<noteq> Inr w" by (simp add: unwind_to_catch_def split: prod.split sum.split)
qed

section \<open>Conditions\<close>

lemma ok_run_handlers:
  assumes "rec_ok rec" and "world_ok ops"
  shows "ok d (run_condition_case_handlers ops rec v var) d"
proof -
  have P: "ok d' (rec (Progn x Qnil)) d'" for d' x by (rule ok_rec [OF assms(1)]) simp
  have "ok d (\<lambda>s. if NILP var then do_list ops rec (\<lambda>h. Some (Fcdr h v)) (\<lambda>body. rec (Progn body Qnil)) s
       else do_list ops rec (\<lambda>h. Some (Fcar h v)) (\<lambda>x.
              do_effect ops rec (specbind (eval_vops ops rec) var x) (do_list ops rec (\<lambda>h. Some (Fcdr h v)) (\<lambda>body.
                abind (rec (Progn body Qnil)) (unbind ops rec (specpdl_depth s))))) s) d"
  proof (rule ok_state [where f = "\<lambda>s. if NILP var then do_list ops rec (\<lambda>h. Some (Fcdr h v)) (\<lambda>body. rec (Progn body Qnil))
       else do_list ops rec (\<lambda>h. Some (Fcar h v)) (\<lambda>x.
              do_effect ops rec (specbind (eval_vops ops rec) var x) (do_list ops rec (\<lambda>h. Some (Fcdr h v)) (\<lambda>body.
                abind (rec (Progn body Qnil)) (unbind ops rec (specpdl_depth s)))))", simplified if_distribR])
    fix s :: "'a eval_state"
    assume s: "specpdl_depth s = d"
    show "ok d (if NILP var then do_list ops rec (\<lambda>h. Some (Fcdr h v)) (\<lambda>body. rec (Progn body Qnil))
       else do_list ops rec (\<lambda>h. Some (Fcar h v)) (\<lambda>x.
              do_effect ops rec (specbind (eval_vops ops rec) var x) (do_list ops rec (\<lambda>h. Some (Fcdr h v)) (\<lambda>body.
                abind (rec (Progn body Qnil)) (unbind ops rec (specpdl_depth s)))))) d"
      using s by (auto intro!: ok_do_car ok_do_effect [OF _ eff_specbind] P ok_unbind assms variables_ok_eval)
  qed
  then show ?thesis unfolding run_condition_case_handlers_def by (rule ok_CHECK_TRUE_LIST [OF assms(1)])
qed

lemma do_effect_leaves:
  assumes "rec_ok rec" and "eff d f d1" and "ctl L e d s" and "\<And>t. ctl L e d1 t \<Longrightarrow> leaves L e d2 (g t)"
  shows "leaves L e d2 (do_effect ops rec f g s)"
proof (cases "f s")
  case (Pair r t)
  then show ?thesis using effD [OF assms(2,3)] assms(4) raise_leaves [OF assms(1)] by (cases r) (auto simp: do_effect_def)
qed

lemma with_cons_leaves: "(\<And>c h. leaves L e d (f c (s\<lparr>heap := h\<rparr>))) \<Longrightarrow> leaves L e d (with_cons x y f s)"
  by (simp add: with_cons_def split: prod.split)

lemma ok_condition_case_1:
  assumes "rec_ok rec" and "world_ok ops" and "ok (Suc d) bfun (Suc d)" and "\<And>v. ok d (hfun v) d"
  shows "ok d (condition_case_1 ops rec handlers bfun hfun) d"
  unfolding ok_def
proof (intro allI impI)
  fix L e and s0 :: "'a eval_state"
  assume s0: "ctl L e d s0"
  have "leaves L e d (do_effect ops rec (record_unwind_protect (Unwind 1) tag) (\<lambda>s1.
             catch_jump L bfun
               (\<lambda>v s2. if CONSP tag then unbind ops rec d v (set_handlers (XCDR (heap s2) tag) s2) else fatal s2)
               hfun (set_handlers tag (set_catchlist (this_catch tag s # L) s1))) s)" if s: "ctl L e d s" for tag s
  proof (rule do_effect_leaves [OF assms(1) eff_record_unwind_protect s])
    have c: "pdlcount (this_catch tag s) = d" "saved_eval_depth (this_catch tag s) = e" using s by (simp_all add: ctl_def)
    fix s1 :: "'a eval_state" assume "ctl L e (Suc d) s1"
    then have "ctl (this_catch tag s # L) e (Suc d) (set_handlers tag (set_catchlist (this_catch tag s # L) s1))" by (simp add: ctl_def)
    then have "leaves (this_catch tag s # L) e (Suc d) (bfun (set_handlers tag (set_catchlist (this_catch tag s # L) s1)))"
      using assms(3) by (simp add: ok_def)
    moreover have "ok (Suc d) (\<lambda>s2. if CONSP tag then unbind ops rec d v (set_handlers (XCDR (heap s2) tag) s2) else fatal s2) d" for v
      using ok_unbind [OF assms(1,2), of "Suc d" d v] by (simp add: ok_def ctl_sets)
    ultimately show "leaves L e d (catch_jump L bfun
               (\<lambda>v s2. if CONSP tag then unbind ops rec d v (set_handlers (XCDR (heap s2) tag) s2) else fatal s2)
               hfun (set_handlers tag (set_catchlist (this_catch tag s # L) s1)))"
      using assms(4) by (intro catch_jump_leaves) (assumption, assumption, simp only: c, simp only: c)
  qed
  note body = this
  show "leaves L e d (condition_case_1 ops rec handlers bfun hfun s0)"
    unfolding condition_case_1_def
  proof (intro with_cons_leaves)
    fix mark h tag h'
    let ?s = "s0\<lparr>heap := h\<rparr>\<lparr>heap := h'\<rparr>"
    have s: "ctl L e d ?s" using s0 by simp
    then have "catches ?s = L" "specpdl_depth ?s = d" by (simp_all add: ctl_def)
    then show "leaves L e d ((\<lambda>s. let outer = catchlist (ext s)
        in do_effect ops rec (record_unwind_protect (Unwind 1) tag) (\<lambda>s1.
             catch_jump outer bfun
               (\<lambda>v s2. if CONSP tag then unbind ops rec (specpdl_depth s) v (set_handlers (XCDR (heap s2) tag) s2) else fatal s2)
               hfun (set_handlers tag (set_catchlist (this_catch tag s # outer) s1))) s) ?s)"
      using body [OF s, of tag] by (simp only: Let_def)
  qed
qed

lemma ok_condition_case_3:
  assumes "rec_ok rec" and "world_ok ops"
  shows "ok d (condition_case_3 ops rec bodyform var handlers) d"
  unfolding condition_case_3_def
proof (rule ok_do_list [OF assms(1) EXTERNAL_LIST_LOOP_4_plain])
  have c: "ok d (condition_case_1 ops rec handlers (rec (Eval bodyform)) (\<lambda>v. run_condition_case_handlers ops rec v var)) d"
    by (rule ok_condition_case_1 [OF assms _ ok_run_handlers [OF assms]]) (simp add: ok_rec [OF assms(1)])
  fix h r assume "EXTERNAL_LIST_LOOP_4 id handler_body handlers h = Some (Inr r)"
  then have "\<And>x. r = Inr x \<Longrightarrow> plain x" using handlers_plain by blast
  then show "ok d (\<lambda>s. case r of Inl _ \<Rightarrow> if \<not> SYMBOLP var then raise ops rec (Wrong_type_argument ''symbolp'' var) s
        else condition_case_1 ops rec handlers (rec (Eval bodyform)) (\<lambda>v. run_condition_case_handlers ops rec v var) s
      | Inr e \<Rightarrow> raise ops rec e s) d"
    using c by (cases r; cases "SYMBOLP var") (simp_all add: ok_raise [OF assms(1)])
qed

lemma ok_Fcall_with_condition_handler:
  assumes "rec_ok rec" and "world_ok ops"
  shows "ok d (Fcall_with_condition_handler ops rec args) d"
proof (cases args)
  case (Cons handler call)
  show ?thesis unfolding ok_def
  proof (intro allI impI)
    fix L e and s0 :: "'a eval_state"
    assume s0: "ctl L e d s0"
    have "leaves L e d (do_effect ops rec (record_unwind_protect (Unwind 2) tem) (\<lambda>s1.
            abind (rec (Funcall call)) (unbind ops rec (specpdl_depth s)) (set_handlers tem s1)) s)" if s: "ctl L e d s" for tem s
    proof (rule do_effect_leaves [OF assms(1) eff_record_unwind_protect s])
      fix s1 :: "'a eval_state" assume "ctl L e (Suc d) s1"
      moreover have "ok (Suc d) (abind (rec (Funcall call)) (unbind ops rec (specpdl_depth s))) d"
        using s ok_unbind [OF assms] by (auto simp: ctl_def intro: ok_rec [OF assms(1)])
      ultimately show "leaves L e d (abind (rec (Funcall call)) (unbind ops rec (specpdl_depth s)) (set_handlers tem s1))" by (simp add: ok_def ctl_sets)
    qed
    note body = this
    show "leaves L e d (Fcall_with_condition_handler ops rec args s0)"
      unfolding Fcall_with_condition_handler_def Cons list.case with_list_def
      by (auto split: prod.split intro!: with_cons_leaves body simp: s0)
  qed
qed (simp add: ok_def Fcall_with_condition_handler_def)

section \<open>Functions\<close>

lemma ok_indirect_function:
  assumes "rec_ok rec" and "\<And>x. ok d (f x) d'"
  shows "ok d (indirect_function rec object b f) d'"
proof -
  have "ok d (signal_void_function_error rec object) d'" "ok d (signal_list rec Qcyclic_function_indirection [object]) d'"
    by (simp_all add: ok_signals ok_signal_list assms(1))
  then show ?thesis using assms(2) unfolding ok_def by (auto simp: indirect_function_def split: option.split sum.split)
qed

lemma ok_Fapply:
  assumes "rec_ok rec"
  shows "ok d (Fapply ops rec args) d"
proof -
  have F: "ok d (rec (Funcall xs)) d" for xs by (rule ok_rec [OF assms]) simp
  have I: "ok d (indirect_function rec x b (\<lambda>fun. rec (Funcall (g fun)))) d" for x b and g :: "lisp_object \<Rightarrow> lisp_object list"
    by (rule ok_indirect_function [OF assms F])
  have "ok d (\<lambda>s.
        if n = 0 then rec (Funcall (butlast args)) s
        else if n = 1 then rec (Funcall (butlast args @ [XCAR (heap s) (last args)])) s
        else if SYMBOLP (hd args)
        then indirect_function rec (hd args) False (\<lambda>fun. rec (Funcall (spread_args ops args n (last args) fun (heap s)))) s
        else rec (Funcall (spread_args ops args n (last args) (hd args) (heap s))) s) d" for n
    using F I unfolding ok_def by (cases "n = 0"; cases "n = 1"; cases "SYMBOLP (hd args)") simp_all
  then show ?thesis unfolding Fapply_def using assms by (cases "length args < 2") (simp_all add: ok_do_length)
qed

lemma ok_apply1: "rec_ok rec \<Longrightarrow> ok d (apply1 ops rec f arg) d"
  unfolding apply1_def by (simp add: ok_Fapply ok_rec)

section \<open>Special forms\<close>

lemma ok_progn:
  assumes "rec_ok rec"
  shows "ok d (progn_call rec tail v) d" "ok d (prog1_call rec tail v) d" "ok d (or_call rec tail) d" "ok d (and_call rec tail v) d"
    "ok d (Fif rec tail) d" "ok d (cond_call ops rec tail) d" "ok d (Fprog1 rec tail) d" "ok d (Fprog2 rec tail) d"
proof -
  note R = ok_rec [OF assms]
  show "ok d (progn_call rec tail v) d" "ok d (prog1_call rec tail v) d" "ok d (or_call rec tail) d" "ok d (and_call rec tail v) d"
    unfolding progn_call_def prog1_call_def or_call_def and_call_def by (auto intro!: R)
  show "ok d (Fif rec tail) d" "ok d (Fprog1 rec tail) d" "ok d (Fprog2 rec tail) d"
    unfolding Fif_def Fprog1_def Fprog2_def by (auto intro!: R)
  show "ok d (cond_call ops rec tail) d"
    unfolding cond_call_def by (auto intro!: R ok_raise ok_CHECK_TRUE_LIST assms)
qed

lemma ok_let_value:
  assumes "rec_ok rec"
  shows "ok d (let_value ops rec var) d"
  using ok_rec [OF assms] unfolding let_value_def by (auto intro!: ok_raise assms)

lemma ok_body:
  assumes "rec_ok rec" and "world_ok ops"
  shows "ok d (abind (rec (Progn body Qnil)) (unbind ops rec count)) count"
  by (rule ok_abind [OF ok_rec [OF assms(1) refl] ok_unbind [OF assms]])

lemma ok_specbind:
  assumes "rec_ok rec" and "world_ok ops" and "ok (Suc d) g d'"
  shows "ok d (do_effect ops rec (specbind (eval_vops ops rec) x v) g) d'"
  by (rule ok_do_effect [OF assms(1) eff_specbind [OF variables_ok_eval [OF assms(1,2)]] assms(3)])

lemma ok_letX:
  assumes "rec_ok rec" and "world_ok ops"
  shows "ok d (letX_call ops rec len hare tortoise body speccount varlist) speccount"
proof -
  have "ok d (abind (let_value ops rec var) (\<lambda>v. do_effect ops rec (specbind (eval_vops ops rec) y v)
       (next_hare ops rec varlist len hare tortoise (\<lambda>len' hare' tortoise'. rec (LetX len' hare' tortoise' body speccount varlist))))) speccount" for var y
    by (rule ok_abind [OF ok_let_value [OF assms(1)] ok_specbind [OF assms ok_next_hare [OF assms(1) ok_rec [OF assms(1)]]]]) simp
  then have "ok d (\<lambda>s. let var_symbol = (if SYMBOLP var then var else XCAR (heap s) var)
      in abind (let_value ops rec var) (\<lambda>v. do_effect ops rec (specbind (eval_vops ops rec) var_symbol v)
       (next_hare ops rec varlist len hare tortoise (\<lambda>len' hare' tortoise'. rec (LetX len' hare' tortoise' body speccount varlist)))) s) speccount" for var
    unfolding Let_def by (simp add: ok_def)
  then show ?thesis unfolding letX_call_def by (auto intro!: ok_body ok_raise assms)
qed

lemma ok_let:
  assumes "rec_ok rec" and "world_ok ops"
  shows "ok d (let_values_call ops rec tail temps varcount varlist body) d" "ok d (let_bind_call ops rec tail temps body speccount) speccount"
    "ok d (Flet ops rec args) d" "ok d (FletX rec args) d"
proof -
  note R = ok_rec [OF assms(1)]
  have "ok d (\<lambda>s. rec (Let_bind varlist temps body (specpdl_depth s)) s) d" "ok d (\<lambda>s. rec (LetX 0 varlist varlist b (specpdl_depth s) varlist) s) d" for varlist b
    by (rule ok_state [where f = "\<lambda>s. rec (Let_bind varlist temps body (specpdl_depth s))"], rule R, simp)
       (rule ok_state [where f = "\<lambda>s. rec (LetX 0 varlist varlist b (specpdl_depth s) varlist)"], rule R, simp)
  then show "ok d (let_values_call ops rec tail temps varcount varlist body) d" "ok d (FletX rec args) d"
    unfolding let_values_call_def FletX_def by (auto intro!: R ok_let_value assms)
  show "ok d (Flet ops rec args) d" unfolding Flet_def by (auto intro!: ok_do_length R assms)
  have "ok d (do_effect ops rec (specbind (eval_vops ops rec) x v) (with_cdr tail (\<lambda>tail'. rec (Let_bind tail' temps' body speccount)))) speccount" for x v temps'
    by (rule ok_specbind [OF assms]) (auto intro!: R)
  then show "ok d (let_bind_call ops rec tail temps body speccount) speccount"
    unfolding let_bind_call_def by (cases temps) (auto intro!: ok_body assms simp: Let_def)
qed

lemma ok_setq:
  assumes "rec_ok rec" and "world_ok ops"
  shows "ok d (setq_call ops rec tail v) d" "ok d (Fsetq ops rec tail) d" "ok d (define_function ops rec name defn) d" "ok d (while_call ops rec test body) d"
proof -
  note R = ok_rec [OF assms(1)]
  have S: "eff d (Fset_symbol ops rec x v) d" for x v
    by (cases x) (auto simp: Fset_symbol_def intro!: eff_and_then [OF eff_reject eff_Fset] variables_ok_eval assms effI fails_plain dest: ctl_def [THEN iffD1])
  show "ok d (setq_call ops rec tail v) d" unfolding setq_call_def by (auto intro!: R ok_do_effect [OF assms(1) S])
  show "ok d (Fsetq ops rec tail) d" unfolding Fsetq_def by (auto intro!: R ok_do_length assms ok_signal_list)
  have "eff d (Ffset ops name defn) d" "eff d (QUIT (bops ops)) d" using assms(2) by (simp_all add: world_ok_def)
  then show "ok d (define_function ops rec name defn) d" "ok d (while_call ops rec test body) d"
    unfolding define_function_def while_call_def by (auto intro!: R ok_do_effect [OF assms(1)])
qed

lemma ok_catch:
  assumes "rec_ok rec" and "world_ok ops"
  shows "ok d (Fcatch rec args) d" "ok d (Funwind_protect ops rec args) d" "ok d (Fcondition_case ops rec args) d"
proof -
  note R = ok_rec [OF assms(1)]
  show "ok d (Fcatch rec args) d" unfolding Fcatch_def by (auto intro!: R ok_internal_catch)
  show "ok d (Fcondition_case ops rec args) d" unfolding Fcondition_case_def by (auto intro!: ok_condition_case_3 assms)
  have "ok d (do_effect ops rec (record_unwind_protect (Unwind 0) forms) (with_car args (\<lambda>form. abind (rec (Eval form)) (unbind ops rec d)))) d" for forms
    by (rule ok_do_effect [OF assms(1) eff_record_unwind_protect]) (auto intro!: R ok_unbind assms)
  then have "ok d (\<lambda>s. do_effect ops rec (record_unwind_protect (Unwind 0) forms) (with_car args (\<lambda>form. abind (rec (Eval form)) (unbind ops rec (specpdl_depth s)))) s) d" for forms
    by (intro ok_state [where f = "\<lambda>s. do_effect ops rec (record_unwind_protect (Unwind 0) forms) (with_car args (\<lambda>form. abind (rec (Eval form)) (unbind ops rec (specpdl_depth s))))"]) simp
  then show "ok d (Funwind_protect ops rec args) d" unfolding Funwind_protect_def by auto
qed

lemma ok_special:
  assumes "rec_ok rec" and "world_ok ops"
  shows "ok d (special_call ops rec form args) d"
  by (cases form) (auto intro!: ok_rec [OF assms(1)] ok_progn ok_let ok_setq ok_catch assms)

section \<open>Lambda expressions\<close>

lemma ok_lambda_args:
  assumes "rec_ok rec" and "world_ok ops"
  shows "ok d (lambda_args_call ops rec len hare tortoise opt rest args fun nargs speccount formals body) speccount"
proof -
  have go: "ok d' (next_hare ops rec formals len hare tortoise
                 (\<lambda>len' hare' tortoise'. rec (Lambda_args len' hare' tortoise' opt' rest' args' fun nargs speccount formals body))) speccount" for d' opt' rest' args'
    by (rule ok_next_hare [OF assms(1) ok_rec [OF assms(1)]]) simp
  show ?thesis unfolding lambda_args_call_def Let_def
    by (cases args) (auto intro!: ok_body ok_raise ok_signals ok_specbind go assms split: list.split)
qed

lemma ok_funcall_lambda:
  assumes "rec_ok rec"
  shows "ok d (funcall_lambda ops rec fun args) d"
proof -
  have "ok d (\<lambda>s. rec (Lambda_args 0 formals formals False False args fun (length args) (specpdl_depth s) formals body) s) d" for formals body
    by (rule ok_state [where f = "\<lambda>s. rec (Lambda_args 0 formals formals False False args fun (length args) (specpdl_depth s) formals body)"], rule ok_rec [OF assms]) simp
  then show ?thesis unfolding funcall_lambda_def by (auto intro!: ok_signals assms)
qed

section \<open>Compiled functions\<close>

definition outcome_control :: "'w eval_state \<Rightarrow> 'w globals outcome \<Rightarrow> bool" where
  "outcome_control s r \<longleftrightarrow>
     (case r of Continue pc stk s' \<Rightarrow> same_control s s' | Return v s' \<Rightarrow> same_control s s' | Exit x s' \<Rightarrow> fails (catches s) x s' | _ \<Rightarrow> True)"

definition bc_control :: "'w globals bc_ops \<Rightarrow> bool" where
  "bc_control ops \<longleftrightarrow>
     variables_ok (vops ops) \<and> effect_control (QUIT ops) \<and> (\<forall>y. value_control (Fsymbol_value ops y)) \<and> (\<forall>args. value_control (ByteExec.Ffuncall ops args)) \<and>
     (\<forall>opcode args. value_control (prim ops opcode args)) \<and> (\<forall>opcode a b. value_control (float_arith ops opcode a b)) \<and>
     (\<forall>a b s x. float_compare ops a b s = Inl x \<longrightarrow> plain x) \<and>
     (\<forall>opcode s. same_control s (snd (save_state ops opcode s)) \<and> specpdl_depth (snd (save_state ops opcode s)) = specpdl_depth s)"

lemma same_control_simps [simp]: "same_control s s" "same_control s (s\<lparr>heap := h\<rparr>)"
  by (simp_all add: same_control_def)

lemma same_control_trans: "same_control s t \<Longrightarrow> same_control t u \<Longrightarrow> same_control s u"
  by (simp add: same_control_def)

lemma outcome_control_trans: "same_control s t \<Longrightarrow> outcome_control t r \<Longrightarrow> outcome_control s r"
  by (auto simp: outcome_control_def same_control_def split: outcome.splits)

lemma fails_same: "plain x \<Longrightarrow> same_control s t \<Longrightarrow> fails (catches s) x t"
  by (simp add: fails_plain same_control_def)

lemma bc_controlD:
  assumes "bc_control ops"
  shows "variables_ok (vops ops)" "effect_at s (QUIT ops s)" "value_at s (Fsymbol_value ops y s)" "value_at s (ByteExec.Ffuncall ops args s)"
    "value_at s (prim ops opcode args s)" "value_at s (float_arith ops opcode a b s)" "float_compare ops a b s = Inl x \<Longrightarrow> plain x"
    "same_control s (snd (save_state ops opcode s))" "specpdl_depth (snd (save_state ops opcode s)) = specpdl_depth s"
  using assms by (auto simp: bc_control_def value_control_def effect_control_def)

lemma compare_control:
  assumes "bc_control ops"
  shows "value_at s (map_sum id f (bytecode_arithcompare ops a b s), s)"
proof (cases "bytecode_arithcompare ops a b s")
  case (Inl x)
  then have "plain x" using bc_controlD(7) [OF assms] by (auto simp: bytecode_arithcompare_def split: option.splits)
  then show ?thesis using Inl by (simp add: fails_plain)
qed simp

lemma value_at_if: "value_at s a \<Longrightarrow> value_at s b \<Longrightarrow> value_at s (if P then a else b)"
  by simp

lemma opcode_value_control:
  assumes "bc_control ops"
  shows "value_at s (opcode_value ops opcode args s)"
proof -
  have A: "value_at s (bytecode_arithop ops a b opcode s)" "value_at s (bytecode_negate ops a s)" for a b opcode
    using bc_controlD(6) [OF assms] by (auto simp: bytecode_arithop_def bytecode_negate_def fails_plain split: option.splits)
  have H: "value_at s (Fcar (heap s) x, s)" "value_at s (Fcdr (heap s) x, s)" for x
    by (auto simp: Fcar_def Fcdr_def fails_plain)
  have S: "value_at s (map_sum id fst (Fsetcar a b (heap s)), case Fsetcar a b (heap s) of Inl e \<Rightarrow> s | Inr (v, h) \<Rightarrow> s\<lparr>heap := h\<rparr>)"
    "value_at s (map_sum id fst (Fsetcdr a b (heap s)), case Fsetcdr a b (heap s) of Inl e \<Rightarrow> s | Inr (v, h) \<Rightarrow> s\<lparr>heap := h\<rparr>)" for a b
    by (auto simp: Fsetcar_def Fsetcdr_def fails_plain)
  have L: "value_at s (case r of (v, h) \<Rightarrow> (Inr v, s\<lparr>heap := h\<rparr>))" for r by (cases r) simp
  show ?thesis unfolding opcode_value_def Let_def
    by (intro value_at_if A H S L compare_control [OF assms] bc_controlD(5) [OF assms]) simp_all
qed

text \<open>Instructions.\<close>

lemma eff_at: "eff (specpdl_depth s) f d' \<Longrightarrow> effect_at s (f s)"
  using ctl_self [of s] by (cases "f s"; cases "fst (f s)") (auto simp: same_control_def ctl_def dest: effD)

lemma effect_at_trans: "same_control s t \<Longrightarrow> effect_at t r \<Longrightarrow> effect_at s r"
  by (auto simp: effect_at_def same_control_def split: option.splits)

lemma push_result_control: "value_at s r \<Longrightarrow> outcome_control s (push_result depth pc stk r)"
  by (cases r; cases "fst r") (auto simp: push_result_def outcome_control_def)

lemma apply_values_control: "(\<And>args. value_at s (f args s)) \<Longrightarrow> outcome_control s (apply_values depth pc n f stk s)"
  by (auto simp: apply_values_def intro: push_result_control) (simp add: outcome_control_def)

lemma after_effect_control: "effect_at s r \<Longrightarrow> outcome_control s (after_effect pc stk r)"
  by (cases r; cases "fst r") (auto simp: after_effect_def outcome_control_def)

lemma apply_opcode_control: "bc_control ops \<Longrightarrow> outcome_control s (apply_values depth pc n (opcode_value ops opcode) stk s)"
  by (rule apply_values_control) (rule opcode_value_control)

lemma apply_prim_control:
  "bc_control ops \<Longrightarrow> outcome_control s (apply_values depth pc n (prim ops opcode) stk s)"
  "bc_control ops \<Longrightarrow> outcome_control s (apply_values depth pc n (ByteExec.Ffuncall ops) stk s)"
  by (rule apply_values_control, rule bc_controlD(5), assumption) (rule apply_values_control, rule bc_controlD(4), assumption)

lemma exec_unbind_control:
  assumes "bc_control ops"
  shows "outcome_control s (exec_unbind ops pc count stk s)"
proof (cases "unbind_to (vops ops) (nat count) s")
  case None
  then show ?thesis by (simp add: exec_unbind_def outcome_control_def)
next
  case (Some r)
  have "effect_at s r"
    using unbind_to_ctl [OF bc_controlD(1) [OF assms] Some ctl_self]
    by (cases r; cases "fst r") (auto simp: same_control_def ctl_def)
  then have "outcome_control s (after_effect pc stk r)" by (rule after_effect_control)
  moreover have "outcome_control s Crash" by (simp add: outcome_control_def)
  ultimately show ?thesis using Some by (simp add: exec_unbind_def)
qed

lemma exec_jump_control:
  assumes "bc_control ops"
  shows "outcome_control s (exec_jump ops kind pc goal next_pc stk s)"
proof -
  have C: "outcome_control s (Continue pc stk s)" "outcome_control s Crash" for pc stk by (simp_all add: outcome_control_def)
  have J: "outcome_control s (JUMP_RELATIVE ops pc goal stk s)" for stk
    using C after_effect_control [OF bc_controlD(2) [OF assms]] by (simp add: JUMP_RELATIVE_def)
  show ?thesis unfolding exec_jump_def Let_def using C J by (simp split: list.split)
qed

lemma outcome_control_cases:
  "outcome_control s a \<Longrightarrow> outcome_control s b \<Longrightarrow> outcome_control s (if P then a else b)"
  "outcome_control s a \<Longrightarrow> (\<And>y. outcome_control s (f y)) \<Longrightarrow> outcome_control s (case z of None \<Rightarrow> a | Some y \<Rightarrow> f y)"
  "outcome_control s a \<Longrightarrow> (\<And>v rest. outcome_control s (g v rest)) \<Longrightarrow> outcome_control s (case stk of [] \<Rightarrow> a | v # rest \<Rightarrow> g v rest)"
  by (simp_all split: option.split list.split)

lemma exec_plain_control:
  assumes "bc_control ops"
  shows "outcome_control s (exec_plain ops depth count opcode pc stk s)"
proof -
  note B = bc_controlD [OF assms]
  have U: "effect_at t (record_unwind_protect f arg t)" for f arg t by (rule eff_at [OF eff_record_unwind_protect])
  have S: "outcome_control s (after_effect pc stk (record_unwind_protect (Unwind f) arg s1))" if "save_state ops c s = ((f, arg), s1)" for c f arg s1 stk
    using B(8) [of s c] that by (intro after_effect_control effect_at_trans [OF _ U]) simp
  have C: "outcome_control s (Return v s)" "outcome_control s (Continue pc stk s)" "outcome_control s Crash" for v stk
    by (simp_all add: outcome_control_def)
  have W: "outcome_control s (case record_unwind_protect (Unwind f) arg s1 of
                           (Some e, s2) \<Rightarrow> Exit e s2
                         | (None, s2) \<Rightarrow>
                             (case prim ops 139 [v] s2 of
                                (Inl e, s3) \<Rightarrow> Exit e s3
                              | (Inr w, s3) \<Rightarrow> exec_unbind ops pc (int (specpdl_depth s)) (w # rest) s3))"
    if "save_state ops opcode s = ((f, arg), s1)" for f arg s1 v rest
  proof -
    have s1: "same_control s s1" using B(8) [of s opcode] that by simp
    obtain r s2 where r: "record_unwind_protect (Unwind f) arg s1 = (r, s2)" by fastforce
    have e: "effect_at s (r, s2)" using effect_at_trans [OF s1 U [of s1 "Unwind f" arg]] r by simp
    show ?thesis
    proof (cases r)
      case None
      then have s2: "same_control s s2" using e by simp
      obtain q s3 where q: "prim ops 139 [v] s2 = (q, s3)" by fastforce
      have v: "value_at s2 (q, s3)" using B(5) [of s2 139 "[v]"] q by simp
      show ?thesis
      proof (cases q)
        case (Inl x)
        then have "fails (catches s) x s3" using v s2 by (simp add: same_control_def)
        then show ?thesis using r None q Inl by (simp add: outcome_control_def)
      next
        case (Inr w)
        then have "same_control s s3" using v s2 same_control_trans by auto
        from outcome_control_trans [OF this exec_unbind_control [OF assms]] show ?thesis using r None q Inr by simp
      qed
    qed (use e r in \<open>simp add: outcome_control_def\<close>)
  qed
  have X: "outcome_control s (case prim ops 145 [buf] s of
                           (Inl e, s1) \<Rightarrow> Exit e s1
                         | (Inr _, s1) \<Rightarrow> exec_unbind ops pc (int (specpdl_depth s1) - 1) (v # rest') s1)" for buf v rest'
    using B(5) [of s 145 "[buf]"] outcome_control_trans [OF _ exec_unbind_control [OF assms]]
    by (cases "prim ops 145 [buf] s"; cases "fst (prim ops 145 [buf] s)") (auto simp: outcome_control_def)
  have S': "outcome_control s (let ((f, arg), s1) = save_state ops opcode s in after_effect pc stk (record_unwind_protect (Unwind f) arg s1))"
    using S by (simp split: prod.split)
  have W': "outcome_control s (case save_state ops opcode s of ((f, arg), s1) \<Rightarrow> (case record_unwind_protect (Unwind f) arg s1 of
                           (Some e, s2) \<Rightarrow> Exit e s2
                         | (None, s2) \<Rightarrow>
                             (case prim ops 139 [v] s2 of
                                (Inl e, s3) \<Rightarrow> Exit e s3
                              | (Inr w, s3) \<Rightarrow> exec_unbind ops pc (int (specpdl_depth s)) (w # rest) s3)))" for v rest
    using W by (cases "save_state ops opcode s"; cases "fst (save_state ops opcode s)") auto
  have R: "outcome_control s (push_result depth pc stk (Inr v, s))" for v stk by (rule push_result_control) simp
  show ?thesis unfolding exec_plain_def Let_def
    by (intro outcome_control_cases S' [unfolded Let_def] W' X R C after_effect_control [OF U] apply_opcode_control apply_prim_control exec_unbind_control assms)
qed

lemma exec_insn_control:
  assumes "bc_control ops"
  shows "outcome_control s (exec_insn ops depth cs count pc x next_pc stk s)"
proof -
  note B = bc_controlD [OF assms]
  have V: "value_at s (if SYMBOL_VALUE_MAGIC_P (sym_value s y) then Fsymbol_value ops y s else (Inr (sym_value s y), s))" for y
    using B(3) by simp
  have E: "effect_at s (Fset (vops ops) y v s)" "effect_at s (SPECBIND_FAST_UNSAFE (vops ops) y v s)" for y v
    by (rule eff_at [OF eff_Fset [OF B(1)]], rule eff_at [OF eff_SPECBIND [OF B(1)]])
  have C: "outcome_control s Crash" by (simp add: outcome_control_def)
  have L: "outcome_control s (apply_values depth next_pc n (\<lambda>args s. let (v, h) = list_objects args (heap s) in (Inr v, s\<lparr>heap := h\<rparr>)) stk s)" for n
    by (rule apply_values_control) (simp split: prod.split)
  show ?thesis unfolding exec_insn_def
    using push_result_control [OF V] after_effect_control [OF E(1)] after_effect_control [OF E(2)] apply_prim_control [OF assms] exec_unbind_control [OF assms]
      exec_jump_control [OF assms] push_result_control [of s "(Inr _, s)"] L exec_plain_control [OF assms] C
    by (cases x) (simp_all add: Let_def split: option.split list.split)
qed

lemma bc_run_control:
  assumes "bc_control ops" and "bc_run fetch ops depth cs count pc stk s = Some r"
  shows "outcome_control s r"
  using assms(2)
proof (induction rule: bc_run_induct)
  case (none pc stk s)
  then show ?case by (simp add: outcome_control_def)
next
  case (final pc x j stk s r)
  then show ?case using exec_insn_control [OF assms(1)] by blast
next
  case (step pc x j stk s pc' stk' s' r)
  then have "same_control s s'" using exec_insn_control [OF assms(1), of s depth cs count pc x "int j" stk] by (simp add: outcome_control_def)
  then show ?case using step.IH outcome_control_trans by blast
qed

text \<open>A call of a compiled function.\<close>

definition binding_control :: "'w eval_state \<Rightarrow> 'w globals binding_result \<Rightarrow> bool" where
  "binding_control s r \<longleftrightarrow>
     (case r of Bound s' \<Rightarrow> same_control s s' | Wrong_number s' \<Rightarrow> same_control s s' | Bind_exit x s' \<Rightarrow> fails (catches s) x s' | Bind_crash \<Rightarrow> True)"

lemma bind_arg_control:
  assumes "bc_control ops"
  shows "binding_control s (bind_arg ops x v s)"
proof -
  have "effect_at s (SPECBIND_FAST_UNSAFE (vops ops) y v s)" for y by (rule eff_at [OF eff_SPECBIND [OF bc_controlD(1) [OF assms]]])
  then show ?thesis
    by (auto simp: bind_arg_def binding_control_def effect_at_def split: lisp_object.split prod.split option.split)
       (metis fst_conv snd_conv option.simps(4,5))+
qed

lemma bind_args_control:
  assumes "bc_control ops"
  shows "binding_control s (bind_args ops xs opt args s)"
proof (induction xs arbitrary: opt args s)
  case Nil
  then show ?case by (simp add: binding_control_def)
next
  case (Cons x tail)
  have tr: "binding_control t r \<Longrightarrow> same_control s t \<Longrightarrow> binding_control s r" for t r
    by (auto simp: binding_control_def same_control_def split: binding_result.splits)
  have rest: "binding_control s (let (v, h) = list_objects args (heap s) in bind_arg ops y v (s\<lparr>heap := h\<rparr>))" for y
    using tr [OF bind_arg_control [OF assms]] by (simp split: prod.split)
  have "binding_control s (case bind_arg ops x v s of Bound s' \<Rightarrow> bind_args ops tail opt (tl args) s' | r \<Rightarrow> r)" for v
    using bind_arg_control [OF assms, of s x v] tr [OF Cons.IH] by (cases "bind_arg ops x v s") (auto simp: binding_control_def)
  then show ?case using rest Cons.IH by (auto simp: binding_control_def [where r = "Wrong_number s"] split: list.split) (simp_all add: binding_control_def)
qed

lemma funcall_compiled_control:
  assumes B: "bc_control ops" and "funcall_compiled_function ops f args s = Some (r, f')" and s: "ctl L e d s"
  shows "case r of Return v s' \<Rightarrow> ctl L e d s' | Exit x s' \<Rightarrow> fails L x s' | _ \<Rightarrow> True"
proof -
  have d: "specpdl_depth s = d" and L: "catches s = L" and e: "nesting s = e" using s by (simp_all add: ctl_def)
  have run: "case r of Return v s' \<Rightarrow> ctl L e d s' | Exit x s' \<Rightarrow> fails L x s' | _ \<Rightarrow> True"
    if run: "(case execute_optimized_program ops p n cs s2 of
                                 None \<Rightarrow> None
                               | Some (Return v s3) \<Rightarrow>
                                   map_option (\<lambda>(e, s4). case e of None \<Rightarrow> Return v s4 | Some e \<Rightarrow> Exit e s4) (unbind_to (vops ops) d s3)
                               | Some r \<Rightarrow> Some r) = Some r" and s2: "same_control s s2" for p n cs s2
  proof (cases "execute_optimized_program ops p n cs s2")
    case (Some q)
    then have q: "outcome_control s q" using bc_run_control [OF B] outcome_control_trans [OF s2] unfolding execute_optimized_program_def by blast
    show ?thesis
    proof (cases q)
      case (Return v s3)
      then obtain u where u: "unbind_to (vops ops) d s3 = Some u" "r = (case fst u of None \<Rightarrow> Return v (snd u) | Some e \<Rightarrow> Exit e (snd u))"
        using run Some by (auto simp: case_prod_beta)
      have "ctl L e (specpdl_depth s3) s3" using q Return L e by (simp add: outcome_control_def same_control_def ctl_def)
      from unbind_to_ctl [OF bc_controlD(1) [OF B] u(1) this] show ?thesis using u(2) by (cases "fst u") simp_all
    qed (use run Some q L in \<open>auto simp: outcome_control_def\<close>)
  qed (use run in simp)
  obtain g where g: "optimize_compiled_function (keyword (vops ops)) f = Some (Inr g) \<or> r = Crash \<or> (\<exists>m. r = Exit (Error_string m) s)"
    using assms(2) by (auto simp: funcall_compiled_function_def Let_def split: option.splits sum.splits byte_code_error.splits)
  show ?thesis
  proof (cases "optimize_compiled_function (keyword (vops ops)) f = Some (Inr g)")
    case True
    obtain x s1 where r: "SPECPDL_RESERVE (int (specpdl_depth_of g)) s = (x, s1)" by fastforce
    have s1: "same_control s s1 \<and> (\<forall>y. x = Some y \<longrightarrow> plain y)"
      using reserve_ctl [OF r, of L e d] s by (auto simp: same_control_def ctl_def)
    show ?thesis
    proof (cases x)
      case None
      have b: "binding_control s (bind_args ops (arglist g) False args s1)"
        using bind_args_control [OF B, of s1 "arglist g" False args] s1
        by (auto simp: binding_control_def same_control_def split: binding_result.splits)
      show ?thesis
      proof (cases "bind_args ops (arglist g) False args s1")
        case (Bound s2)
        then show ?thesis using assms(2) True r None d b run [of _ "stack_depth g" "constants g" s2]
          by (auto simp: funcall_compiled_function_def binding_control_def split: instructions.splits)
      qed (use assms(2) True r None d b L in \<open>auto simp: funcall_compiled_function_def binding_control_def same_control_def fails_plain\<close>)
    next
      case (Some y)
      then show ?thesis using assms(2) True r s1 L by (auto simp: funcall_compiled_function_def same_control_def intro: fails_plain)
    qed
  next
    case False
    then show ?thesis using g L by (auto simp: fails_plain)
  qed
qed

lemma bc_control_compiled:
  assumes "rec_ok rec" and "world_ok ops"
  shows "bc_control (compiled_ops ops rec)"
proof -
  note R = ok_rec [OF assms(1)]
  have V: "value_control (rec c)" if "\<And>d. target c d = d" for c using R that by (intro ok_control) blast
  have "value_control (prim (compiled_ops ops rec) opcode args)" for opcode args
    using ok_control [OF ok_internal_catch [OF R]] ok_control [OF ok_condition_case_3 [OF assms]] V assms(2)
    by (simp add: compiled_ops_def world_ok_def)
  moreover have "value_control (Fsymbol_value (bops ops) y)" for y
    using assms(2) by (intro val_control) (simp add: world_ok_def)
  moreover have "effect_control (QUIT (bops ops))" using assms(2) by (intro eff_control) (simp add: world_ok_def)
  ultimately show ?thesis using assms(2) variables_ok_eval [OF assms] V
    unfolding bc_control_def world_ok_def compiled_ops_def by simp
qed

lemma ok_funcall_compiled:
  assumes "rec_ok rec" and "world_ok ops"
  shows "ok d (funcall_compiled ops rec i args) d" "ok d (Ffuncall_compiled ops rec fun args) d"
proof -
  note B = bc_control_compiled [OF assms]
  have C: "ok d (funcall_compiled ops rec i args) d" for i
    unfolding ok_def
  proof (intro allI impI)
    fix L e and s :: "'a eval_state"
    assume s: "ctl L e d s"
    have call: "leaves L e d (let s1 = s\<lparr>ext := (ext s)\<lparr>compiled_functions := (compiled_functions (ext s))(i \<mapsto> g)\<rparr>\<rparr>
        in case funcall_compiled_function (compiled_ops ops rec) g args s1 of
             None \<Rightarrow> (Inl Out_of_fuel, s1)
           | Some (r, _) \<Rightarrow> outcome_action ops rec r (fatal s1))" for g
    proof -
      define s1 where "s1 = s\<lparr>ext := (ext s)\<lparr>compiled_functions := (compiled_functions (ext s))(i \<mapsto> g)\<rparr>\<rparr>"
      have s1: "ctl L e d s1" using s by (simp add: ctl_def s1_def specpdl_depth_def)
      show ?thesis
      proof (cases "funcall_compiled_function (compiled_ops ops rec) g args s1")
        case None
        then show ?thesis by (simp add: s1_def [symmetric] Let_def leaves_def)
      next
        case (Some q)
        obtain r f' where q: "q = (r, f')" by fastforce
        from funcall_compiled_control [OF B _ s1] have "case r of Return v s' \<Rightarrow> ctl L e d s' | Exit x s' \<Rightarrow> fails L x s' | _ \<Rightarrow> True"
          using Some q by blast
        then show ?thesis using Some q raise_leaves [OF assms(1)]
          by (cases r) (auto simp: s1_def [symmetric] Let_def outcome_action_def leaves_def [of L e d "(Inr _, _)"])
      qed
    qed
    have "catches s = L" using s by (simp add: ctl_def)
    then have "leaves L e d (raise ops rec (Error_string m) s)" for m by (intro raise_leaves [OF assms(1)] fails_plain) simp_all
    then show "leaves L e d (funcall_compiled ops rec i args s)"
      using call unfolding funcall_compiled_def by (auto split: option.split sum.split byte_code_error.split)
  qed
  show "ok d (funcall_compiled ops rec i args) d" "ok d (Ffuncall_compiled ops rec fun args) d"
    unfolding Ffuncall_compiled_def using C by (auto split: lisp_object.split lrecord_type.split)
qed

section \<open>Evaluation\<close>

lemma ok_call_subr:
  assumes "rec_ok rec" and "world_ok ops" and "subrs ops i = Some sb"
  shows "ok d (call_subr ops rec sb args) d"
proof -
  have P: "val d (f xs) d" if "subr_code sb = Primitive f" for f xs using assms(2,3) that by (auto simp: world_ok_def)
  have C: "ok d (core_call ops rec c xs) d" for c xs
  proof (cases "never_returns (Throw (xs ! 0) (xs ! 1))")
    case True
    then show ?thesis using ok_rec [OF assms(1)]
      by (cases c) (auto intro!: ok_rec [OF assms(1)] ok_Fapply ok_Fcall_with_condition_handler assms)
  qed simp
  show ?thesis unfolding call_subr_def Let_def
    using C ok_do_value [OF assms(1) P] by (cases "subr_code sb") auto
qed

lemma ok_args:
  assumes "rec_ok rec" and "world_ok ops"
  shows "ok d (args_call ops rec tail vals nargs k) d"
  unfolding args_call_def
  by (cases k) (auto intro!: ok_call_subr ok_rec [OF assms(1)] ok_funcall_compiled ok_funcall_lambda assms split: option.split)

lemma ok_autoload:
  assumes "rec_ok rec" and "world_ok ops" and "ok d f d"
  shows "ok d (do_effect ops rec (do_autoload ops x y) f) d"
  using assms(2) by (intro ok_do_effect [OF assms(1) _ assms(3)]) (simp add: world_ok_def)

lemma ok_eval_retry:
  assumes "rec_ok rec" and "world_ok ops"
  shows "ok d (eval_retry_call ops rec fun args nargs) d"
  unfolding eval_retry_call_def
  by (rule ok_indirect_function [OF assms(1)])
    (auto intro!: ok_signals ok_special ok_rec [OF assms(1)] ok_autoload ok_apply1 assms split: lisp_object.split lrecord_type.split option.split arity.split subr_code.split)

lemma leave_call_leaves: "leaves L (e + 1) d (f s) \<Longrightarrow> leaves L e d (leave_call f s)"
  by (cases "f s"; cases "fst (f s)") (auto simp: leave_call_def abind_def leaves_def ctl_sets, auto simp: ctl_def)

lemma ok_nested:
  assumes "rec_ok rec" and "world_ok ops" and "ok d f d"
  shows "ok d (leave_call (enter_call ops rec f)) d"
  unfolding ok_def
proof (intro allI impI)
  fix L e and s :: "'a eval_state"
  assume s: "ctl L e d s"
  define body where "body s = (let n = lisp_eval_depth (ext s) + 1; s1 = set_eval_depth n s
       in if n > max_lisp_eval_depth (ext s)
          then let s2 = (if max_lisp_eval_depth (ext s) < 100 then s1\<lparr>ext := (ext s1)\<lparr>max_lisp_eval_depth := 100\<rparr>\<rparr> else s1)
               in if n > max_lisp_eval_depth (ext s2) then raise ops rec (Error_string ''Lisp nesting exceeds max-lisp-eval-depth'') s2 else f s2
          else f s1)" for s
  have body: "leaves L (e + 1) d (body t)" if t: "ctl L e d t" for t
  proof -
    have "leaves L (e + 1) d (if b then raise ops rec (Error_string m) u else f u)" if "ctl L (e + 1) d u" for b m u
    proof -
      have "catches u = L" using that by (simp add: ctl_def)
      then show ?thesis using that assms(3) raise_leaves [OF assms(1) fails_plain] by (auto simp: ok_def)
    qed
    moreover have "ctl L (e + 1) d (set_eval_depth (nesting t + 1) t)" "ctl L (e + 1) d (u\<lparr>ext := (ext u)\<lparr>max_lisp_eval_depth := 100\<rparr>\<rparr>) = ctl L (e + 1) d u" for u :: "'a eval_state"
      using t by (simp_all add: ctl_def) (simp add: specpdl_depth_def)
    ultimately show ?thesis using assms(3) by (simp add: body_def Let_def ok_def)
  qed
  obtain r t where q: "QUIT (bops ops) s = (r, t)" by fastforce
  have Q: "eff d (QUIT (bops ops)) d" using assms(2) by (simp add: world_ok_def)
  have E: "enter_call ops rec f s = (case r of None \<Rightarrow> body t | Some x \<Rightarrow> raise ops rec x t)"
    using q unfolding enter_call_def do_effect_def body_def by (simp split: option.split)
  show "leaves L e d (leave_call (enter_call ops rec f) s)"
  proof (cases r)
    case None
    then show ?thesis using E body effD(1) [OF Q s] q by (intro leave_call_leaves) simp
  next
    case (Some x)
    then show ?thesis using E raise_leaves [OF assms(1) effD(2) [OF Q s]] q by (intro leave_call_leaves) simp
  qed
qed

lemma ok_Feval:
  assumes "rec_ok rec" and "world_ok ops"
  shows "ok d (Feval ops rec form) d"
proof -
  have S: "val d (Fsymbol_value (bops ops) y) d" for y using assms(2) by (simp add: world_ok_def)
  show ?thesis unfolding Feval_def
    by (auto intro!: ok_nested ok_do_length ok_rec [OF assms(1)] ok_do_value S assms split: lisp_object.split)
qed

lemma ok_funcall_retry:
  assumes "rec_ok rec" and "world_ok ops"
  shows "ok d (funcall_retry_call ops rec args) d"
proof (cases args)
  case (Cons original_fun fun_args)
  have F: "ok d (funcall_function rec x f) d" if "\<And>y. ok d (f y) d" for x f
    using that ok_indirect_function [OF assms(1) that] unfolding funcall_function_def ok_def Let_def by simp
  show ?thesis unfolding funcall_retry_call_def Cons list.case
    by (rule F) (auto intro!: ok_signals ok_call_subr ok_rec [OF assms(1)] ok_autoload ok_funcall_compiled ok_funcall_lambda assms
        split: lisp_object.split lrecord_type.split option.split arity.split)
qed (simp add: funcall_retry_call_def)

section \<open>Signals\<close>

definition exiting :: "'w action \<Rightarrow> bool" where
  "exiting f \<longleftrightarrow> (\<forall>s v. fst (f s) \<noteq> Inr v)"

lemma exiting_rules:
  "exiting fatal" "rec_ok rec \<Longrightarrow> never_returns c \<Longrightarrow> exiting (rec c)"
  "(\<And>v. exiting (g v)) \<Longrightarrow> exiting (abind f g)" "(\<And>y. exiting (h y)) \<Longrightarrow> exiting (with_car x h)" "(\<And>y. exiting (h y)) \<Longrightarrow> exiting (with_cdr x h)"
  "(\<And>y. exiting (h y)) \<Longrightarrow> exiting (with_cons x z h)"
  by (auto simp: exiting_def fatal_def rec_ok_def abind_def with_car_def with_cdr_def with_cons_def split: prod.splits sum.splits)

lemma exiting_raise: "rec_ok rec \<Longrightarrow> exiting (raise ops rec x)"
  by (cases x) (auto simp: exiting_def raise_def rec_ok_def split: prod.split)

lemma exiting_do_list: "rec_ok rec \<Longrightarrow> (\<And>x. exiting (g x)) \<Longrightarrow> exiting (do_list ops rec f g)"
  using exiting_raise [of rec ops] exiting_rules(1) by (auto simp: exiting_def do_list_def split: option.split sum.split)

lemma exiting_if: "(P \<Longrightarrow> exiting f) \<Longrightarrow> (\<not> P \<Longrightarrow> exiting g) \<Longrightarrow> exiting (if P then f else g)"
  by simp

lemma exiting_ok: "exiting f \<Longrightarrow> ok d f d' \<Longrightarrow> ok d f d''"
  unfolding ok_def exiting_def by (meson exits_free)

lemma ok_throw:
  assumes "rec_ok rec" and "world_ok ops"
  shows "ok d (throw_call ops rec tag v) d" "exiting (throw_call ops rec tag v)"
proof -
  have N: "ok d (abind (signal_list rec Qno_catch [tag, v]) (\<lambda>tag'. rec (Throw tag' v))) d"
    by (auto intro!: ok_signal_list ok_rec [OF assms(1)] assms)
  show "ok d (throw_call ops rec tag v) d"
    unfolding ok_def throw_call_def
  proof (intro allI impI)
    fix L e and s :: "'a eval_state"
    assume s: "ctl L e d s"
    then have L: "catches s = L" by (simp add: ctl_def)
    show "leaves L e d (case find_catch tag (catchlist (ext s)) of
        Some (c, outer) \<Rightarrow> unwind_to_catch ops rec c outer v s
      | None \<Rightarrow> abind (signal_list rec Qno_catch [tag, v]) (\<lambda>tag'. rec (Throw tag' v)) s)"
      using N s L ok_unwind_to_catch(1) [OF assms s] by (auto simp: ok_def split: option.split dest!: find_catch_split)
  qed
  have "exiting (abind (signal_list rec Qno_catch [tag, v]) (\<lambda>tag'. rec (Throw tag' v)))"
    by (intro exiting_rules(3) exiting_rules(2) [OF assms(1)]) simp
  then show "exiting (throw_call ops rec tag v)"
    by (auto simp: exiting_def throw_call_def unwind_to_catch_def split: option.split prod.split sum.split)
qed

lemma ok_last_resort:
  assumes "rec_ok rec" and "world_ok ops"
  shows "ok d (last_resort ops rec) d" "exiting (last_resort ops rec)"
proof -
  show "ok d (last_resort ops rec) d"
    unfolding ok_def
  proof (intro allI impI)
    fix L e and s :: "'a eval_state"
    assume s: "ctl L e d s"
    then have "catches s = L" by (simp add: ctl_def)
    then show "leaves L e d (last_resort ops rec s)"
      using ok_unwind_to_catch(1) [OF assms s] by (auto simp: last_resort_def split: option.split dest!: find_catch_split)
  qed
  show "exiting (last_resort ops rec)"
    by (auto simp: exiting_def last_resort_def unwind_to_catch_def fatal_def split: option.split prod.split sum.split)
qed

lemma ok_set_handlers: "ok d f d' \<Longrightarrow> ok d (\<lambda>s. f (set_handlers x s)) d'"
  by (simp add: ok_def ctl_sets)

lemma ok_handlers:
  assumes "rec_ok rec" and "world_ok ops"
  shows "ok d (handlers_call ops rec handlers sig data conditions) d" "exiting (handlers_call ops rec handlers sig data conditions)"
proof -
  define body where "body old = (\<lambda>handler_fun handler_data outer_handlers s.
             if \<not> UNBOUNDP handler_fun
             then with_cons sig data (\<lambda>tem.
                    abind (if NILP handler_data then rec (Funcall [handler_fun, tem])
                           else Fapply ops rec [handler_fun, tem, handler_data])
                      (\<lambda>_ s1. with_cdr handlers (\<lambda>hs. rec (Handlers hs sig data conditions)) (set_handlers old s1)))
                    (set_handlers outer_handlers s)
             else if handler_data = Qt \<or> handler_data = Qerror then throw_signal rec handlers sig data s
             else rec (Clauses handler_data handlers sig data conditions) s)" for old
  note R = ok_rec [OF assms(1)] and X = exiting_rules(2) [OF assms(1)]
  have A: "ok d (with_cons sig data (\<lambda>tem.
                    abind (if NILP hd then rec (Funcall [hf, tem]) else Fapply ops rec [hf, tem, hd])
                      (\<lambda>_ s1. with_cdr handlers (\<lambda>hs. rec (Handlers hs sig data conditions)) (set_handlers old s1)))) d" for hd hf old
    by (auto intro!: R ok_Fapply ok_set_handlers assms)
  have T: "ok d (throw_signal rec handlers sig data) d" "exiting (throw_signal rec handlers sig data)"
    unfolding throw_signal_def by (auto intro!: R X exiting_rules(6))
  have B: "exiting (with_cons sig data (\<lambda>tem.
                    abind (if NILP hd then rec (Funcall [hf, tem]) else Fapply ops rec [hf, tem, hd])
                      (\<lambda>_ s1. with_cdr handlers (\<lambda>hs. rec (Handlers hs sig data conditions)) (set_handlers old s1))))" for hd hf old
  proof (intro exiting_rules(6) exiting_rules(3))
    have "exiting (with_cdr handlers (\<lambda>hs. rec (Handlers hs sig data conditions)))" by (intro exiting_rules(5) X) simp
    then show "exiting (\<lambda>s1. with_cdr handlers (\<lambda>hs. rec (Handlers hs sig data conditions)) (set_handlers old s1))" by (simp add: exiting_def)
  qed
  have ok: "ok d (body old hf hd outs) d" "exiting (body old hf hd outs)" for old hf hd outs
    using ok_set_handlers [OF A] B T R [of "Clauses hd handlers sig data conditions" d d] X [of "Clauses hd handlers sig data conditions"] unfolding body_def ok_def exiting_def by simp_all
  have H: "handlers_call ops rec handlers sig data conditions s = (if \<not> CONSP handlers then last_resort ops rec s
      else with_car handlers (\<lambda>handler. with_car handler (\<lambda>handler_fun. with_cdr handler (\<lambda>handler_data. with_cdr handlers
        (body (condition_handlers (ext s)) handler_fun handler_data)))) s)" for s
    by (simp add: handlers_call_def body_def)
  have O: "ok d (with_car handlers (\<lambda>handler. with_car handler (\<lambda>handler_fun. with_cdr handler (\<lambda>handler_data. with_cdr handlers (body old handler_fun handler_data))))) d" for old
    by (intro ok_with_car ok_with_cdr ok)
  have E: "exiting (with_car handlers (\<lambda>handler. with_car handler (\<lambda>handler_fun. with_cdr handler (\<lambda>handler_data. with_cdr handlers (body old handler_fun handler_data)))))" for old
    by (intro exiting_rules(4,5) ok)
  show "ok d (handlers_call ops rec handlers sig data conditions) d" using O ok_last_resort [OF assms] unfolding ok_def H by simp
  show "exiting (handlers_call ops rec handlers sig data conditions)" using E ok_last_resort [OF assms] unfolding exiting_def H by simp
qed

lemma ok_clauses:
  assumes "rec_ok rec" and "world_ok ops"
  shows "ok d (clauses_call ops rec h handlers sig data conditions) d" "exiting (clauses_call ops rec h handlers sig data conditions)"
proof -
  note R = ok_rec [OF assms(1)] and X = exiting_rules(2) [OF assms(1)]
  show "ok d (clauses_call ops rec h handlers sig data conditions) d" unfolding clauses_call_def
    by (auto intro!: R ok_do_car ok_do_condition assms)
  show "exiting (clauses_call ops rec h handlers sig data conditions)" unfolding clauses_call_def
    by (intro exiting_if exiting_rules(4,5,6) exiting_do_list [OF assms(1)] X) simp_all
qed

section \<open>All together\<close>

lemma step_ok:
  assumes "rec_ok rec" and "world_ok ops"
  shows "rec_ok (step ops rec)"
  unfolding rec_ok_def
proof (intro conjI allI impI)
  have H: "ok d (\<lambda>s. handlers_call ops rec (condition_handlers (ext s)) sig data (error_conditions ops sig s) s) d" for d sig data
    using ok_handlers(1) [OF assms] unfolding ok_def by blast
  show "ok d (step ops rec c) (target c d)" for c d
    by (cases c) (auto intro!: ok_Feval ok_eval_retry ok_args ok_nested ok_rec [OF assms(1)] ok_funcall_retry ok_lambda_args ok_progn ok_setq ok_letX ok_let
        H ok_handlers ok_clauses ok_throw assms)
  show "fst (step ops rec c s) \<noteq> Inr v" if "never_returns c" for c s v
    using that ok_handlers(2) [OF assms] ok_clauses(2) [OF assms] ok_throw(2) [OF assms] by (cases c) (simp_all add: exiting_def)
qed

lemma interp_ok: "world_ok ops \<Longrightarrow> rec_ok (interp ops n)"
proof (induction n)
  case 0
  then show ?case by (simp add: rec_ok_def ok_def leaves_def)
next
  case (Suc n)
  then have "rec_ok (step ops (interp ops n))" by (intro step_ok) simp_all
  then show ?case by (simp add: rec_ok_def ok_def)
qed

end
