(* ===== verification/EvalSample.thy ===== *)
theory EvalSample
  imports Evaluator
begin

text \<open>
  A small Lisp system, and how to run it by rewriting.
\<close>

section \<open>An example\<close>

text \<open>A Lisp system with a few functions, whose symbols have the numbers 70 to 75, and no variables of its own.\<close>

definition sample_subrs :: "unit subr list" where
  "sample_subrs =
     [\<lparr>min_args = 1, max_args = UNEVALLED, subr_code = Special S_catch\<rparr>, \<lparr>min_args = 2, max_args = Max_args 2, subr_code = Core C_throw\<rparr>,
      \<lparr>min_args = 1, max_args = UNEVALLED, subr_code = Special S_unwind_protect\<rparr>, \<lparr>min_args = 1, max_args = UNEVALLED, subr_code = Special S_quote\<rparr>,
      \<lparr>min_args = 1, max_args = UNEVALLED, subr_code = Special S_let\<rparr>]"

definition sample_variable_ops :: "unit globals variable_ops" where
  "sample_variable_ops = \<lparr>Fset_magic = (\<lambda>y v s. (None, s)), find_symbol_value = (\<lambda>y s. sym_value s y), symbol_value_buffer_local_info = (\<lambda>y b s. 0),
     Fkill_local_variable = (\<lambda>y s. (None, s)), Fcurrent_buffer = (\<lambda>s. Qnil), Fset_buffer = (\<lambda>b s. (None, s)), get_buffer = (\<lambda>b s. Qnil),
     call_unwind = (\<lambda>f x s. (None, s)), keyword = (\<lambda>x. False), check_quit = (\<lambda>s. Qnil)\<rparr>"

definition sample_bc_ops :: "unit globals bc_ops" where
  "sample_bc_ops = \<lparr>vops = sample_variable_ops, Fsymbol_value = (\<lambda>y s. (Inr (sym_value s y), s)), Ffuncall = (\<lambda>args s. (Inr Qnil, s)),
     prim = (\<lambda>opcode args s. (Inr Qnil, s)), save_state = (\<lambda>opcode s. ((0, Qnil), s)), float_arith = (\<lambda>opcode a b s. (Inr Qnil, s)),
     float_compare = (\<lambda>a b s. Inr 0), Fprogn_function = 0, QUIT = (\<lambda>s. (None, s))\<rparr>"

definition sample_ops :: "unit eval_ops" where
  "sample_ops = \<lparr>bops = sample_bc_ops, subrs = (\<lambda>i. if i < length sample_subrs then Some (sample_subrs ! i) else None), do_autoload = (\<lambda>f x s. (None, s)),
     error_data = (\<lambda>e h. ((Qerror, Qnil), h)), error_conditions = (\<lambda>x s. Qnil), Ffset = (\<lambda>x d s. (None, s))\<rparr>"

definition sample_state :: "lisp_heap \<Rightarrow> unit eval_state" where
  "sample_state h = \<lparr>heap = h, sym_value = Lisp_Symbol, specpdl = [], specpdl_size = 50, max_specpdl_size = 3000, debug_on_error = False, quit_flag = Qnil,
     ext = \<lparr>function_of = (\<lambda>y. if 70 \<le> y \<and> y < 75 then Lisp_Lrecord Lrecord_subr (y - 70) else Qunbound), catchlist = [], condition_handlers = Qnil,
       lisp_eval_depth = 0, max_lisp_eval_depth = 1000, compiled_functions = (\<lambda>i. None), world = ()\<rparr>\<rparr>"

text \<open>Forms on the heap.\<close>

datatype sexp = Atom lisp_object | List "sexp list"

fun build :: "sexp \<Rightarrow> lisp_heap \<Rightarrow> lisp_object \<times> lisp_heap"
  and build_list :: "sexp list \<Rightarrow> lisp_heap \<Rightarrow> lisp_object \<times> lisp_heap" where
  "build (Atom x) h = (x, h)"
| "build (List xs) h = build_list xs h"
| "build_list [] h = (Qnil, h)"
| "build_list (x # xs) h = (let (tail, h1) = build_list xs h; (v, h2) = build x h1 in Fcons v tail h2)"

abbreviation (input) "catch_form tag body \<equiv> List [Atom (Lisp_Symbol 70), List [Atom (Lisp_Symbol 73), Atom (Lisp_Symbol tag)], body]"
abbreviation (input) "throw_form tag value \<equiv> List [Atom (Lisp_Symbol 71), List [Atom (Lisp_Symbol 73), Atom (Lisp_Symbol tag)], value]"
abbreviation (input) "protect_form form cleanup \<equiv> List [Atom (Lisp_Symbol 72), form, cleanup]"

definition eval_sample :: "sexp \<Rightarrow> (lisp_error + lisp_object) \<times> unit eval_state" where
  "eval_sample e = (case build e empty_heap of (form, h) \<Rightarrow> interp sample_ops 30 (Eval form) (sample_state h))"

text \<open>\<open>(catch 'a (unwind-protect (throw 'a 1) 2))\<close>\<close>

definition sample_form :: sexp where
  "sample_form = catch_form 80 (protect_form (throw_form 80 (Atom (Lisp_Int 1))) (Atom (Lisp_Int 2)))"

text \<open>\<open>(catch 'a (unwind-protect (catch 'b (throw 'a 1)) (throw 'b 2)))\<close>\<close>

definition stale_form :: sexp where
  "stale_form = catch_form 80 (protect_form (catch_form 81 (throw_form 80 (Atom (Lisp_Int 1)))) (throw_form 81 (Atom (Lisp_Int 2))))"

text \<open>
  Running the model by rewriting: what is not yet applied to a state is left alone.
\<close>

lemma lazy_congs:
  "abind f g s = abind f g s" "do_effect ops rec e f s = do_effect ops rec e f s" "do_value ops rec f s = do_value ops rec f s"
  "do_list ops rec lf lg s = do_list ops rec lf lg s" "with_car x k s = with_car x k s" "with_cdr x k s = with_cdr x k s"
  "with_cons x y k s = with_cons x y k s" "with_list xs k s = with_list xs k s"
  "indirect_function rec x b k s = indirect_function rec x b k s" "catch_jump L f k g s = catch_jump L f k g s"
  by (rule refl)+

lemma interp_numeral: "interp ops (numeral k) c s = step ops (interp ops (pred_numeral k)) c s"
  by (simp add: numeral_eq_Suc)

lemma sample_selectors:
  "bops sample_ops = sample_bc_ops" "vops sample_bc_ops = sample_variable_ops" "QUIT sample_bc_ops = (\<lambda>s. (None, s))"
  "subrs sample_ops i = (if i < 5 then Some (sample_subrs ! i) else None)"
  "sample_subrs ! 0 = \<lparr>min_args = 1, max_args = UNEVALLED, subr_code = Special S_catch\<rparr>"
  "sample_subrs ! (Suc 0) = \<lparr>min_args = 2, max_args = Max_args 2, subr_code = Core C_throw\<rparr>"
  "sample_subrs ! 2 = \<lparr>min_args = 1, max_args = UNEVALLED, subr_code = Special S_unwind_protect\<rparr>"
  "sample_subrs ! 3 = \<lparr>min_args = 1, max_args = UNEVALLED, subr_code = Special S_quote\<rparr>"
  "sample_subrs ! 4 = \<lparr>min_args = 1, max_args = UNEVALLED, subr_code = Special S_let\<rparr>"
  "check_quit (eval_vops sample_ops rec) = (\<lambda>s. Qnil)"
  "call_unwind (eval_vops sample_ops rec) 0 = (\<lambda>x. effect_of (rec (Progn x Qnil)))"
  by (simp_all add: sample_ops_def sample_bc_ops_def sample_variable_ops_def sample_subrs_def eval_vops_def)

lemmas run_simps = eval_sample_def empty_heap_def Fcons_def sample_state_def Let_def interp_numeral SYMBOLP_def sample_selectors
  abind_def do_effect_def do_value_def do_list_def with_car_def with_cdr_def with_cons_def fatal_def raise_def signal_list_def with_list_def
  GET_EXTERNAL_LIST_LENGTH_def EXTERNAL_LIST_LOOP_4_def external_list_loop.simps length_body_def CIRCULAR_LIST_SUSPICION_LENGTH_def
  Feval_def leave_call_def enter_call_def eval_retry_call_def indirect_function_def indirect_loop.simps symbol_function_def args_call_def args_room_def call_subr_def
  set_catchlist_def set_eval_depth_def set_handlers_def progn_call_def Fcatch_def internal_catch_def catch_jump_def this_catch_def throw_call_def
  unwind_to_catch_def unbind_def unbind_to_def unbind_to_hairy_def unbind_loop.simps run_unwind_def specpdl_depth_def effect_of_def
  Funwind_protect_def record_unwind_protect_def and_then_def SPECPDL_RESERVE_def push_binding_def

lemma sample_value: "fst (eval_sample sample_form) = Inr (Lisp_Int 1)"
  by (simp add: run_simps sample_form_def cong: lazy_congs)

end
