(* ===== verification/EvalRuns.thy ===== *)
theory EvalRuns
  imports EvalProps EvalSample
begin

text \<open>
  What evaluation as a whole does to the stacks, and the throws that make it fail: to catches that are being
  left, with a program that does so.
\<close>

section \<open>The stacks\<close>

lemma sample_ok: "world_ok sample_ops"
proof -
  have n: "sample_subrs ! i = sb \<Longrightarrow> i < length sample_subrs \<Longrightarrow> subr_code sb \<noteq> Primitive f" for i sb f
    by (auto simp: sample_subrs_def less_Suc_eq nth_Cons split: nat.splits)
  then have "subrs sample_ops i = Some sb \<Longrightarrow> subr_code sb \<noteq> Primitive f" for i sb f by (auto simp: sample_ops_def split: if_splits)
  moreover have "variables_ok (vops (bops sample_ops))" by (simp add: variables_ok_def sample_ops_def sample_bc_ops_def sample_variable_ops_def eff_def)
  ultimately show ?thesis unfolding world_ok_def by (auto simp: sample_ops_def sample_bc_ops_def eff_def val_def value_control_def)
qed

text \<open>
  Property C11: the height of the binding stack, the catches and the nesting of calls over the evaluation of a form, when the
  functions that are not modelled keep to the same rule (\<open>world_ok\<close>). When evaluation
  returns a value, the binding stack is as high as before, and the catches and the nesting are as before; when it exits by a throw, or
  by an error, which is a throw to a handler, the exit ends at a catch that was there when evaluation began,
  and the binding stack is as high as when that catch was set up, with the catches and the nesting of that time. No error is left
  without having been signalled. The exceptions are the crash \<open>Fatal\<close>, which a cleanup form can bring about (the property on stale catches below), and
  the model's bound on nesting. Only the height of the binding stack is meant, not what
  its entries are.
\<close>

theorem eval_balanced:
  assumes "world_ok ops"
  shows "case interp ops n (Eval form) s of
      (Inr v, s') \<Rightarrow> specpdl_depth s' = specpdl_depth s \<and> catches s' = catches s \<and> nesting s' = nesting s
    | (Inl x, s') \<Rightarrow> x = Out_of_fuel \<or> x = Fatal \<or>
        (\<exists>inner c outer v. x = Longjmp (length outer) v \<and> catches s = inner @ c # outer \<and>
           specpdl_depth s' = pdlcount c \<and> catches s' = outer \<and> nesting s' = saved_eval_depth c)"
proof -
  have "ok (specpdl_depth s) (interp ops n (Eval form)) (specpdl_depth s)" by (rule ok_rec [OF interp_ok [OF assms]]) simp
  then have "leaves (catches s) (nesting s) (specpdl_depth s) (interp ops n (Eval form) s)" using ctl_self by (auto simp: ok_def)
  then show ?thesis
    by (cases "interp ops n (Eval form) s"; cases "fst (interp ops n (Eval form) s)")
      (auto simp: leaves_def ctl_def exits_def lands_def split: lisp_error.splits)
qed

theorem eval_balanced_witness:
  "\<exists>s'. eval_sample sample_form = (Inr (Lisp_Int 1), s') \<and> specpdl_depth s' = 0 \<and> catches s' = [] \<and> nesting s' = 0"
proof -
  obtain form h where b: "build sample_form empty_heap = (form, h)" by fastforce
  have v: "fst (interp sample_ops 30 (Eval form) (sample_state h)) = Inr (Lisp_Int 1)" using sample_value b by (simp add: eval_sample_def)
  then show ?thesis
    using eval_balanced [OF sample_ok, where n = 30 and form = form and s = "sample_state h"] b
    by (cases "interp sample_ops 30 (Eval form) (sample_state h)") (simp add: eval_sample_def sample_state_def specpdl_depth_def)
qed

section \<open>Stale catches\<close>

text \<open>An entry that was made for a variable with an ordinary value, which has an ordinary value now.\<close>

definition restorable_entry :: "'w lisp_state \<Rightarrow> specbinding \<Rightarrow> bool" where
  "restorable_entry s b \<longleftrightarrow> func b = No_func \<and> \<not> SYMBOL_VALUE_MAGIC_P (old_value b) \<and> \<not> SYMBOL_VALUE_MAGIC_P (sym_value s (symbol b))"

lemma UNBIND_TO_past_start:
  "\<forall>b \<in> set bs. restorable_entry s b \<Longrightarrow> length bs < count \<Longrightarrow> UNBIND_TO ops count bs s = None"
proof (induction bs arbitrary: s)
  case (Cons b bs)
  have "\<forall>b' \<in> set bs. restorable_entry (set_value (symbol b) (old_value b) (s\<lparr>specpdl := bs\<rparr>)) b'"
    using Cons.prems(1) by (auto simp: restorable_entry_def set_value_def)
  from Cons.IH [OF this] show ?case using Cons.prems by (simp add: restorable_entry_def)
qed simp

text \<open>A throw to a catch whose part of the binding stack is gone.\<close>

lemma throw_to_stale_catch:
  assumes "find_catch tg (catchlist (ext s)) = Some (c, outer)" and "specpdl_depth s < pdlcount c"
    and "\<forall>b \<in> set (specpdl s). restorable_entry s b"
  shows "throw_call ops rec tg v s = (Inl Fatal, s)"
  using assms UNBIND_TO_past_start [OF assms(3)]
  by (simp add: throw_call_def unwind_to_catch_def unbind_def unbind_to_def specpdl_depth_def fatal_def)

text \<open>
  Property C38: a cleanup form that throws to a catch inside the one being thrown to crashes the editor. \<open>unwind_to_catch\<close>
  takes the catches off its list only after all entries are off the binding stack, so that the throw finds a catch
  whose part of the binding stack is gone already, and unwinds to a depth above the current one: past the
  start of the stack. Here: a throw to \<open>tg\<close> with an entry of \<open>unwind-protect\<close> at the top of the binding stack, above entries of
  variables; a catch \<open>tg'\<close> that was set up above that entry; and a cleanup form that does nothing to stack, catches
  and variables before it throws to \<open>tg'\<close>. The loop that takes the catches off one by one is disabled in the code.
\<close>

theorem stale_catch_crashes:
  assumes "specpdl s = \<lparr>symbol = 0, old_value = cleanup, func = Unwind 0\<rparr> # bs"
    and "find_catch tg (catchlist (ext s)) = Some (c, outer)" and "pdlcount c \<le> length bs"
    and "find_catch tg' (catchlist (ext s)) = Some (c', outer')" and "length bs < pdlcount c'"
    and "\<forall>b \<in> set bs. restorable_entry s b"
    and "rec (Progn cleanup Qnil) (s\<lparr>specpdl := bs, quit_flag := Qnil\<rparr>) = throw_call ops rec' tg' v' s'"
    and "specpdl s' = bs" and "catchlist (ext s') = catchlist (ext s)" and "sym_value s' = sym_value s"
  shows "throw_call ops rec tg v s = (Inl Fatal, s')"
proof -
  have "throw_call ops rec' tg' v' s' = (Inl Fatal, s')"
    using throw_to_stale_catch [of tg' s' c' outer' ops rec' v'] assms(4-6,8-10) by (simp add: specpdl_depth_def restorable_entry_def)
  then have run: "rec (Progn cleanup Qnil) (s\<lparr>specpdl := bs, quit_flag := Qnil\<rparr>) = (Inl Fatal, s')" using assms(7) by simp
  have cu: "call_unwind (eval_vops ops rec) 0 = (\<lambda>x. effect_of (rec (Progn x Qnil)))" by (simp add: eval_vops_def)
  have upd: "s\<lparr>quit_flag := Qnil, specpdl := bs\<rparr> = s\<lparr>specpdl := bs, quit_flag := Qnil\<rparr>" by simp
  have "unbind_loop (eval_vops ops rec) (pdlcount c) (s\<lparr>quit_flag := Qnil\<rparr>) = Some (Some Fatal, s')"
    using assms(1,3) run by (subst unbind_loop.simps) (simp add: run_unwind_def cu effect_of_def specpdl_depth_def upd)
  then have "unbind_to (eval_vops ops rec) (pdlcount c) s = Some (Some Fatal, s')"
    using assms(1,3) by (simp add: unbind_to_def unbind_to_hairy_def)
  then show ?thesis using assms(2) by (simp add: throw_call_def unwind_to_catch_def unbind_def raise_def)
qed

text \<open>
  The state in which \<open>(catch 'a (unwind-protect (catch 'b (throw 'a 1)) (throw 'b 2)))\<close> throws to \<open>'a\<close>,
  and the whole program.
\<close>

definition stale_cleanup :: "lisp_object \<times> lisp_heap" where
  "stale_cleanup = build (List [throw_form 81 (Atom (Lisp_Int 2))]) empty_heap"

definition stale_state :: "unit eval_state" where
  "stale_state = set_catchlist [\<lparr>catch_tag = Lisp_Symbol 81, pdlcount = 1, saved_eval_depth = 0\<rparr>,
       \<lparr>catch_tag = Lisp_Symbol 80, pdlcount = 0, saved_eval_depth = 0\<rparr>]
     ((sample_state (snd stale_cleanup))\<lparr>specpdl := [\<lparr>symbol = 0, old_value = fst stale_cleanup, func = Unwind 0\<rparr>]\<rparr>)"

definition stale_throw :: "unit eval_state" where
  "stale_throw = set_eval_depth 1 (stale_state\<lparr>specpdl := []\<rparr>)"

lemma stale_throw_run:
  "interp sample_ops 20 (Progn (fst stale_cleanup) Qnil) (stale_state\<lparr>specpdl := [], quit_flag := Qnil\<rparr>) = (Inl Fatal, stale_throw)"
  by (simp add: run_simps stale_throw_def stale_state_def stale_cleanup_def cong: lazy_congs)

lemma stale_form_crashes: "fst (eval_sample stale_form) = Inl Fatal"
  by (simp add: run_simps stale_form_def cong: lazy_congs)

theorem stale_catch_crashes_witness:
  "throw_call sample_ops (interp sample_ops 20) (Lisp_Symbol 80) (Lisp_Int 1) stale_state = (Inl Fatal, stale_throw)"
proof -
  have c: "find_catch (Lisp_Symbol 81) (catchlist (ext stale_throw)) =
      Some (\<lparr>catch_tag = Lisp_Symbol 81, pdlcount = 1, saved_eval_depth = 0\<rparr>, [\<lparr>catch_tag = Lisp_Symbol 80, pdlcount = 0, saved_eval_depth = 0\<rparr>])"
    by (simp add: stale_throw_def stale_state_def sample_state_def set_catchlist_def set_eval_depth_def)
  have jump: "throw_call sample_ops undefined (Lisp_Symbol 81) (Lisp_Int 2) stale_throw = (Inl Fatal, stale_throw)"
    by (rule throw_to_stale_catch [OF c]) (simp_all add: stale_throw_def set_eval_depth_def specpdl_depth_def)
  show ?thesis
    by (rule stale_catch_crashes [where bs = "[]" and cleanup = "fst stale_cleanup" and tg' = "Lisp_Symbol 81" and v' = "Lisp_Int 2" and rec' = undefined
          and c = "\<lparr>catch_tag = Lisp_Symbol 80, pdlcount = 0, saved_eval_depth = 0\<rparr>" and outer = "[]"
          and c' = "\<lparr>catch_tag = Lisp_Symbol 81, pdlcount = 1, saved_eval_depth = 0\<rparr>"])
      (simp_all add: stale_throw_run jump, simp_all add: stale_throw_def stale_state_def sample_state_def set_catchlist_def set_eval_depth_def)
qed

end
