(* ===== verification/EvalFuel.thy ===== *)
theory EvalFuel
  imports EvalSample
begin

text \<open>
  The number that bounds how deeply calls are nested does not matter: a call that ends with one bound ends in
  the same way with every larger one.
\<close>

section \<open>Actions that agree\<close>

text \<open>The first may run out of fuel where the second does not.\<close>

definition below :: "'w action \<Rightarrow> 'w action \<Rightarrow> bool" where
  "below f f' \<longleftrightarrow> (\<forall>s. fst (f s) = Inl Out_of_fuel \<or> f s = f' s)"

definition effect_below :: "'w globals effect \<Rightarrow> 'w globals effect \<Rightarrow> bool" where
  "effect_below f f' \<longleftrightarrow> (\<forall>s. fst (f s) = Some Out_of_fuel \<or> f s = f' s)"

definition calls_below :: "'w calls \<Rightarrow> 'w calls \<Rightarrow> bool" where
  "calls_below rec rec' \<longleftrightarrow> (\<forall>c. below (rec c) (rec' c))"

named_theorems belows \<open>rules for agreement\<close>

lemma below_refl [belows]: "below f f"
  by (simp add: below_def)

lemma below_rec: "calls_below rec rec' \<Longrightarrow> below (rec c) (rec' c)"
  by (simp add: calls_below_def)

lemma below_abind [belows]:
  assumes "below f f'" and "\<And>v. below (g v) (g' v)"
  shows "below (abind f g) (abind f' g')"
  unfolding below_def
proof
  fix s
  consider "fst (f s) = Inl Out_of_fuel" | "f s = f' s" using assms(1) by (auto simp: below_def)
  then show "fst (abind f g s) = Inl Out_of_fuel \<or> abind f g s = abind f' g' s"
  proof cases
    case 1
    then show ?thesis by (cases "f s") (simp add: abind_def)
  next
    case 2
    then show ?thesis using assms(2) by (cases "f' s"; cases "fst (f' s)") (auto simp: abind_def below_def)
  qed
qed

lemma below_raise [belows]:
  assumes "calls_below rec rec'"
  shows "below (raise ops rec x) (raise ops rec' x)"
proof -
  have "fst (rec (Signal sig data) s) = Inl Out_of_fuel \<or> rec (Signal sig data) s = rec' (Signal sig data) s" for sig data s
    using assms by (simp add: calls_below_def below_def)
  then show ?thesis unfolding below_def raise_def by (cases x) (simp_all split: prod.split)
qed

lemma below_do_effect [belows]:
  assumes "calls_below rec rec'" and "effect_below f f'" and "below g g'"
  shows "below (do_effect ops rec f g) (do_effect ops rec' f' g')"
  unfolding below_def
proof
  fix s
  consider "fst (f s) = Some Out_of_fuel" | "f s = f' s" using assms(2) by (auto simp: effect_below_def)
  then show "fst (do_effect ops rec f g s) = Inl Out_of_fuel \<or> do_effect ops rec f g s = do_effect ops rec' f' g' s"
  proof cases
    case 1
    then show ?thesis by (cases "f s") (simp add: do_effect_def raise_def)
  next
    case 2
    then show ?thesis using assms(3) below_raise [OF assms(1)] by (cases "f' s"; cases "fst (f' s)") (auto simp: do_effect_def below_def)
  qed
qed

lemma effect_below_refl [belows]: "effect_below f f"
  by (simp add: effect_below_def)

lemma below_do_value [belows]: "calls_below rec rec' \<Longrightarrow> below (do_value ops rec f) (do_value ops rec' f)"
  using below_raise [of rec rec' ops] by (auto simp: below_def do_value_def split: prod.split sum.split)

lemma below_fatal [belows]: "below fatal fatal"
  by (rule below_refl)

lemma below_do_list [belows]: "calls_below rec rec' \<Longrightarrow> (\<And>x. below (g x) (g' x)) \<Longrightarrow> below (do_list ops rec f g) (do_list ops rec' f g')"
  using below_raise [of rec rec' ops] by (auto simp: below_def do_list_def split: option.split sum.split)

lemma below_with [belows]:
  "(\<And>y. below (f y) (f' y)) \<Longrightarrow> below (with_car x f) (with_car x f')" "(\<And>y. below (f y) (f' y)) \<Longrightarrow> below (with_cdr x f) (with_cdr x f')"
  "(\<And>y. below (f y) (f' y)) \<Longrightarrow> below (with_cons x z f) (with_cons x z f')" "(\<And>y. below (f y) (f' y)) \<Longrightarrow> below (with_list xs f) (with_list xs f')"
  by (auto simp: below_def with_car_def with_cdr_def with_cons_def with_list_def split: prod.split)

lemma below_if [belows]: "(P \<Longrightarrow> below f f') \<Longrightarrow> (\<not> P \<Longrightarrow> below g g') \<Longrightarrow> below (if P then f else g) (if P then f' else g')"
  by simp

lemma below_list [belows]:
  "below f f' \<Longrightarrow> (\<And>v r. below (g v r) (g' v r)) \<Longrightarrow> below (case xs of [] \<Rightarrow> f | v # r \<Rightarrow> g v r) (case xs of [] \<Rightarrow> f' | v # r \<Rightarrow> g' v r)"
  by (cases xs) simp_all

lemma below_option [belows]:
  "below f f' \<Longrightarrow> (\<And>v. x = Some v \<Longrightarrow> below (g v) (g' v)) \<Longrightarrow> below (case x of None \<Rightarrow> f | Some v \<Rightarrow> g v) (case x of None \<Rightarrow> f' | Some v \<Rightarrow> g' v)"
  by (cases x) simp_all

lemma below_state: "(\<And>s. below (f s) (f' s)) \<Longrightarrow> below (\<lambda>s. f s s) (\<lambda>s. f' s s)"
  by (simp add: below_def)

lemma below_signals [belows]:
  assumes "calls_below rec rec'"
  shows "below (signal_list rec sig xs) (signal_list rec' sig xs)" "below (signal_void_function_error rec f) (signal_void_function_error rec' f)"
    "below (signal_invalid_function_error rec f) (signal_invalid_function_error rec' f)"
    "below (signal_wrong_number_of_arguments_error rec f n) (signal_wrong_number_of_arguments_error rec' f n)"
  unfolding signal_void_function_error_def signal_invalid_function_error_def signal_wrong_number_of_arguments_error_def signal_list_def
  by (intro belows below_rec [OF assms])+

lemma below_CHECK_TRUE_LIST [belows]: "calls_below rec rec' \<Longrightarrow> below f f' \<Longrightarrow> below (CHECK_TRUE_LIST ops rec x f) (CHECK_TRUE_LIST ops rec' x f')"
  unfolding CHECK_TRUE_LIST_def by (intro belows)

lemma below_next_hare [belows]:
  "calls_below rec rec' \<Longrightarrow> (\<And>len x y. below (f len x y) (f' len x y)) \<Longrightarrow>
    below (next_hare ops rec lst len hare tortoise f) (next_hare ops rec' lst len hare tortoise f')"
  using below_raise [of rec rec' ops] by (simp add: below_def next_hare_def Let_def)

lemma below_indirect [belows]:
  assumes "calls_below rec rec'" and "\<And>x. below (f x) (f' x)"
  shows "below (indirect_function rec object b f) (indirect_function rec' object b f')"
  using below_signals [OF assms(1)] assms(2) unfolding below_def indirect_function_def by (auto split: option.split sum.split)

section \<open>Unwinding\<close>

lemma eval_vops_same:
  "Fset_magic (eval_vops ops rec) = Fset_magic (vops (bops ops))" "find_symbol_value (eval_vops ops rec) = find_symbol_value (vops (bops ops))"
  "symbol_value_buffer_local_info (eval_vops ops rec) = symbol_value_buffer_local_info (vops (bops ops))"
  "Fkill_local_variable (eval_vops ops rec) = Fkill_local_variable (vops (bops ops))" "Fcurrent_buffer (eval_vops ops rec) = Fcurrent_buffer (vops (bops ops))"
  "Fset_buffer (eval_vops ops rec) = Fset_buffer (vops (bops ops))" "get_buffer (eval_vops ops rec) = get_buffer (vops (bops ops))"
  "keyword (eval_vops ops rec) = keyword (vops (bops ops))" "check_quit (eval_vops ops rec) = check_quit (vops (bops ops))"
  by (simp_all add: eval_vops_def)

lemma eval_Fset: "Fset (eval_vops ops rec) = Fset (vops (bops ops))"
  by (intro ext, unfold Fset_def eval_vops_same, rule refl)

lemma eval_SPECBIND:
  "specbind_magic (eval_vops ops rec) = specbind_magic (vops (bops ops))" "SPECBIND_FAST_UNSAFE (eval_vops ops rec) = SPECBIND_FAST_UNSAFE (vops (bops ops))"
proof -
  show "specbind_magic (eval_vops ops rec) = specbind_magic (vops (bops ops))"
    by (intro ext, unfold specbind_magic_def eval_vops_same eval_Fset, rule refl)
  note magic = this
  show "SPECBIND_FAST_UNSAFE (eval_vops ops rec) = SPECBIND_FAST_UNSAFE (vops (bops ops))"
    by (intro ext, unfold SPECBIND_FAST_UNSAFE_def magic, rule refl)
qed

lemma eval_reject: "reject_constant_symbols (eval_vops ops rec) = reject_constant_symbols (vops (bops ops))"
  by (intro ext, unfold reject_constant_symbols_def eval_vops_same, rule refl)

lemma eval_specbind: "specbind (eval_vops ops rec) = specbind (vops (bops ops))"
  by (intro ext, unfold specbind_def eval_vops_same eval_SPECBIND eval_reject, rule refl)

lemma eval_in_buffer: "in_buffer (eval_vops ops rec) = in_buffer (vops (bops ops))"
  by (intro ext, unfold in_buffer_def eval_vops_same, rule refl)

lemma eval_unwind_local:
  "specbind_unwind_local (eval_vops ops rec) = specbind_unwind_local (vops (bops ops))"
  "specbind_unwind_wasnt_local (eval_vops ops rec) = specbind_unwind_wasnt_local (vops (bops ops))"
  by (intro ext, unfold specbind_unwind_local_def eval_Fset eval_in_buffer eval_vops_same, rule refl)
    (intro ext, unfold specbind_unwind_wasnt_local_def eval_in_buffer eval_vops_same, rule refl)

lemma effect_of_below: "below f f' \<Longrightarrow> effect_below (effect_of f) (effect_of f')"
  unfolding below_def effect_below_def effect_of_def by (metis (no_types, lifting) case_prod_beta fst_conv old.sum.simps(5))

lemma run_unwind_below:
  assumes "calls_below rec rec'"
  shows "effect_below (run_unwind (eval_vops ops rec) b) (run_unwind (eval_vops ops rec') b)"
proof (cases "func b")
  case (Unwind f)
  have "effect_below (call_unwind (eval_vops ops rec) f x) (call_unwind (eval_vops ops rec') f x)" for x
    by (simp add: eval_vops_def effect_below_refl effect_of_below [OF below_rec [OF assms]])
  then show ?thesis using Unwind by (simp add: run_unwind_def)
qed (simp_all add: run_unwind_def effect_below_def eval_Fset eval_unwind_local)

text \<open>Each way: a run that ends is a run of the other, or runs out of fuel.\<close>

definition agrees :: "'w globals variable_ops \<Rightarrow> 'w globals variable_ops \<Rightarrow> bool" where
  "agrees V V' \<longleftrightarrow> (\<forall>b. effect_below (run_unwind V b) (run_unwind V' b)) \<and> check_quit V = check_quit V'"

lemma unbind_loop_forward:
  assumes A: "agrees V V'" and "unbind_loop V count s = Some r"
  shows "fst r = Some Out_of_fuel \<or> unbind_loop V' count s = Some r"
proof -
  have "W = V \<longrightarrow> fst r = Some Out_of_fuel \<or> unbind_loop V' n s = Some r" if "unbind_loop W n s = Some r" for W n s r
  proof (rule unbind_loop.raw_induct [OF _ that, where P = "\<lambda>W n s r. W = V \<longrightarrow> fst r = Some Out_of_fuel \<or> unbind_loop V' n s = Some r"])
    fix rec W n and s :: "'a eval_state" and r
    assume IH: "\<And>W n s r. rec W n s = Some r \<Longrightarrow> W = V \<longrightarrow> fst r = Some Out_of_fuel \<or> unbind_loop V' n s = Some r"
      and body: "(if specpdl_depth s = n then Some (None, s)
        else case specpdl s of [] \<Rightarrow> None
             | b # bs \<Rightarrow> let r = run_unwind W b (s\<lparr>specpdl := bs\<rparr>) in if fst r = None then rec W n (snd r) else Some r) = Some r"
    show "W = V \<longrightarrow> fst r = Some Out_of_fuel \<or> unbind_loop V' n s = Some r"
    proof
      assume W: "W = V"
      show "fst r = Some Out_of_fuel \<or> unbind_loop V' n s = Some r"
      proof (cases "specpdl_depth s = n")
        case False
        then obtain b bs where bs: "specpdl s = b # bs" using body by (cases "specpdl s") simp_all
        let ?r = "run_unwind V b (s\<lparr>specpdl := bs\<rparr>)"
        consider "fst ?r = Some Out_of_fuel" | "?r = run_unwind V' b (s\<lparr>specpdl := bs\<rparr>)" using A by (auto simp: agrees_def effect_below_def)
        then show ?thesis
        proof cases
          case 1
          then show ?thesis using body False bs W by simp
        next
          case 2
          then show ?thesis using body False bs W IH by (subst unbind_loop.simps) (auto simp: Let_def split: if_splits)
        qed
      qed (use body in \<open>subst unbind_loop.simps, simp\<close>)
    qed
  qed
  then show ?thesis using assms(2) by blast
qed

lemma unbind_loop_backward:
  assumes A: "agrees V V'" and "unbind_loop V' count s = Some r"
  shows "\<exists>q. unbind_loop V count s = Some q \<and> (fst q = Some Out_of_fuel \<or> q = r)"
proof -
  have "W = V' \<longrightarrow> (\<exists>q. unbind_loop V n s = Some q \<and> (fst q = Some Out_of_fuel \<or> q = r))" if "unbind_loop W n s = Some r" for W n s r
  proof (rule unbind_loop.raw_induct [OF _ that, where P = "\<lambda>W n s r. W = V' \<longrightarrow> (\<exists>q. unbind_loop V n s = Some q \<and> (fst q = Some Out_of_fuel \<or> q = r))"])
    fix rec W n and s :: "'a eval_state" and r
    assume IH: "\<And>W n s r. rec W n s = Some r \<Longrightarrow> W = V' \<longrightarrow> (\<exists>q. unbind_loop V n s = Some q \<and> (fst q = Some Out_of_fuel \<or> q = r))"
      and body: "(if specpdl_depth s = n then Some (None, s)
        else case specpdl s of [] \<Rightarrow> None
             | b # bs \<Rightarrow> let r = run_unwind W b (s\<lparr>specpdl := bs\<rparr>) in if fst r = None then rec W n (snd r) else Some r) = Some r"
    show "W = V' \<longrightarrow> (\<exists>q. unbind_loop V n s = Some q \<and> (fst q = Some Out_of_fuel \<or> q = r))"
    proof
      assume W: "W = V'"
      show "\<exists>q. unbind_loop V n s = Some q \<and> (fst q = Some Out_of_fuel \<or> q = r)"
      proof (cases "specpdl_depth s = n")
        case False
        then obtain b bs where bs: "specpdl s = b # bs" using body by (cases "specpdl s") simp_all
        let ?r = "run_unwind V b (s\<lparr>specpdl := bs\<rparr>)"
        consider "fst ?r = Some Out_of_fuel" | "?r = run_unwind V' b (s\<lparr>specpdl := bs\<rparr>)" using A by (auto simp: agrees_def effect_below_def)
        then show ?thesis
        proof cases
          case 1
          then show ?thesis using False bs by (subst unbind_loop.simps) simp
        next
          case 2
          show ?thesis
          proof (cases "fst ?r = None")
            case True
            then have "rec V' n (snd ?r) = Some r" using body False bs W 2 by (auto simp: Let_def)
            then show ?thesis using IH True False bs by (subst unbind_loop.simps) (simp add: Let_def)
          next
            case exit: False
            then have "r = ?r" using body False bs W 2 by (auto simp: Let_def)
            then show ?thesis using exit False bs by (cases ?r) (subst unbind_loop.simps, auto simp: Let_def)
          qed
        qed
      qed (use body in \<open>subst unbind_loop.simps, simp\<close>)
    qed
  qed
  then show ?thesis using assms(2) by blast
qed

definition unwound_below :: "(lisp_error option \<times> 'w eval_state) option \<Rightarrow> (lisp_error option \<times> 'w eval_state) option \<Rightarrow> bool" where
  "unwound_below q r \<longleftrightarrow> (\<exists>s. q = Some (Some Out_of_fuel, s)) \<or> q = r"

lemma unbind_loop_below: "agrees V V' \<Longrightarrow> unwound_below (unbind_loop V count s) (unbind_loop V' count s)"
  using unbind_loop_forward [of V V' count s] unbind_loop_backward [of V V' count s]
  by (cases "unbind_loop V count s"; cases "unbind_loop V' count s") (fastforce simp: unwound_below_def)+

lemma unbind_to_below:
  assumes "agrees V V'"
  shows "unwound_below (unbind_to V count s) (unbind_to V' count s)"
proof -
  have "unwound_below (unbind_to_hairy V count s) (unbind_to_hairy V' count s)" for s
    using unbind_loop_below [OF assms, of count "s\<lparr>quit_flag := Qnil\<rparr>"] assms by (auto simp: unbind_to_hairy_def unwound_below_def agrees_def)
  then have "unwound_below (UNBIND_TO V count bs s) (UNBIND_TO V' count bs s)" for bs
    by (induction bs arbitrary: s) (auto simp: unwound_below_def)
  then show ?thesis by (simp add: unbind_to_def)
qed

lemma agrees_eval: "calls_below rec rec' \<Longrightarrow> agrees (eval_vops ops rec) (eval_vops ops rec')"
  by (simp add: agrees_def run_unwind_below eval_vops_same)

lemma below_unbind [belows]:
  assumes "calls_below rec rec'"
  shows "below (unbind ops rec count v) (unbind ops rec' count v)"
  unfolding below_def
proof
  fix s
  note R = below_raise [OF assms, of ops]
  from unbind_to_below [OF agrees_eval [OF assms], of ops count s]
  consider t where "unbind_to (eval_vops ops rec) count s = Some (Some Out_of_fuel, t)" | "unbind_to (eval_vops ops rec) count s = unbind_to (eval_vops ops rec') count s"
    by (auto simp: unwound_below_def)
  then show "fst (unbind ops rec count v s) = Inl Out_of_fuel \<or> unbind ops rec count v s = unbind ops rec' count v s"
  proof cases
    case 1
    then show ?thesis by (simp add: unbind_def raise_def)
  next
    case 2
    then show ?thesis using R by (auto simp: unbind_def below_def split: option.split)
  qed
qed

section \<open>Catches and conditions\<close>

lemma below_unwind_to_catch:
  assumes "calls_below rec rec'"
  shows "below (unwind_to_catch ops rec c outer v) (unwind_to_catch ops rec' c outer v)"
  unfolding below_def unwind_to_catch_def
proof
  fix s
  have "fst (unbind ops rec (pdlcount c) v s) = Inl Out_of_fuel \<or> unbind ops rec (pdlcount c) v s = unbind ops rec' (pdlcount c) v s"
    using below_unbind [OF assms] by (simp add: below_def)
  then show "fst (case unbind ops rec (pdlcount c) v s of (Inl e, s') \<Rightarrow> (Inl e, s')
        | (Inr v, s') \<Rightarrow> (Inl (Longjmp (length outer) v), set_eval_depth (saved_eval_depth c) (set_catchlist outer s'))) = Inl Out_of_fuel \<or>
      (case unbind ops rec (pdlcount c) v s of (Inl e, s') \<Rightarrow> (Inl e, s')
        | (Inr v, s') \<Rightarrow> (Inl (Longjmp (length outer) v), set_eval_depth (saved_eval_depth c) (set_catchlist outer s'))) =
      (case unbind ops rec' (pdlcount c) v s of (Inl e, s') \<Rightarrow> (Inl e, s')
        | (Inr v, s') \<Rightarrow> (Inl (Longjmp (length outer) v), set_eval_depth (saved_eval_depth c) (set_catchlist outer s')))"
  proof
    assume "fst (unbind ops rec (pdlcount c) v s) = Inl Out_of_fuel"
    then show ?thesis by (cases "unbind ops rec (pdlcount c) v s") simp
  qed simp
qed

lemma below_throw:
  assumes "calls_below rec rec'"
  shows "below (throw_call ops rec tag v) (throw_call ops rec' tag v)" "below (last_resort ops rec) (last_resort ops rec')"
proof -
  have "below (abind (signal_list rec Qno_catch [tag, v]) (\<lambda>tag'. rec (Throw tag' v))) (abind (signal_list rec' Qno_catch [tag, v]) (\<lambda>tag'. rec' (Throw tag' v)))"
    by (intro belows below_rec [OF assms] assms)
  then show "below (throw_call ops rec tag v) (throw_call ops rec' tag v)" "below (last_resort ops rec) (last_resort ops rec')"
    using below_unwind_to_catch [OF assms] by (auto simp: below_def throw_call_def last_resort_def split: option.split)
qed

lemma below_catch_jump:
  assumes "below f f'" and "\<And>v. below (g v) (g' v)" and "\<And>v. below (k v) (k' v)"
  shows "below (catch_jump L f g k) (catch_jump L f' g' k')"
  unfolding below_def
proof
  fix s
  consider "fst (f s) = Inl Out_of_fuel" | "f s = f' s" using assms(1) by (auto simp: below_def)
  then show "fst (catch_jump L f g k s) = Inl Out_of_fuel \<or> catch_jump L f g k s = catch_jump L f' g' k' s"
  proof cases
    case 1
    then show ?thesis by (cases "f s") (simp add: catch_jump_def)
  next
    case 2
    then show ?thesis using assms(2,3) by (cases "f' s"; cases "fst (f' s)") (auto simp: catch_jump_def below_def split: lisp_error.split)
  qed
qed

lemma below_at: "below f f' \<Longrightarrow> below (\<lambda>s. f (g s)) (\<lambda>s. f' (g s))"
  by (simp add: below_def)

lemma below_internal_catch: "below f f' \<Longrightarrow> below (internal_catch tag f) (internal_catch tag f')"
  using below_catch_jump [OF _ below_refl below_refl, of f f'] by (auto simp: internal_catch_def below_def Let_def)

text \<open>At a state.\<close>

definition agree :: "(lisp_error + lisp_object) \<times> 'w eval_state \<Rightarrow> (lisp_error + lisp_object) \<times> 'w eval_state \<Rightarrow> bool" where
  "agree r r' \<longleftrightarrow> fst r = Inl Out_of_fuel \<or> r = r'"

lemma belowI: "(\<And>s. agree (f s) (f' s)) \<Longrightarrow> below f f'"
  by (simp add: below_def agree_def)

lemma belowD: "below f f' \<Longrightarrow> agree (f s) (f' s)"
  by (simp add: below_def agree_def)

lemma agree_if: "(P \<Longrightarrow> agree a b) \<Longrightarrow> (\<not> P \<Longrightarrow> agree c d) \<Longrightarrow> agree (if P then a else c) (if P then b else d)"
  by simp

lemma agree_list: "calls_below rec rec' \<Longrightarrow> (\<And>x. agree (g x s) (g' x s)) \<Longrightarrow> agree (do_list ops rec f g s) (do_list ops rec' f g' s)"
  using below_raise [of rec rec' ops] by (auto simp: agree_def below_def do_list_def split: option.split sum.split)

lemma agree_with:
  "(\<And>y. agree (g y s) (g' y s)) \<Longrightarrow> agree (with_car x g s) (with_car x g' s)" "(\<And>y. agree (g y s) (g' y s)) \<Longrightarrow> agree (with_cdr x g s) (with_cdr x g' s)"
  "(\<And>y h. agree (g y (s\<lparr>heap := h\<rparr>)) (g' y (s\<lparr>heap := h\<rparr>))) \<Longrightarrow> agree (with_cons x z g s) (with_cons x z g' s)"
  by (auto simp: agree_def with_car_def with_cdr_def with_cons_def split: prod.split)

lemmas agree_at = agree_list agree_with

lemmas agrees = agree_if belowD [OF below_raise] belowD [OF below_do_effect] belowD [OF below_abind] belowD [OF below_refl]

lemma below_run_handlers:
  assumes "calls_below rec rec'"
  shows "below (run_condition_case_handlers ops rec v var) (run_condition_case_handlers ops rec' v var)"
  unfolding run_condition_case_handlers_def eval_specbind
  by (intro below_CHECK_TRUE_LIST [OF assms] belowI agrees agree_at belows below_rec [OF assms] assms belowD [OF below_rec [OF assms]])

lemma below_condition_case_1:
  assumes "calls_below rec rec'" and "below f f'" and "\<And>v. below (k v) (k' v)"
  shows "below (condition_case_1 ops rec handlers f k) (condition_case_1 ops rec' handlers f' k')"
  unfolding condition_case_1_def Let_def
  by (intro assms belowI agrees agree_at below_catch_jump [THEN belowD] below_unbind [THEN belowD] effect_below_refl)

lemma below_condition_case_3:
  assumes "calls_below rec rec'"
  shows "below (condition_case_3 ops rec bodyform var handlers) (condition_case_3 ops rec' bodyform var handlers)"
  unfolding condition_case_3_def
proof (rule below_do_list [OF assms])
  fix r
  show "below (\<lambda>s. case r of Inl _ \<Rightarrow> if \<not> SYMBOLP var then raise ops rec (Wrong_type_argument ''symbolp'' var) s
        else condition_case_1 ops rec handlers (rec (Eval bodyform)) (\<lambda>v. run_condition_case_handlers ops rec v var) s
      | Inr e \<Rightarrow> raise ops rec e s)
    (\<lambda>s. case r of Inl _ \<Rightarrow> if \<not> SYMBOLP var then raise ops rec' (Wrong_type_argument ''symbolp'' var) s
        else condition_case_1 ops rec' handlers (rec' (Eval bodyform)) (\<lambda>v. run_condition_case_handlers ops rec' v var) s
      | Inr e \<Rightarrow> raise ops rec' e s)"
    by (cases r) (auto intro!: belowI agrees below_condition_case_1 [THEN belowD] below_run_handlers below_rec [OF assms] assms)
qed

lemma below_Fapply:
  assumes "calls_below rec rec'"
  shows "below (Fapply ops rec args) (Fapply ops rec' args)" "below (apply1 ops rec fn arg) (apply1 ops rec' fn arg)"
proof -
  note R = below_rec [OF assms]
  have I: "agree (indirect_function rec x b (\<lambda>fun. rec (Funcall (g fun))) s) (indirect_function rec' x b (\<lambda>fun. rec' (Funcall (g fun))) s)"
    for x b s and g :: "lisp_object \<Rightarrow> lisp_object list"
    by (rule belowD [OF below_indirect [OF assms R]])
  have "below (Fapply ops rec args) (Fapply ops rec' args)" for args
    unfolding Fapply_def
    by (cases "length args < 2") (auto intro!: below_refl belowI agree_list [OF assms] agree_if I belowD [OF R])
  then show "below (Fapply ops rec args) (Fapply ops rec' args)" "below (apply1 ops rec fn arg) (apply1 ops rec' fn arg)"
    unfolding apply1_def using R by auto
qed

lemma below_Fcall_with_condition_handler:
  assumes "calls_below rec rec'"
  shows "below (Fcall_with_condition_handler ops rec args) (Fcall_with_condition_handler ops rec' args)"
proof (cases args)
  case (Cons handler call)
  have "below (abind (rec (Funcall call)) (unbind ops rec n)) (abind (rec' (Funcall call)) (unbind ops rec' n))" for n
    by (intro belows below_rec [OF assms] assms)
  note B = belowD [OF this]
  show ?thesis unfolding Fcall_with_condition_handler_def Cons list.case with_list_def
    by (rule belowI, simp add: case_prod_beta) (intro agree_at agrees assms effect_below_refl belowI B)
qed (simp add: Fcall_with_condition_handler_def below_def)

lemma below_handlers:
  assumes "calls_below rec rec'"
  shows "below (handlers_call ops rec handlers sig data conditions) (handlers_call ops rec' handlers sig data conditions)"
    "below (clauses_call ops rec h handlers sig data conditions) (clauses_call ops rec' h handlers sig data conditions)"
proof -
  note R = below_rec [OF assms]
  show "below (handlers_call ops rec handlers sig data conditions) (handlers_call ops rec' handlers sig data conditions)"
    unfolding handlers_call_def throw_signal_def
    by (intro belowI agrees agree_at below_if below_Fapply R assms belowD [OF R] belowD [OF below_throw(2) [OF assms]])
  show "below (clauses_call ops rec h handlers sig data conditions) (clauses_call ops rec' h handlers sig data conditions)"
    unfolding clauses_call_def by (intro belows R assms)
qed

section \<open>Special forms\<close>

lemma below_let_value: "calls_below rec rec' \<Longrightarrow> below (let_value ops rec var) (let_value ops rec' var)"
  unfolding let_value_def by (intro belows below_rec)

lemma below_forms:
  assumes "calls_below rec rec'"
  shows "below (progn_call rec tail v) (progn_call rec' tail v)" "below (prog1_call rec tail v) (prog1_call rec' tail v)"
    "below (or_call rec tail) (or_call rec' tail)" "below (and_call rec tail v) (and_call rec' tail v)" "below (Fif rec tail) (Fif rec' tail)"
    "below (cond_call ops rec tail) (cond_call ops rec' tail)" "below (Fprog1 rec tail) (Fprog1 rec' tail)" "below (Fprog2 rec tail) (Fprog2 rec' tail)"
    "below (while_call ops rec test body) (while_call ops rec' test body)"
    "below (Fsetq ops rec tail) (Fsetq ops rec' tail)" "below (define_function ops rec name defn) (define_function ops rec' name defn)"
proof -
  note R = below_rec [OF assms]
  note intros = belows R assms
  show "below (progn_call rec tail v) (progn_call rec' tail v)" unfolding progn_call_def by (intro intros)
  show "below (prog1_call rec tail v) (prog1_call rec' tail v)" unfolding prog1_call_def by (intro intros)
  show "below (or_call rec tail) (or_call rec' tail)" unfolding or_call_def by (intro intros)
  show "below (and_call rec tail v) (and_call rec' tail v)" unfolding and_call_def by (intro intros)
  show "below (Fif rec tail) (Fif rec' tail)" unfolding Fif_def by (intro intros)
  show "below (cond_call ops rec tail) (cond_call ops rec' tail)" unfolding cond_call_def by (intro intros)
  show prog1: "below (Fprog1 rec tail) (Fprog1 rec' tail)" for tail unfolding Fprog1_def by (intro intros)
  show "below (Fprog2 rec tail) (Fprog2 rec' tail)" unfolding Fprog2_def by (intro intros prog1)
  show "below (while_call ops rec test body) (while_call ops rec' test body)" unfolding while_call_def by (intro intros)
  show "below (Fsetq ops rec tail) (Fsetq ops rec' tail)" unfolding Fsetq_def by (intro intros)
  show "below (define_function ops rec name defn) (define_function ops rec' name defn)" unfolding define_function_def by (intro intros)
qed

lemma below_setq:
  assumes "calls_below rec rec'"
  shows "below (setq_call ops rec tail v) (setq_call ops rec' tail v)"
proof -
  have "Fset_symbol ops rec x v = Fset_symbol ops rec' x v" for x v by (simp add: Fset_symbol_def eval_reject eval_Fset split: lisp_object.split)
  then have E: "effect_below (Fset_symbol ops rec x v) (Fset_symbol ops rec' x v)" for x v by (simp add: effect_below_refl)
  show ?thesis unfolding setq_call_def by (intro E belows below_rec [OF assms] assms)
qed

lemma below_let:
  assumes "calls_below rec rec'"
  shows "below (letX_call ops rec len hare tortoise body speccount varlist) (letX_call ops rec' len hare tortoise body speccount varlist)"
    "below (let_values_call ops rec tail temps varcount varlist body) (let_values_call ops rec' tail temps varcount varlist body)"
    "below (let_bind_call ops rec tail temps body speccount) (let_bind_call ops rec' tail temps body speccount)"
    "below (Flet ops rec args) (Flet ops rec' args)" "below (FletX rec args) (FletX rec' args)"
proof -
  note R = below_rec [OF assms]
  note intros = belows R assms
  have "below (abind (let_value ops rec var) (\<lambda>v. do_effect ops rec (specbind (vops (bops ops)) y v)
       (next_hare ops rec varlist len hare tortoise (\<lambda>len' hare' tortoise'. rec (LetX len' hare' tortoise' body speccount varlist)))))
     (abind (let_value ops rec' var) (\<lambda>v. do_effect ops rec' (specbind (vops (bops ops)) y v)
       (next_hare ops rec' varlist len hare tortoise (\<lambda>len' hare' tortoise'. rec' (LetX len' hare' tortoise' body speccount varlist)))))" for var y
    by (intro intros below_let_value)
  note X = belowD [OF this]
  show "below (letX_call ops rec len hare tortoise body speccount varlist) (letX_call ops rec' len hare tortoise body speccount varlist)"
    unfolding letX_call_def eval_specbind Let_def by (intro below_if below_with(1)) (rule belowI, rule X, (intro intros)+)
  show "below (let_values_call ops rec tail temps varcount varlist body) (let_values_call ops rec' tail temps varcount varlist body)"
    unfolding let_values_call_def by (intro below_if) (rule belowI, rule belowD [OF R], (intro intros below_let_value)+)
  show "below (let_bind_call ops rec tail temps body speccount) (let_bind_call ops rec' tail temps body speccount)"
    unfolding let_bind_call_def eval_specbind Let_def by (intro intros)
  show "below (Flet ops rec args) (Flet ops rec' args)" unfolding Flet_def by (intro intros)
  show "below (FletX rec args) (FletX rec' args)" unfolding FletX_def by (intro below_with(1,2)) (rule belowI, rule belowD [OF R])
qed

lemma below_special:
  assumes "calls_below rec rec'"
  shows "below (special_call ops rec form args) (special_call ops rec' form args)"
proof -
  note R = below_rec [OF assms]
  have D: "below (with_car args (\<lambda>name. with_cdr args (\<lambda>rest. with_cons Qlambda rest (\<lambda>defn. define_function ops rec name defn))))
      (with_car args (\<lambda>name. with_cdr args (\<lambda>rest. with_cons Qlambda rest (\<lambda>defn. define_function ops rec' name defn))))"
    "below (with_car args (\<lambda>name. with_cdr args (\<lambda>rest. with_cons Qlambda rest (\<lambda>f. with_cons Qmacro f (\<lambda>defn. define_function ops rec name defn)))))
      (with_car args (\<lambda>name. with_cdr args (\<lambda>rest. with_cons Qlambda rest (\<lambda>f. with_cons Qmacro f (\<lambda>defn. define_function ops rec' name defn)))))"
    "below (with_car args (\<lambda>test. with_cdr args (\<lambda>body. rec (While test body)))) (with_car args (\<lambda>test. with_cdr args (\<lambda>body. rec' (While test body))))"
    by (intro below_with below_forms assms R)+
  have C: "below (Fcatch rec args) (Fcatch rec' args)" unfolding Fcatch_def by (intro belows below_internal_catch R assms)
  have U: "below (Funwind_protect ops rec args) (Funwind_protect ops rec' args)" unfolding Funwind_protect_def
    by (intro below_with(2) belowI agrees belows R assms)
  have H: "below (Fcondition_case ops rec args) (Fcondition_case ops rec' args)" unfolding Fcondition_case_def
    by (intro below_with below_condition_case_3 assms)
  show ?thesis using R D C U H by (cases form) (simp_all add: below_refl below_forms below_let assms)
qed

section \<open>Functions\<close>

lemma below_lambda_args:
  assumes "calls_below rec rec'"
  shows "below (lambda_args_call ops rec len hare tortoise opt rest args fun nargs speccount formals body)
    (lambda_args_call ops rec' len hare tortoise opt rest args fun nargs speccount formals body)"
  unfolding lambda_args_call_def eval_specbind Let_def
  by (intro belows below_rec [OF assms] assms)

lemma below_funcall_lambda: "calls_below rec rec' \<Longrightarrow> below (funcall_lambda ops rec fun args) (funcall_lambda ops rec' fun args)"
  unfolding funcall_lambda_def by (intro below_with below_if below_signals belowI belowD [OF below_rec]) simp_all

section \<open>Compiled functions\<close>

definition ops_below :: "'w globals bc_ops \<Rightarrow> 'w globals bc_ops \<Rightarrow> bool" where
  "ops_below o1 o2 \<longleftrightarrow>
     agrees (vops o1) (vops o2) \<and> Fset (vops o1) = Fset (vops o2) \<and> SPECBIND_FAST_UNSAFE (vops o1) = SPECBIND_FAST_UNSAFE (vops o2) \<and>
     keyword (vops o1) = keyword (vops o2) \<and> Fsymbol_value o1 = Fsymbol_value o2 \<and> (\<forall>args. below (ByteExec.Ffuncall o1 args) (ByteExec.Ffuncall o2 args)) \<and>
     (\<forall>opcode args. below (prim o1 opcode args) (prim o2 opcode args)) \<and> save_state o1 = save_state o2 \<and> float_arith o1 = float_arith o2 \<and>
     float_compare o1 = float_compare o2 \<and> Fprogn_function o1 = Fprogn_function o2 \<and> QUIT o1 = QUIT o2"

definition outcome_below :: "'w globals outcome \<Rightarrow> 'w globals outcome \<Rightarrow> bool" where
  "outcome_below r r' \<longleftrightarrow> (\<exists>s. r = Exit Out_of_fuel s) \<or> r = r'"

lemma outcome_below_refl [simp]: "outcome_below r r"
  by (simp add: outcome_below_def)

lemma ops_below_compiled:
  assumes "calls_below rec rec'"
  shows "ops_below (compiled_ops ops rec) (compiled_ops ops rec')"
  unfolding ops_below_def compiled_ops_def
  by (simp add: agrees_eval assms eval_Fset eval_SPECBIND eval_vops_same below_rec below_refl below_internal_catch below_condition_case_3)

lemma opcode_value_below:
  assumes "ops_below o1 o2"
  shows "below (opcode_value o1 opcode args) (opcode_value o2 opcode args)"
proof -
  have A: "bytecode_arithop o1 = bytecode_arithop o2" "bytecode_negate o1 = bytecode_negate o2" "bytecode_arithcompare o1 = bytecode_arithcompare o2"
    using assms by (auto intro!: HOL.ext simp: ops_below_def bytecode_arithop_def bytecode_negate_def bytecode_arithcompare_def split: option.split)
  have P: "agree (prim o1 opcode args s) (prim o2 opcode args s)" for s using assms by (simp add: ops_below_def belowD)
  show ?thesis unfolding opcode_value_def Let_def A
    by (intro belowI agree_if P belowD [OF below_refl])
qed

lemma push_result_below: "agree r r' \<Longrightarrow> outcome_below (push_result depth pc stk r) (push_result depth pc stk r')"
  by (auto simp: agree_def outcome_below_def push_result_def split: sum.split)

lemma apply_values_below: "(\<And>args. below (f args) (f' args)) \<Longrightarrow> outcome_below (apply_values depth pc n f stk s) (apply_values depth pc n f' stk s)"
  by (simp add: apply_values_def belowD push_result_below)

lemma exec_unbind_below:
  assumes "ops_below o1 o2"
  shows "outcome_below (exec_unbind o1 pc count stk s) (exec_unbind o2 pc count stk s)"
proof -
  have "unwound_below (unbind_to (vops o1) (nat count) s) (unbind_to (vops o2) (nat count) s)" using assms by (simp add: ops_below_def unbind_to_below)
  then show ?thesis by (auto simp: unwound_below_def exec_unbind_def outcome_below_def after_effect_def)
qed

lemma exec_jump_below: "ops_below o1 o2 \<Longrightarrow> exec_jump o1 = exec_jump o2"
  by (intro HOL.ext) (simp add: ops_below_def exec_jump_def JUMP_RELATIVE_def split: list.split)

lemma outcome_below_cases:
  "(P \<Longrightarrow> outcome_below a a') \<Longrightarrow> (\<not> P \<Longrightarrow> outcome_below b b') \<Longrightarrow> outcome_below (if P then a else b) (if P then a' else b')"
  "outcome_below a a' \<Longrightarrow> (\<And>y. outcome_below (f y) (f' y)) \<Longrightarrow> outcome_below (case z of None \<Rightarrow> a | Some y \<Rightarrow> f y) (case z of None \<Rightarrow> a' | Some y \<Rightarrow> f' y)"
  "outcome_below a a' \<Longrightarrow> (\<And>v rest. outcome_below (g v rest) (g' v rest)) \<Longrightarrow>
    outcome_below (case stk of [] \<Rightarrow> a | v # rest \<Rightarrow> g v rest) (case stk of [] \<Rightarrow> a' | v # rest \<Rightarrow> g' v rest)"
  by (simp_all split: option.split list.split)

text \<open>After a primitive the run goes on.\<close>

lemma after_prim_below:
  assumes "agree r r'" and "\<And>w t. outcome_below (k w t) (k' w t)"
  shows "outcome_below (case r of (Inl e, t) \<Rightarrow> Exit e t | (Inr w, t) \<Rightarrow> k w t) (case r' of (Inl e, t) \<Rightarrow> Exit e t | (Inr w, t) \<Rightarrow> k' w t)"
proof (cases "fst r = Inl Out_of_fuel")
  case True
  then show ?thesis by (cases r) (simp add: outcome_below_def)
next
  case False
  then have "r = r'" using assms(1) by (simp add: agree_def)
  then show ?thesis using assms(2) by (cases r'; cases "fst r'") auto
qed

lemma exec_plain_below:
  assumes "ops_below o1 o2"
  shows "outcome_below (exec_plain o1 depth count opcode pc stk s) (exec_plain o2 depth count opcode pc stk s)"
proof -
  note U = exec_unbind_below [OF assms]
  have same: "save_state o1 = save_state o2" "Fprogn_function o1 = Fprogn_function o2" using assms by (simp_all add: ops_below_def)
  have P: "agree (prim o1 c xs t) (prim o2 c xs t)" "below (prim o1 c xs) (prim o2 c xs)" for c xs t using assms by (simp_all add: ops_below_def belowD)
  have W: "outcome_below (case save_state o2 opcode s of ((f, arg), s1) \<Rightarrow>
                        (case record_unwind_protect (Unwind f) arg s1 of
                           (Some e, s2) \<Rightarrow> Exit e s2
                         | (None, s2) \<Rightarrow>
                             (case prim o1 139 [v] s2 of
                                (Inl e, s3) \<Rightarrow> Exit e s3
                              | (Inr w, s3) \<Rightarrow> exec_unbind o1 pc (int (specpdl_depth s)) (w # rest) s3)))
      (case save_state o2 opcode s of ((f, arg), s1) \<Rightarrow>
                        (case record_unwind_protect (Unwind f) arg s1 of
                           (Some e, s2) \<Rightarrow> Exit e s2
                         | (None, s2) \<Rightarrow>
                             (case prim o2 139 [v] s2 of
                                (Inl e, s3) \<Rightarrow> Exit e s3
                              | (Inr w, s3) \<Rightarrow> exec_unbind o2 pc (int (specpdl_depth s)) (w # rest) s3)))" for v rest
  proof -
    have K: "outcome_below (case prim o1 139 [v] t of (Inl e, s3) \<Rightarrow> Exit e s3 | (Inr w, s3) \<Rightarrow> exec_unbind o1 pc n (w # rest) s3)
        (case prim o2 139 [v] t of (Inl e, s3) \<Rightarrow> Exit e s3 | (Inr w, s3) \<Rightarrow> exec_unbind o2 pc n (w # rest) s3)" for t n
      by (intro after_prim_below P U)
    obtain f arg s1 where "save_state o2 opcode s = ((f, arg), s1)" by (metis prod.exhaust)
    moreover obtain x t where "record_unwind_protect (Unwind f) arg s1 = (x, t)" by fastforce
    ultimately show ?thesis using K by (cases x) simp_all
  qed
  show ?thesis unfolding exec_plain_def Let_def same
    by (intro outcome_below_cases apply_values_below opcode_value_below assms U P W after_prim_below outcome_below_refl)
qed

lemma exec_insn_below:
  assumes "ops_below o1 o2"
  shows "outcome_below (exec_insn o1 depth cs count pc x next_pc stk s) (exec_insn o2 depth cs count pc x next_pc stk s)"
proof -
  have same: "Fset (vops o1) = Fset (vops o2)" "SPECBIND_FAST_UNSAFE (vops o1) = SPECBIND_FAST_UNSAFE (vops o2)" "Fsymbol_value o1 = Fsymbol_value o2"
    using assms by (simp_all add: ops_below_def)
  have P: "below (prim o1 c xs) (prim o2 c xs)" "below (ByteExec.Ffuncall o1 xs) (ByteExec.Ffuncall o2 xs)" for c xs using assms by (simp_all add: ops_below_def)
  note A = apply_values_below [of "prim o1 _" "prim o2 _", OF P(1)] apply_values_below [of "ByteExec.Ffuncall o1" "ByteExec.Ffuncall o2", OF P(2)]
  show ?thesis
    using A exec_unbind_below [OF assms] exec_plain_below [OF assms] exec_jump_below [OF assms]
    by (cases x) (simp_all add: exec_insn_def same Let_def split: option.split list.split)
qed

lemma bc_run_below:
  assumes "ops_below o1 o2" and "bc_run fetch o1 depth cs count pc stk s = Some r"
  shows "(\<exists>t. r = Exit Out_of_fuel t) \<or> bc_run fetch o2 depth cs count pc stk s = Some r"
  using assms(2)
proof (induction rule: bc_run_induct)
  case (none pc stk s)
  then show ?case by (subst bc_run.simps) auto
next
  case (final pc x j stk s r)
  then have "(\<exists>t. r = Exit Out_of_fuel t) \<or> exec_insn o2 depth cs count pc x (int j) stk s = r"
    using exec_insn_below [OF assms(1), of depth cs count pc x "int j" stk s] by (auto simp: outcome_below_def)
  then show ?case using final by (subst bc_run.simps) (cases r; auto)
next
  case (step pc x j stk s pc' stk' s' r)
  have "exec_insn o2 depth cs count pc x (int j) stk s = Continue pc' stk' s'"
    using step(3) exec_insn_below [OF assms(1), of depth cs count pc x "int j" stk s] by (simp add: outcome_below_def)
  then show ?case using step by (subst bc_run.simps) simp
qed

lemma bind_args_below: "ops_below o1 o2 \<Longrightarrow> bind_args o1 xs opt args s = bind_args o2 xs opt args s"
proof (induction xs arbitrary: opt args s)
  case (Cons x tail)
  have S: "SPECBIND_FAST_UNSAFE (vops o1) = SPECBIND_FAST_UNSAFE (vops o2)" using Cons.prems by (simp add: ops_below_def)
  have "bind_arg o1 = bind_arg o2" by (intro HOL.ext, unfold bind_arg_def S, rule refl)
  then show ?case using Cons.IH [OF Cons.prems] by (simp split: list.split binding_result.split)
qed simp

lemma funcall_compiled_function_below:
  assumes B: "ops_below o1 o2" and run: "funcall_compiled_function o1 f args s = Some (r, f')"
  shows "(\<exists>t. r = Exit Out_of_fuel t) \<or> funcall_compiled_function o2 f args s = Some (r, f')"
proof -
  have kw: "keyword (vops o1) = keyword (vops o2)" and A: "agrees (vops o1) (vops o2)" using B by (simp_all add: ops_below_def)
  have same: "bind_args o1 = bind_args o2" using bind_args_below [OF B] by (intro HOL.ext)
  have body: "(\<exists>u. r = Exit Out_of_fuel u) \<or> (case execute_optimized_program o2 p n cs t of
         None \<Rightarrow> None
       | Some (Return v s3) \<Rightarrow> map_option (\<lambda>(e, s4). case e of None \<Rightarrow> Return v s4 | Some e \<Rightarrow> Exit e s4) (unbind_to (vops o2) count s3)
       | Some r \<Rightarrow> Some r) = Some r"
    if "(case execute_optimized_program o1 p n cs t of
         None \<Rightarrow> None
       | Some (Return v s3) \<Rightarrow> map_option (\<lambda>(e, s4). case e of None \<Rightarrow> Return v s4 | Some e \<Rightarrow> Exit e s4) (unbind_to (vops o1) count s3)
       | Some r \<Rightarrow> Some r) = Some r" for p n cs t count
  proof (cases "execute_optimized_program o1 p n cs t")
    case (Some q)
    then have q: "(\<exists>t. q = Exit Out_of_fuel t) \<or> execute_optimized_program o2 p n cs t = Some q"
      using bc_run_below [OF B] unfolding execute_optimized_program_def by blast
    show ?thesis
    proof (cases q)
      case (Return v s3)
      then show ?thesis using that Some q unbind_to_below [OF A, of count s3] by (auto simp: unwound_below_def)
    qed (use that Some q in auto)
  qed (use that in simp)
  show ?thesis
  proof (cases "optimize_compiled_function (keyword (vops o2)) f")
    case (Some q)
    show ?thesis
    proof (cases q)
      case (Inr g)
      obtain x s1 where r: "SPECPDL_RESERVE (int (specpdl_depth_of g)) s = (x, s1)" by fastforce
      show ?thesis
      proof (cases "bind_args o2 (arglist g) False args s1")
        case (Bound s2)
        show ?thesis
        proof (cases "instructions g")
          case (Opaque p)
          then show ?thesis using run Some Inr r Bound same kw body [where p = p and n = "stack_depth g" and cs = "constants g" and t = s2 and count = "specpdl_depth s"]
            by (cases x) (auto simp: funcall_compiled_function_def)
        qed (use run Some Inr r Bound same kw in \<open>cases x; simp add: funcall_compiled_function_def\<close>)
      qed (use run Some Inr r same kw in \<open>cases x; simp add: funcall_compiled_function_def\<close>)+
    qed (use run Some kw in \<open>simp add: funcall_compiled_function_def\<close>)
  qed (use run kw in \<open>simp add: funcall_compiled_function_def\<close>)
qed

lemma below_funcall_compiled:
  assumes "calls_below rec rec'"
  shows "below (funcall_compiled ops rec i args) (funcall_compiled ops rec' i args)" "below (Ffuncall_compiled ops rec fun args) (Ffuncall_compiled ops rec' fun args)"
proof -
  note B = ops_below_compiled [OF assms, of ops] and R = belowD [OF below_raise [OF assms, of ops]]
  have O: "agree (outcome_action ops rec r u) (outcome_action ops rec' r u)" for r u
    unfolding outcome_action_def by (cases r) (simp_all add: R agree_def [of "(Inr _, _)"] agree_def [of u])
  have C: "agree (case funcall_compiled_function (compiled_ops ops rec) g args t of None \<Rightarrow> (Inl Out_of_fuel, t) | Some (r, _) \<Rightarrow> outcome_action ops rec r (fatal t))
      (case funcall_compiled_function (compiled_ops ops rec') g args t of None \<Rightarrow> (Inl Out_of_fuel, t) | Some (r, _) \<Rightarrow> outcome_action ops rec' r (fatal t))" for g t
  proof (cases "funcall_compiled_function (compiled_ops ops rec) g args t")
    case None
    then show ?thesis by (simp add: agree_def)
  next
    case (Some q)
    obtain r f' where q: "q = (r, f')" by fastforce
    from funcall_compiled_function_below [OF B] Some q
    consider u where "r = Exit Out_of_fuel u" | "funcall_compiled_function (compiled_ops ops rec') g args t = Some (r, f')" by blast
    then show ?thesis
    proof cases
      case 1
      then show ?thesis using Some q by (simp add: agree_def outcome_action_def raise_def)
    next
      case 2
      then show ?thesis using Some q O by simp
    qed
  qed
  have F: "below (funcall_compiled ops rec i args) (funcall_compiled ops rec' i args)" for i
  proof (rule belowI)
    fix s
    show "agree (funcall_compiled ops rec i args s) (funcall_compiled ops rec' i args s)"
      unfolding funcall_compiled_def Let_def using C R by (auto simp: belowD [OF below_refl] split: option.split sum.split byte_code_error.split)
  qed
  show "below (funcall_compiled ops rec i args) (funcall_compiled ops rec' i args)" "below (Ffuncall_compiled ops rec fun args) (Ffuncall_compiled ops rec' fun args)"
    unfolding Ffuncall_compiled_def using F by (auto simp: below_refl split: lisp_object.split lrecord_type.split)
qed

section \<open>Evaluation\<close>

lemma below_call_subr:
  assumes "calls_below rec rec'"
  shows "below (call_subr ops rec sb args) (call_subr ops rec' sb args)"
proof -
  have C: "below (core_call ops rec c xs) (core_call ops rec' c xs)" for c xs
    by (cases c) (simp_all add: below_rec assms below_Fapply below_Fcall_with_condition_handler)
  show ?thesis unfolding call_subr_def Let_def
    using C below_do_value [OF assms] by (cases "subr_code sb") (simp_all add: below_refl)
qed

lemma below_continuation:
  "(\<And>i. below (f i) (f' i)) \<Longrightarrow> (\<And>x. below (g x) (g' x)) \<Longrightarrow> (\<And>x. below (h x) (h' x)) \<Longrightarrow>
    below (case k of To_subr i \<Rightarrow> f i | To_compiled x \<Rightarrow> g x | To_lambda x \<Rightarrow> h x) (case k of To_subr i \<Rightarrow> f' i | To_compiled x \<Rightarrow> g' x | To_lambda x \<Rightarrow> h' x)"
  by (cases k) simp_all

lemma below_args:
  assumes "calls_below rec rec'"
  shows "below (args_call ops rec tail vals nargs k) (args_call ops rec' tail vals nargs k)"
  unfolding args_call_def
  by (intro belows below_continuation below_call_subr below_funcall_compiled below_funcall_lambda below_rec [OF assms] assms)

lemma below_eval_retry:
  assumes "calls_below rec rec'"
  shows "below (eval_retry_call ops rec fun args nargs) (eval_retry_call ops rec' fun args nargs)"
  unfolding eval_retry_call_def
  by (rule below_indirect [OF assms])
    (auto intro!: below_signals below_special below_rec [OF assms] below_do_effect effect_below_refl below_abind below_Fapply below_with below_fatal assms
      split: lisp_object.split lrecord_type.split option.split arity.split subr_code.split)

lemma below_nested:
  assumes "calls_below rec rec'" and "below f f'"
  shows "below (leave_call (enter_call ops rec f)) (leave_call (enter_call ops rec' f'))"
  unfolding leave_call_def enter_call_def Let_def
  by (intro below_abind below_do_effect effect_below_refl below_refl belowI agree_if belowD [OF assms(2)] belowD [OF below_raise] assms(1))

lemma below_Feval:
  assumes "calls_below rec rec'"
  shows "below (Feval ops rec form) (Feval ops rec' form)"
  unfolding Feval_def
  by (auto intro!: below_nested below_with below_do_list below_rec [OF assms] below_do_value below_refl assms split: lisp_object.split)

lemma below_funcall_retry:
  assumes "calls_below rec rec'"
  shows "below (funcall_retry_call ops rec args) (funcall_retry_call ops rec' args)"
proof (cases args)
  case (Cons original_fun fun_args)
  have F: "below (funcall_function rec x f) (funcall_function rec' x f')" if "\<And>y. below (f y) (f' y)" for x f f'
    using that below_indirect [OF assms that] by (simp add: funcall_function_def below_def Let_def)
  show ?thesis unfolding funcall_retry_call_def Cons list.case
    by (rule F) (auto intro!: below_signals below_rec [OF assms] below_do_effect effect_below_refl below_with below_fatal below_call_subr below_funcall_compiled
      below_funcall_lambda assms split: lisp_object.split lrecord_type.split option.split arity.split)
qed (simp add: funcall_retry_call_def below_refl)

lemma step_below:
  assumes "calls_below rec rec'"
  shows "calls_below (step ops rec) (step ops rec')"
  unfolding calls_below_def
proof
  fix c
  have H: "below (\<lambda>s. handlers_call ops rec (condition_handlers (ext s)) sig data (error_conditions ops sig s) s)
      (\<lambda>s. handlers_call ops rec' (condition_handlers (ext s)) sig data (error_conditions ops sig s) s)" for sig data
    by (intro belowI belowD [OF below_handlers(1) [OF assms]])
  show "below (step ops rec c) (step ops rec' c)"
    by (cases c) (simp_all add: below_Feval below_eval_retry below_args below_nested below_rec below_funcall_retry below_lambda_args below_forms below_setq below_let
        H below_handlers below_throw assms)
qed

lemma interp_below: "calls_below (interp ops n) (interp ops (n + k))"
proof (induction n)
  case 0
  then show ?case by (simp add: calls_below_def below_def)
next
  case (Suc n)
  from step_below [OF this] show ?case by (simp add: calls_below_def below_def)
qed

text \<open>
  A call that ends with some bound on the nesting of calls in the model, by a value or an exit, ends with every larger
  bound, with the same result in the same state: the bound is no part of what the evaluator does.
\<close>

lemma interp_more_fuel:
  assumes "fst (interp ops n c s) \<noteq> Inl Out_of_fuel" and "n \<le> m"
  shows "interp ops m c s = interp ops n c s"
proof -
  have "calls_below (interp ops n) (interp ops m)" using interp_below [of ops n "m - n"] assms(2) by simp
  then show ?thesis using assms(1) by (metis (no_types) calls_below_def below_def)
qed

lemma interp_more_fuel_example:
  "fst (case build sample_form empty_heap of (form, h) \<Rightarrow> interp sample_ops 1000 (Eval form) (sample_state h)) = Inr (Lisp_Int 1)"
proof -
  obtain form h where b: "build sample_form empty_heap = (form, h)" by fastforce
  have v: "fst (interp sample_ops 30 (Eval form) (sample_state h)) = Inr (Lisp_Int 1)" using sample_value b by (simp add: eval_sample_def)
  then have "interp sample_ops 1000 (Eval form) (sample_state h) = interp sample_ops 30 (Eval form) (sample_state h)"
    by (intro interp_more_fuel) simp_all
  then show ?thesis using v b by simp
qed

end
