(* ===== verification/Spec2Isabelle.thy ===== *)
theory Spec2Isabelle
  imports RangeTableOps ListProps ListDelete Sort Plist HashTableLimits IndirectBuffers EditProps Base64Region ExtentAdjust EvalRuns EvalFuel
begin

text \<open>
  A verification of the core of XEmacs 21.4, the C sources under \<open>src/src/\<close>.

  \<^bold>\<open>The program.\<close> XEmacs is an editor written around a Lisp system. The parts modelled here are
  the ones on which everything else rests: the data structures of the Lisp system (dynamic
  arrays, conses and lists, property lists, range tables, hash tables, equality and hashing) and
  the text of buffers (the gap, markers, insertion and deletion, undo, narrowing). The Lisp
  functions work on a heap of cells; \<open>delq\<close>, \<open>nreverse\<close>, \<open>sort\<close> and \<open>plist-put\<close> change it in place.
  Buffers may share a text with indirect buffers; every edit adjusts the markers, points and
  regions of all of them, records undo information in each, and runs hooks.

  \<^bold>\<open>Theories and sources.\<close>
  \<^item> \<open>Prelude\<close>: memory blocks, C division, list surgery.
  \<^item> \<open>Dynarr\<close> (\<open>dynarr.c\<close>): dynamic arrays; the locale \<open>dynamic_array\<close> states them as lists.
  \<^item> \<open>Lisp\<close> (\<open>lisp.h\<close>, \<open>data.c\<close>, \<open>alloc.c\<close>): objects, errors (\<open>lisp_error\<close>, results are
    \<open>lresult\<close>), the heap with \<open>XCAR\<close>, \<open>XCDR\<close>, \<open>Fcons\<close>, paths and proper, dotted and circular lists.
  \<^item> \<open>RangeTable\<close>, \<open>RangeTableOps\<close> (\<open>rangetab.c\<close>): the binary search, the update of a sorted array
    of ranges, the Lisp functions and the read syntax. A well-formed table stands for a
    partial function on integers.
  \<^item> \<open>ListLoop\<close> (the macros \<open>EXTERNAL_LIST_LOOP\<close> of \<open>lisp.h\<close>), \<open>ListFns\<close>, \<open>ListProps\<close> (\<open>fns.c\<close>): loops
    over lists that may be malformed or circular, with the tortoise that finds cycles.
  \<^item> \<open>Equal\<close>, \<open>EqualEquiv\<close> (\<open>internal_equal\<close> in \<open>fns.c\<close>, \<open>internal_hash\<close> in \<open>elhash.c\<close> and the methods of
    the types): equal objects have equal hash codes, as long as their parts of types that are not modelled are
    compared by identity (compiled functions are not, and their hash codes are wrong); \<open>equal\<close> is symmetric and transitive; equality of range tables.
  \<^item> \<open>ListDelete\<close>, \<open>Sort\<close>, \<open>Plist\<close> (\<open>fns.c\<close>): destructive deletion, merge sort, property lists.
  \<^item> \<open>HashTable\<close>, \<open>HashProbe\<close>, \<open>HashTableProps\<close>, \<open>HashTableOps\<close>, \<open>HashTableSpec\<close>, \<open>HashTableLimits\<close>
    (\<open>elhash.c\<close>): open addressing with linear probing, growth, deletion that closes the gap behind it,
    the Lisp functions, weak tables. The locale \<open>hash_test\<close> has the laws a test and a hash function
    must satisfy; it is interpreted for the tests \<open>eq\<close>, \<open>eql\<close> and \<open>equal\<close>, the latter on a
    fixed heap. A table stands for a map from keys to values. A test is \<open>equality\<close>: it may signal an error or not return, as
    \<open>internal_equal\<close> does for deep and circular keys, and so may the operations, but only then (\<open>table_result\<close>).
  \<^item> \<open>Int32\<close>: conversion to the C type \<open>int\<close>, where the code narrows a wider value (extents, undo).
  \<^item> \<open>BufferText\<close>, \<open>BufferGap\<close> (\<open>insdel.c\<close>, \<open>buffer.h\<close>): memory with a gap and a second gap at the end,
    markers as memory indices, gap motion in chunks that a quit may stop, growth.
  \<^item> \<open>BufferEdit\<close>, \<open>BufferProps\<close>, \<open>BufferDelete\<close>, \<open>IndirectBuffers\<close> (\<open>insdel.c\<close>, records of \<open>undo.c\<close>):
    \<open>buffer_insert_string_1\<close>, \<open>buffer_delete_range\<close>, \<open>buffer_replace_char\<close>, sessions of changes and
    hooks, for a text shared by several buffers (\<open>views\<close>). The locale \<open>hook_observer\<close> collects what the
    hooks leave alone.
  \<^item> \<open>EditFns\<close>, \<open>UndoProps\<close>, \<open>EditReady\<close>, \<open>UndoSpec\<close>, \<open>EditProps\<close> (\<open>editfns.c\<close>, \<open>undo.c\<close>, positions in
    \<open>insdel.c\<close>): editing commands, narrowing, \<open>primitive-undo\<close>, truncation of undo lists.
  \<^item> \<open>GapArray\<close>, \<open>ExtentList\<close>, \<open>ExtentSoe\<close>, \<open>ExtentMap\<close>, \<open>ExtentMapProps\<close>, \<open>ExtentAdjust\<close>
    (\<open>extents.c\<close>): extents, the ranges of text that carry properties. A buffer keeps them in two gap
    arrays sorted by start and by end, and in a cache, the stack of extents over one position. The
    locale \<open>element_array\<close> states arrays as lists; it is interpreted for gap arrays. Extents live in a
    store indexed by address, since lists and stack share them. Modelled are the arrays, the binary
    search, the motion of the stack, attaching and detaching, \<open>map-extents\<close> for functions that do not
    change the text, and what motion of the gap, insertion and deletion do to the ends of extents.
  \<^item> \<open>ByteOpt\<close>, \<open>ByteInsn\<close>, \<open>ByteOptProps\<close>, \<open>ByteOptFix\<close>, \<open>ByteOptSpec\<close> (\<open>bytecode.c\<close>): the optimizer
    that checks byte code, shortens operands and makes jumps relative, lengthening them until all
    reach; \<open>decode\<close> reads an instruction of either format.
  \<^item> \<open>Specpdl\<close>, \<open>SpecpdlProps\<close> (\<open>eval.c\<close>, \<open>backtrace.h\<close>): the special binding stack, with the state of the
    Lisp system (\<open>lisp_state\<close>): \<open>specbind\<close>, \<open>record_unwind_protect\<close>, \<open>unbind_to\<close>, growth.
  \<^item> \<open>ByteExec\<close>, \<open>ByteExecProps\<close>, \<open>ByteTypes\<close>, \<open>ByteFun\<close> (\<open>bytecode.c\<close>, \<open>make-byte-code\<close> in \<open>alloc.c\<close>): the
    interpreter, one instruction after the other over a stack of values and the binding stack; running an
    optimized program is running its source; a type system for byte code and its safety; calls of
    compiled functions with required, optional and rest variables.
  \<^item> \<open>Evaluator\<close>, \<open>EvalControl\<close>, \<open>EvalProps\<close>, \<open>EvalSample\<close>, \<open>EvalRuns\<close>, \<open>EvalFuel\<close> (\<open>eval.c\<close>, \<open>indirect_function\<close> in
    \<open>data.c\<close>): \<open>eval\<close>, \<open>funcall\<close>, \<open>apply\<close>, the special forms, calls of C functions, lambda expressions and
    compiled functions, \<open>catch\<close> and \<open>throw\<close>, \<open>condition-case\<close>, handlers and \<open>signal\<close>. The C functions call each other;
    they are the cases of one function \<open>step\<close>, which is given the calls it may make. A \<open>longjmp\<close> is an exit
    that C functions pass on to the one that called \<open>setjmp\<close>.
  \<^item> \<open>Base64\<close>, \<open>Base64Props\<close>, \<open>Base64Region\<close> (\<open>fns.c\<close>): base64 of strings and of regions.

  \<^bold>\<open>What is shown.\<close> Each component refines an abstract one: range tables partial functions, hash
  tables and property lists maps, lists sequences of elements, buffers strings with positions, undo
  lists sequences of earlier texts, extents pairs of positions. The operations keep the invariants
  (\<open>range_table_ok\<close>, \<open>ht_ok\<close>, \<open>buffer_ok\<close>, \<open>history_ok\<close>, \<open>extents_ok\<close>) and return; errors and quits are values, and what they leave behind is part
  of the statements. Where the code does something else than its documentation says, the theorem
  says what: a range table mapping that misses an entry, \<open>canonicalize-plist\<close> that keeps nil
  values, \<open>delq\<close> on a circular list, hash tables that cannot grow, narrowing and hooks of indirect
  buffers, a stack of extents left in the gap, jumps that are too far, a binding stack that overflows, a throw to a
  catch that is being left.

  \<^bold>\<open>Loops and bounds.\<close> Loops with a measure are HOL functions. Loops over lists and probing loops
  that may run for ever are \<open>partial_function (option)\<close>: not returning is \<open>None\<close>, and that an operation
  returns is proved as such (for hash tables with \<open>equal\<close>: as far as the test returns). Only the evaluator has fuel: \<open>interp ops n\<close> nests calls at most \<open>n\<close> deep, and a call
  that ends with some \<open>n\<close> ends in the same way with every larger one (\<open>EvalFuel.interp_more_fuel\<close>). Positions are integers and the limit \<open>EMACS_INT_MAX\<close> of
  a 64-bit build is checked where the code checks it; hash codes are 64-bit words and wrap around. Ends of extents and the sizes that
  \<open>truncate_undo_list\<close> adds up are 32 bits wide and wrap (\<open>to_int32\<close>); the theorems on them ask for less than 1 GB of text and gap,
  2 GB of gap and 2 GB of undo information. Jumps in byte code have 16 bits, and the theorems on the optimizer ask for at most
  21845 bytes. The stack depth given to \<open>byte-code\<close> is taken to fit in an \<open>int\<close>.

  \<^bold>\<open>Parameters.\<close> Calls of Lisp functions, the equality and hash methods of types that are not modelled,
  addresses of objects and the quit flag are arguments of the definitions. What the theorems ask of them is
  named: \<open>plain_objects\<close> (types compared by identity), \<open>world_keeps\<close> (functions called during binding leave the binding stack as it
  was), \<open>world_ok\<close> (the same of the evaluator's stacks); the interpreter takes what opcodes
  call as a record \<open>bc_ops\<close>, and the evaluator what it calls as a record \<open>eval_ops\<close>. Change hooks are logged and do not themselves edit.

  \<^bold>\<open>Not modelled.\<close> The debugger, hooks and autoloading, reader and printer, the collector apart from weak
  hash tables, properties and fragments of extents, searching and syntax, Mule and coding systems (the model is of a build
  without Mule), display, windows and frames, events and keymaps, files and processes,
  specifiers, window system interfaces, the allocators, the tools in \<open>lib-src\<close>: large, or made of
  input, output and platform code. Of the modelled files, printing and memory statistics. Planned
  next: markers as Lisp objects (\<open>marker.c\<close>), comparison of property lists (\<open>fns.c\<close>),
  line numbers (\<open>line-number.c\<close>), keymaps.
\<close>

end
